(* ===== verification/Prelude.thy ===== *)
theory Prelude
  imports Main "HOL-Library.Word" "HOL-Library.Monad_Syntax"
begin

unbundle bit_operations_syntax

text \<open>
  Shared vocabulary of the development.

  \<^item> The types the C code is written in: \<open>u64\<close> for uint64_t and for unsigned long and size_t
    hashes, \<open>addr\<close> for the address of an allocated object; a C pointer is \<open>addr option\<close>
    with None for NULL.
  \<^item> Undefined behaviour. Every operation that dereferences a pointer or indexes an array returns an
    option: None stands for undefined behaviour (a NULL or dangling pointer, an index out of range)
    and for a loop that never ends. A theorem that an operation returns Some is therefore a memory
    safety and termination statement.
  \<^item> Doubly linked segments: one predicate for every intrusive list of the program (the timers of a
    blade, the nodes of a TTL queue, the list of live blades), with the frame, append and unlink
    lemmas that its users share.
\<close>

type_synonym u64 = "64 word"
type_synonym addr = nat

section \<open>The option monad of undefined behaviour\<close>

named_theorems ub_simps \<open>rules that evaluate option-monad code\<close>

definition deref :: "(addr \<rightharpoonup> 'a) \<Rightarrow> addr option \<Rightarrow> 'a option" where
  "deref h p = (case p of None \<Rightarrow> None | Some a \<Rightarrow> h a)"

lemma deref_simps [simp, ub_simps]: "deref h None = None" "deref h (Some a) = h a"
  by (simp_all add: deref_def)

definition index :: "'a list \<Rightarrow> nat \<Rightarrow> 'a option" where
  "index xs i = (if i < length xs then Some (xs ! i) else None)"

definition store :: "'a list \<Rightarrow> nat \<Rightarrow> 'a \<Rightarrow> 'a list option" where
  "store xs i v = (if i < length xs then Some (xs[i := v]) else None)"

lemma index_eq [simp, ub_simps]: "i < length xs \<Longrightarrow> index xs i = Some (xs ! i)"
  by (simp add: index_def)

lemma store_eq [simp, ub_simps]: "i < length xs \<Longrightarrow> store xs i v = Some (xs[i := v])"
  by (simp add: store_def)

lemma index_SomeD: "index xs i = Some v \<Longrightarrow> i < length xs \<and> v = xs ! i"
  by (simp add: index_def split: if_splits)

lemmas [ub_simps] = bind_eq_Some_conv

section \<open>First and last elements as pointers\<close>

fun first :: "'a list \<Rightarrow> 'a option" where
  "first [] = None"
| "first (x # xs) = Some x"

fun final :: "'a list \<Rightarrow> 'a option" where
  "final [] = None"
| "final (x # xs) = Some (last (x # xs))"

lemma first_None_iff [simp]: "first xs = None \<longleftrightarrow> xs = []" "None = first xs \<longleftrightarrow> xs = []"
  by (cases xs; simp)+

lemma final_None_iff [simp]: "final xs = None \<longleftrightarrow> xs = []" "None = final xs \<longleftrightarrow> xs = []"
  by (cases xs; simp)+

lemma final_eq: "xs \<noteq> [] \<Longrightarrow> final xs = Some (last xs)"
  by (cases xs) auto

lemma first_eq: "xs \<noteq> [] \<Longrightarrow> first xs = Some (hd xs)"
  by (cases xs) auto

lemma final_snoc [simp]: "final (xs @ [x]) = Some x"
  by (simp add: final_eq)

lemma final_append: "final (xs @ ys) = (if ys = [] then final xs else final ys)"
  by (simp add: final_eq)

lemma first_append: "first (xs @ ys) = (if xs = [] then first ys else first xs)"
  by (cases xs) auto

lemma first_SomeD: "first xs = Some x \<Longrightarrow> \<exists>ys. xs = x # ys"
  by (cases xs) auto

lemma first_Some_in: "first xs = Some x \<Longrightarrow> x \<in> set xs"
  by (cases xs) auto

lemma final_SomeD: "final xs = Some x \<Longrightarrow> \<exists>ys. xs = ys @ [x]"
  by (cases xs rule: rev_cases) auto

lemma final_Some_in: "final xs = Some x \<Longrightarrow> x \<in> set xs"
  by (auto dest: final_SomeD)

section \<open>Doubly linked segments\<close>

text \<open>
  \<open>dseg nx pv p xs q\<close>: the nodes \<open>xs\<close> are linked by the next field \<open>nx\<close> and the prev field \<open>pv\<close>;
  the first one points back to \<open>p\<close> and the last one forward to \<open>q\<close>.
\<close>

fun dseg :: "('p \<Rightarrow> 'p option) \<Rightarrow> ('p \<Rightarrow> 'p option) \<Rightarrow> 'p option \<Rightarrow> 'p list \<Rightarrow> 'p option \<Rightarrow> bool" where
  "dseg nx pv p [] q = True"
| "dseg nx pv p (x # xs) q =
     (pv x = p \<and> nx x = (case first xs of None \<Rightarrow> q | Some y \<Rightarrow> Some y) \<and> dseg nx pv (Some x) xs q)"

definition dlist :: "('p \<Rightarrow> 'p option) \<Rightarrow> ('p \<Rightarrow> 'p option) \<Rightarrow> 'p list \<Rightarrow> bool" where
  "dlist nx pv xs \<longleftrightarrow> distinct xs \<and> dseg nx pv None xs None"

lemma dseg_cong:
  "(\<And>x. x \<in> set xs \<Longrightarrow> nx x = nx' x \<and> pv x = pv' x) \<Longrightarrow> dseg nx pv p xs q = dseg nx' pv' p xs q"
  by (induction xs arbitrary: p) auto

lemma dseg_append:
  "dseg nx pv p (xs @ ys) q \<longleftrightarrow>
     dseg nx pv p xs (if ys = [] then q else first ys) \<and> dseg nx pv (if xs = [] then p else final xs) ys q"
  by (induction xs arbitrary: p) (auto simp: first_append final_eq split: option.splits)

lemma dseg_set_end:
  assumes "dseg nx pv p (xs @ [x]) q" and "distinct (xs @ [x])"
    and "nx' x = q'" and "\<And>y. y \<in> set xs \<Longrightarrow> nx' y = nx y" and "\<And>y. y \<in> set (xs @ [x]) \<Longrightarrow> pv' y = pv y"
  shows "dseg nx' pv' p (xs @ [x]) q'"
proof -
  have "dseg nx' pv' p xs (Some x)"
    using assms dseg_cong [of xs nx nx' pv pv' p "Some x"] by (auto simp: dseg_append)
  then show ?thesis using assms by (auto simp: dseg_append)
qed

lemma dseg_set_start:
  assumes "dseg nx pv p (x # xs) q" and "distinct (x # xs)"
    and "pv' x = p'" and "\<And>y. y \<in> set xs \<Longrightarrow> pv' y = pv y" and "\<And>y. y \<in> set (x # xs) \<Longrightarrow> nx' y = nx y"
  shows "dseg nx' pv' p' (x # xs) q"
proof -
  have "dseg nx' pv' (Some x) xs q"
    using assms dseg_cong [of xs nx nx' pv pv' "Some x" q] by auto
  then show ?thesis using assms by auto
qed

lemma dlist_Nil [simp]: "dlist nx pv []"
  by (simp add: dlist_def)

lemma dlist_distinct: "dlist nx pv xs \<Longrightarrow> distinct xs"
  by (simp add: dlist_def)

lemma dlist_cong:
  "(\<And>x. x \<in> set xs \<Longrightarrow> nx x = nx' x \<and> pv x = pv' x) \<Longrightarrow> dlist nx pv xs = dlist nx' pv' xs"
  unfolding dlist_def using dseg_cong [of xs nx nx' pv pv'] by auto

lemma dlist_split:
  "dlist nx pv (ys @ x # zs) \<Longrightarrow> nx x = first zs \<and> pv x = final ys"
  by (cases zs) (auto simp: dlist_def dseg_append)

lemma dlist_hd: "dlist nx pv (x # xs) \<Longrightarrow> nx x = first xs \<and> pv x = None"
  using dlist_split [of nx pv "[]" x xs] by simp

text \<open>Appending a fresh node at the tail.\<close>

lemma dlist_snoc:
  assumes "dlist nx pv xs" and "x \<notin> set xs"
    and "nx' x = None" and "pv' x = final xs"
    and "\<And>y. final xs = Some y \<Longrightarrow> nx' y = Some x"
    and "\<And>y. y \<in> set xs \<Longrightarrow> final xs \<noteq> Some y \<Longrightarrow> nx' y = nx y"
    and "\<And>y. y \<in> set xs \<Longrightarrow> pv' y = pv y"
  shows "dlist nx' pv' (xs @ [x])"
proof (cases xs rule: rev_cases)
  case Nil
  with assms show ?thesis by (simp add: dlist_def)
next
  case (snoc ys y)
  have "dseg nx' pv' None (ys @ [y]) (Some x)"
  proof (rule dseg_set_end)
    show "dseg nx pv None (ys @ [y]) None" "distinct (ys @ [y])"
      using assms(1) snoc by (auto simp: dlist_def)
    show "nx' y = Some x" using assms(5) snoc by simp
    show "\<And>z. z \<in> set ys \<Longrightarrow> nx' z = nx z"
      using assms(6) \<open>distinct (ys @ [y])\<close> snoc by auto
    show "\<And>z. z \<in> set (ys @ [y]) \<Longrightarrow> pv' z = pv z"
      using assms(7) snoc by auto
  qed
  then have "dseg nx' pv' None ((ys @ [y]) @ [x]) None"
    using assms(3,4) snoc by (subst dseg_append) simp
  then show ?thesis using assms(1,2) snoc by (auto simp: dlist_def)
qed

text \<open>Pushing a fresh node at the head.\<close>

lemma dlist_cons:
  assumes "dlist nx pv xs" and "x \<notin> set xs"
    and "nx' x = first xs" and "pv' x = None"
    and "\<And>y. first xs = Some y \<Longrightarrow> pv' y = Some x"
    and "\<And>y. y \<in> set xs \<Longrightarrow> first xs \<noteq> Some y \<Longrightarrow> pv' y = pv y"
    and "\<And>y. y \<in> set xs \<Longrightarrow> nx' y = nx y"
  shows "dlist nx' pv' (x # xs)"
proof (cases xs)
  case Nil
  with assms show ?thesis by (simp add: dlist_def)
next
  case (Cons y ys)
  have "dseg nx' pv' (Some x) (y # ys) None"
  proof (rule dseg_set_start)
    show "dseg nx pv None (y # ys) None" "distinct (y # ys)"
      using assms(1) Cons by (auto simp: dlist_def)
    show "pv' y = Some x" using assms(5) Cons by simp
    show "\<And>z. z \<in> set ys \<Longrightarrow> pv' z = pv z"
      using assms(6) \<open>distinct (y # ys)\<close> Cons by auto
    show "\<And>z. z \<in> set (y # ys) \<Longrightarrow> nx' z = nx z"
      using assms(7) Cons by auto
  qed
  then show ?thesis using assms(1,2,3,4) Cons by (auto simp: dlist_def)
qed

text \<open>Unlinking a node: its neighbours are joined, every other link is kept.\<close>

lemma dlist_unlink:
  assumes "dlist nx pv (ys @ x # zs)"
    and "\<And>y. final ys = Some y \<Longrightarrow> nx' y = first zs"
    and "\<And>y. y \<in> set (ys @ zs) \<Longrightarrow> final ys \<noteq> Some y \<Longrightarrow> nx' y = nx y"
    and "\<And>z. first zs = Some z \<Longrightarrow> pv' z = final ys"
    and "\<And>y. y \<in> set (ys @ zs) \<Longrightarrow> first zs \<noteq> Some y \<Longrightarrow> pv' y = pv y"
  shows "dlist nx' pv' (ys @ zs)"
proof -
  have d: "distinct (ys @ x # zs)" and s: "dseg nx pv None (ys @ x # zs) None"
    using assms(1) by (auto simp: dlist_def)
  have l: "dseg nx' pv' None ys (first zs)"
  proof (cases ys rule: rev_cases)
    case Nil then show ?thesis by simp
  next
    case (snoc us u)
    show ?thesis unfolding snoc
    proof (rule dseg_set_end)
      show "dseg nx pv None (us @ [u]) (Some x)" using s snoc by (simp add: dseg_append)
      show "distinct (us @ [u])" using d snoc by simp
      show "nx' u = first zs" using assms(2) snoc by simp
      show "\<And>y. y \<in> set us \<Longrightarrow> nx' y = nx y" using assms(3) d snoc by fastforce
      show "\<And>y. y \<in> set (us @ [u]) \<Longrightarrow> pv' y = pv y" using assms(5) d snoc
        by (auto dest!: first_Some_in)
    qed
  qed
  have r: "dseg nx' pv' (final ys) zs None"
  proof (cases zs)
    case Nil then show ?thesis by simp
  next
    case (Cons z us)
    show ?thesis unfolding Cons
    proof (rule dseg_set_start)
      show "dseg nx pv (Some x) (z # us) None" using s Cons by (simp add: dseg_append)
      show "distinct (z # us)" using d Cons by simp
      show "pv' z = final ys" using assms(4) Cons by simp
      show "\<And>y. y \<in> set us \<Longrightarrow> pv' y = pv y" using assms(5) d Cons by fastforce
      show "\<And>y. y \<in> set (z # us) \<Longrightarrow> nx' y = nx y" using assms(3) d Cons
        by (auto dest!: final_Some_in)
    qed
  qed
  have "dseg nx' pv' None (ys @ zs) None"
    using l r by (cases "ys = []"; cases "zs = []") (auto simp: dseg_append)
  then show ?thesis using d by (auto simp: dlist_def)
qed

lemmas dlist_tl = dlist_unlink [where ys = "[]", simplified]

section \<open>Words\<close>

lemma unat_add_small:
  fixes a b :: "'a::len word"
  shows "unat a + unat b < 2 ^ LENGTH('a) \<Longrightarrow> unat (a + b) = unat a + unat b"
  by (simp add: unat_word_ariths)

lemma unat_lt64 [simp]: "unat (a::u64) < 18446744073709551616"
  using unsigned_less [of a] by simp

lemma unat_Suc64: "unat (a::u64) + 1 < 2 ^ 64 \<Longrightarrow> unat (a + 1) = unat a + 1"
  by (simp add: unat_word_ariths)

lemma nat_and_mask: "(n::nat) AND (2 ^ k - 1) = n mod 2 ^ k"
  by (metis mask_eq_exp_minus_1 take_bit_eq_mask take_bit_eq_mod)

lemma unat_and_mask: "unat ((w::'a::len word) AND mask k) = unat w mod 2 ^ k"
  by (metis take_bit_eq_mask take_bit_eq_mod unsigned_take_bit_eq)

lemma unat_drop_bit: "unat (drop_bit k (w::'a::len word)) = unat w div 2 ^ k"
  by (metis unat_drop_bit_eq drop_bit_eq_div)

lemma unat_exp64: "k < 64 \<Longrightarrow> unat (2 ^ k :: u64) = 2 ^ k"
proof -
  assume k: "k < 64"
  have "(2 ^ k :: nat) < 2 ^ 64" using k by (intro power_strict_increasing) simp_all
  moreover have "unat (2 ^ k :: u64) = unat (push_bit k 1 :: u64)" by simp
  moreover have "\<dots> = take_bit 64 (push_bit k 1)" by (simp only: unsigned_push_bit_eq) simp
  ultimately show ?thesis using k by (simp add: take_bit_nat_eq_self)
qed

lemma unat_mask64: "k < 64 \<Longrightarrow> unat (mask k :: u64) = 2 ^ k - 1"
  using unat_exp64 [of k] unat_sub [of 1 "2 ^ k :: u64"] by (simp add: mask_eq_exp_minus_1 word_le_nat_alt)

section \<open>Finite maps\<close>

lemma card_dom_insert: "finite (dom m) \<Longrightarrow> m k = None \<Longrightarrow> card (dom (m(k \<mapsto> v))) = Suc (card (dom m))"
  by (simp add: card_insert_if domIff)

lemma card_dom_remove: "finite (dom m) \<Longrightarrow> m k \<noteq> None \<Longrightarrow> Suc (card (dom (m(k := None)))) = card (dom m)"
  by (metis card_Suc_Diff1 domIff dom_fun_upd)

lemma card_dom_restrict:
  assumes "finite (dom m)"
  shows "card (dom m) = card (dom (m |` S)) + card (dom m - S)"
proof -
  have "dom m = dom (m |` S) \<union> (dom m - S)" "dom (m |` S) \<inter> (dom m - S) = {}"
    by auto
  then show ?thesis using assms by (metis card_Un_disjoint finite_Un)
qed

end
