(* ===== verification/Lawn2.thy ===== *)
theory Lawn2
  imports Prelude
begin

unbundle bit_operations_syntax

text \<open>
  The lawn2 timer store, src/lawn2.c and src/lawn2.h: data and operations, field by field and
  statement by statement.

  \<^item> Timers are caller-owned objects in a heap \<open>timers\<close>, from addresses to \<open>lawn2_timer\<close> records;
    a \<open>lawn2_timer *\<close> is an \<open>addr option\<close>.
  \<^item> The blade table \<open>tab\<close> is a list; a \<open>blade *\<close> is an index into it. The live list is threaded
    through the \<open>live_prev\<close> and \<open>live_next\<close> indices of the blades, as in the code.
  \<^item> Times and TTLs are 64-bit words, whose addition wraps. \<open>cap\<close>, \<open>count\<close> and \<open>bits\<close> count allocated
    objects and are naturals (a table of \<open>2 ^ 59\<close> blades of 48 bytes cannot be allocated).
  \<^item> None is undefined behaviour or divergence, see Prelude. Allocation is assumed to succeed, as the
    code assumes (it does not test the result of calloc).
\<close>

record lawn2_timer =
  tm_ttl :: u64
  tm_expiration :: u64
  tm_next :: "addr option"
  tm_prev :: "addr option"
  tm_in_store :: bool
  tm_id :: u64

type_synonym timers = "addr \<rightharpoonup> lawn2_timer"

record blade =
  bl_ttl :: u64
  bl_used :: bool
  bl_head :: "addr option"
  bl_tail :: "addr option"
  live_prev :: "nat option"
  live_next :: "nat option"

record lawn2 =
  l2_now :: u64
  l2_tab :: "blade list"
  l2_cap :: nat
  l2_bits :: nat
  l2_count :: nat
  l2_live :: u64
  l2_next_expiration :: u64
  l2_live_head :: "nat option"

definition GOLDEN :: u64 where
  "GOLDEN = 0x9E3779B97F4A7C15"

text \<open>What calloc leaves in a blade.\<close>

definition blade_zero :: blade where
  "blade_zero = \<lparr>bl_ttl = 0, bl_used = False, bl_head = None, bl_tail = None, live_prev = None, live_next = None\<rparr>"

text \<open>Writing a field of a timer or of a blade through a pointer.\<close>

definition upd :: "timers \<Rightarrow> addr \<Rightarrow> (lawn2_timer \<Rightarrow> lawn2_timer) \<Rightarrow> timers option" where
  "upd h a f = do { t \<leftarrow> h a; Some (h(a \<mapsto> f t)) }"

definition upd_blade :: "lawn2 \<Rightarrow> nat \<Rightarrow> (blade \<Rightarrow> blade) \<Rightarrow> lawn2 option" where
  "upd_blade l b f = do {
     x \<leftarrow> index (l2_tab l) b;
     tab \<leftarrow> store (l2_tab l) b (f x);
     Some (l\<lparr>l2_tab := tab\<rparr>)
   }"

section \<open>The live list\<close>

definition live_link :: "lawn2 \<Rightarrow> nat \<Rightarrow> lawn2 option" where
  "live_link l b = do {
     l \<leftarrow> upd_blade l b (\<lambda>x. x\<lparr>live_prev := None\<rparr>);
     l \<leftarrow> upd_blade l b (\<lambda>x. x\<lparr>live_next := l2_live_head l\<rparr>);
     l \<leftarrow> (case l2_live_head l of
            None \<Rightarrow> Some l
          | Some k \<Rightarrow> upd_blade l k (\<lambda>x. x\<lparr>live_prev := Some b\<rparr>));
     Some (l\<lparr>l2_live_head := Some b\<rparr>)
   }"

definition live_unlink :: "lawn2 \<Rightarrow> nat \<Rightarrow> lawn2 option" where
  "live_unlink l b = do {
     x \<leftarrow> index (l2_tab l) b;
     l \<leftarrow> (case live_prev x of
            Some p \<Rightarrow> upd_blade l p (\<lambda>y. y\<lparr>live_next := live_next x\<rparr>)
          | None \<Rightarrow> Some (l\<lparr>l2_live_head := live_next x\<rparr>));
     x \<leftarrow> index (l2_tab l) b;
     l \<leftarrow> (case live_next x of
            Some q \<Rightarrow> upd_blade l q (\<lambda>y. y\<lparr>live_prev := live_prev x\<rparr>)
          | None \<Rightarrow> Some l);
     upd_blade l b (\<lambda>y. y\<lparr>live_prev := None, live_next := None\<rparr>)
   }"

section \<open>The blade table\<close>

text \<open>
  Open addressing with linear probing. The probe index is a size_t whose wrap-around at \<open>2 ^ 64\<close> is
  invisible under the mask; a table without a free or matching slot makes the loop run forever,
  which is None here.
\<close>

partial_function (option) find_from :: "blade list \<Rightarrow> nat \<Rightarrow> u64 \<Rightarrow> nat \<Rightarrow> nat option" where
  "find_from tab msk ttl i = do {
     b \<leftarrow> index tab (i AND msk);
     (if \<not> bl_used b \<or> bl_ttl b = ttl then Some (i AND msk) else find_from tab msk ttl (i + 1))
   }"

definition probe_start :: "nat \<Rightarrow> u64 \<Rightarrow> nat" where
  "probe_start bits ttl = unat (drop_bit (64 - bits) (ttl * GOLDEN))"

definition find_slot :: "lawn2 \<Rightarrow> u64 \<Rightarrow> nat option" where
  "find_slot l ttl = find_from (l2_tab l) (l2_cap l - 1) ttl (probe_start (l2_bits l) ttl)"

text \<open>
  grow: a table of twice the size, every used blade copied to its slot, the live list rebuilt.
  \<open>grow_loop\<close> is the loop over the indices of the old table \<open>ot\<close>.
\<close>

fun grow_loop :: "blade list \<Rightarrow> nat list \<Rightarrow> lawn2 \<Rightarrow> nat \<Rightarrow> (lawn2 \<times> nat) option" where
  "grow_loop ot [] l new_count = Some (l, new_count)"
| "grow_loop ot (i # is) l new_count = do {
     old \<leftarrow> index ot i;
     (if bl_used old then do {
        b \<leftarrow> find_slot l (bl_ttl old);
        l \<leftarrow> upd_blade l b (\<lambda>_. old);
        l \<leftarrow> upd_blade l b (\<lambda>x. x\<lparr>live_prev := None, live_next := None\<rparr>);
        x \<leftarrow> index (l2_tab l) b;
        l \<leftarrow> (if bl_head x \<noteq> None then live_link l b else Some l);
        grow_loop ot is l (new_count + 1)
      } else grow_loop ot is l new_count)
   }"

definition grow :: "lawn2 \<Rightarrow> lawn2 option" where
  "grow l = do {
     let nb = l2_bits l + 1;
     let ncap = 2 ^ nb;
     let ot = l2_tab l;
     let ocap = l2_cap l;
     (l, new_count) \<leftarrow> grow_loop ot [0..<ocap]
        (l\<lparr>l2_tab := replicate ncap blade_zero, l2_cap := ncap, l2_bits := nb, l2_live_head := None\<rparr>) 0;
     Some (l\<lparr>l2_count := new_count\<rparr>)
   }"

section \<open>The operations\<close>

definition lawn2_new :: lawn2 where
  "lawn2_new = \<lparr>l2_now = 0, l2_tab = replicate (2 ^ 4) blade_zero, l2_cap = 2 ^ 4, l2_bits = 4,
     l2_count = 0, l2_live = 0, l2_next_expiration = - 1, l2_live_head = None\<rparr>"

definition lawn2_add :: "lawn2 \<Rightarrow> timers \<Rightarrow> addr \<Rightarrow> u64 \<Rightarrow> (lawn2 \<times> timers) option" where
  "lawn2_add l h n ttl = do {
     l \<leftarrow> (if (l2_count l + 1) * 10 \<ge> l2_cap l * 7 then grow l else Some l);
     b \<leftarrow> find_slot l ttl;
     x \<leftarrow> index (l2_tab l) b;
     let was_empty = (bl_head x = None);
     l \<leftarrow> (if \<not> bl_used x then do {
            l \<leftarrow> upd_blade l b (\<lambda>x. x\<lparr>bl_used := True, bl_ttl := ttl, bl_head := None, bl_tail := None\<rparr>);
            Some (l\<lparr>l2_count := l2_count l + 1\<rparr>)
          } else Some l);
     h \<leftarrow> upd h n (\<lambda>t. t\<lparr>tm_ttl := ttl, tm_expiration := l2_now l + ttl, tm_in_store := True\<rparr>);
     x \<leftarrow> index (l2_tab l) b;
     h \<leftarrow> upd h n (\<lambda>t. t\<lparr>tm_next := None, tm_prev := bl_tail x\<rparr>);
     (l, h) \<leftarrow> (case bl_tail x of
         Some p \<Rightarrow> do { h \<leftarrow> upd h p (\<lambda>t. t\<lparr>tm_next := Some n\<rparr>); Some (l, h) }
       | None \<Rightarrow> do { l \<leftarrow> upd_blade l b (\<lambda>x. x\<lparr>bl_head := Some n\<rparr>); Some (l, h) });
     l \<leftarrow> upd_blade l b (\<lambda>x. x\<lparr>bl_tail := Some n\<rparr>);
     let l = l\<lparr>l2_live := l2_live l + 1\<rparr>;
     t \<leftarrow> h n;
     let l = (if tm_expiration t < l2_next_expiration l
              then l\<lparr>l2_next_expiration := tm_expiration t\<rparr> else l);
     l \<leftarrow> (if was_empty then live_link l b else Some l);
     Some (l, h)
   }"

definition lawn2_del :: "lawn2 \<Rightarrow> timers \<Rightarrow> addr \<Rightarrow> (lawn2 \<times> timers) option" where
  "lawn2_del l h n = do {
     t \<leftarrow> h n;
     (if \<not> tm_in_store t then Some (l, h) else do {
        b \<leftarrow> find_slot l (tm_ttl t);
        (l, h) \<leftarrow> (case tm_prev t of
            Some p \<Rightarrow> do { h \<leftarrow> upd h p (\<lambda>s. s\<lparr>tm_next := tm_next t\<rparr>); Some (l, h) }
          | None \<Rightarrow> do { l \<leftarrow> upd_blade l b (\<lambda>x. x\<lparr>bl_head := tm_next t\<rparr>); Some (l, h) });
        t \<leftarrow> h n;
        (l, h) \<leftarrow> (case tm_next t of
            Some q \<Rightarrow> do { h \<leftarrow> upd h q (\<lambda>s. s\<lparr>tm_prev := tm_prev t\<rparr>); Some (l, h) }
          | None \<Rightarrow> do { l \<leftarrow> upd_blade l b (\<lambda>x. x\<lparr>bl_tail := tm_prev t\<rparr>); Some (l, h) });
        h \<leftarrow> upd h n (\<lambda>s. s\<lparr>tm_next := None, tm_prev := None, tm_in_store := False\<rparr>);
        let l = l\<lparr>l2_live := l2_live l - 1\<rparr>;
        x \<leftarrow> index (l2_tab l) b;
        l \<leftarrow> (if bl_head x = None then live_unlink l b else Some l);
        Some (l, h)
      })
   }"

text \<open>
  The argument \<open>out\<close> is \<open>lawn2_timer **out_head\<close>: None for the NULL pointer, Some v for a pointer
  to a variable that holds v. \<open>fire_head\<close> is the body of the inner loop of collect_expired,
  \<open>drain\<close> that loop for one blade, \<open>collect_loop\<close> the outer loop over the live list.
\<close>

definition fire_head ::
  "lawn2 \<Rightarrow> timers \<Rightarrow> addr option option \<Rightarrow> nat \<Rightarrow> addr \<Rightarrow> (lawn2 \<times> timers \<times> addr option option) option" where
  "fire_head l h out b n = do {
     t \<leftarrow> h n;
     l \<leftarrow> upd_blade l b (\<lambda>x. x\<lparr>bl_head := tm_next t\<rparr>);
     (l, h) \<leftarrow> (case tm_next t of
         Some q \<Rightarrow> do { h \<leftarrow> upd h q (\<lambda>s. s\<lparr>tm_prev := None\<rparr>); Some (l, h) }
       | None \<Rightarrow> do { l \<leftarrow> upd_blade l b (\<lambda>x. x\<lparr>bl_tail := None\<rparr>); Some (l, h) });
     h \<leftarrow> upd h n (\<lambda>s. s\<lparr>tm_next := None, tm_prev := None, tm_in_store := False\<rparr>);
     (case out of
        Some oh \<Rightarrow> do {
          h \<leftarrow> upd h n (\<lambda>s. s\<lparr>tm_next := oh, tm_prev := None\<rparr>);
          Some (l, h, Some (Some n))
        }
      | None \<Rightarrow> do {
          h \<leftarrow> upd h n (\<lambda>s. s\<lparr>tm_next := None, tm_prev := None\<rparr>);
          Some (l, h, None)
        })
   }"

partial_function (option) drain ::
  "u64 \<Rightarrow> nat \<Rightarrow> lawn2 \<Rightarrow> timers \<Rightarrow> addr option option \<Rightarrow> u64 \<Rightarrow>
     (lawn2 \<times> timers \<times> addr option option \<times> u64) option" where
  "drain now b l h out fired = do {
     x \<leftarrow> index (l2_tab l) b;
     (case bl_head x of
        None \<Rightarrow> Some (l, h, out, fired)
      | Some n \<Rightarrow> do {
          t \<leftarrow> h n;
          (if tm_expiration t \<le> now then do {
             (l, h, out) \<leftarrow> fire_head l h out b n;
             drain now b l h out (fired + 1)
           } else Some (l, h, out, fired))
        })
   }"

partial_function (option) collect_loop ::
  "u64 \<Rightarrow> nat option \<Rightarrow> lawn2 \<Rightarrow> timers \<Rightarrow> addr option option \<Rightarrow> u64 \<Rightarrow> u64 \<Rightarrow>
     (lawn2 \<times> timers \<times> addr option option \<times> u64 \<times> u64) option" where
  "collect_loop now p l h out fired ne =
     (case p of
        None \<Rightarrow> Some (l, h, out, fired, ne)
      | Some b \<Rightarrow> do {
          x \<leftarrow> index (l2_tab l) b;
          let next_live = live_next x;
          (l, h, out, fired) \<leftarrow> drain now b l h out fired;
          x \<leftarrow> index (l2_tab l) b;
          (l, ne) \<leftarrow> (case bl_head x of
              None \<Rightarrow> do { l \<leftarrow> live_unlink l b; Some (l, ne) }
            | Some n \<Rightarrow> do {
                t \<leftarrow> h n;
                Some (l, if tm_expiration t < ne then tm_expiration t else ne)
              });
          collect_loop now next_live l h out fired ne
        })"

definition collect_expired ::
  "lawn2 \<Rightarrow> timers \<Rightarrow> u64 \<Rightarrow> addr option option \<Rightarrow>
     (u64 \<times> lawn2 \<times> timers \<times> addr option option) option" where
  "collect_expired l h now out =
     (let out = map_option (\<lambda>_. None) out in
      if now < l2_next_expiration l then Some (0, l, h, out)
      else do {
        (l, h, out, fired, ne) \<leftarrow> collect_loop now (l2_live_head l) l h out 0 (- 1);
        Some (fired, l\<lparr>l2_live := l2_live l - fired, l2_next_expiration := ne\<rparr>, h, out)
      })"

definition lawn2_tick ::
  "lawn2 \<Rightarrow> timers \<Rightarrow> addr option option \<Rightarrow> (u64 \<times> lawn2 \<times> timers \<times> addr option option) option" where
  "lawn2_tick l h out =
     (let l = l\<lparr>l2_now := l2_now l + 1\<rparr> in collect_expired l h (l2_now l) out)"

definition lawn2_advance ::
  "lawn2 \<Rightarrow> timers \<Rightarrow> u64 \<Rightarrow> addr option option \<Rightarrow>
     (u64 \<times> lawn2 \<times> timers \<times> addr option option) option" where
  "lawn2_advance l h target_now out =
     (if target_now \<le> l2_now l then Some (0, l, h, map_option (\<lambda>_. None) out)
      else collect_expired (l\<lparr>l2_now := target_now\<rparr>) h target_now out)"

definition lawn2_size :: "lawn2 \<Rightarrow> u64" where
  "lawn2_size l = l2_live l"

definition lawn2_now :: "lawn2 \<Rightarrow> u64" where
  "lawn2_now l = l2_now l"

text \<open>The last two operations accept a NULL store.\<close>

definition lawn2_next_expiration :: "lawn2 option \<Rightarrow> u64" where
  "lawn2_next_expiration p = (case p of Some l \<Rightarrow> l2_next_expiration l | None \<Rightarrow> - 1)"

definition lawn2_set_now :: "lawn2 option \<Rightarrow> u64 \<Rightarrow> lawn2 option" where
  "lawn2_set_now p now = map_option (\<lambda>l. l\<lparr>l2_now := now\<rparr>) p"

end
