(* ===== verification/Lawn2_Table.thy ===== *)
theory Lawn2_Table
  imports Lawn2
begin

unbundle bit_operations_syntax

text \<open>
  The blade table of lawn2: linear probing finds every TTL that is in the table and a free slot for
  every other one, claiming a free slot and growing the table keep that, and the live list is a
  doubly linked list of exactly the non-empty blades.
\<close>

section \<open>Probing\<close>

definition hit :: "blade list \<Rightarrow> u64 \<Rightarrow> nat \<Rightarrow> bool" where
  "hit tab ttl j \<longleftrightarrow> \<not> bl_used (tab ! j) \<or> bl_ttl (tab ! j) = ttl"

lemma find_from_step:
  assumes "length tab = 2 ^ k"
  shows "find_from tab (2 ^ k - 1) ttl i =
    (if hit tab ttl (i mod 2 ^ k) then Some (i mod 2 ^ k) else find_from tab (2 ^ k - 1) ttl (Suc i))"
proof -
  have i: "i AND (2 ^ k - 1) = i mod 2 ^ k" by (rule nat_and_mask)
  have "i mod 2 ^ k < length tab" using assms by simp
  then show ?thesis
    by (subst find_from.simps) (simp only: i index_eq bind.bind_lunit hit_def Suc_eq_plus1)
qed

lemma find_from_reaches:
  "length tab = 2 ^ k \<Longrightarrow> hit tab ttl ((i + n) mod 2 ^ k) \<Longrightarrow>
     (\<And>m. m < n \<Longrightarrow> \<not> hit tab ttl ((i + m) mod 2 ^ k)) \<Longrightarrow>
     find_from tab (2 ^ k - 1) ttl i = Some ((i + n) mod 2 ^ k)"
proof (induction n arbitrary: i)
  case 0
  then show ?case using find_from_step [of tab k ttl i] by simp
next
  case (Suc n)
  have "\<not> hit tab ttl (i mod 2 ^ k)" using Suc.prems(3) [of 0] by simp
  then have "find_from tab (2 ^ k - 1) ttl i = find_from tab (2 ^ k - 1) ttl (Suc i)"
    using find_from_step [OF Suc.prems(1)] by simp
  also have "\<dots> = Some ((Suc i + n) mod 2 ^ k)"
  proof (rule Suc.IH [OF Suc.prems(1)])
    show "hit tab ttl ((Suc i + n) mod 2 ^ k)" using Suc.prems(2) by simp
    show "\<not> hit tab ttl ((Suc i + m) mod 2 ^ k)" if "m < n" for m
      using Suc.prems(3) [of "Suc m"] that by simp
  qed
  finally show ?case by simp
qed

lemma mod_reaches: "j < (c::nat) \<Longrightarrow> \<exists>n. (i + n) mod c = j"
proof -
  assume j: "j < c"
  have "(i + (c - i mod c + j)) mod c = (i mod c + (c - i mod c + j)) mod c"
    by (simp add: mod_add_left_eq)
  also have "i mod c + (c - i mod c + j) = c + j"
    using j mod_less_divisor [of c i] by linarith
  finally show ?thesis using j by auto
qed

lemma find_from_exists:
  assumes "length tab = 2 ^ k" and "j < 2 ^ k" and "hit tab ttl j"
  shows "\<exists>n. find_from tab (2 ^ k - 1) ttl i = Some ((i + n) mod 2 ^ k) \<and> hit tab ttl ((i + n) mod 2 ^ k) \<and>
     (\<forall>m < n. \<not> hit tab ttl ((i + m) mod 2 ^ k))"
proof -
  let ?P = "\<lambda>n. hit tab ttl ((i + n) mod 2 ^ k)"
  have ex: "\<exists>n. ?P n" using mod_reaches [OF assms(2), of i] assms(3) by auto
  define n where "n = (LEAST n. ?P n)"
  have "?P n" unfolding n_def by (rule LeastI_ex [OF ex])
  moreover have "\<forall>m < n. \<not> ?P m" unfolding n_def using not_less_Least by blast
  ultimately show ?thesis using find_from_reaches [OF assms(1), of ttl i n] by blast
qed

text \<open>What a successful probe has seen: the slots before its answer are used and hold other TTLs.\<close>

lemma find_from_SomeD:
  assumes len: "length tab = 2 ^ k" and f: "find_from tab (2 ^ k - 1) ttl i = Some j"
  shows "\<exists>n. j = (i + n) mod 2 ^ k \<and> hit tab ttl j \<and> (\<forall>m < n. \<not> hit tab ttl ((i + m) mod 2 ^ k))"
proof -
  have "\<And>tab msk ttl i j. find_from tab msk ttl i = Some j \<Longrightarrow>
     \<forall>k. length tab = 2 ^ k \<longrightarrow> msk = 2 ^ k - 1 \<longrightarrow> j < length tab \<and> hit tab ttl j"
  proof (rule find_from.raw_induct [where P = "\<lambda>tab msk ttl i j.
      \<forall>k. length tab = 2 ^ k \<longrightarrow> msk = 2 ^ k - 1 \<longrightarrow> j < length tab \<and> hit tab ttl j"])
    fix f tab msk ttl i j
    assume IH: "\<And>tab msk ttl i j. f tab msk ttl i = Some j \<Longrightarrow>
         \<forall>k. length tab = 2 ^ k \<longrightarrow> msk = 2 ^ k - 1 \<longrightarrow> j < length tab \<and> hit tab ttl j"
      and e: "index tab (i AND msk) \<bind>
        (\<lambda>b. if \<not> bl_used b \<or> bl_ttl b = ttl then Some (i AND msk) else f tab msk ttl (i + 1)) = Some j"
    show "\<forall>k. length tab = 2 ^ k \<longrightarrow> msk = 2 ^ k - 1 \<longrightarrow> j < length tab \<and> hit tab ttl j"
      using e by (auto simp: bind_eq_Some_conv hit_def dest!: index_SomeD IH split: if_splits)
  qed
  then have h: "j < 2 ^ k" "hit tab ttl j" using f len by auto
  from find_from_exists [OF len h, of i] obtain n where
    "find_from tab (2 ^ k - 1) ttl i = Some ((i + n) mod 2 ^ k)"
    "\<forall>m < n. \<not> hit tab ttl ((i + m) mod 2 ^ k)" by auto
  then show ?thesis using f h(2) by auto
qed

lemma find_from_cong:
  assumes "length tab = 2 ^ k" "length tab' = length tab"
    and "\<And>j. j < length tab \<Longrightarrow> bl_used (tab' ! j) = bl_used (tab ! j) \<and> bl_ttl (tab' ! j) = bl_ttl (tab ! j)"
    and "find_from tab (2 ^ k - 1) ttl i = Some j"
  shows "find_from tab' (2 ^ k - 1) ttl i = Some j"
proof -
  have h: "hit tab' ttl j' = hit tab ttl j'" if "j' < 2 ^ k" for j'
    using assms(1,3) that by (simp add: hit_def)
  obtain n where "j = (i + n) mod 2 ^ k" "hit tab ttl j" "\<forall>m < n. \<not> hit tab ttl ((i + m) mod 2 ^ k)"
    using find_from_SomeD [OF assms(1,4)] by blast
  then show ?thesis using find_from_reaches [of tab' k ttl i n] assms(1,2) h by simp
qed

text \<open>Claiming the free slot of one TTL leaves every other TTL where it was.\<close>

lemma find_from_claim:
  assumes "length tab = 2 ^ k" and "b < 2 ^ k" and "\<not> bl_used (tab ! b)" and "bl_used x"
    and "find_from tab (2 ^ k - 1) ttl i = Some j" and "bl_used (tab ! j)"
  shows "find_from (tab[b := x]) (2 ^ k - 1) ttl i = Some j"
proof -
  obtain n where n: "j = (i + n) mod 2 ^ k" "hit tab ttl j" "\<forall>m < n. \<not> hit tab ttl ((i + m) mod 2 ^ k)"
    using find_from_SomeD [OF assms(1,5)] by blast
  have "\<not> hit (tab[b := x]) ttl ((i + m) mod 2 ^ k)" if "m < n" for m
  proof -
    have "\<not> hit tab ttl ((i + m) mod 2 ^ k)" using n(3) that by blast
    then show ?thesis using assms(1-4) by (auto simp: hit_def nth_list_update)
  qed
  moreover have "hit (tab[b := x]) ttl j"
    using n(2) assms(1,2,3,6) by (auto simp: hit_def nth_list_update)
  ultimately show ?thesis using find_from_reaches [of "tab[b := x]" k ttl i n] assms(1) n(1) by simp
qed

lemma find_from_claimed:
  assumes "length tab = 2 ^ k" and "find_from tab (2 ^ k - 1) ttl i = Some b"
    and "bl_ttl x = ttl"
  shows "find_from (tab[b := x]) (2 ^ k - 1) ttl i = Some b"
proof -
  obtain n where n: "b = (i + n) mod 2 ^ k" "\<forall>m < n. \<not> hit tab ttl ((i + m) mod 2 ^ k)"
    and h: "hit tab ttl b"
    using find_from_SomeD [OF assms(1,2)] by blast
  have "\<not> hit (tab[b := x]) ttl ((i + m) mod 2 ^ k)" if "m < n" for m
  proof -
    have "(i + m) mod 2 ^ k \<noteq> b" using n(2) that h by metis
    then show ?thesis using n(2) that by (simp add: hit_def)
  qed
  moreover have "hit (tab[b := x]) ttl b"
    using assms(1,3) n(1) by (simp add: hit_def)
  ultimately show ?thesis using find_from_reaches [of "tab[b := x]" k ttl i n] assms(1) n(1) by simp
qed

section \<open>Table invariant\<close>

definition used_count :: "blade list \<Rightarrow> nat" where
  "used_count tab = length (filter bl_used tab)"

text \<open>
  \<open>probe_ok\<close>: the table has its power-of-two shape and every used slot is the one that probing for
  its TTL finds.
\<close>

definition probe_ok :: "lawn2 \<Rightarrow> bool" where
  "probe_ok l \<longleftrightarrow> length (l2_tab l) = 2 ^ l2_bits l \<and> l2_cap l = 2 ^ l2_bits l \<and>
     (\<forall>j < length (l2_tab l). bl_used (l2_tab l ! j) \<longrightarrow> find_slot l (bl_ttl (l2_tab l ! j)) = Some j)"

lemma probe_ok_inj:
  "probe_ok l \<Longrightarrow> i < length (l2_tab l) \<Longrightarrow> j < length (l2_tab l) \<Longrightarrow> bl_used (l2_tab l ! i) \<Longrightarrow>
     bl_used (l2_tab l ! j) \<Longrightarrow> bl_ttl (l2_tab l ! i) = bl_ttl (l2_tab l ! j) \<Longrightarrow> i = j"
  unfolding probe_ok_def by (metis option.inject)

lemma find_slot_eq:
  "probe_ok l \<Longrightarrow> find_slot l ttl = find_from (l2_tab l) (2 ^ l2_bits l - 1) ttl (probe_start (l2_bits l) ttl)"
  by (simp add: find_slot_def probe_ok_def)

lemma find_slot_hit:
  assumes "probe_ok l" and "find_slot l ttl = Some b"
  shows "b < length (l2_tab l) \<and> hit (l2_tab l) ttl b"
proof -
  have "length (l2_tab l) = 2 ^ l2_bits l" using assms by (simp add: probe_ok_def)
  then show ?thesis
    using find_from_SomeD [of "l2_tab l" "l2_bits l" ttl "probe_start (l2_bits l) ttl" b]
      find_slot_eq [OF assms(1)] assms(2)
    by fastforce
qed

text \<open>A free slot that probing returns for a TTL means the TTL is not in the table.\<close>

lemma find_slot_free:
  assumes "probe_ok l" and "find_slot l ttl = Some b" and "\<not> bl_used (l2_tab l ! b)"
    and "j < length (l2_tab l)" and "bl_used (l2_tab l ! j)"
  shows "bl_ttl (l2_tab l ! j) \<noteq> ttl"
  using assms unfolding probe_ok_def by (metis option.inject)

lemma used_count_less: "used_count tab < length tab \<Longrightarrow> \<exists>j < length tab. \<not> bl_used (tab ! j)"
proof (rule ccontr)
  assume "used_count tab < length tab" "\<not> (\<exists>j < length tab. \<not> bl_used (tab ! j))"
  then have "filter bl_used tab = tab" by (simp add: filter_id_conv all_set_conv_all_nth)
  then show False using \<open>used_count tab < length tab\<close> by (simp add: used_count_def)
qed

lemma find_slot_total:
  assumes "probe_ok l" and "used_count (l2_tab l) < length (l2_tab l)"
  shows "\<exists>b. find_slot l ttl = Some b"
proof -
  obtain j where j: "j < length (l2_tab l)" "\<not> bl_used (l2_tab l ! j)"
    using used_count_less [OF assms(2)] by blast
  then have "hit (l2_tab l) ttl j" by (simp add: hit_def)
  then show ?thesis
    using find_from_exists [of "l2_tab l" "l2_bits l" j ttl "probe_start (l2_bits l) ttl"] j(1)
      assms(1) find_slot_eq [OF assms(1)]
    by (auto simp: probe_ok_def)
qed

lemma used_count_update:
  "b < length tab \<Longrightarrow> used_count (tab[b := x]) + (if bl_used (tab ! b) then 1 else 0) =
     used_count tab + (if bl_used x then 1 else 0)"
proof -
  assume b: "b < length tab"
  have "used_count tab = used_count (take b tab @ tab ! b # drop (Suc b) tab)"
    using b by (simp add: id_take_nth_drop [symmetric])
  moreover have "tab[b := x] = take b tab @ x # drop (Suc b) tab"
    using b by (simp add: upd_conv_take_nth_drop)
  ultimately show ?thesis by (auto simp: used_count_def)
qed

text \<open>Two tables with the same used flags and TTLs, such as before and after a list operation.\<close>

definition same_keys :: "blade list \<Rightarrow> blade list \<Rightarrow> bool" where
  "same_keys tab tab' \<longleftrightarrow> length tab' = length tab \<and>
     (\<forall>j < length tab. bl_used (tab' ! j) = bl_used (tab ! j) \<and> bl_ttl (tab' ! j) = bl_ttl (tab ! j))"

lemma same_keys_refl [simp]: "same_keys tab tab"
  by (simp add: same_keys_def)

lemma same_keys_trans: "same_keys a b \<Longrightarrow> same_keys b c \<Longrightarrow> same_keys a c"
  by (simp add: same_keys_def)

lemma same_keys_update:
  "b < length tab \<Longrightarrow> bl_used x = bl_used (tab ! b) \<Longrightarrow> bl_ttl x = bl_ttl (tab ! b) \<Longrightarrow> same_keys tab (tab[b := x])"
  by (auto simp: same_keys_def nth_list_update)

lemma same_keys_used_count: "same_keys tab tab' \<Longrightarrow> used_count tab' = used_count tab"
proof -
  assume s: "same_keys tab tab'"
  then have "map bl_used tab' = map bl_used tab"
    by (auto simp: same_keys_def list_eq_iff_nth_eq)
  then have "filter (\<lambda>u. u) (map bl_used tab') = filter (\<lambda>u. u) (map bl_used tab)" by simp
  then have "length (filter bl_used tab') = length (filter bl_used tab)"
    using map_eq_imp_length_eq by (fastforce simp: filter_map comp_def)
  then show ?thesis by (simp add: used_count_def)
qed

lemma find_slot_same_keys:
  assumes "probe_ok l" "same_keys (l2_tab l) (l2_tab l')" "l2_bits l' = l2_bits l" "l2_cap l' = l2_cap l"
    and "find_slot l ttl = Some j"
  shows "find_slot l' ttl = Some j"
proof -
  have "length (l2_tab l) = 2 ^ l2_bits l" "l2_cap l = 2 ^ l2_bits l" using assms(1) by (auto simp: probe_ok_def)
  then show ?thesis
    using find_from_cong [of "l2_tab l" "l2_bits l" "l2_tab l'" ttl "probe_start (l2_bits l) ttl" j] assms
    by (auto simp: find_slot_def same_keys_def)
qed

lemma probe_ok_same_keys:
  assumes "probe_ok l" "same_keys (l2_tab l) (l2_tab l')" "l2_bits l' = l2_bits l" "l2_cap l' = l2_cap l"
  shows "probe_ok l'"
  using assms find_slot_same_keys [OF assms] by (auto simp: probe_ok_def same_keys_def)

lemma probe_ok_claim:
  assumes p: "probe_ok l" and f: "find_slot l ttl = Some b" and free: "\<not> bl_used (l2_tab l ! b)"
    and x: "bl_used x" "bl_ttl x = ttl"
    and l': "l2_tab l' = (l2_tab l)[b := x]" "l2_bits l' = l2_bits l" "l2_cap l' = l2_cap l"
  shows "probe_ok l'"
proof -
  have len: "length (l2_tab l) = 2 ^ l2_bits l" and cap: "l2_cap l = 2 ^ l2_bits l"
    using p by (auto simp: probe_ok_def)
  have b: "b < length (l2_tab l)" using find_slot_hit [OF p f] by simp
  have "find_slot l' (bl_ttl (l2_tab l' ! j)) = Some j"
    if j: "j < length (l2_tab l')" and u: "bl_used (l2_tab l' ! j)" for j
  proof (cases "j = b")
    case True
    have "find_from ((l2_tab l)[b := x]) (2 ^ l2_bits l - 1) ttl (probe_start (l2_bits l) ttl) = Some b"
      using find_from_claimed [OF len, of ttl "probe_start (l2_bits l) ttl" b x] f x cap
      by (simp add: find_slot_def)
    then show ?thesis using True b x l' cap by (simp add: find_slot_def)
  next
    case False
    then have "bl_used (l2_tab l ! j)" "j < length (l2_tab l)" using j u l' by auto
    then have "find_slot l (bl_ttl (l2_tab l ! j)) = Some j" using p by (simp add: probe_ok_def)
    then have "find_from ((l2_tab l)[b := x]) (2 ^ l2_bits l - 1) (bl_ttl (l2_tab l ! j))
        (probe_start (l2_bits l) (bl_ttl (l2_tab l ! j))) = Some j"
      using find_from_claim [OF len _ free x(1)] b len cap \<open>bl_used (l2_tab l ! j)\<close>
      by (simp add: find_slot_def)
    then show ?thesis using False l' cap by (simp add: find_slot_def)
  qed
  then show ?thesis using len cap l' by (simp add: probe_ok_def)
qed

section \<open>Blade updates\<close>

lemma upd_blade_eq [simp, ub_simps]:
  "b < length (l2_tab l) \<Longrightarrow> upd_blade l b f = Some (l\<lparr>l2_tab := (l2_tab l)[b := f (l2_tab l ! b)]\<rparr>)"
  by (simp add: upd_blade_def)

text \<open>Everything in a blade but its live links.\<close>

definition core :: "blade \<Rightarrow> u64 \<times> bool \<times> addr option \<times> addr option" where
  "core x = (bl_ttl x, bl_used x, bl_head x, bl_tail x)"

definition same_core :: "blade list \<Rightarrow> blade list \<Rightarrow> bool" where
  "same_core tab tab' \<longleftrightarrow> length tab' = length tab \<and> (\<forall>j < length tab. core (tab' ! j) = core (tab ! j))"

lemma same_core_refl [simp]: "same_core tab tab"
  by (simp add: same_core_def)

lemma same_core_trans: "same_core a b \<Longrightarrow> same_core b c \<Longrightarrow> same_core a c"
  by (simp add: same_core_def)

lemma same_core_update: "b < length tab \<Longrightarrow> core x = core (tab ! b) \<Longrightarrow> same_core tab (tab[b := x])"
  by (auto simp: same_core_def nth_list_update)

lemma same_core_update2: "same_core tab tab' \<Longrightarrow> b < length tab \<Longrightarrow> core x = core (tab ! b) \<Longrightarrow> same_core tab (tab'[b := x])"
  by (auto simp: same_core_def nth_list_update)

lemma same_core_length: "same_core tab tab' \<Longrightarrow> length tab' = length tab"
  by (simp add: same_core_def)

lemma same_core_nth:
  "same_core tab tab' \<Longrightarrow> j < length tab \<Longrightarrow>
     bl_ttl (tab' ! j) = bl_ttl (tab ! j) \<and> bl_used (tab' ! j) = bl_used (tab ! j) \<and>
     bl_head (tab' ! j) = bl_head (tab ! j) \<and> bl_tail (tab' ! j) = bl_tail (tab ! j)"
  by (simp add: same_core_def core_def)

lemma same_core_keys: "same_core tab tab' \<Longrightarrow> same_keys tab tab'"
  by (simp add: same_core_def same_keys_def core_def)

section \<open>The live list\<close>

definition live_links :: "lawn2 \<Rightarrow> nat list \<Rightarrow> bool" where
  "live_links l L \<longleftrightarrow>
     dlist (\<lambda>j. live_next (l2_tab l ! j)) (\<lambda>j. live_prev (l2_tab l ! j)) L \<and>
     l2_live_head l = first L \<and> set L \<subseteq> {..<length (l2_tab l)}"

lemma live_links_cong:
  "live_links l L \<Longrightarrow> l2_live_head l' = l2_live_head l \<Longrightarrow> length (l2_tab l') = length (l2_tab l) \<Longrightarrow>
    (\<And>j. j \<in> set L \<Longrightarrow> live_next (l2_tab l' ! j) = live_next (l2_tab l ! j) \<and>
        live_prev (l2_tab l' ! j) = live_prev (l2_tab l ! j)) \<Longrightarrow> live_links l' L"
  unfolding live_links_def
  by (auto elim!: dlist_cong [THEN iffD1, rotated] dest: subsetD)

lemma live_link_spec:
  assumes L: "live_links l L" and b: "b < length (l2_tab l)" "b \<notin> set L"
  shows "\<exists>tab'. live_link l b = Some (l\<lparr>l2_tab := tab', l2_live_head := Some b\<rparr>) \<and>
     same_core (l2_tab l) tab' \<and> live_links (l\<lparr>l2_tab := tab', l2_live_head := Some b\<rparr>) (b # L)"
proof -
  let ?tab1 = "(l2_tab l)[b := (l2_tab l ! b)\<lparr>live_prev := None, live_next := l2_live_head l\<rparr>]"
  define tab' where "tab' = (case L of [] \<Rightarrow> ?tab1 | k # _ \<Rightarrow> ?tab1[k := (?tab1 ! k)\<lparr>live_prev := Some b\<rparr>])"
  have h: "l2_live_head l = first L" and d: "dlist (\<lambda>j. live_next (l2_tab l ! j)) (\<lambda>j. live_prev (l2_tab l ! j)) L"
    and sub: "set L \<subseteq> {..<length (l2_tab l)}"
    using L by (auto simp: live_links_def)
  have run: "live_link l b = Some (l\<lparr>l2_tab := tab', l2_live_head := Some b\<rparr>)"
    using b h sub by (cases L) (auto simp: live_link_def tab'_def)
  have core: "same_core (l2_tab l) tab'"
    using b sub by (cases L) (auto simp: tab'_def core_def nth_list_update intro!: same_core_update2)
  have "dlist (\<lambda>j. live_next (tab' ! j)) (\<lambda>j. live_prev (tab' ! j)) (b # L)"
  proof (rule dlist_cons [OF d b(2)])
    show "live_next (tab' ! b) = first L" "live_prev (tab' ! b) = None"
      using b h by (cases L; auto simp: tab'_def nth_list_update)+
    show "\<And>y. first L = Some y \<Longrightarrow> live_prev (tab' ! y) = Some b"
      using b sub by (cases L) (auto simp: tab'_def nth_list_update)
    show "\<And>y. y \<in> set L \<Longrightarrow> first L \<noteq> Some y \<Longrightarrow> live_prev (tab' ! y) = live_prev (l2_tab l ! y)"
      using b by (cases L) (auto simp: tab'_def nth_list_update)
    show "\<And>y. y \<in> set L \<Longrightarrow> live_next (tab' ! y) = live_next (l2_tab l ! y)"
      using b sub by (cases L) (auto simp: tab'_def nth_list_update)
  qed
  then show ?thesis using run core sub b same_core_length [OF core]
    by (intro exI [of _ tab']) (auto simp: live_links_def)
qed

lemma live_unlink_spec:
  assumes L: "live_links l (xs @ b # ys)"
  shows "\<exists>tab'. live_unlink l b = Some (l\<lparr>l2_tab := tab', l2_live_head := first (xs @ ys)\<rparr>) \<and>
     same_core (l2_tab l) tab' \<and> live_links (l\<lparr>l2_tab := tab', l2_live_head := first (xs @ ys)\<rparr>) (xs @ ys)"
proof -
  let ?t = "l2_tab l"
  have h: "l2_live_head l = first (xs @ b # ys)"
    and d: "dlist (\<lambda>j. live_next (?t ! j)) (\<lambda>j. live_prev (?t ! j)) (xs @ b # ys)"
    and sub: "set xs \<subseteq> {..<length ?t}" "set ys \<subseteq> {..<length ?t}" "b < length ?t"
    using L by (auto simp: live_links_def)
  have dist: "distinct (xs @ b # ys)" using d by (rule dlist_distinct)
  have nb: "live_next (?t ! b) = first ys" "live_prev (?t ! b) = final xs"
    using dlist_split [OF d] by auto
  define t1 where "t1 = (case final xs of None \<Rightarrow> ?t | Some p \<Rightarrow> ?t[p := (?t ! p)\<lparr>live_next := first ys\<rparr>])"
  define t2 where "t2 = (case first ys of None \<Rightarrow> t1 | Some q \<Rightarrow> t1[q := (t1 ! q)\<lparr>live_prev := final xs\<rparr>])"
  define tab' where "tab' = t2[b := (t2 ! b)\<lparr>live_prev := None, live_next := None\<rparr>]"
  have p: "p < length ?t \<and> p \<noteq> b \<and> p \<in> set xs" if "final xs = Some p" for p
    using final_Some_in [OF that] dist sub by auto
  have q: "q < length ?t \<and> q \<noteq> b \<and> q \<in> set ys" if "first ys = Some q" for q
    using first_Some_in [OF that] dist sub by auto
  have len [simp]: "length t1 = length ?t" "length t2 = length ?t" "length tab' = length ?t"
    by (auto simp: t1_def t2_def tab'_def split: option.splits)
  have t1b: "t1 ! b = ?t ! b" using p by (auto simp: t1_def nth_list_update split: option.splits)
  have run: "live_unlink l b = Some (l\<lparr>l2_tab := tab', l2_live_head := first (xs @ ys)\<rparr>)"
  proof (cases "final xs")
    case None
    then have "xs = []" by simp
    then show ?thesis using None h sub nb t1b q
      by (cases "first ys") (auto simp: live_unlink_def tab'_def t2_def t1_def)
  next
    case (Some u)
    then have "xs \<noteq> []" by auto
    then have fa: "first (xs @ ys) = first (xs @ b # ys)" by (simp add: first_append)
    have u: "u < length ?t" "u \<noteq> b" using p [OF Some] by auto
    show ?thesis using Some fa h sub nb t1b q u
      by (cases "first ys") (auto simp: live_unlink_def tab'_def t2_def t1_def)
  qed
  have c1: "same_core ?t t1" using p by (auto simp: t1_def core_def intro!: same_core_update split: option.splits)
  have c2: "same_core t1 t2" using q by (auto simp: t2_def core_def intro!: same_core_update split: option.splits)
  have c3: "same_core t2 tab'" using sub(3) by (auto simp: tab'_def core_def intro!: same_core_update)
  have core: "same_core ?t tab'" using c1 c2 c3 by (blast intro: same_core_trans)
  have "dlist (\<lambda>j. live_next (tab' ! j)) (\<lambda>j. live_prev (tab' ! j)) (xs @ ys)"
  proof (rule dlist_unlink [OF d])
    show "live_next (tab' ! y) = first ys" if "final xs = Some y" for y
      using p [OF that] q that by (auto simp: tab'_def t2_def t1_def nth_list_update split: option.splits)
    show "live_next (tab' ! y) = live_next (?t ! y)" if "y \<in> set (xs @ ys)" "final xs \<noteq> Some y" for y
      using that dist sub q p by (auto simp: tab'_def t2_def t1_def nth_list_update split: option.splits)
    show "live_prev (tab' ! y) = final xs" if "first ys = Some y" for y
      using q [OF that] that by (auto simp: tab'_def t2_def t1_def nth_list_update split: option.splits)
    show "live_prev (tab' ! y) = live_prev (?t ! y)" if "y \<in> set (xs @ ys)" "first ys \<noteq> Some y" for y
      using that dist sub q p by (auto simp: tab'_def t2_def t1_def nth_list_update split: option.splits)
  qed
  then show ?thesis using run core sub by (intro exI [of _ tab']) (auto simp: live_links_def)
qed

section \<open>Growing the table\<close>

text \<open>The used blades without their live links; what a rehash must preserve.\<close>

definition entries :: "blade list \<Rightarrow> (u64 \<times> bool \<times> addr option \<times> addr option) set" where
  "entries tab = {core (tab ! j) | j. j < length tab \<and> bl_used (tab ! j)}"

definition heads_listed :: "lawn2 \<Rightarrow> nat list \<Rightarrow> bool" where
  "heads_listed l L \<longleftrightarrow> set L = {j. j < length (l2_tab l) \<and> bl_head (l2_tab l ! j) \<noteq> None} \<and>
     (\<forall>j < length (l2_tab l). \<not> bl_used (l2_tab l ! j) \<longrightarrow> bl_head (l2_tab l ! j) = None)"

definition todo :: "blade list \<Rightarrow> nat list \<Rightarrow> nat" where
  "todo ot js = length (filter (\<lambda>i. bl_used (ot ! i)) js)"

lemma entries_claim:
  "b < length tab \<Longrightarrow> \<not> bl_used (tab ! b) \<Longrightarrow> bl_used x \<Longrightarrow> entries (tab[b := x]) = insert (core x) (entries tab)"
  by (auto simp: entries_def nth_list_update)

lemma entries_same_core: "same_core tab tab' \<Longrightarrow> entries tab' = entries tab"
proof -
  assume s: "same_core tab tab'"
  then have "core (tab' ! j) = core (tab ! j) \<and> bl_used (tab' ! j) = bl_used (tab ! j)" if "j < length tab" for j
    using that by (simp add: same_core_def core_def)
  then show ?thesis using same_core_length [OF s] unfolding entries_def by force
qed

lemma heads_listed_same_core:
  "same_core (l2_tab l) (l2_tab l') \<Longrightarrow> heads_listed l L \<Longrightarrow> heads_listed l' L"
  by (auto simp: heads_listed_def same_core_def core_def)

text \<open>One round of the loop: a used blade of the old table moves to its slot of the new one.\<close>

lemma grow_move:
  assumes p: "probe_ok l" and L: "live_links l L" and hl: "heads_listed l L"
    and room: "used_count (l2_tab l) < length (l2_tab l)"
    and used: "bl_used x" and fresh: "\<And>e. e \<in> entries (l2_tab l) \<Longrightarrow> fst e \<noteq> bl_ttl x"
  shows "\<exists>b tab1 tab' hd' L'. find_slot l (bl_ttl x) = Some b \<and>
     upd_blade l b (\<lambda>_. x) \<bind> (\<lambda>l. upd_blade l b (\<lambda>x. x\<lparr>live_prev := None, live_next := None\<rparr>)) =
       Some (l\<lparr>l2_tab := tab1\<rparr>) \<and> b < length tab1 \<and>
     (if bl_head (tab1 ! b) \<noteq> None then live_link (l\<lparr>l2_tab := tab1\<rparr>) b else Some (l\<lparr>l2_tab := tab1\<rparr>)) =
       Some (l\<lparr>l2_tab := tab', l2_live_head := hd'\<rparr>) \<and>
     probe_ok (l\<lparr>l2_tab := tab', l2_live_head := hd'\<rparr>) \<and>
     live_links (l\<lparr>l2_tab := tab', l2_live_head := hd'\<rparr>) L' \<and>
     heads_listed (l\<lparr>l2_tab := tab', l2_live_head := hd'\<rparr>) L' \<and>
     used_count tab' = Suc (used_count (l2_tab l)) \<and> length tab' = length (l2_tab l) \<and>
     entries tab' = insert (core x) (entries (l2_tab l))"
proof -
  obtain b where b: "find_slot l (bl_ttl x) = Some b" using find_slot_total [OF p room] by blast
  have bl: "b < length (l2_tab l)" and "hit (l2_tab l) (bl_ttl x) b"
    using find_slot_hit [OF p b] by auto
  then have free: "\<not> bl_used (l2_tab l ! b)"
    using fresh [of "core (l2_tab l ! b)"] by (auto simp: hit_def entries_def core_def)
  have bL: "b \<notin> set L" using hl free bl by (auto simp: heads_listed_def)
  let ?y = "x\<lparr>live_prev := None, live_next := None\<rparr>"
  define tab1 where "tab1 = (l2_tab l)[b := ?y]"
  let ?l1 = "l\<lparr>l2_tab := tab1\<rparr>"
  have len1: "length tab1 = length (l2_tab l)" by (simp add: tab1_def)
  have run1: "upd_blade l b (\<lambda>_. x) \<bind> (\<lambda>l. upd_blade l b (\<lambda>x. x\<lparr>live_prev := None, live_next := None\<rparr>)) = Some ?l1"
    using bl by (simp add: tab1_def)
  have p1: "probe_ok ?l1" by (rule probe_ok_claim [OF p b free]) (simp_all add: tab1_def used)
  have L1: "live_links ?l1 L"
  proof (rule live_links_cong [OF L])
    fix j assume "j \<in> set L"
    then have "b \<noteq> j" using bL by auto
    then show "live_next (l2_tab ?l1 ! j) = live_next (l2_tab l ! j) \<and> live_prev (l2_tab ?l1 ! j) = live_prev (l2_tab l ! j)"
      by (simp add: tab1_def)
  qed (simp_all add: tab1_def)
  have e1: "entries tab1 = insert (core x) (entries (l2_tab l))"
    unfolding tab1_def using entries_claim [OF bl free, of ?y] used by (simp add: core_def)
  have u1: "used_count tab1 = Suc (used_count (l2_tab l))"
    using used_count_update [OF bl, of ?y] free used by (simp add: tab1_def)
  have hd1: "bl_head (tab1 ! b) = bl_head x" using bl by (simp add: tab1_def)
  show ?thesis
  proof (cases "bl_head x = None")
    case True
    have "heads_listed ?l1 L"
      using hl True bl free by (auto simp: heads_listed_def tab1_def nth_list_update)
    then show ?thesis using b run1 bl p1 L1 e1 u1 hd1 True len1
      by (intro exI [of _ b] exI [of _ tab1] exI [of _ "l2_live_head l"] exI [of _ L]) simp
  next
    case False
    obtain tab' where t: "live_link ?l1 b = Some (?l1\<lparr>l2_tab := tab', l2_live_head := Some b\<rparr>)"
        "same_core tab1 tab'" "live_links (?l1\<lparr>l2_tab := tab', l2_live_head := Some b\<rparr>) (b # L)"
      using live_link_spec [OF L1 _ bL] bl by (auto simp: tab1_def)
    let ?l2 = "l\<lparr>l2_tab := tab', l2_live_head := Some b\<rparr>"
    have hl1: "set (b # L) = {j. j < length tab1 \<and> bl_head (tab1 ! j) \<noteq> None}"
      "\<forall>j < length tab1. \<not> bl_used (tab1 ! j) \<longrightarrow> bl_head (tab1 ! j) = None"
      using hl False bl free used by (auto simp: heads_listed_def tab1_def nth_list_update)
    have "heads_listed ?l2 (b # L)"
      using hl1 same_core_nth [OF t(2)] same_core_length [OF t(2)] by (auto simp: heads_listed_def)
    moreover have "probe_ok ?l2"
      by (rule probe_ok_same_keys [OF p1]) (use t(2) in \<open>auto intro: same_core_keys\<close>)
    moreover have "used_count tab' = Suc (used_count (l2_tab l))"
      using same_keys_used_count [OF same_core_keys [OF t(2)]] u1 by simp
    ultimately show ?thesis
      using b run1 bl t e1 hd1 False len1 entries_same_core [OF t(2)] same_core_length [OF t(2)]
      by (intro exI [of _ b] exI [of _ tab1] exI [of _ tab'] exI [of _ "Some b"] exI [of _ "b # L"]) simp
  qed
qed

text \<open>The whole loop: every used blade of the old table is moved, nothing else is added.\<close>

lemma grow_loop_spec:
  assumes "probe_ok l" "live_links l L" "heads_listed l L"
    and "used_count (l2_tab l) + todo ot js < length (l2_tab l)"
    and "distinct js" "set js \<subseteq> {..<length ot}"
    and "\<And>i e. i \<in> set js \<Longrightarrow> bl_used (ot ! i) \<Longrightarrow> e \<in> entries (l2_tab l) \<Longrightarrow> fst e \<noteq> bl_ttl (ot ! i)"
    and "\<And>i j. i < length ot \<Longrightarrow> j < length ot \<Longrightarrow> bl_used (ot ! i) \<Longrightarrow> bl_used (ot ! j) \<Longrightarrow>
           bl_ttl (ot ! i) = bl_ttl (ot ! j) \<Longrightarrow> i = j"
  shows "\<exists>tab' hd' L'. grow_loop ot js l nc = Some (l\<lparr>l2_tab := tab', l2_live_head := hd'\<rparr>, nc + todo ot js) \<and>
     probe_ok (l\<lparr>l2_tab := tab', l2_live_head := hd'\<rparr>) \<and>
     live_links (l\<lparr>l2_tab := tab', l2_live_head := hd'\<rparr>) L' \<and>
     heads_listed (l\<lparr>l2_tab := tab', l2_live_head := hd'\<rparr>) L' \<and>
     length tab' = length (l2_tab l) \<and> used_count tab' = used_count (l2_tab l) + todo ot js \<and>
     entries tab' = entries (l2_tab l) \<union> {core (ot ! i) | i. i \<in> set js \<and> bl_used (ot ! i)}"
  using assms(1-7)
proof (induction js arbitrary: l L nc)
  case Nil
  then show ?case
    by (intro exI [of _ "l2_tab l"] exI [of _ "l2_live_head l"] exI [of _ L]) (simp add: todo_def)
next
  case (Cons i js)
  have i: "i < length ot" using Cons.prems(6) by simp
  show ?case
  proof (cases "bl_used (ot ! i)")
    case False
    then have "todo ot (i # js) = todo ot js" by (simp add: todo_def)
    moreover have "{core (ot ! k) | k. k \<in> set (i # js) \<and> bl_used (ot ! k)} =
        {core (ot ! k) | k. k \<in> set js \<and> bl_used (ot ! k)}" using False by auto
    ultimately show ?thesis using Cons.IH [of l L nc] Cons.prems False i by (simp add: todo_def)
  next
    case True
    have td: "todo ot (i # js) = Suc (todo ot js)" using True by (simp add: todo_def)
    have fresh: "\<And>e. e \<in> entries (l2_tab l) \<Longrightarrow> fst e \<noteq> bl_ttl (ot ! i)"
      using Cons.prems(7) True by simp
    have room: "used_count (l2_tab l) < length (l2_tab l)" using Cons.prems(4) by simp
    obtain b tab1 tab' hd' L' where m:
        "find_slot l (bl_ttl (ot ! i)) = Some b"
        "upd_blade l b (\<lambda>_. ot ! i) \<bind> (\<lambda>l. upd_blade l b (\<lambda>x. x\<lparr>live_prev := None, live_next := None\<rparr>)) =
           Some (l\<lparr>l2_tab := tab1\<rparr>)" "b < length tab1"
        "(if bl_head (tab1 ! b) \<noteq> None then live_link (l\<lparr>l2_tab := tab1\<rparr>) b else Some (l\<lparr>l2_tab := tab1\<rparr>)) =
           Some (l\<lparr>l2_tab := tab', l2_live_head := hd'\<rparr>)"
      and n: "probe_ok (l\<lparr>l2_tab := tab', l2_live_head := hd'\<rparr>)"
        "live_links (l\<lparr>l2_tab := tab', l2_live_head := hd'\<rparr>) L'"
        "heads_listed (l\<lparr>l2_tab := tab', l2_live_head := hd'\<rparr>) L'"
      and u: "used_count tab' = Suc (used_count (l2_tab l))" "length tab' = length (l2_tab l)"
        "entries tab' = insert (core (ot ! i)) (entries (l2_tab l))"
      using grow_move [OF Cons.prems(1,2,3) room True fresh] by blast
    let ?l = "l\<lparr>l2_tab := tab', l2_live_head := hd'\<rparr>"
    obtain l1 where l1: "upd_blade l b (\<lambda>_. ot ! i) = Some l1"
        "upd_blade l1 b (\<lambda>x. x\<lparr>live_prev := None, live_next := None\<rparr>) = Some (l\<lparr>l2_tab := tab1\<rparr>)"
      using m(2) by (auto simp: bind_eq_Some_conv)
    have run: "grow_loop ot (i # js) l nc = grow_loop ot js ?l (Suc nc)"
      using i True m(1,3,4) l1 by simp
    have fresh': "fst e \<noteq> bl_ttl (ot ! k)"
      if "k \<in> set js" "bl_used (ot ! k)" "e \<in> entries (l2_tab ?l)" for k e
    proof (cases "e = core (ot ! i)")
      case e: True
      have "k \<noteq> i" "k < length ot" using that(1) Cons.prems(5,6) by auto
      then show ?thesis using e assms(8) [of k i] i True that(2) by (auto simp: core_def)
    next
      case False
      then show ?thesis using that u(3) Cons.prems(7) by simp
    qed
    obtain tab2 hd2 L2 where IH:
        "grow_loop ot js ?l (Suc nc) = Some (?l\<lparr>l2_tab := tab2, l2_live_head := hd2\<rparr>, Suc nc + todo ot js)"
        "probe_ok (?l\<lparr>l2_tab := tab2, l2_live_head := hd2\<rparr>)" "live_links (?l\<lparr>l2_tab := tab2, l2_live_head := hd2\<rparr>) L2"
        "heads_listed (?l\<lparr>l2_tab := tab2, l2_live_head := hd2\<rparr>) L2"
        "length tab2 = length (l2_tab ?l)" "used_count tab2 = used_count (l2_tab ?l) + todo ot js"
        "entries tab2 = entries (l2_tab ?l) \<union> {core (ot ! i) | i. i \<in> set js \<and> bl_used (ot ! i)}"
      using Cons.IH [OF n, of "Suc nc"] Cons.prems(4-6) td u fresh' by auto
    have "entries tab2 = entries (l2_tab l) \<union> {core (ot ! k) | k. k \<in> set (i # js) \<and> bl_used (ot ! k)}"
      using IH(7) u(3) True by auto
    then show ?thesis using run IH td u
      by (intro exI [of _ tab2] exI [of _ hd2] exI [of _ L2]) (simp del: grow_loop.simps)
  qed
qed

lemma todo_upt: "todo ot [0..<length ot] = used_count ot"
proof -
  have "filter bl_used ot = map ((!) ot) (filter (bl_used \<circ> (!) ot) [0..<length ot])"
    by (metis filter_map map_nth)
  then show ?thesis by (simp add: todo_def used_count_def comp_def)
qed

lemma zero_table:
  assumes "l2_tab l = replicate (2 ^ l2_bits l) blade_zero" "l2_cap l = 2 ^ l2_bits l" "l2_live_head l = None"
  shows "probe_ok l" "live_links l []" "heads_listed l []" "used_count (l2_tab l) = 0" "entries (l2_tab l) = {}"
  using assms
  by (auto simp: probe_ok_def blade_zero_def live_links_def heads_listed_def used_count_def entries_def)

lemma grow_spec:
  assumes p: "probe_ok l" and c: "l2_count l = used_count (l2_tab l)"
  shows "\<exists>l' L'. grow l = Some l' \<and>
     l' = l\<lparr>l2_tab := l2_tab l', l2_cap := 2 * l2_cap l, l2_bits := l2_bits l + 1, l2_live_head := l2_live_head l'\<rparr> \<and>
     probe_ok l' \<and> live_links l' L' \<and> heads_listed l' L' \<and> used_count (l2_tab l') = used_count (l2_tab l) \<and>
     entries (l2_tab l') = entries (l2_tab l)"
proof -
  let ?nb = "l2_bits l + 1"
  let ?z = "l\<lparr>l2_tab := replicate (2 ^ ?nb) blade_zero, l2_cap := 2 ^ ?nb, l2_bits := ?nb, l2_live_head := None\<rparr>"
  have len: "length (l2_tab l) = 2 ^ l2_bits l" "l2_cap l = 2 ^ l2_bits l" using p by (auto simp: probe_ok_def)
  have z: "probe_ok ?z" "live_links ?z []" "heads_listed ?z []" "used_count (l2_tab ?z) = 0" "entries (l2_tab ?z) = {}"
    using zero_table [of ?z] by simp_all
  have js: "todo (l2_tab l) [0..<l2_cap l] = used_count (l2_tab l)" using todo_upt [of "l2_tab l"] len by simp
  have room: "used_count (l2_tab ?z) + todo (l2_tab l) [0..<l2_cap l] < length (l2_tab ?z)"
  proof -
    have "used_count (l2_tab l) \<le> 2 ^ l2_bits l" using len by (metis length_filter_le used_count_def)
    also have "\<dots> < 2 ^ ?nb" by simp
    finally show ?thesis using js z(4) by simp
  qed
  have sub: "set [0..<l2_cap l] \<subseteq> {..<length (l2_tab l)}" using len by auto
  have fresh: "\<And>i e. i \<in> set [0..<l2_cap l] \<Longrightarrow> bl_used (l2_tab l ! i) \<Longrightarrow> e \<in> entries (l2_tab ?z) \<Longrightarrow>
      fst e \<noteq> bl_ttl (l2_tab l ! i)"
    unfolding z(5) by simp
  obtain tab' hd' L' where g:
      "grow_loop (l2_tab l) [0..<l2_cap l] ?z 0 = Some (?z\<lparr>l2_tab := tab', l2_live_head := hd'\<rparr>, 0 + todo (l2_tab l) [0..<l2_cap l])"
      "probe_ok (?z\<lparr>l2_tab := tab', l2_live_head := hd'\<rparr>)" "live_links (?z\<lparr>l2_tab := tab', l2_live_head := hd'\<rparr>) L'"
      "heads_listed (?z\<lparr>l2_tab := tab', l2_live_head := hd'\<rparr>) L'"
      "used_count tab' = used_count (l2_tab ?z) + todo (l2_tab l) [0..<l2_cap l]"
      "entries tab' = entries (l2_tab ?z) \<union> {core (l2_tab l ! i) | i. i \<in> set [0..<l2_cap l] \<and> bl_used (l2_tab l ! i)}"
    using grow_loop_spec [OF z(1-3) room distinct_upt sub fresh probe_ok_inj [OF p], of 0] by blast
  have e: "entries tab' = entries (l2_tab l)" using g(6) z(5) len by (auto simp: entries_def)
  let ?l' = "?z\<lparr>l2_tab := tab', l2_live_head := hd', l2_count := l2_count l\<rparr>"
  have run: "grow l = Some ?l'" using g(1) js c len by (simp add: grow_def Let_def)
  have "probe_ok ?l'" using g(2) by (simp add: probe_ok_def find_slot_def)
  moreover have "live_links ?l' L'" using g(3) by (simp add: live_links_def)
  moreover have "heads_listed ?l' L'" using g(4) by (simp add: heads_listed_def)
  ultimately show ?thesis using run e g(5) js z(4) len
    by (intro exI [of _ ?l'] exI [of _ L']) simp
qed

end
