(* ===== verification/Lawn2_Queues.thy ===== *)
theory Lawn2_Queues
  imports Lawn2_Table
begin

text \<open>
  The per-TTL timer queues of lawn2 as heap structures: for every TTL t the ghost list \<open>Q t\<close> of the
  timers linked into its blade. \<open>armed\<close> is what the whole store stands for, the map from timers to
  absolute deadlines. The two lemmas about relinking (append at the tail, unlink anywhere) are all
  the pointer reasoning that lawn2_add, lawn2_del and the expiry loop need.
\<close>

definition nxt :: "timers \<Rightarrow> addr \<Rightarrow> addr option" where
  "nxt h a = Option.bind (h a) tm_next"

definition prv :: "timers \<Rightarrow> addr \<Rightarrow> addr option" where
  "prv h a = Option.bind (h a) tm_prev"

definition deadline :: "timers \<Rightarrow> addr \<Rightarrow> nat" where
  "deadline h a = (case h a of Some t \<Rightarrow> unat (tm_expiration t) | None \<Rightarrow> 0)"

definition armed :: "timers \<Rightarrow> (addr \<rightharpoonup> nat)" where
  "armed h a = (case h a of Some t \<Rightarrow> if tm_in_store t then Some (unat (tm_expiration t)) else None | None \<Rightarrow> None)"

definition ids :: "timers \<Rightarrow> addr \<Rightarrow> u64 option" where
  "ids h a = map_option tm_id (h a)"

text \<open>Everything in a timer but its links.\<close>

definition data :: "lawn2_timer \<Rightarrow> u64 \<times> u64 \<times> bool \<times> u64" where
  "data t = (tm_ttl t, tm_expiration t, tm_in_store t, tm_id t)"

definition queued :: "timers \<Rightarrow> nat \<Rightarrow> u64 \<Rightarrow> addr \<Rightarrow> bool" where
  "queued h now t a \<longleftrightarrow> (\<exists>n. h a = Some n \<and> tm_in_store n \<and> tm_ttl n = t \<and> unat (tm_expiration n) \<le> now + unat t)"

definition queues_ok :: "timers \<Rightarrow> nat \<Rightarrow> (u64 \<Rightarrow> addr list) \<Rightarrow> bool" where
  "queues_ok h now Q \<longleftrightarrow>
     (\<forall>t. dlist (nxt h) (prv h) (Q t) \<and> sorted (map (deadline h) (Q t)) \<and> (\<forall>a \<in> set (Q t). queued h now t a)) \<and>
     (\<forall>a n. h a = Some n \<and> tm_in_store n \<longrightarrow> a \<in> set (Q (tm_ttl n)))"

lemma queues_dlist: "queues_ok h now Q \<Longrightarrow> dlist (nxt h) (prv h) (Q t)"
  and queues_sorted: "queues_ok h now Q \<Longrightarrow> sorted (map (deadline h) (Q t))"
  and queues_queued: "queues_ok h now Q \<Longrightarrow> a \<in> set (Q t) \<Longrightarrow> queued h now t a"
  and queues_complete: "queues_ok h now Q \<Longrightarrow> h a = Some n \<Longrightarrow> tm_in_store n \<Longrightarrow> a \<in> set (Q (tm_ttl n))"
  by (auto simp: queues_ok_def)

lemma queues_same_ttl: "queues_ok h now Q \<Longrightarrow> a \<in> set (Q t) \<Longrightarrow> a \<in> set (Q t') \<Longrightarrow> t = t'"
  using queues_queued [of h now Q a t] queues_queued [of h now Q a t'] by (auto simp: queued_def)

lemma queues_later: "queues_ok h now Q \<Longrightarrow> now \<le> now' \<Longrightarrow> queues_ok h now' Q"
  by (fastforce simp: queues_ok_def queued_def)

lemma armed_iff: "queues_ok h now Q \<Longrightarrow> armed h a = (if \<exists>t. a \<in> set (Q t) then Some (deadline h a) else None)"
  by (fastforce simp: armed_def deadline_def queued_def split: option.splits dest: queues_queued queues_complete)

lemma armed_queued: "queues_ok h now Q \<Longrightarrow> a \<in> set (Q t) \<Longrightarrow> armed h a = Some (deadline h a)"
  by (auto simp: armed_iff)

lemma data_deadline: "map_option data (h' a) = map_option data (h a) \<Longrightarrow> deadline h' a = deadline h a"
  by (auto simp: deadline_def data_def split: option.splits)

lemma data_armed: "map_option data (h' a) = map_option data (h a) \<Longrightarrow> armed h' a = armed h a"
  by (cases "h a"; cases "h' a") (auto simp: armed_def data_def)

lemma data_queued: "map_option data (h' a) = map_option data (h a) \<Longrightarrow> queued h' now t a = queued h now t a"
  by (cases "h a"; cases "h' a") (auto simp: queued_def data_def)

lemma data_in_store:
  "map_option data (h' a) = map_option data (h a) \<Longrightarrow> h' a = Some n' \<Longrightarrow>
     \<exists>n. h a = Some n \<and> tm_in_store n = tm_in_store n' \<and> tm_ttl n = tm_ttl n'"
  by (cases "h a") (simp_all add: data_def)

section \<open>Append\<close>

lemma queues_append:
  assumes q: "queues_ok h now Q" and n: "armed h n = None"
    and hn: "h' n = Some tn" "tm_ttl tn = ttl" "tm_in_store tn" "unat (tm_expiration tn) = now + unat ttl"
      "tm_next tn = None" "tm_prev tn = final (Q ttl)"
    and dt: "\<And>a. a \<noteq> n \<Longrightarrow> map_option data (h' a) = map_option data (h a)"
    and lk: "\<And>a. a \<noteq> n \<Longrightarrow> nxt h' a = (if final (Q ttl) = Some a then Some n else nxt h a) \<and> prv h' a = prv h a"
  shows "queues_ok h' now (Q(ttl := Q ttl @ [n]))" and "armed h' = (armed h)(n \<mapsto> now + unat ttl)"
proof -
  have nQ: "n \<notin> set (Q t)" for t using armed_queued [OF q] n by auto
  have ne: "a \<noteq> n" if "a \<in> set (Q t)" for a t using that nQ by auto
  show "armed h' = (armed h)(n \<mapsto> now + unat ttl)"
    using hn dt by (auto simp: fun_eq_iff armed_def [of h' n] intro!: data_armed)
  have dl: "deadline h' n = now + unat ttl" using hn by (simp add: deadline_def)
  have one: "dlist (nxt h') (prv h') (Q ttl @ [n])"
    by (rule dlist_snoc [OF queues_dlist [OF q, of ttl]])
      (use nQ ne lk hn in \<open>auto simp: nxt_def prv_def dest!: final_Some_in\<close>)
  have oth: "dlist (nxt h') (prv h') (Q t)" if "t \<noteq> ttl" for t
  proof -
    have "final (Q ttl) \<noteq> Some a" if "a \<in> set (Q t)" for a
      using queues_same_ttl [OF q that] \<open>t \<noteq> ttl\<close> final_Some_in by metis
    then show ?thesis
      using queues_dlist [OF q, of t] dlist_cong [of "Q t" "nxt h'" "nxt h" "prv h'" "prv h"] lk ne by auto
  qed
  have dl1: "deadline h' a = deadline h a" if "a \<in> set (Q t)" for a t
    using dt [OF ne [OF that]] by (rule data_deadline)
  then have dls: "map (deadline h') (Q t) = map (deadline h) (Q t)" for t
    by simp
  have bound: "deadline h a \<le> now + unat ttl" if "a \<in> set (Q ttl)" for a
    using queues_queued [OF q that] by (auto simp: queued_def deadline_def)
  have srt: "sorted (map (deadline h') ((Q(ttl := Q ttl @ [n])) t))" for t
    using queues_sorted [OF q, of t] queues_sorted [OF q, of ttl] bound dl
    by (simp add: sorted_append dls dl1 del: map_eq_conv)
  have qd: "queued h' now t a" if "a \<in> set ((Q(ttl := Q ttl @ [n])) t)" for t a
  proof (cases "a = n")
    case True
    then show ?thesis using that hn nQ by (auto simp: queued_def split: if_splits)
  next
    case False
    then have "a \<in> set (Q t)" using that by (auto split: if_splits)
    moreover have "queued h' now t a = queued h now t a" using dt [OF False] by (rule data_queued)
    ultimately show ?thesis using queues_queued [OF q] by simp
  qed
  have cp: "a \<in> set ((Q(ttl := Q ttl @ [n])) (tm_ttl t))" if hs: "h' a = Some t" and st: "tm_in_store t" for a t
  proof (cases "a = n")
    case True
    then show ?thesis using hs st hn by auto
  next
    case False
    have "\<exists>s. h a = Some s \<and> tm_in_store s = tm_in_store t \<and> tm_ttl s = tm_ttl t"
      using dt [OF False] hs by (rule data_in_store)
    then obtain s where "h a = Some s" "tm_in_store s" "tm_ttl s = tm_ttl t"
      using st by auto
    then show ?thesis using queues_complete [OF q, of a s] by auto
  qed
  show "queues_ok h' now (Q(ttl := Q ttl @ [n]))"
    unfolding queues_ok_def using one oth srt qd cp by (auto simp del: map_append)
qed

section \<open>Unlink\<close>

lemma queues_unlink:
  assumes q: "queues_ok h now Q" and Qt: "Q t = xs @ n # ys"
    and hn: "armed h' n = None"
    and dt: "\<And>a. a \<noteq> n \<Longrightarrow> map_option data (h' a) = map_option data (h a)"
    and lk: "\<And>a. a \<noteq> n \<Longrightarrow> nxt h' a = (if final xs = Some a then first ys else nxt h a) \<and>
       prv h' a = (if first ys = Some a then final xs else prv h a)"
  shows "queues_ok h' now (Q(t := xs @ ys))" and "armed h' = (armed h)(n := None)"
proof -
  have dist: "distinct (xs @ n # ys)" using queues_dlist [OF q, of t] Qt dlist_distinct by metis
  have nQ: "n \<notin> set (Q s)" if "s \<noteq> t" for s using queues_same_ttl [OF q, of n s t] that Qt by auto
  show "armed h' = (armed h)(n := None)"
    using hn dt by (auto simp: fun_eq_iff intro!: data_armed)
  have one: "dlist (nxt h') (prv h') (xs @ ys)"
    by (rule dlist_unlink [OF queues_dlist [OF q, of t, unfolded Qt]])
      (use dist lk in \<open>fastforce dest: final_Some_in first_Some_in\<close>)+
  have oth: "dlist (nxt h') (prv h') (Q s)" if "s \<noteq> t" for s
  proof -
    have "a \<noteq> n \<and> final xs \<noteq> Some a \<and> first ys \<noteq> Some a" if "a \<in> set (Q s)" for a
    proof -
      have "a \<notin> set (Q t)" using queues_same_ttl [OF q that] \<open>s \<noteq> t\<close> by metis
      then show ?thesis using Qt by (auto dest: final_Some_in first_Some_in)
    qed
    then show ?thesis
      using queues_dlist [OF q, of s] dlist_cong [of "Q s" "nxt h'" "nxt h" "prv h'" "prv h"] lk by auto
  qed
  have dls: "map (deadline h') zs = map (deadline h) zs" if "n \<notin> set zs" for zs
    by (simp, metis data_deadline dt that)
  have "sorted (map (deadline h) (xs @ ys))"
    using queues_sorted [OF q, of t] Qt by (auto simp: sorted_append)
  then have srt: "sorted (map (deadline h') ((Q(t := xs @ ys)) s))" for s
  proof (cases "s = t")
    case True
    have "map (deadline h') (xs @ ys) = map (deadline h) (xs @ ys)" by (rule dls) (use dist in auto)
    then show ?thesis
      using True \<open>sorted (map (deadline h) (xs @ ys))\<close> by (simp del: map_append map_eq_conv)
  next
    case False
    then show ?thesis using queues_sorted [OF q, of s] dls [OF nQ [OF False]] by (simp del: map_eq_conv)
  qed
  have qd: "queued h' now s a" if "a \<in> set ((Q(t := xs @ ys)) s)" for s a
  proof -
    have "a \<noteq> n" "a \<in> set (Q s)" using that dist nQ [of s] Qt by (auto split: if_splits)
    then show ?thesis using dt queues_queued [OF q] data_queued by metis
  qed
  have cp: "a \<in> set ((Q(t := xs @ ys)) (tm_ttl s))" if hs: "h' a = Some s" and st: "tm_in_store s" for a s
  proof -
    have a: "a \<noteq> n" using hs st hn by (auto simp: armed_def)
    have "\<exists>s'. h a = Some s' \<and> tm_in_store s' = tm_in_store s \<and> tm_ttl s' = tm_ttl s"
      using dt [OF a] hs by (rule data_in_store)
    then obtain s' where "h a = Some s'" "tm_in_store s'" "tm_ttl s' = tm_ttl s"
      using st by auto
    then have "a \<in> set (Q (tm_ttl s))" using queues_complete [OF q, of a s'] by auto
    then show ?thesis using a Qt by auto
  qed
  show "queues_ok h' now (Q(t := xs @ ys))"
    unfolding queues_ok_def using one oth srt qd cp by auto
qed

section \<open>Heap updates\<close>

lemma upd_eq [simp, ub_simps]: "h a = Some t \<Longrightarrow> upd h a f = Some (h(a \<mapsto> f t))"
  by (simp add: upd_def)

lemma nxt_upd: "nxt (h(a \<mapsto> t)) b = (if b = a then tm_next t else nxt h b)"
  and prv_upd: "prv (h(a \<mapsto> t)) b = (if b = a then tm_prev t else prv h b)"
  by (auto simp: nxt_def prv_def)

lemma queues_links:
  assumes "queues_ok h now Q" and "Q t = xs @ n # ys"
  shows "\<exists>s. h n = Some s \<and> tm_in_store s \<and> tm_ttl s = t \<and> tm_next s = first ys \<and> tm_prev s = final xs"
proof -
  obtain s where "h n = Some s" "tm_in_store s" "tm_ttl s = t"
    using queues_queued [OF assms(1), of n t] assms(2) by (auto simp: queued_def)
  then show ?thesis
    using dlist_split [of "nxt h" "prv h" xs n ys] queues_dlist [OF assms(1), of t] assms(2)
    by (simp add: nxt_def prv_def)
qed

lemma queues_mem: "queues_ok h now Q \<Longrightarrow> a \<in> set (Q t) \<Longrightarrow> \<exists>s. h a = Some s"
  by (auto dest!: queues_queued simp: queued_def)

section \<open>The ends of the queues in the blades\<close>

definition ends_ok :: "blade list \<Rightarrow> (u64 \<Rightarrow> addr list) \<Rightarrow> bool" where
  "ends_ok tab Q \<longleftrightarrow>
     (\<forall>j < length tab. bl_used (tab ! j) \<longrightarrow>
        bl_head (tab ! j) = first (Q (bl_ttl (tab ! j))) \<and> bl_tail (tab ! j) = final (Q (bl_ttl (tab ! j)))) \<and>
     (\<forall>t. Q t \<noteq> [] \<longrightarrow> (\<exists>j < length tab. bl_used (tab ! j) \<and> bl_ttl (tab ! j) = t))"

lemma ends_ok_entries: "entries tab' = entries tab \<Longrightarrow> ends_ok tab Q \<Longrightarrow> ends_ok tab' Q"
proof -
  assume e: "entries tab' = entries tab" and o: "ends_ok tab Q"
  have "\<exists>i < length tab. core (tab ! i) = core (tab' ! j) \<and> bl_used (tab ! i)"
    if "j < length tab'" "bl_used (tab' ! j)" for j
  proof -
    have "core (tab' ! j) \<in> entries tab" using that e by (auto simp: entries_def)
    then show ?thesis by (auto simp: entries_def)
  qed
  moreover have "\<exists>j < length tab'. core (tab' ! j) = core (tab ! i) \<and> bl_used (tab' ! j)"
    if "i < length tab" "bl_used (tab ! i)" for i
  proof -
    have "core (tab ! i) \<in> entries tab'" using that e by (auto simp: entries_def)
    then show ?thesis by (auto simp: entries_def)
  qed
  ultimately show ?thesis using o unfolding ends_ok_def core_def by (metis prod.inject)
qed

lemma ends_ok_set:
  assumes "ends_ok tab Q" "b < length tab"
    and "\<And>j. j < length tab \<Longrightarrow> j \<noteq> b \<Longrightarrow> bl_used (tab ! j) \<Longrightarrow> bl_ttl (tab ! j) \<noteq> t"
    and "bl_used (tab ! b) \<Longrightarrow> bl_ttl (tab ! b) = t"
    and "bl_used x" "bl_ttl x = t" "bl_head x = first ys" "bl_tail x = final ys"
  shows "ends_ok (tab[b := x]) (Q(t := ys))"
  unfolding ends_ok_def
proof (intro conjI allI impI)
  fix j assume j: "j < length (tab[b := x])" "bl_used (tab[b := x] ! j)"
  show "bl_head (tab[b := x] ! j) = first ((Q(t := ys)) (bl_ttl (tab[b := x] ! j)))"
    and "bl_tail (tab[b := x] ! j) = final ((Q(t := ys)) (bl_ttl (tab[b := x] ! j)))"
    using assms j by (cases "j = b"; auto simp: ends_ok_def)+
next
  fix s assume s: "(Q(t := ys)) s \<noteq> []"
  show "\<exists>j < length (tab[b := x]). bl_used (tab[b := x] ! j) \<and> bl_ttl (tab[b := x] ! j) = s"
  proof (cases "s = t")
    case True
    then show ?thesis using assms by (intro exI [of _ b]) simp
  next
    case False
    then obtain j where "j < length tab" "bl_used (tab ! j)" "bl_ttl (tab ! j) = s"
      using s assms(1) by (auto simp: ends_ok_def)
    then show ?thesis using False assms(2,4) by (intro exI [of _ j]) (auto simp: nth_list_update)
  qed
qed

end
