(* ===== verification/Lawn2_Correct.thy ===== *)
theory Lawn2_Correct
  imports Lawn2_Queues
begin

text \<open>
  The invariant of a lawn2 store and what each operation does to it. \<open>lawn2_inv l h Q L\<close> has the
  ghost queues Q and the ghost live list L as arguments; \<open>lawn2_wf\<close> hides them.
\<close>

definition lawn2_inv :: "lawn2 \<Rightarrow> timers \<Rightarrow> (u64 \<Rightarrow> addr list) \<Rightarrow> nat list \<Rightarrow> bool" where
  "lawn2_inv l h Q L \<longleftrightarrow>
     probe_ok l \<and> l2_count l = used_count (l2_tab l) \<and> l2_count l * 10 < l2_cap l * 7 \<and> 1 \<le> l2_bits l \<and>
     live_links l L \<and> heads_listed l L \<and> ends_ok (l2_tab l) Q \<and> queues_ok h (unat (l2_now l)) Q \<and>
     finite (dom (armed h)) \<and> l2_live l = of_nat (card (dom (armed h))) \<and>
     (\<forall>a e. armed h a = Some e \<longrightarrow> unat (l2_next_expiration l) \<le> e)"

definition lawn2_wf :: "lawn2 \<Rightarrow> timers \<Rightarrow> bool" where
  "lawn2_wf l h \<longleftrightarrow> (\<exists>Q L. lawn2_inv l h Q L)"

lemma lawn2_invD:
  assumes "lawn2_inv l h Q L"
  shows "probe_ok l" "l2_count l = used_count (l2_tab l)" "l2_count l * 10 < l2_cap l * 7" "1 \<le> l2_bits l"
    "live_links l L" "heads_listed l L" "ends_ok (l2_tab l) Q" "queues_ok h (unat (l2_now l)) Q"
    "finite (dom (armed h))" "l2_live l = of_nat (card (dom (armed h)))"
    "\<And>a e. armed h a = Some e \<Longrightarrow> unat (l2_next_expiration l) \<le> e"
  using assms by (auto simp: lawn2_inv_def)

lemma probe_ok_cong:
  "probe_ok l \<Longrightarrow> l2_tab l' = l2_tab l \<Longrightarrow> l2_cap l' = l2_cap l \<Longrightarrow> l2_bits l' = l2_bits l \<Longrightarrow> probe_ok l'"
  by (rule probe_ok_same_keys) auto

lemma live_links_same: "live_links l L \<Longrightarrow> l2_tab l' = l2_tab l \<Longrightarrow> l2_live_head l' = l2_live_head l \<Longrightarrow> live_links l' L"
  by (simp add: live_links_def)

lemma heads_listed_same: "heads_listed l L \<Longrightarrow> l2_tab l' = l2_tab l \<Longrightarrow> heads_listed l' L"
  by (simp add: heads_listed_def)

lemma probe_ok_length: "probe_ok l \<Longrightarrow> length (l2_tab l) = l2_cap l"
  by (simp add: probe_ok_def)

lemma inv_room: "lawn2_inv l h Q L \<Longrightarrow> used_count (l2_tab l) < length (l2_tab l)"
  using lawn2_invD(1-3) [of l h Q L] probe_ok_length [of l] by auto

lemma inv_slot: "lawn2_inv l h Q L \<Longrightarrow> \<exists>b. find_slot l t = Some b"
  using find_slot_total lawn2_invD(1) inv_room by blast

text \<open>The blade of a TTL with queued timers.\<close>

lemma inv_blade:
  assumes "probe_ok l" "ends_ok (l2_tab l) Q" "Q t \<noteq> []"
  shows "\<exists>b. find_slot l t = Some b \<and> b < length (l2_tab l) \<and> bl_used (l2_tab l ! b) \<and> bl_ttl (l2_tab l ! b) = t \<and>
     bl_head (l2_tab l ! b) = first (Q t) \<and> bl_tail (l2_tab l ! b) = final (Q t)"
proof -
  obtain b where b: "b < length (l2_tab l)" "bl_used (l2_tab l ! b)" "bl_ttl (l2_tab l ! b) = t"
    using assms by (auto simp: ends_ok_def)
  then have "find_slot l t = Some b" using assms(1) by (auto simp: probe_ok_def)
  moreover have "bl_head (l2_tab l ! b) = first (Q t) \<and> bl_tail (l2_tab l ! b) = final (Q t)"
    using b assms(2) unfolding ends_ok_def by metis
  ultimately show ?thesis using b by blast
qed

section \<open>A new store\<close>

lemma lawn2_new_inv: "armed h = Map.empty \<Longrightarrow> lawn2_inv lawn2_new h (\<lambda>_. []) []"
proof -
  assume a: "armed h = Map.empty"
  have q: "queues_ok h 0 (\<lambda>_. [])"
    using a by (fastforce simp: queues_ok_def armed_def fun_eq_iff split: option.splits if_splits)
  have e: "ends_ok (l2_tab lawn2_new) (\<lambda>_. [])"
    by (auto simp: ends_ok_def lawn2_new_def blade_zero_def)
  have "probe_ok lawn2_new" "live_links lawn2_new []" "heads_listed lawn2_new []" "used_count (l2_tab lawn2_new) = 0"
    by (rule zero_table; simp add: lawn2_new_def)+
  then show ?thesis using a q e by (simp add: lawn2_inv_def) (simp add: lawn2_new_def)
qed

section \<open>lawn2_add\<close>

lemma grow_inv:
  assumes i: "lawn2_inv l h Q L"
  shows "\<exists>l1 L1. grow l = Some l1 \<and> lawn2_inv l1 h Q L1 \<and> l2_cap l1 = 2 * l2_cap l \<and> l2_count l1 = l2_count l \<and>
     l2_now l1 = l2_now l \<and> l2_live l1 = l2_live l \<and> l2_next_expiration l1 = l2_next_expiration l \<and>
     entries (l2_tab l1) = entries (l2_tab l)"
proof -
  obtain l' L' where g: "grow l = Some l'"
      "l' = l\<lparr>l2_tab := l2_tab l', l2_cap := 2 * l2_cap l, l2_bits := l2_bits l + 1, l2_live_head := l2_live_head l'\<rparr>"
      "probe_ok l'" "live_links l' L'" "heads_listed l' L'" "used_count (l2_tab l') = used_count (l2_tab l)"
      "entries (l2_tab l') = entries (l2_tab l)"
    using grow_spec [OF lawn2_invD(1,2) [OF i]] by blast
  have f: "l2_count l' = l2_count l" "l2_cap l' = 2 * l2_cap l" "l2_bits l' = l2_bits l + 1" "l2_now l' = l2_now l"
      "l2_live l' = l2_live l" "l2_next_expiration l' = l2_next_expiration l"
    by (subst g(2), simp)+
  have "l2_count l * 10 < (2 * l2_cap l) * 7" using lawn2_invD(3) [OF i] by linarith
  moreover have "ends_ok (l2_tab l') Q" using ends_ok_entries [OF g(7) lawn2_invD(7) [OF i]] .
  ultimately show ?thesis
    using g(1,3-7) lawn2_invD [OF i] f
    by (intro exI [of _ l'] exI [of _ L']) (simp add: lawn2_inv_def)
qed

text \<open>The load test: afterwards there is room for one more TTL below the load limit.\<close>

lemma add_room:
  assumes i: "lawn2_inv l h Q L"
  shows "\<exists>l1 L1. (if (l2_count l + 1) * 10 \<ge> l2_cap l * 7 then grow l else Some l) = Some l1 \<and>
     lawn2_inv l1 h Q L1 \<and> (l2_count l1 + 1) * 10 < l2_cap l1 * 7 \<and> l2_now l1 = l2_now l \<and>
     l2_live l1 = l2_live l \<and> l2_next_expiration l1 = l2_next_expiration l"
proof (cases "(l2_count l + 1) * 10 \<ge> l2_cap l * 7")
  case False
  then show ?thesis using i by (intro exI [of _ l] exI [of _ L]) simp
next
  case True
  obtain l1 L1 where g: "grow l = Some l1" "lawn2_inv l1 h Q L1" "l2_cap l1 = 2 * l2_cap l" "l2_count l1 = l2_count l"
      "l2_now l1 = l2_now l" "l2_live l1 = l2_live l" "l2_next_expiration l1 = l2_next_expiration l"
    using grow_inv [OF i] by blast
  have "l2_cap l \<ge> 2"
    using lawn2_invD(1,4) [OF i] power_increasing [of 1 "l2_bits l" "2::nat"] by (simp add: probe_ok_def)
  then have "(l2_count l1 + 1) * 10 < l2_cap l1 * 7" using lawn2_invD(3) [OF i] unfolding g(3,4) by simp
  then show ?thesis using True g by (intro exI [of _ l1] exI [of _ L1]) simp
qed

text \<open>The slot of a TTL as lawn2_add sees it after claiming it.\<close>

lemma slot_ends:
  assumes p: "probe_ok l" and e: "ends_ok (l2_tab l) Q" and f: "find_slot l t = Some b"
  shows "b < length (l2_tab l)"
    and "bl_used (l2_tab l ! b) \<Longrightarrow> bl_ttl (l2_tab l ! b) = t \<and> bl_head (l2_tab l ! b) = first (Q t) \<and> bl_tail (l2_tab l ! b) = final (Q t)"
    and "\<not> bl_used (l2_tab l ! b) \<Longrightarrow> Q t = []"
    and "\<And>j. j < length (l2_tab l) \<Longrightarrow> j \<noteq> b \<Longrightarrow> bl_used (l2_tab l ! j) \<Longrightarrow> bl_ttl (l2_tab l ! j) \<noteq> t"
proof -
  show b: "b < length (l2_tab l)" using find_slot_hit [OF p f] by simp
  show u: "bl_ttl (l2_tab l ! b) = t \<and> bl_head (l2_tab l ! b) = first (Q t) \<and> bl_tail (l2_tab l ! b) = final (Q t)"
    if "bl_used (l2_tab l ! b)"
  proof -
    have "bl_ttl (l2_tab l ! b) = t" using find_slot_hit [OF p f] that by (simp add: hit_def)
    then show ?thesis using e b that unfolding ends_ok_def by metis
  qed
  show "Q t = []" if "\<not> bl_used (l2_tab l ! b)"
    using find_slot_free [OF p f that] e unfolding ends_ok_def by metis
  show "bl_ttl (l2_tab l ! j) \<noteq> t" if j: "j < length (l2_tab l)" "j \<noteq> b" "bl_used (l2_tab l ! j)" for j
  proof
    assume "bl_ttl (l2_tab l ! j) = t"
    then have "find_slot l t = Some j" using p j by (auto simp: probe_ok_def)
    then show False using f j(2) by simp
  qed
qed

lemma lower_next_expiration:
  "(if e < l2_next_expiration l then l\<lparr>l2_next_expiration := e\<rparr> else l) =
     l\<lparr>l2_next_expiration := min (l2_next_expiration l) e\<rparr>"
  by (simp add: min_def)

text \<open>What lawn2_add leaves of the timers: the new one at the end of its queue.\<close>

definition add_heap :: "timers \<Rightarrow> u64 \<Rightarrow> addr \<Rightarrow> u64 \<Rightarrow> addr option \<Rightarrow> timers" where
  "add_heap h now n ttl tail =
     (let h1 = h(n \<mapsto> (the (h n))\<lparr>tm_ttl := ttl, tm_expiration := now + ttl, tm_in_store := True,
                  tm_next := None, tm_prev := tail\<rparr>)
      in case tail of None \<Rightarrow> h1 | Some p \<Rightarrow> h1(p \<mapsto> (the (h1 p))\<lparr>tm_next := Some n\<rparr>))"

lemma add_heap_queues:
  assumes q: "queues_ok h (unat now) Q" and n: "h n = Some t" "\<not> tm_in_store t"
    and nov: "unat now + unat ttl < 2 ^ 64"
  shows "queues_ok (add_heap h now n ttl (final (Q ttl))) (unat now) (Q(ttl := Q ttl @ [n]))"
    and "armed (add_heap h now n ttl (final (Q ttl))) = (armed h)(n \<mapsto> unat now + unat ttl)"
proof -
  let ?h = "add_heap h now n ttl (final (Q ttl))"
  have e: "unat (now + ttl) = unat now + unat ttl" using nov by (simp add: unat_add_small)
  have an: "armed h n = None" using n by (simp add: armed_def)
  have fin: "p \<noteq> n \<and> (\<exists>s. h p = Some s)" if "final (Q ttl) = Some p" for p
    using queues_mem [OF q final_Some_in [OF that]] armed_queued [OF q final_Some_in [OF that]] an by auto
  obtain tn where tn: "?h n = Some tn" "tm_ttl tn = ttl" "tm_in_store tn" "tm_expiration tn = now + ttl"
      "tm_next tn = None" "tm_prev tn = final (Q ttl)"
    using fin by (cases "final (Q ttl)") (auto simp: add_heap_def)
  have dt: "map_option data (?h a) = map_option data (h a)" if "a \<noteq> n" for a
    using that fin by (cases "final (Q ttl)") (auto simp: add_heap_def data_def)
  have lk: "nxt ?h a = (if final (Q ttl) = Some a then Some n else nxt h a) \<and> prv ?h a = prv h a" if "a \<noteq> n" for a
    using that fin by (cases "final (Q ttl)") (auto simp: add_heap_def nxt_upd prv_upd, auto simp: prv_def)
  show "queues_ok ?h (unat now) (Q(ttl := Q ttl @ [n]))" "armed ?h = (armed h)(n \<mapsto> unat now + unat ttl)"
    using queues_append [OF q an tn(1) tn(2) tn(3) _ tn(5) tn(6) dt lk] tn(4) e by simp_all
qed

lemma lawn2_add_correct:
  assumes i: "lawn2_inv l h Q L" and n: "h n = Some t" "\<not> tm_in_store t"
    and nov: "unat (l2_now l) + unat ttl < 2 ^ 64"
  shows "\<exists>l' h' L'. lawn2_add l h n ttl = Some (l', h') \<and> lawn2_inv l' h' (Q(ttl := Q ttl @ [n])) L' \<and>
     l2_now l' = l2_now l \<and> armed h' = (armed h)(n \<mapsto> unat (l2_now l) + unat ttl) \<and>
     l2_next_expiration l' = min (l2_next_expiration l) (l2_now l + ttl) \<and> ids h' = ids h"
proof -
  obtain l1 L1 where r: "(if (l2_count l + 1) * 10 \<ge> l2_cap l * 7 then grow l else Some l) = Some l1"
      and i1: "lawn2_inv l1 h Q L1" and load: "(l2_count l1 + 1) * 10 < l2_cap l1 * 7"
      and same: "l2_now l1 = l2_now l" "l2_live l1 = l2_live l" "l2_next_expiration l1 = l2_next_expiration l"
    using add_room [OF i] by blast
  note d = lawn2_invD [OF i1]
  obtain b where f: "find_slot l1 ttl = Some b" using inv_slot [OF i1] by blast
  note s = slot_ends [OF d(1) d(7) f]
  let ?x = "l2_tab l1 ! b"
  define x0 where "x0 = (if bl_used ?x then ?x else ?x\<lparr>bl_used := True, bl_ttl := ttl, bl_head := None, bl_tail := None\<rparr>)"
  define c where "c = (if bl_used ?x then l2_count l1 else l2_count l1 + 1)"
  have x0: "bl_used x0" "bl_ttl x0 = ttl" "bl_head x0 = first (Q ttl)" "bl_tail x0 = final (Q ttl)"
      "live_prev x0 = live_prev ?x" "live_next x0 = live_next ?x"
    using s(2,3) by (auto simp: x0_def)
  have claim: "(if \<not> bl_used ?x then do {
            l \<leftarrow> upd_blade l1 b (\<lambda>x. x\<lparr>bl_used := True, bl_ttl := ttl, bl_head := None, bl_tail := None\<rparr>);
            Some (l\<lparr>l2_count := l2_count l + 1\<rparr>)
          } else Some l1) = Some (l1\<lparr>l2_tab := (l2_tab l1)[b := x0], l2_count := c\<rparr>)"
    using s(1) by (simp add: x0_def c_def)
  define was_empty where "was_empty = (bl_head ?x = None)"
  have we: "was_empty \<longleftrightarrow> Q ttl = []"
    using s d(6) by (cases "bl_used ?x") (auto simp: was_empty_def heads_listed_def)
  define h' where "h' = add_heap h (l2_now l) n ttl (final (Q ttl))"
  define x1 where "x1 = x0\<lparr>bl_head := first (Q ttl @ [n]), bl_tail := Some n\<rparr>"
  let ?tab1 = "(l2_tab l1)[b := x1]"
  let ?nx = "min (l2_next_expiration l) (l2_now l + ttl)"
  let ?l2 = "l1\<lparr>l2_count := c, l2_tab := ?tab1, l2_live := l2_live l1 + 1, l2_next_expiration := ?nx\<rparr>"
  have q': "queues_ok h' (unat (l2_now l)) (Q(ttl := Q ttl @ [n]))"
      and a': "armed h' = (armed h)(n \<mapsto> unat (l2_now l) + unat ttl)"
    using add_heap_queues [of h "l2_now l" Q n t ttl] d(8) same(1) n nov by (simp_all add: h'_def)
  have fin: "p \<noteq> n \<and> (\<exists>s. h p = Some s)" if "final (Q ttl) = Some p" for p
    using queues_mem [OF d(8) final_Some_in [OF that]] armed_queued [OF d(8) final_Some_in [OF that]] n
    by (auto simp: armed_def)
  have ids: "ids h' = ids h"
    using n fin by (cases "final (Q ttl)") (auto simp: h'_def add_heap_def ids_def fun_eq_iff)
  have run: "lawn2_add l h n ttl =
      (if was_empty then live_link ?l2 b else Some ?l2) \<bind> (\<lambda>l. Some (l, h'))"
  proof (cases "final (Q ttl)")
    case None
    then have "Q ttl = []" by simp
    then show ?thesis
      using None r f s(1) claim x0 n same
      by (simp add: lawn2_add_def was_empty_def h'_def add_heap_def x1_def lower_next_expiration Let_def)
  next
    case (Some p)
    have "Q ttl \<noteq> []" using Some by auto
    then have "first (Q ttl @ [n]) = first (Q ttl)" by (simp add: first_append)
    then have x1e: "x1 = x0\<lparr>bl_tail := Some n\<rparr>" using x0 by (simp add: x1_def)
    obtain sp where sp: "h p = Some sp" "p \<noteq> n" using fin [OF Some] by auto
    then show ?thesis
      using Some r f s(1) claim x0 n same
      by (simp add: lawn2_add_def was_empty_def h'_def add_heap_def x1e lower_next_expiration Let_def)
  qed
  have p2: "probe_ok ?l2"
  proof (cases "bl_used ?x")
    case True
    have "same_keys (l2_tab l1) ?tab1"
      by (rule same_keys_update) (use s(1,2) True x0 in \<open>auto simp: x1_def\<close>)
    then show ?thesis by (intro probe_ok_same_keys [OF d(1)]) simp_all
  next
    case False
    show ?thesis by (rule probe_ok_claim [OF d(1) f False, of x1]) (simp_all add: x1_def x0)
  qed
  have e2: "ends_ok ?tab1 (Q(ttl := Q ttl @ [n]))"
    by (rule ends_ok_set [OF d(7) s(1,4)]) (use s(2) x0 in \<open>auto simp: x1_def\<close>)
  have u2: "c = used_count ?tab1"
    using used_count_update [OF s(1), of x1] d(2) x0 by (simp add: c_def x1_def split: if_splits)
  have c2: "c * 10 < l2_cap l1 * 7" using load d(3) by (simp add: c_def)
  have dn: "armed h n = None" using n by (simp add: armed_def)
  have live2: "l2_live l1 + 1 = of_nat (card (dom (armed h')))"
    unfolding a' card_dom_insert [OF d(9) dn] using d(10) by simp
  have fin2: "finite (dom (armed h'))" using d(9) a' by simp
  have nx2: "unat ?nx \<le> e" if "armed h' a = Some e" for a e
    using that a' d(11) [of a e] same nov
    by (auto simp: min_def word_le_nat_alt unat_add_small split: if_splits)
  have links2: "live_links ?l2 L1"
    by (rule live_links_cong [OF d(5)]) (use s(1) x0 in \<open>auto simp: x1_def nth_list_update\<close>)
  show ?thesis
  proof (cases was_empty)
    case False
    have u: "bl_used ?x" using False we s(3) by auto
    have "first (Q ttl @ [n]) = bl_head ?x" using False we s(2) [OF u] by (simp add: first_append)
    with u have "heads_listed ?l2 L1"
      using d(6) s(1) x0(1) by (auto simp: heads_listed_def x1_def nth_list_update)
    then have "lawn2_inv ?l2 h' (Q(ttl := Q ttl @ [n])) L1"
      unfolding lawn2_inv_def using p2 e2 u2 c2 live2 fin2 nx2 links2 q' d(4) same by simp
    then show ?thesis using run False a' same ids by (intro exI [of _ ?l2] exI [of _ h'] exI [of _ L1]) simp
  next
    case True
    then have nb: "b \<notin> set L1" using d(6) by (auto simp: heads_listed_def was_empty_def)
    obtain tab' where k: "live_link ?l2 b = Some (?l2\<lparr>l2_tab := tab', l2_live_head := Some b\<rparr>)"
        "same_core (l2_tab ?l2) tab'" "live_links (?l2\<lparr>l2_tab := tab', l2_live_head := Some b\<rparr>) (b # L1)"
      using live_link_spec [OF links2 _ nb] s(1) by auto
    let ?l3 = "?l2\<lparr>l2_tab := tab', l2_live_head := Some b\<rparr>"
    have "heads_listed ?l2 (b # L1)"
      using d(6) s(1) x0(1) True we by (auto simp: heads_listed_def x1_def nth_list_update)
    then have hl3: "heads_listed ?l3 (b # L1)" using heads_listed_same_core [of ?l2 ?l3] k(2) by simp
    have p3: "probe_ok ?l3" by (rule probe_ok_same_keys [OF p2]) (use k(2) in \<open>auto intro: same_core_keys\<close>)
    have e3: "ends_ok tab' (Q(ttl := Q ttl @ [n]))"
      using ends_ok_entries [OF entries_same_core [OF k(2)]] e2 by simp
    have u3: "c = used_count tab'" using same_keys_used_count [OF same_core_keys [OF k(2)]] u2 by simp
    have "lawn2_inv ?l3 h' (Q(ttl := Q ttl @ [n])) (b # L1)"
      unfolding lawn2_inv_def using p3 e3 u3 c2 live2 fin2 nx2 k(3) hl3 q' d(4) same by simp
    then show ?thesis using run True k(1) a' same ids by (intro exI [of _ ?l3] exI [of _ h'] exI [of _ "b # L1"]) simp
  qed
qed

section \<open>lawn2_del\<close>

text \<open>The timers after an unlink: the neighbours joined, the node replaced by \<open>tn\<close>.\<close>

definition unlink_heap :: "timers \<Rightarrow> addr \<Rightarrow> addr option \<Rightarrow> addr option \<Rightarrow> lawn2_timer \<Rightarrow> timers" where
  "unlink_heap h n p q tn =
     (let h1 = (case p of None \<Rightarrow> h | Some a \<Rightarrow> h(a \<mapsto> (the (h a))\<lparr>tm_next := q\<rparr>));
          h2 = (case q of None \<Rightarrow> h1 | Some a \<Rightarrow> h1(a \<mapsto> (the (h1 a))\<lparr>tm_prev := p\<rparr>))
      in h2(n \<mapsto> tn))"

lemma unlink_heap_ids:
  assumes "h n = Some t" "tm_id tn = tm_id t"
    and "\<And>a. p = Some a \<Longrightarrow> h a \<noteq> None" "\<And>a. q = Some a \<Longrightarrow> h a \<noteq> None"
  shows "ids (unlink_heap h n p q tn) = ids h"
  using assms by (cases p; cases q) (auto simp: fun_eq_iff unlink_heap_def ids_def Let_def)

lemma unlink_heap_queues:
  assumes q: "queues_ok h now Q" and Qt: "Q t = xs @ n # ys" and tn: "\<not> tm_in_store tn"
  shows "queues_ok (unlink_heap h n (final xs) (first ys) tn) now (Q(t := xs @ ys))"
    and "armed (unlink_heap h n (final xs) (first ys) tn) = (armed h)(n := None)"
    and "unlink_heap h n (final xs) (first ys) tn n = Some tn"
    and "a \<noteq> n \<Longrightarrow> a \<noteq> n \<longrightarrow> a \<notin> set (Q t) \<Longrightarrow> unlink_heap h n (final xs) (first ys) tn a = h a"
proof -
  let ?h = "unlink_heap h n (final xs) (first ys) tn"
  have dist: "distinct (xs @ n # ys)" using queues_dlist [OF q, of t] Qt dlist_distinct by metis
  have f: "p \<noteq> n \<and> p \<in> set xs \<and> (\<exists>s. h p = Some s)" if "final xs = Some p" for p
    using final_Some_in [OF that] dist queues_mem [OF q, of p t] Qt by auto
  have g: "p \<noteq> n \<and> p \<in> set ys \<and> (\<exists>s. h p = Some s)" if "first ys = Some p" for p
    using first_Some_in [OF that] dist queues_mem [OF q, of p t] Qt by auto
  have fg: "final xs = Some p \<Longrightarrow> first ys \<noteq> Some p" for p using f g dist by fastforce
  show n: "?h n = Some tn" by (simp add: unlink_heap_def Let_def)
  have dt: "map_option data (?h a) = map_option data (h a)" if "a \<noteq> n" for a
    using that f g by (cases "final xs"; cases "first ys") (auto simp: unlink_heap_def Let_def data_def)
  have lk: "nxt ?h a = (if final xs = Some a then first ys else nxt h a) \<and>
      prv ?h a = (if first ys = Some a then final xs else prv h a)" if "a \<noteq> n" for a
    using that f g fg by (cases "final xs"; cases "first ys")
      (auto simp: unlink_heap_def Let_def nxt_upd prv_upd, auto simp: prv_def nxt_def)
  have an: "armed ?h n = None" using n tn by (simp add: armed_def)
  show "queues_ok ?h now (Q(t := xs @ ys))" "armed ?h = (armed h)(n := None)"
    using queues_unlink [OF q Qt an dt lk] by simp_all
  show "?h a = h a" if "a \<noteq> n" "a \<noteq> n \<longrightarrow> a \<notin> set (Q t)" for a
    using that f g Qt by (cases "final xs"; cases "first ys") (auto simp: unlink_heap_def Let_def)
qed

text \<open>A blade whose queue lost a timer.\<close>

definition set_ends :: "blade \<Rightarrow> addr list \<Rightarrow> blade" where
  "set_ends x xs = x\<lparr>bl_head := first xs, bl_tail := final xs\<rparr>"

lemma set_ends_cases:
  "bl_head x = first (xs @ n # ys) \<Longrightarrow> bl_tail x = final (xs @ n # ys) \<Longrightarrow>
   set_ends x (xs @ ys) =
     (if xs = [] then if ys = [] then x\<lparr>bl_head := None, bl_tail := None\<rparr> else x\<lparr>bl_head := first ys\<rparr>
      else if ys = [] then x\<lparr>bl_tail := final xs\<rparr> else x)"
  by (cases x) (auto simp: set_ends_def first_append final_append final_eq)

lemma set_ends_table:
  assumes p: "probe_ok l" and e: "ends_ok (l2_tab l) Q" and b: "find_slot l t = Some b" "bl_used (l2_tab l ! b)"
  shows "probe_ok (l\<lparr>l2_tab := (l2_tab l)[b := set_ends (l2_tab l ! b) xs]\<rparr>)"
    and "ends_ok ((l2_tab l)[b := set_ends (l2_tab l ! b) xs]) (Q(t := xs))"
    and "used_count ((l2_tab l)[b := set_ends (l2_tab l ! b) xs]) = used_count (l2_tab l)"
    and "live_links l L \<Longrightarrow> live_links (l\<lparr>l2_tab := (l2_tab l)[b := set_ends (l2_tab l ! b) xs]\<rparr>) L"
proof -
  note s = slot_ends [OF p e b(1)]
  have k: "same_keys (l2_tab l) ((l2_tab l)[b := set_ends (l2_tab l ! b) xs])"
    by (rule same_keys_update) (use s(1) in \<open>auto simp: set_ends_def\<close>)
  show "probe_ok (l\<lparr>l2_tab := (l2_tab l)[b := set_ends (l2_tab l ! b) xs]\<rparr>)"
    using k by (intro probe_ok_same_keys [OF p]) simp_all
  show "ends_ok ((l2_tab l)[b := set_ends (l2_tab l ! b) xs]) (Q(t := xs))"
    by (rule ends_ok_set [OF e s(1,4)]) (use s(2) b(2) in \<open>auto simp: set_ends_def\<close>)
  show "used_count ((l2_tab l)[b := set_ends (l2_tab l ! b) xs]) = used_count (l2_tab l)"
    by (rule same_keys_used_count [OF k])
  show "live_links (l\<lparr>l2_tab := (l2_tab l)[b := set_ends (l2_tab l ! b) xs]\<rparr>) L" if "live_links l L"
    by (rule live_links_cong [OF that]) (use s(1) in \<open>auto simp: set_ends_def nth_list_update\<close>)
qed

text \<open>Taking a blade off the live list when its queue has become empty, leaving it there otherwise.\<close>

lemma settle_blade:
  assumes p: "probe_ok l" and e: "ends_ok (l2_tab l) Q" and L: "live_links l (xs @ b # ys)"
    and b: "b < length (l2_tab l)"
    and hl: "set (xs @ ys) = {j. j < length (l2_tab l) \<and> j \<noteq> b \<and> bl_head (l2_tab l ! j) \<noteq> None}"
    and un: "\<forall>j < length (l2_tab l). \<not> bl_used (l2_tab l ! j) \<longrightarrow> bl_head (l2_tab l ! j) = None"
  shows "\<exists>tab' hd'. (if bl_head (l2_tab l ! b) = None then live_unlink l b else Some l) =
      Some (l\<lparr>l2_tab := tab', l2_live_head := hd'\<rparr>) \<and>
     probe_ok (l\<lparr>l2_tab := tab', l2_live_head := hd'\<rparr>) \<and> ends_ok tab' Q \<and> used_count tab' = used_count (l2_tab l) \<and>
     same_core (l2_tab l) tab' \<and>
     live_links (l\<lparr>l2_tab := tab', l2_live_head := hd'\<rparr>) (xs @ (if bl_head (l2_tab l ! b) = None then [] else [b]) @ ys) \<and>
     heads_listed (l\<lparr>l2_tab := tab', l2_live_head := hd'\<rparr>) (xs @ (if bl_head (l2_tab l ! b) = None then [] else [b]) @ ys)"
proof (cases "bl_head (l2_tab l ! b) = None")
  case False
  then show ?thesis using p e L hl un b
    by (intro exI [of _ "l2_tab l"] exI [of _ "l2_live_head l"]) (auto simp: heads_listed_def)
next
  case True
  obtain tab' where k: "live_unlink l b = Some (l\<lparr>l2_tab := tab', l2_live_head := first (xs @ ys)\<rparr>)"
      "same_core (l2_tab l) tab'" "live_links (l\<lparr>l2_tab := tab', l2_live_head := first (xs @ ys)\<rparr>) (xs @ ys)"
    using live_unlink_spec [OF L] by blast
  let ?l = "l\<lparr>l2_tab := tab', l2_live_head := first (xs @ ys)\<rparr>"
  have "probe_ok ?l" by (rule probe_ok_same_keys [OF p]) (use k(2) in \<open>auto intro: same_core_keys\<close>)
  moreover have "ends_ok tab' Q" using ends_ok_entries [OF entries_same_core [OF k(2)] e] .
  moreover have "heads_listed l (xs @ ys)" using hl un True by (auto simp: heads_listed_def)
  then have "heads_listed ?l (xs @ ys)" using heads_listed_same_core [of l ?l] k(2) by simp
  ultimately show ?thesis using True k same_keys_used_count [OF same_core_keys [OF k(2)]]
    by (intro exI [of _ tab'] exI [of _ "first (xs @ ys)"]) simp
qed

lemma lawn2_del_idle: "h n = Some t \<Longrightarrow> \<not> tm_in_store t \<Longrightarrow> lawn2_del l h n = Some (l, h)"
  by (simp add: lawn2_del_def)

text \<open>The pointer statements of lawn2_del, up to the settling of the blade.\<close>

lemma lawn2_del_run:
  assumes q: "queues_ok h now Q" and Qt: "Q ttl = xs @ n # ys"
    and b: "find_slot l ttl = Some b" "b < length (l2_tab l)" "bl_head (l2_tab l ! b) = first (Q ttl)" "bl_tail (l2_tab l ! b) = final (Q ttl)"
    and n: "h n = Some t" "tm_in_store t" "tm_ttl t = ttl"
  shows "lawn2_del l h n =
    (let l2 = l\<lparr>l2_tab := (l2_tab l)[b := set_ends (l2_tab l ! b) (xs @ ys)], l2_live := l2_live l - 1\<rparr>
     in (if bl_head (l2_tab l2 ! b) = None then live_unlink l2 b else Some l2) \<bind>
       (\<lambda>l. Some (l, unlink_heap h n (final xs) (first ys) (t\<lparr>tm_next := None, tm_prev := None, tm_in_store := False\<rparr>))))"
proof -
  have lk: "tm_next t = first ys" "tm_prev t = final xs" using queues_links [OF q Qt] n by auto
  have dist: "distinct (xs @ n # ys)" using queues_dlist [OF q, of ttl] Qt dlist_distinct by metis
  have f: "p \<noteq> n \<and> (\<exists>s. h p = Some s)" if "final xs = Some p" for p
    using final_Some_in [OF that] dist queues_mem [OF q, of p ttl] Qt by auto
  have g: "p \<noteq> n \<and> (\<exists>s. h p = Some s)" if "first ys = Some p" for p
    using first_Some_in [OF that] dist queues_mem [OF q, of p ttl] Qt by auto
  have fg: "final xs = Some p \<Longrightarrow> first ys \<noteq> Some p" for p
    using dist by (auto dest!: final_Some_in first_Some_in)
  have se: "set_ends (l2_tab l ! b) (xs @ ys) =
     (if xs = [] then if ys = [] then (l2_tab l ! b)\<lparr>bl_head := None, bl_tail := None\<rparr> else (l2_tab l ! b)\<lparr>bl_head := first ys\<rparr>
      else if ys = [] then (l2_tab l ! b)\<lparr>bl_tail := final xs\<rparr> else l2_tab l ! b)"
    by (rule set_ends_cases) (use b Qt in simp_all)
  show ?thesis
  proof (cases "final xs")
    case None
    then have "xs = []" by simp
    then show ?thesis using None b n lk g se
      by (cases "first ys") (auto simp: lawn2_del_def unlink_heap_def Let_def)
  next
    case (Some p)
    then obtain s where "p \<noteq> n" "h p = Some s" using f by auto
    moreover have "xs \<noteq> []" using Some by auto
    ultimately show ?thesis using Some b n lk g se fg
      by (cases "first ys") (auto simp: lawn2_del_def unlink_heap_def Let_def)
  qed
qed

lemma lawn2_del_correct:
  assumes i: "lawn2_inv l h Q L" and n: "h n = Some t" "tm_in_store t"
  shows "\<exists>l' h' Q' L'. lawn2_del l h n = Some (l', h') \<and> lawn2_inv l' h' Q' L' \<and> l2_now l' = l2_now l \<and>
     armed h' = (armed h)(n := None) \<and> l2_next_expiration l' = l2_next_expiration l \<and>
     h' n = Some (t\<lparr>tm_next := None, tm_prev := None, tm_in_store := False\<rparr>) \<and> ids h' = ids h"
proof -
  note d = lawn2_invD [OF i]
  have mem: "n \<in> set (Q (tm_ttl t))" using queues_complete [OF d(8) n] .
  then obtain xs ys where Qt: "Q (tm_ttl t) = xs @ n # ys" by (meson split_list)
  obtain b where b: "find_slot l (tm_ttl t) = Some b" "b < length (l2_tab l)" "bl_used (l2_tab l ! b)"
      "bl_head (l2_tab l ! b) = first (Q (tm_ttl t))" "bl_tail (l2_tab l ! b) = final (Q (tm_ttl t))"
    using inv_blade [OF d(1,7), of "tm_ttl t"] Qt by auto
  let ?tn = "t\<lparr>tm_next := None, tm_prev := None, tm_in_store := False\<rparr>"
  let ?h = "unlink_heap h n (final xs) (first ys) ?tn"
  let ?tab = "(l2_tab l)[b := set_ends (l2_tab l ! b) (xs @ ys)]"
  let ?l2 = "l\<lparr>l2_tab := ?tab, l2_live := l2_live l - 1\<rparr>"
  let ?Q = "Q(tm_ttl t := xs @ ys)"
  note u = unlink_heap_queues [OF d(8) Qt, of ?tn, simplified]
  note st = set_ends_table [OF d(1,7) b(1,3), where xs = "xs @ ys"]
  have bL: "b \<in> set L" using d(6) b Qt by (auto simp: heads_listed_def)
  obtain us vs where L: "L = us @ b # vs" using bL by (meson split_list)
  have dL: "distinct L" using d(5) by (auto simp: live_links_def dest: dlist_distinct)
  have links: "live_links ?l2 (us @ b # vs)"
    using st(4) [OF d(5)] L by (auto intro: live_links_same)
  have p2: "probe_ok ?l2" by (rule probe_ok_cong [OF st(1)]) simp_all
  have hl: "set (us @ vs) = {j. j < length (l2_tab ?l2) \<and> j \<noteq> b \<and> bl_head (l2_tab ?l2 ! j) \<noteq> None}"
  proof -
    have "set (us @ vs) = set L - {b}" using dL unfolding L by auto
    also have "set L = {j. j < length (l2_tab l) \<and> bl_head (l2_tab l ! j) \<noteq> None}"
      using d(6) by (simp add: heads_listed_def)
    finally show ?thesis by auto
  qed
  have un: "\<forall>j < length (l2_tab ?l2). \<not> bl_used (l2_tab ?l2 ! j) \<longrightarrow> bl_head (l2_tab ?l2 ! j) = None"
    using d(6) b(2,3) by (auto simp: heads_listed_def set_ends_def nth_list_update)
  obtain tab' hd' vs' where s:
      "(if bl_head (l2_tab ?l2 ! b) = None then live_unlink ?l2 b else Some ?l2) = Some (?l2\<lparr>l2_tab := tab', l2_live_head := hd'\<rparr>)"
      "probe_ok (?l2\<lparr>l2_tab := tab', l2_live_head := hd'\<rparr>)" "ends_ok tab' ?Q" "used_count tab' = used_count ?tab"
      "live_links (?l2\<lparr>l2_tab := tab', l2_live_head := hd'\<rparr>) (us @ vs' @ vs)"
      "heads_listed (?l2\<lparr>l2_tab := tab', l2_live_head := hd'\<rparr>) (us @ vs' @ vs)"
    using settle_blade [OF p2 _ links _ hl un, of ?Q] st(2) b(2) by auto
  let ?l3 = "?l2\<lparr>l2_tab := tab', l2_live_head := hd'\<rparr>"
  have an: "armed h n \<noteq> None" using n by (simp add: armed_def)
  have live: "l2_live l - 1 = of_nat (card (dom (armed ?h)))"
    unfolding u(2) d(10) card_dom_remove [OF d(9) an, symmetric] by simp
  have "ids ?h = ids h"
    by (rule unlink_heap_ids [of h n t])
      (use n queues_mem [OF d(8), of _ "tm_ttl t"] Qt in \<open>auto dest!: first_Some_in final_Some_in\<close>)
  moreover have "lawn2_inv ?l3 ?h ?Q (us @ vs' @ vs)"
    unfolding lawn2_inv_def
    using s(2-6) u(1) live d(2,3,4,9,11) st(3) by (simp add: u(2))
  moreover have "lawn2_del l h n = Some (?l3, ?h)"
    using lawn2_del_run [OF d(8) Qt b(1,2,4,5) n refl] s(1) by (simp add: Let_def)
  ultimately show ?thesis using u(2,3)
    by (intro exI [of _ ?l3] exI [of _ ?h] exI [of _ ?Q] exI [of _ "us @ vs' @ vs"]) simp
qed

end
