(* ===== verification/Lawn2_Expiry.thy ===== *)
theory Lawn2_Expiry
  imports Lawn2_Correct
begin

text \<open>
  Expiry in lawn2: lawn2_tick, lawn2_advance and the function they share, collect_expired. The two
  loops are followed with their ghost queues: \<open>drain\<close> takes the due prefix of one sorted queue,
  \<open>collect_loop\<close> does it for every live blade and recomputes next_expiration.
\<close>

section \<open>The output list\<close>

fun chain :: "timers \<Rightarrow> addr option \<Rightarrow> addr list \<Rightarrow> bool" where
  "chain h p [] \<longleftrightarrow> p = None"
| "chain h p (x # xs) \<longleftrightarrow> p = Some x \<and> prv h x = None \<and> chain h (nxt h x) xs"

definition out_ok :: "timers \<Rightarrow> addr option option \<Rightarrow> addr list \<Rightarrow> bool" where
  "out_ok h out os \<longleftrightarrow> distinct os \<and> (\<forall>a \<in> set os. armed h a = None) \<and>
     (case out of None \<Rightarrow> True | Some p \<Rightarrow> chain h p os)"

text \<open>What expiry never changes in a timer.\<close>

definition ident :: "timers \<Rightarrow> addr \<Rightarrow> (u64 \<times> u64 \<times> u64) option" where
  "ident h a = map_option (\<lambda>t. (tm_ttl t, tm_expiration t, tm_id t)) (h a)"

lemma ident_deadline: "ident h' = ident h \<Longrightarrow> deadline h' a = deadline h a"
proof -
  assume "ident h' = ident h"
  then have "ident h' a = ident h a" by simp
  then show ?thesis by (cases "h a"; cases "h' a") (auto simp: ident_def deadline_def)
qed

lemma chain_cong: "(\<And>a. a \<in> set xs \<Longrightarrow> h' a = h a) \<Longrightarrow> chain h' p xs = chain h p xs"
  by (induction xs arbitrary: p) (auto simp: nxt_def prv_def)

section \<open>One timer\<close>

definition fired_node :: "lawn2_timer \<Rightarrow> addr option option \<Rightarrow> lawn2_timer" where
  "fired_node t out = t\<lparr>tm_in_store := False, tm_next := (case out of Some p \<Rightarrow> p | None \<Rightarrow> None), tm_prev := None\<rparr>"

lemma fire_head_run:
  assumes q: "queues_ok h now Q" and Qt: "Q ttl = n # ys" and n: "h n = Some t"
    and b: "b < length (l2_tab l)" "bl_head (l2_tab l ! b) = first (Q ttl)" "bl_tail (l2_tab l ! b) = final (Q ttl)"
  shows "fire_head l h out b n =
    Some (l\<lparr>l2_tab := (l2_tab l)[b := set_ends (l2_tab l ! b) ys]\<rparr>,
          unlink_heap h n None (first ys) (fired_node t out), map_option (\<lambda>_. Some n) out)"
proof -
  have Qt': "Q ttl = [] @ n # ys" using Qt by simp
  have lk: "tm_next t = first ys" using queues_links [OF q Qt'] n by auto
  have dist: "distinct (n # ys)" using queues_dlist [OF q, of ttl] Qt dlist_distinct by metis
  have g: "p \<noteq> n \<and> (\<exists>s. h p = Some s)" if "first ys = Some p" for p
    using first_Some_in [OF that] dist queues_mem [OF q, of p ttl] Qt by auto
  have se: "set_ends (l2_tab l ! b) ([] @ ys) =
     (if [] = ([] :: addr list) then if ys = [] then (l2_tab l ! b)\<lparr>bl_head := None, bl_tail := None\<rparr> else (l2_tab l ! b)\<lparr>bl_head := first ys\<rparr>
      else if ys = [] then (l2_tab l ! b)\<lparr>bl_tail := final []\<rparr> else l2_tab l ! b)"
    by (rule set_ends_cases [where n = n]) (use b Qt in simp_all)
  show ?thesis
  proof (cases "first ys")
    case None
    then have "ys = []" by simp
    then show ?thesis using b n lk se
      by (cases out) (simp_all add: fire_head_def unlink_heap_def fired_node_def Let_def)
  next
    case (Some p)
    then obtain s where s: "p \<noteq> n" "h p = Some s" using g by auto
    have "ys \<noteq> []" using Some by auto
    then show ?thesis using Some s b n lk se
      by (cases out) (simp_all add: fire_head_def unlink_heap_def fired_node_def Let_def)
  qed
qed

lemma out_ok_push:
  assumes o: "out_ok h out os" and q: "queues_ok h now Q" and n: "n \<in> set (Q t)"
    and h': "h' n = Some (fired_node s out)" "\<And>a. a \<noteq> n \<Longrightarrow> a \<notin> set (Q t) \<Longrightarrow> h' a = h a" "armed h' = (armed h)(n := None)"
  shows "out_ok h' (map_option (\<lambda>_. Some n) out) (n # os)"
proof -
  have os: "a \<noteq> n \<and> a \<notin> set (Q t)" if "a \<in> set os" for a
    using o that n armed_queued [OF q, of a t] by (auto simp: out_ok_def armed_iff [OF q] split: if_splits)
  have "chain h' p os = chain h p os" for p by (rule chain_cong) (use os h'(2) in auto)
  then show ?thesis using o h' os
    by (cases out) (auto simp: out_ok_def fired_node_def nxt_def prv_def)
qed

lemma unlink_heap_ident:
  assumes "h n = Some t" "tm_ttl tn = tm_ttl t" "tm_expiration tn = tm_expiration t" "tm_id tn = tm_id t"
    and "\<And>a. q = Some a \<Longrightarrow> a \<noteq> n \<and> h a \<noteq> None"
  shows "ident (unlink_heap h n None q tn) = ident h"
  using assms by (cases q) (auto simp: fun_eq_iff unlink_heap_def ident_def Let_def)

section \<open>The inner loop\<close>

text \<open>The state both loops carry, with the ghost queues.\<close>

definition scan_ok :: "lawn2 \<Rightarrow> timers \<Rightarrow> nat \<Rightarrow> (u64 \<Rightarrow> addr list) \<Rightarrow> bool" where
  "scan_ok l h now Q \<longleftrightarrow> probe_ok l \<and> ends_ok (l2_tab l) Q \<and> queues_ok h now Q"

lemma drain_step:
  "b < length (l2_tab l) \<Longrightarrow> drain now b l h out fired =
     (case bl_head (l2_tab l ! b) of
        None \<Rightarrow> Some (l, h, out, fired)
      | Some n \<Rightarrow> do {
          t \<leftarrow> h n;
          (if tm_expiration t \<le> now then do {
             (l, h, out) \<leftarrow> fire_head l h out b n;
             drain now b l h out (fired + 1)
           } else Some (l, h, out, fired))
        })"
  by (subst drain.simps) simp

text \<open>What a step of either loop does to the table: heads and tails of used blades only.\<close>

definition table_step :: "lawn2 \<Rightarrow> lawn2 \<Rightarrow> bool" where
  "table_step l l' \<longleftrightarrow> l2_now l' = l2_now l \<and> l2_cap l' = l2_cap l \<and> l2_bits l' = l2_bits l \<and>
     l2_count l' = l2_count l \<and> l2_live l' = l2_live l \<and> l2_next_expiration l' = l2_next_expiration l \<and>
     same_keys (l2_tab l) (l2_tab l')"

lemma table_step_refl [simp]: "table_step l l"
  by (simp add: table_step_def)

lemma table_step_trans: "table_step a b \<Longrightarrow> table_step b c \<Longrightarrow> table_step a c"
  unfolding table_step_def using same_keys_trans by auto

lemma drain_spec:
  assumes "Q ttl = zs" "scan_ok l h now0 Q" "find_slot l ttl = Some b" "bl_used (l2_tab l ! b)"
    and "live_links l L" "out_ok h out os"
  shows "\<exists>tab' h' out'.
     drain now b l h out fired = Some (l\<lparr>l2_tab := tab'\<rparr>, h', out', fired + of_nat (length (takeWhile (\<lambda>a. deadline h a \<le> unat now) zs))) \<and>
     scan_ok (l\<lparr>l2_tab := tab'\<rparr>) h' now0 (Q(ttl := dropWhile (\<lambda>a. deadline h a \<le> unat now) zs)) \<and>
     live_links (l\<lparr>l2_tab := tab'\<rparr>) L \<and> same_keys (l2_tab l) tab' \<and>
     (\<forall>j. j \<noteq> b \<longrightarrow> tab' ! j = l2_tab l ! j) \<and>
     out_ok h' out' (rev (takeWhile (\<lambda>a. deadline h a \<le> unat now) zs) @ os) \<and> (out' = None \<longleftrightarrow> out = None) \<and>
     ident h' = ident h \<and> armed h' = armed h |` (- set (takeWhile (\<lambda>a. deadline h a \<le> unat now) zs))"
  using assms
proof (induction zs arbitrary: Q l h out os fired)
  case Nil
  have sc: "probe_ok l" "ends_ok (l2_tab l) Q" using Nil.prems(2) by (simp_all add: scan_ok_def)
  note s = slot_ends [OF sc Nil.prems(3)]
  have "bl_head (l2_tab l ! b) = None" using s(2) Nil.prems(1,4) by simp
  then have "drain now b l h out fired = Some (l, h, out, fired)" using s(1) by (simp add: drain_step)
  moreover have "Q(ttl := []) = Q" using Nil.prems(1) by auto
  ultimately show ?case using Nil.prems
    by (intro exI [of _ "l2_tab l"] exI [of _ h] exI [of _ out]) simp
next
  case (Cons n ys)
  have sc: "probe_ok l" "ends_ok (l2_tab l) Q" and q: "queues_ok h now0 Q"
    using Cons.prems(2) by (simp_all add: scan_ok_def)
  note s = slot_ends [OF sc Cons.prems(3)]
  note e = s(2) [OF Cons.prems(4)]
  have Qt: "Q ttl = [] @ n # ys" using Cons.prems(1) by simp
  obtain t where t: "h n = Some t" "tm_in_store t" using queues_links [OF q Qt] by blast
  have dn: "deadline h n = unat (tm_expiration t)" using t by (simp add: deadline_def)
  show ?case
  proof (cases "deadline h n \<le> unat now")
    case False
    then have "\<not> tm_expiration t \<le> now" using dn by (simp add: word_le_nat_alt)
    then have "drain now b l h out fired = Some (l, h, out, fired)"
      using s(1) e Cons.prems(1) t by (simp add: drain_step)
    moreover have "Q(ttl := n # ys) = Q" using Cons.prems(1) by auto
    ultimately show ?thesis using Cons.prems False
      by (intro exI [of _ "l2_tab l"] exI [of _ h] exI [of _ out]) simp
  next
    case True
    then have le: "tm_expiration t \<le> now" using dn by (simp add: word_le_nat_alt)
    let ?l = "l\<lparr>l2_tab := (l2_tab l)[b := set_ends (l2_tab l ! b) ys]\<rparr>"
    let ?tn = "fired_node t out"
    let ?h = "unlink_heap h n None (first ys) ?tn"
    let ?out = "map_option (\<lambda>_. Some n) out"
    let ?Q = "Q(ttl := ys)"
    have run: "drain now b l h out fired = drain now b ?l ?h ?out (fired + 1)"
      using s(1) e Cons.prems(1) t le fire_head_run [OF q Cons.prems(1) t(1) s(1)] by (simp add: drain_step)
    have nin: "\<not> tm_in_store ?tn" by (simp add: fired_node_def)
    note u = unlink_heap_queues [OF q Qt nin, simplified]
    note st = set_ends_table [OF sc Cons.prems(3,4), where xs = ys]
    have sc': "scan_ok ?l ?h now0 ?Q" using st(1,2) u(1) by (simp add: scan_ok_def)
    have keys: "same_keys (l2_tab l) (l2_tab ?l)"
      using s(1) by (auto intro!: same_keys_update simp: set_ends_def)
    have fs: "find_slot ?l ttl = Some b"
      by (rule find_slot_same_keys [OF sc(1) keys _ _ Cons.prems(3)]) simp_all
    have us: "bl_used (l2_tab ?l ! b)" using s(1) Cons.prems(4) by (simp add: set_ends_def)
    have oo: "out_ok ?h ?out (n # os)"
      by (rule out_ok_push [OF Cons.prems(6) q, of n ttl _ t]) (use Cons.prems(1) u in auto)
    have dist: "distinct (n # ys)" using queues_dlist [OF q, of ttl] Cons.prems(1) dlist_distinct by metis
    have idh: "ident ?h = ident h"
      by (rule unlink_heap_ident [of h n t])
        (use t(1) dist queues_mem [OF q, of _ ttl] Cons.prems(1) in \<open>auto simp: fired_node_def dest!: first_Some_in\<close>)
    have dl: "deadline ?h = deadline h" using ident_deadline [OF idh] by auto
    have Q': "?Q ttl = ys" by simp
    obtain tab' h' out' where IH:
        "drain now b ?l ?h ?out (fired + 1) = Some (?l\<lparr>l2_tab := tab'\<rparr>, h', out', (fired + 1) + of_nat (length (takeWhile (\<lambda>a. deadline h a \<le> unat now) ys)))"
        "scan_ok (?l\<lparr>l2_tab := tab'\<rparr>) h' now0 (?Q(ttl := dropWhile (\<lambda>a. deadline h a \<le> unat now) ys))"
        "live_links (?l\<lparr>l2_tab := tab'\<rparr>) L" "same_keys (l2_tab ?l) tab'"
        "\<forall>j. j \<noteq> b \<longrightarrow> tab' ! j = l2_tab ?l ! j"
        "out_ok h' out' (rev (takeWhile (\<lambda>a. deadline h a \<le> unat now) ys) @ n # os)" "out' = None \<longleftrightarrow> ?out = None"
        "ident h' = ident ?h" "armed h' = armed ?h |` (- set (takeWhile (\<lambda>a. deadline h a \<le> unat now) ys))"
      using Cons.IH [OF Q' sc' fs us st(4) [OF Cons.prems(5)] oo, of "fired + 1"] unfolding dl by blast
    have ar: "armed h' = armed h |` (- set (takeWhile (\<lambda>a. deadline h a \<le> unat now) (n # ys)))"
      using True by (auto simp: IH(9) u(2) fun_eq_iff restrict_map_def)
    have tw: "takeWhile (\<lambda>a. deadline h a \<le> unat now) (n # ys) = n # takeWhile (\<lambda>a. deadline h a \<le> unat now) ys"
      and dw: "dropWhile (\<lambda>a. deadline h a \<le> unat now) (n # ys) = dropWhile (\<lambda>a. deadline h a \<le> unat now) ys"
      using True by simp_all
    have sc2: "scan_ok (l\<lparr>l2_tab := tab'\<rparr>) h' now0 (Q(ttl := dropWhile (\<lambda>a. deadline h a \<le> unat now) ys))"
      using IH(2) by simp
    show ?thesis
      using run IH(1,3-8) sc2 ar idh same_keys_trans [OF keys IH(4)] unfolding tw dw
      by (intro exI [of _ tab'] exI [of _ h'] exI [of _ out']) (simp add: add.assoc del: fun_upd_apply)
  qed
qed

section \<open>The outer loop\<close>

text \<open>
  Half way through the outer loop: the blades \<open>xs\<close> of the live list are done, \<open>ys\<close> are to come.
  \<open>ne\<close> is the least deadline left in the finished blades, or the maximum when there is none.
\<close>

definition sweep ::
  "u64 \<Rightarrow> nat \<Rightarrow> lawn2 \<Rightarrow> timers \<Rightarrow> (u64 \<Rightarrow> addr list) \<Rightarrow> nat list \<Rightarrow> nat list \<Rightarrow> u64 \<Rightarrow> bool" where
  "sweep now now0 l h Q xs ys ne \<longleftrightarrow>
     scan_ok l h now0 Q \<and> live_links l (xs @ ys) \<and> heads_listed l (xs @ ys) \<and>
     (\<forall>j \<in> set xs. \<forall>a \<in> set (Q (bl_ttl (l2_tab l ! j))). unat now < deadline h a \<and> unat ne \<le> deadline h a) \<and>
     (if xs = [] then ne = - 1 else \<exists>j \<in> set xs. \<exists>a \<in> set (Q (bl_ttl (l2_tab l ! j))). deadline h a = unat ne)"

lemma collect_loop_step:
  "b < length (l2_tab l) \<Longrightarrow> collect_loop now (Some b) l h out fired ne = do {
     (l1, h1, out1, fired1) \<leftarrow> drain now b l h out fired;
     x \<leftarrow> index (l2_tab l1) b;
     (l2, ne2) \<leftarrow> (case bl_head x of
         None \<Rightarrow> do { l2 \<leftarrow> live_unlink l1 b; Some (l2, ne) }
       | Some n \<Rightarrow> do { t \<leftarrow> h1 n; Some (l1, if tm_expiration t < ne then tm_expiration t else ne) });
     collect_loop now (live_next (l2_tab l ! b)) l2 h1 out1 fired1 ne2
   }"
  by (subst collect_loop.simps) simp

lemma dropWhile_sorted_all:
  "sorted (map f xs) \<Longrightarrow> a \<in> set (dropWhile (\<lambda>x. f x \<le> (k::nat)) xs) \<Longrightarrow> k < f a"
  by (induction xs) (auto split: if_splits)

lemma sorted_map_dropWhile: "sorted (map f xs) \<Longrightarrow> sorted (map f (dropWhile P xs))"
  by (induction xs) auto

lemma takeWhile_sorted_set:
  "sorted (map f xs) \<Longrightarrow> set (takeWhile (\<lambda>x. f x \<le> (k::nat)) xs) = {a \<in> set xs. f a \<le> k}"
  by (induction xs) (auto split: if_splits)

lemma live_member:
  assumes "scan_ok l h now0 Q" "heads_listed l L" "b \<in> set L"
  shows "b < length (l2_tab l)" "bl_used (l2_tab l ! b)" "find_slot l (bl_ttl (l2_tab l ! b)) = Some b"
    "Q (bl_ttl (l2_tab l ! b)) \<noteq> []"
  using assms by (auto simp: scan_ok_def heads_listed_def probe_ok_def ends_ok_def)

text \<open>The state after the drained blade has been settled.\<close>

lemma sweep_settle:
  assumes sw: "scan_ok l h now0 Q" and L: "live_links l (xs @ b # ys)" and H: "heads_listed l0 (xs @ b # ys)"
    and k: "same_keys (l2_tab l0) (l2_tab l)" "\<And>j. j \<noteq> b \<Longrightarrow> l2_tab l ! j = l2_tab l0 ! j"
    and used: "bl_used (l2_tab l ! b)"
  shows "\<exists>tab' hd'. (if bl_head (l2_tab l ! b) = None then live_unlink l b else Some l) =
      Some (l\<lparr>l2_tab := tab', l2_live_head := hd'\<rparr>) \<and>
     scan_ok (l\<lparr>l2_tab := tab', l2_live_head := hd'\<rparr>) h now0 Q \<and> same_core (l2_tab l) tab' \<and>
     live_links (l\<lparr>l2_tab := tab', l2_live_head := hd'\<rparr>) (xs @ (if bl_head (l2_tab l ! b) = None then [] else [b]) @ ys) \<and>
     heads_listed (l\<lparr>l2_tab := tab', l2_live_head := hd'\<rparr>) (xs @ (if bl_head (l2_tab l ! b) = None then [] else [b]) @ ys)"
proof -
  have sc: "probe_ok l" "ends_ok (l2_tab l) Q" using sw by (simp_all add: scan_ok_def)
  have len: "length (l2_tab l) = length (l2_tab l0)" using k(1) by (simp add: same_keys_def)
  have d: "distinct (xs @ b # ys)" using L dlist_distinct unfolding live_links_def by blast
  have b: "b < length (l2_tab l)" using H len by (auto simp: heads_listed_def)
  have "set (xs @ ys) = set (xs @ b # ys) - {b}" using d by auto
  also have "\<dots> = {j. j < length (l2_tab l) \<and> j \<noteq> b \<and> bl_head (l2_tab l ! j) \<noteq> None}"
    using H len k(2) by (auto simp: heads_listed_def)
  finally have hl: "set (xs @ ys) = \<dots>" .
  have un: "\<forall>j < length (l2_tab l). \<not> bl_used (l2_tab l ! j) \<longrightarrow> bl_head (l2_tab l ! j) = None"
    using H len k(2) used unfolding heads_listed_def by metis
  obtain tab' hd' where "(if bl_head (l2_tab l ! b) = None then live_unlink l b else Some l) =
      Some (l\<lparr>l2_tab := tab', l2_live_head := hd'\<rparr>)"
     "probe_ok (l\<lparr>l2_tab := tab', l2_live_head := hd'\<rparr>)" "ends_ok tab' Q" "same_core (l2_tab l) tab'"
     "live_links (l\<lparr>l2_tab := tab', l2_live_head := hd'\<rparr>) (xs @ (if bl_head (l2_tab l ! b) = None then [] else [b]) @ ys)"
     "heads_listed (l\<lparr>l2_tab := tab', l2_live_head := hd'\<rparr>) (xs @ (if bl_head (l2_tab l ! b) = None then [] else [b]) @ ys)"
    using settle_blade [OF sc L b hl un] by blast
  then show ?thesis using sw unfolding scan_ok_def
    by (intro exI [of _ tab'] exI [of _ hd'] conjI) simp_all
qed

text \<open>One round: the due prefix of one queue is fired.\<close>

lemma sweep_round:
  assumes sw: "sweep now now0 l h Q xs (b # ys) ne" and oo: "out_ok h out os"
  defines "t \<equiv> bl_ttl (l2_tab l ! b)"
  defines "fs \<equiv> takeWhile (\<lambda>a. deadline h a \<le> unat now) (Q t)"
  shows "\<exists>tab' hd' h' out' ne' xs'.
     collect_loop now (Some b) l h out fired ne =
       collect_loop now (first ys) (l\<lparr>l2_tab := tab', l2_live_head := hd'\<rparr>) h' out' (fired + of_nat (length fs)) ne' \<and>
     sweep now now0 (l\<lparr>l2_tab := tab', l2_live_head := hd'\<rparr>) h' (Q(t := dropWhile (\<lambda>a. deadline h a \<le> unat now) (Q t))) xs' ys ne' \<and>
     same_keys (l2_tab l) tab' \<and> out_ok h' out' (rev fs @ os) \<and> (out' = None \<longleftrightarrow> out = None) \<and>
     ident h' = ident h \<and> armed h' = armed h |` (- set fs)"
proof -
  let ?ds = "dropWhile (\<lambda>a. deadline h a \<le> unat now) (Q t)"
  let ?Q = "Q(t := ?ds)"
  have sc: "scan_ok l h now0 Q" and L: "live_links l (xs @ b # ys)" and H: "heads_listed l (xs @ b # ys)"
    and kept: "\<And>j a. j \<in> set xs \<Longrightarrow> a \<in> set (Q (bl_ttl (l2_tab l ! j))) \<Longrightarrow> unat now < deadline h a \<and> unat ne \<le> deadline h a"
    and exact: "if xs = [] then ne = - 1 else \<exists>j \<in> set xs. \<exists>a \<in> set (Q (bl_ttl (l2_tab l ! j))). deadline h a = unat ne"
    using sw by (auto simp: sweep_def)
  note m = live_member [OF sc H, of b, simplified, folded t_def]
  have p: "probe_ok l" and q: "queues_ok h now0 Q" using sc by (simp_all add: scan_ok_def)
  obtain tab1 h1 out1 where D:
      "drain now b l h out fired = Some (l\<lparr>l2_tab := tab1\<rparr>, h1, out1, fired + of_nat (length fs))"
      "scan_ok (l\<lparr>l2_tab := tab1\<rparr>) h1 now0 ?Q" "live_links (l\<lparr>l2_tab := tab1\<rparr>) (xs @ b # ys)"
      "same_keys (l2_tab l) tab1" "\<forall>j. j \<noteq> b \<longrightarrow> tab1 ! j = l2_tab l ! j"
      "out_ok h1 out1 (rev fs @ os)" "out1 = None \<longleftrightarrow> out = None"
      "ident h1 = ident h" "armed h1 = armed h |` (- set fs)"
    using drain_spec [OF refl sc m(3,2) L oo, of now fired] unfolding fs_def by blast
  have b: "b < length tab1" "bl_used (tab1 ! b)" "bl_ttl (tab1 ! b) = t"
    using D(4) m(1,2) by (auto simp: same_keys_def t_def)
  obtain tab' hd' where S:
      "(if bl_head (tab1 ! b) = None then live_unlink (l\<lparr>l2_tab := tab1\<rparr>) b else Some (l\<lparr>l2_tab := tab1\<rparr>)) =
         Some (l\<lparr>l2_tab := tab', l2_live_head := hd'\<rparr>)"
      "scan_ok (l\<lparr>l2_tab := tab', l2_live_head := hd'\<rparr>) h1 now0 ?Q" "same_core tab1 tab'"
      "live_links (l\<lparr>l2_tab := tab', l2_live_head := hd'\<rparr>) (xs @ (if bl_head (tab1 ! b) = None then [] else [b]) @ ys)"
      "heads_listed (l\<lparr>l2_tab := tab', l2_live_head := hd'\<rparr>) (xs @ (if bl_head (tab1 ! b) = None then [] else [b]) @ ys)"
    using sweep_settle [OF D(2,3) H] D(4,5) b by auto
  have hd: "bl_head (tab1 ! b) = first ?ds"
    using D(2) b by (auto simp: scan_ok_def ends_ok_def)
  have keys: "same_keys (l2_tab l) tab'" using same_keys_trans [OF D(4) same_core_keys [OF S(3)]] .
  have ttl: "bl_ttl (tab' ! j) = bl_ttl (l2_tab l ! j)" if "j < length (l2_tab l)" for j
    using keys that by (simp add: same_keys_def)
  have nb: "bl_ttl (l2_tab l ! j) \<noteq> t" if "j \<in> set xs" for j
  proof -
    have d: "distinct (xs @ b # ys)" using L dlist_distinct unfolding live_links_def by blast
    have "j < length (l2_tab l)" "bl_used (l2_tab l ! j)" using live_member [OF sc H, of j] that by auto
    then show ?thesis using probe_ok_inj [OF p _ m(1) _ m(2)] d that by (auto simp: t_def)
  qed
  have lt: "j < length (l2_tab l)" if "j \<in> set xs" for j using live_member(1) [OF sc H, of j] that by auto
  have nl: "live_next (l2_tab l ! b) = first ys"
    using L dlist_split unfolding live_links_def by metis
  have dl: "deadline h1 = deadline h" using ident_deadline [OF D(8)] by auto
  have srt: "sorted (map (deadline h) (Q t))" using queues_sorted [OF q] .
  have Qx: "?Q (bl_ttl (tab' ! j)) = Q (bl_ttl (l2_tab l ! j))" if "j \<in> set xs" for j
    using nb [OF that] ttl [OF lt [OF that]] by simp
  note step = collect_loop_step [OF m(1), of now h out fired ne, unfolded nl D(1), simplified]
  show ?thesis
  proof (cases ?ds)
    case Nil
    then have hdN: "bl_head (tab1 ! b) = None" using hd by simp
    then have "collect_loop now (Some b) l h out fired ne =
        collect_loop now (first ys) (l\<lparr>l2_tab := tab', l2_live_head := hd'\<rparr>) h1 out1 (fired + of_nat (length fs)) ne"
      using step b(1) S(1) by simp
    moreover have "sweep now now0 (l\<lparr>l2_tab := tab', l2_live_head := hd'\<rparr>) h1 ?Q xs ys ne"
      using S(2,4,5) kept exact hdN by (auto simp: sweep_def Qx dl simp del: fun_upd_apply)
    ultimately show ?thesis using D(6-9) keys by blast
  next
    case (Cons n zs)
    have nin: "n \<in> set ?ds" using Cons by simp
    then obtain s where s: "h1 n = Some s"
      using D(2) queues_mem [of h1 now0 ?Q n t] by (auto simp: scan_ok_def)
    have e: "unat (tm_expiration s) = deadline h n" using s by (simp add: dl [symmetric]) (simp add: deadline_def)
    let ?ne = "if tm_expiration s < ne then tm_expiration s else ne"
    have une: "unat ?ne = min (unat ne) (deadline h n)" using e by (auto simp: word_less_nat_alt)
    have hdS: "bl_head (tab1 ! b) = Some n" using hd Cons by simp
    have run: "collect_loop now (Some b) l h out fired ne =
        collect_loop now (first ys) (l\<lparr>l2_tab := tab', l2_live_head := hd'\<rparr>) h1 out1 (fired + of_nat (length fs)) ?ne"
      using step b(1) S(1) hdS s by simp
    have "sorted (map (deadline h) ?ds)" using sorted_map_dropWhile [OF srt] .
    then have low: "deadline h n \<le> deadline h a" if "a \<in> set ?ds" for a using that Cons by auto
    have due: "unat now < deadline h a" if "a \<in> set ?ds" for a using dropWhile_sorted_all [OF srt that] .
    have Qb: "?Q (bl_ttl (tab' ! b)) = ?ds" using ttl [OF m(1)] by (simp add: t_def)
    have K: "unat now < deadline h a \<and> unat ?ne \<le> deadline h a"
      if "j \<in> set (xs @ [b])" "a \<in> set (?Q (bl_ttl (tab' ! j)))" for j a
    proof (cases "j = b")
      case True
      then show ?thesis using that Qb low [of a] due [of a] une by simp
    next
      case False
      then have "j \<in> set xs" using that by simp
      then show ?thesis using kept [of j a] that(2) unfolding une by (simp add: Qx min_le_iff_disj del: fun_upd_apply)
    qed
    have E: "\<exists>j \<in> set (xs @ [b]). \<exists>a \<in> set (?Q (bl_ttl (tab' ! j))). deadline h a = unat ?ne"
    proof (cases "deadline h n < unat ne")
      case True
      then show ?thesis using Qb nin une by (intro bexI [of _ b] bexI [of _ n]) auto
    next
      case False
      have lt64: "deadline h n \<le> unat (- 1 :: u64)"
        unfolding e [symmetric] by (rule word_le_nat_alt [THEN iffD1]) simp
      show ?thesis
      proof (cases "xs = []")
        case True
        then have "deadline h n = unat ?ne" using exact une lt64 False by simp
        then show ?thesis using Qb nin by (intro bexI [of _ b] bexI [of _ n]) auto
      next
        case xs: False
        then obtain j a where j: "j \<in> set xs" "a \<in> set (Q (bl_ttl (l2_tab l ! j)))" "deadline h a = unat ne"
          using exact by auto
        then have "a \<in> set (?Q (bl_ttl (tab' ! j)))" by (simp add: Qx del: fun_upd_apply)
        then show ?thesis using j False une by (intro bexI [of _ j] bexI [of _ a]) auto
      qed
    qed
    have "sweep now now0 (l\<lparr>l2_tab := tab', l2_live_head := hd'\<rparr>) h1 ?Q (xs @ [b]) ys ?ne"
      using S(2,4,5) hdS K E by (simp add: sweep_def dl del: fun_upd_apply)
    then show ?thesis using run D(6-9) keys by blast
  qed
qed

text \<open>The whole loop: exactly the due timers leave the store.\<close>

lemma restrict_restrict: "m |` (- A) |` (- B) = m |` (- (A \<union> B))"
  by (auto simp: restrict_map_def fun_eq_iff)

lemma collect_loop_spec:
  assumes "sweep now now0 l h Q xs ys ne" "out_ok h out os"
  shows "\<exists>tab' hd' h' out' ne' Q' L' fs.
     collect_loop now (first ys) l h out fired ne =
       Some (l\<lparr>l2_tab := tab', l2_live_head := hd'\<rparr>, h', out', fired + of_nat (length fs), ne') \<and>
     sweep now now0 (l\<lparr>l2_tab := tab', l2_live_head := hd'\<rparr>) h' Q' L' [] ne' \<and>
     same_keys (l2_tab l) tab' \<and> out_ok h' out' (rev fs @ os) \<and> (out' = None \<longleftrightarrow> out = None) \<and>
     ident h' = ident h \<and> armed h' = armed h |` (- set fs) \<and>
     (\<forall>a \<in> set fs. armed h a \<noteq> None \<and> deadline h a \<le> unat now)"
  using assms
proof (induction ys arbitrary: xs Q l h out os fired ne)
  case Nil
  have "collect_loop now None l h out fired ne = Some (l, h, out, fired, ne)"
    by (subst collect_loop.simps) simp
  then show ?case using Nil
    by (intro exI [of _ "l2_tab l"] exI [of _ "l2_live_head l"] exI [of _ h] exI [of _ out] exI [of _ ne]
        exI [of _ Q] exI [of _ xs] exI [of _ "[]"]) simp
next
  case (Cons b ys)
  let ?t = "bl_ttl (l2_tab l ! b)"
  let ?fs = "takeWhile (\<lambda>a. deadline h a \<le> unat now) (Q ?t)"
  let ?Q = "Q(?t := dropWhile (\<lambda>a. deadline h a \<le> unat now) (Q ?t))"
  obtain tab1 hd1 h1 out1 ne1 xs1 where R:
      "collect_loop now (Some b) l h out fired ne =
         collect_loop now (first ys) (l\<lparr>l2_tab := tab1, l2_live_head := hd1\<rparr>) h1 out1 (fired + of_nat (length ?fs)) ne1"
      "sweep now now0 (l\<lparr>l2_tab := tab1, l2_live_head := hd1\<rparr>) h1 ?Q xs1 ys ne1"
      "same_keys (l2_tab l) tab1" "out_ok h1 out1 (rev ?fs @ os)" "out1 = None \<longleftrightarrow> out = None"
      "ident h1 = ident h" "armed h1 = armed h |` (- set ?fs)"
    using sweep_round [OF Cons.prems, of fired] by blast
  obtain tab' hd' h' out' ne' Q' L' fs where S:
      "collect_loop now (first ys) (l\<lparr>l2_tab := tab1, l2_live_head := hd1\<rparr>) h1 out1 (fired + of_nat (length ?fs)) ne1 =
        Some (l\<lparr>l2_tab := tab', l2_live_head := hd'\<rparr>, h', out', fired + of_nat (length ?fs) + of_nat (length fs), ne')"
      "sweep now now0 (l\<lparr>l2_tab := tab', l2_live_head := hd'\<rparr>) h' Q' L' [] ne'"
      "same_keys tab1 tab'" "out_ok h' out' (rev fs @ rev ?fs @ os)" "out' = None \<longleftrightarrow> out1 = None"
      "ident h' = ident h1" "armed h' = armed h1 |` (- set fs)"
      "\<forall>a \<in> set fs. armed h1 a \<noteq> None \<and> deadline h1 a \<le> unat now"
    using Cons.IH [OF R(2,4), of "fired + of_nat (length ?fs)"] by auto
  have q: "queues_ok h now0 Q" using Cons.prems(1) by (simp add: sweep_def scan_ok_def)
  have dl: "deadline h1 = deadline h" using ident_deadline [OF R(6)] by auto
  have fs: "armed h a \<noteq> None \<and> deadline h a \<le> unat now" if "a \<in> set ?fs" for a
    using that armed_queued [OF q, of a ?t] set_takeWhileD by fastforce
  have ar: "armed h' = armed h |` (- set (?fs @ fs))"
    unfolding S(7) R(7) restrict_restrict by simp
  have fs2: "armed h a \<noteq> None \<and> deadline h a \<le> unat now" if "a \<in> set (?fs @ fs)" for a
    using that fs [of a] S(8) dl R(7) by (auto simp: restrict_map_def split: if_splits)
  have "same_keys (l2_tab l) tab'" using same_keys_trans [OF R(3) S(3)] .
  then show ?case using R(1,5,6) S(1,2,4,5,6) ar fs2
    by (intro exI [of _ tab'] exI [of _ hd'] exI [of _ h'] exI [of _ out'] exI [of _ ne']
        exI [of _ Q'] exI [of _ L'] exI [of _ "?fs @ fs"] conjI) (simp_all add: add.assoc)
qed

text \<open>After the loop every armed timer is late enough, and \<open>ne\<close> is the earliest deadline.\<close>

lemma sweep_end:
  assumes "sweep now now0 l h Q L [] ne"
  shows "\<And>a e. armed h a = Some e \<Longrightarrow> unat now < e \<and> unat ne \<le> e"
    and "(armed h = Map.empty \<and> ne = - 1) \<or> (\<exists>a. armed h a = Some (unat ne))"
proof -
  have sc: "scan_ok l h now0 Q" and H: "heads_listed l L"
    and kept: "\<And>j a. j \<in> set L \<Longrightarrow> a \<in> set (Q (bl_ttl (l2_tab l ! j))) \<Longrightarrow> unat now < deadline h a \<and> unat ne \<le> deadline h a"
    and exact: "if L = [] then ne = - 1 else \<exists>j \<in> set L. \<exists>a \<in> set (Q (bl_ttl (l2_tab l ! j))). deadline h a = unat ne"
    using assms by (auto simp: sweep_def)
  have q: "queues_ok h now0 Q" and e: "ends_ok (l2_tab l) Q" using sc by (simp_all add: scan_ok_def)
  have listed: "\<exists>j \<in> set L. bl_ttl (l2_tab l ! j) = t" if ne: "Q t \<noteq> []" for t
  proof -
    obtain j where "j < length (l2_tab l)" "bl_used (l2_tab l ! j)" "bl_ttl (l2_tab l ! j) = t"
      using e ne by (auto simp: ends_ok_def)
    then show ?thesis using e H ne by (intro bexI [of _ j]) (auto simp: ends_ok_def heads_listed_def)
  qed
  show "unat now < v \<and> unat ne \<le> v" if a: "armed h a = Some v" for a v
  proof -
    obtain t where t: "a \<in> set (Q t)" "v = deadline h a" using a armed_iff [OF q] by (auto split: if_splits)
    then obtain j where "j \<in> set L" "bl_ttl (l2_tab l ! j) = t" using listed [of t] by force
    then show ?thesis using kept t by blast
  qed
  show "(armed h = Map.empty \<and> ne = - 1) \<or> (\<exists>a. armed h a = Some (unat ne))"
  proof (cases "L = []")
    case True
    then have "Q t = []" for t using listed by auto
    then show ?thesis using True exact armed_iff [OF q] by (auto simp: fun_eq_iff)
  next
    case False
    then show ?thesis using exact armed_queued [OF q] by metis
  qed
qed

section \<open>The operations\<close>

text \<open>
  The outcome of an expiry pass at time \<open>now\<close>, for the caller: \<open>fs\<close> are the fired timers in
  order; each is disarmed, they are counted, and the output list (when there is one) holds them in
  reverse order of firing.
\<close>

definition expiry_ok ::
  "timers \<Rightarrow> u64 \<Rightarrow> addr option option \<Rightarrow> u64 \<times> lawn2 \<times> timers \<times> addr option option \<Rightarrow> bool" where
  "expiry_ok h now out r \<longleftrightarrow> (case r of (fired, l', h', out') \<Rightarrow>
     (\<exists>fs. distinct fs \<and> set fs = {a. \<exists>e. armed h a = Some e \<and> e \<le> unat now} \<and> fired = of_nat (length fs) \<and>
        armed h' = armed h |` (- set fs) \<and> ident h' = ident h \<and>
        (case out of None \<Rightarrow> out' = None | Some _ \<Rightarrow> \<exists>p. out' = Some p \<and> chain h' p (rev fs))))"

lemma expiry_none_due:
  assumes "\<And>a e. armed h a = Some e \<Longrightarrow> unat now < e"
  shows "expiry_ok h now out (0, l, h, map_option (\<lambda>_. None) out)"
proof -
  have none: "{a. \<exists>e. armed h a = Some e \<and> e \<le> unat now} = {}"
    using assms by (auto dest: leD)
  show ?thesis
    unfolding expiry_ok_def none by (cases out) (simp_all add: restrict_map_def)
qed

lemma lawn2_inv_later:
  "lawn2_inv l h Q L \<Longrightarrow> unat (l2_now l) \<le> unat n \<Longrightarrow> lawn2_inv (l\<lparr>l2_now := n\<rparr>) h Q L"
  unfolding lawn2_inv_def
  by (auto intro: queues_later probe_ok_cong live_links_same heads_listed_same)

lemma collect_expired_correct:
  assumes i: "lawn2_inv l h Q L"
  shows "\<exists>r l' h' out'. collect_expired l h now out = Some (r, l', h', out') \<and> expiry_ok h now out (r, l', h', out') \<and>
     lawn2_wf l' h' \<and> l2_now l' = l2_now l \<and>
     (now < l2_next_expiration l \<and> l' = l \<or>
      armed h' = Map.empty \<and> l2_next_expiration l' = - 1 \<or>
      (\<exists>a. armed h' a = Some (unat (l2_next_expiration l'))))"
proof (cases "now < l2_next_expiration l")
  case True
  have "unat now < e" if "armed h a = Some e" for a e
    using lawn2_invD(11) [OF i that] True by (simp add: word_less_nat_alt)
  then have "expiry_ok h now out (0, l, h, map_option (\<lambda>_. None) out)" by (rule expiry_none_due)
  then show ?thesis using i True
    by (auto simp: collect_expired_def lawn2_wf_def)
next
  case False
  note d = lawn2_invD [OF i]
  let ?out = "map_option (\<lambda>_. None :: addr option) out"
  have hd: "first L = l2_live_head l" using d(5) by (simp add: live_links_def)
  have sw: "sweep now (unat (l2_now l)) l h Q [] L (- 1)"
    using d by (simp add: sweep_def scan_ok_def)
  have oo: "out_ok h ?out []" by (cases out) (simp_all add: out_ok_def)
  obtain tab' hd' h' out' ne' Q' L' fs where S:
      "collect_loop now (first L) l h ?out 0 (- 1) =
       Some (l\<lparr>l2_tab := tab', l2_live_head := hd'\<rparr>, h', out', 0 + of_nat (length fs), ne')"
      "sweep now (unat (l2_now l)) (l\<lparr>l2_tab := tab', l2_live_head := hd'\<rparr>) h' Q' L' [] ne'"
      "same_keys (l2_tab l) tab'" "out_ok h' out' (rev fs @ [])" "out' = None \<longleftrightarrow> ?out = None"
      "ident h' = ident h" "armed h' = armed h |` (- set fs)"
      "\<forall>a \<in> set fs. armed h a \<noteq> None \<and> deadline h a \<le> unat now"
    using collect_loop_spec [OF sw oo, of 0] by blast
  let ?l = "l\<lparr>l2_tab := tab', l2_live_head := hd', l2_live := l2_live l - of_nat (length fs), l2_next_expiration := ne'\<rparr>"
  note E = sweep_end [OF S(2)]
  have sc: "scan_ok (l\<lparr>l2_tab := tab', l2_live_head := hd'\<rparr>) h' (unat (l2_now l)) Q'"
    and ll: "live_links (l\<lparr>l2_tab := tab', l2_live_head := hd'\<rparr>) L'" "heads_listed (l\<lparr>l2_tab := tab', l2_live_head := hd'\<rparr>) L'"
    using S(2) by (auto simp: sweep_def)
  have dist: "distinct fs" and un: "\<forall>a \<in> set fs. armed h' a = None" using S(4) by (auto simp: out_ok_def)
  have dd: "deadline h a = e" if "armed h a = Some e" for a e
    using that by (auto simp: armed_def deadline_def split: option.splits if_splits)
  have fs: "set fs = {a. \<exists>e. armed h a = Some e \<and> e \<le> unat now}"
  proof (intro equalityI subsetI)
    fix a assume "a \<in> set fs"
    then show "a \<in> {a. \<exists>e. armed h a = Some e \<and> e \<le> unat now}" using S(8) dd by fastforce
  next
    fix a assume "a \<in> {a. \<exists>e. armed h a = Some e \<and> e \<le> unat now}"
    then obtain e where e: "armed h a = Some e" "e \<le> unat now" by blast
    show "a \<in> set fs"
    proof (rule ccontr)
      assume "a \<notin> set fs"
      then have "armed h' a = Some e" using e S(7) by simp
      then show False using E(1) e(2) by fastforce
    qed
  qed
  have "dom (armed h |` (- set fs)) = dom (armed h) - set fs" by auto
  moreover have "set fs \<subseteq> dom (armed h)" using fs by auto
  ultimately have card: "card (dom (armed h')) = card (dom (armed h)) - length fs" "length fs \<le> card (dom (armed h))"
    using S(7) d(9) dist by (simp_all add: card_Diff_subset distinct_card card_mono [of "dom (armed h)" "set fs"] flip: distinct_card)
  have "l2_live l - of_nat (length fs) = of_nat (card (dom (armed h')))"
    using card d(10) by (simp add: of_nat_diff)
  moreover have "finite (dom (armed h'))" using S(7) d(9) by simp
  ultimately have inv: "lawn2_inv ?l h' Q' L'"
    unfolding lawn2_inv_def
    using sc ll same_keys_used_count [OF S(3)] E(1) d(2,3,4)
    by (auto simp: scan_ok_def intro: probe_ok_cong live_links_same heads_listed_same)
  have run: "collect_expired l h now out = Some (of_nat (length fs), ?l, h', out')"
    using False S(1) hd by (simp add: collect_expired_def)
  have "expiry_ok h now out (of_nat (length fs), ?l, h', out')"
    unfolding expiry_ok_def prod.case
    using dist fs S(4,5,6,7) by (intro exI [of _ fs]) (cases out; auto simp: out_ok_def)
  then show ?thesis using run inv E(2) by (auto simp: lawn2_wf_def)
qed

lemma lawn2_tick_spec:
  assumes "lawn2_wf l h" and "unat (l2_now l) + 1 < 2 ^ 64"
  shows "\<exists>r l' h' out'. lawn2_tick l h out = Some (r, l', h', out') \<and> expiry_ok h (l2_now l + 1) out (r, l', h', out') \<and>
     lawn2_wf l' h' \<and> l2_now l' = l2_now l + 1"
proof -
  obtain Q L where "lawn2_inv l h Q L" using assms(1) by (auto simp: lawn2_wf_def)
  then have i: "lawn2_inv (l\<lparr>l2_now := l2_now l + 1\<rparr>) h Q L"
    using assms(2) by (intro lawn2_inv_later) (simp_all add: unat_Suc64)
  show ?thesis using collect_expired_correct [OF i, of "l2_now l + 1" out]
    by (auto simp: lawn2_tick_def Let_def)
qed

lemma lawn2_advance_spec:
  assumes "lawn2_wf l h" and "l2_now l < target_now"
  shows "\<exists>r l' h' out'. lawn2_advance l h target_now out = Some (r, l', h', out') \<and>
     expiry_ok h target_now out (r, l', h', out') \<and> lawn2_wf l' h' \<and> l2_now l' = target_now"
proof -
  obtain Q L where "lawn2_inv l h Q L" using assms(1) by (auto simp: lawn2_wf_def)
  then have i: "lawn2_inv (l\<lparr>l2_now := target_now\<rparr>) h Q L"
    using assms(2) by (intro lawn2_inv_later) (simp_all add: word_less_nat_alt)
  show ?thesis using collect_expired_correct [OF i, of target_now out] assms(2)
    by (auto simp: lawn2_advance_def)
qed

lemma expiry_ok_armed:
  "expiry_ok h now out (r, l', h', out') \<Longrightarrow>
     armed h' = armed h |` {a. \<forall>e. armed h a = Some e \<longrightarrow> unat now < e} \<and>
     r = of_nat (card {a. \<exists>e. armed h a = Some e \<and> e \<le> unat now})"
proof -
  assume "expiry_ok h now out (r, l', h', out')"
  then obtain fs where fs: "distinct fs" "set fs = {a. \<exists>e. armed h a = Some e \<and> e \<le> unat now}" "r = of_nat (length fs)"
      "armed h' = armed h |` (- set fs)"
    unfolding expiry_ok_def by auto
  then show ?thesis using distinct_card [OF fs(1)]
    by (auto simp: restrict_map_def fun_eq_iff not_le)
qed

lemma expiry_ok_ident: "expiry_ok h now out (r, l', h', out') \<Longrightarrow> ident h' = ident h"
  by (auto simp: expiry_ok_def)

text \<open>A run of ticks, the sum of what they fire, and the time jump that replaces it.\<close>

fun ticks :: "nat \<Rightarrow> lawn2 \<Rightarrow> timers \<Rightarrow> (u64 \<times> lawn2 \<times> timers) option" where
  "ticks 0 l h = Some (0, l, h)"
| "ticks (Suc k) l h = do {
     (r, l, h, _) \<leftarrow> lawn2_tick l h None;
     (s, l, h) \<leftarrow> ticks k l h;
     Some (r + s, l, h)
   }"

lemma lawn2_wf_finite: "lawn2_wf l h \<Longrightarrow> finite (dom (armed h))"
  by (auto simp: lawn2_wf_def lawn2_inv_def)

lemma card_split_due:
  assumes "finite (dom m)" "n \<le> (k::nat)"
  shows "card {a. \<exists>e. m a = Some e \<and> e \<le> n} +
     card {a. \<exists>e. (m |` {a. \<forall>e. m a = Some e \<longrightarrow> n < e}) a = Some e \<and> e \<le> k} = card {a. \<exists>e. m a = Some e \<and> e \<le> k}"
proof -
  let ?A = "{a. \<exists>e. m a = Some e \<and> e \<le> n}" and ?C = "{a. \<exists>e. m a = Some e \<and> e \<le> k}"
  have "{a. \<exists>e. (m |` {a. \<forall>e. m a = Some e \<longrightarrow> n < e}) a = Some e \<and> e \<le> k} = ?C - ?A"
    using assms(2) by (auto simp: restrict_map_def not_le split: if_splits)
  moreover have "?A \<subseteq> ?C" using assms(2) by auto
  moreover have "finite ?C" by (rule finite_subset [OF _ assms(1)]) auto
  ultimately show ?thesis by (simp add: card_Diff_subset finite_subset card_mono)
qed

lemma ticks_spec:
  assumes "lawn2_wf l h" and "unat (l2_now l) + k < 2 ^ 64" and "k = 0 \<Longrightarrow> \<forall>a e. armed h a = Some e \<longrightarrow> unat (l2_now l) < e"
  shows "\<exists>l' h'. ticks k l h = Some (of_nat (card {a. \<exists>e. armed h a = Some e \<and> e \<le> unat (l2_now l) + k}), l', h') \<and>
     lawn2_wf l' h' \<and> unat (l2_now l') = unat (l2_now l) + k \<and> ident h' = ident h \<and>
     armed h' = armed h |` {a. \<forall>e. armed h a = Some e \<longrightarrow> unat (l2_now l) + k < e}"
  using assms
proof (induction k arbitrary: l h)
  case 0
  have none: "{a. \<exists>e. armed h a = Some e \<and> e \<le> unat (l2_now l)} = {}"
    using "0.prems"(3) by (auto dest: leD)
  have "armed h = armed h |` {a. \<forall>e. armed h a = Some e \<longrightarrow> unat (l2_now l) < e}"
    using "0.prems"(3) by (auto simp: fun_eq_iff restrict_map_def)
  then show ?case using "0.prems"(1) by (simp add: none)
next
  case (Suc k)
  obtain r l1 h1 o1 where T: "lawn2_tick l h None = Some (r, l1, h1, o1)"
      "expiry_ok h (l2_now l + 1) None (r, l1, h1, o1)" "lawn2_wf l1 h1" "l2_now l1 = l2_now l + 1"
    using lawn2_tick_spec [OF Suc.prems(1), of None] Suc.prems(2) by auto
  have n1: "unat (l2_now l1) = unat (l2_now l) + 1" using T(4) Suc.prems(2) by (simp add: unat_Suc64)
  note A = expiry_ok_armed [OF T(2), folded T(4), unfolded n1]
  have "\<forall>a e. armed h1 a = Some e \<longrightarrow> unat (l2_now l1) < e"
    using A n1 by (auto simp: restrict_map_def split: if_splits)
  then obtain l' h' where R:
      "ticks k l1 h1 = Some (of_nat (card {a. \<exists>e. armed h1 a = Some e \<and> e \<le> unat (l2_now l) + 1 + k}), l', h')"
      "lawn2_wf l' h'" "unat (l2_now l') = unat (l2_now l) + 1 + k" "ident h' = ident h1"
      "armed h' = armed h1 |` {a. \<forall>e. armed h1 a = Some e \<longrightarrow> unat (l2_now l) + 1 + k < e}"
    using Suc.IH [OF T(3)] Suc.prems(2) n1 by auto
  have "r + of_nat (card {a. \<exists>e. armed h1 a = Some e \<and> e \<le> unat (l2_now l) + 1 + k}) =
      (of_nat (card {a. \<exists>e. armed h a = Some e \<and> e \<le> unat (l2_now l) + 1 + k}) :: u64)"
    using card_split_due [OF lawn2_wf_finite [OF Suc.prems(1)], of "unat (l2_now l) + 1" "unat (l2_now l) + 1 + k"] A
    by (simp flip: of_nat_add)
  moreover have "armed h' = armed h |` {a. \<forall>e. armed h a = Some e \<longrightarrow> unat (l2_now l) + 1 + k < e}"
    using R(5) A by (auto simp: fun_eq_iff restrict_map_def)
  ultimately show ?case using R T(1) expiry_ok_ident [OF T(2)] by (simp add: add.assoc)
qed

end
