(* ===== verification/Store_Spec.thy ===== *)
theory Store_Spec
  imports Prelude
begin

text \<open>
  The interface every timer store of the program implements, \<open>struct cts_vtable\<close> of
  src/benchmarks/c/cts.h, and what the benchmark and test harness rely on.

  \<^item> \<open>cts_vtable\<close>: the record of operations of the C struct, over any store type.
  \<^item> \<open>spec\<close>: the abstract store, a clock and the live timers with their absolute deadlines.
  \<^item> the locale \<open>timer_store\<close>: the contract of the six operations with respect to an abstraction
    (\<open>now_of\<close>, \<open>live_of\<close>) and an invariant. Every implementation is an interpretation of it.
  \<^item> \<open>vt_run\<close>: a workload (a list of calls) run through a vtable; in the locale it refines the
    abstract run, so two conforming stores answer every call of a legal workload alike.
\<close>

section \<open>The vtable\<close>

record 's cts_vtable =
  vt_create :: 's
  vt_start :: "'s \<Rightarrow> u64 \<Rightarrow> u64 \<Rightarrow> 's option"
  vt_stop :: "'s \<Rightarrow> u64 \<Rightarrow> (bool \<times> 's) option"
  vt_tick :: "'s \<Rightarrow> (u64 \<times> 's) option"
  vt_size :: "'s \<Rightarrow> u64"
  vt_advance :: "'s \<Rightarrow> u64 \<Rightarrow> 's option"

datatype cmd = Start u64 u64 | Stop u64 | Tick | Advance u64 | Size

datatype obs = Done | Stopped bool | Fired u64 | Live u64

fun vt_exec :: "'s cts_vtable \<Rightarrow> 's \<Rightarrow> cmd \<Rightarrow> (obs \<times> 's) option" where
  "vt_exec vt s (Start i t) = map_option (Pair Done) (vt_start vt s i t)"
| "vt_exec vt s (Stop i) = map_option (map_prod Stopped id) (vt_stop vt s i)"
| "vt_exec vt s Tick = map_option (map_prod Fired id) (vt_tick vt s)"
| "vt_exec vt s (Advance t) = map_option (Pair Done) (vt_advance vt s t)"
| "vt_exec vt s Size = Some (Live (vt_size vt s), s)"

fun vt_run :: "'s cts_vtable \<Rightarrow> 's \<Rightarrow> cmd list \<Rightarrow> (obs list \<times> 's) option" where
  "vt_run vt s [] = Some ([], s)"
| "vt_run vt s (c # cs) = do {
     (ob, s') \<leftarrow> vt_exec vt s c;
     (obs, s'') \<leftarrow> vt_run vt s' cs;
     Some (ob # obs, s'')
   }"

section \<open>The abstract store\<close>

text \<open>
  Deadlines and the clock are naturals: a legal workload never lets a clock or a deadline reach
  \<open>2 ^ 64\<close>. The live timers are an association list so that the abstract run is executable.
  \<open>round\<close> is what an implementation does to a TTL before it inserts the timer (the identity, except
  for the store that clamps to wheel buckets).
\<close>

record spec =
  sp_now :: nat
  sp_live :: "(u64 \<times> nat) list"

definition spec_init :: spec where
  "spec_init = \<lparr>sp_now = 0, sp_live = []\<rparr>"

fun spec_exec :: "(u64 \<Rightarrow> u64) \<Rightarrow> spec \<Rightarrow> cmd \<Rightarrow> obs \<times> spec" where
  "spec_exec rnd sp (Start i t) =
     (Done, sp\<lparr>sp_live := (i, sp_now sp + unat (rnd t)) # sp_live sp\<rparr>)"
| "spec_exec rnd sp (Stop i) =
     (Stopped (i \<in> fst ` set (sp_live sp)), sp\<lparr>sp_live := filter (\<lambda>p. fst p \<noteq> i) (sp_live sp)\<rparr>)"
| "spec_exec rnd sp Tick =
     (Fired (of_nat (length (filter (\<lambda>p. snd p \<le> Suc (sp_now sp)) (sp_live sp)))),
      sp\<lparr>sp_now := Suc (sp_now sp),
         sp_live := filter (\<lambda>p. Suc (sp_now sp) < snd p) (sp_live sp)\<rparr>)"
| "spec_exec rnd sp (Advance t) = (Done, sp\<lparr>sp_now := unat t\<rparr>)"
| "spec_exec rnd sp Size = (Live (of_nat (length (sp_live sp))), sp)"

fun spec_run :: "(u64 \<Rightarrow> u64) \<Rightarrow> spec \<Rightarrow> cmd list \<Rightarrow> obs list \<times> spec" where
  "spec_run rnd sp [] = ([], sp)"
| "spec_run rnd sp (c # cs) =
     (let (ob, sp') = spec_exec rnd sp c; (obs, sp'') = spec_run rnd sp' cs in (ob # obs, sp''))"

text \<open>
  When a call is legal: ids and TTLs below the bounds of the implementation, no second start of a
  live id, no zero TTL, no overflow of the 64-bit clock, and a clock jump that neither goes back
  nor passes a live deadline (the precondition cts.h and the adapters state for advance).
\<close>

fun legal :: "nat \<Rightarrow> nat \<Rightarrow> (u64 \<Rightarrow> u64) \<Rightarrow> spec \<Rightarrow> cmd \<Rightarrow> bool" where
  "legal idlim ttllim rnd sp (Start i t) \<longleftrightarrow>
     unat i < idlim \<and> 0 < unat t \<and> unat t < ttllim \<and> i \<notin> fst ` set (sp_live sp) \<and>
     sp_now sp + unat (rnd t) < 2 ^ 64"
| "legal idlim ttllim rnd sp (Stop i) \<longleftrightarrow> True"
| "legal idlim ttllim rnd sp Tick \<longleftrightarrow> sp_now sp + 1 < 2 ^ 64"
| "legal idlim ttllim rnd sp (Advance t) \<longleftrightarrow>
     sp_now sp \<le> unat t \<and> (\<forall>p \<in> set (sp_live sp). unat t < snd p)"
| "legal idlim ttllim rnd sp Size \<longleftrightarrow> True"

fun legal_run :: "nat \<Rightarrow> nat \<Rightarrow> (u64 \<Rightarrow> u64) \<Rightarrow> spec \<Rightarrow> cmd list \<Rightarrow> bool" where
  "legal_run idlim ttllim rnd sp [] \<longleftrightarrow> True"
| "legal_run idlim ttllim rnd sp (c # cs) \<longleftrightarrow>
     legal idlim ttllim rnd sp c \<and> legal_run idlim ttllim rnd (snd (spec_exec rnd sp c)) cs"

lemma legal_run_mono:
  "legal_run i t rnd sp cs \<Longrightarrow> i \<le> i' \<Longrightarrow> t \<le> t' \<Longrightarrow> legal_run i' t' rnd sp cs"
proof (induction cs arbitrary: sp)
  case (Cons c cs)
  then show ?case by (cases c) auto
qed simp

section \<open>The contract\<close>

definition due :: "(u64 \<rightharpoonup> nat) \<Rightarrow> nat \<Rightarrow> u64 set" where
  "due live n = {i. \<exists>e. live i = Some e \<and> e \<le> n}"

definition later :: "(u64 \<rightharpoonup> nat) \<Rightarrow> nat \<Rightarrow> (u64 \<rightharpoonup> nat)" where
  "later live n = live |` {i. \<exists>e. live i = Some e \<and> n < e}"

lemma later_eq: "later live n i = (case live i of Some e \<Rightarrow> if n < e then Some e else None | None \<Rightarrow> None)"
  by (auto simp: later_def restrict_map_def split: option.splits)

lemma due_subset: "due live n \<subseteq> dom live"
  by (auto simp: due_def)

lemma dom_later: "dom (later live n) = dom live - due live n"
  by (auto simp: later_eq due_def split: option.splits if_splits)

lemma later_id: "(\<And>i e. live i = Some e \<Longrightarrow> n < e) \<Longrightarrow> later live n = live"
  by (auto simp: fun_eq_iff later_eq split: option.splits)

lemma due_empty: "(\<And>i e. live i = Some e \<Longrightarrow> n < e) \<Longrightarrow> due live n = {}"
  by (auto simp: due_def dest: leD)

lemma card_later: "finite (dom live) \<Longrightarrow> card (dom (later live n)) = card (dom live) - card (due live n)"
  by (metis card_Diff_subset dom_later due_subset finite_subset)

lemma card_due_le: "finite (dom live) \<Longrightarrow> card (due live n) \<le> card (dom live)"
  by (rule card_mono) (auto simp: due_subset)

text \<open>The abstract association list and the map it stands for.\<close>

lemma map_of_filter_key:
  "map_of (filter (\<lambda>p. fst p \<noteq> i) xs) = (map_of xs)(i := None)"
  by (induction xs) (auto simp: fun_eq_iff)

lemma map_of_filter_val:
  "distinct (map fst xs) \<Longrightarrow>
     map_of (filter (\<lambda>p. P (snd p)) xs) k = (case map_of xs k of Some v \<Rightarrow> if P v then Some v else None | None \<Rightarrow> None)"
proof (induction xs)
  case (Cons p xs)
  have "k = fst p \<Longrightarrow> map_of xs k = None" using Cons.prems by (auto simp: map_of_eq_None_iff)
  then show ?case using Cons by (auto split: option.splits)
qed simp

lemma distinct_map_filter: "distinct (map f xs) \<Longrightarrow> distinct (map f (filter P xs))"
  by (induction xs) auto

lemma card_due_map_of:
  assumes "distinct (map fst xs)"
  shows "card (due (map_of xs) n) = length (filter (\<lambda>p. snd p \<le> n) xs)"
proof -
  let ?ys = "filter (\<lambda>p. snd p \<le> n) xs"
  have "due (map_of xs) n = dom (map_of ?ys)"
    using map_of_filter_val [OF assms, of "\<lambda>e. e \<le> n"]
    by (auto simp: due_def split: option.splits if_splits)
  also have "\<dots> = fst ` set ?ys" by (rule dom_map_of_conv_image_fst)
  also have "card \<dots> = length ?ys"
    using distinct_map_filter [OF assms] distinct_card [of "map fst ?ys"] by simp
  finally show ?thesis .
qed

lemma card_dom_map_of: "distinct (map fst xs) \<Longrightarrow> card (dom (map_of xs)) = length xs"
  using distinct_card [of "map fst xs"] by (simp add: dom_map_of_conv_image_fst)

lemma later_map_of:
  "distinct (map fst xs) \<Longrightarrow> later (map_of xs) n = map_of (filter (\<lambda>p. n < snd p) xs)"
  using map_of_filter_val [of xs "\<lambda>e. n < e"] by (auto simp: fun_eq_iff later_eq)

locale timer_store =
  fixes vt :: "'s cts_vtable"
    and inv :: "'s \<Rightarrow> bool"
    and now_of :: "'s \<Rightarrow> nat"
    and live_of :: "'s \<Rightarrow> (u64 \<rightharpoonup> nat)"
    and rnd :: "u64 \<Rightarrow> u64"
    and idlim ttllim :: nat
  assumes create_law: "inv (vt_create vt) \<and> now_of (vt_create vt) = 0 \<and> live_of (vt_create vt) = Map.empty"
    and finite_law: "inv s \<Longrightarrow> finite (dom (live_of s))"
    and start_law: "inv s \<Longrightarrow> unat i < idlim \<Longrightarrow> 0 < unat t \<Longrightarrow> unat t < ttllim \<Longrightarrow> live_of s i = None \<Longrightarrow>
      now_of s + unat (rnd t) < 2 ^ 64 \<Longrightarrow>
      \<exists>s'. vt_start vt s i t = Some s' \<and> inv s' \<and> now_of s' = now_of s \<and>
        live_of s' = (live_of s)(i \<mapsto> now_of s + unat (rnd t))"
    and stop_law: "inv s \<Longrightarrow>
      \<exists>s'. vt_stop vt s i = Some (live_of s i \<noteq> None, s') \<and> inv s' \<and> now_of s' = now_of s \<and>
        live_of s' = (live_of s)(i := None)"
    and tick_law: "inv s \<Longrightarrow> now_of s + 1 < 2 ^ 64 \<Longrightarrow>
      \<exists>s'. vt_tick vt s = Some (of_nat (card (due (live_of s) (Suc (now_of s)))), s') \<and> inv s' \<and>
        now_of s' = Suc (now_of s) \<and> live_of s' = later (live_of s) (Suc (now_of s))"
    and size_law: "inv s \<Longrightarrow> vt_size vt s = of_nat (card (dom (live_of s)))"
    and advance_law: "inv s \<Longrightarrow> now_of s \<le> unat t \<Longrightarrow> (\<And>i e. live_of s i = Some e \<Longrightarrow> unat t < e) \<Longrightarrow>
      \<exists>s'. vt_advance vt s t = Some s' \<and> inv s' \<and> now_of s' = unat t \<and> live_of s' = live_of s"
begin

definition represents :: "'s \<Rightarrow> spec \<Rightarrow> bool" where
  "represents s sp \<longleftrightarrow> inv s \<and> now_of s = sp_now sp \<and> live_of s = map_of (sp_live sp) \<and>
     distinct (map fst (sp_live sp))"

lemma represents_create: "represents (vt_create vt) spec_init"
  using create_law by (simp add: represents_def spec_init_def)

lemma exec_refines:
  assumes r: "represents s sp" and l: "legal idlim ttllim rnd sp c"
  shows "\<exists>s'. vt_exec vt s c = Some (fst (spec_exec rnd sp c), s') \<and> represents s' (snd (spec_exec rnd sp c))"
proof (cases c)
  case (Start i t)
  then have "live_of s i = None" using r l by (auto simp: represents_def map_of_eq_None_iff)
  then show ?thesis
    using start_law [of s i t] r l Start by (auto simp: represents_def)
next
  case (Stop i)
  have "live_of s i \<noteq> None \<longleftrightarrow> i \<in> fst ` set (sp_live sp)"
    using r by (simp add: represents_def map_of_eq_None_iff)
  then show ?thesis
    using Stop stop_law [of s i] r
    by (auto simp: represents_def map_of_filter_key distinct_map_filter simp del: not_None_eq)
next
  case Tick
  then show ?thesis
    using tick_law [of s] r l
    by (auto simp: represents_def card_due_map_of later_map_of distinct_map_filter)
next
  case (Advance t)
  have "\<And>i e. live_of s i = Some e \<Longrightarrow> unat t < e"
    using Advance r l by (fastforce simp: represents_def dest: map_of_SomeD)
  then show ?thesis
    using Advance advance_law [of s t] r l by (auto simp: represents_def)
next
  case Size
  then show ?thesis
    using size_law [of s] r by (auto simp: represents_def card_dom_map_of)
qed

lemma run_refines:
  "represents s sp \<Longrightarrow> legal_run idlim ttllim rnd sp cs \<Longrightarrow>
     \<exists>s'. vt_run vt s cs = Some (fst (spec_run rnd sp cs), s') \<and> represents s' (snd (spec_run rnd sp cs))"
proof (induction cs arbitrary: s sp)
  case (Cons c cs)
  obtain s1 where s1: "vt_exec vt s c = Some (fst (spec_exec rnd sp c), s1)"
      "represents s1 (snd (spec_exec rnd sp c))"
    using exec_refines [OF Cons.prems(1)] Cons.prems(2) by auto
  then show ?case
    using Cons.IH [OF s1(2)] Cons.prems(2) by (auto simp: Let_def split: prod.splits)
qed simp

text \<open>A legal workload from a fresh store: no undefined behaviour, and the abstract answers.\<close>

lemma workload_correct:
  "legal_run idlim ttllim rnd spec_init cs \<Longrightarrow>
     \<exists>s'. vt_run vt (vt_create vt) cs = Some (fst (spec_run rnd spec_init cs), s')"
  using run_refines [OF represents_create] by blast

end

end
