(* ===== verification/Lawn2_Store.thy ===== *)
theory Lawn2_Store
  imports Lawn2_Expiry Store_Spec
begin

text \<open>
  The lawn2 adapters of the benchmark harness: the block store that gives every id a timer node
  (timer_for of src/lawn2.c), the plain adapter src/benchmarks/c/impl/lawn2.c and the one that
  rounds TTLs to timer-wheel buckets, src/benchmarks/c/impl/lawn2_clamped.c. Both are
  interpretations of the contract \<open>timer_store\<close>.

  The allocator is modelled by fresh, disjoint addresses: the i-th block of the store gets the
  addresses \<open>[i * BLK_SIZE, (i + 1) * BLK_SIZE)\<close>, one per node, and is never moved (only the array of
  block pointers is reallocated).
\<close>

section \<open>The block store\<close>

definition BLK_BITS :: nat where "BLK_BITS = 12"
definition BLK_SIZE :: nat where "BLK_SIZE = 2 ^ BLK_BITS"
definition BLK_MASK :: u64 where "BLK_MASK = of_nat BLK_SIZE - 1"

text \<open>\<open>blocks\<close> holds the base address of each block; nblocks is its length.\<close>

record node_store =
  blocks :: "addr list"

definition init_store :: node_store where
  "init_store = \<lparr>blocks = []\<rparr>"

definition node_zero :: lawn2_timer where
  "node_zero = \<lparr>tm_ttl = 0, tm_expiration = 0, tm_next = None, tm_prev = None, tm_in_store = False, tm_id = 0\<rparr>"

text \<open>calloc of one block and the loop that fills in the ids.\<close>

definition calloc_block :: "addr \<Rightarrow> u64 \<Rightarrow> timers \<Rightarrow> timers" where
  "calloc_block base base_id h =
     fold (\<lambda>j h. h(base + j \<mapsto> node_zero\<lparr>tm_id := base_id OR of_nat j\<rparr>)) [0..<BLK_SIZE] h"

definition add_block :: "nat \<Rightarrow> node_store \<times> timers \<Rightarrow> node_store \<times> timers" where
  "add_block i = (\<lambda>(s, h).
     (s\<lparr>blocks := blocks s @ [i * BLK_SIZE]\<rparr>, calloc_block (i * BLK_SIZE) (push_bit BLK_BITS (of_nat i)) h))"

definition timer_for :: "node_store \<Rightarrow> timers \<Rightarrow> u64 \<Rightarrow> (node_store \<times> timers \<times> addr) option" where
  "timer_for s h i = do {
     let block_index = unat (drop_bit BLK_BITS i);
     let (s, h) = (if block_index \<ge> length (blocks s)
                   then fold add_block [length (blocks s)..<block_index + 1] (s, h) else (s, h));
     b \<leftarrow> index (blocks s) block_index;
     Some (s, h, b + unat (i AND BLK_MASK))
   }"

section \<open>The adapters\<close>

record l2_store =
  l2_l :: lawn2
  l2_st :: node_store
  l2_heap :: timers

definition l2_create :: l2_store where
  "l2_create = \<lparr>l2_l = lawn2_new, l2_st = init_store, l2_heap = Map.empty\<rparr>"

definition l2_start :: "l2_store \<Rightarrow> u64 \<Rightarrow> u64 \<Rightarrow> l2_store option" where
  "l2_start s i ttl = do {
     (st, h, n) \<leftarrow> timer_for (l2_st s) (l2_heap s) i;
     (l, h) \<leftarrow> lawn2_add (l2_l s) h n ttl;
     Some \<lparr>l2_l = l, l2_st = st, l2_heap = h\<rparr>
   }"

definition l2_stop :: "l2_store \<Rightarrow> u64 \<Rightarrow> (bool \<times> l2_store) option" where
  "l2_stop s i = do {
     (st, h, n) \<leftarrow> timer_for (l2_st s) (l2_heap s) i;
     t \<leftarrow> h n;
     (if \<not> tm_in_store t then Some (False, s\<lparr>l2_st := st, l2_heap := h\<rparr>) else do {
        (l, h) \<leftarrow> lawn2_del (l2_l s) h n;
        Some (True, \<lparr>l2_l = l, l2_st = st, l2_heap = h\<rparr>)
      })
   }"

definition l2_tick :: "l2_store \<Rightarrow> (u64 \<times> l2_store) option" where
  "l2_tick s = do {
     (count, l, h, _) \<leftarrow> lawn2_tick (l2_l s) (l2_heap s) (Some None);
     Some (count, s\<lparr>l2_l := l, l2_heap := h\<rparr>)
   }"

definition l2_size :: "l2_store \<Rightarrow> u64" where
  "l2_size s = lawn2_size (l2_l s)"

definition l2_advance :: "l2_store \<Rightarrow> u64 \<Rightarrow> l2_store option" where
  "l2_advance s target = do {
     l \<leftarrow> lawn2_set_now (Some (l2_l s)) target;
     Some (s\<lparr>l2_l := l\<rparr>)
   }"

definition cts_lawn2_vtable :: "l2_store cts_vtable" where
  "cts_lawn2_vtable = \<lparr>vt_create = l2_create, vt_start = l2_start, vt_stop = l2_stop, vt_tick = l2_tick,
     vt_size = l2_size, vt_advance = l2_advance\<rparr>"

text \<open>
  clamp_timer_ttl: \<open>clamp_loop\<close> is the loop over the wheel levels, with the code after the loop as
  its last case.
\<close>

definition LVL_BITS :: nat where "LVL_BITS = 6"
definition LVL_CLK_SHIFT :: nat where "LVL_CLK_SHIFT = 3"
definition LVL_DEPTH :: nat where "LVL_DEPTH = 9"

fun clamp_loop :: "nat list \<Rightarrow> u64 \<Rightarrow> u64" where
  "clamp_loop [] ttl =
     (let max_shift = (LVL_DEPTH - 1) * LVL_CLK_SHIFT;
          max_mask = push_bit max_shift 1 - 1
      in (ttl + max_mask) AND NOT max_mask)"
| "clamp_loop (level # levels) ttl =
     (let shift = level * LVL_CLK_SHIFT;
          level_max = push_bit (LVL_BITS + shift) 1
      in if ttl < level_max
         then let msk = push_bit shift 1 - 1 in (ttl + msk) AND NOT msk
         else clamp_loop levels ttl)"

definition clamp_timer_ttl :: "u64 \<Rightarrow> u64" where
  "clamp_timer_ttl ttl = (if ttl < push_bit LVL_BITS 1 then ttl else clamp_loop [1..<LVL_DEPTH - 1] ttl)"

definition l2c_start :: "l2_store \<Rightarrow> u64 \<Rightarrow> u64 \<Rightarrow> l2_store option" where
  "l2c_start s i ttl = do {
     (st, h, n) \<leftarrow> timer_for (l2_st s) (l2_heap s) i;
     (l, h) \<leftarrow> lawn2_add (l2_l s) h n (clamp_timer_ttl ttl);
     Some \<lparr>l2_l = l, l2_st = st, l2_heap = h\<rparr>
   }"

text \<open>The other operations of lawn2_clamped.c repeat those of lawn2.c word for word.\<close>

definition cts_lawn2_clamped_vtable :: "l2_store cts_vtable" where
  "cts_lawn2_clamped_vtable = \<lparr>vt_create = l2_create, vt_start = l2c_start, vt_stop = l2_stop, vt_tick = l2_tick,
     vt_size = l2_size, vt_advance = l2_advance\<rparr>"

section \<open>Block store lemmas\<close>

lemma fold_upd:
  "fold (\<lambda>j h. h(b + j \<mapsto> f j)) [0..<n] h = (\<lambda>a. if b \<le> a \<and> a < b + n then Some (f (a - b)) else h a)"
  by (induction n) (auto simp: fun_eq_iff)

lemma calloc_block_eq:
  "calloc_block b i h = (\<lambda>a. if b \<le> a \<and> a < b + BLK_SIZE then Some (node_zero\<lparr>tm_id := i OR of_nat (a - b)\<rparr>) else h a)"
  unfolding calloc_block_def by (rule fold_upd)

definition nodes_ok :: "node_store \<Rightarrow> timers \<Rightarrow> bool" where
  "nodes_ok s h \<longleftrightarrow> blocks s = map (\<lambda>i. i * BLK_SIZE) [0..<length (blocks s)] \<and> length (blocks s) \<le> 2 ^ 52 \<and>
     dom h = {..<length (blocks s) * BLK_SIZE} \<and> (\<forall>a t. h a = Some t \<longrightarrow> tm_id t = of_nat a)"

lemma block_id: "j < BLK_SIZE \<Longrightarrow> push_bit BLK_BITS (of_nat i) OR of_nat j = (of_nat (i * BLK_SIZE + j) :: u64)"
proof -
  assume "j < BLK_SIZE"
  then have "take_bit 12 j = j" by (simp add: BLK_SIZE_def BLK_BITS_def take_bit_nat_eq_self)
  then have "\<not> bit j n" if "12 \<le> n" for n using bit_take_bit_iff [of 12 j n] that by simp
  then have "(push_bit 12 (of_nat i) :: u64) AND of_nat j = 0"
    by (intro bit_word_eqI) (auto simp: bit_simps)
  then show ?thesis
    by (simp add: BLK_BITS_def BLK_SIZE_def push_bit_eq_mult flip: disjunctive_add_eq_or)
qed

lemma add_block_ok:
  assumes "nodes_ok s h" and "length (blocks s) < 2 ^ 52"
  shows "nodes_ok (fst (add_block (length (blocks s)) (s, h))) (snd (add_block (length (blocks s)) (s, h)))"
    and "length (blocks (fst (add_block (length (blocks s)) (s, h)))) = Suc (length (blocks s))"
    and "h \<subseteq>\<^sub>m snd (add_block (length (blocks s)) (s, h))"
    and "armed (snd (add_block (length (blocks s)) (s, h))) = armed h"
proof -
  let ?n = "length (blocks s)"
  let ?s = "s\<lparr>blocks := blocks s @ [?n * BLK_SIZE]\<rparr>"
  let ?h = "\<lambda>a. if ?n * BLK_SIZE \<le> a \<and> a < ?n * BLK_SIZE + BLK_SIZE
         then Some (node_zero\<lparr>tm_id := push_bit BLK_BITS (of_nat ?n) OR of_nat (a - ?n * BLK_SIZE)\<rparr>) else h a"
  have e: "add_block ?n (s, h) = (?s, ?h)"
    by (simp add: add_block_def calloc_block_eq)
  have d: "dom h = {..<?n * BLK_SIZE}" and B: "blocks s = map (\<lambda>i. i * BLK_SIZE) [0..<?n]"
    and ids: "\<forall>a t. h a = Some t \<longrightarrow> tm_id t = of_nat a"
    using assms(1) by (simp_all add: nodes_ok_def)
  have in_dom: "a \<in> dom h \<longleftrightarrow> a < ?n * BLK_SIZE" for a unfolding d by simp
  have id: "push_bit BLK_BITS (of_nat ?n) OR of_nat (a - ?n * BLK_SIZE) = (of_nat a :: u64)"
    if "?n * BLK_SIZE \<le> a" "a < ?n * BLK_SIZE + BLK_SIZE" for a
    using block_id [of "a - ?n * BLK_SIZE" ?n] that by simp
  have "dom ?h = {..<?n * BLK_SIZE + BLK_SIZE}"
  proof (intro equalityI subsetI)
    fix a assume "a \<in> dom ?h"
    then show "a \<in> {..<?n * BLK_SIZE + BLK_SIZE}" using in_dom [of a] by (auto split: if_splits)
  next
    fix a assume "a \<in> {..<?n * BLK_SIZE + BLK_SIZE}"
    then show "a \<in> dom ?h" using in_dom [of a] by auto
  qed
  moreover have "blocks ?s = map (\<lambda>i. i * BLK_SIZE) [0..<length (blocks ?s)]" using B by simp
  moreover have "\<forall>a t. ?h a = Some t \<longrightarrow> tm_id t = of_nat a" using ids id by auto
  ultimately have "nodes_ok ?s ?h" using assms(2) by (simp add: nodes_ok_def algebra_simps)
  then show "nodes_ok (fst (add_block ?n (s, h))) (snd (add_block ?n (s, h)))" by (simp add: e)
  show "length (blocks (fst (add_block ?n (s, h)))) = Suc ?n" by (simp add: e)
  have out: "h a = None" if "?n * BLK_SIZE \<le> a" for a using in_dom [of a] that by auto
  then show "h \<subseteq>\<^sub>m snd (add_block ?n (s, h))" by (auto simp: e map_le_def dom_def)
  show "armed (snd (add_block ?n (s, h))) = armed h"
    using out by (auto simp: e armed_def fun_eq_iff node_zero_def)
qed

lemma add_blocks_ok:
  assumes "nodes_ok s h" and "length (blocks s) + k \<le> 2 ^ 52"
  shows "case fold add_block [length (blocks s)..<length (blocks s) + k] (s, h) of (s', h') \<Rightarrow>
     nodes_ok s' h' \<and> length (blocks s') = length (blocks s) + k \<and> h \<subseteq>\<^sub>m h' \<and> armed h' = armed h"
  using assms
proof (induction k)
  case (Suc k)
  obtain s1 h1 where f: "fold add_block [length (blocks s)..<length (blocks s) + k] (s, h) = (s1, h1)"
    by fastforce
  have I: "nodes_ok s1 h1" "length (blocks s1) = length (blocks s) + k" "h \<subseteq>\<^sub>m h1" "armed h1 = armed h"
    using Suc f by auto
  obtain s2 h2 where g: "add_block (length (blocks s1)) (s1, h1) = (s2, h2)" by fastforce
  have "length (blocks s1) < 2 ^ 52" using I(2) Suc.prems(2) by simp
  then show ?case using add_block_ok [OF I(1)] I f g map_le_trans by auto
qed simp

lemma timer_for_spec:
  assumes "nodes_ok s h"
  shows "\<exists>s' h' t. timer_for s h i = Some (s', h', unat i) \<and> nodes_ok s' h' \<and> h \<subseteq>\<^sub>m h' \<and> armed h' = armed h \<and>
     h' (unat i) = Some t \<and> tm_id t = i"
proof -
  let ?b = "unat (drop_bit BLK_BITS i)"
  let ?k = "?b + 1 - length (blocks s)"
  have b: "?b < 2 ^ 52" by (simp add: unat_drop_bit BLK_BITS_def less_mult_imp_div_less)
  obtain s' h' where r: "(if ?b \<ge> length (blocks s) then fold add_block [length (blocks s)..<?b + 1] (s, h) else (s, h)) = (s', h')"
    by fastforce
  have P: "nodes_ok s' h' \<and> ?b < length (blocks s') \<and> h \<subseteq>\<^sub>m h' \<and> armed h' = armed h"
  proof (cases "?b \<ge> length (blocks s)")
    case True
    then show ?thesis using add_blocks_ok [OF assms, of ?k] r b by auto
  next
    case False
    then show ?thesis using assms r by auto
  qed
  have "?b * BLK_SIZE + unat (i AND BLK_MASK) = unat i"
  proof -
    have m: "BLK_MASK = mask 12" by (simp add: BLK_MASK_def BLK_SIZE_def BLK_BITS_def mask_eq_exp_minus_1)
    have "unat (i AND BLK_MASK) = unat i mod 2 ^ 12" unfolding m by (rule unat_and_mask)
    then show ?thesis by (simp add: unat_drop_bit BLK_SIZE_def BLK_BITS_def)
  qed
  moreover have bl: "blocks s' ! ?b = ?b * BLK_SIZE"
  proof -
    have "blocks s' = map (\<lambda>i. i * BLK_SIZE) [0..<length (blocks s')]" using P by (simp add: nodes_ok_def)
    then show ?thesis using P by (metis add_0 nth_map_upt diff_zero)
  qed
  ultimately have run: "timer_for s h i = Some (s', h', unat i)"
    using r P by (simp add: timer_for_def)
  have "unat i div 4096 < length (blocks s')" using P by (simp add: unat_drop_bit BLK_BITS_def)
  then have "unat i < length (blocks s') * BLK_SIZE" by (simp add: BLK_SIZE_def BLK_BITS_def div_less_iff_less_mult)
  then have "unat i \<in> dom h'" using P by (simp add: nodes_ok_def)
  then obtain t where t: "h' (unat i) = Some t" by blast
  then have "tm_id t = i" using P by (simp add: nodes_ok_def)
  then show ?thesis using run P t by blast
qed

section \<open>The contract\<close>

definition l2_inv :: "l2_store \<Rightarrow> bool" where
  "l2_inv s \<longleftrightarrow> lawn2_wf (l2_l s) (l2_heap s) \<and> nodes_ok (l2_st s) (l2_heap s)"

definition l2_now_of :: "l2_store \<Rightarrow> nat" where
  "l2_now_of s = unat (l2_now (l2_l s))"

definition l2_live_of :: "l2_store \<Rightarrow> (u64 \<rightharpoonup> nat)" where
  "l2_live_of s i = armed (l2_heap s) (unat i)"

text \<open>Sets of ids and sets of node addresses.\<close>

lemma nodes_bound: "nodes_ok s h \<Longrightarrow> armed h a = Some e \<Longrightarrow> a < 2 ^ 64"
proof -
  assume n: "nodes_ok s h" and a: "armed h a = Some e"
  have "a \<in> dom h" using a by (auto simp: armed_def split: option.splits)
  then have "a < length (blocks s) * BLK_SIZE" using n by (simp add: nodes_ok_def)
  also have "\<dots> \<le> 2 ^ 52 * BLK_SIZE" using n by (intro mult_le_mono1) (simp add: nodes_ok_def)
  finally show ?thesis by (simp add: BLK_SIZE_def BLK_BITS_def)
qed

lemma card_ids:
  assumes "nodes_ok s h"
  shows "card {i :: u64. \<exists>e. armed h (unat i) = Some e \<and> P e} = card {a. \<exists>e. armed h a = Some e \<and> P e}"
proof -
  let ?I = "{i :: u64. \<exists>e. armed h (unat i) = Some e \<and> P e}"
  have "{a. \<exists>e. armed h a = Some e \<and> P e} = unat ` ?I"
  proof (intro equalityI subsetI)
    fix a assume a: "a \<in> {a. \<exists>e. armed h a = Some e \<and> P e}"
    then have "a < 2 ^ 64" using nodes_bound [OF assms] by auto
    then have "unat (of_nat a :: u64) = a" by (simp add: unat_of_nat)
    then show "a \<in> unat ` ?I" using a by (intro image_eqI [of _ _ "of_nat a"]) auto
  qed auto
  moreover have "inj_on unat ?I" by (auto simp: inj_on_def word_unat_eq_iff)
  ultimately show ?thesis by (simp only: card_image)
qed

lemma l2_finite: "l2_inv s \<Longrightarrow> finite (dom (l2_live_of s))"
  by simp

lemma l2_size_card: "l2_inv s \<Longrightarrow> l2_size s = of_nat (card (dom (l2_live_of s)))"
  using card_ids [of "l2_st s" "l2_heap s" "\<lambda>_. True"]
  by (auto simp: l2_inv_def l2_size_def lawn2_size_def lawn2_wf_def lawn2_inv_def l2_live_of_def dom_def)

lemma l2_create_ok: "l2_inv l2_create \<and> l2_now_of l2_create = 0 \<and> l2_live_of l2_create = Map.empty"
proof -
  have a: "armed Map.empty = Map.empty" by (simp add: armed_def fun_eq_iff)
  then have "lawn2_wf lawn2_new Map.empty" using lawn2_new_inv by (auto simp: lawn2_wf_def)
  then show ?thesis
    by (auto simp: l2_inv_def l2_create_def l2_now_of_def lawn2_new_def l2_live_of_def armed_def nodes_ok_def init_store_def)
qed

text \<open>The heap may grow under a store: new nodes are idle.\<close>

lemma queues_ok_extend:
  assumes q: "queues_ok h now Q" and sub: "h \<subseteq>\<^sub>m h'" and arm: "armed h' = armed h"
  shows "queues_ok h' now Q"
proof -
  have eq: "h' a = h a" if "a \<in> set (Q t)" for a t
    using queues_mem [OF q that] sub by (auto simp: map_le_def dom_def)
  have "dlist (nxt h') (prv h') (Q t)" for t
    using queues_dlist [OF q, of t] dlist_cong [of "Q t" "nxt h'" "nxt h" "prv h'" "prv h"] eq
    by (simp add: nxt_def prv_def)
  moreover have "map (deadline h') (Q t) = map (deadline h) (Q t)" for t
    using eq by (simp add: deadline_def)
  moreover have "queued h' now t a" if "a \<in> set (Q t)" for a t
    using queues_queued [OF q that] eq [OF that] by (simp add: queued_def)
  moreover have "a \<in> set (Q (tm_ttl n))" if h': "h' a = Some n" and st: "tm_in_store n" for a n
  proof -
    have "armed h' a \<noteq> None" using h' st by (simp add: armed_def)
    then have "armed h a \<noteq> None" using arm by simp
    then have "a \<in> dom h" by (auto simp: armed_def split: option.splits)
    then have "h a = Some n" using sub h' by (simp add: map_le_def)
    then show ?thesis using queues_complete [OF q] st by blast
  qed
  ultimately show ?thesis using queues_sorted [OF q] by (simp add: queues_ok_def del: map_eq_conv)
qed

lemma lawn2_wf_extend: "lawn2_wf l h \<Longrightarrow> h \<subseteq>\<^sub>m h' \<Longrightarrow> armed h' = armed h \<Longrightarrow> lawn2_wf l h'"
  unfolding lawn2_wf_def lawn2_inv_def using queues_ok_extend by metis

text \<open>Starting a timer, with the TTL that reaches lawn2_add.\<close>

lemma nodes_ok_ids: "nodes_ok s h \<Longrightarrow> ids h' = ids h \<Longrightarrow> nodes_ok s h'"
proof -
  assume n: "nodes_ok s h" and "ids h' = ids h"
  then have i: "map_option tm_id (h' a) = map_option tm_id (h a)" for a by (simp add: ids_def fun_eq_iff)
  have "(h' a = None) = (h a = None)" for a using i [of a] by (cases "h a"; cases "h' a") auto
  then have "dom h' = dom h" by (auto simp: dom_def)
  moreover have "tm_id t = of_nat a" if "h' a = Some t" for a t
    using i [of a] that n by (cases "h a") (auto simp: nodes_ok_def)
  ultimately show ?thesis using n by (simp add: nodes_ok_def)
qed

lemma ident_ids: "ident h' = ident h \<Longrightarrow> ids h' = ids h"
proof
  fix a assume "ident h' = ident h"
  then have "ident h' a = ident h a" by simp
  then show "ids h' a = ids h a" by (cases "h a"; cases "h' a") (auto simp: ident_def ids_def)
qed

lemma start_ok:
  assumes s: "l2_inv s" and free: "l2_live_of s i = None" and nov: "l2_now_of s + unat ttl < 2 ^ 64"
  shows "\<exists>s'. (do { (st, h, n) \<leftarrow> timer_for (l2_st s) (l2_heap s) i;
                   (l, h) \<leftarrow> lawn2_add (l2_l s) h n ttl;
                   Some \<lparr>l2_l = l, l2_st = st, l2_heap = h\<rparr> }) = Some s' \<and>
     l2_inv s' \<and> l2_now_of s' = l2_now_of s \<and> l2_live_of s' = (l2_live_of s)(i \<mapsto> l2_now_of s + unat ttl)"
proof -
  have wf: "lawn2_wf (l2_l s) (l2_heap s)" and nd: "nodes_ok (l2_st s) (l2_heap s)" using s by (simp_all add: l2_inv_def)
  obtain st h t where T: "timer_for (l2_st s) (l2_heap s) i = Some (st, h, unat i)" "nodes_ok st h"
      "l2_heap s \<subseteq>\<^sub>m h" "armed h = armed (l2_heap s)" "h (unat i) = Some t"
    using timer_for_spec [OF nd] by blast
  obtain Q L where i0: "lawn2_inv (l2_l s) h Q L"
    using lawn2_wf_extend [OF wf T(3,4)] by (auto simp: lawn2_wf_def)
  have "armed h (unat i) = None" using free T(4) by (simp add: l2_live_of_def)
  then have idle: "\<not> tm_in_store t" using T(5) by (simp add: armed_def split: if_splits)
  obtain l' h' L' where A: "lawn2_add (l2_l s) h (unat i) ttl = Some (l', h')" "lawn2_inv l' h' (Q(ttl := Q ttl @ [unat i])) L'"
      "l2_now l' = l2_now (l2_l s)" "armed h' = (armed h)(unat i \<mapsto> unat (l2_now (l2_l s)) + unat ttl)" "ids h' = ids h"
    using lawn2_add_correct [OF i0 T(5) idle, of ttl] nov unfolding l2_now_of_def by blast
  have "l2_live_of \<lparr>l2_l = l', l2_st = st, l2_heap = h'\<rparr> = (l2_live_of s)(i \<mapsto> l2_now_of s + unat ttl)"
    using A(4) T(4) by (auto simp: l2_live_of_def fun_eq_iff l2_now_of_def word_unat_eq_iff)
  then show ?thesis using T(1) A nodes_ok_ids [OF T(2) A(5)]
    by (auto simp: l2_inv_def l2_now_of_def lawn2_wf_def)
qed

lemma l2_stop_ok:
  assumes s: "l2_inv s"
  shows "\<exists>s'. l2_stop s i = Some (l2_live_of s i \<noteq> None, s') \<and> l2_inv s' \<and> l2_now_of s' = l2_now_of s \<and>
     l2_live_of s' = (l2_live_of s)(i := None)"
proof -
  have wf: "lawn2_wf (l2_l s) (l2_heap s)" and nd: "nodes_ok (l2_st s) (l2_heap s)" using s by (simp_all add: l2_inv_def)
  obtain st h t where T: "timer_for (l2_st s) (l2_heap s) i = Some (st, h, unat i)" "nodes_ok st h"
      "l2_heap s \<subseteq>\<^sub>m h" "armed h = armed (l2_heap s)" "h (unat i) = Some t"
    using timer_for_spec [OF nd] by blast
  have wf': "lawn2_wf (l2_l s) h" using lawn2_wf_extend [OF wf T(3,4)] .
  have live: "l2_live_of s i \<noteq> None \<longleftrightarrow> tm_in_store t"
    unfolding l2_live_of_def T(4) [symmetric] using T(5) by (simp add: armed_def)
  show ?thesis
  proof (cases "tm_in_store t")
    case False
    have "l2_live_of (s\<lparr>l2_st := st, l2_heap := h\<rparr>) = (l2_live_of s)(i := None)"
      using live False T(4) by (auto simp: l2_live_of_def fun_eq_iff)
    then show ?thesis using live False T wf' by (auto simp: l2_stop_def l2_inv_def l2_now_of_def)
  next
    case True
    obtain Q L where i0: "lawn2_inv (l2_l s) h Q L" using wf' by (auto simp: lawn2_wf_def)
    obtain l' h' Q' L' where D: "lawn2_del (l2_l s) h (unat i) = Some (l', h')" "lawn2_inv l' h' Q' L'"
        "l2_now l' = l2_now (l2_l s)" "armed h' = (armed h)(unat i := None)" "ids h' = ids h"
      using lawn2_del_correct [OF i0 T(5) True] by blast
    have "l2_live_of \<lparr>l2_l = l', l2_st = st, l2_heap = h'\<rparr> = (l2_live_of s)(i := None)"
      using D(4) T(4) by (auto simp: l2_live_of_def fun_eq_iff word_unat_eq_iff)
    then show ?thesis using live True T D nodes_ok_ids [OF T(2) D(5)]
      by (auto simp: l2_stop_def l2_inv_def l2_now_of_def lawn2_wf_def)
  qed
qed

lemma l2_tick_ok:
  assumes s: "l2_inv s" and now: "l2_now_of s + 1 < 2 ^ 64"
  shows "\<exists>s'. l2_tick s = Some (of_nat (card (due (l2_live_of s) (Suc (l2_now_of s)))), s') \<and> l2_inv s' \<and>
     l2_now_of s' = Suc (l2_now_of s) \<and> l2_live_of s' = later (l2_live_of s) (Suc (l2_now_of s))"
proof -
  have wf: "lawn2_wf (l2_l s) (l2_heap s)" and nd: "nodes_ok (l2_st s) (l2_heap s)" using s by (simp_all add: l2_inv_def)
  obtain r l' h' out' where T: "lawn2_tick (l2_l s) (l2_heap s) (Some None) = Some (r, l', h', out')"
      "expiry_ok (l2_heap s) (l2_now (l2_l s) + 1) (Some None) (r, l', h', out')" "lawn2_wf l' h'" "l2_now l' = l2_now (l2_l s) + 1"
    using lawn2_tick_spec [OF wf, of "Some None"] now by (auto simp: l2_now_of_def)
  have n1: "unat (l2_now (l2_l s) + 1) = Suc (l2_now_of s)" using now by (simp add: l2_now_of_def unat_Suc64)
  note E = expiry_ok_armed [OF T(2), unfolded n1]
  have "r = of_nat (card (due (l2_live_of s) (Suc (l2_now_of s))))"
    using E card_ids [OF nd, of "\<lambda>e. e \<le> Suc (l2_now_of s)"] by (simp add: due_def l2_live_of_def)
  moreover have "l2_live_of (s\<lparr>l2_l := l', l2_heap := h'\<rparr>) = later (l2_live_of s) (Suc (l2_now_of s))"
    using E by (auto simp: l2_live_of_def fun_eq_iff later_eq restrict_map_def split: option.splits)
  ultimately show ?thesis
    using T nodes_ok_ids [OF nd ident_ids [OF expiry_ok_ident [OF T(2)]]] n1
    by (auto simp: l2_tick_def l2_inv_def l2_now_of_def)
qed

lemma l2_advance_ok:
  assumes s: "l2_inv s" and t: "l2_now_of s \<le> unat t"
  shows "\<exists>s'. l2_advance s t = Some s' \<and> l2_inv s' \<and> l2_now_of s' = unat t \<and> l2_live_of s' = l2_live_of s"
  using s t lawn2_inv_later
  by (fastforce simp: l2_advance_def lawn2_set_now_def l2_inv_def l2_now_of_def l2_live_of_def lawn2_wf_def)

interpretation l2: timer_store cts_lawn2_vtable l2_inv l2_now_of l2_live_of "\<lambda>t. t" "2 ^ 64" "2 ^ 64"
proof unfold_locales
  show "\<exists>s'. vt_start cts_lawn2_vtable s i t = Some s' \<and> l2_inv s' \<and> l2_now_of s' = l2_now_of s \<and>
        l2_live_of s' = (l2_live_of s)(i \<mapsto> l2_now_of s + unat t)"
    if "l2_inv s" "l2_live_of s i = None" "l2_now_of s + unat t < 2 ^ 64" for s i t
    using start_ok [OF that] by (simp add: cts_lawn2_vtable_def l2_start_def)
qed (auto simp: cts_lawn2_vtable_def l2_create_ok l2_finite l2_stop_ok l2_tick_ok l2_size_card l2_advance_ok simp del: not_None_eq)

interpretation l2c: timer_store cts_lawn2_clamped_vtable l2_inv l2_now_of l2_live_of clamp_timer_ttl "2 ^ 64" "2 ^ 64"
proof unfold_locales
  show "\<exists>s'. vt_start cts_lawn2_clamped_vtable s i t = Some s' \<and> l2_inv s' \<and> l2_now_of s' = l2_now_of s \<and>
        l2_live_of s' = (l2_live_of s)(i \<mapsto> l2_now_of s + unat (clamp_timer_ttl t))"
    if "l2_inv s" "l2_live_of s i = None" "l2_now_of s + unat (clamp_timer_ttl t) < 2 ^ 64" for s i t
    using start_ok [OF that] by (simp add: cts_lawn2_clamped_vtable_def l2c_start_def)
qed (auto simp: cts_lawn2_clamped_vtable_def l2_create_ok l2_finite l2_stop_ok l2_tick_ok l2_size_card l2_advance_ok simp del: not_None_eq)

section \<open>Clamping\<close>

lemma unat_and_not_mask: "unat ((x :: u64) AND NOT (mask k)) = unat x div 2 ^ k * 2 ^ k"
proof -
  have "x AND NOT (mask k) = push_bit k (drop_bit k x)"
    by (rule bit_word_eqI) (auto simp: bit_simps)
  also have "unat \<dots> = take_bit 64 (push_bit k (drop_bit k (unat x)))"
    by (simp add: unsigned_push_bit_eq unat_drop_bit_eq)
  also have "push_bit k (drop_bit k (unat x)) = unat x div 2 ^ k * 2 ^ k"
    by (simp add: push_bit_eq_mult drop_bit_eq_div)
  also have "take_bit 64 (unat x div 2 ^ k * 2 ^ k) = unat x div 2 ^ k * 2 ^ k"
  proof -
    have "unat x div 2 ^ k * 2 ^ k \<le> unat x" by simp
    also have "\<dots> < 2 ^ 64" by simp
    finally show ?thesis by (simp add: take_bit_nat_eq_self)
  qed
  finally show ?thesis .
qed

text \<open>Rounding up to a multiple of \<open>2 ^ k\<close>, with the wrap-around.\<close>

definition round_up :: "nat \<Rightarrow> nat \<Rightarrow> nat" where
  "round_up k n = (n + (2 ^ k - 1)) div 2 ^ k * 2 ^ k"

lemma word_round_up:
  assumes "unat (x :: u64) + (2 ^ k - 1) < 2 ^ 64" "k < 64"
  shows "unat ((x + (push_bit k 1 - 1)) AND NOT (push_bit k 1 - 1)) = round_up k (unat x)"
proof -
  have m: "(push_bit k 1 - 1 :: u64) = mask k" by (simp add: mask_eq_exp_minus_1 push_bit_of_1)
  have "unat (mask k :: u64) = 2 ^ k - 1" using assms(2) by (rule unat_mask64)
  then have "unat (x + mask k) = unat x + (2 ^ k - 1)" using assms(1) by (simp add: unat_add_small)
  then show ?thesis unfolding m unat_and_not_mask round_up_def by simp
qed

lemma round_up_bounds: "n \<le> round_up k n" "round_up k n < n + 2 ^ k" "2 ^ k dvd round_up k n"
proof -
  define m :: nat where "m = 2 ^ k"
  have m: "0 < m" by (simp add: m_def)
  have e: "round_up k n = (n + (m - 1)) - (n + (m - 1)) mod m"
    unfolding round_up_def m_def by (simp add: minus_mod_eq_div_mult)
  have "(n + (m - 1)) mod m < m" "(n + (m - 1)) mod m \<le> n + (m - 1)" using m by simp_all
  then show "n \<le> round_up k n" "round_up k n < n + 2 ^ k" unfolding e m_def [symmetric] using m by linarith+
  show "2 ^ k dvd round_up k n" by (simp add: round_up_def)
qed

lemma round_up_dvd: "2 ^ k dvd n \<Longrightarrow> round_up k n = n"
proof -
  assume "2 ^ k dvd n"
  then obtain q where q: "n = 2 ^ k * q" by blast
  have "(2 ^ k - 1) div 2 ^ k = (0 :: nat)" by (rule div_less) simp
  then have "(2 ^ k * q + (2 ^ k - 1)) div 2 ^ k = q" by (subst div_mult_self4) simp_all
  then show ?thesis by (simp add: round_up_def q)
qed

text \<open>The shift of the level that a TTL falls in: the resolution of its bucket.\<close>

definition clamp_shift :: "nat \<Rightarrow> nat" where
  "clamp_shift n = (if n < 2 ^ 6 then 0 else if n < 2 ^ 9 then 3 else if n < 2 ^ 12 then 6 else if n < 2 ^ 15 then 9
     else if n < 2 ^ 18 then 12 else if n < 2 ^ 21 then 15 else if n < 2 ^ 24 then 18 else if n < 2 ^ 27 then 21 else 24)"

lemma clamp_eq:
  assumes "unat ttl + (2 ^ 24 - 1) < 2 ^ 64"
  shows "unat (clamp_timer_ttl ttl) = round_up (clamp_shift (unat ttl)) (unat ttl)"
proof -
  have push: "unat (push_bit k 1 :: u64) = 2 ^ k" if "k < 64" for k
    using unat_exp64 [OF that] by (simp add: push_bit_of_1)
  have lt: "ttl < push_bit k 1 \<longleftrightarrow> unat ttl < 2 ^ k" if "k < 64" for k
    using push [OF that] by (simp add: word_less_nat_alt)
  have up: "[1..<LVL_DEPTH - 1] = [1, 2, 3, 4, 5, 6, 7]" by (simp add: LVL_DEPTH_def upt_rec)
  have ru: "unat ((ttl + (push_bit k 1 - 1)) AND NOT (push_bit k 1 - 1)) = round_up k (unat ttl)" if "k \<le> 24" for k
  proof (rule word_round_up)
    have "(2 :: nat) ^ k \<le> 2 ^ 24" using that by (intro power_increasing) simp_all
    then show "unat ttl + (2 ^ k - 1) < 2 ^ 64" using assms by linarith
  qed (use that in simp)
  show ?thesis
    unfolding clamp_timer_ttl_def up
    by (simp add: clamp_shift_def Let_def LVL_BITS_def LVL_CLK_SHIFT_def LVL_DEPTH_def lt ru round_up_dvd del: push_bit_of_1)
qed

lemma clamp_shift_level:
  "clamp_shift n = 0 \<and> n < 64 \<or>
   clamp_shift n \<in> {3, 6, 9, 12, 15, 18, 21} \<and> 2 ^ (clamp_shift n + 3) \<le> n \<and> n < 2 ^ (clamp_shift n + 6) \<or>
   clamp_shift n = 24 \<and> 2 ^ 27 \<le> n"
  by (simp add: clamp_shift_def)

lemma clamp_shift_max: "k \<in> {3, 6, 9, 12, 15, 18, 21} \<Longrightarrow> clamp_shift (2 ^ (k + 6)) = k + 3"
  by (auto simp: clamp_shift_def)

lemma clamp_shift_in: "k \<in> {3, 6, 9, 12, 15, 18, 21} \<Longrightarrow> 2 ^ (k + 3) \<le> n \<Longrightarrow> n < 2 ^ (k + 6) \<Longrightarrow> clamp_shift n = k"
  by (auto simp: clamp_shift_def)

lemma clamp_shift_le: "clamp_shift n \<le> 24" "clamp_shift n \<noteq> 0 \<Longrightarrow> 2 ^ clamp_shift n * 8 \<le> n"
  by (auto simp: clamp_shift_def split: if_splits)

text \<open>A rounded TTL lies on a boundary of its own level too.\<close>

lemma clamp_shift_round: "2 ^ clamp_shift (round_up (clamp_shift n) n) dvd round_up (clamp_shift n) n"
proof -
  let ?k = "clamp_shift n"
  let ?m = "round_up ?k n"
  have b: "n \<le> ?m" "?m < n + 2 ^ ?k" "2 ^ ?k dvd ?m" by (rule round_up_bounds)+
  consider "?k = 0" "n < 64" | "?k \<in> {3, 6, 9, 12, 15, 18, 21}" "2 ^ (?k + 3) \<le> n" "n < 2 ^ (?k + 6)" | "?k = 24" "2 ^ 27 \<le> n"
    using clamp_shift_level [of n] by meson
  then show ?thesis
  proof cases
    case 1
    then have "?m = n" by (simp add: round_up_dvd)
    then show ?thesis using 1 by simp
  next
    case 2
    show ?thesis
    proof (cases "?m < 2 ^ (?k + 6)")
      case True
      then have "clamp_shift ?m = ?k" using 2 b(1) by (intro clamp_shift_in) auto
      then show ?thesis using b(3) by simp
    next
      case False
      obtain q where q: "?m = 2 ^ ?k * q" using b(3) by blast
      have "n < 2 ^ ?k * 64" using 2(3) by (simp add: power_add)
      then have "2 ^ ?k * q < 2 ^ ?k * 64 + 2 ^ ?k" using b(2) q by linarith
      also have "\<dots> = 2 ^ ?k * 65" by simp
      finally have "q < 65" by simp
      moreover have "2 ^ ?k * 64 \<le> 2 ^ ?k * q" using False q by (simp add: power_add)
      then have "64 \<le> q" by simp
      ultimately have "?m = 2 ^ (?k + 6)" using q by (simp add: power_add)
      then show ?thesis using clamp_shift_max [OF 2(1)] by (simp add: le_imp_power_dvd)
    qed
  next
    case 3
    then have "clamp_shift ?m = 24" using b(1) by (auto simp: clamp_shift_def)
    then show ?thesis using b(3) 3 by simp
  qed
qed

lemma round_up_less64:
  assumes "n + (2 ^ 24 - 1) < 2 ^ 64"
  shows "round_up (clamp_shift n) n + (2 ^ 24 - 1) < 2 ^ 64"
proof (cases "clamp_shift n = 24")
  case True
  have b: "round_up 24 n < n + 2 ^ 24" "2 ^ 24 dvd round_up 24 n" by (rule round_up_bounds)+
  obtain q where q: "round_up 24 n = 2 ^ 24 * q" using b(2) by blast
  then have "2 ^ 24 * q < 2 ^ 24 * 2 ^ 40" using b(1) assms by simp
  then have "q < 2 ^ 40" by simp
  then have "q \<le> 2 ^ 40 - 1" by simp
  then have "2 ^ 24 * q \<le> 2 ^ 24 * (2 ^ 40 - 1)" by (rule mult_le_mono2)
  then show ?thesis using True q by simp
next
  case False
  then have "n < 2 ^ 27" using clamp_shift_level [of n] by auto
  moreover have "round_up (clamp_shift n) n < n + 2 ^ clamp_shift n" by (rule round_up_bounds)
  moreover have "(2 :: nat) ^ clamp_shift n \<le> 2 ^ 24" using clamp_shift_le(1) by (intro power_increasing) simp_all
  ultimately show ?thesis by simp
qed

lemma clamp_loop_skip:
  "(\<And>l. l \<in> set ls \<Longrightarrow> \<not> ttl < push_bit (LVL_BITS + l * LVL_CLK_SHIFT) 1) \<Longrightarrow> clamp_loop ls ttl = clamp_loop [] ttl"
proof (induction ls)
  case (Cons l ls)
  have "clamp_loop (l # ls) ttl = clamp_loop ls ttl"
    using Cons.prems [of l] by (simp only: clamp_loop.simps Let_def if_False list.set_intros simp_thms)
  then show ?case using Cons by simp
qed simp

end
