(* ===== verification/Lawn2_Theorems.thy ===== *)
theory Lawn2_Theorems
  imports Lawn2_Store
begin

text \<open>
  What the lawn2 store of src/lawn2.c promises its callers, one theorem per promise. The state of a
  store is \<open>armed h\<close>, the timers it holds with their absolute deadlines; \<open>lawn2_wf\<close> is its
  representation invariant.
\<close>

text \<open>Two timers fresh from the block store, and a store with the first one armed.\<close>

definition two_timers :: timers where
  "two_timers = [1 \<mapsto> \<lparr>tm_ttl = 0, tm_expiration = 0, tm_next = None, tm_prev = None, tm_in_store = False, tm_id = 1\<rparr>,
                 2 \<mapsto> \<lparr>tm_ttl = 0, tm_expiration = 0, tm_next = None, tm_prev = None, tm_in_store = False, tm_id = 2\<rparr>]"

lemma two_timers_idle: "armed two_timers = Map.empty"
  by (auto simp: two_timers_def armed_def fun_eq_iff)

lemma lawn2_new_wf: "armed h = Map.empty \<Longrightarrow> lawn2_wf lawn2_new h"
  using lawn2_new_inv by (auto simp: lawn2_wf_def)

lemma one_armed:
  "\<exists>l h. lawn2_add lawn2_new two_timers 1 5 = Some (l, h) \<and> lawn2_wf l h \<and> l2_now l = 0 \<and> armed h = [1 \<mapsto> 5]"
  using lawn2_add_correct [OF lawn2_new_inv [OF two_timers_idle], of 1 _ 5] two_timers_idle
  by (auto simp: two_timers_def lawn2_wf_def lawn2_new_def)

lemma one_armed_now:
  "\<exists>l h. lawn2_add lawn2_new two_timers 1 1 = Some (l, h) \<and> lawn2_wf l h \<and> l2_now l = 0 \<and> armed h = [1 \<mapsto> 1]"
  using lawn2_add_correct [OF lawn2_new_inv [OF two_timers_idle], of 1 _ 1] two_timers_idle
  by (auto simp: two_timers_def lawn2_wf_def lawn2_new_def)

text \<open>
  C1: lawn2_add on a well-formed store and a timer that is not in a store returns without touching
  any memory but the store and its timers, keeps the invariant, arms exactly that timer with the
  deadline now + ttl, adds one to the size and lowers next_expiration to that deadline if needed.
\<close>

theorem lawn2_add_arms:
  assumes "lawn2_wf l h" and "h n = Some t" and "\<not> tm_in_store t" and "unat (l2_now l) + unat ttl < 2 ^ 64"
  shows "\<exists>l' h'. lawn2_add l h n ttl = Some (l', h') \<and> lawn2_wf l' h' \<and>
     armed h' = (armed h)(n \<mapsto> unat (l2_now l) + unat ttl) \<and> l2_now l' = l2_now l \<and>
     lawn2_size l' = lawn2_size l + 1 \<and> l2_next_expiration l' = min (l2_next_expiration l) (l2_now l + ttl)"
proof -
  obtain Q L where i: "lawn2_inv l h Q L" using assms(1) by (auto simp: lawn2_wf_def)
  obtain l' h' L' where r: "lawn2_add l h n ttl = Some (l', h')" "lawn2_inv l' h' (Q(ttl := Q ttl @ [n])) L'"
      "l2_now l' = l2_now l" "armed h' = (armed h)(n \<mapsto> unat (l2_now l) + unat ttl)"
      "l2_next_expiration l' = min (l2_next_expiration l) (l2_now l + ttl)"
    using lawn2_add_correct [OF i assms(2-4)] by blast
  have "armed h n = None" using assms(2,3) by (simp add: armed_def)
  then have "lawn2_size l' = lawn2_size l + 1"
    using lawn2_invD(9,10) [OF i] lawn2_invD(10) [OF r(2)] r(4) card_dom_insert [of "armed h" n]
    by (simp add: lawn2_size_def)
  then show ?thesis using r by (auto simp: lawn2_wf_def)
qed

lemma lawn2_add_arms_witness:
  "\<exists>l' h'. lawn2_add lawn2_new two_timers 1 5 = Some (l', h') \<and> armed h' = [1 \<mapsto> 5] \<and> lawn2_size l' = 1"
  using lawn2_add_arms [OF lawn2_new_wf [OF two_timers_idle], of 1 _ 5] two_timers_idle
  by (auto simp: two_timers_def lawn2_new_def lawn2_size_def)

text \<open>
  C2: lawn2_del returns, disarms exactly the given timer when it is armed and changes nothing when
  it is not (which includes a timer that has fired), keeps the invariant and the clock, and the
  size is again the number of armed timers.
\<close>

theorem lawn2_del_disarms:
  assumes "lawn2_wf l h" and "h n = Some t"
  shows "\<exists>l' h'. lawn2_del l h n = Some (l', h') \<and> lawn2_wf l' h' \<and> armed h' = (armed h)(n := None) \<and>
     l2_now l' = l2_now l \<and> l2_next_expiration l' = l2_next_expiration l \<and>
     lawn2_size l' = (if tm_in_store t then lawn2_size l - 1 else lawn2_size l)"
proof (cases "tm_in_store t")
  case False
  then have "(armed h)(n := None) = armed h" using assms(2) by (auto simp: armed_def fun_eq_iff)
  then show ?thesis using assms False by (simp add: lawn2_del_idle)
next
  case True
  obtain Q L where i: "lawn2_inv l h Q L" using assms(1) by (auto simp: lawn2_wf_def)
  obtain l' h' Q' L' where r: "lawn2_del l h n = Some (l', h')" "lawn2_inv l' h' Q' L'" "l2_now l' = l2_now l"
      "armed h' = (armed h)(n := None)" "l2_next_expiration l' = l2_next_expiration l"
    using lawn2_del_correct [OF i assms(2) True] by blast
  have "armed h n \<noteq> None" using assms(2) True by (simp add: armed_def)
  then have "lawn2_size l = lawn2_size l' + 1"
    using lawn2_invD(9,10) [OF i] lawn2_invD(10) [OF r(2)] r(4) card_dom_remove [of "armed h" n]
    by (metis add.commute lawn2_size_def of_nat_Suc)
  then show ?thesis using r True by (auto simp: lawn2_wf_def)
qed

lemma lawn2_del_disarms_witness:
  "\<exists>l h l' h'. lawn2_add lawn2_new two_timers 1 5 = Some (l, h) \<and> armed h = [1 \<mapsto> 5] \<and>
     lawn2_del l h 1 = Some (l', h') \<and> armed h' = Map.empty"
proof -
  obtain l h where a: "lawn2_add lawn2_new two_timers 1 5 = Some (l, h)" "lawn2_wf l h" "armed h = [1 \<mapsto> 5]"
    using one_armed by blast
  obtain t where "h 1 = Some t" using fun_cong [OF a(3), of 1] by (cases "h 1") (auto simp: armed_def)
  then show ?thesis using lawn2_del_disarms [OF a(2), of 1] a by fastforce
qed

text \<open>
  C3: lawn2_tick moves the clock by one and fires exactly the armed timers whose deadline has been
  reached: it returns their number, disarms them and nothing else, threads them through the output
  list, and changes no timer's TTL, deadline or id.
\<close>

theorem lawn2_tick_fires:
  assumes "lawn2_wf l h" and "unat (l2_now l) + 1 < 2 ^ 64"
  shows "\<exists>fired l' h' out'. lawn2_tick l h out = Some (fired, l', h', out') \<and> lawn2_wf l' h' \<and>
     l2_now l' = l2_now l + 1 \<and>
     armed h' = armed h |` {a. \<forall>e. armed h a = Some e \<longrightarrow> unat (l2_now l) + 1 < e} \<and>
     fired = of_nat (card {a. \<exists>e. armed h a = Some e \<and> e \<le> unat (l2_now l) + 1}) \<and>
     ident h' = ident h \<and>
     (\<exists>fs. set fs = {a. \<exists>e. armed h a = Some e \<and> e \<le> unat (l2_now l) + 1} \<and> distinct fs \<and>
        (case out of None \<Rightarrow> out' = None | Some _ \<Rightarrow> \<exists>p. out' = Some p \<and> chain h' p fs))"
proof -
  obtain r l' h' out' where T: "lawn2_tick l h out = Some (r, l', h', out')"
      "expiry_ok h (l2_now l + 1) out (r, l', h', out')" "lawn2_wf l' h'" "l2_now l' = l2_now l + 1"
    using lawn2_tick_spec [OF assms, of out] by blast
  have n1: "unat (l2_now l + 1) = unat (l2_now l) + 1" using assms(2) by (simp add: unat_Suc64)
  note A = expiry_ok_armed [OF T(2), unfolded n1]
  obtain fs where "distinct fs" "set fs = {a. \<exists>e. armed h a = Some e \<and> e \<le> unat (l2_now l) + 1}"
      "case out of None \<Rightarrow> out' = None | Some _ \<Rightarrow> \<exists>p. out' = Some p \<and> chain h' p (rev fs)"
    using T(2) unfolding expiry_ok_def n1 by blast
  then have "\<exists>fs. set fs = {a. \<exists>e. armed h a = Some e \<and> e \<le> unat (l2_now l) + 1} \<and> distinct fs \<and>
        (case out of None \<Rightarrow> out' = None | Some _ \<Rightarrow> \<exists>p. out' = Some p \<and> chain h' p fs)"
    by (intro exI [of _ "rev fs"]) simp
  then show ?thesis using T A expiry_ok_ident [OF T(2)] by blast
qed

lemma lawn2_tick_fires_witness:
  "\<exists>l h fired l' h' out'. lawn2_add lawn2_new two_timers 1 1 = Some (l, h) \<and>
     lawn2_tick l h (Some None) = Some (fired, l', h', out') \<and> fired = 1 \<and> armed h' = Map.empty \<and> out' = Some (Some 1)"
proof -
  obtain l h where a: "lawn2_add lawn2_new two_timers 1 1 = Some (l, h)" "lawn2_wf l h" "l2_now l = 0" "armed h = [1 \<mapsto> 1]"
    using one_armed_now by blast
  then have due: "{a. \<exists>e. armed h a = Some e \<and> e \<le> unat (l2_now l) + 1} = {1}" by (auto split: if_splits)
  obtain fired l' h' out' fs where r: "lawn2_tick l h (Some None) = Some (fired, l', h', out')"
      "armed h' = armed h |` {a. \<forall>e. armed h a = Some e \<longrightarrow> unat (l2_now l) + 1 < e}" "fired = of_nat (card {1 :: addr})"
      "set fs = {1}" "distinct fs" "\<exists>p. out' = Some p \<and> chain h' p fs"
    using lawn2_tick_fires [OF a(2), of "Some None"] a(3) unfolding due by auto
  have "fs = [1]" using r(4,5) distinct_card [of fs] by (cases fs; cases "tl fs") auto
  then have "out' = Some (Some 1)" using r(6) by auto
  moreover have "armed h' = Map.empty" using r(2) a(3,4) by (auto simp: restrict_map_def)
  ultimately show ?thesis using a(1) r(1,3) by (intro exI conjI) auto
qed

text \<open>
  C4: advancing the clock to target_now is the same as ticking up to it (the claim of lawn2.h):
  same number of fired timers, same armed timers, same clock,
  same timer data.
\<close>

theorem lawn2_advance_is_ticks:
  assumes "lawn2_wf l h" and "l2_now l < target"
  shows "\<exists>fired l1 h1 l2 h2. lawn2_advance l h target None = Some (fired, l1, h1, None) \<and>
     ticks (unat target - unat (l2_now l)) l h = Some (fired, l2, h2) \<and>
     armed h1 = armed h2 \<and> l2_now l1 = l2_now l2 \<and> lawn2_size l1 = lawn2_size l2 \<and> ident h1 = ident h2 \<and>
     lawn2_wf l1 h1 \<and> lawn2_wf l2 h2"
proof -
  have lt: "unat (l2_now l) < unat target" using assms(2) by (simp add: word_less_nat_alt)
  obtain r l1 h1 o1 where A: "lawn2_advance l h target None = Some (r, l1, h1, o1)"
      "expiry_ok h target None (r, l1, h1, o1)" "lawn2_wf l1 h1" "l2_now l1 = target"
    using lawn2_advance_spec [OF assms(1,2), of None] by blast
  have "unat (l2_now l) + (unat target - unat (l2_now l)) = unat target" using lt by simp
  then obtain l2 h2 where T:
      "ticks (unat target - unat (l2_now l)) l h = Some (of_nat (card {a. \<exists>e. armed h a = Some e \<and> e \<le> unat target}), l2, h2)"
      "lawn2_wf l2 h2" "unat (l2_now l2) = unat target" "ident h2 = ident h"
      "armed h2 = armed h |` {a. \<forall>e. armed h a = Some e \<longrightarrow> unat target < e}"
    using ticks_spec [OF assms(1), of "unat target - unat (l2_now l)"] lt by auto
  note E = expiry_ok_armed [OF A(2)]
  have "o1 = None" using A(2) by (auto simp: expiry_ok_def)
  moreover have "l2_now l2 = target" using T(3) by (simp add: word_unat_eq_iff)
  moreover have "lawn2_size l1 = lawn2_size l2"
    using A(3) T(2,5) E by (auto simp: lawn2_wf_def lawn2_inv_def lawn2_size_def)
  ultimately show ?thesis using A T E expiry_ok_ident [OF A(2)]
    by (intro exI [of _ r] exI [of _ l1] exI [of _ h1] exI [of _ l2] exI [of _ h2]) simp
qed

lemma lawn2_advance_is_ticks_witness:
  "\<exists>l h l1 h1 l2 h2. lawn2_add lawn2_new two_timers 1 5 = Some (l, h) \<and>
     lawn2_advance l h 7 None = Some (1, l1, h1, None) \<and> ticks 7 l h = Some (1, l2, h2) \<and> armed h1 = armed h2"
proof -
  obtain l h where a: "lawn2_add lawn2_new two_timers 1 5 = Some (l, h)" "lawn2_wf l h" "l2_now l = 0" "armed h = [1 \<mapsto> 5]"
    using one_armed by blast
  have now: "unat (l2_now l) = 0" "l2_now l < 7" using a(3) by simp_all
  obtain r l1 h1 l2 h2 where r: "lawn2_advance l h 7 None = Some (r, l1, h1, None)"
      "ticks (unat (7 :: u64) - unat (l2_now l)) l h = Some (r, l2, h2)" "armed h1 = armed h2"
    using lawn2_advance_is_ticks [OF a(2) now(2)] by blast
  obtain r' l1' h1' o1 where A: "lawn2_advance l h 7 None = Some (r', l1', h1', o1)"
      "expiry_ok h 7 None (r', l1', h1', o1)"
    using lawn2_advance_spec [OF a(2) now(2), of None] by blast
  have "{x. \<exists>e. armed h x = Some e \<and> e \<le> unat (7 :: u64)} = {1}" using a(4) by auto
  then have "r = 1" using expiry_ok_armed [OF A(2)] A(1) r(1) by simp
  then show ?thesis using a(1) r now(1) by auto
qed

text \<open>
  C5: the value lawn2_next_expiration returns is a lower bound on the deadline of every armed timer;
  right after a tick that scanned the blades (the bound had been reached) it is exactly the earliest
  deadline, or UINT64_MAX for an empty store.
\<close>

theorem lawn2_next_expiration_bound:
  assumes "lawn2_wf l h" and "unat (l2_now l) + 1 < 2 ^ 64"
  shows "(\<forall>a e. armed h a = Some e \<longrightarrow> unat (lawn2_next_expiration (Some l)) \<le> e) \<and>
     (lawn2_next_expiration (Some l) \<le> l2_now l + 1 \<longrightarrow>
       (\<exists>fired l' h' out'. lawn2_tick l h out = Some (fired, l', h', out') \<and>
         (if armed h' = Map.empty then lawn2_next_expiration (Some l') = - 1
          else \<exists>a. armed h' a = Some (unat (lawn2_next_expiration (Some l'))) \<and>
                 (\<forall>b e. armed h' b = Some e \<longrightarrow> unat (lawn2_next_expiration (Some l')) \<le> e))))"
proof -
  obtain Q L where i0: "lawn2_inv l h Q L" using assms(1) by (auto simp: lawn2_wf_def)
  have i: "lawn2_inv (l\<lparr>l2_now := l2_now l + 1\<rparr>) h Q L"
    using assms(2) by (intro lawn2_inv_later [OF i0]) (simp_all add: unat_Suc64)
  obtain r l' h' out' where C: "collect_expired (l\<lparr>l2_now := l2_now l + 1\<rparr>) h (l2_now l + 1) out = Some (r, l', h', out')"
     "lawn2_wf l' h'"
     "l2_now l + 1 < l2_next_expiration (l\<lparr>l2_now := l2_now l + 1\<rparr>) \<and> l' = l\<lparr>l2_now := l2_now l + 1\<rparr> \<or> armed h' = Map.empty \<and> l2_next_expiration l' = - 1 \<or>
      (\<exists>a. armed h' a = Some (unat (l2_next_expiration l')))"
    using collect_expired_correct [OF i, of "l2_now l + 1" out] by blast
  then have T: "lawn2_tick l h out = Some (r, l', h', out')" by (simp add: lawn2_tick_def Let_def)
  have low: "\<forall>b e. armed h' b = Some e \<longrightarrow> unat (l2_next_expiration l') \<le> e"
    using C(2) lawn2_invD(11) by (fastforce simp: lawn2_wf_def)
  show ?thesis
    using T C(3) low lawn2_invD(11) [OF i0] by (fastforce simp: lawn2_next_expiration_def not_le)
qed

lemma lawn2_next_expiration_bound_witness:
  "\<exists>l h. lawn2_add lawn2_new two_timers 1 5 = Some (l, h) \<and> unat (lawn2_next_expiration (Some l)) \<le> 5"
proof -
  obtain l h where a: "lawn2_add lawn2_new two_timers 1 5 = Some (l, h)" "lawn2_wf l h" "l2_now l = 0" "armed h = [1 \<mapsto> 5]"
    using one_armed by blast
  then show ?thesis using lawn2_next_expiration_bound [OF a(2)] by auto
qed

text \<open>
  C6: looking a TTL up in the blade table ends, at the blade of that TTL if there is one and
  otherwise at a free slot: the load limit of 0.7 leaves one.
\<close>

theorem find_slot_terminates:
  assumes "lawn2_wf l h"
  shows "\<exists>b < l2_cap l. find_slot l ttl = Some b \<and>
     (if \<exists>j < l2_cap l. bl_used (l2_tab l ! j) \<and> bl_ttl (l2_tab l ! j) = ttl
      then bl_used (l2_tab l ! b) \<and> bl_ttl (l2_tab l ! b) = ttl else \<not> bl_used (l2_tab l ! b))"
proof -
  obtain Q L where i: "lawn2_inv l h Q L" using assms by (auto simp: lawn2_wf_def)
  have p: "probe_ok l" and len: "length (l2_tab l) = l2_cap l"
    using lawn2_invD(1) [OF i] by (auto simp: probe_ok_length)
  obtain b where b: "find_slot l ttl = Some b" using inv_slot [OF i] by blast
  then show ?thesis
    using find_slot_hit [OF p b] find_slot_free [OF p b] len
    by (intro exI [of _ b]) (auto simp: hit_def)
qed

lemma find_slot_terminates_witness: "\<exists>b < 16. find_slot lawn2_new 7 = Some b"
  using find_slot_terminates [OF lawn2_new_wf [OF two_timers_idle], of 7] by (auto simp: lawn2_new_def)

text \<open>
  Grow rehashes: it returns, doubles the table, keeps the invariant and every armed timer, and
  afterwards looking up a TTL that was in the table finds a blade with the same queue.
\<close>

theorem grow_rehashes:
  assumes "lawn2_wf l h"
  shows "\<exists>l'. grow l = Some l' \<and> lawn2_wf l' h \<and> l2_cap l' = 2 * l2_cap l \<and> l2_count l' = l2_count l \<and>
     (\<forall>j < l2_cap l. bl_used (l2_tab l ! j) \<longrightarrow>
        (\<exists>b < l2_cap l'. find_slot l' (bl_ttl (l2_tab l ! j)) = Some b \<and> core (l2_tab l' ! b) = core (l2_tab l ! j)))"
proof -
  obtain Q L where i: "lawn2_inv l h Q L" using assms by (auto simp: lawn2_wf_def)
  obtain l1 L1 where g: "grow l = Some l1" "lawn2_inv l1 h Q L1" "l2_cap l1 = 2 * l2_cap l" "l2_count l1 = l2_count l"
      "entries (l2_tab l1) = entries (l2_tab l)"
    using grow_inv [OF i] by blast
  have len: "length (l2_tab l) = l2_cap l" "length (l2_tab l1) = l2_cap l1"
    using lawn2_invD(1) i g(2) probe_ok_length by blast+
  have "\<exists>b < l2_cap l1. find_slot l1 (bl_ttl (l2_tab l ! j)) = Some b \<and> core (l2_tab l1 ! b) = core (l2_tab l ! j)"
    if j: "j < l2_cap l" "bl_used (l2_tab l ! j)" for j
  proof -
    have "core (l2_tab l ! j) \<in> entries (l2_tab l1)" using j len g(5) by (auto simp: entries_def)
    then obtain b where b: "b < l2_cap l1" "bl_used (l2_tab l1 ! b)" "core (l2_tab l1 ! b) = core (l2_tab l ! j)"
      using len by (auto simp: entries_def)
    moreover have "bl_ttl (l2_tab l1 ! b) = bl_ttl (l2_tab l ! j)" using b(3) by (simp add: core_def)
    moreover have "find_slot l1 (bl_ttl (l2_tab l1 ! b)) = Some b"
      using lawn2_invD(1) [OF g(2)] b len by (simp add: probe_ok_def)
    ultimately show ?thesis by auto
  qed
  then show ?thesis using g by (auto simp: lawn2_wf_def)
qed

lemma grow_rehashes_witness: "\<exists>l'. grow lawn2_new = Some l' \<and> l2_cap l' = 32"
  using grow_rehashes [OF lawn2_new_wf [OF two_timers_idle]] by (auto simp: lawn2_new_def)

text \<open>
  timer_for always returns the node of the given id, at the same address in every call, and only
  ever adds idle nodes: the nodes that exist keep their contents and their addresses.
\<close>

theorem timer_for_stable:
  assumes "nodes_ok s h"
  shows "\<exists>s' h' t. timer_for s h i = Some (s', h', unat i) \<and> nodes_ok s' h' \<and>
     h' (unat i) = Some t \<and> tm_id t = i \<and> (\<forall>a \<in> dom h. h' a = h a) \<and> armed h' = armed h"
  using timer_for_spec [OF assms, of i] by (force simp: map_le_def)

lemma timer_for_stable_witness:
  "\<exists>s h t. timer_for init_store Map.empty 5000 = Some (s, h, 5000) \<and> h 5000 = Some t \<and> tm_id t = 5000"
proof -
  have "nodes_ok init_store Map.empty" by (simp add: nodes_ok_def init_store_def)
  then show ?thesis using timer_for_stable [of init_store Map.empty 5000] by auto
qed

text \<open>
  C7: the lawn2 adapter run on a legal workload (any interleaving of starts, stops, ticks, clock
  jumps and size queries) never leaves defined behaviour and answers every call as the abstract
  store does, whose deadlines are the start time plus the TTL.
\<close>

theorem lawn2_workload:
  assumes "legal_run (2 ^ 64) (2 ^ 64) (\<lambda>t. t) spec_init cs"
  shows "\<exists>s. vt_run cts_lawn2_vtable l2_create cs = Some (fst (spec_run (\<lambda>t. t) spec_init cs), s)"
  using l2.workload_correct [OF assms] by (simp add: cts_lawn2_vtable_def)

definition demo_workload :: "cmd list" where
  "demo_workload = [Start 7 2, Start 5000 1, Tick, Stop 5000, Stop 7, Start 7 3, Advance 2, Tick, Tick, Size]"

lemma demo_workload_spec:
  "fst (spec_run (\<lambda>t. t) spec_init demo_workload) =
     [Done, Done, Fired 1, Stopped False, Stopped True, Done, Done, Fired 0, Fired 1, Live 0]"
  "legal_run (2 ^ 64) (2 ^ 64) (\<lambda>t. t) spec_init demo_workload"
  by (simp_all add: demo_workload_def spec_init_def del: set_filter)

lemma lawn2_workload_witness:
  "\<exists>s. vt_run cts_lawn2_vtable l2_create demo_workload =
     Some ([Done, Done, Fired 1, Stopped False, Stopped True, Done, Done, Fired 0, Fired 1, Live 0], s)"
  using lawn2_workload [OF demo_workload_spec(2)] unfolding demo_workload_spec(1) .

text \<open>
  C8: the clamping adapter answers a legal workload as the abstract store in which every TTL has
  been rounded by clamp_timer_ttl.
\<close>

theorem lawn2_clamped_workload:
  assumes "legal_run (2 ^ 64) (2 ^ 64) clamp_timer_ttl spec_init cs"
  shows "\<exists>s. vt_run cts_lawn2_clamped_vtable l2_create cs = Some (fst (spec_run clamp_timer_ttl spec_init cs), s)"
  using l2c.workload_correct [OF assms] by (simp add: cts_lawn2_clamped_vtable_def)

lemma clamp_65: "clamp_timer_ttl 65 = 72"
proof -
  have "unat (clamp_timer_ttl 65) = 72" using clamp_eq [of 65] by (simp add: clamp_shift_def round_up_def)
  then show ?thesis by (simp add: word_unat_eq_iff)
qed

lemma lawn2_clamped_workload_witness:
  "\<exists>s. vt_run cts_lawn2_clamped_vtable l2_create [Start 7 65, Advance 70, Tick, Tick] = Some ([Done, Done, Fired 0, Fired 1], s)"
proof -
  have r: "fst (spec_run clamp_timer_ttl spec_init [Start 7 65, Advance 70, Tick, Tick]) = [Done, Done, Fired 0, Fired 1]"
    and l: "legal_run (2 ^ 64) (2 ^ 64) clamp_timer_ttl spec_init [Start 7 65, Advance 70, Tick, Tick]"
    by (simp_all add: spec_init_def clamp_65)
  show ?thesis using lawn2_clamped_workload [OF l] unfolding r .
qed

text \<open>Up to the bound, and in the last 2 ^ 24 - 1 TTLs, where the rounding wraps.\<close>

lemma clamp_fits:
  assumes "unat ttl + (2 ^ 24 - 1) < 2 ^ 64"
  shows "ttl \<le> clamp_timer_ttl ttl \<and> (unat (clamp_timer_ttl ttl) - unat ttl) * 8 \<le> unat ttl \<and>
     (ttl < 64 \<longrightarrow> clamp_timer_ttl ttl = ttl) \<and> clamp_timer_ttl (clamp_timer_ttl ttl) = clamp_timer_ttl ttl"
proof -
  let ?k = "clamp_shift (unat ttl)"
  let ?m = "round_up ?k (unat ttl)"
  have e: "unat (clamp_timer_ttl ttl) = ?m" using clamp_eq [OF assms] .
  have b: "unat ttl \<le> ?m" "?m < unat ttl + 2 ^ ?k" by (rule round_up_bounds)+
  have "unat (clamp_timer_ttl ttl) + (2 ^ 24 - 1) < 2 ^ 64" unfolding e by (rule round_up_less64 [OF assms])
  then have "unat (clamp_timer_ttl (clamp_timer_ttl ttl)) = unat (clamp_timer_ttl ttl)"
    using clamp_eq [of "clamp_timer_ttl ttl"] round_up_dvd [OF clamp_shift_round [of "unat ttl"]] by (simp add: e)
  moreover have "(?m - unat ttl) * 8 \<le> unat ttl" using b clamp_shift_le(2) [of "unat ttl"] by (cases "?k = 0") auto
  moreover have "clamp_timer_ttl ttl = ttl" if "ttl < 64" using that by (simp add: clamp_timer_ttl_def LVL_BITS_def)
  ultimately show ?thesis using b(1) e by (simp add: word_le_nat_alt word_unat_eq_iff)
qed

lemma clamp_wraps:
  assumes "2 ^ 64 - 2 ^ 24 < unat ttl"
  shows "clamp_timer_ttl ttl = 0"
proof -
  have push: "unat (push_bit k 1 :: u64) = 2 ^ k" if "k < 64" for k using unat_exp64 [OF that] by simp
  have ge: "\<not> ttl < push_bit k 1" if "k < 63" for k
  proof -
    have "(2 :: nat) ^ k \<le> 2 ^ 63" using that by (intro power_increasing) simp_all
    then have "\<not> unat ttl < 2 ^ k" using assms by simp
    then show ?thesis using push [of k] that by (simp add: word_less_nat_alt)
  qed
  have "push_bit 24 1 - 1 = (mask 24 :: u64)" by (simp add: mask_eq_exp_minus_1)
  have s: "unat (ttl + mask 24) = unat ttl + (2 ^ 24 - 1) - 2 ^ 64"
  proof -
    have "unat (ttl + mask 24) = (unat ttl + (2 ^ 24 - 1)) mod 2 ^ 64"
      unfolding unat_word_ariths unat_mask64 [of 24, simplified] by simp
    also have "\<dots> = (unat ttl + (2 ^ 24 - 1) - 2 ^ 64) mod 2 ^ 64" by (rule le_mod_geq) (use assms in linarith)
    also have "\<dots> = unat ttl + (2 ^ 24 - 1) - 2 ^ 64" 
    proof (rule mod_less)
      have "unat ttl < 18446744073709551616" by simp
      then have "unat ttl - 18446744073692774401 < 18446744073709551616" by linarith
      then show "unat ttl + (2 ^ 24 - 1) - 2 ^ 64 < 2 ^ 64" by simp
    qed
    finally show ?thesis .
  qed
  have "unat ttl < 18446744073709551616" by simp
  then have "unat ttl - 18446744073692774401 < 16777216" by linarith
  then have "unat (ttl + mask 24) < 2 ^ 24" by (simp add: s)
  then have "unat ((ttl + mask 24) AND NOT (mask 24)) = 0" by (simp only: unat_and_not_mask) simp
  then have z: "(ttl + (push_bit 24 1 - 1)) AND NOT (push_bit 24 1 - 1) = 0"
    by (simp add: word_unat_eq_iff mask_eq_exp_minus_1)
  have "clamp_loop [1..<LVL_DEPTH - 1] ttl = clamp_loop [] ttl"
    by (rule clamp_loop_skip, rule ge) (simp add: LVL_BITS_def LVL_CLK_SHIFT_def LVL_DEPTH_def)
  moreover have "(LVL_DEPTH - 1) * LVL_CLK_SHIFT = 24" by (simp add: LVL_DEPTH_def LVL_CLK_SHIFT_def)
  then have "clamp_loop [] ttl = 0" unfolding clamp_loop.simps Let_def using z by (simp only:)
  moreover have "\<not> ttl < push_bit LVL_BITS 1" by (rule ge) (simp add: LVL_BITS_def)
  ultimately show ?thesis by (simp only: clamp_timer_ttl_def if_False simp_thms)
qed

text \<open>
  C9: the rounding of clamp_timer_ttl, for every TTL. Up to 2 ^ 64 - 2 ^ 24 it never makes a timer
  early, delays it by at most an eighth of its TTL, and is exact below 64 ticks; above that bound
  adding the largest bucket wraps, and the clamped TTL is 0, so the timer is due at once, although
  the code's comment says that it never fires early. Rounding twice is rounding once.
\<close>

theorem clamp_ttl_rounds:
  "(if unat ttl \<le> 2 ^ 64 - 2 ^ 24
    then ttl \<le> clamp_timer_ttl ttl \<and> (unat (clamp_timer_ttl ttl) - unat ttl) * 8 \<le> unat ttl \<and>
      (ttl < 64 \<longrightarrow> clamp_timer_ttl ttl = ttl)
    else clamp_timer_ttl ttl = 0) \<and>
   clamp_timer_ttl (clamp_timer_ttl ttl) = clamp_timer_ttl ttl"
proof (cases "unat ttl \<le> 2 ^ 64 - 2 ^ 24")
  case True
  then have "unat ttl + (2 ^ 24 - 1) < 2 ^ 64" by simp
  from clamp_fits [OF this] True show ?thesis by simp
next
  case False
  then have "clamp_timer_ttl ttl = 0" by (intro clamp_wraps) linarith
  moreover have "clamp_timer_ttl 0 = 0" by (simp add: clamp_timer_ttl_def LVL_BITS_def)
  ultimately show ?thesis using False by simp
qed

lemma clamp_ttl_rounds_witness: "clamp_timer_ttl (- 1) = 0 \<and> (65 :: u64) \<le> clamp_timer_ttl 65"
  using clamp_ttl_rounds [of "- 1"] clamp_ttl_rounds [of 65] by (simp add: unsigned_minus_1_eq_mask mask_eq_exp_minus_1)

end
