(* ===== verification/Slots.thy ===== *)
theory Slots
  imports Store_Spec
begin

text \<open>
  Slots of ids with swap-removal, the data structure of the ring store src/benchmarks/c/impl/naive.c and the
  exact wheel src/benchmarks/c/impl/wheel_exact.c: each slot is a dynamic array of ids, and arrays
  indexed by the id hold the slot of the id and its position in it. Also the arrays that grow by
  doubling, which every store of the benchmark harness uses for its ids.
\<close>

section \<open>Arrays indexed by ids\<close>

text \<open>An element is undefined out of the range of the array and before it is first written.\<close>

definition rd :: "u64 \<Rightarrow> (u64 \<rightharpoonup> 'a) \<Rightarrow> u64 \<Rightarrow> 'a option" where
  "rd cap a i = (if i < cap then a i else None)"

definition wr :: "u64 \<Rightarrow> (u64 \<rightharpoonup> 'a) \<Rightarrow> u64 \<Rightarrow> 'a \<Rightarrow> (u64 \<rightharpoonup> 'a) option" where
  "wr cap a i v = (if i < cap then Some (a(i \<mapsto> v)) else None)"

lemma rd_wr [simp]: "i < cap \<Longrightarrow> rd cap a i = a i" "i < cap \<Longrightarrow> wr cap a i v = Some (a(i \<mapsto> v))"
  by (simp_all add: rd_def wr_def)

text \<open>while (x >= n) n <<= 1; it does not end when n becomes 0.\<close>

partial_function (option) double_past :: "u64 \<Rightarrow> u64 \<Rightarrow> u64 option" where
  "double_past x n = (if x \<ge> n then double_past x (push_bit 1 n) else Some n)"

declare double_past.simps [code]

text \<open>The size of an array in bytes is computed without a wrap-around.\<close>

definition alloc :: "u64 \<Rightarrow> nat \<Rightarrow> unit option" where
  "alloc n sz = (if unat n * sz < 2 ^ 64 then Some () else None)"

lemma double_past_spec:
  "unat x < 2 ^ m \<Longrightarrow> k \<le> m \<Longrightarrow> m < 64 \<Longrightarrow> \<exists>k' \<ge> k. k' \<le> m \<and> double_past x (2 ^ k) = Some (2 ^ k') \<and> unat x < 2 ^ k'"
proof (induction "m - k" arbitrary: k)
  case 0
  then have "\<not> x \<ge> 2 ^ k" using unat_exp64 [of k] by (simp add: word_le_nat_alt)
  then have "double_past x (2 ^ k) = Some (2 ^ k)" by (subst double_past.simps) (rule if_not_P)
  then show ?case using 0 by auto
next
  case (Suc d)
  show ?case
  proof (cases "x \<ge> 2 ^ k")
    case True
    have "push_bit 1 (2 ^ k :: u64) = 2 ^ Suc k" by (simp add: push_bit_eq_mult mult.commute)
    then have s: "double_past x (2 ^ k) = double_past x (2 ^ Suc k)" using True by (subst double_past.simps) (simp add: mult.commute)
    have "d = m - Suc k" "Suc k \<le> m" using Suc.hyps(2) by simp_all
    then obtain k' where "k' \<ge> Suc k" "k' \<le> m" "double_past x (2 ^ Suc k) = Some (2 ^ k')" "unat x < 2 ^ k'"
      using Suc.hyps(1) [of "Suc k"] Suc.prems by blast
    then show ?thesis using s by (intro exI [of _ k']) simp
  next
    case False
    then have "double_past x (2 ^ k) = Some (2 ^ k)" by (subst double_past.simps) (rule if_not_P)
    moreover have "unat x < 2 ^ k" using False unat_exp64 [of k] Suc.prems by (simp add: not_le word_less_nat_alt)
    ultimately show ?thesis using Suc.prems(2) by auto
  qed
qed

text \<open>An array of ids starts with 1024 elements.\<close>

definition cap_ok :: "nat \<Rightarrow> u64 \<Rightarrow> bool" where
  "cap_ok m cap \<longleftrightarrow> cap = 0 \<or> (\<exists>c \<le> m. cap = 2 ^ c)"

lemma double_cap:
  assumes "cap_ok m cap" "unat x < 2 ^ m" "10 \<le> m" "m < 64" "\<not> x < cap"
  shows "\<exists>k \<le> m. double_past x (if cap \<noteq> 0 then cap else 1024) = Some (2 ^ k) \<and> x < 2 ^ k \<and> cap \<le> 2 ^ k \<and> unat (2 ^ k :: u64) = 2 ^ k"
proof -
  obtain c where c: "c \<le> m" "(if cap \<noteq> 0 then cap else 1024) = 2 ^ c"
  proof (cases "cap = 0")
    case True
    then have "(if cap \<noteq> 0 then cap else 1024) = 2 ^ 10" by simp
    then show ?thesis using assms(3) by (intro that [of 10])
  next
    case False
    then obtain c where "c \<le> m" "cap = 2 ^ c" using assms(1) unfolding cap_ok_def by blast
    then show ?thesis using False by (intro that [of c]) simp_all
  qed
  obtain k where k: "k \<le> m" "double_past x (2 ^ c) = Some (2 ^ k)" "unat x < 2 ^ k"
    using double_past_spec [OF assms(2) c(1) assms(4)] by auto
  have u: "unat (2 ^ k :: u64) = 2 ^ k" using k(1) assms(4) by (simp add: unat_exp64)
  have "x < 2 ^ k" using k(3) u by (simp add: word_less_nat_alt)
  moreover have "cap \<le> 2 ^ k" using \<open>x < 2 ^ k\<close> assms(5) by simp
  ultimately show ?thesis using k u unfolding c(2) by blast
qed

section \<open>Slots\<close>

text \<open>The array of a slot is the list of its ids; how much memory it has in reserve is left out.\<close>

definition slot_push :: "u64 list \<Rightarrow> u64 \<Rightarrow> u64 list \<times> nat" where
  "slot_push sl i = (sl @ [i], length sl)"

definition slot_remove_at :: "u64 \<Rightarrow> (u64 \<rightharpoonup> nat) \<Rightarrow> u64 list \<Rightarrow> nat \<Rightarrow> (u64 list \<times> (u64 \<rightharpoonup> nat)) option" where
  "slot_remove_at cap id_pos sl pos =
     (if sl = [] then None
      else let last = length sl - 1 in
        if pos \<noteq> last then do {
          moved \<leftarrow> index sl last;
          sl \<leftarrow> store sl pos moved;
          id_pos \<leftarrow> wr cap id_pos moved pos;
          Some (take last sl, id_pos)
        }
        else Some (take last sl, id_pos))"

text \<open>S: the slots, K: the slot of each id, P: its position there.\<close>

definition bag_ok :: "('k \<Rightarrow> u64 list) \<Rightarrow> (u64 \<rightharpoonup> 'k) \<Rightarrow> (u64 \<rightharpoonup> nat) \<Rightarrow> bool" where
  "bag_ok S K P \<longleftrightarrow> (\<forall>k. distinct (S k)) \<and> (\<forall>k i. i \<in> set (S k) \<longleftrightarrow> K i = Some k) \<and>
     (\<forall>k j. j < length (S k) \<longrightarrow> P (S k ! j) = Some j)"

lemma bag_ok_pos:
  assumes "bag_ok S K P" "K i = Some k"
  shows "\<exists>j < length (S k). P i = Some j \<and> S k ! j = i"
proof -
  have "i \<in> set (S k)" using assms by (simp add: bag_ok_def)
  then obtain j where "j < length (S k)" "S k ! j = i" by (auto simp: in_set_conv_nth)
  then show ?thesis using assms(1) unfolding bag_ok_def by blast
qed

lemma bag_push:
  assumes b: "bag_ok S K P" and i: "K i = None"
  shows "bag_ok (S(k := S k @ [i])) (K(i \<mapsto> k)) (P(i \<mapsto> length (S k)))"
proof -
  have no: "i \<notin> set (S k')" for k' using b i by (simp add: bag_ok_def)
  have "(P(i \<mapsto> length (S k))) ((S(k := S k @ [i])) k' ! j) = Some j" if "j < length ((S(k := S k @ [i])) k')" for k' j
  proof (cases "k' = k \<and> j = length (S k)")
    case True
    then show ?thesis by simp
  next
    case False
    then have j: "j < length (S k')" "(S(k := S k @ [i])) k' ! j = S k' ! j" using that by (auto simp: nth_append split: if_splits)
    then have "S k' ! j \<noteq> i" using no [of k'] nth_mem by metis
    then show ?thesis using j b by (simp add: bag_ok_def)
  qed
  then show ?thesis using b no i unfolding bag_ok_def by auto
qed

lemma bag_clear:
  assumes "bag_ok S K P"
  shows "bag_ok (S(k := [])) (\<lambda>i. if i \<in> set (S k) then None else K i) P"
  using assms unfolding bag_ok_def by auto

text \<open>Removal from the middle puts the last id into the gap.\<close>

lemma swap_remove_set:
  assumes "distinct xs" "p < length xs"
  shows "set (take (length xs - 1) (xs[p := xs ! (length xs - 1)])) = set xs - {xs ! p}"
    "distinct (take (length xs - 1) (xs[p := xs ! (length xs - 1)]))"
proof -
  let ?n = "length xs - 1"
  let ?ys = "take ?n (xs[p := xs ! ?n])"
  have n: "length ?ys = ?n" "?n < length xs" using assms(2) by simp_all
  have nth: "?ys ! j = (if j = p then xs ! ?n else xs ! j)" if "j < ?n" for j using that n by simp
  have inj: "xs ! a = xs ! c \<longleftrightarrow> a = c" if "a < length xs" "c < length xs" for a c using assms(1) that by (rule nth_eq_iff_index_eq)
  show "distinct ?ys"
  proof (unfold distinct_conv_nth, intro allI impI)
    fix a c assume a: "a < length ?ys" "c < length ?ys" "a \<noteq> c"
    have an: "a < ?n" "c < ?n" using a n(1) by simp_all
    then have "a < length xs" "c < length xs" by simp_all
    then show "?ys ! a \<noteq> ?ys ! c" unfolding nth [OF an(1)] nth [OF an(2)] using a(3) inj n(2) an by simp
  qed
  show "set ?ys = set xs - {xs ! p}"
  proof (intro equalityI subsetI)
    fix x assume "x \<in> set ?ys"
    then obtain j where j: "j < ?n" "x = ?ys ! j" using n(1) by (auto simp: in_set_conv_nth)
    then have "x = xs ! (if j = p then ?n else j)" using nth by simp
    moreover have "(if j = p then ?n else j) \<noteq> p" "(if j = p then ?n else j) < length xs" using j(1) n(2) by auto
    ultimately show "x \<in> set xs - {xs ! p}" using inj assms(2) by simp
  next
    fix x assume "x \<in> set xs - {xs ! p}"
    then obtain j where j: "j < length xs" "x = xs ! j" "j \<noteq> p" by (auto simp: in_set_conv_nth)
    show "x \<in> set ?ys"
    proof (cases "j = ?n")
      case True
      then have "p < ?n" using j assms(2) by simp
      then have "?ys ! p = x" "p < length ?ys" using nth j True n by simp_all
      then show ?thesis by (metis nth_mem)
    next
      case False
      then have "j < ?n" using j(1) by simp
      then have "?ys ! j = x" "j < length ?ys" using nth j n by simp_all
      then show ?thesis by (metis nth_mem)
    qed
  qed
qed

lemma bag_remove:
  assumes b: "bag_ok S K P" and i: "K i = Some k" and cap: "\<forall>i k. K i = Some k \<longrightarrow> i < cap"
  shows "\<exists>p sl P'. P i = Some p \<and> slot_remove_at cap P (S k) p = Some (sl, P') \<and> bag_ok (S(k := sl)) (K(i := None)) P' \<and>
    (\<forall>i. P i \<noteq> None \<longrightarrow> P' i \<noteq> None) \<and> length (S k) = Suc (length sl) \<and> (S k ! (length (S k) - 1) = i \<longrightarrow> sl = butlast (S k))"
proof -
  let ?xs = "S k" let ?n = "length ?xs - 1"
  have d: "distinct ?xs" using b by (simp add: bag_ok_def)
  obtain p where p: "p < length ?xs" "P i = Some p" "?xs ! p = i" using bag_ok_pos [OF b i] by blast
  let ?ys = "take ?n (?xs[p := ?xs ! ?n])" and ?P = "if p = ?n then P else P(?xs ! ?n \<mapsto> p)"
  have n: "?n < length ?xs" "length ?ys = ?n" using p(1) by simp_all
  have "?xs ! ?n \<in> set ?xs" using n(1) by (rule nth_mem)
  then have "K (?xs ! ?n) = Some k" using b by (simp add: bag_ok_def)
  then have m: "?xs ! ?n < cap" using cap by blast
  have ys: "p = ?n \<Longrightarrow> ?ys = take ?n ?xs" by simp
  have run: "slot_remove_at cap P ?xs p = Some (?ys, ?P)"
    using p(1) n m by (auto simp: slot_remove_at_def Let_def)
  have set: "set ?ys = set ?xs - {i}" "distinct ?ys" using swap_remove_set [OF d p(1)] p(3) by simp_all
  have other: "S k' ! j \<noteq> ?xs ! ?n" if "k' \<noteq> k" "j < length (S k')" for k' j
  proof
    assume "S k' ! j = ?xs ! ?n"
    then have "K (?xs ! ?n) = Some k'" using b that nth_mem [of j "S k'"] by (metis bag_ok_def)
    then show False using \<open>K (?xs ! ?n) = Some k\<close> that(1) by simp
  qed
  have "?P ((S(k := ?ys)) k' ! j) = Some j" if j: "j < length ((S(k := ?ys)) k')" for k' j
  proof (cases "k' = k")
    case False
    then show ?thesis using j other [OF False] b by (simp add: bag_ok_def)
  next
    case True
    then have jn: "j < ?n" using j n(2) by simp
    show ?thesis
    proof (cases "j = p")
      case True
      then show ?thesis using \<open>k' = k\<close> jn n by simp
    next
      case False
      then have "?ys ! j = ?xs ! j" "?xs ! j \<noteq> ?xs ! ?n" using jn n d by (simp_all add: nth_eq_iff_index_eq)
      then show ?thesis using \<open>k' = k\<close> jn b by (simp add: bag_ok_def)
    qed
  qed
  moreover have "x \<in> set ((S(k := ?ys)) k') \<longleftrightarrow> (K(i := None)) x = Some k'" for x k'
    using b set i unfolding bag_ok_def by auto
  moreover have "distinct ((S(k := ?ys)) k')" for k' using b set by (simp add: bag_ok_def)
  ultimately have "bag_ok (S(k := ?ys)) (K(i := None)) ?P" unfolding bag_ok_def by blast
  moreover have "length ?xs = Suc (length ?ys)" using n by simp
  moreover have "?ys = butlast ?xs" if "?xs ! ?n = i"
  proof -
    have "p = ?n" using that p(1,3) d n(1) nth_eq_iff_index_eq by metis
    then show ?thesis by (simp add: butlast_conv_take)
  qed
  ultimately show ?thesis using p(2) run by (intro exI [of _ p] exI [of _ ?ys] exI [of _ ?P]) auto
qed

text \<open>The loop that marks the ids of a slot as absent.\<close>

fun mark_absent :: "u64 \<Rightarrow> (u64 \<rightharpoonup> int) \<Rightarrow> u64 list \<Rightarrow> (u64 \<rightharpoonup> int) option" where
  "mark_absent cap a [] = Some a"
| "mark_absent cap a (i # is) = do { a \<leftarrow> wr cap a i (- 1); mark_absent cap a is }"

lemma mark_absent_spec:
  "(\<And>i. i \<in> set is \<Longrightarrow> i < cap) \<Longrightarrow> mark_absent cap a is = Some (\<lambda>i. if i \<in> set is then Some (- 1) else a i)"
proof (induction "is" arbitrary: a)
  case (Cons i "is")
  have "(\<lambda>j. if j \<in> set is then Some (- 1) else (a(i \<mapsto> - 1)) j) = (\<lambda>j. if j \<in> set (i # is) then Some (- 1) else a j)" by auto
  then show ?case using Cons by simp
qed simp

text \<open>In a turn of the ring two times with the same slot are equal.\<close>

lemma same_slot:
  assumes "(a :: nat) mod n = b mod n" "c \<le> a" "a < c + n" "c \<le> b" "b < c + n"
  shows "a = b"
proof -
  have "a = b" if "a mod n = b mod n" "c \<le> a" "b < c + n" "a \<le> b" for a b :: nat
  proof -
    have "n dvd b - a" using that(1,4) by (metis mod_eq_dvd_iff_nat)
    moreover have "b - a < n" using that by simp
    ultimately show ?thesis using that(4) by (metis diff_is_0_eq dvd_imp_le le_antisym not_le not_gr_zero)
  qed
  from this [of a b] this [of b a] assms show ?thesis by (cases "a \<le> b") simp_all
qed


end
