(* ===== verification/Naive_Store.thy ===== *)
theory Naive_Store
  imports Slots
begin

unbundle bit_operations_syntax

text \<open>
  The single-level hashed timing wheel src/benchmarks/c/impl/naive.c: a ring of slots that is grown to cover the
  largest TTL, indexed by the low bits of the expiry time. The ring is an interpretation of the contract
  \<open>timer_store\<close> for ids below \<open>2 ^ 60\<close> and TTLs below \<open>2 ^ 58\<close>, for which the sizes of its arrays fit.
\<close>

section \<open>The code\<close>

record naive =
  nv_now :: u64
  num_slots :: u64
  nv_slots :: "u64 list list"
  id_expire :: "u64 \<rightharpoonup> u64"
  id_slot :: "u64 \<rightharpoonup> int"
  id_pos :: "u64 \<rightharpoonup> nat"
  id_cap :: u64
  nv_live :: u64

definition ensure_id_cap :: "naive \<Rightarrow> u64 \<Rightarrow> naive option" where
  "ensure_id_cap s i =
     (if i < id_cap s then Some s
      else do {
        nc \<leftarrow> double_past i (if id_cap s \<noteq> 0 then id_cap s else 1024);
        _ \<leftarrow> alloc nc 8;
        Some (s\<lparr>id_slot := (\<lambda>j. if id_cap s \<le> j \<and> j < nc then Some (- 1) else id_slot s j), id_cap := nc\<rparr>)
      })"

definition naive_create :: naive where
  "naive_create = \<lparr>nv_now = 0, num_slots = 256, nv_slots = replicate 256 [], id_expire = Map.empty, id_slot = Map.empty,
     id_pos = Map.empty, id_cap = 0, nv_live = 0\<rparr>"

definition place :: "naive \<Rightarrow> u64 \<Rightarrow> u64 \<Rightarrow> naive option" where
  "place s i expire = do {
     let idx = unat (expire AND (num_slots s - 1));
     sl \<leftarrow> index (nv_slots s) idx;
     let (sl, pos) = slot_push sl i;
     slots \<leftarrow> store (nv_slots s) idx sl;
     e \<leftarrow> wr (id_cap s) (id_expire s) i expire;
     k \<leftarrow> wr (id_cap s) (id_slot s) i (int idx);
     p \<leftarrow> wr (id_cap s) (id_pos s) i pos;
     Some (s\<lparr>nv_slots := slots, id_expire := e, id_slot := k, id_pos := p\<rparr>)
   }"

text \<open>The two loops over the ids of the old ring.\<close>

fun place_all :: "naive \<Rightarrow> u64 list \<Rightarrow> naive option" where
  "place_all s [] = Some s"
| "place_all s (i # is) = do {
     e \<leftarrow> rd (id_cap s) (id_expire s) i;
     s \<leftarrow> place s i e;
     place_all s is
   }"

definition grow_ring :: "naive \<Rightarrow> u64 \<Rightarrow> naive option" where
  "grow_ring s min_ttl = do {
     ns \<leftarrow> double_past min_ttl (num_slots s);
     _ \<leftarrow> alloc ns 24;
     let old = nv_slots s;
     place_all (s\<lparr>nv_slots := replicate (unat ns) [], num_slots := ns\<rparr>) (concat old)
   }"

definition naive_start :: "naive \<Rightarrow> u64 \<Rightarrow> u64 \<Rightarrow> naive option" where
  "naive_start s i ttl = do {
     s \<leftarrow> ensure_id_cap s i;
     s \<leftarrow> (if ttl \<ge> num_slots s then grow_ring s ttl else Some s);
     s \<leftarrow> place s i (nv_now s + ttl);
     Some (s\<lparr>nv_live := nv_live s + 1\<rparr>)
   }"

definition naive_stop :: "naive \<Rightarrow> u64 \<Rightarrow> (bool \<times> naive) option" where
  "naive_stop s i =
     (if i \<ge> id_cap s then Some (False, s)
      else do {
        k \<leftarrow> rd (id_cap s) (id_slot s) i;
        (if k < 0 then Some (False, s)
         else do {
           sl \<leftarrow> index (nv_slots s) (nat k);
           pos \<leftarrow> rd (id_cap s) (id_pos s) i;
           (sl, p) \<leftarrow> slot_remove_at (id_cap s) (id_pos s) sl pos;
           slots \<leftarrow> store (nv_slots s) (nat k) sl;
           k \<leftarrow> wr (id_cap s) (id_slot s) i (- 1);
           Some (True, s\<lparr>nv_slots := slots, id_pos := p, id_slot := k, nv_live := nv_live s - 1\<rparr>)
         })
      })"

definition naive_tick :: "naive \<Rightarrow> (u64 \<times> naive) option" where
  "naive_tick s = do {
     let s = s\<lparr>nv_now := nv_now s + 1\<rparr>;
     let idx = unat (nv_now s AND (num_slots s - 1));
     sl \<leftarrow> index (nv_slots s) idx;
     let fired = of_nat (length sl);
     k \<leftarrow> mark_absent (id_cap s) (id_slot s) sl;
     slots \<leftarrow> store (nv_slots s) idx [];
     Some (fired, s\<lparr>id_slot := k, nv_slots := slots, nv_live := nv_live s - fired\<rparr>)
   }"

definition naive_size :: "naive \<Rightarrow> u64" where
  "naive_size s = nv_live s"

definition naive_advance :: "naive \<Rightarrow> u64 \<Rightarrow> naive option" where
  "naive_advance s target = Some (s\<lparr>nv_now := target\<rparr>)"

definition cts_naive_vtable :: "naive cts_vtable" where
  "cts_naive_vtable = \<lparr>vt_create = naive_create, vt_start = naive_start, vt_stop = naive_stop, vt_tick = naive_tick,
     vt_size = naive_size, vt_advance = naive_advance\<rparr>"

section \<open>The invariant\<close>

definition key_of :: "(u64 \<rightharpoonup> int) \<Rightarrow> u64 \<rightharpoonup> nat" where
  "key_of a i = (case a i of None \<Rightarrow> None | Some k \<Rightarrow> if k < 0 then None else Some (nat k))"

definition slot_at :: "u64 list list \<Rightarrow> nat \<Rightarrow> u64 list" where
  "slot_at slots k = (if k < length slots then slots ! k else [])"

text \<open>A power of two of slots; every id in the slot of its expiry time, which is ahead and less than a turn away.\<close>

definition ring_ok :: "naive \<Rightarrow> bool" where
  "ring_ok s \<longleftrightarrow> (\<exists>k \<le> 58. num_slots s = 2 ^ k \<and> length (nv_slots s) = 2 ^ k) \<and>
     cap_ok 60 (id_cap s) \<and> (\<forall>i. id_slot s i = None \<longleftrightarrow> id_cap s \<le> i)"

definition timer_ok :: "naive \<Rightarrow> u64 \<Rightarrow> nat \<Rightarrow> bool" where
  "timer_ok s i k \<longleftrightarrow> (\<exists>e. id_expire s i = Some e \<and> k = unat e mod unat (num_slots s) \<and>
     unat (nv_now s) < unat e \<and> unat e < unat (nv_now s) + unat (num_slots s))"

definition naive_inv :: "naive \<Rightarrow> bool" where
  "naive_inv s \<longleftrightarrow> ring_ok s \<and> bag_ok (slot_at (nv_slots s)) (key_of (id_slot s)) (id_pos s) \<and>
     (\<forall>i k. key_of (id_slot s) i = Some k \<longrightarrow> timer_ok s i k) \<and> nv_live s = of_nat (card (dom (key_of (id_slot s))))"

definition naive_now_of :: "naive \<Rightarrow> nat" where "naive_now_of s = unat (nv_now s)"

definition naive_live_of :: "naive \<Rightarrow> u64 \<rightharpoonup> nat" where
  "naive_live_of s i = (case key_of (id_slot s) i of None \<Rightarrow> None | Some k \<Rightarrow> map_option unat (id_expire s i))"

lemma key_cap: "ring_ok s \<Longrightarrow> key_of (id_slot s) i = Some k \<Longrightarrow> i < id_cap s"
proof -
  assume r: "ring_ok s" and k: "key_of (id_slot s) i = Some k"
  have "id_slot s i \<noteq> None" using k by (cases "id_slot s i") (simp_all add: key_of_def)
  moreover have "id_slot s i = None \<longleftrightarrow> id_cap s \<le> i" using r unfolding ring_ok_def by blast
  ultimately show ?thesis by (simp add: not_le)
qed

lemma key_upd: "key_of (a(i \<mapsto> int k)) = (key_of a)(i \<mapsto> k)" "key_of (a(i \<mapsto> - 1)) = (key_of a)(i := None)"
  by (auto simp: key_of_def fun_eq_iff)

lemma slot_at_upd: "k < length slots \<Longrightarrow> slot_at (slots[k := sl]) = (slot_at slots)(k := sl)"
  by (auto simp: slot_at_def fun_eq_iff)

lemma ring_mask: "num_slots s = 2 ^ k \<Longrightarrow> k < 64 \<Longrightarrow> unat (e AND (num_slots s - 1)) = unat e mod 2 ^ k"
  by (simp add: unat_and_mask flip: mask_eq_exp_minus_1)

lemma ring_finite_keys: "finite (dom (key_of (a :: u64 \<rightharpoonup> int)))"
  by (rule finite_subset [OF subset_UNIV]) simp

lemma naive_live_dom: "naive_inv s \<Longrightarrow> dom (naive_live_of s) = dom (key_of (id_slot s))"
  unfolding naive_inv_def timer_ok_def naive_live_of_def by (force split: option.splits)

section \<open>Placing\<close>

lemma naive_place_spec:
  assumes r: "ring_ok s" and i: "i < id_cap s" and b: "bag_ok (slot_at (nv_slots s)) K (id_pos s)" and n: "K i = None"
  shows "\<exists>s' sl p. place s i e = Some s' \<and>
    s' = s\<lparr>nv_slots := sl, id_expire := (id_expire s)(i \<mapsto> e),
       id_slot := (id_slot s)(i \<mapsto> int (unat e mod unat (num_slots s))), id_pos := p\<rparr> \<and>
    ring_ok s' \<and> bag_ok (slot_at sl) (K(i \<mapsto> unat e mod unat (num_slots s))) p"
proof -
  obtain k where k: "k \<le> 58" "num_slots s = 2 ^ k" "length (nv_slots s) = 2 ^ k" using r unfolding ring_ok_def by blast
  have u: "unat (num_slots s) = 2 ^ k" using k(1,2) unat_exp64 [of k] by simp
  have idx: "unat (e AND (num_slots s - 1)) = unat e mod unat (num_slots s)" using ring_mask [OF k(2)] k(1) u by simp
  have lt: "unat e mod unat (num_slots s) < length (nv_slots s)" using k(3) u by simp
  let ?k = "unat e mod unat (num_slots s)"
  let ?sl = "(nv_slots s)[?k := nv_slots s ! ?k @ [i]]"
  have sa: "slot_at (nv_slots s) ?k = nv_slots s ! ?k" using lt by (simp add: slot_at_def)
  let ?s = "s\<lparr>nv_slots := ?sl, id_expire := (id_expire s)(i \<mapsto> e), id_slot := (id_slot s)(i \<mapsto> int ?k),
     id_pos := (id_pos s)(i \<mapsto> length (nv_slots s ! ?k))\<rparr>"
  have "place s i e = Some ?s" using i lt by (simp add: place_def idx slot_push_def Let_def)
  moreover have "ring_ok ?s" using r i unfolding ring_ok_def by (auto simp: not_le)
  moreover have "bag_ok (slot_at ?sl) (K(i \<mapsto> ?k)) ((id_pos s)(i \<mapsto> length (nv_slots s ! ?k)))"
    using bag_push [OF b n, of ?k] unfolding slot_at_upd [OF lt] sa .
  ultimately show ?thesis by blast
qed

lemma naive_place_all_spec:
  "ring_ok s \<Longrightarrow> distinct is \<Longrightarrow> (\<And>i. i \<in> set is \<Longrightarrow> i < id_cap s \<and> id_expire s i \<noteq> None \<and> K i = None) \<Longrightarrow>
   bag_ok (slot_at (nv_slots s)) K (id_pos s) \<Longrightarrow>
   \<exists>s' sl a p. place_all s is = Some s' \<and> s' = s\<lparr>nv_slots := sl, id_slot := a, id_pos := p\<rparr> \<and> ring_ok s' \<and>
     (\<forall>i. a i = (if i \<in> set is then Some (int (unat (the (id_expire s i)) mod unat (num_slots s))) else id_slot s i)) \<and>
     bag_ok (slot_at sl) (\<lambda>i. if i \<in> set is then Some (unat (the (id_expire s i)) mod unat (num_slots s)) else K i) p"
proof (induction "is" arbitrary: s K)
  case Nil
  then show ?case by (intro exI [of _ s] exI [of _ "nv_slots s"] exI [of _ "id_slot s"] exI [of _ "id_pos s"]) simp
next
  case (Cons i "is")
  have i: "i < id_cap s" "K i = None" using Cons.prems(3) by auto
  obtain e where e: "id_expire s i = Some e" using Cons.prems(3) [of i] by auto
  let ?k = "unat e mod unat (num_slots s)"
  obtain s1 sl p where 1: "place s i e = Some s1" "s1 = s\<lparr>nv_slots := sl, id_expire := (id_expire s)(i \<mapsto> e),
       id_slot := (id_slot s)(i \<mapsto> int ?k), id_pos := p\<rparr>" "ring_ok s1" "bag_ok (slot_at sl) (K(i \<mapsto> ?k)) p"
    using naive_place_spec [OF Cons.prems(1) i(1) Cons.prems(4) i(2)] by blast
  have same: "(id_expire s)(i \<mapsto> e) = id_expire s" using e by auto
  note s1 = 1(2) [unfolded same]
  have pre: "j < id_cap s1 \<and> id_expire s1 j \<noteq> None \<and> (K(i \<mapsto> ?k)) j = None" if "j \<in> set is" for j
    using Cons.prems(2,3) that by (auto simp: s1)
  obtain s2 sl2 a2 p2 where 2: "place_all s1 is = Some s2" "s2 = s1\<lparr>nv_slots := sl2, id_slot := a2, id_pos := p2\<rparr>" "ring_ok s2"
      "\<forall>j. a2 j = (if j \<in> set is then Some (int (unat (the (id_expire s1 j)) mod unat (num_slots s1))) else id_slot s1 j)"
      "bag_ok (slot_at sl2) (\<lambda>j. if j \<in> set is then Some (unat (the (id_expire s1 j)) mod unat (num_slots s1)) else (K(i \<mapsto> ?k)) j) p2"
  proof -
    have d: "distinct is" using Cons.prems(2) by simp
    have "bag_ok (slot_at (nv_slots s1)) (K(i \<mapsto> ?k)) (id_pos s1)" using 1(4) by (simp add: s1)
    from Cons.IH [OF 1(3) d pre this] show ?thesis using that by blast
  qed
  have m: "(\<lambda>j. if j \<in> set is then Some (unat (the (id_expire s1 j)) mod unat (num_slots s1)) else (K(i \<mapsto> ?k)) j) =
      (\<lambda>j. if j \<in> set (i # is) then Some (unat (the (id_expire s j)) mod unat (num_slots s)) else K j)"
    using e by (auto simp: s1 fun_eq_iff)
  have "place_all s (i # is) = Some s2" using 1(1) 2(1) i(1) e by simp
  moreover have "s2 = s\<lparr>nv_slots := sl2, id_slot := a2, id_pos := p2\<rparr>" using 2(2) s1 by simp
  moreover have "\<forall>j. a2 j = (if j \<in> set (i # is) then Some (int (unat (the (id_expire s j)) mod unat (num_slots s))) else id_slot s j)"
    using 2(4) e by (auto simp: s1)
  ultimately show ?case using 2(3) 2(5) [unfolded m] by blast
qed

section \<open>The operations\<close>

text \<open>What a larger ring or a larger array leaves alone.\<close>

definition same_timers :: "naive \<Rightarrow> naive \<Rightarrow> bool" where
  "same_timers s s' \<longleftrightarrow> nv_now s' = nv_now s \<and> id_expire s' = id_expire s \<and> dom (key_of (id_slot s')) = dom (key_of (id_slot s)) \<and>
     unat (num_slots s) \<le> unat (num_slots s') \<and> id_cap s \<le> id_cap s' \<and> naive_live_of s' = naive_live_of s"

lemma same_timers_live:
  "nv_now s' = nv_now s \<Longrightarrow> id_expire s' = id_expire s \<Longrightarrow> dom (key_of (id_slot s')) = dom (key_of (id_slot s)) \<Longrightarrow>
     unat (num_slots s) \<le> unat (num_slots s') \<Longrightarrow> id_cap s \<le> id_cap s' \<Longrightarrow> same_timers s s'"
proof -
  assume a: "nv_now s' = nv_now s" "id_expire s' = id_expire s" "dom (key_of (id_slot s')) = dom (key_of (id_slot s))"
    "unat (num_slots s) \<le> unat (num_slots s')" "id_cap s \<le> id_cap s'"
  have "naive_live_of s' i = naive_live_of s i" for i
  proof -
    have "key_of (id_slot s') i = None \<longleftrightarrow> key_of (id_slot s) i = None" using a(3) by (metis domIff)
    then show ?thesis using a(2) by (auto simp: naive_live_of_def split: option.split)
  qed
  then show ?thesis using a by (auto simp: same_timers_def)
qed

lemma naive_ensure_spec:
  assumes v: "naive_inv s" and i: "unat i < 2 ^ 60"
  shows "\<exists>s'. ensure_id_cap s i = Some s' \<and> naive_inv s' \<and> same_timers s s' \<and> i < id_cap s' \<and> num_slots s' = num_slots s"
proof (cases "i < id_cap s")
  case True
  then show ?thesis using v by (simp add: ensure_id_cap_def same_timers_def)
next
  case False
  have r: "ring_ok s" using v by (simp add: naive_inv_def)
  have "cap_ok 60 (id_cap s)" using r by (simp add: ring_ok_def)
  then obtain k where k: "k \<le> 60" "double_past i (if id_cap s \<noteq> 0 then id_cap s else 1024) = Some (2 ^ k)"
    and il: "i < 2 ^ k" and cap: "id_cap s \<le> 2 ^ k" and u: "unat (2 ^ k :: u64) = 2 ^ k"
    using double_cap [OF _ i _ _ False] by auto
  have le: "(2 :: nat) ^ k \<le> 2 ^ 60" using k(1) by (intro power_increasing) simp_all
  let ?s = "s\<lparr>id_slot := (\<lambda>j. if id_cap s \<le> j \<and> j < 2 ^ k then Some (- 1) else id_slot s j), id_cap := 2 ^ k\<rparr>"
  have al: "alloc (2 ^ k) 8 = Some ()" unfolding alloc_def u using le by simp
  have run: "ensure_id_cap s i = Some ?s" unfolding ensure_id_cap_def if_not_P [OF False] k(2) using al by simp
  have none: "id_slot s j = None \<longleftrightarrow> id_cap s \<le> j" for j using r by (simp add: ring_ok_def)
  have key: "key_of (id_slot ?s) = key_of (id_slot s)"
  proof
    fix j show "key_of (id_slot ?s) j = key_of (id_slot s) j"
      using none [of j] by (auto simp: key_of_def split: option.split)
  qed
  have "ring_ok ?s"
  proof -
    have "id_slot ?s j = None \<longleftrightarrow> id_cap ?s \<le> j" for j using none [of j] cap by (cases "id_cap s \<le> j") (auto simp: not_le)
    moreover have "\<exists>k \<le> 58. num_slots ?s = 2 ^ k \<and> length (nv_slots ?s) = 2 ^ k" using r by (simp add: ring_ok_def)
    moreover have "cap_ok 60 (id_cap ?s)" using k(1) by (auto simp: cap_ok_def)
    ultimately show ?thesis unfolding ring_ok_def by blast
  qed
  then have "naive_inv ?s" using v unfolding naive_inv_def key by (simp add: timer_ok_def)
  moreover have "same_timers s ?s" using key cap by (intro same_timers_live) simp_all
  ultimately show ?thesis using run il by (intro exI [of _ ?s]) simp
qed


lemma concat_nth: "i \<in> set (concat xs) \<Longrightarrow> \<exists>j < length xs. i \<in> set (xs ! j)"
  by (metis UN_E in_set_conv_nth set_concat)

lemma concat_slots:
  "(\<And>j. j < length xs \<Longrightarrow> distinct (xs ! j)) \<Longrightarrow> (\<And>j i. j < length xs \<Longrightarrow> i \<in> set (xs ! j) \<Longrightarrow> f i = off + j) \<Longrightarrow>
   distinct (concat xs)" for f :: "'a \<Rightarrow> nat"
proof (induction xs arbitrary: off)
  case (Cons x xs)
  have x: "distinct x" "\<And>i. i \<in> set x \<Longrightarrow> f i = off" using Cons.prems(1) [of 0] Cons.prems(2) [of 0] by simp_all
  have xs: "distinct (xs ! j)" "\<And>i. i \<in> set (xs ! j) \<Longrightarrow> f i = Suc off + j" if "j < length xs" for j
    using Cons.prems(1) [of "Suc j"] Cons.prems(2) [of "Suc j"] that by simp_all
  have "distinct (concat xs)" using Cons.IH [of "Suc off"] xs by blast
  moreover have "f i > off" if "i \<in> set (concat xs)" for i
  proof -
    obtain j where "j < length xs" "i \<in> set (xs ! j)" using concat_nth [OF \<open>i \<in> set (concat xs)\<close>] by blast
    then show ?thesis using xs(2) by simp
  qed
  ultimately show ?case using x by fastforce
qed simp

lemma ring_ids:
  assumes "bag_ok (slot_at slots) K P"
  shows "distinct (concat slots)" "i \<in> set (concat slots) \<Longrightarrow> K i \<noteq> None"
    "K i = Some k \<Longrightarrow> i \<in> set (concat slots) \<and> k < length slots"
proof -
  have at: "slot_at slots j = slots ! j" if "j < length slots" for j using that by (simp add: slot_at_def)
  have d: "distinct (slot_at slots j)" "x \<in> set (slot_at slots j) \<longleftrightarrow> K x = Some j" for j x
    using assms unfolding bag_ok_def by blast+
  have key: "the (K x) = 0 + j" if "j < length slots" "x \<in> set (slots ! j)" for j x using d(2) [of x j] that at [of j] by simp
  show "distinct (concat slots)" using concat_slots [of slots "\<lambda>x. the (K x)" 0] d(1) at key by metis
  show "K i \<noteq> None" if "i \<in> set (concat slots)"
  proof -
    obtain j where "j < length slots" "i \<in> set (slots ! j)" using concat_nth [OF \<open>i \<in> set (concat slots)\<close>] by blast
    then show ?thesis using d(2) [of i j] at [of j] by simp
  qed
  assume "K i = Some k"
  then have "i \<in> set (slot_at slots k)" using d(2) by blast
  then show "i \<in> set (concat slots) \<and> k < length slots" by (auto simp: slot_at_def split: if_splits)
qed

lemma ring_grow_spec:
  assumes v: "naive_inv s" and t: "unat t < 2 ^ 58"
  shows "\<exists>s'. grow_ring s t = Some s' \<and> naive_inv s' \<and> same_timers s s' \<and> unat t < unat (num_slots s') \<and> id_cap s' = id_cap s"
proof -
  have r: "ring_ok s" and b: "bag_ok (slot_at (nv_slots s)) (key_of (id_slot s)) (id_pos s)"
    and tm: "\<And>i k. key_of (id_slot s) i = Some k \<Longrightarrow> timer_ok s i k" using v by (simp_all add: naive_inv_def)
  obtain c where c: "c \<le> 58" "num_slots s = 2 ^ c" using r unfolding ring_ok_def by blast
  obtain k where k: "k \<ge> c" "k \<le> 58" "double_past t (2 ^ c) = Some (2 ^ k)" "unat t < 2 ^ k"
    using double_past_spec [OF t c(1)] by auto
  have u: "unat (2 ^ k :: u64) = 2 ^ k" "unat (2 ^ c :: u64) = 2 ^ c" using k(2) c(1) by (simp_all add: unat_exp64)
  have le: "(2 :: nat) ^ k \<le> 2 ^ 58" "(2 :: nat) ^ c \<le> 2 ^ k" using k(1,2) by (intro power_increasing; simp)+
  have al: "alloc (2 ^ k) 24 = Some ()" unfolding alloc_def u using le(1) by simp
  let ?ids = "concat (nv_slots s)"
  define s1 where "s1 = s\<lparr>nv_slots := replicate (2 ^ k) [], num_slots := 2 ^ k\<rparr>"
  have run: "grow_ring s t = place_all s1 ?ids"
    unfolding grow_ring_def s1_def c(2) using k(3) al u(1) by simp
  have r1: "ring_ok s1" using r k(2) unfolding ring_ok_def s1_def by auto
  have b1: "bag_ok (slot_at (nv_slots s1)) Map.empty (id_pos s1)" by (simp add: bag_ok_def slot_at_def s1_def)
  have pre: "i < id_cap s1 \<and> id_expire s1 i \<noteq> None \<and> Map.empty i = None" if "i \<in> set ?ids" for i
  proof -
    obtain k where "key_of (id_slot s) i = Some k" using ring_ids(2) [OF b \<open>i \<in> set ?ids\<close>] by blast
    then show ?thesis using key_cap [OF r] tm [of i k] by (auto simp: timer_ok_def s1_def)
  qed
  obtain s2 sl a p where 2: "place_all s1 ?ids = Some s2" "s2 = s1\<lparr>nv_slots := sl, id_slot := a, id_pos := p\<rparr>" "ring_ok s2"
     "\<forall>i. a i = (if i \<in> set ?ids then Some (int (unat (the (id_expire s1 i)) mod unat (num_slots s1))) else id_slot s1 i)"
     "bag_ok (slot_at sl) (\<lambda>i. if i \<in> set ?ids then Some (unat (the (id_expire s1 i)) mod unat (num_slots s1)) else None) p"
    using naive_place_all_spec [OF r1 ring_ids(1) [OF b] pre b1] by blast
  have none: "i \<in> set ?ids \<longleftrightarrow> key_of (id_slot s) i \<noteq> None" for i using ring_ids(2,3) [OF b] by blast
  have key: "key_of a = (\<lambda>i. if i \<in> set ?ids then Some (unat (the (id_expire s i)) mod 2 ^ k) else None)"
  proof
    fix i show "key_of a i = (if i \<in> set ?ids then Some (unat (the (id_expire s i)) mod 2 ^ k) else None)"
    proof (cases "i \<in> set ?ids")
      case False
      then have "a i = id_slot s i" using 2(4) by (simp add: s1_def)
      then show ?thesis using False none [of i] by (simp add: key_of_def)
    next
      case True
      then have "a i = Some (int (unat (the (id_expire s i)) mod 2 ^ k))" using 2(4) u by (simp add: s1_def)
      then show ?thesis using True by (simp add: key_of_def nat_mod_distrib)
    qed
  qed
  have dom: "dom (key_of a) = dom (key_of (id_slot s))" unfolding key using none by (auto split: if_splits)
  have ok: "timer_ok s2 i j" if ij: "key_of a i = Some j" for i j
  proof -
    have "key_of (id_slot s) i \<noteq> None" using dom ij by blast
    then obtain j' where "timer_ok s i j'" using tm by blast
    then obtain e where e: "id_expire s i = Some e" "unat (nv_now s) < unat e" "unat e < unat (nv_now s) + 2 ^ c"
      using u c(2) by (auto simp: timer_ok_def)
    have "j = unat e mod 2 ^ k" using ij e(1) unfolding key by (auto split: if_splits)
    moreover have "unat e < unat (nv_now s) + 2 ^ k" using e(3) le(2) by linarith
    ultimately show ?thesis using e u by (simp add: timer_ok_def 2(2) s1_def)
  qed
  have "bag_ok (slot_at sl) (key_of a) p" 
  proof -
    have eq: "id_expire s1 = id_expire s" "unat (num_slots s1) = 2 ^ k" by (simp_all add: s1_def u)
    show ?thesis using 2(5) unfolding key eq .
  qed
  then have "naive_inv s2" using 2(3) ok dom v unfolding naive_inv_def by (simp add: 2(2) s1_def)
  moreover have "same_timers s s2"
    using dom le(2) u c(2) by (intro same_timers_live) (simp_all add: 2(2) s1_def)
  ultimately show ?thesis using run 2(1) k(4) u by (intro exI [of _ s2]) (simp add: 2(2) s1_def)
qed


lemma naive_start_spec:
  assumes v: "naive_inv s" and i: "unat i < 2 ^ 60" and t: "0 < unat t" "unat t < 2 ^ 58" and n: "naive_live_of s i = None"
    and ov: "naive_now_of s + unat t < 2 ^ 64"
  shows "\<exists>s'. naive_start s i t = Some s' \<and> naive_inv s' \<and> naive_now_of s' = naive_now_of s \<and>
    naive_live_of s' = (naive_live_of s)(i \<mapsto> naive_now_of s + unat t)"
proof -
  obtain s1 where 1: "ensure_id_cap s i = Some s1" "naive_inv s1" "same_timers s s1" "i < id_cap s1"
    using naive_ensure_spec [OF v i] by blast
  obtain s2 where 2: "(if t \<ge> num_slots s1 then grow_ring s1 t else Some s1) = Some s2" "naive_inv s2" "same_timers s1 s2"
    "unat t < unat (num_slots s2)" "i < id_cap s2"
  proof (cases "t \<ge> num_slots s1")
    case True
    then show ?thesis using ring_grow_spec [OF 1(2) t(2)] 1(4) that by auto
  next
    case False
    then have "t < num_slots s1" by (simp add: not_le)
    then have "unat t < unat (num_slots s1)" by (simp add: word_less_nat_alt)
    moreover have "same_timers s1 s1" by (simp add: same_timers_def)
    ultimately show ?thesis using that [of s1] False 1(2,4) by simp
  qed
  have st: "same_timers s s2" using 1(3) 2(3) by (auto simp: same_timers_def)
  have v2: "ring_ok s2" "bag_ok (slot_at (nv_slots s2)) (key_of (id_slot s2)) (id_pos s2)" using 2(2) by (simp_all add: naive_inv_def)
  have "i \<notin> dom (naive_live_of s2)" using n st by (simp add: same_timers_def domIff)
  then have ni: "key_of (id_slot s2) i = None" using naive_live_dom [OF 2(2)] by blast
  let ?e = "nv_now s2 + t" let ?k = "unat ?e mod unat (num_slots s2)"
  have now: "nv_now s2 = nv_now s" using st by (simp add: same_timers_def)
  have ue: "unat ?e = unat (nv_now s) + unat t" using ov now by (simp add: naive_now_of_def unat_add_small)
  obtain s3 sl p where 3: "place s2 i ?e = Some s3" "s3 = s2\<lparr>nv_slots := sl, id_expire := (id_expire s2)(i \<mapsto> ?e),
       id_slot := (id_slot s2)(i \<mapsto> int ?k), id_pos := p\<rparr>" "ring_ok s3" "bag_ok (slot_at sl) ((key_of (id_slot s2))(i \<mapsto> ?k)) p"
    using naive_place_spec [OF v2(1) 2(5) v2(2) ni] by blast
  let ?s = "s3\<lparr>nv_live := nv_live s3 + 1\<rparr>"
  have run: "naive_start s i t = Some ?s" using 1(1) 2(1) 3(1) by (simp add: naive_start_def)
  have key: "key_of (id_slot ?s) = (key_of (id_slot s2))(i \<mapsto> ?k)" by (simp add: 3(2) key_upd)
  have ok: "timer_ok ?s j k" if "key_of (id_slot ?s) j = Some k" for j k
  proof (cases "j = i")
    case True
    then have "k = ?k" using that key by simp
    then show ?thesis using True ue now t(1) 2(4) by (simp add: timer_ok_def 3(2))
  next
    case False
    then have "key_of (id_slot s2) j = Some k" using that key by simp
    then have "timer_ok s2 j k" using 2(2) by (simp add: naive_inv_def)
    then show ?thesis using False by (simp add: timer_ok_def 3(2))
  qed
  have "nv_live ?s = of_nat (card (dom (key_of (id_slot ?s))))"
    using ni 2(2) ring_finite_keys [of "id_slot s2"] unfolding key by (simp add: naive_inv_def 3(2) domIff)
  moreover have "ring_ok ?s" using 3(3) by (simp add: ring_ok_def)
  ultimately have "naive_inv ?s" unfolding naive_inv_def using ok 3(4) key by (simp add: 3(2))
  moreover have "naive_live_of ?s j = ((naive_live_of s)(i \<mapsto> naive_now_of s + unat t)) j" for j
  proof (cases "j = i")
    case True
    then show ?thesis using key ue by (simp add: naive_live_of_def naive_now_of_def 3(2))
  next
    case False
    then have "naive_live_of ?s j = naive_live_of s2 j" using key False unfolding naive_live_of_def by (simp add: 3(2) split: option.split)
    then show ?thesis using False st by (simp add: same_timers_def)
  qed
  ultimately show ?thesis using run now by (intro exI [of _ ?s]) (simp add: naive_now_of_def 3(2) fun_eq_iff)
qed

lemma naive_stop_spec:
  assumes v: "naive_inv s"
  shows "\<exists>s'. naive_stop s i = Some (naive_live_of s i \<noteq> None, s') \<and> naive_inv s' \<and> naive_now_of s' = naive_now_of s \<and>
    naive_live_of s' = (naive_live_of s)(i := None)"
proof (cases "key_of (id_slot s) i")
  case None
  have r: "ring_ok s" using v by (simp add: naive_inv_def)
  have no: "naive_live_of s i = None" using None by (simp add: naive_live_of_def)
  have "id_slot s i = None \<longleftrightarrow> id_cap s \<le> i" using r unfolding ring_ok_def by blast
  then have "naive_stop s i = Some (False, s)"
    using None by (auto simp: naive_stop_def key_of_def not_le split: option.splits if_splits)
  then show ?thesis using v no by (auto simp: fun_upd_idem)
next
  case (Some k)
  have r: "ring_ok s" and b: "bag_ok (slot_at (nv_slots s)) (key_of (id_slot s)) (id_pos s)" using v by (simp_all add: naive_inv_def)
  have cap: "j < id_cap s" if "key_of (id_slot s) j = Some k" for j k using key_cap [OF r that] .
  have all_cap: "\<forall>j k. key_of (id_slot s) j = Some k \<longrightarrow> j < id_cap s" using cap by blast
  have ic: "i < id_cap s" by (rule cap [OF Some])
  have kl: "k < length (nv_slots s)" using ring_ids(3) [OF b Some] by blast
  have at: "slot_at (nv_slots s) k = nv_slots s ! k" using kl by (simp add: slot_at_def)
  have sk: "id_slot s i = Some (int k)"
    using Some by (auto simp: key_of_def split: option.splits if_splits)
  obtain p sl P' where p: "id_pos s i = Some p" "slot_remove_at (id_cap s) (id_pos s) (nv_slots s ! k) p = Some (sl, P')"
    "bag_ok ((slot_at (nv_slots s))(k := sl)) ((key_of (id_slot s))(i := None)) P'"
    using bag_remove [OF b Some all_cap] unfolding at by blast
  let ?s = "s\<lparr>nv_slots := (nv_slots s)[k := sl], id_pos := P', id_slot := (id_slot s)(i \<mapsto> - 1), nv_live := nv_live s - 1\<rparr>"
  have run: "naive_stop s i = Some (True, ?s)" using ic sk p kl by (simp add: naive_stop_def not_le)
  have key: "key_of (id_slot ?s) = (key_of (id_slot s))(i := None)" by (simp add: key_upd)
  have "ring_ok ?s" using r ic unfolding ring_ok_def by (auto simp: not_le)
  moreover have "bag_ok (slot_at (nv_slots ?s)) (key_of (id_slot ?s)) (id_pos ?s)"
    unfolding key using p(3) slot_at_upd [OF kl] by simp
  moreover have "timer_ok ?s j k" if "key_of (id_slot ?s) j = Some k" for j k
    using that v unfolding key by (auto simp: naive_inv_def timer_ok_def split: if_splits)
  moreover have "nv_live ?s = of_nat (card (dom (key_of (id_slot ?s))))"
  proof -
    have "i \<in> dom (key_of (id_slot s))" using Some by blast
    then have "card (dom (key_of (id_slot s))) = Suc (card (dom (key_of (id_slot s)) - {i}))"
      using ring_finite_keys [of "id_slot s"] by (metis card_Suc_Diff1)
    then show ?thesis unfolding key using v by (simp add: naive_inv_def)
  qed
  ultimately have inv: "naive_inv ?s" unfolding naive_inv_def by blast
  have "naive_live_of ?s = (naive_live_of s)(i := None)"
  proof
    fix j show "naive_live_of ?s j = ((naive_live_of s)(i := None)) j"
      using key unfolding naive_live_of_def by (cases "j = i") (simp_all split: option.split)
  qed
  moreover have "naive_live_of s i \<noteq> None" using naive_live_dom [OF v] Some by blast
  ultimately show ?thesis using run inv by (intro exI [of _ ?s]) (simp add: naive_now_of_def)
qed

lemma naive_tick_spec:
  assumes v: "naive_inv s" and ov: "naive_now_of s + 1 < 2 ^ 64"
  shows "\<exists>s'. naive_tick s = Some (of_nat (card (due (naive_live_of s) (Suc (naive_now_of s)))), s') \<and> naive_inv s' \<and>
    naive_now_of s' = Suc (naive_now_of s) \<and> naive_live_of s' = later (naive_live_of s) (Suc (naive_now_of s))"
proof -
  have r: "ring_ok s" and b: "bag_ok (slot_at (nv_slots s)) (key_of (id_slot s)) (id_pos s)"
    and tm: "\<And>i k. key_of (id_slot s) i = Some k \<Longrightarrow> timer_ok s i k"
    and lv: "nv_live s = of_nat (card (dom (key_of (id_slot s))))" using v by (simp_all add: naive_inv_def)
  obtain c where c: "c \<le> 58" "num_slots s = 2 ^ c" "length (nv_slots s) = 2 ^ c" using r unfolding ring_ok_def by blast
  have u: "unat (num_slots s) = 2 ^ c" using c(1,2) unat_exp64 [of c] by simp
  have now: "unat (nv_now s + 1) = Suc (unat (nv_now s))" using ov by (simp add: naive_now_of_def unat_Suc64)
  let ?k = "Suc (unat (nv_now s)) mod 2 ^ c"
  let ?xs = "nv_slots s ! ?k"
  have kl: "?k < length (nv_slots s)" using c(3) by simp
  have idx: "unat ((nv_now s + 1) AND (num_slots s - 1)) = ?k" using ring_mask [OF c(2)] c(1) now by simp
  have at: "slot_at (nv_slots s) ?k = ?xs" using kl by (simp add: slot_at_def)
  have xs: "distinct ?xs" "i \<in> set ?xs \<longleftrightarrow> key_of (id_slot s) i = Some ?k" for i
    using b unfolding bag_ok_def at [symmetric] by blast+
  have cap: "i < id_cap s" if "i \<in> set ?xs" for i using key_cap [OF r] xs(2) that by blast
  have live: "\<exists>e. naive_live_of s i = Some e \<and> unat (nv_now s) < e \<and> (k = ?k \<longleftrightarrow> e \<le> Suc (unat (nv_now s)))"
    if ik: "key_of (id_slot s) i = Some k" for i k
  proof -
    obtain e where e: "id_expire s i = Some e" "k = unat e mod 2 ^ c" "unat (nv_now s) < unat e" "unat e < unat (nv_now s) + 2 ^ c"
      using tm [OF ik] u unfolding timer_ok_def by auto
    have "k = ?k \<longleftrightarrow> unat e = Suc (unat (nv_now s))"
      using same_slot [of "unat e" "2 ^ c" "Suc (unat (nv_now s))" "Suc (unat (nv_now s))"] e by auto
    then show ?thesis using e ik by (auto simp: naive_live_of_def)
  qed
  have due: "due (naive_live_of s) (Suc (naive_now_of s)) = set ?xs"
  proof (intro set_eqI iffI)
    fix i assume "i \<in> set ?xs"
    then show "i \<in> due (naive_live_of s) (Suc (naive_now_of s))" using live [of i ?k] xs(2) by (auto simp: due_def naive_now_of_def)
  next
    fix i assume i: "i \<in> due (naive_live_of s) (Suc (naive_now_of s))"
    then have "i \<in> dom (key_of (id_slot s))" using naive_live_dom [OF v] by (auto simp: due_def)
    then obtain k where k: "key_of (id_slot s) i = Some k" by blast
    then have "k = ?k" using live [OF k] i by (auto simp: due_def naive_now_of_def)
    then show "i \<in> set ?xs" using xs(2) k by simp
  qed
  let ?s = "s\<lparr>nv_now := nv_now s + 1, id_slot := (\<lambda>i. if i \<in> set ?xs then Some (- 1) else id_slot s i),
    nv_slots := (nv_slots s)[?k := []], nv_live := nv_live s - of_nat (length ?xs)\<rparr>"
  have run: "naive_tick s = Some (of_nat (length ?xs), ?s)"
    using mark_absent_spec [OF cap, of ?xs] kl idx by (simp add: naive_tick_def Let_def)
  have key: "key_of (id_slot ?s) = (\<lambda>i. if i \<in> set ?xs then None else key_of (id_slot s) i)"
    by (auto simp: key_of_def fun_eq_iff)
  have "ring_ok ?s"
  proof -
    have "id_slot ?s i = None \<longleftrightarrow> id_cap ?s \<le> i" for i
    proof (cases "i \<in> set ?xs")
      case True
      then show ?thesis using cap [OF True] by (simp add: not_le)
    next
      case False
      then show ?thesis using r by (simp add: ring_ok_def)
    qed
    moreover have "\<exists>k \<le> 58. num_slots ?s = 2 ^ k \<and> length (nv_slots ?s) = 2 ^ k" using c by auto
    moreover have "cap_ok 60 (id_cap ?s)" using r by (simp add: ring_ok_def)
    ultimately show ?thesis unfolding ring_ok_def by blast
  qed
  moreover have "bag_ok (slot_at (nv_slots ?s)) (key_of (id_slot ?s)) (id_pos ?s)"
    using bag_clear [OF b, of ?k] unfolding key at by (simp add: slot_at_upd [OF kl])
  moreover have "timer_ok ?s i k" if ik: "key_of (id_slot ?s) i = Some k" for i k
  proof -
    have k: "i \<notin> set ?xs" "key_of (id_slot s) i = Some k" using ik unfolding key by (simp_all split: if_splits)
    then have "k \<noteq> ?k" using xs(2) by auto
    then show ?thesis using tm [OF k(2)] live [OF k(2)] k(2) now by (auto simp: timer_ok_def naive_live_of_def)
  qed
  moreover have "nv_live ?s = of_nat (card (dom (key_of (id_slot ?s))))"
  proof -
    have d: "dom (key_of (id_slot ?s)) = dom (key_of (id_slot s)) - set ?xs" unfolding key by (auto split: if_splits)
    have sub: "set ?xs \<subseteq> dom (key_of (id_slot s))" using xs(2) by auto
    have "card (dom (key_of (id_slot ?s))) = card (dom (key_of (id_slot s))) - length ?xs"
      unfolding d using card_Diff_subset [OF finite_set sub] distinct_card [OF xs(1)] by simp
    moreover have "length ?xs \<le> card (dom (key_of (id_slot s)))"
      using card_mono [OF ring_finite_keys sub] distinct_card [OF xs(1)] by simp
    ultimately show ?thesis using lv by (simp add: of_nat_diff)
  qed
  ultimately have inv: "naive_inv ?s" unfolding naive_inv_def by blast
  have "naive_live_of ?s i = later (naive_live_of s) (Suc (naive_now_of s)) i" for i
  proof (cases "i \<in> set ?xs")
    case True
    then have "naive_live_of ?s i = None" unfolding naive_live_of_def key by simp
    moreover have "i \<in> due (naive_live_of s) (Suc (naive_now_of s))" using due True by simp
    ultimately show ?thesis by (auto simp: later_eq due_def)
  next
    case False
    then have "naive_live_of ?s i = naive_live_of s i" using key unfolding naive_live_of_def by (simp split: option.split)
    moreover have "i \<notin> due (naive_live_of s) (Suc (naive_now_of s))" using due False by simp
    ultimately show ?thesis by (auto simp: later_eq due_def split: option.splits)
  qed
  then have "naive_live_of ?s = later (naive_live_of s) (Suc (naive_now_of s))" by blast
  moreover have "card (due (naive_live_of s) (Suc (naive_now_of s))) = length ?xs" using due distinct_card [OF xs(1)] by simp
  ultimately show ?thesis using run inv now by (intro exI [of _ ?s]) (simp add: naive_now_of_def)
qed

lemma naive_advance_spec:
  assumes v: "naive_inv s" and le: "naive_now_of s \<le> unat t" and d: "\<And>i e. naive_live_of s i = Some e \<Longrightarrow> unat t < e"
  shows "\<exists>s'. naive_advance s t = Some s' \<and> naive_inv s' \<and> naive_now_of s' = unat t \<and> naive_live_of s' = naive_live_of s"
proof -
  let ?s = "s\<lparr>nv_now := t\<rparr>"
  have "timer_ok ?s i k" if ik: "key_of (id_slot s) i = Some k" for i k
  proof -
    obtain e where e: "id_expire s i = Some e" "k = unat e mod unat (num_slots s)" "unat e < unat (nv_now s) + unat (num_slots s)"
      using v ik unfolding naive_inv_def timer_ok_def by blast
    have "naive_live_of s i = Some (unat e)" using e(1) ik by (simp add: naive_live_of_def)
    then show ?thesis using e d le by (fastforce simp: timer_ok_def naive_now_of_def)
  qed
  then have "naive_inv ?s" using v by (simp add: naive_inv_def ring_ok_def)
  then show ?thesis by (intro exI [of _ ?s]) (simp add: naive_advance_def naive_now_of_def naive_live_of_def fun_eq_iff split: option.split)
qed

lemma naive_create_spec: "naive_inv naive_create" "naive_now_of naive_create = 0" "naive_live_of naive_create = Map.empty"
proof -
  have "ring_ok naive_create"
    unfolding ring_ok_def naive_create_def cap_ok_def by (auto intro!: exI [of _ 8])
  moreover have k: "key_of (id_slot naive_create) = Map.empty" by (simp add: naive_create_def key_of_def fun_eq_iff)
  moreover have "bag_ok (slot_at (nv_slots naive_create)) Map.empty (id_pos naive_create)"
    by (simp add: bag_ok_def slot_at_def naive_create_def)
  ultimately show "naive_inv naive_create" by (simp add: naive_inv_def) (simp add: naive_create_def)
  show "naive_now_of naive_create = 0" by (simp add: naive_now_of_def naive_create_def)
  show "naive_live_of naive_create = Map.empty" using k by (simp add: naive_live_of_def fun_eq_iff)
qed

interpretation nv: timer_store cts_naive_vtable naive_inv naive_now_of naive_live_of "\<lambda>t. t" "2 ^ 60" "2 ^ 58"
proof unfold_locales
  fix s :: naive assume v: "naive_inv s"
  show "finite (dom (naive_live_of s))" unfolding naive_live_dom [OF v] by (rule ring_finite_keys)
  show "vt_size cts_naive_vtable s = of_nat (card (dom (naive_live_of s)))"
    using v unfolding naive_live_dom [OF v] by (simp add: cts_naive_vtable_def naive_size_def naive_inv_def)
qed (simp_all add: cts_naive_vtable_def naive_create_spec naive_start_spec naive_stop_spec naive_tick_spec naive_advance_spec del: not_None_eq)

end
