(* ===== verification/Heap_Store.thy ===== *)
theory Heap_Store
  imports Slots
begin

text \<open>
  The binary min-heap src/benchmarks/c/impl/heap.c: an array of nodes ordered by expiry time, and an array of the
  positions of the ids, for deletion. The heap is an interpretation of the contract \<open>timer_store\<close> for ids
  below \<open>2 ^ 59\<close> and all TTLs.
\<close>

section \<open>The code\<close>

record hnode =
  hn_expire :: u64
  hn_id :: u64

record heap_store =
  hp_heap :: "nat \<rightharpoonup> hnode"
  hp_len :: nat
  hp_cap :: nat
  hp_pos :: "u64 \<rightharpoonup> int"
  hp_pos_cap :: u64
  hp_now :: u64

definition heap_create :: heap_store where
  "heap_create = \<lparr>hp_heap = Map.empty, hp_len = 0, hp_cap = 0, hp_pos = Map.empty, hp_pos_cap = 0, hp_now = 0\<rparr>"

definition ensure_pos_cap :: "heap_store \<Rightarrow> u64 \<Rightarrow> heap_store option" where
  "ensure_pos_cap s i =
     (if i < hp_pos_cap s then Some s
      else do {
        nc \<leftarrow> double_past i (if hp_pos_cap s \<noteq> 0 then hp_pos_cap s else 1024);
        _ \<leftarrow> alloc nc 8;
        Some (s\<lparr>hp_pos := (\<lambda>j. if hp_pos_cap s \<le> j \<and> j < nc then Some (- 1) else hp_pos s j), hp_pos_cap := nc\<rparr>)
      })"

definition heap_get :: "heap_store \<Rightarrow> nat \<Rightarrow> hnode option" where
  "heap_get s i = (if i < hp_cap s then hp_heap s i else None)"

definition heap_set :: "heap_store \<Rightarrow> nat \<Rightarrow> hnode \<Rightarrow> heap_store option" where
  "heap_set s i v =
     (if i < hp_cap s
      then do {
        p \<leftarrow> wr (hp_pos_cap s) (hp_pos s) (hn_id v) (int i);
        Some (s\<lparr>hp_heap := (hp_heap s)(i \<mapsto> v), hp_pos := p\<rparr>)
      }
      else None)"

fun sift_up :: "heap_store \<Rightarrow> nat \<Rightarrow> heap_store option" where
  "sift_up s i =
     (if i > 0
      then let p = (i - 1) div 2 in do {
        a \<leftarrow> heap_get s p;
        b \<leftarrow> heap_get s i;
        (if hn_expire a \<le> hn_expire b then Some s
         else do {
           s \<leftarrow> heap_set s p b;
           s \<leftarrow> heap_set s i a;
           sift_up s p
         })
      }
      else Some s)"

declare sift_up.simps [simp del]

text \<open>The two comparisons of the loop of \<open>sift_down\<close>.\<close>

definition smaller :: "heap_store \<Rightarrow> nat \<Rightarrow> nat \<Rightarrow> nat option" where
  "smaller s c m =
     (if c < hp_len s
      then do {
        a \<leftarrow> heap_get s c;
        b \<leftarrow> heap_get s m;
        Some (if hn_expire a < hn_expire b then c else m)
      }
      else Some m)"

lemma heap_set_len: "heap_set s i v = Some s' \<Longrightarrow> hp_len s' = hp_len s \<and> hp_now s' = hp_now s"
  by (auto simp: heap_set_def bind_eq_Some_conv split: if_splits)

lemma smaller_range: "smaller s c m = Some m' \<Longrightarrow> m' = m \<or> m' = c \<and> c < hp_len s"
  by (auto simp: smaller_def bind_eq_Some_conv split: if_splits)

function sift_down :: "heap_store \<Rightarrow> nat \<Rightarrow> heap_store option" where
  "sift_down s i = do {
     m \<leftarrow> smaller s (2 * i + 1) i;
     m \<leftarrow> smaller s (2 * i + 2) m;
     (if m = i then Some s
      else do {
        tmp \<leftarrow> heap_get s m;
        v \<leftarrow> heap_get s i;
        s \<leftarrow> heap_set s m v;
        s \<leftarrow> heap_set s i tmp;
        sift_down s m
      })
   }"
  by pat_completeness auto
termination
  by (relation "measure (\<lambda>(s, i). hp_len s - i)") (auto dest!: heap_set_len smaller_range)

declare sift_down.simps [simp del]

text \<open>The reallocation of the node array in \<open>heap_start\<close>.\<close>

definition grow_nodes :: "heap_store \<Rightarrow> heap_store option" where
  "grow_nodes s =
     (if hp_len s = hp_cap s
      then do {
        let cap = (if hp_cap s \<noteq> 0 then hp_cap s * 2 else 1024);
        _ \<leftarrow> (if cap * 16 < 2 ^ 64 then Some () else None);
        Some (s\<lparr>hp_cap := cap\<rparr>)
      }
      else Some s)"

definition heap_start :: "heap_store \<Rightarrow> u64 \<Rightarrow> u64 \<Rightarrow> heap_store option" where
  "heap_start s i ttl = do {
     s \<leftarrow> ensure_pos_cap s i;
     s \<leftarrow> grow_nodes s;
     let k = hp_len s;
     let s = s\<lparr>hp_len := k + 1\<rparr>;
     s \<leftarrow> heap_set s k \<lparr>hn_expire = hp_now s + ttl, hn_id = i\<rparr>;
     sift_up s k
   }"

definition heap_stop :: "heap_store \<Rightarrow> u64 \<Rightarrow> (bool \<times> heap_store) option" where
  "heap_stop s i =
     (if i \<ge> hp_pos_cap s then Some (False, s)
      else do {
        p \<leftarrow> rd (hp_pos_cap s) (hp_pos s) i;
        (if p < 0 then Some (False, s)
         else do {
           let k = nat p;
           let last_idx = hp_len s - 1;
           pos \<leftarrow> wr (hp_pos_cap s) (hp_pos s) i (- 1);
           let s = s\<lparr>hp_len := hp_len s - 1, hp_pos := pos\<rparr>;
           s \<leftarrow> (if k \<noteq> last_idx
                then do {
                  v \<leftarrow> heap_get s last_idx;
                  s \<leftarrow> heap_set s k v;
                  s \<leftarrow> sift_down s k;
                  sift_up s k
                }
                else Some s);
           Some (True, s)
         })
      })"

text \<open>The body of the loop of \<open>heap_tick\<close>, and the loop.\<close>

definition pop_root :: "heap_store \<Rightarrow> hnode \<Rightarrow> heap_store option" where
  "pop_root s v = do {
     pos \<leftarrow> wr (hp_pos_cap s) (hp_pos s) (hn_id v) (- 1);
     let last_idx = hp_len s - 1;
     let s = s\<lparr>hp_len := hp_len s - 1, hp_pos := pos\<rparr>;
     (if last_idx > 0
      then do {
        v \<leftarrow> heap_get s last_idx;
        s \<leftarrow> heap_set s 0 v;
        sift_down s 0
      }
      else Some s)
   }"

lemma sift_down_len: "sift_down s i = Some s' \<Longrightarrow> hp_len s' = hp_len s \<and> hp_now s' = hp_now s"
proof (induction s i rule: sift_down.induct)
  case (1 s i)
  from 1(2) obtain m m' where m: "smaller s (2 * i + 1) i = Some m" "smaller s (2 * i + 2) m = Some m'"
    unfolding sift_down.simps [of s i] by (auto simp: bind_eq_Some_conv)
  show ?case
  proof (cases "m' = i")
    case True
    then show ?thesis using 1(2) m unfolding sift_down.simps [of s i] by simp
  next
    case False
    then obtain a b s1 s2 where s: "heap_get s m' = Some a" "heap_get s i = Some b" "heap_set s m' b = Some s1" "heap_set s1 i a = Some s2"
        "sift_down s2 m' = Some s'"
      using 1(2) m unfolding sift_down.simps [of s i] by (auto simp: bind_eq_Some_conv)
    show ?thesis using 1(1) [OF m False s(1-4)] s(5) heap_set_len [OF s(3)] heap_set_len [OF s(4)] by simp
  qed
qed

lemma pop_root_len: "pop_root s v = Some s' \<Longrightarrow> hp_len s' = hp_len s - 1 \<and> hp_now s' = hp_now s"
  by (auto simp: pop_root_def Let_def bind_eq_Some_conv split: if_splits dest!: sift_down_len heap_set_len)

function pop_due :: "heap_store \<Rightarrow> u64 \<Rightarrow> (u64 \<times> heap_store) option" where
  "pop_due s fired =
     (if hp_len s > 0
      then do {
        v \<leftarrow> heap_get s 0;
        (if hn_expire v \<le> hp_now s
         then do { s \<leftarrow> pop_root s v; pop_due s (fired + 1) }
         else Some (fired, s))
      }
      else Some (fired, s))"
  by pat_completeness auto
termination
  by (relation "measure (\<lambda>(s, f). hp_len s)") (auto dest!: pop_root_len)

declare pop_due.simps [simp del]

definition heap_tick :: "heap_store \<Rightarrow> (u64 \<times> heap_store) option" where
  "heap_tick s = pop_due (s\<lparr>hp_now := hp_now s + 1\<rparr>) 0"

definition heap_size :: "heap_store \<Rightarrow> u64" where
  "heap_size s = of_nat (hp_len s)"

definition heap_advance :: "heap_store \<Rightarrow> u64 \<Rightarrow> heap_store option" where
  "heap_advance s target = Some (s\<lparr>hp_now := target\<rparr>)"

definition cts_heap_vtable :: "heap_store cts_vtable" where
  "cts_heap_vtable = \<lparr>vt_create = heap_create, vt_start = heap_start, vt_stop = heap_stop, vt_tick = heap_tick,
     vt_size = heap_size, vt_advance = heap_advance\<rparr>"

end
