(* ===== verification/Heap_Correct.thy ===== *)
theory Heap_Correct
  imports Heap_Store
begin

text \<open>
  Correctness of the heap: the order of the array while an element is out of place, the positions of the ids,
  and the interpretation of the contract \<open>timer_store\<close>.
\<close>

section \<open>The order\<close>

definition par :: "nat \<Rightarrow> nat" where "par j = (j - 1) div 2"

text \<open>The first n elements are ordered, except that the element at i can be too small or too large for its place.\<close>

definition hole :: "(nat \<Rightarrow> u64) \<Rightarrow> nat \<Rightarrow> nat \<Rightarrow> bool" where
  "hole k n i \<longleftrightarrow> (\<forall>j. 0 < j \<and> j < n \<and> j \<noteq> i \<and> par j \<noteq> i \<longrightarrow> k (par j) \<le> k j) \<and>
     (\<forall>j. 0 < j \<and> j < n \<and> par j = i \<and> 0 < i \<longrightarrow> k (par i) \<le> k j)"

definition not_small :: "(nat \<Rightarrow> u64) \<Rightarrow> nat \<Rightarrow> bool" where
  "not_small k i \<longleftrightarrow> 0 < i \<longrightarrow> k (par i) \<le> k i"

definition not_large :: "(nat \<Rightarrow> u64) \<Rightarrow> nat \<Rightarrow> nat \<Rightarrow> bool" where
  "not_large k n i \<longleftrightarrow> (\<forall>j. 0 < j \<and> j < n \<and> par j = i \<longrightarrow> k i \<le> k j)"

definition min_heap :: "(nat \<Rightarrow> u64) \<Rightarrow> nat \<Rightarrow> bool" where
  "min_heap k n \<longleftrightarrow> (\<forall>j. 0 < j \<and> j < n \<longrightarrow> k (par j) \<le> k j)"

lemma par_lt [simp]: "0 < j \<Longrightarrow> par j < j"
  by (simp add: par_def)

lemma par_neq [simp]: "0 < j \<Longrightarrow> par j \<noteq> j" "0 < j \<Longrightarrow> j \<noteq> par j"
  using par_lt [of j] by (metis less_irrefl)+

lemma par_child: "0 < j \<Longrightarrow> par j = i \<longleftrightarrow> j = 2 * i + 1 \<or> j = 2 * i + 2"
  by (auto simp: par_def)

lemma heap_of_hole: "hole k n i \<Longrightarrow> not_small k i \<Longrightarrow> not_large k n i \<Longrightarrow> min_heap k n"
  unfolding hole_def not_small_def not_large_def min_heap_def by metis

lemma hole_of_heap: "min_heap k n \<Longrightarrow> hole (k(i := x)) n i"
proof -
  assume h: "min_heap k n"
  have "k (par i) \<le> k j" if j: "0 < j" "j < n" "par j = i" "0 < i" for j
  proof -
    have "i < j" using par_lt [OF j(1)] j(3) by simp
    then have "k (par i) \<le> k i" "k i \<le> k j" using h j unfolding min_heap_def by auto
    then show ?thesis by (rule order_trans)
  qed
  moreover have "j \<noteq> i" if "0 < j" "par j = i" for j using that by auto
  ultimately show ?thesis using h unfolding hole_def min_heap_def by auto
qed

lemma hole_mono: "hole k n i \<Longrightarrow> n' \<le> n \<Longrightarrow> hole k n' i"
  unfolding hole_def by auto

lemma heap_mono: "min_heap k n \<Longrightarrow> n' \<le> n \<Longrightarrow> min_heap k n'"
  unfolding min_heap_def by auto

lemma heap_push: "min_heap k n \<Longrightarrow> hole (k(n := x)) (Suc n) n \<and> not_large (k(n := x)) (Suc n) n"
proof -
  assume h: "min_heap k n"
  have "par j \<noteq> n" if "0 < j" "j < Suc n" for j using par_lt [OF that(1)] that(2) by simp
  then show ?thesis using h unfolding hole_def not_large_def min_heap_def by auto
qed

lemma hole_down:
  assumes h: "hole k n i" and m: "0 < m" "m < n" "par m = i" and min: "\<And>j. 0 < j \<Longrightarrow> j < n \<Longrightarrow> par j = i \<Longrightarrow> k m \<le> k j"
    and lt: "k m < k i"
  shows "hole (k(i := k m, m := k i)) n m \<and> not_small (k(i := k m, m := k i)) m"
proof -
  let ?k = "k(i := k m, m := k i)"
  have im: "i < m" using m par_lt [of m] by simp
  have a: "?k (par j) \<le> ?k j" if j: "0 < j" "j < n" "j \<noteq> m" "par j \<noteq> m" for j
  proof (cases "j = i")
    case True
    then have "par j \<noteq> i" using j(1) by simp
    moreover have "k (par j) \<le> k m" using h m j(1) True unfolding hole_def by auto
    ultimately show ?thesis using True im j by simp
  next
    case False
    show ?thesis
    proof (cases "par j = i")
      case True
      then show ?thesis using min [OF j(1,2)] False im j by simp
    next
      case f: False
      then show ?thesis using h j False unfolding hole_def by simp
    qed
  qed
  have b: "?k (par m) \<le> ?k j" if j: "0 < j" "j < n" "par j = m" for j
  proof -
    have "m < j" using par_lt [OF j(1)] j(3) by simp
    then have "k (par j) \<le> k j" using h j m im unfolding hole_def by (metis less_irrefl less_trans)
    then show ?thesis using j m im \<open>m < j\<close> by simp
  qed
  have "not_small ?k m" using m im lt by (simp add: not_small_def)
  then show ?thesis using a b unfolding hole_def by blast
qed

lemma hole_up:
  assumes h: "hole k n i" "not_large k n i" and i: "0 < i" "i < n" and lt: "k i < k (par i)"
  shows "hole (k(par i := k i, i := k (par i))) n (par i) \<and> not_large (k(par i := k i, i := k (par i))) n (par i)"
proof -
  let ?p = "par i" let ?k = "k(?p := k i, i := k ?p)"
  have pi: "?p < i" using i by simp
  have a: "?k (par j) \<le> ?k j" if j: "0 < j" "j < n" "j \<noteq> ?p" "par j \<noteq> ?p" for j
  proof -
    have ji: "j \<noteq> i" using j(4) by auto
    show ?thesis
    proof (cases "par j = i")
      case True
      then show ?thesis using h(1) j i ji pi unfolding hole_def by auto
    next
      case False
      then show ?thesis using h(1) j ji unfolding hole_def by simp
    qed
  qed
  have up: "k (par ?p) \<le> k ?p" if "0 < ?p"
  proof -
    have "par ?p < ?p" using that by (rule par_lt)
    then have "par ?p < i" using pi by (rule order.strict_trans)
    then have "?p \<noteq> i" "par ?p \<noteq> i" using pi by (metis less_irrefl)+
    moreover have "?p < n" using pi i(2) by (rule order.strict_trans)
    ultimately have "?p \<noteq> i" "par ?p \<noteq> i" "?p < n" by blast+
    then show ?thesis using h(1) that unfolding hole_def by blast
  qed
  have sib: "k ?p \<le> k j" if j: "0 < j" "j < n" "par j = ?p" "j \<noteq> i" for j
    using h(1) j pi unfolding hole_def by (metis less_irrefl)
  have b: "?k (par ?p) \<le> ?k j" if j: "0 < j" "j < n" "par j = ?p" "0 < ?p" for j
  proof (cases "j = i")
    case True
    have "par ?p < ?p" using j(4) by (rule par_lt)
    then show ?thesis using True up [OF j(4)] pi by simp
  next
    case False
    have "par ?p < ?p" using j(4) by (rule par_lt)
    moreover have "j \<noteq> ?p" using par_neq(1) [OF j(1)] j(3) by simp
    ultimately show ?thesis using False up [OF j(4)] sib [OF j(1-3) False] pi by simp
  qed
  have c: "?k ?p \<le> ?k j" if j: "0 < j" "j < n" "par j = ?p" for j
  proof (cases "j = i")
    case True
    then show ?thesis using lt pi by simp
  next
    case False
    have "j \<noteq> ?p" using par_neq(1) [OF j(1)] j(3) by simp
    then show ?thesis using False sib [OF j False] lt pi by simp
  qed
  show ?thesis using a b c unfolding hole_def not_large_def by blast
qed

text \<open>The least element is at the root.\<close>

lemma heap_root: "min_heap k n \<Longrightarrow> j < n \<Longrightarrow> k 0 \<le> k j"
proof (induction j rule: less_induct)
  case (less j)
  show ?case
  proof (cases "j = 0")
    case False
    then have "par j < j" by simp
    then have "k 0 \<le> k (par j)" using less by simp
    moreover have "k (par j) \<le> k j" using less.prems False unfolding min_heap_def by simp
    ultimately show ?thesis by (rule order_trans)
  qed simp
qed


section \<open>The arrays\<close>

definition hkey :: "heap_store \<Rightarrow> nat \<Rightarrow> u64" where
  "hkey s j = hn_expire (the (hp_heap s j))"

text \<open>The first n nodes are the live timers, and the positions of their ids are right.\<close>

definition nodes_ok :: "heap_store \<Rightarrow> bool" where
  "nodes_ok s \<longleftrightarrow> hp_len s \<le> hp_cap s \<and>
     (\<forall>j < hp_len s. \<exists>v. hp_heap s j = Some v \<and> hp_pos s (hn_id v) = Some (int j)) \<and>
     (\<forall>i k. hp_pos s i = Some k \<and> 0 \<le> k \<longrightarrow> nat k < hp_len s \<and> map_option hn_id (hp_heap s (nat k)) = Some i) \<and>
     (\<forall>i. hp_pos s i = None \<longleftrightarrow> hp_pos_cap s \<le> i)"

definition heap_live_of :: "heap_store \<Rightarrow> u64 \<rightharpoonup> nat" where
  "heap_live_of s i = (case hp_pos s i of None \<Rightarrow> None
     | Some k \<Rightarrow> if k < 0 then None else map_option (\<lambda>v. unat (hn_expire v)) (hp_heap s (nat k)))"

lemma nodes_ok_cong:
  assumes "hp_heap t = hp_heap s" "hp_pos t = hp_pos s" "hp_pos_cap t = hp_pos_cap s" "hp_len t = hp_len s"
    and "hp_len t \<le> hp_cap t" and n: "nodes_ok s"
  shows "nodes_ok t"
  using n assms(5) unfolding nodes_ok_def assms(1-4) by blast

lemma node_at:
  assumes "nodes_ok s" "j < hp_len s"
  obtains v where "hp_heap s j = Some v" "hp_pos s (hn_id v) = Some (int j)" "heap_get s j = Some v" "hn_id v < hp_pos_cap s"
    "j < hp_cap s" "hkey s j = hn_expire v" "heap_live_of s (hn_id v) = Some (unat (hn_expire v))"
proof -
  obtain v where v: "hp_heap s j = Some v" "hp_pos s (hn_id v) = Some (int j)" using assms unfolding nodes_ok_def by blast
  have "hp_pos s (hn_id v) = None \<longleftrightarrow> hp_pos_cap s \<le> hn_id v" "j < hp_cap s" using assms unfolding nodes_ok_def by auto
  then show ?thesis using that v by (simp add: heap_get_def hkey_def heap_live_of_def not_le)
qed

lemma live_node:
  assumes "nodes_ok s" "heap_live_of s i = Some e"
  obtains j v where "j < hp_len s" "hp_pos s i = Some (int j)" "hp_heap s j = Some v" "hn_id v = i" "unat (hn_expire v) = e" "i < hp_pos_cap s"
proof -
  obtain k where k: "hp_pos s i = Some k" "0 \<le> k" "map_option (\<lambda>v. unat (hn_expire v)) (hp_heap s (nat k)) = Some e"
    using assms(2) by (auto simp: heap_live_of_def not_less split: option.splits if_splits)
  have n: "nat k < hp_len s" "map_option hn_id (hp_heap s (nat k)) = Some i" "hp_pos s i = None \<longleftrightarrow> hp_pos_cap s \<le> i"
    using assms(1) k(1,2) unfolding nodes_ok_def by blast+
  then show ?thesis using that [of "nat k"] k by (auto simp: not_le)
qed

lemma heap_live_none: "nodes_ok s \<Longrightarrow> heap_live_of s i = None \<longleftrightarrow> hp_pos s i = None \<or> (\<exists>k < 0. hp_pos s i = Some k)"
proof -
  assume n: "nodes_ok s"
  have "hp_heap s (nat k) \<noteq> None" if "hp_pos s i = Some k" "0 \<le> k" for k using n that unfolding nodes_ok_def by fastforce
  then show ?thesis by (auto simp: heap_live_of_def split: option.split)
qed

text \<open>Two states that differ in the order of the nodes only.\<close>

definition reordered :: "heap_store \<Rightarrow> heap_store \<Rightarrow> bool" where
  "reordered s s' \<longleftrightarrow> nodes_ok s' \<and> hp_len s' = hp_len s \<and> hp_cap s' = hp_cap s \<and> hp_pos_cap s' = hp_pos_cap s \<and> hp_now s' = hp_now s \<and>
     heap_live_of s' = heap_live_of s"

lemma reordered_trans: "reordered s s' \<Longrightarrow> reordered s' s'' \<Longrightarrow> reordered s s''"
  by (simp add: reordered_def)

lemma swap_nodes:
  assumes n: "nodes_ok s" and ab: "a < hp_len s" "b < hp_len s" "a \<noteq> b" and v: "heap_get s a = Some va" "heap_get s b = Some vb"
  shows "\<exists>s1 s2. heap_set s a vb = Some s1 \<and> heap_set s1 b va = Some s2 \<and> reordered s s2 \<and>
    hkey s2 = (hkey s)(a := hkey s b, b := hkey s a)"
proof -
  have len: "a < hp_cap s" "b < hp_cap s" using n ab unfolding nodes_ok_def by auto
  have h: "hp_heap s a = Some va" "hp_heap s b = Some vb" using v len by (simp_all add: heap_get_def)
  have A: "hp_pos s (hn_id va) = Some (int a)" "hn_id va < hp_pos_cap s" by (rule node_at [OF n ab(1)], simp add: h(1))+
  have B: "hp_pos s (hn_id vb) = Some (int b)" "hn_id vb < hp_pos_cap s" by (rule node_at [OF n ab(2)], simp add: h(2))+
  have ne: "hn_id va \<noteq> hn_id vb" using A(1) B(1) ab(3) by auto
  let ?s = "s\<lparr>hp_heap := (hp_heap s)(a \<mapsto> vb, b \<mapsto> va), hp_pos := (hp_pos s)(hn_id vb \<mapsto> int a, hn_id va \<mapsto> int b)\<rparr>"
  let ?s1 = "s\<lparr>hp_heap := (hp_heap s)(a \<mapsto> vb), hp_pos := (hp_pos s)(hn_id vb \<mapsto> int a)\<rparr>"
  have 1: "heap_set s a vb = Some ?s1" "heap_set ?s1 b va = Some ?s" using len A(2) B(2) by (simp_all add: heap_set_def)
  have other: "hp_pos s i = Some k \<Longrightarrow> 0 \<le> k \<Longrightarrow> i \<noteq> hn_id va \<Longrightarrow> i \<noteq> hn_id vb \<Longrightarrow> nat k \<noteq> a \<and> nat k \<noteq> b" for i k
    using n h unfolding nodes_ok_def by fastforce
  have "nodes_ok ?s"
  proof -
    have "\<exists>v. hp_heap ?s j = Some v \<and> hp_pos ?s (hn_id v) = Some (int j)" if j: "j < hp_len ?s" for j
    proof -
      obtain v where v: "hp_heap s j = Some v" "hp_pos s (hn_id v) = Some (int j)" using n j unfolding nodes_ok_def by auto
      have "j \<noteq> a \<Longrightarrow> hn_id v \<noteq> hn_id va" "j \<noteq> b \<Longrightarrow> hn_id v \<noteq> hn_id vb" using v(2) A(1) B(1) by auto
      then show ?thesis using v ne by (cases "j = a"; cases "j = b") (auto simp: h)
    qed
    moreover have "nat k < hp_len ?s \<and> map_option hn_id (hp_heap ?s (nat k)) = Some i" if "hp_pos ?s i = Some k" "0 \<le> k" for i k
    proof (cases "i = hn_id va \<or> i = hn_id vb")
      case True
      then show ?thesis using that ab ne by (auto split: if_splits)
    next
      case False
      then have p: "hp_pos s i = Some k" using that(1) by (simp split: if_splits)
      then have "nat k < hp_len s \<and> map_option hn_id (hp_heap s (nat k)) = Some i" using n that(2) unfolding nodes_ok_def by blast
      then show ?thesis using other [OF p that(2)] False by simp
    qed
    moreover have "hp_pos ?s i = None \<longleftrightarrow> hp_pos_cap ?s \<le> i" for i
    proof -
      have "hp_pos s i = None \<longleftrightarrow> hp_pos_cap s \<le> i" using n unfolding nodes_ok_def by blast
      then show ?thesis using A(2) B(2) by (auto simp: not_le)
    qed
    moreover have "hp_len ?s \<le> hp_cap ?s" using n unfolding nodes_ok_def by simp
    ultimately show ?thesis unfolding nodes_ok_def by blast
  qed
  moreover have "heap_live_of ?s i = heap_live_of s i" for i
  proof (cases "i = hn_id va \<or> i = hn_id vb")
    case True
    then show ?thesis using A B h ne ab(3) by (auto simp: heap_live_of_def)
  next
    case False
    then have "hp_pos ?s i = hp_pos s i" by simp
    then show ?thesis using other [of i] False unfolding heap_live_of_def by (auto split: option.split)
  qed
  ultimately have "reordered s ?s" by (simp add: reordered_def fun_eq_iff)
  moreover have "hkey ?s = (hkey s)(a := hkey s b, b := hkey s a)" using h ab(3) by (auto simp: hkey_def fun_eq_iff)
  ultimately show ?thesis using 1 by blast
qed


section \<open>Sifting\<close>

lemma sift_up_spec:
  "nodes_ok s \<Longrightarrow> i < hp_len s \<Longrightarrow> hole (hkey s) (hp_len s) i \<Longrightarrow> not_large (hkey s) (hp_len s) i \<Longrightarrow>
   \<exists>s'. sift_up s i = Some s' \<and> reordered s s' \<and> min_heap (hkey s') (hp_len s')"
proof (induction i arbitrary: s rule: less_induct)
  case (less i)
  have refl: "reordered s s" using less.prems(1) by (simp add: reordered_def)
  show ?case
  proof (cases "i = 0")
    case True
    then have "min_heap (hkey s) (hp_len s)" using heap_of_hole less.prems(3,4) by (simp add: not_small_def)
    then show ?thesis using True refl by (simp add: sift_up.simps)
  next
    case False
    have p: "par i < i" using False by simp
    then have pl: "par i < hp_len s" using less.prems(2) by (rule order.strict_trans)
    obtain a where a: "heap_get s (par i) = Some a" "hkey s (par i) = hn_expire a" using node_at [OF less.prems(1) pl] by metis
    obtain b where b: "heap_get s i = Some b" "hkey s i = hn_expire b" using node_at [OF less.prems(1,2)] by metis
    show ?thesis
    proof (cases "hn_expire a \<le> hn_expire b")
      case True
      then have "min_heap (hkey s) (hp_len s)" using heap_of_hole less.prems(3,4) a b by (simp add: not_small_def)
      then show ?thesis using True False refl a(1) b(1) by (subst sift_up.simps) (simp add: Let_def par_def)
    next
      case lt: False
      obtain s1 s2 where 1: "heap_set s (par i) b = Some s1" "heap_set s1 i a = Some s2" "reordered s s2"
          "hkey s2 = (hkey s)(par i := hkey s i, i := hkey s (par i))"
        using swap_nodes [OF less.prems(1) pl less.prems(2) _ a(1) b(1)] False by auto
      have len: "hp_len s2 = hp_len s" "nodes_ok s2" using 1(3) by (simp_all add: reordered_def)
      have "hole (hkey s2) (hp_len s2) (par i) \<and> not_large (hkey s2) (hp_len s2) (par i)"
        unfolding 1(4) len using hole_up [OF less.prems(3,4) _ less.prems(2)] False lt a(2) b(2) by simp
      then obtain s' where "sift_up s2 (par i) = Some s'" "reordered s2 s'" "min_heap (hkey s') (hp_len s')"
        using less.IH [OF p len(2)] pl len(1) by auto
      moreover have "sift_up s i = sift_up s2 (par i)"
        using False lt a(1) b(1) 1(1,2) by (subst sift_up.simps) (simp add: Let_def par_def)
      ultimately show ?thesis using reordered_trans [OF 1(3)] by auto
    qed
  qed
qed

lemma smaller_spec:
  "nodes_ok s \<Longrightarrow> m < hp_len s \<Longrightarrow> smaller s c m = Some (if c < hp_len s \<and> hkey s c < hkey s m then c else m)"
proof (cases "c < hp_len s")
  case True
  assume n: "nodes_ok s" "m < hp_len s"
  obtain a where a: "heap_get s c = Some a" "hkey s c = hn_expire a" using node_at [OF n(1) True] by metis
  obtain b where b: "heap_get s m = Some b" "hkey s m = hn_expire b" using node_at [OF n] by metis
  show ?thesis using True a b by (simp add: smaller_def)
qed (simp add: smaller_def)

text \<open>An iteration of the loop stops, or exchanges the element with its smaller child.\<close>

lemma sift_step:
  assumes n: "nodes_ok s" "i < hp_len s" and h: "hole (hkey s) (hp_len s) i"
  shows "sift_down s i = Some s \<and> not_large (hkey s) (hp_len s) i \<or>
    (\<exists>m s2. i < m \<and> m < hp_len s \<and> sift_down s i = sift_down s2 m \<and> reordered s s2 \<and>
       hole (hkey s2) (hp_len s2) m \<and> not_small (hkey s2) m)"
proof -
  let ?l = "2 * i + 1" and ?r = "2 * i + 2"
  define m1 where "m1 = (if ?l < hp_len s \<and> hkey s ?l < hkey s i then ?l else i)"
  define m where "m = (if ?r < hp_len s \<and> hkey s ?r < hkey s m1 then ?r else m1)"
  have s1: "smaller s ?l i = Some m1" unfolding m1_def by (rule smaller_spec [OF n])
  have "m1 < hp_len s" using n(2) by (simp add: m1_def)
  then have s2: "smaller s ?r m1 = Some m" unfolding m_def by (rule smaller_spec [OF n(1)])
  have ch: "j = ?l \<or> j = ?r" if "0 < j" "par j = i" for j using that par_child by blast
  have min: "hkey s m \<le> hkey s j" if "0 < j" "j < hp_len s" "par j = i" for j
    using ch [OF that(1,3)] that(2) by (auto simp: m_def m1_def)
  show ?thesis
  proof (cases "m = i")
    case True
    then have "sift_down s i = Some s" using s1 s2 by (subst sift_down.simps) simp
    then show ?thesis using min True by (auto simp: not_large_def)
  next
    case False
    have m: "m = ?l \<or> m = ?r" "m < hp_len s" "hkey s m < hkey s i" using False by (auto simp: m_def m1_def split: if_splits)
    then have im: "i < m" "0 < m" "par m = i" by (auto simp: par_def)
    obtain a where a: "heap_get s m = Some a" using node_at [OF n(1) m(2)] by metis
    obtain b where b: "heap_get s i = Some b" using node_at [OF n] by metis
    obtain sa sb where 1: "heap_set s m b = Some sa" "heap_set sa i a = Some sb" "reordered s sb"
        "hkey sb = (hkey s)(m := hkey s i, i := hkey s m)"
      using swap_nodes [OF n(1) m(2) n(2) False a b] by blast
    have k: "hkey sb = (hkey s)(i := hkey s m, m := hkey s i)" unfolding 1(4) using False by (simp add: fun_upd_twist)
    have len: "hp_len sb = hp_len s" using 1(3) by (simp add: reordered_def)
    have "hole (hkey sb) (hp_len sb) m \<and> not_small (hkey sb) m" unfolding k len by (rule hole_down [OF h im(2) m(2) im(3) min m(3)])
    moreover have "sift_down s i = sift_down sb m" using s1 s2 False a b 1(1,2) by (subst sift_down.simps) simp
    ultimately show ?thesis using im(1) m(2) 1(3) by blast
  qed
qed

lemma sift_down_spec:
  "nodes_ok s \<Longrightarrow> i < hp_len s \<Longrightarrow> hole (hkey s) (hp_len s) i \<Longrightarrow> not_small (hkey s) i \<Longrightarrow>
   \<exists>s'. sift_down s i = Some s' \<and> reordered s s' \<and> min_heap (hkey s') (hp_len s')"
proof (induction "hp_len s - i" arbitrary: s i rule: less_induct)
  case less
  from sift_step [OF less.prems(1-3)] show ?case
  proof
    assume a: "sift_down s i = Some s \<and> not_large (hkey s) (hp_len s) i"
    then have "min_heap (hkey s) (hp_len s)" using heap_of_hole less.prems(3,4) by blast
    then show ?thesis using a less.prems(1) by (simp add: reordered_def)
  next
    assume "\<exists>m s2. i < m \<and> m < hp_len s \<and> sift_down s i = sift_down s2 m \<and> reordered s s2 \<and>
       hole (hkey s2) (hp_len s2) m \<and> not_small (hkey s2) m"
    then obtain m s2 where m: "i < m" "m < hp_len s" "sift_down s i = sift_down s2 m" "reordered s s2"
       "hole (hkey s2) (hp_len s2) m" "not_small (hkey s2) m" by blast
    have s2: "nodes_ok s2" "hp_len s2 = hp_len s" using m(4) by (simp_all add: reordered_def)
    have "hp_len s2 - m < hp_len s - i" "m < hp_len s2" "hole (hkey s2) (hp_len s2) m" using s2(2) m by simp_all
    then obtain s' where "sift_down s2 m = Some s'" "reordered s2 s'" "min_heap (hkey s') (hp_len s')"
      using less.hyps s2(1) m(6) by blast
    then show ?thesis using m(3) reordered_trans [OF m(4)] by auto
  qed
qed

lemma hole_of_heap': "min_heap k n \<Longrightarrow> hole k n i \<and> not_large k n i"
  using hole_of_heap [of k n i "k i"] by (auto simp: min_heap_def not_large_def)

lemma sift_both_spec:
  assumes n: "nodes_ok s" "i < hp_len s" and h: "hole (hkey s) (hp_len s) i"
  shows "\<exists>s1 s'. sift_down s i = Some s1 \<and> sift_up s1 i = Some s' \<and> reordered s s' \<and> min_heap (hkey s') (hp_len s')"
proof -
  obtain s1 where 1: "sift_down s i = Some s1" "reordered s s1" "hole (hkey s1) (hp_len s1) i" "not_large (hkey s1) (hp_len s1) i"
    using sift_step [OF n h]
  proof (elim disjE)
    assume "sift_down s i = Some s \<and> not_large (hkey s) (hp_len s) i"
    then show ?thesis using that [of s] n h by (simp add: reordered_def)
  next
    assume "\<exists>m s2. i < m \<and> m < hp_len s \<and> sift_down s i = sift_down s2 m \<and> reordered s s2 \<and>
       hole (hkey s2) (hp_len s2) m \<and> not_small (hkey s2) m"
    then obtain m s2 where m: "m < hp_len s" "sift_down s i = sift_down s2 m" "reordered s s2"
       "hole (hkey s2) (hp_len s2) m" "not_small (hkey s2) m" by blast
    then have "nodes_ok s2" "m < hp_len s2" by (simp_all add: reordered_def)
    then obtain s' where "sift_down s2 m = Some s'" "reordered s2 s'" "min_heap (hkey s') (hp_len s')"
      using sift_down_spec m(4,5) by blast
    then show ?thesis using that [of s'] m(2) reordered_trans [OF m(3)] hole_of_heap' by simp
  qed
  then have "nodes_ok s1" "i < hp_len s1" using n(2) by (simp_all add: reordered_def)
  then obtain s' where "sift_up s1 i = Some s'" "reordered s1 s'" "min_heap (hkey s') (hp_len s')"
    using sift_up_spec 1(3,4) by blast
  then show ?thesis using 1(1) reordered_trans [OF 1(2)] by blast
qed


section \<open>The operations\<close>

definition heap_inv :: "heap_store \<Rightarrow> bool" where
  "heap_inv s \<longleftrightarrow> nodes_ok s \<and> min_heap (hkey s) (hp_len s) \<and> cap_ok 59 (hp_pos_cap s) \<and>
     (hp_cap s = 0 \<or> (\<exists>c \<le> 59. hp_cap s = 2 ^ c))"

definition heap_now_of :: "heap_store \<Rightarrow> nat" where "heap_now_of s = unat (hp_now s)"

lemma heap_finite: "finite (dom (heap_live_of s))"
  by (rule finite_subset [OF subset_UNIV]) simp

lemma heap_card:
  assumes n: "nodes_ok s"
  shows "card (dom (heap_live_of s)) = hp_len s"
proof -
  let ?f = "\<lambda>j. hn_id (the (hp_heap s j))"
  have pos: "hp_pos s (?f j) = Some (int j)" if "j < hp_len s" for j using n that unfolding nodes_ok_def by fastforce
  have "bij_betw ?f {..<hp_len s} (dom (heap_live_of s))"
  proof (rule bij_betwI')
    fix a b assume "a \<in> {..<hp_len s}" "b \<in> {..<hp_len s}"
    then have ab: "a < hp_len s" "b < hp_len s" by simp_all
    have "hp_pos s (?f a) = Some (int a)" "hp_pos s (?f b) = Some (int b)" using pos ab by simp_all
    then show "(?f a = ?f b) = (a = b)" by (metis of_nat_eq_iff option.inject)
  next
    fix a assume "a \<in> {..<hp_len s}"
    then have "hp_pos s (?f a) = Some (int a)" using pos by simp
    moreover have "heap_live_of s (?f a) \<noteq> None" using heap_live_none [OF n, of "?f a"] calculation by simp
    ultimately show "?f a \<in> dom (heap_live_of s)" by blast
  next
    fix i assume "i \<in> dom (heap_live_of s)"
    then obtain e where "heap_live_of s i = Some e" by blast
    then obtain j v where "j < hp_len s" "hp_heap s j = Some v" "hn_id v = i" by (rule live_node [OF n])
    then show "\<exists>j \<in> {..<hp_len s}. i = ?f j" by force
  qed
  then show ?thesis using bij_betw_same_card by fastforce
qed

text \<open>The node at k leaves the heap, and the last node takes its place.\<close>

lemma remove_node:
  assumes n: "nodes_ok s" "min_heap (hkey s) (hp_len s)" and k: "k < hp_len s" "hp_heap s k = Some v"
    and s1: "s1 = s\<lparr>hp_len := hp_len s - 1, hp_pos := (hp_pos s)(hn_id v \<mapsto> - 1)\<rparr>"
  shows "if k = hp_len s - 1 then nodes_ok s1 \<and> heap_live_of s1 = (heap_live_of s)(hn_id v := None) \<and> min_heap (hkey s1) (hp_len s1)
    else \<exists>s2 w. heap_get s1 (hp_len s - 1) = Some w \<and> heap_set s1 k w = Some s2 \<and> nodes_ok s2 \<and> hp_len s2 = hp_len s1 \<and>
      hp_cap s2 = hp_cap s \<and> hp_pos_cap s2 = hp_pos_cap s \<and> hp_now s2 = hp_now s \<and>
      heap_live_of s2 = (heap_live_of s)(hn_id v := None) \<and> hole (hkey s2) (hp_len s2) k"
proof -
  let ?last = "hp_len s - 1"
  have V: "hp_pos s (hn_id v) = Some (int k)" "hn_id v < hp_pos_cap s" by (rule node_at [OF n(1) k(1)], simp add: k(2))+
  have nd: "\<exists>v. hp_heap s j = Some v \<and> hp_pos s (hn_id v) = Some (int j)" if "j < hp_len s" for j
    using n(1) that unfolding nodes_ok_def by blast
  have at: "nat p < hp_len s" "map_option hn_id (hp_heap s (nat p)) = Some i" if "hp_pos s i = Some p" "0 \<le> p" for i p
    using n(1) that unfolding nodes_ok_def by blast+
  have cap: "hp_pos s i = None \<longleftrightarrow> hp_pos_cap s \<le> i" for i using n(1) unfolding nodes_ok_def by blast
  have len: "hp_len s \<le> hp_cap s" using n(1) by (simp add: nodes_ok_def)
  have kat: "nat p = k \<Longrightarrow> i = hn_id v" if "hp_pos s i = Some p" "0 \<le> p" for i p using at(2) [OF that] k(2) by simp
  show ?thesis
  proof (cases "k = ?last")
    case True
    have "\<exists>v. hp_heap s1 j = Some v \<and> hp_pos s1 (hn_id v) = Some (int j)" if j: "j < hp_len s1" for j
    proof -
      obtain w where w: "hp_heap s j = Some w" "hp_pos s (hn_id w) = Some (int j)" 
      proof -
        have "j < hp_len s" using j s1 by simp
        then show ?thesis using nd that by blast
      qed
      then have "hn_id w \<noteq> hn_id v" using V(1) j True s1 by auto
      then show ?thesis using w s1 by simp
    qed
    moreover have "nat p < hp_len s1 \<and> map_option hn_id (hp_heap s1 (nat p)) = Some i" if "hp_pos s1 i = Some p" "0 \<le> p" for i p
    proof -
      have iv: "i \<noteq> hn_id v" "hp_pos s i = Some p" using that s1 by (auto split: if_splits)
      then have "nat p \<noteq> k" using kat that(2) by blast
      then show ?thesis using at [OF iv(2) that(2)] True s1 by simp
    qed
    moreover have "hp_pos s1 i = None \<longleftrightarrow> hp_pos_cap s1 \<le> i" for i using cap [of i] V(2) s1 by auto
    moreover have "hp_len s1 \<le> hp_cap s1" using len s1 by simp
    ultimately have "nodes_ok s1" unfolding nodes_ok_def by blast
    moreover have "heap_live_of s1 = (heap_live_of s)(hn_id v := None)" using s1 by (auto simp: heap_live_of_def fun_eq_iff split: option.split)
    moreover have "min_heap (hkey s1) (hp_len s1)" 
    proof -
      have "hkey s1 = hkey s" using s1 by (simp add: hkey_def fun_eq_iff)
      then show ?thesis using heap_mono [OF n(2)] s1 by simp
    qed
    ultimately show ?thesis using True by simp
  next
    case False
    have l: "?last < hp_len s" "k < ?last" using k(1) False by simp_all
    obtain w where w: "hp_heap s ?last = Some w" "hp_pos s (hn_id w) = Some (int ?last)" "hn_id w < hp_pos_cap s" "?last < hp_cap s"
      using node_at [OF n(1) l(1)] by metis
    have wv: "hn_id w \<noteq> hn_id v" using w(2) V(1) l(2) by auto
    let ?s = "s1\<lparr>hp_heap := (hp_heap s1)(k \<mapsto> w), hp_pos := (hp_pos s1)(hn_id w \<mapsto> int k)\<rparr>"
    have 1: "heap_get s1 ?last = Some w" "heap_set s1 k w = Some ?s" using w l s1 by (simp_all add: heap_get_def heap_set_def)
    have "\<exists>v. hp_heap ?s j = Some v \<and> hp_pos ?s (hn_id v) = Some (int j)" if j: "j < hp_len ?s" for j
    proof (cases "j = k")
      case False
      obtain u where u: "hp_heap s j = Some u" "hp_pos s (hn_id u) = Some (int j)" 
      proof -
        have "j < hp_len s" using j s1 by simp
        then show ?thesis using nd that by blast
      qed
      then have "hn_id u \<noteq> hn_id v" "hn_id u \<noteq> hn_id w" using V(1) w(2) j False s1 by auto
      then show ?thesis using u False s1 by simp
    qed simp
    moreover have keep: "i \<noteq> hn_id v \<and> hp_pos s i = Some p \<and> nat p \<noteq> k \<and> nat p \<noteq> ?last" if "hp_pos ?s i = Some p" "0 \<le> p" "i \<noteq> hn_id w" for i p
    proof -
      have iv: "i \<noteq> hn_id v" "hp_pos s i = Some p" using that s1 by (auto split: if_splits)
      moreover have "nat p \<noteq> k" using kat [OF iv(2) that(2)] iv(1) by blast
      moreover have "nat p \<noteq> ?last" using at(2) [OF iv(2) that(2)] w(1) that(3) by auto
      ultimately show ?thesis by blast
    qed
    have "nat p < hp_len ?s \<and> map_option hn_id (hp_heap ?s (nat p)) = Some i" if p: "hp_pos ?s i = Some p" "0 \<le> p" for i p
    proof (cases "i = hn_id w")
      case True
      then have "p = int k" using p(1) by simp
      then show ?thesis using True l(2) s1 by simp
    next
      case False
      then show ?thesis using keep [OF p False] at [of i p] p(2) s1 by auto
    qed
    moreover have "hp_pos ?s i = None \<longleftrightarrow> hp_pos_cap ?s \<le> i" for i using cap [of i] V(2) w(3) s1 by auto
    moreover have "hp_len ?s \<le> hp_cap ?s" using len s1 by simp
    ultimately have nok: "nodes_ok ?s" unfolding nodes_ok_def by blast
    have "heap_live_of ?s i = ((heap_live_of s)(hn_id v := None)) i" for i
    proof (cases "i = hn_id w")
      case True
      then show ?thesis using w wv by (simp add: heap_live_of_def)
    next
      case False
      show ?thesis
      proof (cases "hp_pos ?s i")
        case None
        then have "hp_pos s i = None" "i \<noteq> hn_id v" using False s1 by (auto split: if_splits)
        then show ?thesis using None by (simp add: heap_live_of_def)
      next
        case (Some p)
        show ?thesis
        proof (cases "p < 0")
          case True
          then have "i = hn_id v \<or> hp_pos s i = Some p" using Some False s1 by (auto split: if_splits)
          then show ?thesis using True Some by (auto simp: heap_live_of_def)
        next
          case p: False
          then have "i \<noteq> hn_id v \<and> hp_pos s i = Some p \<and> nat p \<noteq> k" using keep [OF Some _ False] by simp
          then show ?thesis using Some p s1 by (simp add: heap_live_of_def)
        qed
      qed
    qed
    moreover have "hkey ?s = (hkey s)(k := hn_expire w)" using s1 by (auto simp: hkey_def fun_eq_iff)
    then have "hole (hkey ?s) (hp_len ?s) k" using hole_mono [OF hole_of_heap [OF n(2)]] s1 by simp
    moreover have "hp_cap ?s = hp_cap s" "hp_pos_cap ?s = hp_pos_cap s" "hp_now ?s = hp_now s" using s1 by simp_all
    ultimately show ?thesis using False 1 nok by auto
  qed
qed


lemma heap_inv_reordered:
  "reordered s s' \<Longrightarrow> min_heap (hkey s') (hp_len s') \<Longrightarrow> cap_ok 59 (hp_pos_cap s) \<Longrightarrow> (hp_cap s = 0 \<or> (\<exists>c \<le> 59. hp_cap s = 2 ^ c)) \<Longrightarrow>
   heap_inv s' \<and> heap_now_of s' = heap_now_of s \<and> heap_live_of s' = heap_live_of s"
  unfolding heap_inv_def reordered_def heap_now_of_def by simp

lemma heap_stop_spec:
  assumes v: "heap_inv s"
  shows "\<exists>s'. heap_stop s i = Some (heap_live_of s i \<noteq> None, s') \<and> heap_inv s' \<and> heap_now_of s' = heap_now_of s \<and>
    heap_live_of s' = (heap_live_of s)(i := None)"
proof (cases "heap_live_of s i")
  case None
  have n: "nodes_ok s" using v by (simp add: heap_inv_def)
  have "hp_pos s i = None \<longleftrightarrow> hp_pos_cap s \<le> i" using n unfolding nodes_ok_def by blast
  then have "heap_stop s i = Some (False, s)" using heap_live_none [OF n, of i] None by (auto simp: heap_stop_def not_le)
  then show ?thesis using v None by (auto simp: fun_upd_idem)
next
  case (Some e)
  have n: "nodes_ok s" "min_heap (hkey s) (hp_len s)" and c: "cap_ok 59 (hp_pos_cap s)" "hp_cap s = 0 \<or> (\<exists>c \<le> 59. hp_cap s = 2 ^ c)"
    using v by (simp_all add: heap_inv_def)
  obtain k u where k: "k < hp_len s" "hp_pos s i = Some (int k)" "hp_heap s k = Some u" "hn_id u = i" "i < hp_pos_cap s"
    using live_node [OF n(1) Some] by metis
  define s1 where "s1 = s\<lparr>hp_len := hp_len s - 1, hp_pos := (hp_pos s)(hn_id u \<mapsto> - 1)\<rparr>"
  have rm: "if k = hp_len s - 1 then nodes_ok s1 \<and> heap_live_of s1 = (heap_live_of s)(i := None) \<and> min_heap (hkey s1) (hp_len s1)
    else \<exists>s2 w. heap_get s1 (hp_len s - 1) = Some w \<and> heap_set s1 k w = Some s2 \<and> nodes_ok s2 \<and> hp_len s2 = hp_len s1 \<and>
      hp_cap s2 = hp_cap s \<and> hp_pos_cap s2 = hp_pos_cap s \<and> hp_now s2 = hp_now s \<and>
      heap_live_of s2 = (heap_live_of s)(i := None) \<and> hole (hkey s2) (hp_len s2) k"
    using remove_node [OF n k(1,3) s1_def] unfolding k(4) .
  show ?thesis
  proof (cases "k = hp_len s - 1")
    case True
    then have "nodes_ok s1 \<and> heap_live_of s1 = (heap_live_of s)(i := None) \<and> min_heap (hkey s1) (hp_len s1)" using rm by simp
    moreover have "heap_stop s i = Some (True, s1)" 
      unfolding heap_stop_def s1_def Let_def True [symmetric] using k(2,4,5) by (simp add: not_le)
    ultimately show ?thesis using Some c by (auto simp: heap_inv_def heap_now_of_def s1_def)
  next
    case False
    then obtain s2 w where 2: "heap_get s1 (hp_len s - 1) = Some w" "heap_set s1 k w = Some s2" "nodes_ok s2" "hp_len s2 = hp_len s1"
      "hp_cap s2 = hp_cap s" "hp_pos_cap s2 = hp_pos_cap s" "hp_now s2 = hp_now s"
      "heap_live_of s2 = (heap_live_of s)(i := None)" "hole (hkey s2) (hp_len s2) k" using rm by auto
    have "k < hp_len s2" using False k(1) 2(4) by (simp add: s1_def)
    then obtain s3 s' where 3: "sift_down s2 k = Some s3" "sift_up s3 k = Some s'" "reordered s2 s'" "min_heap (hkey s') (hp_len s')"
      using sift_both_spec [OF 2(3) _ 2(9)] by blast
    have "heap_stop s i = Some (True, s')" using k False 2(1,2) 3(1,2) by (simp add: heap_stop_def s1_def not_le Let_def)
    moreover have "heap_inv s' \<and> heap_now_of s' = heap_now_of s2 \<and> heap_live_of s' = heap_live_of s2"
      using heap_inv_reordered [OF 3(3,4)] c 2(5,6) by simp
    ultimately show ?thesis using Some 2(7,8) by (auto simp: heap_now_of_def)
  qed
qed

lemma pop_root_spec:
  assumes n: "nodes_ok s" "min_heap (hkey s) (hp_len s)" and l: "0 < hp_len s" "hp_heap s 0 = Some v"
    and c: "cap_ok 59 (hp_pos_cap s)" "hp_cap s = 0 \<or> (\<exists>c \<le> 59. hp_cap s = 2 ^ c)"
  shows "\<exists>s'. pop_root s v = Some s' \<and> heap_inv s' \<and> hp_now s' = hp_now s \<and> heap_live_of s' = (heap_live_of s)(hn_id v := None)"
proof -
  define s1 where "s1 = s\<lparr>hp_len := hp_len s - 1, hp_pos := (hp_pos s)(hn_id v \<mapsto> - 1)\<rparr>"
  note rm = remove_node [OF n l s1_def]
  have vc: "hn_id v < hp_pos_cap s" by (rule node_at [OF n(1) l(1)]) (simp add: l(2))
  show ?thesis
  proof (cases "hp_len s - 1 = 0")
    case True
    then have "nodes_ok s1 \<and> heap_live_of s1 = (heap_live_of s)(hn_id v := None) \<and> min_heap (hkey s1) (hp_len s1)" using rm by simp
    moreover have "pop_root s v = Some s1" using True vc by (simp add: pop_root_def s1_def)
    ultimately show ?thesis using c by (auto simp: heap_inv_def s1_def)
  next
    case False
    then obtain s2 w where 2: "heap_get s1 (hp_len s - 1) = Some w" "heap_set s1 0 w = Some s2" "nodes_ok s2" "hp_len s2 = hp_len s1"
      "hp_cap s2 = hp_cap s" "hp_pos_cap s2 = hp_pos_cap s" "hp_now s2 = hp_now s"
      "heap_live_of s2 = (heap_live_of s)(hn_id v := None)" "hole (hkey s2) (hp_len s2) 0" using rm by auto
    have "0 < hp_len s2" using False 2(4) by (simp add: s1_def)
    then obtain s' where 3: "sift_down s2 0 = Some s'" "reordered s2 s'" "min_heap (hkey s') (hp_len s')"
      using sift_down_spec [OF 2(3) _ 2(9)] by (auto simp: not_small_def)
    have "pop_root s v = Some s'" using False vc 2(1,2) 3(1) by (simp add: pop_root_def s1_def Let_def)
    moreover have "heap_inv s' \<and> heap_now_of s' = heap_now_of s2 \<and> heap_live_of s' = heap_live_of s2"
      using heap_inv_reordered [OF 3(2,3)] c 2(5,6) by simp
    ultimately show ?thesis using 2(7,8) 3(2) by (auto simp: reordered_def)
  qed
qed

lemma later_remove: "live i = Some e \<Longrightarrow> e \<le> n \<Longrightarrow> later (live(i := None)) n = later live n"
  by (auto simp: later_eq fun_eq_iff)

lemma due_remove: "live i = Some e \<Longrightarrow> e \<le> n \<Longrightarrow> due live n = insert i (due (live(i := None)) n) \<and> i \<notin> due (live(i := None)) n"
  by (auto simp: due_def)

lemma pop_due_spec:
  "heap_inv s \<Longrightarrow> \<exists>s'. pop_due s f = Some (f + of_nat (card (due (heap_live_of s) (heap_now_of s))), s') \<and> heap_inv s' \<and>
     heap_now_of s' = heap_now_of s \<and> heap_live_of s' = later (heap_live_of s) (heap_now_of s)"
proof (induction "hp_len s" arbitrary: s f rule: less_induct)
  case less
  have n: "nodes_ok s" "min_heap (hkey s) (hp_len s)" and c: "cap_ok 59 (hp_pos_cap s)" "hp_cap s = 0 \<or> (\<exists>c \<le> 59. hp_cap s = 2 ^ c)"
    using less.prems by (simp_all add: heap_inv_def)
  have stop: ?case if run: "pop_due s f = Some (f, s)" and ahead: "\<And>i e. heap_live_of s i = Some e \<Longrightarrow> heap_now_of s < e"
    using run less.prems due_empty [OF ahead] later_id [OF ahead] by simp
  show ?case
  proof (cases "hp_len s = 0")
    case True
    have "heap_live_of s i \<noteq> Some e" for i e using True by (metis live_node n(1) not_less_zero)
    then show ?thesis using stop True by (simp add: pop_due.simps)
  next
    case False
    then have l: "0 < hp_len s" by simp
    obtain v where v: "hp_heap s 0 = Some v" "heap_get s 0 = Some v" "hkey s 0 = hn_expire v"
        "heap_live_of s (hn_id v) = Some (unat (hn_expire v))" using node_at [OF n(1) l] by metis
    show ?thesis
    proof (cases "hn_expire v \<le> hp_now s")
      case gt: False
      have "heap_now_of s < e" if "heap_live_of s i = Some e" for i e
      proof -
        obtain j w where j: "j < hp_len s" "hp_heap s j = Some w" "unat (hn_expire w) = e" using live_node [OF n(1) \<open>heap_live_of s i = Some e\<close>] by metis
        have "hkey s 0 \<le> hkey s j" using heap_root [OF n(2) j(1)] .
        then show ?thesis using gt j v(3) by (simp add: hkey_def heap_now_of_def word_le_nat_alt not_le)
      qed
      then show ?thesis using stop gt l v(2) by (simp add: pop_due.simps)
    next
      case True
      let ?i = "hn_id v" and ?live = "heap_live_of s" and ?now = "heap_now_of s"
      have le: "unat (hn_expire v) \<le> ?now" using True by (simp add: heap_now_of_def word_le_nat_alt)
      obtain s1 where 1: "pop_root s v = Some s1" "heap_inv s1" "hp_now s1 = hp_now s" "heap_live_of s1 = ?live(?i := None)"
        using pop_root_spec [OF n l v(1) c] by blast
      have now: "heap_now_of s1 = ?now" using 1(3) by (simp add: heap_now_of_def)
      have "hp_len s1 < hp_len s" using pop_root_len [OF 1(1)] l by simp
      then obtain s' where 2: "pop_due s1 (f + 1) = Some (f + 1 + of_nat (card (due (heap_live_of s1) ?now)), s')" "heap_inv s'"
          "heap_now_of s' = ?now" "heap_live_of s' = later (heap_live_of s1) ?now"
        using less.hyps [of s1 "f + 1"] 1(2) now by auto
      have "finite (due (?live(?i := None)) ?now)" by (rule finite_subset [OF subset_UNIV]) simp
      then have card: "card (due ?live ?now) = Suc (card (due (heap_live_of s1) ?now))"
        using due_remove [of ?live, OF v(4) le] 1(4) by simp
      have "pop_due s f = pop_due s1 (f + 1)" using True l v(2) 1(1) by (simp add: pop_due.simps [of s])
      moreover have "heap_live_of s' = later ?live ?now" using 2(4) 1(4) later_remove [of ?live, OF v(4) le] by simp
      ultimately show ?thesis using 2(1-3) card by (simp add: algebra_simps)
    qed
  qed
qed


lemma push_node:
  assumes n: "nodes_ok s" and l: "hp_len s < hp_cap s" and i: "heap_live_of s (hn_id v) = None" "hn_id v < hp_pos_cap s"
  shows "\<exists>s'. heap_set (s\<lparr>hp_len := hp_len s + 1\<rparr>) (hp_len s) v = Some s' \<and> nodes_ok s' \<and> hp_len s' = Suc (hp_len s) \<and>
    hp_cap s' = hp_cap s \<and> hp_pos_cap s' = hp_pos_cap s \<and> hp_now s' = hp_now s \<and>
    hkey s' = (hkey s)(hp_len s := hn_expire v) \<and> heap_live_of s' = (heap_live_of s)(hn_id v \<mapsto> unat (hn_expire v))"
proof -
  let ?n = "hp_len s"
  let ?s = "s\<lparr>hp_heap := (hp_heap s)(?n \<mapsto> v), hp_len := ?n + 1, hp_pos := (hp_pos s)(hn_id v \<mapsto> int ?n)\<rparr>"
  have run: "heap_set (s\<lparr>hp_len := hp_len s + 1\<rparr>) (hp_len s) v = Some ?s" using l i(2) by (simp add: heap_set_def)
  have at: "nat p < ?n" "map_option hn_id (hp_heap s (nat p)) = Some j" if "hp_pos s j = Some p" "0 \<le> p" for j p
    using n that unfolding nodes_ok_def by blast+
  have old: "hp_pos s (hn_id v) = None \<or> (\<exists>k < 0. hp_pos s (hn_id v) = Some k)" using heap_live_none [OF n] i(1) by blast
  have "\<exists>w. hp_heap ?s j = Some w \<and> hp_pos ?s (hn_id w) = Some (int j)" if j: "j < hp_len ?s" for j
  proof (cases "j = ?n")
    case False
    then have "j < ?n" using j by simp
    then obtain w where w: "hp_heap s j = Some w" "hp_pos s (hn_id w) = Some (int j)" using n unfolding nodes_ok_def by blast
    then have "hn_id w \<noteq> hn_id v" using old by auto
    then show ?thesis using w False by simp
  qed simp
  moreover have "nat p < hp_len ?s \<and> map_option hn_id (hp_heap ?s (nat p)) = Some j" if p: "hp_pos ?s j = Some p" "0 \<le> p" for j p
  proof (cases "j = hn_id v")
    case True
    then show ?thesis using p by auto
  next
    case False
    then show ?thesis using p at [of j p] by auto
  qed
  moreover have "hp_pos ?s j = None \<longleftrightarrow> hp_pos_cap ?s \<le> j" for j
  proof -
    have "hp_pos s j = None \<longleftrightarrow> hp_pos_cap s \<le> j" using n unfolding nodes_ok_def by blast
    then show ?thesis using i(2) by (auto simp: not_le)
  qed
  moreover have "hp_len ?s \<le> hp_cap ?s" using l by simp
  ultimately have nok: "nodes_ok ?s" unfolding nodes_ok_def by blast
  have "heap_live_of ?s j = ((heap_live_of s)(hn_id v \<mapsto> unat (hn_expire v))) j" for j
  proof (cases "j = hn_id v")
    case True
    then show ?thesis by (simp add: heap_live_of_def)
  next
    case False
    then have "nat p \<noteq> ?n" if "hp_pos s j = Some p" "0 \<le> p" for p using at(1) [OF that] by simp
    then show ?thesis using False unfolding heap_live_of_def by (auto split: option.split)
  qed
  moreover have "hkey ?s = (hkey s)(?n := hn_expire v)" by (auto simp: hkey_def fun_eq_iff)
  ultimately show ?thesis using run nok by (intro exI [of _ ?s]) (simp add: fun_eq_iff)
qed

lemma heap_ensure_spec:
  assumes v: "heap_inv s" and i: "unat i < 2 ^ 59"
  shows "\<exists>s'. ensure_pos_cap s i = Some s' \<and> heap_inv s' \<and> heap_live_of s' = heap_live_of s \<and> hp_now s' = hp_now s \<and> i < hp_pos_cap s'"
proof (cases "i < hp_pos_cap s")
  case True
  then show ?thesis using v by (simp add: ensure_pos_cap_def)
next
  case False
  have n: "nodes_ok s" and c: "cap_ok 59 (hp_pos_cap s)" using v by (simp_all add: heap_inv_def)
  obtain k where k: "k \<le> 59" "double_past i (if hp_pos_cap s \<noteq> 0 then hp_pos_cap s else 1024) = Some (2 ^ k)"
    and il: "i < 2 ^ k" and cap: "hp_pos_cap s \<le> 2 ^ k" and u: "unat (2 ^ k :: u64) = 2 ^ k"
    using double_cap [OF c i _ _ False] by auto
  have le: "(2 :: nat) ^ k \<le> 2 ^ 59" using k(1) by (intro power_increasing) simp_all
  let ?p = "\<lambda>j. if hp_pos_cap s \<le> j \<and> j < 2 ^ k then Some (- 1) else hp_pos s j"
  let ?s = "s\<lparr>hp_pos := ?p, hp_pos_cap := 2 ^ k\<rparr>"
  have al: "alloc (2 ^ k) 8 = Some ()" unfolding alloc_def u using le by simp
  have run: "ensure_pos_cap s i = Some ?s" unfolding ensure_pos_cap_def if_not_P [OF False] k(2) using al by simp
  have none: "hp_pos s j = None \<longleftrightarrow> hp_pos_cap s \<le> j" for j using n unfolding nodes_ok_def by blast
  have same: "?p j = Some q \<and> 0 \<le> q \<longleftrightarrow> hp_pos s j = Some q \<and> 0 \<le> q" for j q
    using none [of j] by (auto split: if_splits)
  have "nodes_ok ?s"
  proof -
    have "?p j = None \<longleftrightarrow> 2 ^ k \<le> j" for j using none [of j] cap by (cases "hp_pos_cap s \<le> j") (auto simp: not_le)
    moreover have "\<exists>v. hp_heap s j = Some v \<and> ?p (hn_id v) = Some (int j)" if "j < hp_len s" for j
    proof -
      have "\<exists>v. hp_heap s j = Some v \<and> hp_pos s (hn_id v) = Some (int j)" using n that unfolding nodes_ok_def by blast
      then obtain v where "hp_heap s j = Some v" "hp_pos s (hn_id v) = Some (int j)" by blast
      then show ?thesis using same [of "hn_id v" "int j"] by auto
    qed
    moreover have "nat q < hp_len s \<and> map_option hn_id (hp_heap s (nat q)) = Some j" if "?p j = Some q" "0 \<le> q" for j q
    proof -
      have "hp_pos s j = Some q" using same [of j q] that by blast
      then show ?thesis using n that(2) unfolding nodes_ok_def by blast
    qed
    moreover have "hp_len s \<le> hp_cap s" using n unfolding nodes_ok_def by blast
    moreover have "hp_pos ?s j = ?p j" "hp_pos_cap ?s = 2 ^ k" "hp_len ?s = hp_len s" "hp_heap ?s = hp_heap s" "hp_cap ?s = hp_cap s" for j
      by simp_all
    ultimately show ?thesis unfolding nodes_ok_def by presburger
  qed
  moreover have "hkey ?s = hkey s" by (simp add: hkey_def fun_eq_iff)
  ultimately have "heap_inv ?s" using v k(1) by (auto simp: heap_inv_def cap_ok_def)
  moreover have "heap_live_of ?s j = heap_live_of s j" for j
    using none [of j] by (auto simp: heap_live_of_def split: option.split)
  ultimately show ?thesis using run il by (intro exI [of _ ?s]) (simp add: fun_eq_iff)
qed


lemma heap_room_spec:
  assumes v: "heap_inv s" and i: "heap_live_of s i = None" "i < hp_pos_cap s"
  shows "\<exists>s'. grow_nodes s = Some s' \<and> heap_inv s' \<and> hp_len s' < hp_cap s' \<and> heap_live_of s' = heap_live_of s \<and> hp_now s' = hp_now s \<and>
      hp_pos_cap s' = hp_pos_cap s"
proof (cases "hp_len s = hp_cap s")
  case False
  then have "hp_len s < hp_cap s" using v by (simp add: heap_inv_def nodes_ok_def)
  then show ?thesis using False v by (simp add: grow_nodes_def)
next
  case True
  have n: "nodes_ok s" and c: "cap_ok 59 (hp_pos_cap s)" and hc: "hp_cap s = 0 \<or> (\<exists>c \<le> 59. hp_cap s = 2 ^ c)"
    using v by (simp_all add: heap_inv_def)
  have "unat ` dom (heap_live_of s) \<subseteq> {..<unat (hp_pos_cap s)} - {unat i}"
  proof
    fix x assume "x \<in> unat ` dom (heap_live_of s)"
    then obtain j e where j: "x = unat j" "heap_live_of s j = Some e" by blast
    then have "j < hp_pos_cap s" using live_node [OF n j(2)] by metis
    then show "x \<in> {..<unat (hp_pos_cap s)} - {unat i}" using i j by (auto simp: word_less_nat_alt simp flip: word_unat_eq_iff)
  qed
  then have "card (unat ` dom (heap_live_of s)) \<le> card ({..<unat (hp_pos_cap s)} - {unat i})" by (intro card_mono) simp_all
  moreover have "card (unat ` dom (heap_live_of s)) = hp_len s" 
  proof -
    have "inj_on unat (dom (heap_live_of s))" by (rule inj_onI) (simp add: word_unat_eq_iff)
    then show ?thesis using heap_card [OF n] by (simp add: card_image)
  qed
  moreover have "card ({..<unat (hp_pos_cap s)} - {unat i}) < unat (hp_pos_cap s)" using i(2) by (simp add: word_less_nat_alt)
  ultimately have lt: "hp_len s < unat (hp_pos_cap s)" by linarith
  have "hp_pos_cap s \<noteq> 0" using i(2) by auto
  then obtain b where b: "b \<le> 59" "hp_pos_cap s = 2 ^ b" using c unfolding cap_ok_def by blast
  have ub: "unat (2 ^ b :: u64) = 2 ^ b" using b(1) by (simp add: unat_exp64)
  obtain k where k: "k \<le> 59" "(if hp_cap s \<noteq> 0 then hp_cap s * 2 else 1024) = 2 ^ k" "hp_len s < 2 ^ k"
  proof (cases "hp_cap s = 0")
    case True
    then show ?thesis using that [of 10] \<open>hp_len s = hp_cap s\<close> by simp
  next
    case False
    then obtain a where a: "a \<le> 59" "hp_cap s = 2 ^ a" using hc False by (elim disjE) blast+
    have full: "hp_len s = 2 ^ a" using \<open>hp_len s = hp_cap s\<close> a(2) by (rule trans)
    have "(2 :: nat) ^ a < 2 ^ b" using lt unfolding full b(2) ub .
    then have "a < b" by (simp add: power_strict_increasing_iff)
    then have "Suc a \<le> 59" using b(1) by simp
    moreover have "(if hp_cap s \<noteq> 0 then hp_cap s * 2 else 1024) = 2 ^ Suc a" unfolding a(2) by simp
    moreover have "hp_len s < 2 ^ Suc a" unfolding full by simp
    ultimately show ?thesis by (rule that)
  qed
  have "(2 :: nat) ^ k \<le> 2 ^ 59" using k(1) by (intro power_increasing) simp_all
  then have al: "(2 :: nat) ^ k * 16 < 2 ^ 64" by simp
  let ?s = "s\<lparr>hp_cap := 2 ^ k\<rparr>"
  have eq: "hkey ?s = hkey s" "heap_live_of ?s = heap_live_of s"
    by (auto simp: hkey_def heap_live_of_def fun_eq_iff split: option.split)
  have "nodes_ok ?s"
  proof -
    have "hp_pos ?s = hp_pos s" "hp_pos_cap ?s = hp_pos_cap s" "hp_len ?s = hp_len s" "hp_heap ?s = hp_heap s" by simp_all
    moreover have "hp_len ?s \<le> hp_cap ?s" using k(3) by simp
    ultimately show ?thesis using nodes_ok_cong [OF _ _ _ _ _ n] by blast
  qed
  then have "heap_inv ?s" using v k(1) unfolding heap_inv_def eq by auto
  then show ?thesis using True al k(3) eq unfolding grow_nodes_def k(2) by simp
qed

lemma heap_start_spec:
  assumes v: "heap_inv s" and i: "unat i < 2 ^ 59" "heap_live_of s i = None" and ov: "heap_now_of s + unat t < 2 ^ 64"
  shows "\<exists>s'. heap_start s i t = Some s' \<and> heap_inv s' \<and> heap_now_of s' = heap_now_of s \<and>
    heap_live_of s' = (heap_live_of s)(i \<mapsto> heap_now_of s + unat t)"
proof -
  obtain s1 where 1: "ensure_pos_cap s i = Some s1" "heap_inv s1" "heap_live_of s1 = heap_live_of s" "hp_now s1 = hp_now s" "i < hp_pos_cap s1"
    using heap_ensure_spec [OF v i(1)] by blast
  have i1: "heap_live_of s1 i = None" using i(2) 1(3) by simp
  obtain s2 where 2: "grow_nodes s1 = Some s2" "heap_inv s2" "hp_len s2 < hp_cap s2" "heap_live_of s2 = heap_live_of s1" "hp_now s2 = hp_now s1"
      "hp_pos_cap s2 = hp_pos_cap s1"
    using heap_room_spec [OF 1(2) i1 1(5)] by blast
  define nd where "nd = \<lparr>hn_expire = hp_now s2 + t, hn_id = i\<rparr>"
  have nd: "hn_id nd = i" "hn_expire nd = hp_now s2 + t" by (simp_all add: nd_def)
  have n2: "nodes_ok s2" "min_heap (hkey s2) (hp_len s2)" and c: "cap_ok 59 (hp_pos_cap s2)" "hp_cap s2 = 0 \<or> (\<exists>c \<le> 59. hp_cap s2 = 2 ^ c)"
    using 2(2) by (simp_all add: heap_inv_def)
  have i2: "heap_live_of s2 (hn_id nd) = None" "hn_id nd < hp_pos_cap s2" using i1 1(5) 2(4,6) nd by simp_all
  obtain s3 where 3: "heap_set (s2\<lparr>hp_len := hp_len s2 + 1\<rparr>) (hp_len s2) nd = Some s3" "nodes_ok s3" "hp_len s3 = Suc (hp_len s2)"
      "hp_cap s3 = hp_cap s2" "hp_pos_cap s3 = hp_pos_cap s2" "hp_now s3 = hp_now s2" "hkey s3 = (hkey s2)(hp_len s2 := hn_expire nd)"
      "heap_live_of s3 = (heap_live_of s2)(hn_id nd \<mapsto> unat (hn_expire nd))"
    using push_node [OF n2(1) 2(3) i2] by blast
  have "hole (hkey s3) (hp_len s3) (hp_len s2) \<and> not_large (hkey s3) (hp_len s3) (hp_len s2)"
    unfolding 3(3,7) by (rule heap_push [OF n2(2)])
  then obtain s' where 4: "sift_up s3 (hp_len s2) = Some s'" "reordered s3 s'" "min_heap (hkey s') (hp_len s')"
    using sift_up_spec [OF 3(2)] 3(3) by auto
  have run: "heap_start s i t = sift_up s3 (hp_len s2)"
    using 1(1) 2(1) 3(1) by (simp add: heap_start_def nd_def)
  have e: "unat (hp_now s2 + t) = heap_now_of s + unat t" using ov 1(4) 2(5) by (simp add: heap_now_of_def unat_add_small)
  have "heap_inv s' \<and> heap_now_of s' = heap_now_of s3 \<and> heap_live_of s' = heap_live_of s3"
    using heap_inv_reordered [OF 4(2,3)] c 3(4,5) by simp
  then show ?thesis using run 4(1) 3(6,8) 2(4,5) 1(3,4) nd e by (simp add: heap_now_of_def)
qed

lemma nodes_ok_now: "nodes_ok (s\<lparr>hp_now := t\<rparr>) = nodes_ok s"
  unfolding nodes_ok_def by simp

lemma heap_tick_spec:
  assumes v: "heap_inv s" and ov: "heap_now_of s + 1 < 2 ^ 64"
  shows "\<exists>s'. heap_tick s = Some (of_nat (card (due (heap_live_of s) (Suc (heap_now_of s)))), s') \<and> heap_inv s' \<and>
    heap_now_of s' = Suc (heap_now_of s) \<and> heap_live_of s' = later (heap_live_of s) (Suc (heap_now_of s))"
proof -
  let ?s = "s\<lparr>hp_now := hp_now s + 1\<rparr>"
  have eq: "hkey ?s = hkey s" "heap_live_of ?s = heap_live_of s"
    by (auto simp: hkey_def heap_live_of_def fun_eq_iff split: option.split)
  have inv: "heap_inv ?s" using v unfolding heap_inv_def eq nodes_ok_now by simp
  have now: "heap_now_of ?s = Suc (heap_now_of s)" using ov by (simp add: heap_now_of_def unat_Suc64)
  show ?thesis using pop_due_spec [OF inv, of 0] unfolding heap_tick_def eq now by simp
qed

lemma heap_advance_spec: "heap_inv s \<Longrightarrow> \<exists>s'. heap_advance s t = Some s' \<and> heap_inv s' \<and> heap_now_of s' = unat t \<and> heap_live_of s' = heap_live_of s"
proof -
  assume v: "heap_inv s"
  have eq: "hkey (s\<lparr>hp_now := t\<rparr>) = hkey s" "heap_live_of (s\<lparr>hp_now := t\<rparr>) = heap_live_of s"
    by (auto simp: hkey_def heap_live_of_def fun_eq_iff split: option.split)
  show ?thesis using v unfolding heap_advance_def heap_inv_def by (simp add: eq nodes_ok_now heap_now_of_def)
qed

lemma heap_create_spec: "heap_inv heap_create" "heap_now_of heap_create = 0" "heap_live_of heap_create = Map.empty"
proof -
  have "nodes_ok heap_create" by (simp add: nodes_ok_def heap_create_def)
  moreover have "min_heap (hkey heap_create) (hp_len heap_create)" by (simp add: min_heap_def heap_create_def)
  ultimately show "heap_inv heap_create" by (simp add: heap_inv_def) (simp add: heap_create_def cap_ok_def)
  show "heap_now_of heap_create = 0" by (simp add: heap_now_of_def heap_create_def)
  show "heap_live_of heap_create = Map.empty" by (simp add: heap_live_of_def heap_create_def fun_eq_iff)
qed

interpretation hp: timer_store cts_heap_vtable heap_inv heap_now_of heap_live_of "\<lambda>t. t" "2 ^ 59" "2 ^ 64"
proof unfold_locales
  fix s :: heap_store
  show "finite (dom (heap_live_of s))" by (rule heap_finite)
  assume v: "heap_inv s"
  have "nodes_ok s" using v by (simp add: heap_inv_def)
  then show "vt_size cts_heap_vtable s = of_nat (card (dom (heap_live_of s)))"
    by (simp add: cts_heap_vtable_def heap_size_def heap_card)
qed (simp_all add: cts_heap_vtable_def heap_create_spec heap_start_spec heap_stop_spec heap_tick_spec heap_advance_spec del: not_None_eq)

end
