(* ===== verification/Wheel_Store.thy ===== *)
theory Wheel_Store
  imports Slots
begin

unbundle bit_operations_syntax

text \<open>
  The exact hierarchical wheel src/benchmarks/c/impl/wheel_exact.c: eight levels of 64 slots, in which
  a timer is moved to a finer level when the clock crosses the boundary of its slot.
  The loop of a cascade is a \<open>partial_function\<close>: it need not end (\<open>Wheel_Correct\<close>).
\<close>

definition LVL_BITS :: nat where "LVL_BITS = 6"
definition LVL_SIZE :: u64 where "LVL_SIZE = push_bit LVL_BITS 1"
definition LVL_MASK :: u64 where "LVL_MASK = LVL_SIZE - 1"
definition NUM_LEVELS :: nat where "NUM_LEVELS = 8"
definition LVL_GRAN :: "nat \<Rightarrow> u64" where "LVL_GRAN n = push_bit (LVL_BITS * n) 1"

record wheel =
  we_now :: u64
  levels :: "u64 list list list"
  we_expire :: "u64 \<rightharpoonup> u64"
  id_lvl :: "u64 \<rightharpoonup> int"
  id_idx :: "u64 \<rightharpoonup> nat"
  we_pos :: "u64 \<rightharpoonup> nat"
  we_cap :: u64
  we_live :: u64

definition we_create :: wheel where
  "we_create = \<lparr>we_now = 0, levels = replicate NUM_LEVELS (replicate (unat LVL_SIZE) []), we_expire = Map.empty, id_lvl = Map.empty,
     id_idx = Map.empty, we_pos = Map.empty, we_cap = 0, we_live = 0\<rparr>"

definition we_ensure_id_cap :: "wheel \<Rightarrow> u64 \<Rightarrow> wheel option" where
  "we_ensure_id_cap s i =
     (if i < we_cap s then Some s
      else do {
        nc \<leftarrow> double_past i (if we_cap s \<noteq> 0 then we_cap s else 1024);
        _ \<leftarrow> alloc nc 8;
        Some (s\<lparr>id_lvl := (\<lambda>j. if we_cap s \<le> j \<and> j < nc then Some (- 1) else id_lvl s j), we_cap := nc\<rparr>)
      })"

definition get_slot :: "u64 list list list \<Rightarrow> nat \<Rightarrow> nat \<Rightarrow> u64 list option" where
  "get_slot lv l x = do { row \<leftarrow> index lv l; index row x }"

definition put_slot :: "u64 list list list \<Rightarrow> nat \<Rightarrow> nat \<Rightarrow> u64 list \<Rightarrow> u64 list list list option" where
  "put_slot lv l x sl = do { row \<leftarrow> index lv l; row \<leftarrow> store row x sl; store lv l row }"

function level_of :: "u64 \<Rightarrow> nat \<Rightarrow> nat" where
  "level_of delta level =
     (if level < NUM_LEVELS - 1 \<and> delta \<ge> LVL_GRAN (level + 1) then level_of delta (level + 1) else level)"
  by pat_completeness auto
termination
  by (relation "measure (\<lambda>(d, l). NUM_LEVELS - l)") auto

declare level_of.simps [simp del]

definition slot_index :: "u64 \<Rightarrow> nat \<Rightarrow> nat" where
  "slot_index t level = unat (drop_bit (LVL_BITS * level) t AND LVL_MASK)"

definition we_place :: "wheel \<Rightarrow> u64 \<Rightarrow> wheel option" where
  "we_place s i = do {
     expire \<leftarrow> rd (we_cap s) (we_expire s) i;
     let delta = (if expire > we_now s then expire - we_now s else 0);
     let level = level_of delta 0;
     let idx = slot_index expire level;
     sl \<leftarrow> get_slot (levels s) level idx;
     let (sl, pos) = slot_push sl i;
     lv \<leftarrow> put_slot (levels s) level idx sl;
     l \<leftarrow> wr (we_cap s) (id_lvl s) i (int level);
     x \<leftarrow> wr (we_cap s) (id_idx s) i idx;
     p \<leftarrow> wr (we_cap s) (we_pos s) i pos;
     Some (s\<lparr>levels := lv, id_lvl := l, id_idx := x, we_pos := p\<rparr>)
   }"

definition we_start :: "wheel \<Rightarrow> u64 \<Rightarrow> u64 \<Rightarrow> wheel option" where
  "we_start s i ttl = do {
     s \<leftarrow> we_ensure_id_cap s i;
     e \<leftarrow> wr (we_cap s) (we_expire s) i (we_now s + ttl);
     s \<leftarrow> we_place (s\<lparr>we_expire := e\<rparr>) i;
     Some (s\<lparr>we_live := we_live s + 1\<rparr>)
   }"

definition we_stop :: "wheel \<Rightarrow> u64 \<Rightarrow> (bool \<times> wheel) option" where
  "we_stop s i =
     (if i \<ge> we_cap s then Some (False, s)
      else do {
        l \<leftarrow> rd (we_cap s) (id_lvl s) i;
        (if l < 0 then Some (False, s)
         else do {
           x \<leftarrow> rd (we_cap s) (id_idx s) i;
           sl \<leftarrow> get_slot (levels s) (nat l) x;
           pos \<leftarrow> rd (we_cap s) (we_pos s) i;
           (sl, p) \<leftarrow> slot_remove_at (we_cap s) (we_pos s) sl pos;
           lv \<leftarrow> put_slot (levels s) (nat l) x sl;
           a \<leftarrow> wr (we_cap s) (id_lvl s) i (- 1);
           Some (True, s\<lparr>levels := lv, id_lvl := a, we_pos := p, we_live := we_live s - 1\<rparr>)
         })
      })"

text \<open>The loops of a tick: over the timers of a slot, whose body moves the last one, and over the levels.\<close>

definition cascade_last :: "wheel \<Rightarrow> nat \<Rightarrow> nat \<Rightarrow> u64 list \<Rightarrow> wheel option" where
  "cascade_last s lvl idx sl = do {
     i \<leftarrow> index sl (length sl - 1);
     (sl, p) \<leftarrow> slot_remove_at (we_cap s) (we_pos s) sl (length sl - 1);
     lv \<leftarrow> put_slot (levels s) lvl idx sl;
     we_place (s\<lparr>levels := lv, we_pos := p\<rparr>) i
   }"

partial_function (option) cascade_slot :: "wheel \<Rightarrow> nat \<Rightarrow> nat \<Rightarrow> wheel option" where
  "cascade_slot s lvl idx = do {
     sl \<leftarrow> get_slot (levels s) lvl idx;
     (if length sl > 0
      then do {
        s \<leftarrow> cascade_last s lvl idx sl;
        cascade_slot s lvl idx
      }
      else Some s)
   }"

declare cascade_slot.simps [code]

function cascade :: "wheel \<Rightarrow> nat \<Rightarrow> wheel option" where
  "cascade s lvl =
     (if lvl < NUM_LEVELS
      then let gran = LVL_GRAN lvl in
        (if we_now s AND (gran - 1) \<noteq> 0 then Some s
         else do {
           let idx = slot_index (we_now s) lvl;
           s \<leftarrow> cascade_slot s lvl idx;
           cascade s (lvl + 1)
         })
      else Some s)"
  by pat_completeness auto
termination
  by (relation "measure (\<lambda>(s, l). NUM_LEVELS - l)") auto

declare cascade.simps [simp del]

definition we_tick :: "wheel \<Rightarrow> (u64 \<times> wheel) option" where
  "we_tick s = do {
     s \<leftarrow> cascade (s\<lparr>we_now := we_now s + 1\<rparr>) 1;
     let idx0 = unat (we_now s AND LVL_MASK);
     sl0 \<leftarrow> get_slot (levels s) 0 idx0;
     let fired = of_nat (length sl0);
     l \<leftarrow> mark_absent (we_cap s) (id_lvl s) sl0;
     lv \<leftarrow> put_slot (levels s) 0 idx0 [];
     Some (fired, s\<lparr>levels := lv, id_lvl := l, we_live := we_live s - fired\<rparr>)
   }"

definition we_size :: "wheel \<Rightarrow> u64" where
  "we_size s = we_live s"

partial_function (option) we_advance :: "wheel \<Rightarrow> u64 \<Rightarrow> wheel option" where
  "we_advance s target =
     (if we_now s < target then do { (fired, s) \<leftarrow> we_tick s; we_advance s target } else Some s)"

declare we_advance.simps [code]

definition cts_wheel_exact_vtable :: "wheel cts_vtable" where
  "cts_wheel_exact_vtable = \<lparr>vt_create = we_create, vt_start = we_start, vt_stop = we_stop, vt_tick = we_tick,
     vt_size = we_size, vt_advance = we_advance\<rparr>"

end
