(* ===== verification/Wheel_Correct.thy ===== *)
theory Wheel_Correct
  imports Wheel_Store
begin

text \<open>
  Correctness of the exact wheel: where a timer is stored, what a cascade moves, and the interpretation of
  the contract \<open>timer_store\<close> for ids below \<open>2 ^ 60\<close> and TTLs below \<open>2 ^ 48\<close>, the range of the eight levels;
  and a run with a larger TTL in which a tick does not end.
\<close>

unbundle bit_operations_syntax

section \<open>Levels and slots\<close>

lemma pow64: "(2 :: nat) ^ (6 * l) = 64 ^ l"
  by (simp add: power_mult)

lemma gran_mask: "LVL_GRAN l - 1 = mask (6 * l)"
  by (simp add: LVL_GRAN_def LVL_BITS_def push_bit_of_1 mask_eq_exp_minus_1)

lemma gran_val: "l < 9 \<Longrightarrow> unat (LVL_GRAN l) = 64 ^ l"
  using unat_exp64 [of "6 * l"] by (simp add: LVL_GRAN_def LVL_BITS_def push_bit_of_1 pow64)

lemma mask_val: "LVL_MASK = mask 6"
  by (simp add: LVL_MASK_def LVL_SIZE_def LVL_BITS_def mask_eq_exp_minus_1 push_bit_eq_mult)

lemma slot_index_val: "slot_index t l = unat t div 64 ^ l mod 64"
  by (simp add: slot_index_def mask_val LVL_BITS_def unat_and_mask unat_drop_bit pow64)

lemma boundary: "n AND (LVL_GRAN l - 1) = 0 \<longleftrightarrow> 64 ^ l dvd unat n"
proof -
  have "n AND (LVL_GRAN l - 1) = 0 \<longleftrightarrow> unat (n AND mask (6 * l)) = 0" unfolding gran_mask by (simp add: unat_eq_0)
  also have "\<dots> \<longleftrightarrow> 64 ^ l dvd unat n" unfolding unat_and_mask pow64 by (simp add: dvd_eq_mod_eq_0)
  finally show ?thesis .
qed

definition at_level :: "nat \<Rightarrow> nat \<Rightarrow> bool" where
  "at_level d l \<longleftrightarrow> l < 8 \<and> (l = 0 \<or> 64 ^ l \<le> d) \<and> (l = 7 \<or> d < 64 ^ Suc l)"

lemma level_of_spec: "k < 8 \<Longrightarrow> k = 0 \<or> 64 ^ k \<le> unat d \<Longrightarrow> at_level (unat d) (level_of d k)"
proof (induction d k rule: level_of.induct)
  case (1 d k)
  show ?case
  proof (cases "k < NUM_LEVELS - 1 \<and> d \<ge> LVL_GRAN (k + 1)")
    case True
    then have k: "k < 7" by (simp add: NUM_LEVELS_def)
    then have "64 ^ (k + 1) \<le> unat d" using True gran_val [of "k + 1"] by (simp add: word_le_nat_alt)
    then show ?thesis using 1 True k by (subst level_of.simps) simp
  next
    case False
    have "k = 7 \<or> unat d < 64 ^ Suc k"
    proof (cases "k = 7")
      case f: False
      then have "\<not> d \<ge> LVL_GRAN (k + 1)" using False 1(2) by (simp add: NUM_LEVELS_def)
      then show ?thesis using gran_val [of "k + 1"] 1(2) f by (simp add: word_le_nat_alt not_le)
    qed simp
    moreover have "level_of d k = k" using False by (subst level_of.simps) (rule if_not_P)
    ultimately show ?thesis using 1(2,3) by (simp add: at_level_def)
  qed
qed

text \<open>A timer of level l is stored by the number of its slot, which is ahead and at most a turn away.\<close>

definition fits :: "nat \<Rightarrow> nat \<Rightarrow> nat \<Rightarrow> bool" where
  "fits n e l \<longleftrightarrow> n div 64 ^ l < e div 64 ^ l \<and> e div 64 ^ l \<le> n div 64 ^ l + 64"

text \<open>In the tick to time n before level L is cascaded, and at level 0, it can be in the slot of n itself.\<close>

definition fits_at :: "nat \<Rightarrow> nat \<Rightarrow> nat \<Rightarrow> nat \<Rightarrow> bool" where
  "fits_at n L e l \<longleftrightarrow> (if l = 0 \<or> L \<le> l \<and> 64 ^ l dvd n
     then n div 64 ^ l \<le> e div 64 ^ l \<and> e div 64 ^ l < n div 64 ^ l + 64 else fits n e l)"

lemma fits_placed:
  assumes "n \<le> e" "64 ^ l \<le> e - n" "e - n < 64 ^ Suc l"
  shows "fits n e l"
proof -
  have g: "(64 :: nat) ^ l > 0" by simp
  have "n + 64 ^ l \<le> e" "e \<le> n + 64 * 64 ^ l" using assms by simp_all
  then have "(n + 64 ^ l) div 64 ^ l \<le> e div 64 ^ l" "e div 64 ^ l \<le> (n + 64 * 64 ^ l) div 64 ^ l" using div_le_mono by blast+
  moreover have "(n + 64 ^ l) div 64 ^ l = n div 64 ^ l + 1" by (rule div_add_self2) simp
  moreover have "(n + 64 * 64 ^ l) div 64 ^ l = n div 64 ^ l + 64" by simp
  ultimately show ?thesis unfolding fits_def by linarith
qed

lemma fits_at_placed:
  assumes "n \<le> e" "at_level (e - n) l" "e - n < 64 ^ 8" "l < L \<or> l = 0"
  shows "fits_at n L e l"
proof (cases "l = 0")
  case True
  then show ?thesis using assms(1,2) by (simp add: fits_at_def at_level_def)
next
  case False
  have "e - n < 64 ^ Suc l" using assms(2,3) by (auto simp: at_level_def)
  then have "fits n e l" using fits_placed assms(1,2) False by (simp add: at_level_def)
  then show ?thesis using assms(4) False by (simp add: fits_at_def)
qed

lemma fits_start: "n < e \<Longrightarrow> at_level (e - n) l \<Longrightarrow> e - n < 64 ^ 8 \<Longrightarrow> fits n e l"
proof -
  assume a: "n < e" "at_level (e - n) l" "e - n < 64 ^ 8"
  show "fits n e l"
  proof (cases "l = 0")
    case True
    then show ?thesis using a by (simp add: fits_def at_level_def)
  next
    case False
    have "e - n < 64 ^ Suc l" using a by (auto simp: at_level_def)
    then show ?thesis using fits_placed a False by (simp add: at_level_def)
  qed
qed

lemma fits_ahead: "fits n e l \<Longrightarrow> n < e"
  unfolding fits_def by (metis div_le_mono not_le)

lemma fits_step:
  assumes f: "fits n e l"
  shows "fits_at (Suc n) 1 e l"
proof (cases "64 ^ l dvd Suc n")
  case True
  have d: "Suc n div 64 ^ l = Suc (n div 64 ^ l)" using True by (simp add: div_Suc dvd_eq_mod_eq_0)
  show ?thesis
  proof (cases "l = 0")
    case True
    then show ?thesis using f by (simp add: fits_def fits_at_def)
  next
    case False
    then show ?thesis using f d True by (simp add: fits_def fits_at_def)
  qed
next
  case False
  have d: "Suc n div 64 ^ l = n div 64 ^ l" using False by (simp add: div_Suc dvd_eq_mod_eq_0)
  have "l \<noteq> 0" using False by (cases l) simp_all
  then show ?thesis using False f unfolding fits_at_def fits_def d by simp
qed

lemma fits_at_done: "l < L \<or> \<not> 64 ^ l dvd n \<Longrightarrow> l \<noteq> 0 \<Longrightarrow> fits_at n L e l = fits n e l"
  by (auto simp: fits_at_def)

text \<open>In the slot that is cascaded are the timers of that slot's span, and no others of the level.\<close>

lemma cascaded:
  assumes "fits_at n L e L" "64 ^ L dvd n"
  shows "e div 64 ^ L mod 64 = n div 64 ^ L mod 64 \<longleftrightarrow> e div 64 ^ L = n div 64 ^ L"
    "e div 64 ^ L = n div 64 ^ L \<Longrightarrow> n \<le> e \<and> e - n < 64 ^ L"
    "e div 64 ^ L \<noteq> n div 64 ^ L \<Longrightarrow> fits n e L"
proof -
  let ?g = "(64 :: nat) ^ L"
  have b: "n div ?g \<le> e div ?g" "e div ?g < n div ?g + 64" using assms by (simp_all add: fits_at_def)
  show "e div ?g mod 64 = n div ?g mod 64 \<longleftrightarrow> e div ?g = n div ?g"
    using same_slot [of "e div ?g" 64 "n div ?g" "n div ?g"] b by auto
  show "e div ?g \<noteq> n div ?g \<Longrightarrow> fits n e L" using b by (simp add: fits_def)
  assume q: "e div ?g = n div ?g"
  have n: "n = n div ?g * ?g" using assms(2) by simp
  have e: "e = e div ?g * ?g + e mod ?g" by (rule div_mult_mod_eq [symmetric])
  have "e mod ?g < ?g" by simp
  then show "n \<le> e \<and> e - n < ?g" using n e q by (metis add_diff_cancel_left' le_add1)
qed

lemma fits_at_Suc:
  assumes "fits_at n L e l" "l = L \<Longrightarrow> e div 64 ^ L \<noteq> n div 64 ^ L" "64 ^ L dvd n" "1 \<le> L"
  shows "fits_at n (Suc L) e l"
proof (cases "l = L")
  case True
  then have "fits n e L" using cascaded(3) assms by blast
  then show ?thesis using True assms(4) by (simp add: fits_at_def)
next
  case False
  then have "L \<le> l \<longleftrightarrow> Suc L \<le> l" by auto
  then show ?thesis using assms(1) by (simp add: fits_at_def)
qed


section \<open>The arrays\<close>

type_synonym slot_key = "nat \<times> nat"

definition lslot :: "u64 list list list \<Rightarrow> slot_key \<Rightarrow> u64 list" where
  "lslot lv k = (if fst k < 8 \<and> snd k < 64 then lv ! fst k ! snd k else [])"

definition grid_ok :: "u64 list list list \<Rightarrow> bool" where
  "grid_ok lv \<longleftrightarrow> length lv = 8 \<and> (\<forall>l < 8. length (lv ! l) = 64)"

definition wkey :: "wheel \<Rightarrow> u64 \<rightharpoonup> slot_key" where
  "wkey s i = (case id_lvl s i of None \<Rightarrow> None | Some l \<Rightarrow> if l < 0 then None else map_option (Pair (nat l)) (id_idx s i))"

definition wheel_ok :: "wheel \<Rightarrow> bool" where
  "wheel_ok s \<longleftrightarrow> grid_ok (levels s) \<and> cap_ok 60 (we_cap s) \<and> (\<forall>i. id_lvl s i = None \<longleftrightarrow> we_cap s \<le> i) \<and>
     (\<forall>i l. id_lvl s i = Some l \<and> 0 \<le> l \<longrightarrow> id_idx s i \<noteq> None)"

text \<open>K: the slots of the timers; a timer that a cascade has taken out of its slot has none.\<close>

definition placed :: "wheel \<Rightarrow> (u64 \<rightharpoonup> slot_key) \<Rightarrow> bool" where
  "placed s K \<longleftrightarrow> wheel_ok s \<and> bag_ok (lslot (levels s)) K (we_pos s) \<and>
     (\<forall>i k. K i = Some k \<longrightarrow> i < we_cap s \<and> fst k < 8 \<and> (\<exists>e. we_expire s i = Some e \<and> snd k = unat e div 64 ^ fst k mod 64))"

definition timers :: "wheel \<Rightarrow> (nat \<Rightarrow> nat \<Rightarrow> bool) \<Rightarrow> bool" where
  "timers s Q \<longleftrightarrow> (\<forall>i k e. wkey s i = Some k \<and> we_expire s i = Some e \<longrightarrow> Q (unat e) (fst k))"

lemma slot_access:
  assumes "grid_ok lv" "l < 8" "x < 64"
  shows "get_slot lv l x = Some (lslot lv (l, x))"
    "\<exists>lv'. put_slot lv l x sl = Some lv' \<and> grid_ok lv' \<and> lslot lv' = (lslot lv)((l, x) := sl)"
proof -
  have l: "l < length lv" "x < length (lv ! l)" using assms by (simp_all add: grid_ok_def)
  then show "get_slot lv l x = Some (lslot lv (l, x))" using assms by (simp add: get_slot_def lslot_def)
  let ?lv = "lv[l := (lv ! l)[x := sl]]"
  have "put_slot lv l x sl = Some ?lv" using l by (simp add: put_slot_def)
  moreover have "grid_ok ?lv" using assms l by (auto simp: grid_ok_def nth_list_update)
  moreover have "lslot ?lv = (lslot lv)((l, x) := sl)" using assms l by (auto simp: lslot_def fun_eq_iff nth_list_update)
  ultimately show "\<exists>lv'. put_slot lv l x sl = Some lv' \<and> grid_ok lv' \<and> lslot lv' = (lslot lv)((l, x) := sl)" by blast
qed

lemma wkey_placed: "wheel_ok s \<Longrightarrow> wkey s i = None \<longleftrightarrow> id_lvl s i = None \<or> (\<exists>l < 0. id_lvl s i = Some l)"
proof -
  assume w: "wheel_ok s"
  have "id_idx s i \<noteq> None" if "id_lvl s i = Some l" "0 \<le> l" for l using w that unfolding wheel_ok_def by blast
  then show ?thesis by (cases "id_lvl s i") (auto simp: wkey_def not_less)
qed

lemma place_step:
  assumes p: "placed s K" and i: "K i = None" "i < we_cap s" "we_expire s i = Some e" "we_now s \<le> e"
  shows "\<exists>s' l lv p. we_place s i = Some s' \<and> at_level (unat e - unat (we_now s)) l \<and>
    s' = s\<lparr>levels := lv, id_lvl := (id_lvl s)(i \<mapsto> int l), id_idx := (id_idx s)(i \<mapsto> unat e div 64 ^ l mod 64), we_pos := p\<rparr> \<and>
    placed s' (K(i \<mapsto> (l, unat e div 64 ^ l mod 64))) \<and>
    lslot lv = (lslot (levels s))((l, unat e div 64 ^ l mod 64) := lslot (levels s) (l, unat e div 64 ^ l mod 64) @ [i])"
proof -
  let ?d = "if e > we_now s then e - we_now s else 0"
  define l where "l = level_of ?d 0"
  let ?x = "unat e div 64 ^ l mod 64"
  have d: "unat ?d = unat e - unat (we_now s)"
  proof (cases "e > we_now s")
    case True
    then show ?thesis using i(4) by (simp add: unat_sub)
  next
    case False
    then have "e = we_now s" using i(4) by simp
    then show ?thesis by simp
  qed
  have lv: "at_level (unat e - unat (we_now s)) l" using level_of_spec [of 0 ?d] unfolding d l_def by simp
  have l8: "l < 8" "?x < 64" using lv by (simp_all add: at_level_def)
  have w: "wheel_ok s" and b: "bag_ok (lslot (levels s)) K (we_pos s)"
    and K: "\<And>i k. K i = Some k \<Longrightarrow> i < we_cap s \<and> fst k < 8 \<and> (\<exists>e. we_expire s i = Some e \<and> snd k = unat e div 64 ^ fst k mod 64)"
    using p unfolding placed_def by blast+
  have g: "grid_ok (levels s)" using w by (simp add: wheel_ok_def)
  let ?sl = "lslot (levels s) (l, ?x)"
  obtain lv' where lv': "put_slot (levels s) l ?x (?sl @ [i]) = Some lv'" "grid_ok lv'" "lslot lv' = (lslot (levels s))((l, ?x) := ?sl @ [i])"
    using slot_access(2) [OF g l8] by blast
  let ?s = "s\<lparr>levels := lv', id_lvl := (id_lvl s)(i \<mapsto> int l), id_idx := (id_idx s)(i \<mapsto> ?x), we_pos := (we_pos s)(i \<mapsto> length ?sl)\<rparr>"
  have run: "we_place s i = Some ?s"
    using i(2,3) slot_access(1) [OF g l8] lv'(1)
    by (simp add: we_place_def Let_def slot_push_def slot_index_val flip: l_def)
  have "wheel_ok ?s"
  proof -
    have "id_lvl ?s j = None \<longleftrightarrow> we_cap ?s \<le> j" for j using w i(2) by (auto simp: wheel_ok_def not_le)
    moreover have "id_idx ?s j \<noteq> None" if "id_lvl ?s j = Some m" "0 \<le> m" for j m
      using w that unfolding wheel_ok_def by (cases "j = i") auto
    moreover have "cap_ok 60 (we_cap ?s)" using w by (simp add: wheel_ok_def)
    ultimately show ?thesis using lv'(2) unfolding wheel_ok_def by simp
  qed
  moreover have "bag_ok (lslot (levels ?s)) (K(i \<mapsto> (l, ?x))) (we_pos ?s)" using bag_push [OF b i(1)] lv'(3) by simp
  moreover have "j < we_cap ?s \<and> fst k < 8 \<and> (\<exists>e. we_expire ?s j = Some e \<and> snd k = unat e div 64 ^ fst k mod 64)"
    if "(K(i \<mapsto> (l, ?x))) j = Some k" for j k
    using that K [of j k] i(2,3) l8 by (cases "j = i") auto
  ultimately have "placed ?s (K(i \<mapsto> (l, ?x)))" unfolding placed_def by blast
  then show ?thesis using run lv lv'(3) by blast
qed


text \<open>A timer is taken out of its slot.\<close>

lemma take_out:
  assumes p: "placed s K" and k: "K i = Some (l, x)"
  shows "\<exists>j sl P lv. we_pos s i = Some j \<and> get_slot (levels s) l x = Some (lslot (levels s) (l, x)) \<and>
    slot_remove_at (we_cap s) (we_pos s) (lslot (levels s) (l, x)) j = Some (sl, P) \<and> put_slot (levels s) l x sl = Some lv \<and>
    placed (s\<lparr>levels := lv, we_pos := P\<rparr>) (K(i := None)) \<and> lslot lv = (lslot (levels s))((l, x) := sl) \<and>
    length (lslot (levels s) (l, x)) = Suc (length sl) \<and> lslot (levels s) (l, x) ! j = i"
proof -
  have w: "wheel_ok s" and b: "bag_ok (lslot (levels s)) K (we_pos s)"
    and K: "\<And>i k. K i = Some k \<Longrightarrow> i < we_cap s \<and> fst k < 8 \<and> (\<exists>e. we_expire s i = Some e \<and> snd k = unat e div 64 ^ fst k mod 64)"
    using p unfolding placed_def by blast+
  have g: "grid_ok (levels s)" using w by (simp add: wheel_ok_def)
  have lx: "l < 8" "x < 64" using K [OF k] by auto
  have cap: "\<forall>i k. K i = Some k \<longrightarrow> i < we_cap s" using K by blast
  obtain j sl P where 1: "we_pos s i = Some j" "slot_remove_at (we_cap s) (we_pos s) (lslot (levels s) (l, x)) j = Some (sl, P)"
      "bag_ok ((lslot (levels s))((l, x) := sl)) (K(i := None)) P" "length (lslot (levels s) (l, x)) = Suc (length sl)"
    using bag_remove [OF b k cap] by blast
  have at: "lslot (levels s) (l, x) ! j = i" using bag_ok_pos [OF b k] 1(1) by auto
  obtain lv where 2: "put_slot (levels s) l x sl = Some lv" "grid_ok lv" "lslot lv = (lslot (levels s))((l, x) := sl)"
    using slot_access(2) [OF g lx] by blast
  let ?s = "s\<lparr>levels := lv, we_pos := P\<rparr>"
  have "wheel_ok ?s" using w 2(2) unfolding wheel_ok_def by simp
  moreover have "bag_ok (lslot (levels ?s)) (K(i := None)) (we_pos ?s)" using 1(3) 2(3) by simp
  moreover have "j < we_cap ?s \<and> fst k < 8 \<and> (\<exists>e. we_expire ?s j = Some e \<and> snd k = unat e div 64 ^ fst k mod 64)"
    if "(K(i := None)) j = Some k" for j k
    using K [of j k] that by (simp split: if_splits)
  ultimately have "placed ?s (K(i := None))" unfolding placed_def by blast
  then show ?thesis using 1 2 at slot_access(1) [OF g lx] by blast
qed

definition cascades :: "wheel \<Rightarrow> wheel \<Rightarrow> bool" where
  "cascades s s' \<longleftrightarrow> we_now s' = we_now s \<and> we_expire s' = we_expire s \<and> we_cap s' = we_cap s \<and> we_live s' = we_live s \<and>
     dom (wkey s') = dom (wkey s)"

lemma cascades_trans: "cascades s s' \<Longrightarrow> cascades s' s'' \<Longrightarrow> cascades s s''"
  by (simp add: cascades_def)

lemma cascade_last_spec:
  assumes p: "placed s (wkey s)" and x: "L < 8" "x < 64" and ne: "lslot (levels s) (L, x) = sl" "sl \<noteq> []"
    and e: "we_expire s (last sl) = Some e" "we_now s \<le> e"
  shows "\<exists>s2 l. cascade_last s L x sl = Some s2 \<and> at_level (unat e - unat (we_now s)) l \<and> placed s2 (wkey s2) \<and> cascades s s2 \<and>
    wkey s2 = (wkey s)(last sl \<mapsto> (l, unat e div 64 ^ l mod 64)) \<and>
    (l \<noteq> L \<longrightarrow> length sl = Suc (length (lslot (levels s2) (L, x))))"
proof -
  let ?m = "length sl - 1" let ?i = "last sl"
  have b: "bag_ok (lslot (levels s)) (wkey s) (we_pos s)" using p by (simp add: placed_def)
  have m: "?m < length sl" "sl ! ?m = ?i" using ne(2) by (simp_all add: last_conv_nth)
  have "?i \<in> set sl" using ne(2) by simp
  then have k: "wkey s ?i = Some (L, x)" using b ne(1) unfolding bag_ok_def by blast
  have ic: "?i < we_cap s" using p k unfolding placed_def by blast
  obtain j sl' P lv where 1: "we_pos s ?i = Some j" "get_slot (levels s) L x = Some sl"
      "slot_remove_at (we_cap s) (we_pos s) sl j = Some (sl', P)" "put_slot (levels s) L x sl' = Some lv"
      "placed (s\<lparr>levels := lv, we_pos := P\<rparr>) ((wkey s)(?i := None))" "lslot lv = (lslot (levels s))((L, x) := sl')"
      "length sl = Suc (length sl')"
    using take_out [OF p k] unfolding ne(1) by blast
  have "we_pos s (lslot (levels s) (L, x) ! ?m) = Some ?m" using b m ne(1) unfolding bag_ok_def by blast
  then have jm: "j = ?m" using 1(1) ne(1) m(2) by simp
  let ?s1 = "s\<lparr>levels := lv, we_pos := P\<rparr>"
  obtain s2 l lv2 p2 where 2: "we_place ?s1 ?i = Some s2" "at_level (unat e - unat (we_now ?s1)) l"
      "s2 = ?s1\<lparr>levels := lv2, id_lvl := (id_lvl ?s1)(?i \<mapsto> int l), id_idx := (id_idx ?s1)(?i \<mapsto> unat e div 64 ^ l mod 64), we_pos := p2\<rparr>"
      "placed s2 ((wkey s)(?i := None, ?i \<mapsto> (l, unat e div 64 ^ l mod 64)))"
      "lslot lv2 = (lslot (levels ?s1))((l, unat e div 64 ^ l mod 64) := lslot (levels ?s1) (l, unat e div 64 ^ l mod 64) @ [?i])"
    using place_step [OF 1(5), of ?i e] e ic by auto
  have key: "wkey s2 = (wkey s)(?i \<mapsto> (l, unat e div 64 ^ l mod 64))" by (auto simp: wkey_def 2(3) fun_eq_iff split: option.split)
  have run: "cascade_last s L x sl = Some s2" using m 1(3,4) 2(1) jm by (simp add: cascade_last_def)
  have "at_level (unat e - unat (we_now s)) l" using 2(2) by simp
  moreover have "placed s2 (wkey s2)" using 2(4) unfolding key by simp
  moreover have "cascades s s2" using k unfolding cascades_def key by (auto simp: 2(3))
  moreover have "length sl = Suc (length (lslot (levels s2) (L, x)))" if "l \<noteq> L" using 2(3,5) 1(6,7) that by simp
  ultimately show ?thesis using run key by blast
qed

text \<open>A cascade of level L does not move the timers of other levels, for which A is any condition.\<close>

lemma move_one:
  assumes p: "placed s (wkey s)" and t: "timers s (\<lambda>e l. fits_at n L e l \<or> A e l)" and nA: "\<And>e. \<not> A e L" and n: "n = unat (we_now s)" "64 ^ L dvd n" "1 \<le> L" "L < 8"
    and ne: "lslot (levels s) (L, n div 64 ^ L mod 64) = sl" "sl \<noteq> []"
  shows "\<exists>s2. cascade_slot s L (n div 64 ^ L mod 64) = cascade_slot s2 L (n div 64 ^ L mod 64) \<and> placed s2 (wkey s2) \<and>
    timers s2 (\<lambda>e l. fits_at n L e l \<or> A e l) \<and> cascades s s2 \<and> length sl = Suc (length (lslot (levels s2) (L, n div 64 ^ L mod 64)))"
proof -
  let ?x = "n div 64 ^ L mod 64" let ?i = "last sl"
  have b: "bag_ok (lslot (levels s)) (wkey s) (we_pos s)" and g: "grid_ok (levels s)" using p by (simp_all add: placed_def wheel_ok_def)
  have "?i \<in> set sl" using ne(2) by simp
  then have k: "wkey s ?i = Some (L, ?x)" using b ne(1) unfolding bag_ok_def by blast
  obtain e where e: "we_expire s ?i = Some e" "?x = unat e div 64 ^ L mod 64" using p k unfolding placed_def by fastforce
  have fe: "fits_at n L (unat e) L" using t nA k e(1) unfolding timers_def by fastforce
  have "unat e div 64 ^ L = n div 64 ^ L" using cascaded(1) [OF fe n(2)] e(2) by simp
  then have en: "n \<le> unat e" "unat e - n < 64 ^ L" using cascaded(2) [OF fe n(2)] by simp_all
  have now: "we_now s \<le> e" using en(1) n(1) by (simp add: word_le_nat_alt)
  have x: "?x < 64" by simp
  obtain s2 l where 2: "cascade_last s L ?x sl = Some s2" "at_level (unat e - unat (we_now s)) l" "placed s2 (wkey s2)" "cascades s s2"
      "wkey s2 = (wkey s)(?i \<mapsto> (l, unat e div 64 ^ l mod 64))" "l \<noteq> L \<longrightarrow> length sl = Suc (length (lslot (levels s2) (L, ?x)))"
    using cascade_last_spec [OF p n(4) x ne e(1) now] by blast
  have lL: "l < L"
  proof (cases "l = 0")
    case False
    then have "64 ^ l \<le> unat e - n" using 2(2) n(1) by (simp add: at_level_def)
    then have "(64 :: nat) ^ l < 64 ^ L" using en(2) by (rule le_less_trans)
    then show ?thesis by (simp add: power_strict_increasing_iff)
  qed (use n(3) in simp)
  have "(64 :: nat) ^ L \<le> 64 ^ 8" using n(4) by (intro power_increasing) simp_all
  then have fi: "fits_at n L (unat e) l" using fits_at_placed [of n "unat e" l L] en 2(2) n(1) lL by simp
  have ex: "we_expire s2 = we_expire s" using 2(4) by (simp add: cascades_def)
  have "fits_at n L (unat e') (fst k') \<or> A (unat e') (fst k')" if a: "wkey s2 a = Some k'" "we_expire s2 a = Some e'" for a k' e'
  proof (cases "a = ?i")
    case True
    then show ?thesis using a fi e(1) unfolding 2(5) ex by (cases k') auto
  next
    case False
    then have "wkey s a = Some k'" "we_expire s a = Some e'" using a unfolding 2(5) ex by simp_all
    then show ?thesis using t unfolding timers_def by blast
  qed
  then have "timers s2 (\<lambda>e l. fits_at n L e l \<or> A e l)" unfolding timers_def by blast
  moreover have "cascade_slot s L ?x = cascade_slot s2 L ?x"
    using slot_access(1) [OF g n(4) x] ne 2(1) by (subst cascade_slot.simps) simp
  ultimately show ?thesis using 2(3,4,6) lL by blast
qed

lemma cascade_slot_spec:
  "placed s (wkey s) \<Longrightarrow> timers s (\<lambda>e l. fits_at n L e l \<or> A e l) \<Longrightarrow> (\<And>e. \<not> A e L) \<Longrightarrow> n = unat (we_now s) \<Longrightarrow> 64 ^ L dvd n \<Longrightarrow> 1 \<le> L \<Longrightarrow> L < 8 \<Longrightarrow>
   \<exists>s'. cascade_slot s L (n div 64 ^ L mod 64) = Some s' \<and> placed s' (wkey s') \<and> timers s' (\<lambda>e l. fits_at n (Suc L) e l \<or> A e l) \<and> cascades s s'"
proof (induction "length (lslot (levels s) (L, n div 64 ^ L mod 64))" arbitrary: s)
  case 0
  let ?x = "n div 64 ^ L mod 64"
  have e: "lslot (levels s) (L, ?x) = []" using 0(1) by simp
  have "grid_ok (levels s)" using 0(2) by (simp add: placed_def wheel_ok_def)
  then have run: "cascade_slot s L ?x = Some s" using slot_access(1) 0(8) e by (subst cascade_slot.simps) simp
  have "fits_at n (Suc L) (unat e') (fst k)" if k: "wkey s i = Some k" "we_expire s i = Some e'" "\<not> A (unat e') (fst k)" for i k e'
  proof (rule fits_at_Suc [OF _ _ 0(6,7)])
    show "fits_at n L (unat e') (fst k)" using 0(3) k unfolding timers_def by blast
    show "unat e' div 64 ^ L \<noteq> n div 64 ^ L" if l: "fst k = L"
    proof
      assume q: "unat e' div 64 ^ L = n div 64 ^ L"
      have "snd k = unat e' div 64 ^ fst k mod 64" using 0(2) k unfolding placed_def by fastforce
      then have "k = (L, ?x)" using q l by (cases k) simp
      then have "i \<in> set (lslot (levels s) (L, ?x))" using 0(2) k(1) unfolding placed_def bag_ok_def by blast
      then show False using e by simp
    qed
  qed
  then have "timers s (\<lambda>e l. fits_at n (Suc L) e l \<or> A e l)" unfolding timers_def by blast
  then show ?case using run 0(2) by (simp add: cascades_def)
next
  case (Suc k)
  let ?x = "n div 64 ^ L mod 64"
  have "lslot (levels s) (L, ?x) \<noteq> []" using Suc.hyps(2) by auto
  then obtain s2 where 2: "cascade_slot s L ?x = cascade_slot s2 L ?x" "placed s2 (wkey s2)" "timers s2 (\<lambda>e l. fits_at n L e l \<or> A e l)" "cascades s s2"
      "length (lslot (levels s) (L, ?x)) = Suc (length (lslot (levels s2) (L, ?x)))"
    using move_one [OF Suc.prems refl] by blast
  have now: "n = unat (we_now s2)" using 2(4) Suc.prems(4) by (simp add: cascades_def)
  have "k = length (lslot (levels s2) (L, ?x))" using 2(5) Suc.hyps(2) by simp
  then obtain s' where "cascade_slot s2 L ?x = Some s'" "placed s' (wkey s')" "timers s' (\<lambda>e l. fits_at n (Suc L) e l \<or> A e l)" "cascades s2 s'"
    using Suc.hyps(1) [OF _ 2(2,3) Suc.prems(3) now Suc.prems(5-7)] by blast
  then show ?case using 2(1) cascades_trans [OF 2(4)] by auto
qed


text \<open>After the cascades, the timers due now are in their slot of level 0, and all others are ahead.\<close>

definition ready :: "nat \<Rightarrow> nat \<Rightarrow> nat \<Rightarrow> bool" where
  "ready n e l \<longleftrightarrow> (if l = 0 then n \<le> e \<and> e < n + 64 else fits n e l)"

lemma timers_mono: "timers s Q \<Longrightarrow> placed s (wkey s) \<Longrightarrow> (\<And>e l. l < 8 \<Longrightarrow> Q e l \<Longrightarrow> Q' e l) \<Longrightarrow> timers s Q'"
proof -
  assume t: "timers s Q" "placed s (wkey s)" "\<And>e l. l < 8 \<Longrightarrow> Q e l \<Longrightarrow> Q' e l"
  have "Q' (unat e) (fst k)" if k: "wkey s i = Some k" "we_expire s i = Some e" for i k e
  proof -
    have "fst k < 8" "Q (unat e) (fst k)" using t(1,2) k unfolding timers_def placed_def by blast+
    then show ?thesis by (rule t(3))
  qed
  then show ?thesis unfolding timers_def by blast
qed

lemma cascade_spec:
  "placed s (wkey s) \<Longrightarrow> timers s (fits_at n L) \<Longrightarrow> n = unat (we_now s) \<Longrightarrow> 1 \<le> L \<Longrightarrow> L \<le> 8 \<Longrightarrow>
   \<exists>s'. cascade s L = Some s' \<and> placed s' (wkey s') \<and> timers s' (ready n) \<and> cascades s s'"
proof (induction "8 - L" arbitrary: s L rule: less_induct)
  case less
  have stop: ?case if run: "cascade s L = Some s" and last: "L < 8 \<Longrightarrow> \<not> 64 ^ L dvd n"
  proof -
    have "ready n e l" if "l < 8" "fits_at n L e l" for e l
    proof (cases "l = 0")
      case True
      then show ?thesis using that(2) by (simp add: ready_def fits_at_def)
    next
      case False
      have "l < L \<or> \<not> 64 ^ l dvd n"
      proof (cases "l < L")
        case f: False
        then have "\<not> 64 ^ L dvd n" using last that(1) by simp
        moreover have "(64 :: nat) ^ L dvd 64 ^ l" using f by (intro le_imp_power_dvd) simp
        ultimately show ?thesis using dvd_trans by blast
      qed simp
      then show ?thesis using that(2) False fits_at_done by (simp add: ready_def)
    qed
    then have "timers s (ready n)" using timers_mono [OF less.prems(2,1)] by blast
    then show ?thesis using run less.prems(1) by (simp add: cascades_def)
  qed
  show ?case
  proof (cases "L < 8 \<and> 64 ^ L dvd n")
    case False
    have "we_now s AND (LVL_GRAN L - 1) \<noteq> 0" if "L < 8" using False that less.prems(3) boundary by blast
    then have "cascade s L = Some s" by (subst cascade.simps) (simp add: NUM_LEVELS_def Let_def)
    then show ?thesis using stop False by blast
  next
    case True
    have idx: "slot_index (we_now s) L = n div 64 ^ L mod 64" using slot_index_val less.prems(3) by simp
    obtain s1 where 1: "cascade_slot s L (n div 64 ^ L mod 64) = Some s1" "placed s1 (wkey s1)" "timers s1 (fits_at n (Suc L))" "cascades s s1"
      using cascade_slot_spec [of s n L "\<lambda>_ _. False"] less.prems(1-4) True by auto
    have "we_now s AND (LVL_GRAN L - 1) = 0" using True less.prems(3) boundary by blast
    then have "cascade s L = cascade s1 (Suc L)" using True 1(1) idx by (subst cascade.simps) (simp add: NUM_LEVELS_def Let_def)
    moreover have now: "n = unat (we_now s1)" using 1(4) less.prems(3) by (simp add: cascades_def)
    have "L < 8" using True by blast
    then have "8 - Suc L < 8 - L" "1 \<le> Suc L" "Suc L \<le> 8" by linarith+
    then obtain s' where "cascade s1 (Suc L) = Some s'" "placed s' (wkey s')" "timers s' (ready n)" "cascades s1 s'"
      using less.hyps 1(2,3) now by blast
    ultimately show ?thesis using cascades_trans [OF 1(4)] by auto
  qed
qed

section \<open>The operations\<close>

definition wheel_inv :: "wheel \<Rightarrow> bool" where
  "wheel_inv s \<longleftrightarrow> placed s (wkey s) \<and> timers s (fits (unat (we_now s))) \<and> we_live s = of_nat (card (dom (wkey s)))"

definition wheel_now_of :: "wheel \<Rightarrow> nat" where "wheel_now_of s = unat (we_now s)"

definition wheel_live_of :: "wheel \<Rightarrow> u64 \<rightharpoonup> nat" where
  "wheel_live_of s i = (if wkey s i = None then None else map_option unat (we_expire s i))"

lemma wheel_finite: "finite (dom (wkey s))"
  by (rule finite_subset [OF subset_UNIV]) simp

lemma wheel_live_dom: "placed s (wkey s) \<Longrightarrow> dom (wheel_live_of s) = dom (wkey s)"
proof -
  assume p: "placed s (wkey s)"
  have "we_expire s i \<noteq> None" if "wkey s i \<noteq> None" for i using p that unfolding placed_def by blast
  then show ?thesis by (auto simp: wheel_live_of_def split: if_splits)
qed

lemma wkey_none: "placed s (wkey s) \<Longrightarrow> wkey s i = None \<Longrightarrow> id_lvl s i = None \<and> we_cap s \<le> i \<or> i < we_cap s \<and> (\<exists>l < 0. id_lvl s i = Some l)"
proof -
  assume p: "placed s (wkey s)" "wkey s i = None"
  have w: "wheel_ok s" using p by (simp add: placed_def)
  have "id_lvl s i = None \<longleftrightarrow> we_cap s \<le> i" using w unfolding wheel_ok_def by blast
  then show ?thesis using wkey_placed [OF w, of i] p(2) by (auto simp: not_le)
qed

lemma we_stop_spec:
  assumes v: "wheel_inv s"
  shows "\<exists>s'. we_stop s i = Some (wheel_live_of s i \<noteq> None, s') \<and> wheel_inv s' \<and> wheel_now_of s' = wheel_now_of s \<and>
    wheel_live_of s' = (wheel_live_of s)(i := None)"
proof (cases "wkey s i")
  case None
  have p: "placed s (wkey s)" using v by (simp add: wheel_inv_def)
  have "we_stop s i = Some (False, s)" using wkey_none [OF p None] by (auto simp: we_stop_def not_le)
  moreover have "wheel_live_of s i = None" using None by (simp add: wheel_live_of_def)
  ultimately show ?thesis using v by (auto simp: fun_upd_idem)
next
  case (Some k)
  obtain l x where k: "wkey s i = Some (l, x)" using Some by (cases k) simp
  have p: "placed s (wkey s)" and t: "timers s (fits (unat (we_now s)))" and lv: "we_live s = of_nat (card (dom (wkey s)))"
    using v by (simp_all add: wheel_inv_def)
  have w: "wheel_ok s" using p by (simp add: placed_def)
  have ic: "i < we_cap s" using p k unfolding placed_def by blast
  have lx: "id_lvl s i = Some (int l)" "id_idx s i = Some x"
    using k by (auto simp: wkey_def split: option.splits if_splits)
  obtain j sl P lv where 1: "we_pos s i = Some j" "get_slot (levels s) l x = Some (lslot (levels s) (l, x))"
      "slot_remove_at (we_cap s) (we_pos s) (lslot (levels s) (l, x)) j = Some (sl, P)" "put_slot (levels s) l x sl = Some lv"
      "placed (s\<lparr>levels := lv, we_pos := P\<rparr>) ((wkey s)(i := None))"
    using take_out [OF p k] by blast
  let ?s = "s\<lparr>levels := lv, id_lvl := (id_lvl s)(i \<mapsto> - 1), we_pos := P, we_live := we_live s - 1\<rparr>"
  have run: "we_stop s i = Some (True, ?s)" using ic lx 1(1-4) by (simp add: we_stop_def not_le)
  have key: "wkey ?s = (wkey s)(i := None)" by (auto simp: wkey_def fun_eq_iff split: option.split)
  have "wheel_ok ?s"
  proof -
    have "grid_ok lv" using 1(5) by (simp add: placed_def wheel_ok_def)
    moreover have "id_lvl ?s a = None \<longleftrightarrow> we_cap ?s \<le> a" for a using w ic by (auto simp: wheel_ok_def not_le)
    moreover have "id_idx ?s a \<noteq> None" if "id_lvl ?s a = Some m" "0 \<le> m" for a m
      using w that unfolding wheel_ok_def by (cases "a = i") auto
    moreover have "cap_ok 60 (we_cap ?s)" using w by (simp add: wheel_ok_def)
    ultimately show ?thesis unfolding wheel_ok_def by simp
  qed
  moreover have "bag_ok (lslot (levels ?s)) (wkey ?s) (we_pos ?s)" using 1(5) unfolding placed_def key by simp
  moreover have "a < we_cap ?s \<and> fst k < 8 \<and> (\<exists>e. we_expire ?s a = Some e \<and> snd k = unat e div 64 ^ fst k mod 64)"
    if "wkey ?s a = Some k" for a k
  proof -
    have "wkey s a = Some k" using that unfolding key by (simp split: if_splits)
    then have "a < we_cap s \<and> fst k < 8 \<and> (\<exists>e. we_expire s a = Some e \<and> snd k = unat e div 64 ^ fst k mod 64)"
      using p unfolding placed_def by blast
    then show ?thesis by simp
  qed
  ultimately have "placed ?s (wkey ?s)" unfolding placed_def by blast
  moreover have "fits (unat (we_now ?s)) (unat e) (fst k)" if "wkey ?s a = Some k" "we_expire ?s a = Some e" for a k e
  proof -
    have "wkey s a = Some k" "we_expire s a = Some e" using that unfolding key by (simp_all split: if_splits)
    then have "fits (unat (we_now s)) (unat e) (fst k)" using t unfolding timers_def by blast
    then show ?thesis by simp
  qed
  then have "timers ?s (fits (unat (we_now ?s)))" unfolding timers_def by blast
  moreover have "we_live ?s = of_nat (card (dom (wkey ?s)))"
  proof -
    have "Suc (card (dom ((wkey s)(i := None)))) = card (dom (wkey s))" using card_dom_remove [OF wheel_finite] Some by simp
    then have "we_live s = of_nat (Suc (card (dom ((wkey s)(i := None)))))" using lv by simp
    then show ?thesis unfolding key by simp
  qed
  ultimately have "wheel_inv ?s" unfolding wheel_inv_def by blast
  moreover have "wheel_live_of ?s = (wheel_live_of s)(i := None)" unfolding wheel_live_of_def key by (auto simp: fun_eq_iff)
  moreover have "wheel_live_of s i \<noteq> None" using wheel_live_dom [OF p] Some by blast
  ultimately show ?thesis using run by (intro exI [of _ ?s]) (simp add: wheel_now_of_def)
qed


lemma we_ensure_spec:
  assumes v: "wheel_inv s" and i: "unat i < 2 ^ 60"
  shows "\<exists>s'. we_ensure_id_cap s i = Some s' \<and> wheel_inv s' \<and> wkey s' = wkey s \<and> we_expire s' = we_expire s \<and> we_now s' = we_now s \<and> i < we_cap s'"
proof (cases "i < we_cap s")
  case True
  then show ?thesis using v by (simp add: we_ensure_id_cap_def)
next
  case False
  have p: "placed s (wkey s)" and t: "timers s (fits (unat (we_now s)))" and lv: "we_live s = of_nat (card (dom (wkey s)))"
    using v by (simp_all add: wheel_inv_def)
  have w: "wheel_ok s" and b: "bag_ok (lslot (levels s)) (wkey s) (we_pos s)"
    and K: "\<And>i k. wkey s i = Some k \<Longrightarrow> i < we_cap s \<and> fst k < 8 \<and> (\<exists>e. we_expire s i = Some e \<and> snd k = unat e div 64 ^ fst k mod 64)"
    using p unfolding placed_def by blast+
  have "cap_ok 60 (we_cap s)" using w by (simp add: wheel_ok_def)
  then obtain k where k: "k \<le> 60" "double_past i (if we_cap s \<noteq> 0 then we_cap s else 1024) = Some (2 ^ k)"
    and il: "i < 2 ^ k" and cap: "we_cap s \<le> 2 ^ k" and u: "unat (2 ^ k :: u64) = 2 ^ k"
    using double_cap [OF _ i _ _ False] by auto
  have le: "(2 :: nat) ^ k \<le> 2 ^ 60" using k(1) by (intro power_increasing) simp_all
  let ?a = "\<lambda>j. if we_cap s \<le> j \<and> j < 2 ^ k then Some (- 1) else id_lvl s j"
  let ?s = "s\<lparr>id_lvl := ?a, we_cap := 2 ^ k\<rparr>"
  have al: "alloc (2 ^ k) 8 = Some ()" unfolding alloc_def u using le by simp
  have run: "we_ensure_id_cap s i = Some ?s" unfolding we_ensure_id_cap_def if_not_P [OF False] k(2) using al by simp
  have none: "id_lvl s j = None \<longleftrightarrow> we_cap s \<le> j" for j using w unfolding wheel_ok_def by blast
  have key: "wkey ?s j = wkey s j" for j using none [of j] by (auto simp: wkey_def split: option.split)
  then have key': "wkey ?s = wkey s" by blast
  have "wheel_ok ?s"
  proof -
    have "?a j = None \<longleftrightarrow> 2 ^ k \<le> j" for j using none [of j] cap by (cases "we_cap s \<le> j") (auto simp: not_le)
    moreover have "id_idx s j \<noteq> None" if "?a j = Some l" "0 \<le> l" for j l
    proof -
      have "id_lvl s j = Some l" using that by (auto split: if_splits)
      then show ?thesis using w that(2) unfolding wheel_ok_def by blast
    qed
    moreover have "grid_ok (levels s)" "cap_ok 60 (2 ^ k)" using w k(1) by (auto simp: wheel_ok_def cap_ok_def)
    ultimately show ?thesis unfolding wheel_ok_def by simp
  qed
  moreover have "a < we_cap ?s \<and> fst k < 8 \<and> (\<exists>e. we_expire ?s a = Some e \<and> snd k = unat e div 64 ^ fst k mod 64)" if "wkey s a = Some k" for a k
    using K [OF that] cap by auto
  ultimately have "placed ?s (wkey ?s)" unfolding placed_def key' using b by simp
  moreover have "timers ?s (fits (unat (we_now ?s)))" using t unfolding timers_def key' by simp
  ultimately have "wheel_inv ?s" unfolding wheel_inv_def key' using lv by simp
  then show ?thesis using run il key' by (intro exI [of _ ?s]) simp
qed

text \<open>A start with any TTL puts the timer into a slot of the level of that TTL.\<close>

lemma we_start_place:
  assumes v: "wheel_inv s" and i: "unat i < 2 ^ 60" and n: "wheel_live_of s i = None" and ov: "wheel_now_of s + unat t < 2 ^ 64"
  shows "\<exists>s' l. we_start s i t = Some s' \<and> at_level (unat t) l \<and> wkey s i = None \<and>
    wkey s' = (wkey s)(i \<mapsto> (l, (wheel_now_of s + unat t) div 64 ^ l mod 64)) \<and>
    placed s' (wkey s') \<and> we_expire s' = (we_expire s)(i \<mapsto> we_now s + t) \<and> unat (we_now s + t) = wheel_now_of s + unat t \<and>
    we_now s' = we_now s \<and> we_live s' = we_live s + 1"
proof -
  obtain s1 where 1: "we_ensure_id_cap s i = Some s1" "wheel_inv s1" "wkey s1 = wkey s" "we_expire s1 = we_expire s" "we_now s1 = we_now s"
      "i < we_cap s1" using we_ensure_spec [OF v i] by blast
  have lw: "we_live s1 = we_live s" using 1(2,3) v by (simp add: wheel_inv_def)
  have p1: "placed s1 (wkey s1)" and t1: "timers s1 (fits (unat (we_now s1)))" and lv: "we_live s1 = of_nat (card (dom (wkey s1)))"
    using 1(2) by (simp_all add: wheel_inv_def)
  have "i \<notin> dom (wheel_live_of s)" using n by blast
  then have ni: "wkey s1 i = None" using wheel_live_dom v 1(3) unfolding wheel_inv_def by auto
  let ?e = "we_now s1 + t"
  have ue: "unat ?e = unat (we_now s) + unat t" using ov 1(5) by (simp add: wheel_now_of_def unat_add_small)
  let ?s1 = "s1\<lparr>we_expire := (we_expire s1)(i \<mapsto> ?e)\<rparr>"
  have K: "\<And>a k. wkey s1 a = Some k \<Longrightarrow> a < we_cap s1 \<and> fst k < 8 \<and> (\<exists>e. we_expire s1 a = Some e \<and> snd k = unat e div 64 ^ fst k mod 64)"
    using p1 unfolding placed_def by blast
  have "placed ?s1 (wkey s1)"
  proof -
    have "wheel_ok ?s1" using p1 unfolding placed_def wheel_ok_def by simp
    moreover have "bag_ok (lslot (levels ?s1)) (wkey s1) (we_pos ?s1)" using p1 unfolding placed_def by simp
    moreover have "a < we_cap ?s1 \<and> fst k < 8 \<and> (\<exists>e. we_expire ?s1 a = Some e \<and> snd k = unat e div 64 ^ fst k mod 64)"
      if "wkey s1 a = Some k" for a k
    proof -
      have "a \<noteq> i" using that ni by auto
      then show ?thesis using K [OF that] by simp
    qed
    ultimately show ?thesis unfolding placed_def by blast
  qed
  moreover have "we_now ?s1 \<le> ?e" using ue 1(5) by (simp add: word_le_nat_alt)
  ultimately obtain s2 l lv2 p2 where 2: "we_place ?s1 i = Some s2" "at_level (unat ?e - unat (we_now ?s1)) l"
      "s2 = ?s1\<lparr>levels := lv2, id_lvl := (id_lvl ?s1)(i \<mapsto> int l), id_idx := (id_idx ?s1)(i \<mapsto> unat ?e div 64 ^ l mod 64), we_pos := p2\<rparr>"
      "placed s2 ((wkey s1)(i \<mapsto> (l, unat ?e div 64 ^ l mod 64)))"
    using place_step [of ?s1 "wkey s1" i ?e] ni 1(6) by auto
  let ?x = "unat ?e div 64 ^ l mod 64"
  let ?s = "s2\<lparr>we_live := we_live s2 + 1\<rparr>"
  have run: "we_start s i t = Some ?s" using 1(1,6) 2(1) by (simp add: we_start_def)
  have key: "wkey ?s = (wkey s1)(i \<mapsto> (l, ?x))" by (auto simp: wkey_def 2(3) fun_eq_iff split: option.split)
  have "placed ?s (wkey ?s)" using 2(4) unfolding key placed_def wheel_ok_def by simp
  moreover have "at_level (unat t) l" using 2(2) ue 1(5) by simp
  ultimately show ?thesis using run key ni 1(3-5) lw ue by (intro exI [of _ ?s] exI [of _ l]) (simp add: 2(3) wheel_now_of_def)
qed

lemma we_start_spec:
  assumes v: "wheel_inv s" and i: "unat i < 2 ^ 60" and t: "0 < unat t" "unat t < 2 ^ 48" and n: "wheel_live_of s i = None"
    and ov: "wheel_now_of s + unat t < 2 ^ 64"
  shows "\<exists>s'. we_start s i t = Some s' \<and> wheel_inv s' \<and> wheel_now_of s' = wheel_now_of s \<and>
    wheel_live_of s' = (wheel_live_of s)(i \<mapsto> wheel_now_of s + unat t)"
proof -
  obtain s' l where 1: "we_start s i t = Some s'" "at_level (unat t) l" "wkey s i = None"
      "wkey s' = (wkey s)(i \<mapsto> (l, (wheel_now_of s + unat t) div 64 ^ l mod 64))" "placed s' (wkey s')"
      "we_expire s' = (we_expire s)(i \<mapsto> we_now s + t)" "unat (we_now s + t) = wheel_now_of s + unat t" "we_now s' = we_now s" "we_live s' = we_live s + 1"
    using we_start_place [OF v i n ov] by blast
  have ts: "timers s (fits (unat (we_now s)))" and lv: "we_live s = of_nat (card (dom (wkey s)))" using v by (simp_all add: wheel_inv_def)
  have "fits (unat (we_now s')) (unat e) (fst k)" if "wkey s' a = Some k" "we_expire s' a = Some e" for a k e
  proof (cases "a = i")
    case True
    have "fits (wheel_now_of s) (wheel_now_of s + unat t) l" by (rule fits_start) (use 1(2) t in simp_all)
    then show ?thesis using that True 1(4,6-8) by (auto simp: wheel_now_of_def)
  next
    case False
    then have "wkey s a = Some k" "we_expire s a = Some e" using that unfolding 1(4,6) by simp_all
    then have "fits (unat (we_now s)) (unat e) (fst k)" using ts unfolding timers_def by blast
    then show ?thesis using 1(8) by simp
  qed
  then have "timers s' (fits (unat (we_now s')))" unfolding timers_def by blast
  moreover have "we_live s' = of_nat (card (dom (wkey s')))"
    using card_dom_insert [OF wheel_finite 1(3)] lv 1(9) unfolding 1(4) by simp
  ultimately have "wheel_inv s'" using 1(5) unfolding wheel_inv_def by blast
  moreover have "wheel_live_of s' a = ((wheel_live_of s)(i \<mapsto> wheel_now_of s + unat t)) a" for a
    unfolding wheel_live_of_def 1(4,6) using 1(7) by auto
  ultimately show ?thesis using 1(1,8) by (intro exI [of _ s']) (simp add: wheel_now_of_def fun_eq_iff)
qed


text \<open>The last step of a tick empties the slot of the current time in level 0, which holds the timers due now.\<close>

lemma fire_slot:
  assumes p: "placed s (wkey s)" and r: "timers s (ready n)" and n: "n = unat (we_now s)" and lv: "we_live s = of_nat (card (dom (wkey s)))"
    and sl: "lslot (levels s) (0, n mod 64) = sl"
  shows "get_slot (levels s) 0 (n mod 64) = Some sl" "of_nat (length sl) = (of_nat (card (due (wheel_live_of s) n)) :: u64)"
    "\<exists>a lv. mark_absent (we_cap s) (id_lvl s) sl = Some a \<and> put_slot (levels s) 0 (n mod 64) [] = Some lv \<and>
       wheel_inv (s\<lparr>levels := lv, id_lvl := a, we_live := we_live s - of_nat (length sl)\<rparr>) \<and>
       wheel_live_of (s\<lparr>levels := lv, id_lvl := a, we_live := we_live s - of_nat (length sl)\<rparr>) = later (wheel_live_of s) n"
proof -
  let ?x = "n mod 64"
  have w: "wheel_ok s" and b: "bag_ok (lslot (levels s)) (wkey s) (we_pos s)"
    and K: "\<And>i k. wkey s i = Some k \<Longrightarrow> i < we_cap s \<and> fst k < 8 \<and> (\<exists>e. we_expire s i = Some e \<and> snd k = unat e div 64 ^ fst k mod 64)"
    using p unfolding placed_def by blast+
  have g: "grid_ok (levels s)" using w by (simp add: wheel_ok_def)
  have x: "?x < 64" by simp
  show "get_slot (levels s) 0 ?x = Some sl" using slot_access(1) [OF g _ x, of 0] sl by simp
  have d: "distinct sl" and mem: "i \<in> set sl \<longleftrightarrow> wkey s i = Some (0, ?x)" for i
    using b sl unfolding bag_ok_def by blast+
  have slot_time: "\<exists>e. we_expire s i = Some e \<and> wheel_live_of s i = Some (unat e) \<and> n \<le> unat e \<and> (i \<in> set sl \<longleftrightarrow> unat e = n) \<and>
      (unat e \<noteq> n \<longrightarrow> fits n (unat e) (fst k))" if k: "wkey s i = Some k" for i k
  proof -
    obtain e where e: "we_expire s i = Some e" "snd k = unat e div 64 ^ fst k mod 64" using K [OF k] by blast
    have rd: "ready n (unat e) (fst k)" using r k e(1) unfolding timers_def by blast
    have "n \<le> unat e \<and> (i \<in> set sl \<longleftrightarrow> unat e = n) \<and> (unat e \<noteq> n \<longrightarrow> fits n (unat e) (fst k))"
    proof (cases "fst k = 0")
      case True
      have b: "n \<le> unat e" "unat e < n + 64" using rd True by (simp_all add: ready_def)
      have "k = (0, unat e mod 64)" using True e(2) by (cases k) simp
      then have "i \<in> set sl \<longleftrightarrow> unat e mod 64 = n mod 64" using mem k by simp
      also have "\<dots> \<longleftrightarrow> unat e = n" using same_slot [of "unat e" 64 n n] b by auto
      finally show ?thesis using b True by (auto simp: fits_def)
    next
      case False
      then have f: "fits n (unat e) (fst k)" using rd by (simp add: ready_def)
      moreover have "i \<notin> set sl" using mem k False by auto
      ultimately show ?thesis using fits_ahead [OF f] by auto
    qed
    then show ?thesis using e(1) k by (simp add: wheel_live_of_def)
  qed
  have due: "due (wheel_live_of s) n = set sl"
  proof (intro set_eqI iffI)
    fix i assume i: "i \<in> set sl"
    then have "wkey s i = Some (0, ?x)" using mem by blast
    from slot_time [OF this] show "i \<in> due (wheel_live_of s) n" using i unfolding due_def by auto
  next
    fix i assume i: "i \<in> due (wheel_live_of s) n"
    then have "i \<in> dom (wkey s)" using wheel_live_dom [OF p] unfolding due_def by blast
    then obtain k where "wkey s i = Some k" by blast
    from slot_time [OF this] show "i \<in> set sl" using i unfolding due_def by auto
  qed
  then show len: "of_nat (length sl) = (of_nat (card (due (wheel_live_of s) n)) :: u64)" using distinct_card [OF d] by simp
  have cap: "i < we_cap s" if "i \<in> set sl" for i using K mem that by blast
  obtain lv' where lv': "put_slot (levels s) 0 ?x [] = Some lv'" "grid_ok lv'" "lslot lv' = (lslot (levels s))((0, ?x) := [])"
    using slot_access(2) [OF g _ x, of 0] by auto
  define a where "a = (\<lambda>i. if i \<in> set sl then Some (- 1) else id_lvl s i)"
  have mark: "mark_absent (we_cap s) (id_lvl s) sl = Some a" unfolding a_def by (rule mark_absent_spec [OF cap])
  let ?s = "s\<lparr>levels := lv', id_lvl := a, we_live := we_live s - of_nat (length sl)\<rparr>"
  have key: "wkey ?s i = (if i \<in> set sl then None else wkey s i)" for i
    by (auto simp: wkey_def a_def split: option.split)
  then have key': "wkey ?s = (\<lambda>i. if i \<in> set sl then None else wkey s i)" by blast
  have none: "id_lvl s i = None \<longleftrightarrow> we_cap s \<le> i" for i using w unfolding wheel_ok_def by blast
  have "wheel_ok ?s"
  proof -
    have "a i = None \<longleftrightarrow> we_cap s \<le> i" for i using none [of i] cap [of i] by (auto simp: a_def not_le)
    moreover have "id_idx s i \<noteq> None" if "a i = Some l" "0 \<le> l" for i l
    proof -
      have "id_lvl s i = Some l" using that by (auto simp: a_def split: if_splits)
      then show ?thesis using w that(2) unfolding wheel_ok_def by blast
    qed
    ultimately show ?thesis using w lv'(2) unfolding wheel_ok_def by simp
  qed
  moreover have "bag_ok (lslot (levels ?s)) (wkey ?s) (we_pos ?s)" using bag_clear [OF b, of "(0, ?x)"] sl lv'(3) unfolding key' by simp
  moreover have "i < we_cap ?s \<and> fst k < 8 \<and> (\<exists>e. we_expire ?s i = Some e \<and> snd k = unat e div 64 ^ fst k mod 64)" if "wkey ?s i = Some k" for i k
    using K [of i k] that unfolding key' by (simp split: if_splits)
  ultimately have "placed ?s (wkey ?s)" unfolding placed_def by blast
  moreover have "fits (unat (we_now ?s)) (unat e) (fst k)" if "wkey ?s i = Some k" "we_expire ?s i = Some e" for i k e
  proof -
    have "i \<notin> set sl" "wkey s i = Some k" "we_expire s i = Some e" using that unfolding key' by (simp_all split: if_splits)
    then show ?thesis using slot_time [of i k] n by auto
  qed
  then have "timers ?s (fits (unat (we_now ?s)))" unfolding timers_def by blast
  moreover have "we_live ?s = of_nat (card (dom (wkey ?s)))"
  proof -
    have dm: "dom (wkey ?s) = dom (wkey s) - set sl" unfolding key' by (auto split: if_splits)
    have sub: "set sl \<subseteq> dom (wkey s)" using mem by blast
    have "card (dom (wkey ?s)) = card (dom (wkey s)) - length sl" unfolding dm using card_Diff_subset [OF finite_set sub] distinct_card [OF d] by simp
    moreover have "length sl \<le> card (dom (wkey s))" using card_mono [OF wheel_finite sub] distinct_card [OF d] by simp
    ultimately show ?thesis using lv by (simp add: of_nat_diff)
  qed
  ultimately have "wheel_inv ?s" unfolding wheel_inv_def by blast
  moreover have "wheel_live_of ?s i = later (wheel_live_of s) n i" for i
  proof (cases "i \<in> set sl")
    case True
    then have "wheel_live_of ?s i = None" unfolding wheel_live_of_def key' by simp
    moreover have "i \<in> due (wheel_live_of s) n" using due True by simp
    ultimately show ?thesis by (auto simp: later_eq due_def)
  next
    case False
    then have "wheel_live_of ?s i = wheel_live_of s i" unfolding wheel_live_of_def key' by simp
    moreover have "i \<notin> due (wheel_live_of s) n" using due False by simp
    ultimately show ?thesis by (auto simp: later_eq due_def split: option.splits)
  qed
  ultimately show "\<exists>a lv. mark_absent (we_cap s) (id_lvl s) sl = Some a \<and> put_slot (levels s) 0 (n mod 64) [] = Some lv \<and>
       wheel_inv (s\<lparr>levels := lv, id_lvl := a, we_live := we_live s - of_nat (length sl)\<rparr>) \<and>
       wheel_live_of (s\<lparr>levels := lv, id_lvl := a, we_live := we_live s - of_nat (length sl)\<rparr>) = later (wheel_live_of s) n"
    using mark lv'(1) by blast
qed

lemma we_tick_spec:
  assumes v: "wheel_inv s" and ov: "wheel_now_of s + 1 < 2 ^ 64"
  shows "\<exists>s'. we_tick s = Some (of_nat (card (due (wheel_live_of s) (Suc (wheel_now_of s)))), s') \<and> wheel_inv s' \<and>
    wheel_now_of s' = Suc (wheel_now_of s) \<and> wheel_live_of s' = later (wheel_live_of s) (Suc (wheel_now_of s))"
proof -
  let ?n = "Suc (wheel_now_of s)"
  let ?s = "s\<lparr>we_now := we_now s + 1\<rparr>"
  have p: "placed s (wkey s)" and t: "timers s (fits (unat (we_now s)))" and lv: "we_live s = of_nat (card (dom (wkey s)))"
    using v by (simp_all add: wheel_inv_def)
  have key: "wkey ?s = wkey s" by (simp add: wkey_def fun_eq_iff split: option.split)
  have now: "?n = unat (we_now ?s)" using ov by (simp add: wheel_now_of_def unat_Suc64)
  have p0: "placed ?s (wkey ?s)" using p unfolding key placed_def wheel_ok_def by simp
  have "fits_at ?n 1 (unat e) (fst k)" if "wkey ?s i = Some k" "we_expire ?s i = Some e" for i k e
  proof -
    have "wkey s i = Some k" "we_expire s i = Some e" using that unfolding key by simp_all
    then have "fits (unat (we_now s)) (unat e) (fst k)" using t unfolding timers_def by blast
    then show ?thesis using fits_step by (simp add: wheel_now_of_def)
  qed
  then have "timers ?s (fits_at ?n 1)" unfolding timers_def by blast
  then obtain s1 where 1: "cascade ?s 1 = Some s1" "placed s1 (wkey s1)" "timers s1 (ready ?n)" "cascades ?s s1"
    using cascade_spec [OF p0 _ now, of 1] by auto
  have c: "we_now s1 = we_now s + 1" "we_expire s1 = we_expire s" "we_live s1 = we_live s" "dom (wkey s1) = dom (wkey s)"
    using 1(4) key unfolding cascades_def by simp_all
  have live: "wheel_live_of s1 = wheel_live_of s"
  proof
    fix i
    have "wkey s1 i = None \<longleftrightarrow> wkey s i = None" using c(4) by blast
    then show "wheel_live_of s1 i = wheel_live_of s i" using c(2) by (simp add: wheel_live_of_def)
  qed
  define sl where "sl = lslot (levels s1) (0, ?n mod 64)"
  have n1: "?n = unat (we_now s1)" using now c(1) by simp
  have l1: "we_live s1 = of_nat (card (dom (wkey s1)))" using lv c(3,4) by simp
  note fs = fire_slot [OF 1(2,3) n1 l1 sl_def [symmetric]]
  obtain a lv' where 2: "mark_absent (we_cap s1) (id_lvl s1) sl = Some a" "put_slot (levels s1) 0 (?n mod 64) [] = Some lv'"
       "wheel_inv (s1\<lparr>levels := lv', id_lvl := a, we_live := we_live s1 - of_nat (length sl)\<rparr>)"
       "wheel_live_of (s1\<lparr>levels := lv', id_lvl := a, we_live := we_live s1 - of_nat (length sl)\<rparr>) = later (wheel_live_of s1) ?n"
    using fs(3) by blast
  have idx: "unat (we_now s1 AND LVL_MASK) = ?n mod 64" using n1 by (simp add: mask_val unat_and_mask)
  let ?s2 = "s1\<lparr>levels := lv', id_lvl := a, we_live := we_live s1 - of_nat (length sl)\<rparr>"
  have "we_tick s = Some (of_nat (length sl), ?s2)" using 1(1) fs(1) 2(1,2) by (simp add: we_tick_def idx Let_def)
  then show ?thesis using 2(3,4) fs(2) live n1 by (intro exI [of _ ?s2]) (simp add: wheel_now_of_def)
qed


lemma we_advance_spec:
  "wheel_inv s \<Longrightarrow> wheel_now_of s \<le> unat t \<Longrightarrow> (\<And>i e. wheel_live_of s i = Some e \<Longrightarrow> unat t < e) \<Longrightarrow>
   \<exists>s'. we_advance s t = Some s' \<and> wheel_inv s' \<and> wheel_now_of s' = unat t \<and> wheel_live_of s' = wheel_live_of s"
proof (induction "unat t - wheel_now_of s" arbitrary: s)
  case 0
  then have "wheel_now_of s = unat t" by simp
  moreover have "we_advance s t = Some s" using calculation by (subst we_advance.simps) (simp add: wheel_now_of_def word_less_nat_alt)
  ultimately show ?case using 0 by simp
next
  case (Suc k)
  have lt: "wheel_now_of s < unat t" using Suc.hyps(2) by simp
  have "wheel_now_of s + 1 \<le> unat t" using lt by simp
  also have "\<dots> < 2 ^ 64" by simp
  finally have ov: "wheel_now_of s + 1 < 2 ^ 64" .
  have ahead: "Suc (wheel_now_of s) < e" if "wheel_live_of s i = Some e" for i e using Suc.prems(3) [OF that] lt by simp
  obtain f s1 where 1: "we_tick s = Some (f, s1)" "wheel_inv s1" "wheel_now_of s1 = Suc (wheel_now_of s)"
      "wheel_live_of s1 = later (wheel_live_of s) (Suc (wheel_now_of s))"
    using we_tick_spec [OF Suc.prems(1) ov] by blast
  have l1: "wheel_live_of s1 = wheel_live_of s" unfolding 1(4) using ahead by (rule later_id)
  have "k = unat t - wheel_now_of s1" "wheel_now_of s1 \<le> unat t" using Suc.hyps(2) 1(3) lt by simp_all
  then obtain s' where "we_advance s1 t = Some s'" "wheel_inv s'" "wheel_now_of s' = unat t" "wheel_live_of s' = wheel_live_of s"
    using Suc.hyps(1) [of s1] 1(2) Suc.prems(3) l1 by auto
  moreover have "we_advance s t = we_advance s1 t"
    using lt 1(1) by (subst we_advance.simps) (simp add: wheel_now_of_def word_less_nat_alt)
  ultimately show ?case by simp
qed

lemma we_create_spec: "wheel_inv we_create" "wheel_now_of we_create = 0" "wheel_live_of we_create = Map.empty"
proof -
  have key: "wkey we_create = Map.empty" by (simp add: wkey_def we_create_def fun_eq_iff)
  have g: "levels we_create = replicate 8 (replicate 64 [])" by (simp add: we_create_def NUM_LEVELS_def LVL_SIZE_def LVL_BITS_def push_bit_eq_mult)
  have "grid_ok (levels we_create)" unfolding g by (simp add: grid_ok_def)
  then have "wheel_ok we_create" by (simp add: wheel_ok_def) (simp add: we_create_def cap_ok_def)
  moreover have "lslot (levels we_create) = (\<lambda>k. [])" unfolding g by (auto simp: lslot_def fun_eq_iff)
  ultimately have "placed we_create (wkey we_create)" unfolding placed_def key by (simp add: bag_ok_def)
  then show "wheel_inv we_create" unfolding wheel_inv_def timers_def key by (simp add: we_create_def)
  show "wheel_now_of we_create = 0" by (simp add: wheel_now_of_def we_create_def)
  show "wheel_live_of we_create = Map.empty" unfolding wheel_live_of_def key by simp
qed

interpretation we: timer_store cts_wheel_exact_vtable wheel_inv wheel_now_of wheel_live_of "\<lambda>t. t" "2 ^ 60" "2 ^ 48"
proof unfold_locales
  fix s :: wheel assume v: "wheel_inv s"
  have d: "dom (wheel_live_of s) = dom (wkey s)" using wheel_live_dom v unfolding wheel_inv_def by blast
  show "finite (dom (wheel_live_of s))" unfolding d by (rule wheel_finite)
  show "vt_size cts_wheel_exact_vtable s = of_nat (card (dom (wheel_live_of s)))"
    using v unfolding d by (simp add: cts_wheel_exact_vtable_def we_size_def wheel_inv_def)
qed (simp_all add: cts_wheel_exact_vtable_def we_create_spec we_start_spec we_stop_spec we_tick_spec we_advance_spec del: not_None_eq)


section \<open>A cascade that does not end\<close>

text \<open>A timer of the last level that is more than a turn away is put back into the slot that is cascaded.\<close>

definition stuck :: "wheel \<Rightarrow> nat \<Rightarrow> bool" where
  "stuck s x \<longleftrightarrow> placed s (wkey s) \<and> x < 64 \<and>
     (\<forall>i e. wkey s i = Some (7, x) \<and> we_expire s i = Some e \<longrightarrow> we_now s \<le> e) \<and>
     (\<exists>i e. wkey s i = Some (7, x) \<and> we_expire s i = Some e \<and> 2 ^ 48 \<le> unat e - unat (we_now s))"

lemma stuck_step:
  assumes st: "stuck s x"
  shows "\<exists>sl s2. get_slot (levels s) 7 x = Some sl \<and> sl \<noteq> [] \<and> cascade_last s 7 x sl = Some s2 \<and> stuck s2 x"
proof -
  have p: "placed s (wkey s)" and x: "x < 64" and ahead: "\<And>i e. wkey s i = Some (7, x) \<Longrightarrow> we_expire s i = Some e \<Longrightarrow> we_now s \<le> e"
    using st unfolding stuck_def by blast+
  obtain i e where i: "wkey s i = Some (7, x)" "we_expire s i = Some e" "2 ^ 48 \<le> unat e - unat (we_now s)"
    using st unfolding stuck_def by blast
  have g: "grid_ok (levels s)" and b: "bag_ok (lslot (levels s)) (wkey s) (we_pos s)" using p by (simp_all add: placed_def wheel_ok_def)
  define sl where "sl = lslot (levels s) (7, x)"
  have mem: "a \<in> set sl \<longleftrightarrow> wkey s a = Some (7, x)" for a using b unfolding bag_ok_def sl_def by blast
  have ne: "sl \<noteq> []" using mem i(1) by force
  have "last sl \<in> set sl" using ne by simp
  then have lk: "wkey s (last sl) = Some (7, x)" using mem by blast
  obtain e2 where e2: "we_expire s (last sl) = Some e2" "x = unat e2 div 64 ^ 7 mod 64" using p lk unfolding placed_def by fastforce
  have L: "(7 :: nat) < 8" by simp
  obtain s2 l where 2: "cascade_last s 7 x sl = Some s2" "at_level (unat e2 - unat (we_now s)) l" "placed s2 (wkey s2)" "cascades s s2"
      "wkey s2 = (wkey s)(last sl \<mapsto> (l, unat e2 div 64 ^ l mod 64))"
    using cascade_last_spec [OF p L x sl_def [symmetric] ne e2(1) ahead [OF lk e2(1)]] by blast
  have c: "we_expire s2 = we_expire s" "we_now s2 = we_now s" using 2(4) by (simp_all add: cascades_def)
  have "wkey s2 i = Some (7, x)"
  proof (cases "i = last sl")
    case True
    then have "2 ^ 48 \<le> unat e2 - unat (we_now s)" using i(2,3) e2(1) by simp
    moreover have "l < 7 \<Longrightarrow> (64 :: nat) ^ Suc l \<le> 2 ^ 48"
    proof -
      assume "l < 7"
      then have "(64 :: nat) ^ Suc l \<le> 64 ^ 7" by (intro power_increasing) simp_all
      then show ?thesis by simp
    qed
    ultimately have "l = 7" using 2(2) unfolding at_level_def by (cases "l < 7") auto
    then show ?thesis using True e2(2) unfolding 2(5) by simp
  next
    case False
    then show ?thesis using i(1) unfolding 2(5) by simp
  qed
  moreover have "we_now s2 \<le> e'" if a: "wkey s2 a = Some (7, x)" "we_expire s2 a = Some e'" for a e'
  proof (cases "a = last sl")
    case True
    then show ?thesis using a(2) e2(1) ahead [OF lk e2(1)] unfolding c by simp
  next
    case False
    then have "wkey s a = Some (7, x)" using a(1) unfolding 2(5) by simp
    then show ?thesis using a(2) ahead unfolding c by blast
  qed
  ultimately have "stuck s2 x" unfolding stuck_def using 2(3) x i(2,3) c by auto
  moreover have "get_slot (levels s) 7 x = Some sl" using slot_access(1) [OF g L x] by (simp add: sl_def)
  ultimately show ?thesis using ne 2(1) by blast
qed

lemma stuck_hangs: "stuck s x \<Longrightarrow> cascade_slot s 7 x = None"
proof -
  have "l = 7 \<longrightarrow> \<not> stuck s y" if "cascade_slot s l y = Some r" for s l y r
    using that
  proof (rule cascade_slot.raw_induct [where P = "\<lambda>s l y r. l = 7 \<longrightarrow> \<not> stuck s y", rotated])
    fix cs s l y r
    assume IH: "\<And>s l y r. cs s l y = Some r \<Longrightarrow> l = 7 \<longrightarrow> \<not> stuck s y"
      and body: "get_slot (levels s) l y \<bind> (\<lambda>sl. if 0 < length sl then cascade_last s l y sl \<bind> (\<lambda>s. cs s l y) else Some s) = Some r"
    show "l = 7 \<longrightarrow> \<not> stuck s y"
    proof (intro impI notI)
      assume a: "l = 7" "stuck s y"
      obtain sl s2 where st: "get_slot (levels s) 7 y = Some sl" "sl \<noteq> []" "cascade_last s 7 y sl = Some s2" "stuck s2 y"
        using stuck_step [OF a(2)] by blast
      then have "cs s2 7 y = Some r" using body a(1) by simp
      then show False using IH st(4) by blast
    qed
  qed
  then show "stuck s x \<Longrightarrow> cascade_slot s 7 x = None" by (cases "cascade_slot s 7 x") blast+
qed

text \<open>The levels below the last one are cascaded first; they leave the timers of the last level alone.\<close>

lemma cascade_below:
  assumes "placed s (wkey s)" "timers s (\<lambda>e l. fits_at n L e l \<or> l = 7 \<and> n \<le> e)" "n = unat (we_now s)" "64 ^ 7 dvd n" "1 \<le> L" "L \<le> 7"
  shows "\<exists>s'. cascade s L = cascade s' 7 \<and> placed s' (wkey s') \<and> timers s' (\<lambda>e l. fits_at n 7 e l \<or> l = 7 \<and> n \<le> e) \<and> cascades s s'"
  using assms
proof (induction "7 - L" arbitrary: s L)
  case 0
  then have "L = 7" by simp
  then show ?case using 0 by (intro exI [of _ s]) (simp add: cascades_def)
next
  case (Suc k)
  have L: "L < 7" "k = 7 - Suc L" "1 \<le> Suc L" "Suc L \<le> 7" using Suc.hyps(2) by linarith+
  have d: "64 ^ L dvd n" using Suc.prems(4) L(1) by (meson dvd_trans le_imp_power_dvd less_imp_le)
  obtain s1 where 1: "cascade_slot s L (n div 64 ^ L mod 64) = Some s1" "placed s1 (wkey s1)"
      "timers s1 (\<lambda>e l. fits_at n (Suc L) e l \<or> l = 7 \<and> n \<le> e)" "cascades s s1"
    using cascade_slot_spec [OF Suc.prems(1,2) _ Suc.prems(3) d Suc.prems(5)] L(1) by auto
  have "we_now s AND (LVL_GRAN L - 1) = 0" "slot_index (we_now s) L = n div 64 ^ L mod 64"
    using d boundary slot_index_val Suc.prems(3) by simp_all
  then have run: "cascade s L = cascade s1 (Suc L)" using 1(1) L(1) by (subst cascade.simps) (simp add: NUM_LEVELS_def Let_def)
  have now: "n = unat (we_now s1)" using 1(4) Suc.prems(3) by (simp add: cascades_def)
  show ?case using Suc.hyps(1) [OF L(2) 1(2,3) now Suc.prems(4) L(3,4)] run cascades_trans [OF 1(4)] by auto
qed

lemma fits_near: "fits n e l \<Longrightarrow> l < 7 \<Longrightarrow> e < n + 2 ^ 48"
proof -
  assume f: "fits n e l" and l: "l < 7"
  have g: "(64 :: nat) ^ l \<le> 64 ^ 6" using l by (intro power_increasing) simp_all
  have "e div 64 ^ l \<le> n div 64 ^ l + 64" using f by (simp add: fits_def)
  then have "e div 64 ^ l * 64 ^ l \<le> (n div 64 ^ l + 64) * 64 ^ l" by (rule mult_right_mono) simp
  moreover have "n div 64 ^ l * 64 ^ l \<le> n" by simp
  moreover have "e mod 64 ^ l < 64 ^ l" by simp
  then have "e < e div 64 ^ l * 64 ^ l + 64 ^ l" using div_mult_mod_eq [of e "64 ^ l"] by linarith
  ultimately have "e < n + 65 * 64 ^ l" unfolding add_mult_distrib by linarith
  also have "\<dots> \<le> n + 2 ^ 48" using g by simp
  finally show ?thesis .
qed

text \<open>A tick that reaches the slot of the last level of a timer that is still a turn away does not end.\<close>

lemma we_tick_stuck:
  assumes p: "placed s (wkey s)" and t: "timers s (\<lambda>e l. fits (unat (we_now s)) e l \<or> l = 7 \<and> unat (we_now s) < e)"
    and n: "n = unat (we_now s) + 1" "n < 2 ^ 64" "64 ^ 7 dvd n"
    and i: "wkey s i = Some (7, n div 64 ^ 7 mod 64)" "we_expire s i = Some e" "n + 2 ^ 48 \<le> unat e"
  shows "we_tick s = None"
proof -
  let ?x = "n div 64 ^ 7 mod 64" and ?s = "s\<lparr>we_now := we_now s + 1\<rparr>"
  have key: "wkey ?s = wkey s" by (simp add: wkey_def fun_eq_iff split: option.split)
  have now: "n = unat (we_now ?s)" using n(1,2) by (simp add: unat_Suc64)
  have p0: "placed ?s (wkey ?s)" using p unfolding key placed_def wheel_ok_def by simp
  have "fits_at n 1 (unat e') (fst k) \<or> fst k = 7 \<and> n \<le> unat e'" if "wkey ?s a = Some k" "we_expire ?s a = Some e'" for a k e'
  proof -
    have "wkey s a = Some k" "we_expire s a = Some e'" using that unfolding key by simp_all
    then have "fits (unat (we_now s)) (unat e') (fst k) \<or> fst k = 7 \<and> unat (we_now s) < unat e'" using t unfolding timers_def by blast
    then show ?thesis using fits_step n(1) by auto
  qed
  then have "timers ?s (\<lambda>e l. fits_at n 1 e l \<or> l = 7 \<and> n \<le> e)" unfolding timers_def by blast
  then obtain s1 where 1: "cascade ?s 1 = cascade s1 7" "placed s1 (wkey s1)" "timers s1 (\<lambda>e l. fits_at n 7 e l \<or> l = 7 \<and> n \<le> e)" "cascades ?s s1"
    using cascade_below [OF p0 _ now n(3), of 1] by auto
  have c: "we_now s1 = we_now ?s" "we_expire s1 = we_expire s" "dom (wkey s1) = dom (wkey s)" using 1(4) key by (simp_all add: cascades_def)
  have n1: "n = unat (we_now s1)" using now c(1) by simp
  obtain k where k: "wkey s1 i = Some k" using c(3) i(1) by blast
  have e: "we_expire s1 i = Some e" using c(2) i(2) by simp
  note far = i(3)
  have "fst k = 7"
  proof (rule ccontr)
    assume ne: "fst k \<noteq> 7"
    then have f: "fits_at n 7 (unat e) (fst k)" using 1(3) k e unfolding timers_def by blast
    have "fst k < 8" using 1(2) k unfolding placed_def by blast
    then have lt: "fst k < 7" using ne by linarith
    show False
    proof (cases "fst k = 0")
      case True
      then show ?thesis using f far by (simp add: fits_at_def)
    next
      case False
      then have "fits n (unat e) (fst k)" using f lt by (simp add: fits_at_def)
      then show ?thesis using fits_near lt far by fastforce
    qed
  qed
  moreover have "snd k = unat e div 64 ^ fst k mod 64" using 1(2) k e unfolding placed_def by fastforce
  moreover have "?x = unat e div 64 ^ 7 mod 64" using p i(1,2) unfolding placed_def by fastforce
  ultimately have k7: "wkey s1 i = Some (7, ?x)" using k by (cases k) simp
  have "we_now s1 \<le> e'" if "wkey s1 a = Some (7, ?x)" "we_expire s1 a = Some e'" for a e'
  proof -
    have "fits_at n 7 (unat e') 7 \<or> n \<le> unat e'" using 1(3) that unfolding timers_def by fastforce
    moreover have "n \<le> unat e'" if "fits_at n 7 (unat e') 7"
    proof -
      have "n div 64 ^ 7 \<le> unat e' div 64 ^ 7" using that n(3) by (simp add: fits_at_def)
      then have "n div 64 ^ 7 * 64 ^ 7 \<le> unat e' div 64 ^ 7 * 64 ^ 7" by (rule mult_right_mono) simp
      also have "\<dots> \<le> unat e'" by simp
      finally show ?thesis using n(3) by (simp only: dvd_div_mult_self)
    qed
    ultimately show ?thesis using n1 by (auto simp: word_le_nat_alt)
  qed
  then have "stuck s1 ?x" unfolding stuck_def using 1(2) k7 e far n1 by auto
  then have "cascade_slot s1 7 ?x = None" by (rule stuck_hangs)
  moreover have "slot_index (we_now s1) 7 = ?x \<and> we_now s1 AND (LVL_GRAN 7 - 1) = 0" unfolding slot_index_val boundary n1 [symmetric] using n(3) by simp
  ultimately have "cascade s1 7 = None" by (subst cascade.simps) (simp add: NUM_LEVELS_def Let_def)
  then show ?thesis using 1(1) by (simp add: we_tick_def)
qed

text \<open>
  A timer started one tick before the clock reaches a slot boundary of the last level, with a TTL that
  puts it into the slot that is cascaded next, a turn away or more.
\<close>

lemma we_far_start_hangs:
  assumes v: "wheel_inv s" and i: "unat i < 2 ^ 60" and n: "wheel_live_of s i = None" and ov: "wheel_now_of s + unat t < 2 ^ 64"
    and d: "2 ^ 42 dvd wheel_now_of s + 1" and far: "2 ^ 48 < unat t" "(unat t - 1) mod 2 ^ 48 < 2 ^ 42"
  shows "\<exists>s'. we_start s i t = Some s' \<and> we_tick s' = None"
proof -
  let ?n = "wheel_now_of s + 1"
  obtain s' l where 1: "we_start s i t = Some s'" "at_level (unat t) l" "wkey s i = None"
      "wkey s' = (wkey s)(i \<mapsto> (l, (wheel_now_of s + unat t) div 64 ^ l mod 64))" "placed s' (wkey s')"
      "we_expire s' = (we_expire s)(i \<mapsto> we_now s + t)" "unat (we_now s + t) = wheel_now_of s + unat t" "we_now s' = we_now s" "we_live s' = we_live s + 1"
    using we_start_place [OF v i n ov] by blast
  have l7: "l = 7"
  proof -
    have "l < 7 \<Longrightarrow> (64 :: nat) ^ Suc l \<le> 64 ^ 7" by (intro power_increasing) simp_all
    then show ?thesis using 1(2) far(1) unfolding at_level_def by (cases "l < 7") auto
  qed
  have x: "(wheel_now_of s + unat t) div 64 ^ 7 mod 64 = ?n div 64 ^ 7 mod 64"
  proof -
    obtain q where q: "?n = 2 ^ 42 * q" using d by blast
    let ?r = "(unat t - 1) mod 2 ^ 48" and ?m = "(unat t - 1) div 2 ^ 48"
    have "wheel_now_of s + unat t = ?n + (unat t - 1)" using far(1) by simp
    also have "\<dots> = 2 ^ 42 * q + (?m * 2 ^ 48 + ?r)" unfolding q by (simp only: div_mult_mod_eq)
    also have "\<dots> = ?r + 2 ^ 42 * (q + 64 * ?m)" by simp
    finally have w: "wheel_now_of s + unat t = ?r + 2 ^ 42 * (q + 64 * ?m)" .
    have "?r div 2 ^ 42 = 0" using far(2) by (rule div_less)
    moreover have "(?r + 2 ^ 42 * (q + 64 * ?m)) div 2 ^ 42 = q + 64 * ?m + ?r div 2 ^ 42" by (rule div_mult_self2) simp
    ultimately have "(wheel_now_of s + unat t) div 2 ^ 42 = q + 64 * ?m" unfolding w by linarith
    moreover have "?n div 2 ^ 42 = q" unfolding q by simp
    ultimately show ?thesis by simp
  qed
  have ts: "timers s (fits (unat (we_now s)))" using v by (simp add: wheel_inv_def)
  have "fits (unat (we_now s')) (unat e) (fst k) \<or> fst k = 7 \<and> unat (we_now s') < unat e" if "wkey s' a = Some k" "we_expire s' a = Some e" for a k e
  proof (cases "a = i")
    case True
    then show ?thesis using that 1(4,6,7,8) l7 far(1) by (auto simp: wheel_now_of_def)
  next
    case False
    then have "wkey s a = Some k" "we_expire s a = Some e" using that unfolding 1(4,6) by simp_all
    then have "fits (unat (we_now s)) (unat e) (fst k)" using ts unfolding timers_def by blast
    then show ?thesis using 1(8) by simp
  qed
  then have t': "timers s' (\<lambda>e l. fits (unat (we_now s')) e l \<or> l = 7 \<and> unat (we_now s') < e)" unfolding timers_def by blast
  have "we_tick s' = None"
  proof (rule we_tick_stuck [OF 1(5) t'])
    show "?n = unat (we_now s') + 1" using 1(8) by (simp add: wheel_now_of_def)
    show "?n < 2 ^ 64" using ov far(1) by simp
    show "64 ^ 7 dvd ?n" using d by simp
    show "wkey s' i = Some (7, ?n div 64 ^ 7 mod 64)" unfolding 1(4) l7 x [symmetric] by simp
    show "we_expire s' i = Some (we_now s + t)" unfolding 1(6) by simp
    show "?n + 2 ^ 48 \<le> unat (we_now s + t)" unfolding 1(7) using far(1) by simp
  qed
  then show ?thesis using 1(1) by blast
qed

end
