(* ===== verification/Bitops.thy ===== *)
theory Bitops
  imports Prelude
begin

unbundle bit_operations_syntax

text \<open>
  The bit manipulation of the hierarchical timing wheel: article/src/c/wheel/timeout-bitops.c
  (counting leading and trailing zeros, three implementations and the naive reference of its
  self-test) and the rotations of timeout.c. The argument 0 is excluded by the callers, as in the
  code.
\<close>

section \<open>Definitions\<close>

text \<open>The generic case: the macro process_ of the two sections, a step on the pair of rv and x.\<close>

definition process_clz :: "nat \<Rightarrow> nat \<Rightarrow> nat \<times> 'a::len word \<Rightarrow> nat \<times> 'a word" where
  "process_clz cz_bits bits = (\<lambda>(rv, x).
     if x < push_bit (cz_bits - bits) 1 then (rv + bits, push_bit bits x) else (rv, x))"

definition clz64 :: "u64 \<Rightarrow> nat" where
  "clz64 x = fst (fold (process_clz 64) [32, 16, 8, 4, 2, 1] (0, x))"

definition clz32 :: "32 word \<Rightarrow> nat" where
  "clz32 x = fst (fold (process_clz 32) [16, 8, 4, 2, 1] (0, x))"

definition process_ctz :: "nat \<Rightarrow> nat \<times> 'a::len word \<Rightarrow> nat \<times> 'a word" where
  "process_ctz bits = (\<lambda>(rv, x).
     if x AND (push_bit bits 1 - 1) = 0 then (rv + bits, drop_bit bits x) else (rv, x))"

definition ctz64 :: "u64 \<Rightarrow> nat" where
  "ctz64 x = fst (fold process_ctz [32, 16, 8, 4, 2, 1] (0, x))"

definition ctz32 :: "32 word \<Rightarrow> nat" where
  "ctz32 x = fst (fold process_ctz [16, 8, 4, 2, 1] (0, x))"

text \<open>
  The MSVC case builds the 64-bit functions from the 32-bit intrinsics _BitScanForward and
  _BitScanReverse, which are arguments here.
\<close>

definition msvc_ctz64 :: "(32 word \<Rightarrow> nat) \<Rightarrow> u64 \<Rightarrow> nat" where
  "msvc_ctz64 scan val =
     (let lo = ucast val; hi = ucast (drop_bit 32 val) in if lo \<noteq> 0 then scan lo else 32 + scan hi)"

definition msvc_clz64 :: "(32 word \<Rightarrow> nat) \<Rightarrow> u64 \<Rightarrow> nat" where
  "msvc_clz64 scan val =
     (let lo = ucast val; hi = ucast (drop_bit 32 val) in if hi \<noteq> 0 then scan hi else 32 + scan lo)"

text \<open>The naive reference functions of the self-test: None would be a loop that does not end.\<close>

partial_function (option) naive_clz_loop :: "u64 \<Rightarrow> u64 \<Rightarrow> nat \<Rightarrow> nat option" where
  "naive_clz_loop v b r = (if b \<noteq> 0 \<and> v AND b = 0 then naive_clz_loop v (drop_bit 1 b) (r + 1) else Some r)"

definition naive_clz :: "nat \<Rightarrow> u64 \<Rightarrow> nat option" where
  "naive_clz bits v = naive_clz_loop v (push_bit (bits - 1) 1) 0"

partial_function (option) naive_ctz_loop :: "nat \<Rightarrow> u64 \<Rightarrow> u64 \<Rightarrow> nat \<Rightarrow> nat option" where
  "naive_ctz_loop bits v b r =
     (if b \<noteq> 0 \<and> v AND b = 0
      then (let r = r + 1; b = push_bit 1 b in if r = bits then Some r else naive_ctz_loop bits v b r)
      else Some r)"

definition naive_ctz :: "nat \<Rightarrow> u64 \<Rightarrow> nat option" where
  "naive_ctz bits v = naive_ctz_loop bits v 1 0"

text \<open>The self-test for one value; False is the mismatch that makes it exit.\<close>

definition bitops_check :: "u64 \<Rightarrow> bool option" where
  "bitops_check vv =
     (let v32 = ucast vv :: 32 word in
      if vv = 0 then Some True
      else do {
        n \<leftarrow> naive_ctz 64 vv;
        (if ctz64 vv \<noteq> n then Some False else do {
           n \<leftarrow> naive_clz 64 vv;
           (if clz64 vv \<noteq> n then Some False
            else if v32 = 0 then Some True
            else do {
              n \<leftarrow> naive_ctz 32 (ucast v32);
              (if ctz32 v32 \<noteq> n then Some False else do {
                 n \<leftarrow> naive_clz 32 (ucast v32);
                 Some (clz32 v32 = n)
               })
            })
         })
      })"

text \<open>
  main of the self-test: the exit status, None for undefined behaviour. The expression 1 << i shifts
  an int, so that it is undefined once the result does not fit 31 bits. A failed check exits at once.
\<close>

definition shl_int_1 :: "nat \<Rightarrow> u64 option" where
  "shl_int_1 i = (if i < 31 then Some (push_bit i 1) else None)"

fun test_powers :: "nat list \<Rightarrow> nat option" where
  "test_powers [] = Some 0"
| "test_powers (i # is) = do {
     x \<leftarrow> shl_int_1 i;
     ok \<leftarrow> bitops_check x;
     (if \<not> ok then Some 1 else do {
        ok \<leftarrow> bitops_check (x - 1);
        (if \<not> ok then Some 1 else test_powers is)
      })
   }"

fun test_cases :: "u64 list \<Rightarrow> nat option" where
  "test_cases [] = Some 0"
| "test_cases (x # xs) = do { ok \<leftarrow> bitops_check x; (if \<not> ok then Some 1 else test_cases xs) }"

definition testcases :: "u64 list" where
  "testcases = [13371337 * 10, 100, 385789752, 82574, push_bit 63 1 + push_bit 31 1 + 10101]"

definition bitops_main :: "nat option" where
  "bitops_main = do { c \<leftarrow> test_powers [0..<64]; (if c \<noteq> 0 then Some c else test_cases testcases) }"

text \<open>timeout.c: wheel_t is uint64_t for the default WHEEL_BIT of 6.\<close>

definition fls :: "u64 \<Rightarrow> nat" where
  "fls n = 64 - clz64 n"

definition rotl :: "u64 \<Rightarrow> nat \<Rightarrow> u64" where
  "rotl v c = (let c = c AND (64 - 1) in if c = 0 then v else push_bit c v OR drop_bit (64 - c) v)"

definition rotr :: "u64 \<Rightarrow> nat \<Rightarrow> u64" where
  "rotr v c = (let c = c AND (64 - 1) in if c = 0 then v else drop_bit c v OR push_bit (64 - c) v)"

section \<open>Trailing zeros\<close>

definition is_ctz :: "'a::len word \<Rightarrow> nat \<Rightarrow> bool" where
  "is_ctz x n \<longleftrightarrow> bit x n \<and> (\<forall>m < n. \<not> bit x m)"

lemma is_ctz_unique: "is_ctz x n \<Longrightarrow> is_ctz x m \<Longrightarrow> n = m"
  unfolding is_ctz_def by (metis linorder_neqE_nat)

lemma is_ctz_exists: "x \<noteq> 0 \<Longrightarrow> \<exists>n < LENGTH('a). is_ctz (x :: 'a::len word) n"
proof -
  assume "x \<noteq> 0"
  then obtain k where k: "bit x k" by (auto simp: bit_eq_iff)
  define n where "n = (LEAST k. bit x k)"
  have "is_ctz x n" unfolding is_ctz_def n_def using LeastI [of "bit x", OF k] not_less_Least by auto
  moreover have "n < LENGTH('a)" using calculation bit_imp_le_length by (auto simp: is_ctz_def)
  ultimately show ?thesis by blast
qed

lemma low_bits_zero: "(x :: 'a::len word) AND (push_bit b 1 - 1) = 0 \<longleftrightarrow> (\<forall>m < b. \<not> bit x m)"
proof -
  have "push_bit b 1 - 1 = (mask b :: 'a word)" by (simp add: mask_eq_exp_minus_1)
  then have "x AND (push_bit b 1 - 1) = take_bit b x" by (simp add: take_bit_eq_mask)
  also have "\<dots> = 0 \<longleftrightarrow> (\<forall>m < b. \<not> bit x m)"
    by (auto simp: bit_eq_iff bit_take_bit_iff dest: bit_imp_le_length)
  finally show ?thesis .
qed

lemma process_ctz_step:
  assumes "is_ctz x n" "n < 2 * b" "process_ctz b (rv, x) = (rv', x')"
  shows "\<exists>n'. is_ctz x' n' \<and> n' < b \<and> rv' + n' = rv + n"
proof (cases "\<forall>m < b. \<not> bit x m")
  case True
  then have "b \<le> n" using assms(1) by (meson is_ctz_def not_less)
  moreover have "is_ctz (drop_bit b x) (n - b)"
    using assms(1) \<open>b \<le> n\<close> True by (auto simp: is_ctz_def bit_drop_bit_eq)
  moreover have "(rv', x') = (rv + b, drop_bit b x)"
    using True assms(3) unfolding process_ctz_def prod.case low_bits_zero by simp
  ultimately show ?thesis using assms(2) by (intro exI [of _ "n - b"]) auto
next
  case False
  then have "n < b" using assms(1) by (auto simp: is_ctz_def) (meson not_less order.strict_trans2)
  moreover have "(rv', x') = (rv, x)"
    using False assms(3) unfolding process_ctz_def prod.case low_bits_zero by (simp only: if_False)
  ultimately show ?thesis using assms(1) by blast
qed

fun halving :: "nat list \<Rightarrow> nat \<Rightarrow> bool" where
  "halving [] k \<longleftrightarrow> k = 1"
| "halving (b # bs) k \<longleftrightarrow> k = 2 * b \<and> halving bs b"

lemma fold_ctz:
  "is_ctz x n \<Longrightarrow> n < k \<Longrightarrow> halving bs k \<Longrightarrow> fst (fold process_ctz bs (rv, x)) = rv + n"
proof (induction bs arbitrary: x n k rv)
  case (Cons b bs)
  obtain rv' x' where p: "process_ctz b (rv, x) = (rv', x')" by fastforce
  obtain n' where n': "is_ctz x' n'" "n' < b" "rv' + n' = rv + n"
    using process_ctz_step [OF Cons.prems(1) _ p] Cons.prems(2,3) by auto
  then show ?case using Cons.IH [OF n'(1,2), of rv'] Cons.prems(3) p by simp
qed simp

lemma ctz64_eq: "is_ctz x n \<Longrightarrow> ctz64 x = n"
  using fold_ctz [of x n 64 "[32, 16, 8, 4, 2, 1]" 0] bit_imp_le_length [of x n]
  by (simp add: ctz64_def is_ctz_def)

lemma ctz32_eq: "is_ctz x n \<Longrightarrow> ctz32 x = n"
  using fold_ctz [of x n 32 "[16, 8, 4, 2, 1]" 0] bit_imp_le_length [of x n]
  by (simp add: ctz32_def is_ctz_def)

lemma ctz64_bit: "x \<noteq> 0 \<Longrightarrow> is_ctz x (ctz64 x) \<and> ctz64 x < 64"
  using is_ctz_exists [of x] ctz64_eq by auto

lemma and_exp_zero: "(v :: 'a::len word) AND push_bit k 1 = 0 \<longleftrightarrow> \<not> bit v k"
  by (simp add: and_exp_eq_0_iff_not_bit)

lemma naive_ctz_loop_spec:
  "is_ctz v n \<Longrightarrow> n < bits \<Longrightarrow> k \<le> n \<Longrightarrow> naive_ctz_loop bits v (push_bit k 1) k = Some n"
proof (induction "n - k" arbitrary: k)
  case 0
  then have "k = n" by simp
  then have "v AND push_bit k 1 \<noteq> 0" using 0 bit_imp_le_length [of v n]
    by (auto simp only: and_exp_zero is_ctz_def)
  then show ?case using \<open>k = n\<close> by (subst naive_ctz_loop.simps) simp
next
  case (Suc d)
  then have k: "k < n" by simp
  have n: "n < 64" using Suc.prems(1) bit_imp_le_length [of v n] by (simp add: is_ctz_def)
  have "v AND push_bit k 1 = 0" using Suc.prems(1) k unfolding and_exp_zero by (auto simp: is_ctz_def)
  moreover have "push_bit k 1 \<noteq> (0 :: u64)" using k n by simp
  moreover have "push_bit 1 (push_bit k 1) = (push_bit (Suc k) 1 :: u64)" by (simp only: push_bit_push_bit) simp
  moreover have "naive_ctz_loop bits v (push_bit (Suc k) 1) (Suc k) = Some n" using Suc k by (intro Suc.hyps(1)) simp_all
  ultimately show ?case using k Suc.prems(2)
    by (subst naive_ctz_loop.simps) (simp only: simp_thms if_True Let_def Suc_eq_plus1 [symmetric], simp)
qed

lemma naive_ctz_eq: "is_ctz v n \<Longrightarrow> n < bits \<Longrightarrow> naive_ctz bits v = Some n"
  using naive_ctz_loop_spec [of v n bits 0] by (simp add: naive_ctz_def)

section \<open>Leading zeros\<close>

definition is_clz :: "'a::len word \<Rightarrow> nat \<Rightarrow> bool" where
  "is_clz x n \<longleftrightarrow> n < LENGTH('a) \<and> 2 ^ (LENGTH('a) - 1 - n) \<le> unat x \<and> unat x < 2 ^ (LENGTH('a) - n)"

lemma nat_power_cases: "m \<noteq> 0 \<Longrightarrow> m < 2 ^ L \<Longrightarrow> \<exists>k < L. 2 ^ k \<le> m \<and> m < (2 :: nat) ^ Suc k"
proof (induction L)
  case (Suc L)
  then show ?case by (cases "m < 2 ^ L") (auto simp: not_less less_Suc_eq)
qed simp

lemma is_clz_exists: "(x :: 'a::len word) \<noteq> 0 \<Longrightarrow> \<exists>n. is_clz x n"
proof -
  assume "x \<noteq> 0"
  then obtain k where "k < LENGTH('a)" "2 ^ k \<le> unat x" "unat x < 2 ^ Suc k"
    using nat_power_cases [of "unat x" "LENGTH('a)"] unsigned_less [of x] by (auto simp: unat_eq_0)
  moreover from this have "LENGTH('a) - (LENGTH('a) - 1 - k) = Suc k" "LENGTH('a) - 1 - (LENGTH('a) - 1 - k) = k" by simp_all
  ultimately have "is_clz x (LENGTH('a) - 1 - k)" by (simp add: is_clz_def)
  then show ?thesis by blast
qed

lemma unat_exp: "k < LENGTH('a) \<Longrightarrow> unat (2 ^ k :: 'a::len word) = 2 ^ k"
proof -
  assume k: "k < LENGTH('a)"
  have "(2 ^ k :: nat) < 2 ^ LENGTH('a)" using k by (intro power_strict_increasing) simp_all
  moreover have "unat (2 ^ k :: 'a word) = unat (push_bit k 1 :: 'a word)" by simp
  moreover have "\<dots> = take_bit LENGTH('a) (push_bit k 1)" by (simp only: unsigned_push_bit_eq) simp
  ultimately show ?thesis using k by (simp add: take_bit_nat_eq_self)
qed

lemma process_clz_step:
  fixes x :: "'a::len word"
  assumes "is_clz x n" "n < 2 * b" "2 * b \<le> LENGTH('a)" "0 < b" "process_clz LENGTH('a) b (rv, x) = (rv', x')"
  shows "\<exists>n'. is_clz x' n' \<and> n' < b \<and> rv' + n' = rv + n"
proof -
  have e: "x < push_bit (LENGTH('a) - b) 1 \<longleftrightarrow> unat x < 2 ^ (LENGTH('a) - b)"
    using unat_exp [where 'a = 'a, of "LENGTH('a) - b"] assms(3,4) by (simp add: word_less_nat_alt)
  have c: "n < LENGTH('a)" "2 ^ (LENGTH('a) - 1 - n) \<le> unat x" "unat x < 2 ^ (LENGTH('a) - n)"
    using assms(1) by (simp_all add: is_clz_def)
  show ?thesis
  proof (cases "unat x < 2 ^ (LENGTH('a) - b)")
    case True
    have "(2 :: nat) ^ (LENGTH('a) - 1 - n) < 2 ^ (LENGTH('a) - b)" using c(2) True by linarith
    then have "LENGTH('a) - 1 - n < LENGTH('a) - b" using power_strict_increasing_iff [of "2 :: nat"] by simp
    then have b: "b \<le> n" using assms(3,4) c(1) by linarith
    have "unat x * 2 ^ b < 2 ^ (LENGTH('a) - b) * 2 ^ b" using True by simp
    also have "\<dots> = 2 ^ LENGTH('a)" using assms(3) by (simp flip: power_add)
    finally have lt: "unat x * 2 ^ b < 2 ^ LENGTH('a)" .
    have u: "unat (push_bit b x) = unat x * 2 ^ b"
      unfolding unsigned_push_bit_eq using lt by (simp add: push_bit_eq_mult take_bit_nat_eq_self)
    have "2 ^ (LENGTH('a) - 1 - n) * 2 ^ b \<le> unat x * 2 ^ b" "unat x * 2 ^ b < 2 ^ (LENGTH('a) - n) * 2 ^ b"
      using c by simp_all
    moreover have "LENGTH('a) - 1 - n + b = LENGTH('a) - 1 - (n - b)" "LENGTH('a) - n + b = LENGTH('a) - (n - b)"
      using b c(1) by simp_all
    ultimately have "is_clz (push_bit b x) (n - b)"
      using c(1) b by (simp add: is_clz_def u flip: power_add)
    then show ?thesis using e True b assms(2,5)
      by (intro exI [of _ "n - b"]) (auto simp: process_clz_def simp del: push_bit_of_1)
  next
    case False
    have "(2 :: nat) ^ (LENGTH('a) - b) < 2 ^ (LENGTH('a) - n)" using c(3) False by linarith
    then have "LENGTH('a) - b < LENGTH('a) - n" using power_strict_increasing_iff [of "2 :: nat"] by simp
    then have "n < b" by linarith
    then show ?thesis using e False assms(1,5) by (auto simp: process_clz_def simp del: push_bit_of_1)
  qed
qed

lemma fold_clz:
  fixes x :: "'a::len word"
  shows "is_clz x n \<Longrightarrow> n < k \<Longrightarrow> k \<le> LENGTH('a) \<Longrightarrow> halving bs k \<Longrightarrow> 0 \<notin> set bs \<Longrightarrow>
    fst (fold (process_clz LENGTH('a)) bs (rv, x)) = rv + n"
proof (induction bs arbitrary: x n k rv)
  case (Cons b bs)
  obtain rv' x' where p: "process_clz LENGTH('a) b (rv, x) = (rv', x')" by fastforce
  obtain n' where n': "is_clz x' n'" "n' < b" "rv' + n' = rv + n"
    using process_clz_step [OF Cons.prems(1) _ _ _ p] Cons.prems(2-5) by auto
  then show ?case using Cons.IH [OF n'(1,2), of rv'] Cons.prems(3-5) p by simp
qed simp

lemma clz64_eq: "is_clz x n \<Longrightarrow> clz64 x = n"
  using fold_clz [of x n 64 "[32, 16, 8, 4, 2, 1]" 0] by (simp add: clz64_def is_clz_def)

lemma clz32_eq: "is_clz x n \<Longrightarrow> clz32 x = n"
  using fold_clz [of x n 32 "[16, 8, 4, 2, 1]" 0] by (simp add: clz32_def is_clz_def)

text \<open>fls: the number of bits.\<close>

lemma fls_bounds:
  assumes "x \<noteq> 0"
  shows "2 ^ (fls x - 1) \<le> unat x" "unat x < 2 ^ fls x" "1 \<le> fls x" "fls x \<le> 64"
proof -
  obtain n where n: "is_clz x n" using is_clz_exists [OF assms] by blast
  then have "clz64 x = n" by (rule clz64_eq)
  then show "2 ^ (fls x - 1) \<le> unat x" "unat x < 2 ^ fls x" "1 \<le> fls x" "fls x \<le> 64"
    using n by (auto simp: is_clz_def fls_def diff_commute)
qed

text \<open>The naive loop: the highest bit at or below position k.\<close>

lemma is_clz_bits:
  fixes x :: "'a::len word"
  assumes "is_clz x n"
  shows "bit x (LENGTH('a) - 1 - n)" and "LENGTH('a) - 1 - n < m \<Longrightarrow> \<not> bit x m"
proof -
  let ?p = "LENGTH('a) - 1 - n"
  have c: "n < LENGTH('a)" "2 ^ ?p \<le> unat x" "unat x < 2 ^ Suc ?p" using assms by (auto simp: is_clz_def Suc_diff_Suc)
  have b: "bit x k \<longleftrightarrow> odd (unat x div 2 ^ k)" for k
    using bit_unsigned_iff [where 'a = nat, of x k] by (simp add: bit_iff_odd [of "unat x"])
  have "unat x div 2 ^ ?p = 1" using c(2,3) by (intro div_nat_eqI) simp_all
  then show "bit x ?p" by (simp add: b)
  show "\<not> bit x m" if "?p < m"
  proof -
    have "(2 :: nat) ^ Suc ?p \<le> 2 ^ m" using that by (intro power_increasing) simp_all
    then have "unat x div 2 ^ m = 0" using c(3) by simp
    then show ?thesis by (simp add: b)
  qed
qed

lemma is_clzI:
  fixes x :: "'a::len word"
  assumes "n < LENGTH('a)" "bit x (LENGTH('a) - 1 - n)" "\<And>m. LENGTH('a) - 1 - n < m \<Longrightarrow> \<not> bit x m"
  shows "is_clz x n"
proof -
  have "x \<noteq> 0" using assms(2) by auto
  then obtain k where k: "is_clz x k" using is_clz_exists by blast
  have "LENGTH('a) - 1 - k = LENGTH('a) - 1 - n"
    using is_clz_bits [OF k] assms(2,3) by (metis linorder_neqE_nat)
  moreover have "k < LENGTH('a)" using k by (simp add: is_clz_def)
  ultimately have "k = n" using assms(1) by arith
  then show ?thesis using k by simp
qed

lemma naive_clz_loop_spec:
  "bit v p \<Longrightarrow> (\<forall>m. p < m \<longrightarrow> m \<le> k \<longrightarrow> \<not> bit v m) \<Longrightarrow> p \<le> k \<Longrightarrow> k < 64 \<Longrightarrow>
     naive_clz_loop v (push_bit k 1) r = Some (r + (k - p))"
proof (induction "k - p" arbitrary: k r)
  case 0
  then have "k = p" by simp
  then have "v AND push_bit k 1 \<noteq> 0" using 0 unfolding and_exp_zero by simp
  then show ?case using \<open>k = p\<close> by (subst naive_clz_loop.simps) simp
next
  case (Suc d)
  then have k: "p < k" by simp
  have "v AND push_bit k 1 = 0" using Suc.prems(2) k unfolding and_exp_zero by simp
  moreover have "push_bit k 1 \<noteq> (0 :: u64)" using Suc.prems(4) by simp
  moreover have "drop_bit 1 (push_bit k 1) = (push_bit (k - 1) 1 :: u64)"
    using k Suc.prems(4) by (intro bit_word_eqI) (auto simp: bit_simps)
  moreover have "naive_clz_loop v (push_bit (k - 1) 1) (r + 1) = Some (r + 1 + (k - 1 - p))"
    using Suc k by (intro Suc.hyps(1)) auto
  ultimately show ?case using k
    by (subst naive_clz_loop.simps) (simp only: simp_thms if_True, simp)
qed

lemma naive_clz_64: "is_clz (v :: u64) n \<Longrightarrow> naive_clz 64 v = Some n"
proof -
  assume a: "is_clz v n"
  then have n: "n < 64" by (simp add: is_clz_def)
  have "naive_clz_loop v (push_bit 63 1) 0 = Some (0 + (63 - (63 - n)))"
    using is_clz_bits [OF a] by (intro naive_clz_loop_spec) auto
  then show ?thesis using n by (simp add: naive_clz_def)
qed

lemma naive_clz_32: "is_clz (v :: 32 word) n \<Longrightarrow> naive_clz 32 (ucast v) = Some n"
proof -
  assume a: "is_clz v n"
  then have n: "n < 32" by (simp add: is_clz_def)
  have "naive_clz_loop (ucast v) (push_bit 31 1) 0 = Some (0 + (31 - (31 - n)))"
    using is_clz_bits [OF a] by (intro naive_clz_loop_spec) (auto simp: bit_simps)
  then show ?thesis using n by (simp add: naive_clz_def)
qed

lemma is_ctz_ucast: "is_ctz (v :: 32 word) n \<Longrightarrow> is_ctz (ucast v :: u64) n"
  by (auto simp: is_ctz_def bit_simps dest: bit_imp_le_length)

section \<open>Rotations\<close>

lemma and_63: "(c :: nat) AND 63 = c mod 64"
  using nat_and_mask [of c 6] by simp

lemma rot_bits:
  assumes "n < 64" "k < 64" "k \<noteq> 0"
  shows "bit (push_bit k v OR drop_bit (64 - k) v) n \<longleftrightarrow> bit (v :: u64) ((n + (64 - k)) mod 64)"
proof (cases "n < k")
  case True
  then have l: "n + (64 - k) < 64" using assms(2) by linarith
  have e: "(n + (64 - k)) mod 64 = 64 - k + n" unfolding mod_less [OF l] by (rule add.commute)
  show ?thesis using True assms(1) unfolding e by (simp add: bit_or_iff bit_push_bit_iff bit_drop_bit_eq)
next
  case False
  then have "n + (64 - k) = n - k + 64" using assms by linarith
  moreover have "n - k < 64" using assms(1) by linarith
  ultimately have e: "(n + (64 - k)) mod 64 = n - k" by simp
  have "64 \<le> 64 - k + n" using False assms by linarith
  then have "\<not> bit v (64 - k + n)" using bit_imp_le_length [of v "64 - k + n"] by auto
  then show ?thesis using False assms(1) unfolding e by (simp add: bit_or_iff bit_push_bit_iff bit_drop_bit_eq)
qed

lemma rotl_word: "rotl v c = word_rotl c v"
proof (rule bit_word_eqI)
  fix n assume n: "n < LENGTH(64)"
  have "bit (rotl v c) n \<longleftrightarrow> bit v ((n + (64 - c mod 64)) mod 64)"
  proof (cases "c mod 64 = 0")
    case False
    then show ?thesis using n rot_bits [of n "c mod 64" v] by (simp add: rotl_def Let_def and_63)
  qed (use n in \<open>simp add: rotl_def Let_def and_63\<close>)
  then show "bit (rotl v c) n \<longleftrightarrow> bit (word_rotl c v) n" using n by (simp add: bit_word_rotl_iff)
qed

lemma rotr_word: "rotr v c = word_rotr c v"
proof (rule bit_word_eqI)
  fix n assume n: "n < LENGTH(64)"
  have "bit (rotr v c) n \<longleftrightarrow> bit v ((n + c mod 64) mod 64)"
  proof (cases "c mod 64 = 0")
    case False
    have "bit (push_bit (64 - c mod 64) v OR drop_bit (64 - (64 - c mod 64)) v) n \<longleftrightarrow> bit v ((n + (64 - (64 - c mod 64))) mod 64)"
      using n False by (intro rot_bits) simp_all
    then show ?thesis using False by (simp add: rotr_def Let_def and_63 or.commute)
  qed (use n in \<open>simp add: rotr_def Let_def and_63\<close>)
  then show "bit (rotr v c) n \<longleftrightarrow> bit (word_rotr c v) n" using n by (simp add: bit_word_rotr_iff mod_add_right_eq)
qed

lemma bit_rotl: "bit (rotl v c) n \<longleftrightarrow> n < 64 \<and> bit v ((n + (64 - c mod 64)) mod 64)"
  by (simp add: rotl_word bit_word_rotl_iff)

lemma bit_rotr: "bit (rotr v c) n \<longleftrightarrow> n < 64 \<and> bit v ((n + c) mod 64)"
  by (simp add: rotr_word bit_word_rotr_iff)

section \<open>The self-test\<close>

lemma bitops_check_True: "bitops_check vv = Some True"
proof (cases "vv = 0")
  case False
  obtain n m where n: "is_ctz vv n" "n < 64" "is_clz vv m" using is_ctz_exists [OF False] is_clz_exists [OF False] by auto
  note e = ctz64_eq [OF n(1)] clz64_eq [OF n(3)] naive_ctz_eq [OF n(1,2)] naive_clz_64 [OF n(3)]
  show ?thesis
  proof (cases "(ucast vv :: 32 word) = 0")
    case True
    then show ?thesis using False e by (simp add: bitops_check_def Let_def)
  next
    case nz: False
    obtain n' m' where n': "is_ctz (ucast vv :: 32 word) n'" "n' < 32" "is_clz (ucast vv :: 32 word) m'"
      using is_ctz_exists [OF nz] is_clz_exists [OF nz] by auto
    note e' = ctz32_eq [OF n'(1)] clz32_eq [OF n'(3)] naive_ctz_eq [OF is_ctz_ucast [OF n'(1)] n'(2)] naive_clz_32 [OF n'(3)]
    show ?thesis using False nz e e' by (simp add: bitops_check_def Let_def)
  qed
qed (simp add: bitops_check_def)

lemma test_cases_ok: "test_cases xs = Some 0"
  by (induction xs) (simp_all add: bitops_check_True)

lemma test_powers_upto: "n \<le> 31 \<Longrightarrow> test_powers [m..<n] = Some 0"
proof (induction "n - m" arbitrary: m)
  case (Suc d)
  then show ?case by (subst upt_conv_Cons) (simp_all add: shl_int_1_def bitops_check_True)
qed simp

lemma test_powers_undefined: "n \<le> 31 \<Longrightarrow> test_powers [n..<64] = None"
proof (induction "31 - n" arbitrary: n)
  case 0
  then show ?case by (subst upt_conv_Cons) (simp_all add: shl_int_1_def)
next
  case (Suc d)
  then show ?case by (subst upt_conv_Cons) (simp_all add: shl_int_1_def bitops_check_True)
qed

section \<open>Properties\<close>

text \<open>
  C12: the generic ctz64, clz64, ctz32 and clz32 return, for every nonzero argument, the index of the
  lowest set bit and the number of zero bits above the highest one.
\<close>

theorem bit_scan_correct:
  assumes "x \<noteq> 0" and "y \<noteq> 0"
  shows "bit x (ctz64 x) \<and> (\<forall>m < ctz64 x. \<not> bit x m) \<and>
     bit x (63 - clz64 x) \<and> (\<forall>m. 63 - clz64 x < m \<longrightarrow> \<not> bit x m) \<and>
     bit y (ctz32 y) \<and> (\<forall>m < ctz32 y. \<not> bit y m) \<and>
     bit y (31 - clz32 y) \<and> (\<forall>m. 31 - clz32 y < m \<longrightarrow> \<not> bit y m)"
proof -
  obtain n m n' m' where "is_ctz x n" "is_clz x m" "is_ctz y n'" "is_clz y m'"
    using is_ctz_exists [OF assms(1)] is_clz_exists [OF assms(1)] is_ctz_exists [OF assms(2)] is_clz_exists [OF assms(2)] by blast
  then show ?thesis
    using ctz64_eq clz64_eq ctz32_eq clz32_eq is_clz_bits [of x m] is_clz_bits [of y m'] by (simp add: is_ctz_def)
qed

lemma bit_scan_correct_witness: "ctz64 40 = 3 \<and> clz64 40 = 58 \<and> bit (40 :: u64) (ctz64 40) \<and> bit (40 :: u64) (63 - clz64 40)"
proof -
  have "ctz64 40 = 3" "clz64 40 = 58" by (simp_all add: ctz64_def process_ctz_def clz64_def process_clz_def)
  then show ?thesis using bit_scan_correct [of 40 1] by simp
qed

text \<open>
  the self-test of the bit operations never reports a mismatch: on every 64-bit value the
  optimised functions and the naive loops agree, and the loops end. The listed test cases and the powers
  of two up to 2^30 pass; the main function as a whole is undefined, because it shifts the int 1 by up
  to 63 places.
\<close>

theorem bitops_check_passes:
  "bitops_check vv = Some True \<and> test_cases testcases = Some 0 \<and> test_powers [0..<31] = Some 0 \<and>
   bitops_main = None"
  using test_powers_upto [of 31] test_powers_undefined by (simp add: bitops_main_def test_cases_ok bitops_check_True)

text \<open>Over functions that count the trailing and the leading zeros of 32-bit words, the MSVC variants are the generic ones.\<close>

lemma msvc_scan_counts:
  assumes "\<And>v. v \<noteq> 0 \<Longrightarrow> is_ctz v (fwd v)" and "\<And>v. v \<noteq> 0 \<Longrightarrow> is_clz v (bwd v)" and "val \<noteq> 0"
  shows "msvc_ctz64 fwd val = ctz64 val \<and> msvc_clz64 bwd val = clz64 val"
proof -
  let ?lo = "ucast val :: 32 word" and ?hi = "ucast (drop_bit 32 val) :: 32 word"
  have lo: "bit ?lo m \<longleftrightarrow> m < 32 \<and> bit val m" for m by (simp add: bit_simps)
  have hi: "bit ?hi m \<longleftrightarrow> m < 32 \<and> bit val (32 + m)" for m by (simp add: bit_simps)
  have hi_high: "bit val m \<Longrightarrow> 32 \<le> m \<Longrightarrow> bit ?hi (m - 32)" for m
    using bit_imp_le_length [of val m] by (simp add: hi)
  have lo0: "?lo = 0 \<longleftrightarrow> (\<forall>m < 32. \<not> bit val m)" by (auto simp: bit_eq_iff lo dest: bit_imp_le_length)
  have hi0: "?hi = 0 \<Longrightarrow> 32 \<le> m \<Longrightarrow> \<not> bit val m" for m using hi_high by fastforce
  have nz: "?lo = 0 \<Longrightarrow> ?hi \<noteq> 0" using assms(3) lo0 hi0 by (metis bit_eq_iff bit_0_eq bot_apply bot_bool_def linorder_not_less)
  have "is_ctz val (msvc_ctz64 fwd val)"
  proof (cases "?lo = 0")
    case True
    then have "is_ctz ?hi (fwd ?hi)" using nz assms(1) by blast
    moreover have "\<not> bit val m" if "m < 32 + fwd ?hi" for m
      using calculation True lo0 hi_high [of m] that by (cases "m < 32") (auto simp: is_ctz_def)
    ultimately show ?thesis using True by (simp add: msvc_ctz64_def Let_def is_ctz_def hi)
  next
    case False
    then have "is_ctz ?lo (fwd ?lo)" using assms(1) by blast
    then show ?thesis using False by (auto simp: msvc_ctz64_def Let_def is_ctz_def lo)
  qed
  moreover have "is_clz val (msvc_clz64 bwd val)"
  proof (cases "?hi = 0")
    case True
    then have "?lo \<noteq> 0" using nz by blast
    then have c: "is_clz ?lo (bwd ?lo)" using assms(2) by blast
    have n: "bwd ?lo < 32" using c by (simp add: is_clz_def)
    have "is_clz val (32 + bwd ?lo)"
    proof (rule is_clzI)
      show "bit val (LENGTH(64) - 1 - (32 + bwd ?lo))" using is_clz_bits(1) [OF c] by (simp add: lo)
      show "\<not> bit val m" if "LENGTH(64) - 1 - (32 + bwd ?lo) < m" for m
        using is_clz_bits(2) [OF c, of m] hi0 [OF True, of m] that by (cases "m < 32") (auto simp: lo)
    qed (use n in simp)
    then show ?thesis using True by (simp add: msvc_clz64_def Let_def)
  next
    case False
    then have c: "is_clz ?hi (bwd ?hi)" using assms(2) by blast
    have n: "bwd ?hi < 32" using c by (simp add: is_clz_def)
    have "is_clz val (bwd ?hi)"
    proof (rule is_clzI)
      show "bit val (LENGTH(64) - 1 - bwd ?hi)" using is_clz_bits(1) [OF c] n by (simp add: hi)
      show "\<not> bit val m" if "LENGTH(64) - 1 - bwd ?hi < m" for m
      proof -
        have "32 \<le> m" "LENGTH(32) - 1 - bwd ?hi < m - 32" using that n by auto
        then show ?thesis using is_clz_bits(2) [OF c, of "m - 32"] hi_high [of m] by blast
      qed
    qed (use n in simp)
    then show ?thesis using False by (simp add: msvc_clz64_def Let_def)
  qed
  ultimately show ?thesis using ctz64_eq clz64_eq by simp
qed

text \<open>
  But _BitScanReverse, like _BitScanForward, stores the index of the bit it finds: the index of the highest bit, which
  is 31 less the number of leading zeros. With the intrinsics as documented ctz64 is right, and clz64 is not.
\<close>

theorem msvc_scan_eq:
  assumes "\<And>v. v \<noteq> 0 \<Longrightarrow> is_ctz v (fwd v)" and idx: "\<And>v. v \<noteq> 0 \<Longrightarrow> bwd v < 32 \<and> is_clz v (31 - bwd v)" and "val \<noteq> 0"
  shows "msvc_ctz64 fwd val = ctz64 val \<and> msvc_clz64 bwd val = (if clz64 val < 32 then 31 - clz64 val else 95 - clz64 val)"
proof -
  let ?hi = "ucast (drop_bit 32 val) :: 32 word" and ?lo = "ucast val :: 32 word"
  have eq: "msvc_ctz64 fwd val = ctz64 val" "msvc_clz64 (\<lambda>v. 31 - bwd v) val = clz64 val"
    using msvc_scan_counts [of fwd "\<lambda>v. 31 - bwd v" val] assms by blast+
  have nz: "?lo \<noteq> 0" if "?hi = 0"
  proof
    assume "?lo = 0"
    then have "\<not> bit val n" for n
    proof -
      have lo: "\<not> bit ?lo m" and hi: "\<not> bit ?hi m" for m using \<open>?lo = 0\<close> that by simp_all
      show "\<not> bit val n"
        using lo [of n] hi [of "n - 32"] bit_imp_le_length [of val n] by (cases "n < 32") (auto simp: bit_simps)
    qed
    then have "val = 0" by (simp add: bit_eq_iff)
    then show False using assms(3) by simp
  qed
  show ?thesis
  proof (cases "?hi = 0")
    case True
    then show ?thesis using eq idx [OF nz [OF True]] by (simp add: msvc_clz64_def Let_def) linarith
  next
    case False
    then show ?thesis using eq idx [OF False] by (simp add: msvc_clz64_def Let_def) linarith
  qed
qed

lemma msvc_scan_eq_witness: "msvc_ctz64 ctz32 1 = ctz64 1 \<and> msvc_clz64 (\<lambda>v. 31 - clz32 v) 1 = 32 \<and> clz64 1 = 63"
proof -
  have c: "clz64 1 = 63" by code_simp
  have "msvc_ctz64 ctz32 1 = ctz64 1 \<and> msvc_clz64 (\<lambda>v. 31 - clz32 v) 1 = (if clz64 1 < 32 then 31 - clz64 1 else 95 - clz64 1)"
  proof (rule msvc_scan_eq)
    show "is_ctz v (ctz32 v)" if "v \<noteq> 0" for v using is_ctz_exists [OF that] ctz32_eq by auto
    show "31 - clz32 v < 32 \<and> is_clz v (31 - (31 - clz32 v))" if nz: "v \<noteq> 0" for v
    proof -
      obtain n where "is_clz v n" using is_clz_exists [OF nz] by blast
      then have "is_clz v (clz32 v)" "clz32 v < 32" using clz32_eq [of v n] by (simp_all add: is_clz_def)
      then show ?thesis by simp
    qed
  qed simp
  then show ?thesis unfolding c by simp
qed

text \<open>
  C13: rotl and rotr are the left and right rotation of a 64-bit word, for every count, and undo each
  other.
\<close>

theorem rotations_correct: "rotl v c = word_rotl c v \<and> rotr v c = word_rotr c v \<and> rotr (rotl v c) c = v"
proof -
  have "rotr (rotl v c) c = v"
  proof (rule bit_word_eqI)
    fix n assume n: "n < LENGTH(64)"
    have "((n + c) mod 64 + (64 - c mod 64)) mod 64 = (n + c mod 64 + (64 - c mod 64)) mod 64"
      by (metis mod_add_left_eq mod_add_right_eq)
    also have "\<dots> = n" using n by (simp add: add.assoc)
    finally show "bit (rotr (rotl v c) c) n \<longleftrightarrow> bit v n" using n by (simp add: bit_rotl bit_rotr)
  qed
  then show ?thesis using rotl_word rotr_word by simp
qed

end
