(* ===== verification/Timeout.thy ===== *)
theory Timeout
  imports Bitops
begin

unbundle bit_operations_syntax

text \<open>
  The tickless hierarchical timing wheel, article/src/c/wheel/timeout.c and timeout.h, for the default
  WHEEL_BIT of 6 and WHEEL_NUM of 4: definitions.

  A \<open>struct timeout\<close> lives at an address of the heap \<open>theap\<close>. The queues are the TAILQ lists of
  sys/queue.h, which the model keeps as the list of their members; a member can only be removed from
  the list it is on (TAILQ_REMOVE of anything else corrupts memory: None). The two-dimensional array
  of slots is addressed by \<open>64 * w + s\<close>, as the code itself computes with
  \<open>to->pending - &T->wheel[0][0]\<close>. One struct timeouts is modelled, so the pointer to->timeouts is
  a flag: set to it, or NULL.
\<close>

section \<open>Data\<close>

text \<open>What the pointer to->pending can refer to: a slot of the wheels, or the expired queue.\<close>

datatype place = Slot nat | Expired

record timeout =
  to_flags :: "32 word"
  to_expires :: u64
  to_pending :: "place option"
  to_fn :: "addr option"
  to_arg :: "addr option"
  to_interval :: u64
  to_timeouts :: bool

type_synonym theap = "addr \<rightharpoonup> timeout"

record timeouts =
  T_wheel :: "nat \<Rightarrow> addr list"
  T_expired :: "addr list"
  T_pending :: "nat \<Rightarrow> u64"
  T_curtime :: u64
  T_hertz :: u64

definition TIMEOUT_INT :: "32 word" where "TIMEOUT_INT = 0x01"
definition TIMEOUT_ABS :: "32 word" where "TIMEOUT_ABS = 0x02"
definition TIMEOUT_mHZ :: u64 where "TIMEOUT_mHZ = 1000"
definition TIMEOUT_MAX :: u64 where "TIMEOUT_MAX = push_bit (6 * 4) 1 - 1"

definition slot_index :: "nat \<Rightarrow> nat \<Rightarrow> nat option" where
  "slot_index w s = (if w < 4 \<and> s < 64 then Some (64 * w + s) else None)"

definition queue_of :: "timeouts \<Rightarrow> place \<Rightarrow> addr list" where
  "queue_of T p = (case p of Slot k \<Rightarrow> T_wheel T k | Expired \<Rightarrow> T_expired T)"

fun set_queue :: "timeouts \<Rightarrow> place \<Rightarrow> addr list \<Rightarrow> timeouts" where
  "set_queue T (Slot k) xs = T\<lparr>T_wheel := (T_wheel T)(k := xs)\<rparr>"
| "set_queue T Expired xs = T\<lparr>T_expired := xs\<rparr>"

definition tailq_remove :: "timeouts \<Rightarrow> place \<Rightarrow> addr \<Rightarrow> timeouts option" where
  "tailq_remove T p a =
     (if a \<in> set (queue_of T p) then Some (set_queue T p (remove1 a (queue_of T p))) else None)"

section \<open>Creating, resetting and closing\<close>

text \<open>timeouts_init writes every slot and every bit field of the memory it is given.\<close>

definition timeouts_init :: "timeouts \<Rightarrow> u64 \<Rightarrow> timeouts" where
  "timeouts_init T hz = T\<lparr>
     T_wheel := (\<lambda>k. if k < 4 * 64 then [] else T_wheel T k),
     T_expired := [],
     T_pending := (\<lambda>i. if i < 4 then 0 else T_pending T i),
     T_curtime := 0,
     T_hertz := (if hz \<noteq> 0 then hz else TIMEOUT_mHZ)\<rparr>"

text \<open>The first argument is what malloc returns, the last one the errno it sets when it fails.\<close>

definition timeouts_open :: "timeouts option \<Rightarrow> u64 \<Rightarrow> int \<Rightarrow> int + timeouts" where
  "timeouts_open m hz errno = (case m of Some T \<Rightarrow> Inr (timeouts_init T hz) | None \<Rightarrow> Inl errno)"

fun reset_each :: "theap \<Rightarrow> addr list \<Rightarrow> theap option" where
  "reset_each h [] = Some h"
| "reset_each h (a # as) = do {
     t \<leftarrow> h a;
     reset_each (h(a \<mapsto> t\<lparr>to_pending := None, to_timeouts := False\<rparr>)) as
   }"

definition timeouts_reset :: "timeouts \<Rightarrow> theap \<Rightarrow> (timeouts \<times> theap) option" where
  "timeouts_reset T h = do {
     h \<leftarrow> reset_each h (concat (map (T_wheel T) [0..<4 * 64]) @ T_expired T);
     Some (T\<lparr>T_wheel := (\<lambda>k. if k < 4 * 64 then [] else T_wheel T k), T_expired := []\<rparr>, h)
   }"

text \<open>After timeouts_close the struct timeouts is freed; the timeouts are still the caller's.\<close>

definition timeouts_close :: "timeouts \<Rightarrow> theap \<Rightarrow> theap option" where
  "timeouts_close T h = map_option snd (timeouts_reset T h)"

definition timeouts_hz :: "timeouts \<Rightarrow> u64" where
  "timeouts_hz T = T_hertz T"

section \<open>Scheduling\<close>

definition timeouts_del :: "timeouts \<Rightarrow> theap \<Rightarrow> addr \<Rightarrow> (timeouts \<times> theap) option" where
  "timeouts_del T h a = do {
     t \<leftarrow> h a;
     (case to_pending t of
        None \<Rightarrow> Some (T, h)
      | Some p \<Rightarrow> do {
          T \<leftarrow> tailq_remove T p a;
          let T = (case p of
                     Expired \<Rightarrow> T
                   | Slot idx \<Rightarrow>
                       if T_wheel T idx = [] then
                         let wheel = idx div 64; slot = idx mod 64 in
                         T\<lparr>T_pending := (T_pending T)(wheel := T_pending T wheel AND NOT (push_bit slot 1))\<rparr>
                       else T);
          Some (T, h(a \<mapsto> t\<lparr>to_pending := None, to_timeouts := False\<rparr>))
        })
   }"

definition timeout_rem :: "timeouts \<Rightarrow> timeout \<Rightarrow> u64" where
  "timeout_rem T t = to_expires t - T_curtime T"

definition timeout_wheel :: "u64 \<Rightarrow> nat" where
  "timeout_wheel timeout = (fls (if timeout < TIMEOUT_MAX then timeout else TIMEOUT_MAX) - 1) div 6"

definition timeout_slot :: "nat \<Rightarrow> u64 \<Rightarrow> nat" where
  "timeout_slot wheel expires = unat (63 AND (drop_bit (wheel * 6) expires - (if wheel \<noteq> 0 then 1 else 0)))"

definition timeouts_sched :: "timeouts \<Rightarrow> theap \<Rightarrow> addr \<Rightarrow> u64 \<Rightarrow> (timeouts \<times> theap) option" where
  "timeouts_sched T h a expires = do {
     (T, h) \<leftarrow> timeouts_del T h a;
     t \<leftarrow> h a;
     let t = t\<lparr>to_expires := expires, to_timeouts := True\<rparr>;
     if T_curtime T < expires then do {
       let rem = timeout_rem T t;
       let wheel = timeout_wheel rem;
       let slot = timeout_slot wheel (to_expires t);
       k \<leftarrow> slot_index wheel slot;
       Some (T\<lparr>T_wheel := (T_wheel T)(k := T_wheel T k @ [a]),
               T_pending := (T_pending T)(wheel := T_pending T wheel OR push_bit slot 1)\<rparr>,
             h(a \<mapsto> t\<lparr>to_pending := Some (Slot k)\<rparr>))
     }
     else Some (T\<lparr>T_expired := T_expired T @ [a]\<rparr>, h(a \<mapsto> t\<lparr>to_pending := Some Expired\<rparr>))
   }"

text \<open>The remainder of a division by zero is undefined.\<close>

definition umod :: "u64 \<Rightarrow> u64 \<Rightarrow> u64 option" where
  "umod n m = (if m = 0 then None else Some (n mod m))"

definition timeouts_readd :: "timeouts \<Rightarrow> theap \<Rightarrow> addr \<Rightarrow> (timeouts \<times> theap) option" where
  "timeouts_readd T h a = do {
     t \<leftarrow> h a;
     let e = to_expires t + to_interval t;
     e \<leftarrow> (if e \<le> T_curtime T then do {
             let n = T_curtime T - e;
             r \<leftarrow> umod n (to_interval t);
             Some (T_curtime T + (to_interval t - r))
           } else Some e);
     let h = h(a \<mapsto> t\<lparr>to_expires := e\<rparr>);
     timeouts_sched T h a e
   }"

definition timeouts_add :: "timeouts \<Rightarrow> theap \<Rightarrow> addr \<Rightarrow> u64 \<Rightarrow> (timeouts \<times> theap) option" where
  "timeouts_add T h a timeout = do {
     t \<leftarrow> h a;
     let h = (if to_flags t AND TIMEOUT_INT \<noteq> 0
              then h(a \<mapsto> t\<lparr>to_interval := (if 1 > timeout then 1 else timeout)\<rparr>) else h);
     (if to_flags t AND TIMEOUT_ABS \<noteq> 0 then timeouts_sched T h a timeout
      else timeouts_sched T h a (T_curtime T + timeout))
   }"

section \<open>Advancing the clock\<close>

text \<open>The slots of a wheel that expire when the clock moves from \<open>cur\<close> to \<open>curtime\<close>.\<close>

definition expire_mask :: "u64 \<Rightarrow> u64 \<Rightarrow> u64 \<Rightarrow> nat \<Rightarrow> u64" where
  "expire_mask cur curtime elapsed wheel =
     (if drop_bit (wheel * 6) elapsed > 63 then NOT 0
      else
        let e = unat (63 AND drop_bit (wheel * 6) elapsed);
            oslot = unat (63 AND drop_bit (wheel * 6) cur);
            pending = rotl (push_bit e 1 - 1) oslot;
            nslot = unat (63 AND drop_bit (wheel * 6) curtime);
            pending = pending OR rotr (rotl (push_bit e 1 - 1) nslot) e
        in pending OR push_bit nslot 1)"

text \<open>The inner loop: the expiring slots that are occupied are moved to \<open>todo\<close>, lowest slot first.\<close>

partial_function (option) collect_slots ::
    "nat \<Rightarrow> u64 \<Rightarrow> timeouts \<Rightarrow> addr list \<Rightarrow> (timeouts \<times> addr list) option" where
  "collect_slots wheel pending T todo =
     (if pending AND T_pending T wheel \<noteq> 0 then do {
        let slot = ctz64 (pending AND T_pending T wheel);
        k \<leftarrow> slot_index wheel slot;
        collect_slots wheel pending
          (T\<lparr>T_wheel := (T_wheel T)(k := []),
             T_pending := (T_pending T)(wheel := T_pending T wheel AND NOT (push_bit slot 1))\<rparr>)
          (todo @ T_wheel T k)
      }
      else Some (T, todo))"

fun update_wheels :: "nat list \<Rightarrow> u64 \<Rightarrow> u64 \<Rightarrow> timeouts \<Rightarrow> addr list \<Rightarrow> (timeouts \<times> addr list) option" where
  "update_wheels [] curtime elapsed T todo = Some (T, todo)"
| "update_wheels (wheel # wheels) curtime elapsed T todo = do {
     let pending = expire_mask (T_curtime T) curtime elapsed wheel;
     (T, todo) \<leftarrow> collect_slots wheel pending T todo;
     if 0x1 AND pending = 0 then Some (T, todo)
     else update_wheels wheels curtime
            (if elapsed > push_bit (wheel * 6) 64 then elapsed else push_bit (wheel * 6) 64) T todo
   }"

text \<open>The second loop: every collected timeout is scheduled again, relative to the new time.\<close>

fun resched :: "timeouts \<Rightarrow> theap \<Rightarrow> addr list \<Rightarrow> (timeouts \<times> theap) option" where
  "resched T h [] = Some (T, h)"
| "resched T h (a # todo) = do {
     t \<leftarrow> h a;
     let h = h(a \<mapsto> t\<lparr>to_pending := None\<rparr>);
     (T, h) \<leftarrow> timeouts_sched T h a (to_expires t);
     resched T h todo
   }"

definition timeouts_update :: "timeouts \<Rightarrow> theap \<Rightarrow> u64 \<Rightarrow> (timeouts \<times> theap) option" where
  "timeouts_update T h curtime = do {
     let elapsed = curtime - T_curtime T;
     (T, todo) \<leftarrow> update_wheels [0..<4] curtime elapsed T [];
     resched (T\<lparr>T_curtime := curtime\<rparr>) h todo
   }"

definition timeouts_step :: "timeouts \<Rightarrow> theap \<Rightarrow> u64 \<Rightarrow> (timeouts \<times> theap) option" where
  "timeouts_step T h elapsed = timeouts_update T h (T_curtime T + elapsed)"

section \<open>Queries\<close>

definition timeouts_pending :: "timeouts \<Rightarrow> bool" where
  "timeouts_pending T \<longleftrightarrow> fold (\<lambda>wheel pending. pending OR T_pending T wheel) [0..<4] 0 \<noteq> 0"

definition timeouts_expired :: "timeouts \<Rightarrow> bool" where
  "timeouts_expired T \<longleftrightarrow> T_expired T \<noteq> []"

text \<open>One turn of the loop of timeouts_int, on the pair of relmask and timeout.\<close>

definition int_step :: "timeouts \<Rightarrow> nat \<Rightarrow> u64 \<times> u64 \<Rightarrow> u64 \<times> u64" where
  "int_step T wheel = (\<lambda>(relmask, timeout).
     let timeout =
       (if T_pending T wheel \<noteq> 0 then
          let slot = unat (63 AND drop_bit (wheel * 6) (T_curtime T));
              t = of_nat (push_bit (wheel * 6) (ctz64 (rotr (T_pending T wheel) slot) + (if wheel \<noteq> 0 then 1 else 0)));
              t = t - (relmask AND T_curtime T)
          in if t < timeout then t else timeout
        else timeout)
     in (push_bit 6 relmask OR 63, timeout))"

definition timeouts_int :: "timeouts \<Rightarrow> u64" where
  "timeouts_int T = snd (fold (int_step T) [0..<4] (0, NOT 0))"

definition timeouts_timeout :: "timeouts \<Rightarrow> u64" where
  "timeouts_timeout T = (if T_expired T \<noteq> [] then 0 else timeouts_int T)"

definition timeouts_get :: "timeouts \<Rightarrow> theap \<Rightarrow> (addr option \<times> timeouts \<times> theap) option" where
  "timeouts_get T h =
     (case T_expired T of
        [] \<Rightarrow> Some (None, T, h)
      | a # as \<Rightarrow> do {
          t \<leftarrow> h a;
          let T = T\<lparr>T_expired := as\<rparr>;
          let h = h(a \<mapsto> t\<lparr>to_pending := None, to_timeouts := False\<rparr>);
          (T, h) \<leftarrow> (if to_flags t AND TIMEOUT_INT \<noteq> 0 \<and> to_interval t > 0
                    then timeouts_readd T h a else Some (T, h));
          Some (Some a, T, h)
        })"

fun min_of :: "theap \<Rightarrow> addr list \<Rightarrow> addr option \<Rightarrow> addr option option" where
  "min_of h [] m = Some m"
| "min_of h (a # as) m = do {
     t \<leftarrow> h a;
     (case m of
        None \<Rightarrow> min_of h as (Some a)
      | Some b \<Rightarrow> do { u \<leftarrow> h b; min_of h as (if to_expires t < to_expires u then Some a else m) })
   }"

definition timeouts_min :: "timeouts \<Rightarrow> theap \<Rightarrow> addr option option" where
  "timeouts_min T h = min_of h (concat (map (T_wheel T) [0..<4 * 64])) None"

definition timeouts_check :: "timeouts \<Rightarrow> theap \<Rightarrow> bool option" where
  "timeouts_check T h = do {
     m \<leftarrow> timeouts_min T h;
     (case m of
        Some a \<Rightarrow> do {
          t \<leftarrow> h a;
          (if \<not> T_curtime T < to_expires t then Some False
           else if \<not> timeouts_int T \<le> to_expires t - T_curtime T then Some False
           else if \<not> timeouts_timeout T \<le> to_expires t - T_curtime T then Some False
           else Some True)
        }
      | None \<Rightarrow>
          (if T_expired T \<noteq> [] then Some (timeouts_timeout T = 0)
           else Some (timeouts_timeout T = NOT 0)))
   }"

section \<open>The iterator\<close>

definition TIMEOUTS_PENDING :: "32 word" where "TIMEOUTS_PENDING = 0x10"
definition TIMEOUTS_EXPIRED :: "32 word" where "TIMEOUTS_EXPIRED = 0x20"
definition TIMEOUTS_ALL :: "32 word" where "TIMEOUTS_ALL = TIMEOUTS_PENDING OR TIMEOUTS_EXPIRED"
definition TIMEOUTS_CLEAR :: "32 word" where "TIMEOUTS_CLEAR = 0x40"

text \<open>
  timeouts_next is a coroutine: it->pc is the line to resume at. The resume points are the start, the
  three YIELDs and the end.
\<close>

datatype it_pc = At_start | Yield_get | Yield_expired | Yield_wheel | At_end

record timeouts_it =
  it_flags :: "32 word"
  it_pc :: it_pc
  it_i :: nat
  it_j :: nat
  it_to :: "addr option"

definition TIMEOUTS_IT_INITIALIZER :: "32 word \<Rightarrow> timeouts_it" where
  "TIMEOUTS_IT_INITIALIZER flags =
     \<lparr>it_flags = flags, it_pc = At_start, it_i = 0, it_j = 0, it_to = None\<rparr>"

definition TIMEOUTS_IT_INIT :: "timeouts_it \<Rightarrow> 32 word \<Rightarrow> timeouts_it" where
  "TIMEOUTS_IT_INIT cur flags = cur\<lparr>it_flags := flags, it_pc := At_start\<rparr>"

text \<open>TAILQ_NEXT of a member of the list.\<close>

fun tailq_next :: "addr list \<Rightarrow> addr \<Rightarrow> addr option option" where
  "tailq_next [] a = None"
| "tailq_next (x # xs) a = (if x = a then Some (first xs) else tailq_next xs a)"

text \<open>The pending part, from the given slots on.\<close>

fun next_slots :: "timeouts \<Rightarrow> timeouts_it \<Rightarrow> nat list \<Rightarrow> (addr option \<times> timeouts_it) option" where
  "next_slots T it [] = Some (None, it\<lparr>it_i := 4, it_j := 64, it_pc := At_end\<rparr>)"
| "next_slots T it (k # ks) =
     (case T_wheel T k of
        [] \<Rightarrow> next_slots T it ks
      | a # as \<Rightarrow> Some (Some a, it\<lparr>it_i := k div 64, it_j := k mod 64, it_to := first as, it_pc := Yield_wheel\<rparr>))"

definition next_pending :: "timeouts \<Rightarrow> timeouts_it \<Rightarrow> (addr option \<times> timeouts_it) option" where
  "next_pending T it =
     (if it_flags it AND TIMEOUTS_PENDING \<noteq> 0 then next_slots T it [0..<4 * 64]
      else Some (None, it\<lparr>it_pc := At_end\<rparr>))"

definition next_wheel :: "timeouts \<Rightarrow> timeouts_it \<Rightarrow> (addr option \<times> timeouts_it) option" where
  "next_wheel T it =
     (case it_to it of
        Some a \<Rightarrow> do {
          k \<leftarrow> slot_index (it_i it) (it_j it);
          tvar \<leftarrow> tailq_next (T_wheel T k) a;
          Some (Some a, it\<lparr>it_to := tvar, it_pc := Yield_wheel\<rparr>)
        }
      | None \<Rightarrow> next_slots T it [Suc (64 * it_i it + it_j it)..<4 * 64])"

definition next_expired :: "timeouts \<Rightarrow> timeouts_it \<Rightarrow> addr option \<Rightarrow> (addr option \<times> timeouts_it) option" where
  "next_expired T it var =
     (case var of
        Some a \<Rightarrow> do {
          tvar \<leftarrow> tailq_next (T_expired T) a;
          Some (Some a, it\<lparr>it_to := tvar, it_pc := Yield_expired\<rparr>)
        }
      | None \<Rightarrow> next_pending T it)"

definition next_get ::
    "timeouts \<Rightarrow> theap \<Rightarrow> timeouts_it \<Rightarrow> (addr option \<times> timeouts \<times> theap \<times> timeouts_it) option" where
  "next_get T h it = do {
     (r, T, h) \<leftarrow> timeouts_get T h;
     (case r of
        Some a \<Rightarrow> Some (Some a, T, h, it\<lparr>it_pc := Yield_get\<rparr>)
      | None \<Rightarrow> map_option (\<lambda>(r, it). (r, T, h, it)) (next_pending T it))
   }"

definition timeouts_next ::
    "timeouts \<Rightarrow> theap \<Rightarrow> timeouts_it \<Rightarrow> (addr option \<times> timeouts \<times> theap \<times> timeouts_it) option" where
  "timeouts_next T h it =
     (case it_pc it of
        At_start \<Rightarrow>
          if it_flags it AND TIMEOUTS_EXPIRED \<noteq> 0 then
            if it_flags it AND TIMEOUTS_CLEAR \<noteq> 0 then next_get T h it
            else map_option (\<lambda>(r, it). (r, T, h, it)) (next_expired T it (first (T_expired T)))
          else map_option (\<lambda>(r, it). (r, T, h, it)) (next_pending T it)
      | Yield_get \<Rightarrow> next_get T h it
      | Yield_expired \<Rightarrow> map_option (\<lambda>(r, it). (r, T, h, it)) (next_expired T it (it_to it))
      | Yield_wheel \<Rightarrow> map_option (\<lambda>(r, it). (r, T, h, it)) (next_wheel T it)
      | At_end \<Rightarrow> Some (None, T, h, it))"

section \<open>Timeout routines\<close>

definition timeout_init :: "32 word \<Rightarrow> timeout" where
  "timeout_init flags = \<lparr>to_flags = flags, to_expires = 0, to_pending = None, to_fn = None, to_arg = None,
     to_interval = 0, to_timeouts = False\<rparr>"

text \<open>The address of to->timeouts->expired when to->timeouts is NULL is undefined.\<close>

definition timeout_pending :: "timeout \<Rightarrow> bool option" where
  "timeout_pending t = (case to_pending t of
     None \<Rightarrow> Some False | Some p \<Rightarrow> if to_timeouts t then Some (p \<noteq> Expired) else None)"

definition timeout_expired :: "timeout \<Rightarrow> bool option" where
  "timeout_expired t = (case to_pending t of
     None \<Rightarrow> Some False | Some p \<Rightarrow> if to_timeouts t then Some (p = Expired) else None)"

definition timeout_del :: "timeouts \<Rightarrow> theap \<Rightarrow> addr \<Rightarrow> (timeouts \<times> theap) option" where
  "timeout_del T h a = do {
     t \<leftarrow> h a;
     (if to_pending t = None \<or> to_timeouts t then timeouts_del T h a else None)
   }"

section \<open>Version interfaces\<close>

definition TIMEOUT_V_REL :: "32 word" where "TIMEOUT_V_REL = 0x20160226"
definition TIMEOUT_V_ABI :: "32 word" where "TIMEOUT_V_ABI = 0x20160224"
definition TIMEOUT_V_API :: "32 word" where "TIMEOUT_V_API = 0x20160226"
definition TIMEOUT_VENDOR :: string where "TIMEOUT_VENDOR = ''william@25thandClement.com''"

definition timeout_version :: "32 word" where "timeout_version = TIMEOUT_V_REL"
definition timeout_vendor :: string where "timeout_vendor = TIMEOUT_VENDOR"
definition timeout_v_rel :: "32 word" where "timeout_v_rel = TIMEOUT_V_REL"
definition timeout_v_abi :: "32 word" where "timeout_v_abi = TIMEOUT_V_ABI"
definition timeout_v_api :: "32 word" where "timeout_v_api = TIMEOUT_V_API"

end
