(* ===== verification/Timeout_Wheel.thy ===== *)
theory Timeout_Wheel
  imports Timeout
begin

unbundle bit_operations_syntax

text \<open>
  The arithmetic of the timing wheel: which wheel and slot a timeout goes to, which slots a clock
  update visits, and why a timeout that is due is always in one of them.
\<close>

section \<open>Wheels and slots\<close>

definition digit :: "nat \<Rightarrow> u64 \<Rightarrow> nat" where
  "digit w e = unat e div 2 ^ (w * 6)"

lemma digit_mono: "c \<le> e \<Longrightarrow> digit w c \<le> digit w e"
  by (simp add: digit_def div_le_mono word_le_nat_alt)

lemma digit_less: "digit w c < digit w e \<Longrightarrow> c < e"
  using digit_mono [of e c w] by (meson not_le)

lemma digit_0 [simp]: "digit 0 e = unat e"
  by (simp add: digit_def)

lemma digit_Suc: "digit (Suc w) e = digit w e div 64"
proof -
  have "2 ^ (Suc w * 6) = 2 ^ (w * 6) * (64 :: nat)" by (simp add: power_add)
  then show ?thesis by (simp add: digit_def div_mult2_eq)
qed

lemma digit_above: "digit w c div 64 = digit w e div 64 \<Longrightarrow> w < w' \<Longrightarrow> digit w' c = digit w' e"
proof (induction w')
  case (Suc v)
  then show ?case by (cases "v = w") (auto simp: digit_Suc less_Suc_eq)
qed simp

lemma unat_low6: "unat (63 AND (x :: u64)) = unat x mod 64"
  using unat_and_mask [of x 6] by (simp add: mask_eq_exp_minus_1 and.commute)

lemma unat_drop_digit: "unat (drop_bit (w * 6) e) = digit w e"
  by (simp add: unat_drop_bit digit_def)

definition shift_of :: "nat \<Rightarrow> nat" where
  "shift_of w = (if w = 0 then 0 else 63)"

lemma timeout_slot_eq: "timeout_slot w e = (digit w e + shift_of w) mod 64"
proof (cases "w = 0")
  case False
  let ?x = "drop_bit (w * 6) e"
  have "unat (?x - 1) mod 64 = (unat ?x + 63) mod 64"
  proof (cases "?x = 0")
    case nz: False
    then have "unat (?x - 1) = unat ?x - 1" "0 < unat ?x" by (simp_all add: unat_minus_one unat_gt_0)
    then have "unat ?x + 63 = unat (?x - 1) + 64" by simp
    then show ?thesis by simp
  qed (simp add: unsigned_minus_1_eq_mask mask_eq_exp_minus_1)
  then show ?thesis using False by (simp add: timeout_slot_def unat_low6 unat_drop_digit shift_of_def)
qed (simp add: timeout_slot_def unat_low6 shift_of_def)

lemma timeout_slot_lt: "timeout_slot w e < 64"
  by (simp add: timeout_slot_eq)

text \<open>A timeout on wheel w when the clock is at c: its digit is still ahead, and it is in reach.\<close>

definition on_wheel :: "u64 \<Rightarrow> nat \<Rightarrow> u64 \<Rightarrow> bool" where
  "on_wheel c w e \<longleftrightarrow> digit w c < digit w e \<and> (w < 3 \<longrightarrow> unat e - unat c < 2 ^ (6 * Suc w))"

lemma on_wheel_less: "on_wheel c w e \<Longrightarrow> c < e"
  by (auto simp: on_wheel_def dest: digit_less)

lemma on_wheel_later:
  "on_wheel c w e \<Longrightarrow> c \<le> c' \<Longrightarrow> digit w c' < digit w e \<Longrightarrow> on_wheel c' w e"
  unfolding on_wheel_def by (auto simp: word_le_nat_alt)

lemma timeout_wheel_bounds:
  assumes "rem \<noteq> 0"
  shows "timeout_wheel rem < 4" "2 ^ (6 * timeout_wheel rem) \<le> unat rem"
    "timeout_wheel rem < 3 \<Longrightarrow> unat rem < 2 ^ (6 * Suc (timeout_wheel rem))"
proof -
  have mx: "unat TIMEOUT_MAX = 2 ^ 24 - 1" by (simp add: TIMEOUT_MAX_def)
  define x where "x = (if rem < TIMEOUT_MAX then rem else TIMEOUT_MAX)"
  have x: "unat x = min (unat rem) (2 ^ 24 - 1)" by (simp add: x_def mx word_less_nat_alt)
  have "unat rem \<noteq> 0" using assms by (simp add: unat_eq_0)
  then have "x \<noteq> 0" using x by auto
  note f = fls_bounds [OF this]
  define w where "w = (fls x - 1) div 6"
  have w: "timeout_wheel rem = w" by (simp add: timeout_wheel_def w_def x_def)
  have d: "6 * w \<le> fls x - 1" "fls x \<le> 6 * Suc w" by (simp_all add: w_def)
  have lo: "2 ^ (6 * w) \<le> unat x"
    using f(1) power_increasing [OF d(1), of "2 :: nat"] by linarith
  have hi: "unat x < 2 ^ (6 * Suc w)"
    using f(2) power_increasing [OF d(2), of "2 :: nat"] by linarith
  have "(2 :: nat) ^ (6 * w) < 2 ^ 24" using lo x by simp
  then have w4: "w < 4" by (simp only: power_strict_increasing_iff)
  show "timeout_wheel rem < 4" "2 ^ (6 * timeout_wheel rem) \<le> unat rem" using w4 lo x w by simp_all
  show "unat rem < 2 ^ (6 * Suc (timeout_wheel rem))" if "timeout_wheel rem < 3"
  proof -
    have "(2 :: nat) ^ (6 * Suc w) \<le> 2 ^ 18" using that w by (intro power_increasing) auto
    then show ?thesis using hi x w by (simp add: min_def split: if_splits)
  qed
qed

lemma on_wheel_placed:
  assumes "c < e" and "w = timeout_wheel (e - c)"
  shows "on_wheel c w e" and "w < 4"
proof -
  have r: "unat (e - c) = unat e - unat c" and "e - c \<noteq> 0" using assms(1) by (auto simp: unat_sub_if' word_less_nat_alt)
  note b = timeout_wheel_bounds [OF this(2), folded assms(2)]
  have "unat c + 2 ^ (w * 6) \<le> unat e" using b(2) assms(1) r by (simp add: mult.commute word_less_nat_alt)
  then have "(unat c + 2 ^ (w * 6)) div 2 ^ (w * 6) \<le> digit w e" unfolding digit_def by (rule div_le_mono)
  moreover have "(unat c + 2 ^ (w * 6)) div 2 ^ (w * 6) = Suc (digit w c)" unfolding digit_def by (subst div_add_self2) simp_all
  ultimately have "digit w c < digit w e" by simp
  then show "on_wheel c w e" using b(3) r by (simp add: on_wheel_def)
  show "w < 4" using b(1) .
qed

section \<open>The slots a clock update visits\<close>

lemma bit_ones: "e < 64 \<Longrightarrow> bit (2 ^ e - 1 :: u64) n \<longleftrightarrow> n < e"
  by (auto simp: bit_simps simp flip: mask_eq_exp_minus_1)

lemma mod_64_shift: "i < 64 \<Longrightarrow> ((c + i) mod 64 + (64 - c mod 64)) mod 64 = (i :: nat)"
proof -
  assume i: "i < 64"
  have "((c + i) mod 64 + (64 - c mod 64)) mod 64 = (c + i + (64 - c mod 64)) mod 64" by (simp only: mod_add_left_eq)
  also have "c + i + (64 - c mod 64) = i + (c - c mod 64) + 64" by (simp add: le_diff_conv2 mod_less_eq_dividend) 
  also have "c - c mod 64 = 64 * (c div 64)" by (simp add: minus_mod_eq_mult_div)
  also have "(i + 64 * (c div 64) + 64) mod 64 = i" using i by simp
  finally show ?thesis .
qed

lemma mask_bits:
  assumes "digit w elapsed = fl" "fl \<le> 63" and "C = digit w cur" "N = digit w new"
  shows "i < fl \<Longrightarrow> bit (expire_mask cur new elapsed w) ((C + i) mod 64)"
    and "0 < fl \<Longrightarrow> 0 < N \<Longrightarrow> bit (expire_mask cur new elapsed w) ((N - 1) mod 64)"
    and "bit (expire_mask cur new elapsed w) (N mod 64)"
proof -
  have d: "unat (drop_bit (w * 6) elapsed) = fl" using assms(1) by (simp add: unat_drop_digit)
  have n: "\<not> 63 < drop_bit (w * 6) elapsed" using d assms(2) by (simp add: word_less_nat_alt)
  have e: "unat (63 AND drop_bit (w * 6) elapsed) = fl" using d assms(2) by (simp add: unat_low6)
  have m: "expire_mask cur new elapsed w =
      rotl (push_bit fl 1 - 1) (C mod 64) OR rotr (rotl (push_bit fl 1 - 1) (N mod 64)) fl OR push_bit (N mod 64) 1"
    using n unfolding expire_mask_def Let_def if_not_P [OF n] e by (simp only: unat_low6 unat_drop_digit assms(3,4) or.assoc)
  have fl: "fl < 64" using assms(2) by simp
  show "bit (expire_mask cur new elapsed w) ((C + i) mod 64)" if "i < fl"
    using that fl mod_64_shift [of i C] by (simp add: m bit_or_iff bit_rotl bit_ones)
  show "bit (expire_mask cur new elapsed w) (N mod 64)"
    by (simp add: m bit_or_iff bit_exp_iff)
  show "bit (expire_mask cur new elapsed w) ((N - 1) mod 64)" if "0 < fl" "0 < N"
  proof -
    have "((N - 1) mod 64 + fl) mod 64 = (N + (fl - 1)) mod 64"
      using that by (simp add: mod_add_left_eq)
    then have "(((N - 1) mod 64 + fl) mod 64 + (64 - N mod 64)) mod 64 = fl - 1"
      using mod_64_shift [of "fl - 1" N] fl by simp
    then show ?thesis using that fl by (simp add: m bit_or_iff bit_rotr bit_rotl bit_ones)
  qed
qed

text \<open>Every digit the clock passes or reaches is visited.\<close>

lemma mask_covers:
  assumes "N \<le> C + digit w elapsed + 1" and "digit w elapsed = 0 \<Longrightarrow> N \<le> C"
    and "C = digit w cur" "N = digit w new" and "C \<le> m" "m \<le> N"
  shows "bit (expire_mask cur new elapsed w) (m mod 64)"
proof (cases "digit w elapsed \<le> 63")
  case True
  note b = mask_bits [OF refl True assms(3,4)]
  consider "m = N" | "m < N" "m = N - 1" | "m < N" "m < N - 1" using assms(6) by linarith
  then show ?thesis
  proof cases
    case 2
    then show ?thesis using b(2) assms(1,2,5) by (cases "digit w elapsed") auto
  next
    case 3
    then have "m - C < digit w elapsed" using assms(1,5) by linarith
    then show ?thesis using b(1) [of "m - C"] assms(5) by simp
  qed (use b(3) in simp)
next
  case False
  then have "63 < drop_bit (w * 6) elapsed" by (simp add: word_less_nat_alt unat_drop_digit)
  then show ?thesis by (simp add: expire_mask_def)
qed

text \<open>
  The elapsed time when the loop reaches wheel w, for a clock that does not go back: the exact
  difference at wheel 0, at least one full turn of the wheel below at the others.
\<close>

definition elapsed_ok :: "u64 \<Rightarrow> u64 \<Rightarrow> nat \<Rightarrow> u64 \<Rightarrow> bool" where
  "elapsed_ok cur new w E \<longleftrightarrow> cur \<le> new \<and> unat new - unat cur \<le> unat E \<and>
     (if w = 0 then unat E = unat new - unat cur else 2 ^ (w * 6) \<le> unat E)"

lemma elapsed_digits:
  assumes "elapsed_ok cur new w E"
  shows "digit w new \<le> digit w cur + digit w E + 1" and "digit w E = 0 \<Longrightarrow> digit w new \<le> digit w cur"
proof -
  let ?p = "2 ^ (w * 6) :: nat"
  have "unat new \<le> unat cur + unat E" using assms by (auto simp: elapsed_ok_def)
  then have "digit w new \<le> (unat cur + unat E) div ?p" unfolding digit_def by (rule div_le_mono)
  also have "\<dots> = digit w cur + digit w E + (unat cur mod ?p + unat E mod ?p) div ?p"
    unfolding digit_def by (rule div_add1_eq)
  also have "(unat cur mod ?p + unat E mod ?p) div ?p \<le> 1"
  proof -
    have "unat cur mod ?p < ?p" "unat E mod ?p < ?p" by simp_all
    then have "unat cur mod ?p + unat E mod ?p < 2 * ?p" by linarith
    then have "(unat cur mod ?p + unat E mod ?p) div ?p < 2" by (simp add: less_mult_imp_div_less)
    then show ?thesis by simp
  qed
  finally show "digit w new \<le> digit w cur + digit w E + 1" by simp
  show "digit w new \<le> digit w cur" if "digit w E = 0"
  proof (cases "w = 0")
    case True
    then show ?thesis using that assms by (simp add: elapsed_ok_def)
  next
    case False
    then show ?thesis using that assms by (simp add: elapsed_ok_def digit_def div_eq_0_iff)
  qed
qed

text \<open>A timeout whose digit the clock reaches is in a visited slot.\<close>

lemma mask_visits:
  assumes "elapsed_ok cur new w E" "digit w cur < digit w e" "digit w e \<le> digit w new"
  shows "bit (expire_mask cur new E w) (timeout_slot w e)"
proof -
  note m = mask_covers [OF elapsed_digits [OF assms(1)] refl refl]
  show ?thesis
  proof (cases "w = 0")
    case True
    then show ?thesis using m [of "digit w e"] assms(2,3) by (simp add: timeout_slot_eq shift_of_def)
  next
    case False
    have "digit w e + 63 = digit w e - 1 + 64" using assms(2) by linarith
    then have "(digit w e + 63) mod 64 = (digit w e - 1) mod 64" by (simp only: mod_add_self2)
    then show ?thesis using m [of "digit w e - 1"] assms(2,3) False by (simp add: timeout_slot_eq shift_of_def)
  qed
qed

text \<open>When the loop stops, no higher digit has changed.\<close>

lemma mask_stops:
  assumes "elapsed_ok cur new w E" "\<not> bit (expire_mask cur new E w) 0" "w < w'"
  shows "digit w' cur = digit w' new"
proof -
  note m = mask_covers [OF elapsed_digits [OF assms(1)] refl refl]
  have le: "digit w cur \<le> digit w new" using assms(1) by (simp add: elapsed_ok_def digit_mono)
  have "digit w cur div 64 = digit w new div 64"
  proof (rule ccontr)
    assume "digit w cur div 64 \<noteq> digit w new div 64"
    then have lt: "digit w cur div 64 < digit w new div 64" using div_le_mono [OF le, of 64] by linarith
    have "digit w cur \<le> 64 * (digit w new div 64)" "64 * (digit w new div 64) \<le> digit w new" using lt by linarith+
    then show False using m [of "64 * (digit w new div 64)"] assms(2) by simp
  qed
  then show ?thesis using assms(3) by (rule digit_above)
qed

lemma elapsed_next:
  assumes "elapsed_ok cur new w E" "w < 3"
  shows "elapsed_ok cur new (Suc w) (if push_bit (w * 6) 64 < E then E else push_bit (w * 6) 64)"
proof -
  have "unat (push_bit (w * 6) 64 :: u64) = 2 ^ (Suc w * 6)"
  proof -
    have "w = 0 \<or> w = 1 \<or> w = 2" using assms(2) by auto
    then show ?thesis by (elim disjE) simp_all
  qed
  then show ?thesis using assms(1) by (auto simp: elapsed_ok_def word_less_nat_alt)
qed

end
