(* ===== verification/Timeout_Correct.thy ===== *)
theory Timeout_Correct
  imports Timeout_Wheel
begin

unbundle bit_operations_syntax

text \<open>
  The invariant of the timing wheel and what every operation does to it. \<open>tw_part T h S\<close> holds in
  the middle of an operation, when the timeouts of S are on no queue and may carry a stale
  to->pending; \<open>tw_ok\<close> is the invariant between operations.
\<close>

declare push_bit_of_1 [simp del]

section \<open>The invariant\<close>

fun valid :: "place \<Rightarrow> bool" where
  "valid (Slot k) \<longleftrightarrow> k < 256"
| "valid Expired \<longleftrightarrow> True"

fun fits :: "u64 \<Rightarrow> place \<Rightarrow> u64 \<Rightarrow> bool" where
  "fits c (Slot k) e \<longleftrightarrow> k mod 64 = timeout_slot (k div 64) e \<and> on_wheel c (k div 64) e"
| "fits c Expired e \<longleftrightarrow> True"

definition bitmap_ok :: "timeouts \<Rightarrow> bool" where
  "bitmap_ok T \<longleftrightarrow> (\<forall>w < 4. \<forall>s < 64. bit (T_pending T w) s \<longleftrightarrow> T_wheel T (64 * w + s) \<noteq> [])"

definition tw_part :: "timeouts \<Rightarrow> theap \<Rightarrow> addr set \<Rightarrow> bool" where
  "tw_part T h S \<longleftrightarrow> bitmap_ok T \<and> S \<subseteq> dom h \<and>
     (\<forall>p. valid p \<longrightarrow> distinct (queue_of T p) \<and>
        (\<forall>a. a \<in> set (queue_of T p) \<longleftrightarrow> a \<notin> S \<and> (\<exists>t. h a = Some t \<and> to_pending t = Some p))) \<and>
     (\<forall>a t p. h a = Some t \<longrightarrow> a \<notin> S \<longrightarrow> to_pending t = Some p \<longrightarrow>
        valid p \<and> to_timeouts t \<and> fits (T_curtime T) p (to_expires t))"

abbreviation tw_ok :: "timeouts \<Rightarrow> theap \<Rightarrow> bool" where
  "tw_ok T h \<equiv> tw_part T h {}"

lemma queue_of_simps [simp]: "queue_of T (Slot k) = T_wheel T k" "queue_of T Expired = T_expired T"
  by (simp_all add: queue_of_def)

lemma queue_set [simp]: "queue_of (set_queue T p xs) q = (if q = p then xs else queue_of T q)"
  by (cases p; cases q) auto

lemma set_queue_same [simp]:
  "T_curtime (set_queue T p xs) = T_curtime T" "T_hertz (set_queue T p xs) = T_hertz T"
  "T_pending (set_queue T p xs) = T_pending T"
  by (cases p; simp)+

lemma queue_of_pending [simp]: "queue_of (T\<lparr>T_pending := P\<rparr>) q = queue_of T q" "queue_of (T\<lparr>T_curtime := c\<rparr>) q = queue_of T q"
  by (cases q; simp)+

lemma part_member:
  "tw_part T h S \<Longrightarrow> valid p \<Longrightarrow> a \<in> set (queue_of T p) \<longleftrightarrow> a \<notin> S \<and> (\<exists>t. h a = Some t \<and> to_pending t = Some p)"
  unfolding tw_part_def by blast

lemma part_distinct: "tw_part T h S \<Longrightarrow> valid p \<Longrightarrow> distinct (queue_of T p)"
  unfolding tw_part_def by blast

lemma part_place:
  "tw_part T h S \<Longrightarrow> h a = Some t \<Longrightarrow> a \<notin> S \<Longrightarrow> to_pending t = Some p \<Longrightarrow>
     valid p \<and> to_timeouts t \<and> fits (T_curtime T) p (to_expires t) \<and> a \<in> set (queue_of T p)"
  unfolding tw_part_def by blast

lemma part_bitmap: "tw_part T h S \<Longrightarrow> bitmap_ok T"
  unfolding tw_part_def by blast

lemma part_loose: "tw_part T h S \<Longrightarrow> S \<subseteq> dom h"
  unfolding tw_part_def by blast

lemma partI:
  assumes "bitmap_ok T" "S \<subseteq> dom h"
    and "\<And>p. valid p \<Longrightarrow> distinct (queue_of T p)"
    and "\<And>p a. valid p \<Longrightarrow> a \<in> set (queue_of T p) \<longleftrightarrow> a \<notin> S \<and> (\<exists>t. h a = Some t \<and> to_pending t = Some p)"
    and "\<And>a t p. h a = Some t \<Longrightarrow> a \<notin> S \<Longrightarrow> to_pending t = Some p \<Longrightarrow>
      valid p \<and> to_timeouts t \<and> fits (T_curtime T) p (to_expires t)"
  shows "tw_part T h S"
  unfolding tw_part_def using assms by blast

text \<open>A timeout that is on no queue may change, and leave the loose set, as long as it stays off.\<close>

lemma part_free:
  assumes "tw_part T h S" "a \<in> S \<or> (\<exists>t. h a = Some t \<and> to_pending t = None)" "to_pending t' = None"
  shows "tw_part T (h(a \<mapsto> t')) (S - {a})"
proof (rule partI)
  show "S - {a} \<subseteq> dom (h(a \<mapsto> t'))" using part_loose [OF assms(1)] by auto
  show "b \<in> set (queue_of T p) \<longleftrightarrow> b \<notin> S - {a} \<and> (\<exists>t. (h(a \<mapsto> t')) b = Some t \<and> to_pending t = Some p)"
    if "valid p" for p b
    using part_member [OF assms(1) that, of b] assms(2,3) by auto
  show "valid p \<and> to_timeouts t \<and> fits (T_curtime T) p (to_expires t)"
    if "(h(a \<mapsto> t')) b = Some t" "b \<notin> S - {a}" "to_pending t = Some p" for b t p
    using part_place [OF assms(1), of b t p] that assms(3) by (auto split: if_splits)
qed (use part_bitmap [OF assms(1)] part_distinct [OF assms(1)] in auto)

section \<open>Removing a timeout\<close>

definition taken :: "timeout \<Rightarrow> timeout" where
  "taken t = (if to_pending t = None then t else t\<lparr>to_pending := None, to_timeouts := False\<rparr>)"

lemma taken_simps [simp]:
  "to_pending (taken t) = None" "to_expires (taken t) = to_expires t" "to_flags (taken t) = to_flags t"
  "to_interval (taken t) = to_interval t" "to_fn (taken t) = to_fn t" "to_arg (taken t) = to_arg t"
  by (simp_all add: taken_def)

lemma bit_clear: "bit (q AND NOT (push_bit s 1) :: u64) n \<longleftrightarrow> bit q n \<and> n \<noteq> s"
  by (auto simp: bit_simps dest: bit_imp_le_length)

lemma bit_set_one: "n < 64 \<Longrightarrow> bit (q OR push_bit s 1 :: u64) n \<longleftrightarrow> bit q n \<or> n = s"
  by (auto simp: bit_simps)

lemma slot_eq_iff: "s < 64 \<Longrightarrow> 64 * w + s = k \<longleftrightarrow> w = k div 64 \<and> s = k mod (64 :: nat)"
  by auto

lemma bitmap_clear:
  assumes "bitmap_ok T" "T_wheel T' k = []" "\<And>j. j \<noteq> k \<Longrightarrow> T_wheel T' j = T_wheel T j"
    and "T_pending T' = (T_pending T)(k div 64 := T_pending T (k div 64) AND NOT (push_bit (k mod 64) 1))"
  shows "bitmap_ok T'"
  unfolding bitmap_ok_def
proof (intro allI impI)
  fix w s :: nat assume w: "w < 4" "s < 64"
  show "bit (T_pending T' w) s \<longleftrightarrow> T_wheel T' (64 * w + s) \<noteq> []"
  proof (cases "64 * w + s = k")
    case True
    then have "w = k div 64" "s = k mod 64" using w slot_eq_iff by auto
    then show ?thesis using assms(2,4) True by (simp add: bit_clear)
  next
    case False
    then have "w \<noteq> k div 64 \<or> s \<noteq> k mod 64" using w slot_eq_iff by blast
    then show ?thesis using assms(1,3,4) False w by (auto simp: bit_clear bitmap_ok_def)
  qed
qed

lemma bitmap_set:
  assumes "bitmap_ok T" "T_wheel T' k \<noteq> []" "\<And>j. j \<noteq> k \<Longrightarrow> T_wheel T' j = T_wheel T j"
    and "T_pending T' = (T_pending T)(k div 64 := T_pending T (k div 64) OR push_bit (k mod 64) 1)"
  shows "bitmap_ok T'"
  unfolding bitmap_ok_def
proof (intro allI impI)
  fix w s :: nat assume w: "w < 4" "s < 64"
  show "bit (T_pending T' w) s \<longleftrightarrow> T_wheel T' (64 * w + s) \<noteq> []"
  proof (cases "64 * w + s = k")
    case True
    then have "w = k div 64" "s = k mod 64" using w slot_eq_iff by auto
    then show ?thesis using assms(2,4) True by (simp add: bit_set_one)
  next
    case False
    then have "w \<noteq> k div 64 \<or> s \<noteq> k mod 64" using w slot_eq_iff by blast
    then show ?thesis using assms(1,3,4) False w by (auto simp: bit_set_one bitmap_ok_def)
  qed
qed

lemma bitmap_same:
  assumes "bitmap_ok T" "\<And>k. T_wheel T' k = [] \<longleftrightarrow> T_wheel T k = []" "T_pending T' = T_pending T"
  shows "bitmap_ok T'"
  using assms by (simp add: bitmap_ok_def)

definition drop_from :: "addr \<Rightarrow> timeouts \<Rightarrow> timeouts \<Rightarrow> bool" where
  "drop_from a T T' \<longleftrightarrow> T_curtime T' = T_curtime T \<and> T_hertz T' = T_hertz T \<and>
     (\<forall>p. valid p \<longrightarrow> queue_of T' p = filter (\<lambda>x. x \<noteq> a) (queue_of T p))"

lemma drop_from_self: "(\<And>p. valid p \<Longrightarrow> a \<notin> set (queue_of T p)) \<Longrightarrow> drop_from a T T"
  by (auto simp: drop_from_def intro!: filter_True [symmetric])

lemma del_spec:
  assumes "tw_part T h S" "h a = Some t" "a \<notin> S"
  shows "\<exists>T'. timeouts_del T h a = Some (T', h(a \<mapsto> taken t)) \<and> tw_part T' (h(a \<mapsto> taken t)) S \<and> drop_from a T T'"
proof (cases "to_pending t")
  case None
  then have "h(a \<mapsto> taken t) = h" using assms(2) by (auto simp: taken_def)
  moreover have "drop_from a T T"
    using None assms(2) part_member [OF assms(1)] by (intro drop_from_self) auto
  ultimately show ?thesis using None assms by (auto simp: timeouts_del_def)
next
  case (Some p)
  note pl = part_place [OF assms(1,2,3) Some]
  let ?xs = "filter (\<lambda>x. x \<noteq> a) (queue_of T p)"
  let ?T = "set_queue T p ?xs"
  have rm: "tailq_remove T p a = Some ?T"
    using pl distinct_remove1_removeAll [OF part_distinct [OF assms(1)], of p a]
    by (simp add: tailq_remove_def removeAll_filter_not_eq eq_commute cong: filter_cong)
  let ?T' = "case p of Expired \<Rightarrow> ?T | Slot k \<Rightarrow>
      if T_wheel ?T k = [] then ?T\<lparr>T_pending := (T_pending ?T)(k div 64 := T_pending ?T (k div 64) AND NOT (push_bit (k mod 64) 1))\<rparr> else ?T"
  have q: "queue_of ?T' r = (if r = p then ?xs else queue_of T r)" for r
    by (cases p; cases r) auto
  have other: "a \<notin> set (queue_of T r)" if "valid r" "r \<noteq> p" for r
    using part_member [OF assms(1) that(1), of a] assms(2) Some that(2) by auto
  have bm: "bitmap_ok ?T'"
  proof (cases p)
    case (Slot k)
    show ?thesis
    proof (cases "?xs = []")
      case True
      then show ?thesis using Slot by (auto intro: bitmap_clear [OF part_bitmap [OF assms(1)], of _ k])
    next
      case False
      then have "T_wheel T k \<noteq> []" using Slot by auto
      then have "bitmap_ok ?T" using Slot False by (intro bitmap_same [OF part_bitmap [OF assms(1)]]) auto
      then show ?thesis using Slot False by simp
    qed
  qed (auto intro: bitmap_same [OF part_bitmap [OF assms(1)]])
  have "tw_part ?T' (h(a \<mapsto> taken t)) S"
  proof (rule partI)
    show "S \<subseteq> dom (h(a \<mapsto> taken t))" using part_loose [OF assms(1)] by auto
    show "distinct (queue_of ?T' r)" if "valid r" for r
      using part_distinct [OF assms(1) that] by (cases "r = p") (simp_all add: q)
    show "b \<in> set (queue_of ?T' r) \<longleftrightarrow> b \<notin> S \<and> (\<exists>t'. (h(a \<mapsto> taken t)) b = Some t' \<and> to_pending t' = Some r)"
      if "valid r" for r b
      using part_member [OF assms(1) that, of b] other [OF that] unfolding q by auto
    show "valid r \<and> to_timeouts t' \<and> fits (T_curtime ?T') r (to_expires t')"
      if "(h(a \<mapsto> taken t)) b = Some t'" "b \<notin> S" "to_pending t' = Some r" for b t' r
      using part_place [OF assms(1), of b t' r] that by (auto split: if_splits place.splits)
  qed (rule bm)
  moreover have "drop_from a T ?T'"
    using other by (auto simp: drop_from_def q split: place.splits intro!: filter_True [symmetric])
  moreover have "timeouts_del T h a = Some (?T', h(a \<mapsto> taken t))"
    using assms(2) Some rm by (simp add: timeouts_del_def Let_def taken_def split: place.splits)
  ultimately show ?thesis by blast
qed

section \<open>Scheduling a timeout\<close>

definition place_for :: "u64 \<Rightarrow> u64 \<Rightarrow> place" where
  "place_for c e =
     (if c < e then let w = timeout_wheel (e - c) in Slot (64 * w + timeout_slot w e) else Expired)"

definition placed_at :: "u64 \<Rightarrow> u64 \<Rightarrow> timeout \<Rightarrow> timeout" where
  "placed_at c e t = t\<lparr>to_expires := e, to_pending := Some (place_for c e), to_timeouts := True\<rparr>"

lemma placed_simps [simp]:
  "to_pending (placed_at c e t) = Some (place_for c e)" "to_expires (placed_at c e t) = e"
  "to_timeouts (placed_at c e t)" "to_flags (placed_at c e t) = to_flags t"
  "to_interval (placed_at c e t) = to_interval t" "to_fn (placed_at c e t) = to_fn t" "to_arg (placed_at c e t) = to_arg t"
  by (simp_all add: placed_at_def)

lemma placed_taken [simp]: "placed_at c e (taken t) = placed_at c e t"
  by (simp add: placed_at_def taken_def)

lemma taken_placed:
  "(taken t)\<lparr>to_expires := e, to_timeouts := True, to_pending := Some (place_for c e)\<rparr> = placed_at c e t"
  by (cases t) (simp add: taken_def placed_at_def)

lemma place_for_expired [simp]: "place_for c e = Expired \<longleftrightarrow> \<not> c < e"
  by (simp add: place_for_def Let_def)

lemma place_fits: "valid (place_for c e)" "fits c (place_for c e) e"
proof -
  have "valid (place_for c e) \<and> fits c (place_for c e) e"
  proof (cases "c < e")
    case True
    let ?w = "timeout_wheel (e - c)"
    have "timeout_slot ?w e < 64" "?w < 4" "on_wheel c ?w e"
      using timeout_slot_lt on_wheel_placed [OF True refl] by auto
    then show ?thesis using True by (simp add: place_for_def Let_def)
  qed (simp add: place_for_def)
  then show "valid (place_for c e)" "fits c (place_for c e) e" by auto
qed

definition put_on :: "addr \<Rightarrow> place \<Rightarrow> timeouts \<Rightarrow> timeouts \<Rightarrow> bool" where
  "put_on a p T T' \<longleftrightarrow> T_curtime T' = T_curtime T \<and> T_hertz T' = T_hertz T \<and>
     (\<forall>q. valid q \<longrightarrow> queue_of T' q = filter (\<lambda>x. x \<noteq> a) (queue_of T q) @ (if q = p then [a] else []))"

fun set_marked :: "timeouts \<Rightarrow> place \<Rightarrow> addr list \<Rightarrow> timeouts" where
  "set_marked T Expired xs = T\<lparr>T_expired := xs\<rparr>"
| "set_marked T (Slot k) xs = T\<lparr>T_wheel := (T_wheel T)(k := xs),
     T_pending := (T_pending T)(k div 64 := T_pending T (k div 64) OR push_bit (k mod 64) 1)\<rparr>"

lemma queue_marked: "queue_of (set_marked T p xs) r = (if r = p then xs else queue_of T r)"
  by (cases p; cases r) auto

lemma marked_same [simp]:
  "T_curtime (set_marked T p xs) = T_curtime T" "T_hertz (set_marked T p xs) = T_hertz T"
  by (cases p; simp)+

lemma bitmap_marked:
  assumes "bitmap_ok T" "xs \<noteq> []"
  shows "bitmap_ok (set_marked T p xs)"
proof (cases p)
  case (Slot k)
  show ?thesis unfolding Slot by (rule bitmap_set [of T _ k]) (simp_all add: assms)
next
  case Expired
  show ?thesis unfolding Expired by (rule bitmap_same [OF assms(1)]) simp_all
qed

lemma put_on_expired:
  "put_on a (place_for c e) T T' \<Longrightarrow> T_expired T' = filter (\<lambda>x. x \<noteq> a) (T_expired T) @ (if e \<le> c then [a] else [])"
proof -
  assume "put_on a (place_for c e) T T'"
  then have "queue_of T' Expired = filter (\<lambda>x. x \<noteq> a) (queue_of T Expired) @ (if Expired = place_for c e then [a] else [])"
    unfolding put_on_def by (metis valid.simps(2))
  then show ?thesis by (auto simp: not_less eq_commute [of Expired])
qed

lemma put_on_same: "put_on a p T T' \<Longrightarrow> T_curtime T' = T_curtime T \<and> T_hertz T' = T_hertz T"
  by (simp add: put_on_def)

lemma sched_spec:
  assumes "tw_part T h S" "h a = Some t" "a \<notin> S"
  shows "\<exists>T'. timeouts_sched T h a e = Some (T', h(a \<mapsto> placed_at (T_curtime T) e t)) \<and>
           tw_part T' (h(a \<mapsto> placed_at (T_curtime T) e t)) S \<and> put_on a (place_for (T_curtime T) e) T T'"
proof -
  let ?c = "T_curtime T" and ?p = "place_for (T_curtime T) e" and ?h = "h(a \<mapsto> placed_at (T_curtime T) e t)"
  obtain T1 where T1: "timeouts_del T h a = Some (T1, h(a \<mapsto> taken t))" "tw_part T1 (h(a \<mapsto> taken t)) S"
      "drop_from a T T1"
    using del_spec [OF assms] by blast
  then have c: "T_curtime T1 = ?c" "T_hertz T1 = T_hertz T" by (simp_all add: drop_from_def)
  let ?q = "queue_of T1 ?p @ [a]"
  define T' where "T' = set_marked T1 ?p ?q"
  note q = queue_marked [of T1 ?p ?q, folded T'_def]
  have c': "T_curtime T' = ?c" "T_hertz T' = T_hertz T" using c by (simp_all add: T'_def)
  have run: "timeouts_sched T h a e = Some (T', ?h)"
  proof (cases "?c < e")
    case True
    let ?w = "timeout_wheel (e - ?c)"
    have "?w < 4" "timeout_slot ?w e < 64" using on_wheel_placed [OF True refl] timeout_slot_lt by auto
    then show ?thesis using True T1(1) c
      by (simp add: timeouts_sched_def Let_def timeout_rem_def slot_index_def T'_def place_for_def flip: taken_placed)
  next
    case False
    then show ?thesis using T1(1) c
      by (simp add: timeouts_sched_def Let_def T'_def place_for_def flip: taken_placed)
  qed
  have bm: "bitmap_ok T'" unfolding T'_def by (rule bitmap_marked [OF part_bitmap [OF T1(2)]]) simp
  have off: "a \<notin> set (queue_of T1 r)" if "valid r" for r
    using part_member [OF T1(2) that, of a] by simp
  have "tw_part T' ?h S"
  proof (rule partI)
    show "S \<subseteq> dom ?h" using part_loose [OF assms(1)] by auto
    show "distinct (queue_of T' r)" if "valid r" for r
      using part_distinct [OF T1(2) that] off [OF that] by (auto simp: q)
    show "b \<in> set (queue_of T' r) \<longleftrightarrow> b \<notin> S \<and> (\<exists>t'. ?h b = Some t' \<and> to_pending t' = Some r)"
      if "valid r" for r b
      using part_member [OF T1(2) that, of b] off [OF that] assms(3) unfolding q by auto
    show "valid r \<and> to_timeouts t' \<and> fits (T_curtime T') r (to_expires t')"
      if "?h b = Some t'" "b \<notin> S" "to_pending t' = Some r" for b t' r
      using part_place [OF T1(2), of b t' r] that c c' place_fits by (auto split: if_splits)
  qed (rule bm)
  moreover have "put_on a ?p T T'"
    using T1(3) c' unfolding put_on_def drop_from_def q by auto
  ultimately show ?thesis using run by blast
qed

section \<open>Collecting the slots of a wheel\<close>

definition emptied :: "timeouts \<Rightarrow> nat set \<Rightarrow> (nat \<Rightarrow> u64) \<Rightarrow> timeouts" where
  "emptied T K P = T\<lparr>T_wheel := (\<lambda>k. if k \<in> K then [] else T_wheel T k), T_pending := P\<rparr>"

lemma emptied_simps [simp]:
  "T_wheel (emptied T K P) k = (if k \<in> K then [] else T_wheel T k)" "T_pending (emptied T K P) = P"
  "T_expired (emptied T K P) = T_expired T" "T_curtime (emptied T K P) = T_curtime T"
  "T_hertz (emptied T K P) = T_hertz T"
  "emptied (emptied T K P) K' P' = emptied T (K \<union> K') P'"
  by (cases T; auto simp: emptied_def fun_eq_iff)+

lemma one_and_zero: "(0x1 :: u64) AND m = 0 \<longleftrightarrow> \<not> bit m 0"
  using and_exp_zero [of m 0] by (simp add: and.commute)

definition hits :: "nat \<Rightarrow> u64 \<Rightarrow> timeouts \<Rightarrow> nat set" where
  "hits w p T = {k. k div 64 = w \<and> bit p (k mod 64) \<and> bit (T_pending T w) (k mod 64)}"

lemma finite_hits: "finite (hits w p T)"
proof -
  have "hits w p T \<subseteq> {64 * w..<64 * Suc w}" by (auto simp: hits_def)
  then show ?thesis by (rule finite_subset) simp
qed

lemma concat_map_other: "k \<notin> set ks \<Longrightarrow> concat (map (\<lambda>j. if j = k then [] else f j) ks) = concat (map f ks)"
  by (induction ks) auto

lemma collect_slots_spec:
  "w < 4 \<Longrightarrow> \<exists>ks. distinct ks \<and> set ks = hits w p T \<and>
     collect_slots w p T todo = Some (emptied T (hits w p T) ((T_pending T)(w := T_pending T w AND NOT p)),
       todo @ concat (map (T_wheel T) ks))"
proof (induction "card (hits w p T)" arbitrary: T todo rule: less_induct)
  case less
  let ?x = "p AND T_pending T w"
  show ?case
  proof (cases "?x = 0")
    case True
    have "\<not> (bit p n \<and> bit (T_pending T w) n)" for n using arg_cong [OF True, of "\<lambda>x. bit x n"] by (simp add: bit_and_iff)
    then have e: "hits w p T = {}" and q: "T_pending T w AND NOT p = T_pending T w"
      by (auto simp: hits_def bit_simps dest: bit_imp_le_length intro!: bit_word_eqI)
    have "collect_slots w p T todo = Some (T, todo)" using True by (subst collect_slots.simps) simp
    then show ?thesis by (intro exI [of _ "[]"]) (simp add: e q emptied_def)
  next
    case False
    define s where "s = ctz64 ?x"
    have s: "s < 64" "bit p s" "bit (T_pending T w) s"
      using ctz64_bit [OF False] by (auto simp: s_def is_ctz_def bit_and_iff)
    let ?k = "64 * w + s"
    define T1 where "T1 = emptied T {?k} ((T_pending T)(w := T_pending T w AND NOT (push_bit s 1)))"
    have T1: "T1 = T\<lparr>T_wheel := (T_wheel T)(?k := []), T_pending := (T_pending T)(w := T_pending T w AND NOT (push_bit s 1))\<rparr>"
      by (simp add: T1_def emptied_def fun_upd_def)
    have k: "?k \<in> hits w p T" using s by (simp add: hits_def)
    have e: "j = ?k \<longleftrightarrow> w = j div 64 \<and> s = j mod 64" for j using slot_eq_iff [OF s(1), of w j] by auto
    have h1: "hits w p T1 = hits w p T - {?k}" unfolding set_eq_iff Diff_iff singleton_iff e by (auto simp: hits_def T1_def bit_clear)
    have "card (hits w p T1) < card (hits w p T)" unfolding h1 by (rule card_Diff1_less [OF finite_hits k])
    from less.hyps [OF this less.prems, of "todo @ T_wheel T ?k"] obtain ks where
      ks: "distinct ks" "set ks = hits w p T - {?k}"
        "collect_slots w p T1 (todo @ T_wheel T ?k) =
          Some (emptied T1 (hits w p T - {?k}) ((T_pending T1)(w := T_pending T1 w AND NOT p)),
            (todo @ T_wheel T ?k) @ concat (map (T_wheel T1) ks))" unfolding h1 by blast
    have q: "(T_pending T w AND NOT (push_bit s 1)) AND NOT p = T_pending T w AND NOT p"
      using s(2) by (auto simp: bit_simps intro!: bit_word_eqI)
    have c: "concat (map (T_wheel T1) ks) = concat (map (T_wheel T) ks)"
      using concat_map_other [of ?k ks "T_wheel T"] ks(2) by (simp add: T1_def emptied_def)
    have "collect_slots w p T todo = collect_slots w p T1 (todo @ T_wheel T ?k)"
      using False less.prems s(1) by (subst collect_slots.simps) (simp add: slot_index_def Let_def flip: s_def T1)
    also have "\<dots> = Some (emptied T (hits w p T) ((T_pending T)(w := T_pending T w AND NOT p)),
        todo @ concat (map (T_wheel T) (?k # ks)))"
      unfolding ks(3) c using k q by (simp add: T1_def insert_absorb)
    finally show ?thesis using ks(1,2) k by (intro exI [of _ "?k # ks"]) auto
  qed
qed

section \<open>The slots of all wheels\<close>

text \<open>
  \<open>need w s\<close>: slot s of wheel w must be visited. The loop over the wheels visits every slot that is
  needed, provided the mask of every wheel it reaches contains the needed slots and nothing is needed
  beyond the wheel it stops at; \<open>good\<close> is what the loop maintains of the elapsed time.
\<close>

lemma update_wheels_spec:
  assumes visit: "\<And>w s E. good w E \<Longrightarrow> w < 4 \<Longrightarrow> s < 64 \<Longrightarrow> need w s \<Longrightarrow> bit (expire_mask (T_curtime T) new E w) s"
    and continue: "\<And>w E. good w E \<Longrightarrow> w < 3 \<Longrightarrow> good (Suc w) (if push_bit (w * 6) 64 < E then E else push_bit (w * 6) 64)"
    and stop: "\<And>w w' s E. good w E \<Longrightarrow> \<not> bit (expire_mask (T_curtime T) new E w) 0 \<Longrightarrow> w < w' \<Longrightarrow> w' < 4 \<Longrightarrow> s < 64 \<Longrightarrow> \<not> need w' s"
    and bm: "bitmap_ok T"
  shows "w < 4 \<Longrightarrow> good w E \<Longrightarrow>
     \<exists>ks P. distinct ks \<and> set ks \<subseteq> {64 * w..<256} \<and>
       update_wheels [w..<4] new E T todo = Some (emptied T (set ks) P, todo @ concat (map (T_wheel T) ks)) \<and>
       bitmap_ok (emptied T (set ks) P) \<and>
       (\<forall>w' s. w \<le> w' \<longrightarrow> w' < 4 \<longrightarrow> s < 64 \<longrightarrow> need w' s \<longrightarrow> T_wheel T (64 * w' + s) \<noteq> [] \<longrightarrow> 64 * w' + s \<in> set ks)"
  using assms
proof (induction "4 - w" arbitrary: w E T todo)
  case (Suc n)
  let ?m = "expire_mask (T_curtime T) new E w"
  let ?T = "emptied T (hits w ?m T) ((T_pending T)(w := T_pending T w AND NOT ?m))"
  let ?E = "if push_bit (w * 6) 64 < E then E else push_bit (w * 6) 64"
  obtain ks where ks: "distinct ks" "set ks = hits w ?m T"
      "collect_slots w ?m T todo = Some (?T, todo @ concat (map (T_wheel T) ks))"
    using collect_slots_spec [OF Suc.prems(1)] by blast
  have range: "hits w ?m T \<subseteq> {64 * w..<64 * Suc w}" by (auto simp: hits_def)
  have r4: "64 * Suc w \<le> 256" using Suc.prems(1) by simp
  have bm: "bitmap_ok ?T"
    unfolding bitmap_ok_def
  proof (intro allI impI)
    fix v s :: nat assume "v < 4" "s < 64"
    then show "bit (T_pending ?T v) s \<longleftrightarrow> T_wheel ?T (64 * v + s) \<noteq> []"
      using Suc.prems(6) by (auto simp: bitmap_ok_def hits_def bit_simps)
  qed
  have here: "64 * w + s \<in> hits w ?m T" if "s < 64" "need w s" "T_wheel T (64 * w + s) \<noteq> []" for s
    using Suc.prems(1,6) Suc.prems(3) [OF Suc.prems(2,1) that(1,2)] that by (auto simp: hits_def bitmap_ok_def)
  have w4: "[w..<4] = w # [Suc w..<4]" using Suc.prems(1) by (rule upt_conv_Cons)
  show ?case
  proof (cases "bit ?m 0 \<and> Suc w < 4")
    case False
    have "update_wheels [w..<4] new E T todo = Some (?T, todo @ concat (map (T_wheel T) ks))"
    proof (cases "bit ?m 0")
      case True
      then have "[Suc w..<4] = []" using False by simp
      then show ?thesis using ks(3) by (simp add: w4 Let_def)
    next
      case nb: False
      then have "0x1 AND ?m = 0" using one_and_zero by blast
      then show ?thesis using ks(3) by (simp add: w4 Let_def)
    qed
    moreover have "\<not> need w' s" if "w < w'" "w' < 4" "s < 64" for w' s
      using Suc.prems(5) [OF Suc.prems(2) _ that] False that by auto
    ultimately show ?thesis
      using ks(1,2) range r4 bm here
      by (intro exI [of _ ks] exI [of _ "(T_pending T)(w := T_pending T w AND NOT ?m)"]) (auto simp: le_eq_less_or_eq)
  next
    case True
    have "\<not> 0x1 AND ?m = 0" using True one_and_zero by blast
    then have step: "update_wheels [w..<4] new E T todo = update_wheels [Suc w..<4] new ?E ?T (todo @ concat (map (T_wheel T) ks))"
      using ks(3) by (simp add: w4 Let_def)
    have "\<exists>js P. distinct js \<and> set js \<subseteq> {64 * Suc w..<256} \<and>
       update_wheels [Suc w..<4] new ?E ?T (todo @ concat (map (T_wheel T) ks)) =
         Some (emptied ?T (set js) P, (todo @ concat (map (T_wheel T) ks)) @ concat (map (T_wheel ?T) js)) \<and>
       bitmap_ok (emptied ?T (set js) P) \<and>
       (\<forall>w' s. Suc w \<le> w' \<longrightarrow> w' < 4 \<longrightarrow> s < 64 \<longrightarrow> need w' s \<longrightarrow> T_wheel ?T (64 * w' + s) \<noteq> [] \<longrightarrow> 64 * w' + s \<in> set js)"
    proof (rule Suc.hyps(1))
      show "n = 4 - Suc w" using Suc.hyps(2) by simp
      show "Suc w < 4" using True by blast
      show "good (Suc w) ?E" using Suc.prems(2) True by (intro Suc.prems(4)) simp_all
      show "bit (expire_mask (T_curtime ?T) new F v) s" if "good v F" "v < 4" "s < 64" "need v s" for v s F
        unfolding emptied_simps using that by (rule Suc.prems(3))
      show "good (Suc v) (if push_bit (v * 6) 64 < F then F else push_bit (v * 6) 64)" if "good v F" "v < 3" for v F
        using that by (rule Suc.prems(4))
      show "\<not> need v' s"
        if "good v F" "\<not> bit (expire_mask (T_curtime ?T) new F v) 0" "v < v'" "v' < 4" "s < 64" for v v' s F
        using that(1) that(2) [unfolded emptied_simps] that(3-5) by (rule Suc.prems(5))
    qed (rule bm)
    then obtain js P where js: "distinct js" "set js \<subseteq> {64 * Suc w..<256}"
        "update_wheels [Suc w..<4] new ?E ?T (todo @ concat (map (T_wheel T) ks)) =
           Some (emptied ?T (set js) P, (todo @ concat (map (T_wheel T) ks)) @ concat (map (T_wheel ?T) js))"
        "bitmap_ok (emptied ?T (set js) P)"
        "\<And>w' s. Suc w \<le> w' \<Longrightarrow> w' < 4 \<Longrightarrow> s < 64 \<Longrightarrow> need w' s \<Longrightarrow> T_wheel ?T (64 * w' + s) \<noteq> [] \<Longrightarrow> 64 * w' + s \<in> set js"
      by blast
    have dj: "set ks \<inter> set js = {}" using ks(2) range js(2) by fastforce
    have mp: "map (T_wheel ?T) js = map (T_wheel T) js" using dj ks(2) by auto
    have "update_wheels [w..<4] new E T todo = Some (emptied T (set (ks @ js)) P, todo @ concat (map (T_wheel T) (ks @ js)))"
      unfolding step js(3) mp by (simp add: ks(2))
    moreover have "64 * w' + s \<in> set (ks @ js)"
      if "w \<le> w'" "w' < 4" "s < 64" "need w' s" "T_wheel T (64 * w' + s) \<noteq> []" for w' s
      using here [of s] js(5) [of w' s] that ks(2) by (cases "w = w'") auto
    ultimately show ?thesis
      using ks(1,2) js(1,2,4) dj range r4
      by (intro exI [of _ "ks @ js"] exI [of _ P]) auto
  qed
qed simp

section \<open>Advancing the clock\<close>

text \<open>
  The clock must not go back by a little: it moves forward, or the unsigned difference covers all
  four wheels (which any step back of at most 2^64 - 2^24 does).
\<close>

definition clock_ok :: "u64 \<Rightarrow> u64 \<Rightarrow> bool" where
  "clock_ok cur new \<longleftrightarrow> cur \<le> new \<or> 2 ^ 24 \<le> unat (new - cur)"

definition needed :: "u64 \<Rightarrow> u64 \<Rightarrow> nat \<Rightarrow> nat \<Rightarrow> bool" where
  "needed cur new w s \<longleftrightarrow> 2 ^ 24 \<le> unat (new - cur) \<or>
     (\<exists>e. digit w cur < digit w e \<and> digit w e \<le> digit w new \<and> s = timeout_slot w e)"

lemma fits_later:
  assumes "clock_ok cur new" "fits cur (Slot k) e" "\<not> needed cur new (k div 64) (k mod 64)"
  shows "fits new (Slot k) e"
proof -
  have "cur \<le> new" "digit (k div 64) cur < digit (k div 64) e" "\<not> digit (k div 64) e \<le> digit (k div 64) new"
    using assms by (auto simp: clock_ok_def needed_def on_wheel_def)
  then show ?thesis using assms(2) on_wheel_later by auto
qed

lemma mask_all: "w < 4 \<Longrightarrow> 2 ^ 24 \<le> unat E \<Longrightarrow> expire_mask cur new E w = NOT 0"
proof -
  assume w: "w < 4" and E: "2 ^ 24 \<le> unat E"
  have "(2 :: nat) ^ (w * 6) \<le> 2 ^ 18" using w by (intro power_increasing) simp_all
  then have "2 ^ (w * 6) * 64 \<le> unat E" using E by simp
  then have "64 \<le> digit w E" unfolding digit_def by (simp add: less_eq_div_iff_mult_less_eq mult.commute)
  then have "63 < drop_bit (w * 6) E" by (simp add: word_less_nat_alt unat_drop_digit)
  then show ?thesis by (simp add: expire_mask_def)
qed

lemma update_wheels_all:
  assumes "clock_ok (T_curtime T) new" "bitmap_ok T"
  shows "\<exists>ks P. distinct ks \<and> set ks \<subseteq> {0..<256} \<and>
       update_wheels [0..<4] new (new - T_curtime T) T [] = Some (emptied T (set ks) P, concat (map (T_wheel T) ks)) \<and>
       bitmap_ok (emptied T (set ks) P) \<and>
       (\<forall>w s. w < 4 \<longrightarrow> s < 64 \<longrightarrow> needed (T_curtime T) new w s \<longrightarrow> T_wheel T (64 * w + s) \<noteq> [] \<longrightarrow> 64 * w + s \<in> set ks)"
proof (cases "2 ^ 24 \<le> unat (new - T_curtime T)")
  case True
  define good where "good w E \<longleftrightarrow> (2 :: nat) ^ 24 \<le> unat E" for w :: nat and E :: u64
  have "\<exists>ks P. distinct ks \<and> set ks \<subseteq> {64 * 0..<256} \<and>
       update_wheels [0..<4] new (new - T_curtime T) T [] = Some (emptied T (set ks) P, [] @ concat (map (T_wheel T) ks)) \<and>
       bitmap_ok (emptied T (set ks) P) \<and>
       (\<forall>w' s. 0 \<le> w' \<longrightarrow> w' < 4 \<longrightarrow> s < 64 \<longrightarrow> needed (T_curtime T) new w' s \<longrightarrow> T_wheel T (64 * w' + s) \<noteq> [] \<longrightarrow> 64 * w' + s \<in> set ks)"
  proof (rule update_wheels_spec [of good])
    show "bit (expire_mask (T_curtime T) new E w) s" if "good w E" "w < 4" "s < 64" for w s E
      using mask_all [of w E] that by (simp add: good_def)
    show "good (Suc w) (if push_bit (w * 6) 64 < E then E else push_bit (w * 6) 64)" if "good w E" for w E
      using that by (auto simp: good_def word_less_nat_alt)
    show "\<not> needed (T_curtime T) new w' s"
      if "good w E" "\<not> bit (expire_mask (T_curtime T) new E w) 0" "w < w'" "w' < 4" for w w' s E
      using mask_all [of w E] that by (simp add: good_def)
  qed (use True assms(2) in \<open>simp_all add: good_def\<close>)
  then show ?thesis by simp
next
  case False
  let ?c = "T_curtime T"
  have le: "?c \<le> new" using False assms(1) by (simp add: clock_ok_def)
  have "\<exists>ks P. distinct ks \<and> set ks \<subseteq> {64 * 0..<256} \<and>
       update_wheels [0..<4] new (new - T_curtime T) T [] = Some (emptied T (set ks) P, [] @ concat (map (T_wheel T) ks)) \<and>
       bitmap_ok (emptied T (set ks) P) \<and>
       (\<forall>w' s. 0 \<le> w' \<longrightarrow> w' < 4 \<longrightarrow> s < 64 \<longrightarrow> needed (T_curtime T) new w' s \<longrightarrow> T_wheel T (64 * w' + s) \<noteq> [] \<longrightarrow> 64 * w' + s \<in> set ks)"
  proof (rule update_wheels_spec [of "elapsed_ok ?c new"])
    show "bit (expire_mask ?c new E w) s" if "elapsed_ok ?c new w E" "needed ?c new w s" for w s E
      using that False mask_visits [OF that(1)] by (auto simp: needed_def)
    show "\<not> needed ?c new w' s" if "elapsed_ok ?c new w E" "\<not> bit (expire_mask ?c new E w) 0" "w < w'" for w w' s E
      using mask_stops [OF that] False by (auto simp: needed_def)
    show "elapsed_ok ?c new 0 (new - ?c)" using le by (simp add: elapsed_ok_def unat_sub)
  qed (use assms(2) elapsed_next in simp_all)
  then show ?thesis by simp
qed

text \<open>What an update does to one timeout: only to->pending changes.\<close>

definition moved :: "u64 \<Rightarrow> timeout \<Rightarrow> timeout \<Rightarrow> bool" where
  "moved c t t' \<longleftrightarrow> t' = t\<lparr>to_pending := to_pending t'\<rparr> \<and>
     (case to_pending t of
        Some (Slot k) \<Rightarrow> if to_expires t \<le> c then to_pending t' = Some Expired else \<exists>k'. to_pending t' = Some (Slot k')
      | p \<Rightarrow> to_pending t' = p)"

definition is_due :: "theap \<Rightarrow> u64 \<Rightarrow> addr \<Rightarrow> bool" where
  "is_due h c a \<longleftrightarrow> (\<exists>t. h a = Some t \<and> to_expires t \<le> c)"

lemma is_due_simps: "h a = Some t \<Longrightarrow> is_due h c a \<longleftrightarrow> to_expires t \<le> c"
  by (simp add: is_due_def)

text \<open>The second loop: the loose timeouts are put where the new time wants them.\<close>

definition replaced :: "u64 \<Rightarrow> addr set \<Rightarrow> theap \<Rightarrow> theap" where
  "replaced c S h = (\<lambda>a. if a \<in> S then map_option (\<lambda>t. placed_at c (to_expires t) t) (h a) else h a)"

lemma placed_again: "placed_at c e (t\<lparr>to_pending := p\<rparr>) = placed_at c e t"
  by (cases t) (simp add: placed_at_def)

lemma resched_spec:
  "tw_part T h (set as) \<Longrightarrow> distinct as \<Longrightarrow>
     \<exists>T'. resched T h as = Some (T', replaced (T_curtime T) (set as) h) \<and>
       tw_ok T' (replaced (T_curtime T) (set as) h) \<and> T_curtime T' = T_curtime T \<and> T_hertz T' = T_hertz T \<and>
       T_expired T' = T_expired T @ filter (is_due h (T_curtime T)) as"
proof (induction as arbitrary: T h)
  case Nil
  then show ?case by (simp add: replaced_def)
next
  case (Cons a as)
  let ?c = "T_curtime T"
  obtain t where t: "h a = Some t" using part_loose [OF Cons.prems(1)] by auto
  let ?h = "h(a \<mapsto> t\<lparr>to_pending := None\<rparr>)"
  have "tw_part T ?h (set as)"
    using part_free [OF Cons.prems(1), of a "t\<lparr>to_pending := None\<rparr>"] Cons.prems(2) by simp
  then obtain T1 where T1: "timeouts_sched T ?h a (to_expires t) = Some (T1, h(a \<mapsto> placed_at ?c (to_expires t) t))"
      "tw_part T1 (h(a \<mapsto> placed_at ?c (to_expires t) t)) (set as)" "put_on a (place_for ?c (to_expires t)) T T1"
    using sched_spec [of T ?h "set as" a "t\<lparr>to_pending := None\<rparr>" "to_expires t"] Cons.prems(2)
    by (auto simp: placed_again)
  let ?h1 = "h(a \<mapsto> placed_at ?c (to_expires t) t)"
  have c: "T_curtime T1 = ?c" "T_hertz T1 = T_hertz T" using T1(3) by (simp_all add: put_on_def)
  have r: "replaced ?c (set as) ?h1 = replaced ?c (set (a # as)) h"
    using Cons.prems(2) t by (auto simp: replaced_def fun_eq_iff)
  have "a \<notin> set (T_expired T)" using part_member [OF Cons.prems(1), of Expired a] by simp
  then have e: "T_expired T1 = T_expired T @ (if to_expires t \<le> ?c then [a] else [])"
  proof -
    assume "a \<notin> set (T_expired T)"
    then have "filter (\<lambda>x. x \<noteq> a) (T_expired T) = T_expired T" by (intro filter_True) auto
    then show ?thesis using put_on_expired [OF T1(3)] by simp
  qed
  have f: "filter (is_due ?h1 ?c) as = filter (is_due h ?c) as"
    using Cons.prems(2) by (intro filter_cong) (auto simp: is_due_def)
  have d: "distinct as" using Cons.prems(2) by simp
  from Cons.IH [OF T1(2) d, unfolded c] obtain T' where
    "resched T1 ?h1 as = Some (T', replaced ?c (set as) ?h1)" "tw_ok T' (replaced ?c (set as) ?h1)"
    "T_curtime T' = ?c" "T_hertz T' = T_hertz T" "T_expired T' = T_expired T1 @ filter (is_due ?h1 ?c) as"
    by blast
  then show ?case using T1(1) t e by (simp add: r f Let_def is_due_simps)
qed

lemma distinct_concat_queues:
  assumes "tw_part T h S" "distinct ks" "set ks \<subseteq> {0..<256}"
  shows "distinct (concat (map (T_wheel T) ks))"
  using assms(2,3)
proof (induction ks)
  case (Cons k ks)
  have "distinct (T_wheel T k)" using part_distinct [OF assms(1), of "Slot k"] Cons.prems by simp
  moreover have "set (T_wheel T k) \<inter> set (T_wheel T j) = {}" if "j \<in> set ks" for j
    using part_member [OF assms(1), of "Slot k"] part_member [OF assms(1), of "Slot j"] that Cons.prems by force
  ultimately show ?case using Cons by auto
qed simp

text \<open>Between the loops: the collected timeouts are loose, the others still fit.\<close>

lemma collected_part:
  assumes "tw_ok T h" "clock_ok (T_curtime T) new" "set ks \<subseteq> {0..<256}" "bitmap_ok (emptied T (set ks) P)"
    and "\<And>w s. w < 4 \<Longrightarrow> s < 64 \<Longrightarrow> needed (T_curtime T) new w s \<Longrightarrow> T_wheel T (64 * w + s) \<noteq> [] \<Longrightarrow> 64 * w + s \<in> set ks"
  shows "tw_part ((emptied T (set ks) P)\<lparr>T_curtime := new\<rparr>) h (set (concat (map (T_wheel T) ks)))"
proof -
  let ?T = "(emptied T (set ks) P)\<lparr>T_curtime := new\<rparr>" and ?S = "set (concat (map (T_wheel T) ks))"
  have S: "a \<in> ?S \<longleftrightarrow> (\<exists>t k. h a = Some t \<and> to_pending t = Some (Slot k) \<and> k \<in> set ks)" for a
    using part_member [OF assms(1), of "Slot _" a] assms(3) by fastforce
  show ?thesis
  proof (rule partI)
    show "bitmap_ok ?T" using assms(4) by (simp add: bitmap_ok_def)
    show "?S \<subseteq> dom h" using S by blast
    show "distinct (queue_of ?T p)" if "valid p" for p
      using part_distinct [OF assms(1) that] by (cases p) auto
    show "a \<in> set (queue_of ?T p) \<longleftrightarrow> a \<notin> ?S \<and> (\<exists>t. h a = Some t \<and> to_pending t = Some p)" if "valid p" for p a
      unfolding S using part_member [OF assms(1) that, of a] by (cases p) auto
    show "valid p \<and> to_timeouts t \<and> fits (T_curtime ?T) p (to_expires t)"
      if "h a = Some t" "a \<notin> ?S" "to_pending t = Some p" for a t p
    proof (cases p)
      case (Slot k)
      have k: "k \<notin> set ks" using that Slot unfolding S by blast
      have pl: "k < 256" "to_timeouts t" "fits (T_curtime T) (Slot k) (to_expires t)" "T_wheel T k \<noteq> []"
        using part_place [OF assms(1) that(1) _ that(3)] Slot by auto
      then have "\<not> needed (T_curtime T) new (k div 64) (k mod 64)"
      proof -
        have "k div 64 < 4" "k mod 64 < 64" "64 * (k div 64) + k mod 64 = k" using pl(1) by auto
        then show ?thesis using assms(5) [of "k div 64" "k mod 64"] pl(4) k by metis
      qed
      then show ?thesis using fits_later [OF assms(2) pl(3)] pl Slot by simp
    qed (use part_place [OF assms(1) that(1) _ that(3)] in auto)
  qed
qed

definition armed_at :: "theap \<Rightarrow> addr \<Rightarrow> u64 option" where
  "armed_at h a = (case h a of
     Some t \<Rightarrow> (case to_pending t of Some (Slot k) \<Rightarrow> Some (to_expires t) | _ \<Rightarrow> None) | None \<Rightarrow> None)"

lemma armed_at_iff: "armed_at h a = Some e \<longleftrightarrow> (\<exists>t k. h a = Some t \<and> to_pending t = Some (Slot k) \<and> to_expires t = e)"
  by (auto simp: armed_at_def split: option.splits place.splits)

lemma armed_later:
  assumes "tw_ok T h" "armed_at h a = Some e"
  shows "T_curtime T < e"
proof -
  obtain t k where "h a = Some t" "to_pending t = Some (Slot k)" "to_expires t = e" using assms(2) by (auto simp: armed_at_iff)
  then have "fits (T_curtime T) (Slot k) e" using part_place [OF assms(1), of a t "Slot k"] by auto
  then show ?thesis using on_wheel_less by auto
qed

lemma update_spec:
  assumes ok: "tw_ok T h" and c: "clock_ok (T_curtime T) new"
  shows "\<exists>T' h' xs. timeouts_update T h new = Some (T', h') \<and> tw_ok T' h' \<and> T_curtime T' = new \<and>
           T_hertz T' = T_hertz T \<and> T_expired T' = T_expired T @ xs \<and> distinct xs \<and>
           set xs = {a. \<exists>e. armed_at h a = Some e \<and> e \<le> new} \<and> (\<forall>a. rel_option (moved new) (h a) (h' a))"
proof -
  obtain ks P where ks: "distinct ks" "set ks \<subseteq> {0..<256}"
      "update_wheels [0..<4] new (new - T_curtime T) T [] = Some (emptied T (set ks) P, concat (map (T_wheel T) ks))"
      "bitmap_ok (emptied T (set ks) P)"
      "\<And>w s. w < 4 \<Longrightarrow> s < 64 \<Longrightarrow> needed (T_curtime T) new w s \<Longrightarrow> T_wheel T (64 * w + s) \<noteq> [] \<Longrightarrow> 64 * w + s \<in> set ks"
    using update_wheels_all [OF c part_bitmap [OF ok]] by blast
  let ?T = "(emptied T (set ks) P)\<lparr>T_curtime := new\<rparr>" and ?as = "concat (map (T_wheel T) ks)"
  have part: "tw_part ?T h (set ?as)" by (rule collected_part [OF ok c ks(2,4,5)])
  have dist: "distinct ?as" by (rule distinct_concat_queues [OF ok ks(1,2)])
  let ?h = "replaced new (set ?as) h"
  obtain T' where T': "resched ?T h ?as = Some (T', ?h)" "tw_ok T' ?h" "T_curtime T' = new" "T_hertz T' = T_hertz T"
      "T_expired T' = T_expired T @ filter (is_due h new) ?as"
    using resched_spec [OF part dist] by auto
  have S: "a \<in> set ?as \<longleftrightarrow> (\<exists>t k. h a = Some t \<and> to_pending t = Some (Slot k) \<and> k \<in> set ks)" for a
    using part_member [OF ok, of "Slot _" a] ks(2) by fastforce
  have stay: "new < e" if "armed_at h a = Some e" "a \<notin> set ?as" for a e
  proof -
    obtain t k where t: "h a = Some t" "to_pending t = Some (Slot k)" "to_expires t = e" using \<open>armed_at h a = Some e\<close> by (auto simp: armed_at_iff)
    then show ?thesis using part_place [OF part t(1) that(2) t(2)] on_wheel_less by auto
  qed
  have "set (filter (is_due h new) ?as) = {a. \<exists>e. armed_at h a = Some e \<and> e \<le> new}"
  proof (intro set_eqI iffI)
    fix a assume "a \<in> set (filter (is_due h new) ?as)"
    then have "a \<in> set ?as" "is_due h new a" by simp_all
    then show "a \<in> {a. \<exists>e. armed_at h a = Some e \<and> e \<le> new}" unfolding S by (auto simp: armed_at_iff is_due_def)
  next
    fix a assume "a \<in> {a. \<exists>e. armed_at h a = Some e \<and> e \<le> new}"
    then obtain e where e: "armed_at h a = Some e" "e \<le> new" by blast
    then have "a \<in> set ?as" using stay [OF e(1)] by (meson not_le)
    moreover have "is_due h new a" using e by (auto simp: armed_at_iff is_due_def)
    ultimately show "a \<in> set (filter (is_due h new) ?as)" by simp
  qed
  moreover have "rel_option (moved new) (h a) (?h a)" for a
  proof (cases "h a")
    case (Some t)
    show ?thesis
    proof (cases "a \<in> set ?as")
      case True
      then obtain k where k: "to_pending t = Some (Slot k)" using Some unfolding S by auto
      then have tt: "to_timeouts t" using part_place [OF ok Some _ k] by simp
      have "moved new t (placed_at new (to_expires t) t)"
        using k tt by (cases t; cases "place_for new (to_expires t)") (auto simp: moved_def placed_at_def not_less dest: arg_cong [of _ _ "\<lambda>p. p = Expired"])
      then show ?thesis using Some True by (simp add: replaced_def)
    next
      case False
      have "to_expires t \<le> new \<Longrightarrow> to_pending t = Some (Slot k) \<Longrightarrow> False" for k
        using stay [OF _ False, of "to_expires t"] Some by (auto simp: armed_at_iff)
      then have "moved new t t" by (auto simp: moved_def split: option.splits place.splits)
      then show ?thesis using Some False by (simp add: replaced_def)
    qed
  qed (simp add: replaced_def)
  moreover have "timeouts_update T h new = Some (T', ?h)"
    using ks(3) T'(1) by (simp add: timeouts_update_def Let_def)
  ultimately show ?thesis using T' distinct_filter [OF dist] by blast
qed

end
