(* ===== verification/Timeout_Queries.thy ===== *)
theory Timeout_Queries
  imports Timeout_Correct
begin

unbundle bit_operations_syntax

text \<open>
  The queries of the timing wheel: the interval to the next update (timeouts_int), the dumb search for
  the earliest timeout (timeouts_min), the self-check, and the loop a caller runs that sleeps for
  timeouts_timeout and updates.
\<close>

section \<open>The interval of one wheel\<close>

definition int_at :: "timeouts \<Rightarrow> nat \<Rightarrow> nat" where
  "int_at T w =
     (ctz64 (rotr (T_pending T w) (digit w (T_curtime T) mod 64)) + (if w \<noteq> 0 then 1 else 0)) * 2 ^ (w * 6)
       - unat (T_curtime T) mod 2 ^ (w * 6)"

lemma first_slot:
  assumes "p \<noteq> 0"
  shows "ctz64 (rotr p (c mod 64)) < 64" and "bit p ((ctz64 (rotr p (c mod 64)) + c) mod 64)"
    and "bit p ((m + c) mod 64) \<Longrightarrow> ctz64 (rotr p (c mod 64)) \<le> m mod 64"
proof -
  let ?r = "rotr p (c mod 64)"
  have b: "bit ?r n \<longleftrightarrow> n < 64 \<and> bit p ((n + c) mod 64)" for n by (simp add: bit_rotr mod_add_right_eq)
  have "?r \<noteq> 0"
  proof -
    obtain n where n: "bit p n" "n < 64" using ctz64_bit [OF assms] by (auto simp: is_ctz_def)
    have "((n + (64 - c mod 64)) mod 64 + c) mod 64 = n"
      using mod_64_shift [OF n(2), of c] n(2) by (metis mod_add_eq mod_mod_trivial add.commute add.left_commute)
    then have "bit ?r ((n + (64 - c mod 64)) mod 64)" using n b by simp
    then show ?thesis by auto
  qed
  note z = ctz64_bit [OF this]
  show "ctz64 ?r < 64" "bit p ((ctz64 ?r + c) mod 64)" using z b by (auto simp: is_ctz_def)
  show "ctz64 ?r \<le> m mod 64" if "bit p ((m + c) mod 64)"
  proof (rule ccontr)
    assume "\<not> ctz64 ?r \<le> m mod 64"
    then have "\<not> bit ?r (m mod 64)" using z by (simp add: is_ctz_def)
    then show False using that unfolding b by (simp add: mod_add_left_eq)
  qed
qed

lemma digit_split: "unat c = digit w c * 2 ^ (w * 6) + unat c mod 2 ^ (w * 6)"
  by (simp only: digit_def div_mult_mod_eq)

lemma int_at_le:
  assumes "bit (T_pending T w) (timeout_slot w e)" "on_wheel (T_curtime T) w e"
  shows "int_at T w \<le> unat e - unat (T_curtime T)"
proof -
  let ?c = "T_curtime T" and ?p = "2 ^ (w * 6) :: nat"
  let ?z = "ctz64 (rotr (T_pending T w) (digit w ?c mod 64))"
  have nz: "T_pending T w \<noteq> 0" using assms(1) by auto
  have lt: "digit w ?c < digit w e" using assms(2) by (simp add: on_wheel_def)
  show ?thesis
  proof (cases "w = 0")
    case True
    have "bit (T_pending T w) ((unat e - unat ?c + digit w ?c) mod 64)"
      using assms(1) lt True by (simp add: timeout_slot_eq shift_of_def)
    from first_slot(3) [OF nz this] have "?z \<le> unat e - unat ?c" by (meson le_trans mod_less_eq_dividend)
    then show ?thesis using True by (simp add: int_at_def)
  next
    case False
    have "digit w e + 63 = (digit w e - 1 - digit w ?c + digit w ?c) + 64" using lt by linarith
    then have "timeout_slot w e = (digit w e - 1 - digit w ?c + digit w ?c) mod 64"
      using False by (simp only: timeout_slot_eq shift_of_def if_False mod_add_self2)
    then have "?z \<le> digit w e - 1 - digit w ?c"
      using first_slot(3) [OF nz, of "digit w e - 1 - digit w ?c" "digit w ?c"] assms(1) by (metis le_trans mod_less_eq_dividend)
    then have "?z + 1 + digit w ?c \<le> digit w e" using lt by linarith
    then have "(?z + 1) * ?p + digit w ?c * ?p \<le> digit w e * ?p" by (metis add_mult_distrib mult_le_mono1)
    also have "\<dots> \<le> unat e" using digit_split [of e w] by linarith
    finally have "(?z + 1) * ?p + digit w ?c * ?p \<le> unat e" .
    then show ?thesis using False digit_split [of ?c w] unfolding int_at_def by simp
  qed
qed

lemma unat_mask_and: "n < 64 \<Longrightarrow> unat ((2 ^ n - 1) AND (c :: u64)) = unat c mod 2 ^ n"
  using unat_and_mask [of c n] by (simp add: mask_eq_exp_minus_1 and.commute)

lemma int_at_bound: "w < 4 \<Longrightarrow> T_pending T w \<noteq> 0 \<Longrightarrow> int_at T w \<le> 2 ^ 24"
proof -
  assume w: "w < 4" and nz: "T_pending T w \<noteq> 0"
  let ?z = "ctz64 (rotr (T_pending T w) (digit w (T_curtime T) mod 64))"
  have "int_at T w \<le> (?z + (if w \<noteq> 0 then 1 else 0)) * 2 ^ (w * 6)" unfolding int_at_def by (rule diff_le_self)
  also have "\<dots> \<le> 64 * 2 ^ 18"
  proof (rule mult_le_mono)
    show "?z + (if w \<noteq> 0 then 1 else 0) \<le> 64" using first_slot(1) [OF nz, of "digit w (T_curtime T)"] by (cases "w = 0") simp_all
    show "(2 :: nat) ^ (w * 6) \<le> 2 ^ 18" using w by (intro power_increasing) simp_all
  qed
  finally show ?thesis by simp
qed

section \<open>The interval over all wheels\<close>

lemma int_step_eq:
  assumes "w < 4"
  shows "int_step T w (2 ^ (w * 6) - 1, t) =
    (2 ^ (Suc w * 6) - 1, if T_pending T w = 0 then t else if of_nat (int_at T w) < t then of_nat (int_at T w) else t)"
proof -
  have m: "push_bit 6 (2 ^ (w * 6) - 1) OR 63 = (2 ^ (Suc w * 6) - 1 :: u64)"
  proof -
    have "w = 0 \<or> w = 1 \<or> w = 2 \<or> w = 3" using assms by auto
    then show ?thesis by (elim disjE) simp_all
  qed
  have "of_nat (push_bit (w * 6) (ctz64 (rotr (T_pending T w) (digit w (T_curtime T) mod 64)) + (if w \<noteq> 0 then 1 else 0))) -
      ((2 ^ (w * 6) - 1) AND T_curtime T) = (of_nat (int_at T w) :: u64)" if nz: "T_pending T w \<noteq> 0"
  proof -
    let ?z = "ctz64 (rotr (T_pending T w) (digit w (T_curtime T) mod 64)) + (if w \<noteq> 0 then 1 else 0 :: nat)"
    have r: "unat ((2 ^ (w * 6) - 1) AND T_curtime T) = unat (T_curtime T) mod 2 ^ (w * 6)"
      using assms by (intro unat_mask_and) simp
    have le: "unat (T_curtime T) mod 2 ^ (w * 6) \<le> ?z * 2 ^ (w * 6)"
    proof (cases "w = 0")
      case False
      then have "1 * 2 ^ (w * 6) \<le> ?z * 2 ^ (w * 6)" by (intro mult_le_mono) simp_all
      moreover have "unat (T_curtime T) mod 2 ^ (w * 6) < 2 ^ (w * 6)" by simp
      ultimately show ?thesis by linarith
    qed simp
    have "((2 ^ (w * 6) - 1) AND T_curtime T) = (of_nat (unat (T_curtime T) mod 2 ^ (w * 6)) :: u64)"
      by (simp flip: r)
    then show ?thesis unfolding int_at_def using le by (simp add: push_bit_eq_mult of_nat_diff)
  qed
  then show ?thesis using m by (simp add: int_step_def Let_def unat_low6 unat_drop_digit)
qed

fun int_min :: "timeouts \<Rightarrow> nat list \<Rightarrow> u64 \<Rightarrow> u64" where
  "int_min T [] t = t"
| "int_min T (w # ws) t =
     int_min T ws (if T_pending T w = 0 then t else if of_nat (int_at T w) < t then of_nat (int_at T w) else t)"

lemma fold_int: "w \<le> 4 \<Longrightarrow> snd (fold (int_step T) [w..<4] (2 ^ (w * 6) - 1, t)) = int_min T [w..<4] t"
proof (induction "4 - w" arbitrary: w t)
  case (Suc n)
  then have w: "w < 4" "[w..<4] = w # [Suc w..<4]" by (simp_all add: upt_conv_Cons)
  have "Suc w \<le> 4" "n = 4 - Suc w" using Suc.hyps(2) by auto
  then show ?case unfolding w(2) fold_Cons comp_def int_step_eq [OF w(1)] int_min.simps by (intro Suc.hyps(1))
qed simp

lemma timeouts_int_eq: "timeouts_int T = int_min T [0..<4] (NOT 0)"
  using fold_int [of 0 T "NOT 0"] by (simp add: timeouts_int_def)

lemma int_min_le: "int_min T ws t \<le> t \<and> (\<forall>w \<in> set ws. T_pending T w \<noteq> 0 \<longrightarrow> int_min T ws t \<le> of_nat (int_at T w))"
proof (induction ws arbitrary: t)
  case (Cons w ws)
  let ?t = "if T_pending T w = 0 then t else if of_nat (int_at T w) < t then of_nat (int_at T w) else t"
  have t: "?t \<le> t" "T_pending T w \<noteq> 0 \<Longrightarrow> ?t \<le> of_nat (int_at T w)" by auto
  have "int_min T ws ?t \<le> ?t" using Cons by blast
  then show ?case unfolding int_min.simps using t Cons [of ?t] order_trans by auto
qed simp

lemma int_min_in: "int_min T ws t = t \<or> (\<exists>w \<in> set ws. T_pending T w \<noteq> 0 \<and> int_min T ws t = of_nat (int_at T w))"
proof (induction ws arbitrary: t)
  case (Cons w ws)
  then show ?case using Cons [of "if T_pending T w = 0 then t else if of_nat (int_at T w) < t then of_nat (int_at T w) else t"]
    by (auto split: if_splits)
qed simp

lemma unat_int_at: "w < 4 \<Longrightarrow> T_pending T w \<noteq> 0 \<Longrightarrow> unat (of_nat (int_at T w) :: u64) = int_at T w"
  using int_at_bound [of w T] by (simp add: unat_of_nat take_bit_nat_eq_self unsigned_of_nat)

section \<open>What the interval tells\<close>

lemma armed_slot:
  assumes "tw_ok T h" "armed_at h a = Some e"
  shows "\<exists>w < 4. bit (T_pending T w) (timeout_slot w e) \<and> on_wheel (T_curtime T) w e"
proof -
  obtain t k where t: "h a = Some t" "to_pending t = Some (Slot k)" "to_expires t = e" using assms(2) by (auto simp: armed_at_iff)
  have p: "k < 256" "fits (T_curtime T) (Slot k) e" "a \<in> set (T_wheel T k)"
    using part_place [OF assms(1) t(1) _ t(2)] t(3) by auto
  have "k div 64 < 4" "k mod 64 < 64" "64 * (k div 64) + k mod 64 = k" using p(1) by auto
  moreover have "T_wheel T k \<noteq> []" using p(3) by auto
  ultimately have "bit (T_pending T (k div 64)) (k mod 64)"
    using part_bitmap [OF assms(1)] unfolding bitmap_ok_def by metis
  then show ?thesis using p(2) \<open>k div 64 < 4\<close> by (intro exI [of _ "k div 64"]) auto
qed

lemma slot_armed:
  assumes "tw_ok T h" "w < 4" "s < 64" "bit (T_pending T w) s"
  shows "\<exists>a e. armed_at h a = Some e \<and> s = timeout_slot w e \<and> on_wheel (T_curtime T) w e"
proof -
  have "T_wheel T (64 * w + s) \<noteq> []" using part_bitmap [OF assms(1)] assms(2-4) by (simp add: bitmap_ok_def)
  then obtain a where "a \<in> set (queue_of T (Slot (64 * w + s)))" by (metis first.cases list.set_intros(1) queue_of_simps(1))
  moreover have v: "valid (Slot (64 * w + s))" using assms(2,3) by simp
  ultimately obtain t where t: "h a = Some t" "to_pending t = Some (Slot (64 * w + s))"
    using part_member [OF assms(1) v] by blast
  then have "fits (T_curtime T) (Slot (64 * w + s)) (to_expires t)" using part_place [OF assms(1) t(1) _ t(2)] by simp
  then show ?thesis using t assms(3) by (intro exI [of _ a] exI [of _ "to_expires t"]) (auto simp: armed_at_iff)
qed

lemma int_le_armed:
  assumes "tw_ok T h" "armed_at h a = Some e"
  shows "unat (timeouts_int T) \<le> unat e - unat (T_curtime T)"
proof -
  obtain w where w: "w < 4" "bit (T_pending T w) (timeout_slot w e)" "on_wheel (T_curtime T) w e"
    using armed_slot [OF assms] by blast
  have nz: "T_pending T w \<noteq> 0" using w(2) by auto
  have "timeouts_int T \<le> of_nat (int_at T w)"
    using int_min_le [of T "[0..<4]" "NOT 0"] w(1) nz by (simp add: timeouts_int_eq)
  then have "unat (timeouts_int T) \<le> int_at T w" using unat_int_at [OF w(1) nz] by (simp add: word_le_nat_alt)
  also have "\<dots> \<le> unat e - unat (T_curtime T)" by (rule int_at_le [OF w(2,3)])
  finally show ?thesis .
qed

lemma int_at_pos:
  assumes "tw_ok T h" "w < 4" "T_pending T w \<noteq> 0"
  shows "0 < int_at T w"
proof (cases "w = 0")
  case True
  let ?c = "T_curtime T" let ?z = "ctz64 (rotr (T_pending T 0) (digit 0 ?c mod 64))"
  note z = first_slot(1,2) [of "T_pending T 0" "digit 0 ?c"]
  have nz: "T_pending T 0 \<noteq> 0" using assms(3) True by simp
  obtain a e where e: "(?z + digit 0 ?c) mod 64 = timeout_slot 0 e" "on_wheel ?c 0 e"
    using slot_armed [OF assms(1), of 0 "(?z + digit 0 ?c) mod 64"] z(2) [OF nz] by auto
  have "?z \<noteq> 0"
  proof
    assume "?z = 0"
    then have "unat ?c mod 64 = unat e mod 64" "unat ?c < unat e" "unat e - unat ?c < 64"
      using e by (simp_all add: timeout_slot_eq shift_of_def on_wheel_def)
    then show False by (metis diff_is_0_eq' leD mod_eq_dvd_iff_nat mod_if dvd_imp_mod_0 less_imp_le zero_less_diff)
  qed
  then show ?thesis using True by (simp add: int_at_def)
next
  case False
  let ?z = "ctz64 (rotr (T_pending T w) (digit w (T_curtime T) mod 64))"
  have "unat (T_curtime T) mod 2 ^ (w * 6) < 2 ^ (w * 6)" by simp
  also have "\<dots> \<le> (?z + 1) * 2 ^ (w * 6)" by simp
  finally show ?thesis using False by (simp add: int_at_def)
qed

lemma int_pos: "tw_ok T h \<Longrightarrow> 0 < timeouts_int T"
proof -
  assume ok: "tw_ok T h"
  consider "timeouts_int T = NOT 0" | w where "w < 4" "T_pending T w \<noteq> 0" "timeouts_int T = of_nat (int_at T w)"
    using int_min_in [of T "[0..<4]" "NOT 0"] by (auto simp: timeouts_int_eq)
  then show ?thesis
  proof cases
    case 2
    then have "0 < unat (timeouts_int T)" using unat_int_at int_at_pos [OF ok] by simp
    then show ?thesis by (simp add: unat_gt_0 word_neq_0_conv)
  qed (simp add: word_gt_0)
qed

lemma pending_none:
  assumes "tw_ok T h" "\<And>a. armed_at h a = None" "w < 4"
  shows "T_pending T w = 0"
proof (rule ccontr)
  assume "T_pending T w \<noteq> 0"
  then obtain n where "bit (T_pending T w) n" "n < 64" using ctz64_bit by (auto simp: is_ctz_def)
  then show False using slot_armed [OF assms(1,3)] assms(2) by auto
qed

lemma int_none: "tw_ok T h \<Longrightarrow> (\<And>a. armed_at h a = None) \<Longrightarrow> timeouts_int T = NOT 0"
  using int_min_in [of T "[0..<4]" "NOT 0"] pending_none by (auto simp: timeouts_int_eq)

section \<open>The dumb search and the self-check\<close>

lemma min_of_spec:
  assumes "set as \<subseteq> dom h" "\<And>b. m = Some b \<Longrightarrow> b \<in> dom h"
  shows "\<exists>m'. min_of h as m = Some m' \<and> (m' = None \<longleftrightarrow> m = None \<and> as = []) \<and>
     (\<forall>b. m' = Some b \<longrightarrow> (m = Some b \<or> b \<in> set as) \<and>
        (\<forall>a \<in> set as \<union> set_option m. to_expires (the (h b)) \<le> to_expires (the (h a))))"
  using assms
proof (induction as arbitrary: m)
  case (Cons a as)
  obtain t where t: "h a = Some t" using Cons.prems(1) by auto
  show ?case
  proof (cases m)
    case None
    have "\<exists>m'. min_of h as (Some a) = Some m' \<and> (m' = None \<longleftrightarrow> Some a = None \<and> as = []) \<and>
     (\<forall>b. m' = Some b \<longrightarrow> (Some a = Some b \<or> b \<in> set as) \<and>
        (\<forall>c \<in> set as \<union> set_option (Some a). to_expires (the (h b)) \<le> to_expires (the (h c))))"
      using Cons.prems t by (intro Cons.IH) auto
    then show ?thesis using None t by auto
  next
    case (Some b)
    then obtain u where u: "h b = Some u" using Cons.prems(2) by auto
    let ?m = "if to_expires t < to_expires u then Some a else m"
    have "\<exists>m'. min_of h as ?m = Some m' \<and> (m' = None \<longleftrightarrow> ?m = None \<and> as = []) \<and>
     (\<forall>b. m' = Some b \<longrightarrow> (?m = Some b \<or> b \<in> set as) \<and>
        (\<forall>c \<in> set as \<union> set_option ?m. to_expires (the (h b)) \<le> to_expires (the (h c))))"
      using Cons.prems t Some u by (intro Cons.IH) (auto split: if_splits)
    then obtain m' where m': "min_of h as ?m = Some m'" "m' = None \<longleftrightarrow> ?m = None \<and> as = []"
      "\<And>c. m' = Some c \<Longrightarrow> (?m = Some c \<or> c \<in> set as) \<and>
        (\<forall>d \<in> set as \<union> set_option ?m. to_expires (the (h c)) \<le> to_expires (the (h d)))" by blast
    have "min_of h (a # as) m = Some m'" using m'(1) t u Some by (auto split: if_splits)
    moreover have "m' \<noteq> None" using m'(2) Some by (auto split: if_splits)
    moreover have "(m = Some c \<or> c \<in> set (a # as)) \<and>
        (\<forall>d \<in> set (a # as) \<union> set_option m. to_expires (the (h c)) \<le> to_expires (the (h d)))" if "m' = Some c" for c
    proof (cases "to_expires t < to_expires u")
      case True
      then show ?thesis using m'(3) [OF that] t u Some by auto
    next
      case False
      then show ?thesis using m'(3) [OF that] t u Some by auto
    qed
    ultimately show ?thesis using Some by auto
  qed
qed auto

lemma wheel_members:
  assumes "tw_ok T h"
  shows "a \<in> set (concat (map (T_wheel T) [0..<4 * 64])) \<longleftrightarrow> armed_at h a \<noteq> None"
proof -
  have "a \<in> set (concat (map (T_wheel T) [0..<4 * 64])) \<longleftrightarrow> (\<exists>k < 256. a \<in> set (queue_of T (Slot k)))" by auto
  also have "\<dots> \<longleftrightarrow> (\<exists>k t. h a = Some t \<and> to_pending t = Some (Slot k))"
    using part_member [OF assms, of "Slot _" a] part_place [OF assms, of a _ "Slot _"] by (metis empty_iff valid.simps(1))
  finally show ?thesis by (auto simp: armed_at_iff simp del: not_None_eq)
qed

lemma min_spec:
  assumes "tw_ok T h"
  shows "\<exists>m. timeouts_min T h = Some m \<and> (m = None \<longleftrightarrow> (\<forall>a. armed_at h a = None)) \<and>
    (\<forall>b. m = Some b \<longrightarrow> (\<exists>e. armed_at h b = Some e \<and> (\<forall>a f. armed_at h a = Some f \<longrightarrow> e \<le> f)))"
proof -
  let ?as = "concat (map (T_wheel T) [0..<4 * 64])"
  note mem = wheel_members [OF assms]
  have ex: "to_expires (the (h a)) = e" if "armed_at h a = Some e" for a e using that by (auto simp: armed_at_iff)
  have "set ?as \<subseteq> dom h"
  proof
    fix a assume "a \<in> set ?as"
    then have "armed_at h a \<noteq> None" using mem by blast
    then show "a \<in> dom h" by (auto simp: armed_at_iff)
  qed
  from min_of_spec [OF this, of None] obtain m where m: "min_of h ?as None = Some m" "m = None \<longleftrightarrow> ?as = []"
    "\<And>b. m = Some b \<Longrightarrow> b \<in> set ?as \<and> (\<forall>a \<in> set ?as. to_expires (the (h b)) \<le> to_expires (the (h a)))"
    by auto
  have "m = None \<longleftrightarrow> (\<forall>a. armed_at h a = None)"
    unfolding m(2) using mem by (metis list.set_intros(1) neq_Nil_conv empty_iff empty_set)
  moreover have "\<exists>e. armed_at h b = Some e \<and> (\<forall>a f. armed_at h a = Some f \<longrightarrow> e \<le> f)" if "m = Some b" for b
  proof -
    have "b \<in> set ?as" using m(3) [OF that] by blast
    then obtain e where e: "armed_at h b = Some e" using mem [of b] by blast
    moreover have "e \<le> f" if "armed_at h a = Some f" for a f
    proof -
      have "a \<in> set ?as" using mem [of a] that by simp
      then show ?thesis using m(3) [OF \<open>m = Some b\<close>] ex [OF e] ex [OF that] by auto
    qed
    ultimately show ?thesis by blast
  qed
  ultimately show ?thesis using m(1) unfolding timeouts_min_def by blast
qed

lemma check_passes: "tw_ok T h \<Longrightarrow> timeouts_check T h = Some True"
proof -
  assume ok: "tw_ok T h"
  obtain m where m: "timeouts_min T h = Some m" "m = None \<longleftrightarrow> (\<forall>a. armed_at h a = None)"
    "\<And>b. m = Some b \<Longrightarrow> \<exists>e. armed_at h b = Some e" using min_spec [OF ok] by blast
  show ?thesis
  proof (cases m)
    case None
    then have "timeouts_int T = NOT 0" using int_none [OF ok] m(2) by simp
    then show ?thesis using m(1) None by (simp add: timeouts_check_def timeouts_timeout_def)
  next
    case (Some b)
    obtain t k where t: "h b = Some t" "to_pending t = Some (Slot k)" "armed_at h b = Some (to_expires t)"
      using m(3) [OF Some] by (auto simp: armed_at_iff)
    have l: "T_curtime T < to_expires t" by (rule armed_later [OF ok t(3)])
    then have "unat (to_expires t - T_curtime T) = unat (to_expires t) - unat (T_curtime T)" by (simp add: unat_sub less_imp_le)
    then have "timeouts_int T \<le> to_expires t - T_curtime T" using int_le_armed [OF ok t(3)] by (simp add: word_le_nat_alt)
    then show ?thesis using m(1) Some t(1) l by (simp add: timeouts_check_def timeouts_timeout_def)
  qed
qed

end
