(* ===== verification/Timeout_Events.thy ===== *)
theory Timeout_Events
  imports Timeout_Queries
begin

unbundle bit_operations_syntax

text \<open>
  The remaining operations of the timing wheel: adding, taking expired timeouts off with the
  rescheduling of intervals, resetting, the iterator; the loop of a caller that sleeps until the next
  timeout; and the states a client can reach.
\<close>

section \<open>Adding\<close>

lemma part_change:
  assumes "tw_part T h S" "h a = Some t" "to_pending t' = to_pending t" "to_timeouts t' = to_timeouts t" "to_expires t' = to_expires t"
  shows "tw_part T (h(a \<mapsto> t')) S"
proof (rule partI)
  show "S \<subseteq> dom (h(a \<mapsto> t'))" using part_loose [OF assms(1)] by auto
  show "b \<in> set (queue_of T p) \<longleftrightarrow> b \<notin> S \<and> (\<exists>t. (h(a \<mapsto> t')) b = Some t \<and> to_pending t = Some p)" if "valid p" for p b
    using part_member [OF assms(1) that, of b] assms(2,3) by auto
  show "valid p \<and> to_timeouts u \<and> fits (T_curtime T) p (to_expires u)"
    if "(h(a \<mapsto> t')) b = Some u" "b \<notin> S" "to_pending u = Some p" for b u p
  proof (cases "b = a")
    case True
    then have "u = t'" using that(1) by simp
    then show ?thesis using part_place [OF assms(1,2), of p] that True assms(3-5) by simp
  next
    case False
    then have "h b = Some u" using that(1) by simp
    then show ?thesis using part_place [OF assms(1), of b u p] that(2,3) by blast
  qed
qed (use part_bitmap [OF assms(1)] part_distinct [OF assms(1)] in auto)

definition with_interval :: "u64 \<Rightarrow> timeout \<Rightarrow> timeout" where
  "with_interval x t = (if to_flags t AND TIMEOUT_INT \<noteq> 0 then t\<lparr>to_interval := (if 1 > x then 1 else x)\<rparr> else t)"

definition expiry_of :: "timeouts \<Rightarrow> u64 \<Rightarrow> timeout \<Rightarrow> u64" where
  "expiry_of T x t = (if to_flags t AND TIMEOUT_ABS \<noteq> 0 then x else T_curtime T + x)"

definition added :: "timeouts \<Rightarrow> u64 \<Rightarrow> timeout \<Rightarrow> timeout" where
  "added T x t = placed_at (T_curtime T) (expiry_of T x t) (with_interval x t)"

lemma add_spec:
  assumes "tw_ok T h" "h a = Some t"
  shows "\<exists>T'. timeouts_add T h a x = Some (T', h(a \<mapsto> added T x t)) \<and> tw_ok T' (h(a \<mapsto> added T x t)) \<and>
    put_on a (place_for (T_curtime T) (expiry_of T x t)) T T'"
proof -
  let ?h = "h(a \<mapsto> with_interval x t)"
  have "tw_ok T ?h" by (rule part_change [OF assms]) (simp_all add: with_interval_def)
  from sched_spec [OF this, of a "with_interval x t" "expiry_of T x t"] obtain T' where
    "timeouts_sched T ?h a (expiry_of T x t) = Some (T', h(a \<mapsto> added T x t))" "tw_ok T' (h(a \<mapsto> added T x t))"
    "put_on a (place_for (T_curtime T) (expiry_of T x t)) T T'" by (auto simp: added_def)
  moreover have "h(a \<mapsto> t) = h" using assms(2) by auto
  ultimately show ?thesis
    using assms(2) by (auto simp: timeouts_add_def expiry_of_def with_interval_def Let_def)
qed

section \<open>Taking expired timeouts\<close>

lemma pop_part:
  assumes "tw_ok T h" "T_expired T = a # as" "h a = Some t"
  shows "tw_ok (T\<lparr>T_expired := as\<rparr>) (h(a \<mapsto> taken t))" and "to_pending t = Some Expired"
proof -
  show p: "to_pending t = Some Expired"
    using part_member [OF assms(1), of Expired a] assms(2,3) by simp
  have "timeouts_del T h a = Some (T\<lparr>T_expired := as\<rparr>, h(a \<mapsto> taken t))"
    using assms p by (simp add: timeouts_del_def tailq_remove_def taken_def)
  then show "tw_ok (T\<lparr>T_expired := as\<rparr>) (h(a \<mapsto> taken t))" using del_spec [OF assms(1,3)] by auto
qed

definition next_fire :: "u64 \<Rightarrow> u64 \<Rightarrow> u64 \<Rightarrow> u64" where
  "next_fire c e i = (let e' = e + i in if e' \<le> c then c + (i - (c - e') mod i) else e')"

definition repeats :: "timeout \<Rightarrow> bool" where
  "repeats t \<longleftrightarrow> to_flags t AND TIMEOUT_INT \<noteq> 0 \<and> 0 < to_interval t"

lemma readd_eq:
  assumes "h a = Some t" "to_interval t \<noteq> 0"
  shows "timeouts_readd T h a =
    timeouts_sched T (h(a \<mapsto> t\<lparr>to_expires := next_fire (T_curtime T) (to_expires t) (to_interval t)\<rparr>)) a
      (next_fire (T_curtime T) (to_expires t) (to_interval t))"
  using assms by (simp add: timeouts_readd_def umod_def next_fire_def Let_def)

lemma placed_expires: "placed_at c e (t\<lparr>to_expires := f\<rparr>) = placed_at c e t"
  by (cases t) (simp add: placed_at_def)

lemma get_spec:
  assumes ok: "tw_ok T h" and e: "T_expired T = a # as"
  shows "\<exists>t T' h'. h a = Some t \<and> timeouts_get T h = Some (Some a, T', h') \<and> tw_ok T' h' \<and>
    T_curtime T' = T_curtime T \<and> T_hertz T' = T_hertz T \<and>
    (let f = next_fire (T_curtime T) (to_expires t) (to_interval t) in
     if repeats t then
       h' = h(a \<mapsto> placed_at (T_curtime T) f t) \<and> T_expired T' = as @ (if f \<le> T_curtime T then [a] else [])
     else h' = h(a \<mapsto> taken t) \<and> T_expired T' = as)"
proof -
  have "a \<in> set (queue_of T Expired)" using e by simp
  then obtain t where t: "h a = Some t" using part_member [OF ok, of Expired a] by auto
  note p = pop_part [OF ok e t]
  let ?T = "T\<lparr>T_expired := as\<rparr>" and ?h = "h(a \<mapsto> taken t)"
  have tk: "taken t = t\<lparr>to_pending := None, to_timeouts := False\<rparr>" using p(2) by (simp add: taken_def)
  show ?thesis
  proof (cases "repeats t")
    case True
    let ?f = "next_fire (T_curtime T) (to_expires t) (to_interval t)"
    have i: "to_interval t \<noteq> 0" using True by (auto simp: repeats_def)
    have "tw_ok ?T (?h(a \<mapsto> (taken t)\<lparr>to_expires := ?f\<rparr>))"
      using part_free [OF p(1), of a "(taken t)\<lparr>to_expires := ?f\<rparr>"] by simp
    from sched_spec [OF this, of a "(taken t)\<lparr>to_expires := ?f\<rparr>" ?f] obtain T' where
      T': "timeouts_sched ?T (?h(a \<mapsto> (taken t)\<lparr>to_expires := ?f\<rparr>)) a ?f = Some (T', h(a \<mapsto> placed_at (T_curtime T) ?f t))"
        "tw_ok T' (h(a \<mapsto> placed_at (T_curtime T) ?f t))" "put_on a (place_for (T_curtime T) ?f) ?T T'"
      by (auto simp: placed_expires)
    have "timeouts_readd ?T ?h a = Some (T', h(a \<mapsto> placed_at (T_curtime T) ?f t))"
      using T'(1) readd_eq [of ?h a "taken t" ?T] i by simp
    then have "timeouts_get T h = Some (Some a, T', h(a \<mapsto> placed_at (T_curtime T) ?f t))"
      using e t True by (simp add: timeouts_get_def Let_def repeats_def flip: tk)
    moreover have "a \<notin> set as" using part_distinct [OF ok, of Expired] e by simp
    then have "filter (\<lambda>x. x \<noteq> a) as = as" by (intro filter_True) auto
    then have "T_expired T' = as @ (if ?f \<le> T_curtime T then [a] else [])"
      using put_on_expired [OF T'(3)] by simp
    ultimately show ?thesis using T'(2) put_on_same [OF T'(3)] t True by (auto simp: Let_def)
  next
    case False
    have "timeouts_get T h = Some (Some a, ?T, ?h)"
      using e t False by (auto simp: timeouts_get_def Let_def repeats_def tk)
    then show ?thesis using p(1) t False by (auto simp: Let_def)
  qed
qed

text \<open>Without wrap-around, an interval timeout next fires at the first multiple after the clock.\<close>

lemma next_fire_nat:
  assumes "0 < i" "unat e + unat i < 2 ^ 64" "unat c + unat i < 2 ^ 64"
  shows "\<exists>k \<ge> 1. unat (next_fire c e i) = unat e + k * unat i \<and> c < next_fire c e i \<and>
           (k = 1 \<or> unat (next_fire c e i) \<le> unat c + unat i)"
proof -
  have s: "unat (e + i) = unat e + unat i" using assms(2) by (intro unat_add_small) simp
  have i: "0 < unat i" using assms(1) by (simp add: unat_gt_0)
  show ?thesis
  proof (cases "e + i \<le> c")
    case False
    then show ?thesis using s by (intro exI [of _ 1]) (auto simp: next_fire_def Let_def)
  next
    case True
    let ?n = "unat c - (unat e + unat i)"
    let ?r = "?n mod unat i"
    have r: "unat ((c - (e + i)) mod i) = ?r" using True s by (simp add: unat_mod unat_sub)
    have ri: "?r < unat i" using i by simp
    have d: "unat (i - (c - (e + i)) mod i) = unat i - ?r"
      by (metis r ri unat_sub word_le_nat_alt less_imp_le)
    have f: "unat (next_fire c e i) = unat c + (unat i - ?r)"
      using True d assms(3) unat_add_small [of c "i - (c - (e + i)) mod i"] by (simp add: next_fire_def Let_def)
    have le: "unat e + unat i \<le> unat c" using True s by (simp add: word_le_nat_alt)
    have "?n = ?n div unat i * unat i + ?r" by simp
    then have "unat c = unat e + unat i + (?n div unat i * unat i + ?r)" using le by linarith
    moreover have "(?n div unat i + 2) * unat i = ?n div unat i * unat i + 2 * unat i" by (simp only: add_mult_distrib)
    ultimately have "unat (next_fire c e i) = unat e + (?n div unat i + 2) * unat i" using f ri by linarith
    moreover have "c < next_fire c e i" using f ri by (simp add: word_less_nat_alt)
    ultimately show ?thesis using f by (intro exI [of _ "?n div unat i + 2"]) simp
  qed
qed

section \<open>After an update\<close>

lemma moved_armed:
  "rel_option (moved c) (h a) (h' a) \<Longrightarrow>
     armed_at h' a = (case armed_at h a of Some e \<Rightarrow> if e \<le> c then None else Some e | None \<Rightarrow> None)"
proof (cases "h a")
  case (Some t)
  assume r: "rel_option (moved c) (h a) (h' a)"
  then obtain t' where t': "h' a = Some t'" "moved c t t'" using Some by (auto simp: option_rel_Some1)
  then have "to_expires t' = to_expires t" unfolding moved_def by (metis timeout.select_convs(2) timeout.surjective timeout.update_convs(3))
  then show ?thesis using Some t' by (auto simp: armed_at_def moved_def split: option.splits place.splits if_splits)
qed (simp add: armed_at_def)

section \<open>Sleeping until the next timeout\<close>

text \<open>The loop of a caller: sleep for timeouts_timeout, update, until a timeout has expired.\<close>

partial_function (option) await :: "timeouts \<Rightarrow> theap \<Rightarrow> (timeouts \<times> theap) option" where
  "await T h =
     (if timeouts_expired T then Some (T, h)
      else do {
        (T, h) \<leftarrow> timeouts_step T h (timeouts_timeout T);
        await T h
      })"

lemma await_spec:
  "tw_ok T h \<Longrightarrow> T_expired T = [] \<Longrightarrow> armed_at h b = Some e \<Longrightarrow> (\<And>a f. armed_at h a = Some f \<Longrightarrow> e \<le> f) \<Longrightarrow>
     \<exists>T' h'. await T h = Some (T', h') \<and> tw_ok T' h' \<and> T_curtime T' = e \<and>
       distinct (T_expired T') \<and> set (T_expired T') = {a. armed_at h a = Some e}"
proof (induction "unat e - unat (T_curtime T)" arbitrary: T h rule: less_induct)
  case less
  let ?c = "T_curtime T" and ?i = "timeouts_int T"
  have lt: "?c < e" by (rule armed_later [OF less.prems(1,3)])
  have i: "unat ?i \<le> unat e - unat ?c" "0 < unat ?i"
    using int_le_armed [OF less.prems(1,3)] int_pos [OF less.prems(1)] by (simp_all add: unat_gt_0 word_gt_0)
  have n: "unat (?c + ?i) = unat ?c + unat ?i"
  proof (intro unat_add_small)
    have "unat ?c + unat ?i < 18446744073709551616"
      using i lt unat_lt64 [of e] unfolding word_less_nat_alt by linarith
    then show "unat ?c + unat ?i < 2 ^ LENGTH(64)" by simp
  qed
  have ck: "clock_ok ?c (?c + ?i)" using n by (simp add: clock_ok_def word_le_nat_alt)
  obtain T' h' xs where u: "timeouts_update T h (?c + ?i) = Some (T', h')" "tw_ok T' h'" "T_curtime T' = ?c + ?i"
      "T_expired T' = xs" "distinct xs" "set xs = {a. \<exists>e. armed_at h a = Some e \<and> e \<le> ?c + ?i}"
      "\<And>a. rel_option (moved (?c + ?i)) (h a) (h' a)"
    using update_spec [OF less.prems(1) ck] less.prems(2) by auto
  have st: "timeouts_step T h (timeouts_timeout T) = Some (T', h')"
    using u(1) less.prems(2) by (simp add: timeouts_step_def timeouts_timeout_def)
  have le: "?c + ?i \<le> e" using n i lt by (simp add: word_le_nat_alt word_less_nat_alt)
  show ?case
  proof (cases "?c + ?i = e")
    case True
    have xs: "set xs = {a. armed_at h a = Some e}" unfolding u(6) True using less.prems(4) by force
    then have "xs \<noteq> []" using less.prems(3) by auto
    then have "await T' h' = Some (T', h')" using u(4) by (subst await.simps) (simp add: timeouts_expired_def)
    then have "await T h = Some (T', h')" using st less.prems(2) by (subst await.simps) (simp add: timeouts_expired_def)
    then show ?thesis using u True xs by auto
  next
    case False
    then have l: "?c + ?i < e" using le by simp
    have "a \<notin> set xs" for a
    proof
      assume "a \<in> set xs"
      then obtain f where "armed_at h a = Some f" "f \<le> ?c + ?i" using u(6) by blast
      then show False using less.prems(4) [of a f] l by (meson leD order_trans)
    qed
    then have "xs = []" by (meson last_in_set)
    moreover have ar: "armed_at h' a = armed_at h a" for a
      using moved_armed [of "?c + ?i" h a h', OF u(7)] l less.prems(4) [of a] by (fastforce split: option.splits)
    moreover have "unat e - unat (T_curtime T') < unat e - unat ?c"
      using n i lt u(3) by (simp add: word_less_nat_alt)
    ultimately have "\<exists>T2 h2. await T' h' = Some (T2, h2) \<and> tw_ok T2 h2 \<and> T_curtime T2 = e \<and>
        distinct (T_expired T2) \<and> set (T_expired T2) = {a. armed_at h' a = Some e}"
      using u less.prems(3,4) by (intro less.hyps) auto
    moreover have "await T h = await T' h'" using st less.prems(2) by (subst await.simps) (simp add: timeouts_expired_def)
    ultimately show ?thesis by (simp add: ar)
  qed
qed

section \<open>Resetting\<close>

lemma reset_each_spec:
  "set as \<subseteq> dom h \<Longrightarrow>
     reset_each h as = Some (\<lambda>a. if a \<in> set as then map_option (\<lambda>t. t\<lparr>to_pending := None, to_timeouts := False\<rparr>) (h a) else h a)"
proof (induction as arbitrary: h)
  case (Cons a as)
  then obtain t where t: "h a = Some t" by auto
  let ?h = "h(a \<mapsto> t\<lparr>to_pending := None, to_timeouts := False\<rparr>)"
  have "set as \<subseteq> dom ?h" using Cons.prems by auto
  note ih = Cons.IH [OF this]
  have "reset_each h (a # as) = reset_each ?h as" using t by simp
  moreover have "(\<lambda>b. if b \<in> set as then map_option (\<lambda>t. t\<lparr>to_pending := None, to_timeouts := False\<rparr>) (?h b) else ?h b) =
      (\<lambda>b. if b \<in> set (a # as) then map_option (\<lambda>t. t\<lparr>to_pending := None, to_timeouts := False\<rparr>) (h b) else h b)"
    using t by (intro ext) auto
  ultimately show ?case using ih by simp
qed simp

lemma reset_spec:
  assumes ok: "tw_ok T h"
  shows "timeouts_reset T h = Some (T\<lparr>T_wheel := (\<lambda>k. if k < 4 * 64 then [] else T_wheel T k), T_expired := []\<rparr>,
    \<lambda>a. map_option taken (h a))"
proof -
  let ?as = "concat (map (T_wheel T) [0..<4 * 64]) @ T_expired T"
  have m: "a \<in> set ?as \<longleftrightarrow> (\<exists>t. h a = Some t \<and> to_pending t \<noteq> None)" for a
  proof -
    have "a \<in> set ?as \<longleftrightarrow> armed_at h a \<noteq> None \<or> a \<in> set (queue_of T Expired)"
      using wheel_members [OF ok, of a] by auto
    also have "\<dots> \<longleftrightarrow> (\<exists>t. h a = Some t \<and> to_pending t \<noteq> None)"
      using part_member [OF ok, of Expired a] by (auto simp: armed_at_def split: option.splits place.splits)
    finally show ?thesis .
  qed
  have "set ?as \<subseteq> dom h" using m by blast
  from reset_each_spec [OF this] have "reset_each h ?as =
      Some (\<lambda>a. if a \<in> set ?as then map_option (\<lambda>t. t\<lparr>to_pending := None, to_timeouts := False\<rparr>) (h a) else h a)" .
  moreover have "(if a \<in> set ?as then map_option (\<lambda>t. t\<lparr>to_pending := None, to_timeouts := False\<rparr>) (h a) else h a) = map_option taken (h a)" for a
    using m [of a] by (cases "h a") (auto simp: taken_def)
  ultimately show ?thesis by (simp add: timeouts_reset_def)
qed

section \<open>The iterator\<close>

text \<open>\<open>remaining T it xs\<close>: the timeouts the iterator still has to return are xs.\<close>

definition slots_from :: "timeouts \<Rightarrow> nat \<Rightarrow> addr list" where
  "slots_from T k = concat (map (T_wheel T) [k..<256])"

definition remaining :: "timeouts \<Rightarrow> timeouts_it \<Rightarrow> addr list \<Rightarrow> bool" where
  "remaining T it xs \<longleftrightarrow>
     (case it_pc it of
        At_end \<Rightarrow> xs = []
      | Yield_wheel \<Rightarrow> \<exists>pre rest. it_i it < 4 \<and> it_j it < 64 \<and> T_wheel T (64 * it_i it + it_j it) = pre @ rest \<and>
          it_to it = first rest \<and> xs = rest @ slots_from T (Suc (64 * it_i it + it_j it))
      | Yield_expired \<Rightarrow> it_flags it = TIMEOUTS_ALL \<and> (\<exists>pre rest. T_expired T = pre @ rest \<and>
          it_to it = first rest \<and> xs = rest @ slots_from T 0)
      | At_start \<Rightarrow> it_flags it = TIMEOUTS_ALL \<and> xs = T_expired T @ slots_from T 0
      | Yield_get \<Rightarrow> False)"

lemma tailq_next_mid: "a \<notin> set pre \<Longrightarrow> tailq_next (pre @ a # rest) a = Some (first rest)"
  by (induction pre) auto

lemma drop_other:
  assumes "tw_ok T h" "a \<in> set (queue_of T p)" "valid p" "drop_from a T T'" "valid q" "q \<noteq> p"
  shows "queue_of T' q = queue_of T q"
proof -
  have "a \<notin> set (queue_of T q)" using part_member [OF assms(1,3)] part_member [OF assms(1,5)] assms(2,6) by auto
  then have "filter (\<lambda>x. x \<noteq> a) (queue_of T q) = queue_of T q" by (intro filter_True) auto
  then show ?thesis using assms(4,5) by (simp add: drop_from_def)
qed

lemma drop_here:
  assumes "tw_ok T h" "queue_of T p = pre @ a # rest" "valid p" "drop_from a T T'"
  shows "queue_of T' p = pre @ rest"
proof -
  have "distinct (pre @ a # rest)" using part_distinct [OF assms(1,3)] assms(2) by simp
  then have "filter (\<lambda>x. x \<noteq> a) pre = pre" "filter (\<lambda>x. x \<noteq> a) rest = rest" by (auto intro!: filter_True)
  then have "filter (\<lambda>x. x \<noteq> a) (pre @ a # rest) = pre @ rest" by simp
  then show ?thesis using assms(2-4) by (simp add: drop_from_def)
qed

lemma slots_from_other:
  assumes "tw_ok T h" "a \<in> set (queue_of T p)" "valid p" "drop_from a T T'" "\<And>j. p = Slot j \<Longrightarrow> j < k"
  shows "slots_from T' k = slots_from T k"
proof -
  have "T_wheel T' j = T_wheel T j" if "k \<le> j" "j < 256" for j
    using drop_other [OF assms(1-4), of "Slot j"] that assms(5) [of j] by fastforce
  then show ?thesis unfolding slots_from_def by (intro arg_cong [of _ _ concat] map_cong) auto
qed

text \<open>The scan for the next occupied slot.\<close>

lemma next_slots_spec:
  "k \<le> 256 \<Longrightarrow>
     (slots_from T k = [] \<and> next_slots T it [k..<256] = Some (None, it\<lparr>it_i := 4, it_j := 64, it_pc := At_end\<rparr>)) \<or>
     (\<exists>j a as. j < 256 \<and> T_wheel T j = a # as \<and> slots_from T k = a # as @ slots_from T (Suc j) \<and>
        next_slots T it [k..<256] = Some (Some a, it\<lparr>it_i := j div 64, it_j := j mod 64, it_to := first as, it_pc := Yield_wheel\<rparr>))"
proof (induction "256 - k" arbitrary: k)
  case (Suc n)
  then have u: "k < 256" "[k..<256] = k # [Suc k..<256]" by (simp_all add: upt_conv_Cons)
  show ?case
  proof (cases "T_wheel T k")
    case Nil
    have "slots_from T k = slots_from T (Suc k)" "next_slots T it [k..<256] = next_slots T it [Suc k..<256]"
      using Nil by (simp_all add: slots_from_def u(2))
    moreover have "n = 256 - Suc k" "Suc k \<le> 256" using Suc.hyps(2) u(1) by auto
    ultimately show ?thesis using Suc.hyps(1) [of "Suc k"] by simp
  next
    case (Cons a as)
    then show ?thesis using u by (intro disjI2 exI [of _ k] exI [of _ a] exI [of _ as]) (simp add: slots_from_def)
  qed
qed (simp add: slots_from_def)

text \<open>The state after a return: continuing works whether or not the caller deletes what it got.\<close>

definition resumable :: "timeouts \<Rightarrow> timeouts_it \<Rightarrow> addr list \<Rightarrow> bool" where
  "resumable T it xs \<longleftrightarrow>
     (case xs of [] \<Rightarrow> True | a # ys \<Rightarrow> remaining T it ys \<and> (\<forall>T'. drop_from a T T' \<longrightarrow> remaining T' it ys))"

lemma resumable_wheel:
  assumes ok: "tw_ok T h" and k: "it_i it < 4" "it_j it < 64" "k = 64 * it_i it + it_j it"
    and w: "T_wheel T k = pre @ a # rest" and it: "it_pc it = Yield_wheel" "it_to it = first rest"
  shows "resumable T it (a # rest @ slots_from T (Suc k))"
proof -
  have v: "valid (Slot k)" using k by simp
  have "remaining T it (rest @ slots_from T (Suc k))"
    unfolding remaining_def using k w it by (auto intro!: exI [of _ "pre @ [a]"])
  moreover have "remaining T' it (rest @ slots_from T (Suc k))" if "drop_from a T T'" for T'
  proof -
    have "T_wheel T' k = pre @ rest" using drop_here [OF ok _ v that, of pre rest] w by simp
    moreover have "slots_from T' (Suc k) = slots_from T (Suc k)"
      using slots_from_other [OF ok _ v that, of "Suc k"] w by simp
    ultimately show ?thesis unfolding remaining_def using k it by auto
  qed
  ultimately show ?thesis by (simp add: resumable_def)
qed

lemma next_slots_step:
  assumes "tw_ok T h" "k \<le> 256"
  shows "\<exists>it'. next_slots T it [k..<256] = Some (first (slots_from T k), it') \<and> resumable T it' (slots_from T k)"
  using next_slots_spec [OF assms(2), of T it]
proof (elim disjE exE conjE)
  fix j a as
  assume j: "j < 256" "T_wheel T j = a # as" "slots_from T k = a # as @ slots_from T (Suc j)"
    "next_slots T it [k..<256] = Some (Some a, it\<lparr>it_i := j div 64, it_j := j mod 64, it_to := first as, it_pc := Yield_wheel\<rparr>)"
  let ?it = "it\<lparr>it_i := j div 64, it_j := j mod 64, it_to := first as, it_pc := Yield_wheel\<rparr>"
  have "resumable T ?it (a # as @ slots_from T (Suc j))"
    using j(1,2) by (intro resumable_wheel [OF assms(1), where pre = "[]"]) auto
  then show ?thesis using j(3,4) by auto
qed (simp add: resumable_def)

lemma all_flags:
  "TIMEOUTS_ALL AND TIMEOUTS_EXPIRED \<noteq> 0" "TIMEOUTS_ALL AND TIMEOUTS_CLEAR = 0" "TIMEOUTS_ALL AND TIMEOUTS_PENDING \<noteq> 0"
  by (simp_all add: TIMEOUTS_ALL_def TIMEOUTS_PENDING_def TIMEOUTS_EXPIRED_def TIMEOUTS_CLEAR_def)

lemma next_expired_step:
  assumes ok: "tw_ok T h" and f: "it_flags it = TIMEOUTS_ALL" and q: "T_expired T = pre @ rest"
  shows "\<exists>it'. next_expired T it (first rest) = Some (first (rest @ slots_from T 0), it') \<and>
    resumable T it' (rest @ slots_from T 0)"
proof (cases rest)
  case Nil
  then show ?thesis
    using next_slots_step [OF ok, of 0 it] f all_flags(3) by (simp add: next_expired_def next_pending_def)
next
  case (Cons a as)
  let ?it = "it\<lparr>it_to := first as, it_pc := Yield_expired\<rparr>"
  have v: "valid Expired" by simp
  have "a \<notin> set pre" using part_distinct [OF ok v] q Cons by simp
  then have "next_expired T it (Some a) = Some (Some a, ?it)" using q Cons by (simp add: next_expired_def tailq_next_mid)
  moreover have "remaining T ?it (as @ slots_from T 0)"
    unfolding remaining_def using f q Cons by (auto intro!: exI [of _ "pre @ [a]"])
  moreover have "remaining T' ?it (as @ slots_from T 0)" if "drop_from a T T'" for T'
  proof -
    have "T_expired T' = pre @ as" using drop_here [OF ok _ v that, of pre as] q Cons by simp
    moreover have "slots_from T' 0 = slots_from T 0" using slots_from_other [OF ok _ v that, of 0] q Cons by simp
    ultimately show ?thesis unfolding remaining_def using f by auto
  qed
  ultimately show ?thesis using Cons by (simp add: resumable_def)
qed

lemma next_step:
  assumes ok: "tw_ok T h" and r: "remaining T it xs"
  shows "\<exists>it'. timeouts_next T h it = Some (first xs, T, h, it') \<and> resumable T it' xs"
proof (cases "it_pc it")
  case At_start
  then have "it_flags it = TIMEOUTS_ALL" "xs = T_expired T @ slots_from T 0" using r by (auto simp: remaining_def)
  then show ?thesis using next_expired_step [OF ok, of it "[]" "T_expired T"] At_start all_flags
    by (auto simp: timeouts_next_def)
next
  case Yield_expired
  then obtain pre rest where "it_flags it = TIMEOUTS_ALL" "T_expired T = pre @ rest" "it_to it = first rest"
      "xs = rest @ slots_from T 0" using r by (auto simp: remaining_def)
  then show ?thesis using next_expired_step [OF ok, of it pre rest] Yield_expired by (auto simp: timeouts_next_def)
next
  case Yield_wheel
  let ?k = "64 * it_i it + it_j it"
  from Yield_wheel obtain pre rest where k: "it_i it < 4" "it_j it < 64" and w: "T_wheel T ?k = pre @ rest" "it_to it = first rest"
      "xs = rest @ slots_from T (Suc ?k)" using r by (auto simp: remaining_def)
  show ?thesis
  proof (cases rest)
    case Nil
    have "Suc ?k \<le> 256" using k by simp
    from next_slots_step [OF ok this, of it] show ?thesis
      using Nil w Yield_wheel by (auto simp: timeouts_next_def next_wheel_def)
  next
    case (Cons a as)
    let ?it = "it\<lparr>it_to := first as, it_pc := Yield_wheel\<rparr>"
    have v: "valid (Slot ?k)" using k by simp
    have "a \<notin> set pre" using part_distinct [OF ok v] w(1) Cons by simp
    then have "tailq_next (T_wheel T ?k) a = Some (first as)" using w(1) Cons by (simp add: tailq_next_mid)
    then have "timeouts_next T h it = Some (Some a, T, h, ?it)"
      using w Cons k Yield_wheel by (simp add: timeouts_next_def next_wheel_def slot_index_def)
    moreover have "resumable T ?it (a # as @ slots_from T (Suc ?k))"
      using k w(1) Cons by (intro resumable_wheel [OF ok]) auto
    ultimately show ?thesis using w(3) Cons by simp
  qed
qed (use r in \<open>auto simp: remaining_def timeouts_next_def resumable_def\<close>)

text \<open>TIMEOUTS_FOREACH, with a body that deletes the timeouts of a set.\<close>

partial_function (option) foreach ::
    "(addr \<Rightarrow> bool) \<Rightarrow> timeouts \<Rightarrow> theap \<Rightarrow> timeouts_it \<Rightarrow> (addr list \<times> timeouts \<times> theap) option" where
  "foreach del T h it = do {
     (r, T, h, it) \<leftarrow> timeouts_next T h it;
     (case r of
        None \<Rightarrow> Some ([], T, h)
      | Some a \<Rightarrow> do {
          (T, h) \<leftarrow> (if del a then timeouts_del T h a else Some (T, h));
          (as, T, h) \<leftarrow> foreach del T h it;
          Some (a # as, T, h)
        })
   }"

lemma foreach_spec:
  "tw_ok T h \<Longrightarrow> remaining T it xs \<Longrightarrow> set xs \<subseteq> dom h \<Longrightarrow> distinct xs \<Longrightarrow>
     \<exists>T' h'. foreach del T h it = Some (xs, T', h') \<and> tw_ok T' h' \<and>
       h' = (\<lambda>a. if a \<in> set xs \<and> del a then map_option taken (h a) else h a)"
proof (induction xs arbitrary: T h it)
  case Nil
  then show ?case using next_step [of T h it "[]"] by (subst foreach.simps) auto
next
  case (Cons a as)
  obtain it' where it': "timeouts_next T h it = Some (Some a, T, h, it')" "remaining T it' as"
      "\<And>T'. drop_from a T T' \<Longrightarrow> remaining T' it' as"
    using next_step [OF Cons.prems(1,2)] by (auto simp: resumable_def)
  obtain t where t: "h a = Some t" using Cons.prems(3) by auto
  show ?case
  proof (cases "del a")
    case True
    obtain T1 where T1: "timeouts_del T h a = Some (T1, h(a \<mapsto> taken t))" "tw_ok T1 (h(a \<mapsto> taken t))" "drop_from a T T1"
      using del_spec [OF Cons.prems(1) t] by blast
    let ?h = "h(a \<mapsto> taken t)"
    have "set as \<subseteq> dom ?h" "distinct as" using Cons.prems(3,4) by auto
    from Cons.IH [OF T1(2) it'(3) [OF T1(3)] this] obtain T' h' where
      "foreach del T1 ?h it' = Some (as, T', h')" "tw_ok T' h'"
      "h' = (\<lambda>b. if b \<in> set as \<and> del b then map_option taken (?h b) else ?h b)" by blast
    moreover have "h' = (\<lambda>b. if b \<in> set (a # as) \<and> del b then map_option taken (h b) else h b)"
      unfolding calculation(3) using True t Cons.prems(4) by (intro ext) auto
    moreover have "foreach del T h it = Some (a # as, T', h')"
      using it'(1) T1(1) True calculation(1) by (subst foreach.simps) simp
    ultimately show ?thesis by blast
  next
    case False
    have "set as \<subseteq> dom h" "distinct as" using Cons.prems(3,4) by auto
    from Cons.IH [OF Cons.prems(1) it'(2) this] obtain T' h' where
      "foreach del T h it' = Some (as, T', h')" "tw_ok T' h'"
      "h' = (\<lambda>b. if b \<in> set as \<and> del b then map_option taken (h b) else h b)" by blast
    moreover have "h' = (\<lambda>b. if b \<in> set (a # as) \<and> del b then map_option taken (h b) else h b)"
      unfolding calculation(3) using False by (intro ext) auto
    moreover have "foreach del T h it = Some (a # as, T', h')"
      using it'(1) False calculation(1) by (subst foreach.simps) simp
    ultimately show ?thesis by blast
  qed
qed

section \<open>The states a client can reach\<close>

text \<open>
  A client opens a wheel, initialises timeouts, sets their callbacks, calls the operations in any
  order, and frees timeouts that are on no queue.
\<close>

inductive tw_reach :: "timeouts \<Rightarrow> theap \<Rightarrow> bool" where
  opened: "timeouts_open (Some M) hz errno = Inr T \<Longrightarrow> tw_reach T Map.empty"
| init: "tw_reach T h \<Longrightarrow> h a = None \<Longrightarrow> tw_reach T (h(a \<mapsto> timeout_init flags))"
| setcb: "tw_reach T h \<Longrightarrow> h a = Some t \<Longrightarrow> tw_reach T (h(a \<mapsto> t\<lparr>to_fn := fn, to_arg := arg\<rparr>))"
| add: "tw_reach T h \<Longrightarrow> timeouts_add T h a x = Some (T', h') \<Longrightarrow> tw_reach T' h'"
| del: "tw_reach T h \<Longrightarrow> timeouts_del T h a = Some (T', h') \<Longrightarrow> tw_reach T' h'"
| update: "tw_reach T h \<Longrightarrow> clock_ok (T_curtime T) new \<Longrightarrow> timeouts_update T h new = Some (T', h') \<Longrightarrow> tw_reach T' h'"
| get: "tw_reach T h \<Longrightarrow> timeouts_get T h = Some (r, T', h') \<Longrightarrow> tw_reach T' h'"
| free: "tw_reach T h \<Longrightarrow> h a = Some t \<Longrightarrow> to_pending t = None \<Longrightarrow> tw_reach T (h(a := None))"

lemma open_ok: "timeouts_open (Some M) hz errno = Inr T \<Longrightarrow> tw_ok T Map.empty"
proof (rule partI)
  assume "timeouts_open (Some M) hz errno = Inr T"
  then have T: "T = timeouts_init M hz" by (simp add: timeouts_open_def)
  show "bitmap_ok T" by (simp add: T timeouts_init_def bitmap_ok_def)
  show "distinct (queue_of T p)" "a \<in> set (queue_of T p) \<longleftrightarrow> a \<notin> {} \<and> (\<exists>t. Map.empty a = Some t \<and> to_pending t = Some p)"
    if "valid p" for p a using that by (cases p; simp add: T timeouts_init_def)+
qed simp_all

lemma part_fresh: "tw_ok T h \<Longrightarrow> h a = None \<Longrightarrow> to_pending t = None \<Longrightarrow> tw_ok T (h(a \<mapsto> t))"
proof (rule partI)
  assume ok: "tw_ok T h" and a: "h a = None" "to_pending t = None"
  show "b \<in> set (queue_of T p) \<longleftrightarrow> b \<notin> {} \<and> (\<exists>u. (h(a \<mapsto> t)) b = Some u \<and> to_pending u = Some p)" if "valid p" for p b
    using part_member [OF ok that, of b] a by auto
  show "valid p \<and> to_timeouts u \<and> fits (T_curtime T) p (to_expires u)"
    if "(h(a \<mapsto> t)) b = Some u" "b \<notin> {}" "to_pending u = Some p" for b u p
    using part_place [OF ok, of b u p] that a by (auto split: if_splits)
qed (use part_bitmap part_distinct in auto)

lemma part_freed: "tw_ok T h \<Longrightarrow> h a = Some t \<Longrightarrow> to_pending t = None \<Longrightarrow> tw_ok T (h(a := None))"
proof (rule partI)
  assume ok: "tw_ok T h" and a: "h a = Some t" "to_pending t = None"
  show "b \<in> set (queue_of T p) \<longleftrightarrow> b \<notin> {} \<and> (\<exists>u. (h(a := None)) b = Some u \<and> to_pending u = Some p)" if "valid p" for p b
    using part_member [OF ok that, of b] a by auto
  show "valid p \<and> to_timeouts u \<and> fits (T_curtime T) p (to_expires u)"
    if "(h(a := None)) b = Some u" "b \<notin> {}" "to_pending u = Some p" for b u p
    using part_place [OF ok, of b u p] that a by (auto split: if_splits)
qed (use part_bitmap part_distinct in auto)

lemma get_ok: "tw_ok T h \<Longrightarrow> \<exists>r T' h'. timeouts_get T h = Some (r, T', h') \<and> tw_ok T' h'"
proof (cases "T_expired T")
  case (Cons a as)
  assume "tw_ok T h"
  from get_spec [OF this Cons] show ?thesis by blast
qed (simp add: timeouts_get_def)

lemma reach_ok: "tw_reach T h \<Longrightarrow> tw_ok T h"
proof (induction rule: tw_reach.induct)
  case (opened M hz errno T)
  then show ?case by (rule open_ok)
next
  case (init T h a flags)
  show ?case by (rule part_fresh [OF init.IH init.hyps(2)]) (simp add: timeout_init_def)
next
  case (setcb T h a t fn arg)
  show ?case by (rule part_change [OF setcb.IH setcb.hyps(2)]) simp_all
next
  case (free T h a t)
  show ?case by (rule part_freed [OF free.IH free.hyps(2,3)])
next
  case (add T h a x T' h')
  obtain t where t: "h a = Some t" using add.hyps(2) by (cases "h a") (auto simp: timeouts_add_def)
  from add_spec [OF add.IH t, of x] show ?case unfolding add.hyps(2) by blast
next
  case (del T h a T' h')
  obtain t where t: "h a = Some t" using del.hyps(2) by (cases "h a") (auto simp: timeouts_del_def)
  from del_spec [OF del.IH t] show ?case unfolding del.hyps(2) by blast
next
  case (update T h new T' h')
  from update_spec [OF update.IH update.hyps(2)] show ?case unfolding update.hyps(3) by blast
next
  case (get T h r T' h')
  from get_ok [OF get.IH] show ?case unfolding get.hyps(2) by blast
qed

end
