(* ===== verification/Timeout_Theorems.thy ===== *)
theory Timeout_Theorems
  imports Timeout_Events
begin

unbundle bit_operations_syntax

text \<open>
  The properties of the timing wheel, with a witness for each: a wheel with two pending timeouts, one
  on wheel 0 and an interval timeout on wheel 1.
\<close>

section \<open>A concrete wheel\<close>

definition wheel_memory :: timeouts where
  "wheel_memory = \<lparr>T_wheel = (\<lambda>k. []), T_expired = [], T_pending = (\<lambda>i. 0), T_curtime = 7, T_hertz = 7\<rparr>"

definition demo_T0 :: timeouts where
  "demo_T0 = timeouts_init wheel_memory 0"

definition demo_h0 :: theap where
  "demo_h0 = [1 \<mapsto> timeout_init 0, 2 \<mapsto> timeout_init TIMEOUT_INT]"

definition demo_1 :: timeout where
  "demo_1 = (timeout_init 0)\<lparr>to_expires := 5, to_pending := Some (Slot 5), to_timeouts := True\<rparr>"

definition demo_2 :: timeout where
  "demo_2 = (timeout_init TIMEOUT_INT)\<lparr>to_expires := 70, to_pending := Some (Slot 64), to_interval := 70, to_timeouts := True\<rparr>"

definition demo_h :: theap where
  "demo_h = [1 \<mapsto> demo_1, 2 \<mapsto> demo_2]"

definition demo_T :: timeouts where
  "demo_T = \<lparr>T_wheel = (\<lambda>k. [])(5 := [1], 64 := [2]), T_expired = [], T_pending = (\<lambda>i. 0)(0 := 32, 1 := 1),
     T_curtime = 0, T_hertz = 1000\<rparr>"

lemma demo_fls: "fls 5 = 3" "fls 70 = 7" "TIMEOUT_MAX = 16777215"
  by (simp_all add: fls_def clz64_def process_clz_def TIMEOUT_MAX_def push_bit_of_1)

lemma demo_init: "demo_T0 = \<lparr>T_wheel = (\<lambda>k. []), T_expired = [], T_pending = (\<lambda>i. 0), T_curtime = 0, T_hertz = 1000\<rparr>"
  by (simp add: demo_T0_def timeouts_init_def wheel_memory_def TIMEOUT_mHZ_def fun_eq_iff)

lemma demo_ok0: "tw_reach demo_T0 demo_h0"
proof -
  have "tw_reach demo_T0 Map.empty" by (rule opened [of wheel_memory 0 0]) (simp add: timeouts_open_def demo_T0_def)
  from init [OF this, of 1 0] have "tw_reach demo_T0 [1 \<mapsto> timeout_init 0]" by simp
  from init [OF this, of 2 TIMEOUT_INT] show ?thesis by (simp add: demo_h0_def)
qed

lemma demo_add1:
  "timeouts_add demo_T0 demo_h0 1 5 =
     Some (demo_T0\<lparr>T_wheel := (T_wheel demo_T0)(5 := [1]), T_pending := (T_pending demo_T0)(0 := 32)\<rparr>, demo_h0(1 \<mapsto> demo_1))"
  by (simp add: timeouts_add_def timeouts_sched_def timeouts_del_def demo_init demo_h0_def
      timeout_init_def TIMEOUT_INT_def TIMEOUT_ABS_def Let_def timeout_rem_def timeout_wheel_def timeout_slot_def
      demo_fls slot_index_def demo_1_def wheel_memory_def push_bit_of_1)

lemma demo_add2:
  "timeouts_add (demo_T0\<lparr>T_wheel := (T_wheel demo_T0)(5 := [1]), T_pending := (T_pending demo_T0)(0 := 32)\<rparr>) (demo_h0(1 \<mapsto> demo_1)) 2 70 =
     Some (demo_T, demo_h)"
  by (simp add: timeouts_add_def timeouts_sched_def timeouts_del_def demo_init demo_h0_def
      timeout_init_def TIMEOUT_INT_def TIMEOUT_ABS_def TIMEOUT_mHZ_def Let_def timeout_rem_def timeout_wheel_def timeout_slot_def
      demo_fls slot_index_def demo_1_def demo_2_def demo_T_def demo_h_def wheel_memory_def push_bit_of_1)

lemma demo_reach: "tw_reach demo_T demo_h"
  using add [OF add [OF demo_ok0 demo_add1] demo_add2] .

lemma demo_ok: "tw_ok demo_T demo_h"
  by (rule reach_ok [OF demo_reach])

lemma demo_armed: "armed_at demo_h = [1 \<mapsto> 5, 2 \<mapsto> 70]"
  by (auto simp: armed_at_def demo_h_def demo_1_def demo_2_def fun_eq_iff)

lemma distinct_singleton: "distinct xs \<Longrightarrow> set xs = {a} \<Longrightarrow> xs = [a]"
  using distinct_card [of xs] by (cases xs; cases "tl xs") auto

lemma armed_placed: "armed_at (h(a \<mapsto> placed_at c e t)) = (armed_at h)(a := if c < e then Some e else None)"
proof (intro ext)
  fix b
  have "armed_at (h(a \<mapsto> placed_at c e t)) a = (if c < e then Some e else None)"
  proof (cases "place_for c e")
    case (Slot k)
    then have "c < e" using place_for_expired [of c e] by auto
    then show ?thesis using Slot by (simp add: armed_at_def)
  next
    case Expired
    then have "\<not> c < e" by simp
    then show ?thesis by (simp add: armed_at_def Expired del: place_for_expired)
  qed
  then show "armed_at (h(a \<mapsto> placed_at c e t)) b = ((armed_at h)(a := if c < e then Some e else None)) b"
    by (cases "b = a") (auto simp: armed_at_def)
qed

section \<open>Properties\<close>

text \<open>
  C14: timeouts_update, for a clock that moves forward (or back by at least four full wheels), never
  touches invalid memory, ends, keeps the invariant, and appends to the expired queue exactly the
  pending timeouts whose time has come, each once. All other pending timeouts stay pending with
  their time, and of every timeout only to->pending can change.
\<close>

theorem timeouts_update_fires:
  assumes "tw_ok T h" and "clock_ok (T_curtime T) now"
  shows "\<exists>T' h' xs. timeouts_update T h now = Some (T', h') \<and> tw_ok T' h' \<and> T_curtime T' = now \<and>
    T_expired T' = T_expired T @ xs \<and> distinct xs \<and> set xs = {a. \<exists>e. armed_at h a = Some e \<and> e \<le> now} \<and>
    (\<forall>a. armed_at h' a = (case armed_at h a of Some e \<Rightarrow> if e \<le> now then None else Some e | None \<Rightarrow> None)) \<and>
    (\<forall>a. rel_option (moved now) (h a) (h' a))"
  using update_spec [OF assms] moved_armed by blast

lemma timeouts_update_fires_witness:
  "\<exists>T' h' xs. timeouts_update demo_T demo_h 69 = Some (T', h') \<and> T_expired T' = xs \<and> set xs = {1} \<and> armed_at h' 2 = Some 70"
proof -
  have "clock_ok (T_curtime demo_T) 69" by (simp add: clock_ok_def demo_T_def)
  from timeouts_update_fires [OF demo_ok this] obtain T' h' xs where
    "timeouts_update demo_T demo_h 69 = Some (T', h')" "T_expired T' = T_expired demo_T @ xs"
    "set xs = {a. \<exists>e. armed_at demo_h a = Some e \<and> e \<le> 69}"
    "\<And>a. armed_at h' a = (case armed_at demo_h a of Some e \<Rightarrow> if e \<le> 69 then None else Some e | None \<Rightarrow> None)" by blast
  moreover have "{a. \<exists>e. armed_at demo_h a = Some e \<and> e \<le> 69} = {1}" by (auto simp: demo_armed split: if_splits)
  ultimately show ?thesis by (simp add: demo_armed demo_T_def)
qed

text \<open>
  C15: timeouts_add takes the timeout off the queue it is on and schedules it anew, relative to the
  clock or absolute, with the interval recorded for TIMEOUT_INT: it is pending exactly when its time
  is ahead, and at the end of the expired queue otherwise. No other timeout is affected.
\<close>

theorem timeouts_add_arms:
  assumes "tw_ok T h" and "h a = Some t"
  shows "\<exists>T'. timeouts_add T h a x = Some (T', h(a \<mapsto> added T x t)) \<and> tw_ok T' (h(a \<mapsto> added T x t)) \<and>
    T_curtime T' = T_curtime T \<and>
    armed_at (h(a \<mapsto> added T x t)) = (armed_at h)(a := if T_curtime T < expiry_of T x t then Some (expiry_of T x t) else None) \<and>
    T_expired T' = filter (\<lambda>b. b \<noteq> a) (T_expired T) @ (if expiry_of T x t \<le> T_curtime T then [a] else [])"
proof -
  have "armed_at (h(a \<mapsto> added T x t)) = (armed_at h)(a := if T_curtime T < expiry_of T x t then Some (expiry_of T x t) else None)"
    by (simp add: added_def armed_placed)
  then show ?thesis using add_spec [OF assms, of x] put_on_expired put_on_same by metis
qed

lemma timeouts_add_arms_witness:
  "\<exists>T'. timeouts_add demo_T demo_h 1 100 = Some (T', demo_h(1 \<mapsto> added demo_T 100 demo_1)) \<and>
     armed_at (demo_h(1 \<mapsto> added demo_T 100 demo_1)) = [1 \<mapsto> 100, 2 \<mapsto> 70]"
proof -
  have "demo_h 1 = Some demo_1" "expiry_of demo_T 100 demo_1 = 100" "T_curtime demo_T = 0"
    by (simp_all add: demo_h_def expiry_of_def demo_1_def demo_T_def timeout_init_def)
  moreover have "(armed_at demo_h)(1 \<mapsto> 100) = [1 \<mapsto> 100, 2 \<mapsto> 70]" by (auto simp: demo_armed)
  ultimately show ?thesis using timeouts_add_arms [OF demo_ok, of 1 demo_1 100] by auto
qed

text \<open>
  timeouts_del takes exactly the given timeout off whatever queue it is on, and does nothing to a
  timeout that is on none; a second timeouts_del has no effect.
\<close>

theorem timeouts_del_disarms:
  assumes "tw_ok T h" and "h a = Some t"
  shows "\<exists>T'. timeouts_del T h a = Some (T', h(a \<mapsto> taken t)) \<and> tw_ok T' (h(a \<mapsto> taken t)) \<and>
    T_curtime T' = T_curtime T \<and> armed_at (h(a \<mapsto> taken t)) = (armed_at h)(a := None) \<and>
    T_expired T' = filter (\<lambda>b. b \<noteq> a) (T_expired T) \<and>
    timeouts_del T' (h(a \<mapsto> taken t)) a = Some (T', h(a \<mapsto> taken t))"
proof -
  obtain T' where T': "timeouts_del T h a = Some (T', h(a \<mapsto> taken t))" "tw_ok T' (h(a \<mapsto> taken t))" "drop_from a T T'"
    using del_spec [OF assms] by blast
  have "T_expired T' = filter (\<lambda>b. b \<noteq> a) (T_expired T)"
    using T'(3) unfolding drop_from_def by (metis queue_of_simps(2) valid.simps(2))
  moreover have "armed_at (h(a \<mapsto> taken t)) = (armed_at h)(a := None)" by (auto simp: armed_at_def)
  moreover have "timeouts_del T' (h(a \<mapsto> taken t)) a = Some (T', h(a \<mapsto> taken t))" by (simp add: timeouts_del_def)
  moreover have "T_curtime T' = T_curtime T" using T'(3) by (simp add: drop_from_def)
  ultimately show ?thesis using T'(1,2) by blast
qed

lemma timeouts_del_disarms_witness:
  "\<exists>T'. timeouts_del demo_T demo_h 2 = Some (T', demo_h(2 \<mapsto> taken demo_2)) \<and> armed_at (demo_h(2 \<mapsto> taken demo_2)) 2 = None"
proof -
  have "demo_h 2 = Some demo_2" by (simp add: demo_h_def)
  from timeouts_del_disarms [OF demo_ok this] show ?thesis by auto
qed

text \<open>
  timeouts_get returns NULL exactly when nothing has expired, and otherwise the first timeout of
  the expired queue. A one-shot timeout is then on no queue; an interval timeout is scheduled again.
\<close>

theorem timeouts_get_pops:
  assumes "tw_ok T h"
  shows "\<exists>T' h'. timeouts_get T h = Some (first (T_expired T), T', h') \<and> tw_ok T' h' \<and> T_curtime T' = T_curtime T \<and>
    (case T_expired T of
       [] \<Rightarrow> T' = T \<and> h' = h
     | a # as \<Rightarrow> \<exists>t. h a = Some t \<and>
         (if repeats t then
            h' = h(a \<mapsto> placed_at (T_curtime T) (next_fire (T_curtime T) (to_expires t) (to_interval t)) t)
          else h' = h(a \<mapsto> taken t) \<and> T_expired T' = as))"
proof (cases "T_expired T")
  case Nil
  then show ?thesis using assms by (simp add: timeouts_get_def)
next
  case (Cons a as)
  from get_spec [OF assms Cons] obtain t T' h' where "h a = Some t" "timeouts_get T h = Some (Some a, T', h')" "tw_ok T' h'"
    "T_curtime T' = T_curtime T" and r: "let f = next_fire (T_curtime T) (to_expires t) (to_interval t) in
     if repeats t then h' = h(a \<mapsto> placed_at (T_curtime T) f t) \<and> T_expired T' = as @ (if f \<le> T_curtime T then [a] else [])
     else h' = h(a \<mapsto> taken t) \<and> T_expired T' = as" by blast
  then show ?thesis using Cons by (cases "repeats t") (auto simp: Let_def)
qed

lemma timeouts_get_pops_witness:
  "\<exists>T h T' h'. tw_ok T h \<and> timeouts_get T h = Some (Some 1, T', h') \<and> T_expired T' = [] \<and> h' 1 = Some ((timeout_init 0)\<lparr>to_expires := 5\<rparr>)"
proof -
  have "clock_ok (T_curtime demo_T) 10" by (simp add: clock_ok_def demo_T_def)
  from update_spec [OF demo_ok this] obtain T h xs where T: "tw_ok T h" "T_expired T = xs" "distinct xs"
    "set xs = {a. \<exists>e. armed_at demo_h a = Some e \<and> e \<le> 10}" "rel_option (moved 10) (demo_h 1) (h 1)"
    by (auto simp: demo_T_def)
  have "{a. \<exists>e. armed_at demo_h a = Some e \<and> e \<le> 10} = {1}" by (auto simp: demo_armed split: if_splits)
  then have xs: "T_expired T = [1]" using T(2-4) distinct_singleton by simp
  obtain t where t: "h 1 = Some t" "moved 10 demo_1 t" using T(5) by (auto simp: demo_h_def option_rel_Some1)
  have m: "t = demo_1\<lparr>to_pending := Some Expired\<rparr>" using t(2) by (auto simp: moved_def demo_1_def)
  have nr: "\<not> repeats t" by (simp add: m repeats_def demo_1_def timeout_init_def)
  from timeouts_get_pops [OF T(1)] xs t(1) nr obtain T' h' where
    "timeouts_get T h = Some (Some 1, T', h')" "h' = h(1 \<mapsto> taken t)" "T_expired T' = []" by auto
  moreover have "taken t = (timeout_init 0)\<lparr>to_expires := 5\<rparr>" by (simp add: m taken_def demo_1_def timeout_init_def)
  ultimately show ?thesis using T(1) by (intro exI [of _ T] exI [of _ h] exI [of _ T'] exI [of _ h']) simp
qed

text \<open>
  an interval timeout that timeouts_get returns is pending again, at the first of its multiples
  after its last time that is ahead of the clock, as long as the sums fit 64 bits.
\<close>

theorem timeouts_get_interval:
  assumes "tw_ok T h" and "T_expired T = a # as" and "h a = Some t" and "repeats t"
    and "unat (to_expires t) + unat (to_interval t) < 2 ^ 64" and "unat (T_curtime T) + unat (to_interval t) < 2 ^ 64"
  shows "\<exists>T' h' e k. timeouts_get T h = Some (Some a, T', h') \<and> T_expired T' = as \<and> armed_at h' a = Some e \<and>
    1 \<le> k \<and> unat e = unat (to_expires t) + k * unat (to_interval t) \<and> T_curtime T < e \<and>
    (k = 1 \<or> unat e \<le> unat (T_curtime T) + unat (to_interval t))"
proof -
  let ?f = "next_fire (T_curtime T) (to_expires t) (to_interval t)"
  obtain k where k: "1 \<le> k" "unat ?f = unat (to_expires t) + k * unat (to_interval t)" "T_curtime T < ?f"
      "k = 1 \<or> unat ?f \<le> unat (T_curtime T) + unat (to_interval t)"
    using next_fire_nat [OF _ assms(5,6)] assms(4) by (auto simp: repeats_def)
  obtain T' h' where g: "timeouts_get T h = Some (Some a, T', h')" "h' = h(a \<mapsto> placed_at (T_curtime T) ?f t)" "T_expired T' = as"
    using get_spec [OF assms(1,2)] assms(3,4) k(3) by (auto simp: Let_def)
  have "armed_at h' a = Some ?f" using g(2) k(3) by (simp add: armed_placed)
  then show ?thesis using g k by blast
qed

lemma timeouts_get_interval_witness:
  "\<exists>T h T' h' e. tw_ok T h \<and> timeouts_get T h = Some (Some 2, T', h') \<and> armed_at h' 2 = Some e \<and> (\<exists>k \<ge> 1. unat e = 70 + k * 70) \<and> 200 < e \<and> (unat e = 140 \<or> unat e \<le> 270)"
proof -
  obtain T1 where T1: "timeouts_del demo_T demo_h 1 = Some (T1, demo_h(1 \<mapsto> taken demo_1))" "tw_ok T1 (demo_h(1 \<mapsto> taken demo_1))" "drop_from 1 demo_T T1"
    using del_spec [OF demo_ok, of 1 demo_1] by (auto simp: demo_h_def)
  let ?h = "demo_h(1 \<mapsto> taken demo_1)"
  have T1e: "T_curtime T1 = 0" "T_expired T1 = []"
    using T1(3) by (auto simp: drop_from_def demo_T_def dest!: spec [of _ Expired])
  have ar: "armed_at ?h = [2 \<mapsto> 70]" by (auto simp: armed_at_def demo_h_def demo_2_def fun_eq_iff)
  have "clock_ok (T_curtime T1) 200" by (simp add: clock_ok_def T1e)
  from update_spec [OF T1(2) this] obtain T h xs where T: "tw_ok T h" "T_curtime T = 200" "T_expired T = T_expired T1 @ xs" "distinct xs"
    "set xs = {a. \<exists>e. armed_at ?h a = Some e \<and> e \<le> 200}" "rel_option (moved 200) (?h 2) (h 2)" by blast
  have "{a. \<exists>e. armed_at ?h a = Some e \<and> e \<le> 200} = {2}" unfolding ar by (auto split: if_splits)
  then have xs: "T_expired T = [2]" using T(3-5) distinct_singleton T1e(2) by simp
  obtain t where t: "h 2 = Some t" "moved 200 demo_2 t" using T(6) by (auto simp: demo_h_def option_rel_Some1)
  have m: "t = demo_2\<lparr>to_pending := Some Expired\<rparr>" using t(2) by (auto simp: moved_def demo_2_def)
  have i: "to_expires t = 70" "to_interval t = 70" "repeats t"
    by (simp_all add: m repeats_def demo_2_def timeout_init_def TIMEOUT_INT_def)
  from timeouts_get_interval [OF T(1) xs t(1) i(3)] obtain T' h' e k where
    "timeouts_get T h = Some (Some 2, T', h')" "armed_at h' 2 = Some e" "1 \<le> k" "unat e = 70 + k * 70" "200 < e" "k = 1 \<or> unat e \<le> 270"
    by (auto simp: i T(2))
  then show ?thesis using T(1) by (intro exI [of _ T] exI [of _ h] exI [of _ T'] exI [of _ h'] exI [of _ e]) auto
qed

text \<open>
  C16: timeouts_check, which compares the fast interval computation with a search over all timeouts,
  succeeds in every reachable state.
\<close>

theorem timeouts_check_passes:
  assumes "tw_reach T h"
  shows "timeouts_check T h = Some True"
  by (rule check_passes [OF reach_ok [OF assms]])

lemma timeouts_check_passes_witness: "timeouts_check demo_T demo_h = Some True"
  by (rule timeouts_check_passes [OF demo_reach])

text \<open>
  timeouts_timeout is 0 exactly when a timeout has expired, never more than the time left of any
  pending timeout, and the maximal value when there is none.
\<close>

theorem timeouts_timeout_bound:
  assumes "tw_ok T h"
  shows "(timeouts_timeout T = 0 \<longleftrightarrow> timeouts_expired T) \<and>
    (\<forall>a e. armed_at h a = Some e \<longrightarrow> unat (timeouts_timeout T) \<le> unat e - unat (T_curtime T)) \<and>
    ((\<forall>a. armed_at h a = None) \<longrightarrow> timeouts_timeout T = (if timeouts_expired T then 0 else NOT 0))"
proof -
  have "timeouts_int T \<noteq> 0" using int_pos [OF assms] by auto
  then show ?thesis
    using int_le_armed [OF assms] int_none [OF assms] by (auto simp: timeouts_timeout_def timeouts_expired_def)
qed

lemma timeouts_timeout_bound_witness: "0 < timeouts_timeout demo_T \<and> unat (timeouts_timeout demo_T) \<le> 5"
proof -
  have "armed_at demo_h 1 = Some 5" "T_curtime demo_T = 0" by (simp_all add: demo_armed, simp add: demo_T_def)
  moreover have "\<not> timeouts_expired demo_T" by (simp add: timeouts_expired_def demo_T_def)
  ultimately show ?thesis using timeouts_timeout_bound [OF demo_ok] by (fastforce simp: word_gt_0)
qed

text \<open>
  C17: a client that repeatedly sleeps for timeouts_timeout and updates the wheel wakes up with the
  expired timeouts exactly at the earliest time of a pending timeout: it never oversleeps and does
  not loop forever.
\<close>

theorem sleeping_reaches_earliest:
  assumes "tw_ok T h" and "\<not> timeouts_expired T" and "armed_at h b = Some e" and "\<And>a f. armed_at h a = Some f \<Longrightarrow> e \<le> f"
  shows "\<exists>T' h'. await T h = Some (T', h') \<and> tw_ok T' h' \<and> T_curtime T' = e \<and>
    set (T_expired T') = {a. armed_at h a = Some e}"
proof -
  have "T_expired T = []" using assms(2) by (simp add: timeouts_expired_def)
  then have "\<exists>T' h'. await T h = Some (T', h') \<and> tw_ok T' h' \<and> T_curtime T' = e \<and>
      distinct (T_expired T') \<and> set (T_expired T') = {a. armed_at h a = Some e}"
    using assms(4) by (rule await_spec [OF assms(1) _ assms(3)])
  then show ?thesis by blast
qed

lemma sleeping_reaches_earliest_witness:
  "\<exists>T' h'. await demo_T demo_h = Some (T', h') \<and> T_curtime T' = 5 \<and> set (T_expired T') = {1}"
proof -
  have "\<not> timeouts_expired demo_T" by (simp add: timeouts_expired_def demo_T_def)
  moreover have "armed_at demo_h 1 = Some 5" "armed_at demo_h a = Some f \<Longrightarrow> 5 \<le> f" for a f
    by (auto simp: demo_armed split: if_splits)
  moreover have "{a. armed_at demo_h a = Some 5} = {1}" by (auto simp: demo_armed split: if_splits)
  ultimately show ?thesis using sleeping_reaches_earliest [OF demo_ok] by metis
qed

text \<open>
  C18: updating the clock in two steps gives the same as one step: the same timeouts expire, and the
  same ones stay pending.
\<close>

theorem timeouts_update_splits:
  assumes "tw_ok T h" and "T_curtime T \<le> t1" and "t1 \<le> t2"
  shows "\<exists>T1 h1 T2 h2 T' h'. timeouts_update T h t1 = Some (T1, h1) \<and> timeouts_update T1 h1 t2 = Some (T2, h2) \<and>
    timeouts_update T h t2 = Some (T', h') \<and> T_curtime T' = T_curtime T2 \<and>
    armed_at h' = armed_at h2 \<and> set (T_expired T') = set (T_expired T2)"
proof -
  have c: "clock_ok (T_curtime T) t1" "clock_ok t1 t2" "clock_ok (T_curtime T) t2" using assms(2,3) by (auto simp: clock_ok_def)
  obtain T1 h1 xs where u1: "timeouts_update T h t1 = Some (T1, h1)" "tw_ok T1 h1" "T_curtime T1 = t1" "T_expired T1 = T_expired T @ xs"
      "set xs = {a. \<exists>e. armed_at h a = Some e \<and> e \<le> t1}" "\<forall>a. rel_option (moved t1) (h a) (h1 a)"
    using update_spec [OF assms(1) c(1)] by blast
  obtain T2 h2 ys where u2: "timeouts_update T1 h1 t2 = Some (T2, h2)" "T_curtime T2 = t2" "T_expired T2 = T_expired T1 @ ys"
      "set ys = {a. \<exists>e. armed_at h1 a = Some e \<and> e \<le> t2}" "\<forall>a. rel_option (moved t2) (h1 a) (h2 a)"
    using update_spec [OF u1(2), unfolded u1(3), OF c(2)] by blast
  obtain T' h' zs where u: "timeouts_update T h t2 = Some (T', h')" "T_curtime T' = t2" "T_expired T' = T_expired T @ zs"
      "set zs = {a. \<exists>e. armed_at h a = Some e \<and> e \<le> t2}" "\<forall>a. rel_option (moved t2) (h a) (h' a)"
    using update_spec [OF assms(1) c(3)] by blast
  have m1: "armed_at h1 a = (case armed_at h a of Some e \<Rightarrow> if e \<le> t1 then None else Some e | None \<Rightarrow> None)" for a
    using u1(6) moved_armed [of t1 h a h1] by blast
  have m2: "armed_at h2 a = (case armed_at h1 a of Some e \<Rightarrow> if e \<le> t2 then None else Some e | None \<Rightarrow> None)" for a
    using u2(5) moved_armed [of t2 h1 a h2] by blast
  have m: "armed_at h' a = (case armed_at h a of Some e \<Rightarrow> if e \<le> t2 then None else Some e | None \<Rightarrow> None)" for a
    using u(5) moved_armed [of t2 h a h'] by blast
  have le: "e \<le> t1 \<Longrightarrow> e \<le> t2" for e using assms(3) by (rule order_trans [rotated])
  have "armed_at h' a = armed_at h2 a" for a by (cases "armed_at h a") (simp_all add: m m1 m2 le)
  then have "armed_at h' = armed_at h2" by (rule ext)
  moreover have "a \<in> set zs \<longleftrightarrow> a \<in> set xs \<union> set ys" for a
    unfolding u1(5) u2(4) u(4) by (cases "armed_at h a") (auto simp: m1 le)
  then have "set zs = set xs \<union> set ys" by blast
  ultimately show ?thesis using u1(1,4) u2(1-3) u(1-3) by auto
qed

lemma timeouts_update_splits_witness:
  "\<exists>T1 h1 T2 h2 T' h'. timeouts_update demo_T demo_h 64 = Some (T1, h1) \<and> timeouts_update T1 h1 70 = Some (T2, h2) \<and>
     timeouts_update demo_T demo_h 70 = Some (T', h') \<and> set (T_expired T') = set (T_expired T2)"
  using timeouts_update_splits [OF demo_ok, of 64 70] by (force simp: demo_T_def)

text \<open>
  TIMEOUTS_FOREACH over all timeouts returns the expired ones in queue order and then every
  pending one, each exactly once, also when the body deletes the timeouts it was given; those, and no
  others, are then on no queue.
\<close>

theorem timeouts_next_enumerates:
  assumes "tw_ok T h"
  shows "\<exists>xs T' h'. foreach del T h (TIMEOUTS_IT_INITIALIZER TIMEOUTS_ALL) = Some (T_expired T @ xs, T', h') \<and>
    distinct (T_expired T @ xs) \<and> set xs = {a. armed_at h a \<noteq> None} \<and> tw_ok T' h' \<and>
    (\<forall>a. h' a = (if a \<in> set (T_expired T @ xs) \<and> del a then map_option taken (h a) else h a))"
proof -
  let ?xs = "slots_from T 0" and ?it = "TIMEOUTS_IT_INITIALIZER TIMEOUTS_ALL"
  have r: "remaining T ?it (T_expired T @ ?xs)" by (simp add: remaining_def TIMEOUTS_IT_INITIALIZER_def)
  have m: "a \<in> set ?xs \<longleftrightarrow> armed_at h a \<noteq> None" for a using wheel_members [OF assms, of a] by (simp add: slots_from_def)
  have e: "a \<in> set (T_expired T) \<longleftrightarrow> (\<exists>t. h a = Some t \<and> to_pending t = Some Expired)" for a
    using part_member [OF assms, of Expired a] by simp
  have d: "distinct ?xs" unfolding slots_from_def by (rule distinct_concat_queues [OF assms]) simp_all
  have "distinct (T_expired T @ ?xs)" using part_distinct [OF assms, of Expired] d
    by (auto simp: m e armed_at_iff simp del: not_None_eq)
  moreover have "set (T_expired T @ ?xs) \<subseteq> dom h" using m e by (auto simp: armed_at_iff)
  ultimately obtain T' h' where "foreach del T h ?it = Some (T_expired T @ ?xs, T', h')" "tw_ok T' h'"
      "h' = (\<lambda>a. if a \<in> set (T_expired T @ ?xs) \<and> del a then map_option taken (h a) else h a)"
    using foreach_spec [OF assms r, of del] by blast
  then show ?thesis using m \<open>distinct (T_expired T @ ?xs)\<close> by (intro exI [of _ ?xs] exI [of _ T'] exI [of _ h']) auto
qed

lemma timeouts_next_enumerates_witness:
  "\<exists>xs T' h'. foreach (\<lambda>a. a = 1) demo_T demo_h (TIMEOUTS_IT_INITIALIZER TIMEOUTS_ALL) = Some (xs, T', h') \<and> set xs = {1, 2}"
proof -
  have "{a. armed_at demo_h a \<noteq> None} = {1, 2}" by (auto simp: demo_armed)
  moreover have "T_expired demo_T = []" by (simp add: demo_T_def)
  ultimately show ?thesis using timeouts_next_enumerates [OF demo_ok, of "\<lambda>a. a = 1"] by auto
qed

text \<open>
  C19: in every state a client can reach, no operation on an initialised timeout touches invalid
  memory or runs forever, timeout_pending and timeout_expired tell which queue the timeout is on, and
  a relative timeout of up to the full range is put on a wheel and slot inside the arrays.
\<close>

theorem timeouts_safe:
  assumes "tw_reach T h" and "h a = Some t"
  shows "timeouts_add T h a x \<noteq> None \<and> timeout_del T h a \<noteq> None \<and> timeouts_get T h \<noteq> None \<and>
    (clock_ok (T_curtime T) now \<longrightarrow> timeouts_update T h now \<noteq> None) \<and> timeouts_reset T h \<noteq> None \<and>
    timeout_pending t = Some (armed_at h a \<noteq> None) \<and> timeout_expired t = Some (a \<in> set (T_expired T)) \<and>
    (T_curtime T < e \<longrightarrow> timeout_wheel (e - T_curtime T) < 4 \<and> timeout_slot (timeout_wheel (e - T_curtime T)) e < 64)"
proof -
  have ok: "tw_ok T h" by (rule reach_ok [OF assms(1)])
  have pl: "to_pending t = Some p \<Longrightarrow> to_timeouts t" for p using part_place [OF ok assms(2)] by simp
  have "timeouts_add T h a x \<noteq> None" using add_spec [OF ok assms(2)] by force
  moreover have "timeouts_del T h a \<noteq> None" using del_spec [OF ok assms(2)] by force
  then have "timeout_del T h a \<noteq> None" using assms(2) pl by (cases "to_pending t") (auto simp: timeout_del_def)
  moreover have "timeouts_get T h \<noteq> None" using get_ok [OF ok] by force
  moreover have "clock_ok (T_curtime T) now \<longrightarrow> timeouts_update T h now \<noteq> None" using update_spec [OF ok] by force
  moreover have "timeouts_reset T h \<noteq> None" using reset_spec [OF ok] by simp
  moreover have "timeout_pending t = Some (armed_at h a \<noteq> None)"
    using pl assms(2) by (auto simp: timeout_pending_def armed_at_def split: option.splits place.splits)
  moreover have "timeout_expired t = Some (a \<in> set (T_expired T))"
    using pl assms(2) part_member [OF ok, of Expired a] by (auto simp: timeout_expired_def split: option.splits)
  moreover have "T_curtime T < e \<longrightarrow> timeout_wheel (e - T_curtime T) < 4 \<and> timeout_slot (timeout_wheel (e - T_curtime T)) e < 64"
    using on_wheel_placed(2) timeout_slot_lt by blast
  ultimately show ?thesis by blast
qed

lemma timeouts_safe_witness: "timeouts_update demo_T demo_h 1000 \<noteq> None \<and> timeout_pending demo_1 = Some True"
proof -
  have f: "demo_h 1 = Some demo_1" "clock_ok (T_curtime demo_T) 1000" by (simp_all add: demo_h_def clock_ok_def demo_T_def)
  note s = timeouts_safe [OF demo_reach f(1), of 0 1000 1]
  have n: "(armed_at demo_h 1 \<noteq> None) = True" by (simp add: demo_armed)
  have "timeout_pending demo_1 = Some (armed_at demo_h 1 \<noteq> None)" using s by blast
  then have "timeout_pending demo_1 = Some True" by (simp only: n)
  moreover have "timeouts_update demo_T demo_h 1000 \<noteq> None" using s f(2) by blast
  ultimately show ?thesis by blast
qed

text \<open>
  closing the wheel leaves every timeout on no queue, so that timeout_pending and timeout_expired
  are false for all of them; nothing else of a timeout changes.
\<close>

theorem timeouts_close_disarms:
  assumes "tw_ok T h"
  shows "\<exists>h'. timeouts_close T h = Some h' \<and>
    (\<forall>a. h' a = map_option taken (h a)) \<and>
    (\<forall>a t. h' a = Some t \<longrightarrow> timeout_pending t = Some False \<and> timeout_expired t = Some False)"
  using reset_spec [OF assms] by (auto simp: timeouts_close_def timeout_pending_def timeout_expired_def)

lemma timeouts_close_disarms_witness: "\<exists>h'. timeouts_close demo_T demo_h = Some h' \<and> h' 1 = Some (taken demo_1)"
  using timeouts_close_disarms [OF demo_ok] by (auto simp: demo_h_def)

text \<open>
  a relative timeout whose sum with the clock exceeds 64 bits is not kept for later: it is put
  on the expired queue at once.
\<close>

theorem timeouts_add_wraps:
  assumes "tw_ok T h" and "h a = Some t" and "to_flags t AND TIMEOUT_ABS = 0"
    and "2 ^ 64 \<le> unat (T_curtime T) + unat x"
  shows "\<exists>T' h'. timeouts_add T h a x = Some (T', h') \<and> armed_at h' a = None \<and> a \<in> set (T_expired T')"
proof -
  have s: "unat (T_curtime T + x) = (unat (T_curtime T) + unat x) mod 18446744073709551616" by (simp add: unat_word_ariths)
  have "unat (T_curtime T) + unat x - 18446744073709551616 < 18446744073709551616"
    using unat_lt64 [of x] unat_lt64 [of "T_curtime T"] by linarith
  then have "unat (T_curtime T + x) = unat (T_curtime T) + unat x - 18446744073709551616"
    using s assms(4) by (simp add: le_mod_geq)
  then have "T_curtime T + x \<le> T_curtime T" using unat_lt64 [of x] unfolding word_le_nat_alt by linarith
  then have e: "expiry_of T x t \<le> T_curtime T" using assms(3) by (simp add: expiry_of_def)
  obtain T' where T': "timeouts_add T h a x = Some (T', h(a \<mapsto> added T x t))" "put_on a (place_for (T_curtime T) (expiry_of T x t)) T T'"
    using add_spec [OF assms(1,2)] by blast
  have "armed_at (h(a \<mapsto> added T x t)) a = None" using e by (simp add: added_def armed_placed)
  moreover have "a \<in> set (T_expired T')" using put_on_expired [OF T'(2)] e by simp
  ultimately show ?thesis using T'(1) by blast
qed

lemma timeouts_add_wraps_witness:
  "\<exists>T h T' h'. T_curtime T = 10 \<and> timeouts_add T h 1 (- 1) = Some (T', h') \<and> 1 \<in> set (T_expired T')"
proof -
  have "clock_ok (T_curtime demo_T) 10" by (simp add: clock_ok_def demo_T_def)
  from update_spec [OF demo_ok this] obtain T h where T: "tw_ok T h" "T_curtime T = 10" "\<forall>a. rel_option (moved 10) (demo_h a) (h a)" by blast
  have "rel_option (moved 10) (demo_h 1) (h 1)" using T(3) by blast
  then obtain t where t: "h 1 = Some t" "moved 10 demo_1 t" by (auto simp: demo_h_def option_rel_Some1)
  have "t = demo_1\<lparr>to_pending := Some Expired\<rparr>" using t(2) by (auto simp: moved_def demo_1_def)
  then have f: "to_flags t AND TIMEOUT_ABS = 0" by (simp add: demo_1_def timeout_init_def)
  have "2 ^ 64 \<le> unat (T_curtime T) + unat (- 1 :: u64)" by (simp add: T(2) unsigned_minus_1_eq_mask mask_eq_exp_minus_1)
  from timeouts_add_wraps [OF T(1) t(1) f this] show ?thesis using T(2) by blast
qed

end
