(* ===== verification/Wahern_Store.thy ===== *)
theory Wahern_Store
  imports Slots Timeout_Theorems
begin

text \<open>
  The adapter src/benchmarks/c/impl/wahern.c, which puts the hierarchical wheel of \<open>Timeout\<close> behind the store
  interface: a \<open>struct timeout\<close> per live id, with the id in its callback argument. It is an
  instance of the contract \<open>timer_store\<close> for ids below \<open>2 ^ 60\<close> and all TTLs, by the properties of the wheel.
  malloc is an argument: it returns an address at which nothing is allocated.
\<close>

section \<open>The code\<close>

record wahern =
  wh_T :: "timeouts option"
  wh_heap :: theap
  wh_timers :: "u64 \<rightharpoonup> addr option"
  wh_cap :: u64
  wh_now :: u64
  wh_live :: u64

text \<open>The id is cast to a pointer and back.\<close>

definition ptr_of_id :: "u64 \<Rightarrow> addr option" where
  "ptr_of_id i = (if i = 0 then None else Some (unat i))"

definition id_of_ptr :: "addr option \<Rightarrow> u64" where
  "id_of_ptr p = (case p of None \<Rightarrow> 0 | Some a \<Rightarrow> of_nat a)"

definition free_timeout :: "theap \<Rightarrow> addr \<Rightarrow> theap option" where
  "free_timeout h a = (case h a of None \<Rightarrow> None | Some t \<Rightarrow> Some (h(a := None)))"

text \<open>The argument is the memory that timeouts_open gets from malloc.\<close>

definition wahern_create :: "timeouts option \<Rightarrow> wahern" where
  "wahern_create mem = \<lparr>wh_T = (case timeouts_open mem TIMEOUT_mHZ 12 of Inl err \<Rightarrow> None | Inr T \<Rightarrow> Some T), wh_heap = Map.empty,
     wh_timers = Map.empty, wh_cap = 0, wh_now = 0, wh_live = 0\<rparr>"

definition wahern_ensure_cap :: "wahern \<Rightarrow> u64 \<Rightarrow> wahern option" where
  "wahern_ensure_cap s i =
     (if i < wh_cap s then Some s
      else do {
        nc \<leftarrow> double_past i (if wh_cap s \<noteq> 0 then wh_cap s else 1024);
        _ \<leftarrow> alloc nc 8;
        Some (s\<lparr>wh_timers := (\<lambda>j. if wh_cap s \<le> j \<and> j < nc then Some None else wh_timers s j), wh_cap := nc\<rparr>)
      })"

definition wahern_start :: "(theap \<Rightarrow> addr option) \<Rightarrow> wahern \<Rightarrow> u64 \<Rightarrow> u64 \<Rightarrow> wahern option" where
  "wahern_start malloc s i ttl = do {
     s \<leftarrow> wahern_ensure_cap s i;
     a \<leftarrow> malloc (wh_heap s);
     let h = (wh_heap s)(a \<mapsto> (timeout_init 0)\<lparr>to_fn := None, to_arg := ptr_of_id i\<rparr>);
     timers \<leftarrow> wr (wh_cap s) (wh_timers s) i (Some a);
     T \<leftarrow> wh_T s;
     (T, h) \<leftarrow> timeouts_add T h a ttl;
     Some (s\<lparr>wh_T := Some T, wh_heap := h, wh_timers := timers, wh_live := wh_live s + 1\<rparr>)
   }"

definition wahern_stop :: "wahern \<Rightarrow> u64 \<Rightarrow> (bool \<times> wahern) option" where
  "wahern_stop s i =
     (if i \<ge> wh_cap s then Some (False, s)
      else do {
        p \<leftarrow> rd (wh_cap s) (wh_timers s) i;
        (case p of
           None \<Rightarrow> Some (False, s)
         | Some a \<Rightarrow> do {
             T \<leftarrow> wh_T s;
             (T, h) \<leftarrow> timeouts_del T (wh_heap s) a;
             h \<leftarrow> free_timeout h a;
             timers \<leftarrow> wr (wh_cap s) (wh_timers s) i None;
             Some (True, s\<lparr>wh_T := Some T, wh_heap := h, wh_timers := timers, wh_live := wh_live s - 1\<rparr>)
           })
      })"

text \<open>The loops that take the expired timeouts off the wheel and free them, of the tick and of the jump.\<close>

partial_function (option) wahern_drain ::
    "u64 \<Rightarrow> timeouts \<Rightarrow> theap \<Rightarrow> (u64 \<rightharpoonup> addr option) \<Rightarrow> u64 \<Rightarrow> (u64 \<times> timeouts \<times> theap \<times> (u64 \<rightharpoonup> addr option)) option" where
  "wahern_drain cap T h timers fired = do {
     (r, T, h) \<leftarrow> timeouts_get T h;
     (case r of
        None \<Rightarrow> Some (fired, T, h, timers)
      | Some a \<Rightarrow> do {
          t \<leftarrow> h a;
          let i = id_of_ptr (to_arg t);
          h \<leftarrow> free_timeout h a;
          timers \<leftarrow> wr cap timers i None;
          wahern_drain cap T h timers (fired + 1)
        })
   }"

declare wahern_drain.simps [code]

definition wahern_tick :: "wahern \<Rightarrow> (u64 \<times> wahern) option" where
  "wahern_tick s = do {
     let now = wh_now s + 1;
     T \<leftarrow> wh_T s;
     (T, h) \<leftarrow> timeouts_update T (wh_heap s) now;
     (fired, T, h, timers) \<leftarrow> wahern_drain (wh_cap s) T h (wh_timers s) 0;
     Some (fired, s\<lparr>wh_T := Some T, wh_heap := h, wh_timers := timers, wh_now := now, wh_live := wh_live s - fired\<rparr>)
   }"

definition wahern_size :: "wahern \<Rightarrow> u64" where
  "wahern_size s = wh_live s"

partial_function (option) wahern_discard :: "timeouts \<Rightarrow> wahern \<Rightarrow> wahern option" where
  "wahern_discard T s = do {
     (r, T, h) \<leftarrow> timeouts_get T (wh_heap s);
     (case r of
        None \<Rightarrow> Some (s\<lparr>wh_T := Some T, wh_heap := h\<rparr>)
      | Some a \<Rightarrow> do {
          t \<leftarrow> h a;
          timers \<leftarrow> wr (wh_cap s) (wh_timers s) (id_of_ptr (to_arg t)) None;
          h \<leftarrow> free_timeout h a;
          wahern_discard T (s\<lparr>wh_heap := h, wh_timers := timers, wh_live := wh_live s - 1\<rparr>)
        })
   }"

declare wahern_discard.simps [code]

definition wahern_advance :: "wahern \<Rightarrow> u64 \<Rightarrow> wahern option" where
  "wahern_advance s target = do {
     let s = s\<lparr>wh_now := target\<rparr>;
     T \<leftarrow> wh_T s;
     (T, h) \<leftarrow> timeouts_update T (wh_heap s) (wh_now s);
     wahern_discard T (s\<lparr>wh_heap := h\<rparr>)
   }"

definition cts_wahern_vtable :: "timeouts option \<Rightarrow> (theap \<Rightarrow> addr option) \<Rightarrow> wahern cts_vtable" where
  "cts_wahern_vtable mem malloc = \<lparr>vt_create = wahern_create mem, vt_start = wahern_start malloc, vt_stop = wahern_stop,
     vt_tick = wahern_tick, vt_size = wahern_size, vt_advance = wahern_advance\<rparr>"

section \<open>The invariant\<close>

lemma id_ptr [simp]: "id_of_ptr (ptr_of_id i) = i"
  by (simp add: id_of_ptr_def ptr_of_id_def)

lemma ptr_inj: "ptr_of_id i = ptr_of_id j \<longleftrightarrow> i = j"
  by (metis id_ptr)

definition wh_ptr :: "wahern \<Rightarrow> u64 \<rightharpoonup> addr" where
  "wh_ptr s i = (case wh_timers s i of None \<Rightarrow> None | Some p \<Rightarrow> p)"

definition table_ok :: "wahern \<Rightarrow> bool" where
  "table_ok s \<longleftrightarrow> cap_ok 60 (wh_cap s) \<and> (\<forall>i. wh_timers s i = None \<longleftrightarrow> wh_cap s \<le> i)"

text \<open>The timeouts of the heap are those in the table, each under its id.\<close>

definition owns :: "(u64 \<rightharpoonup> addr) \<Rightarrow> theap \<Rightarrow> bool" where
  "owns P h \<longleftrightarrow> (\<forall>i a. P i = Some a \<longleftrightarrow> (\<exists>t. h a = Some t \<and> to_arg t = ptr_of_id i)) \<and>
     (\<forall>a t. h a = Some t \<longrightarrow> to_flags t = 0 \<and> (\<exists>i. to_arg t = ptr_of_id i))"

definition wahern_inv :: "wahern \<Rightarrow> bool" where
  "wahern_inv s \<longleftrightarrow> (\<exists>T. wh_T s = Some T \<and> tw_ok T (wh_heap s) \<and> T_curtime T = wh_now s \<and> T_expired T = []) \<and>
     table_ok s \<and> owns (wh_ptr s) (wh_heap s) \<and> (\<forall>a t. wh_heap s a = Some t \<longrightarrow> armed_at (wh_heap s) a \<noteq> None) \<and>
     wh_live s = of_nat (card (dom (wh_ptr s)))"

definition wahern_now_of :: "wahern \<Rightarrow> nat" where "wahern_now_of s = unat (wh_now s)"

definition wahern_live_of :: "wahern \<Rightarrow> u64 \<rightharpoonup> nat" where
  "wahern_live_of s i = (case wh_ptr s i of None \<Rightarrow> None | Some a \<Rightarrow> map_option unat (armed_at (wh_heap s) a))"

lemma owns_some: "owns P h \<Longrightarrow> P i = Some a \<Longrightarrow> \<exists>t. h a = Some t \<and> to_arg t = ptr_of_id i \<and> to_flags t = 0"
proof -
  assume o: "owns P h" and i: "P i = Some a"
  have "P i = Some a \<longleftrightarrow> (\<exists>t. h a = Some t \<and> to_arg t = ptr_of_id i)" using o unfolding owns_def by blast
  then obtain t where t: "h a = Some t" "to_arg t = ptr_of_id i" using i by blast
  moreover have "to_flags t = 0" using o t(1) unfolding owns_def by blast
  ultimately show ?thesis by blast
qed

lemma owns_finite: "owns P h \<Longrightarrow> finite (dom h)" for P :: "u64 \<rightharpoonup> addr"
proof -
  assume o: "owns P h"
  have "dom h \<subseteq> ran P"
  proof
    fix a assume "a \<in> dom h"
    then obtain t where t: "h a = Some t" by blast
    then obtain i where "to_arg t = ptr_of_id i" using o unfolding owns_def by blast
    then have "P i = Some a" using o t unfolding owns_def by blast
    then show "a \<in> ran P" by (rule ranI)
  qed
  moreover have "finite (dom P)" by (rule finite_subset [OF subset_UNIV]) simp
  ultimately show ?thesis by (metis finite_ran finite_subset)
qed

lemma wahern_live_dom: "wahern_inv s \<Longrightarrow> dom (wahern_live_of s) = dom (wh_ptr s)"
proof -
  assume v: "wahern_inv s"
  have "armed_at (wh_heap s) a \<noteq> None" if "wh_ptr s i = Some a" for i a
  proof -
    have "owns (wh_ptr s) (wh_heap s)" using v by (simp add: wahern_inv_def)
    then have "\<exists>t. wh_heap s a = Some t \<and> to_arg t = ptr_of_id i \<and> to_flags t = 0" using that by (rule owns_some)
    then obtain t where "wh_heap s a = Some t" by blast
    then show ?thesis using v unfolding wahern_inv_def by blast
  qed
  then show ?thesis by (force simp: wahern_live_of_def split: option.splits)
qed

lemma ptr_cap: "table_ok s \<Longrightarrow> wh_ptr s i = Some a \<Longrightarrow> i < wh_cap s"
proof -
  assume "table_ok s" and p: "wh_ptr s i = Some a"
  then have "wh_timers s i = None \<longleftrightarrow> wh_cap s \<le> i" unfolding table_ok_def by blast
  moreover have "wh_timers s i \<noteq> None" using p by (cases "wh_timers s i") (simp_all add: wh_ptr_def)
  ultimately show ?thesis by (simp add: not_le)
qed

lemma owns_ptr: "owns P h \<Longrightarrow> h a = Some t \<Longrightarrow> P (id_of_ptr (to_arg t)) = Some a"
proof -
  assume o: "owns P h" "h a = Some t"
  obtain i where i: "to_arg t = ptr_of_id i" using o unfolding owns_def by blast
  then have "P i = Some a" using o unfolding owns_def by blast
  then show ?thesis using i by simp
qed

lemma owns_remove: "owns P h \<Longrightarrow> P i = Some a \<Longrightarrow> owns (P(i := None)) (h(a := None))"
proof -
  assume o: "owns P h" and i: "P i = Some a"
  have "(P(i := None)) j = Some b \<longleftrightarrow> (\<exists>t. (h(a := None)) b = Some t \<and> to_arg t = ptr_of_id j)" for j b
  proof -
    have pj: "P j = Some b \<longleftrightarrow> (\<exists>t. h b = Some t \<and> to_arg t = ptr_of_id j)" for j b using o unfolding owns_def by blast
    obtain t where t: "h a = Some t" "to_arg t = ptr_of_id i" using i pj by blast
    show ?thesis
    proof (cases "j = i")
      case True
      then show ?thesis using pj [of i b] i by auto
    next
      case False
      have "\<not> (\<exists>t. h a = Some t \<and> to_arg t = ptr_of_id j)" using t False id_ptr by (metis option.inject)
      then show ?thesis using False pj [of j b] by (cases "b = a") auto
    qed
  qed
  moreover have "\<forall>b t. (h(a := None)) b = Some t \<longrightarrow> to_flags t = 0 \<and> (\<exists>i. to_arg t = ptr_of_id i)"
    using o unfolding owns_def by (auto split: if_splits)
  ultimately show ?thesis unfolding owns_def by blast
qed

section \<open>Memory\<close>

lemma tw_free: "tw_ok T h \<Longrightarrow> h a = Some t \<Longrightarrow> to_pending t = None \<Longrightarrow> tw_ok T (h(a := None))"
  unfolding tw_part_def by (auto simp: fun_upd_def split: if_splits)

lemma tw_malloc: "tw_ok T h \<Longrightarrow> h a = None \<Longrightarrow> to_pending t = None \<Longrightarrow> tw_ok T (h(a \<mapsto> t))"
  unfolding tw_part_def by (auto simp: fun_upd_def split: if_splits)


lemma table_upd: "table_ok s \<Longrightarrow> i < wh_cap s \<Longrightarrow> table_ok (s\<lparr>wh_timers := (wh_timers s)(i \<mapsto> p)\<rparr>)"
  unfolding table_ok_def by (auto simp: not_le)

lemma ptr_upd: "wh_ptr (s\<lparr>wh_timers := (wh_timers s)(i \<mapsto> p)\<rparr>) = (wh_ptr s)(i := p)"
  by (auto simp: wh_ptr_def fun_eq_iff)

section \<open>The operations\<close>

lemma wahern_ensure_spec:
  assumes v: "wahern_inv s" and i: "unat i < 2 ^ 60"
  shows "\<exists>s'. wahern_ensure_cap s i = Some s' \<and> wahern_inv s' \<and> wh_ptr s' = wh_ptr s \<and> wh_heap s' = wh_heap s \<and> wh_now s' = wh_now s \<and>
    wh_T s' = wh_T s \<and> i < wh_cap s'"
proof (cases "i < wh_cap s")
  case True
  then show ?thesis using v by (simp add: wahern_ensure_cap_def)
next
  case False
  have t: "table_ok s" using v by (simp add: wahern_inv_def)
  then have c: "cap_ok 60 (wh_cap s)" by (simp add: table_ok_def)
  obtain k where k: "k \<le> 60" "double_past i (if wh_cap s \<noteq> 0 then wh_cap s else 1024) = Some (2 ^ k)"
    and il: "i < 2 ^ k" and cap: "wh_cap s \<le> 2 ^ k" and u: "unat (2 ^ k :: u64) = 2 ^ k"
    using double_cap [OF c i _ _ False] by auto
  have le: "(2 :: nat) ^ k \<le> 2 ^ 60" using k(1) by (intro power_increasing) simp_all
  let ?p = "\<lambda>j. if wh_cap s \<le> j \<and> j < 2 ^ k then Some None else wh_timers s j"
  let ?s = "s\<lparr>wh_timers := ?p, wh_cap := 2 ^ k\<rparr>"
  have al: "alloc (2 ^ k) 8 = Some ()" unfolding alloc_def u using le by simp
  have run: "wahern_ensure_cap s i = Some ?s" unfolding wahern_ensure_cap_def if_not_P [OF False] k(2) using al by simp
  have none: "wh_timers s j = None \<longleftrightarrow> wh_cap s \<le> j" for j using t unfolding table_ok_def by blast
  have "?p j = None \<longleftrightarrow> 2 ^ k \<le> j" for j using none [of j] cap by (cases "wh_cap s \<le> j") (auto simp: not_le)
  then have "table_ok ?s" using k(1) by (auto simp: table_ok_def cap_ok_def)
  moreover have ptr: "wh_ptr ?s = wh_ptr s"
  proof
    fix j show "wh_ptr ?s j = wh_ptr s j" using none [of j] by (auto simp: wh_ptr_def split: option.split)
  qed
  ultimately have "wahern_inv ?s" using v unfolding wahern_inv_def ptr by simp
  then show ?thesis using run il ptr by (intro exI [of _ ?s]) simp
qed

lemma wahern_start_spec:
  assumes m: "\<And>h. finite (dom h) \<Longrightarrow> \<exists>a. malloc h = Some a \<and> h a = None" and v: "wahern_inv s" and i: "unat i < 2 ^ 60"
    and t: "0 < unat x" and n: "wahern_live_of s i = None" and ov: "wahern_now_of s + unat x < 2 ^ 64"
  shows "\<exists>s'. wahern_start malloc s i x = Some s' \<and> wahern_inv s' \<and> wahern_now_of s' = wahern_now_of s \<and>
    wahern_live_of s' = (wahern_live_of s)(i \<mapsto> wahern_now_of s + unat x)"
proof -
  obtain s1 where 1: "wahern_ensure_cap s i = Some s1" "wahern_inv s1" "wh_ptr s1 = wh_ptr s" "wh_heap s1 = wh_heap s" "wh_now s1 = wh_now s"
      "wh_T s1 = wh_T s" "i < wh_cap s1" using wahern_ensure_spec [OF v i] by blast
  obtain T where T: "wh_T s1 = Some T" "tw_ok T (wh_heap s1)" "T_curtime T = wh_now s" "T_expired T = []"
    using 1(2,5) unfolding wahern_inv_def by auto
  have tab: "table_ok s1" and o: "owns (wh_ptr s1) (wh_heap s1)" and lv: "wh_live s1 = of_nat (card (dom (wh_ptr s1)))"
    and arm: "\<And>a t. wh_heap s1 a = Some t \<Longrightarrow> armed_at (wh_heap s1) a \<noteq> None" using 1(2) unfolding wahern_inv_def by blast+
  have "i \<notin> dom (wahern_live_of s)" using n by blast
  then have ni: "wh_ptr s1 i = None" using wahern_live_dom [OF v] 1(3) by auto
  obtain a where a: "malloc (wh_heap s1) = Some a" "wh_heap s1 a = None" using m owns_finite [OF o] by blast
  define t0 where "t0 = (timeout_init 0)\<lparr>to_fn := None, to_arg := ptr_of_id i\<rparr>"
  have t0: "to_pending t0 = None" "to_flags t0 = 0" "to_arg t0 = ptr_of_id i" by (simp_all add: t0_def timeout_init_def)
  let ?h = "(wh_heap s1)(a \<mapsto> t0)" let ?e = "wh_now s + x"
  have ue: "unat ?e = unat (wh_now s) + unat x" using ov by (simp add: wahern_now_of_def unat_add_small)
  have lt: "wh_now s < ?e" using ue t by (simp add: word_less_nat_alt)
  have "tw_ok T ?h" by (rule tw_malloc [OF T(2) a(2) t0(1)])
  then obtain T' where 2: "timeouts_add T ?h a x = Some (T', ?h(a \<mapsto> added T x t0))" "tw_ok T' (?h(a \<mapsto> added T x t0))" "T_curtime T' = T_curtime T"
      "armed_at (?h(a \<mapsto> added T x t0)) = (armed_at ?h)(a := if T_curtime T < expiry_of T x t0 then Some (expiry_of T x t0) else None)"
      "T_expired T' = filter (\<lambda>b. b \<noteq> a) (T_expired T) @ (if expiry_of T x t0 \<le> T_curtime T then [a] else [])"
    using timeouts_add_arms [of T ?h a t0 x] by auto
  have ex: "expiry_of T x t0 = ?e" by (simp add: expiry_of_def t0 T(3))
  let ?h' = "?h(a \<mapsto> added T x t0)"
  have h': "?h' = (wh_heap s1)(a \<mapsto> added T x t0)" by simp
  have ad: "to_flags (added T x t0) = 0" "to_arg (added T x t0) = ptr_of_id i" by (simp_all add: added_def with_interval_def t0)
  have arm': "armed_at ?h' = (armed_at (wh_heap s1))(a \<mapsto> ?e)"
    unfolding 2(4) ex T(3) using lt by (auto simp: armed_at_def fun_eq_iff)
  have exp': "T_expired T' = []" using 2(5) ex T(3,4) lt by (simp add: not_le)
  let ?s = "s1\<lparr>wh_T := Some T', wh_heap := ?h', wh_timers := (wh_timers s1)(i \<mapsto> Some a), wh_live := wh_live s1 + 1\<rparr>"
  have run: "wahern_start malloc s i x = Some ?s" using 1(1,7) a(1) T(1) 2(1) by (simp add: wahern_start_def t0_def)
  have ptr: "wh_ptr ?s = (wh_ptr s1)(i \<mapsto> a)" by (auto simp: wh_ptr_def fun_eq_iff)
  have "owns (wh_ptr ?s) ?h'"
  proof -
    have pj: "wh_ptr s1 j = Some b \<longleftrightarrow> (\<exists>t. wh_heap s1 b = Some t \<and> to_arg t = ptr_of_id j)" for j b using o unfolding owns_def by blast
    have "wh_ptr ?s j = Some b \<longleftrightarrow> (\<exists>t. ?h' b = Some t \<and> to_arg t = ptr_of_id j)" for j b
    proof (cases "b = a")
      case True
      have "wh_ptr s1 j \<noteq> Some a" using pj [of j a] a(2) by simp
      then have "wh_ptr ?s j = Some b \<longleftrightarrow> j = i" using True unfolding ptr by simp
      moreover have "?h' b = Some (added T x t0)" using True by simp
      ultimately show ?thesis using ad(2) ptr_inj [of i j] by auto
    next
      case False
      have "\<not> (\<exists>t. wh_heap s1 b = Some t \<and> to_arg t = ptr_of_id i)" using pj [of i b] ni by simp
      moreover have "wh_ptr ?s j = ((wh_ptr s1)(i \<mapsto> a)) j" "?h' b = wh_heap s1 b" using False unfolding ptr by simp_all
      ultimately show ?thesis using False pj [of j b] by (cases "j = i") simp_all
    qed
    moreover have "to_flags t = 0 \<and> (\<exists>i. to_arg t = ptr_of_id i)" if "?h' b = Some t" for b t
      using that o ad unfolding owns_def h' by (cases "b = a") auto
    ultimately show ?thesis unfolding owns_def by blast
  qed
  moreover have "armed_at ?h' b \<noteq> None" if "?h' b = Some t" for b t
  proof (cases "b = a")
    case True
    then show ?thesis unfolding arm' by simp
  next
    case False
    then have "wh_heap s1 b = Some t" using that by simp
    then show ?thesis using arm False unfolding arm' by simp
  qed
  moreover have "table_ok ?s" using table_upd [OF tab 1(7), of "Some a"] by (simp add: table_ok_def)
  moreover have "wh_live ?s = of_nat (card (dom (wh_ptr ?s)))"
  proof -
    have "finite (dom (wh_ptr s1))" by (rule finite_subset [OF subset_UNIV]) simp
    then have "card (dom (wh_ptr ?s)) = Suc (card (dom (wh_ptr s1)))" unfolding ptr using ni by (rule card_dom_insert)
    then show ?thesis by (simp add: lv)
  qed
  moreover have "wh_T ?s = Some T' \<and> tw_ok T' (wh_heap ?s) \<and> T_curtime T' = wh_now ?s \<and> T_expired T' = []"
    using 2(2,3) T(3) exp' 1(5) by simp
  moreover have "wh_heap ?s = ?h'" by simp
  ultimately have "wahern_inv ?s" unfolding wahern_inv_def by metis
  moreover have "wahern_live_of ?s j = ((wahern_live_of s)(i \<mapsto> wahern_now_of s + unat x)) j" for j
  proof (cases "j = i")
    case True
    have "armed_at ?h' a = Some ?e" unfolding arm' by simp
    then show ?thesis using True ue unfolding wahern_live_of_def ptr by (simp add: wahern_now_of_def)
  next
    case False
    have "b \<noteq> a" if "wh_ptr s1 j = Some b" for b
    proof -
      have "\<exists>t. wh_heap s1 b = Some t \<and> to_arg t = ptr_of_id j \<and> to_flags t = 0" by (rule owns_some [OF o that])
      then show ?thesis using a(2) by auto
    qed
    then have "armed_at ?h' b = armed_at (wh_heap s1) b" if "wh_ptr s1 j = Some b" for b using that unfolding arm' by simp
    then show ?thesis using False 1(3,4) unfolding wahern_live_of_def ptr by (auto split: option.split)
  qed
  ultimately show ?thesis using run 1(5) by (intro exI [of _ ?s]) (simp add: wahern_now_of_def fun_eq_iff)
qed


text \<open>A timeout that is taken off the wheel and freed.\<close>

lemma drop_one:
  assumes v: "owns P h" "P i = Some a" "\<forall>b t. h b = Some t \<longrightarrow> armed_at h b \<noteq> None"
  shows "owns (P(i := None)) (h(a := None))" "(h(a := None)) b = Some t \<Longrightarrow> armed_at (h(a := None)) b \<noteq> None"
    "j \<noteq> i \<Longrightarrow> P j = Some b \<Longrightarrow> armed_at (h(a := None)) b = armed_at h b"
proof -
  show "owns (P(i := None)) (h(a := None))" by (rule owns_remove [OF v(1,2)])
  have other: "armed_at (h(a := None)) b = armed_at h b" if "b \<noteq> a" for b using that by (simp add: armed_at_def)
  show "(h(a := None)) b = Some t \<Longrightarrow> armed_at (h(a := None)) b \<noteq> None"
    using v(3) other [of b] by (cases "b = a") simp_all
  assume j: "j \<noteq> i" "P j = Some b"
  have "b \<noteq> a"
  proof
    assume "b = a"
    then have "\<exists>t. h a = Some t \<and> to_arg t = ptr_of_id j \<and> to_flags t = 0" using owns_some [OF v(1) j(2)] by simp
    moreover have "\<exists>t. h a = Some t \<and> to_arg t = ptr_of_id i \<and> to_flags t = 0" by (rule owns_some [OF v(1,2)])
    ultimately show False using ptr_inj j(1) by auto
  qed
  then show "armed_at (h(a := None)) b = armed_at h b" by (rule other)
qed

lemma wahern_stop_spec:
  assumes v: "wahern_inv s"
  shows "\<exists>s'. wahern_stop s i = Some (wahern_live_of s i \<noteq> None, s') \<and> wahern_inv s' \<and> wahern_now_of s' = wahern_now_of s \<and>
    wahern_live_of s' = (wahern_live_of s)(i := None)"
proof -
  obtain T where T: "wh_T s = Some T" "tw_ok T (wh_heap s)" "T_curtime T = wh_now s" "T_expired T = []"
    using v unfolding wahern_inv_def by blast
  have tab: "table_ok s" and o: "owns (wh_ptr s) (wh_heap s)" and lv: "wh_live s = of_nat (card (dom (wh_ptr s)))"
    and arm: "\<And>a t. wh_heap s a = Some t \<Longrightarrow> armed_at (wh_heap s) a \<noteq> None" using v unfolding wahern_inv_def by blast+
  show ?thesis
  proof (cases "wh_ptr s i")
    case None
    have "wh_timers s i = None \<longleftrightarrow> wh_cap s \<le> i" using tab unfolding table_ok_def by blast
    then have "wahern_stop s i = Some (False, s)"
      using None by (cases "wh_timers s i") (auto simp: wahern_stop_def wh_ptr_def not_le)
    moreover have "wahern_live_of s i = None" using None by (simp add: wahern_live_of_def)
    ultimately show ?thesis using v by (auto simp: fun_upd_idem)
  next
    case (Some a)
    have ic: "i < wh_cap s" by (rule ptr_cap [OF tab Some])
    have ti: "wh_timers s i = Some (Some a)" using Some by (auto simp: wh_ptr_def split: option.splits)
    have "\<exists>t. wh_heap s a = Some t \<and> to_arg t = ptr_of_id i \<and> to_flags t = 0" by (rule owns_some [OF o Some])
    then obtain t where t: "wh_heap s a = Some t" by blast
    let ?h = "(wh_heap s)(a \<mapsto> taken t)"
    obtain T' where 1: "timeouts_del T (wh_heap s) a = Some (T', ?h)" "tw_ok T' ?h" "T_curtime T' = T_curtime T"
        "T_expired T' = filter (\<lambda>b. b \<noteq> a) (T_expired T)"
      using timeouts_del_disarms [OF T(2) t] by blast
    let ?h' = "(wh_heap s)(a := None)"
    have "tw_ok T' (?h(a := None))" by (rule tw_free [OF 1(2), of a "taken t"]) simp_all
    then have ok: "tw_ok T' ?h'" by simp
    let ?s = "s\<lparr>wh_T := Some T', wh_heap := ?h', wh_timers := (wh_timers s)(i \<mapsto> None), wh_live := wh_live s - 1\<rparr>"
    have run: "wahern_stop s i = Some (True, ?s)" using ic ti T(1) 1(1) by (simp add: wahern_stop_def not_le free_timeout_def)
    have ptr: "wh_ptr ?s = (wh_ptr s)(i := None)" by (auto simp: wh_ptr_def fun_eq_iff)
    have arm': "\<forall>b t. wh_heap s b = Some t \<longrightarrow> armed_at (wh_heap s) b \<noteq> None" using arm by blast
    note d = drop_one [OF o Some arm']
    have "table_ok ?s" using table_upd [OF tab ic, of None] by (simp add: table_ok_def)
    moreover have "owns (wh_ptr ?s) (wh_heap ?s)" unfolding ptr using d(1) by simp
    moreover have "armed_at (wh_heap ?s) b \<noteq> None" if "wh_heap ?s b = Some u" for b u
    proof -
      have "?h' b = Some u" using that by simp
      then have "armed_at ?h' b \<noteq> None" by (rule d(2))
      then show ?thesis by simp
    qed
    moreover have "wh_live ?s = of_nat (card (dom (wh_ptr ?s)))"
    proof -
      have "finite (dom (wh_ptr s))" by (rule finite_subset [OF subset_UNIV]) simp
      moreover have "wh_ptr s i \<noteq> None" using Some by simp
      ultimately have "Suc (card (dom ((wh_ptr s)(i := None)))) = card (dom (wh_ptr s))" by (rule card_dom_remove)
      then have "wh_live s = of_nat (Suc (card (dom ((wh_ptr s)(i := None)))))" using lv by simp
      moreover have "wh_live ?s = wh_live s - 1" by simp
      ultimately show ?thesis unfolding ptr by simp
    qed
    moreover have "wh_T ?s = Some T' \<and> tw_ok T' (wh_heap ?s) \<and> T_curtime T' = wh_now ?s \<and> T_expired T' = []"
      using ok 1(3,4) T(3,4) by simp
    ultimately have "wahern_inv ?s" unfolding wahern_inv_def by blast
    moreover have "wahern_live_of ?s j = ((wahern_live_of s)(i := None)) j" for j
      using d(3) unfolding wahern_live_of_def ptr by (auto split: option.split)
    moreover have "wahern_live_of s i \<noteq> None" using wahern_live_dom [OF v] Some by blast
    ultimately show ?thesis using run by (intro exI [of _ ?s]) (simp add: wahern_now_of_def fun_eq_iff)
  qed
qed


section \<open>The tick\<close>

definition dropped :: "addr set \<Rightarrow> theap \<Rightarrow> theap" where
  "dropped X h = (\<lambda>a. if a \<in> X then None else h a)"

definition ids_of :: "addr set \<Rightarrow> theap \<Rightarrow> u64 set" where
  "ids_of X h = {i. \<exists>a \<in> X. \<exists>t. h a = Some t \<and> id_of_ptr (to_arg t) = i}"

lemma wahern_drain_spec:
  "tw_ok T h \<Longrightarrow> T_expired T = xs \<Longrightarrow> (\<forall>a \<in> set xs. \<forall>t. h a = Some t \<longrightarrow> to_flags t = 0 \<and> id_of_ptr (to_arg t) < cap) \<Longrightarrow>
   \<exists>T'. wahern_drain cap T h timers f =
       Some (f + of_nat (length xs), T', dropped (set xs) h, (\<lambda>i. if i \<in> ids_of (set xs) h then Some None else timers i)) \<and>
     tw_ok T' (dropped (set xs) h) \<and> T_expired T' = [] \<and> T_curtime T' = T_curtime T"
proof (induction xs arbitrary: T h timers f)
  case Nil
  then have "timeouts_get T h = Some (None, T, h)" by (simp add: timeouts_get_def)
  then have "wahern_drain cap T h timers f = Some (f, T, h, timers)" by (subst wahern_drain.simps) simp
  then show ?case using Nil by (simp add: dropped_def ids_of_def)
next
  case (Cons a xs)
  have d: "a \<notin> set xs" "h a \<noteq> None"
  proof -
    have "valid Expired" by simp
    then have "distinct (queue_of T Expired)" "a \<in> set (queue_of T Expired) \<longleftrightarrow> a \<notin> {} \<and> (\<exists>t. h a = Some t \<and> to_pending t = Some Expired)"
      using Cons.prems(1) unfolding tw_part_def by blast+
    then show "a \<notin> set xs" "h a \<noteq> None" using Cons.prems(2) by auto
  qed
  obtain T1 h1 where 1: "timeouts_get T h = Some (Some a, T1, h1)" "tw_ok T1 h1" "T_curtime T1 = T_curtime T"
      "\<exists>t. h a = Some t \<and> (if repeats t then h1 = h(a \<mapsto> placed_at (T_curtime T) (next_fire (T_curtime T) (to_expires t) (to_interval t)) t)
         else h1 = h(a \<mapsto> taken t) \<and> T_expired T1 = xs)"
    using timeouts_get_pops [OF Cons.prems(1)] Cons.prems(2) by auto
  obtain t where t: "h a = Some t" using d(2) by blast
  have ft: "to_flags t = 0" "id_of_ptr (to_arg t) < cap" using Cons.prems(3) t by simp_all
  then have "\<not> repeats t" by (simp add: repeats_def)
  then have h1: "h1 = h(a \<mapsto> taken t)" "T_expired T1 = xs" using 1(4) t by auto
  have "tw_ok T1 (h1(a := None))" by (rule tw_free [OF 1(2), of a "taken t"]) (simp_all add: h1(1))
  then have ok: "tw_ok T1 (h(a := None))" by (simp add: h1(1))
  have pre: "\<forall>b \<in> set xs. \<forall>t. (h(a := None)) b = Some t \<longrightarrow> to_flags t = 0 \<and> id_of_ptr (to_arg t) < cap"
    using Cons.prems(3) d(1) by auto
  let ?i = "id_of_ptr (to_arg t)"
  obtain T' where 2: "wahern_drain cap T1 (h(a := None)) (timers(?i \<mapsto> None)) (f + 1) =
       Some (f + 1 + of_nat (length xs), T', dropped (set xs) (h(a := None)),
         (\<lambda>i. if i \<in> ids_of (set xs) (h(a := None)) then Some None else (timers(?i \<mapsto> None)) i))"
     "tw_ok T' (dropped (set xs) (h(a := None)))" "T_expired T' = []" "T_curtime T' = T_curtime T1"
    using Cons.IH [OF ok h1(2) pre, of "timers(?i \<mapsto> None)" "f + 1"] by blast
  have hd: "dropped (set xs) (h(a := None)) = dropped (set (a # xs)) h" by (auto simp: dropped_def fun_eq_iff)
  have "i \<in> ids_of (set (a # xs)) h \<longleftrightarrow> i = ?i \<or> i \<in> ids_of (set xs) (h(a := None))" for i
    using d(1) t unfolding ids_of_def by auto
  then have tm: "(\<lambda>i. if i \<in> ids_of (set xs) (h(a := None)) then Some None else (timers(?i \<mapsto> None)) i) =
      (\<lambda>i. if i \<in> ids_of (set (a # xs)) h then Some None else timers i)" by auto
  have "wahern_drain cap T h timers f = wahern_drain cap T1 (h(a := None)) (timers(?i \<mapsto> None)) (f + 1)"
    using 1(1) h1(1) ft(2) by (subst wahern_drain.simps) (simp add: free_timeout_def)
  then show ?case using 2 1(3) unfolding hd tm by (simp add: algebra_simps)
qed

lemma owns_dropped:
  assumes o: "owns P h"
  shows "owns (\<lambda>i. if \<exists>a \<in> X. P i = Some a then None else P i) (dropped X h)"
proof -
  have pj: "P j = Some b \<longleftrightarrow> (\<exists>t. h b = Some t \<and> to_arg t = ptr_of_id j)" for j b using o unfolding owns_def by blast
  have "(if \<exists>a \<in> X. P j = Some a then None else P j) = Some b \<longleftrightarrow> (\<exists>t. dropped X h b = Some t \<and> to_arg t = ptr_of_id j)" for j b
    using pj [of j b] by (auto simp: dropped_def split: if_splits)
  moreover have "to_flags t = 0 \<and> (\<exists>i. to_arg t = ptr_of_id i)" if "dropped X h b = Some t" for b t
    using o that unfolding owns_def dropped_def by (auto split: if_splits)
  ultimately show ?thesis unfolding owns_def by blast
qed

lemma owns_moved:
  assumes o: "owns P h" and m: "\<forall>a. rel_option (moved c) (h a) (h' a)"
  shows "owns P h'"
proof -
  have "(\<exists>t. h' b = Some t \<and> Q (to_arg t) (to_flags t)) \<longleftrightarrow> (\<exists>t. h b = Some t \<and> Q (to_arg t) (to_flags t))" for b and Q :: "addr option \<Rightarrow> 32 word \<Rightarrow> bool"
  proof -
    have r: "rel_option (moved c) (h b) (h' b)" using m by blast
    have same: "to_arg t' = to_arg t \<and> to_flags t' = to_flags t" if "moved c t t'" for t t'
    proof -
      have "t' = t\<lparr>to_pending := to_pending t'\<rparr>" using that by (simp add: moved_def)
      then show ?thesis by (metis timeout.select_convs(1,5) timeout.surjective timeout.update_convs(3))
    qed
    show ?thesis using r same by (cases "h b"; cases "h' b") auto
  qed
  from this [where Q = "\<lambda>x f. x = ptr_of_id _"] this [where Q = "\<lambda>x f. \<not> (f = 0 \<and> (\<exists>i. x = ptr_of_id i))"] o
  show ?thesis unfolding owns_def by blast
qed


text \<open>What timeouts_update does to the timers of the store.\<close>

lemma wahern_update:
  assumes v: "wahern_inv s" and T: "wh_T s = Some T" and le: "wh_now s \<le> now"
  shows "\<exists>T' h xs. timeouts_update T (wh_heap s) now = Some (T', h) \<and> tw_ok T' h \<and> T_curtime T' = now \<and> T_expired T' = xs \<and>
    owns (wh_ptr s) h \<and> distinct xs \<and> (\<forall>i. i \<in> due (wahern_live_of s) (unat now) \<longleftrightarrow> (\<exists>a \<in> set xs. wh_ptr s i = Some a)) \<and>
    (\<forall>a \<in> set xs. \<exists>i. wh_ptr s i = Some a) \<and> (\<forall>i a. wh_ptr s i = Some a \<and> a \<notin> set xs \<longrightarrow> armed_at h a = armed_at (wh_heap s) a)"
proof -
  have ok: "tw_ok T (wh_heap s)" "T_curtime T = wh_now s" "T_expired T = []" using v T unfolding wahern_inv_def by auto
  have o: "owns (wh_ptr s) (wh_heap s)" and arm: "\<And>a t. wh_heap s a = Some t \<Longrightarrow> armed_at (wh_heap s) a \<noteq> None"
    using v unfolding wahern_inv_def by blast+
  have "clock_ok (T_curtime T) now" using le ok(2) by (simp add: clock_ok_def)
  from timeouts_update_fires [OF ok(1) this] obtain T' h xs where
    1: "timeouts_update T (wh_heap s) now = Some (T', h)" "tw_ok T' h" "T_curtime T' = now" "T_expired T' = T_expired T @ xs" "distinct xs"
      "set xs = {a. \<exists>e. armed_at (wh_heap s) a = Some e \<and> e \<le> now}"
      "\<forall>a. armed_at h a = (case armed_at (wh_heap s) a of Some e \<Rightarrow> if e \<le> now then None else Some e | None \<Rightarrow> None)"
      "\<forall>a. rel_option (moved now) (wh_heap s a) (h a)" by blast
  have armed: "\<exists>e. armed_at (wh_heap s) a = Some e" if "wh_ptr s i = Some a" for i a
  proof -
    have "\<exists>t. wh_heap s a = Some t \<and> to_arg t = ptr_of_id i \<and> to_flags t = 0" by (rule owns_some [OF o that])
    then show ?thesis using arm by blast
  qed
  have "i \<in> due (wahern_live_of s) (unat now) \<longleftrightarrow> (\<exists>a \<in> set xs. wh_ptr s i = Some a)" for i
  proof (cases "wh_ptr s i")
    case None
    then show ?thesis by (simp add: due_def wahern_live_of_def)
  next
    case (Some a)
    then obtain e where "armed_at (wh_heap s) a = Some e" using armed by blast
    then show ?thesis using Some 1(6) by (auto simp: due_def wahern_live_of_def word_le_nat_alt)
  qed
  moreover have "\<exists>i. wh_ptr s i = Some a" if ax: "a \<in> set xs" for a
  proof -
    obtain e where "armed_at (wh_heap s) a = Some e" using ax unfolding 1(6) by blast
    then have "\<exists>t. wh_heap s a = Some t" unfolding armed_at_iff by blast
    then obtain t where "wh_heap s a = Some t" by (elim exE)
    then show ?thesis using owns_ptr [OF o] by blast
  qed
  moreover have "armed_at h a = armed_at (wh_heap s) a" if "wh_ptr s i = Some a" "a \<notin> set xs" for i a
  proof -
    obtain e where e: "armed_at (wh_heap s) a = Some e" using armed \<open>wh_ptr s i = Some a\<close> by blast
    then have "\<not> e \<le> now" using that(2) 1(6) by blast
    then show ?thesis using 1(7) e by simp
  qed
  moreover have "owns (wh_ptr s) h" by (rule owns_moved [OF o 1(8)])
  moreover have "T_expired T' = xs" using 1(4) ok(3) by simp
  ultimately show ?thesis using 1(1-3,5) by blast
qed

lemma wahern_tick_spec:
  assumes v: "wahern_inv s" and ov: "wahern_now_of s + 1 < 2 ^ 64"
  shows "\<exists>s'. wahern_tick s = Some (of_nat (card (due (wahern_live_of s) (Suc (wahern_now_of s)))), s') \<and> wahern_inv s' \<and>
    wahern_now_of s' = Suc (wahern_now_of s) \<and> wahern_live_of s' = later (wahern_live_of s) (Suc (wahern_now_of s))"
proof -
  obtain T where T: "wh_T s = Some T" using v unfolding wahern_inv_def by blast
  have tab: "table_ok s" and lv: "wh_live s = of_nat (card (dom (wh_ptr s)))" using v unfolding wahern_inv_def by blast+
  let ?now = "wh_now s + 1" let ?P = "wh_ptr s" let ?n = "Suc (wahern_now_of s)"
  have un: "unat ?now = ?n" using ov by (simp add: wahern_now_of_def unat_Suc64)
  have le: "wh_now s \<le> ?now" using un by (simp add: word_le_nat_alt wahern_now_of_def)
  obtain T1 h xs where 1: "timeouts_update T (wh_heap s) ?now = Some (T1, h)" "tw_ok T1 h" "T_curtime T1 = ?now" "T_expired T1 = xs"
      "owns ?P h" "distinct xs" "\<And>i. i \<in> due (wahern_live_of s) ?n \<longleftrightarrow> (\<exists>a \<in> set xs. ?P i = Some a)"
      "\<And>a. a \<in> set xs \<Longrightarrow> \<exists>i. ?P i = Some a" "\<And>i a. ?P i = Some a \<Longrightarrow> a \<notin> set xs \<Longrightarrow> armed_at h a = armed_at (wh_heap s) a"
    using wahern_update [OF v T le] unfolding un by blast
  have pre: "\<forall>a \<in> set xs. \<forall>t. h a = Some t \<longrightarrow> to_flags t = 0 \<and> id_of_ptr (to_arg t) < wh_cap s"
  proof (intro ballI allI impI)
    fix a t assume t: "a \<in> set xs" "h a = Some t"
    have "?P (id_of_ptr (to_arg t)) = Some a" by (rule owns_ptr [OF 1(5) t(2)])
    then show "to_flags t = 0 \<and> id_of_ptr (to_arg t) < wh_cap s" using ptr_cap [OF tab] 1(5) t(2) unfolding owns_def by blast
  qed
  have ids: "i \<in> ids_of (set xs) h \<longleftrightarrow> (\<exists>a \<in> set xs. ?P i = Some a)" for i
  proof
    assume "i \<in> ids_of (set xs) h"
    then show "\<exists>a \<in> set xs. ?P i = Some a" using owns_ptr [OF 1(5)] unfolding ids_of_def by blast
  next
    assume "\<exists>a \<in> set xs. ?P i = Some a"
    then obtain a where a: "a \<in> set xs" "?P i = Some a" by blast
    have "\<exists>t. h a = Some t \<and> to_arg t = ptr_of_id i \<and> to_flags t = 0" by (rule owns_some [OF 1(5) a(2)])
    then show "i \<in> ids_of (set xs) h" using a(1) unfolding ids_of_def by force
  qed
  let ?tm = "\<lambda>i. if i \<in> ids_of (set xs) h then Some None else wh_timers s i"
  obtain T2 where 2: "wahern_drain (wh_cap s) T1 h (wh_timers s) 0 = Some (of_nat (length xs), T2, dropped (set xs) h, ?tm)"
      "tw_ok T2 (dropped (set xs) h)" "T_expired T2 = []" "T_curtime T2 = ?now"
    using wahern_drain_spec [OF 1(2,4) pre, of "wh_timers s" 0] 1(3) by auto
  define s' where "s' = s\<lparr>wh_T := Some T2, wh_heap := dropped (set xs) h, wh_timers := ?tm, wh_now := ?now, wh_live := wh_live s - of_nat (length xs)\<rparr>"
  have sel: "wh_T s' = Some T2" "wh_heap s' = dropped (set xs) h" "wh_timers s' = ?tm" "wh_now s' = ?now" "wh_cap s' = wh_cap s"
    "wh_live s' = wh_live s - of_nat (length xs)" by (simp_all add: s'_def)
  have run: "wahern_tick s = Some (of_nat (length xs), s')" using T 1(1) 2(1) by (simp add: wahern_tick_def s'_def Let_def)
  have ptr: "wh_ptr s' = (\<lambda>i. if \<exists>a \<in> set xs. ?P i = Some a then None else ?P i)"
    by (auto simp: wh_ptr_def sel(3) ids fun_eq_iff)
  have keep: "armed_at (wh_heap s') a = armed_at (wh_heap s) a" if "wh_ptr s' i = Some a" for i a
  proof -
    have a: "?P i = Some a" "a \<notin> set xs" using that unfolding ptr by (auto split: if_splits)
    then have "armed_at (wh_heap s') a = armed_at h a" by (simp add: sel(2) armed_at_def dropped_def)
    then show ?thesis using 1(9) [OF a] by simp
  qed
  have own: "owns (wh_ptr s') (wh_heap s')" unfolding ptr sel(2) by (rule owns_dropped [OF 1(5)])
  have "table_ok s'"
  proof -
    have "wh_timers s' i = None \<longleftrightarrow> wh_cap s' \<le> i" for i
    proof (cases "i \<in> ids_of (set xs) h")
      case True
      then obtain a where "?P i = Some a" using ids by blast
      then have "i < wh_cap s" by (rule ptr_cap [OF tab])
      then show ?thesis using True by (simp add: sel not_le)
    next
      case False
      then show ?thesis using tab by (simp add: sel table_ok_def)
    qed
    then show ?thesis using tab by (simp add: table_ok_def sel(5))
  qed
  moreover have "armed_at (wh_heap s') a \<noteq> None" if "wh_heap s' a = Some t" for a t
  proof -
    have p: "wh_ptr s' (id_of_ptr (to_arg t)) = Some a" by (rule owns_ptr [OF own that])
    then have "?P (id_of_ptr (to_arg t)) = Some a" unfolding ptr by (simp split: if_splits)
    then have "\<exists>i e. wahern_live_of s i = Some e \<and> ?P i = Some a" using wahern_live_dom [OF v] by blast
    then have "armed_at (wh_heap s) a \<noteq> None" by (auto simp: wahern_live_of_def)
    then show ?thesis using keep [OF p] by simp
  qed
  moreover have card: "card (due (wahern_live_of s) ?n) = length xs"
  proof -
    have "bij_betw (\<lambda>i. the (?P i)) (due (wahern_live_of s) ?n) (set xs)"
    proof (rule bij_betwI')
      fix i j assume ij: "i \<in> due (wahern_live_of s) ?n" "j \<in> due (wahern_live_of s) ?n"
      then obtain a b where ab: "?P i = Some a" "?P j = Some b" using 1(7) by blast
      have "\<exists>t. h a = Some t \<and> to_arg t = ptr_of_id i \<and> to_flags t = 0" "\<exists>t. h b = Some t \<and> to_arg t = ptr_of_id j \<and> to_flags t = 0"
        by (rule owns_some [OF 1(5) ab(1)], rule owns_some [OF 1(5) ab(2)])
      then have "a = b \<longleftrightarrow> i = j" using ab ptr_inj by auto
      then show "the (?P i) = the (?P j) \<longleftrightarrow> i = j" using ab by simp
    next
      fix i assume "i \<in> due (wahern_live_of s) ?n"
      then show "the (?P i) \<in> set xs" using 1(7) by force
    next
      fix a assume a: "a \<in> set xs"
      then obtain i where "?P i = Some a" using 1(8) by blast
      then show "\<exists>i \<in> due (wahern_live_of s) ?n. a = the (?P i)" using 1(7) a by force
    qed
    then show ?thesis using bij_betw_same_card distinct_card [OF 1(6)] by metis
  qed
  moreover have "wh_live s' = of_nat (card (dom (wh_ptr s')))"
  proof -
    have fin: "finite A" for A :: "u64 set" by (rule finite_subset [OF subset_UNIV]) simp
    have d: "dom (wh_ptr s') = dom ?P - due (wahern_live_of s) ?n" unfolding ptr using 1(7) by (auto split: if_splits)
    have sub: "due (wahern_live_of s) ?n \<subseteq> dom ?P" using 1(7) by blast
    have "card (dom (wh_ptr s')) = card (dom ?P) - length xs" unfolding d using card_Diff_subset [OF fin sub] card by simp
    moreover have "length xs \<le> card (dom ?P)" using card_mono [OF fin sub] card by simp
    ultimately show ?thesis using lv sel(6) by (simp add: of_nat_diff)
  qed
  moreover have "wh_T s' = Some T2 \<and> tw_ok T2 (wh_heap s') \<and> T_curtime T2 = wh_now s' \<and> T_expired T2 = []" using 2(2-4) sel by simp
  ultimately have "wahern_inv s'" unfolding wahern_inv_def using own by blast
  moreover have "wahern_live_of s' i = later (wahern_live_of s) ?n i" for i
  proof (cases "\<exists>a \<in> set xs. ?P i = Some a")
    case True
    then have "wahern_live_of s' i = None" unfolding wahern_live_of_def ptr by simp
    moreover have "i \<in> due (wahern_live_of s) ?n" using 1(7) True by blast
    ultimately show ?thesis by (auto simp: later_eq due_def)
  next
    case False
    then have "wahern_live_of s' i = wahern_live_of s i"
      using keep [of i] unfolding wahern_live_of_def ptr by (auto split: option.split)
    moreover have "i \<notin> due (wahern_live_of s) ?n" using 1(7) False by blast
    ultimately show ?thesis by (auto simp: later_eq due_def split: option.splits)
  qed
  ultimately show ?thesis using run card un sel(4) by (intro exI [of _ s']) (simp add: wahern_now_of_def fun_eq_iff)
qed


lemma wahern_advance_spec:
  assumes v: "wahern_inv s" and le: "wahern_now_of s \<le> unat now" and ahead: "\<And>i e. wahern_live_of s i = Some e \<Longrightarrow> unat now < e"
  shows "\<exists>s'. wahern_advance s now = Some s' \<and> wahern_inv s' \<and> wahern_now_of s' = unat now \<and> wahern_live_of s' = wahern_live_of s"
proof -
  obtain T where T: "wh_T s = Some T" using v unfolding wahern_inv_def by blast
  have le': "wh_now s \<le> now" using le by (simp add: wahern_now_of_def word_le_nat_alt)
  obtain T1 h xs where 1: "timeouts_update T (wh_heap s) now = Some (T1, h)" "tw_ok T1 h" "T_curtime T1 = now" "T_expired T1 = xs"
      "owns (wh_ptr s) h" "\<And>i. i \<in> due (wahern_live_of s) (unat now) \<longleftrightarrow> (\<exists>a \<in> set xs. wh_ptr s i = Some a)"
      "\<And>a. a \<in> set xs \<Longrightarrow> \<exists>i. wh_ptr s i = Some a" "\<And>i a. wh_ptr s i = Some a \<Longrightarrow> a \<notin> set xs \<Longrightarrow> armed_at h a = armed_at (wh_heap s) a"
    using wahern_update [OF v T le'] by blast
  have "due (wahern_live_of s) (unat now) = {}" using ahead by (rule due_empty)
  have "a \<notin> set xs" for a
  proof
    assume a: "a \<in> set xs"
    from 1(7) [OF this] obtain i where "wh_ptr s i = Some a" by (elim exE)
    then have "i \<in> due (wahern_live_of s) (unat now)" unfolding 1(6) using a by (rule bexI)
    then show False unfolding \<open>due (wahern_live_of s) (unat now) = {}\<close> by (rule emptyE)
  qed
  then have xs: "xs = []" by (cases xs) (simp_all, metis list.set_intros(1))
  define s' where "s' = s\<lparr>wh_now := now, wh_heap := h, wh_T := Some T1\<rparr>"
  have get: "timeouts_get T1 h = Some (None, T1, h)" using 1(4) xs by (simp add: timeouts_get_def)
  have run: "wahern_advance s now = Some s'"
    using T 1(1) get by (simp add: wahern_advance_def Let_def s'_def wahern_discard.simps)
  have ptr: "wh_ptr s' = wh_ptr s" by (simp add: wh_ptr_def s'_def fun_eq_iff)
  have keep: "armed_at (wh_heap s') a = armed_at (wh_heap s) a" if "wh_ptr s i = Some a" for i a
    using 1(8) [OF that] xs by (simp add: s'_def)
  have live: "wahern_live_of s' = wahern_live_of s"
  proof
    fix i show "wahern_live_of s' i = wahern_live_of s i" using keep [of i] unfolding wahern_live_of_def ptr by (simp split: option.split)
  qed
  have own: "owns (wh_ptr s') (wh_heap s')" unfolding ptr using 1(5) by (simp add: s'_def)
  moreover have "table_ok s'" using v by (simp add: wahern_inv_def table_ok_def s'_def)
  moreover have "armed_at (wh_heap s') a \<noteq> None" if "wh_heap s' a = Some t" for a t
  proof -
    have p: "wh_ptr s (id_of_ptr (to_arg t)) = Some a" using owns_ptr [OF own that] unfolding ptr .
    then have "wahern_live_of s (id_of_ptr (to_arg t)) \<noteq> None" using wahern_live_dom [OF v] by blast
    then show ?thesis using keep [OF p] p by (simp add: wahern_live_of_def)
  qed
  moreover have "wh_live s' = of_nat (card (dom (wh_ptr s')))" unfolding ptr using v by (simp add: wahern_inv_def s'_def)
  moreover have "wh_T s' = Some T1 \<and> tw_ok T1 (wh_heap s') \<and> T_curtime T1 = wh_now s' \<and> T_expired T1 = []"
    using 1(2-4) xs by (simp add: s'_def)
  ultimately have "wahern_inv s'" unfolding wahern_inv_def by blast
  then show ?thesis using run live by (intro exI [of _ s']) (simp add: wahern_now_of_def s'_def)
qed

lemma wahern_create_spec:
  "wahern_inv (wahern_create (Some M))" "wahern_now_of (wahern_create (Some M)) = 0" "wahern_live_of (wahern_create (Some M)) = Map.empty"
proof -
  let ?s = "wahern_create (Some M)" let ?T = "timeouts_init M TIMEOUT_mHZ"
  have T: "wh_T ?s = Some ?T" by (simp add: wahern_create_def timeouts_open_def)
  have "tw_reach ?T Map.empty" by (rule opened [of M TIMEOUT_mHZ 0]) (simp add: timeouts_open_def)
  then have ok: "tw_ok ?T (wh_heap ?s)" using reach_ok by (simp add: wahern_create_def)
  have ptr: "wh_ptr ?s = Map.empty" by (simp add: wh_ptr_def wahern_create_def fun_eq_iff)
  have "owns (wh_ptr ?s) (wh_heap ?s)" unfolding ptr by (simp add: owns_def wahern_create_def)
  moreover have "T_curtime ?T = wh_now ?s" "T_expired ?T = []" by (simp_all add: timeouts_init_def wahern_create_def)
  moreover have "table_ok ?s" by (simp add: table_ok_def cap_ok_def wahern_create_def)
  moreover have "wh_live ?s = of_nat (card (dom (wh_ptr ?s)))" unfolding ptr by (simp add: wahern_create_def)
  moreover have "\<forall>a t. wh_heap ?s a = Some t \<longrightarrow> armed_at (wh_heap ?s) a \<noteq> None" by (simp add: wahern_create_def)
  ultimately show "wahern_inv ?s" unfolding wahern_inv_def using T ok by blast
  show "wahern_now_of ?s = 0" by (simp add: wahern_now_of_def wahern_create_def)
  show "wahern_live_of ?s = Map.empty" unfolding wahern_live_of_def ptr by simp
qed

text \<open>What the store relies on: malloc finds an address that is not in use.\<close>

definition malloc_ok :: "(theap \<Rightarrow> addr option) \<Rightarrow> bool" where
  "malloc_ok malloc \<longleftrightarrow> (\<forall>h. finite (dom h) \<longrightarrow> (\<exists>a. malloc h = Some a \<and> h a = None))"

lemma wahern_store:
  assumes m: "malloc_ok malloc"
  shows "timer_store (cts_wahern_vtable (Some M) malloc) wahern_inv wahern_now_of wahern_live_of (\<lambda>t. t) (2 ^ 60) (2 ^ 64)"
proof unfold_locales
  fix s :: wahern and i t :: u64
  show "finite (dom (wahern_live_of s))" by (rule finite_subset [OF subset_UNIV]) simp
  assume v: "wahern_inv s"
  show "vt_size (cts_wahern_vtable (Some M) malloc) s = of_nat (card (dom (wahern_live_of s)))"
    using v unfolding wahern_live_dom [OF v] by (simp add: cts_wahern_vtable_def wahern_size_def wahern_inv_def)
  have "\<exists>a. malloc h = Some a \<and> h a = None" if "finite (dom h)" for h using m that by (simp add: malloc_ok_def)
  note start = wahern_start_spec [OF this v]
  assume "unat i < 2 ^ 60" "0 < unat t" "wahern_live_of s i = None" "wahern_now_of s + unat t < 2 ^ 64"
  then show "\<exists>s'. vt_start (cts_wahern_vtable (Some M) malloc) s i t = Some s' \<and> wahern_inv s' \<and> wahern_now_of s' = wahern_now_of s \<and>
      wahern_live_of s' = (wahern_live_of s)(i \<mapsto> wahern_now_of s + unat t)"
    using start by (simp add: cts_wahern_vtable_def)
qed (simp_all add: cts_wahern_vtable_def wahern_create_spec wahern_stop_spec wahern_tick_spec wahern_advance_spec del: not_None_eq)

end
