(* ===== verification/Stores_Agree.thy ===== *)
theory Stores_Agree
  imports Lawn2_Theorems Naive_Store Heap_Correct Wheel_Correct Wahern_Store
begin

text \<open>
  The stores of the benchmark harness against each other: every implementation of the interface of cts.h
  answers a legal workload with the same return values, those of the abstract store.
\<close>

text \<open>An allocator for the witness: the address after the last one in use.\<close>

definition next_address :: "theap \<Rightarrow> addr option" where
  "next_address h = Some (Suc (Max (insert 0 (dom h))))"

lemma next_address_ok: "malloc_ok next_address"
proof -
  have "h (Suc (Max (insert 0 (dom h)))) = None" if "finite (dom h)" for h :: theap
  proof (rule ccontr)
    assume "h (Suc (Max (insert 0 (dom h)))) \<noteq> None"
    then have "Suc (Max (insert 0 (dom h))) \<in> insert 0 (dom h)" by blast
    then have "Suc (Max (insert 0 (dom h))) \<le> Max (insert 0 (dom h))" using that by (intro Max_ge) simp_all
    then show False by simp
  qed
  then show ?thesis by (simp add: malloc_ok_def next_address_def)
qed

text \<open>
  C11: for ids below 2 ^ 59 and TTLs below 2 ^ 48 (the range the arrays and the levels of all of them cover), the
  Lawn2 store, the ring, the binary heap, the exact wheel and the adapter of the tickless wheel return the
  same values on every legal workload, those of the abstract store, and none of them leaves defined behaviour.
\<close>

theorem stores_agree:
  assumes "legal_run (2 ^ 59) (2 ^ 48) (\<lambda>t. t) spec_init cs" and "malloc_ok malloc"
  shows "\<exists>answers s1 s2 s3 s4 s5. answers = fst (spec_run (\<lambda>t. t) spec_init cs) \<and>
    vt_run cts_lawn2_vtable l2_create cs = Some (answers, s1) \<and>
    vt_run cts_naive_vtable naive_create cs = Some (answers, s2) \<and>
    vt_run cts_heap_vtable heap_create cs = Some (answers, s3) \<and>
    vt_run cts_wheel_exact_vtable we_create cs = Some (answers, s4) \<and>
    vt_run (cts_wahern_vtable (Some M) malloc) (wahern_create (Some M)) cs = Some (answers, s5)"
proof -
  have l: "legal_run i t (\<lambda>t. t) spec_init cs" if "2 ^ 59 \<le> i" "2 ^ 48 \<le> t" for i t
    using legal_run_mono [OF assms(1) that] .
  have "(2 :: nat) ^ 59 \<le> 2 ^ 60" "(2 :: nat) ^ 48 \<le> 2 ^ 58" "(2 :: nat) ^ 59 \<le> 2 ^ 64" "(2 :: nat) ^ 48 \<le> 2 ^ 64" by simp_all
  note w = l2.workload_correct [OF l] nv.workload_correct [OF l] hp.workload_correct [OF l] we.workload_correct [OF l]
    timer_store.workload_correct [OF wahern_store [OF assms(2)] l]
  show ?thesis using w by (simp add: cts_lawn2_vtable_def cts_naive_vtable_def cts_heap_vtable_def cts_wheel_exact_vtable_def cts_wahern_vtable_def)
qed

lemma demo_legal: "legal_run (2 ^ 59) (2 ^ 48) (\<lambda>t. t) spec_init demo_workload"
  by (simp add: demo_workload_def spec_init_def del: set_filter)

lemma stores_agree_witness:
  "\<exists>s2 s3. vt_run cts_naive_vtable naive_create demo_workload =
     Some ([Done, Done, Fired 1, Stopped False, Stopped True, Done, Done, Fired 0, Fired 1, Live 0], s2) \<and>
   vt_run cts_heap_vtable heap_create demo_workload =
     Some ([Done, Done, Fired 1, Stopped False, Stopped True, Done, Done, Fired 0, Fired 1, Live 0], s3)"
  using stores_agree [OF demo_legal next_address_ok, of wheel_memory] unfolding demo_workload_spec(1) by blast

text \<open>
  C27: the exact wheel does not cover all TTLs above 2 ^ 48. In any store that satisfies the invariant, at a time now
  where now + 1 is a multiple of 2 ^ 42, start an idle timer with a TTL above 2 ^ 48 whose predecessor is less than 2 ^ 42
  modulo 2 ^ 48 (2 ^ 48 + 1 to 2 ^ 48 + 2 ^ 42, 2 ^ 49 + 1 to 2 ^ 49 + 2 ^ 42, and so on; the deadline in 64 bits): the start
  succeeds, and the next tick cascades the slot of the timer and puts it back into that slot for ever.
\<close>

theorem wheel_exact_hangs:
  assumes "wheel_inv s" and "unat i < 2 ^ 60" and "wheel_live_of s i = None" and "wheel_now_of s + unat ttl < 2 ^ 64"
    and "2 ^ 42 dvd wheel_now_of s + 1" and "2 ^ 48 < unat ttl" and "(unat ttl - 1) mod 2 ^ 48 < 2 ^ 42"
  shows "\<exists>s'. we_start s i ttl = Some s' \<and> we_tick s' = None"
  by (rule we_far_start_hangs [OF assms])

text \<open>A fresh store, run to time 2 ^ 42 - 1.\<close>

lemma wheel_exact_hangs_witness:
  "\<exists>s s'. we_advance we_create (2 ^ 42 - 1) = Some s \<and> we_start s 1 (2 ^ 48 + 1) = Some s' \<and> we_tick s' = None"
proof -
  obtain s where s: "we_advance we_create (2 ^ 42 - 1) = Some s" "wheel_inv s" "wheel_now_of s = unat (2 ^ 42 - 1 :: u64)"
      "wheel_live_of s = Map.empty"
    using we_advance_spec [OF we_create_spec(1), of "2 ^ 42 - 1"] we_create_spec(2,3) by auto
  then show ?thesis using wheel_exact_hangs [of s 1 "2 ^ 48 + 1"] by auto
qed

end
