(* ===== verification/Hashmap.thy ===== *)
theory Hashmap
  imports Prelude
begin

text \<open>
  The generic hash map of src/utils/hashmap.c and hashmap.h, which src/lawn.c uses twice (TTL to
  queue, element to node).

  \<^item> Keys and values are the pointers the map stores, so their types are parameters; hash_fn and
    equal_fn are the callbacks of the map (the context pointer, never used by the program, is
    dropped).
  \<^item> A chain is the list of its entries, in the order of the next pointers; the entries belong to the
    map and are never shared. A \<open>pprev\<close> pointer into a chain is a position in that list.
  \<^item> The array of buckets is NULL, an allocated array, or the dangling pointer that hashmap__clear
    leaves behind; using the latter is undefined behaviour, None.
  \<^item> Whether calloc and malloc succeed is an argument of the operations that call them.
  \<^item> Capacities and sizes count allocated objects and are naturals.
\<close>

datatype 'a array_ptr = NULL | Freed | Array "'a list"

record ('k, 'v) hashmap =
  hash_fn :: "'k \<Rightarrow> u64"
  equal_fn :: "'k \<Rightarrow> 'k \<Rightarrow> bool"
  buckets :: "('k \<times> 'v) list array_ptr"
  hm_cap :: nat
  hm_cap_bits :: nat
  hm_sz :: nat

datatype insert_strategy = HASHMAP_ADD | HASHMAP_SET | HASHMAP_UPDATE | HASHMAP_APPEND

text \<open>The int result of the operations: 0 or a negated error number.\<close>

datatype err = OK | EEXIST | ENOENT | ENOMEM

section \<open>Definitions\<close>

text \<open>
  The multiplicative hash. For \<open>bits = 0\<close>, which hashmap__insert computes for a map without buckets,
  the C shift by 64 is undefined; the result is not used in that case.
\<close>

definition hash_bits :: "u64 \<Rightarrow> nat \<Rightarrow> u64" where
  "hash_bits h bits = drop_bit (64 - bits) (h * 11400714819323198485)"

definition HASHMAP_MIN_CAP_BITS :: nat where
  "HASHMAP_MIN_CAP_BITS = 2"

definition hashmap_add_entry :: "('k \<times> 'v) list list \<Rightarrow> nat \<Rightarrow> 'k \<times> 'v \<Rightarrow> ('k \<times> 'v) list list option" where
  "hashmap_add_entry bs h entry = do { chain \<leftarrow> index bs h; store bs h (entry # chain) }"

definition hashmap_del_entry :: "('k \<times> 'v) list list \<Rightarrow> nat \<Rightarrow> nat \<Rightarrow> ('k \<times> 'v) list list option" where
  "hashmap_del_entry bs h pos = do { chain \<leftarrow> index bs h; store bs h (take pos chain @ drop (Suc pos) chain) }"

definition hashmap_init :: "('k \<Rightarrow> u64) \<Rightarrow> ('k \<Rightarrow> 'k \<Rightarrow> bool) \<Rightarrow> ('k, 'v) hashmap" where
  "hashmap_init hash equal =
     \<lparr>hash_fn = hash, equal_fn = equal, buckets = NULL, hm_cap = 0, hm_cap_bits = 0, hm_sz = 0\<rparr>"

text \<open>ERR_PTR(-ENOMEM) when malloc fails.\<close>

definition hashmap_new :: "('k \<Rightarrow> u64) \<Rightarrow> ('k \<Rightarrow> 'k \<Rightarrow> bool) \<Rightarrow> bool \<Rightarrow> err + ('k, 'v) hashmap" where
  "hashmap_new hash equal malloc_ok = (if malloc_ok then Inr (hashmap_init hash equal) else Inl ENOMEM)"

definition hashmap_clear :: "('k, 'v) hashmap \<Rightarrow> ('k, 'v) hashmap option" where
  "hashmap_clear m = (case buckets m of
       NULL \<Rightarrow> Some (m\<lparr>hm_cap := 0, hm_cap_bits := 0, hm_sz := 0\<rparr>)
     | Array _ \<Rightarrow> Some (m\<lparr>buckets := Freed, hm_cap := 0, hm_cap_bits := 0, hm_sz := 0\<rparr>)
     | Freed \<Rightarrow> None)"

definition hashmap_size :: "('k, 'v) hashmap \<Rightarrow> nat" where
  "hashmap_size m = hm_sz m"

definition hashmap_capacity :: "('k, 'v) hashmap \<Rightarrow> nat" where
  "hashmap_capacity m = hm_cap m"

definition hashmap_needs_to_grow :: "('k, 'v) hashmap \<Rightarrow> bool" where
  "hashmap_needs_to_grow m \<longleftrightarrow> hm_cap m = 0 \<or> (hm_sz m + 1) * 4 div 3 > hm_cap m"

text \<open>A bucket of the map, as the loops over all entries read it.\<close>

definition bucket :: "('k, 'v) hashmap \<Rightarrow> nat \<Rightarrow> ('k \<times> 'v) list option" where
  "bucket m bkt = (case buckets m of Array bs \<Rightarrow> index bs bkt | _ \<Rightarrow> None)"

fun rehash_chain ::
  "('k \<Rightarrow> u64) \<Rightarrow> nat \<Rightarrow> ('k \<times> 'v) list \<Rightarrow> ('k \<times> 'v) list list \<Rightarrow> ('k \<times> 'v) list list option" where
  "rehash_chain hash new_cap_bits [] nb = Some nb"
| "rehash_chain hash new_cap_bits (cur # tmp) nb = do {
     let h = hash_bits (hash (fst cur)) new_cap_bits;
     nb \<leftarrow> hashmap_add_entry nb (unat h) cur;
     rehash_chain hash new_cap_bits tmp nb
   }"

fun rehash :: "('k, 'v) hashmap \<Rightarrow> nat \<Rightarrow> nat list \<Rightarrow> ('k \<times> 'v) list list \<Rightarrow> ('k \<times> 'v) list list option" where
  "rehash m new_cap_bits [] nb = Some nb"
| "rehash m new_cap_bits (bkt # bkts) nb = do {
     chain \<leftarrow> bucket m bkt;
     nb \<leftarrow> rehash_chain (hash_fn m) new_cap_bits chain nb;
     rehash m new_cap_bits bkts nb
   }"

definition hashmap_grow :: "('k, 'v) hashmap \<Rightarrow> bool \<Rightarrow> (err \<times> ('k, 'v) hashmap) option" where
  "hashmap_grow m calloc_ok = do {
     let new_cap_bits = hm_cap_bits m + 1;
     let new_cap_bits = (if new_cap_bits < HASHMAP_MIN_CAP_BITS then HASHMAP_MIN_CAP_BITS else new_cap_bits);
     let new_cap = 2 ^ new_cap_bits;
     (if \<not> calloc_ok then Some (ENOMEM, m) else do {
        nb \<leftarrow> rehash m new_cap_bits [0..<hm_cap m] (replicate new_cap []);
        Some (OK, m\<lparr>hm_cap := new_cap, hm_cap_bits := new_cap_bits, buckets := Array nb\<rparr>)
      })
   }"

fun find_chain :: "('k \<Rightarrow> 'k \<Rightarrow> bool) \<Rightarrow> ('k \<times> 'v) list \<Rightarrow> 'k \<Rightarrow> nat option" where
  "find_chain equal [] key = None"
| "find_chain equal (cur # cs) key =
     (if equal (fst cur) key then Some 0 else map_option Suc (find_chain equal cs key))"

text \<open>The position and the contents of the entry, Some None when there is none.\<close>

definition hashmap_find_entry :: "('k, 'v) hashmap \<Rightarrow> 'k \<Rightarrow> u64 \<Rightarrow> (nat \<times> 'k \<times> 'v) option option" where
  "hashmap_find_entry m key hash = (case buckets m of
       NULL \<Rightarrow> Some None
     | Freed \<Rightarrow> None
     | Array bs \<Rightarrow> do {
         chain \<leftarrow> index bs (unat hash);
         Some (map_option (\<lambda>pos. (pos, chain ! pos)) (find_chain (equal_fn m) chain key))
       })"

text \<open>
  hashmap__insert returns the error code, what it stores through old_key and old_value (None for
  NULL), and the map. The last part of the function, after the lookup, is \<open>insert_new\<close>.
\<close>

definition insert_new ::
  "('k, 'v) hashmap \<Rightarrow> 'k \<Rightarrow> 'v \<Rightarrow> insert_strategy \<Rightarrow> bool \<Rightarrow> bool \<Rightarrow> u64 \<Rightarrow> (err \<times> ('k, 'v) hashmap) option" where
  "insert_new m key val strategy calloc_ok malloc_ok h =
     (if strategy = HASHMAP_UPDATE then Some (ENOENT, m)
      else do {
        (err, m, h) \<leftarrow>
          (if hashmap_needs_to_grow m then do {
             (err, m) \<leftarrow> hashmap_grow m calloc_ok;
             Some (err, m, hash_bits (hash_fn m key) (hm_cap_bits m))
           } else Some (OK, m, h));
        (if err \<noteq> OK then Some (err, m)
         else if \<not> malloc_ok then Some (ENOMEM, m)
         else (case buckets m of
             Array bs \<Rightarrow> do {
               bs \<leftarrow> hashmap_add_entry bs (unat h) (key, val);
               Some (OK, m\<lparr>buckets := Array bs, hm_sz := hm_sz m + 1\<rparr>)
             }
           | _ \<Rightarrow> None))
      })"

definition hashmap_insert ::
  "('k, 'v) hashmap \<Rightarrow> 'k \<Rightarrow> 'v \<Rightarrow> insert_strategy \<Rightarrow> bool \<Rightarrow> bool \<Rightarrow>
     (err \<times> 'k option \<times> 'v option \<times> ('k, 'v) hashmap) option" where
  "hashmap_insert m key val strategy calloc_ok malloc_ok = do {
     let h = hash_bits (hash_fn m key) (hm_cap_bits m);
     found \<leftarrow> (if strategy \<noteq> HASHMAP_APPEND then hashmap_find_entry m key h else Some None);
     (case found of
        Some (pos, old_key, old_value) \<Rightarrow>
          (if strategy = HASHMAP_SET \<or> strategy = HASHMAP_UPDATE then
             (case buckets m of
                Array bs \<Rightarrow> do {
                  chain \<leftarrow> index bs (unat h);
                  bs \<leftarrow> store bs (unat h) (chain[pos := (key, val)]);
                  Some (OK, Some old_key, Some old_value, m\<lparr>buckets := Array bs\<rparr>)
                }
              | _ \<Rightarrow> None)
           else Some (EEXIST, Some old_key, Some old_value, m))
      | None \<Rightarrow> do {
          (err, m) \<leftarrow> insert_new m key val strategy calloc_ok malloc_ok h;
          Some (err, None, None, m)
        })
   }"

definition hashmap_add ::
  "('k, 'v) hashmap \<Rightarrow> 'k \<Rightarrow> 'v \<Rightarrow> bool \<Rightarrow> bool \<Rightarrow> (err \<times> ('k, 'v) hashmap) option" where
  "hashmap_add m key val calloc_ok malloc_ok =
     map_option (\<lambda>(err, _, _, m). (err, m)) (hashmap_insert m key val HASHMAP_ADD calloc_ok malloc_ok)"

definition hashmap_set ::
  "('k, 'v) hashmap \<Rightarrow> 'k \<Rightarrow> 'v \<Rightarrow> bool \<Rightarrow> bool \<Rightarrow> (err \<times> 'k option \<times> 'v option \<times> ('k, 'v) hashmap) option" where
  "hashmap_set m key val calloc_ok malloc_ok = hashmap_insert m key val HASHMAP_SET calloc_ok malloc_ok"

definition hashmap_update ::
  "('k, 'v) hashmap \<Rightarrow> 'k \<Rightarrow> 'v \<Rightarrow> bool \<Rightarrow> bool \<Rightarrow> (err \<times> 'k option \<times> 'v option \<times> ('k, 'v) hashmap) option" where
  "hashmap_update m key val calloc_ok malloc_ok = hashmap_insert m key val HASHMAP_UPDATE calloc_ok malloc_ok"

definition hashmap_append ::
  "('k, 'v) hashmap \<Rightarrow> 'k \<Rightarrow> 'v \<Rightarrow> bool \<Rightarrow> bool \<Rightarrow> (err \<times> ('k, 'v) hashmap) option" where
  "hashmap_append m key val calloc_ok malloc_ok =
     map_option (\<lambda>(err, _, _, m). (err, m)) (hashmap_insert m key val HASHMAP_APPEND calloc_ok malloc_ok)"

text \<open>Some None: false, the key is not there. Some (Some v): true, with the value.\<close>

definition hashmap_find :: "('k, 'v) hashmap \<Rightarrow> 'k \<Rightarrow> 'v option option" where
  "hashmap_find m key = do {
     let h = hash_bits (hash_fn m key) (hm_cap_bits m);
     found \<leftarrow> hashmap_find_entry m key h;
     Some (map_option (\<lambda>(_, _, v). v) found)
   }"

text \<open>Whether the key was there, with the key and value of the freed entry, and the map.\<close>

definition hashmap_delete :: "('k, 'v) hashmap \<Rightarrow> 'k \<Rightarrow> (('k \<times> 'v) option \<times> ('k, 'v) hashmap) option" where
  "hashmap_delete m key = do {
     let h = hash_bits (hash_fn m key) (hm_cap_bits m);
     found \<leftarrow> hashmap_find_entry m key h;
     (case found of
        None \<Rightarrow> Some (None, m)
      | Some (pos, old_key, old_value) \<Rightarrow>
          (case buckets m of
             Array bs \<Rightarrow> do {
               bs \<leftarrow> hashmap_del_entry bs (unat h) pos;
               Some (Some (old_key, old_value), m\<lparr>buckets := Array bs, hm_sz := hm_sz m - 1\<rparr>)
             }
           | _ \<Rightarrow> None))
   }"

end
