(* ===== verification/Lawn.thy ===== *)
theory Lawn
  imports Hashmap
begin

unbundle bit_operations_syntax

text \<open>
  The first Lawn timer store, src/lawn.c and lawn.h: definitions.

  \<^item> \<open>lawn\<close> is the C struct; the nodes and queues it points to are in the memory \<open>mem\<close>, one partial map
    per C type. Both of its hash maps are values of the model of hashmap.c.
  \<^item> A C string is the list of its bytes before the terminator. The element map is keyed by the string;
    the C code stores the pointer node->element with the node, so a key lives exactly as long as the
    node that the map associates with it.
  \<^item> The clock (current_time_ms), the results of malloc and strndup, and the address of the local
    variable whose address \<open>_removeQueueFromMapping\<close> passes as a key are arguments. None as the
    result of an operation is undefined behaviour or a loop that does not end.
  \<^item> The field len of a queue counts and is a natural.
\<close>

section \<open>Data\<close>

type_synonym cstr = "8 word list"

record enode =
  n_element :: "cstr option"
  n_element_len :: nat
  n_ttl_queue :: u64
  n_expiration :: u64
  n_next :: "addr option"
  n_prev :: "addr option"

record equeue =
  q_head :: "addr option"
  q_tail :: "addr option"
  q_len :: nat

record lawn =
  l_timeout_queues :: "(u64, addr) hashmap"
  l_element_nodes :: "(cstr, addr) hashmap"
  l_next_expiration :: u64

record mem =
  m_nodes :: "addr \<rightharpoonup> enode"
  m_queues :: "addr \<rightharpoonup> equeue"

definition LAWN_OK :: int where "LAWN_OK = 0"
definition LAWN_ERR :: int where "LAWN_ERR = 1"
definition LAWN_LATANCY_PADDING_MS :: u64 where "LAWN_LATANCY_PADDING_MS = 0"

text \<open>Assignment through a pointer to a node or a queue.\<close>

definition set_node :: "mem \<Rightarrow> addr option \<Rightarrow> (enode \<Rightarrow> enode) \<Rightarrow> mem option" where
  "set_node M p f = do {
     a \<leftarrow> p;
     nd \<leftarrow> m_nodes M a;
     Some (M\<lparr>m_nodes := (m_nodes M)(a \<mapsto> f nd)\<rparr>)
   }"

definition set_queue_at :: "mem \<Rightarrow> addr \<Rightarrow> (equeue \<Rightarrow> equeue) \<Rightarrow> mem option" where
  "set_queue_at M q f = do {
     qd \<leftarrow> m_queues M q;
     Some (M\<lparr>m_queues := (m_queues M)(q \<mapsto> f qd)\<rparr>)
   }"

section \<open>Hash map callbacks\<close>

text \<open>The loop adds the next byte as a char, which is signed, to 33 times the hash.\<close>

fun string_hash_loop :: "u64 \<Rightarrow> cstr \<Rightarrow> u64" where
  "string_hash_loop hash [] = hash"
| "string_hash_loop hash (c # str) =
     (if c = 0 then hash else string_hash_loop ((push_bit 5 hash + hash) + scast c) str)"

definition string_hash :: "cstr \<Rightarrow> u64" where
  "string_hash str = string_hash_loop 5381 str"

text \<open>strcmp, of bytes compared as unsigned char.\<close>

fun strcmp :: "cstr \<Rightarrow> cstr \<Rightarrow> int" where
  "strcmp [] [] = 0"
| "strcmp [] (b # bs) = -1"
| "strcmp (a # as) [] = 1"
| "strcmp (a # as) (b # bs) = (if a = b then strcmp as bs else if a < b then -1 else 1)"

definition ttl_hash_fn :: "u64 \<Rightarrow> u64" where
  "ttl_hash_fn k = k"

definition ttl_equal_fn :: "u64 \<Rightarrow> u64 \<Rightarrow> bool" where
  "ttl_equal_fn a b \<longleftrightarrow> a = b"

definition elem_hash_fn :: "cstr \<Rightarrow> u64" where
  "elem_hash_fn k = string_hash k"

definition elem_equal_fn :: "cstr \<Rightarrow> cstr \<Rightarrow> bool" where
  "elem_equal_fn a b \<longleftrightarrow> strcmp a b = 0"

section \<open>Nodes and queues\<close>

text \<open>What the allocators return to a call, and whether the allocations of the hash maps succeed.\<close>

record allocs =
  a_node :: "addr option"
  a_strndup :: bool
  a_queue :: "addr option"
  a_queue_grow :: bool
  a_queue_entry :: bool
  a_node_grow :: bool
  a_node_entry :: bool

definition strndup :: "bool \<Rightarrow> cstr \<Rightarrow> nat \<Rightarrow> cstr option" where
  "strndup ok s n = (if ok then Some (take n s) else None)"

text \<open>A failed malloc is not checked: the assignment through NULL is undefined.\<close>

definition NewNode :: "mem \<Rightarrow> allocs \<Rightarrow> u64 \<Rightarrow> cstr \<Rightarrow> nat \<Rightarrow> u64 \<Rightarrow> (addr \<times> mem) option" where
  "NewNode M al now element element_len ttl = do {
     a \<leftarrow> a_node al;
     let nd = \<lparr>n_element = strndup (a_strndup al) element element_len, n_element_len = element_len,
               n_ttl_queue = ttl, n_expiration = now + ttl, n_next = None, n_prev = None\<rparr>;
     Some (a, M\<lparr>m_nodes := (m_nodes M)(a \<mapsto> nd)\<rparr>)
   }"

definition freeNode :: "mem \<Rightarrow> addr \<Rightarrow> mem option" where
  "freeNode M a = do { nd \<leftarrow> m_nodes M a; Some (M\<lparr>m_nodes := (m_nodes M)(a := None)\<rparr>) }"

definition newQueue :: "mem \<Rightarrow> addr option \<Rightarrow> (addr \<times> mem) option" where
  "newQueue M p = do {
     q \<leftarrow> p;
     Some (q, M\<lparr>m_queues := (m_queues M)(q \<mapsto> \<lparr>q_head = None, q_tail = None, q_len = 0\<rparr>)\<rparr>)
   }"

partial_function (option) free_nodes :: "mem \<Rightarrow> addr option \<Rightarrow> mem option" where
  "free_nodes M current = (case current of
     None \<Rightarrow> Some M
   | Some a \<Rightarrow> do {
       nd \<leftarrow> m_nodes M a;
       let nxt = n_next nd;
       M \<leftarrow> freeNode M a;
       free_nodes M nxt
     })"

definition freeQueue :: "mem \<Rightarrow> addr option \<Rightarrow> mem option" where
  "freeQueue M queue = (case queue of
     None \<Rightarrow> Some M
   | Some q \<Rightarrow> do {
       qd \<leftarrow> m_queues M q;
       M \<leftarrow> free_nodes M (q_head qd);
       Some (M\<lparr>m_queues := (m_queues M)(q := None)\<rparr>)
     })"

definition queuePush :: "mem \<Rightarrow> addr \<Rightarrow> addr \<Rightarrow> mem option" where
  "queuePush M queue node = do {
     qd \<leftarrow> m_queues M queue;
     M \<leftarrow> (if q_tail qd = None then set_queue_at M queue (q_head_update (\<lambda>_. Some node))
          else do {
            M \<leftarrow> set_node M (Some node) (n_prev_update (\<lambda>_. q_tail qd));
            set_node M (q_tail qd) (n_next_update (\<lambda>_. Some node))
          });
     set_queue_at M queue (\<lambda>qd. qd\<lparr>q_tail := Some node, q_len := q_len qd + 1\<rparr>)
   }"

section \<open>Mapping utilities\<close>

definition removeNodeFromMapping :: "lawn \<Rightarrow> enode \<Rightarrow> lawn option" where
  "removeNodeFromMapping L nd = do {
     k \<leftarrow> n_element nd;
     (_, m) \<leftarrow> hashmap_delete (l_element_nodes L) k;
     Some (L\<lparr>l_element_nodes := m\<rparr>)
   }"

text \<open>
  The key that is deleted is the address of the parameter queue_ttl, not its value; \<open>key\<close> is that
  address.
\<close>

definition removeQueueFromMapping :: "u64 \<Rightarrow> lawn \<Rightarrow> mem \<Rightarrow> (lawn \<times> mem) option" where
  "removeQueueFromMapping key L M = do {
     (old, m) \<leftarrow> hashmap_delete (l_timeout_queues L) key;
     M \<leftarrow> freeQueue M (map_option snd old);
     Some (L\<lparr>l_timeout_queues := m\<rparr>, M)
   }"

definition findNodeInMapping :: "lawn \<Rightarrow> cstr \<Rightarrow> addr option option" where
  "findNodeInMapping L element = hashmap_find (l_element_nodes L) element"

definition findQueueInMapping :: "lawn \<Rightarrow> u64 \<Rightarrow> addr option option" where
  "findQueueInMapping L queue_ttl = hashmap_find (l_timeout_queues L) queue_ttl"

definition addNodeToMapping :: "lawn \<Rightarrow> mem \<Rightarrow> allocs \<Rightarrow> addr \<Rightarrow> (int \<times> lawn) option" where
  "addNodeToMapping L M al node = do {
     nd \<leftarrow> m_nodes M node;
     key \<leftarrow> n_element nd;
     (err, _, _, m) \<leftarrow> hashmap_set (l_element_nodes L) key node (a_node_grow al) (a_node_entry al);
     let L = L\<lparr>l_element_nodes := m\<rparr>;
     (if err \<noteq> OK then Some (LAWN_ERR, L)
      else Some (LAWN_OK, if n_expiration nd < l_next_expiration L
                          then L\<lparr>l_next_expiration := n_expiration nd\<rparr> else L))
   }"

section \<open>Taking nodes off a queue\<close>

text \<open>
  _queuePull: the lawn may be NULL. The three cases that empty the queue return early, without
  touching len; otherwise the neighbours are joined.
\<close>

definition empty_queue :: "u64 \<Rightarrow> lawn option \<Rightarrow> mem \<Rightarrow> addr \<Rightarrow> (lawn option \<times> mem) option" where
  "empty_queue key L M queue = do {
     M \<leftarrow> set_queue_at M queue (\<lambda>qd. qd\<lparr>q_head := None, q_tail := None\<rparr>);
     (case L of
        None \<Rightarrow> Some (None, M)
      | Some L \<Rightarrow> map_option (\<lambda>(L, M). (Some L, M)) (removeQueueFromMapping key L M))
   }"

definition pull_tail :: "mem \<Rightarrow> addr \<Rightarrow> addr \<Rightarrow> mem option" where
  "pull_tail M queue node = do {
     qd \<leftarrow> m_queues M queue;
     nd \<leftarrow> m_nodes M node;
     M \<leftarrow> (if Some node = q_tail qd \<or> n_next nd = None then
            (if n_prev nd \<noteq> None then do {
               M \<leftarrow> set_queue_at M queue (q_tail_update (\<lambda>_. n_prev nd));
               set_node M (n_prev nd) (n_next_update (\<lambda>_. None))
             }
             else set_queue_at M queue (q_tail_update (\<lambda>_. None)))
          else if n_next nd \<noteq> None then set_node M (n_next nd) (n_prev_update (\<lambda>_. n_prev nd))
          else Some M);
     set_queue_at M queue (\<lambda>qd. qd\<lparr>q_len := q_len qd - 1\<rparr>)
   }"

definition queuePull :: "u64 \<Rightarrow> lawn option \<Rightarrow> mem \<Rightarrow> addr \<Rightarrow> addr \<Rightarrow> (lawn option \<times> mem) option" where
  "queuePull key L M queue node = do {
     qd \<leftarrow> m_queues M queue;
     nd \<leftarrow> m_nodes M node;
     (if q_len qd = 1 then empty_queue key L M queue
      else if Some node = q_head qd \<or> n_prev nd = None then
        (case q_head qd of
           None \<Rightarrow> empty_queue key L M queue
         | Some hdp \<Rightarrow> do {
             hnd \<leftarrow> m_nodes M hdp;
             (if n_next hnd = None then empty_queue key L M queue
              else do {
                M \<leftarrow> set_queue_at M queue (q_head_update (\<lambda>_. n_next hnd));
                M \<leftarrow> set_node M (n_next hnd) (n_prev_update (\<lambda>_. None));
                M \<leftarrow> pull_tail M queue node;
                Some (L, M)
              })
           })
      else do {
        M \<leftarrow> set_node M (n_prev nd) (n_next_update (\<lambda>_. n_next nd));
        M \<leftarrow> pull_tail M queue node;
        Some (L, M)
      })
   }"

definition queuePop_at :: "u64 \<Rightarrow> lawn option \<Rightarrow> mem \<Rightarrow> addr \<Rightarrow> (addr option \<times> lawn option \<times> mem) option" where
  "queuePop_at key L M queue = do {
     qd \<leftarrow> m_queues M queue;
     (case q_head qd of
        None \<Rightarrow> Some (None, L, M)
      | Some node \<Rightarrow> do {
          nd \<leftarrow> m_nodes M node;
          (L, M) \<leftarrow>
            (if q_len qd = 1 \<or> n_next nd = None then empty_queue key L M queue
             else do {
               M \<leftarrow> set_queue_at M queue (q_head_update (\<lambda>_. n_next nd));
               M \<leftarrow> set_node M (n_next nd) (n_prev_update (\<lambda>_. None));
               Some (L, M)
             });
          M \<leftarrow> set_queue_at M queue (\<lambda>qd. qd\<lparr>q_len := q_len qd - 1\<rparr>);
          Some (Some node, L, M)
        })
   }"

definition queuePop :: "mem \<Rightarrow> addr option \<Rightarrow> (addr option \<times> mem) option" where
  "queuePop M queue = (case queue of
     None \<Rightarrow> Some (None, M)
   | Some q \<Rightarrow> map_option (\<lambda>(r, _, M). (r, M)) (queuePop_at 0 None M q))"

definition removeNode :: "u64 \<Rightarrow> lawn \<Rightarrow> mem \<Rightarrow> addr \<Rightarrow> (lawn \<times> mem) option" where
  "removeNode key L M node = do {
     nd \<leftarrow> m_nodes M node;
     queue \<leftarrow> findQueueInMapping L (n_ttl_queue nd);
     (case queue of
        None \<Rightarrow> Some (L, M)
      | Some q \<Rightarrow> do {
          (L', M) \<leftarrow> queuePull key (Some L) M q node;
          L \<leftarrow> L';
          nd \<leftarrow> m_nodes M node;
          L \<leftarrow> removeNodeFromMapping L nd;
          Some (if n_expiration nd \<le> l_next_expiration L then L\<lparr>l_next_expiration := 0\<rparr> else L, M)
        })
   }"

section \<open>The store\<close>

text \<open>
  The arguments say whether the three allocations succeed. A failed malloc is dereferenced, and an
  error pointer of hashmap__new is stored without a check, so that the first use is undefined.
\<close>

definition newLawn :: "bool \<Rightarrow> bool \<Rightarrow> bool \<Rightarrow> lawn option" where
  "newLawn lawn_ok queues_ok nodes_ok =
     (if \<not> lawn_ok then None
      else (case (hashmap_new ttl_hash_fn ttl_equal_fn queues_ok, hashmap_new elem_hash_fn elem_equal_fn nodes_ok) of
          (Inr queues, Inr nodes) \<Rightarrow>
            Some \<lparr>l_timeout_queues = queues, l_element_nodes = nodes, l_next_expiration = 0\<rparr>
        | _ \<Rightarrow> None))"

text \<open>freeLawn: the maps are freed, and every queue with its nodes.\<close>

fun free_chain :: "mem \<Rightarrow> (u64 \<times> addr) list \<Rightarrow> mem option" where
  "free_chain M [] = Some M"
| "free_chain M (entry # es) = do { M \<leftarrow> freeQueue M (Some (snd entry)); free_chain M es }"

fun free_buckets :: "mem \<Rightarrow> lawn \<Rightarrow> nat list \<Rightarrow> mem option" where
  "free_buckets M L [] = Some M"
| "free_buckets M L (bkt # bkts) = do {
     chain \<leftarrow> bucket (l_timeout_queues L) bkt;
     M \<leftarrow> free_chain M chain;
     free_buckets M L bkts
   }"

definition freeLawn :: "lawn \<Rightarrow> mem \<Rightarrow> mem option" where
  "freeLawn L M = free_buckets M L [0..<hm_cap (l_timeout_queues L)]"

definition ttl_count :: "lawn option \<Rightarrow> nat" where
  "ttl_count L = (case L of None \<Rightarrow> 0 | Some L \<Rightarrow> hashmap_size (l_timeout_queues L))"

definition timer_count :: "lawn option \<Rightarrow> nat" where
  "timer_count L = (case L of None \<Rightarrow> 0 | Some L \<Rightarrow> hashmap_size (l_element_nodes L))"

definition set_element_ttl ::
    "allocs \<Rightarrow> u64 \<Rightarrow> lawn \<Rightarrow> mem \<Rightarrow> cstr \<Rightarrow> nat \<Rightarrow> u64 \<Rightarrow> (int \<times> lawn \<times> mem) option" where
  "set_element_ttl al now L M element len ttl_ms = do {
     (new_node, M) \<leftarrow> NewNode M al now element len ttl_ms;
     found \<leftarrow> findQueueInMapping L ttl_ms;
     (err, new_queue, L, M) \<leftarrow>
       (case found of
          Some q \<Rightarrow> Some (OK, q, L, M)
        | None \<Rightarrow> do {
            (q, M) \<leftarrow> newQueue M (a_queue al);
            (err, m) \<leftarrow> hashmap_add (l_timeout_queues L) ttl_ms q (a_queue_grow al) (a_queue_entry al);
            Some (err, q, L\<lparr>l_timeout_queues := m\<rparr>, M)
          });
     (if err \<noteq> OK then Some (LAWN_ERR, L, M)
      else do {
        M \<leftarrow> queuePush M new_queue new_node;
        (r, L) \<leftarrow> addNodeToMapping L M al new_node;
        Some (r, L, M)
      })
   }"

definition add_new_node ::
    "allocs \<Rightarrow> u64 \<Rightarrow> lawn \<Rightarrow> mem \<Rightarrow> cstr \<Rightarrow> nat \<Rightarrow> u64 \<Rightarrow> (int \<times> lawn \<times> mem) option" where
  "add_new_node al now L M element len ttl_ms = set_element_ttl al now L M element len ttl_ms"

definition get_element_exp :: "lawn \<Rightarrow> mem \<Rightarrow> cstr \<Rightarrow> u64 option" where
  "get_element_exp L M key = do {
     node \<leftarrow> findNodeInMapping L key;
     (case node of
        Some a \<Rightarrow> map_option n_expiration (m_nodes M a)
      | None \<Rightarrow> Some (- 1))
   }"

definition del_element_exp :: "u64 \<Rightarrow> lawn \<Rightarrow> mem \<Rightarrow> cstr \<Rightarrow> (int \<times> lawn \<times> mem) option" where
  "del_element_exp stk L M key = do {
     node \<leftarrow> findNodeInMapping L key;
     (case node of
        Some a \<Rightarrow> do {
          (L, M) \<leftarrow> removeNode stk L M a;
          M \<leftarrow> freeNode M a;
          Some (LAWN_OK, L, M)
        }
      | None \<Rightarrow> Some (LAWN_OK, L, M))
   }"

text \<open>The loop over all queues of _get_next_node: one entry, a chain, the buckets.\<close>

definition next_entry :: "mem \<Rightarrow> addr \<Rightarrow> lawn \<times> addr option \<Rightarrow> (lawn \<times> addr option) option" where
  "next_entry M queue = (\<lambda>(L, next_node). do {
     qd \<leftarrow> m_queues M queue;
     (if q_len qd > 0 \<and> q_head qd \<noteq> None then do {
        a \<leftarrow> q_head qd;
        nd \<leftarrow> m_nodes M a;
        let head_node_exp = n_expiration nd;
        smaller \<leftarrow> (case next_node of
            None \<Rightarrow> Some True
          | Some b \<Rightarrow> map_option (\<lambda>nd'. head_node_exp < n_expiration nd') (m_nodes M b));
        Some (if smaller then
                (if l_next_expiration L = 0 \<or> head_node_exp < l_next_expiration L
                 then L\<lparr>l_next_expiration := head_node_exp\<rparr> else L, Some a)
              else (L, next_node))
      }
      else Some (L, next_node))
   })"

fun next_chain :: "mem \<Rightarrow> (u64 \<times> addr) list \<Rightarrow> lawn \<times> addr option \<Rightarrow> (lawn \<times> addr option) option" where
  "next_chain M [] s = Some s"
| "next_chain M (entry # es) s = do { s \<leftarrow> next_entry M (snd entry) s; next_chain M es s }"

fun next_buckets :: "mem \<Rightarrow> nat list \<Rightarrow> lawn \<times> addr option \<Rightarrow> (lawn \<times> addr option) option" where
  "next_buckets M [] s = Some s"
| "next_buckets M (bkt # bkts) s = do {
     chain \<leftarrow> bucket (l_timeout_queues (fst s)) bkt;
     s \<leftarrow> next_chain M chain s;
     next_buckets M bkts s
   }"

definition get_next_node :: "lawn \<Rightarrow> mem \<Rightarrow> (addr option \<times> lawn) option" where
  "get_next_node L M = do {
     (L, next_node) \<leftarrow> next_buckets M [0..<hm_cap (l_timeout_queues L)] (L, None);
     Some (next_node, L)
   }"

definition next_at :: "lawn \<Rightarrow> mem \<Rightarrow> (u64 \<times> lawn) option" where
  "next_at L M =
     (if l_next_expiration L = 0 then do {
        (next_node, L) \<leftarrow> get_next_node L M;
        (case next_node of
           None \<Rightarrow> Some (- 1, L)
         | Some a \<Rightarrow> do {
             nd \<leftarrow> m_nodes M a;
             let L = L\<lparr>l_next_expiration := n_expiration nd\<rparr>;
             Some (l_next_expiration L, L)
           })
      }
      else Some (l_next_expiration L, L))"

definition pop_next :: "u64 \<Rightarrow> lawn \<Rightarrow> mem \<Rightarrow> (addr option \<times> lawn \<times> mem) option" where
  "pop_next stk L M = do {
     (next_node, L) \<leftarrow> get_next_node L M;
     (case next_node of
        None \<Rightarrow> Some (None, L, M)
      | Some a \<Rightarrow> do {
          (L, M) \<leftarrow> removeNode stk L M a;
          Some (Some a, L, M)
        })
   }"

section \<open>Expiry\<close>

text \<open>Appending a popped node to the queue that is returned.\<close>

definition hand_over :: "lawn \<Rightarrow> mem \<Rightarrow> addr \<Rightarrow> addr \<Rightarrow> (lawn \<times> mem) option" where
  "hand_over L M retval node = do {
     nd \<leftarrow> m_nodes M node;
     L \<leftarrow> removeNodeFromMapping L nd;
     M \<leftarrow> set_node M (Some node) (\<lambda>nd. nd\<lparr>n_prev := None, n_next := None\<rparr>);
     rd \<leftarrow> m_queues M retval;
     M \<leftarrow> (if q_head rd = None then
            set_queue_at M retval (\<lambda>rd. rd\<lparr>q_head := Some node, q_tail := Some node\<rparr>)
          else do {
            M \<leftarrow> set_node M (Some node) (n_prev_update (\<lambda>_. q_tail rd));
            M \<leftarrow> set_node M (q_tail rd) (n_next_update (\<lambda>_. Some node));
            set_queue_at M retval (q_tail_update (\<lambda>_. Some node))
          });
     M \<leftarrow> set_queue_at M retval (\<lambda>rd. rd\<lparr>q_len := q_len rd + 1\<rparr>);
     Some (L, M)
   }"

text \<open>The while loop over one queue; \<open>next\<close> is the local next_expiration.\<close>

partial_function (option) pop_queue ::
    "u64 \<Rightarrow> u64 \<Rightarrow> addr \<Rightarrow> addr \<Rightarrow> lawn \<Rightarrow> mem \<Rightarrow> u64 \<Rightarrow> (lawn \<times> mem \<times> u64) option" where
  "pop_queue stk now retval queue L M next = do {
     qd \<leftarrow> m_queues M queue;
     (case q_head qd of
        None \<Rightarrow> Some (L, M, next)
      | Some a \<Rightarrow>
          if q_len qd = 0 then Some (L, M, next)
          else do {
            nd \<leftarrow> m_nodes M a;
            (if n_expiration nd \<le> now then do {
               (r, L', M) \<leftarrow> queuePop_at stk (Some L) M queue;
               L \<leftarrow> L';
               (L, M) \<leftarrow> (case r of None \<Rightarrow> Some (L, M) | Some node \<Rightarrow> hand_over L M retval node);
               pop_queue stk now retval queue L M next
             }
             else Some (L, M, if next = 0 \<or> n_expiration nd < next then n_expiration nd else next))
          })
   }"

text \<open>
  The loop over the entries of a bucket reads the next pointer of an entry after its body: if the body
  has deleted the entry, that memory is freed.
\<close>

fun entries_after :: "(u64 \<times> addr) list \<Rightarrow> u64 \<Rightarrow> (u64 \<times> addr) list option" where
  "entries_after [] k = None"
| "entries_after (e # es) k = (if fst e = k then Some es else entries_after es k)"

partial_function (option) pop_chain ::
    "u64 \<Rightarrow> u64 \<Rightarrow> addr \<Rightarrow> nat \<Rightarrow> (u64 \<times> addr) list \<Rightarrow> lawn \<Rightarrow> mem \<Rightarrow> u64 \<Rightarrow> (lawn \<times> mem \<times> u64) option" where
  "pop_chain stk now retval bkt es L M next = (case es of
     [] \<Rightarrow> Some (L, M, next)
   | entry # _ \<Rightarrow> do {
       (L, M, next) \<leftarrow> pop_queue stk now retval (snd entry) L M next;
       chain \<leftarrow> bucket (l_timeout_queues L) bkt;
       es \<leftarrow> entries_after chain (fst entry);
       pop_chain stk now retval bkt es L M next
     })"

fun pop_buckets ::
    "u64 \<Rightarrow> u64 \<Rightarrow> addr \<Rightarrow> nat list \<Rightarrow> lawn \<Rightarrow> mem \<Rightarrow> u64 \<Rightarrow> (lawn \<times> mem \<times> u64) option" where
  "pop_buckets stk now retval [] L M next = Some (L, M, next)"
| "pop_buckets stk now retval (bkt # bkts) L M next = do {
     chain \<leftarrow> bucket (l_timeout_queues L) bkt;
     (L, M, next) \<leftarrow> pop_chain stk now retval bkt chain L M next;
     pop_buckets stk now retval bkts L M next
   }"

definition pop_expired :: "addr option \<Rightarrow> u64 \<Rightarrow> u64 \<Rightarrow> lawn \<Rightarrow> mem \<Rightarrow> (addr \<times> lawn \<times> mem) option" where
  "pop_expired p stk time L M = do {
     (retval, M) \<leftarrow> newQueue M p;
     let now = time + LAWN_LATANCY_PADDING_MS;
     (if now < l_next_expiration L then Some (retval, L, M)
      else do {
        (L, M, next) \<leftarrow> pop_buckets stk now retval [0..<hm_cap (l_timeout_queues L)] L M 0;
        Some (retval, L\<lparr>l_next_expiration := next\<rparr>, M)
      })
   }"

text \<open>The loops are evaluated by their equations.\<close>

declare free_nodes.simps [code] pop_queue.simps [code] pop_chain.simps [code]

end
