(* ===== verification/Hashmap_Correct.thy ===== *)
theory Hashmap_Correct
  imports Hashmap "HOL-Library.Multiset"
begin

text \<open>
  Correctness of the hash map. The locale \<open>hashmap_keys\<close> is what the map relies on from the callbacks
  its client passes: equal_fn is an equivalence and equal keys have equal hashes. Under that contract
  every operation refines an operation on the abstract map \<open>hm_map m\<close>, for a well-formed map (\<open>hm_ok\<close>)
  without duplicate keys.
\<close>

definition chain_list :: "('k, 'v) hashmap \<Rightarrow> ('k \<times> 'v) list list" where
  "chain_list m = (case buckets m of Array bs \<Rightarrow> bs | _ \<Rightarrow> [])"

definition entries_of :: "('k, 'v) hashmap \<Rightarrow> ('k \<times> 'v) multiset" where
  "entries_of m = mset (concat (chain_list m))"

definition hm_map :: "('k, 'v) hashmap \<Rightarrow> 'k \<Rightarrow> 'v option" where
  "hm_map m key = map_option snd (List.find (\<lambda>e. equal_fn m (fst e) key) (concat (chain_list m)))"

definition slot :: "('k, 'v) hashmap \<Rightarrow> 'k \<Rightarrow> nat" where
  "slot m key = unat (hash_bits (hash_fn m key) (hm_cap_bits m))"

definition placed :: "('k \<Rightarrow> u64) \<Rightarrow> nat \<Rightarrow> ('k \<times> 'v) list list \<Rightarrow> bool" where
  "placed hash bits bs \<longleftrightarrow> length bs = 2 ^ bits \<and>
     (\<forall>j < length bs. \<forall>e \<in> set (bs ! j). unat (hash_bits (hash (fst e)) bits) = j)"

definition uniq :: "('k \<Rightarrow> 'k \<Rightarrow> bool) \<Rightarrow> ('k \<times> 'v) multiset \<Rightarrow> bool" where
  "uniq equal M \<longleftrightarrow> (\<forall>k. size {#e \<in># M. equal (fst e) k#} \<le> 1)"

text \<open>Well-formed, duplicates allowed (HASHMAP_APPEND makes a multimap).\<close>

definition hm_wf :: "('k, 'v) hashmap \<Rightarrow> bool" where
  "hm_wf m \<longleftrightarrow> (case buckets m of
       NULL \<Rightarrow> hm_cap m = 0 \<and> hm_cap_bits m = 0
     | Freed \<Rightarrow> False
     | Array bs \<Rightarrow> hm_cap m = 2 ^ hm_cap_bits m \<and> placed (hash_fn m) (hm_cap_bits m) bs) \<and>
     hm_sz m = size (entries_of m)"

definition hm_ok :: "('k, 'v) hashmap \<Rightarrow> bool" where
  "hm_ok m \<longleftrightarrow> hm_wf m \<and> uniq (equal_fn m) (entries_of m)"

section \<open>Chains\<close>

lemma hash_bits_less: "unat (hash_bits h bits) < 2 ^ bits"
proof (cases "bits \<le> 64")
  case True
  have "unat (hash_bits h bits) = unat (h * 11400714819323198485) div 2 ^ (64 - bits)"
    by (simp add: hash_bits_def unat_drop_bit)
  moreover have "unat (h * 11400714819323198485) < 2 ^ bits * 2 ^ (64 - bits)"
    using True by (simp flip: power_add)
  ultimately show ?thesis by (simp add: less_mult_imp_div_less)
next
  case False
  then have "(2 :: nat) ^ 64 \<le> 2 ^ bits" by (intro power_increasing) simp_all
  moreover have "unat (hash_bits h bits) < 2 ^ 64" by simp
  ultimately show ?thesis by (rule less_le_trans [rotated])
qed

lemma concat_update:
  "j < length bs \<Longrightarrow> mset (concat (bs[j := c])) + mset (bs ! j) = mset (concat bs) + mset c"
proof -
  assume j: "j < length bs"
  have "bs = take j bs @ bs ! j # drop (Suc j) bs" using j by (rule id_take_nth_drop)
  then have "mset (concat bs) = mset (concat (take j bs)) + mset (bs ! j) + mset (concat (drop (Suc j) bs))"
    by (metis concat.simps(2) concat_append mset_append add.assoc)
  moreover have "bs[j := c] = take j bs @ c # drop (Suc j) bs" using j by (rule upd_conv_take_nth_drop)
  ultimately show ?thesis by simp
qed

lemma concat_push: "j < length bs \<Longrightarrow> mset (concat (bs[j := e # bs ! j])) = add_mset e (mset (concat bs))"
  using concat_update [of j bs "e # bs ! j"] by simp

lemma mset_remove_nth: "pos < length c \<Longrightarrow> mset c = add_mset (c ! pos) (mset (take pos c @ drop (Suc pos) c))"
  by (metis id_take_nth_drop mset_append mset.simps(2) union_mset_add_mset_right)

lemma find_chain_SomeD: "find_chain equal c key = Some pos \<Longrightarrow> pos < length c \<and> equal (fst (c ! pos)) key"
  by (induction c arbitrary: pos) (auto split: if_splits)

lemma find_chain_NoneD: "find_chain equal c key = None \<Longrightarrow> e \<in> set c \<Longrightarrow> \<not> equal (fst e) key"
  by (induction c) (auto split: if_splits)

lemma entries_mem: "j < length (chain_list m) \<Longrightarrow> e \<in> set (chain_list m ! j) \<Longrightarrow> e \<in># entries_of m"
  by (auto simp: entries_of_def)

lemma uniq_unique:
  assumes "uniq equal M" "e \<in># M" "e' \<in># M" "equal (fst e) k" "equal (fst e') k"
  shows "e = e'"
proof (rule ccontr)
  assume "e \<noteq> e'"
  then have "{#e, e'#} \<subseteq># M" using assms(2,3) by (auto simp: insert_subset_eq_iff in_diff_count count_greater_zero_iff)
  then have "size (filter_mset (\<lambda>e. equal (fst e) k) {#e, e'#}) \<le> size {#e \<in># M. equal (fst e) k#}"
    by (intro size_mset_mono multiset_filter_mono)
  then show False using assms by (auto simp: uniq_def dest: spec [of _ k])
qed

lemma uniq_subset: "uniq equal M \<Longrightarrow> N \<subseteq># M \<Longrightarrow> uniq equal N"
  unfolding uniq_def by (meson le_trans multiset_filter_mono size_mset_mono)

lemma chains_cases:
  assumes "hm_wf m"
  obtains "buckets m = NULL" "chain_list m = []" "entries_of m = {#}" "hm_cap m = 0" "hm_cap_bits m = 0"
    | bs where "buckets m = Array bs" "chain_list m = bs" "bs \<noteq> []" "placed (hash_fn m) (hm_cap_bits m) bs"
        "hm_cap m = 2 ^ hm_cap_bits m" "length bs = 2 ^ hm_cap_bits m" "\<And>key. slot m key < length bs"
proof (cases "buckets m")
  case NULL
  then show thesis using assms that(1) by (simp add: hm_wf_def chain_list_def entries_of_def)
next
  case Freed
  then show thesis using assms by (simp add: hm_wf_def)
next
  case (Array bs)
  then have w: "hm_cap m = 2 ^ hm_cap_bits m" "placed (hash_fn m) (hm_cap_bits m) bs"
    using assms by (simp_all add: hm_wf_def)
  then have l: "length bs = 2 ^ hm_cap_bits m" by (simp add: placed_def)
  then have "bs \<noteq> []" by auto
  moreover have "slot m key < length bs" for key using l hash_bits_less by (simp add: slot_def)
  ultimately show thesis using Array w l that(2) [of bs] by (simp add: chain_list_def)
qed

section \<open>The contract of the callbacks\<close>

locale hashmap_keys =
  fixes hash :: "'k \<Rightarrow> u64" and equal :: "'k \<Rightarrow> 'k \<Rightarrow> bool"
  assumes equal_refl: "equal k k"
    and equal_sym: "equal k k' \<Longrightarrow> equal k' k"
    and equal_trans: "equal k k' \<Longrightarrow> equal k' k'' \<Longrightarrow> equal k k''"
    and equal_hash: "equal k k' \<Longrightarrow> hash k = hash k'"
begin

text \<open>A map that uses these callbacks.\<close>

definition uses :: "('k, 'v) hashmap \<Rightarrow> bool" where
  "uses m \<longleftrightarrow> hash_fn m = hash \<and> equal_fn m = equal"

lemma usesD: "uses m \<Longrightarrow> hash_fn m = hash" "uses m \<Longrightarrow> equal_fn m = equal"
  by (simp_all add: uses_def)

lemma hm_map_iff:
  assumes "hm_ok m" "uses m"
  shows "hm_map m key = Some v \<longleftrightarrow> (\<exists>k. (k, v) \<in># entries_of m \<and> equal k key)"
proof
  assume "hm_map m key = Some v"
  then obtain e where e: "List.find (\<lambda>e. equal (fst e) key) (concat (chain_list m)) = Some e" "v = snd e"
    using assms(2) by (auto simp: hm_map_def uses_def)
  then have "equal (fst e) key" "e \<in> set (concat (chain_list m))"
    unfolding find_Some_iff by (metis, metis nth_mem)
  then show "\<exists>k. (k, v) \<in># entries_of m \<and> equal k key"
    using e(2) unfolding entries_of_def by (metis prod.collapse set_mset_mset)
next
  assume "\<exists>k. (k, v) \<in># entries_of m \<and> equal k key"
  then obtain k where k: "(k, v) \<in># entries_of m" "equal k key" by blast
  then have "List.find (\<lambda>e. equal (fst e) key) (concat (chain_list m)) \<noteq> None"
    unfolding find_None_iff entries_of_def by (metis fst_conv set_mset_mset)
  then obtain e where e: "List.find (\<lambda>e. equal (fst e) key) (concat (chain_list m)) = Some e" by blast
  then have "equal (fst e) key" "e \<in> set (concat (chain_list m))"
    unfolding find_Some_iff by (metis, metis nth_mem)
  then have "e \<in># entries_of m" "equal (fst e) key" by (simp_all add: entries_of_def)
  then have "e = (k, v)"
    using uniq_unique [of equal "entries_of m" e "(k, v)" key] assms k by (auto simp: hm_ok_def uses_def)
  then show "hm_map m key = Some v" using e assms(2) by (simp add: hm_map_def uses_def)
qed

lemma hm_map_None: "uses m \<Longrightarrow> hm_map m key = None \<longleftrightarrow> (\<forall>e. e \<in># entries_of m \<longrightarrow> \<not> equal (fst e) key)"
  by (force simp: hm_map_def entries_of_def find_None_iff uses_def)

lemma hm_map_equal: "hm_ok m \<Longrightarrow> uses m \<Longrightarrow> equal k k' \<Longrightarrow> hm_map m k = hm_map m k'"
proof -
  assume a: "hm_ok m" "uses m" "equal k k'"
  have "hm_map m k = Some v \<longleftrightarrow> hm_map m k' = Some v" for v
    unfolding hm_map_iff [OF a(1,2)] using a(3) equal_sym equal_trans by blast
  then show ?thesis by (metis option.exhaust)
qed

text \<open>An entry with an equal key is in the chain that the lookup searches.\<close>

lemma entry_in_slot:
  assumes "hm_wf m" "uses m" "e \<in># entries_of m" "equal (fst e) key"
  shows "\<exists>bs. buckets m = Array bs \<and> slot m key < length bs \<and> e \<in> set (bs ! slot m key)"
  using assms(1)
proof (cases rule: chains_cases)
  case 1
  then show ?thesis using assms(3) by simp
next
  case (2 bs)
  obtain j where j: "j < length bs" "e \<in> set (bs ! j)" 
    using assms(3) 2(2) by (metis entries_of_def in_set_conv_nth set_mset_mset UN_E set_concat)
  then have "unat (hash_bits (hash (fst e)) (hm_cap_bits m)) = j" using 2(4) usesD [OF assms(2)] by (simp add: placed_def)
  then have "slot m key = j" using equal_hash [OF assms(4)] usesD [OF assms(2)] by (simp add: slot_def)
  then show ?thesis using j 2(1) by auto
qed

lemma find_entry_spec:
  assumes "hm_wf m" "uses m"
  shows "(\<exists>bs pos k v. hashmap_find_entry m key (hash_bits (hash_fn m key) (hm_cap_bits m)) = Some (Some (pos, k, v)) \<and>
       buckets m = Array bs \<and> slot m key < length bs \<and> pos < length (bs ! slot m key) \<and>
       bs ! slot m key ! pos = (k, v) \<and> equal k key \<and> (k, v) \<in># entries_of m) \<or>
     hashmap_find_entry m key (hash_bits (hash_fn m key) (hm_cap_bits m)) = Some None \<and>
       (\<forall>e. e \<in># entries_of m \<longrightarrow> \<not> equal (fst e) key)"
  using assms(1)
proof (cases rule: chains_cases)
  case 1
  then show ?thesis by (simp add: hashmap_find_entry_def)
next
  case (2 bs)
  note s = 2(7) [of key]
  show ?thesis
  proof (cases "find_chain equal (bs ! slot m key) key")
    case None
    have "\<not> equal (fst e) key" if e: "e \<in># entries_of m" for e
    proof
      assume "equal (fst e) key"
      then have "e \<in> set (bs ! slot m key)" using entry_in_slot [OF assms e] 2(1) by auto
      then show False using find_chain_NoneD [OF None] \<open>equal (fst e) key\<close> by blast
    qed
    then show ?thesis using None 2(1) s usesD [OF assms(2)] by (auto simp: hashmap_find_entry_def slot_def)
  next
    case (Some pos)
    obtain k v where kv: "bs ! slot m key ! pos = (k, v)" by fastforce
    have p: "pos < length (bs ! slot m key)" "equal k key" using find_chain_SomeD [OF Some] kv by auto
    then have "(k, v) \<in># entries_of m" using kv s 2(2) entries_mem [of "slot m key" m "(k, v)"] by (metis nth_mem)
    then show ?thesis using Some 2(1) s usesD [OF assms(2)] kv p by (auto simp: hashmap_find_entry_def slot_def)
  qed
qed

lemma find_law:
  assumes "hm_ok m" "uses m"
  shows "hashmap_find m key = Some (hm_map m key)"
proof -
  have "hm_wf m" using assms by (simp add: hm_ok_def)
  from find_entry_spec [OF this assms(2), of key] show ?thesis
  proof (elim disjE exE conjE)
    fix pos k v assume "hashmap_find_entry m key (hash_bits (hash_fn m key) (hm_cap_bits m)) = Some (Some (pos, k, v))"
      and "equal k key" "(k, v) \<in># entries_of m"
    moreover from this have "hm_map m key = Some v" using hm_map_iff [OF assms] by blast
    ultimately show ?thesis by (simp add: hashmap_find_def)
  next
    assume "hashmap_find_entry m key (hash_bits (hash_fn m key) (hm_cap_bits m)) = Some None"
      and "\<forall>e. e \<in># entries_of m \<longrightarrow> \<not> equal (fst e) key"
    moreover from this have "hm_map m key = None" using hm_map_None [OF assms(2)] by blast
    ultimately show ?thesis by (simp add: hashmap_find_def)
  qed
qed

text \<open>Replacing one chain of a map.\<close>

lemma set_chain:
  assumes "hm_wf m" "uses m" "buckets m = Array bs" "j < length bs"
    and "mset c + N = mset (bs ! j) + M" "\<And>e. e \<in> set c \<Longrightarrow> e \<in> set (bs ! j) \<or> slot m (fst e) = j"
    and m': "buckets m' = Array (bs[j := c])" "hash_fn m' = hash_fn m" "equal_fn m' = equal_fn m"
      "hm_cap m' = hm_cap m" "hm_cap_bits m' = hm_cap_bits m" "hm_sz m' = size (entries_of m')"
  shows "hm_wf m'" "uses m'" "entries_of m' + N = entries_of m + M"
proof -
  have w: "hm_cap m = 2 ^ hm_cap_bits m" "placed (hash_fn m) (hm_cap_bits m) bs"
    using assms(1,3) by (simp_all add: hm_wf_def)
  have "placed (hash_fn m) (hm_cap_bits m) (bs[j := c])"
    unfolding placed_def
  proof (intro conjI allI impI ballI)
    fix i e assume i: "i < length (bs[j := c])" and e: "e \<in> set (bs[j := c] ! i)"
    show "unat (hash_bits (hash_fn m (fst e)) (hm_cap_bits m)) = i"
    proof (cases "i = j")
      case True
      then have "e \<in> set c" using e assms(4) by simp
      then show ?thesis using assms(6) [of e] w(2) assms(4) True by (auto simp: placed_def slot_def)
    next
      case False
      then show ?thesis using i e w(2) by (simp add: placed_def)
    qed
  qed (use w(2) in \<open>simp add: placed_def\<close>)
  then show "hm_wf m'" using w(1) m' by (simp add: hm_wf_def)
  show "uses m'" using assms(2) m' by (simp add: uses_def)
  have "entries_of m' + mset (bs ! j) = entries_of m + mset c"
    using concat_update [OF assms(4), of c] assms(3) m'(1) by (simp add: entries_of_def chain_list_def)
  then have "entries_of m' + N + mset (bs ! j) = entries_of m + M + mset (bs ! j)"
    using assms(5) by (metis union_assoc union_commute)
  then show "entries_of m' + N = entries_of m + M" by simp
qed

lemma uniq_add:
  "uniq equal M \<Longrightarrow> (\<forall>e. e \<in># M \<longrightarrow> \<not> equal (fst e) k) \<Longrightarrow> uniq equal (add_mset (k, v) M)"
proof -
  assume u: "uniq equal M" and f: "\<forall>e. e \<in># M \<longrightarrow> \<not> equal (fst e) k"
  have "size {#e \<in># add_mset (k, v) M. equal (fst e) k'#} \<le> 1" for k'
  proof (cases "equal k k'")
    case True
    have "\<not> equal (fst e) k'" if "e \<in># M" for e using f that equal_trans [OF _ equal_sym [OF True]] by blast
    then have "{#e \<in># M. equal (fst e) k'#} = {#}" unfolding filter_mset_eq_mempty_iff by blast
    then show ?thesis by (simp add: True del: filter_mset_eq_mempty_iff)
  next
    case False
    then show ?thesis using u by (simp add: uniq_def)
  qed
  then show ?thesis by (simp add: uniq_def)
qed

lemma hm_map_add:
  assumes "hm_ok m" "uses m" "hm_ok m'" "uses m'" "entries_of m' = add_mset (key, v) M" "M \<subseteq># entries_of m"
    and "\<And>e. e \<in># entries_of m \<Longrightarrow> equal (fst e) key \<or> e \<in># M"
  shows "hm_map m' k = (if equal key k then Some v else hm_map m k)"
proof (cases "equal key k")
  case True
  then show ?thesis using hm_map_iff [OF assms(3,4), of k v] assms(5) by auto
next
  case False
  have "hm_map m' k = Some u \<longleftrightarrow> hm_map m k = Some u" for u
  proof -
    have "(\<exists>k'. (k', u) \<in># entries_of m' \<and> equal k' k) \<longleftrightarrow> (\<exists>k'. (k', u) \<in># M \<and> equal k' k)"
      using assms(5) False by auto
    also have "\<dots> \<longleftrightarrow> (\<exists>k'. (k', u) \<in># entries_of m \<and> equal k' k)"
      using assms(6,7) False equal_sym equal_trans by (metis fst_conv mset_subset_eqD)
    finally show ?thesis unfolding hm_map_iff [OF assms(1,2)] hm_map_iff [OF assms(3,4)] .
  qed
  then show ?thesis using False by (metis option.exhaust)
qed

lemma no_second:
  assumes "uniq equal (add_mset (k0, v) N)" "equal k0 key" "e \<in># N"
  shows "\<not> equal (fst e) key"
proof
  assume "equal (fst e) key"
  then have "{#(k0, v), e#} \<subseteq># {#e \<in># add_mset (k0, v) N. equal (fst e) key#}"
    using assms(2,3) by (simp add: insert_subset_eq_iff)
  then have "size {#(k0, v), e#} \<le> size {#e \<in># add_mset (k0, v) N. equal (fst e) key#}" by (rule size_mset_mono)
  moreover have "size {#e \<in># add_mset (k0, v) N. equal (fst e) key#} \<le> 1"
    using assms(1) unfolding uniq_def by blast
  ultimately show False by simp
qed

lemma hm_map_remove:
  assumes "hm_ok m" "uses m" "hm_ok m'" "uses m'" "entries_of m = add_mset (k0, v) (entries_of m')" "equal k0 key"
  shows "hm_map m' k = (if equal key k then None else hm_map m k)"
proof (cases "equal key k")
  case True
  have u: "uniq equal (add_mset (k0, v) (entries_of m'))" using assms(1,2,5) by (simp add: hm_ok_def uses_def)
  have "hm_map m' k = None"
    unfolding hm_map_None [OF assms(4)] using no_second [OF u equal_trans [OF assms(6) True]] by blast
  then show ?thesis using True by simp
next
  case False
  have nk: "\<not> equal k0 k" using equal_trans [OF equal_sym [OF assms(6)]] False by blast
  have "hm_map m' k = Some u \<longleftrightarrow> hm_map m k = Some u" for u
    unfolding hm_map_iff [OF assms(1,2)] hm_map_iff [OF assms(3,4)] assms(5) using nk by auto
  then show ?thesis using False by (metis option.exhaust)
qed

lemma delete_law:
  assumes "hm_ok m" "uses m"
  shows "\<exists>r m'. hashmap_delete m key = Some (r, m') \<and> hm_ok m' \<and> uses m' \<and> map_option snd r = hm_map m key \<and>
     (\<forall>k. hm_map m' k = (if equal key k then None else hm_map m k)) \<and>
     hm_sz m' = (if hm_map m key = None then hm_sz m else hm_sz m - 1) \<and>
     (case r of None \<Rightarrow> m' = m | Some e \<Rightarrow> entries_of m = add_mset e (entries_of m'))"
proof -
  have wf: "hm_wf m" using assms by (simp add: hm_ok_def)
  from find_entry_spec [OF wf assms(2), of key] show ?thesis
  proof (elim disjE exE conjE)
    assume f: "hashmap_find_entry m key (hash_bits (hash_fn m key) (hm_cap_bits m)) = Some None"
      and n: "\<forall>e. e \<in># entries_of m \<longrightarrow> \<not> equal (fst e) key"
    have "hm_map m key = None" using n hm_map_None [OF assms(2)] by blast
    moreover have "hm_map m k = None" if "equal key k" for k
      using calculation hm_map_equal [OF assms that] by simp
    ultimately show ?thesis using f assms by (auto simp: hashmap_delete_def)
  next
    fix bs pos k v
    assume f: "hashmap_find_entry m key (hash_bits (hash_fn m key) (hm_cap_bits m)) = Some (Some (pos, k, v))"
      and b: "buckets m = Array bs" "slot m key < length bs" "pos < length (bs ! slot m key)" "bs ! slot m key ! pos = (k, v)"
      and e: "equal k key" "(k, v) \<in># entries_of m"
    let ?c = "take pos (bs ! slot m key) @ drop (Suc pos) (bs ! slot m key)"
    let ?m = "m\<lparr>buckets := Array (bs[slot m key := ?c]), hm_sz := hm_sz m - 1\<rparr>"
    have run: "hashmap_delete m key = Some (Some (k, v), ?m)"
      using f b(1,2) by (simp add: hashmap_delete_def hashmap_del_entry_def slot_def Let_def)
    have M: "mset ?c + {#(k, v)#} = mset (bs ! slot m key) + {#}"
      using mset_remove_nth [OF b(3)] b(4) by simp
    have sub: "e \<in> set (bs ! slot m key) \<or> slot m (fst e) = slot m key" if "e \<in> set ?c" for e
      using that in_set_takeD in_set_dropD by fastforce
    have sz: "hm_sz m = size (entries_of m)" using wf by (simp add: hm_wf_def)
    have ent: "entries_of m = add_mset (k, v) (entries_of ?m)"
    proof -
      have eq: "entries_of ?m + mset (bs ! slot m key) = entries_of m + mset ?c"
        using concat_update [OF b(2), of ?c] b(1) by (simp add: entries_of_def chain_list_def)
      have "mset (bs ! slot m key) = add_mset (k, v) (mset ?c)" using M by simp
      then have "entries_of ?m + add_mset (k, v) (mset ?c) = entries_of m + mset ?c" using eq by (simp only:)
      then have "add_mset (k, v) (entries_of ?m) + mset ?c = entries_of m + mset ?c" by (simp only: union_mset_add_mset_left union_mset_add_mset_right)
      then show ?thesis by (simp only: add_right_cancel)
    qed
    have hsz: "hm_sz ?m = size (entries_of ?m)" using sz arg_cong [OF ent, of size] by simp
    have s: "hm_wf ?m" "uses ?m"
      by (rule set_chain [OF wf assms(2) b(1,2) M sub]; use hsz in simp)+
    have uq: "uniq equal (entries_of m)" using assms by (simp add: hm_ok_def uses_def)
    moreover have "entries_of ?m \<subseteq># entries_of m" by (subst ent) simp
    ultimately have "uniq equal (entries_of ?m)" by (rule uniq_subset)
    then have ok: "hm_ok ?m" using s(1) usesD(2) [OF assms(2)] by (simp add: hm_ok_def)
    have hv: "hm_map m key = Some v" using hm_map_iff [OF assms] e by blast
    have "hm_map ?m k' = (if equal key k' then None else hm_map m k')" for k'
      using hm_map_remove [OF assms ok s(2) ent e(1)] by simp
    then show ?thesis using run ok s(2) hv ent by (intro exI [of _ "Some (k, v)"] exI [of _ ?m]) simp
  qed
qed

text \<open>Overwriting the entry that the lookup found.\<close>

lemma overwrite_law:
  assumes ok: "hm_ok m" and us: "uses m" and b: "buckets m = Array bs" "slot m key < length bs"
    and pos: "pos < length (bs ! slot m key)" "bs ! slot m key ! pos = (k, v)" "equal k key"
    and m'_def: "m' = m\<lparr>buckets := Array (bs[slot m key := (bs ! slot m key)[pos := (key, val)]])\<rparr>"
  shows "hm_ok m'" "uses m'" "hm_map m' k' = (if equal key k' then Some val else hm_map m k')" "hm_sz m' = hm_sz m"
    and "\<exists>E. entries_of m = add_mset (k, v) E \<and> entries_of m' = add_mset (key, val) E"
proof -
  have wf: "hm_wf m" using ok by (simp add: hm_ok_def)
  let ?c = "(bs ! slot m key)[pos := (key, val)]"
  have M: "mset ?c + {#(k, v)#} = mset (bs ! slot m key) + {#(key, val)#}"
    using pos nth_mem [OF pos(1)] by (simp add: mset_update insert_DiffM)
  have sub: "e \<in> set (bs ! slot m key) \<or> slot m (fst e) = slot m key" if "e \<in> set ?c" for e
    using that set_update_subset_insert [of "bs ! slot m key" pos "(key, val)"] by auto
  have eq: "entries_of m' + mset (bs ! slot m key) = entries_of m + mset ?c"
    using concat_update [OF b(2), of ?c] b(1) by (simp add: m'_def entries_of_def chain_list_def)
  have len: "length ?c = length (bs ! slot m key)" by simp
  have "hm_sz m = size (entries_of m)" using wf by (simp add: hm_wf_def)
  moreover have "size (entries_of m') = size (entries_of m)" using arg_cong [OF eq, of size] len by simp
  ultimately have sz: "hm_sz m' = size (entries_of m')" by (simp add: m'_def)
  show us': "uses m'" and "hm_sz m' = hm_sz m" using us by (simp_all add: m'_def uses_def)
  have mf: "buckets m' = Array (bs[slot m key := ?c])" "hash_fn m' = hash_fn m" "equal_fn m' = equal_fn m"
      "hm_cap m' = hm_cap m" "hm_cap_bits m' = hm_cap_bits m"
    by (simp_all add: m'_def)
  have wf': "hm_wf m'" by (rule set_chain [OF wf us b M sub mf sz])
  have ent: "entries_of m' + {#(k, v)#} = entries_of m + {#(key, val)#}" by (rule set_chain(3) [OF wf us b M sub mf sz])
  have "chain_list m = bs" using b(1) by (simp add: chain_list_def)
  then have kin: "(k, v) \<in># entries_of m"
    using entries_mem [of "slot m key" m "(k, v)"] b(2) nth_mem [OF pos(1)] pos(2) by simp
  define N where "N = entries_of m - {#(k, v)#}"
  have N: "entries_of m = add_mset (k, v) N" using kin by (simp add: N_def)
  then have N': "entries_of m' = add_mset (key, val) N" using ent by simp
  show "\<exists>E. entries_of m = add_mset (k, v) E \<and> entries_of m' = add_mset (key, val) E" using N N' by blast
  have u: "uniq equal (add_mset (k, v) N)" using ok us N by (simp add: hm_ok_def uses_def)
  have none: "\<forall>e. e \<in># N \<longrightarrow> \<not> equal (fst e) key" using no_second [OF u pos(3)] by blast
  have "uniq equal N" using u by (rule uniq_subset) simp
  then have "uniq equal (entries_of m')" unfolding N' using none by (rule uniq_add)
  then show ok': "hm_ok m'" using wf' usesD(2) [OF us'] by (simp add: hm_ok_def)
  show "hm_map m' k' = (if equal key k' then Some val else hm_map m k')"
    by (rule hm_map_add [OF ok us ok' us' N']) (use N pos(3) in auto)
qed

text \<open>Growing.\<close>

lemma rehash_chain_spec:
  "placed h bits nb \<Longrightarrow> \<exists>nb'. rehash_chain h bits c nb = Some nb' \<and> placed h bits nb' \<and>
     mset (concat nb') = mset c + mset (concat nb)"
proof (induction c arbitrary: nb)
  case (Cons e c)
  let ?j = "unat (hash_bits (h (fst e)) bits)"
  have j: "?j < length nb" using Cons.prems hash_bits_less by (simp add: placed_def)
  let ?nb = "nb[?j := e # nb ! ?j]"
  have "placed h bits ?nb" using Cons.prems j by (auto simp: placed_def nth_list_update)
  moreover have "mset (concat ?nb) = add_mset e (mset (concat nb))" using concat_push [OF j] .
  ultimately show ?case using Cons.IH [of ?nb] j by (auto simp: hashmap_add_entry_def Let_def)
qed simp

lemma rehash_spec:
  "buckets m = Array bs \<Longrightarrow> set bkts \<subseteq> {..<length bs} \<Longrightarrow> placed (hash_fn m) bits nb \<Longrightarrow>
     \<exists>nb'. rehash m bits bkts nb = Some nb' \<and> placed (hash_fn m) bits nb' \<and>
       mset (concat nb') = mset (concat (map ((!) bs) bkts)) + mset (concat nb)"
proof (induction bkts arbitrary: nb)
  case (Cons b bkts)
  obtain nb1 where "rehash_chain (hash_fn m) bits (bs ! b) nb = Some nb1" "placed (hash_fn m) bits nb1"
      "mset (concat nb1) = mset (bs ! b) + mset (concat nb)"
    using rehash_chain_spec [OF Cons.prems(3)] by blast
  then show ?case using Cons.IH [of nb1] Cons.prems by (auto simp: bucket_def)
qed simp

lemma placed_empty: "placed h bits (replicate (2 ^ bits) [])"
  by (simp add: placed_def)

lemma grow_law:
  assumes "hm_wf m" "uses m"
  shows "\<exists>m'. hashmap_grow m True = Some (OK, m') \<and> hm_wf m' \<and> uses m' \<and> entries_of m' = entries_of m \<and>
     hm_sz m' = hm_sz m \<and> hm_cap m < hm_cap m' \<and> (\<exists>bs. buckets m' = Array bs)"
proof -
  let ?b = "if hm_cap_bits m + 1 < HASHMAP_MIN_CAP_BITS then HASHMAP_MIN_CAP_BITS else hm_cap_bits m + 1"
  have P: "\<exists>nb. rehash m ?b [0..<hm_cap m] (replicate (2 ^ ?b) []) = Some nb \<and> placed (hash_fn m) ?b nb \<and>
      mset (concat nb) = entries_of m"
    using assms(1)
  proof (cases rule: chains_cases)
    case 1
    then show ?thesis using placed_empty [of "hash_fn m" ?b] by (simp del: if_split)
  next
    case (2 bs)
    have "map ((!) bs) [0..<hm_cap m] = bs" using 2(5,6) map_nth by metis
    moreover have "set [0..<hm_cap m] \<subseteq> {..<length bs}" using 2(5,6) by auto
    ultimately show ?thesis using rehash_spec [OF 2(1) _ placed_empty, of "[0..<hm_cap m]" ?b] 2(2)
      by (simp add: entries_of_def del: if_split)
  qed
  then obtain nb where nb: "rehash m ?b [0..<hm_cap m] (replicate (2 ^ ?b) []) = Some nb" "placed (hash_fn m) ?b nb"
      "mset (concat nb) = entries_of m"
    by blast
  let ?m = "m\<lparr>hm_cap := 2 ^ ?b, hm_cap_bits := ?b, buckets := Array nb\<rparr>"
  have "hashmap_grow m True = Some (OK, ?m)" 
    using nb(1) by (cases "hm_cap_bits m + 1 < HASHMAP_MIN_CAP_BITS") (simp_all add: hashmap_grow_def Let_def)
  moreover have "entries_of ?m = entries_of m" using nb(3) by (simp add: entries_of_def chain_list_def)
  moreover have "hm_wf ?m"
    using assms(1) nb(2,3) by (simp add: hm_wf_def entries_of_def chain_list_def)
  moreover have "hm_cap m < 2 ^ ?b"
    using assms(1) by (cases rule: chains_cases) (simp_all add: HASHMAP_MIN_CAP_BITS_def)
  ultimately show ?thesis using assms(2) by (intro exI [of _ ?m]) (simp add: uses_def)
qed

text \<open>Adding an entry, after growing if needed.\<close>

lemma insert_new_law:
  assumes wf: "hm_wf m" and us: "uses m" and st: "strategy \<noteq> HASHMAP_UPDATE"
  shows "\<exists>e m'. insert_new m key val strategy calloc_ok malloc_ok (hash_bits (hash_fn m key) (hm_cap_bits m)) = Some (e, m') \<and>
     hm_wf m' \<and> uses m' \<and> (e = OK \<or> e = ENOMEM) \<and>
     (e = OK \<longleftrightarrow> malloc_ok \<and> (hashmap_needs_to_grow m \<longrightarrow> calloc_ok)) \<and>
     entries_of m' = (if e = OK then add_mset (key, val) (entries_of m) else entries_of m) \<and>
     (e = OK \<longrightarrow> (\<exists>bs c. buckets m' = Array bs \<and> slot m' key < length bs \<and> bs ! slot m' key = (key, val) # c))"
proof (cases "hashmap_needs_to_grow m \<and> \<not> calloc_ok")
  case True
  then show ?thesis using assms by (simp add: insert_new_def hashmap_grow_def Let_def)
next
  case False
  obtain m1 where m1: "(if hashmap_needs_to_grow m then do {
             (err, m) \<leftarrow> hashmap_grow m calloc_ok;
             Some (err, m, hash_bits (hash_fn m key) (hm_cap_bits m))
           } else Some (OK, m, hash_bits (hash_fn m key) (hm_cap_bits m))) =
         Some (OK, m1, hash_bits (hash_fn m1 key) (hm_cap_bits m1))"
      "hm_wf m1" "uses m1" "entries_of m1 = entries_of m" "\<exists>bs. buckets m1 = Array bs"
  proof (cases "hashmap_needs_to_grow m")
    case True
    obtain m' where "hashmap_grow m True = Some (OK, m')" "hm_wf m'" "uses m'" "entries_of m' = entries_of m"
        "\<exists>bs. buckets m' = Array bs"
      using grow_law [OF wf us] by blast
    then show thesis using True False that by simp
  next
    case ng: False
    have "\<exists>bs. buckets m = Array bs"
      using wf by (cases rule: chains_cases) (use ng in \<open>auto simp: hashmap_needs_to_grow_def\<close>)
    then show thesis using ng wf us that by simp
  qed
  then obtain bs where bs: "buckets m1 = Array bs" by blast
  have slt: "slot m1 key < length bs"
    using m1(2) by (cases rule: chains_cases) (use bs in auto)
  let ?m = "m1\<lparr>buckets := Array (bs[slot m1 key := (key, val) # bs ! slot m1 key]), hm_sz := hm_sz m1 + 1\<rparr>"
  have run: "insert_new m key val strategy calloc_ok malloc_ok (hash_bits (hash_fn m key) (hm_cap_bits m)) =
      Some (if malloc_ok then (OK, ?m) else (ENOMEM, m1))"
    using m1(1) st bs slt by (simp add: insert_new_def hashmap_add_entry_def slot_def)
  have mf: "buckets ?m = Array (bs[slot m1 key := (key, val) # bs ! slot m1 key])" "hash_fn ?m = hash_fn m1" "equal_fn ?m = equal_fn m1"
      "hm_cap ?m = hm_cap m1" "hm_cap_bits ?m = hm_cap_bits m1"
    by simp_all
  have ent: "entries_of ?m = add_mset (key, val) (entries_of m1)"
    using concat_push [OF slt, of "(key, val)"] bs by (simp add: entries_of_def chain_list_def)
  have sz: "hm_sz ?m = size (entries_of ?m)" using m1(2) unfolding ent by (simp add: hm_wf_def)
  have M: "mset ((key, val) # bs ! slot m1 key) + {#} = mset (bs ! slot m1 key) + {#(key, val)#}" by simp
  have sub: "e \<in> set (bs ! slot m1 key) \<or> slot m1 (fst e) = slot m1 key" if "e \<in> set ((key, val) # bs ! slot m1 key)" for e
    using that by auto
  have "hm_wf ?m" "uses ?m" by (rule set_chain [OF m1(2,3) bs slt M sub mf sz]; assumption)+
  moreover have "slot ?m key = slot m1 key" by (simp add: slot_def)
  ultimately show ?thesis using run m1(2-4) ent False slt
    by (cases malloc_ok) (auto intro!: exI [of _ m1] exI [of _ ?m])
qed

text \<open>The laws of insertion with the strategies for a map without duplicates.\<close>

lemma insert_law:
  assumes ok: "hm_ok m" and us: "uses m" and st: "strategy \<noteq> HASHMAP_APPEND"
  shows "\<exists>e ok' ov m'. hashmap_insert m key val strategy calloc_ok malloc_ok = Some (e, ok', ov, m') \<and>
     hm_ok m' \<and> uses m' \<and> ov = hm_map m key \<and>
     e = (if hm_map m key \<noteq> None then (if strategy = HASHMAP_ADD then EEXIST else OK)
          else if strategy = HASHMAP_UPDATE then ENOENT
          else if malloc_ok \<and> (hashmap_needs_to_grow m \<longrightarrow> calloc_ok) then OK else ENOMEM) \<and>
     (\<forall>k. hm_map m' k = (if e = OK \<and> equal key k then Some val else hm_map m k)) \<and>
     hm_sz m' = (if e = OK \<and> hm_map m key = None then hm_sz m + 1 else hm_sz m)"
proof -
  have wf: "hm_wf m" using ok by (simp add: hm_ok_def)
  from find_entry_spec [OF wf us, of key] show ?thesis
  proof (elim disjE exE conjE)
    fix bs pos k v
    assume f: "hashmap_find_entry m key (hash_bits (hash_fn m key) (hm_cap_bits m)) = Some (Some (pos, k, v))"
      and b: "buckets m = Array bs" "slot m key < length bs" "pos < length (bs ! slot m key)" "bs ! slot m key ! pos = (k, v)"
      and e: "equal k key" "(k, v) \<in># entries_of m"
    have hv: "hm_map m key = Some v" using hm_map_iff [OF ok us] e by blast
    show ?thesis
    proof (cases "strategy = HASHMAP_ADD")
      case True
      then have "hashmap_insert m key val strategy calloc_ok malloc_ok = Some (EEXIST, Some k, Some v, m)"
        using f by (simp add: hashmap_insert_def Let_def)
      then show ?thesis using True ok us hv by simp
    next
      case False
      let ?m = "m\<lparr>buckets := Array (bs[slot m key := (bs ! slot m key)[pos := (key, val)]])\<rparr>"
      note o = overwrite_law [OF ok us b e(1), of ?m val]
      have "strategy = HASHMAP_SET \<or> strategy = HASHMAP_UPDATE" using False st by (cases strategy) auto
      then have "hashmap_insert m key val strategy calloc_ok malloc_ok = Some (OK, Some k, Some v, ?m)"
        using f b st by (auto simp: hashmap_insert_def Let_def slot_def)
      then show ?thesis using False o [OF refl] hv by simp
    qed
  next
    assume f: "hashmap_find_entry m key (hash_bits (hash_fn m key) (hm_cap_bits m)) = Some None"
      and n: "\<forall>e. e \<in># entries_of m \<longrightarrow> \<not> equal (fst e) key"
    have hv: "hm_map m key = None" using n hm_map_None [OF us] by blast
    show ?thesis
    proof (cases "strategy = HASHMAP_UPDATE")
      case True
      then have "hashmap_insert m key val strategy calloc_ok malloc_ok = Some (ENOENT, None, None, m)"
        using f by (simp add: hashmap_insert_def insert_new_def Let_def)
      then show ?thesis using True ok us hv by simp
    next
      case False
      obtain e m' where I: "insert_new m key val strategy calloc_ok malloc_ok (hash_bits (hash_fn m key) (hm_cap_bits m)) = Some (e, m')"
          "hm_wf m'" "uses m'" "e = OK \<or> e = ENOMEM" "e = OK \<longleftrightarrow> malloc_ok \<and> (hashmap_needs_to_grow m \<longrightarrow> calloc_ok)"
          "entries_of m' = (if e = OK then add_mset (key, val) (entries_of m) else entries_of m)"
        using insert_new_law [OF wf us False] by blast
      have run: "hashmap_insert m key val strategy calloc_ok malloc_ok = Some (e, None, None, m')"
        using f I(1) st by (simp add: hashmap_insert_def Let_def)
      have u: "uniq equal (entries_of m)" using ok us by (simp add: hm_ok_def uses_def)
      have "uniq equal (entries_of m')" using u uniq_add [OF u n] I(6) by simp
      then have ok': "hm_ok m'" using I(2) usesD(2) [OF I(3)] by (simp add: hm_ok_def)
      have mp: "hm_map m' k = (if e = OK \<and> equal key k then Some val else hm_map m k)" for k
      proof (cases "e = OK")
        case True
        then have "entries_of m' = add_mset (key, val) (entries_of m)" using I(6) by simp
        then show ?thesis using hm_map_add [OF ok us ok' I(3), of key val "entries_of m" k] True by simp
      next
        case False
        then have "entries_of m' = entries_of m" using I(6) by simp
        then have "hm_map m' k = Some w \<longleftrightarrow> hm_map m k = Some w" for w
          using hm_map_iff [OF ok us] hm_map_iff [OF ok' I(3)] by simp
        then show ?thesis using False by (metis option.exhaust)
      qed
      have "hm_sz m' = (if e = OK then hm_sz m + 1 else hm_sz m)" using I(2,6) wf by (simp add: hm_wf_def)
      then show ?thesis using run ok' I(3,4,5) hv mp False by (intro exI [of _ e] exI [of _ None] exI [of _ m']) auto
    qed
  qed
qed

text \<open>
  The entries and what is reported: a new entry, or the one entry of the key, which ADD leaves alone
  and SET and UPDATE replace, its key included.
\<close>

lemma insert_absent:
  assumes ok: "hm_ok m" and us: "uses m" and abs: "strategy = HASHMAP_APPEND \<or> hm_map m key = None"
  shows "\<exists>e m'. hashmap_insert m key val strategy calloc_ok malloc_ok = Some (e, None, None, m') \<and> hm_wf m' \<and> uses m' \<and>
     e = (if strategy = HASHMAP_UPDATE then ENOENT
          else if malloc_ok \<and> (hashmap_needs_to_grow m \<longrightarrow> calloc_ok) then OK else ENOMEM) \<and>
     entries_of m' = (if e = OK then add_mset (key, val) (entries_of m) else entries_of m) \<and>
     (e = OK \<longrightarrow> (\<exists>bs c. buckets m' = Array bs \<and> slot m' key < length bs \<and> bs ! slot m' key = (key, val) # c))"
proof -
  let ?h = "hash_bits (hash_fn m key) (hm_cap_bits m)"
  have wf: "hm_wf m" using ok by (simp add: hm_ok_def)
  have f: "(if strategy \<noteq> HASHMAP_APPEND then hashmap_find_entry m key ?h else Some None) = Some None"
    using find_entry_spec [OF wf us, of key] abs hm_map_None [OF us, of key] by fastforce
  have run: "hashmap_insert m key val strategy calloc_ok malloc_ok =
      map_option (\<lambda>(e, m'). (e, None, None, m')) (insert_new m key val strategy calloc_ok malloc_ok ?h)"
    using f by (cases "insert_new m key val strategy calloc_ok malloc_ok ?h") (auto simp: hashmap_insert_def Let_def)
  show ?thesis
  proof (cases "strategy = HASHMAP_UPDATE")
    case True
    then show ?thesis using run wf us by (simp add: insert_new_def)
  next
    case False
    then show ?thesis using insert_new_law [OF wf us False, of key val calloc_ok malloc_ok] run by fastforce
  qed
qed

lemma insert_present:
  assumes ok: "hm_ok m" and us: "uses m" and st: "strategy \<noteq> HASHMAP_APPEND" and pres: "hm_map m key \<noteq> None"
  shows "\<exists>e k0 v0 E m'. hashmap_insert m key val strategy calloc_ok malloc_ok = Some (e, Some k0, Some v0, m') \<and>
     entries_of m = add_mset (k0, v0) E \<and> equal k0 key \<and>
     (if strategy = HASHMAP_ADD then e = EEXIST \<and> m' = m else e = OK \<and> entries_of m' = add_mset (key, val) E)"
proof -
  have wf: "hm_wf m" using ok by (simp add: hm_ok_def)
  have "\<not> (\<forall>e. e \<in># entries_of m \<longrightarrow> \<not> equal (fst e) key)" using pres hm_map_None [OF us, of key] by simp
  then obtain bs pos k v where f: "hashmap_find_entry m key (hash_bits (hash_fn m key) (hm_cap_bits m)) = Some (Some (pos, k, v))"
      and b: "buckets m = Array bs" "slot m key < length bs" "pos < length (bs ! slot m key)" "bs ! slot m key ! pos = (k, v)"
      and e: "equal k key" "(k, v) \<in># entries_of m"
    using find_entry_spec [OF wf us, of key] by (elim disjE exE conjE) simp_all
  show ?thesis
  proof (cases "strategy = HASHMAP_ADD")
    case True
    then have "hashmap_insert m key val strategy calloc_ok malloc_ok = Some (EEXIST, Some k, Some v, m)"
      using f by (simp add: hashmap_insert_def Let_def)
    then show ?thesis using True e multi_member_split [OF e(2)] by auto
  next
    case False
    let ?m = "m\<lparr>buckets := Array (bs[slot m key := (bs ! slot m key)[pos := (key, val)]])\<rparr>"
    have "strategy = HASHMAP_SET \<or> strategy = HASHMAP_UPDATE" using False st by (cases strategy) auto
    then have "hashmap_insert m key val strategy calloc_ok malloc_ok = Some (OK, Some k, Some v, ?m)"
      using f b st by (auto simp: hashmap_insert_def Let_def slot_def)
    then show ?thesis using False e overwrite_law(5) [OF ok us b e(1), of ?m val] by auto
  qed
qed

text \<open>An appended entry is the one a lookup finds; the other keys are looked up as before.\<close>

lemma append_find:
  assumes ok: "hm_ok m" and us: "uses m" and wf': "hm_wf m'" and us': "uses m'"
    and ent: "entries_of m' = add_mset (key, val) (entries_of m)"
    and front: "buckets m' = Array bs" "slot m' key < length bs" "bs ! slot m' key = (key, val) # c"
  shows "hashmap_find m' k = Some (if equal key k then Some val else hm_map m k)"
proof (cases "equal key k")
  case True
  then have "slot m' k = slot m' key" using equal_hash usesD(1) [OF us'] by (simp add: slot_def)
  then show ?thesis using True front usesD [OF us']
    by (auto simp: hashmap_find_def hashmap_find_entry_def slot_def Let_def)
next
  case False
  from find_entry_spec [OF wf' us', of k] show ?thesis
  proof (elim disjE exE conjE)
    fix pos k1 v1 assume f: "hashmap_find_entry m' k (hash_bits (hash_fn m' k) (hm_cap_bits m')) = Some (Some (pos, k1, v1))"
      and "equal k1 k" "(k1, v1) \<in># entries_of m'"
    then have "hm_map m k = Some v1" using False ent hm_map_iff [OF ok us, of k v1] by auto
    then show ?thesis using f False by (simp add: hashmap_find_def)
  next
    assume f: "hashmap_find_entry m' k (hash_bits (hash_fn m' k) (hm_cap_bits m')) = Some None"
      and "\<forall>e. e \<in># entries_of m' \<longrightarrow> \<not> equal (fst e) k"
    then have "hm_map m k = None" using ent hm_map_None [OF us] by auto
    then show ?thesis using f False by (simp add: hashmap_find_def)
  qed
qed

lemma same_entries_find:
  assumes "hm_ok m" "uses m" "hm_wf m'" "uses m'" "entries_of m' = entries_of m"
  shows "hashmap_find m' k = Some (hm_map m k)"
proof -
  have "equal_fn m' = equal_fn m" using usesD(2) [OF assms(2)] usesD(2) [OF assms(4)] by simp
  then have ok': "hm_ok m'" using assms by (simp add: hm_ok_def)
  have "hm_map m' k = hm_map m k"
    using hm_map_iff [OF ok' assms(4), of k] hm_map_iff [OF assms(1,2), of k] assms(5) by (metis option.exhaust)
  then show ?thesis using find_law [OF ok' assms(4)] by simp
qed

lemma init_law: "hm_ok (hashmap_init hash equal)" "uses (hashmap_init hash equal)" "hm_map (hashmap_init hash equal) = Map.empty"
  by (auto simp: hashmap_init_def hm_ok_def hm_wf_def uniq_def entries_of_def chain_list_def uses_def hm_map_def)

end

text \<open>With identity as the equality of keys, sz is the number of keys.\<close>

lemma hashmap_keys_eq: "hashmap_keys hash (=)"
  by unfold_locales auto

lemma uses_eq: "equal_fn m = (=) \<Longrightarrow> hashmap_keys.uses (hash_fn m) (=) m"
  by (simp add: hashmap_keys.uses_def [OF hashmap_keys_eq])

lemma hm_map_mem: "hm_ok m \<Longrightarrow> equal_fn m = (=) \<Longrightarrow> hm_map m k = Some v \<longleftrightarrow> (k, v) \<in># entries_of m"
  using hashmap_keys.hm_map_iff [OF hashmap_keys_eq _ uses_eq, of m k v] by simp

lemma hm_size_card:
  assumes "hm_ok m" "equal_fn m = (=)"
  shows "hm_sz m = card (dom (hm_map m))" "finite (dom (hm_map m))"
proof -
  let ?K = "image_mset fst (entries_of m)"
  have u: "count ?K k \<le> 1" for k
    using assms by (simp add: hm_ok_def uniq_def count_conv_size_mset filter_mset_image_mset)
  have "hm_sz m = size ?K" using assms(1) by (simp add: hm_ok_def hm_wf_def)
  also have "\<dots> = (\<Sum>k \<in> set_mset ?K. count ?K k)" by (rule size_multiset_overloaded_eq)
  also have "\<dots> = (\<Sum>k \<in> set_mset ?K. 1)"
  proof (rule sum.cong)
    fix k assume "k \<in> set_mset ?K"
    then show "count ?K k = 1" using u [of k] count_greater_zero_iff [of ?K k] by linarith
  qed simp
  also have "\<dots> = card (set_mset ?K)" by simp
  finally have sz: "hm_sz m = card (set_mset ?K)" .
  have dom: "dom (hm_map m) = set_mset ?K"
    using hm_map_mem [OF assms] by (auto simp: dom_def) force
  show "hm_sz m = card (dom (hm_map m))" "finite (dom (hm_map m))" using sz dom by simp_all
qed

section \<open>Properties\<close>

definition id_map :: "(u64, nat) hashmap" where
  "id_map = hashmap_init (\<lambda>k. k) (=)"

lemma id_map_ok: "hashmap_keys (hash_fn id_map) (equal_fn id_map)" "hm_ok id_map" "hm_map id_map = Map.empty" "hm_sz id_map = 0"
  using hashmap_keys.init_law [OF hashmap_keys_eq, of "\<lambda>k. k"] hashmap_keys_eq
  by (simp_all add: id_map_def) (simp_all add: hashmap_init_def)

text \<open>
  C10: hashmap__insert with each of the four strategies, on a well-formed map without duplicate keys
  whose callbacks are an equivalence compatible with the hash. It never leaves defined behaviour.
  When the key is absent, or the strategy is APPEND, nothing is reported through old_key and
  old_value, and the entry is added, unless the strategy is UPDATE (ENOENT) or a needed allocation
  fails (ENOMEM), when the entries stay. When the key is present, the key and the value of its entry
  are reported; ADD fails with EEXIST and leaves the map alone, SET and UPDATE replace the key and the
  value of that entry. Afterwards hashmap__find returns the new value for exactly the given key on
  success, and what the map held before for every other key and on every error.
\<close>

theorem hashmap_insert_map:
  assumes k: "hashmap_keys (hash_fn m) (equal_fn m)" and ok: "hm_ok m"
  shows "\<exists>e ok' ov m'. hashmap_insert m key val strategy calloc_ok malloc_ok = Some (e, ok', ov, m') \<and>
     hm_wf m' \<and> (strategy \<noteq> HASHMAP_APPEND \<longrightarrow> hm_ok m') \<and>
     (if strategy = HASHMAP_APPEND \<or> hm_map m key = None
      then ok' = None \<and> ov = None \<and>
        e = (if strategy = HASHMAP_UPDATE then ENOENT
             else if malloc_ok \<and> (hashmap_needs_to_grow m \<longrightarrow> calloc_ok) then OK else ENOMEM) \<and>
        entries_of m' = (if e = OK then add_mset (key, val) (entries_of m) else entries_of m)
      else \<exists>k0 v0 E. ok' = Some k0 \<and> ov = Some v0 \<and> entries_of m = add_mset (k0, v0) E \<and> equal_fn m k0 key \<and>
        (if strategy = HASHMAP_ADD then e = EEXIST \<and> m' = m else e = OK \<and> entries_of m' = add_mset (key, val) E)) \<and>
     (\<forall>k. hashmap_find m' k = Some (if e = OK \<and> equal_fn m key k then Some val else hm_map m k))"
proof -
  have us: "hashmap_keys.uses (hash_fn m) (equal_fn m) m" by (simp add: hashmap_keys.uses_def [OF k])
  show ?thesis
  proof (cases "strategy = HASHMAP_APPEND")
    case True
    obtain e m' where I: "hashmap_insert m key val strategy calloc_ok malloc_ok = Some (e, None, None, m')" "hm_wf m'"
        "hashmap_keys.uses (hash_fn m) (equal_fn m) m'"
        "e = (if malloc_ok \<and> (hashmap_needs_to_grow m \<longrightarrow> calloc_ok) then OK else ENOMEM)"
        "entries_of m' = (if e = OK then add_mset (key, val) (entries_of m) else entries_of m)"
        "e = OK \<longrightarrow> (\<exists>bs c. buckets m' = Array bs \<and> slot m' key < length bs \<and> bs ! slot m' key = (key, val) # c)"
      using hashmap_keys.insert_absent [OF k ok us, of strategy key val calloc_ok malloc_ok] True by auto
    have "hashmap_find m' j = Some (if e = OK \<and> equal_fn m key j then Some val else hm_map m j)" for j
    proof (cases "e = OK")
      case T: True
      then show ?thesis using hashmap_keys.append_find [OF k ok us I(2,3)] I(5,6) by auto
    next
      case F: False
      then show ?thesis using hashmap_keys.same_entries_find [OF k ok us I(2,3)] I(5) by simp
    qed
    then show ?thesis using I(1,2,4,5) True by simp
  next
    case st: False
    obtain e ok' ov m' where I: "hashmap_insert m key val strategy calloc_ok malloc_ok = Some (e, ok', ov, m')" "hm_ok m'"
        "hashmap_keys.uses (hash_fn m) (equal_fn m) m'"
        "\<forall>k. hm_map m' k = (if e = OK \<and> equal_fn m key k then Some val else hm_map m k)"
      using hashmap_keys.insert_law [OF k ok us st, of key val calloc_ok malloc_ok] by blast
    have fnd: "hashmap_find m' j = Some (if e = OK \<and> equal_fn m key j then Some val else hm_map m j)" for j
      using hashmap_keys.find_law [OF k I(2,3), of j] I(4) by simp
    have wf': "hm_wf m'" using I(2) by (simp add: hm_ok_def)
    show ?thesis
    proof (cases "hm_map m key = None")
      case True
      then show ?thesis using hashmap_keys.insert_absent [OF k ok us, of strategy key val calloc_ok malloc_ok] I(1,2) fnd wf'
        by auto
    next
      case False
      then obtain k0 v0 E where P: "ok' = Some k0" "ov = Some v0" "entries_of m = add_mset (k0, v0) E" "equal_fn m k0 key"
          "if strategy = HASHMAP_ADD then e = EEXIST \<and> m' = m else e = OK \<and> entries_of m' = add_mset (key, val) E"
        using hashmap_keys.insert_present [OF k ok us st False, of val calloc_ok malloc_ok] I(1) by auto
      have c: "(strategy = HASHMAP_APPEND \<or> hm_map m key = None) = False" using st False by simp
      show ?thesis unfolding c if_False using I(1,2) wf' fnd P by blast
    qed
  qed
qed

text \<open>Inserting, replacing and appending one key.\<close>

lemma hashmap_insert_map_witness:
  "\<exists>m' m2. hashmap_insert id_map 5 (7 :: nat) HASHMAP_SET True True = Some (OK, None, None, m') \<and> hashmap_find m' 5 = Some (Some 7) \<and>
     hashmap_insert m' 5 8 HASHMAP_SET False False = Some (OK, Some 5, Some 7, m2) \<and> entries_of m2 = {#(5, 8)#}"
proof -
  have E: "entries_of id_map = {#}" by (simp add: id_map_def hashmap_init_def entries_of_def chain_list_def)
  obtain m' where I: "hashmap_insert id_map 5 (7 :: nat) HASHMAP_SET True True = Some (OK, None, None, m')" "hm_ok m'"
      "entries_of m' = {#(5, 7)#}" "hashmap_find m' 5 = Some (Some 7)"
    using hashmap_insert_map [OF id_map_ok(1,2), of 5 7 HASHMAP_SET True True] id_map_ok(3) E
    by (auto simp: id_map_def hashmap_init_def)
  obtain x where U: "hashmap_keys.uses (\<lambda>k. k :: u64) (=) m'" "x = m'"
    using hashmap_keys.insert_law [OF hashmap_keys_eq id_map_ok(2) uses_eq, of HASHMAP_SET 5 7 True True] I(1)
    by (auto simp: id_map_def hashmap_init_def)
  have f: "hash_fn m' = (\<lambda>k. k)" "equal_fn m' = (=)"
    using U(1) by (simp_all add: hashmap_keys.uses_def [OF hashmap_keys_eq])
  have "hm_map m' 5 = Some 7" using hm_map_mem [OF I(2) f(2)] I(3) by simp
  then show ?thesis
    using hashmap_insert_map [of m' 5 8 HASHMAP_SET False False] I f hashmap_keys_eq [of "\<lambda>k. k :: u64"] by auto
qed

text \<open>
  hashmap__find and hashmap__delete on such a map: the lookup returns the stored value; deletion
  reports and removes exactly the entry of the given key, and does nothing for an absent key.
\<close>

theorem hashmap_find_delete_map:
  assumes "hashmap_keys (hash_fn m) (equal_fn m)" and "hm_ok m"
  shows "hashmap_find m key = Some (hm_map m key) \<and>
     (\<exists>r m'. hashmap_delete m key = Some (r, m') \<and> hm_ok m' \<and> map_option snd r = hm_map m key \<and>
        (\<forall>k. hm_map m' k = (if equal_fn m key k then None else hm_map m k)) \<and>
        hm_sz m' = (if hm_map m key = None then hm_sz m else hm_sz m - 1))"
proof -
  have u: "hashmap_keys.uses (hash_fn m) (equal_fn m) m" by (simp add: hashmap_keys.uses_def [OF assms(1)])
  show ?thesis
    using hashmap_keys.find_law [OF assms u, of key] hashmap_keys.delete_law [OF assms u, of key] by blast
qed

lemma hashmap_find_delete_map_witness:
  "\<exists>m e ok' ov m'. hashmap_insert id_map 5 (7 :: nat) HASHMAP_SET True True = Some (e, ok', ov, m) \<and>
     hashmap_find m 5 = Some (Some 7) \<and> hashmap_delete m 5 = Some (Some (5, 7), m') \<and> hm_map m' 5 = None"
proof -
  have k: "hashmap_keys (\<lambda>k. k :: u64) (=)" by (rule hashmap_keys_eq)
  have u: "hashmap_keys.uses (\<lambda>k. k :: u64) (=) id_map"
    using uses_eq [of id_map] by (simp add: id_map_def hashmap_init_def)
  obtain e ok' ov m where I: "hashmap_insert id_map 5 7 HASHMAP_SET True True = Some (e, ok', ov, m)" "hm_ok m"
      "hashmap_keys.uses (\<lambda>k. k :: u64) (=) m" "hm_map m 5 = Some 7" "\<forall>k. k \<noteq> 5 \<longrightarrow> hm_map m k = None"
    using hashmap_keys.insert_law [OF k id_map_ok(2) u, of HASHMAP_SET 5 7 True True] id_map_ok(3) by auto
  have f: "hash_fn m = (\<lambda>k. k)" "equal_fn m = (=)" using I(3) by (simp_all add: hashmap_keys.uses_def [OF k])
  obtain r m' where D: "hashmap_find m 5 = Some (Some 7)" "hashmap_delete m 5 = Some (r, m')"
      "map_option snd r = Some 7" "hm_map m' 5 = None"
    using hashmap_find_delete_map [of m 5] I f k by auto
  obtain r' m'' where "hashmap_delete m 5 = Some (r', m'')" "case r' of None \<Rightarrow> m'' = m | Some e \<Rightarrow> entries_of m = add_mset e (entries_of m'')"
    using hashmap_keys.delete_law [OF k I(2,3), of 5] by blast
  then have "r = Some (5, 7)"
    using D I(5) hm_map_mem [OF I(2) f(2)] by (cases r) (auto, metis option.distinct(1) union_single_eq_member)
  then show ?thesis using I(1) D by auto
qed

text \<open>
  hashmap_grow rehashes: it returns, the capacity becomes a larger power of two, no entry is
  lost, duplicated or changed, and every lookup has the same result as before; when the allocation
  fails the map is unchanged and ENOMEM is returned.
\<close>

theorem hashmap_grow_rehashes:
  assumes "hashmap_keys (hash_fn m) (equal_fn m)" and "hm_ok m"
  shows "(\<exists>m'. hashmap_grow m True = Some (OK, m') \<and> hm_ok m' \<and> hm_map m' = hm_map m \<and> entries_of m' = entries_of m \<and>
       hm_cap m < hm_cap m' \<and> hm_cap m' = 2 ^ hm_cap_bits m') \<and>
     hashmap_grow m False = Some (ENOMEM, m)"
proof -
  note k = assms(1)
  have u: "hashmap_keys.uses (hash_fn m) (equal_fn m) m" by (simp add: hashmap_keys.uses_def [OF k])
  have wf: "hm_wf m" using assms(2) by (simp add: hm_ok_def)
  obtain m' where G: "hashmap_grow m True = Some (OK, m')" "hm_wf m'" "hashmap_keys.uses (hash_fn m) (equal_fn m) m'"
      "entries_of m' = entries_of m" "hm_cap m < hm_cap m'" "\<exists>bs. buckets m' = Array bs"
    using hashmap_keys.grow_law [OF k wf u] by blast
  have f: "equal_fn m' = equal_fn m" using hashmap_keys.usesD(2) [OF k G(3)] .
  then have ok: "hm_ok m'" using assms(2) G(2,4) by (simp add: hm_ok_def)
  have "hm_map m' key = Some v \<longleftrightarrow> hm_map m key = Some v" for key v
    unfolding hashmap_keys.hm_map_iff [OF k assms(2) u] hashmap_keys.hm_map_iff [OF k ok G(3)] G(4) ..
  then have "hm_map m' = hm_map m" by (intro ext) (metis option.exhaust)
  moreover have "hm_cap m' = 2 ^ hm_cap_bits m'" using G(2,6) by (auto simp: hm_wf_def)
  ultimately show ?thesis using G ok by (auto simp: hashmap_grow_def Let_def)
qed

lemma hashmap_grow_rehashes_witness:
  "\<exists>m'. hashmap_grow id_map True = Some (OK, m') \<and> hm_map m' = Map.empty \<and> hm_cap m' > 0"
  using hashmap_grow_rehashes [OF id_map_ok(1,2)] id_map_ok(3) by (auto simp: id_map_def hashmap_init_def)

text \<open>
  hashmap__append always adds an entry, also for a key that is there, and the lookup then returns
  the value inserted last.
\<close>

theorem hashmap_append_last:
  assumes "hashmap_keys (hash_fn m) (equal_fn m)" and "hm_wf m"
  shows "\<exists>m'. hashmap_append m key val True True = Some (OK, m') \<and> hm_wf m' \<and>
     entries_of m' = add_mset (key, val) (entries_of m) \<and> hashmap_find m' key = Some (Some val)"
proof -
  note k = assms(1)
  have u: "hashmap_keys.uses (hash_fn m) (equal_fn m) m" by (simp add: hashmap_keys.uses_def [OF k])
  obtain m' where I: "insert_new m key val HASHMAP_APPEND True True (hash_bits (hash_fn m key) (hm_cap_bits m)) = Some (OK, m')"
      "hm_wf m'" "hashmap_keys.uses (hash_fn m) (equal_fn m) m'" "entries_of m' = add_mset (key, val) (entries_of m)"
      "\<exists>bs c. buckets m' = Array bs \<and> slot m' key < length bs \<and> bs ! slot m' key = (key, val) # c"
    using hashmap_keys.insert_new_law [OF k assms(2) u, of HASHMAP_APPEND key val True True] by auto
  have f: "hash_fn m' = hash_fn m" "equal_fn m' = equal_fn m" using hashmap_keys.usesD [OF k I(3)] by auto
  have "hashmap_find m' key = Some (Some val)"
    using I(5) hashmap_keys.equal_refl [OF k] f
    by (auto simp: hashmap_find_def hashmap_find_entry_def slot_def Let_def)
  then show ?thesis using I by (auto simp: hashmap_append_def hashmap_insert_def Let_def)
qed

lemma hashmap_append_last_witness:
  "\<exists>m'. hashmap_append id_map 5 (7 :: nat) True True = Some (OK, m') \<and> hashmap_find m' 5 = Some (Some 7)"
  using hashmap_append_last [OF id_map_ok(1), of 5 7] id_map_ok(2) by (auto simp: hm_ok_def)

text \<open>
  hashmap__clear resets the counters but leaves the freed array in buckets: on a map that has an
  array, any later lookup or deletion is undefined behaviour, although the size says that the map is
  empty. (The entries of the chains are not freed either.)
\<close>

theorem hashmap_clear_dangles:
  assumes "buckets m = Array bs"
  shows "\<exists>m'. hashmap_clear m = Some m' \<and> hashmap_size m' = 0 \<and> hashmap_capacity m' = 0 \<and>
     hashmap_find m' key = None \<and> hashmap_delete m' key = None \<and> hashmap_clear m' = None"
  using assms
  by (simp add: hashmap_clear_def hashmap_size_def hashmap_capacity_def hashmap_find_def hashmap_delete_def
      hashmap_find_entry_def Let_def)

lemma hashmap_clear_dangles_witness:
  "\<exists>m'. hashmap_clear (id_map\<lparr>buckets := Array [[(1, 2 :: nat)]], hm_cap := 1, hm_sz := 1\<rparr>) = Some m' \<and> hashmap_find m' 1 = None"
  using hashmap_clear_dangles [of "id_map\<lparr>buckets := Array [[(1, 2)]], hm_cap := 1, hm_sz := 1\<rparr>" "[[(1, 2)]]" 1] by auto

end
