(* ===== verification/Lawn_Queues.thy ===== *)
theory Lawn_Queues
  imports Lawn Hashmap_Correct
begin

unbundle bit_operations_syntax

text \<open>
  The intrusive queues of lawn.c: \<open>qrep M q xs d\<close> says that the queue at q is the doubly linked list
  of the nodes xs, and that its counter exceeds their number by d (the early returns of _queuePull
  leave the counter too large). Pushing, popping and pulling are operations on xs.
\<close>

section \<open>The callbacks satisfy the contract of the hash map\<close>

lemma strcmp_eq: "strcmp a b = 0 \<longleftrightarrow> a = b"
  by (induction a b rule: strcmp.induct) auto

lemma ttl_equal: "ttl_equal_fn = (=)"
  by (auto simp: ttl_equal_fn_def fun_eq_iff)

lemma elem_equal: "elem_equal_fn = (=)"
  by (auto simp: elem_equal_fn_def strcmp_eq fun_eq_iff)

interpretation tq: hashmap_keys ttl_hash_fn ttl_equal_fn
  by unfold_locales (auto simp: ttl_equal)

interpretation en: hashmap_keys elem_hash_fn elem_equal_fn
  by unfold_locales (auto simp: elem_equal)

section \<open>The representation of a queue\<close>

definition nnext :: "mem \<Rightarrow> addr \<Rightarrow> addr option" where
  "nnext M a = (case m_nodes M a of Some nd \<Rightarrow> n_next nd | None \<Rightarrow> None)"

definition nprev :: "mem \<Rightarrow> addr \<Rightarrow> addr option" where
  "nprev M a = (case m_nodes M a of Some nd \<Rightarrow> n_prev nd | None \<Rightarrow> None)"

definition qrep :: "mem \<Rightarrow> addr \<Rightarrow> addr list \<Rightarrow> nat \<Rightarrow> bool" where
  "qrep M q xs d \<longleftrightarrow> m_queues M q = Some \<lparr>q_head = first xs, q_tail = final xs, q_len = length xs + d\<rparr> \<and>
     dlist (nnext M) (nprev M) xs \<and> set xs \<subseteq> dom (m_nodes M)"

definition qlist :: "mem \<Rightarrow> addr \<Rightarrow> addr list \<Rightarrow> bool" where
  "qlist M q xs \<longleftrightarrow> (\<exists>d. qrep M q xs d)"

text \<open>Everything of a node except its links.\<close>

definition payload :: "mem \<Rightarrow> addr \<Rightarrow> enode option" where
  "payload M a = map_option (\<lambda>nd. nd\<lparr>n_next := None, n_prev := None\<rparr>) (m_nodes M a)"

text \<open>Only the queue q and the links of the nodes of A differ.\<close>

definition relinked :: "mem \<Rightarrow> mem \<Rightarrow> addr \<Rightarrow> addr set \<Rightarrow> bool" where
  "relinked M M' q A \<longleftrightarrow> (\<forall>p. p \<noteq> q \<longrightarrow> m_queues M' p = m_queues M p) \<and>
     (\<forall>a. a \<notin> A \<longrightarrow> m_nodes M' a = m_nodes M a) \<and> payload M' = payload M"

lemma qrep_frame:
  assumes "qrep M q xs d" "m_queues M' q = m_queues M q" "\<And>a. a \<in> set xs \<Longrightarrow> m_nodes M' a = m_nodes M a"
  shows "qrep M' q xs d"
proof -
  have "dlist (nnext M') (nprev M') xs = dlist (nnext M) (nprev M) xs"
    using assms(3) by (intro dlist_cong) (simp add: nnext_def nprev_def)
  then show ?thesis using assms by (auto simp: qrep_def)
qed

lemma qrep_other:
  "qrep M p xs d \<Longrightarrow> relinked M M' q A \<Longrightarrow> p \<noteq> q \<Longrightarrow> set xs \<inter> A = {} \<Longrightarrow> qrep M' p xs d"
  using qrep_frame [of M p xs d M'] by (auto simp: relinked_def)

lemma qlist_other: "qlist M p xs \<Longrightarrow> relinked M M' q A \<Longrightarrow> p \<noteq> q \<Longrightarrow> set xs \<inter> A = {} \<Longrightarrow> qlist M' p xs"
  unfolding qlist_def using qrep_other by blast

lemma qrep_node: "qrep M q xs d \<Longrightarrow> a \<in> set xs \<Longrightarrow> \<exists>nd. m_nodes M a = Some nd"
  by (auto simp: qrep_def)

lemma qrep_distinct: "qrep M q xs d \<Longrightarrow> distinct xs"
  by (auto simp: qrep_def dest: dlist_distinct)

lemma qrep_links:
  assumes "qrep M q (ys @ a # zs) d" "m_nodes M a = Some nd"
  shows "n_next nd = first zs" "n_prev nd = final ys"
  using dlist_split [of "nnext M" "nprev M" ys a zs] assms by (simp_all add: qrep_def nnext_def nprev_def)

lemma payload_eq: "payload M' = payload M \<longleftrightarrow> (\<forall>a. payload M' a = payload M a)"
  by (simp add: fun_eq_iff)

lemma payload_dom: "payload M' = payload M \<Longrightarrow> dom (m_nodes M') = dom (m_nodes M)"
proof -
  assume p: "payload M' = payload M"
  have "m_nodes M' a = None \<longleftrightarrow> m_nodes M a = None" for a
    using fun_cong [OF p, of a] by (cases "m_nodes M' a"; cases "m_nodes M a") (simp_all add: payload_def)
  then show ?thesis by (auto simp: dom_def)
qed

lemma payload_node:
  assumes "payload M' = payload M" "m_nodes M a = Some nd"
  shows "\<exists>nd'. m_nodes M' a = Some nd' \<and> n_element nd' = n_element nd \<and> n_ttl_queue nd' = n_ttl_queue nd \<and>
    n_expiration nd' = n_expiration nd \<and> n_element_len nd' = n_element_len nd"
proof -
  have "payload M' a = Some (nd\<lparr>n_next := None, n_prev := None\<rparr>)" using assms by (simp add: payload_def)
  then obtain nd' where n: "m_nodes M' a = Some nd'" "nd'\<lparr>n_next := None, n_prev := None\<rparr> = nd\<lparr>n_next := None, n_prev := None\<rparr>"
    by (auto simp: payload_def)
  from arg_cong [OF n(2), of n_element] arg_cong [OF n(2), of n_ttl_queue] arg_cong [OF n(2), of n_expiration]
    arg_cong [OF n(2), of n_element_len] show ?thesis using n(1) by simp
qed

text \<open>Link updates as functions on the memory.\<close>

definition relink :: "mem \<Rightarrow> addr \<Rightarrow> (enode \<Rightarrow> enode) \<Rightarrow> mem" where
  "relink M a f = M\<lparr>m_nodes := (m_nodes M)(a := map_option f (m_nodes M a))\<rparr>"

definition requeue :: "mem \<Rightarrow> addr \<Rightarrow> equeue \<Rightarrow> mem" where
  "requeue M q qd = M\<lparr>m_queues := (m_queues M)(q \<mapsto> qd)\<rparr>"

lemma requeue_simps [simp]:
  "m_nodes (requeue M q qd) = m_nodes M" "m_queues (requeue M q qd) = (m_queues M)(q \<mapsto> qd)"
  "m_queues (relink M a f) = m_queues M" "requeue (requeue M q qd) q qd' = requeue M q qd'"
  "requeue (relink M a f) q qd = relink (requeue M q qd) a f"
  by (simp_all add: requeue_def relink_def)

lemma relink_node: "m_nodes (relink M a f) b = (if b = a then map_option f (m_nodes M a) else m_nodes M b)"
  by (simp add: relink_def)

lemma set_node_eq: "m_nodes M a = Some nd \<Longrightarrow> set_node M (Some a) f = Some (relink M a f)"
  by (simp add: set_node_def relink_def)

lemma set_queue_eq: "m_queues M q = Some qd \<Longrightarrow> set_queue_at M q f = Some (requeue M q (f qd))"
  by (simp add: set_queue_at_def requeue_def)

lemma nlinks_requeue [simp]: "nnext (requeue M q qd) = nnext M" "nprev (requeue M q qd) = nprev M"
  by (simp_all add: nnext_def nprev_def fun_eq_iff)

lemma nnext_relink: "nnext (relink M a f) b = (if b = a then (case m_nodes M a of Some nd \<Rightarrow> n_next (f nd) | None \<Rightarrow> None) else nnext M b)"
  by (simp add: nnext_def relink_node split: option.splits)

lemma nprev_relink: "nprev (relink M a f) b = (if b = a then (case m_nodes M a of Some nd \<Rightarrow> n_prev (f nd) | None \<Rightarrow> None) else nprev M b)"
  by (simp add: nprev_def relink_node split: option.splits)

lemma payload_relink [simp]:
  "payload (relink M a (n_next_update f)) = payload M" "payload (relink M a (n_prev_update f)) = payload M"
  "payload (requeue M q qd) = payload M"
  by (auto simp: payload_def relink_node fun_eq_iff map_option.compositionality comp_def)

section \<open>Pushing\<close>

lemma push_spec:
  assumes q: "qrep M q xs d" and a: "m_nodes M a = Some nd" "n_next nd = None" "n_prev nd = None" "a \<notin> set xs"
  shows "\<exists>M'. queuePush M q a = Some M' \<and> qrep M' q (xs @ [a]) d \<and> relinked M M' q (set (xs @ [a]))"
proof (cases "final xs")
  case None
  then have xs: "xs = []" by simp
  let ?M = "requeue M q \<lparr>q_head = Some a, q_tail = Some a, q_len = Suc d\<rparr>"
  have "queuePush M q a = Some ?M"
    using q xs by (simp add: queuePush_def qrep_def set_queue_at_def requeue_def)
  moreover have "qrep ?M q [a] d" using a by (auto simp: qrep_def dlist_def nnext_def nprev_def)
  ultimately show ?thesis using xs by (intro exI [of _ ?M]) (simp add: relinked_def)
next
  case (Some p)
  let ?qd = "\<lparr>q_head = first xs, q_tail = Some a, q_len = Suc (length xs + d)\<rparr>"
  let ?M1 = "relink M a (n_prev_update (\<lambda>_. Some p))"
  let ?M = "relink (relink (requeue M q ?qd) a (n_prev_update (\<lambda>_. Some p))) p (n_next_update (\<lambda>_. Some a))"
  have p: "p \<in> set xs" "p \<noteq> a" using Some a(4) final_Some_in [of xs p] by auto
  obtain pd where pd: "m_nodes M p = Some pd" using qrep_node [OF q p(1)] by blast
  have "queuePush M q a = Some ?M"
    using q Some a(1) pd p(2)
    by (simp add: queuePush_def qrep_def set_node_eq set_queue_eq [of _ q] relink_node)
  moreover have "dlist (nnext ?M) (nprev ?M) (xs @ [a])"
    by (rule dlist_snoc [of "nnext M" "nprev M"])
      (use q a pd p Some in \<open>auto simp: qrep_def nnext_relink nprev_relink relink_node nnext_def nprev_def\<close>)
  moreover have "first (xs @ [a]) = first xs" using p(1) by (cases xs) auto
  ultimately have "qrep ?M q (xs @ [a]) d" using q a by (auto simp: qrep_def relink_node)
  then show ?thesis using \<open>queuePush M q a = Some ?M\<close> p by (intro exI [of _ ?M]) (auto simp: relinked_def relink_node)
qed

section \<open>Taking the head\<close>

text \<open>Removing a key that is no TTL of the lawn changes nothing: the queue stays mapped.\<close>

lemma remove_unmapped:
  assumes "hm_ok (l_timeout_queues L)" "tq.uses (l_timeout_queues L)" "hm_map (l_timeout_queues L) key = None"
  shows "removeQueueFromMapping key L M = Some (L, M)"
proof -
  obtain r m' where "hashmap_delete (l_timeout_queues L) key = Some (r, m')" "map_option snd r = None"
      "case r of None \<Rightarrow> m' = l_timeout_queues L | Some e \<Rightarrow> entries_of (l_timeout_queues L) = add_mset e (entries_of m')"
    using tq.delete_law [OF assms(1,2), of key] assms(3) by auto
  then show ?thesis by (simp add: removeQueueFromMapping_def freeQueue_def)
qed

definition unmapped :: "u64 \<Rightarrow> lawn option \<Rightarrow> bool" where
  "unmapped key L \<longleftrightarrow> (case L of None \<Rightarrow> True | Some L \<Rightarrow>
     hm_ok (l_timeout_queues L) \<and> tq.uses (l_timeout_queues L) \<and> hm_map (l_timeout_queues L) key = None)"

lemma empty_queue_eq:
  assumes "unmapped key L" "m_queues M q = Some qd"
  shows "empty_queue key L M q = Some (L, requeue M q (qd\<lparr>q_head := None, q_tail := None\<rparr>))"
  using assms by (auto simp: empty_queue_def set_queue_eq unmapped_def remove_unmapped split: option.splits)

lemma first_tail_neq: "distinct (a # xs) \<Longrightarrow> first xs = Some b \<Longrightarrow> b \<noteq> a"
  by (auto dest: first_Some_in)

lemma pop_spec:
  assumes q: "qrep M q (a # xs) d" and u: "unmapped key L"
  shows "\<exists>M'. queuePop_at key L M q = Some (Some a, L, M') \<and> qrep M' q xs d \<and> relinked M M' q (set (a # xs))"
proof -
  obtain nd where nd: "m_nodes M a = Some nd" using qrep_node [OF q] by auto
  have nx: "n_next nd = first xs" using qrep_links [of M q "[]" a xs d nd] q nd by simp
  have mq: "m_queues M q = Some \<lparr>q_head = Some a, q_tail = final (a # xs), q_len = Suc (length xs + d)\<rparr>"
    using q by (simp add: qrep_def)
  show ?thesis
  proof (cases "first xs")
    case None
    then have xs: "xs = []" by simp
    let ?M = "requeue M q \<lparr>q_head = None, q_tail = None, q_len = d\<rparr>"
    have "queuePop_at key L M q = Some (Some a, L, ?M)"
      using mq nd nx xs u by (simp add: queuePop_at_def empty_queue_eq set_queue_eq [of _ q])
    then show ?thesis using xs by (intro exI [of _ ?M]) (simp add: qrep_def relinked_def)
  next
    case (Some b)
    then obtain ys where xs: "xs = b # ys" by (cases xs) auto
    let ?qd = "\<lparr>q_head = Some b, q_tail = final xs, q_len = length xs + d\<rparr>"
    let ?M = "relink (requeue M q ?qd) b (n_prev_update (\<lambda>_. None))"
    have b: "b \<noteq> a" using qrep_distinct [OF q] xs by auto
    obtain bd where bd: "m_nodes M b = Some bd" using qrep_node [OF q, of b] xs by auto
    have run: "queuePop_at key L M q = Some (Some a, L, ?M)"
      using mq nd nx bd xs by (simp add: queuePop_at_def set_node_eq set_queue_eq [of _ q])
    have "dlist (nnext M) (nprev M) ([] @ a # xs)" using q by (simp add: qrep_def)
    then have "dlist (nnext ?M) (nprev ?M) ([] @ xs)"
      by (rule dlist_unlink) (use bd xs in \<open>auto simp: nnext_relink nprev_relink nnext_def [of M b]\<close>)
    then have "qrep ?M q xs d" using q xs by (auto simp: qrep_def relink_node)
    then show ?thesis using run xs by (intro exI [of _ ?M]) (auto simp: relinked_def relink_node)
  qed
qed

section \<open>Taking any node\<close>

lemma pull_tail_mid:
  assumes "m_queues M q = Some qd" "m_nodes M a = Some nd" "q_tail qd \<noteq> Some a" "n_next nd = Some z" "m_nodes M z = Some zd"
  shows "pull_tail M q a =
    Some (relink (requeue M q (qd\<lparr>q_len := q_len qd - 1\<rparr>)) z (n_prev_update (\<lambda>_. n_prev nd)))"
  using assms by (auto simp: pull_tail_def set_node_eq set_queue_eq [of _ q])

lemma pull_tail_last:
  assumes "m_queues M q = Some qd" "m_nodes M a = Some nd" "n_next nd = None" "n_prev nd = Some p" "m_nodes M p = Some pd"
  shows "pull_tail M q a =
    Some (relink (requeue M q (qd\<lparr>q_tail := Some p, q_len := q_len qd - 1\<rparr>)) p (n_next_update (\<lambda>_. None)))"
  using assms by (auto simp: pull_tail_def set_node_eq set_queue_eq [of _ q])

lemma pull_spec:
  assumes q: "qrep M q (ys @ a # zs) d" and u: "unmapped key L"
  shows "\<exists>M' d'. queuePull key L M q a = Some (L, M') \<and> qrep M' q (ys @ zs) d' \<and> relinked M M' q (set (ys @ a # zs))"
proof -
  let ?xs = "ys @ a # zs"
  obtain nd where nd: "m_nodes M a = Some nd" using qrep_node [OF q] by auto
  note lk = qrep_links [OF q nd]
  have mq: "m_queues M q = Some \<lparr>q_head = first ?xs, q_tail = final ?xs, q_len = length ?xs + d\<rparr>"
    using q by (simp add: qrep_def)
  have ds: "distinct ?xs" by (rule qrep_distinct [OF q])
  show ?thesis
  proof (cases "ys = [] \<and> zs = []")
    case True
    let ?M = "requeue M q \<lparr>q_head = None, q_tail = None, q_len = Suc d\<rparr>"
    have "queuePull key L M q a = Some (L, ?M)"
      using mq nd lk True u by (simp add: queuePull_def empty_queue_eq)
    moreover have "qrep ?M q (ys @ zs) (Suc d)" using True by (simp add: qrep_def)
    ultimately show ?thesis by (intro exI [of _ ?M] exI [of _ "Suc d"]) (simp add: relinked_def)
  next
    case False
    then have len: "length ?xs + d \<noteq> 1" by (cases ys; cases zs) auto
    show ?thesis
    proof (cases "final ys")
      case None
      then have ys: "ys = []" by simp
      then obtain z ws where zs: "zs = z # ws" using False by (cases zs) auto
      obtain zd where zd: "m_nodes M z = Some zd" using qrep_node [OF q, of z] zs by auto
      have za: "z \<noteq> a" "final ?xs \<noteq> Some a" using ds ys zs by (auto simp: final_eq)
      let ?qd = "\<lparr>q_head = Some z, q_tail = final ?xs, q_len = length zs + d\<rparr>"
      let ?M = "relink (relink (requeue M q ?qd) z (n_prev_update (\<lambda>_. None))) z (n_prev_update (\<lambda>_. None))"
      have "queuePull key L M q a = Some (L, ?M)"
        using mq nd lk len ys zs zd za
        by (simp add: queuePull_def set_node_eq set_queue_eq [of _ q] relink_node pull_tail_mid [where nd = nd and z = z and zd = "n_prev_update (\<lambda>_. None) zd"])
      moreover have "dlist (nnext ?M) (nprev ?M) ([] @ zs)"
        by (rule dlist_unlink [of "nnext M" "nprev M" "[]" a zs])
          (use q zd zs ys in \<open>auto simp: qrep_def nnext_relink nprev_relink relink_node nnext_def nprev_def\<close>)
      then have "qrep ?M q (ys @ zs) d" using q zs ys by (auto simp: qrep_def relink_node)
      ultimately show ?thesis using zs by (intro exI [of _ ?M] exI [of _ d]) (auto simp: relinked_def relink_node)
    next
      case (Some p)
      have p: "p \<in> set ys" using Some final_Some_in by fastforce
      then have pa: "p \<noteq> a" "p \<notin> set zs" "first ?xs \<noteq> Some a" using ds by (cases ys; auto)+
      obtain pd where pd: "m_nodes M p = Some pd" using qrep_node [OF q, of p] p by auto
      have hd: "first ?xs = first (ys @ zs)" using p by (cases ys) auto
      let ?M1 = "relink M p (n_next_update (\<lambda>_. first zs))"
      have nd1: "m_nodes ?M1 a = Some nd" using nd pa by (simp add: relink_node)
      have yn: "ys \<noteq> []" using p by auto
      have start: "queuePull key L M q a = map_option (Pair L) (pull_tail ?M1 q a)"
        using mq nd lk len Some pd pa yn
        by (cases "pull_tail ?M1 q a") (simp_all add: queuePull_def set_node_eq)
      show ?thesis
      proof (cases zs)
        case Nil
        let ?qd = "\<lparr>q_head = first ?xs, q_tail = Some p, q_len = length ys + d\<rparr>"
        let ?M = "relink (relink (requeue M q ?qd) p (n_next_update (\<lambda>_. first zs))) p (n_next_update (\<lambda>_. None))"
        have "pull_tail ?M1 q a = Some ?M"
          using mq nd1 lk Nil Some pd by (subst pull_tail_last [where nd = nd and p = p and pd = "n_next_update (\<lambda>_. first zs) pd"]) (auto simp: relink_node)
        then have run: "queuePull key L M q a = Some (L, ?M)" using start by simp
        have "dlist (nnext ?M) (nprev ?M) (ys @ zs)"
          by (rule dlist_unlink [of "nnext M" "nprev M" ys a zs])
            (use q pd Nil Some in \<open>auto simp: qrep_def nnext_relink nprev_relink relink_node nnext_def nprev_def\<close>)
        then have "qrep ?M q (ys @ zs) d" using q Nil Some hd by (auto simp: qrep_def relink_node)
        then show ?thesis using run p by (intro exI [of _ ?M] exI [of _ d]) (auto simp: relinked_def relink_node)
      next
        case (Cons z ws)
        obtain zd where zd: "m_nodes M z = Some zd" using qrep_node [OF q, of z] Cons by auto
        have zp: "z \<noteq> p" "z \<noteq> a" "final ?xs \<noteq> Some a" using pa Cons ds by (auto simp: final_eq)
        let ?qd = "\<lparr>q_head = first ?xs, q_tail = final ?xs, q_len = length ys + length zs + d\<rparr>"
        let ?M = "relink (relink (requeue M q ?qd) p (n_next_update (\<lambda>_. first zs))) z (n_prev_update (\<lambda>_. Some p))"
        have "pull_tail ?M1 q a = Some ?M"
          using mq nd1 lk Cons Some zd zp by (subst pull_tail_mid [where nd = nd and z = z and zd = zd]) (auto simp: relink_node)
        then have run: "queuePull key L M q a = Some (L, ?M)" using start by simp
        have "dlist (nnext ?M) (nprev ?M) (ys @ zs)"
          by (rule dlist_unlink [of "nnext M" "nprev M" ys a zs])
            (use q pd zd zp pa Cons Some in \<open>auto simp: qrep_def nnext_relink nprev_relink relink_node nnext_def nprev_def\<close>)
        moreover have "final ?xs = final (ys @ zs)" using Cons by (simp add: final_append)
        ultimately have "qrep ?M q (ys @ zs) d" using q hd by (auto simp: qrep_def relink_node)
        then show ?thesis using run p Cons by (intro exI [of _ ?M] exI [of _ d]) (auto simp: relinked_def relink_node)
      qed
    qed
  qed
qed

end
