(* ===== verification/Lawn_Correct.thy ===== *)
theory Lawn_Correct
  imports Lawn_Queues
begin

unbundle bit_operations_syntax

text \<open>
  The invariant of the Lawn store and what the single-timer operations do: \<open>lawn_core L M c qs\<close>
  relates the store to the ghost function qs from a TTL to the nodes of its queue; c bounds the
  times at which the timers were set. \<open>live_at\<close> is the abstract map from keys to expiration times.
\<close>

section \<open>The invariant\<close>

abbreviation queue_map :: "lawn \<Rightarrow> u64 \<Rightarrow> addr option" where
  "queue_map L \<equiv> hm_map (l_timeout_queues L)"

abbreviation node_map :: "lawn \<Rightarrow> cstr \<Rightarrow> addr option" where
  "node_map L \<equiv> hm_map (l_element_nodes L)"

definition exp_of :: "mem \<Rightarrow> addr \<Rightarrow> nat" where
  "exp_of M a = (case m_nodes M a of Some nd \<Rightarrow> unat (n_expiration nd) | None \<Rightarrow> 0)"

definition maps_ok :: "lawn \<Rightarrow> bool" where
  "maps_ok L \<longleftrightarrow> hm_ok (l_timeout_queues L) \<and> tq.uses (l_timeout_queues L) \<and>
     hm_ok (l_element_nodes L) \<and> en.uses (l_element_nodes L)"

definition in_queues :: "(u64 \<Rightarrow> addr list) \<Rightarrow> addr set" where
  "in_queues qs = (\<Union>t. set (qs t))"

definition lawn_core :: "lawn \<Rightarrow> mem \<Rightarrow> nat \<Rightarrow> (u64 \<Rightarrow> addr list) \<Rightarrow> bool" where
  "lawn_core L M c qs \<longleftrightarrow> maps_ok L \<and>
     (\<forall>t. case queue_map L t of Some q \<Rightarrow> qlist M q (qs t) | None \<Rightarrow> qs t = []) \<and>
     (\<forall>t t' q. queue_map L t = Some q \<longrightarrow> queue_map L t' = Some q \<longrightarrow> t = t') \<and>
     (\<forall>t. \<forall>a \<in> set (qs t). \<exists>nd k. m_nodes M a = Some nd \<and> n_ttl_queue nd = t \<and> n_element nd = Some k \<and>
        node_map L k = Some a) \<and>
     (\<forall>k a. node_map L k = Some a \<longrightarrow> (\<exists>nd. m_nodes M a = Some nd \<and> n_element nd = Some k \<and> a \<in> set (qs (n_ttl_queue nd)))) \<and>
     (\<forall>t. sorted (map (exp_of M) (qs t)) \<and> (\<forall>a \<in> set (qs t). exp_of M a \<le> c + unat t))"

text \<open>next_expiration is 0, for unknown, or exact.\<close>

definition next_ok :: "lawn \<Rightarrow> mem \<Rightarrow> (u64 \<Rightarrow> addr list) \<Rightarrow> bool" where
  "next_ok L M qs \<longleftrightarrow> l_next_expiration L = 0 \<or>
     ((\<exists>a \<in> in_queues qs. exp_of M a = unat (l_next_expiration L)) \<and>
      (\<forall>a \<in> in_queues qs. unat (l_next_expiration L) \<le> exp_of M a))"

definition lawn_inv :: "lawn \<Rightarrow> mem \<Rightarrow> nat \<Rightarrow> bool" where
  "lawn_inv L M c \<longleftrightarrow> (\<exists>qs. lawn_core L M c qs \<and> next_ok L M qs)"

definition live_at :: "lawn \<Rightarrow> mem \<Rightarrow> cstr \<Rightarrow> nat option" where
  "live_at L M k = map_option (exp_of M) (node_map L k)"

lemma coreI:
  assumes "maps_ok L"
    and "\<And>t q. queue_map L t = Some q \<Longrightarrow> qlist M q (qs t)" "\<And>t. queue_map L t = None \<Longrightarrow> qs t = []"
    and "\<And>t t' q. queue_map L t = Some q \<Longrightarrow> queue_map L t' = Some q \<Longrightarrow> t = t'"
    and "\<And>t a. a \<in> set (qs t) \<Longrightarrow> \<exists>nd k. m_nodes M a = Some nd \<and> n_ttl_queue nd = t \<and> n_element nd = Some k \<and> node_map L k = Some a"
    and "\<And>k a. node_map L k = Some a \<Longrightarrow> \<exists>nd. m_nodes M a = Some nd \<and> n_element nd = Some k \<and> a \<in> set (qs (n_ttl_queue nd))"
    and "\<And>t. sorted (map (exp_of M) (qs t))" "\<And>t a. a \<in> set (qs t) \<Longrightarrow> exp_of M a \<le> c + unat t"
  shows "lawn_core L M c qs"
proof -
  have "\<forall>t. case queue_map L t of Some q \<Rightarrow> qlist M q (qs t) | None \<Rightarrow> qs t = []"
  proof
    fix t show "case queue_map L t of Some q \<Rightarrow> qlist M q (qs t) | None \<Rightarrow> qs t = []"
      using assms(2,3) [of t] by (cases "queue_map L t") simp_all
  qed
  moreover have "\<forall>t t' q. queue_map L t = Some q \<longrightarrow> queue_map L t' = Some q \<longrightarrow> t = t'"
    by (intro allI impI) (rule assms(4))
  moreover have "\<forall>t. \<forall>a \<in> set (qs t). \<exists>nd k. m_nodes M a = Some nd \<and> n_ttl_queue nd = t \<and> n_element nd = Some k \<and> node_map L k = Some a"
    by (intro allI ballI) (rule assms(5))
  moreover have "\<forall>k a. node_map L k = Some a \<longrightarrow> (\<exists>nd. m_nodes M a = Some nd \<and> n_element nd = Some k \<and> a \<in> set (qs (n_ttl_queue nd)))"
    by (intro allI impI) (rule assms(6))
  moreover have "\<forall>t. sorted (map (exp_of M) (qs t)) \<and> (\<forall>a \<in> set (qs t). exp_of M a \<le> c + unat t)"
    by (intro allI conjI ballI) (rule assms(7,8), assumption?)+
  ultimately show ?thesis unfolding lawn_core_def using assms(1) by blast
qed

lemma core_maps: "lawn_core L M c qs \<Longrightarrow> maps_ok L"
  by (simp add: lawn_core_def)

lemma core_case: "lawn_core L M c qs \<Longrightarrow> (case queue_map L t of Some q \<Rightarrow> qlist M q (qs t) | None \<Rightarrow> qs t = [])"
  unfolding lawn_core_def by blast

lemma core_queue: "lawn_core L M c qs \<Longrightarrow> queue_map L t = Some q \<Longrightarrow> qlist M q (qs t)"
  using core_case [of L M c qs t] by simp

lemma core_no_queue: "lawn_core L M c qs \<Longrightarrow> queue_map L t = None \<Longrightarrow> qs t = []"
  using core_case [of L M c qs t] by simp

lemma core_inj: "lawn_core L M c qs \<Longrightarrow> queue_map L t = Some q \<Longrightarrow> queue_map L t' = Some q \<Longrightarrow> t = t'"
  unfolding lawn_core_def by blast

lemma core_node:
  "lawn_core L M c qs \<Longrightarrow> a \<in> set (qs t) \<Longrightarrow>
     \<exists>nd k. m_nodes M a = Some nd \<and> n_ttl_queue nd = t \<and> n_element nd = Some k \<and> node_map L k = Some a"
  unfolding lawn_core_def by blast

lemma core_key:
  "lawn_core L M c qs \<Longrightarrow> node_map L k = Some a \<Longrightarrow>
     \<exists>nd. m_nodes M a = Some nd \<and> n_element nd = Some k \<and> a \<in> set (qs (n_ttl_queue nd))"
  unfolding lawn_core_def by blast

lemma core_sorted: "lawn_core L M c qs \<Longrightarrow> sorted (map (exp_of M) (qs t))"
  unfolding lawn_core_def by blast

lemma core_late: "lawn_core L M c qs \<Longrightarrow> a \<in> set (qs t) \<Longrightarrow> exp_of M a \<le> c + unat t"
  unfolding lawn_core_def by blast

lemma core_mono: "lawn_core L M c qs \<Longrightarrow> c \<le> c' \<Longrightarrow> lawn_core L M c' qs"
  unfolding lawn_core_def by (meson add_le_mono1 order_trans)

lemma core_next [simp]: "lawn_core (L\<lparr>l_next_expiration := e\<rparr>) M c qs = lawn_core L M c qs"
  by (simp add: lawn_core_def maps_ok_def)

lemma core_disjoint: "lawn_core L M c qs \<Longrightarrow> a \<in> set (qs t) \<Longrightarrow> a \<in> set (qs t') \<Longrightarrow> t = t'"
  using core_node by (metis option.inject)

lemma core_nonempty: "lawn_core L M c qs \<Longrightarrow> a \<in> set (qs t) \<Longrightarrow> \<exists>q. queue_map L t = Some q"
  using core_no_queue by (metis empty_iff empty_set not_None_eq)

lemma exp_payload: "payload M' = payload M \<Longrightarrow> exp_of M' = exp_of M"
proof
  fix a assume p: "payload M' = payload M"
  show "exp_of M' a = exp_of M a"
  proof (cases "m_nodes M a")
    case None
    then have "m_nodes M' a = None" using payload_dom [OF p] by auto
    then show ?thesis using None by (simp add: exp_of_def)
  next
    case (Some nd)
    then obtain nd' where "m_nodes M' a = Some nd'" "n_expiration nd' = n_expiration nd"
      using payload_node [OF p Some] by blast
    then show ?thesis using Some by (simp add: exp_of_def)
  qed
qed

lemma live_at_iff:
  "lawn_core L M c qs \<Longrightarrow> live_at L M k = Some e \<longleftrightarrow> (\<exists>a t nd. a \<in> set (qs t) \<and> m_nodes M a = Some nd \<and> n_element nd = Some k \<and> exp_of M a = e)"
proof (intro iffI)
  assume c: "lawn_core L M c qs"
  show "\<exists>a t nd. a \<in> set (qs t) \<and> m_nodes M a = Some nd \<and> n_element nd = Some k \<and> exp_of M a = e" if lv: "live_at L M k = Some e"
  proof -
    obtain a where a: "node_map L k = Some a" "exp_of M a = e" using lv by (cases "node_map L k") (auto simp: live_at_def)
    then show ?thesis using core_key [OF c a(1)] by blast
  qed
  show "live_at L M k = Some e" if lv: "\<exists>a t nd. a \<in> set (qs t) \<and> m_nodes M a = Some nd \<and> n_element nd = Some k \<and> exp_of M a = e"
  proof -
    obtain a t nd where a: "a \<in> set (qs t)" "m_nodes M a = Some nd" "n_element nd = Some k" "exp_of M a = e" using lv by blast
    then have "node_map L k = Some a" using core_node [OF c a(1)] by auto
    then show ?thesis using a(4) by (simp add: live_at_def)
  qed
qed

lemma live_dom: "dom (live_at L M) = dom (node_map L)"
  by (auto simp: live_at_def)

lemma maps_unmapped: "maps_ok L \<Longrightarrow> queue_map L key = None \<Longrightarrow> unmapped key (Some L)"
  by (simp add: maps_ok_def unmapped_def)

lemma find_queue: "maps_ok L \<Longrightarrow> findQueueInMapping L t = Some (queue_map L t)"
  by (simp add: findQueueInMapping_def maps_ok_def tq.find_law)

lemma find_node: "maps_ok L \<Longrightarrow> findNodeInMapping L k = Some (node_map L k)"
  by (simp add: findNodeInMapping_def maps_ok_def en.find_law)

lemma remove_node_mapping:
  assumes "maps_ok L" "n_element nd = Some k"
  shows "\<exists>m. removeNodeFromMapping L nd = Some (L\<lparr>l_element_nodes := m\<rparr>) \<and> maps_ok (L\<lparr>l_element_nodes := m\<rparr>) \<and>
    hm_map m = (node_map L)(k := None)"
proof -
  obtain r m where "hashmap_delete (l_element_nodes L) k = Some (r, m)" "hm_ok m" "en.uses m"
      "\<forall>k'. hm_map m k' = (if elem_equal_fn k k' then None else node_map L k')"
    using en.delete_law [of "l_element_nodes L" k] assms(1) by (auto simp: maps_ok_def)
  then show ?thesis using assms by (intro exI [of _ m]) (auto simp: removeNodeFromMapping_def maps_ok_def elem_equal fun_eq_iff)
qed

section \<open>Taking a node off its queue and out of the map\<close>

text \<open>
  The core after the links of one queue have changed from xs to a part of it and the keys of the
  nodes that left are out of the map.
\<close>

lemma core_shrink:
  assumes core: "lawn_core L M c qs" and t: "queue_map L t = Some q"
    and L': "l_timeout_queues L' = l_timeout_queues L" "maps_ok L'"
    and q: "qlist M' q ys" and rl: "relinked M M' q (set (qs t))"
    and ys: "set ys \<subseteq> set (qs t)" "sorted (map (exp_of M) ys)"
    and nm: "\<And>k a. node_map L' k = Some a \<longleftrightarrow> node_map L k = Some a \<and> a \<notin> set (qs t) - set ys"
  shows "lawn_core L' M' c (qs(t := ys))"
proof (rule coreI)
  have pl: "payload M' = payload M" using rl by (simp add: relinked_def)
  show "maps_ok L'" by (rule L')
  show "qlist M' p ((qs(t := ys)) t')" if "queue_map L' t' = Some p" for t' p
  proof (cases "t' = t")
    case True
    then show ?thesis using that t q L' by simp
  next
    case False
    then have "p \<noteq> q" using core_inj [OF core, of t' p t] that t L' by auto
    moreover have "set (qs t') \<inter> set (qs t) = {}" using core_disjoint [OF core] False by blast
    ultimately show ?thesis using qlist_other [OF core_queue [OF core, of t' p] rl] that L' False by simp
  qed
  show "(qs(t := ys)) t' = []" if "queue_map L' t' = None" for t'
    using that core_no_queue [OF core, of t'] t L' by auto
  show "t' = t''" if "queue_map L' t' = Some p" "queue_map L' t'' = Some p" for t' t'' p
    using core_inj [OF core] that L' by metis
  show "\<exists>nd k. m_nodes M' a = Some nd \<and> n_ttl_queue nd = t' \<and> n_element nd = Some k \<and> node_map L' k = Some a"
    if a: "a \<in> set ((qs(t := ys)) t')" for t' a
  proof -
    have "a \<in> set (qs t')" using a ys(1) by (auto split: if_splits)
    then obtain nd k where nd: "m_nodes M a = Some nd" "n_ttl_queue nd = t'" "n_element nd = Some k" "node_map L k = Some a"
      using core_node [OF core] by blast
    have "a \<notin> set (qs t) - set ys"
    proof
      assume x: "a \<in> set (qs t) - set ys"
      then have "t' = t" using core_disjoint [OF core] \<open>a \<in> set (qs t')\<close> by blast
      then show False using a x by simp
    qed
    then show ?thesis using nd nm payload_node [OF pl nd(1)] by auto
  qed
  show "\<exists>nd. m_nodes M' a = Some nd \<and> n_element nd = Some k \<and> a \<in> set ((qs(t := ys)) (n_ttl_queue nd))"
    if "node_map L' k = Some a" for k a
  proof -
    have a: "node_map L k = Some a" "a \<notin> set (qs t) - set ys" using that nm by auto
    obtain nd where nd: "m_nodes M a = Some nd" "n_element nd = Some k" "a \<in> set (qs (n_ttl_queue nd))"
      using core_key [OF core a(1)] by blast
    then show ?thesis using payload_node [OF pl nd(1)] a(2) by auto
  qed
  show "sorted (map (exp_of M') ((qs(t := ys)) t'))" for t'
    using core_sorted [OF core] ys(2) exp_payload [OF pl] by simp
  show "exp_of M' a \<le> c + unat t'" if "a \<in> set ((qs(t := ys)) t')" for t' a
    using core_late [OF core, of a t'] ys(1) that exp_payload [OF pl] by (auto split: if_splits)
qed

lemma sorted_map_remove: "sorted (map f (ys @ a # zs)) \<Longrightarrow> sorted (map f (ys @ zs))"
  by (auto simp: sorted_append)

lemma remove_spec:
  assumes core: "lawn_core L M c qs" and k: "node_map L k = Some a" and stk: "queue_map L stk = None"
  shows "\<exists>L' M' t. removeNode stk L M a = Some (L', M') \<and> a \<in> set (qs t) \<and>
    lawn_core L' M' c (qs(t := remove1 a (qs t))) \<and> node_map L' = (node_map L)(k := None) \<and>
    l_timeout_queues L' = l_timeout_queues L \<and> payload M' = payload M \<and>
    m_queues M' = m_queues M ++ (m_queues M' |` ran (queue_map L)) \<and>
    l_next_expiration L' = (if exp_of M a \<le> unat (l_next_expiration L) then 0 else l_next_expiration L)"
proof -
  obtain nd where nd: "m_nodes M a = Some nd" "n_element nd = Some k" "a \<in> set (qs (n_ttl_queue nd))"
    using core_key [OF core k] by blast
  let ?t = "n_ttl_queue nd"
  obtain q where q: "queue_map L ?t = Some q" using core_nonempty [OF core nd(3)] by blast
  obtain d where qr: "qrep M q (qs ?t) d" using core_queue [OF core q] by (auto simp: qlist_def)
  obtain ys zs where yz: "qs ?t = ys @ a # zs" using nd(3) by (meson split_list)
  have ds: "distinct (qs ?t)" by (rule qrep_distinct [OF qr])
  then have rm: "remove1 a (qs ?t) = ys @ zs" using yz by (simp add: remove1_append)
  note mo = core_maps [OF core]
  obtain M1 d' where M1: "queuePull stk (Some L) M q a = Some (Some L, M1)" "qrep M1 q (ys @ zs) d'" "relinked M M1 q (set (qs ?t))"
    using pull_spec [of M q ys a zs d stk "Some L"] qr maps_unmapped [OF mo stk] yz by auto
  have pl: "payload M1 = payload M" using M1(3) by (simp add: relinked_def)
  obtain nd1 where nd1: "m_nodes M1 a = Some nd1" "n_element nd1 = Some k" "n_expiration nd1 = n_expiration nd"
    using payload_node [OF pl nd(1)] nd(2) by auto
  obtain m where m: "removeNodeFromMapping L nd1 = Some (L\<lparr>l_element_nodes := m\<rparr>)" "maps_ok (L\<lparr>l_element_nodes := m\<rparr>)"
      "hm_map m = (node_map L)(k := None)"
    using remove_node_mapping [OF mo nd1(2)] by blast
  let ?L = "L\<lparr>l_element_nodes := m\<rparr>"
  let ?L' = "if n_expiration nd1 \<le> l_next_expiration ?L then ?L\<lparr>l_next_expiration := 0\<rparr> else ?L"
  have run: "removeNode stk L M a = Some (?L', M1)"
    using nd(1) find_queue [OF mo] q M1(1) nd1(1) m(1) by (simp add: removeNode_def)
  have core1: "lawn_core ?L M1 c (qs(?t := remove1 a (qs ?t)))"
  proof (rule core_shrink [OF core q])
    show "qlist M1 q (remove1 a (qs ?t))" using M1(2) rm by (auto simp: qlist_def)
    show "set (remove1 a (qs ?t)) \<subseteq> set (qs ?t)" by (rule set_remove1_subset)
    show "sorted (map (exp_of M) (remove1 a (qs ?t)))"
      unfolding rm using core_sorted [OF core, of ?t, unfolded yz] by (rule sorted_map_remove)
    show "node_map ?L k' = Some b \<longleftrightarrow> node_map L k' = Some b \<and> b \<notin> set (qs ?t) - set (remove1 a (qs ?t))" for k' b
    proof -
      have s: "set (qs ?t) - set (remove1 a (qs ?t)) = {a}" using ds nd(3) by auto
      have x: "k' = k" if na: "node_map L k' = Some a"
      proof -
        obtain nd' where "m_nodes M a = Some nd'" "n_element nd' = Some k'" using core_key [OF core na] by blast
        then show ?thesis using nd(1,2) by simp
      qed
      have e: "node_map ?L k' = (if k' = k then None else node_map L k')" using m(3) by simp
      show ?thesis unfolding s e
      proof (cases "k' = k")
        case True
        then show "(if k' = k then None else node_map L k') = Some b \<longleftrightarrow> node_map L k' = Some b \<and> b \<notin> {a}" using k by simp
      next
        case False
        then have "node_map L k' \<noteq> Some a" using x by blast
        then show "(if k' = k then None else node_map L k') = Some b \<longleftrightarrow> node_map L k' = Some b \<and> b \<notin> {a}" using False by auto
      qed
    qed
  qed (use m(2) M1(3) in simp_all)
  then have "lawn_core ?L' M1 c (qs(?t := remove1 a (qs ?t)))" by simp
  moreover have "m_queues M1 = m_queues M ++ (m_queues M1 |` ran (queue_map L))"
  proof
    fix p show "m_queues M1 p = (m_queues M ++ (m_queues M1 |` ran (queue_map L))) p"
    proof (cases "p \<in> ran (queue_map L)")
      case True
      then obtain t' where t': "queue_map L t' = Some p" by (auto simp: ran_def)
      have "\<exists>x. m_queues M1 p = Some x"
      proof (cases "p = q")
        case True
        then show ?thesis using M1(2) by (auto simp: qrep_def)
      next
        case False
        then show ?thesis using M1(3) core_queue [OF core t'] by (auto simp: relinked_def qlist_def qrep_def)
      qed
      then show ?thesis using True by (auto simp: map_add_def)
    next
      case False
      then have "p \<noteq> q" using q by (auto simp: ran_def)
      then show ?thesis using M1(3) False by (simp add: relinked_def map_add_def)
    qed
  qed
  moreover have "exp_of M a = unat (n_expiration nd1)" using nd(1) nd1(3) by (simp add: exp_of_def)
  ultimately show ?thesis using run m(3) pl nd(3)
    by (intro exI [of _ ?L'] exI [of _ M1] exI [of _ ?t]) (auto simp: word_le_nat_alt)
qed

section \<open>Adding a node\<close>

lemma core_grow:
  assumes core: "lawn_core L M c qs" and t: "queue_map L t = Some q" and c: "c \<le> c'"
    and a: "m_nodes M a = Some nd" "n_ttl_queue nd = t" "n_element nd = Some k" "a \<notin> in_queues qs" "exp_of M a = c' + unat t"
    and L': "l_timeout_queues L' = l_timeout_queues L" "maps_ok L'" "node_map L' = (node_map L)(k \<mapsto> a)" "node_map L k = None"
    and q: "qlist M' q (qs t @ [a])" and rl: "relinked M M' q (set (qs t @ [a]))"
  shows "lawn_core L' M' c' (qs(t := qs t @ [a]))"
proof (rule coreI)
  let ?qs = "qs(t := qs t @ [a])"
  have pl: "payload M' = payload M" using rl by (simp add: relinked_def)
  note ex = exp_payload [OF pl]
  have nq: "a \<notin> set (qs t')" for t' using a(4) by (auto simp: in_queues_def)
  show "maps_ok L'" by (rule L')
  show "qlist M' p (?qs t')" if m: "queue_map L' t' = Some p" for t' p
  proof (cases "t' = t")
    case True
    then show ?thesis using m t q L' by simp
  next
    case False
    then have "p \<noteq> q" using core_inj [OF core, of t' p t] m t L' by auto
    moreover have "set (qs t') \<inter> set (qs t @ [a]) = {}" using core_disjoint [OF core] False nq by auto
    ultimately show ?thesis using qlist_other [OF core_queue [OF core, of t' p] rl] m L' False by simp
  qed
  show "?qs t' = []" if "queue_map L' t' = None" for t'
    using that core_no_queue [OF core, of t'] t L' by auto
  show "t' = t''" if "queue_map L' t' = Some p" "queue_map L' t'' = Some p" for t' t'' p
    using core_inj [OF core] that L' by metis
  show "\<exists>nd k. m_nodes M' b = Some nd \<and> n_ttl_queue nd = t' \<and> n_element nd = Some k \<and> node_map L' k = Some b"
    if b: "b \<in> set (?qs t')" for t' b
  proof (cases "b = a")
    case True
    then have "t' = t" using b nq by (auto split: if_splits)
    then show ?thesis using True payload_node [OF pl a(1)] a L'(3) by auto
  next
    case False
    then have "b \<in> set (qs t')" using b by (auto split: if_splits)
    then obtain nd' k' where nd': "m_nodes M b = Some nd'" "n_ttl_queue nd' = t'" "n_element nd' = Some k'" "node_map L k' = Some b"
      using core_node [OF core] by blast
    then have "k' \<noteq> k" using L'(4) by auto
    then show ?thesis using nd' L'(3) payload_node [OF pl nd'(1)] by auto
  qed
  show "\<exists>nd. m_nodes M' b = Some nd \<and> n_element nd = Some k' \<and> b \<in> set (?qs (n_ttl_queue nd))"
    if m: "node_map L' k' = Some b" for k' b
  proof (cases "k' = k")
    case True
    then have "b = a" using m L'(3) by simp
    then show ?thesis using True payload_node [OF pl a(1)] a by auto
  next
    case False
    then have "node_map L k' = Some b" using m L'(3) by simp
    then obtain nd' where nd': "m_nodes M b = Some nd'" "n_element nd' = Some k'" "b \<in> set (qs (n_ttl_queue nd'))"
      using core_key [OF core] by blast
    then show ?thesis using payload_node [OF pl nd'(1)] by auto
  qed
  show "sorted (map (exp_of M') (?qs t'))" for t'
    using core_sorted [OF core, of t'] core_late [OF core, of _ t] c a(5) ex
    by (cases "t' = t") (fastforce simp: sorted_append)+
  show "exp_of M' b \<le> c' + unat t'" if b: "b \<in> set (?qs t')" for t' b
    using core_late [OF core, of b t'] b c a(5) ex by (auto split: if_splits)
qed

text \<open>Memory that the store does not use may change.\<close>

lemma core_frame:
  assumes core: "lawn_core L M c qs"
    and n: "\<And>a. a \<in> in_queues qs \<Longrightarrow> m_nodes M' a = m_nodes M a"
    and q: "\<And>p. p \<in> ran (queue_map L) \<Longrightarrow> m_queues M' p = m_queues M p"
  shows "lawn_core L M' c qs"
proof -
  have n': "a \<in> set (qs t) \<Longrightarrow> m_nodes M' a = m_nodes M a" for a t using n by (auto simp: in_queues_def)
  have e: "a \<in> set (qs t) \<Longrightarrow> exp_of M' a = exp_of M a" for a t using n' by (simp add: exp_of_def)
  show ?thesis
  proof (rule coreI)
    show "qlist M' p (qs t)" if m: "queue_map L t = Some p" for t p
    proof -
      obtain d where "qrep M p (qs t) d" using core_queue [OF core m] by (auto simp: qlist_def)
      then have "qrep M' p (qs t) d" by (rule qrep_frame) (use n' q ranI [of "queue_map L", OF m] in auto)
      then show ?thesis by (auto simp: qlist_def)
    qed
    show "\<exists>nd k. m_nodes M' a = Some nd \<and> n_ttl_queue nd = t \<and> n_element nd = Some k \<and> node_map L k = Some a"
      if "a \<in> set (qs t)" for t a using core_node [OF core that] n' [OF that] by simp
    show "\<exists>nd. m_nodes M' a = Some nd \<and> n_element nd = Some k \<and> a \<in> set (qs (n_ttl_queue nd))"
      if m: "node_map L k = Some a" for k a
    proof -
      obtain nd where nd: "m_nodes M a = Some nd" "n_element nd = Some k" "a \<in> set (qs (n_ttl_queue nd))" using core_key [OF core m] by blast
      then show ?thesis using n' [OF nd(3)] by simp
    qed
    have mp: "map (exp_of M') (qs t) = map (exp_of M) (qs t)" for t using e by simp
    show "sorted (map (exp_of M') (qs t))" for t unfolding mp by (rule core_sorted [OF core])
    show "exp_of M' a \<le> c + unat t" if "a \<in> set (qs t)" for t a using core_late [OF core that] e [OF that] by simp
  qed (use core_maps [OF core] core_no_queue [OF core] core_inj [OF core] in blast)+
qed

lemma queue_in_memory: "lawn_core L M c qs \<Longrightarrow> p \<in> ran (queue_map L) \<Longrightarrow> m_queues M p \<noteq> None"
proof -
  assume core: "lawn_core L M c qs" and "p \<in> ran (queue_map L)"
  then obtain t where "queue_map L t = Some p" by (auto simp: ran_def)
  then have "qlist M p (qs t)" by (rule core_queue [OF core])
  then show ?thesis by (auto simp: qlist_def qrep_def)
qed

lemma node_in_memory: "lawn_core L M c qs \<Longrightarrow> a \<in> in_queues qs \<Longrightarrow> m_nodes M a \<noteq> None"
  using core_node by (fastforce simp: in_queues_def)

definition queue_allocs :: "allocs \<Rightarrow> mem \<Rightarrow> bool" where
  "queue_allocs al M \<longleftrightarrow> (\<exists>q. a_queue al = Some q \<and> m_queues M q = None) \<and> a_queue_grow al \<and> a_queue_entry al"

text \<open>Finding or making the queue of a TTL.\<close>

definition queue_step :: "allocs \<Rightarrow> lawn \<Rightarrow> mem \<Rightarrow> u64 \<Rightarrow> addr option \<Rightarrow> (err \<times> addr \<times> lawn \<times> mem) option" where
  "queue_step al L M ttl found = (case found of
     Some q \<Rightarrow> Some (OK, q, L, M)
   | None \<Rightarrow> do {
       (q, M) \<leftarrow> newQueue M (a_queue al);
       (err, m) \<leftarrow> hashmap_add (l_timeout_queues L) ttl q (a_queue_grow al) (a_queue_entry al);
       Some (err, q, L\<lparr>l_timeout_queues := m\<rparr>, M)
     })"

lemma add_queue_map:
  assumes "maps_ok L" "queue_map L ttl = None"
  shows "\<exists>e m. hashmap_add (l_timeout_queues L) ttl q g ent = Some (e, m) \<and> maps_ok (L\<lparr>l_timeout_queues := m\<rparr>) \<and>
    e = (if ent \<and> (hashmap_needs_to_grow (l_timeout_queues L) \<longrightarrow> g) then OK else ENOMEM) \<and>
    hm_map m = (if e = OK then (queue_map L)(ttl \<mapsto> q) else queue_map L)"
proof -
  have h: "hm_ok (l_timeout_queues L)" "tq.uses (l_timeout_queues L)" using assms(1) by (simp_all add: maps_ok_def)
  obtain e ok' ov m where i: "hashmap_insert (l_timeout_queues L) ttl q HASHMAP_ADD g ent = Some (e, ok', ov, m)"
      "hm_ok m" "tq.uses m" "e = (if ent \<and> (hashmap_needs_to_grow (l_timeout_queues L) \<longrightarrow> g) then OK else ENOMEM)"
      "\<forall>k. hm_map m k = (if e = OK \<and> ttl_equal_fn ttl k then Some q else queue_map L k)"
    using tq.insert_law [OF h, of HASHMAP_ADD ttl q g ent] assms(2) by auto
  have "hm_map m = (if e = OK then (queue_map L)(ttl \<mapsto> q) else queue_map L)"
    using i(5) by (auto simp: ttl_equal fun_eq_iff)
  then show ?thesis using i assms(1) by (intro exI [of _ e] exI [of _ m]) (auto simp: hashmap_add_def maps_ok_def)
qed

lemma core_new_queue:
  assumes core: "lawn_core L M c qs" and none: "queue_map L ttl = None" and q: "m_queues M q = None"
    and m: "maps_ok (L\<lparr>l_timeout_queues := m\<rparr>)" "hm_map m = (queue_map L)(ttl \<mapsto> q)"
  shows "lawn_core (L\<lparr>l_timeout_queues := m\<rparr>) (M\<lparr>m_queues := (m_queues M)(q \<mapsto> \<lparr>q_head = None, q_tail = None, q_len = 0\<rparr>)\<rparr>) c qs"
proof -
  let ?M = "M\<lparr>m_queues := (m_queues M)(q \<mapsto> \<lparr>q_head = None, q_tail = None, q_len = 0\<rparr>)\<rparr>"
  have nr: "q \<notin> ran (queue_map L)" using queue_in_memory [OF core] q by blast
  have core': "lawn_core L ?M c qs" by (rule core_frame [OF core]) (use nr in auto)
  have e: "qs ttl = []" by (rule core_no_queue [OF core none])
  show ?thesis
  proof (rule coreI)
    show "qlist ?M p (qs t)" if "queue_map (L\<lparr>l_timeout_queues := m\<rparr>) t = Some p" for t p
    proof (cases "t = ttl")
      case True
      then have "qrep ?M p (qs t) 0" using that m(2) e by (simp add: qrep_def)
      then show ?thesis unfolding qlist_def by blast
    next
      case False
      then show ?thesis using that m(2) core_queue [OF core', of t p] by simp
    qed
    show "qs t = []" if "queue_map (L\<lparr>l_timeout_queues := m\<rparr>) t = None" for t
      using that m(2) core_no_queue [OF core, of t] by (cases "t = ttl") simp_all
    show "t = t'" if "queue_map (L\<lparr>l_timeout_queues := m\<rparr>) t = Some p" "queue_map (L\<lparr>l_timeout_queues := m\<rparr>) t' = Some p" for t t' p
      using that m(2) core_inj [OF core, of t p t'] nr by (auto simp: ran_def split: if_splits)
    show "\<exists>nd k. m_nodes ?M a = Some nd \<and> n_ttl_queue nd = t \<and> n_element nd = Some k \<and> node_map (L\<lparr>l_timeout_queues := m\<rparr>) k = Some a"
      if "a \<in> set (qs t)" for t a using core_node [OF core' that] by simp
    show "\<exists>nd. m_nodes ?M a = Some nd \<and> n_element nd = Some k \<and> a \<in> set (qs (n_ttl_queue nd))"
      if "node_map (L\<lparr>l_timeout_queues := m\<rparr>) k = Some a" for k a using core_key [OF core', of k a] that by simp
    show "sorted (map (exp_of ?M) (qs t))" for t by (rule core_sorted [OF core'])
    show "exp_of ?M a \<le> c + unat t" if "a \<in> set (qs t)" for t a by (rule core_late [OF core' that])
  qed (rule m(1))
qed

lemma queue_step_spec:
  assumes core: "lawn_core L M c qs" and al: "queue_map L ttl = None \<Longrightarrow> queue_allocs al M"
  shows "\<exists>q L' M'. queue_step al L M ttl (queue_map L ttl) = Some (OK, q, L', M') \<and> lawn_core L' M' c qs \<and>
    queue_map L' = (queue_map L)(ttl \<mapsto> q) \<and> l_element_nodes L' = l_element_nodes L \<and>
    l_next_expiration L' = l_next_expiration L \<and> m_nodes M' = m_nodes M"
proof (cases "queue_map L ttl")
  case (Some q)
  then have "(queue_map L)(ttl \<mapsto> q) = queue_map L" by auto
  then show ?thesis using core Some by (simp add: queue_step_def)
next
  case None
  obtain q where q: "a_queue al = Some q" "m_queues M q = None" "a_queue_grow al" "a_queue_entry al"
    using al [OF None] by (auto simp: queue_allocs_def)
  obtain m where m: "hashmap_add (l_timeout_queues L) ttl q True True = Some (OK, m)" "maps_ok (L\<lparr>l_timeout_queues := m\<rparr>)"
      "hm_map m = (queue_map L)(ttl \<mapsto> q)"
    using add_queue_map [OF core_maps [OF core] None, of q True True] by auto
  show ?thesis using core_new_queue [OF core None q(2) m(2,3)] q m None by (simp add: queue_step_def newQueue_def)
qed

lemma set_eq:
  "set_element_ttl al now L M element len ttl = do {
     (new_node, M) \<leftarrow> NewNode M al now element len ttl;
     found \<leftarrow> findQueueInMapping L ttl;
     (err, new_queue, L, M) \<leftarrow> queue_step al L M ttl found;
     (if err \<noteq> OK then Some (LAWN_ERR, L, M)
      else do {
        M \<leftarrow> queuePush M new_queue new_node;
        (r, L) \<leftarrow> addNodeToMapping L M al new_node;
        Some (r, L, M)
      })
   }"
  unfolding set_element_ttl_def queue_step_def by (rule refl)

lemma set_node_map:
  assumes "maps_ok L"
  shows "\<exists>e ok' ov m. hashmap_set (l_element_nodes L) k a g ent = Some (e, ok', ov, m) \<and> maps_ok (L\<lparr>l_element_nodes := m\<rparr>) \<and>
    e = (if node_map L k \<noteq> None \<or> ent \<and> (hashmap_needs_to_grow (l_element_nodes L) \<longrightarrow> g) then OK else ENOMEM) \<and>
    hm_map m = (if e = OK then (node_map L)(k \<mapsto> a) else node_map L)"
proof -
  have h: "hm_ok (l_element_nodes L)" "en.uses (l_element_nodes L)" using assms(1) by (simp_all add: maps_ok_def)
  obtain e ok' ov m where i: "hashmap_insert (l_element_nodes L) k a HASHMAP_SET g ent = Some (e, ok', ov, m)"
      "hm_ok m" "en.uses m" "e = (if node_map L k \<noteq> None \<or> ent \<and> (hashmap_needs_to_grow (l_element_nodes L) \<longrightarrow> g) then OK else ENOMEM)"
      "\<forall>k'. hm_map m k' = (if e = OK \<and> elem_equal_fn k k' then Some a else node_map L k')"
    using en.insert_law [OF h, of HASHMAP_SET k a g ent] by auto (metis+)?
  have "hm_map m = (if e = OK then (node_map L)(k \<mapsto> a) else node_map L)"
    using i(5) by (auto simp: elem_equal fun_eq_iff)
  then show ?thesis using i assms(1)
    by (intro exI [of _ e] exI [of _ ok'] exI [of _ ov] exI [of _ m]) (auto simp: hashmap_set_def maps_ok_def)
qed

definition node_allocs :: "allocs \<Rightarrow> mem \<Rightarrow> addr \<Rightarrow> bool" where
  "node_allocs al M a \<longleftrightarrow> a_node al = Some a \<and> m_nodes M a = None \<and> a_strndup al"

text \<open>
  The common part of every outcome of set_element_ttl: the node is made, a queue is found or made and
  the node is pushed; the ghost list of the queue is xs.
\<close>

lemma new_node_core:
  assumes core: "lawn_core L M c qs" and al: "node_allocs al M a"
  shows "\<exists>M1 nd. NewNode M al now element len ttl = Some (a, M1) \<and> lawn_core L M1 c qs \<and> m_queues M1 = m_queues M \<and>
    m_nodes M1 = (m_nodes M)(a \<mapsto> nd) \<and> a \<notin> in_queues qs \<and> n_element nd = Some (take len element) \<and>
    n_ttl_queue nd = ttl \<and> n_expiration nd = now + ttl \<and> n_next nd = None \<and> n_prev nd = None"
proof -
  let ?nd = "\<lparr>n_element = Some (take len element), n_element_len = len, n_ttl_queue = ttl, n_expiration = now + ttl,
    n_next = None, n_prev = None\<rparr>"
  let ?M = "M\<lparr>m_nodes := (m_nodes M)(a \<mapsto> ?nd)\<rparr>"
  have a: "a \<notin> in_queues qs" using node_in_memory [OF core, of a] al by (auto simp: node_allocs_def)
  have "lawn_core L ?M c qs" by (rule core_frame [OF core]) (use a in auto)
  moreover have "NewNode M al now element len ttl = Some (a, ?M)" using al by (simp add: NewNode_def node_allocs_def strndup_def)
  ultimately show ?thesis using a by (intro exI [of _ ?M] exI [of _ ?nd]) simp
qed

lemma set_spec:
  assumes core: "lawn_core L M c qs" and c: "c \<le> unat now" and fits: "unat now + unat ttl < 2 ^ 64"
    and al: "node_allocs al M a" "queue_map L ttl = None \<Longrightarrow> queue_allocs al M" "a_node_grow al" "a_node_entry al"
    and fresh: "node_map L (take len element) = None"
  shows "\<exists>L' M' q. set_element_ttl al now L M element len ttl = Some (LAWN_OK, L', M') \<and>
    lawn_core L' M' (unat now) (qs(ttl := qs ttl @ [a])) \<and> node_map L' = (node_map L)(take len element \<mapsto> a) \<and>
    queue_map L' = (queue_map L)(ttl \<mapsto> q) \<and> exp_of M' = (exp_of M)(a := unat now + unat ttl) \<and>
    l_next_expiration L' = (if now + ttl < l_next_expiration L then now + ttl else l_next_expiration L)"
proof -
  let ?k = "take len element"
  have ex: "unat (now + ttl) = unat now + unat ttl" using fits by (intro unat_add_small) simp
  obtain M1 nd where M1: "NewNode M al now element len ttl = Some (a, M1)" "lawn_core L M1 c qs" "m_queues M1 = m_queues M"
      "m_nodes M1 = (m_nodes M)(a \<mapsto> nd)" "a \<notin> in_queues qs" "n_element nd = Some ?k" "n_ttl_queue nd = ttl"
      "n_expiration nd = now + ttl" "n_next nd = None" "n_prev nd = None"
    using new_node_core [OF core al(1)] by blast
  have qa: "queue_map L ttl = None \<Longrightarrow> queue_allocs al M1" using al(2) M1(3) by (simp add: queue_allocs_def)
  obtain q L2 M2 where q2: "queue_step al L M1 ttl (queue_map L ttl) = Some (OK, q, L2, M2)" "lawn_core L2 M2 c qs"
      "queue_map L2 = (queue_map L)(ttl \<mapsto> q)" "l_element_nodes L2 = l_element_nodes L"
      "l_next_expiration L2 = l_next_expiration L" "m_nodes M2 = m_nodes M1"
    using queue_step_spec [OF M1(2) qa] by blast
  have n2: "m_nodes M2 a = Some nd" using q2(6) M1(4) by simp
  have qt: "queue_map L2 ttl = Some q" using q2(3) by simp
  obtain d where qr: "qrep M2 q (qs ttl) d" using core_queue [OF q2(2) qt] by (auto simp: qlist_def)
  have nin: "a \<notin> set (qs ttl)" using M1(5) by (auto simp: in_queues_def)
  obtain M3 where M3: "queuePush M2 q a = Some M3" "qrep M3 q (qs ttl @ [a]) d" "relinked M2 M3 q (set (qs ttl @ [a]))"
    using push_spec [OF qr n2 M1(9,10) nin] by blast
  have pl: "payload M3 = payload M2" using M3(3) by (simp add: relinked_def)
  obtain nd3 where nd3: "m_nodes M3 a = Some nd3" "n_element nd3 = Some ?k" "n_expiration nd3 = now + ttl"
    using payload_node [OF pl n2] M1(6,8) by auto
  note mo = core_maps [OF q2(2)]
  obtain ok' ov m where m: "hashmap_set (l_element_nodes L2) ?k a True True = Some (OK, ok', ov, m)"
      "maps_ok (L2\<lparr>l_element_nodes := m\<rparr>)" "hm_map m = (node_map L2)(?k \<mapsto> a)"
    using set_node_map [OF mo, of ?k a True True] by auto
  let ?L3 = "L2\<lparr>l_element_nodes := m\<rparr>"
  let ?L' = "if now + ttl < l_next_expiration ?L3 then ?L3\<lparr>l_next_expiration := now + ttl\<rparr> else ?L3"
  have "addNodeToMapping L2 M3 al a = Some (LAWN_OK, ?L')"
    using nd3 m(1) al(3,4) by (simp add: addNodeToMapping_def)
  then have run: "set_element_ttl al now L M element len ttl = Some (LAWN_OK, ?L', M3)"
    unfolding set_eq using M1(1) find_queue [OF core_maps [OF core]] q2(1) M3(1) by simp
  have e2: "exp_of M2 a = unat now + unat ttl" using n2 M1(8) ex by (simp add: exp_of_def)
  have core3: "lawn_core ?L3 M3 (unat now) (qs(ttl := qs ttl @ [a]))"
  proof (rule core_grow [OF q2(2) qt c n2 M1(7,6,5) e2])
    show "qlist M3 q (qs ttl @ [a])" using M3(2) by (auto simp: qlist_def)
  qed (use m(2,3) M3(3) fresh q2(4) in simp_all)
  have "exp_of M3 = (exp_of M)(a := unat now + unat ttl)"
    unfolding exp_payload [OF pl] using e2 q2(6) M1(4) by (auto simp: exp_of_def fun_eq_iff)
  then show ?thesis using run core3 q2(3,4,5) m(3) by (intro exI [of _ ?L'] exI [of _ M3] exI [of _ q]) simp
qed

text \<open>next_expiration stays exact when a node is added or removed.\<close>

lemma next_add:
  assumes ok: "next_ok L M qs" and a: "a \<notin> in_queues qs" and e: "exp_of M' = (exp_of M)(a := unat x)"
    and n: "l_next_expiration L' = (if x < l_next_expiration L then x else l_next_expiration L)"
  shows "next_ok L' M' (qs(t := qs t @ [a]))"
proof (cases "l_next_expiration L' = 0")
  case False
  have L0: "l_next_expiration L \<noteq> 0"
  proof
    assume z: "l_next_expiration L = 0"
    then have "\<not> x < l_next_expiration L" by simp
    then show False using n z False by simp
  qed
  have iq: "in_queues (qs(t := qs t @ [a])) = insert a (in_queues qs)" by (auto simp: in_queues_def split: if_splits)
  have ob: "exp_of M' b = exp_of M b" if "b \<in> in_queues qs" for b using that a e by auto
  have m: "\<exists>b \<in> in_queues qs. exp_of M b = unat (l_next_expiration L)" "\<And>b. b \<in> in_queues qs \<Longrightarrow> unat (l_next_expiration L) \<le> exp_of M b"
    using ok L0 by (auto simp: next_ok_def)
  show ?thesis
  proof (cases "x < l_next_expiration L")
    case True
    then have lt: "unat x < unat (l_next_expiration L)" by (simp add: word_less_nat_alt)
    have "unat x \<le> exp_of M' b" if "b \<in> insert a (in_queues qs)" for b
      using that m(2) [of b] ob [of b] lt e by (cases "b = a") auto
    then show ?thesis using True n e by (auto simp: next_ok_def iq)
  next
    case F: False
    then have le: "unat (l_next_expiration L) \<le> unat x" by (simp add: word_less_nat_alt)
    have "unat (l_next_expiration L) \<le> exp_of M' b" if "b \<in> insert a (in_queues qs)" for b
      using that m(2) [of b] ob [of b] le e by (cases "b = a") auto
    moreover have "\<exists>b \<in> insert a (in_queues qs). exp_of M' b = unat (l_next_expiration L)" using m(1) ob by auto
    ultimately show ?thesis using F n by (auto simp: next_ok_def iq)
  qed
qed (simp add: next_ok_def)

lemma next_remove:
  assumes ok: "next_ok L M qs" and core: "lawn_core L M c qs" and a: "a \<in> set (qs t)" and e: "exp_of M' = exp_of M"
    and n: "l_next_expiration L' = (if exp_of M a \<le> unat (l_next_expiration L) then 0 else l_next_expiration L)"
  shows "next_ok L' M' (qs(t := remove1 a (qs t)))"
proof (cases "l_next_expiration L' = 0")
  case False
  have L0: "l_next_expiration L \<noteq> 0" "unat (l_next_expiration L) < exp_of M a" "l_next_expiration L' = l_next_expiration L"
    using n False by (auto split: if_splits)
  have sub: "in_queues (qs(t := remove1 a (qs t))) \<subseteq> in_queues qs"
    using set_remove1_subset [of a "qs t"] by (fastforce simp: in_queues_def split: if_splits)
  obtain b where b: "b \<in> in_queues qs" "exp_of M b = unat (l_next_expiration L)" using ok L0(1) by (auto simp: next_ok_def)
  then have "b \<noteq> a" using L0(2) by auto
  then have "b \<in> in_queues (qs(t := remove1 a (qs t)))" using b(1) by (auto simp: in_queues_def split: if_splits)
  moreover have "unat (l_next_expiration L) \<le> exp_of M x" if "x \<in> in_queues qs" for x using ok L0(1) that by (auto simp: next_ok_def)
  ultimately show ?thesis using L0(3) b(2) sub e by (auto simp: next_ok_def)
qed (simp add: next_ok_def)

section \<open>The operations on the abstract map\<close>

lemma inv_set:
  assumes inv: "lawn_inv L M c" and c: "c \<le> unat now" and fits: "unat now + unat ttl < 2 ^ 64"
    and al: "node_allocs al M a" "queue_map L ttl = None \<Longrightarrow> queue_allocs al M" "a_node_grow al" "a_node_entry al"
    and fresh: "node_map L (take len element) = None"
  shows "\<exists>L' M'. set_element_ttl al now L M element len ttl = Some (LAWN_OK, L', M') \<and> lawn_inv L' M' (unat now) \<and>
    live_at L' M' = (live_at L M)(take len element \<mapsto> unat now + unat ttl) \<and>
    dom (queue_map L') = insert ttl (dom (queue_map L))"
proof -
  obtain qs where core: "lawn_core L M c qs" and nx: "next_ok L M qs" using inv by (auto simp: lawn_inv_def)
  obtain L' M' q where s: "set_element_ttl al now L M element len ttl = Some (LAWN_OK, L', M')"
      "lawn_core L' M' (unat now) (qs(ttl := qs ttl @ [a]))" "node_map L' = (node_map L)(take len element \<mapsto> a)"
      "queue_map L' = (queue_map L)(ttl \<mapsto> q)" "exp_of M' = (exp_of M)(a := unat now + unat ttl)"
      "l_next_expiration L' = (if now + ttl < l_next_expiration L then now + ttl else l_next_expiration L)"
    using set_spec [OF core c fits al fresh] by blast
  have ex: "unat (now + ttl) = unat now + unat ttl" using fits by (intro unat_add_small) simp
  have nin: "a \<notin> in_queues qs" using node_in_memory [OF core, of a] al(1) by (auto simp: node_allocs_def)
  have "next_ok L' M' (qs(ttl := qs ttl @ [a]))"
    by (rule next_add [OF nx nin, of M' "now + ttl"]) (simp_all add: s(5,6) ex)
  then have "lawn_inv L' M' (unat now)" using s(2) by (auto simp: lawn_inv_def)
  moreover have "live_at L' M' k = ((live_at L M)(take len element \<mapsto> unat now + unat ttl)) k" for k
  proof (cases "k = take len element")
    case False
    have "node_map L k \<noteq> Some a"
    proof
      assume k: "node_map L k = Some a"
      from core_key [OF core k] have "a \<in> in_queues qs" by (auto simp: in_queues_def)
      then show False using nin by simp
    qed
    then show ?thesis using False s(3,5) by (cases "node_map L k") (simp_all add: live_at_def)
  qed (simp add: live_at_def s(3,5))
  ultimately show ?thesis using s(1,4) by auto
qed

lemma free_core:
  assumes core: "lawn_core L M c qs" and a: "a \<notin> in_queues qs" "m_nodes M a = Some nd"
  shows "\<exists>M'. freeNode M a = Some M' \<and> lawn_core L M' c qs \<and> (\<forall>b. b \<noteq> a \<longrightarrow> exp_of M' b = exp_of M b) \<and>
    m_nodes M' = (m_nodes M)(a := None) \<and> m_queues M' = m_queues M"
proof -
  let ?M = "M\<lparr>m_nodes := (m_nodes M)(a := None)\<rparr>"
  have "lawn_core L ?M c qs" by (rule core_frame [OF core]) (use a in auto)
  then show ?thesis using a by (intro exI [of _ ?M]) (simp add: freeNode_def exp_of_def)
qed

lemma inv_remove:
  assumes inv: "lawn_inv L M c" and k: "node_map L k = Some a" and stk: "queue_map L stk = None"
  shows "\<exists>L' M' nd. removeNode stk L M a = Some (L', M') \<and> lawn_inv L' M' c \<and> live_at L' M' = (live_at L M)(k := None) \<and>
    l_timeout_queues L' = l_timeout_queues L \<and> payload M' = payload M \<and> m_nodes M' a = Some nd \<and>
    (\<forall>qs. lawn_core L' M' c qs \<longrightarrow> a \<notin> in_queues qs)"
proof -
  obtain qs where core: "lawn_core L M c qs" and nx: "next_ok L M qs" using inv by (auto simp: lawn_inv_def)
  obtain L' M' t where r: "removeNode stk L M a = Some (L', M')" "a \<in> set (qs t)"
      "lawn_core L' M' c (qs(t := remove1 a (qs t)))" "node_map L' = (node_map L)(k := None)"
      "l_timeout_queues L' = l_timeout_queues L" "payload M' = payload M"
      "l_next_expiration L' = (if exp_of M a \<le> unat (l_next_expiration L) then 0 else l_next_expiration L)"
    using remove_spec [OF core k stk] by blast
  have e: "exp_of M' = exp_of M" by (rule exp_payload [OF r(6)])
  have "next_ok L' M' (qs(t := remove1 a (qs t)))" by (rule next_remove [OF nx core r(2) e r(7)])
  then have "lawn_inv L' M' c" using r(3) by (auto simp: lawn_inv_def)
  moreover have "live_at L' M' = (live_at L M)(k := None)" by (auto simp: live_at_def r(4) e)
  moreover obtain nd0 where "m_nodes M a = Some nd0" using core_key [OF core k] by blast
  then obtain nd where nd: "m_nodes M' a = Some nd" "n_element nd = Some k" using payload_node [OF r(6)] core_key [OF core k] by fastforce
  have "a \<notin> in_queues qs'" if c': "lawn_core L' M' c qs'" for qs'
  proof
    assume "a \<in> in_queues qs'"
    then obtain t' where "a \<in> set (qs' t')" by (auto simp: in_queues_def)
    then have "node_map L' k = Some a" using core_node [OF c'] nd by fastforce
    then show False using r(4) by simp
  qed
  ultimately show ?thesis using r(1,5,6) nd(1) by blast
qed

lemma inv_del:
  assumes inv: "lawn_inv L M c" and stk: "queue_map L stk = None"
  shows "\<exists>L' M'. del_element_exp stk L M k = Some (LAWN_OK, L', M') \<and> lawn_inv L' M' c \<and>
    live_at L' M' = (live_at L M)(k := None) \<and> queue_map L' = queue_map L \<and>
    (\<forall>a. node_map L k = Some a \<longrightarrow> m_nodes M' a = None)"
proof -
  obtain qs where core: "lawn_core L M c qs" and nx: "next_ok L M qs" using inv by (auto simp: lawn_inv_def)
  note f = find_node [OF core_maps [OF core], of k]
  show ?thesis
  proof (cases "node_map L k")
    case None
    then have "(live_at L M)(k := None) = live_at L M" by (auto simp: live_at_def)
    then show ?thesis using None f inv by (simp add: del_element_exp_def)
  next
    case (Some a)
    obtain L1 M1 nd where r: "removeNode stk L M a = Some (L1, M1)" "lawn_inv L1 M1 c" "live_at L1 M1 = (live_at L M)(k := None)"
        "l_timeout_queues L1 = l_timeout_queues L" "m_nodes M1 a = Some nd" "\<forall>qs. lawn_core L1 M1 c qs \<longrightarrow> a \<notin> in_queues qs"
      using inv_remove [OF inv Some stk] by blast
    obtain qs1 where core1: "lawn_core L1 M1 c qs1" and nx1: "next_ok L1 M1 qs1" using r(2) by (auto simp: lawn_inv_def)
    have a: "a \<notin> in_queues qs1" using r(6) core1 by blast
    obtain M2 where M2: "freeNode M1 a = Some M2" "lawn_core L1 M2 c qs1" "\<forall>b. b \<noteq> a \<longrightarrow> exp_of M2 b = exp_of M1 b"
        "m_nodes M2 = (m_nodes M1)(a := None)"
      using free_core [OF core1 a r(5)] by blast
    have ob: "exp_of M2 b = exp_of M1 b" if b: "b \<in> in_queues qs1" for b
    proof -
      have "b \<noteq> a" using b a by auto
      then show ?thesis using M2(3) by blast
    qed
    have "next_ok L1 M2 qs1" using nx1 ob by (auto simp: next_ok_def)
    then have "lawn_inv L1 M2 c" using M2(2) by (auto simp: lawn_inv_def)
    moreover have "live_at L1 M2 j = live_at L1 M1 j" for j
    proof (cases "node_map L1 j")
      case (Some b)
      then have "b \<in> in_queues qs1" using core_key [OF core1] by (fastforce simp: in_queues_def)
      then show ?thesis using Some ob by (simp add: live_at_def)
    qed (simp add: live_at_def)
    then have "live_at L1 M2 = (live_at L M)(k := None)" using r(3) by auto
    ultimately show ?thesis using f Some r(1,4) M2(1,4) by (simp add: del_element_exp_def)
  qed
qed

lemma inv_get:
  assumes inv: "lawn_inv L M c"
  shows "get_element_exp L M k = Some (case live_at L M k of Some e \<Rightarrow> of_nat e | None \<Rightarrow> - 1)"
proof -
  obtain qs where core: "lawn_core L M c qs" using inv by (auto simp: lawn_inv_def)
  show ?thesis
  proof (cases "node_map L k")
    case (Some a)
    then obtain nd where "m_nodes M a = Some nd" using core_key [OF core] by blast
    then show ?thesis using Some find_node [OF core_maps [OF core]] by (simp add: get_element_exp_def live_at_def exp_of_def)
  qed (use find_node [OF core_maps [OF core]] in \<open>simp add: get_element_exp_def live_at_def\<close>)
qed

lemma inv_count:
  assumes inv: "lawn_inv L M c"
  shows "timer_count (Some L) = card (dom (live_at L M))" "finite (dom (live_at L M))"
proof -
  have m: "maps_ok L" using inv core_maps by (auto simp: lawn_inv_def)
  then have "hm_ok (l_element_nodes L)" "equal_fn (l_element_nodes L) = (=)"
    using en.usesD(2) elem_equal by (auto simp: maps_ok_def)
  from hm_size_card [OF this] show "timer_count (Some L) = card (dom (live_at L M))" "finite (dom (live_at L M))"
    by (simp_all add: timer_count_def hashmap_size_def live_dom)
qed

lemma inv_count_ttls:
  assumes inv: "lawn_inv L M c"
  shows "ttl_count (Some L) = card (dom (queue_map L))"
proof -
  have m: "maps_ok L" using inv core_maps by (auto simp: lawn_inv_def)
  then have "hm_ok (l_timeout_queues L)" "equal_fn (l_timeout_queues L) = (=)"
    using tq.usesD(2) ttl_equal by (auto simp: maps_ok_def)
  from hm_size_card [OF this] show ?thesis by (simp add: ttl_count_def hashmap_size_def)
qed

lemma inv_new: "newLawn True True True = Some L \<Longrightarrow> lawn_inv L M 0 \<and> live_at L M = Map.empty \<and> queue_map L = Map.empty"
proof -
  assume "newLawn True True True = Some L"
  then have L: "l_timeout_queues L = hashmap_init ttl_hash_fn ttl_equal_fn" "l_element_nodes L = hashmap_init elem_hash_fn elem_equal_fn"
      "l_next_expiration L = 0"
    by (auto simp: newLawn_def hashmap_new_def)
  have "maps_ok L" using L tq.init_law en.init_law by (simp add: maps_ok_def)
  moreover have "queue_map L = Map.empty" "node_map L = Map.empty" using L tq.init_law(3) en.init_law(3) by simp_all
  ultimately have "lawn_core L M 0 (\<lambda>_. [])" by (intro coreI) simp_all
  moreover have "next_ok L M (\<lambda>_. [])" using L(3) by (simp add: next_ok_def)
  ultimately show ?thesis using \<open>queue_map L = Map.empty\<close> \<open>node_map L = Map.empty\<close>
    by (auto simp: lawn_inv_def live_at_def)
qed

end
