(* ===== verification/Lawn_Expiry.thy ===== *)
theory Lawn_Expiry
  imports Lawn_Correct
begin

unbundle bit_operations_syntax

text \<open>
  Expiry of the Lawn store: pop_expired moves the due prefix of every queue to the queue it returns,
  and the scans of _get_next_node, next_at and pop_next find the least expiration of the queue heads.
  The loops over the hash map are described by the set of the TTLs already visited.
\<close>

section \<open>The entries of the map of queues\<close>

lemma buckets_cap: "hm_ok m \<Longrightarrow> length (chain_list m) = hm_cap m"
  by (rule chains_cases [of m]) (auto simp: hm_ok_def)

lemma bucket_eq: "hm_ok m \<Longrightarrow> j < hm_cap m \<Longrightarrow> bucket m j = Some (chain_list m ! j)"
  by (rule chains_cases [of m]) (auto simp: hm_ok_def bucket_def)

lemma uniq_distinct: "uniq (=) (mset xs) \<Longrightarrow> distinct (map fst xs)"
proof (induction xs)
  case (Cons e xs)
  have "uniq (=) (mset xs)" by (rule uniq_subset [OF Cons.prems]) simp
  moreover have "fst e \<noteq> fst e'" if "e' \<in> set xs" for e'
  proof
    assume f: "fst e = fst e'"
    have m: "{#e, e'#} \<subseteq># mset (e # xs)" using that by simp
    have "uniq (=) {#e, e'#}" by (rule uniq_subset [OF Cons.prems m])
    then have "size {#x \<in># {#e, e'#}. fst x = fst e#} \<le> 1" unfolding uniq_def by blast
    then show False using f by simp
  qed
  ultimately show ?case using Cons.IH by auto
qed simp

lemma chain_distinct:
  assumes "hm_ok m" "equal_fn m = (=)" "j < hm_cap m"
  shows "distinct (map fst (chain_list m ! j))"
proof -
  have l: "j < length (chain_list m)" using assms by (simp add: buckets_cap)
  have "mset (chain_list m ! j) \<subseteq># entries_of m"
    using concat_update [OF l, of "[]"] unfolding entries_of_def by (metis mset_subset_eq_add_right add.right_neutral mset.simps(1))
  then have "uniq (=) (mset (chain_list m ! j))" using assms uniq_subset by (auto simp: hm_ok_def)
  then show ?thesis by (rule uniq_distinct)
qed

lemma hm_map_chains:
  assumes "hm_ok m" "equal_fn m = (=)"
  shows "hm_map m k = Some v \<longleftrightarrow> (\<exists>j < hm_cap m. (k, v) \<in> set (chain_list m ! j))"
proof -
  have "hm_map m k = Some v \<longleftrightarrow> (k, v) \<in> set (concat (chain_list m))"
    using hm_map_mem [OF assms] by (simp add: entries_of_def)
  also have "\<dots> \<longleftrightarrow> (\<exists>j < hm_cap m. (k, v) \<in> set (chain_list m ! j))"
    unfolding buckets_cap [OF assms(1), symmetric] set_concat by (auto simp: set_conv_nth [of "chain_list m"])
  finally show ?thesis .
qed

lemma entries_after_split: "k \<notin> fst ` set pre \<Longrightarrow> fst e = k \<Longrightarrow> entries_after (pre @ e # es) k = Some es"
  by (induction pre) auto

lemma queues_ok: "maps_ok L \<Longrightarrow> hm_ok (l_timeout_queues L) \<and> equal_fn (l_timeout_queues L) = (=)"
  using tq.usesD(2) ttl_equal by (auto simp: maps_ok_def)

section \<open>Handing a popped node over\<close>

text \<open>
  While pop_expired runs: the store with ghost queues qs, and the returned queue at r that holds the
  nodes out, which are in no queue of the store.
\<close>

definition collecting :: "lawn \<Rightarrow> mem \<Rightarrow> nat \<Rightarrow> (u64 \<Rightarrow> addr list) \<Rightarrow> addr \<Rightarrow> addr list \<Rightarrow> bool" where
  "collecting L M c qs r out \<longleftrightarrow> lawn_core L M c qs \<and> qrep M r out 0 \<and> r \<notin> ran (queue_map L) \<and>
     set out \<inter> in_queues qs = {}"

lemma hand_over_spec:
  assumes mo: "maps_ok L" and out: "qrep M r out 0" and a: "m_nodes M a = Some nd" "n_element nd = Some k" "a \<notin> set out"
  shows "\<exists>m M'. hand_over L M r a = Some (L\<lparr>l_element_nodes := m\<rparr>, M') \<and> maps_ok (L\<lparr>l_element_nodes := m\<rparr>) \<and>
    hm_map m = (node_map L)(k := None) \<and> qrep M' r (out @ [a]) 0 \<and> relinked M M' r (set (out @ [a]))"
proof -
  obtain m where m: "removeNodeFromMapping L nd = Some (L\<lparr>l_element_nodes := m\<rparr>)" "maps_ok (L\<lparr>l_element_nodes := m\<rparr>)"
      "hm_map m = (node_map L)(k := None)"
    using remove_node_mapping [OF mo a(2)] by blast
  let ?M1 = "relink M a (\<lambda>nd. nd\<lparr>n_prev := None, n_next := None\<rparr>)"
  have pl1: "payload ?M1 = payload M" by (auto simp: payload_def relink_node fun_eq_iff map_option.compositionality comp_def)
  have out1: "qrep ?M1 r out 0" by (rule qrep_frame [OF out]) (use a(3) in \<open>auto simp: relink_node\<close>)
  have mr: "m_queues M r = Some \<lparr>q_head = first out, q_tail = final out, q_len = length out\<rparr>" using out by (simp add: qrep_def)
  have n1: "m_nodes ?M1 a = Some (nd\<lparr>n_prev := None, n_next := None\<rparr>)" using a(1) by (simp add: relink_node)
  have push: "\<exists>M'. hand_over L M r a = Some (L\<lparr>l_element_nodes := m\<rparr>, M') \<and> queuePush ?M1 r a = Some M'"
  proof (cases "final out")
    case None
    then have "out = []" by simp
    then show ?thesis using a(1) m(1) mr by (simp add: hand_over_def queuePush_def set_node_eq set_queue_eq [of _ r])
  next
    case (Some p)
    then have p: "p \<in> set out" "first out \<noteq> None" using final_Some_in by auto
    obtain pd where pd: "m_nodes M p = Some pd" using qrep_node [OF out p(1)] by blast
    have pa: "p \<noteq> a" using p a(3) by blast
    show ?thesis using a(1) m(1) mr pd pa p(2) Some n1
      by (simp add: hand_over_def queuePush_def set_node_eq [of _ a] set_node_eq [of _ p] set_queue_eq [of _ r] relink_node)
  qed
  then obtain M' where M': "hand_over L M r a = Some (L\<lparr>l_element_nodes := m\<rparr>, M')" "queuePush ?M1 r a = Some M'" by blast
  obtain M'' where M'': "queuePush ?M1 r a = Some M''" "qrep M'' r (out @ [a]) 0" "relinked ?M1 M'' r (set (out @ [a]))"
    using push_spec [OF out1 n1 _ _ a(3)] by auto
  have "relinked M M' r (set (out @ [a]))" using M''(1,3) M'(2) pl1 by (auto simp: relinked_def relink_node)
  then show ?thesis using M'(1) m(2,3) M''(1,2) M'(2) by (intro exI [of _ m] exI [of _ M']) auto
qed


section \<open>One queue\<close>

definition due_of :: "mem \<Rightarrow> nat \<Rightarrow> addr list \<Rightarrow> addr list" where
  "due_of M now xs = takeWhile (\<lambda>a. exp_of M a \<le> now) xs"

definition rest_of :: "mem \<Rightarrow> nat \<Rightarrow> addr list \<Rightarrow> addr list" where
  "rest_of M now xs = dropWhile (\<lambda>a. exp_of M a \<le> now) xs"

lemma due_rest: "due_of M now xs @ rest_of M now xs = xs"
  by (simp add: due_of_def rest_of_def)

lemma due_rest_payload:
  "payload M' = payload M \<Longrightarrow> due_of M' now = due_of M now \<and> rest_of M' now = rest_of M now"
proof -
  assume "payload M' = payload M"
  then have "exp_of M' = exp_of M" by (rule exp_payload)
  then show ?thesis unfolding due_of_def rest_of_def by simp
qed

text \<open>In a sorted queue the two parts are what is due and what is not.\<close>

lemma due_rest_sets:
  assumes "sorted (map (exp_of M) xs)"
  shows "set (due_of M now xs) = {a \<in> set xs. exp_of M a \<le> now}" "set (rest_of M now xs) = {a \<in> set xs. now < exp_of M a}"
proof -
  have *: "set (due_of M now xs) = {a \<in> set xs. exp_of M a \<le> now} \<and> set (rest_of M now xs) = {a \<in> set xs. now < exp_of M a}"
    using assms
  proof (induction xs)
    case (Cons b xs)
    have s: "sorted (map (exp_of M) xs)" and b: "\<forall>a \<in> set xs. exp_of M b \<le> exp_of M a" using Cons.prems by simp_all
    show ?case
    proof (cases "exp_of M b \<le> now")
      case True
      then show ?thesis using Cons.IH [OF s] by (auto simp: due_of_def rest_of_def)
    next
      case False
      then show ?thesis using b by (fastforce simp: due_of_def rest_of_def)
    qed
  qed (simp add: due_of_def rest_of_def)
  then show "set (due_of M now xs) = {a \<in> set xs. exp_of M a \<le> now}" "set (rest_of M now xs) = {a \<in> set xs. now < exp_of M a}"
    by blast+
qed

lemma remove_key:
  assumes core: "lawn_core L M c qs" and a: "m_nodes M a = Some nd" "n_element nd = Some k"
    and m: "hm_map m = (node_map L)(k := None)" and t: "a \<in> set (qs t)"
  shows "hm_map m k' = Some b \<longleftrightarrow> node_map L k' = Some b \<and> b \<noteq> a"
proof (cases "k' = k")
  case True
  obtain nd0 k0 where "m_nodes M a = Some nd0" "n_element nd0 = Some k0" "node_map L k0 = Some a" using core_node [OF core t] by blast
  then show ?thesis using True a m by auto
next
  case False
  have "node_map L k' \<noteq> Some a"
  proof
    assume x: "node_map L k' = Some a"
    show False using core_key [OF core x] a False by auto
  qed
  then show ?thesis using False m by auto
qed

lemma pop_step:
  assumes col: "collecting L M c qs r out" and t: "queue_map L t = Some q" "qs t = a # xs" and stk: "queue_map L stk = None"
  shows "\<exists>M1 L' M'. queuePop_at stk (Some L) M q = Some (Some a, Some L, M1) \<and> hand_over L M1 r a = Some (L', M') \<and>
    collecting L' M' c (qs(t := xs)) r (out @ [a]) \<and> l_timeout_queues L' = l_timeout_queues L \<and> payload M' = payload M"
proof -
  have core: "lawn_core L M c qs" and out: "qrep M r out 0" and r: "r \<notin> ran (queue_map L)" and dj: "set out \<inter> in_queues qs = {}"
    using col by (simp_all add: collecting_def)
  note mo = core_maps [OF core]
  have at: "a \<in> set (qs t)" using t(2) by simp
  have rq: "r \<noteq> q" using r t(1) by (auto simp: ran_def)
  obtain d where qr: "qrep M q (a # xs) d" using core_queue [OF core t(1)] t(2) by (auto simp: qlist_def)
  obtain M1 where M1: "queuePop_at stk (Some L) M q = Some (Some a, Some L, M1)" "qrep M1 q xs d" "relinked M M1 q (set (a # xs))"
    using pop_spec [OF qr maps_unmapped [OF mo stk]] by blast
  have pl1: "payload M1 = payload M" using M1(3) by (simp add: relinked_def)
  have nin: "a \<notin> set out" "set out \<inter> set (a # xs) = {}"
  proof -
    have "set (qs t) \<subseteq> in_queues qs" by (auto simp: in_queues_def)
    then show "a \<notin> set out" "set out \<inter> set (a # xs) = {}" using dj t(2) by auto
  qed
  have out1: "qrep M1 r out 0" by (rule qrep_other [OF out M1(3) rq nin(2)])
  obtain nd0 k where nd0: "m_nodes M a = Some nd0" "n_element nd0 = Some k" using core_node [OF core at] by blast
  obtain nd where nd: "m_nodes M1 a = Some nd" "n_element nd = Some k" using payload_node [OF pl1 nd0(1)] nd0(2) by auto
  obtain m M2 where M2: "hand_over L M1 r a = Some (L\<lparr>l_element_nodes := m\<rparr>, M2)" "maps_ok (L\<lparr>l_element_nodes := m\<rparr>)"
      "hm_map m = (node_map L)(k := None)" "qrep M2 r (out @ [a]) 0" "relinked M1 M2 r (set (out @ [a]))"
    using hand_over_spec [OF mo out1 nd nin(1)] by blast
  let ?L = "L\<lparr>l_element_nodes := m\<rparr>" and ?qs = "qs(t := xs)"
  have ds: "distinct (a # xs)" by (rule qrep_distinct [OF qr])
  have core1: "lawn_core ?L M1 c ?qs"
  proof (rule core_shrink [OF core t(1)])
    show "qlist M1 q xs" using M1(2) by (auto simp: qlist_def)
    show "sorted (map (exp_of M) xs)" using core_sorted [OF core, of t] t(2) by simp
    have s: "set (qs t) - set xs = {a}" using ds t(2) by auto
    show "node_map ?L k' = Some b \<longleftrightarrow> node_map L k' = Some b \<and> b \<notin> set (qs t) - set xs" for k' b
      unfolding s using remove_key [OF core nd0 M2(3) at] by simp
  qed (use M1(3) M2(2) t(2) in auto)
  have sub: "in_queues ?qs \<subseteq> in_queues qs"
    unfolding in_queues_def by (intro UN_mono subset_refl) (use t(2) in auto)
  have dj': "set (out @ [a]) \<inter> in_queues ?qs = {}"
  proof -
    have "a \<notin> in_queues ?qs"
    proof
      assume "a \<in> in_queues ?qs"
      then obtain t' where t': "a \<in> set (?qs t')" by (auto simp: in_queues_def)
      show False
      proof (cases "t' = t")
        case True
        then show False using t' ds by simp
      next
        case False
        then show False using t' core_disjoint [OF core at, of t'] by simp
      qed
    qed
    then show ?thesis using dj sub by auto
  qed
  have core2: "lawn_core ?L M2 c ?qs"
  proof (rule core_frame [OF core1])
    show "m_nodes M2 b = m_nodes M1 b" if b: "b \<in> in_queues ?qs" for b
    proof -
      have "b \<notin> set (out @ [a])" using b dj' by blast
      then show ?thesis using M2(5) by (simp add: relinked_def)
    qed
    show "m_queues M2 p = m_queues M1 p" if p: "p \<in> ran (queue_map ?L)" for p
    proof -
      have "p \<noteq> r" using p r by auto
      then show ?thesis using M2(5) by (simp add: relinked_def)
    qed
  qed
  have "collecting ?L M2 c ?qs r (out @ [a])" using core2 M2(4) r dj' by (simp add: collecting_def)
  moreover have "payload M2 = payload M" using M2(5) pl1 by (simp add: relinked_def)
  ultimately show ?thesis using M1(1) M2(1) by (intro exI [of _ M1] exI [of _ ?L] exI [of _ M2]) simp
qed

text \<open>The smaller of the next expiration found so far and the head of what is left of a queue.\<close>

definition next_head :: "mem \<Rightarrow> u64 \<Rightarrow> addr list \<Rightarrow> u64" where
  "next_head M next xs = (case xs of [] \<Rightarrow> next | b # _ \<Rightarrow>
     if next = 0 \<or> exp_of M b < unat next then of_nat (exp_of M b) else next)"

lemma next_head_payload: "payload M' = payload M \<Longrightarrow> next_head M' = next_head M"
proof -
  assume "payload M' = payload M"
  then have e: "exp_of M' = exp_of M" by (rule exp_payload)
  show ?thesis unfolding next_head_def e by (rule refl)
qed

lemma pop_queue_spec:
  assumes "collecting L M c qs r out" "queue_map L t = Some q" "queue_map L stk = None"
  shows "\<exists>L' M'. pop_queue stk now r q L M next = Some (L', M', next_head M next (rest_of M (unat now) (qs t))) \<and>
    collecting L' M' c (qs(t := rest_of M (unat now) (qs t))) r (out @ due_of M (unat now) (qs t)) \<and>
    l_timeout_queues L' = l_timeout_queues L \<and> payload M' = payload M"
  using assms
proof (induction "qs t" arbitrary: L M qs out)
  case Nil
  then obtain d where "qrep M q [] d" using core_queue [of L M c qs t q] by (auto simp: qlist_def collecting_def)
  then have run: "pop_queue stk now r q L M next = Some (L, M, next)"
    by (subst pop_queue.simps) (simp add: qrep_def)
  have "qs(t := []) = qs" using Nil.hyps by auto
  then show ?case using run Nil by (auto simp: rest_of_def due_of_def next_head_def)
next
  case (Cons a xs)
  have core: "lawn_core L M c qs" using Cons.prems(1) by (simp add: collecting_def)
  obtain d where qr: "qrep M q (a # xs) d" using core_queue [OF core Cons.prems(2)] Cons.hyps(2) by (auto simp: qlist_def)
  have mq: "m_queues M q = Some \<lparr>q_head = Some a, q_tail = final (a # xs), q_len = Suc (length xs + d)\<rparr>"
    using qr by (simp add: qrep_def)
  obtain nd where nd: "m_nodes M a = Some nd" using qrep_node [OF qr] by auto
  have ex: "exp_of M a = unat (n_expiration nd)" using nd by (simp add: exp_of_def)
  show ?case
  proof (cases "n_expiration nd \<le> now")
    case True
    then have le: "exp_of M a \<le> unat now" by (simp add: ex word_le_nat_alt)
    obtain M1 L2 M2 where s: "queuePop_at stk (Some L) M q = Some (Some a, Some L, M1)" "hand_over L M1 r a = Some (L2, M2)"
        "collecting L2 M2 c (qs(t := xs)) r (out @ [a])" "l_timeout_queues L2 = l_timeout_queues L" "payload M2 = payload M"
      using pop_step [OF Cons.prems(1,2) Cons.hyps(2) [symmetric] Cons.prems(3)] by blast
    have h: "xs = (qs(t := xs)) t" by simp
    obtain L3 M3 where IH: "pop_queue stk now r q L2 M2 next = Some (L3, M3, next_head M2 next (rest_of M2 (unat now) xs))"
        "collecting L3 M3 c (qs(t := rest_of M2 (unat now) xs)) r ((out @ [a]) @ due_of M2 (unat now) xs)"
        "l_timeout_queues L3 = l_timeout_queues L2" "payload M3 = payload M2"
      using Cons.hyps(1) [OF h s(3)] Cons.prems(2,3) s(4) by auto
    have run: "pop_queue stk now r q L M next = pop_queue stk now r q L2 M2 next"
      using mq nd True s(1,2) by (subst pop_queue.simps) simp
    show ?thesis unfolding run using IH s(4,5) Cons.hyps(2) [symmetric] le due_rest_payload [OF s(5)] next_head_payload [OF s(5)]
      by (simp add: rest_of_def due_of_def)
  next
    case False
    then have lt: "\<not> exp_of M a \<le> unat now" by (simp add: ex word_le_nat_alt)
    have run: "pop_queue stk now r q L M next = Some (L, M, next_head M next (a # xs))"
      using mq nd False by (subst pop_queue.simps) (simp add: next_head_def ex word_less_nat_alt)
    have q: "qs(t := a # xs) = qs" using Cons.hyps(2) by auto
    have "rest_of M (unat now) (qs t) = a # xs" "due_of M (unat now) (qs t) = []"
      unfolding Cons.hyps(2) [symmetric] using lt by (simp_all add: rest_of_def due_of_def)
    then show ?thesis using run Cons.prems(1) q by simp
  qed
qed


section \<open>All queues\<close>

text \<open>n is 0 for an empty set of times, and its minimum otherwise.\<close>

definition next_min :: "u64 \<Rightarrow> nat set \<Rightarrow> bool" where
  "next_min n S \<longleftrightarrow> (if S = {} then n = 0 else n \<noteq> 0 \<and> unat n \<in> S \<and> (\<forall>x \<in> S. unat n \<le> x))"

lemma next_min_head:
  assumes n: "next_min n S" and xs: "sorted (map (exp_of M) xs)" "\<And>a. a \<in> set xs \<Longrightarrow> 0 < exp_of M a"
  shows "next_min (next_head M n xs) (S \<union> exp_of M ` set xs)"
proof (cases xs)
  case Nil
  then show ?thesis using n by (simp add: next_head_def)
next
  case (Cons b ys)
  have lt: "exp_of M b < 2 ^ 64" by (simp add: exp_of_def split: option.splits)
  have u: "unat (of_nat (exp_of M b) :: u64) = exp_of M b" using lt by (simp add: unsigned_of_nat take_bit_nat_eq_self)
  have b: "0 < exp_of M b" "\<forall>a \<in> set xs. exp_of M b \<le> exp_of M a" using xs Cons by auto
  have nz: "(of_nat (exp_of M b) :: u64) \<noteq> 0" using u b(1) by (metis unat_0 less_irrefl)
  have mem: "exp_of M b \<in> exp_of M ` set xs" using Cons by simp
  have z: "n = 0 \<longleftrightarrow> S = {}" using n by (cases "S = {}") (simp_all add: next_min_def)
  show ?thesis
  proof (cases "n = 0 \<or> exp_of M b < unat n")
    case True
    then have h: "next_head M n xs = of_nat (exp_of M b)" using Cons by (simp add: next_head_def)
    have "exp_of M b \<le> x" if x: "x \<in> S" for x
    proof -
      have "n \<noteq> 0" using z x by auto
      then show ?thesis using True n x by (fastforce simp: next_min_def split: if_splits)
    qed
    then show ?thesis using h u nz mem b(2) by (auto simp: next_min_def)
  next
    case False
    then have h: "next_head M n xs = n" using Cons by (simp add: next_head_def)
    have S: "S \<noteq> {}" "n \<noteq> 0" "unat n \<in> S" "\<forall>x \<in> S. unat n \<le> x" using False n z by (auto simp: next_min_def)
    have "unat n \<le> x" if "x \<in> exp_of M ` set xs" for x using that b(2) False by fastforce
    then show ?thesis using h S by (auto simp: next_min_def)
  qed
qed

text \<open>The state of pop_expired after the queues of the TTLs P have been visited.\<close>

definition visited :: "lawn \<Rightarrow> mem \<Rightarrow> nat \<Rightarrow> (u64 \<Rightarrow> addr list) \<Rightarrow> addr \<Rightarrow> nat \<Rightarrow> u64 set \<Rightarrow> lawn \<Rightarrow> mem \<Rightarrow> u64 \<Rightarrow> bool" where
  "visited L0 M0 c qs r now P L M next \<longleftrightarrow>
     (\<exists>out. collecting L M c (\<lambda>t. if t \<in> P then rest_of M0 now (qs t) else qs t) r out \<and>
        set out = (\<Union>t \<in> P. set (due_of M0 now (qs t)))) \<and>
     l_timeout_queues L = l_timeout_queues L0 \<and> payload M = payload M0 \<and>
     next_min next (exp_of M0 ` (\<Union>t \<in> P. set (rest_of M0 now (qs t))))"

lemma visit_queue:
  assumes v: "visited L0 M0 c qs r (unat now) P L M next" and t: "queue_map L0 t = Some q" "t \<notin> P"
    and core: "lawn_core L0 M0 c qs" and stk: "queue_map L0 stk = None"
  shows "\<exists>L' M' next'. pop_queue stk now r q L M next = Some (L', M', next') \<and>
    visited L0 M0 c qs r (unat now) (insert t P) L' M' next'"
proof -
  let ?qs = "\<lambda>P t. if t \<in> P then rest_of M0 (unat now) (qs t) else qs t"
  obtain out where col: "collecting L M c (?qs P) r out" and so: "set out = (\<Union>t \<in> P. set (due_of M0 (unat now) (qs t)))"
    and lq: "l_timeout_queues L = l_timeout_queues L0" and pl: "payload M = payload M0"
    and nm: "next_min next (exp_of M0 ` (\<Union>t \<in> P. set (rest_of M0 (unat now) (qs t))))"
    using v unfolding visited_def by blast
  have m: "queue_map L t = Some q" "queue_map L stk = None" using lq t stk by simp_all
  have e: "?qs P t = qs t" using t(2) by simp
  obtain L' M' where p: "pop_queue stk now r q L M next = Some (L', M', next_head M next (rest_of M (unat now) (qs t)))"
      "collecting L' M' c ((?qs P)(t := rest_of M (unat now) (qs t))) r (out @ due_of M (unat now) (qs t))"
      "l_timeout_queues L' = l_timeout_queues L" "payload M' = payload M"
    using pop_queue_spec [OF col m, of now "next"] unfolding e by blast
  have dr: "due_of M = due_of M0" "rest_of M = rest_of M0" using due_rest_payload [OF pl] by (auto simp: fun_eq_iff)
  have q': "(?qs P)(t := rest_of M0 (unat now) (qs t)) = ?qs (insert t P)" by (auto simp: fun_eq_iff)
  have so': "set (out @ due_of M0 (unat now) (qs t)) = (\<Union>t \<in> insert t P. set (due_of M0 (unat now) (qs t)))" using so by auto
  have "sorted (map (exp_of M0) (rest_of M0 (unat now) (qs t)))"
    using core_sorted [OF core, of t] due_rest [of M0 "unat now" "qs t"] by (metis map_append sorted_append)
  then have s: "sorted (map (exp_of M) (rest_of M0 (unat now) (qs t)))" using exp_payload [OF pl] by simp
  have pos: "0 < exp_of M a" if "a \<in> set (rest_of M0 (unat now) (qs t))" for a
    using that due_rest_sets(2) [OF core_sorted [OF core, of t], of "unat now"] exp_payload [OF pl] by simp
  have nm': "next_min (next_head M next (rest_of M0 (unat now) (qs t)))
      (exp_of M0 ` (\<Union>t \<in> P. set (rest_of M0 (unat now) (qs t))) \<union> exp_of M ` set (rest_of M0 (unat now) (qs t)))"
    by (rule next_min_head [OF nm s pos])
  have im: "exp_of M0 ` (\<Union>t \<in> P. set (rest_of M0 (unat now) (qs t))) \<union> exp_of M ` set (rest_of M0 (unat now) (qs t)) =
      exp_of M0 ` (\<Union>t \<in> insert t P. set (rest_of M0 (unat now) (qs t)))"
    unfolding exp_payload [OF pl] by auto
  have lq': "l_timeout_queues L' = l_timeout_queues L0" and pl': "payload M' = payload M0" using p(3,4) lq pl by simp_all
  have "visited L0 M0 c qs r (unat now) (insert t P) L' M' (next_head M next (rest_of M0 (unat now) (qs t)))"
    unfolding visited_def using p(2) so' nm' lq' pl' unfolding q' im dr by blast
  then show ?thesis using p(1) unfolding dr by blast
qed


lemma visited_queues: "visited L0 M0 c qs r now P L M next \<Longrightarrow> l_timeout_queues L = l_timeout_queues L0"
  by (simp add: visited_def)

lemma pop_chain_spec:
  assumes mo: "maps_ok L0" and core: "lawn_core L0 M0 c qs" and stk: "queue_map L0 stk = None"
    and j: "j < hm_cap (l_timeout_queues L0)"
  shows "chain_list (l_timeout_queues L0) ! j = pre @ es \<Longrightarrow> visited L0 M0 c qs r (unat now) P L M next \<Longrightarrow>
    fst ` set es \<inter> P = {} \<Longrightarrow>
    \<exists>L' M' next'. pop_chain stk now r j es L M next = Some (L', M', next') \<and>
      visited L0 M0 c qs r (unat now) (P \<union> fst ` set es) L' M' next'"
proof (induction es arbitrary: pre P L M "next")
  case Nil
  then show ?case by (subst pop_chain.simps) simp
next
  case (Cons e es)
  note ok = queues_ok [OF mo]
  have d: "distinct (map fst (pre @ e # es))" using chain_distinct [of _ j] ok j Cons.prems(1) by metis
  have "e \<in> set (chain_list (l_timeout_queues L0) ! j)" using Cons.prems(1) by simp
  then have q: "queue_map L0 (fst e) = Some (snd e)" using hm_map_chains [of "l_timeout_queues L0" "fst e" "snd e"] ok j by auto
  have nP: "fst e \<notin> P" using Cons.prems(3) by auto
  obtain L1 M1 n1 where v: "pop_queue stk now r (snd e) L M next = Some (L1, M1, n1)"
      "visited L0 M0 c qs r (unat now) (insert (fst e) P) L1 M1 n1"
    using visit_queue [OF Cons.prems(2) q nP core stk] by blast
  have b: "bucket (l_timeout_queues L1) j = Some (pre @ e # es)"
    using bucket_eq [of "l_timeout_queues L0" j] ok j Cons.prems(1) visited_queues [OF v(2)] by simp
  have a: "entries_after (pre @ e # es) (fst e) = Some es" using d by (intro entries_after_split) auto
  have dj: "fst ` set es \<inter> insert (fst e) P = {}" using d Cons.prems(3) by auto
  have pre: "chain_list (l_timeout_queues L0) ! j = (pre @ [e]) @ es" using Cons.prems(1) by simp
  obtain L2 M2 n2 where IH: "pop_chain stk now r j es L1 M1 n1 = Some (L2, M2, n2)"
      "visited L0 M0 c qs r (unat now) (insert (fst e) P \<union> fst ` set es) L2 M2 n2"
    using Cons.IH [OF pre v(2) dj] by blast
  have "pop_chain stk now r j (e # es) L M next = Some (L2, M2, n2)"
    using v(1) b a IH(1) by (subst pop_chain.simps) simp
  then show ?case using IH(2) by auto
qed

definition ttls_of :: "lawn \<Rightarrow> nat list \<Rightarrow> u64 set" where
  "ttls_of L bkts = (\<Union>j \<in> set bkts. fst ` set (chain_list (l_timeout_queues L) ! j))"

lemma ttls_of_all: "maps_ok L \<Longrightarrow> ttls_of L [0..<hm_cap (l_timeout_queues L)] = dom (queue_map L)"
  using hm_map_chains [of "l_timeout_queues L"] queues_ok [of L] by (auto simp: ttls_of_def dom_def image_iff) force+

lemma chains_disjoint:
  assumes "hm_ok m" "i < hm_cap m" "j < hm_cap m" "i \<noteq> j"
  shows "fst ` set (chain_list m ! i) \<inter> fst ` set (chain_list m ! j) = {}"
proof (rule chains_cases [of m])
  fix bs assume b: "chain_list m = bs" "placed (hash_fn m) (hm_cap_bits m) bs" "hm_cap m = 2 ^ hm_cap_bits m" "length bs = 2 ^ hm_cap_bits m"
  show ?thesis
  proof (rule ccontr)
    assume "fst ` set (chain_list m ! i) \<inter> fst ` set (chain_list m ! j) \<noteq> {}"
    then obtain e e' where e: "e \<in> set (bs ! i)" "e' \<in> set (bs ! j)" "fst e = fst e'" using b(1) by auto
    then show False using b assms(2-4) unfolding placed_def by metis
  qed
qed (use assms in \<open>auto simp: hm_ok_def\<close>)

lemma pop_buckets_spec:
  assumes mo: "maps_ok L0" and core: "lawn_core L0 M0 c qs" and stk: "queue_map L0 stk = None"
  shows "set bkts \<subseteq> {..< hm_cap (l_timeout_queues L0)} \<Longrightarrow> distinct bkts \<Longrightarrow>
    visited L0 M0 c qs r (unat now) P L M next \<Longrightarrow> ttls_of L0 bkts \<inter> P = {} \<Longrightarrow>
    \<exists>L' M' next'. pop_buckets stk now r bkts L M next = Some (L', M', next') \<and>
      visited L0 M0 c qs r (unat now) (P \<union> ttls_of L0 bkts) L' M' next'"
proof (induction bkts arbitrary: P L M "next")
  case Nil
  then show ?case by (simp add: ttls_of_def)
next
  case (Cons j bkts)
  note ok = queues_ok [OF mo]
  let ?c = "chain_list (l_timeout_queues L0) ! j"
  have j: "j < hm_cap (l_timeout_queues L0)" using Cons.prems(1) by simp
  have b: "bucket (l_timeout_queues L) j = Some ?c"
    using bucket_eq [of "l_timeout_queues L0" j] ok j visited_queues [OF Cons.prems(3)] by simp
  have dj: "fst ` set ?c \<inter> P = {}" using Cons.prems(4) by (auto simp: ttls_of_def)
  have c: "?c = [] @ ?c" by simp
  obtain L1 M1 n1 where p: "pop_chain stk now r j ?c L M next = Some (L1, M1, n1)"
      "visited L0 M0 c qs r (unat now) (P \<union> fst ` set ?c) L1 M1 n1"
    using pop_chain_spec [OF mo core stk j c Cons.prems(3) dj] by blast
  have "fst ` set ?c \<inter> fst ` set (chain_list (l_timeout_queues L0) ! i) = {}" if i: "i \<in> set bkts" for i
  proof (rule chains_disjoint)
    show "i < hm_cap (l_timeout_queues L0)" "j \<noteq> i" using Cons.prems(1,2) i by auto
  qed (use ok j in simp_all)
  then have "fst ` set ?c \<inter> ttls_of L0 bkts = {}" unfolding ttls_of_def by blast
  moreover have "ttls_of L0 bkts \<inter> P = {}" using Cons.prems(4) unfolding ttls_of_def by auto
  ultimately have dj': "ttls_of L0 bkts \<inter> (P \<union> fst ` set ?c) = {}" by blast
  have sd: "set bkts \<subseteq> {..< hm_cap (l_timeout_queues L0)}" "distinct bkts" using Cons.prems(1,2) by simp_all
  obtain L2 M2 n2 where IH: "pop_buckets stk now r bkts L1 M1 n1 = Some (L2, M2, n2)"
      "visited L0 M0 c qs r (unat now) (P \<union> fst ` set ?c \<union> ttls_of L0 bkts) L2 M2 n2"
    using Cons.IH [OF sd p(2) dj'] by blast
  have "P \<union> fst ` set ?c \<union> ttls_of L0 bkts = P \<union> ttls_of L0 (j # bkts)" by (auto simp: ttls_of_def)
  then show ?case using b p(1) IH by simp
qed


section \<open>pop_expired\<close>

text \<open>The key and the expiration time of a node.\<close>

definition entry_of :: "mem \<Rightarrow> addr \<Rightarrow> cstr option \<times> nat" where
  "entry_of M a = (Option.bind (m_nodes M a) n_element, exp_of M a)"

lemma entry_payload: "payload M' = payload M \<Longrightarrow> entry_of M' = entry_of M"
proof
  fix a assume p: "payload M' = payload M"
  have "Option.bind (m_nodes M' a) n_element = Option.bind (m_nodes M a) n_element"
  proof (cases "m_nodes M a")
    case None
    then have "m_nodes M' a = None" using payload_dom [OF p] by auto
    then show ?thesis using None by simp
  next
    case (Some nd)
    then show ?thesis using payload_node [OF p Some] by auto
  qed
  then show "entry_of M' a = entry_of M a" using exp_payload [OF p] by (simp add: entry_of_def)
qed

lemma live_entry: "lawn_core L M c qs \<Longrightarrow> live_at L M k = Some e \<longleftrightarrow> (Some k, e) \<in> entry_of M ` in_queues qs"
proof -
  assume core: "lawn_core L M c qs"
  have "(Some k, e) \<in> entry_of M ` in_queues qs \<longleftrightarrow> (\<exists>a t nd. a \<in> set (qs t) \<and> m_nodes M a = Some nd \<and> n_element nd = Some k \<and> exp_of M a = e)"
  proof
    assume "(Some k, e) \<in> entry_of M ` in_queues qs"
    then obtain a where a: "a \<in> in_queues qs" "entry_of M a = (Some k, e)" by auto
    then have "Option.bind (m_nodes M a) n_element = Some k" "exp_of M a = e" by (simp_all add: entry_of_def)
    then show "\<exists>a t nd. a \<in> set (qs t) \<and> m_nodes M a = Some nd \<and> n_element nd = Some k \<and> exp_of M a = e"
      using a(1) by (auto simp: in_queues_def bind_eq_Some_conv)
  next
    assume "\<exists>a t nd. a \<in> set (qs t) \<and> m_nodes M a = Some nd \<and> n_element nd = Some k \<and> exp_of M a = e"
    then obtain a t nd where a: "a \<in> set (qs t)" "m_nodes M a = Some nd" "n_element nd = Some k" "exp_of M a = e" by blast
    then have "entry_of M a = (Some k, e)" "a \<in> in_queues qs" by (auto simp: entry_of_def in_queues_def)
    then show "(Some k, e) \<in> entry_of M ` in_queues qs" by (metis image_eqI)
  qed
  then show ?thesis using live_at_iff [OF core] by blast
qed

lemma entry_key: "lawn_core L M c qs \<Longrightarrow> a \<in> in_queues qs \<Longrightarrow> \<exists>k. entry_of M a = (Some k, exp_of M a) \<and> node_map L k = Some a"
proof -
  assume core: "lawn_core L M c qs" and "a \<in> in_queues qs"
  then obtain t where t: "a \<in> set (qs t)" by (auto simp: in_queues_def)
  show ?thesis using core_node [OF core t] by (auto simp: entry_of_def)
qed

lemma entry_inj: "lawn_core L M c qs \<Longrightarrow> inj_on (entry_of M) (in_queues qs)"
proof (rule inj_onI)
  fix a b assume core: "lawn_core L M c qs" and ab: "a \<in> in_queues qs" "b \<in> in_queues qs" "entry_of M a = entry_of M b"
  obtain k where k: "entry_of M a = (Some k, exp_of M a)" "node_map L k = Some a" using entry_key [OF core ab(1)] by blast
  obtain k' where k': "entry_of M b = (Some k', exp_of M b)" "node_map L k' = Some b" using entry_key [OF core ab(2)] by blast
  have "k = k'" using k(1) k'(1) ab(3) by simp
  then show "a = b" using k(2) k'(2) by simp
qed

lemma in_queues_memb: "a \<in> in_queues qs \<longleftrightarrow> (\<exists>t. a \<in> set (qs t))"
  by (auto simp: in_queues_def)

definition expired_at :: "nat \<Rightarrow> lawn \<Rightarrow> mem \<Rightarrow> (cstr option \<times> nat) set" where
  "expired_at now L M = {(Some k, e) | k e. live_at L M k = Some e \<and> e \<le> now}"

definition alive_at :: "nat \<Rightarrow> lawn \<Rightarrow> mem \<Rightarrow> cstr \<Rightarrow> nat option" where
  "alive_at now L M k = (case live_at L M k of Some e \<Rightarrow> if now < e then Some e else None | None \<Rightarrow> None)"

lemma alive_at_Some: "alive_at now L M k = Some e \<longleftrightarrow> live_at L M k = Some e \<and> now < e"
  by (auto simp: alive_at_def split: option.splits)

lemma map_eqI: "(\<And>k e. f k = Some e \<longleftrightarrow> g k = Some e) \<Longrightarrow> f = g"
  by (rule ext) (metis option.exhaust)

text \<open>The early return: nothing is due.\<close>

lemma nothing_due:
  assumes core: "lawn_core L M c qs" and nx: "next_ok L M qs" and lt: "time < l_next_expiration L"
  shows "expired_at (unat time) L M = {} \<and> alive_at (unat time) L M = live_at L M"
proof -
  have lt': "unat time < unat (l_next_expiration L)" using lt by (simp add: word_less_nat_alt)
  then have "l_next_expiration L \<noteq> 0" by auto
  then have ge: "unat (l_next_expiration L) \<le> exp_of M a" if "a \<in> in_queues qs" for a using nx that by (auto simp: next_ok_def)
  have l: "unat time < e" if lv: "live_at L M k = Some e" for k e
  proof -
    obtain a where "a \<in> in_queues qs" "e = exp_of M a" using live_entry [OF core] lv by (auto simp: entry_of_def)
    then show ?thesis using ge [of a] lt' by simp
  qed
  have "alive_at (unat time) L M = live_at L M" by (rule map_eqI) (use l in \<open>auto simp: alive_at_Some\<close>)
  then show ?thesis using l by (fastforce simp: expired_at_def)
qed

text \<open>A next expiration that is not 0 is the least deadline.\<close>

lemma next_live:
  assumes core: "lawn_core L M c qs" and nx: "next_ok L M qs" and nz: "l_next_expiration L \<noteq> 0"
  shows "unat (l_next_expiration L) \<in> ran (live_at L M) \<and> (\<forall>e \<in> ran (live_at L M). unat (l_next_expiration L) \<le> e)"
proof -
  obtain a where a: "a \<in> in_queues qs" "exp_of M a = unat (l_next_expiration L)"
      and ge: "\<And>b. b \<in> in_queues qs \<Longrightarrow> unat (l_next_expiration L) \<le> exp_of M b"
    using nx nz by (auto simp: next_ok_def)
  obtain k where "entry_of M a = (Some k, exp_of M a)" using entry_key [OF core a(1)] by blast
  then have "live_at L M k = Some (unat (l_next_expiration L))" using live_entry [OF core] a by force
  moreover have "unat (l_next_expiration L) \<le> e" if "live_at L M k = Some e" for k e
    using that live_entry [OF core] ge by (auto simp: entry_of_def)
  ultimately show ?thesis by (auto simp: ran_def)
qed

lemma new_collecting:
  assumes core: "lawn_core L M c qs" and r: "m_queues M r = None"
  shows "\<exists>M1. newQueue M (Some r) = Some (r, M1) \<and> collecting L M1 c qs r [] \<and> payload M1 = payload M"
proof -
  let ?M = "M\<lparr>m_queues := (m_queues M)(r \<mapsto> \<lparr>q_head = None, q_tail = None, q_len = 0\<rparr>)\<rparr>"
  have nr: "r \<notin> ran (queue_map L)" using queue_in_memory [OF core, of r] r by blast
  have "lawn_core L ?M c qs" by (rule core_frame [OF core]) (use nr in auto)
  then have "collecting L ?M c qs r []" using nr by (simp add: collecting_def qrep_def)
  moreover have "payload ?M = payload M" by (simp add: payload_def fun_eq_iff)
  ultimately show ?thesis by (intro exI [of _ ?M]) (simp add: newQueue_def)
qed

lemma pop_expired_spec:
  assumes inv: "lawn_inv L M c" and r: "m_queues M r = None" and stk: "queue_map L stk = None"
  shows "\<exists>L' M' out. pop_expired (Some r) stk time L M = Some (r, L', M') \<and> lawn_inv L' M' c \<and>
    qrep M' r out 0 \<and> distinct (map (entry_of M') out) \<and> set (map (entry_of M') out) = expired_at (unat time) L M \<and>
    live_at L' M' = alive_at (unat time) L M \<and> queue_map L' = queue_map L \<and>
    (if live_at L' M' = Map.empty then l_next_expiration L' = 0
     else unat (l_next_expiration L') \<in> ran (live_at L' M') \<and> (\<forall>e \<in> ran (live_at L' M'). unat (l_next_expiration L') \<le> e))"
proof -
  obtain qs where core: "lawn_core L M c qs" and nx: "next_ok L M qs" using inv by (auto simp: lawn_inv_def)
  obtain M1 where M1: "newQueue M (Some r) = Some (r, M1)" "collecting L M1 c qs r []" "payload M1 = payload M"
    using new_collecting [OF core r] by blast
  have core1: "lawn_core L M1 c qs" using M1(2) by (simp add: collecting_def)
  note ex1 = exp_payload [OF M1(3)]
  have lv1: "live_at L M1 = live_at L M" by (simp add: live_at_def ex1 fun_eq_iff)
  show ?thesis
  proof (cases "time < l_next_expiration L")
    case True
    have "pop_expired (Some r) stk time L M = Some (r, L, M1)"
      using M1(1) True by (simp add: pop_expired_def LAWN_LATANCY_PADDING_MS_def)
    moreover have "lawn_inv L M1 c" using core1 nx ex1 by (auto simp: lawn_inv_def next_ok_def)
    moreover have "qrep M1 r [] 0" using M1(2) by (simp add: collecting_def)
    moreover have "l_next_expiration L \<noteq> 0" using True by auto
    then have nl: "unat (l_next_expiration L) \<in> ran (live_at L M)" "\<forall>e \<in> ran (live_at L M). unat (l_next_expiration L) \<le> e"
      using next_live [OF core nx] by blast+
    then have "live_at L M \<noteq> Map.empty" by auto
    ultimately show ?thesis using nothing_due [OF core nx True] lv1 nl
      by (intro exI [of _ L] exI [of _ M1] exI [of _ "[]"]) simp
  next
    case False
    note mo = core_maps [OF core]
    let ?now = "unat time"
    have v0: "visited L M1 c qs r ?now {} L M1 0" using M1(2) by (auto simp: visited_def next_min_def)
    let ?bk = "[0..<hm_cap (l_timeout_queues L)]"
    have bk: "set ?bk \<subseteq> {..<hm_cap (l_timeout_queues L)}" "distinct ?bk" "ttls_of L ?bk \<inter> {} = {}" by auto
    have all: "{} \<union> ttls_of L ?bk = dom (queue_map L)" using ttls_of_all [OF mo] by simp
    obtain L' M' n where p: "pop_buckets stk time r [0..<hm_cap (l_timeout_queues L)] L M1 0 = Some (L', M', n)"
        "visited L M1 c qs r ?now (dom (queue_map L)) L' M' n"
      using pop_buckets_spec [OF mo core1 stk bk(1,2) v0 bk(3)] unfolding all by blast
    let ?qs = "\<lambda>t. if t \<in> dom (queue_map L) then rest_of M1 ?now (qs t) else qs t"
    obtain out where out: "collecting L' M' c ?qs r out" "set out = (\<Union>t \<in> dom (queue_map L). set (due_of M1 ?now (qs t)))"
        "l_timeout_queues L' = l_timeout_queues L" "payload M' = payload M1"
        "next_min n (exp_of M1 ` (\<Union>t \<in> dom (queue_map L). set (rest_of M1 ?now (qs t))))"
      using p(2) unfolding visited_def by blast
    have core': "lawn_core L' M' c ?qs" and qr: "qrep M' r out 0" using out(1) by (simp_all add: collecting_def)
    have e: "qs t = []" if "t \<notin> dom (queue_map L)" for t using core_no_queue [OF core] that by auto
    note ss = due_rest_sets [OF core_sorted [OF core1]]
    have iq: "in_queues ?qs = {a \<in> in_queues qs. ?now < exp_of M1 a}"
    proof (rule set_eqI)
      fix a
      have "a \<in> set (?qs t) \<longleftrightarrow> a \<in> set (qs t) \<and> ?now < exp_of M1 a" for t
        using ss(2) [of ?now t] e [of t] by (cases "t \<in> dom (queue_map L)") simp_all
      then show "a \<in> in_queues ?qs \<longleftrightarrow> a \<in> {a \<in> in_queues qs. ?now < exp_of M1 a}" unfolding in_queues_memb by blast
    qed
    have so: "set out = {a \<in> in_queues qs. exp_of M1 a \<le> ?now}"
      unfolding out(2) using ss(1) [of ?now] e by (fastforce simp: in_queues_def)
    have rs: "(\<Union>t \<in> dom (queue_map L). set (rest_of M1 ?now (qs t))) = in_queues ?qs"
      unfolding iq using ss(2) [of ?now] e by (fastforce simp: in_queues_def)
    note ex' = exp_payload [OF out(4)] and en' = entry_payload [OF out(4)] and en1 = entry_payload [OF M1(3)]
    let ?L = "L'\<lparr>l_next_expiration := n\<rparr>"
    have nx': "next_ok ?L M' ?qs" using out(5) unfolding rs ex' [symmetric] by (fastforce simp: next_min_def next_ok_def split: if_splits)
    then have inv': "lawn_inv ?L M' c" using core' unfolding lawn_inv_def by (intro exI [of _ ?qs]) simp
    have "live_at ?L M' = live_at L' M'" by (simp add: live_at_def fun_eq_iff)
    moreover have "live_at L' M' = Map.empty" if "n = 0"
    proof -
      have "in_queues ?qs = {}" using out(5) that unfolding rs by (auto simp: next_min_def split: if_splits)
      then have "live_at L' M' k \<noteq> Some e" for k e using live_entry [OF core', of k e] by auto
      then show ?thesis by (intro ext) (metis option.exhaust)
    qed
    moreover have "unat n \<in> ran (live_at ?L M') \<and> (\<forall>e \<in> ran (live_at ?L M'). unat n \<le> e)" if "n \<noteq> 0"
      using next_live [of ?L M' c ?qs] core' nx' that by simp
    ultimately have least: "if live_at ?L M' = Map.empty then l_next_expiration ?L = 0
        else unat (l_next_expiration ?L) \<in> ran (live_at ?L M') \<and> (\<forall>e \<in> ran (live_at ?L M'). unat (l_next_expiration ?L) \<le> e)"
      by (cases "n = 0") auto
    have lv: "live_at ?L M' k = Some e \<longleftrightarrow> live_at L M k = Some e \<and> ?now < e" for k e
    proof -
      have "live_at ?L M' k = live_at L' M' k" by (simp add: live_at_def)
      also have "live_at L' M' k = Some e \<longleftrightarrow> (Some k, e) \<in> entry_of M ` in_queues qs \<and> ?now < e"
        unfolding live_entry [OF core'] iq en' en1 ex1 by (auto simp: entry_of_def)
      finally show ?thesis using live_entry [OF core] by simp
    qed
    have lv': "live_at ?L M' = alive_at ?now L M" by (rule map_eqI) (simp add: lv alive_at_Some)
    have "distinct (map (entry_of M') out)"
      using qrep_distinct [OF qr] entry_inj [OF core] so unfolding en' en1 by (auto simp: distinct_map intro: inj_on_subset)
    moreover have "set (map (entry_of M') out) = expired_at ?now L M"
    proof (rule set_eqI)
      fix x :: "cstr option \<times> nat"
      have "x \<in> set (map (entry_of M') out) \<longleftrightarrow> x \<in> entry_of M ` in_queues qs \<and> snd x \<le> ?now"
        unfolding en' en1 using so ex1 by (auto simp: entry_of_def)
      also have "\<dots> \<longleftrightarrow> x \<in> expired_at ?now L M"
      proof
        assume x: "x \<in> entry_of M ` in_queues qs \<and> snd x \<le> ?now"
        then obtain k where "x = (Some k, snd x)" using entry_key [OF core] by fastforce
        then show "x \<in> expired_at ?now L M" using x live_entry [OF core, of k "snd x"] by (auto simp: expired_at_def)
      next
        assume "x \<in> expired_at ?now L M"
        then obtain k e where "x = (Some k, e)" "live_at L M k = Some e" "e \<le> ?now" by (auto simp: expired_at_def)
        then show "x \<in> entry_of M ` in_queues qs \<and> snd x \<le> ?now" using live_entry [OF core] by simp
      qed
      finally show "x \<in> set (map (entry_of M') out) \<longleftrightarrow> x \<in> expired_at ?now L M" .
    qed
    moreover have "pop_expired (Some r) stk time L M = Some (r, ?L, M')"
      using M1(1) False p(1) by (simp add: pop_expired_def LAWN_LATANCY_PADDING_MS_def)
    moreover have "queue_map ?L = queue_map L" using out(3) by simp
    ultimately show ?thesis using inv' qr lv' least by blast
  qed
qed

end
