(* ===== verification/Lawn_Next.thy ===== *)
theory Lawn_Next
  imports Lawn_Expiry
begin

unbundle bit_operations_syntax

text \<open>
  The nearest timer: the scan of _get_next_node over the queue heads, next_at and pop_next.
\<close>

section \<open>The scan\<close>

text \<open>The timers in the queues of the TTLs P.\<close>

definition timers_of :: "(u64 \<Rightarrow> addr list) \<Rightarrow> u64 set \<Rightarrow> addr set" where
  "timers_of qs P = (\<Union>t \<in> P. set (qs t))"

definition nearest :: "mem \<Rightarrow> addr set \<Rightarrow> addr option \<Rightarrow> bool" where
  "nearest M A p \<longleftrightarrow> (case p of None \<Rightarrow> A = {} | Some a \<Rightarrow> a \<in> A \<and> (\<forall>b \<in> A. exp_of M a \<le> exp_of M b))"

text \<open>What is known after the queues of P were seen, from the lawn L0.\<close>

definition scanned :: "lawn \<Rightarrow> mem \<Rightarrow> (u64 \<Rightarrow> addr list) \<Rightarrow> u64 set \<Rightarrow> lawn \<times> addr option \<Rightarrow> bool" where
  "scanned L0 M qs P s \<longleftrightarrow> nearest M (timers_of qs P) (snd s) \<and>
     (\<exists>x. fst s = L0\<lparr>l_next_expiration := x\<rparr> \<and>
        unat x = (if l_next_expiration L0 = 0 then (case snd s of None \<Rightarrow> 0 | Some a \<Rightarrow> exp_of M a)
                  else unat (l_next_expiration L0)))"

lemma nearest_insert:
  assumes n: "nearest M A p" and B: "nearest M B (Some a)"
  shows "nearest M (A \<union> B) (case p of None \<Rightarrow> Some a | Some b \<Rightarrow> if exp_of M a < exp_of M b then Some a else Some b)"
  using assms by (cases p) (auto simp: nearest_def not_less intro: order_trans less_imp_le)

lemma scan_entry:
  assumes s: "scanned L0 M qs P (L, p)" and core: "lawn_core L0 M c qs" and nx: "next_ok L0 M qs"
    and t: "queue_map L0 t = Some q"
  shows "\<exists>s'. next_entry M q (L, p) = Some s' \<and> scanned L0 M qs (insert t P) s'"
proof -
  obtain d where qr: "qrep M q (qs t) d" using core_queue [OF core t] by (auto simp: qlist_def)
  have P': "timers_of qs (insert t P) = timers_of qs P \<union> set (qs t)" by (auto simp: timers_of_def)
  show ?thesis
  proof (cases "qs t")
    case Nil
    then have "next_entry M q (L, p) = Some (L, p)" using qr by (simp add: next_entry_def qrep_def)
    moreover have "timers_of qs (insert t P) = timers_of qs P" using P' Nil by simp
    ultimately show ?thesis using s by (simp add: scanned_def)
  next
    case (Cons a xs)
    have mq: "m_queues M q = Some \<lparr>q_head = Some a, q_tail = final (a # xs), q_len = Suc (length xs + d)\<rparr>"
      using qr Cons by (simp add: qrep_def)
    obtain nd where nd: "m_nodes M a = Some nd" using qrep_node [OF qr, of a] Cons by auto
    have ea: "unat (n_expiration nd) = exp_of M a" using nd by (simp add: exp_of_def)
    have B: "nearest M (set (qs t)) (Some a)" using core_sorted [OF core, of t] Cons by (simp add: nearest_def)
    obtain x where n: "nearest M (timers_of qs P) p" and x: "L = L0\<lparr>l_next_expiration := x\<rparr>"
        "unat x = (if l_next_expiration L0 = 0 then (case p of None \<Rightarrow> 0 | Some a \<Rightarrow> exp_of M a) else unat (l_next_expiration L0))"
      using s by (auto simp: scanned_def)
    have ge: "unat (l_next_expiration L0) \<le> exp_of M a" if nz: "l_next_expiration L0 \<noteq> 0"
    proof -
      have "a \<in> in_queues qs" using Cons in_queues_memb [of a qs] by (metis list.set_intros(1))
      then show ?thesis using nx nz by (simp add: next_ok_def)
    qed
    define better where "better = (case p of None \<Rightarrow> True | Some b \<Rightarrow> exp_of M a < exp_of M b)"
    let ?L' = "if x = 0 \<or> n_expiration nd < x then L0\<lparr>l_next_expiration := n_expiration nd\<rparr> else L"
    let ?s = "if better then (?L', Some a) else (L, p)"
    have run: "next_entry M q (L, p) = Some ?s"
    proof (cases p)
      case None
      then show ?thesis using mq nd x(1) by (simp add: next_entry_def better_def)
    next
      case (Some b)
      have "b \<in> in_queues qs" using n Some by (auto simp: nearest_def timers_of_def in_queues_def)
      then obtain bd where bd: "m_nodes M b = Some bd" using node_in_memory [OF core] by blast
      then have "(n_expiration nd < n_expiration bd) = better" using Some ea by (simp add: better_def exp_of_def word_less_nat_alt)
      then show ?thesis using mq nd x(1) Some bd by (simp add: next_entry_def)
    qed
    have near: "nearest M (timers_of qs (insert t P)) (snd ?s)"
      using nearest_insert [OF n B] unfolding P' better_def by (cases p) auto
    have "scanned L0 M qs (insert t P) ?s"
    proof (cases better)
      case False
      then show ?thesis using near x by (auto simp: scanned_def)
    next
      case True
      have "\<exists>y. ?L' = L0\<lparr>l_next_expiration := y\<rparr> \<and> unat y = (if l_next_expiration L0 = 0 then exp_of M a else unat (l_next_expiration L0))"
      proof (cases "l_next_expiration L0 = 0")
        case z: True
        have "x = 0 \<or> n_expiration nd < x"
        proof (cases p)
          case None
          then have "unat x = 0" using x(2) z by simp
          then show ?thesis by (simp add: unat_eq_0)
        next
          case (Some b)
          then have "exp_of M a < unat x" using x(2) z True by (simp add: better_def)
          then show ?thesis using ea by (simp add: word_less_nat_alt)
        qed
        then show ?thesis using z ea by auto
      next
        case nz: False
        have u: "x = l_next_expiration L0" using x(2) nz by (simp add: word_unat_eq_iff)
        have "\<not> (x = 0 \<or> n_expiration nd < x)" using u nz ge ea by (simp add: word_less_nat_alt)
        then show ?thesis using x(1) u nz by (intro exI [of _ x]) simp
      qed
      then obtain y where y: "?L' = L0\<lparr>l_next_expiration := y\<rparr>"
          "unat y = (if l_next_expiration L0 = 0 then exp_of M a else unat (l_next_expiration L0))" by blast
      have f: "fst ?s = L0\<lparr>l_next_expiration := y\<rparr>" "snd ?s = Some a" using y(1) True by simp_all
      show ?thesis unfolding scanned_def using near y(2) f by (intro conjI exI [of _ y]) simp_all
    qed
    then show ?thesis using run by blast
  qed
qed

lemma scan_chain:
  assumes core: "lawn_core L0 M c qs" and nx: "next_ok L0 M qs"
  shows "(\<And>e. e \<in> set es \<Longrightarrow> queue_map L0 (fst e) = Some (snd e)) \<Longrightarrow> scanned L0 M qs P s \<Longrightarrow>
    \<exists>s'. next_chain M es s = Some s' \<and> scanned L0 M qs (P \<union> fst ` set es) s'"
proof (induction es arbitrary: s P)
  case (Cons e es)
  have sc: "scanned L0 M qs P (fst s, snd s)" using Cons.prems(2) by simp
  have q: "queue_map L0 (fst e) = Some (snd e)" using Cons.prems(1) by simp
  obtain s1 where s1: "next_entry M (snd e) s = Some s1" "scanned L0 M qs (insert (fst e) P) s1"
    using scan_entry [OF sc core nx q] by auto
  obtain s2 where "next_chain M es s1 = Some s2" "scanned L0 M qs (insert (fst e) P \<union> fst ` set es) s2"
    using Cons.IH [OF _ s1(2)] Cons.prems(1) by auto
  then show ?case using s1(1) by auto
qed simp

lemma scan_buckets:
  assumes core: "lawn_core L0 M c qs" and nx: "next_ok L0 M qs"
  shows "set bkts \<subseteq> {..< hm_cap (l_timeout_queues L0)} \<Longrightarrow> scanned L0 M qs P s \<Longrightarrow>
    \<exists>s'. next_buckets M bkts s = Some s' \<and> scanned L0 M qs (P \<union> ttls_of L0 bkts) s'"
proof (induction bkts arbitrary: s P)
  case Nil
  then show ?case by (simp add: ttls_of_def)
next
  case (Cons j bkts)
  note ok = queues_ok [OF core_maps [OF core]]
  let ?c = "chain_list (l_timeout_queues L0) ! j"
  have j: "j < hm_cap (l_timeout_queues L0)" using Cons.prems(1) by simp
  have e: "queue_map L0 (fst e) = Some (snd e)" if "e \<in> set ?c" for e
    using hm_map_chains [of "l_timeout_queues L0" "fst e" "snd e"] ok j that by auto
  have "l_timeout_queues (fst s) = l_timeout_queues L0" using Cons.prems(2) by (auto simp: scanned_def)
  then have b: "bucket (l_timeout_queues (fst s)) j = Some ?c" using bucket_eq [of "l_timeout_queues L0" j] ok j by simp
  obtain s1 where s1: "next_chain M ?c s = Some s1" "scanned L0 M qs (P \<union> fst ` set ?c) s1"
    using scan_chain [OF core nx e Cons.prems(2)] by blast
  have sub: "set bkts \<subseteq> {..< hm_cap (l_timeout_queues L0)}" using Cons.prems(1) by simp
  obtain s2 where s2: "next_buckets M bkts s1 = Some s2" "scanned L0 M qs (P \<union> fst ` set ?c \<union> ttls_of L0 bkts) s2"
    using Cons.IH [OF sub s1(2)] by blast
  have "P \<union> fst ` set ?c \<union> ttls_of L0 bkts = P \<union> ttls_of L0 (j # bkts)" by (auto simp: ttls_of_def)
  then show ?case using b s1(1) s2 by simp
qed

lemma get_next_spec:
  assumes core: "lawn_core L M c qs" and nx: "next_ok L M qs"
  shows "\<exists>p x. get_next_node L M = Some (p, L\<lparr>l_next_expiration := x\<rparr>) \<and> nearest M (in_queues qs) p \<and>
    next_ok (L\<lparr>l_next_expiration := x\<rparr>) M qs"
proof -
  note mo = core_maps [OF core]
  let ?bk = "[0..<hm_cap (l_timeout_queues L)]"
  have s0: "scanned L M qs {} (L, None)" unfolding scanned_def
    by (intro conjI exI [of _ "l_next_expiration L"]) (simp_all add: nearest_def timers_of_def)
  have sub: "set ?bk \<subseteq> {..< hm_cap (l_timeout_queues L)}" by auto
  have P: "{} \<union> ttls_of L ?bk = dom (queue_map L)" using ttls_of_all [OF mo] by simp
  obtain s where s: "next_buckets M ?bk (L, None) = Some s" "scanned L M qs (dom (queue_map L)) s"
    using scan_buckets [OF core nx sub s0] unfolding P by blast
  have iq: "timers_of qs (dom (queue_map L)) = in_queues qs"
  proof (rule set_eqI)
    fix a
    have "queue_map L t \<noteq> None" if "a \<in> set (qs t)" for t using core_nonempty [OF core that] by auto
    then show "a \<in> timers_of qs (dom (queue_map L)) \<longleftrightarrow> a \<in> in_queues qs" by (auto simp: timers_of_def in_queues_def)
  qed
  obtain x where x: "nearest M (in_queues qs) (snd s)" "fst s = L\<lparr>l_next_expiration := x\<rparr>"
      "unat x = (if l_next_expiration L = 0 then (case snd s of None \<Rightarrow> 0 | Some a \<Rightarrow> exp_of M a) else unat (l_next_expiration L))"
    using s(2) unfolding scanned_def iq by blast
  have "next_ok (L\<lparr>l_next_expiration := x\<rparr>) M qs"
  proof (cases "l_next_expiration L = 0")
    case True
    show ?thesis
    proof (cases "snd s")
      case None
      then have "unat x = 0" using x(3) True by simp
      then show ?thesis by (simp add: next_ok_def unat_eq_0)
    next
      case (Some a)
      then show ?thesis using x(1,3) True by (auto simp: next_ok_def nearest_def)
    qed
  next
    case False
    then have "x = l_next_expiration L" using x(3) by (simp add: word_unat_eq_iff)
    then show ?thesis using nx by simp
  qed
  moreover have "get_next_node L M = Some (snd s, L\<lparr>l_next_expiration := x\<rparr>)"
    using s(1) x(2) by (cases s) (simp add: get_next_node_def)
  ultimately show ?thesis using x(1) by blast
qed

section \<open>next_at and pop_next\<close>

text \<open>a is a timer with the least expiration.\<close>

lemma nearest_live:
  assumes core: "lawn_core L M c qs" and n: "nearest M (in_queues qs) (Some a)"
  shows "\<exists>k. entry_of M a = (Some k, exp_of M a) \<and> node_map L k = Some a \<and> live_at L M k = Some (exp_of M a) \<and>
    (\<forall>k' e. live_at L M k' = Some e \<longrightarrow> exp_of M a \<le> e)"
proof -
  have a: "a \<in> in_queues qs" "\<forall>b \<in> in_queues qs. exp_of M a \<le> exp_of M b" using n by (simp_all add: nearest_def)
  obtain k where k: "entry_of M a = (Some k, exp_of M a)" "node_map L k = Some a" using entry_key [OF core a(1)] by blast
  have "exp_of M a \<le> e" if "live_at L M k' = Some e" for k' e
  proof -
    have "(Some k', e) \<in> entry_of M ` in_queues qs" using live_entry [OF core] that by simp
    then obtain b where "b \<in> in_queues qs" "e = exp_of M b" by (auto simp: entry_of_def)
    then show ?thesis using a(2) by simp
  qed
  then show ?thesis using k by (intro exI [of _ k]) (auto simp: live_at_def)
qed

lemma nearest_none: "lawn_core L M c qs \<Longrightarrow> nearest M (in_queues qs) None \<Longrightarrow> live_at L M = Map.empty"
  using live_entry [of L M c qs] by (intro map_eqI) (simp add: nearest_def)

definition least_at :: "lawn \<Rightarrow> mem \<Rightarrow> nat \<Rightarrow> bool" where
  "least_at L M e \<longleftrightarrow> (\<exists>k. live_at L M k = Some e) \<and> (\<forall>k e'. live_at L M k = Some e' \<longrightarrow> e \<le> e')"

lemma next_at_spec:
  assumes inv: "lawn_inv L M c"
  shows "\<exists>v L'. next_at L M = Some (v, L') \<and> lawn_inv L' M c \<and> live_at L' M = live_at L M \<and> queue_map L' = queue_map L \<and>
    (if live_at L M = Map.empty then v = - 1 else least_at L M (unat v) \<and> l_next_expiration L' = v)"
proof -
  obtain qs where core: "lawn_core L M c qs" and nx: "next_ok L M qs" using inv by (auto simp: lawn_inv_def)
  show ?thesis
  proof (cases "l_next_expiration L = 0")
    case False
    then obtain a where a: "nearest M (in_queues qs) (Some a)" "exp_of M a = unat (l_next_expiration L)"
      using nx by (auto simp: next_ok_def nearest_def)
    obtain k where k: "live_at L M k = Some (exp_of M a)" "\<forall>k' e. live_at L M k' = Some e \<longrightarrow> exp_of M a \<le> e"
      using nearest_live [OF core a(1)] by blast
    then have "live_at L M \<noteq> Map.empty" by auto
    moreover have "least_at L M (unat (l_next_expiration L))" using k unfolding least_at_def a(2) by blast
    ultimately show ?thesis using False inv by (intro exI [of _ "l_next_expiration L"] exI [of _ L]) (simp add: next_at_def)
  next
    case True
    obtain p x where g: "get_next_node L M = Some (p, L\<lparr>l_next_expiration := x\<rparr>)" "nearest M (in_queues qs) p"
        "next_ok (L\<lparr>l_next_expiration := x\<rparr>) M qs"
      using get_next_spec [OF core nx] by blast
    have lv: "live_at (L\<lparr>l_next_expiration := y\<rparr>) M = live_at L M" for y by (simp add: live_at_def fun_eq_iff)
    show ?thesis
    proof (cases p)
      case None
      have "lawn_inv (L\<lparr>l_next_expiration := x\<rparr>) M c" using core g(3) unfolding lawn_inv_def by (intro exI [of _ qs]) simp
      then show ?thesis using g(1,2) True None nearest_none [OF core] lv by (simp add: next_at_def)
    next
      case (Some a)
      have n: "nearest M (in_queues qs) (Some a)" using g(2) Some by simp
      obtain k where k: "live_at L M k = Some (exp_of M a)" "\<forall>k' e. live_at L M k' = Some e \<longrightarrow> exp_of M a \<le> e"
        using nearest_live [OF core n] by blast
      have ne: "live_at L M \<noteq> Map.empty" using k(1) by auto
      obtain nd where nd: "m_nodes M a = Some nd" using node_in_memory [OF core, of a] n by (auto simp: nearest_def)
      have e: "exp_of M a = unat (n_expiration nd)" using nd by (simp add: exp_of_def)
      let ?L = "L\<lparr>l_next_expiration := n_expiration nd\<rparr>"
      have "next_ok ?L M qs" using n e by (auto simp: next_ok_def nearest_def)
      then have "lawn_inv ?L M c" using core unfolding lawn_inv_def by (intro exI [of _ qs]) simp
      moreover have "next_at L M = Some (n_expiration nd, ?L)" using True g(1) Some nd by (simp add: next_at_def)
      moreover have "least_at L M (unat (n_expiration nd))" using k unfolding least_at_def e by blast
      ultimately show ?thesis using ne lv by (intro exI [of _ "n_expiration nd"] exI [of _ ?L]) simp
    qed
  qed
qed

lemma pop_next_spec:
  assumes inv: "lawn_inv L M c" and stk: "queue_map L stk = None"
  shows "\<exists>r L' M'. pop_next stk L M = Some (r, L', M') \<and> lawn_inv L' M' c \<and> queue_map L' = queue_map L \<and>
    (case r of None \<Rightarrow> live_at L M = Map.empty \<and> live_at L' M' = Map.empty
     | Some a \<Rightarrow> \<exists>k e. entry_of M' a = (Some k, e) \<and> live_at L M k = Some e \<and> least_at L M e \<and>
         live_at L' M' = (live_at L M)(k := None))"
proof -
  obtain qs where core: "lawn_core L M c qs" and nx: "next_ok L M qs" using inv by (auto simp: lawn_inv_def)
  obtain p x where g: "get_next_node L M = Some (p, L\<lparr>l_next_expiration := x\<rparr>)" "nearest M (in_queues qs) p"
      "next_ok (L\<lparr>l_next_expiration := x\<rparr>) M qs"
    using get_next_spec [OF core nx] by blast
  let ?L = "L\<lparr>l_next_expiration := x\<rparr>"
  have lv: "live_at ?L M = live_at L M" by (simp add: live_at_def fun_eq_iff)
  have i: "lawn_inv ?L M c" using core g(3) unfolding lawn_inv_def by (intro exI [of _ qs]) simp
  show ?thesis
  proof (cases p)
    case None
    then have e: "live_at L M = Map.empty" using nearest_none [OF core] g(2) by simp
    show ?thesis using g(1) None i lv e by (simp add: pop_next_def)
  next
    case (Some a)
    have n: "nearest M (in_queues qs) (Some a)" using g(2) Some by simp
    obtain k where k: "entry_of M a = (Some k, exp_of M a)" "node_map L k = Some a" "live_at L M k = Some (exp_of M a)"
        "\<forall>k' e. live_at L M k' = Some e \<longrightarrow> exp_of M a \<le> e"
      using nearest_live [OF core n] by blast
    have k': "node_map ?L k = Some a" "queue_map ?L stk = None" using k(2) stk by simp_all
    obtain L' M' where r: "removeNode stk ?L M a = Some (L', M')" "lawn_inv L' M' c"
        "live_at L' M' = (live_at ?L M)(k := None)" "l_timeout_queues L' = l_timeout_queues ?L" "payload M' = payload M"
      using inv_remove [OF i k'] by blast
    have "least_at L M (exp_of M a)" using k(3,4) unfolding least_at_def by blast
    then have "\<exists>k e. entry_of M' a = (Some k, e) \<and> live_at L M k = Some e \<and> least_at L M e \<and> live_at L' M' = (live_at L M)(k := None)"
      using k(1,3) r(3) lv entry_payload [OF r(5)] by (intro exI [of _ k] exI [of _ "exp_of M a"]) simp
    then show ?thesis using g(1) Some r(1,2,4)
      by (intro exI [of _ "Some a"] exI [of _ L'] exI [of _ M']) (simp add: pop_next_def)
  qed
qed


section \<open>Freeing\<close>

text \<open>The memory without the nodes A and the queues Q.\<close>

definition freed :: "addr set \<Rightarrow> addr set \<Rightarrow> mem \<Rightarrow> mem" where
  "freed A Q M = M\<lparr>m_nodes := m_nodes M |` (- A), m_queues := m_queues M |` (- Q)\<rparr>"

lemma freed_simps [simp]:
  "m_nodes (freed A Q M) a = (if a \<in> A then None else m_nodes M a)"
  "m_queues (freed A Q M) q = (if q \<in> Q then None else m_queues M q)"
  "freed {} {} M = M" "freed A Q (freed B P M) = freed (B \<union> A) (P \<union> Q) M"
  by (simp_all add: freed_def restrict_map_def inf_commute) (auto simp: fun_eq_iff)

lemma free_nodes_spec:
  "distinct xs \<Longrightarrow> dseg (nnext M) pv p xs None \<Longrightarrow> set xs \<subseteq> dom (m_nodes M) \<Longrightarrow>
     free_nodes M (first xs) = Some (freed (set xs) {} M)"
proof (induction xs arbitrary: M p)
  case Nil
  then show ?case by (subst free_nodes.simps) simp
next
  case (Cons a xs)
  obtain nd where nd: "m_nodes M a = Some nd" using Cons.prems(3) by auto
  have nx: "n_next nd = first xs" using Cons.prems(2) nd by (cases xs) (simp_all add: nnext_def)
  have f: "freeNode M a = Some (freed {a} {} M)"
    using nd by (auto simp: freeNode_def freed_def restrict_map_def fun_eq_iff intro!: arg_cong2 [of _ _ _ _ "\<lambda>f g. M\<lparr>m_nodes := f, m_queues := g\<rparr>"])
  have "dseg (nnext (freed {a} {} M)) pv (Some a) xs None = dseg (nnext M) pv (Some a) xs None"
    using Cons.prems(1) by (intro dseg_cong) (auto simp: nnext_def)
  then have d: "dseg (nnext (freed {a} {} M)) pv (Some a) xs None" using Cons.prems(2) by simp
  have s: "set xs \<subseteq> dom (m_nodes (freed {a} {} M))" using Cons.prems(1,3) by (auto simp: dom_def)
  show ?case using nd nx f Cons.IH [OF _ d s] Cons.prems(1) by (subst free_nodes.simps) simp
qed

lemma free_queue_spec: "qrep M q xs d \<Longrightarrow> freeQueue M (Some q) = Some (freed (set xs) {q} M)"
proof -
  assume q: "qrep M q xs d"
  then have "free_nodes M (first xs) = Some (freed (set xs) {} M)"
    by (intro free_nodes_spec) (auto simp: qrep_def dlist_def)
  then show ?thesis using q by (simp add: freeQueue_def qrep_def) (simp add: freed_def restrict_map_def fun_eq_iff)
qed


lemma free_chain_spec:
  "(\<And>e. e \<in> set es \<Longrightarrow> qlist M (snd e) (qs (fst e))) \<Longrightarrow> distinct (map fst es) \<Longrightarrow> distinct (map snd es) \<Longrightarrow>
    (\<And>e e'. e \<in> set es \<Longrightarrow> e' \<in> set es \<Longrightarrow> e \<noteq> e' \<Longrightarrow> set (qs (fst e)) \<inter> set (qs (fst e')) = {}) \<Longrightarrow>
    free_chain M es = Some (freed (\<Union>e \<in> set es. set (qs (fst e))) (snd ` set es) M)"
proof (induction es arbitrary: M)
  case (Cons e es)
  obtain d where "qrep M (snd e) (qs (fst e)) d" using Cons.prems(1) [of e] by (auto simp: qlist_def)
  then have f: "freeQueue M (Some (snd e)) = Some (freed (set (qs (fst e))) {snd e} M)" by (rule free_queue_spec)
  have ne: "e' \<noteq> e" "snd e' \<noteq> snd e" if e': "e' \<in> set es" for e'
  proof -
    have "snd e' \<in> snd ` set es" using e' by (rule imageI)
    moreover have "snd e \<notin> snd ` set es" using Cons.prems(3) by simp
    ultimately show "snd e' \<noteq> snd e" by metis
    then show "e' \<noteq> e" by auto
  qed
  have q: "qlist (freed (set (qs (fst e))) {snd e} M) (snd e') (qs (fst e'))" if e': "e' \<in> set es" for e'
  proof -
    obtain d' where d': "qrep M (snd e') (qs (fst e')) d'" using Cons.prems(1) [of e'] e' by (auto simp: qlist_def)
    have "set (qs (fst e')) \<inter> set (qs (fst e)) = {}" using Cons.prems(4) [of e' e] ne [OF e'] e' by simp
    then have "qrep (freed (set (qs (fst e))) {snd e} M) (snd e') (qs (fst e')) d'"
      using ne(2) [OF e'] by (intro qrep_frame [OF d']) auto
    then show ?thesis by (auto simp: qlist_def)
  qed
  have "free_chain (freed (set (qs (fst e))) {snd e} M) es =
      Some (freed (\<Union>e \<in> set es. set (qs (fst e))) (snd ` set es) (freed (set (qs (fst e))) {snd e} M))"
    by (rule Cons.IH) (use q Cons.prems(2-4) in auto)
  then show ?case using f by simp
qed simp

lemma free_buckets_spec:
  assumes ok: "hm_ok (l_timeout_queues L)"
  shows "set bkts \<subseteq> {..< hm_cap (l_timeout_queues L)} \<Longrightarrow>
    free_buckets M L bkts = free_chain M (concat (map (\<lambda>j. chain_list (l_timeout_queues L) ! j) bkts))"
proof (induction bkts arbitrary: M)
  case (Cons j bkts)
  have app: "free_chain M (xs @ ys) = Option.bind (free_chain M xs) (\<lambda>M. free_chain M ys)" for M xs ys
    by (induction xs arbitrary: M) (auto split: Option.bind_split)
  have "bucket (l_timeout_queues L) j = Some (chain_list (l_timeout_queues L) ! j)" using bucket_eq [OF ok, of j] Cons.prems by simp
  then show ?case using Cons by (simp add: app cong: Option.bind_cong)
qed simp

lemma freeLawn_spec:
  assumes inv: "lawn_inv L M c"
  shows "freeLawn L M = Some (freed (ran (node_map L)) (ran (queue_map L)) M)"
proof -
  obtain qs where core: "lawn_core L M c qs" using inv by (auto simp: lawn_inv_def)
  note mo = core_maps [OF core] note ok = queues_ok [OF mo]
  let ?m = "l_timeout_queues L" and ?es = "concat (chain_list (l_timeout_queues L))"
  have "map (\<lambda>j. chain_list ?m ! j) [0..<hm_cap ?m] = chain_list ?m"
    using buckets_cap [of ?m] ok map_nth [of "chain_list ?m"] by simp
  then have run: "freeLawn L M = free_chain M ?es"
    using free_buckets_spec [of L "[0..<hm_cap ?m]" M] ok by (simp add: freeLawn_def subset_eq)
  have mem: "e \<in> set ?es \<longleftrightarrow> queue_map L (fst e) = Some (snd e)" for e
    using hm_map_mem [of ?m "fst e" "snd e"] ok by (simp add: entries_of_def)
  have "uniq (=) (mset ?es)" using conjunct1 [OF ok] conjunct2 [OF ok] unfolding hm_ok_def entries_of_def by metis
  then have d1: "distinct (map fst ?es)" by (rule uniq_distinct)
  have inj: "fst e = fst e'" if "e \<in> set ?es" "e' \<in> set ?es" "snd e = snd e'" for e e'
    using core_inj [OF core, of "fst e" "snd e" "fst e'"] mem that by metis
  have "inj_on snd (set ?es)" by (rule inj_onI, rule prod_eqI, rule inj)
  moreover have "distinct ?es" using d1 distinct_map by blast
  ultimately have d2: "distinct (map snd ?es)" by (simp add: distinct_map)
  have run': "free_chain M ?es = Some (freed (\<Union>e \<in> set ?es. set (qs (fst e))) (snd ` set ?es) M)"
  proof (rule free_chain_spec [OF _ d1 d2])
    show "qlist M (snd e) (qs (fst e))" if "e \<in> set ?es" for e using core_queue [OF core] mem that by blast
    show "set (qs (fst e)) \<inter> set (qs (fst e')) = {}" if x: "e \<in> set ?es" "e' \<in> set ?es" "e \<noteq> e'" for e e'
    proof -
      have "fst e \<noteq> fst e'" using d1 x by (auto simp: distinct_map dest: inj_onD)
      then show ?thesis using core_disjoint [OF core] by blast
    qed
  qed
  have r: "snd ` set ?es = ran (queue_map L)" using mem by (force simp: ran_def image_iff)
  have "(\<Union>e \<in> set ?es. set (qs (fst e))) = in_queues qs"
  proof (rule set_eqI)
    fix a
    have "\<exists>e \<in> set ?es. fst e = t" if a: "a \<in> set (qs t)" for t
    proof -
      obtain q where "queue_map L t = Some q" using core_nonempty [OF core a] by blast
      then show ?thesis using mem [of "(t, q)"] by (intro bexI [of _ "(t, q)"]) simp_all
    qed
    then have "(\<exists>e \<in> set ?es. a \<in> set (qs (fst e))) \<longleftrightarrow> (\<exists>t. a \<in> set (qs t))" by blast
    then show "a \<in> (\<Union>e \<in> set ?es. set (qs (fst e))) \<longleftrightarrow> a \<in> in_queues qs" unfolding in_queues_def by blast
  qed
  moreover have "in_queues qs = ran (node_map L)"
  proof (rule set_eqI)
    fix a
    have "a \<in> in_queues qs" if k: "node_map L k = Some a" for k using core_key [OF core k] by (auto simp: in_queues_def)
    then show "a \<in> in_queues qs \<longleftrightarrow> a \<in> ran (node_map L)" using entry_key [OF core, of a] by (auto simp: ran_def)
  qed
  ultimately show ?thesis using run run' r by simp
qed

end
