(* ===== verification/Lawn_Theorems.thy ===== *)
theory Lawn_Theorems
  imports Lawn_Next
begin

unbundle bit_operations_syntax

text \<open>
  The properties of the Lawn store. Memory is arbitrary outside the store: an operation is given fresh
  addresses by malloc, and \<open>stk\<close>, the address that is deleted from the map of queues in place of a
  TTL, is assumed to be no TTL of the store.
\<close>

section \<open>A store to try things on\<close>

definition no_mem :: mem where
  "no_mem = \<lparr>m_nodes = Map.empty, m_queues = Map.empty\<rparr>"

definition good_allocs :: "addr \<Rightarrow> allocs" where
  "good_allocs a = \<lparr>a_node = Some a, a_strndup = True, a_queue = Some a, a_queue_grow = True, a_queue_entry = True,
     a_node_grow = True, a_node_entry = True\<rparr>"

lemma good_allocs_ok:
  "m_nodes M a = None \<Longrightarrow> node_allocs (good_allocs a) M a" "m_queues M a = None \<Longrightarrow> queue_allocs (good_allocs a) M"
  "a_node_grow (good_allocs a)" "a_node_entry (good_allocs a)"
  by (simp_all add: node_allocs_def queue_allocs_def good_allocs_def)

lemma new_store:
  "\<exists>L. newLawn True True True = Some L \<and> lawn_inv L no_mem 0 \<and> live_at L no_mem = Map.empty \<and> queue_map L = Map.empty"
proof -
  obtain L where L: "newLawn True True True = Some L" by (simp add: newLawn_def hashmap_new_def)
  from L inv_new [OF L, of no_mem] show ?thesis by blast
qed

lemma live_none: "live_at L M k = None \<Longrightarrow> node_map L k = None"
  by (simp add: live_at_def)

text \<open>The key a with TTL 5, set at time 0.\<close>

lemma one_timer_memory:
  "map_option (\<lambda>(r, L, M). m_queues M 7)
     (Option.bind (newLawn True True True) (\<lambda>L. set_element_ttl (good_allocs 0) 0 L no_mem [97] 1 5)) = Some None"
  by code_simp

lemma one_timer: "\<exists>L M. lawn_inv L M 0 \<and> live_at L M = [[97] \<mapsto> 5] \<and> dom (queue_map L) = {5} \<and> m_queues M 7 = None"
proof -
  obtain L where L: "lawn_inv L no_mem 0" "live_at L no_mem = Map.empty" "queue_map L = Map.empty" "newLawn True True True = Some L"
    using new_store by blast
  have al: "node_allocs (good_allocs 0) no_mem 0" "queue_allocs (good_allocs 0) no_mem"
    by (simp_all add: good_allocs_ok no_mem_def)
  have nm: "node_map L (take 1 [97]) = None" using L(2) by (intro live_none [of L no_mem]) simp
  have t: "(0 :: nat) \<le> unat (0 :: u64)" "unat (0 :: u64) + unat (5 :: u64) < 2 ^ 64" by simp_all
  obtain L' M' where s: "lawn_inv L' M' (unat (0 :: u64))" "set_element_ttl (good_allocs 0) 0 L no_mem [97] 1 5 = Some (LAWN_OK, L', M')"
      "live_at L' M' = (live_at L no_mem)(take 1 [97] \<mapsto> unat (0 :: u64) + unat (5 :: u64))"
      "dom (queue_map L') = insert 5 (dom (queue_map L))"
    using inv_set [OF L(1) t al good_allocs_ok(3,4) nm] by blast
  have "m_queues M' 7 = None" using one_timer_memory s(2) L(4) by simp
  then show ?thesis using s L(2,3) by (intro exI [of _ L'] exI [of _ M']) simp
qed

lemma not_ttl: "dom (queue_map L) = {5} \<Longrightarrow> queue_map L 3 = None"
proof -
  assume d: "dom (queue_map L) = {5}"
  have "(3 :: u64) \<notin> {5}" by simp
  then show ?thesis using d domIff by metis
qed


section \<open>Properties\<close>

text \<open>
  C20: set_element_ttl with a key that is not set (the first len bytes of the string), when its
  allocations succeed and the deadline fits in 64 bits: it returns LAWN_OK, the key now expires
  ttl milliseconds from now and is what get_element_exp reports, no other timer changes, timer_count grows by one, the
  TTL has a queue, and the representation invariant of the store (the intrusive queues sorted by
  expiration, both hash maps, the cached next expiration) is kept.
\<close>

theorem lawn_set_adds:
  assumes "lawn_inv L M c" and "c \<le> unat now" and "unat now + unat ttl < 2 ^ 64"
    and "node_allocs al M a" and "queue_map L ttl = None \<Longrightarrow> queue_allocs al M" and "a_node_grow al" and "a_node_entry al"
    and "live_at L M (take len element) = None"
  shows "\<exists>L' M'. set_element_ttl al now L M element len ttl = Some (LAWN_OK, L', M') \<and> lawn_inv L' M' (unat now) \<and>
    live_at L' M' = (live_at L M)(take len element \<mapsto> unat now + unat ttl) \<and>
    get_element_exp L' M' (take len element) = Some (now + ttl) \<and>
    timer_count (Some L') = Suc (timer_count (Some L)) \<and> dom (queue_map L') = insert ttl (dom (queue_map L))"
proof -
  let ?k = "take len element"
  obtain L' M' where s: "set_element_ttl al now L M element len ttl = Some (LAWN_OK, L', M')" "lawn_inv L' M' (unat now)"
      "live_at L' M' = (live_at L M)(?k \<mapsto> unat now + unat ttl)" "dom (queue_map L') = insert ttl (dom (queue_map L))"
    using inv_set [OF assms(1-7) live_none [OF assms(8)]] by blast
  have "get_element_exp L' M' ?k = Some (now + ttl)"
    using inv_get [OF s(2), of ?k] unfolding s(3) by simp
  moreover have "timer_count (Some L') = Suc (timer_count (Some L))"
    unfolding inv_count(1) [OF s(2)] inv_count(1) [OF assms(1)] s(3)
    by (rule card_dom_insert [OF inv_count(2) [OF assms(1)] assms(8)])
  ultimately show ?thesis using s by blast
qed

lemma lawn_set_adds_witness:
  "\<exists>L L' M'. set_element_ttl (good_allocs 4) 7 L no_mem [97, 98] 2 5 = Some (LAWN_OK, L', M') \<and>
     get_element_exp L' M' [97, 98] = Some 12"
proof -
  obtain L where L: "lawn_inv L no_mem 0" "live_at L no_mem = Map.empty" using new_store by blast
  have al: "node_allocs (good_allocs 4) no_mem 4" "queue_allocs (good_allocs 4) no_mem"
    by (simp_all add: good_allocs_ok no_mem_def)
  have "live_at L no_mem (take 2 [97, 98]) = None" using L(2) by simp
  from lawn_set_adds [OF L(1) _ _ al good_allocs_ok(3,4) this, of 7 5] show ?thesis by auto
qed

text \<open>
  C21: del_element_exp always returns LAWN_OK, removes exactly the given key, frees its node, and keeps
  the invariant; a key that is not set is ignored. The number of queues never shrinks: the queue of
  the TTL stays, also when it has become empty.
\<close>

theorem lawn_del_removes:
  assumes "lawn_inv L M c" and "queue_map L stk = None"
  shows "\<exists>L' M'. del_element_exp stk L M k = Some (LAWN_OK, L', M') \<and> lawn_inv L' M' c \<and>
    live_at L' M' = (live_at L M)(k := None) \<and> get_element_exp L' M' k = Some (- 1) \<and>
    timer_count (Some L') = (if live_at L M k = None then timer_count (Some L) else timer_count (Some L) - 1) \<and>
    (\<forall>a. node_map L k = Some a \<longrightarrow> m_nodes M' a = None) \<and>
    queue_map L' = queue_map L \<and> ttl_count (Some L') = ttl_count (Some L)"
proof -
  obtain L' M' where d: "del_element_exp stk L M k = Some (LAWN_OK, L', M')" "lawn_inv L' M' c"
      "live_at L' M' = (live_at L M)(k := None)" "queue_map L' = queue_map L" "\<forall>a. node_map L k = Some a \<longrightarrow> m_nodes M' a = None"
    using inv_del [OF assms] by blast
  have "get_element_exp L' M' k = Some (- 1)" using inv_get [OF d(2), of k] unfolding d(3) by simp
  moreover have "timer_count (Some L') = (if live_at L M k = None then timer_count (Some L) else timer_count (Some L) - 1)"
    unfolding inv_count(1) [OF d(2)] inv_count(1) [OF assms(1)] d(3) by (auto simp: domIff)
  moreover have "ttl_count (Some L') = ttl_count (Some L)"
    unfolding inv_count_ttls [OF d(2)] inv_count_ttls [OF assms(1)] d(4) by (rule refl)
  ultimately show ?thesis using d by blast
qed

lemma lawn_del_removes_witness:
  "\<exists>L M L' M'. live_at L M [97] = Some 5 \<and> del_element_exp 3 L M [97] = Some (LAWN_OK, L', M') \<and> live_at L' M' = Map.empty"
proof -
  obtain L M where L: "lawn_inv L M 0" "live_at L M = [[97] \<mapsto> 5]" "dom (queue_map L) = {5}" using one_timer by blast
  obtain L' M' where "del_element_exp 3 L M [97] = Some (LAWN_OK, L', M')" "live_at L' M' = (live_at L M)([97] := None)"
    using lawn_del_removes [OF L(1) not_ttl [OF L(3)], of "[97]"] by blast
  then show ?thesis using L(2) by (intro exI [of _ L] exI [of _ M] exI [of _ L'] exI [of _ M']) simp
qed

text \<open>
  C22: pop_expired at a given time returns a queue with exactly the timers whose expiration has come,
  each once, as a well-formed doubly linked list with an exact length; the other timers stay with
  their deadlines, and the invariant holds again. The next expiration it leaves is exact: 0 when no
  timer is left, and otherwise the least deadline of those left. The loops over the hash map and over
  the queues end and are never undefined.
\<close>

theorem lawn_pop_expired_fires:
  assumes "lawn_inv L M c" and "m_queues M r = None" and "queue_map L stk = None"
  shows "\<exists>L' M' out. pop_expired (Some r) stk time L M = Some (r, L', M') \<and> lawn_inv L' M' c \<and>
    qrep M' r out 0 \<and> distinct (map (entry_of M') out) \<and>
    set (map (entry_of M') out) = {(Some k, e) | k e. live_at L M k = Some e \<and> e \<le> unat time} \<and>
    live_at L' M' = (\<lambda>k. case live_at L M k of Some e \<Rightarrow> if unat time < e then Some e else None | None \<Rightarrow> None) \<and>
    queue_map L' = queue_map L \<and>
    (if live_at L' M' = Map.empty then l_next_expiration L' = 0
     else unat (l_next_expiration L') \<in> ran (live_at L' M') \<and> (\<forall>e \<in> ran (live_at L' M'). unat (l_next_expiration L') \<le> e))"
proof -
  obtain L' M' out where p: "pop_expired (Some r) stk time L M = Some (r, L', M')" "lawn_inv L' M' c" "qrep M' r out 0"
      "distinct (map (entry_of M') out)" "set (map (entry_of M') out) = expired_at (unat time) L M"
      "live_at L' M' = alive_at (unat time) L M" "queue_map L' = queue_map L"
      "if live_at L' M' = Map.empty then l_next_expiration L' = 0
       else unat (l_next_expiration L') \<in> ran (live_at L' M') \<and> (\<forall>e \<in> ran (live_at L' M'). unat (l_next_expiration L') \<le> e)"
    using pop_expired_spec [OF assms] by blast
  then show ?thesis unfolding expired_at_def alive_at_def by blast
qed

text \<open>The timer with deadline 5: before it is due the pass finds its deadline, then it is returned.\<close>

lemma lawn_pop_expired_fires_witness:
  "\<exists>L M L' M' out L'' M''. pop_expired (Some 7) 3 5 L M = Some (7, L', M') \<and> qrep M' 7 out 0 \<and>
     set (map (entry_of M') out) = {(Some [97], 5)} \<and> live_at L' M' = Map.empty \<and> l_next_expiration L' = 0 \<and>
     pop_expired (Some 7) 3 4 L M = Some (7, L'', M'') \<and> unat (l_next_expiration L'') = 5"
proof -
  obtain L M where L: "lawn_inv L M 0" "live_at L M = [[97] \<mapsto> 5]" "dom (queue_map L) = {5}" "m_queues M 7 = None"
    using one_timer by blast
  obtain L' M' out where p: "pop_expired (Some 7) 3 5 L M = Some (7, L', M')" "qrep M' 7 out 0"
      "set (map (entry_of M') out) = {(Some k, e) | k e. live_at L M k = Some e \<and> e \<le> unat (5 :: u64)}"
      "live_at L' M' = (\<lambda>k. case live_at L M k of Some e \<Rightarrow> if unat (5 :: u64) < e then Some e else None | None \<Rightarrow> None)"
      "if live_at L' M' = Map.empty then l_next_expiration L' = 0
       else unat (l_next_expiration L') \<in> ran (live_at L' M') \<and> (\<forall>e \<in> ran (live_at L' M'). unat (l_next_expiration L') \<le> e)"
    using lawn_pop_expired_fires [OF L(1,4) not_ttl [OF L(3)], of 5] by (elim exE conjE)
  have out: "{(Some k, e) | k e. live_at L M k = Some e \<and> e \<le> unat (5 :: u64)} = {(Some [97], 5)}" using L(2) by (auto split: if_splits)
  have E: "live_at L' M' = Map.empty" unfolding p(4) L(2) by (auto simp: fun_eq_iff)
  have zero: "l_next_expiration L' = 0" using p(5) E by simp
  obtain L'' M'' where w: "pop_expired (Some 7) 3 4 L M = Some (7, L'', M'')"
      "live_at L'' M'' = (\<lambda>k. case live_at L M k of Some e \<Rightarrow> if unat (4 :: u64) < e then Some e else None | None \<Rightarrow> None)"
      "if live_at L'' M'' = Map.empty then l_next_expiration L'' = 0
       else unat (l_next_expiration L'') \<in> ran (live_at L'' M'') \<and> (\<forall>e \<in> ran (live_at L'' M''). unat (l_next_expiration L'') \<le> e)"
    using lawn_pop_expired_fires [OF L(1,4) not_ttl [OF L(3)], of 4] by (elim exE conjE)
  have F: "live_at L'' M'' = [[97] \<mapsto> 5]" unfolding w(2) L(2) by (auto simp: fun_eq_iff)
  have five: "unat (l_next_expiration L'') = 5" using w(3) unfolding F by simp
  have fired: "set (map (entry_of M') out) = {(Some [97], 5)}" unfolding p(3) by (rule out)
  show ?thesis by (intro exI conjI) (rule p(1), rule p(2), rule fired, rule E, rule zero, rule w(1), rule five)
qed

text \<open>
  next_at is -1 for an empty store and otherwise the least expiration of all timers, whether it is
  cached or found by the scan over all queues; pop_next removes and returns a timer with the least
  expiration, or NULL when there is none. Both keep the invariant.
\<close>

theorem lawn_nearest_timer:
  assumes "lawn_inv L M c" and "queue_map L stk = None"
  shows "(\<exists>v L'. next_at L M = Some (v, L') \<and> lawn_inv L' M c \<and> live_at L' M = live_at L M \<and>
      (if live_at L M = Map.empty then v = - 1 else unat v \<in> ran (live_at L M) \<and> (\<forall>e \<in> ran (live_at L M). unat v \<le> e))) \<and>
    (\<exists>r L' M'. pop_next stk L M = Some (r, L', M') \<and> lawn_inv L' M' c \<and>
      (case r of None \<Rightarrow> live_at L M = Map.empty \<and> live_at L' M' = Map.empty
       | Some a \<Rightarrow> \<exists>k e. entry_of M' a = (Some k, e) \<and> live_at L M k = Some e \<and> (\<forall>e' \<in> ran (live_at L M). e \<le> e') \<and>
           live_at L' M' = (live_at L M)(k := None)))"
proof
  have least: "least_at L M e \<longleftrightarrow> e \<in> ran (live_at L M) \<and> (\<forall>e' \<in> ran (live_at L M). e \<le> e')" for e
    by (auto simp: least_at_def ran_def)
  show "\<exists>v L'. next_at L M = Some (v, L') \<and> lawn_inv L' M c \<and> live_at L' M = live_at L M \<and>
      (if live_at L M = Map.empty then v = - 1 else unat v \<in> ran (live_at L M) \<and> (\<forall>e \<in> ran (live_at L M). unat v \<le> e))"
    using next_at_spec [OF assms(1)] unfolding least by (auto split: if_splits)
  obtain r L' M' where p: "pop_next stk L M = Some (r, L', M')" "lawn_inv L' M' c"
      "case r of None \<Rightarrow> live_at L M = Map.empty \<and> live_at L' M' = Map.empty
       | Some a \<Rightarrow> \<exists>k e. entry_of M' a = (Some k, e) \<and> live_at L M k = Some e \<and> least_at L M e \<and> live_at L' M' = (live_at L M)(k := None)"
    using pop_next_spec [OF assms] by blast
  show "\<exists>r L' M'. pop_next stk L M = Some (r, L', M') \<and> lawn_inv L' M' c \<and>
      (case r of None \<Rightarrow> live_at L M = Map.empty \<and> live_at L' M' = Map.empty
       | Some a \<Rightarrow> \<exists>k e. entry_of M' a = (Some k, e) \<and> live_at L M k = Some e \<and> (\<forall>e' \<in> ran (live_at L M). e \<le> e') \<and>
           live_at L' M' = (live_at L M)(k := None))"
    using p unfolding least by (intro exI [of _ r] exI [of _ L'] exI [of _ M']) (cases r; auto)
qed

lemma lawn_nearest_timer_witness:
  "\<exists>L M v L' a L'' M''. live_at L M [97] = Some 5 \<and> next_at L M = Some (v, L') \<and> unat v = 5 \<and>
     pop_next 3 L M = Some (Some a, L'', M'') \<and> live_at L'' M'' = Map.empty"
proof -
  obtain L M where L: "lawn_inv L M 0" "live_at L M = [[97] \<mapsto> 5]" "dom (queue_map L) = {5}" using one_timer by blast
  have ne: "live_at L M \<noteq> Map.empty" "ran (live_at L M) = {5}" unfolding L(2) by (simp_all add: fun_eq_iff)
  note n = lawn_nearest_timer [OF L(1) not_ttl [OF L(3)]]
  obtain v L' where v: "next_at L M = Some (v, L')" "unat v = 5" using n ne by auto
  obtain a k e L'' M'' where p: "pop_next 3 L M = Some (Some a, L'', M'')" "live_at L M k = Some e" "live_at L'' M'' = (live_at L M)(k := None)"
    using n ne(1) by (auto split: option.splits)
  have "live_at L'' M'' = Map.empty" using p(2,3) L(2) by (auto simp: fun_eq_iff split: if_splits)
  then show ?thesis using v p(1) L(2) by (intro exI [of _ L] exI [of _ M]) auto
qed

text \<open>
  C23: freeLawn frees the queue of every TTL and the node of every key, each once (a second free would
  be undefined), and nothing else.
\<close>

theorem lawn_free_frees_all:
  assumes "lawn_inv L M c"
  shows "\<exists>M'. freeLawn L M = Some M' \<and> (\<forall>a. m_nodes M' a = (if a \<in> ran (hm_map (l_element_nodes L)) then None else m_nodes M a)) \<and>
    (\<forall>q. m_queues M' q = (if q \<in> ran (hm_map (l_timeout_queues L)) then None else m_queues M q))"
  using freeLawn_spec [OF assms] by simp

lemma lawn_free_frees_all_witness:
  "\<exists>L M M' a. hm_map (l_element_nodes L) [97] = Some a \<and> freeLawn L M = Some M' \<and> m_nodes M' a = None"
proof -
  obtain L M where L: "lawn_inv L M 0" "live_at L M = [[97] \<mapsto> 5]" using one_timer by blast
  obtain a where a: "node_map L [97] = Some a" using live_dom [of L M] L(2) by (metis domD domIff fun_upd_same option.distinct(1))
  obtain M' where M': "freeLawn L M = Some M'" "m_nodes M' a = (if a \<in> ran (node_map L) then None else m_nodes M a)"
    using lawn_free_frees_all [OF L(1)] by blast
  have "a \<in> ran (node_map L)" using a by (rule ranI)
  then show ?thesis using a M' by (intro exI [of _ L] exI [of _ M] exI [of _ M'] exI [of _ a]) simp
qed


lemma core_same_maps:
  "lawn_core L M c qs \<Longrightarrow> maps_ok L' \<Longrightarrow> queue_map L' = queue_map L \<Longrightarrow> node_map L' = node_map L \<Longrightarrow> lawn_core L' M c qs"
  unfolding lawn_core_def by simp

lemma queue_map_full:
  assumes core: "lawn_core L M c qs" and q: "queue_map L ttl = None" "a_queue al = Some q" "m_queues M q = None"
    and full: "\<not> (a_queue_entry al \<and> (hashmap_needs_to_grow (l_timeout_queues L) \<longrightarrow> a_queue_grow al))"
  shows "\<exists>L' M'. queue_step al L M ttl None = Some (ENOMEM, q, L', M') \<and> lawn_core L' M' c qs \<and>
    queue_map L' = queue_map L \<and> l_element_nodes L' = l_element_nodes L \<and> l_next_expiration L' = l_next_expiration L \<and>
    m_nodes M' = m_nodes M"
proof -
  obtain m where m: "hashmap_add (l_timeout_queues L) ttl q (a_queue_grow al) (a_queue_entry al) = Some (ENOMEM, m)"
      "maps_ok (L\<lparr>l_timeout_queues := m\<rparr>)" "hm_map m = queue_map L"
    using add_queue_map [OF core_maps [OF core] q(1), of q "a_queue_grow al" "a_queue_entry al"] full by auto
  let ?M = "M\<lparr>m_queues := (m_queues M)(q \<mapsto> \<lparr>q_head = None, q_tail = None, q_len = 0\<rparr>)\<rparr>"
  have nr: "q \<notin> ran (queue_map L)" using queue_in_memory [OF core, of q] q(3) by blast
  have "lawn_core L ?M c qs" by (rule core_frame [OF core]) (use nr in auto)
  then have "lawn_core (L\<lparr>l_timeout_queues := m\<rparr>) ?M c qs" by (rule core_same_maps) (use m(2,3) in simp_all)
  then show ?thesis using m q(2) by (simp add: queue_step_def newQueue_def)
qed

text \<open>
  set_element_ttl when an allocation of a hash map fails. If the new TTL cannot be entered in the
  map of queues, the result is LAWN_ERR and the store is as before (the node and the queue that were
  allocated are leaked). If the key cannot be entered in the map of nodes, the result is also LAWN_ERR
  and the key is not set, but the node stays at the end of the queue of its TTL, so that pop_expired
  will return it.
\<close>

theorem lawn_set_out_of_memory:
  assumes "lawn_inv L M c" and "node_allocs al M a" and "live_at L M (take len element) = None"
  shows "(queue_map L ttl = None \<and> a_queue al = Some q \<and> m_queues M q = None \<and>
      \<not> (a_queue_entry al \<and> (hashmap_needs_to_grow (l_timeout_queues L) \<longrightarrow> a_queue_grow al)) \<longrightarrow>
      (\<exists>L' M'. set_element_ttl al now L M element len ttl = Some (LAWN_ERR, L', M') \<and> lawn_inv L' M' c \<and>
         live_at L' M' = live_at L M \<and> queue_map L' = queue_map L \<and> m_nodes M' a \<noteq> None)) \<and>
    ((queue_map L ttl = None \<longrightarrow> queue_allocs al M) \<and>
      \<not> (a_node_entry al \<and> (hashmap_needs_to_grow (l_element_nodes L) \<longrightarrow> a_node_grow al)) \<longrightarrow>
      (\<exists>L' M' q xs d. set_element_ttl al now L M element len ttl = Some (LAWN_ERR, L', M') \<and>
         node_map L' = node_map L \<and> queue_map L' ttl = Some q \<and> qrep M' q (xs @ [a]) d))"
proof (intro conjI impI)
  obtain qs where core: "lawn_core L M c qs" and nx: "next_ok L M qs" using assms(1) by (auto simp: lawn_inv_def)
  note none = live_none [OF assms(3)] note mo = core_maps [OF core]
  let ?k = "take len element"
  obtain M1 nd where M1: "NewNode M al now element len ttl = Some (a, M1)" "lawn_core L M1 c qs" "m_queues M1 = m_queues M"
      "m_nodes M1 = (m_nodes M)(a \<mapsto> nd)" "a \<notin> in_queues qs" "n_element nd = Some ?k" "n_next nd = None" "n_prev nd = None"
    using new_node_core [OF core assms(2)] by blast
  have e1: "exp_of M1 b = exp_of M b" if "b \<noteq> a" for b using M1(4) that by (simp add: exp_of_def)
  {
    assume f: "queue_map L ttl = None \<and> a_queue al = Some q \<and> m_queues M q = None \<and>
      \<not> (a_queue_entry al \<and> (hashmap_needs_to_grow (l_timeout_queues L) \<longrightarrow> a_queue_grow al))"
    then have q: "queue_map L ttl = None" "a_queue al = Some q" "m_queues M1 q = None"
        "\<not> (a_queue_entry al \<and> (hashmap_needs_to_grow (l_timeout_queues L) \<longrightarrow> a_queue_grow al))" using M1(3) by auto
    obtain L2 M2 where s: "queue_step al L M1 ttl None = Some (ENOMEM, q, L2, M2)" "lawn_core L2 M2 c qs"
        "queue_map L2 = queue_map L" "l_element_nodes L2 = l_element_nodes L" "l_next_expiration L2 = l_next_expiration L"
        "m_nodes M2 = m_nodes M1"
      using queue_map_full [OF M1(2) q] by blast
    have e: "exp_of M2 b = exp_of M b" if "b \<in> in_queues qs" for b
    proof -
      have "b \<noteq> a" using that M1(5) by auto
      then show ?thesis using e1 [of b] s(6) by (simp add: exp_of_def)
    qed
    have "next_ok L2 M2 qs" using nx s(5) e by (auto simp: next_ok_def)
    then have "lawn_inv L2 M2 c" using s(2) by (auto simp: lawn_inv_def)
    moreover have "live_at L2 M2 k = live_at L M k" for k
    proof (cases "node_map L k")
      case (Some b)
      then have "b \<in> in_queues qs" using core_key [OF core, of k b] by (auto simp: in_queues_def)
      then show ?thesis using Some e s(4) by (simp add: live_at_def)
    qed (simp add: live_at_def s(4))
    moreover have "set_element_ttl al now L M element len ttl = Some (LAWN_ERR, L2, M2)"
      unfolding set_eq using M1(1) find_queue [OF mo] q(1) s(1) by simp
    ultimately show "\<exists>L' M'. set_element_ttl al now L M element len ttl = Some (LAWN_ERR, L', M') \<and> lawn_inv L' M' c \<and>
         live_at L' M' = live_at L M \<and> queue_map L' = queue_map L \<and> m_nodes M' a \<noteq> None"
      using s(3,6) M1(4) by (intro exI [of _ L2] exI [of _ M2]) auto
  next
    assume f: "(queue_map L ttl = None \<longrightarrow> queue_allocs al M) \<and>
      \<not> (a_node_entry al \<and> (hashmap_needs_to_grow (l_element_nodes L) \<longrightarrow> a_node_grow al))"
    then have qa: "queue_map L ttl = None \<Longrightarrow> queue_allocs al M1" using M1(3) by (simp add: queue_allocs_def)
    obtain q L2 M2 where s: "queue_step al L M1 ttl (queue_map L ttl) = Some (OK, q, L2, M2)" "lawn_core L2 M2 c qs"
        "queue_map L2 = (queue_map L)(ttl \<mapsto> q)" "l_element_nodes L2 = l_element_nodes L" "m_nodes M2 = m_nodes M1"
      using queue_step_spec [OF M1(2) qa] by blast
    have n2: "m_nodes M2 a = Some nd" using s(5) M1(4) by simp
    have qt: "queue_map L2 ttl = Some q" using s(3) by simp
    obtain d where qr: "qrep M2 q (qs ttl) d" using core_queue [OF s(2) qt] by (auto simp: qlist_def)
    have nin: "a \<notin> set (qs ttl)" using M1(5) by (auto simp: in_queues_def)
    obtain M3 where M3: "queuePush M2 q a = Some M3" "qrep M3 q (qs ttl @ [a]) d" "relinked M2 M3 q (set (qs ttl @ [a]))"
      using push_spec [OF qr n2 M1(7,8) nin] by blast
    have pl: "payload M3 = payload M2" using M3(3) by (simp add: relinked_def)
    obtain nd3 where nd3: "m_nodes M3 a = Some nd3" "n_element nd3 = Some ?k" using payload_node [OF pl n2] M1(6) by auto
    obtain e ok' ov m where m: "hashmap_set (l_element_nodes L2) ?k a (a_node_grow al) (a_node_entry al) = Some (e, ok', ov, m)"
        "e = ENOMEM" "hm_map m = node_map L2"
      using set_node_map [OF core_maps [OF s(2)], of ?k a "a_node_grow al" "a_node_entry al"] f none s(4) by auto
    have "addNodeToMapping L2 M3 al a = Some (LAWN_ERR, L2\<lparr>l_element_nodes := m\<rparr>)"
      using nd3 m(1,2) by (simp add: addNodeToMapping_def)
    then have "set_element_ttl al now L M element len ttl = Some (LAWN_ERR, L2\<lparr>l_element_nodes := m\<rparr>, M3)"
      unfolding set_eq using M1(1) find_queue [OF mo] s(1) M3(1) by simp
    then show "\<exists>L' M' q xs d. set_element_ttl al now L M element len ttl = Some (LAWN_ERR, L', M') \<and>
         node_map L' = node_map L \<and> queue_map L' ttl = Some q \<and> qrep M' q (xs @ [a]) d"
      using m(3) s(4) qt M3(2) by (intro exI [of _ "L2\<lparr>l_element_nodes := m\<rparr>"] exI [of _ M3] exI [of _ q] exI [of _ "qs ttl"] exI [of _ d]) simp
  }
qed

lemma lawn_set_out_of_memory_witness:
  "\<exists>L L' M'. set_element_ttl ((good_allocs 4)\<lparr>a_queue_grow := False\<rparr>) 7 L no_mem [97] 1 5 = Some (LAWN_ERR, L', M') \<and>
     live_at L' M' = Map.empty \<and> m_nodes M' 4 \<noteq> None"
proof -
  let ?al = "(good_allocs 4)\<lparr>a_queue_grow := False\<rparr>"
  obtain L where L: "newLawn True True True = Some L" "lawn_inv L no_mem 0" "live_at L no_mem = Map.empty" "queue_map L = Map.empty"
    using new_store by blast
  have g: "hashmap_needs_to_grow (l_timeout_queues L)" using L(1)
    by (auto simp: newLawn_def hashmap_new_def hashmap_init_def hashmap_needs_to_grow_def)
  have al: "node_allocs ?al no_mem 4" by (simp add: node_allocs_def good_allocs_def no_mem_def)
  have none: "live_at L no_mem (take 1 [97]) = None" using L(3) by simp
  have "queue_map L 5 = None \<and> a_queue ?al = Some 4 \<and> m_queues no_mem 4 = None \<and>
      \<not> (a_queue_entry ?al \<and> (hashmap_needs_to_grow (l_timeout_queues L) \<longrightarrow> a_queue_grow ?al))"
    using L(4) g by (simp add: good_allocs_def no_mem_def)
  then show ?thesis using conjunct1 [OF lawn_set_out_of_memory [OF L(2) al none, of 5 4 7]] L(3) by metis
qed

text \<open>
  Setting a key again does not replace its timer: the old node stays in the queue of the old TTL, and
  when it expires, pop_expired removes the key, although its new deadline is later.
\<close>

definition set_twice :: "(int \<times> int \<times> nat \<times> u64 \<times> nat option \<times> u64) option" where
  "set_twice = do {
     L \<leftarrow> newLawn True True True;
     (r1, L, M) \<leftarrow> set_element_ttl (good_allocs 0) 0 L no_mem [97] 1 5;
     (r2, L, M) \<leftarrow> set_element_ttl (good_allocs 1) 0 L M [97] 1 10;
     before \<leftarrow> get_element_exp L M [97];
     (q, L', M') \<leftarrow> pop_expired (Some 2) 3 5 L M;
     after \<leftarrow> get_element_exp L' M' [97];
     Some (r1, r2, timer_count (Some L), before, map_option q_len (m_queues M' q), after)
   }"

lemma lawn_update_loses: "set_twice = Some (LAWN_OK, LAWN_OK, 1, 10, Some 1, - 1)"
  by code_simp

end
