(* ===== verification/Kern_Wheel.thy ===== *)
theory Kern_Wheel
  imports Prelude
begin

unbundle bit_operations_syntax

text \<open>
  The timer wheel of the Linux kernel that the article compares Lawn with,
  article/src/c/wheel/kernel_impls/linux_kern_timer.c and .h: definitions.

  \<^item> Configuration: 64 bit, HZ = 1000 (nine levels), CONFIG_SMP, CONFIG_NO_HZ_COMMON and CONFIG_HOTPLUG_CPU
    on; PREEMPT_RT and the debugging options off.
  \<^item> The lists of list.h are lists of timer addresses; \<open>t_entry\<close> of a timer is the list that its entry
    is linked into, None where pprev is NULL. An operation of list.h on an entry that is in no list is
    undefined (None).
  \<^item> The time comparisons of jiffies.h and find_next_bit are fields of the record \<open>kapi\<close>.
  \<^item> Every operation runs alone: taking a lock has no effect, and a loop that waits for another CPU is
    None. \<open>k_cpu\<close> is the CPU that runs, \<open>k_target\<close> what get_nohz_timer_target returns, \<open>k_kicks\<close> the CPUs
    that wake_up_nohz_cpu was called for. The callbacks are the parameter \<open>call\<close>; \<open>k_world\<close> is whatever
    else they change.
\<close>

section \<open>Constants\<close>

type_synonym u32 = "32 word"

definition HZ :: nat where "HZ = 1000"

definition LVL_CLK_SHIFT :: nat where "LVL_CLK_SHIFT = 3"
definition LVL_CLK_DIV :: u64 where "LVL_CLK_DIV = push_bit LVL_CLK_SHIFT 1"
definition LVL_CLK_MASK :: u64 where "LVL_CLK_MASK = LVL_CLK_DIV - 1"
definition LVL_SHIFT :: "nat \<Rightarrow> nat" where "LVL_SHIFT n = n * LVL_CLK_SHIFT"
definition LVL_GRAN :: "nat \<Rightarrow> u64" where "LVL_GRAN n = push_bit (LVL_SHIFT n) 1"
definition LVL_BITS :: nat where "LVL_BITS = 6"
definition LVL_SIZE :: u64 where "LVL_SIZE = push_bit LVL_BITS 1"
definition LVL_START :: "nat \<Rightarrow> u64" where "LVL_START n = push_bit ((n - 1) * LVL_CLK_SHIFT) (LVL_SIZE - 1)"
definition LVL_MASK :: u64 where "LVL_MASK = LVL_SIZE - 1"
definition LVL_OFFS :: "nat \<Rightarrow> u64" where "LVL_OFFS n = of_nat n * LVL_SIZE"
definition LVL_DEPTH :: nat where "LVL_DEPTH = (if HZ > 100 then 9 else 8)"
definition WHEEL_TIMEOUT_CUTOFF :: u64 where "WHEEL_TIMEOUT_CUTOFF = LVL_START LVL_DEPTH"
definition WHEEL_TIMEOUT_MAX :: u64 where "WHEEL_TIMEOUT_MAX = WHEEL_TIMEOUT_CUTOFF - LVL_GRAN (LVL_DEPTH - 1)"
definition WHEEL_SIZE :: nat where "WHEEL_SIZE = unat LVL_SIZE * LVL_DEPTH"
definition NR_BASES :: nat where "NR_BASES = 2"
definition BASE_STD :: nat where "BASE_STD = 0"
definition BASE_DEF :: nat where "BASE_DEF = 1"

definition TIMER_CPUMASK :: u32 where "TIMER_CPUMASK = 0x0003FFFF"
definition TIMER_MIGRATING :: u32 where "TIMER_MIGRATING = 0x00040000"
definition TIMER_BASEMASK :: u32 where "TIMER_BASEMASK = TIMER_CPUMASK OR TIMER_MIGRATING"
definition TIMER_DEFERRABLE :: u32 where "TIMER_DEFERRABLE = 0x00080000"
definition TIMER_PINNED :: u32 where "TIMER_PINNED = 0x00100000"
definition TIMER_IRQSAFE :: u32 where "TIMER_IRQSAFE = 0x00200000"
definition TIMER_ARRAYSHIFT :: nat where "TIMER_ARRAYSHIFT = 22"
definition TIMER_ARRAYMASK :: u32 where "TIMER_ARRAYMASK = 0xFFC00000"
definition NEXT_TIMER_MAX_DELTA :: u64 where "NEXT_TIMER_MAX_DELTA = push_bit 30 1 - 1"
definition MOD_TIMER_PENDING_ONLY :: u32 where "MOD_TIMER_PENDING_ONLY = 0x01"
definition MOD_TIMER_REDUCE :: u32 where "MOD_TIMER_REDUCE = 0x02"

section \<open>Data\<close>

text \<open>The macros of jiffies.h and the bitmap search, which are not part of this file.\<close>

record kapi =
  time_after :: "u64 \<Rightarrow> u64 \<Rightarrow> bool"
  time_after_eq :: "u64 \<Rightarrow> u64 \<Rightarrow> bool"
  time_before :: "u64 \<Rightarrow> u64 \<Rightarrow> bool"
  time_before_eq :: "u64 \<Rightarrow> u64 \<Rightarrow> bool"
  find_next_bit :: "(nat \<Rightarrow> bool) \<Rightarrow> nat \<Rightarrow> nat \<Rightarrow> nat"

text \<open>A base is timer_bases[w] of a CPU: the pair of the CPU and w.\<close>

type_synonym base_id = "nat \<times> nat"

datatype klist = Bucket base_id nat | Head base_id nat

record timer_list =
  t_entry :: "klist option"
  t_expires :: u64
  t_function :: "nat option"
  t_flags :: u32

record timer_base =
  running_timer :: "addr option"
  b_clk :: u64
  b_next_expiry :: u64
  b_cpu :: nat
  is_idle :: bool
  must_forward_clk :: bool
  pending_map :: "nat \<Rightarrow> bool"
  vectors :: "nat \<Rightarrow> addr list"
  b_heads :: "nat \<Rightarrow> addr list"

record 'w kst =
  k_api :: kapi
  k_timers :: "addr \<rightharpoonup> timer_list"
  k_bases :: "base_id \<Rightarrow> timer_base"
  k_jiffies :: u64
  k_cpu :: nat
  k_target :: nat
  k_nohz_active :: bool
  k_migration :: bool
  k_full_cpus :: "nat set"
  k_kicks :: "nat list"
  k_world :: 'w

definition on_base :: "'w kst \<Rightarrow> base_id \<Rightarrow> (timer_base \<Rightarrow> timer_base) \<Rightarrow> 'w kst" where
  "on_base st b f = st\<lparr>k_bases := (k_bases st)(b := f (k_bases st b))\<rparr>"

definition on_timer :: "'w kst \<Rightarrow> addr \<Rightarrow> (timer_list \<Rightarrow> timer_list) \<Rightarrow> 'w kst option" where
  "on_timer st t f = do { tm \<leftarrow> k_timers st t; Some (st\<lparr>k_timers := (k_timers st)(t \<mapsto> f tm)\<rparr>) }"

fun klist_of :: "'w kst \<Rightarrow> klist \<Rightarrow> addr list" where
  "klist_of st (Bucket b i) = vectors (k_bases st b) i"
| "klist_of st (Head b i) = b_heads (k_bases st b) i"

fun set_klist :: "'w kst \<Rightarrow> klist \<Rightarrow> addr list \<Rightarrow> 'w kst" where
  "set_klist st (Bucket b i) xs = on_base st b (\<lambda>bs. bs\<lparr>vectors := (vectors bs)(i := xs)\<rparr>)"
| "set_klist st (Head b i) xs = on_base st b (\<lambda>bs. bs\<lparr>b_heads := (b_heads bs)(i := xs)\<rparr>)"

definition hlist_add_head :: "'w kst \<Rightarrow> addr \<Rightarrow> klist \<Rightarrow> 'w kst option" where
  "hlist_add_head st t l = on_timer (set_klist st l (t # klist_of st l)) t (t_entry_update (\<lambda>_. Some l))"

definition hlist_del :: "'w kst \<Rightarrow> addr \<Rightarrow> 'w kst option" where
  "hlist_del st t = do {
     tm \<leftarrow> k_timers st t;
     l \<leftarrow> t_entry tm;
     (if t \<in> set (klist_of st l) then Some (set_klist st l (remove1 t (klist_of st l))) else None)
   }"

fun relocate :: "addr list \<Rightarrow> klist \<Rightarrow> (addr \<rightharpoonup> timer_list) \<Rightarrow> (addr \<rightharpoonup> timer_list)" where
  "relocate [] l h = h"
| "relocate (t # ts) l h = relocate ts l (h(t := map_option (t_entry_update (\<lambda>_. Some l)) (h t)))"

definition hlist_move_list :: "'w kst \<Rightarrow> klist \<Rightarrow> klist \<Rightarrow> 'w kst" where
  "hlist_move_list st old new =
     (let xs = klist_of st old; st = set_klist (set_klist st new xs) old []
      in st\<lparr>k_timers := relocate xs new (k_timers st)\<rparr>)"

section \<open>Rounding\<close>

definition round_jiffies_common :: "kapi \<Rightarrow> u64 \<Rightarrow> u64 \<Rightarrow> nat \<Rightarrow> bool \<Rightarrow> u64" where
  "round_jiffies_common api jiffies j cpu force_up =
     (let original = j;
          j = j + of_nat (cpu * 3);
          rem = unat j mod HZ;
          j = (if rem < HZ div 4 \<and> \<not> force_up then j - of_nat rem else j - of_nat rem + of_nat HZ);
          j = j - of_nat (cpu * 3)
      in if time_before api jiffies j then j else original)"

definition round_jiffies_cpu :: "kapi \<Rightarrow> u64 \<Rightarrow> u64 \<Rightarrow> nat \<Rightarrow> u64" where
  "round_jiffies_cpu api jiffies j cpu = round_jiffies_common api jiffies j cpu False"

definition round_jiffies_cpu_relative :: "kapi \<Rightarrow> u64 \<Rightarrow> u64 \<Rightarrow> nat \<Rightarrow> u64" where
  "round_jiffies_cpu_relative api jiffies j cpu = round_jiffies_common api jiffies (j + jiffies) cpu False - jiffies"

definition round_jiffies :: "kapi \<Rightarrow> u64 \<Rightarrow> nat \<Rightarrow> u64 \<Rightarrow> u64" where
  "round_jiffies api jiffies this_cpu j = round_jiffies_common api jiffies j this_cpu False"

definition round_jiffies_relative :: "kapi \<Rightarrow> u64 \<Rightarrow> nat \<Rightarrow> u64 \<Rightarrow> u64" where
  "round_jiffies_relative api jiffies this_cpu j = round_jiffies_cpu_relative api jiffies j this_cpu"

definition round_jiffies_up_cpu :: "kapi \<Rightarrow> u64 \<Rightarrow> u64 \<Rightarrow> nat \<Rightarrow> u64" where
  "round_jiffies_up_cpu api jiffies j cpu = round_jiffies_common api jiffies j cpu True"

definition round_jiffies_up_cpu_relative :: "kapi \<Rightarrow> u64 \<Rightarrow> u64 \<Rightarrow> nat \<Rightarrow> u64" where
  "round_jiffies_up_cpu_relative api jiffies j cpu = round_jiffies_common api jiffies (j + jiffies) cpu True - jiffies"

definition round_jiffies_up :: "kapi \<Rightarrow> u64 \<Rightarrow> nat \<Rightarrow> u64 \<Rightarrow> u64" where
  "round_jiffies_up api jiffies this_cpu j = round_jiffies_common api jiffies j this_cpu True"

definition round_jiffies_up_relative :: "kapi \<Rightarrow> u64 \<Rightarrow> nat \<Rightarrow> u64 \<Rightarrow> u64" where
  "round_jiffies_up_relative api jiffies this_cpu j = round_jiffies_up_cpu_relative api jiffies j this_cpu"

section \<open>The bucket of an expiry time\<close>

definition timer_get_idx :: "timer_list \<Rightarrow> u32" where
  "timer_get_idx tm = drop_bit TIMER_ARRAYSHIFT (t_flags tm AND TIMER_ARRAYMASK)"

definition timer_set_idx :: "u32 \<Rightarrow> timer_list \<Rightarrow> timer_list" where
  "timer_set_idx idx tm = tm\<lparr>t_flags := (t_flags tm AND NOT TIMER_ARRAYMASK) OR push_bit TIMER_ARRAYSHIFT idx\<rparr>"

text \<open>The parameter is an unsigned int; the sum is computed as an unsigned long.\<close>

definition calc_index :: "u32 \<Rightarrow> nat \<Rightarrow> u32" where
  "calc_index expires lvl =
     (let expires = (ucast (drop_bit (LVL_SHIFT lvl) (ucast expires + LVL_GRAN lvl)) :: u32)
      in ucast (LVL_OFFS lvl + (ucast expires AND LVL_MASK)))"

definition calc_wheel_index :: "u64 \<Rightarrow> u64 \<Rightarrow> u32" where
  "calc_wheel_index expires clk =
     (let delta = expires - clk in
      if delta < LVL_START 1 then calc_index (ucast expires) 0
      else if delta < LVL_START 2 then calc_index (ucast expires) 1
      else if delta < LVL_START 3 then calc_index (ucast expires) 2
      else if delta < LVL_START 4 then calc_index (ucast expires) 3
      else if delta < LVL_START 5 then calc_index (ucast expires) 4
      else if delta < LVL_START 6 then calc_index (ucast expires) 5
      else if delta < LVL_START 7 then calc_index (ucast expires) 6
      else if LVL_DEPTH > 8 \<and> delta < LVL_START 8 then calc_index (ucast expires) 7
      else if sint delta < 0 then ucast (clk AND LVL_MASK)
      else calc_index (ucast (if expires \<ge> WHEEL_TIMEOUT_CUTOFF then WHEEL_TIMEOUT_MAX else expires)) (LVL_DEPTH - 1))"

section \<open>Arming and disarming\<close>

text \<open>An index outside the arrays is undefined.\<close>

definition enqueue_timer :: "'w kst \<Rightarrow> base_id \<Rightarrow> addr \<Rightarrow> u32 \<Rightarrow> 'w kst option" where
  "enqueue_timer st b t idx =
     (if unat idx < WHEEL_SIZE then do {
        st \<leftarrow> hlist_add_head st t (Bucket b (unat idx));
        let st = on_base st b (\<lambda>bs. bs\<lparr>pending_map := (pending_map bs)(unat idx := True)\<rparr>);
        on_timer st t (timer_set_idx idx)
      }
      else None)"

definition internal_add_timer_at :: "'w kst \<Rightarrow> base_id \<Rightarrow> addr \<Rightarrow> 'w kst option" where
  "internal_add_timer_at st b t = do {
     tm \<leftarrow> k_timers st t;
     enqueue_timer st b t (calc_wheel_index (t_expires tm) (b_clk (k_bases st b)))
   }"

definition wake_up_nohz_cpu :: "'w kst \<Rightarrow> nat \<Rightarrow> 'w kst" where
  "wake_up_nohz_cpu st cpu = st\<lparr>k_kicks := k_kicks st @ [cpu]\<rparr>"

definition trigger_dyntick_cpu :: "'w kst \<Rightarrow> base_id \<Rightarrow> addr \<Rightarrow> 'w kst option" where
  "trigger_dyntick_cpu st b t = do {
     tm \<leftarrow> k_timers st t;
     let bs = k_bases st b;
     Some (if \<not> k_nohz_active st then st
           else if t_flags tm AND TIMER_DEFERRABLE \<noteq> 0 then
             (if b_cpu bs \<in> k_full_cpus st then wake_up_nohz_cpu st (b_cpu bs) else st)
           else if \<not> is_idle bs then st
           else if time_after_eq (k_api st) (t_expires tm) (b_next_expiry bs) then st
           else wake_up_nohz_cpu (on_base st b (b_next_expiry_update (\<lambda>_. t_expires tm))) (b_cpu bs))
   }"

definition internal_add_timer :: "'w kst \<Rightarrow> base_id \<Rightarrow> addr \<Rightarrow> 'w kst option" where
  "internal_add_timer st b t = do { st \<leftarrow> internal_add_timer_at st b t; trigger_dyntick_cpu st b t }"

definition timer_pending :: "timer_list \<Rightarrow> bool" where
  "timer_pending tm \<longleftrightarrow> t_entry tm \<noteq> None"

definition do_init_timer :: "'w kst \<Rightarrow> addr \<Rightarrow> nat option \<Rightarrow> u32 \<Rightarrow> 'w kst option" where
  "do_init_timer st t func flags =
     on_timer st t (\<lambda>tm. tm\<lparr>t_entry := None, t_function := func, t_flags := flags OR of_nat (k_cpu st)\<rparr>)"

definition init_timer_key :: "'w kst \<Rightarrow> addr \<Rightarrow> nat option \<Rightarrow> u32 \<Rightarrow> 'w kst option" where
  "init_timer_key st t func flags = do_init_timer st t func flags"

definition detach_timer :: "'w kst \<Rightarrow> addr \<Rightarrow> bool \<Rightarrow> 'w kst option" where
  "detach_timer st t clear_pending = do {
     st \<leftarrow> hlist_del st t;
     (if clear_pending then on_timer st t (t_entry_update (\<lambda>_. None)) else Some st)
   }"

definition detach_if_pending :: "'w kst \<Rightarrow> addr \<Rightarrow> base_id \<Rightarrow> bool \<Rightarrow> (int \<times> 'w kst) option" where
  "detach_if_pending st t b clear_pending = do {
     tm \<leftarrow> k_timers st t;
     let idx = unat (timer_get_idx tm);
     (if \<not> timer_pending tm then Some (0, st)
      else do {
        let st = (if klist_of st (Bucket b idx) = [t]
                  then on_base st b (\<lambda>bs. bs\<lparr>pending_map := (pending_map bs)(idx := False)\<rparr>) else st);
        st \<leftarrow> detach_timer st t clear_pending;
        Some (1, st)
      })
   }"

definition get_timer_cpu_base :: "u32 \<Rightarrow> nat \<Rightarrow> base_id" where
  "get_timer_cpu_base tflags cpu = (if tflags AND TIMER_DEFERRABLE \<noteq> 0 then (cpu, BASE_DEF) else (cpu, BASE_STD))"

definition get_timer_this_cpu_base :: "'w kst \<Rightarrow> u32 \<Rightarrow> base_id" where
  "get_timer_this_cpu_base st tflags =
     (if tflags AND TIMER_DEFERRABLE \<noteq> 0 then (k_cpu st, BASE_DEF) else (k_cpu st, BASE_STD))"

definition get_timer_base :: "u32 \<Rightarrow> base_id" where
  "get_timer_base tflags = get_timer_cpu_base tflags (unat (tflags AND TIMER_CPUMASK))"

definition get_target_base :: "'w kst \<Rightarrow> base_id \<Rightarrow> u32 \<Rightarrow> base_id" where
  "get_target_base st b tflags =
     (if k_migration st \<and> tflags AND TIMER_PINNED = 0 then get_timer_cpu_base tflags (k_target st)
      else get_timer_this_cpu_base st tflags)"

definition forward_timer_base :: "'w kst \<Rightarrow> base_id \<Rightarrow> 'w kst" where
  "forward_timer_base st b =
     (let bs = k_bases st b; jnow = k_jiffies st in
      if \<not> must_forward_clk bs then st
      else (let st = on_base st b (must_forward_clk_update (\<lambda>_. is_idle bs)) in
        if sint (jnow - b_clk bs) < 2 then st
        else if time_after (k_api st) (b_next_expiry bs) jnow then on_base st b (b_clk_update (\<lambda>_. jnow))
        else on_base st b (b_clk_update (\<lambda>_. b_next_expiry bs))))"

text \<open>The loop ends at once unless the timer is being migrated.\<close>

definition lock_timer_base :: "'w kst \<Rightarrow> addr \<Rightarrow> base_id option" where
  "lock_timer_base st t = do {
     tm \<leftarrow> k_timers st t;
     (if t_flags tm AND TIMER_MIGRATING = 0 then Some (get_timer_base (t_flags tm)) else None)
   }"

text \<open>The timer leaves the base b for new_base, unless its callback is running there.\<close>

definition switch_base :: "'w kst \<Rightarrow> addr \<Rightarrow> base_id \<Rightarrow> base_id \<Rightarrow> (base_id \<times> 'w kst) option" where
  "switch_base st t b new_base =
     (if b \<noteq> new_base \<and> running_timer (k_bases st b) \<noteq> Some t then do {
        st \<leftarrow> on_timer st t (t_flags_update (\<lambda>f. f OR TIMER_MIGRATING));
        st \<leftarrow> on_timer st t (t_flags_update (\<lambda>f. (f AND NOT TIMER_BASEMASK) OR of_nat (b_cpu (k_bases st new_base))));
        Some (new_base, forward_timer_base st new_base)
      }
      else Some (b, st))"

text \<open>The second half of __mod_timer; idx and clk are UINT_MAX and 0 when they were not computed.\<close>

definition mod_timer_requeue ::
    "'w kst \<Rightarrow> addr \<Rightarrow> base_id \<Rightarrow> u64 \<Rightarrow> u32 \<Rightarrow> u32 \<Rightarrow> u64 \<Rightarrow> (int \<times> 'w kst) option" where
  "mod_timer_requeue st t b expires options idx clk = do {
     (ret, st) \<leftarrow> detach_if_pending st t b False;
     (if ret = 0 \<and> options AND MOD_TIMER_PENDING_ONLY \<noteq> 0 then Some (ret, st)
      else do {
        tm \<leftarrow> k_timers st t;
        (b, st) \<leftarrow> switch_base st t b (get_target_base st b (t_flags tm));
        st \<leftarrow> on_timer st t (t_expires_update (\<lambda>_. expires));
        st \<leftarrow> (if idx \<noteq> - 1 \<and> clk = b_clk (k_bases st b) then do {
                 st \<leftarrow> enqueue_timer st b t idx;
                 trigger_dyntick_cpu st b t
               }
               else internal_add_timer st b t);
        Some (ret, st)
      })
   }"

definition mod_timer_options :: "'w kst \<Rightarrow> addr \<Rightarrow> u64 \<Rightarrow> u32 \<Rightarrow> (int \<times> 'w kst) option" where
  "mod_timer_options st t expires options = do {
     tm \<leftarrow> k_timers st t;
     (if t_function tm = None then None
      else if timer_pending tm then
        (let diff = sint (t_expires tm - expires) in
         if diff = 0 then Some (1, st)
         else if options AND MOD_TIMER_REDUCE \<noteq> 0 \<and> diff \<le> 0 then Some (1, st)
         else do {
           b \<leftarrow> lock_timer_base st t;
           let st = forward_timer_base st b;
           (if timer_pending tm \<and> options AND MOD_TIMER_REDUCE \<noteq> 0 \<and> time_before_eq (k_api st) (t_expires tm) expires then Some (1, st)
            else (let clk = b_clk (k_bases st b); idx = calc_wheel_index expires clk in
              if idx = timer_get_idx tm then do {
                st \<leftarrow> (if options AND MOD_TIMER_REDUCE = 0 \<or> time_after (k_api st) (t_expires tm) expires
                       then on_timer st t (t_expires_update (\<lambda>_. expires)) else Some st);
                Some (1, st)
              }
              else mod_timer_requeue st t b expires options idx clk))
         })
      else do {
        b \<leftarrow> lock_timer_base st t;
        let st = forward_timer_base st b;
        mod_timer_requeue st t b expires options (- 1) 0
      })
   }"

definition mod_timer_pending :: "'w kst \<Rightarrow> addr \<Rightarrow> u64 \<Rightarrow> (int \<times> 'w kst) option" where
  "mod_timer_pending st t expires = mod_timer_options st t expires MOD_TIMER_PENDING_ONLY"

definition mod_timer :: "'w kst \<Rightarrow> addr \<Rightarrow> u64 \<Rightarrow> (int \<times> 'w kst) option" where
  "mod_timer st t expires = mod_timer_options st t expires 0"

definition timer_reduce :: "'w kst \<Rightarrow> addr \<Rightarrow> u64 \<Rightarrow> (int \<times> 'w kst) option" where
  "timer_reduce st t expires = mod_timer_options st t expires MOD_TIMER_REDUCE"

text \<open>BUG_ON is None.\<close>

definition add_timer :: "'w kst \<Rightarrow> addr \<Rightarrow> 'w kst option" where
  "add_timer st t = do {
     tm \<leftarrow> k_timers st t;
     (if timer_pending tm then None else map_option snd (mod_timer st t (t_expires tm)))
   }"

definition add_timer_on :: "'w kst \<Rightarrow> addr \<Rightarrow> nat \<Rightarrow> 'w kst option" where
  "add_timer_on st t cpu = do {
     tm \<leftarrow> k_timers st t;
     (if timer_pending tm \<or> t_function tm = None then None
      else do {
        let new_base = get_timer_cpu_base (t_flags tm) cpu;
        b \<leftarrow> lock_timer_base st t;
        st \<leftarrow> (if b \<noteq> new_base then do {
                 st \<leftarrow> on_timer st t (t_flags_update (\<lambda>f. f OR TIMER_MIGRATING));
                 on_timer st t (t_flags_update (\<lambda>f. (f AND NOT TIMER_BASEMASK) OR of_nat cpu))
               }
               else Some st);
        let st = forward_timer_base st new_base;
        internal_add_timer st new_base t
      })
   }"

definition del_timer :: "'w kst \<Rightarrow> addr \<Rightarrow> (int \<times> 'w kst) option" where
  "del_timer st t = do {
     tm \<leftarrow> k_timers st t;
     (if timer_pending tm then do {
        b \<leftarrow> lock_timer_base st t;
        detach_if_pending st t b True
      }
      else Some (0, st))
   }"

definition try_to_del_timer_sync :: "'w kst \<Rightarrow> addr \<Rightarrow> (int \<times> 'w kst) option" where
  "try_to_del_timer_sync st t = do {
     b \<leftarrow> lock_timer_base st t;
     (if running_timer (k_bases st b) \<noteq> Some t then detach_if_pending st t b True else Some (- 1, st))
   }"

text \<open>The loop waits for the CPU that runs the callback.\<close>

definition del_timer_sync :: "'w kst \<Rightarrow> addr \<Rightarrow> (int \<times> 'w kst) option" where
  "del_timer_sync st t = do {
     (ret, st) \<leftarrow> try_to_del_timer_sync st t;
     (if ret < 0 then None else Some (ret, st))
   }"

section \<open>Expiry\<close>

text \<open>\<open>call f t\<close> is the call of the function f with the timer t; head is the number of the local list.\<close>

partial_function (option) expire_timers ::
    "(nat \<Rightarrow> addr \<Rightarrow> 'w kst \<Rightarrow> 'w kst option) \<Rightarrow> base_id \<Rightarrow> nat \<Rightarrow> 'w kst \<Rightarrow> 'w kst option" where
  "expire_timers call b head st = (case b_heads (k_bases st b) head of
     [] \<Rightarrow> Some st
   | t # _ \<Rightarrow> do {
       let st = on_base st b (running_timer_update (\<lambda>_. Some t));
       st \<leftarrow> detach_timer st t True;
       tm \<leftarrow> k_timers st t;
       f \<leftarrow> t_function tm;
       st \<leftarrow> call f t st;
       let st = on_base st b (running_timer_update (\<lambda>_. None));
       expire_timers call b head st
     })"

text \<open>The levels from i on; \<open>levels\<close> lists have been moved so far.\<close>

fun collect_levels :: "'w kst \<Rightarrow> base_id \<Rightarrow> nat list \<Rightarrow> u64 \<Rightarrow> nat \<Rightarrow> nat \<times> 'w kst" where
  "collect_levels st b [] clk levels = (levels, st)"
| "collect_levels st b (i # is) clk levels =
     (let idx = unat ((clk AND LVL_MASK) + of_nat i * LVL_SIZE);
          (levels, st) = (if pending_map (k_bases st b) idx then
              (Suc levels, hlist_move_list
                 (on_base st b (\<lambda>bs. bs\<lparr>pending_map := (pending_map bs)(idx := False)\<rparr>)) (Bucket b idx) (Head b levels))
            else (levels, st))
      in if clk AND LVL_CLK_MASK \<noteq> 0 then (levels, st)
         else collect_levels st b is (drop_bit LVL_CLK_SHIFT clk) levels)"

definition collect_expired_level :: "'w kst \<Rightarrow> base_id \<Rightarrow> nat \<times> 'w kst" where
  "collect_expired_level st b = collect_levels st b [0..<LVL_DEPTH] (b_clk (k_bases st b)) 0"

definition next_pending_bucket :: "kapi \<Rightarrow> timer_base \<Rightarrow> nat \<Rightarrow> nat \<Rightarrow> int" where
  "next_pending_bucket api bs offset clk =
     (let start = offset + clk;
          end = offset + unat LVL_SIZE;
          pos = find_next_bit api (pending_map bs) end start
      in if pos < end then int (pos - start)
         else (let pos = find_next_bit api (pending_map bs) start offset
               in if pos < start then int (pos + unat LVL_SIZE - start) else - 1))"

fun next_interrupt_levels :: "kapi \<Rightarrow> timer_base \<Rightarrow> nat list \<Rightarrow> u64 \<Rightarrow> u64 \<Rightarrow> u64" where
  "next_interrupt_levels api bs [] clk next = next"
| "next_interrupt_levels api bs (lvl # lvls) clk next =
     (let pos = next_pending_bucket api bs (lvl * unat LVL_SIZE) (unat (clk AND LVL_MASK));
          next = (if pos \<ge> 0 then
              (let tmp = push_bit (LVL_SHIFT lvl) (clk + of_int pos)
               in if time_before api tmp next then tmp else next)
            else next);
          adj = (if clk AND LVL_CLK_MASK \<noteq> 0 then 1 else 0)
      in next_interrupt_levels api bs lvls (drop_bit LVL_CLK_SHIFT clk + adj) next)"

definition next_timer_interrupt :: "kapi \<Rightarrow> timer_base \<Rightarrow> u64" where
  "next_timer_interrupt api bs =
     next_interrupt_levels api bs [0..<LVL_DEPTH] (b_clk bs) (b_clk bs + NEXT_TIMER_MAX_DELTA)"

definition collect_expired_timers :: "'w kst \<Rightarrow> base_id \<Rightarrow> nat \<times> 'w kst" where
  "collect_expired_timers st b =
     (let bs = k_bases st b; now = k_jiffies st in
      if sint (now - b_clk bs) > 2 then
        (let next = next_timer_interrupt (k_api st) bs in
         if time_after (k_api st) next now then (0, on_base st b (b_clk_update (\<lambda>_. now)))
         else collect_expired_level (on_base st b (b_clk_update (\<lambda>_. next))) b)
      else collect_expired_level st b)"

fun expire_heads ::
    "(nat \<Rightarrow> addr \<Rightarrow> 'w kst \<Rightarrow> 'w kst option) \<Rightarrow> base_id \<Rightarrow> nat \<Rightarrow> 'w kst \<Rightarrow> 'w kst option" where
  "expire_heads call b 0 st = Some st"
| "expire_heads call b (Suc levels) st = do { st \<leftarrow> expire_timers call b levels st; expire_heads call b levels st }"

partial_function (option) run_timers_loop ::
    "(nat \<Rightarrow> addr \<Rightarrow> 'w kst \<Rightarrow> 'w kst option) \<Rightarrow> base_id \<Rightarrow> 'w kst \<Rightarrow> 'w kst option" where
  "run_timers_loop call b st =
     (if time_after_eq (k_api st) (k_jiffies st) (b_clk (k_bases st b)) then do {
        let (levels, st) = collect_expired_timers st b;
        let st = on_base st b (b_clk_update (\<lambda>clk. clk + 1));
        st \<leftarrow> expire_heads call b levels st;
        run_timers_loop call b st
      }
      else Some st)"

definition run_timers ::
    "(nat \<Rightarrow> addr \<Rightarrow> 'w kst \<Rightarrow> 'w kst option) \<Rightarrow> base_id \<Rightarrow> 'w kst \<Rightarrow> 'w kst option" where
  "run_timers call b st =
     (if \<not> time_after_eq (k_api st) (k_jiffies st) (b_clk (k_bases st b)) then Some st
      else run_timers_loop call b (on_base st b (must_forward_clk_update (\<lambda>_. False))))"

definition run_timer_softirq :: "(nat \<Rightarrow> addr \<Rightarrow> 'w kst \<Rightarrow> 'w kst option) \<Rightarrow> 'w kst \<Rightarrow> 'w kst option" where
  "run_timer_softirq call st = do {
     st \<leftarrow> run_timers call (k_cpu st, BASE_STD) st;
     run_timers call (k_cpu st, BASE_DEF) st
   }"

text \<open>Whether the softirq is raised.\<close>

definition run_local_timers :: "'w kst \<Rightarrow> bool" where
  "run_local_timers st \<longleftrightarrow>
     \<not> (time_before (k_api st) (k_jiffies st) (b_clk (k_bases st (k_cpu st, BASE_STD))) \<and>
        time_before (k_api st) (k_jiffies st) (b_clk (k_bases st (k_cpu st, BASE_DEF))))"

section \<open>The idle CPU\<close>

text \<open>nextevt is what hrtimer_get_next_event returns, tick_nsec is TICK_NSEC.\<close>

definition cmp_next_hrtimer_event :: "u64 \<Rightarrow> u64 \<Rightarrow> u64 \<Rightarrow> u64 \<Rightarrow> u64" where
  "cmp_next_hrtimer_event tick_nsec nextevt basem expires =
     (if expires \<le> nextevt then expires
      else if nextevt \<le> basem then basem
      else (nextevt + tick_nsec - 1) div tick_nsec * tick_nsec)"

definition get_next_timer_interrupt ::
    "u64 \<Rightarrow> u64 \<Rightarrow> bool \<Rightarrow> u64 \<Rightarrow> 'w kst \<Rightarrow> u64 \<Rightarrow> u64 \<Rightarrow> u64 \<times> 'w kst" where
  "get_next_timer_interrupt ktime_max tick_nsec offline hrevt st basej basem =
     (let b = (k_cpu st, BASE_STD); bs = k_bases st b in
      if offline then (ktime_max, st)
      else
        (let nextevt = next_timer_interrupt (k_api st) bs;
             is_max_delta = (nextevt = b_clk bs + NEXT_TIMER_MAX_DELTA);
             bs' = bs\<lparr>b_next_expiry := nextevt\<rparr>;
             bs' = (if time_after (k_api st) basej (b_clk bs) then
                      (if time_after (k_api st) nextevt basej then bs'\<lparr>b_clk := basej\<rparr>
                       else if time_after (k_api st) nextevt (b_clk bs) then bs'\<lparr>b_clk := nextevt\<rparr> else bs')
                    else bs');
             (expires, bs') =
               (if time_before_eq (k_api st) nextevt basej then (basem, bs'\<lparr>is_idle := False\<rparr>)
                else
                  (let expires = (if \<not> is_max_delta then basem + (nextevt - basej) * tick_nsec else ktime_max)
                   in (expires, if expires - basem > tick_nsec
                                then bs'\<lparr>must_forward_clk := True, is_idle := True\<rparr> else bs')))
         in (cmp_next_hrtimer_event tick_nsec hrevt basem expires, on_base st b (\<lambda>_. bs'))))"

definition timer_clear_idle :: "'w kst \<Rightarrow> 'w kst" where
  "timer_clear_idle st = on_base st (k_cpu st, BASE_STD) (is_idle_update (\<lambda>_. False))"

section \<open>CPUs that come and go\<close>

partial_function (option) migrate_timer_list :: "base_id \<Rightarrow> klist \<Rightarrow> 'w kst \<Rightarrow> 'w kst option" where
  "migrate_timer_list new_base head st = (case klist_of st head of
     [] \<Rightarrow> Some st
   | t # _ \<Rightarrow> do {
       st \<leftarrow> detach_timer st t False;
       st \<leftarrow> on_timer st t (t_flags_update (\<lambda>f. (f AND NOT TIMER_BASEMASK) OR of_nat (b_cpu (k_bases st new_base))));
       st \<leftarrow> internal_add_timer st new_base t;
       migrate_timer_list new_base head st
     })"

definition prepare_base :: "u64 \<Rightarrow> timer_base \<Rightarrow> timer_base" where
  "prepare_base jiffies bs =
     bs\<lparr>b_clk := jiffies, b_next_expiry := jiffies + NEXT_TIMER_MAX_DELTA, is_idle := False, must_forward_clk := True\<rparr>"

definition timers_prepare_cpu :: "'w kst \<Rightarrow> nat \<Rightarrow> 'w kst" where
  "timers_prepare_cpu st cpu =
     fold (\<lambda>w st. on_base st (cpu, w) (prepare_base (k_jiffies st))) [0..<NR_BASES] st"

fun migrate_buckets :: "base_id \<Rightarrow> base_id \<Rightarrow> nat list \<Rightarrow> 'w kst \<Rightarrow> 'w kst option" where
  "migrate_buckets new_base old_base [] st = Some st"
| "migrate_buckets new_base old_base (i # is) st = do {
     st \<leftarrow> migrate_timer_list new_base (Bucket old_base i) st;
     migrate_buckets new_base old_base is st
   }"

definition dead_base :: "nat \<Rightarrow> nat \<Rightarrow> 'w kst \<Rightarrow> 'w kst option" where
  "dead_base cpu w st =
     (let st = forward_timer_base st (k_cpu st, w)
      in if running_timer (k_bases st (cpu, w)) \<noteq> None then None
         else migrate_buckets (k_cpu st, w) (cpu, w) [0..<WHEEL_SIZE] st)"

text \<open>The CPU that died is not the one that runs.\<close>

definition timers_dead_cpu :: "'w kst \<Rightarrow> nat \<Rightarrow> 'w kst option" where
  "timers_dead_cpu st cpu =
     (if cpu = k_cpu st then None else do { st \<leftarrow> dead_base cpu BASE_STD st; dead_base cpu BASE_DEF st })"

definition init_timer_cpu :: "'w kst \<Rightarrow> nat \<Rightarrow> 'w kst" where
  "init_timer_cpu st cpu =
     fold (\<lambda>w st. on_base st (cpu, w) (\<lambda>bs. bs\<lparr>b_cpu := cpu, b_clk := k_jiffies st\<rparr>)) [0..<NR_BASES] st"

definition init_timer_cpus :: "'w kst \<Rightarrow> nat list \<Rightarrow> 'w kst" where
  "init_timer_cpus st cpus = fold (\<lambda>cpu st. init_timer_cpu st cpu) cpus st"

end
