(* ===== verification/Kern_Index.thy ===== *)
theory Kern_Index
  imports Kern_Wheel
begin

unbundle bit_operations_syntax

text \<open>
  The arithmetic of the wheel. Bucket idx lies on level idx div 64; it is visited at the multiples t of
  the granularity \<open>8 ^ level\<close> whose quotient is idx mod 64 modulo 64 (\<open>visit\<close>); \<open>next_visit clk idx\<close>
  is the first such time from clk on.
\<close>

section \<open>Words\<close>

lemma sint_neg_iff: "sint (w :: u64) < 0 \<longleftrightarrow> 2 ^ 63 \<le> unat w"
proof -
  have "sint w < 0 \<longleftrightarrow> bit w 63" by (simp add: bit_last_iff [of w, symmetric, simplified])
  also have "\<dots> \<longleftrightarrow> bit (unat w) 63" by (simp add: bit_unsigned_iff)
  also have "\<dots> \<longleftrightarrow> odd (unat w div 2 ^ 63)" by (rule bit_iff_odd)
  also have "\<dots> \<longleftrightarrow> 2 ^ 63 \<le> unat w"
  proof -
    have "unat w div 2 ^ 63 < 2" using unat_lt64 [of w] by (simp add: less_mult_imp_div_less)
    then show ?thesis by (cases "unat w div 2 ^ 63 = 0") (auto simp: div_eq_0_iff)
  qed
  finally show ?thesis .
qed


lemma unat_diff: "unat (b :: u64) \<le> unat a \<Longrightarrow> unat (a - b) = unat a - unat b"
  by (simp add: unat_sub word_le_nat_alt)

lemma unat_diff_wrap: "unat (a :: u64) < unat b \<Longrightarrow> unat (a - b) = 2 ^ 64 + unat a - unat b"
  by (simp add: unat_sub_if')

text \<open>
  What the kernel documents of the code outside of this file: the comparisons of jiffies.h order two times by
  the sign of their difference, read as a long, and find_next_bit returns the first set bit from start on, or the
  size when there is none.
\<close>

definition next_bit_ok :: "((nat \<Rightarrow> bool) \<Rightarrow> nat \<Rightarrow> nat \<Rightarrow> nat) \<Rightarrow> bool" where
  "next_bit_ok search \<longleftrightarrow> (\<forall>bm sz start. start \<le> sz \<longrightarrow> start \<le> search bm sz start \<and> search bm sz start \<le> sz \<and>
     (\<forall>i. start \<le> i \<longrightarrow> i < search bm sz start \<longrightarrow> \<not> bm i) \<and> (search bm sz start < sz \<longrightarrow> bm (search bm sz start)))"

definition kapi_ok :: "kapi \<Rightarrow> bool" where
  "kapi_ok api \<longleftrightarrow> (\<forall>a b. time_after api a b = (sint (b - a) < 0) \<and> time_after_eq api a b = (0 \<le> sint (a - b)) \<and>
     time_before api a b = (sint (a - b) < 0) \<and> time_before_eq api a b = (0 \<le> sint (b - a))) \<and> next_bit_ok (find_next_bit api)"

lemma time_compare:
  assumes "kapi_ok api"
  shows "time_after api a b \<longleftrightarrow> sint (b - a) < 0" "time_after_eq api a b \<longleftrightarrow> \<not> time_after api b a"
    "time_before api a b \<longleftrightarrow> time_after api b a" "time_before_eq api a b \<longleftrightarrow> \<not> time_after api a b"
  using assms by (simp_all add: kapi_ok_def not_less)

text \<open>Times less than \<open>2 ^ 63\<close> apart are compared as numbers.\<close>

lemma time_after_iff:
  assumes api: "kapi_ok api" and "unat a < unat b + 2 ^ 63" "unat b < unat a + 2 ^ 63"
  shows "time_after api a b \<longleftrightarrow> unat b < unat a"
proof (cases "unat a \<le> unat b")
  case True
  then have "unat (b - a) < 2 ^ 63" using assms(3) by (simp add: unat_diff)
  then show ?thesis using True by (simp add: time_compare [OF api] sint_neg_iff)
next
  case False
  then have "2 ^ 63 \<le> unat (b - a)" using assms(2) unat_lt64 [of a] by (simp add: unat_diff_wrap)
  then show ?thesis using False by (simp add: time_compare [OF api] sint_neg_iff)
qed

section \<open>Levels\<close>

lemma pow8: "(2 :: nat) ^ (3 * l) = 8 ^ l" "(2 :: nat) ^ (l * 3) = 8 ^ l"
proof -
  show "(2 :: nat) ^ (3 * l) = 8 ^ l" by (simp add: power_mult)
  then show "(2 :: nat) ^ (l * 3) = 8 ^ l" by (simp only: mult.commute)
qed

lemma LVL_GRAN_unat: "l \<le> 9 \<Longrightarrow> unat (LVL_GRAN l) = 8 ^ l"
proof -
  assume "l \<le> 9"
  then have "unat (2 ^ (l * 3) :: u64) = 2 ^ (l * 3)" by (intro unat_exp64) simp
  then show ?thesis unfolding pow8 by (simp only: LVL_GRAN_def LVL_SHIFT_def LVL_CLK_SHIFT_def push_bit_of_1)
qed

lemma wheel_consts [simp]:
  "LVL_SIZE = 64" "LVL_MASK = mask 6" "LVL_CLK_MASK = mask 3" "WHEEL_SIZE = 576" "LVL_DEPTH = 9"
  by (simp_all add: LVL_SIZE_def LVL_MASK_def LVL_BITS_def LVL_CLK_MASK_def LVL_CLK_DIV_def LVL_CLK_SHIFT_def
      WHEEL_SIZE_def LVL_DEPTH_def HZ_def mask_eq_exp_minus_1 push_bit_of_1)

lemma LVL_START_unat: "0 < l \<Longrightarrow> l \<le> 9 \<Longrightarrow> unat (LVL_START l) = 63 * 8 ^ (l - 1)"
proof -
  assume l: "0 < l" "l \<le> 9"
  have "(2 :: nat) ^ ((l - 1) * 3) \<le> 2 ^ 24" using l by (intro power_increasing) simp_all
  then have lt: "63 * 2 ^ ((l - 1) * 3) < (2 :: nat) ^ 64" by simp
  have "LVL_START l = push_bit ((l - 1) * 3) 63" by (simp add: LVL_START_def LVL_CLK_SHIFT_def)
  also have "unat \<dots> = take_bit 64 (push_bit ((l - 1) * 3) 63)" by (simp only: unsigned_push_bit_eq) simp
  also have "\<dots> = 63 * 2 ^ ((l - 1) * 3)" unfolding push_bit_eq_mult by (rule take_bit_nat_eq_self [OF lt])
  finally show ?thesis unfolding pow8 .
qed

lemma div_mod_drop: "(a div b) mod c = (a mod (b * c)) div (b :: nat)"
proof (cases "b = 0")
  case False
  have "a mod (b * c) = b * (a div b mod c) + a mod b" by (rule mod_mult2_eq)
  then show ?thesis using False by simp
qed simp

lemma level_mod: "l \<le> 8 \<Longrightarrow> (a mod 2 ^ 32) div 8 ^ l mod 64 = a div 8 ^ l mod (64 :: nat)"
proof -
  assume "l \<le> 8"
  then have "8 ^ l * 64 dvd (2 :: nat) ^ 32"
  proof -
    have "8 ^ l * 64 = (2 :: nat) ^ (3 * l + 6)" by (simp add: power_add power_mult)
    moreover have "(2 :: nat) ^ (3 * l + 6) dvd 2 ^ 32" using \<open>l \<le> 8\<close> by (intro le_imp_power_dvd) simp
    ultimately show ?thesis by simp
  qed
  then have "a mod 2 ^ 32 mod (8 ^ l * 64) = a mod (8 ^ l * 64)" by (rule mod_mod_cancel)
  then show ?thesis unfolding div_mod_drop by simp
qed

text \<open>The quotient that the bucket of an expiry time on a level has.\<close>

definition quot :: "nat \<Rightarrow> nat \<Rightarrow> nat" where
  "quot l e = (e + 8 ^ l) div 8 ^ l"

lemma calc_index_unat: "l \<le> 8 \<Longrightarrow> unat (calc_index (ucast (e :: u64)) l) = 64 * l + quot l (unat e) mod 64"
proof -
  assume l: "l \<le> 8"
  let ?e = "unat e mod 2 ^ 32"
  have g: "unat (LVL_GRAN l) = 8 ^ l" using l by (intro LVL_GRAN_unat) simp
  have g8: "(8 :: nat) ^ l \<le> 8 ^ 8" using l by (intro power_increasing) simp_all
  have e: "unat (ucast (ucast e :: u32) :: u64) = ?e"
    by (simp add: unsigned_ucast_eq take_bit_eq_mod unat_mod)
  have lt: "?e < 2 ^ 32" by simp
  have s: "unat (ucast (ucast e :: u32) + LVL_GRAN l) = ?e + 8 ^ l"
    unfolding g [symmetric] e [symmetric] by (rule unat_add_small) (use g g8 e lt in simp)
  have sh: "LVL_SHIFT l = 3 * l" by (simp add: LVL_SHIFT_def LVL_CLK_SHIFT_def)
  have d: "unat (drop_bit (LVL_SHIFT l) (ucast (ucast e :: u32) + LVL_GRAN l)) = (?e + 8 ^ l) div 8 ^ l"
    unfolding unat_drop_bit s sh by (simp add: power_mult)
  have c: "(?e + 8 ^ l) div 8 ^ l mod 64 = quot l (unat e) mod 64"
  proof -
    have "(?e + 8 ^ l) div 8 ^ l = ?e div 8 ^ l + 1" by (rule div_add_self2) simp
    moreover have "quot l (unat e) = unat e div 8 ^ l + 1" unfolding quot_def by (rule div_add_self2) simp
    ultimately show ?thesis using level_mod [OF l, of "unat e"] by (metis mod_add_left_eq)
  qed
  let ?q = "ucast (drop_bit (LVL_SHIFT l) (ucast (ucast e :: u32) + LVL_GRAN l)) :: u32"
  have q: "unat ?q mod 64 = quot l (unat e) mod 64"
  proof -
    have "unat ?q = (?e + 8 ^ l) div 8 ^ l mod 2 ^ 32" unfolding d [symmetric] by (simp add: unsigned_ucast_eq take_bit_eq_mod)
    moreover have "(?e + 8 ^ l) div 8 ^ l mod 2 ^ 32 mod 64 = (?e + 8 ^ l) div 8 ^ l mod 64" by (rule mod_mod_cancel) simp
    ultimately show ?thesis using c by simp
  qed
  have qq: "unat ((ucast ?q :: u64) AND mask 6) = quot l (unat e) mod 64"
  proof -
    have up: "unat (ucast (x :: u32) :: u64) = unat x" for x
    proof -
      have "unat x < 2 ^ 32" using unsigned_less [of x] by simp
      then have "take_bit 64 (unat x) = unat x" by (intro take_bit_nat_eq_self) simp
      then show ?thesis by (simp add: unsigned_ucast_eq)
    qed
    show ?thesis unfolding unat_and_mask up using q by simp
  qed
  have o: "unat (of_nat l * 64 :: u64) = 64 * l" using l by (simp add: unat_word_ariths unsigned_of_nat take_bit_eq_mod)
  have "unat (LVL_OFFS l + ((ucast ?q :: u64) AND LVL_MASK)) = 64 * l + quot l (unat e) mod 64"
    unfolding LVL_OFFS_def wheel_consts qq [symmetric] o [symmetric]
    by (rule unat_add_small) (use l in \<open>simp add: qq o\<close>)
  moreover have "64 * l + quot l (unat e) mod 64 < 2 ^ 32" using l by simp
  ultimately show ?thesis by (simp add: calc_index_def unsigned_ucast_eq take_bit_nat_eq_self)
qed


section \<open>When a bucket is visited\<close>

definition visit :: "nat \<Rightarrow> nat \<Rightarrow> bool" where
  "visit idx t \<longleftrightarrow> 8 ^ (idx div 64) dvd t \<and> t div 8 ^ (idx div 64) mod 64 = idx mod 64"

text \<open>The clock of level l, rounded up.\<close>

definition ceil_clk :: "nat \<Rightarrow> nat \<Rightarrow> nat" where
  "ceil_clk l clk = (clk + (8 ^ l - 1)) div 8 ^ l"

definition next_visit :: "nat \<Rightarrow> nat \<Rightarrow> nat" where
  "next_visit clk idx =
     (let c = ceil_clk (idx div 64) clk
      in (c + (idx mod 64 + 64 - c mod 64) mod 64) * 8 ^ (idx div 64))"

lemma ceil_clk_le: "ceil_clk l clk \<le> q \<longleftrightarrow> clk \<le> q * 8 ^ l"
proof -
  define g :: nat where "g = 8 ^ l"
  have g: "0 < g" by (simp add: g_def)
  have "(clk + (g - 1)) div g \<le> q \<longleftrightarrow> clk + (g - 1) < Suc q * g"
    using g by (simp add: less_Suc_eq_le [symmetric] div_less_iff_less_mult)
  also have "\<dots> \<longleftrightarrow> clk \<le> q * g" using g by auto
  finally show ?thesis by (simp add: ceil_clk_def g_def)
qed

lemma ring_distance:
  assumes "c \<le> q" "q < c + 64"
  shows "c + (q mod 64 + 64 - c mod 64) mod 64 = (q :: nat)"
proof -
  let ?a = "c mod 64"
  define r where "r = q - c"
  have r: "q = c + r" "r < 64" using assms by (simp_all add: r_def)
  have a: "?a < 64" by simp
  have q: "q mod 64 = (?a + r) mod 64" unfolding r(1) by (simp only: mod_add_left_eq)
  have "(q mod 64 + 64 - ?a) mod 64 = r"
  proof (cases "?a + r < 64")
    case True
    then have "q mod 64 + 64 - ?a = r + 64" using q by simp
    then show ?thesis using r(2) by simp
  next
    case False
    then have "q mod 64 = ?a + r - 64" using q a r(2) by (simp add: le_mod_geq)
    then have "q mod 64 + 64 - ?a = r" using False by simp
    then show ?thesis using r(2) by simp
  qed
  then show ?thesis using r(1) by simp
qed

lemma ring_position: "(c + (i + 64 - c mod 64) mod 64) mod 64 = i mod (64 :: nat)"
proof -
  define k a where "k = c div 64" and "a = c mod 64"
  then have c: "c = 64 * k + a" "a < 64" by simp_all
  then have "c + (i + 64 - a) = i + 64 * (k + 1)" by simp
  then have "c + (i + 64 - c mod 64) = i + 64 * (c div 64 + 1)" unfolding k_def a_def .
  then have "(c + (i + 64 - c mod 64)) mod 64 = i mod 64" by (metis mod_mult_self2)
  then show ?thesis by (simp only: mod_add_right_eq)
qed

lemma next_visit_visits: "visit idx (next_visit clk idx)" "clk \<le> next_visit clk idx"
proof -
  let ?l = "idx div 64" let ?c = "ceil_clk ?l clk"
  let ?q = "?c + (idx mod 64 + 64 - ?c mod 64) mod 64"
  have n: "next_visit clk idx = ?q * 8 ^ ?l" by (simp add: next_visit_def Let_def)
  have "?q mod 64 = idx mod 64" using ring_position [of ?c "idx mod 64"] by simp
  then show "visit idx (next_visit clk idx)" unfolding visit_def n by simp
  have "ceil_clk ?l clk \<le> ?q" by simp
  then show "clk \<le> next_visit clk idx" unfolding n ceil_clk_le .
qed

lemma next_visit_eqI:
  assumes "visit idx t" "clk \<le> t" "t div 8 ^ (idx div 64) < ceil_clk (idx div 64) clk + 64"
  shows "next_visit clk idx = t"
proof -
  let ?l = "idx div 64" let ?q = "t div 8 ^ ?l"
  have t: "t = ?q * 8 ^ ?l" "?q mod 64 = idx mod 64" using assms(1) by (simp_all add: visit_def)
  have "ceil_clk ?l clk \<le> ?q" unfolding ceil_clk_le using assms(2) t(1) by simp
  then have "ceil_clk ?l clk + (?q mod 64 + 64 - ceil_clk ?l clk mod 64) mod 64 = ?q" using assms(3) by (rule ring_distance)
  then show ?thesis using t unfolding next_visit_def Let_def by metis
qed

text \<open>It is the first visit.\<close>

lemma next_visit_least:
  assumes "visit idx t" "clk \<le> t"
  shows "next_visit clk idx \<le> t"
proof (cases "t div 8 ^ (idx div 64) < ceil_clk (idx div 64) clk + 64")
  case True
  then show ?thesis using next_visit_eqI [OF assms] by simp
next
  case False
  let ?l = "idx div 64" let ?c = "ceil_clk ?l clk"
  have "?c + (idx mod 64 + 64 - ?c mod 64) mod 64 \<le> ?c + 63" using mod_less_divisor [of 64 "idx mod 64 + 64 - ?c mod 64"] by linarith
  also have "\<dots> \<le> t div 8 ^ ?l" using False by simp
  finally have "next_visit clk idx \<le> t div 8 ^ ?l * 8 ^ ?l" unfolding next_visit_def Let_def by (rule mult_le_mono1)
  also have "\<dots> \<le> t" by simp
  finally show ?thesis .
qed

lemma next_visit_now: "visit idx clk \<Longrightarrow> next_visit clk idx = clk"
  using next_visit_least [of idx clk clk] next_visit_visits(2) [of clk idx] by simp

text \<open>A clock that does not pass the visit does not move it.\<close>

lemma next_visit_later:
  assumes "clk \<le> clk'" "clk' \<le> next_visit clk idx"
  shows "next_visit clk' idx = next_visit clk idx"
proof (rule antisym)
  show "next_visit clk' idx \<le> next_visit clk idx" using next_visit_visits(1) assms(2) by (rule next_visit_least)
  show "next_visit clk idx \<le> next_visit clk' idx"
    using next_visit_visits [of idx clk'] next_visit_visits(2) [of clk' idx] assms(1) by (intro next_visit_least) auto
qed

lemma next_visit_bound: "idx < 576 \<Longrightarrow> next_visit clk idx \<le> clk + 2 ^ 30"
proof -
  assume i: "idx < 576"
  let ?l = "idx div 64" let ?c = "ceil_clk ?l clk"
  have l: "?l \<le> 8" using i by auto
  have "?c + (idx mod 64 + 64 - ?c mod 64) mod 64 \<le> ?c + 63" using mod_less_divisor [of 64 "idx mod 64 + 64 - ?c mod 64"] by linarith
  then have "next_visit clk idx \<le> (?c + 63) * 8 ^ ?l" unfolding next_visit_def Let_def by (rule mult_le_mono1)
  also have "\<dots> \<le> clk + (8 ^ ?l - 1) + 63 * 8 ^ ?l"
  proof -
    have "?c * 8 ^ ?l \<le> clk + (8 ^ ?l - 1)" unfolding ceil_clk_def by simp
    then show ?thesis by (simp add: add_mult_distrib)
  qed
  also have "\<dots> \<le> clk + 64 * 8 ^ ?l" by simp
  also have "\<dots> \<le> clk + 2 ^ 30"
  proof -
    have "(8 :: nat) ^ ?l \<le> 8 ^ 8" using l by (intro power_increasing) simp_all
    then show ?thesis by simp
  qed
  finally show ?thesis .
qed

text \<open>A bucket whose quotient is that of the expiry time is visited in time.\<close>

lemma quot_bounds: "e < quot l e * 8 ^ l" "quot l e * 8 ^ l \<le> e + 8 ^ l"
proof -
  define g :: nat where "g = 8 ^ l"
  have g: "0 < g" by (simp add: g_def)
  have "(e + g) div g * g + (e + g) mod g = e + g" by (rule div_mult_mod_eq)
  moreover have "(e + g) mod g < g" using g by simp
  ultimately show "e < quot l e * 8 ^ l" "quot l e * 8 ^ l \<le> e + 8 ^ l" unfolding quot_def g_def [symmetric] by linarith+
qed

lemma next_visit_quot:
  assumes "clk \<le> e" "e - clk < 63 * 8 ^ l"
  shows "next_visit clk (64 * l + quot l e mod 64) = quot l e * 8 ^ l"
proof (rule next_visit_eqI)
  let ?idx = "64 * l + quot l e mod 64"
  have d: "?idx div 64 = l" "?idx mod 64 = quot l e mod 64" by simp_all
  show "visit ?idx (quot l e * 8 ^ l)" unfolding visit_def d by simp
  show "clk \<le> quot l e * 8 ^ l" using quot_bounds(1) [of e l] assms(1) by simp
  have "quot l e < ceil_clk l clk + 64"
  proof (rule ccontr)
    assume n: "\<not> quot l e < ceil_clk l clk + 64"
    have "clk \<le> ceil_clk l clk * 8 ^ l" using ceil_clk_le [of l clk "ceil_clk l clk"] by simp
    then have "clk + 64 * 8 ^ l \<le> (ceil_clk l clk + 64) * 8 ^ l" by (simp add: add_mult_distrib)
    also have "\<dots> \<le> quot l e * 8 ^ l" using n by (intro mult_le_mono1) simp
    also have "\<dots> \<le> e + 8 ^ l" by (rule quot_bounds)
    finally show False using assms by linarith
  qed
  then show "quot l e * 8 ^ l div 8 ^ (?idx div 64) < ceil_clk (?idx div 64) clk + 64" unfolding d by simp
qed


section \<open>The bucket that a timer gets\<close>

lemma less_LVL_START: "0 < l \<Longrightarrow> l \<le> 9 \<Longrightarrow> w < LVL_START l \<longleftrightarrow> unat w < 63 * 8 ^ (l - 1)"
  by (simp add: word_less_nat_alt LVL_START_unat)

lemma less_LVL_STARTs:
  "w < LVL_START 1 \<longleftrightarrow> unat w < 63 * 8 ^ 0" "w < LVL_START 2 \<longleftrightarrow> unat w < 63 * 8 ^ 1"
  "w < LVL_START 3 \<longleftrightarrow> unat w < 63 * 8 ^ 2" "w < LVL_START 4 \<longleftrightarrow> unat w < 63 * 8 ^ 3"
  "w < LVL_START 5 \<longleftrightarrow> unat w < 63 * 8 ^ 4" "w < LVL_START 6 \<longleftrightarrow> unat w < 63 * 8 ^ 5"
  "w < LVL_START 7 \<longleftrightarrow> unat w < 63 * 8 ^ 6" "w < LVL_START 8 \<longleftrightarrow> unat w < 63 * 8 ^ 7"
  by (subst less_LVL_START; simp)+

lemma cutoffs: "WHEEL_TIMEOUT_CUTOFF = 63 * 2 ^ 24" "WHEEL_TIMEOUT_MAX = 62 * 2 ^ 24"
  by (simp_all add: WHEEL_TIMEOUT_MAX_def WHEEL_TIMEOUT_CUTOFF_def LVL_START_def LVL_GRAN_def LVL_SHIFT_def LVL_CLK_SHIFT_def)

lemma index_level:
  assumes "unat (expires - clk) < 63 * 8 ^ 7"
  shows "\<exists>l < 8. calc_wheel_index expires clk = calc_index (ucast expires) l \<and> unat (expires - clk) < 63 * 8 ^ l \<and>
    (l = 0 \<or> 63 * 8 ^ (l - 1) \<le> unat (expires - clk))"
proof -
  let ?d = "unat (expires - clk)"
  define l :: nat where "l = (LEAST l. ?d < 63 * 8 ^ l)"
  have lt: "?d < 63 * 8 ^ l" unfolding l_def by (rule LeastI) (rule assms)
  have le: "l \<le> 7" unfolding l_def by (rule Least_le) (rule assms)
  have ge: "63 * 8 ^ m \<le> ?d" if "m < l" for m using not_less_Least [of m "\<lambda>l. ?d < 63 * 8 ^ l"] that by (simp add: l_def not_less)
  have g: "?d < 63 * 8 ^ m \<longleftrightarrow> l \<le> m" for m
  proof (cases "l \<le> m")
    case True
    then have "(8 :: nat) ^ l \<le> 8 ^ m" by (intro power_increasing) simp_all
    then show ?thesis using lt True by linarith
  next
    case False
    then show ?thesis using ge [of m] by simp
  qed
  consider "l = 0" | "l = 1" | "l = 2" | "l = 3" | "l = 4" | "l = 5" | "l = 6" | "l = 7" using le by linarith
  then have c: "calc_wheel_index expires clk = calc_index (ucast expires) l"
    unfolding calc_wheel_index_def Let_def less_LVL_STARTs g by cases simp_all
  then show ?thesis using lt le ge [of "l - 1"] by (intro exI [of _ l]) (cases "l = 0"; simp)
qed

lemma index_near:
  assumes "unat clk \<le> unat expires" "unat expires - unat clk < 63 * 8 ^ 7"
  shows "\<exists>l < 8. unat (calc_wheel_index expires clk) = 64 * l + quot l (unat expires) mod 64 \<and>
    next_visit (unat clk) (unat (calc_wheel_index expires clk)) = quot l (unat expires) * 8 ^ l \<and>
    (l = 0 \<or> 63 * 8 ^ (l - 1) \<le> unat expires - unat clk)"
proof -
  have d: "unat (expires - clk) = unat expires - unat clk" by (rule unat_diff [OF assms(1)])
  obtain l where l: "l < 8" "calc_wheel_index expires clk = calc_index (ucast expires) l" "unat expires - unat clk < 63 * 8 ^ l"
      "l = 0 \<or> 63 * 8 ^ (l - 1) \<le> unat expires - unat clk"
    using index_level [of expires clk] assms(2) unfolding d by blast
  have i: "unat (calc_wheel_index expires clk) = 64 * l + quot l (unat expires) mod 64"
    unfolding l(2) using l(1) by (intro calc_index_unat) simp
  show ?thesis using l i next_visit_quot [OF assms(1) l(3)] by (intro exI [of _ l]) simp
qed

lemma index_past:
  assumes "unat expires < unat clk" "unat clk \<le> unat expires + 2 ^ 63"
  shows "unat (calc_wheel_index expires clk) = unat clk mod 64" "next_visit (unat clk) (unat (calc_wheel_index expires clk)) = unat clk"
proof -
  have d: "2 ^ 63 \<le> unat (expires - clk)" using assms by (simp add: unat_diff_wrap)
  then have "calc_wheel_index expires clk = ucast (clk AND LVL_MASK)"
    unfolding calc_wheel_index_def Let_def less_LVL_STARTs using sint_neg_iff [of "expires - clk"] by simp
  moreover have "unat (ucast (clk AND LVL_MASK) :: u32) = unat clk mod 64"
  proof -
    have "unat clk mod 64 < 2 ^ 32" using mod_less_divisor [of 64 "unat clk"] by simp
    moreover have "unat (clk AND LVL_MASK) = unat clk mod 64" by (simp add: unat_and_mask)
    ultimately show ?thesis by (simp add: unsigned_ucast_eq take_bit_nat_eq_self)
  qed
  ultimately show i: "unat (calc_wheel_index expires clk) = unat clk mod 64" by simp
  have v: "visit (unat clk mod 64) (unat clk)" by (simp add: visit_def)
  show "next_visit (unat clk) (unat (calc_wheel_index expires clk)) = unat clk" unfolding i by (rule next_visit_now [OF v])
qed

lemma index_far:
  assumes "63 * 8 ^ 7 \<le> unat (expires - clk)" "unat (expires - clk) < 2 ^ 63"
  shows "calc_wheel_index expires clk = calc_index (ucast (if expires \<ge> WHEEL_TIMEOUT_CUTOFF then WHEEL_TIMEOUT_MAX else expires)) 8"
  unfolding calc_wheel_index_def Let_def less_LVL_STARTs using assms sint_neg_iff [of "expires - clk"] by simp

lemma index_bound: "unat (calc_wheel_index expires clk) < 576"
proof -
  have c: "unat (calc_index (ucast (e :: u64)) l) < 576" if "l \<le> 8" for e l
  proof -
    have "quot l (unat e) mod 64 < 64" by simp
    then show ?thesis unfolding calc_index_unat [OF that] using that by linarith
  qed
  consider "unat (expires - clk) < 63 * 8 ^ 7" | "63 * 8 ^ 7 \<le> unat (expires - clk)" "unat (expires - clk) < 2 ^ 63"
    | "2 ^ 63 \<le> unat (expires - clk)" by linarith
  then show ?thesis
  proof cases
    case 1
    then obtain l where "l < 8" "calc_wheel_index expires clk = calc_index (ucast expires) l" using index_level by blast
    then show ?thesis using c [of l] by simp
  next
    case 2
    then show ?thesis using index_far c [of 8] by simp
  next
    case 3
    then have "calc_wheel_index expires clk = ucast (clk AND LVL_MASK)"
      unfolding calc_wheel_index_def Let_def less_LVL_STARTs using sint_neg_iff [of "expires - clk"] by simp
    moreover have "unat (clk AND LVL_MASK) < 64" by (simp add: unat_and_mask)
    ultimately show ?thesis by (simp add: unsigned_ucast_eq take_bit_nat_eq_self)
  qed
qed

end
