(* ===== verification/Kern_Next.thy ===== *)
theory Kern_Next
  imports Kern_Index
begin

unbundle bit_operations_syntax

text \<open>
  The searches of the bitmap: next_pending_bucket finds the pending bucket of a level that is visited
  first, and __next_timer_interrupt the first visit of any pending bucket.
\<close>

section \<open>The bitmap\<close>

lemma find_next_bit_spec:
  assumes "kapi_ok api" "st \<le> sz"
  shows "st \<le> find_next_bit api bm sz st" "find_next_bit api bm sz st \<le> sz"
    "\<And>i. st \<le> i \<Longrightarrow> i < find_next_bit api bm sz st \<Longrightarrow> \<not> bm i"
    "find_next_bit api bm sz st < sz \<Longrightarrow> bm (find_next_bit api bm sz st)"
  using assms unfolding kapi_ok_def next_bit_ok_def by blast+

lemma ring_step: "p < 64 \<Longrightarrow> (c + p) mod 64 = (if c mod 64 + p < 64 then c mod 64 + p else c mod 64 + p - (64 :: nat))"
proof -
  assume p: "p < 64"
  have "(c + p) mod 64 = (c mod 64 + p) mod 64" by (simp only: mod_add_left_eq)
  moreover have "c mod 64 < 64" by simp
  ultimately show ?thesis using p by (auto simp: le_mod_geq not_less)
qed

lemma next_pending_bucket_spec:
  assumes api: "kapi_ok api"
  shows "(next_pending_bucket api bs (64 * l) (c mod 64) = - 1 \<and> (\<forall>i < 64. \<not> pending_map bs (64 * l + i))) \<or>
   (\<exists>p < 64. next_pending_bucket api bs (64 * l) (c mod 64) = int p \<and> pending_map bs (64 * l + (c + p) mod 64) \<and>
      (\<forall>p' < p. \<not> pending_map bs (64 * l + (c + p') mod 64)))"
proof -
  let ?bm = "pending_map bs" and ?k = "c mod 64"
  let ?st = "64 * l + ?k" and ?en = "64 * l + 64"
  have k: "?k < 64" by simp
  let ?p1 = "find_next_bit api ?bm ?en ?st" and ?p2 = "find_next_bit api ?bm ?st (64 * l)"
  have s1: "?st \<le> ?p1" "?p1 \<le> ?en" "\<And>i. ?st \<le> i \<Longrightarrow> i < ?p1 \<Longrightarrow> \<not> ?bm i" "?p1 < ?en \<Longrightarrow> ?bm ?p1"
    using find_next_bit_spec [OF api, where st = ?st and sz = ?en and bm = ?bm] k by auto
  have s2: "64 * l \<le> ?p2" "?p2 \<le> ?st" "\<And>i. 64 * l \<le> i \<Longrightarrow> i < ?p2 \<Longrightarrow> \<not> ?bm i" "?p2 < ?st \<Longrightarrow> ?bm ?p2"
    using find_next_bit_spec [OF api, where st = "64 * l" and sz = ?st and bm = ?bm] by auto
  have e: "next_pending_bucket api bs (64 * l) ?k =
      (if ?p1 < ?en then int (?p1 - ?st) else if ?p2 < ?st then int (?p2 + 64 - ?st) else - 1)"
    by (simp add: next_pending_bucket_def Let_def)
  consider (one) "?p1 < ?en" | (two) "?p1 = ?en" "?p2 < ?st" | (none) "?p1 = ?en" "?p2 = ?st" using s1(2) s2(2) by linarith
  then show ?thesis
  proof cases
    case one
    define p where "p = ?p1 - ?st"
    have p: "?p1 = ?st + p" "?k + p < 64" using one s1(1) by (simp_all add: p_def)
    have st: "64 * l + (c + p') mod 64 = ?st + p'" if "p' \<le> p" for p' using that p(2) ring_step [of p' c] by simp
    have "?bm (64 * l + (c + p) mod 64)" unfolding st [OF order_refl] p(1) [symmetric] by (rule s1(4) [OF one])
    moreover have "\<not> ?bm (64 * l + (c + p') mod 64)" if p': "p' < p" for p'
    proof -
      have "?st + p' < ?p1" unfolding p(1) using p' by simp
      then show ?thesis unfolding st [OF less_imp_le [OF p']] by (intro s1(3)) simp_all
    qed
    moreover have "p < 64" "next_pending_bucket api bs (64 * l) ?k = int p" unfolding e p_def using one p(2) by (simp_all add: p_def)
    ultimately show ?thesis by blast
  next
    case two
    define j where "j = ?p2 - 64 * l"
    have j: "?p2 = 64 * l + j" "j < ?k" using two(2) s2(1) by (simp_all add: j_def)
    define p where "p = 64 - ?k + j"
    have p1: "p < 64" using j(2) k by (simp add: p_def)
    have "(c + p) mod 64 = j" unfolding ring_step [OF p1] using j(2) k by (simp add: p_def)
    note p = p1 this
    have r: "next_pending_bucket api bs (64 * l) ?k = int p" unfolding e using two j k by (simp add: p_def)
    have "?bm (64 * l + (c + p) mod 64)" using s2(4) [OF two(2)] j p by simp
    moreover have "\<not> ?bm (64 * l + (c + p') mod 64)" if p': "p' < p" for p'
    proof (cases "?k + p' < 64")
      case True
      then have "(c + p') mod 64 = ?k + p'" using p' p(1) by (simp add: ring_step)
      then show ?thesis using s1(3) [of "?st + p'"] True two(1) by (simp add: add.assoc)
    next
      case False
      then have "(c + p') mod 64 = ?k + p' - 64" using p' p(1) by (simp add: ring_step)
      moreover have "?k + p' - 64 < j" using False p' k by (simp add: p_def)
      ultimately show ?thesis using s2(3) [of "64 * l + (?k + p' - 64)"] j by simp
    qed
    ultimately show ?thesis using p(1) r by blast
  next
    case none
    have "\<not> ?bm (64 * l + i)" if "i < 64" for i
    proof (cases "?k \<le> i")
      case True
      then show ?thesis using s1(3) [of "64 * l + i"] none(1) that by simp
    next
      case False
      then show ?thesis using s2(3) [of "64 * l + i"] none(2) by simp
    qed
    then show ?thesis unfolding e using none by simp
  qed
qed

section \<open>The first visit\<close>

text \<open>The visits of the pending buckets of the levels below n.\<close>

definition visits_below :: "timer_base \<Rightarrow> nat \<Rightarrow> nat set" where
  "visits_below bs n = {next_visit (unat (b_clk bs)) idx | idx. pending_map bs idx \<and> idx < 64 * n}"

definition least_of :: "nat \<Rightarrow> nat \<Rightarrow> nat set \<Rightarrow> bool" where
  "least_of limit m S \<longleftrightarrow> m \<le> limit \<and> (\<forall>s \<in> S. m \<le> s) \<and> (m = limit \<or> m \<in> S)"

lemma level_visit: "p < 64 \<Longrightarrow> next_visit clk (64 * l + (ceil_clk l clk + p) mod 64) = (ceil_clk l clk + p) * 8 ^ l"
  using ring_distance [of "ceil_clk l clk" "ceil_clk l clk + p"] by (simp add: next_visit_def Let_def)

lemma visits_below_Suc:
  assumes p: "p < 64" "pending_map bs (64 * l + (ceil_clk l (unat (b_clk bs)) + p) mod 64)"
    and first: "\<forall>p' < p. \<not> pending_map bs (64 * l + (ceil_clk l (unat (b_clk bs)) + p') mod 64)"
    and m: "least_of limit m (visits_below bs l)"
  shows "least_of limit (min m ((ceil_clk l (unat (b_clk bs)) + p) * 8 ^ l)) (visits_below bs (Suc l))"
proof -
  let ?clk = "unat (b_clk bs)" let ?c = "ceil_clk l ?clk"
  let ?t = "(?c + p) * 8 ^ l"
  have mod: "64 * l + (?c + p) mod 64 < 64 * Suc l" by simp
  have t: "?t \<in> visits_below bs (Suc l)" unfolding visits_below_def
    by (intro CollectI exI [of _ "64 * l + (?c + p) mod 64"] conjI) (use level_visit [OF p(1), of ?clk l] p(2) mod in simp_all)
  have sub: "visits_below bs l \<subseteq> visits_below bs (Suc l)" by (auto simp: visits_below_def)
  have "min m ?t \<le> s" if s: "s \<in> visits_below bs (Suc l)" for s
  proof -
    obtain idx where idx: "s = next_visit ?clk idx" "pending_map bs idx" "idx < 64 * Suc l" using s by (auto simp: visits_below_def)
    show ?thesis
    proof (cases "idx < 64 * l")
      case True
      then have "s \<in> visits_below bs l" using idx by (auto simp: visits_below_def)
      then show ?thesis using m by (auto simp: least_of_def)
    next
      case False
      define i where "i = idx - 64 * l"
      have i: "idx = 64 * l + i" "i < 64" using False idx(3) by (simp_all add: i_def)
      define p' where "p' = (i + 64 - ?c mod 64) mod 64"
      have p': "p' < 64" "(?c + p') mod 64 = i" using ring_position [of ?c i] i(2) by (simp_all add: p'_def)
      have "p \<le> p'" using first idx(2) i(1) p'(2) not_less by metis
      moreover have "s = (?c + p') * 8 ^ l" using level_visit [OF p'(1), of ?clk l] p'(2) idx(1) i(1) by simp
      ultimately show ?thesis by (simp add: min.coboundedI2)
    qed
  qed
  then show ?thesis using m t sub by (auto simp: least_of_def min_def)
qed

lemma ceil_clk_Suc: "ceil_clk (Suc l) clk = ceil_clk l clk div 8 + (if ceil_clk l clk mod 8 = 0 then 0 else 1)"
proof -
  let ?c = "ceil_clk l clk"
  have q: "ceil_clk (Suc l) clk \<le> q \<longleftrightarrow> ?c \<le> q * 8" for q
    unfolding ceil_clk_le by (simp add: mult.assoc)
  have "?c \<le> q * 8 \<longleftrightarrow> ?c div 8 + (if ?c mod 8 = 0 then 0 else 1) \<le> q" for q
  proof -
    define c where "c = ?c"
    define d x where "d = c div 8" and "x = c mod 8"
    then have c: "c = 8 * d + x" "x < 8" by simp_all
    have "c \<le> q * 8 \<longleftrightarrow> d + (if x = 0 then 0 else 1) \<le> q" unfolding c(1) using c(2) by (cases "x = 0") auto
    then have "c \<le> q * 8 \<longleftrightarrow> c div 8 + (if c mod 8 = 0 then 0 else 1) \<le> q" unfolding d_def x_def .
    then show ?thesis unfolding c_def .
  qed
  then show ?thesis using q by (metis order_antisym order_refl)
qed

lemma ceil_clk_small: "ceil_clk l clk \<le> clk"
  unfolding ceil_clk_le by simp


lemma least_of_ge: "least_of (clk + 2 ^ 30 - 1) m (visits_below bs l) \<Longrightarrow> clk = unat (b_clk bs) \<Longrightarrow> clk \<le> m"
  using next_visit_visits(2) [of "unat (b_clk bs)"] by (auto simp: least_of_def visits_below_def)

lemma level_step:
  assumes api: "kapi_ok api" and clk: "unat (b_clk bs) + 2 ^ 31 < 2 ^ 64" and l: "l < 9" and c: "unat c = ceil_clk l (unat (b_clk bs))"
    and m: "least_of (unat (b_clk bs) + 2 ^ 30 - 1) (unat next) (visits_below bs l)"
  shows "least_of (unat (b_clk bs) + 2 ^ 30 - 1)
    (unat (if next_pending_bucket api bs (l * unat LVL_SIZE) (unat (c AND LVL_MASK)) \<ge> 0 then
        (let tmp = push_bit (LVL_SHIFT l) (c + of_int (next_pending_bucket api bs (l * unat LVL_SIZE) (unat (c AND LVL_MASK))))
         in if time_before api tmp next then tmp else next)
      else next)) (visits_below bs (Suc l))"
proof -
  let ?k = "unat (b_clk bs)" let ?c = "ceil_clk l ?k"
  have a: "unat (c AND LVL_MASK) = ?c mod 64" by (simp add: unat_and_mask c)
  have b: "l * unat LVL_SIZE = 64 * l" by simp
  have lim: "unat next \<le> ?k + 2 ^ 30 - 1" using m by (simp add: least_of_def)
  consider (none) "next_pending_bucket api bs (64 * l) (?c mod 64) = - 1" "\<forall>i < 64. \<not> pending_map bs (64 * l + i)"
    | (some) p where "p < 64" "next_pending_bucket api bs (64 * l) (?c mod 64) = int p" "pending_map bs (64 * l + (?c + p) mod 64)"
        "\<forall>p' < p. \<not> pending_map bs (64 * l + (?c + p') mod 64)"
    using next_pending_bucket_spec [OF api, of bs l ?c] by blast
  then show ?thesis
  proof cases
    case none
    have "visits_below bs (Suc l) = visits_below bs l"
    proof -
      have "idx < 64 * l" if "idx < 64 * Suc l" "pending_map bs idx" for idx
      proof (rule ccontr)
        assume "\<not> idx < 64 * l"
        then obtain i where "idx = 64 * l + i" using le_Suc_ex not_less by blast
        then show False using none(2) that by auto
      qed
      then show ?thesis by (force simp: visits_below_def)
    qed
    then show ?thesis unfolding a b none(1) using m by simp
  next
    case some
    let ?t = "(?c + p) * 8 ^ l"
    have i: "64 * l + (?c + p) mod 64 < 576"
    proof -
      have "(?c + p) mod 64 < 64" by simp
      then show ?thesis using l by linarith
    qed
    have lt: "?t \<le> ?k + 2 ^ 30" using next_visit_bound [OF i, of ?k] level_visit [OF some(1), of ?k l] by simp
    have cp: "unat (c + of_int (int p)) = ?c + p"
    proof -
      have "unat (of_int (int p) :: u64) = p" using some(1) by (simp add: unsigned_of_nat take_bit_nat_eq_self)
      moreover have "?c + p < 2 ^ 64" using ceil_clk_small [of l ?k] clk some(1) by simp
      ultimately show ?thesis using c by (simp add: unat_add_small)
    qed
    have t: "unat (push_bit (LVL_SHIFT l) (c + of_int (int p))) = ?t"
    proof -
      have sh: "LVL_SHIFT l = l * 3" by (simp add: LVL_SHIFT_def LVL_CLK_SHIFT_def)
      have "(?c + p) * 2 ^ (l * 3) < 2 ^ 64" unfolding pow8
        by (rule le_less_trans [OF lt]) (use clk in simp)
      then have "take_bit 64 (push_bit (l * 3) (?c + p)) = (?c + p) * 2 ^ (l * 3)"
        unfolding push_bit_eq_mult by (rule take_bit_nat_eq_self)
      moreover have "unat (push_bit (l * 3) (c + of_int (int p))) = take_bit 64 (push_bit (l * 3) (unat (c + of_int (int p))))"
        by (simp only: unsigned_push_bit_eq) simp
      ultimately show ?thesis unfolding sh cp pow8 by simp
    qed
    have tb: "time_before api (push_bit (LVL_SHIFT l) (c + of_int (int p))) next \<longleftrightarrow> ?t < unat next"
    proof -
      have "?k \<le> unat next" by (rule least_of_ge [OF m refl])
      moreover have "?k \<le> ?t" using next_visit_visits(2) [of ?k "64 * l + (?c + p) mod 64"] level_visit [OF some(1), of ?k l] by simp
      ultimately have "unat next < unat (push_bit (LVL_SHIFT l) (c + of_int (int p))) + 2 ^ 63"
          "unat (push_bit (LVL_SHIFT l) (c + of_int (int p))) < unat next + 2 ^ 63"
        unfolding t using lt lim by (auto intro: le_less_trans)
      then show ?thesis unfolding time_compare(3) [OF api] using t by (simp only: time_after_iff [OF api])
    qed
    have "unat (let tmp = push_bit (LVL_SHIFT l) (c + of_int (int p)) in if time_before api tmp next then tmp else next) = min (unat next) ?t"
      unfolding Let_def using tb t by (simp add: min_def)
    then show ?thesis unfolding a b some(2) using visits_below_Suc [OF some(1,3,4) m] by simp
  qed
qed

lemma level_clk:
  assumes "unat c = ceil_clk l clk" "clk + 2 ^ 31 < 2 ^ 64"
  shows "unat (drop_bit LVL_CLK_SHIFT c + (if c AND LVL_CLK_MASK \<noteq> 0 then 1 else 0)) = ceil_clk (Suc l) clk"
proof -
  have z: "c AND LVL_CLK_MASK \<noteq> 0 \<longleftrightarrow> ceil_clk l clk mod 8 \<noteq> 0"
    using unat_and_mask [of c 3] assms(1) by (simp add: unat_eq_0 [symmetric])
  have d: "unat (drop_bit LVL_CLK_SHIFT c) = ceil_clk l clk div 8" by (simp add: LVL_CLK_SHIFT_def unat_drop_bit assms(1))
  have "ceil_clk l clk div 8 + 1 < 2 ^ 64"
  proof -
    have "ceil_clk l clk div 8 \<le> clk" using ceil_clk_small [of l clk] by (metis div_le_dividend le_trans)
    then have "ceil_clk l clk div 8 + 1 \<le> clk + 1" by simp
    also have "\<dots> < 2 ^ 64" using assms(2) by simp
    finally show ?thesis .
  qed
  then have "unat (drop_bit LVL_CLK_SHIFT c + 1) = ceil_clk l clk div 8 + 1" using d by (simp add: unat_add_small)
  then show ?thesis unfolding ceil_clk_Suc z using d by simp
qed

lemma next_levels:
  assumes api: "kapi_ok api" and clk: "unat (b_clk bs) + 2 ^ 31 < 2 ^ 64"
  shows "l \<le> 9 \<Longrightarrow> unat c = ceil_clk l (unat (b_clk bs)) \<Longrightarrow>
    least_of (unat (b_clk bs) + 2 ^ 30 - 1) (unat next) (visits_below bs l) \<Longrightarrow>
    least_of (unat (b_clk bs) + 2 ^ 30 - 1) (unat (next_interrupt_levels api bs [l..<9] c next)) (visits_below bs 9)"
proof (induction "9 - l" arbitrary: l c "next")
  case 0
  then show ?case by simp
next
  case (Suc n)
  then have l: "l < 9" by simp
  have up: "[l..<9] = l # [Suc l..<9]" using l by (rule upt_conv_Cons)
  have n: "n = 9 - Suc l" "Suc l \<le> 9" using Suc.hyps(2) l by simp_all
  show ?case unfolding up next_interrupt_levels.simps Let_def
    by (rule Suc.hyps(1) [OF n level_clk [OF Suc.prems(2) clk] level_step [OF api clk l Suc.prems(2,3), unfolded Let_def]])
qed

text \<open>The result is the first visit of a pending bucket, or the largest delta when there is none sooner.\<close>

lemma next_timer_interrupt_spec:
  assumes api: "kapi_ok api" and clk: "unat (b_clk bs) + 2 ^ 31 < 2 ^ 64"
  shows "least_of (unat (b_clk bs) + 2 ^ 30 - 1) (unat (next_timer_interrupt api bs)) (visits_below bs 9)"
proof -
  let ?k = "unat (b_clk bs)"
  have d: "unat NEXT_TIMER_MAX_DELTA = 2 ^ 30 - 1"
    by (simp add: NEXT_TIMER_MAX_DELTA_def)
  have n: "unat (b_clk bs + NEXT_TIMER_MAX_DELTA) = ?k + 2 ^ 30 - 1"
    using unat_add_small [of "b_clk bs" NEXT_TIMER_MAX_DELTA] clk by (simp add: d)
  have "visits_below bs 0 = {}" by (simp add: visits_below_def)
  then have "least_of (?k + 2 ^ 30 - 1) (unat (b_clk bs + NEXT_TIMER_MAX_DELTA)) (visits_below bs 0)" by (simp add: least_of_def n)
  moreover have "unat (b_clk bs) = ceil_clk 0 ?k" by (simp add: ceil_clk_def)
  ultimately show ?thesis unfolding next_timer_interrupt_def wheel_consts by (intro next_levels [OF api clk]) simp_all
qed

end
