(* ===== verification/Kern_Run.thy ===== *)
theory Kern_Run
  imports Kern_Next
begin

unbundle bit_operations_syntax

text \<open>
  Running the wheel. \<open>kinv_heads st b n\<close> is the invariant of all bases while the base b expires the
  first n of its local lists: bitmap, buckets, entries and flags agree. Between runs n is 0 (\<open>kinv\<close>).
\<close>

section \<open>The invariant\<close>

declare split_paired_All [simp del] split_paired_Ex [simp del]

abbreviation bucket_list :: "'w kst \<Rightarrow> base_id \<Rightarrow> nat \<Rightarrow> addr list" where
  "bucket_list st b idx \<equiv> vectors (k_bases st b) idx"

abbreviation head_list :: "'w kst \<Rightarrow> base_id \<Rightarrow> nat \<Rightarrow> addr list" where
  "head_list st b i \<equiv> b_heads (k_bases st b) i"

definition buckets_ok :: "'w kst \<Rightarrow> bool" where
  "buckets_ok st \<longleftrightarrow> (\<forall>b idx. (bucket_list st b idx \<noteq> [] \<longrightarrow> pending_map (k_bases st b) idx) \<and>
     (576 \<le> idx \<longrightarrow> bucket_list st b idx = []) \<and> distinct (bucket_list st b idx) \<and>
     (\<forall>t \<in> set (bucket_list st b idx). \<exists>tm. k_timers st t = Some tm \<and> t_entry tm = Some (Bucket b idx) \<and>
        t_function tm \<noteq> None \<and> unat (timer_get_idx tm) = idx \<and> get_timer_base (t_flags tm) = b))"

definition heads_ok :: "'w kst \<Rightarrow> base_id \<Rightarrow> nat \<Rightarrow> bool" where
  "heads_ok st b n \<longleftrightarrow> (\<forall>i < n. distinct (head_list st b i) \<and>
     (\<forall>t \<in> set (head_list st b i). \<exists>tm. k_timers st t = Some tm \<and> t_entry tm = Some (Head b i) \<and> t_function tm \<noteq> None))"

definition entries_ok :: "'w kst \<Rightarrow> base_id \<Rightarrow> nat \<Rightarrow> bool" where
  "entries_ok st b n \<longleftrightarrow> (\<forall>t tm. k_timers st t = Some tm \<longrightarrow> t_flags tm AND TIMER_MIGRATING = 0 \<and>
     (case t_entry tm of None \<Rightarrow> True
      | Some (Bucket b' idx) \<Rightarrow> t \<in> set (bucket_list st b' idx)
      | Some (Head b' i) \<Rightarrow> b' = b \<and> i < n \<and> t \<in> set (head_list st b i)))"

definition kinv_heads :: "'w kst \<Rightarrow> base_id \<Rightarrow> nat \<Rightarrow> bool" where
  "kinv_heads st b n \<longleftrightarrow> buckets_ok st \<and> heads_ok st b n \<and> entries_ok st b n"

definition kinv :: "'w kst \<Rightarrow> bool" where
  "kinv st \<longleftrightarrow> (\<forall>b. kinv_heads st b 0)"

lemma kinv_iff: "kinv st \<longleftrightarrow> kinv_heads st b 0"
  by (auto simp: kinv_def kinv_heads_def heads_ok_def entries_ok_def split: option.splits klist.splits)

lemma in_bucket:
  "buckets_ok st \<Longrightarrow> t \<in> set (bucket_list st b idx) \<Longrightarrow>
     \<exists>tm. k_timers st t = Some tm \<and> t_entry tm = Some (Bucket b idx) \<and> t_function tm \<noteq> None \<and> unat (timer_get_idx tm) = idx"
  unfolding buckets_ok_def by blast

text \<open>Fields of a base that the invariant does not mention.\<close>

lemma on_base_simps [simp]:
  "k_timers (on_base st b f) = k_timers st" "k_bases (on_base st b f) = (k_bases st)(b := f (k_bases st b))"
  "k_jiffies (on_base st b f) = k_jiffies st" "k_api (on_base st b f) = k_api st" "k_world (on_base st b f) = k_world st"
  "k_cpu (on_base st b f) = k_cpu st" "k_target (on_base st b f) = k_target st" "k_migration (on_base st b f) = k_migration st"
  by (simp_all add: on_base_def)

lemma kinv_heads_base:
  assumes "\<And>bs. pending_map (f bs) = pending_map bs \<and> vectors (f bs) = vectors bs \<and> b_heads (f bs) = b_heads bs"
  shows "kinv_heads (on_base st b' f) b n = kinv_heads st b n"
proof -
  have "pending_map (k_bases (on_base st b' f) c) = pending_map (k_bases st c)" "vectors (k_bases (on_base st b' f) c) = vectors (k_bases st c)"
      "b_heads (k_bases (on_base st b' f) c) = b_heads (k_bases st c)" for c
    using assms by simp_all
  then show ?thesis by (simp only: kinv_heads_def buckets_ok_def heads_ok_def entries_ok_def on_base_simps(1))
qed

lemma kinv_heads_clk [simp]:
  "kinv_heads (on_base st b' (b_clk_update g)) b n = kinv_heads st b n"
  "kinv_heads (on_base st b' (running_timer_update h)) b n = kinv_heads st b n"
  "kinv_heads (on_base st b' (must_forward_clk_update k)) b n = kinv_heads st b n"
  by (rule kinv_heads_base; simp)+

section \<open>Moving a bucket to a local list\<close>

lemma relocate_at:
  "distinct ts \<Longrightarrow> relocate ts l h t = (if t \<in> set ts then map_option (t_entry_update (\<lambda>_. Some l)) (h t) else h t)"
  by (induction ts arbitrary: h) auto

definition move_bucket :: "'w kst \<Rightarrow> base_id \<Rightarrow> nat \<Rightarrow> nat \<Rightarrow> 'w kst" where
  "move_bucket st b idx n = hlist_move_list
     (on_base st b (\<lambda>bs. bs\<lparr>pending_map := (pending_map bs)(idx := False)\<rparr>)) (Bucket b idx) (Head b n)"

lemma move_bucket_base:
  "k_bases (move_bucket st b idx n) = (k_bases st)(b := (k_bases st b)\<lparr>pending_map := (pending_map (k_bases st b))(idx := False),
     b_heads := (b_heads (k_bases st b))(n := bucket_list st b idx), vectors := (vectors (k_bases st b))(idx := [])\<rparr>)"
  "k_timers (move_bucket st b idx n) = relocate (bucket_list st b idx) (Head b n) (k_timers st)"
  "k_jiffies (move_bucket st b idx n) = k_jiffies st \<and> k_api (move_bucket st b idx n) = k_api st" "k_world (move_bucket st b idx n) = k_world st"
  by (simp_all add: move_bucket_def hlist_move_list_def Let_def)

lemma move_bucket_kinv:
  assumes "kinv_heads st b n"
  shows "kinv_heads (move_bucket st b idx n) b (Suc n)"
proof -
  let ?st = "move_bucket st b idx n" and ?xs = "bucket_list st b idx"
  have bk: "buckets_ok st" and hd: "heads_ok st b n" and en: "entries_ok st b n" using assms by (simp_all add: kinv_heads_def)
  have ds: "distinct ?xs" using bk by (simp add: buckets_ok_def)
  have tm: "k_timers ?st t = (if t \<in> set ?xs then map_option (t_entry_update (\<lambda>_. Some (Head b n))) (k_timers st t) else k_timers st t)" for t
    unfolding move_bucket_base by (rule relocate_at [OF ds])
  have vec: "bucket_list ?st b' i = (if b' = b \<and> i = idx then [] else bucket_list st b' i)" for b' i
    by (simp add: move_bucket_base)
  have pm: "pending_map (k_bases ?st b') i = (if b' = b \<and> i = idx then False else pending_map (k_bases st b') i)" for b' i
    by (simp add: move_bucket_base)
  have hds: "head_list ?st b i = (if i = n then ?xs else head_list st b i)" for i by (simp add: move_bucket_base)
  have other: "t \<notin> set ?xs" if t: "t \<in> set (bucket_list st b' i)" "b' \<noteq> b \<or> i \<noteq> idx" for t b' i
    using in_bucket [OF bk t(1)] in_bucket [OF bk, of t b idx] t(2) by auto
  have hother: "t \<notin> set ?xs" if t: "t \<in> set (head_list st b i)" "i < n" for t i
  proof -
    have "\<exists>tm. k_timers st t = Some tm \<and> t_entry tm = Some (Head b i)" using hd t by (auto simp: heads_ok_def)
    then show ?thesis using in_bucket [OF bk, of t b idx] by auto
  qed
  have "buckets_ok ?st" unfolding buckets_ok_def
  proof (intro allI conjI ballI impI)
    fix b' i
    show "pending_map (k_bases ?st b') i" if "bucket_list ?st b' i \<noteq> []"
      using bk that unfolding vec pm buckets_ok_def by (simp split: if_splits)
    show "bucket_list ?st b' i = []" if "576 \<le> i" using bk that by (simp add: vec buckets_ok_def)
    show "distinct (bucket_list ?st b' i)" using bk by (simp add: vec buckets_ok_def)
    fix t assume t: "t \<in> set (bucket_list ?st b' i)"
    then have t': "t \<in> set (bucket_list st b' i)" "b' \<noteq> b \<or> i \<noteq> idx" by (auto simp: vec split: if_splits)
    then show "\<exists>tm. k_timers ?st t = Some tm \<and> t_entry tm = Some (Bucket b' i) \<and> t_function tm \<noteq> None \<and>
        unat (timer_get_idx tm) = i \<and> get_timer_base (t_flags tm) = b'"
      using bk other [OF t'] by (simp add: tm buckets_ok_def)
  qed
  moreover have "heads_ok ?st b (Suc n)" unfolding heads_ok_def
  proof (intro allI impI conjI ballI)
    fix i assume i: "i < Suc n"
    show "distinct (head_list ?st b i)" using hd ds i by (simp add: hds heads_ok_def)
    fix t assume t: "t \<in> set (head_list ?st b i)"
    show "\<exists>tm. k_timers ?st t = Some tm \<and> t_entry tm = Some (Head b i) \<and> t_function tm \<noteq> None"
    proof (cases "i = n")
      case True
      then show ?thesis using t in_bucket [OF bk, of t b idx] by (auto simp: hds tm)
    next
      case False
      then have t': "t \<in> set (head_list st b i)" "i < n" using t i by (simp_all add: hds)
      then show ?thesis using hd hother [OF t'] by (simp add: tm heads_ok_def)
    qed
  qed
  moreover have "entries_ok ?st b (Suc n)" unfolding entries_ok_def
  proof (intro allI impI)
    fix t tm' assume a: "k_timers ?st t = Some tm'"
    show "t_flags tm' AND TIMER_MIGRATING = 0 \<and> (case t_entry tm' of None \<Rightarrow> True
      | Some (Bucket b' i) \<Rightarrow> t \<in> set (bucket_list ?st b' i)
      | Some (Head b' i) \<Rightarrow> b' = b \<and> i < Suc n \<and> t \<in> set (head_list ?st b i))"
    proof (cases "t \<in> set ?xs")
      case True
      then obtain tm0 where "k_timers st t = Some tm0" "tm' = tm0\<lparr>t_entry := Some (Head b n)\<rparr>" using a by (auto simp: tm)
      then show ?thesis using en True by (auto simp: entries_ok_def hds)
    next
      case False
      then have k: "k_timers st t = Some tm'" using a by (simp add: tm)
      have e: "t_flags tm' AND TIMER_MIGRATING = 0" "case t_entry tm' of None \<Rightarrow> True
          | Some (Bucket b' idx) \<Rightarrow> t \<in> set (bucket_list st b' idx) | Some (Head b' i) \<Rightarrow> b' = b \<and> i < n \<and> t \<in> set (head_list st b i)"
        using en k unfolding entries_ok_def by blast+
      show ?thesis
      proof (cases "t_entry tm'")
        case (Some l)
        then show ?thesis using e False by (cases l) (auto simp: vec hds)
      qed (simp add: e(1))
    qed
  qed
  ultimately show ?thesis by (simp add: kinv_heads_def)
qed


section \<open>Collecting\<close>

text \<open>A timer without the list it is in.\<close>

definition body :: "'w kst \<Rightarrow> addr \<Rightarrow> timer_list option" where
  "body st t = map_option (t_entry_update (\<lambda>_. None)) (k_timers st t)"

definition in_buckets :: "'w kst \<Rightarrow> base_id \<Rightarrow> (nat \<Rightarrow> bool) \<Rightarrow> addr set" where
  "in_buckets st b P = (\<Union>idx \<in> {idx. P idx}. set (bucket_list st b idx))"

text \<open>From st to st', the buckets P of b have become the local lists n0 to n - 1.\<close>

definition collected :: "'w kst \<Rightarrow> base_id \<Rightarrow> (nat \<Rightarrow> bool) \<Rightarrow> nat \<Rightarrow> nat \<Rightarrow> 'w kst \<Rightarrow> bool" where
  "collected st b P n0 n st' \<longleftrightarrow> n0 \<le> n \<and> kinv_heads st' b n \<and>
     (\<forall>idx. bucket_list st' b idx = (if P idx then [] else bucket_list st b idx)) \<and>
     (\<forall>i < n0. head_list st' b i = head_list st b i) \<and>
     (\<Union>i \<in> {n0..<n}. set (head_list st' b i)) = in_buckets st b P \<and>
     (\<forall>b'. b' \<noteq> b \<longrightarrow> k_bases st' b' = k_bases st b') \<and> b_clk (k_bases st' b) = b_clk (k_bases st b) \<and>
     must_forward_clk (k_bases st' b) = must_forward_clk (k_bases st b) \<and>
     k_jiffies st' = k_jiffies st \<and> k_api st' = k_api st \<and> k_world st' = k_world st \<and> body st' = body st \<and>
     (\<forall>t. t \<notin> in_buckets st b P \<longrightarrow> k_timers st' t = k_timers st t)"

lemma collected_none: "kinv_heads st b n \<Longrightarrow> (\<And>idx. P idx \<Longrightarrow> bucket_list st b idx = []) \<Longrightarrow> collected st b P n n st"
  by (auto simp: collected_def in_buckets_def)

lemma collected_move: "kinv_heads st b n \<Longrightarrow> collected st b (\<lambda>i. i = idx) n (Suc n) (move_bucket st b idx n)"
proof -
  assume k: "kinv_heads st b n"
  let ?st = "move_bucket st b idx n" and ?xs = "bucket_list st b idx"
  have ds: "distinct ?xs" using k by (simp add: kinv_heads_def buckets_ok_def)
  have tm: "k_timers ?st t = (if t \<in> set ?xs then map_option (t_entry_update (\<lambda>_. Some (Head b n))) (k_timers st t) else k_timers st t)" for t
    unfolding move_bucket_base by (rule relocate_at [OF ds])
  have "body ?st = body st"
  proof
    fix t show "body ?st t = body st t" unfolding body_def tm by (simp add: map_option.compositionality comp_def)
  qed
  then show ?thesis using move_bucket_kinv [OF k, of idx] unfolding collected_def in_buckets_def
    by (simp add: move_bucket_base(1,3,4) tm)
qed

lemma collected_trans:
  assumes 1: "collected st b P n0 n1 st1" and 2: "collected st1 b Q n1 n2 st2"
  shows "collected st b (\<lambda>i. P i \<or> Q i) n0 n2 st2"
proof -
  note c1 = 1 [unfolded collected_def] and c2 = 2 [unfolded collected_def]
  have iq: "in_buckets st b (\<lambda>i. P i \<or> Q i) = in_buckets st b P \<union> in_buckets st1 b Q"
  proof -
    have v: "bucket_list st1 b idx = (if P idx then [] else bucket_list st b idx)" for idx using c1 by blast
    have "t \<in> in_buckets st1 b Q \<longleftrightarrow> (\<exists>idx. Q idx \<and> \<not> P idx \<and> t \<in> set (bucket_list st b idx))" for t
      unfolding in_buckets_def by (auto simp: v split: if_splits)
    then show ?thesis unfolding in_buckets_def by blast
  qed
  have le: "n0 \<le> n1" "n1 \<le> n2" using c1 c2 by blast+
  have "(\<Union>i \<in> {n0..<n2}. set (head_list st2 b i)) = in_buckets st b P \<union> in_buckets st1 b Q"
  proof -
    have "{n0..<n2} = {n0..<n1} \<union> {n1..<n2}" using le by auto
    moreover have "(\<Union>i \<in> {n0..<n1}. set (head_list st2 b i)) = (\<Union>i \<in> {n0..<n1}. set (head_list st1 b i))" using c2 by simp
    ultimately show ?thesis using c1 c2 by (simp add: UN_Un)
  qed
  moreover have "\<forall>i < n0. head_list st2 b i = head_list st b i" using c1 c2 le by simp
  moreover have "\<forall>t. t \<notin> in_buckets st b P \<union> in_buckets st1 b Q \<longrightarrow> k_timers st2 t = k_timers st t" using c1 c2 by simp
  ultimately show ?thesis unfolding collected_def iq using c1 c2 le by simp
qed

lemma collected_cong:
  "collected st b P n0 n st' \<Longrightarrow> (\<And>idx. bucket_list st b idx \<noteq> [] \<Longrightarrow> P idx = Q idx) \<Longrightarrow> collected st b Q n0 n st'"
proof -
  assume c: "collected st b P n0 n st'" and e: "\<And>idx. bucket_list st b idx \<noteq> [] \<Longrightarrow> P idx = Q idx"
  have "P idx \<and> t \<in> set (bucket_list st b idx) \<longleftrightarrow> Q idx \<and> t \<in> set (bucket_list st b idx)" for idx t
    using e [of idx] by (cases "bucket_list st b idx = []") auto
  then have "in_buckets st b Q = in_buckets st b P" unfolding in_buckets_def by blast
  moreover have "(if Q idx then [] else bucket_list st b idx) = (if P idx then [] else bucket_list st b idx)" for idx
    using e [of idx] by (cases "bucket_list st b idx = []") auto
  ultimately show ?thesis using c by (simp add: collected_def)
qed

text \<open>A bucket of level i is visited now if it has the position of the clock of that level.\<close>

lemma visit_level:
  assumes "8 ^ i dvd c"
  shows "visit idx c \<and> idx div 64 = i \<longleftrightarrow> idx = 64 * i + c div 8 ^ i mod 64"
proof
  assume "visit idx c \<and> idx div 64 = i"
  then have "idx div 64 = i" "idx mod 64 = c div 8 ^ i mod 64" by (auto simp: visit_def)
  then show "idx = 64 * i + c div 8 ^ i mod 64" by (metis mult_div_mod_eq)
next
  assume "idx = 64 * i + c div 8 ^ i mod 64"
  then have "idx div 64 = i" "idx mod 64 = c div 8 ^ i mod 64" by simp_all
  then show "visit idx c \<and> idx div 64 = i" using assms by (simp add: visit_def)
qed

lemma visit_higher: "visit idx c \<Longrightarrow> i < idx div 64 \<Longrightarrow> 8 ^ Suc i dvd c"
  unfolding visit_def by (meson Suc_leI dvd_trans le_imp_power_dvd)

lemma collect_levels_spec:
  "i \<le> 9 \<Longrightarrow> kinv_heads st b n \<Longrightarrow> 8 ^ i dvd c \<Longrightarrow> unat clk = c div 8 ^ i \<Longrightarrow>
     \<exists>n' st'. collect_levels st b [i..<9] clk n = (n', st') \<and> collected st b (\<lambda>idx. visit idx c \<and> i \<le> idx div 64) n n' st'"
proof (induction "9 - i" arbitrary: i st n clk)
  case 0
  then have i: "i = 9" by simp
  have "bucket_list st b idx = []" if "9 \<le> idx div 64" for idx
  proof -
    have "576 \<le> idx" using that by linarith
    then show ?thesis using 0(3) by (simp add: kinv_heads_def buckets_ok_def)
  qed
  then have "collected st b (\<lambda>idx. visit idx c \<and> 9 \<le> idx div 64) n n st" by (intro collected_none [OF 0(3)]) blast
  then show ?case by (simp add: i)
next
  case (Suc m)
  then have i: "i < 9" by simp
  have up: "[i..<9] = i # [Suc i..<9]" using i by (rule upt_conv_Cons)
  let ?idx = "64 * i + c div 8 ^ i mod 64"
  have idx: "unat ((clk AND LVL_MASK) + of_nat i * LVL_SIZE) = ?idx"
  proof -
    have o: "unat (of_nat i * 64 :: u64) = 64 * i" using i by (simp add: unat_word_ariths unsigned_of_nat take_bit_eq_mod)
    have a: "unat (clk AND LVL_MASK) = c div 8 ^ i mod 64" by (simp add: unat_and_mask Suc.prems(4))
    have "unat (clk AND LVL_MASK) + unat (of_nat i * 64 :: u64) < 2 ^ 64"
    proof -
      have "c div 8 ^ i mod 64 < 64" by simp
      then show ?thesis unfolding a o using i by simp
    qed
    then show ?thesis using a o by (simp add: unat_add_small)
  qed
  have z: "clk AND LVL_CLK_MASK \<noteq> 0 \<longleftrightarrow> c div 8 ^ i mod 8 \<noteq> 0"
    using unat_and_mask [of clk 3] Suc.prems(4) by (simp add: unat_eq_0 [symmetric])
  have step: "\<exists>n1 st1. (if pending_map (k_bases st b) ?idx then (Suc n, move_bucket st b ?idx n) else (n, st)) = (n1, st1) \<and>
      collected st b (\<lambda>idx. idx = ?idx) n n1 st1"
  proof (cases "pending_map (k_bases st b) ?idx")
    case True
    then show ?thesis using collected_move [OF Suc.prems(2), of ?idx] by simp
  next
    case False
    then have "bucket_list st b ?idx = []" using Suc.prems(2) unfolding kinv_heads_def buckets_ok_def by blast
    then have "collected st b (\<lambda>idx. idx = ?idx) n n st" by (intro collected_none [OF Suc.prems(2)]) simp
    then show ?thesis using False by simp
  qed
  then obtain n1 st1 where s1: "(if pending_map (k_bases st b) ?idx then (Suc n, move_bucket st b ?idx n) else (n, st)) = (n1, st1)"
      "collected st b (\<lambda>idx. idx = ?idx) n n1 st1" by blast
  have run: "collect_levels st b [i..<9] clk n =
      (if clk AND LVL_CLK_MASK \<noteq> 0 then (n1, st1) else collect_levels st1 b [Suc i..<9] (drop_bit LVL_CLK_SHIFT clk) n1)"
    unfolding up collect_levels.simps Let_def idx by (simp only: move_bucket_def [symmetric] s1(1) prod.case)
  show ?case
  proof (cases "c div 8 ^ i mod 8 = 0")
    case False
    have "visit idx c \<and> i \<le> idx div 64 \<longleftrightarrow> idx = ?idx" for idx
    proof -
      have "\<not> 8 ^ Suc i dvd c"
      proof
        assume "8 ^ Suc i dvd c"
        then obtain x where "c = 8 ^ i * (8 * x)" by (auto elim!: dvdE simp: mult_ac)
        then show False using False by simp
      qed
      then have "idx div 64 = i" if "visit idx c" "i \<le> idx div 64" using visit_higher [of idx c i] that by (cases "i = idx div 64") auto
      then show ?thesis using visit_level [OF Suc.prems(3), of idx] by auto
    qed
    then show ?thesis using run z False s1(2) by simp
  next
    case True
    have c: "8 ^ Suc i dvd c"
    proof -
      have "c = c div 8 ^ i * 8 ^ i" using Suc.prems(3) by simp
      moreover have "c div 8 ^ i = 8 * (c div 8 ^ i div 8)" using True by auto
      ultimately have "c = 8 ^ Suc i * (c div 8 ^ i div 8)" by (metis mult.assoc mult.commute power_Suc)
      then show ?thesis by (metis dvd_triv_left)
    qed
    have d: "unat (drop_bit LVL_CLK_SHIFT clk) = c div 8 ^ Suc i"
      using Suc.prems(4) by (simp add: LVL_CLK_SHIFT_def unat_drop_bit div_mult2_eq [symmetric] mult.commute)
    have m: "m = 9 - Suc i" "Suc i \<le> 9" using Suc.hyps(2) i by simp_all
    have k1: "kinv_heads st1 b n1" using s1(2) by (simp add: collected_def)
    obtain n2 st2 where s2: "collect_levels st1 b [Suc i..<9] (drop_bit LVL_CLK_SHIFT clk) n1 = (n2, st2)"
        "collected st1 b (\<lambda>idx. visit idx c \<and> Suc i \<le> idx div 64) n1 n2 st2"
      using Suc.hyps(1) [OF m k1 c d] by blast
    have "collected st b (\<lambda>idx. visit idx c \<and> i \<le> idx div 64) n n2 st2"
    proof (rule collected_cong [OF collected_trans [OF s1(2) s2(2)]])
      show "(idx = ?idx \<or> visit idx c \<and> Suc i \<le> idx div 64) = (visit idx c \<and> i \<le> idx div 64)" for idx
        using visit_level [OF Suc.prems(3), of idx] by auto
    qed
    then show ?thesis using run z True s2(1) by simp
  qed
qed

lemma collect_level_spec:
  assumes "kinv st"
  shows "\<exists>n st'. collect_expired_level st b = (n, st') \<and> collected st b (\<lambda>idx. visit idx (unat (b_clk (k_bases st b)))) 0 n st'"
proof -
  have k: "kinv_heads st b 0" using assms kinv_iff by blast
  show ?thesis using collect_levels_spec [of 0 st b 0 "unat (b_clk (k_bases st b))" "b_clk (k_bases st b)"] k
    by (simp add: collect_expired_level_def)
qed


section \<open>Expiring a local list\<close>

text \<open>
  Callbacks that do not touch the timers: act is what they do to the rest of the world, and may depend
  on the function, the timer, and what they can see of their base b (its clock, must_forward_clk and
  running_timer). \<open>log_call\<close> is the one that records its timer.
\<close>

type_synonym 'w act = "nat \<Rightarrow> addr \<Rightarrow> u64 \<times> bool \<times> addr option \<Rightarrow> 'w \<Rightarrow> 'w"

definition world_call :: "base_id \<Rightarrow> 'w act \<Rightarrow> nat \<Rightarrow> addr \<Rightarrow> 'w kst \<Rightarrow> 'w kst option" where
  "world_call b act f t st = Some (st\<lparr>k_world :=
     act f t (b_clk (k_bases st b), must_forward_clk (k_bases st b), running_timer (k_bases st b)) (k_world st)\<rparr>)"

definition log_call :: "nat \<Rightarrow> addr \<Rightarrow> addr list kst \<Rightarrow> addr list kst option" where
  "log_call f t st = Some (st\<lparr>k_world := k_world st @ [t]\<rparr>)"

text \<open>The call of the function of t, at the clock clk: t is the running timer.\<close>

definition called :: "'w act \<Rightarrow> (addr \<Rightarrow> timer_list option) \<Rightarrow> u64 \<Rightarrow> bool \<Rightarrow> addr \<Rightarrow> 'w \<Rightarrow> 'w" where
  "called act timers clk fwd t w = (case Option.bind (timers t) t_function of
     Some f \<Rightarrow> act f t (clk, fwd, Some t) w | None \<Rightarrow> w)"

definition expired_list :: "'w act \<Rightarrow> 'w kst \<Rightarrow> base_id \<Rightarrow> nat \<Rightarrow> addr list \<Rightarrow> 'w kst \<Rightarrow> bool" where
  "expired_list act st b n ts st' \<longleftrightarrow> kinv_heads st' b n \<and>
     k_world st' = fold (called act (body st) (b_clk (k_bases st b)) (must_forward_clk (k_bases st b))) ts (k_world st) \<and>
     (\<forall>idx. bucket_list st' b idx = bucket_list st b idx) \<and> (\<forall>i < n. head_list st' b i = head_list st b i) \<and>
     (\<forall>b'. b' \<noteq> b \<longrightarrow> k_bases st' b' = k_bases st b') \<and> b_clk (k_bases st' b) = b_clk (k_bases st b) \<and>
     must_forward_clk (k_bases st' b) = must_forward_clk (k_bases st b) \<and>
     k_jiffies st' = k_jiffies st \<and> k_api st' = k_api st \<and> body st' = body st \<and> (\<forall>t. t \<notin> set ts \<longrightarrow> k_timers st' t = k_timers st t) \<and>
     (\<forall>t \<in> set ts. k_timers st' t = body st t)"

lemma kinv_heads_empty: "kinv_heads st b (Suc n) \<Longrightarrow> head_list st b n = [] \<Longrightarrow> kinv_heads st b n"
proof -
  assume k: "kinv_heads st b (Suc n)" and e: "head_list st b n = []"
  have "entries_ok st b n" unfolding entries_ok_def
  proof (intro allI impI)
    fix t tm assume "k_timers st t = Some tm"
    then have a: "t_flags tm AND TIMER_MIGRATING = 0" "case t_entry tm of None \<Rightarrow> True
          | Some (Bucket b' idx) \<Rightarrow> t \<in> set (bucket_list st b' idx) | Some (Head b' i) \<Rightarrow> b' = b \<and> i < Suc n \<and> t \<in> set (head_list st b i)"
      using k unfolding kinv_heads_def entries_ok_def by blast+
    show "t_flags tm AND TIMER_MIGRATING = 0 \<and> (case t_entry tm of None \<Rightarrow> True
          | Some (Bucket b' idx) \<Rightarrow> t \<in> set (bucket_list st b' idx) | Some (Head b' i) \<Rightarrow> b' = b \<and> i < n \<and> t \<in> set (head_list st b i))"
    proof (cases "t_entry tm")
      case (Some l)
      show ?thesis
      proof (cases l)
        case (Head b' i)
        then have h: "b' = b" "i < Suc n" "t \<in> set (head_list st b i)" using a(2) Some by simp_all
        then have "i \<noteq> n" using e by auto
        then show ?thesis using a(1) Some Head h by simp
      qed (use a Some in simp)
    qed (simp add: a(1))
  qed
  then show ?thesis using k by (simp add: kinv_heads_def heads_ok_def)
qed

text \<open>One timer is taken off the local list n.\<close>

definition take_head :: "'w act \<Rightarrow> nat \<Rightarrow> 'w kst \<Rightarrow> base_id \<Rightarrow> nat \<Rightarrow> addr \<Rightarrow> addr list \<Rightarrow> timer_list \<Rightarrow> 'w kst" where
  "take_head act f st b n t ts tm = st\<lparr>
     k_timers := (k_timers st)(t \<mapsto> tm\<lparr>t_entry := None\<rparr>),
     k_world := act f t (b_clk (k_bases st b), must_forward_clk (k_bases st b), Some t) (k_world st),
     k_bases := (k_bases st)(b := (k_bases st b)\<lparr>b_heads := (b_heads (k_bases st b))(n := ts), running_timer := None\<rparr>)\<rparr>"

lemma expire_step:
  assumes "head_list st b n = t # ts" "k_timers st t = Some tm" "t_entry tm = Some (Head b n)" "t_function tm = Some f"
  shows "expire_timers (world_call b act) b n st = expire_timers (world_call b act) b n (take_head act f st b n t ts tm)"
  using assms by (subst expire_timers.simps)
    (simp add: detach_timer_def hlist_del_def on_timer_def on_base_def world_call_def take_head_def)

lemma take_head_kinv:
  assumes k: "kinv_heads st b (Suc n)" and h: "head_list st b n = t # ts" and tm: "k_timers st t = Some tm"
  shows "kinv_heads (take_head act f st b n t ts tm) b (Suc n)"
proof -
  let ?st = "take_head act f st b n t ts tm"
  have bk: "buckets_ok st" and hd: "heads_ok st b (Suc n)" and en: "entries_ok st b (Suc n)" using k by (simp_all add: kinv_heads_def)
  have ti: "k_timers ?st u = (if u = t then Some (tm\<lparr>t_entry := None\<rparr>) else k_timers st u)" for u by (simp add: take_head_def)
  have vec: "bucket_list ?st b' i = bucket_list st b' i" "pending_map (k_bases ?st b') i = pending_map (k_bases st b') i" for b' i
    by (simp_all add: take_head_def)
  have hds: "head_list ?st b i = (if i = n then ts else head_list st b i)" for i by (simp add: take_head_def)
  have th: "t_entry tm = Some (Head b n)" "distinct (t # ts)" using hd h tm by (fastforce simp: heads_ok_def)+
  have nb: "t \<notin> set (bucket_list st b' i)" for b' i using in_bucket [OF bk, of t b' i] tm th(1) by auto
  have nh: "t \<notin> set (head_list ?st b i)" if "i < Suc n" for i
  proof (cases "i = n")
    case True
    then show ?thesis using th(2) by (simp add: hds)
  next
    case False
    show ?thesis
    proof
      assume "t \<in> set (head_list ?st b i)"
      then have "t_entry tm = Some (Head b i)" using hd that tm False by (fastforce simp: heads_ok_def hds)
      then show False using th(1) False by simp
    qed
  qed
  have "buckets_ok ?st" unfolding buckets_ok_def vec
  proof (intro allI conjI ballI impI)
    fix b' i u assume u: "u \<in> set (bucket_list st b' i)"
    then have "u \<noteq> t" using nb by blast
    then show "\<exists>tm'. k_timers ?st u = Some tm' \<and> t_entry tm' = Some (Bucket b' i) \<and> t_function tm' \<noteq> None \<and>
        unat (timer_get_idx tm') = i \<and> get_timer_base (t_flags tm') = b'"
      using bk u unfolding ti buckets_ok_def by simp
  qed (use bk in \<open>simp_all add: buckets_ok_def\<close>)
  moreover have "heads_ok ?st b (Suc n)" unfolding heads_ok_def
  proof (intro allI impI conjI ballI)
    fix i assume i: "i < Suc n"
    show "distinct (head_list ?st b i)" using hd h i by (auto simp: hds heads_ok_def)
    fix u assume u: "u \<in> set (head_list ?st b i)"
    then have "u \<noteq> t" using nh i by blast
    moreover have "u \<in> set (head_list st b i)" using u h by (auto simp: hds split: if_splits)
    ultimately show "\<exists>tm'. k_timers ?st u = Some tm' \<and> t_entry tm' = Some (Head b i) \<and> t_function tm' \<noteq> None"
      using hd i unfolding ti heads_ok_def by simp
  qed
  moreover have "entries_ok ?st b (Suc n)" unfolding entries_ok_def
  proof (intro allI impI)
    fix u tm' assume a: "k_timers ?st u = Some tm'"
    show "t_flags tm' AND TIMER_MIGRATING = 0 \<and> (case t_entry tm' of None \<Rightarrow> True
      | Some (Bucket b' i) \<Rightarrow> u \<in> set (bucket_list ?st b' i)
      | Some (Head b' i) \<Rightarrow> b' = b \<and> i < Suc n \<and> u \<in> set (head_list ?st b i))"
    proof (cases "u = t")
      case True
      then have "tm' = tm\<lparr>t_entry := None\<rparr>" using a by (simp add: ti)
      then show ?thesis using en tm by (auto simp: entries_ok_def)
    next
      case False
      then have k': "k_timers st u = Some tm'" using a by (simp add: ti)
      have e: "t_flags tm' AND TIMER_MIGRATING = 0" "case t_entry tm' of None \<Rightarrow> True
          | Some (Bucket b' idx) \<Rightarrow> u \<in> set (bucket_list st b' idx) | Some (Head b' i) \<Rightarrow> b' = b \<and> i < Suc n \<and> u \<in> set (head_list st b i)"
        using en k' unfolding entries_ok_def by blast+
      show ?thesis
      proof (cases "t_entry tm'")
        case (Some l)
        then show ?thesis using e False h by (cases l) (auto simp: vec hds)
      qed (simp add: e(1))
    qed
  qed
  ultimately show ?thesis by (simp add: kinv_heads_def)
qed

lemma expire_timers_spec:
  "kinv_heads st b (Suc n) \<Longrightarrow> \<exists>st'. expire_timers (world_call b act) b n st = Some st' \<and> expired_list act st b n (head_list st b n) st'"
proof (induction "head_list st b n" arbitrary: st)
  case Nil
  then have "expire_timers (world_call b act) b n st = Some st" by (subst expire_timers.simps) simp
  then show ?case using kinv_heads_empty [OF Nil.prems] Nil.hyps by (simp add: expired_list_def)
next
  case (Cons t ts)
  have h: "head_list st b n = t # ts" using Cons.hyps(2) by simp
  obtain tm f where tm: "k_timers st t = Some tm" "t_entry tm = Some (Head b n)" "t_function tm = Some f"
    using Cons.prems h by (fastforce simp: kinv_heads_def heads_ok_def)
  have ds: "t \<notin> set ts" using Cons.prems h by (fastforce simp: kinv_heads_def heads_ok_def)
  let ?st = "take_head act f st b n t ts tm"
  have "ts = head_list ?st b n" by (simp add: take_head_def)
  then obtain st' where IH: "expire_timers (world_call b act) b n ?st = Some st'" "expired_list act ?st b n ts st'"
    using Cons.hyps(1) [of ?st] take_head_kinv [OF Cons.prems h tm(1)] by metis
  have bd: "body ?st = body st"
  proof
    fix u show "body ?st u = body st u" using tm(1) by (simp add: body_def take_head_def)
  qed
  have "expired_list act st b n (t # ts) st'"
    using IH(2) ds tm(1,3) unfolding expired_list_def bd by (simp add: take_head_def body_def called_def)
  then show ?case using expire_step [OF h tm] IH(1) h by simp
qed

end
