(* ===== verification/Kern_Fire.thy ===== *)
theory Kern_Fire
  imports Kern_Run
begin

unbundle bit_operations_syntax

text \<open>
  The expiry of a base of the kernel wheel: the local lists are run one after the other, a pass of
  __run_timers fires the buckets of one time of the clock and skips the times at which no bucket is visited,
  and the loop fires every bucket that is visited up to the current jiffies, in the order of the visits.
\<close>

section \<open>Expiring the local lists\<close>

lemma heads_disjoint:
  assumes "kinv_heads st b n" "i < n" "j < n" "t \<in> set (head_list st b i)" "t \<in> set (head_list st b j)"
  shows "i = j"
proof -
  have "\<exists>tm. k_timers st t = Some tm \<and> t_entry tm = Some (Head b i)" "\<exists>tm. k_timers st t = Some tm \<and> t_entry tm = Some (Head b j)"
    using assms by (auto simp: kinv_heads_def heads_ok_def)
  then show ?thesis by auto
qed

lemma expired_list_append:
  assumes 1: "expired_list act st b n ts st1" and 2: "expired_list act st1 b m us st2" and m: "m \<le> n"
  shows "expired_list act st b m (ts @ us) st2"
proof -
  note e1 = 1 [unfolded expired_list_def] and e2 = 2 [unfolded expired_list_def]
  have "k_timers st2 t = body st t" if "t \<in> set (ts @ us)" for t
    using that e1 e2 by (cases "t \<in> set us") auto
  then show ?thesis using e1 e2 m by (simp add: expired_list_def)
qed

lemma expire_heads_spec:
  "kinv_heads st b n \<Longrightarrow> \<exists>ts st'. expire_heads (world_call b act) b n st = Some st' \<and> expired_list act st b 0 ts st' \<and>
     distinct ts \<and> set ts = (\<Union>i \<in> {..<n}. set (head_list st b i))"
proof (induction n arbitrary: st)
  case 0
  then have "expire_heads (world_call b act) b 0 st = Some st \<and> expired_list act st b 0 [] st" by (simp add: expired_list_def)
  then show ?case by (intro exI [of _ "[]"] exI [of _ st]) simp
next
  case (Suc n)
  let ?xs = "head_list st b n"
  obtain st1 where 1: "expire_timers (world_call b act) b n st = Some st1" "expired_list act st b n ?xs st1"
    using expire_timers_spec [OF Suc.prems] by blast
  have k1: "kinv_heads st1 b n" and h1: "\<And>i. i < n \<Longrightarrow> head_list st1 b i = head_list st b i"
    using 1(2) by (simp_all add: expired_list_def)
  obtain ts st2 where 2: "expire_heads (world_call b act) b n st1 = Some st2" "expired_list act st1 b 0 ts st2" "distinct ts"
      "set ts = (\<Union>i \<in> {..<n}. set (head_list st1 b i))"
    using Suc.IH [OF k1] by blast
  have ts: "set ts = (\<Union>i \<in> {..<n}. set (head_list st b i))" unfolding 2(4) using h1 by simp
  have "distinct ?xs" using Suc.prems by (simp add: kinv_heads_def heads_ok_def)
  moreover have "set ?xs \<inter> set ts = {}"
  proof -
    have False if t: "t \<in> set ?xs" "t \<in> set ts" for t
    proof -
      obtain i where i: "i < n" "t \<in> set (head_list st b i)" using t(2) ts by blast
      then show False using heads_disjoint [OF Suc.prems, of n i t] t(1) by simp
    qed
    then show ?thesis by blast
  qed
  moreover have "set (?xs @ ts) = (\<Union>i \<in> {..<Suc n}. set (head_list st b i))" using ts by (simp add: lessThan_Suc)
  moreover have "expire_heads (world_call b act) b (Suc n) st = Some st2" using 1(1) 2(1) by simp
  ultimately show ?case using expired_list_append [OF 1(2) 2(2)] 2(3)
    by (intro exI [of _ "?xs @ ts"] exI [of _ st2]) simp
qed

section \<open>One pass of the loop\<close>

lemma sint_gt_2:
  assumes "unat (b :: u64) \<le> unat a" "unat a < 2 ^ 63"
  shows "sint (a - b) > 2 \<longleftrightarrow> 2 < unat a - unat b"
proof -
  have d: "unat (a - b) = unat a - unat b" using assms(1) by (rule unat_diff)
  have lt: "uint (a - b) < 2 ^ 63"
  proof -
    have "unat (a - b) < 2 ^ 63" using assms(2) unfolding d by (rule le_less_trans [OF diff_le_self])
    then have "int (unat (a - b)) < int (2 ^ 63)" by (simp only: of_nat_less_iff)
    then show ?thesis by simp
  qed
  have "- (2 ^ 63) \<le> uint (a - b)" by (rule order_trans [of _ 0]) simp_all
  then have "sint (a - b) = uint (a - b)" unfolding sint_uint using lt by (simp add: signed_take_bit_int_eq_self)
  also have "\<dots> = int (unat (a - b))" by simp
  finally show ?thesis unfolding d by linarith
qed

lemma pending_bucket: "kinv st \<Longrightarrow> bucket_list st b idx \<noteq> [] \<Longrightarrow> pending_map (k_bases st b) idx"
  unfolding kinv_def kinv_heads_def buckets_ok_def by blast

lemma bucket_lt: "kinv st \<Longrightarrow> bucket_list st b idx \<noteq> [] \<Longrightarrow> idx < 576"
  unfolding kinv_def kinv_heads_def buckets_ok_def by (meson not_less)

lemma kinv_clk [simp]: "kinv (on_base st b' (b_clk_update g)) = kinv st"
  unfolding kinv_iff [where b = b'] by (rule kinv_heads_clk(1))

lemma next_visit_iff:
  assumes "clk \<le> c" "c \<le> next_visit clk idx"
  shows "visit idx c \<longleftrightarrow> next_visit clk idx = c"
proof
  assume "visit idx c"
  then have "next_visit clk idx \<le> c" using assms(1) by (rule next_visit_least)
  then show "next_visit clk idx = c" using assms(2) by simp
qed (use next_visit_visits(1) [of idx clk] in simp)

text \<open>The time that a pass moves the clock to, at or before every visit of a bucket in use.\<close>

lemma collect_at:
  assumes k: "kinv st" and c: "unat w = c" "unat (b_clk (k_bases st b)) \<le> c"
    and le: "\<And>idx. bucket_list st b idx \<noteq> [] \<Longrightarrow> c \<le> next_visit (unat (b_clk (k_bases st b))) idx"
  shows "\<exists>n st'. collect_expired_level (on_base st b (b_clk_update (\<lambda>_. w))) b = (n, st') \<and>
    collected (on_base st b (b_clk_update (\<lambda>_. w))) b (\<lambda>idx. next_visit (unat (b_clk (k_bases st b))) idx = c) 0 n st'"
proof -
  let ?st = "on_base st b (b_clk_update (\<lambda>_. w))"
  obtain n st' where r: "collect_expired_level ?st b = (n, st')" "collected ?st b (\<lambda>idx. visit idx c) 0 n st'"
    using collect_level_spec [of ?st b] k c(1) by auto
  have "collected ?st b (\<lambda>idx. next_visit (unat (b_clk (k_bases st b))) idx = c) 0 n st'"
    using r(2)
  proof (rule collected_cong)
    fix idx assume "bucket_list ?st b idx \<noteq> []"
    then have "bucket_list st b idx \<noteq> []" by simp
    then show "visit idx c = (next_visit (unat (b_clk (k_bases st b))) idx = c)"
      using next_visit_iff [OF c(2) le] by blast
  qed
  then show ?thesis using r(1) by blast
qed

lemma forwarded: "on_base st b (b_clk_update (\<lambda>_. b_clk (k_bases st b))) = st"
  by (simp add: on_base_def)

lemma collect_expired_spec:
  assumes api: "kapi_ok (k_api st)" and k: "kinv st"
    and j: "unat (b_clk (k_bases st b)) \<le> unat (k_jiffies st)" "unat (k_jiffies st) < 2 ^ 63"
  shows "\<exists>w n st'. collect_expired_timers st b = (n, st') \<and> unat (b_clk (k_bases st b)) \<le> unat w \<and> unat w \<le> unat (k_jiffies st) \<and>
    (\<forall>idx. bucket_list st b idx \<noteq> [] \<longrightarrow> unat w \<le> next_visit (unat (b_clk (k_bases st b))) idx) \<and>
    collected (on_base st b (b_clk_update (\<lambda>_. w))) b (\<lambda>idx. next_visit (unat (b_clk (k_bases st b))) idx = unat w) 0 n st'"
proof -
  let ?clk = "b_clk (k_bases st b)" and ?now = "k_jiffies st" and ?next = "next_timer_interrupt (k_api st) (k_bases st b)"
  have far: "sint (?now - ?clk) > 2 \<longleftrightarrow> 2 < unat ?now - unat ?clk" using j by (rule sint_gt_2)
  have small: "unat ?clk + 2 ^ 31 < 2 ^ 64" using j by simp
  have least: "least_of (unat ?clk + 2 ^ 30 - 1) (unat ?next) (visits_below (k_bases st b) 9)"
    using api small by (rule next_timer_interrupt_spec)
  have le: "unat ?next \<le> next_visit (unat ?clk) idx" if i: "bucket_list st b idx \<noteq> []" for idx
  proof -
    have "next_visit (unat ?clk) idx \<in> visits_below (k_bases st b) 9"
      using pending_bucket [OF k, of b idx] bucket_lt [OF k i] i unfolding visits_below_def by auto
    then show ?thesis using least by (simp add: least_of_def)
  qed
  have ge: "unat ?clk \<le> unat ?next" using least_of_ge [OF least] by simp
  have after: "time_after (k_api st) ?next ?now \<longleftrightarrow> unat ?now < unat ?next"
  proof (rule time_after_iff [OF api])
    have "unat ?next \<le> unat ?clk + 2 ^ 30 - 1" using least by (simp add: least_of_def)
    then show "unat ?next < unat ?now + 2 ^ 63" using j(1) by simp
    show "unat ?now < unat ?next + 2 ^ 63" using j(2) by simp
  qed
  show ?thesis
  proof (cases "sint (?now - ?clk) > 2")
    case False
    have "unat ?clk \<le> next_visit (unat ?clk) idx" for idx by (rule next_visit_visits(2))
    then show ?thesis using collect_at [OF k, of ?clk "unat ?clk" b] False j(1)
      by (intro exI [of _ ?clk]) (simp add: collect_expired_timers_def Let_def forwarded)
  next
    case True
    show ?thesis
    proof (cases "time_after (k_api st) ?next ?now")
      case False
      then show ?thesis using collect_at [OF k, of ?next "unat ?next" b] True le ge after
        by (intro exI [of _ ?next]) (simp add: collect_expired_timers_def Let_def not_less)
    next
      case late: True
      let ?st = "on_base st b (b_clk_update (\<lambda>_. ?now))"
      have lt: "unat ?now < next_visit (unat ?clk) idx" if "bucket_list st b idx \<noteq> []" for idx
        using le [OF that] late after by simp
      have "collected ?st b (\<lambda>idx. next_visit (unat ?clk) idx = unat ?now) 0 0 ?st"
      proof (rule collected_none)
        show "kinv_heads ?st b 0" using k kinv_iff [of st b] by simp
        show "bucket_list ?st b idx = []" if "next_visit (unat ?clk) idx = unat ?now" for idx
          using lt [of idx] that by auto
      qed
      then show ?thesis using True late j(1) lt
        by (intro exI [of _ ?now] exI [of _ 0] exI [of _ ?st]) (auto simp: collect_expired_timers_def Let_def intro: less_imp_le)
    qed
  qed
qed

text \<open>From st to st', the buckets P of b have been run, in the order ts, and W is what the run of a timer does to the world.\<close>

definition fired :: "(addr \<Rightarrow> 'w \<Rightarrow> 'w) \<Rightarrow> 'w kst \<Rightarrow> base_id \<Rightarrow> (nat \<Rightarrow> bool) \<Rightarrow> addr list \<Rightarrow> 'w kst \<Rightarrow> bool" where
  "fired W st b P ts st' \<longleftrightarrow> kinv st' \<and> k_world st' = fold W ts (k_world st) \<and> distinct ts \<and> set ts = in_buckets st b P \<and>
     must_forward_clk (k_bases st' b) = must_forward_clk (k_bases st b) \<and>
     (\<forall>idx. bucket_list st' b idx = (if P idx then [] else bucket_list st b idx)) \<and>
     (\<forall>b'. b' \<noteq> b \<longrightarrow> k_bases st' b' = k_bases st b') \<and> k_jiffies st' = k_jiffies st \<and> k_api st' = k_api st \<and> body st' = body st \<and>
     (\<forall>t. k_timers st' t = (if t \<in> set ts then body st t else k_timers st t))"

definition pass :: "'w act \<Rightarrow> base_id \<Rightarrow> 'w kst \<Rightarrow> 'w kst option" where
  "pass act b st = (let (levels, st) = collect_expired_timers st b
     in expire_heads (world_call b act) b levels (on_base st b (b_clk_update (\<lambda>clk. clk + 1))))"

lemma run_loop_unfold:
  "run_timers_loop (world_call b act) b st =
     (if time_after_eq (k_api st) (k_jiffies st) (b_clk (k_bases st b)) then Option.bind (pass act b st) (run_timers_loop (world_call b act) b) else Some st)"
  by (subst run_timers_loop.simps) (simp add: pass_def Let_def split: prod.split)

lemma body_base [simp]: "body (on_base st b f) = body st"
  by (simp add: body_def fun_eq_iff)

lemma pass_spec:
  assumes api: "kapi_ok (k_api st)" and k: "kinv st"
    and j: "unat (b_clk (k_bases st b)) \<le> unat (k_jiffies st)" "unat (k_jiffies st) < 2 ^ 63"
  shows "\<exists>c ts st'. pass act b st = Some st' \<and> unat (b_clk (k_bases st b)) \<le> c \<and> c \<le> unat (k_jiffies st) \<and>
    (\<forall>idx. bucket_list st b idx \<noteq> [] \<longrightarrow> c \<le> next_visit (unat (b_clk (k_bases st b))) idx) \<and>
    unat (b_clk (k_bases st' b)) = c + 1 \<and>
    fired (called act (body st) (of_nat c + 1) (must_forward_clk (k_bases st b))) st b (\<lambda>idx. next_visit (unat (b_clk (k_bases st b))) idx = c) ts st'"
proof -
  let ?clk = "unat (b_clk (k_bases st b))"
  obtain w n st1 where c: "collect_expired_timers st b = (n, st1)" "?clk \<le> unat w" "unat w \<le> unat (k_jiffies st)"
      "\<forall>idx. bucket_list st b idx \<noteq> [] \<longrightarrow> unat w \<le> next_visit ?clk idx"
      and col: "collected (on_base st b (b_clk_update (\<lambda>_. w))) b (\<lambda>idx. next_visit ?clk idx = unat w) 0 n st1"
    using collect_expired_spec [OF assms] by blast
  let ?P = "\<lambda>idx. next_visit ?clk idx = unat w"
  let ?st2 = "on_base st1 b (b_clk_update (\<lambda>clk. clk + 1))"
  note cl = col [unfolded collected_def]
  have k2: "kinv_heads ?st2 b n" using cl by simp
  obtain ts st' where e: "expire_heads (world_call b act) b n ?st2 = Some st'" "expired_list act ?st2 b 0 ts st'" "distinct ts"
      "set ts = (\<Union>i \<in> {..<n}. set (head_list ?st2 b i))"
    using expire_heads_spec [OF k2] by blast
  have p: "pass act b st = Some st'" using c(1) e(1) by (simp add: pass_def)
  note el = e(2) [unfolded expired_list_def]
  have ts: "set ts = in_buckets st b ?P" using e(4) cl by (simp add: in_buckets_def atLeast0LessThan)
  have w1: "unat (w + 1) = unat w + 1"
  proof -
    have "unat w + 1 < 2 ^ 64" using le_less_trans [OF c(3) j(2)] by simp
    then show ?thesis using unat_add_small [of w 1] by simp
  qed
  have clk: "unat (b_clk (k_bases st' b)) = unat w + 1" using el cl w1 by simp
  have tm: "k_timers st' t = (if t \<in> set ts then body st t else k_timers st t)" for t
  proof (cases "t \<in> set ts")
    case True
    then show ?thesis using el cl by simp
  next
    case False
    then have "t \<notin> in_buckets (on_base st b (b_clk_update (\<lambda>_. w))) b ?P" using ts by (simp add: in_buckets_def)
    then show ?thesis using False el cl by simp
  qed
  have "kinv st'" using el kinv_iff by blast
  moreover have "k_world st' = fold (called act (body st) (of_nat (unat w) + 1) (must_forward_clk (k_bases st b))) ts (k_world st)"
    using el cl by simp
  ultimately have "fired (called act (body st) (of_nat (unat w) + 1) (must_forward_clk (k_bases st b))) st b ?P ts st'"
    using el cl e(3) ts tm unfolding fired_def by simp
  then show ?thesis using p c(2,3,4) clk by blast
qed

section \<open>The loop\<close>

lemma fired_trans:
  assumes 1: "fired W1 st b P ts st1" and 2: "fired W2 st1 b Q us st2"
    and w: "\<And>t. t \<in> set ts \<Longrightarrow> W t = W1 t" "\<And>t. t \<in> set us \<Longrightarrow> W t = W2 t"
    and R: "\<And>idx. bucket_list st b idx \<noteq> [] \<Longrightarrow> R idx \<longleftrightarrow> P idx \<or> Q idx"
  shows "fired W st b R (ts @ us) st2"
proof -
  note r1 = 1 [unfolded fired_def] and r2 = 2 [unfolded fired_def]
  have v: "bucket_list st1 b idx = (if P idx then [] else bucket_list st b idx)" for idx using r1 by blast
  have "t \<in> set (ts @ us) \<longleftrightarrow> t \<in> in_buckets st b R" for t
  proof -
    have m: "t \<in> set (bucket_list st b idx) \<and> R idx \<longleftrightarrow>
        t \<in> set (bucket_list st b idx) \<and> P idx \<or> t \<in> set (bucket_list st1 b idx) \<and> Q idx" for idx
    proof (cases "bucket_list st b idx = []")
      case False
      then show ?thesis using R [of idx] v [of idx] by auto
    qed (simp add: v)
    have "t \<in> set (ts @ us) \<longleftrightarrow> t \<in> in_buckets st b P \<or> t \<in> in_buckets st1 b Q" using r1 r2 by simp
    then show ?thesis unfolding in_buckets_def using m by blast
  qed
  then have set: "set (ts @ us) = in_buckets st b R" by blast
  have "set ts \<inter> set us = {}"
  proof -
    have False if t: "t \<in> set ts" "t \<in> set us" for t
    proof -
      obtain idx where "t \<in> set (bucket_list st1 b idx)" using t(2) r2 by (auto simp: in_buckets_def)
      moreover have "buckets_ok st1" using r1 by (simp add: kinv_def kinv_heads_def)
      ultimately obtain tm where tm: "k_timers st1 t = Some tm" "t_entry tm = Some (Bucket b idx)" using in_bucket by blast
      have "k_timers st1 t = body st t" using r1 t(1) by simp
      then show False using tm by (cases "k_timers st t") (auto simp: body_def)
    qed
    then show ?thesis by blast
  qed
  moreover have "bucket_list st2 b idx = (if R idx then [] else bucket_list st b idx)" for idx
    using r2 v [of idx] R [of idx] by (cases "bucket_list st b idx = []") auto
  moreover have "k_timers st2 t = (if t \<in> set (ts @ us) then body st t else k_timers st t)" for t
    using r1 r2 by (cases "t \<in> set us") auto
  moreover have "k_world st2 = fold W (ts @ us) (k_world st)"
  proof -
    have "fold W ts (k_world st) = fold W1 ts (k_world st)" by (rule fold_cong) (simp_all add: w(1))
    moreover have "fold W us (k_world st1) = fold W2 us (k_world st1)" by (rule fold_cong) (simp_all add: w(2))
    ultimately show ?thesis using r1 r2 by simp
  qed
  ultimately show ?thesis unfolding fired_def set [symmetric] using r1 r2 by simp
qed

text \<open>The time at which the clock, now at clk, reaches the bucket of t.\<close>

definition fires_at :: "nat \<Rightarrow> 'w kst \<Rightarrow> addr \<Rightarrow> nat" where
  "fires_at clk st t = (case k_timers st t of Some tm \<Rightarrow> next_visit clk (unat (timer_get_idx tm)) | None \<Rightarrow> 0)"

lemma fires_at_body: "body st' = body st \<Longrightarrow> fires_at clk st' t = fires_at clk st t"
proof -
  assume "body st' = body st"
  then have b: "map_option (t_entry_update (\<lambda>_. None)) (k_timers st' t) = map_option (t_entry_update (\<lambda>_. None)) (k_timers st t)"
    by (simp add: body_def fun_eq_iff)
  show ?thesis
  proof (cases "k_timers st t")
    case None
    then show ?thesis using b by (simp add: fires_at_def)
  next
    case (Some tm)
    then obtain tm' where tm': "k_timers st' t = Some tm'" "tm'\<lparr>t_entry := None\<rparr> = tm\<lparr>t_entry := None\<rparr>" using b by auto
    have "t_flags (tm'\<lparr>t_entry := None\<rparr>) = t_flags (tm\<lparr>t_entry := None\<rparr>)" by (simp only: tm'(2))
    then show ?thesis using Some tm'(1) by (simp add: fires_at_def timer_get_idx_def)
  qed
qed

lemma fires_at_bucket:
  "kinv st \<Longrightarrow> t \<in> set (bucket_list st b idx) \<Longrightarrow> fires_at clk st t = next_visit clk idx"
proof -
  assume "kinv st" "t \<in> set (bucket_list st b idx)"
  then obtain tm where "k_timers st t = Some tm" "unat (timer_get_idx tm) = idx"
    using in_bucket [of st t b idx] by (auto simp: kinv_def kinv_heads_def)
  then show ?thesis by (simp add: fires_at_def)
qed

lemma run_loop_spec:
  assumes "kapi_ok (k_api st)" "kinv st" "unat (b_clk (k_bases st b)) \<le> unat (k_jiffies st) + 1" "unat (k_jiffies st) + 1 < 2 ^ 63"
  shows "\<exists>ts st'. run_timers_loop (world_call b act) b st = Some st' \<and>
    fired (\<lambda>t. called act (body st) (of_nat (fires_at (unat (b_clk (k_bases st b))) st t) + 1) (must_forward_clk (k_bases st b)) t)
      st b (\<lambda>idx. next_visit (unat (b_clk (k_bases st b))) idx \<le> unat (k_jiffies st)) ts st' \<and>
    unat (b_clk (k_bases st' b)) = unat (k_jiffies st) + 1 \<and> sorted (map (fires_at (unat (b_clk (k_bases st b))) st) ts)"
  using assms
proof (induction "unat (k_jiffies st) + 1 - unat (b_clk (k_bases st b))" arbitrary: st rule: less_induct)
  case less
  let ?clk = "unat (b_clk (k_bases st b))" and ?J = "unat (k_jiffies st)" and ?fwd = "must_forward_clk (k_bases st b)"
  let ?W = "\<lambda>st'. \<lambda>t. called act (body st') (of_nat (fires_at (unat (b_clk (k_bases st' b))) st' t) + 1) (must_forward_clk (k_bases st' b)) t"
  have cmp: "time_after_eq (k_api st) (k_jiffies st) (b_clk (k_bases st b)) \<longleftrightarrow> ?clk \<le> ?J"
    using time_after_iff [OF less.prems(1), of "b_clk (k_bases st b)" "k_jiffies st"] less.prems(3,4)
    by (simp add: time_compare(2) [OF less.prems(1)] not_less)
  show ?case
  proof (cases "?clk \<le> ?J")
    case False
    then have c: "?clk = ?J + 1" using less.prems(3) by simp
    have none: "\<not> next_visit ?clk idx \<le> ?J" for idx using next_visit_visits(2) [of ?clk idx] c by simp
    then have "fired (?W st) st b (\<lambda>idx. next_visit ?clk idx \<le> ?J) [] st"
      unfolding fired_def in_buckets_def using less.prems(2) by simp
    then show ?thesis using cmp False c by (intro exI [of _ "[]"] exI [of _ st]) (simp add: run_loop_unfold)
  next
    case True
    have j: "?J < 2 ^ 63" using less.prems(4) by simp
    obtain c ts st1 where p: "pass act b st = Some st1" "?clk \<le> c" "c \<le> ?J"
        "\<forall>idx. bucket_list st b idx \<noteq> [] \<longrightarrow> c \<le> next_visit ?clk idx"
        "unat (b_clk (k_bases st1 b)) = c + 1" "fired (called act (body st) (of_nat c + 1) ?fwd) st b (\<lambda>idx. next_visit ?clk idx = c) ts st1"
      using pass_spec [OF less.prems(1,2) True j] by blast
    note r1 = p(6) [unfolded fired_def]
    have J: "k_jiffies st1 = k_jiffies st" "k_api st1 = k_api st" and k1: "kinv st1" and bd: "body st1 = body st" using r1 by blast+
    obtain us st2 where q: "run_timers_loop (world_call b act) b st1 = Some st2" "fired (\<lambda>t. called act (body st1) (of_nat (fires_at (c + 1) st1 t) + 1) (must_forward_clk (k_bases st1 b)) t) st1 b
          (\<lambda>idx. next_visit (c + 1) idx \<le> ?J) us st2"
        "unat (b_clk (k_bases st2 b)) = ?J + 1" "sorted (map (fires_at (c + 1) st1) us)"
    proof -
      have "?J + 1 - (c + 1) < ?J + 1 - ?clk" "c + 1 \<le> ?J + 1" using p(2,3) by linarith+
      then show ?thesis using less.hyps [of st1, unfolded J p(5)] less.prems(1) k1 less.prems(4) that by blast
    qed
    have later: "next_visit (c + 1) idx = next_visit ?clk idx \<and> c < next_visit ?clk idx" if "bucket_list st1 b idx \<noteq> []" for idx
    proof -
      have "bucket_list st b idx \<noteq> []" "next_visit ?clk idx \<noteq> c" using that r1 by (auto split: if_splits)
      then have "c < next_visit ?clk idx" using p(4) by (simp add: order_less_le)
      then show ?thesis using next_visit_later [of ?clk "c + 1" idx] p(2) by simp
    qed
    have 1: "fires_at ?clk st t = c" if t: "t \<in> set ts" for t
    proof -
      obtain idx where "next_visit ?clk idx = c" "t \<in> set (bucket_list st b idx)" using t r1 unfolding in_buckets_def by blast
      then show ?thesis using fires_at_bucket [OF less.prems(2), of t b idx] by simp
    qed
    have 2: "fires_at ?clk st t = fires_at (c + 1) st1 t \<and> c < fires_at (c + 1) st1 t" if t: "t \<in> set us" for t
    proof -
      have "t \<in> in_buckets st1 b (\<lambda>idx. next_visit (c + 1) idx \<le> ?J)" using t q(2) by (simp add: fired_def)
      then obtain idx where i: "t \<in> set (bucket_list st1 b idx)" by (auto simp: in_buckets_def)
      then have "next_visit (c + 1) idx = next_visit ?clk idx \<and> c < next_visit ?clk idx" using later [of idx] by force
      then show ?thesis using fires_at_bucket [OF k1 i] fires_at_body [OF bd, of _ t] by metis
    qed
    have fwd: "must_forward_clk (k_bases st1 b) = ?fwd" using r1 by blast
    have "fired (?W st) st b (\<lambda>idx. next_visit ?clk idx \<le> ?J) (ts @ us) st2"
    proof (rule fired_trans [OF p(6) q(2)])
      show "?W st t = called act (body st) (of_nat c + 1) ?fwd t" if "t \<in> set ts" for t using 1 [OF that] by simp
      show "?W st t = called act (body st1) (of_nat (fires_at (c + 1) st1 t) + 1) (must_forward_clk (k_bases st1 b)) t" if "t \<in> set us" for t using 2 [OF that] fwd bd by simp
      fix idx assume i: "bucket_list st b idx \<noteq> []"
      show "next_visit ?clk idx \<le> ?J \<longleftrightarrow> next_visit ?clk idx = c \<or> next_visit (c + 1) idx \<le> ?J"
      proof (cases "next_visit ?clk idx = c")
        case False
        then have "bucket_list st1 b idx \<noteq> []" using i r1 by simp
        then show ?thesis using later False by simp
      qed (simp add: p(3))
    qed
    moreover have "sorted (map (fires_at ?clk st) (ts @ us))"
    proof -
      have same: "map (fires_at ?clk st) us = map (fires_at (c + 1) st1) us" using 2 by simp
      have "sorted (map (fires_at ?clk st) us)" unfolding same by (rule q(4))
      moreover have "map (fires_at ?clk st) ts = replicate (length ts) c" using 1 by (simp add: map_replicate_const [symmetric])
      moreover have "\<forall>t \<in> set us. c \<le> fires_at ?clk st t" using 2 by (simp add: less_imp_le)
      ultimately show ?thesis using 1 by (simp add: sorted_append)
    qed
    moreover have "run_timers_loop (world_call b act) b st = Some st2" using p(1) q(1) cmp True by (simp add: run_loop_unfold)
    ultimately show ?thesis using q(3) by blast
  qed
qed

end
