(* ===== verification/Kern_Mod.thy ===== *)
theory Kern_Mod
  imports Kern_Fire
begin

unbundle bit_operations_syntax

text \<open>
  Arming and disarming a timer of the kernel wheel: the bits of the flags, the invariant of a state in which
  one timer is in no list, and what detaching and enqueueing do to it.
\<close>

section \<open>The flags\<close>

lemmas flag_masks = TIMER_CPUMASK_def TIMER_MIGRATING_def TIMER_DEFERRABLE_def TIMER_PINNED_def TIMER_ARRAYMASK_def
  TIMER_BASEMASK_def TIMER_ARRAYSHIFT_def TIMER_IRQSAFE_def

lemma and_or_mask: "(f AND NOT n OR x) AND m = f AND m" if "n AND m = 0" "x AND m = (0 :: 'a :: len word)"
proof (rule bit_word_eqI)
  fix i assume i: "i < LENGTH('a)"
  have "\<not> bit (n AND m) i" "\<not> bit (x AND m) i" using that by simp_all
  then show "bit ((f AND NOT n OR x) AND m) i \<longleftrightarrow> bit (f AND m) i" using i by (auto simp: bit_simps)
qed

lemma array_bit: "bit TIMER_ARRAYMASK i \<longleftrightarrow> 22 \<le> i \<and> i < 32"
proof -
  have e: "TIMER_ARRAYMASK = push_bit 22 (mask 10)" by (simp add: TIMER_ARRAYMASK_def mask_eq_exp_minus_1)
  show ?thesis unfolding e by (auto simp: bit_simps)
qed

lemma high_bit: "unat w < 2 ^ n \<Longrightarrow> n \<le> i \<Longrightarrow> \<not> bit (w :: u32) i"
proof -
  assume "unat w < 2 ^ n" "n \<le> i"
  then have "unat w < 2 ^ i" by (meson less_le_trans one_le_numeral power_increasing)
  then have "\<not> bit (unat w) i" by (simp add: bit_iff_odd)
  then show ?thesis by (simp add: bit_unsigned_iff)
qed

lemma push_bit_and_low: "m AND TIMER_ARRAYMASK = 0 \<Longrightarrow> push_bit 22 idx AND m = 0"
proof (rule bit_word_eqI)
  fix i assume m: "m AND TIMER_ARRAYMASK = 0" and i: "i < LENGTH(32)"
  have "\<not> bit (m AND TIMER_ARRAYMASK) i" using m by simp
  then show "bit (push_bit 22 idx AND m) i \<longleftrightarrow> bit (0 :: u32) i" using i by (auto simp: bit_simps array_bit)
qed

lemma set_idx_and: "m AND TIMER_ARRAYMASK = 0 \<Longrightarrow> t_flags (timer_set_idx idx tm) AND m = t_flags tm AND m"
proof -
  assume m: "m AND TIMER_ARRAYMASK = 0"
  then have "(t_flags tm AND NOT TIMER_ARRAYMASK OR push_bit 22 idx) AND m = t_flags tm AND m"
    by (intro and_or_mask push_bit_and_low) (simp_all add: and.commute)
  then show ?thesis by (simp add: timer_set_idx_def TIMER_ARRAYSHIFT_def)
qed

lemma set_idx_flags [simp]:
  "t_flags (timer_set_idx idx tm) AND TIMER_MIGRATING = t_flags tm AND TIMER_MIGRATING"
  "t_flags (timer_set_idx idx tm) AND TIMER_DEFERRABLE = t_flags tm AND TIMER_DEFERRABLE"
  "t_flags (timer_set_idx idx tm) AND TIMER_CPUMASK = t_flags tm AND TIMER_CPUMASK"
  "t_flags (timer_set_idx idx tm) AND TIMER_PINNED = t_flags tm AND TIMER_PINNED"
  by (rule set_idx_and; simp add: flag_masks)+

lemma set_idx_fields [simp]:
  "t_entry (timer_set_idx idx tm) = t_entry tm" "t_expires (timer_set_idx idx tm) = t_expires tm"
  "t_function (timer_set_idx idx tm) = t_function tm"
  by (simp_all add: timer_set_idx_def)

lemma set_idx_base [simp]: "get_timer_base (t_flags (timer_set_idx idx tm)) = get_timer_base (t_flags tm)"
  by (simp add: get_timer_base_def get_timer_cpu_base_def)

lemma get_set_idx: "unat idx < 1024 \<Longrightarrow> timer_get_idx (timer_set_idx idx tm) = idx"
proof (rule bit_word_eqI)
  fix i assume idx: "unat idx < 1024" and i: "i < LENGTH(32)"
  have high: "i < 10" if "bit idx i" using high_bit [of idx 10 i] idx that by (cases "10 \<le> i") simp_all
  then show "bit (timer_get_idx (timer_set_idx idx tm)) i \<longleftrightarrow> bit idx i"
    using i by (auto simp: timer_get_idx_def timer_set_idx_def TIMER_ARRAYSHIFT_def bit_simps array_bit)
qed

text \<open>The flags of a timer that was moved to the CPU c.\<close>

lemma cpu_and: "c < 2 ^ 18 \<Longrightarrow> take_bit 18 m = 0 \<Longrightarrow> (of_nat c :: u32) AND m = 0"
proof (rule bit_word_eqI)
  fix i assume c: "c < 2 ^ 18" and m: "take_bit 18 m = 0"
  have "unat (of_nat c :: u32) = c" using c by (simp add: unsigned_of_nat take_bit_nat_eq_self)
  then have "\<not> bit (of_nat c :: u32) i" if "18 \<le> i" using high_bit [of "of_nat c" 18 i] that c by simp
  moreover have "\<not> bit (take_bit 18 m) i" using m by simp
  ultimately show "bit ((of_nat c :: u32) AND m) i \<longleftrightarrow> bit (0 :: u32) i" by (auto simp: bit_simps)
qed

lemma moved_flags:
  assumes c: "c < 2 ^ 18"
  shows "(f AND NOT TIMER_BASEMASK OR of_nat c) AND TIMER_MIGRATING = 0"
    "(f AND NOT TIMER_BASEMASK OR of_nat c) AND TIMER_DEFERRABLE = f AND TIMER_DEFERRABLE"
    "unat ((f AND NOT TIMER_BASEMASK OR of_nat c) AND TIMER_CPUMASK) = c"
proof -
  have u: "unat (of_nat c :: u32) = c" using c by (simp add: unsigned_of_nat take_bit_nat_eq_self)
  have base: "TIMER_BASEMASK = mask 19" "TIMER_CPUMASK = mask 18" by (simp_all add: flag_masks mask_eq_exp_minus_1)
  have "(of_nat c :: u32) AND TIMER_MIGRATING = 0" "(of_nat c :: u32) AND TIMER_DEFERRABLE = 0"
    by (rule cpu_and [OF c]; simp add: flag_masks)+
  note c0 = this
  have b0: "NOT TIMER_BASEMASK AND TIMER_MIGRATING = 0" "TIMER_BASEMASK AND TIMER_DEFERRABLE = 0" by (simp_all add: flag_masks)
  show "(f AND NOT TIMER_BASEMASK OR of_nat c) AND TIMER_MIGRATING = 0"
    by (simp add: bit.conj_disj_distrib2 and.assoc b0 c0)
  show "(f AND NOT TIMER_BASEMASK OR of_nat c) AND TIMER_DEFERRABLE = f AND TIMER_DEFERRABLE"
    using b0(2) c0(2) by (rule and_or_mask)
  have "(f AND NOT TIMER_BASEMASK OR of_nat c) AND TIMER_CPUMASK = of_nat c" unfolding base
  proof (rule bit_word_eqI)
    fix i
    have "i < 18" if b: "bit (of_nat c :: u32) i"
    proof (rule ccontr)
      assume "\<not> i < 18"
      then have "\<not> bit (of_nat c :: u32) i" using high_bit [of "of_nat c" 18 i] c u by simp
      then show False using b by blast
    qed
    then show "bit ((f AND NOT (mask 19) OR of_nat c) AND mask 18) i \<longleftrightarrow> bit (of_nat c :: u32) i" by (auto simp: bit_simps)
  qed
  then show "unat ((f AND NOT TIMER_BASEMASK OR of_nat c) AND TIMER_CPUMASK) = c" using u by simp
qed

section \<open>A timer in no list\<close>

text \<open>Every timer but t is in the list that its entry names; t is in no list.\<close>

definition linked :: "'w kst \<Rightarrow> addr \<Rightarrow> timer_list \<Rightarrow> bool" where
  "linked st u tm \<longleftrightarrow> t_flags tm AND TIMER_MIGRATING = 0 \<and>
     (case t_entry tm of None \<Rightarrow> True | Some (Bucket b idx) \<Rightarrow> u \<in> set (bucket_list st b idx) | Some (Head b i) \<Rightarrow> False)"

definition kinv_but :: "'w kst \<Rightarrow> addr \<Rightarrow> bool" where
  "kinv_but st t \<longleftrightarrow> buckets_ok st \<and> (\<forall>b idx. t \<notin> set (bucket_list st b idx)) \<and>
     (\<forall>u tm. u \<noteq> t \<longrightarrow> k_timers st u = Some tm \<longrightarrow> linked st u tm)"

text \<open>What the invariants read of a state.\<close>

definition same_lists :: "'w kst \<Rightarrow> 'w kst \<Rightarrow> bool" where
  "same_lists st st' \<longleftrightarrow> k_timers st' = k_timers st \<and>
     (\<forall>b. vectors (k_bases st' b) = vectors (k_bases st b) \<and> pending_map (k_bases st' b) = pending_map (k_bases st b))"

definition same_env :: "'w kst \<Rightarrow> 'w kst \<Rightarrow> bool" where
  "same_env st st' \<longleftrightarrow> k_api st' = k_api st \<and> k_jiffies st' = k_jiffies st \<and> k_cpu st' = k_cpu st \<and> k_target st' = k_target st \<and>
     k_migration st' = k_migration st \<and> k_world st' = k_world st \<and>
     (\<forall>b. b_cpu (k_bases st' b) = b_cpu (k_bases st b) \<and> running_timer (k_bases st' b) = running_timer (k_bases st b))"

lemma same_env_refl [simp]: "same_env st st" by (simp add: same_env_def)

lemma same_env_trans: "same_env st st' \<Longrightarrow> same_env st' st'' \<Longrightarrow> same_env st st''" by (simp add: same_env_def)

lemma same_lists_refl [simp]: "same_lists st st" by (simp add: same_lists_def)

lemma same_lists_trans: "same_lists st st' \<Longrightarrow> same_lists st' st'' \<Longrightarrow> same_lists st st''" by (simp add: same_lists_def)

lemma kinv_alt: "kinv st \<longleftrightarrow> buckets_ok st \<and> (\<forall>u tm. k_timers st u = Some tm \<longrightarrow> linked st u tm)"
proof -
  have "linked st u tm \<longleftrightarrow> t_flags tm AND TIMER_MIGRATING = 0 \<and> (case t_entry tm of None \<Rightarrow> True
      | Some (Bucket b' idx) \<Rightarrow> u \<in> set (bucket_list st b' idx) | Some (Head b' i) \<Rightarrow> b' = b \<and> i < 0 \<and> u \<in> set (head_list st b i))"
    for u tm b by (simp add: linked_def split: option.split klist.split)
  then show ?thesis unfolding kinv_def kinv_heads_def heads_ok_def entries_ok_def by simp
qed

lemma linked_cong: "(\<And>b idx. u \<in> set (bucket_list st' b idx) \<longleftrightarrow> u \<in> set (bucket_list st b idx)) \<Longrightarrow> linked st' u tm = linked st u tm"
  unfolding linked_def by (simp split: option.split klist.split)

lemma same_lists_linked: "same_lists st st' \<Longrightarrow> linked st' u tm = linked st u tm"
  by (rule linked_cong) (simp add: same_lists_def)

lemma same_lists_buckets: "same_lists st st' \<Longrightarrow> buckets_ok st' = buckets_ok st"
  by (simp add: same_lists_def buckets_ok_def)

lemma same_lists_kinv: "same_lists st st' \<Longrightarrow> kinv st' = kinv st"
  unfolding kinv_alt by (simp add: same_lists_buckets same_lists_linked) (simp add: same_lists_def)

lemma same_lists_kinv_but: "same_lists st st' \<Longrightarrow> kinv_but st' t = kinv_but st t"
  unfolding kinv_but_def by (simp add: same_lists_buckets same_lists_linked) (simp add: same_lists_def)

lemma forward_same: "same_lists st (forward_timer_base st b)" "same_env st (forward_timer_base st b)"
  by (simp_all add: forward_timer_base_def Let_def same_lists_def same_env_def)

lemma trigger_same:
  "k_timers st t = Some tm \<Longrightarrow> \<exists>st'. trigger_dyntick_cpu st b t = Some st' \<and> same_lists st st' \<and> same_env st st' \<and>
     (\<forall>b. b_clk (k_bases st' b) = b_clk (k_bases st b))"
  by (simp add: trigger_dyntick_cpu_def Let_def) (simp add: wake_up_nohz_cpu_def same_lists_def same_env_def)

lemma not_in_bucket: "buckets_ok st \<Longrightarrow> k_timers st t = Some tm \<Longrightarrow> t_entry tm \<noteq> Some (Bucket b idx) \<Longrightarrow> t \<notin> set (bucket_list st b idx)"
  using in_bucket [of st t b idx] by auto

lemma kinv_unlinked: "kinv st \<Longrightarrow> k_timers st t = Some tm \<Longrightarrow> t_entry tm = None \<Longrightarrow> kinv_but st t"
  unfolding kinv_alt kinv_but_def using not_in_bucket [of st t tm] by simp

lemma kinv_butD:
  "kinv_but st t \<Longrightarrow> k_timers st t = Some tm \<Longrightarrow> linked st t tm \<Longrightarrow> kinv st"
  unfolding kinv_alt kinv_but_def by (metis option.inject)

text \<open>Changing a timer that is in no list.\<close>

lemma kinv_but_on_timer:
  assumes "kinv_but st t" "k_timers st t = Some tm"
  shows "\<exists>st'. on_timer st t f = Some st' \<and> k_timers st' = (k_timers st)(t \<mapsto> f tm) \<and> kinv_but st' t \<and> same_env st st' \<and>
    k_bases st' = k_bases st"
proof -
  let ?st = "st\<lparr>k_timers := (k_timers st)(t \<mapsto> f tm)\<rparr>"
  have "buckets_ok ?st" unfolding buckets_ok_def
  proof (intro allI conjI ballI impI)
    fix b idx u assume u: "u \<in> set (bucket_list ?st b idx)"
    then have "u \<noteq> t" using assms(1) by (auto simp: kinv_but_def)
    then show "\<exists>tm. k_timers ?st u = Some tm \<and> t_entry tm = Some (Bucket b idx) \<and> t_function tm \<noteq> None \<and>
        unat (timer_get_idx tm) = idx \<and> get_timer_base (t_flags tm) = b"
      using assms(1) u by (simp add: kinv_but_def buckets_ok_def)
  qed (use assms(1) in \<open>simp_all add: kinv_but_def buckets_ok_def\<close>)
  moreover have "linked ?st u tm' = linked st u tm'" for u tm' by (rule linked_cong) simp
  ultimately have "kinv_but ?st t" using assms(1) by (simp add: kinv_but_def)
  then show ?thesis using assms(2) by (simp add: on_timer_def same_env_def)
qed

section \<open>Detaching and enqueueing\<close>

lemma remove1_nil: "distinct xs \<Longrightarrow> t \<in> set xs \<Longrightarrow> (remove1 t xs = []) = (xs = [t])"
  by (cases xs) auto

text \<open>The state without t in the bucket idx of b.\<close>

definition unlink :: "'w kst \<Rightarrow> addr \<Rightarrow> base_id \<Rightarrow> nat \<Rightarrow> 'w kst" where
  "unlink st t b idx = on_base st b (\<lambda>bs. bs\<lparr>
     pending_map := (pending_map bs)(idx := remove1 t (vectors bs idx) \<noteq> []), vectors := (vectors bs)(idx := remove1 t (vectors bs idx))\<rparr>)"

lemma unlink_simps [simp]:
  "k_timers (unlink st t b idx) = k_timers st"
  "bucket_list (unlink st t b idx) b' i = (if b' = b \<and> i = idx then remove1 t (bucket_list st b idx) else bucket_list st b' i)"
  "pending_map (k_bases (unlink st t b idx) b') i =
     (if b' = b \<and> i = idx then remove1 t (bucket_list st b idx) \<noteq> [] else pending_map (k_bases st b') i)"
  "same_env st (unlink st t b idx)" "b_clk (k_bases (unlink st t b idx) b') = b_clk (k_bases st b')"
  by (simp_all add: unlink_def same_env_def)

lemma unlink_kinv_but:
  assumes k: "kinv st" and t: "k_timers st t = Some tm" "t_entry tm = Some (Bucket b idx)"
  shows "kinv_but (unlink st t b idx) t"
proof -
  let ?st = "unlink st t b idx"
  have bk: "buckets_ok st" using k by (simp add: kinv_alt)
  have only: "b' = b \<and> i = idx" if "t \<in> set (bucket_list st b' i)" for b' i using in_bucket [OF bk that] t by auto
  have ds: "distinct (bucket_list st b' i)" for b' i using bk by (simp add: buckets_ok_def)
  have mem: "u \<in> set (bucket_list ?st b' i) \<longleftrightarrow> u \<noteq> t \<and> u \<in> set (bucket_list st b' i)" for u b' i
  proof (cases "b' = b \<and> i = idx")
    case False
    then have n: "t \<notin> set (bucket_list st b' i)" using only by blast
    have "bucket_list ?st b' i = bucket_list st b' i" by (simp only: unlink_simps(2) False if_False)
    then show ?thesis using n by metis
  qed (auto simp: set_remove1_eq ds)
  have "buckets_ok ?st" unfolding buckets_ok_def
  proof (intro allI conjI ballI impI)
    fix b' i u assume "u \<in> set (bucket_list ?st b' i)"
    then show "\<exists>tm. k_timers ?st u = Some tm \<and> t_entry tm = Some (Bucket b' i) \<and> t_function tm \<noteq> None \<and>
        unat (timer_get_idx tm) = i \<and> get_timer_base (t_flags tm) = b'"
      using bk unfolding mem buckets_ok_def by simp
  next
    fix b' i assume ne: "bucket_list ?st b' i \<noteq> []"
    show "pending_map (k_bases ?st b') i"
    proof (cases "b' = b \<and> i = idx")
      case True
      then show ?thesis using ne by simp
    next
      case False
      then have "bucket_list st b' i \<noteq> []" using ne by (simp only: unlink_simps(2) False if_False not_False_eq_True)
      then have "pending_map (k_bases st b') i" using bk by (simp add: buckets_ok_def)
      then show ?thesis by (simp only: unlink_simps(3) False if_False)
    qed
  next
    fix b' and i :: nat assume "576 \<le> i"
    then show "bucket_list ?st b' i = []" using bk mem [of _ b' i] by (simp add: buckets_ok_def)
  qed (use bk in \<open>simp_all add: buckets_ok_def\<close>)
  moreover have "linked ?st u tm'" if "u \<noteq> t" "k_timers st u = Some tm'" for u tm'
  proof -
    have "linked ?st u tm' = linked st u tm'" by (rule linked_cong) (simp add: mem that(1))
    then show ?thesis using k that by (simp add: kinv_alt)
  qed
  ultimately show ?thesis unfolding kinv_but_def using mem by simp
qed

lemma detach_spec:
  assumes k: "kinv st" and t: "k_timers st t = Some tm"
  shows "\<exists>st'. detach_if_pending st t (get_timer_base (t_flags tm)) clear = Some (if timer_pending tm then 1 else 0, st') \<and>
    kinv_but st' t \<and> same_env st st' \<and> (\<forall>b. b_clk (k_bases st' b) = b_clk (k_bases st b)) \<and>
    k_timers st' = (k_timers st)(t \<mapsto> if clear then tm\<lparr>t_entry := None\<rparr> else tm)"
proof (cases "t_entry tm")
  case None
  then have "tm\<lparr>t_entry := None\<rparr> = tm" by simp
  then have "k_timers st = (k_timers st)(t \<mapsto> if clear then tm\<lparr>t_entry := None\<rparr> else tm)" using t by auto
  then show ?thesis using None t kinv_unlinked [OF k t None]
    by (simp add: detach_if_pending_def timer_pending_def Let_def)
next
  case (Some l)
  have lk: "linked st t tm" "buckets_ok st" using k t by (simp_all add: kinv_alt)
  then obtain b idx where l: "l = Bucket b idx" and m: "t \<in> set (bucket_list st b idx)"
    using Some unfolding linked_def by (cases l) auto
  have fl: "unat (timer_get_idx tm) = idx" "get_timer_base (t_flags tm) = b" and ds: "distinct (bucket_list st b idx)"
    using lk(2) m t unfolding buckets_ok_def by fastforce+
  have "bucket_list st b idx \<noteq> []" using m by auto
  then have pm: "pending_map (k_bases st b) idx" using lk(2) unfolding buckets_ok_def by blast
  let ?st = "unlink st t b idx"
  have kb: "kinv_but ?st t" using unlink_kinv_but [OF k t] Some l by simp
  have 1: "on_base (on_base st b (\<lambda>bs. bs\<lparr>pending_map := (pending_map bs)(idx := False)\<rparr>)) b (\<lambda>bs. bs\<lparr>vectors := (vectors bs)(idx := [])\<rparr>) = ?st"
    if "bucket_list st b idx = [t]" using that by (simp add: unlink_def on_base_def)
  have 2: "on_base st b (\<lambda>bs. bs\<lparr>vectors := (vectors bs)(idx := remove1 t (bucket_list st b idx))\<rparr>) = ?st"
    if "bucket_list st b idx \<noteq> [t]"
  proof -
    have "(pending_map (k_bases st b))(idx := True) = pending_map (k_bases st b)" using pm by (simp add: fun_upd_idem)
    then show ?thesis using that remove1_nil [OF ds m] by (simp add: unlink_def on_base_def)
  qed
  have run: "detach_if_pending st t b clear = (do {
      st \<leftarrow> (if clear then on_timer ?st t (t_entry_update (\<lambda>_. None)) else Some ?st); Some (1, st) })"
    using t m Some l fl 1 2
    by (cases "bucket_list st b idx = [t]") (simp_all add: detach_if_pending_def timer_pending_def Let_def detach_timer_def hlist_del_def)
  show ?thesis
  proof (cases clear)
    case True
    obtain st' where "on_timer ?st t (t_entry_update (\<lambda>_. None)) = Some st'" "k_timers st' = (k_timers st)(t \<mapsto> tm\<lparr>t_entry := None\<rparr>)"
        "kinv_but st' t" "same_env ?st st'" "k_bases st' = k_bases ?st"
      using kinv_but_on_timer [OF kb, of tm "t_entry_update (\<lambda>_. None)"] t by auto
    then show ?thesis using run True Some fl same_env_trans [of st ?st st'] by (simp add: timer_pending_def)
  next
    case False
    have "k_timers st = (k_timers st)(t \<mapsto> tm)" using t by auto
    then show ?thesis using run False Some fl kb t by (simp add: timer_pending_def)
  qed
qed

text \<open>The state with t at the front of the bucket idx of b.\<close>

definition link :: "'w kst \<Rightarrow> addr \<Rightarrow> base_id \<Rightarrow> u32 \<Rightarrow> timer_list \<Rightarrow> 'w kst" where
  "link st t b idx tm = (on_base st b (\<lambda>bs. bs\<lparr>
     vectors := (vectors bs)(unat idx := t # vectors bs (unat idx)), pending_map := (pending_map bs)(unat idx := True)\<rparr>))
       \<lparr>k_timers := (k_timers st)(t \<mapsto> timer_set_idx idx (tm\<lparr>t_entry := Some (Bucket b (unat idx))\<rparr>))\<rparr>"

lemma link_simps [simp]:
  "k_timers (link st t b idx tm) = (k_timers st)(t \<mapsto> timer_set_idx idx (tm\<lparr>t_entry := Some (Bucket b (unat idx))\<rparr>))"
  "bucket_list (link st t b idx tm) b' i = (if b' = b \<and> i = unat idx then t # bucket_list st b i else bucket_list st b' i)"
  "pending_map (k_bases (link st t b idx tm) b') i = (b' = b \<and> i = unat idx \<or> pending_map (k_bases st b') i)"
  "same_env st (link st t b idx tm)" "b_clk (k_bases (link st t b idx tm) b') = b_clk (k_bases st b')"
  by (simp_all add: link_def same_env_def)

lemma link_run:
  assumes "k_timers st t = Some tm" "unat idx < 576"
  shows "enqueue_timer st b t idx = Some (link st t b idx tm)"
  using assms by (simp add: enqueue_timer_def hlist_add_head_def on_timer_def on_base_def link_def)

lemma link_kinv:
  assumes k: "kinv_but st t" and t: "k_timers st t = Some tm" "t_function tm \<noteq> None" "t_flags tm AND TIMER_MIGRATING = 0"
    "get_timer_base (t_flags tm) = b" and i: "unat idx < 576"
  shows "kinv (link st t b idx tm)"
proof -
  let ?st = "link st t b idx tm"
  have bk: "buckets_ok st" using k by (simp add: kinv_but_def)
  have no: "t \<notin> set (bucket_list st b' j)" for b' j using k by (simp add: kinv_but_def)
  have g: "unat (timer_get_idx (timer_set_idx idx (tm\<lparr>t_entry := e\<rparr>))) = unat idx" for e using i by (simp add: get_set_idx)
  have mem: "u \<in> set (bucket_list ?st b' j) \<longleftrightarrow> (if u = t then b' = b \<and> j = unat idx else u \<in> set (bucket_list st b' j))" for u b' j
    using no [of b' j] by (cases "b' = b \<and> j = unat idx") (simp_all only: link_simps(2) if_True if_False, auto)
  have "buckets_ok ?st" unfolding buckets_ok_def
  proof (intro allI conjI ballI impI)
    fix b' j u assume u: "u \<in> set (bucket_list ?st b' j)"
    show "\<exists>tm. k_timers ?st u = Some tm \<and> t_entry tm = Some (Bucket b' j) \<and> t_function tm \<noteq> None \<and>
        unat (timer_get_idx tm) = j \<and> get_timer_base (t_flags tm) = b'"
    proof (cases "u = t")
      case True
      then show ?thesis using u t g unfolding mem by simp
    next
      case False
      then show ?thesis using u bk unfolding mem by (simp add: buckets_ok_def)
    qed
  next
    fix b' j
    show "pending_map (k_bases ?st b') j" if "bucket_list ?st b' j \<noteq> []"
    proof (cases "b' = b \<and> j = unat idx")
      case False
      then have "bucket_list st b' j \<noteq> []" using that by (simp only: link_simps(2) False if_False not_False_eq_True)
      then show ?thesis using bk by (simp add: buckets_ok_def)
    qed simp
    show "bucket_list ?st b' j = []" if "576 \<le> j" using bk that i by (simp add: buckets_ok_def)
    show "distinct (bucket_list ?st b' j)" using bk no by (simp add: buckets_ok_def)
  qed
  moreover have "linked ?st u tm'" if "k_timers ?st u = Some tm'" for u tm'
  proof (cases "u = t")
    case True
    then show ?thesis using that t by (auto simp: linked_def)
  next
    case False
    have "linked ?st u tm' = linked st u tm'" by (rule linked_cong) (simp only: mem False if_False)
    then show ?thesis using k that False by (simp add: kinv_but_def)
  qed
  ultimately show ?thesis by (simp add: kinv_alt)
qed

text \<open>Arming a timer that is in no list, in its base.\<close>

lemma arm_spec:
  assumes k: "kinv_but st t" and t: "k_timers st t = Some tm" "t_function tm \<noteq> None" "t_flags tm AND TIMER_MIGRATING = 0"
    "get_timer_base (t_flags tm) = b" and i: "unat idx < 576"
  shows "\<exists>st'. (do { st \<leftarrow> enqueue_timer st b t idx; trigger_dyntick_cpu st b t }) = Some st' \<and> kinv st' \<and> same_env st st' \<and>
    (\<forall>b. b_clk (k_bases st' b) = b_clk (k_bases st b)) \<and>
    k_timers st' = (k_timers st)(t \<mapsto> timer_set_idx idx (tm\<lparr>t_entry := Some (Bucket b (unat idx))\<rparr>))"
proof -
  let ?st = "link st t b idx tm"
  obtain st' where s: "trigger_dyntick_cpu ?st b t = Some st'" "same_lists ?st st'" "same_env ?st st'"
      "\<forall>b'. b_clk (k_bases st' b') = b_clk (k_bases ?st b')"
    using trigger_same [of ?st t "timer_set_idx idx (tm\<lparr>t_entry := Some (Bucket b (unat idx))\<rparr>)" b] by auto
  have "kinv st'" using link_kinv [OF assms] same_lists_kinv [OF s(2)] by simp
  moreover have "same_env st st'" using same_env_trans [OF _ s(3)] by simp
  moreover have "k_timers st' = k_timers ?st" using s(2) by (simp add: same_lists_def)
  ultimately show ?thesis using link_run [OF t(1) i, of b] s(1,4) by simp
qed

lemma internal_add_spec:
  assumes k: "kinv_but st t" and t: "k_timers st t = Some tm" "t_function tm \<noteq> None" "t_flags tm AND TIMER_MIGRATING = 0"
    "get_timer_base (t_flags tm) = b"
  shows "\<exists>st'. internal_add_timer st b t = Some st' \<and> kinv st' \<and> same_env st st' \<and>
    (\<forall>b. b_clk (k_bases st' b) = b_clk (k_bases st b)) \<and>
    k_timers st' = (k_timers st)(t \<mapsto> timer_set_idx (calc_wheel_index (t_expires tm) (b_clk (k_bases st b)))
       (tm\<lparr>t_entry := Some (Bucket b (unat (calc_wheel_index (t_expires tm) (b_clk (k_bases st b)))))\<rparr>))"
  using arm_spec [OF assms index_bound, of "t_expires tm" "b_clk (k_bases st b)"] t(1)
  by (simp add: internal_add_timer_def internal_add_timer_at_def)

section \<open>Changing the expiry of a timer\<close>

definition cpus_ok :: "'w kst \<Rightarrow> bool" where
  "cpus_ok st \<longleftrightarrow> (\<forall>b. b_cpu (k_bases st b) = fst b) \<and> k_cpu st < 2 ^ 18 \<and> k_target st < 2 ^ 18"

lemma same_env_cpus: "same_env st st' \<Longrightarrow> cpus_ok st' = cpus_ok st"
  by (simp add: same_env_def cpus_ok_def)

lemma target_base:
  assumes "cpus_ok st"
  shows "\<exists>c < 2 ^ 18. get_target_base st b f = get_timer_cpu_base f c \<and> b_cpu (k_bases st (get_target_base st b f)) = c"
  using assms by (auto simp: cpus_ok_def get_target_base_def get_timer_this_cpu_base_def get_timer_cpu_base_def)

lemma moved_base: "c < 2 ^ 18 \<Longrightarrow> get_timer_base (f AND NOT TIMER_BASEMASK OR of_nat c) = get_timer_cpu_base f c"
  by (simp add: get_timer_base_def get_timer_cpu_base_def moved_flags)

lemma migrating_bits: "(f OR TIMER_MIGRATING) AND NOT TIMER_BASEMASK = f AND NOT TIMER_BASEMASK"
proof -
  have "TIMER_MIGRATING AND NOT TIMER_BASEMASK = 0" by (simp add: flag_masks)
  then show ?thesis by (simp add: bit.conj_disj_distrib2)
qed

lemma flags_update: "t_flags_update g tm = tm\<lparr>t_flags := g (t_flags tm)\<rparr>"
  by (cases tm) simp

lemma switch_spec:
  assumes k: "kinv_but st t" and t: "k_timers st t = Some tm" "t_flags tm AND TIMER_MIGRATING = 0"
    and b: "get_timer_base (t_flags tm) = b" and c: "cpus_ok st"
  shows "\<exists>b' st' f. switch_base st t b (get_target_base st b (t_flags tm)) = Some (b', st') \<and> kinv_but st' t \<and> same_env st st' \<and>
    k_timers st' = (k_timers st)(t \<mapsto> tm\<lparr>t_flags := f\<rparr>) \<and> f AND TIMER_MIGRATING = 0 \<and> get_timer_base f = b'"
proof -
  let ?n = "get_target_base st b (t_flags tm)"
  show ?thesis
  proof (cases "b \<noteq> ?n \<and> running_timer (k_bases st b) \<noteq> Some t")
    case False
    have "k_timers st = (k_timers st)(t \<mapsto> tm\<lparr>t_flags := t_flags tm\<rparr>)" using t by auto
    moreover have "switch_base st t b ?n = Some (b, st)" using False by (auto simp: switch_base_def)
    ultimately show ?thesis using k t b by (intro exI [of _ b] exI [of _ st] exI [of _ "t_flags tm"]) simp
  next
    case True
    obtain c where c': "c < 2 ^ 18" "?n = get_timer_cpu_base (t_flags tm) c" "b_cpu (k_bases st ?n) = c"
      using target_base [OF c] by blast
    let ?f = "t_flags tm AND NOT TIMER_BASEMASK OR of_nat c"
    obtain st1 where 1: "on_timer st t (t_flags_update (\<lambda>f. f OR TIMER_MIGRATING)) = Some st1"
        "k_timers st1 = (k_timers st)(t \<mapsto> tm\<lparr>t_flags := t_flags tm OR TIMER_MIGRATING\<rparr>)" "kinv_but st1 t" "same_env st st1" "k_bases st1 = k_bases st"
      using kinv_but_on_timer [OF k t(1), of "t_flags_update (\<lambda>f. f OR TIMER_MIGRATING)"] by (auto simp: flags_update [of "\<lambda>f. f OR TIMER_MIGRATING"])
    obtain st2 where 2: "on_timer st1 t (t_flags_update (\<lambda>f. (f AND NOT TIMER_BASEMASK) OR of_nat c)) = Some st2"
        "k_timers st2 = (k_timers st1)(t \<mapsto> tm\<lparr>t_flags := ?f\<rparr>)" "kinv_but st2 t" "same_env st1 st2" "k_bases st2 = k_bases st1"
      using kinv_but_on_timer [OF 1(3), of "tm\<lparr>t_flags := t_flags tm OR TIMER_MIGRATING\<rparr>" "t_flags_update (\<lambda>f. (f AND NOT TIMER_BASEMASK) OR of_nat c)"] 1(2)
      by (auto simp: flags_update [of "\<lambda>f. f AND NOT TIMER_BASEMASK OR of_nat c"] migrating_bits)
    let ?st = "forward_timer_base st2 ?n"
    have "switch_base st t b ?n = Some (?n, ?st)" using True 1(1,5) 2(1) c'(3) by (simp add: switch_base_def)
    moreover have "kinv_but ?st t" using 2(3) same_lists_kinv_but [OF forward_same(1)] by blast
    moreover have "same_env st ?st" using same_env_trans [OF same_env_trans [OF 1(4) 2(4)] forward_same(2)] by blast
    moreover have "k_timers ?st = (k_timers st)(t \<mapsto> tm\<lparr>t_flags := ?f\<rparr>)" using forward_same(1) [of st2 ?n] 1(2) 2(2) by (simp add: same_lists_def)
    ultimately show ?thesis using moved_flags(1) [OF c'(1)] moved_base [OF c'(1)] c'(2)
      by (intro exI [of _ ?n] exI [of _ ?st] exI [of _ ?f]) simp
  qed
qed

text \<open>From st to st', the timer t, before as tm, has been armed for the time expires.\<close>

definition armed :: "'w kst \<Rightarrow> addr \<Rightarrow> timer_list \<Rightarrow> u64 \<Rightarrow> 'w kst \<Rightarrow> bool" where
  "armed st t tm expires st' \<longleftrightarrow> kinv st' \<and> same_env st st' \<and> (\<forall>u. u \<noteq> t \<longrightarrow> k_timers st' u = k_timers st u) \<and>
     (\<exists>tm'. k_timers st' t = Some tm' \<and> timer_pending tm' \<and> t_expires tm' = expires \<and> t_function tm' = t_function tm \<and>
        timer_get_idx tm' = calc_wheel_index expires (b_clk (k_bases st' (get_timer_base (t_flags tm')))))"

lemma requeue_spec:
  assumes k: "kinv st" and t: "k_timers st t = Some tm" "t_function tm \<noteq> None" and c: "cpus_ok st"
    and idx: "idx = - 1 \<or> idx = calc_wheel_index expires clk"
    and go: "timer_pending tm \<or> options AND MOD_TIMER_PENDING_ONLY = 0"
  shows "\<exists>st'. mod_timer_requeue st t (get_timer_base (t_flags tm)) expires options idx clk = Some (if timer_pending tm then 1 else 0, st') \<and>
    armed st t tm expires st'"
proof -
  let ?b = "get_timer_base (t_flags tm)"
  have m: "t_flags tm AND TIMER_MIGRATING = 0" using k t(1) by (simp add: kinv_alt linked_def)
  obtain st1 where 1: "detach_if_pending st t ?b False = Some (if timer_pending tm then 1 else 0, st1)" "kinv_but st1 t" "same_env st st1"
      "k_timers st1 = (k_timers st)(t \<mapsto> tm)"
    using detach_spec [OF k t(1), of False] by auto
  have t1: "k_timers st1 t = Some tm" by (simp add: 1(4))
  have c1: "cpus_ok st1" using same_env_cpus [OF 1(3)] c by simp
  obtain b st2 f where 2: "switch_base st1 t ?b (get_target_base st1 ?b (t_flags tm)) = Some (b, st2)" "kinv_but st2 t" "same_env st1 st2"
      "k_timers st2 = (k_timers st1)(t \<mapsto> tm\<lparr>t_flags := f\<rparr>)" "f AND TIMER_MIGRATING = 0" "get_timer_base f = b"
    using switch_spec [OF 1(2) t1 m refl c1] by blast
  let ?tm = "tm\<lparr>t_flags := f, t_expires := expires\<rparr>"
  obtain st3 where 3: "on_timer st2 t (t_expires_update (\<lambda>_. expires)) = Some st3" "k_timers st3 = (k_timers st2)(t \<mapsto> ?tm)"
      "kinv_but st3 t" "same_env st2 st3" "k_bases st3 = k_bases st2"
    using kinv_but_on_timer [OF 2(2), of "tm\<lparr>t_flags := f\<rparr>" "t_expires_update (\<lambda>_. expires)"] 2(4) by auto
  have t3: "k_timers st3 t = Some ?tm" "t_function ?tm \<noteq> None" "t_flags ?tm AND TIMER_MIGRATING = 0" "get_timer_base (t_flags ?tm) = b"
    using 3(2) t(2) 2(5,6) by simp_all
  let ?i = "calc_wheel_index expires (b_clk (k_bases st3 b))"
  let ?arm = "if idx \<noteq> - 1 \<and> clk = b_clk (k_bases st3 b) then do { st \<leftarrow> enqueue_timer st3 b t idx; trigger_dyntick_cpu st b t }
    else internal_add_timer st3 b t"
  have "?arm = (do { st \<leftarrow> enqueue_timer st3 b t ?i; trigger_dyntick_cpu st b t })"
    using idx t3(1) by (auto simp: internal_add_timer_def internal_add_timer_at_def)
  moreover obtain st4 where 4: "(do { st \<leftarrow> enqueue_timer st3 b t ?i; trigger_dyntick_cpu st b t }) = Some st4" "kinv st4" "same_env st3 st4"
      "\<forall>b. b_clk (k_bases st4 b) = b_clk (k_bases st3 b)"
      "k_timers st4 = (k_timers st3)(t \<mapsto> timer_set_idx ?i (?tm\<lparr>t_entry := Some (Bucket b (unat ?i))\<rparr>))"
    using arm_spec [OF 3(3) t3 index_bound, of expires "b_clk (k_bases st3 b)"] by blast
  ultimately have run: "mod_timer_requeue st t ?b expires options idx clk = Some (if timer_pending tm then 1 else 0, st4)"
    using 1(1) t1 2(1) 3(1) go by (cases "timer_pending tm") (simp_all add: mod_timer_requeue_def)
  have g: "timer_get_idx (timer_set_idx ?i x) = ?i" for x using index_bound [of expires "b_clk (k_bases st3 b)"] by (simp add: get_set_idx)
  have "same_env st st4" using same_env_trans [OF same_env_trans [OF same_env_trans [OF 1(3) 2(3)] 3(4)] 4(3)] .
  then have "armed st t tm expires st4" unfolding armed_def using 4(2,4,5) 3(2) 2(4,6) 1(4) g by (simp add: timer_pending_def)
  then show ?thesis using run by blast
qed

lemma lock_spec: "kinv st \<Longrightarrow> k_timers st t = Some tm \<Longrightarrow> lock_timer_base st t = Some (get_timer_base (t_flags tm))"
  by (simp add: lock_timer_base_def kinv_alt linked_def)

lemma sint_zero: "sint (a - b) = 0 \<longleftrightarrow> a = (b :: u64)"
  by (metis right_minus_eq signed_eq_0_iff)

lemma sint_minus_pos: "0 < sint (a - b :: u64) \<Longrightarrow> sint (b - a) < 0"
proof -
  assume p: "0 < sint (a - b)"
  then have lt: "unat (a - b) < 2 ^ 63" and ne: "a \<noteq> b" using sint_neg_iff [of "a - b"] by auto
  have "2 ^ 63 \<le> unat (b - a)"
  proof (cases "unat b \<le> unat a")
    case True
    then have "unat b < unat a" using ne by (metis le_neq_implies_less word_unat_eq_iff)
    then show ?thesis using lt unat_diff [OF True] unat_diff_wrap [of b a] by simp
  next
    case False
    then have l: "unat a < unat b" by simp
      have "unat b < 2 ^ 64" by (rule order_less_le_trans [OF unsigned_less]) simp
      then show ?thesis using l lt unat_diff_wrap [OF l] unat_diff [of a b] by simp
  qed
  then show ?thesis by (simp add: sint_neg_iff)
qed

lemma kinv_expires:
  assumes k: "kinv st" and t: "k_timers st t = Some tm"
  shows "\<exists>st'. on_timer st t (t_expires_update (\<lambda>_. e)) = Some st' \<and> kinv st' \<and> same_env st st' \<and> k_bases st' = k_bases st \<and>
    k_timers st' = (k_timers st)(t \<mapsto> tm\<lparr>t_expires := e\<rparr>)"
proof -
  let ?st = "st\<lparr>k_timers := (k_timers st)(t \<mapsto> tm\<lparr>t_expires := e\<rparr>)\<rparr>"
  have "buckets_ok ?st" unfolding buckets_ok_def
  proof (intro allI conjI ballI impI)
    fix b idx u assume "u \<in> set (bucket_list ?st b idx)"
    then have u: "u \<in> set (bucket_list st b idx)" by simp
    have "buckets_ok st" using k by (simp add: kinv_alt)
    then obtain tm' where "k_timers st u = Some tm'" "t_entry tm' = Some (Bucket b idx) \<and> t_function tm' \<noteq> None \<and>
        unat (timer_get_idx tm') = idx \<and> get_timer_base (t_flags tm') = b"
      using u unfolding buckets_ok_def by blast
    then show "\<exists>tm. k_timers ?st u = Some tm \<and> t_entry tm = Some (Bucket b idx) \<and> t_function tm \<noteq> None \<and>
        unat (timer_get_idx tm) = idx \<and> get_timer_base (t_flags tm) = b"
      using t by (auto simp: timer_get_idx_def)
  qed (use k in \<open>simp_all add: kinv_alt buckets_ok_def\<close>)
  moreover have "linked ?st u x = linked st u x" for u x by (rule linked_cong) simp
  moreover have "linked st t (tm\<lparr>t_expires := e\<rparr>)" using k t by (simp add: kinv_alt linked_def)
  ultimately have "kinv ?st" using k by (simp add: kinv_alt)
  then show ?thesis using t by (simp add: on_timer_def same_env_def)
qed

lemma forward_kinv: "kinv st \<Longrightarrow> kinv (forward_timer_base st b)" "k_timers (forward_timer_base st b) = k_timers st"
  "cpus_ok st \<Longrightarrow> cpus_ok (forward_timer_base st b)"
  using same_lists_kinv [OF forward_same(1)] forward_same(1) [of st b] same_env_cpus [OF forward_same(2)]
  by (blast, simp add: same_lists_def, blast)

text \<open>The calls that leave the timer as it is.\<close>

definition kept :: "timer_list \<Rightarrow> u64 \<Rightarrow> u32 \<Rightarrow> bool" where
  "kept tm expires options \<longleftrightarrow>
     (if timer_pending tm then t_expires tm = expires \<or> options AND MOD_TIMER_REDUCE \<noteq> 0 \<and> sint (t_expires tm - expires) \<le> 0
      else options AND MOD_TIMER_PENDING_ONLY \<noteq> 0)"

lemma armed_forward:
  assumes "armed (forward_timer_base st b) t tm expires st'"
  shows "armed st t tm expires st'"
  using assms forward_same [of st b] same_env_trans [OF forward_same(2) [of st b], of st'] unfolding armed_def
  by (simp add: same_lists_def)

lemma mod_timer_spec:
  assumes api: "kapi_ok (k_api st)" and k: "kinv st" and t: "k_timers st t = Some tm" "t_function tm \<noteq> None" and c: "cpus_ok st"
  shows "\<exists>st'. mod_timer_options st t expires options = Some (if timer_pending tm then 1 else 0, st') \<and>
    (if kept tm expires options then kinv st' \<and> same_env st st' \<and> k_timers st' = k_timers st else armed st t tm expires st')"
proof -
  let ?b = "get_timer_base (t_flags tm)"
  let ?f = "forward_timer_base st ?b"
  have l: "lock_timer_base st t = Some ?b" using lock_spec [OF k t(1)] .
  have f: "kinv ?f" "k_timers ?f t = Some tm" "cpus_ok ?f" using forward_kinv [of st ?b] k c t(1) by simp_all
  have fs: "same_env st ?f" "k_timers ?f = k_timers st" using forward_same(2) forward_kinv(2) by blast+
  show ?thesis
  proof (cases "timer_pending tm")
    case False
    show ?thesis
    proof (cases "options AND MOD_TIMER_PENDING_ONLY = 0")
      case True
      obtain st' where "mod_timer_requeue ?f t ?b expires options (- 1) 0 = Some (0, st')" "armed ?f t tm expires st'"
        using requeue_spec [OF f(1,2) t(2) f(3), of "- 1" expires 0 options] True False by auto
      then show ?thesis using armed_forward [of st ?b t tm expires st'] l t True False
        by (intro exI [of _ st']) (simp add: mod_timer_options_def kept_def Let_def)
    next
      case only: False
      obtain st' where d: "detach_if_pending ?f t ?b False = Some (0, st')" "kinv_but st' t" "same_env ?f st'"
          "k_timers st' = (k_timers ?f)(t \<mapsto> tm)"
        using detach_spec [OF f(1,2), of False] False by auto
      have ts: "k_timers st' = k_timers st" using d(4) fs(2) t(1) by auto
      have "kinv st'"
      proof (rule kinv_butD [OF d(2)])
        show "k_timers st' t = Some tm" using ts t(1) by simp
        show "linked st' t tm" using k t(1) False by (simp add: kinv_alt linked_def timer_pending_def)
      qed
      then show ?thesis using ts d(1) same_env_trans [OF fs(1) d(3)] l t only False
        by (intro exI [of _ st']) (simp add: mod_timer_options_def mod_timer_requeue_def kept_def Let_def)
    qed
  next
    case True
    have eq: "sint (t_expires tm - expires) = 0 \<longleftrightarrow> t_expires tm = expires" by (rule sint_zero)
    show ?thesis
    proof (cases "kept tm expires options")
      case k': True
      then have "mod_timer_options st t expires options = Some (1, st)"
        using t True eq by (auto simp: mod_timer_options_def kept_def Let_def)
      then show ?thesis using True k' k by (intro exI [of _ st]) simp
    next
      case False
      then have ne: "t_expires tm \<noteq> expires" and red: "options AND MOD_TIMER_REDUCE = 0 \<or> 0 < sint (t_expires tm - expires)"
        using True by (auto simp: kept_def)
      have after: "options AND MOD_TIMER_REDUCE = 0 \<or> time_after (k_api st) (t_expires tm) expires"
        using red sint_minus_pos [of "t_expires tm" expires] by (auto simp: time_compare(1) [OF api])
      let ?clk = "b_clk (k_bases ?f ?b)" let ?i = "calc_wheel_index expires ?clk"
      have run: "mod_timer_options st t expires options = (if ?i = timer_get_idx tm then do {
            st \<leftarrow> on_timer ?f t (t_expires_update (\<lambda>_. expires)); Some (1, st) }
          else mod_timer_requeue ?f t ?b expires options ?i ?clk)"
        using t True l red after ne eq
        using fs(1) time_compare(4) [OF api] by (auto simp: mod_timer_options_def Let_def same_env_def)
      show ?thesis
      proof (cases "?i = timer_get_idx tm")
        case i: True
        obtain st' where s: "on_timer ?f t (t_expires_update (\<lambda>_. expires)) = Some st'" "kinv st'" "same_env ?f st'" "k_bases st' = k_bases ?f"
            "k_timers st' = (k_timers ?f)(t \<mapsto> tm\<lparr>t_expires := expires\<rparr>)"
          using kinv_expires [OF f(1,2), of expires] by blast
        have "timer_get_idx (tm\<lparr>t_expires := expires\<rparr>) = timer_get_idx tm" by (simp add: timer_get_idx_def)
        then have "armed ?f t tm expires st'" using s True i unfolding armed_def by (simp add: timer_pending_def)
        then show ?thesis using run i s(1) True False armed_forward by (intro exI [of _ st']) simp
      next
        case i: False
        obtain st' where "mod_timer_requeue ?f t ?b expires options ?i ?clk = Some (1, st')" "armed ?f t tm expires st'"
          using requeue_spec [OF f(1,2) t(2) f(3), of ?i expires ?clk options] True by auto
        then show ?thesis using run i True False armed_forward by (intro exI [of _ st']) simp
      qed
    qed
  qed
qed

lemma del_timer_spec:
  assumes k: "kinv st" and t: "k_timers st t = Some tm"
  shows "\<exists>st'. del_timer st t = Some (if timer_pending tm then 1 else 0, st') \<and> kinv st' \<and> same_env st st' \<and>
    (\<forall>b. b_clk (k_bases st' b) = b_clk (k_bases st b)) \<and> k_timers st' = (k_timers st)(t \<mapsto> tm\<lparr>t_entry := None\<rparr>)"
proof (cases "timer_pending tm")
  case True
  obtain st' where d: "detach_if_pending st t (get_timer_base (t_flags tm)) True = Some (1, st')" "kinv_but st' t" "same_env st st'"
      "\<forall>b. b_clk (k_bases st' b) = b_clk (k_bases st b)" "k_timers st' = (k_timers st)(t \<mapsto> tm\<lparr>t_entry := None\<rparr>)"
    using detach_spec [OF k t, of True] True by auto
  have "linked st' t (tm\<lparr>t_entry := None\<rparr>)" using k t by (simp add: kinv_alt linked_def)
  then have "kinv st'" using kinv_butD [OF d(2)] d(5) by simp
  then show ?thesis using d True t lock_spec [OF k t] by (simp add: del_timer_def)
next
  case False
  then have e: "tm\<lparr>t_entry := None\<rparr> = tm" by (simp add: timer_pending_def)
  have "k_timers st = (k_timers st)(t \<mapsto> tm)" using t by auto
  then show ?thesis using False t k e by (simp add: del_timer_def)
qed

end
