(* ===== verification/Kern_Hotplug.thy ===== *)
theory Kern_Hotplug
  imports Kern_Mod
begin

unbundle bit_operations_syntax

text \<open>
  The kernel wheel when a CPU goes offline: every timer of its bases is moved to the base of the CPU that runs,
  and no other timer changes.
\<close>

section \<open>Moving one timer\<close>

lemma kinv_but_pending:
  assumes "kinv_but st t" "k_timers st' = k_timers st" "\<And>b i. bucket_list st' b i = bucket_list st b i"
    "\<And>b i. pending_map (k_bases st b) i \<Longrightarrow> pending_map (k_bases st' b) i"
  shows "kinv_but st' t"
proof -
  have "linked st' u tm = linked st u tm" for u tm by (rule linked_cong) (simp add: assms(3))
  then show ?thesis using assms unfolding kinv_but_def buckets_ok_def by simp
qed

lemma detach_keep:
  assumes k: "kinv st" and l: "bucket_list st b idx = t # ts"
  shows "\<exists>st' tm. detach_timer st t False = Some st' \<and> k_timers st t = Some tm \<and> t_function tm \<noteq> None \<and> t_flags tm AND TIMER_MIGRATING = 0 \<and>
    get_timer_base (t_flags tm) = b \<and> kinv_but st' t \<and> same_env st st' \<and> k_timers st' = k_timers st \<and>
    (\<forall>b'. b_clk (k_bases st' b') = b_clk (k_bases st b')) \<and>
    (\<forall>b' i. bucket_list st' b' i = (if b' = b \<and> i = idx then ts else bucket_list st b' i))"
proof -
  have "t \<in> set (bucket_list st b idx)" "buckets_ok st" using k l by (simp_all add: kinv_alt)
  then obtain tm where tm: "k_timers st t = Some tm" "t_entry tm = Some (Bucket b idx)" "t_function tm \<noteq> None" "get_timer_base (t_flags tm) = b"
    unfolding buckets_ok_def by blast
  have m: "t_flags tm AND TIMER_MIGRATING = 0" using k tm(1) by (simp add: kinv_alt linked_def)
  let ?st = "set_klist st (Bucket b idx) ts"
  have run: "detach_timer st t False = Some ?st" using tm l by (simp add: detach_timer_def hlist_del_def)
  have "bucket_list st b idx \<noteq> []" using l by simp
  then have pend: "pending_map (k_bases st b) idx" using k unfolding kinv_alt buckets_ok_def by blast
  have "kinv_but ?st t"
  proof (rule kinv_but_pending [OF unlink_kinv_but [OF k tm(1,2)]])
    show "bucket_list ?st b' i = bucket_list (unlink st t b idx) b' i" for b' i using l by simp
    show "pending_map (k_bases ?st b') i" if "pending_map (k_bases (unlink st t b idx) b') i" for b' i
      using that pend by (cases "b' = b") (simp_all split: if_splits)
  qed simp
  then show ?thesis using run tm m by (simp add: same_env_def)
qed

lemma add_buckets:
  assumes "internal_add_timer st b t = Some st'" "k_timers st t = Some tm" "b' \<noteq> b"
  shows "bucket_list st' b' i = bucket_list st b' i"
proof -
  let ?i = "calc_wheel_index (t_expires tm) (b_clk (k_bases st b))"
  let ?st = "link st t b ?i tm"
  obtain x where "k_timers ?st t = Some x" by simp
  then obtain st'' where "trigger_dyntick_cpu ?st b t = Some st''" "same_lists ?st st''"
    using trigger_same [of ?st t x b] by blast
  then have "same_lists ?st st'" using assms link_run [OF assms(2) index_bound, of b "t_expires tm" "b_clk (k_bases st b)"]
    by (simp add: internal_add_timer_def internal_add_timer_at_def)
  then show ?thesis using assms(3) by (simp add: same_lists_def)
qed

text \<open>The timer tm as it is after the move to b: pending in the bucket of its expiry.\<close>

definition moved :: "'w kst \<Rightarrow> addr \<Rightarrow> base_id \<Rightarrow> 'w kst \<Rightarrow> bool" where
  "moved st t b st' \<longleftrightarrow> (\<exists>tm tm'. k_timers st t = Some tm \<and> k_timers st' t = Some tm' \<and> timer_pending tm' \<and>
     t_expires tm' = t_expires tm \<and> t_function tm' = t_function tm \<and> get_timer_base (t_flags tm') = b \<and>
     timer_get_idx tm' = calc_wheel_index (t_expires tm) (b_clk (k_bases st b)))"

definition moved_all :: "'w kst \<Rightarrow> addr set \<Rightarrow> base_id \<Rightarrow> 'w kst \<Rightarrow> bool" where
  "moved_all st S b st' \<longleftrightarrow> kinv st' \<and> same_env st st' \<and> (\<forall>b. b_clk (k_bases st' b) = b_clk (k_bases st b)) \<and>
     (\<forall>t. if t \<in> S then moved st t b st' else k_timers st' t = k_timers st t)"

lemma moved_all_trans:
  assumes 1: "moved_all st S b st1" and 2: "moved_all st1 T b st2" and d: "S \<inter> T = {}"
  shows "moved_all st (S \<union> T) b st2"
proof -
  have "if t \<in> S \<union> T then moved st t b st2 else k_timers st2 t = k_timers st t" for t
  proof (cases "t \<in> T")
    case True
    then have "t \<notin> S" using d by blast
    then have "k_timers st1 t = k_timers st t" "moved st1 t b st2" using True 1 2 unfolding moved_all_def by presburger+
    then show ?thesis using True 1 by (simp add: moved_def moved_all_def)
  next
    case False
    then have "k_timers st2 t = k_timers st1 t" using 2 unfolding moved_all_def by presburger
    moreover have "if t \<in> S then moved st t b st1 else k_timers st1 t = k_timers st t" using 1 unfolding moved_all_def by blast
    ultimately show ?thesis using False by (cases "t \<in> S") (simp_all add: moved_def)
  qed
  then show ?thesis using 1 2 same_env_trans unfolding moved_all_def by fastforce
qed

lemma move_step:
  assumes k: "kinv st" and c: "cpus_ok st" and l: "bucket_list st (c0, w) idx = t # ts" and ne: "c0 \<noteq> c1" and c1: "c1 < 2 ^ 18"
  shows "\<exists>st1 st2 st3. detach_timer st t False = Some st1 \<and>
    on_timer st1 t (t_flags_update (\<lambda>f. (f AND NOT TIMER_BASEMASK) OR of_nat (b_cpu (k_bases st1 (c1, w))))) = Some st2 \<and>
    internal_add_timer st2 (c1, w) t = Some st3 \<and> moved_all st {t} (c1, w) st3 \<and>
    (\<forall>i. bucket_list st3 (c0, w) i = (if i = idx then ts else bucket_list st (c0, w) i))"
proof -
  obtain st1 tm where 1: "detach_timer st t False = Some st1" "k_timers st t = Some tm" "t_function tm \<noteq> None"
      "t_flags tm AND TIMER_MIGRATING = 0" "get_timer_base (t_flags tm) = (c0, w)" "kinv_but st1 t" "same_env st st1" "k_timers st1 = k_timers st"
      "\<forall>b'. b_clk (k_bases st1 b') = b_clk (k_bases st b')"
      "\<forall>b' i. bucket_list st1 b' i = (if b' = (c0, w) \<and> i = idx then ts else bucket_list st b' i)"
    using detach_keep [OF k l] by blast
  have cpu: "b_cpu (k_bases st1 (c1, w)) = c1" using 1(7) c by (simp add: same_env_def cpus_ok_def)
  let ?f = "t_flags tm AND NOT TIMER_BASEMASK OR of_nat c1"
  let ?tm = "tm\<lparr>t_flags := ?f\<rparr>"
  have "k_timers st1 t = Some tm" using 1(2,8) by simp
  then obtain st2 where 2: "on_timer st1 t (t_flags_update (\<lambda>f. (f AND NOT TIMER_BASEMASK) OR of_nat c1)) = Some st2"
      "k_timers st2 = (k_timers st1)(t \<mapsto> ?tm)" "kinv_but st2 t" "same_env st1 st2" "k_bases st2 = k_bases st1"
    using kinv_but_on_timer [OF 1(6), of tm "t_flags_update (\<lambda>f. (f AND NOT TIMER_BASEMASK) OR of_nat c1)"]
    by (auto simp: flags_update [of "\<lambda>f. f AND NOT TIMER_BASEMASK OR of_nat c1"])
  have base: "get_timer_base ?f = (c1, w)"
    using moved_base [OF c1, of "t_flags tm"] 1(5) by (auto simp: get_timer_base_def get_timer_cpu_base_def split: if_splits)
  have t2: "k_timers st2 t = Some ?tm" "t_function ?tm \<noteq> None" "t_flags ?tm AND TIMER_MIGRATING = 0" "get_timer_base (t_flags ?tm) = (c1, w)"
    using 2(2) 1(3) base moved_flags(1) [OF c1] by simp_all
  let ?i = "calc_wheel_index (t_expires ?tm) (b_clk (k_bases st2 (c1, w)))"
  obtain st3 where 3: "internal_add_timer st2 (c1, w) t = Some st3" "kinv st3" "same_env st2 st3"
      "\<forall>b. b_clk (k_bases st3 b) = b_clk (k_bases st2 b)"
      "k_timers st3 = (k_timers st2)(t \<mapsto> timer_set_idx ?i (?tm\<lparr>t_entry := Some (Bucket (c1, w) (unat ?i))\<rparr>))"
    using internal_add_spec [OF 2(3) t2] by blast
  have g: "timer_get_idx (timer_set_idx ?i x) = ?i" for x
    using index_bound [of "t_expires ?tm" "b_clk (k_bases st2 (c1, w))"] by (intro get_set_idx) simp
  have bl: "bucket_list st3 (c0, w) i = (if i = idx then ts else bucket_list st (c0, w) i)" for i
    using add_buckets [OF 3(1) t2(1)] ne 2(5) 1(10) by simp
  have "moved st t (c1, w) st3"
    using 1(2,9) 2(5) 3(5) base g by (simp add: moved_def timer_pending_def)
  moreover have "same_env st st3" using same_env_trans [OF same_env_trans [OF 1(7) 2(4)] 3(3)] .
  ultimately have "moved_all st {t} (c1, w) st3" unfolding moved_all_def using 3(2,4,5) 2(2,5) 1(8,9) by simp
  then show ?thesis using 1(1) 2(1) 3(1) cpu  bl by (intro exI [of _ st1] exI [of _ st2] exI [of _ st3]) simp
qed

section \<open>Moving every timer of a CPU\<close>

lemma migrate_list_spec:
  assumes "kinv st" "cpus_ok st" "c0 \<noteq> c1" "c1 < 2 ^ 18" "bucket_list st (c0, w) idx = xs"
  shows "\<exists>st'. migrate_timer_list (c1, w) (Bucket (c0, w) idx) st = Some st' \<and> moved_all st (set xs) (c1, w) st' \<and>
    (\<forall>i. bucket_list st' (c0, w) i = (if i = idx then [] else bucket_list st (c0, w) i))"
  using assms
proof (induction xs arbitrary: st)
  case Nil
  then have "migrate_timer_list (c1, w) (Bucket (c0, w) idx) st = Some st" by (subst migrate_timer_list.simps) simp
  then show ?case using Nil by (intro exI [of _ st]) (simp add: moved_all_def)
next
  case (Cons t ts)
  obtain st1 st2 st3 where s: "detach_timer st t False = Some st1"
      "on_timer st1 t (t_flags_update (\<lambda>f. (f AND NOT TIMER_BASEMASK) OR of_nat (b_cpu (k_bases st1 (c1, w))))) = Some st2"
      "internal_add_timer st2 (c1, w) t = Some st3" "moved_all st {t} (c1, w) st3"
      "\<forall>i. bucket_list st3 (c0, w) i = (if i = idx then ts else bucket_list st (c0, w) i)"
    using move_step [OF Cons.prems(1,2,5,3,4)] by blast
  have k3: "kinv st3" "cpus_ok st3" "bucket_list st3 (c0, w) idx = ts"
    using s(4,5) Cons.prems(2) same_env_cpus [of st st3] by (simp_all add: moved_all_def)
  obtain st4 where r: "migrate_timer_list (c1, w) (Bucket (c0, w) idx) st3 = Some st4" "moved_all st3 (set ts) (c1, w) st4"
      "\<forall>i. bucket_list st4 (c0, w) i = (if i = idx then [] else bucket_list st3 (c0, w) i)"
    using Cons.IH [OF k3(1,2) Cons.prems(3,4) k3(3)] by blast
  have "distinct (bucket_list st (c0, w) idx)" using Cons.prems(1) unfolding kinv_alt buckets_ok_def by blast
  then have "{t} \<inter> set ts = {}" using Cons.prems(5) by simp
  then have "moved_all st (set (t # ts)) (c1, w) st4" using moved_all_trans [OF s(4) r(2)] by simp
  moreover have "migrate_timer_list (c1, w) (Bucket (c0, w) idx) st = Some st4"
    using s(1,2,3) r(1) Cons.prems(5) by (subst migrate_timer_list.simps) simp
  ultimately show ?case using r(3) s(5) by (intro exI [of _ st4]) simp
qed

lemma moved_all_none: "kinv st \<Longrightarrow> moved_all st {} b st" by (simp add: moved_all_def)

lemma migrate_buckets_spec:
  assumes "kinv st" "cpus_ok st" "c0 \<noteq> c1" "c1 < 2 ^ 18" "distinct is"
  shows "\<exists>st'. migrate_buckets (c1, w) (c0, w) is st = Some st' \<and>
    moved_all st (in_buckets st (c0, w) (\<lambda>i. i \<in> set is)) (c1, w) st' \<and>
    (\<forall>i. bucket_list st' (c0, w) i = (if i \<in> set is then [] else bucket_list st (c0, w) i))"
  using assms
proof (induction "is" arbitrary: st)
  case Nil
  then show ?case using moved_all_none by (simp add: in_buckets_def)
next
  case (Cons i "is")
  obtain st1 where s: "migrate_timer_list (c1, w) (Bucket (c0, w) i) st = Some st1" "moved_all st (set (bucket_list st (c0, w) i)) (c1, w) st1"
      "\<forall>j. bucket_list st1 (c0, w) j = (if j = i then [] else bucket_list st (c0, w) j)"
    using migrate_list_spec [OF Cons.prems(1-4) refl] by blast
  have k1: "kinv st1" "cpus_ok st1" using s(2) Cons.prems(2) same_env_cpus [of st st1] by (simp_all add: moved_all_def)
  have d: "distinct is" "i \<notin> set is" using Cons.prems(5) by simp_all
  obtain st2 where r: "migrate_buckets (c1, w) (c0, w) is st1 = Some st2"
      "moved_all st1 (in_buckets st1 (c0, w) (\<lambda>j. j \<in> set is)) (c1, w) st2"
      "\<forall>j. bucket_list st2 (c0, w) j = (if j \<in> set is then [] else bucket_list st1 (c0, w) j)"
    using Cons.IH [OF k1 Cons.prems(3,4) d(1)] by blast
  have rest: "in_buckets st1 (c0, w) (\<lambda>j. j \<in> set is) = in_buckets st (c0, w) (\<lambda>j. j \<in> set is)"
  proof -
    have "bucket_list st1 (c0, w) j = bucket_list st (c0, w) j" if "j \<in> set is" for j using s(3) d(2) that by auto
    then show ?thesis by (simp add: in_buckets_def)
  qed
  have "set (bucket_list st (c0, w) i) \<inter> in_buckets st (c0, w) (\<lambda>j. j \<in> set is) = {}"
  proof -
    have False if t: "t \<in> set (bucket_list st (c0, w) i)" "j \<in> set is" "t \<in> set (bucket_list st (c0, w) j)" for t j
    proof -
      have "buckets_ok st" using Cons.prems(1) by (simp add: kinv_alt)
      then have "i = j" using in_bucket [of st t "(c0, w)" i] in_bucket [of st t "(c0, w)" j] t(1,3) by auto
      then show False using t(2) d(2) by blast
    qed
    then show ?thesis unfolding in_buckets_def by blast
  qed
  then have "moved_all st (set (bucket_list st (c0, w) i) \<union> in_buckets st (c0, w) (\<lambda>j. j \<in> set is)) (c1, w) st2"
    using moved_all_trans [OF s(2), of "in_buckets st (c0, w) (\<lambda>j. j \<in> set is)" st2] r(2) rest by simp
  moreover have "set (bucket_list st (c0, w) i) \<union> in_buckets st (c0, w) (\<lambda>j. j \<in> set is) = in_buckets st (c0, w) (\<lambda>j. j \<in> set (i # is))"
    by (auto simp: in_buckets_def)
  ultimately show ?case using s(1,3) r(1,3) by (intro exI [of _ st2]) simp
qed

text \<open>The timer t after the moves, tm before: at the base of the CPU c1 if it was pending on the CPU c0.\<close>

definition rehomed_timer :: "'w kst \<Rightarrow> nat \<Rightarrow> nat set \<Rightarrow> nat \<Rightarrow> 'w kst \<Rightarrow> addr \<Rightarrow> bool" where
  "rehomed_timer st c0 ws c1 st' t \<longleftrightarrow> (case k_timers st t of None \<Rightarrow> k_timers st' t = None | Some tm \<Rightarrow>
     (if timer_pending tm \<and> get_timer_base (t_flags tm) \<in> {c0} \<times> ws then
        (\<exists>tm'. k_timers st' t = Some tm' \<and> timer_pending tm' \<and> t_expires tm' = t_expires tm \<and> t_function tm' = t_function tm \<and>
           get_timer_base (t_flags tm') = (c1, snd (get_timer_base (t_flags tm))) \<and>
           timer_get_idx tm' = calc_wheel_index (t_expires tm) (b_clk (k_bases st' (get_timer_base (t_flags tm')))))
      else k_timers st' t = Some tm))"

definition rehomed :: "'w kst \<Rightarrow> nat \<Rightarrow> nat set \<Rightarrow> nat \<Rightarrow> 'w kst \<Rightarrow> bool" where
  "rehomed st c0 ws c1 st' \<longleftrightarrow> kinv st' \<and> same_env st st' \<and> (\<forall>w \<in> ws. \<forall>i. bucket_list st' (c0, w) i = []) \<and>
     (\<forall>b. b \<notin> {c1} \<times> ws \<longrightarrow> b_clk (k_bases st' b) = b_clk (k_bases st b)) \<and>
     (\<forall>t. rehomed_timer st c0 ws c1 st' t)"

lemma in_base:
  assumes "kinv st"
  shows "t \<in> in_buckets st b (\<lambda>i. i < 576) \<longleftrightarrow> (\<exists>tm. k_timers st t = Some tm \<and> timer_pending tm \<and> get_timer_base (t_flags tm) = b)"
proof
  assume "t \<in> in_buckets st b (\<lambda>i. i < 576)"
  then obtain idx where "t \<in> set (bucket_list st b idx)" unfolding in_buckets_def by blast
  then show "\<exists>tm. k_timers st t = Some tm \<and> timer_pending tm \<and> get_timer_base (t_flags tm) = b"
    using assms unfolding kinv_alt buckets_ok_def timer_pending_def by fastforce
next
  assume "\<exists>tm. k_timers st t = Some tm \<and> timer_pending tm \<and> get_timer_base (t_flags tm) = b"
  then obtain tm l where tm: "k_timers st t = Some tm" "t_entry tm = Some l" "get_timer_base (t_flags tm) = b" by (auto simp: timer_pending_def)
  then obtain b' idx where "t \<in> set (bucket_list st b' idx)" using assms unfolding kinv_alt linked_def by (cases l) fastforce+
  moreover have "b' = b" "idx < 576" using calculation assms tm unfolding kinv_alt buckets_ok_def by fastforce+
  ultimately show "t \<in> in_buckets st b (\<lambda>i. i < 576)" unfolding in_buckets_def by blast
qed

lemma dead_base_spec:
  assumes k: "kinv st" and c: "cpus_ok st" and ne: "c0 \<noteq> k_cpu st" and r: "running_timer (k_bases st (c0, w)) = None"
  shows "\<exists>st'. dead_base c0 w st = Some st' \<and> rehomed st c0 {w} (k_cpu st) st'"
proof -
  let ?c1 = "k_cpu st"
  let ?f = "forward_timer_base st (?c1, w)"
  have f: "kinv ?f" "cpus_ok ?f" "k_timers ?f = k_timers st" "same_env st ?f" using forward_kinv k c forward_same(2) by blast+
  have c1: "?c1 < 2 ^ 18" using c by (simp add: cpus_ok_def)
  obtain st' where s: "migrate_buckets (?c1, w) (c0, w) [0..<576] ?f = Some st'"
      "moved_all ?f (in_buckets ?f (c0, w) (\<lambda>i. i \<in> set [0..<576])) (?c1, w) st'"
      "\<forall>i. bucket_list st' (c0, w) i = (if i \<in> set [0..<576] then [] else bucket_list ?f (c0, w) i)"
    using migrate_buckets_spec [OF f(1,2) ne c1, of "[0..<576]" w] by auto
  have r': "running_timer (k_bases ?f (c0, w)) = None" using f(4) r by (simp add: same_env_def)
  have "k_cpu ?f = ?c1" using f(4) by (simp add: same_env_def)
  then have run: "dead_base c0 w st = Some st'" using s(1) r' unfolding dead_base_def Let_def wheel_consts by simp
  have clkf: "b_clk (k_bases ?f b) = b_clk (k_bases st b)" if "b \<noteq> (?c1, w)" for b
    using that by (simp add: forward_timer_base_def Let_def)
  have set: "in_buckets ?f (c0, w) (\<lambda>i. i \<in> set [0..<576]) = in_buckets ?f (c0, w) (\<lambda>i. i < 576)" by simp
  have e: "bucket_list st' (c0, w) i = []" for i
    using s(3) f(1) unfolding kinv_alt buckets_ok_def by (cases "i < 576") simp_all
  note m = s(2) [unfolded set moved_all_def]
  have "rehomed_timer st c0 {w} ?c1 st' t" for t
  proof -
    have i: "t \<in> in_buckets ?f (c0, w) (\<lambda>i. i < 576) \<longleftrightarrow>
        (\<exists>tm. k_timers st t = Some tm \<and> timer_pending tm \<and> get_timer_base (t_flags tm) = (c0, w))"
      using in_base [OF f(1), of t "(c0, w)"] f(3) by simp
    have mt: "if t \<in> in_buckets ?f (c0, w) (\<lambda>i. i < 576) then moved ?f t (?c1, w) st' else k_timers st' t = k_timers ?f t" using m by blast
    have clk: "b_clk (k_bases st' b) = b_clk (k_bases ?f b)" for b using m by blast
    show ?thesis
    proof (cases "t \<in> in_buckets ?f (c0, w) (\<lambda>i. i < 576)")
      case True
      then show ?thesis using i mt f(3) clk by (auto simp: moved_def rehomed_timer_def)
    next
      case False
      then show ?thesis using i mt f(3) by (auto simp: rehomed_timer_def split: option.split)
    qed
  qed
  moreover have "same_env st st'" using same_env_trans [OF f(4)] m by blast
  moreover have "b_clk (k_bases st' b) = b_clk (k_bases st b)" if "b \<notin> {?c1} \<times> {w}" for b using m clkf [of b] that by auto
  ultimately show ?thesis using run e m unfolding rehomed_def by simp blast
qed

lemma rehomed_empty:
  assumes 1: "rehomed st c0 V c1 st1" and 2: "rehomed st1 c0 W c1 st2" and ne: "c0 \<noteq> c1" and w: "w \<in> V \<union> W"
  shows "bucket_list st2 (c0, w) i = []"
proof (rule ccontr)
  assume ne2: "bucket_list st2 (c0, w) i \<noteq> []"
  then obtain t where t: "t \<in> set (bucket_list st2 (c0, w) i)" by (cases "bucket_list st2 (c0, w) i") auto
  have k: "kinv st1" "kinv st2" using 1 2 by (simp_all add: rehomed_def)
  have "w \<notin> W" using 2 t unfolding rehomed_def by auto
  then have wV: "w \<in> V" using w by blast
  have "i < 576" using bucket_lt [OF k(2) ne2] .
  then have "t \<in> in_buckets st2 (c0, w) (\<lambda>i. i < 576)" using t unfolding in_buckets_def by blast
  then obtain tm2 where t2: "k_timers st2 t = Some tm2" "timer_pending tm2" "get_timer_base (t_flags tm2) = (c0, w)" using in_base [OF k(2)] by blast
  have m: "rehomed_timer st1 c0 W c1 st2 t" using 2 unfolding rehomed_def by blast
  then obtain tm1 where t1: "k_timers st1 t = Some tm1" using t2(1) unfolding rehomed_timer_def by (cases "k_timers st1 t") simp_all
  have "tm1 = tm2" using m t1 t2 ne unfolding rehomed_timer_def by (auto split: if_splits)
  then have "t \<in> in_buckets st1 (c0, w) (\<lambda>i. i < 576)" using t1 t2 in_base [OF k(1)] by blast
  then show False using 1 wV unfolding rehomed_def in_buckets_def by auto
qed

lemma rehomed_trans:
  assumes 1: "rehomed st c0 V c1 st1" and 2: "rehomed st1 c0 W c1 st2" and ne: "c0 \<noteq> c1" and d: "V \<inter> W = {}"
  shows "rehomed st c0 (V \<union> W) c1 st2"
proof -
  note r1 = 1 [unfolded rehomed_def] and r2 = 2 [unfolded rehomed_def]
  have "rehomed_timer st c0 (V \<union> W) c1 st2 t" for t
  proof -
    have "rehomed_timer st c0 V c1 st1 t" "rehomed_timer st1 c0 W c1 st2 t" using r1 r2 by blast+
    note p1 = this(1) [unfolded rehomed_timer_def] and p2 = this(2) [unfolded rehomed_timer_def]
    show ?thesis
    proof (cases "k_timers st t")
      case None
      then show ?thesis using p1 p2 by (simp add: rehomed_timer_def)
    next
      case (Some tm)
      show ?thesis
      proof (cases "timer_pending tm \<and> get_timer_base (t_flags tm) \<in> {c0} \<times> V")
        case True
        then obtain tm' where tm': "k_timers st1 t = Some tm'" "timer_pending tm'" "t_expires tm' = t_expires tm" "t_function tm' = t_function tm"
            "get_timer_base (t_flags tm') = (c1, snd (get_timer_base (t_flags tm)))"
            "timer_get_idx tm' = calc_wheel_index (t_expires tm) (b_clk (k_bases st1 (get_timer_base (t_flags tm'))))"
          using p1 Some by auto
        have "k_timers st2 t = Some tm'" using p2 tm'(1,5) ne by simp
        moreover have "b_clk (k_bases st2 (get_timer_base (t_flags tm'))) = b_clk (k_bases st1 (get_timer_base (t_flags tm')))"
        proof -
          have "get_timer_base (t_flags tm') \<notin> {c1} \<times> W" using tm'(5) True d by (cases "get_timer_base (t_flags tm)") auto
          then show ?thesis using r2 by blast
        qed
        ultimately show ?thesis using Some tm' True by (cases "get_timer_base (t_flags tm)") (auto simp: rehomed_timer_def)
      next
        case False
        then have "k_timers st1 t = Some tm" using p1 Some by (simp split: if_splits)
        then show ?thesis using p2 Some False by (cases "get_timer_base (t_flags tm)") (auto simp: rehomed_timer_def split: if_splits)
      qed
    qed
  qed
  moreover have "\<forall>w \<in> V \<union> W. \<forall>i. bucket_list st2 (c0, w) i = []" using rehomed_empty [OF 1 2 ne] by blast
  moreover have "b_clk (k_bases st2 b) = b_clk (k_bases st b)" if "b \<notin> {c1} \<times> (V \<union> W)" for b
  proof -
    have "b \<notin> {c1} \<times> V" "b \<notin> {c1} \<times> W" using that by (cases b; auto)+
    then show ?thesis using r1 r2 by metis
  qed
  moreover have "same_env st st2" using r1 r2 same_env_trans by blast
  ultimately show ?thesis using r2 unfolding rehomed_def by blast
qed

lemma timers_dead_spec:
  assumes k: "kinv st" and c: "cpus_ok st" and ne: "cpu \<noteq> k_cpu st"
    and r: "running_timer (k_bases st (cpu, 0)) = None" "running_timer (k_bases st (cpu, 1)) = None"
  shows "\<exists>st'. timers_dead_cpu st cpu = Some st' \<and> rehomed st cpu {0, 1} (k_cpu st) st'"
proof -
  obtain st1 where 1: "dead_base cpu 0 st = Some st1" "rehomed st cpu {0} (k_cpu st) st1" using dead_base_spec [OF k c ne r(1)] by blast
  have e: "kinv st1" "same_env st st1" using 1(2) by (simp_all add: rehomed_def)
  have c1: "cpus_ok st1" "k_cpu st1 = k_cpu st" "running_timer (k_bases st1 (cpu, 1)) = None"
    using same_env_cpus [OF e(2)] c e(2) r(2) by (simp_all add: same_env_def)
  obtain st2 where 2: "dead_base cpu 1 st1 = Some st2" "rehomed st1 cpu {1} (k_cpu st) st2"
    using dead_base_spec [OF e(1) c1(1), of cpu 1] ne c1 by auto
  have "rehomed st cpu ({0} \<union> {1}) (k_cpu st) st2" using rehomed_trans [OF 1(2) 2(2) ne] by simp
  then show ?thesis using 1(1) 2(1) ne by (simp add: timers_dead_cpu_def BASE_STD_def BASE_DEF_def insert_commute)
qed

end
