(* ===== verification/Kern_Theorems.thy ===== *)
theory Kern_Theorems
  imports Kern_Hotplug
begin

unbundle bit_operations_syntax

text \<open>
  The properties of the kernel wheel, with their witnesses on concrete states.
\<close>

section \<open>Concrete states\<close>

declare expire_timers.simps [code] run_timers_loop.simps [code] migrate_timer_list.simps [code]

text \<open>An instance of the functions that the wheel takes from the rest of the kernel.\<close>

definition first_bit :: "(nat \<Rightarrow> bool) \<Rightarrow> nat \<Rightarrow> nat \<Rightarrow> nat" where
  "first_bit bm sz start = (case List.find bm [start..<sz] of Some i \<Rightarrow> i | None \<Rightarrow> sz)"

lemma first_bit_Suc: "st < sz \<Longrightarrow> first_bit bm sz st = (if bm st then st else first_bit bm sz (Suc st))"
proof -
  assume "st < sz"
  then have "[st..<sz] = st # [Suc st..<sz]" by (rule upt_conv_Cons)
  then show ?thesis by (simp add: first_bit_def)
qed

lemma first_bit_ok: "next_bit_ok first_bit"
proof -
  have "st \<le> first_bit bm sz st \<and> first_bit bm sz st \<le> sz \<and>
      (\<forall>i. st \<le> i \<longrightarrow> i < first_bit bm sz st \<longrightarrow> \<not> bm i) \<and> (first_bit bm sz st < sz \<longrightarrow> bm (first_bit bm sz st))"
    if "st \<le> sz" for bm sz st
    using that
  proof (induction "sz - st" arbitrary: st)
    case 0
    then show ?case by (simp add: first_bit_def)
  next
    case (Suc n)
    then have lt: "st < sz" by simp
    show ?case
    proof (cases "bm st")
      case True
      then show ?thesis using lt by (simp add: first_bit_Suc)
    next
      case False
      then have e: "first_bit bm sz st = first_bit bm sz (Suc st)" using first_bit_Suc [OF lt, of bm] by simp
      have IH: "Suc st \<le> first_bit bm sz (Suc st) \<and> first_bit bm sz (Suc st) \<le> sz \<and>
          (\<forall>i. Suc st \<le> i \<longrightarrow> i < first_bit bm sz (Suc st) \<longrightarrow> \<not> bm i) \<and> (first_bit bm sz (Suc st) < sz \<longrightarrow> bm (first_bit bm sz (Suc st)))"
        using Suc.hyps(1) [of "Suc st"] Suc.hyps(2) lt by simp
      have "\<not> bm i" if "st \<le> i" "i < first_bit bm sz (Suc st)" for i
        using that IH False by (cases "i = st") auto
      then show ?thesis unfolding e using IH by auto
    qed
  qed
  then show ?thesis unfolding next_bit_ok_def by blast
qed

definition linux_api :: kapi where
  "linux_api = \<lparr>time_after = (\<lambda>a b. sint (b - a) < 0), time_after_eq = (\<lambda>a b. 0 \<le> sint (a - b)),
     time_before = (\<lambda>a b. sint (a - b) < 0), time_before_eq = (\<lambda>a b. 0 \<le> sint (b - a)), find_next_bit = first_bit\<rparr>"

lemma linux_api_ok [simp]: "kapi_ok linux_api"
  using first_bit_ok by (simp add: kapi_ok_def linux_api_def)

text \<open>A base of the CPU c whose clock is at j, and a state with the timers ts of CPU 0, none of them pending.\<close>

definition base_at :: "u64 \<Rightarrow> nat \<Rightarrow> timer_base" where
  "base_at j c = \<lparr>running_timer = None, b_clk = j, b_next_expiry = j + NEXT_TIMER_MAX_DELTA, b_cpu = c, is_idle = False,
     must_forward_clk = False, pending_map = \<lambda>_. False, vectors = \<lambda>_. [], b_heads = \<lambda>_. []\<rparr>"

definition timer_at :: "u64 \<Rightarrow> timer_list" where
  "timer_at e = \<lparr>t_entry = None, t_expires = e, t_function = Some 0, t_flags = 0\<rparr>"

definition kst_at :: "u64 \<Rightarrow> addr list \<Rightarrow> addr list kst" where
  "kst_at j ts = \<lparr>k_api = linux_api, k_timers = map_of (map (\<lambda>t. (t, timer_at 0)) ts), k_bases = (\<lambda>b. base_at j (fst b)), k_jiffies = j, k_cpu = 0,
     k_target = 0, k_nohz_active = True, k_migration = False, k_full_cpus = {}, k_kicks = [], k_world = []\<rparr>"

lemma kst_at_api [simp]: "kapi_ok (k_api (kst_at j ts))"
  by (simp add: kst_at_def)

lemma kst_at_kinv: "kinv (kst_at j ts)" "cpus_ok (kst_at j ts)"
proof -
  have m: "k_timers (kst_at j ts) t = (if t \<in> set ts then Some (timer_at 0) else None)" for t
    by (induction ts) (auto simp: kst_at_def)
  have "linked (kst_at j ts) t tm" if "k_timers (kst_at j ts) t = Some tm" for t tm
    using that by (auto simp: m linked_def timer_at_def split: if_splits)
  then show "kinv (kst_at j ts)" unfolding kinv_alt by (simp add: buckets_ok_def kst_at_def base_at_def)
  show "cpus_ok (kst_at j ts)" by (simp add: cpus_ok_def kst_at_def base_at_def)
qed

section \<open>Where a timer goes, and when that place is visited\<close>

lemma wheel_bucket:
  assumes "unat clk \<le> unat expires" "unat expires - unat clk < 63 * 8 ^ 7"
  shows "unat expires < next_visit (unat clk) (unat (calc_wheel_index expires clk)) \<and>
    next_visit (unat clk) (unat (calc_wheel_index expires clk)) \<le> unat expires + max 1 (8 * (unat expires - unat clk) div 63)"
proof -
  let ?e = "unat expires" let ?d = "?e - unat clk"
  obtain l where l: "next_visit (unat clk) (unat (calc_wheel_index expires clk)) = quot l ?e * 8 ^ l" "l = 0 \<or> 63 * 8 ^ (l - 1) \<le> ?d"
    using index_near [OF assms] by blast
  have "8 ^ l \<le> max 1 (8 * ?d div 63)"
  proof (cases l)
    case (Suc k)
    then have "63 * 8 ^ k \<le> ?d" using l(2) by simp
    then have "8 ^ k * 8 * 63 \<le> 8 * ?d" by simp
    then have "8 ^ k * 8 \<le> 8 * ?d div 63" by (simp only: less_eq_div_iff_mult_less_eq zero_less_numeral)
    then show ?thesis using Suc by (simp add: mult.commute)
  qed simp
  then show ?thesis using quot_bounds [where l = l and e = ?e] unfolding l(1) by linarith
qed

text \<open>The bucket that calc_wheel_index chooses for a timer less than 63 * 8^7 jiffies ahead of the clock is
  next visited after the expiry time, so that the timer is never early, and late by at most one jiffy or, if that
  is more, 8/63 of the time that was left.\<close>

lemma kern_wheel_bucket:
  assumes "unat clk \<le> unat expires" "unat expires - unat clk < 63 * 8 ^ 7"
  shows "unat expires < next_visit (unat clk) (unat (calc_wheel_index expires clk)) \<and>
    next_visit (unat clk) (unat (calc_wheel_index expires clk)) \<le> unat expires + max 1 (8 * (unat expires - unat clk) div 63)"
  by (rule wheel_bucket [OF assms])

lemma kern_wheel_bucket_witness:
  "unat (1500 :: u64) < next_visit (unat (1000 :: u64)) (unat (calc_wheel_index 1500 1000)) \<and>
   next_visit (unat (1000 :: u64)) (unat (calc_wheel_index 1500 1000)) \<le> unat (1500 :: u64) + max 1 (8 * (unat (1500 :: u64) - unat (1000 :: u64)) div 63)"
  by (rule kern_wheel_bucket) simp_all

text \<open>C28: __next_timer_interrupt computes the first time at which a bucket that is marked pending is visited, at most
  NEXT_TIMER_MAX_DELTA jiffies ahead of the clock.\<close>

lemma kern_next_timer_exact:
  assumes "kapi_ok api" "unat (b_clk bs) + 2 ^ 31 < 2 ^ 64"
  shows "unat (next_timer_interrupt api bs) =
    Min (insert (unat (b_clk bs) + 2 ^ 30 - 1) (next_visit (unat (b_clk bs)) ` {idx. idx < 576 \<and> pending_map bs idx}))"
proof (rule Min_eqI [symmetric])
  have s: "visits_below bs 9 = next_visit (unat (b_clk bs)) ` {idx. idx < 576 \<and> pending_map bs idx}"
    unfolding visits_below_def by auto
  note l = next_timer_interrupt_spec [OF assms, unfolded s least_of_def]
  show "finite (insert (unat (b_clk bs) + 2 ^ 30 - 1) (next_visit (unat (b_clk bs)) ` {idx. idx < 576 \<and> pending_map bs idx}))" by simp
  show "unat (next_timer_interrupt api bs) \<le> y"
    if "y \<in> insert (unat (b_clk bs) + 2 ^ 30 - 1) (next_visit (unat (b_clk bs)) ` {idx. idx < 576 \<and> pending_map bs idx})" for y
    using l that by blast
  show "unat (next_timer_interrupt api bs) \<in> insert (unat (b_clk bs) + 2 ^ 30 - 1) (next_visit (unat (b_clk bs)) ` {idx. idx < 576 \<and> pending_map bs idx})"
    using l by blast
qed

lemma kern_next_timer_exact_witness:
  "unat (next_timer_interrupt linux_api ((base_at 1000 0)\<lparr>pending_map := (\<lambda>i. i = 70)\<rparr>)) =
     Min (insert (1000 + 2 ^ 30 - 1) (next_visit 1000 ` {idx. idx < 576 \<and> idx = 70})) \<and>
   next_visit 1000 70 = 1072"
  using kern_next_timer_exact [OF linux_api_ok, of "(base_at 1000 0)\<lparr>pending_map := (\<lambda>i. i = 70)\<rparr>"]
  by (simp add: base_at_def next_visit_def ceil_clk_def Let_def)

section \<open>Expiry\<close>

lemma kinv_must: "kinv (on_base st b' (must_forward_clk_update g)) = kinv st"
  unfolding kinv_iff [where b = b'] by (rule kinv_heads_clk(3))

lemma run_timers_spec:
  assumes api: "kapi_ok (k_api st)" and k: "kinv st"
    and j: "unat (b_clk (k_bases st b)) \<le> unat (k_jiffies st) + 1" "unat (k_jiffies st) + 1 < 2 ^ 63"
  shows "\<exists>ts st'. run_timers (world_call b act) b st = Some st' \<and> kinv st' \<and> distinct ts \<and>
    set ts = {t. \<exists>tm. k_timers st t = Some tm \<and> timer_pending tm \<and> get_timer_base (t_flags tm) = b \<and>
      fires_at (unat (b_clk (k_bases st b))) st t \<le> unat (k_jiffies st)} \<and>
    sorted (map (fires_at (unat (b_clk (k_bases st b))) st) ts) \<and>
    k_world st' = fold (\<lambda>t. called act (k_timers st) (of_nat (fires_at (unat (b_clk (k_bases st b))) st t) + 1) False t) ts (k_world st) \<and>
    unat (b_clk (k_bases st' b)) = unat (k_jiffies st) + 1 \<and>
    must_forward_clk (k_bases st' b) = (unat (k_jiffies st) < unat (b_clk (k_bases st b)) \<and> must_forward_clk (k_bases st b)) \<and>
    (\<forall>b'. b' \<noteq> b \<longrightarrow> k_bases st' b' = k_bases st b') \<and> k_jiffies st' = k_jiffies st \<and> k_api st' = k_api st \<and>
    (\<forall>t. k_timers st' t = (if t \<in> set ts then map_option (t_entry_update (\<lambda>_. None)) (k_timers st t) else k_timers st t))"
proof -
  let ?clk = "unat (b_clk (k_bases st b))" and ?J = "unat (k_jiffies st)"
  have cmp: "time_after_eq (k_api st) (k_jiffies st) (b_clk (k_bases st b)) \<longleftrightarrow> ?clk \<le> ?J"
    using time_after_iff [OF api, of "b_clk (k_bases st b)" "k_jiffies st"] j by (simp add: time_compare(2) [OF api] not_less)
  have idle: "run_timers_loop (world_call b act) b st = Some st" if "\<not> ?clk \<le> ?J"
    using that cmp by (simp add: run_loop_unfold)
  let ?st = "if ?clk \<le> ?J then on_base st b (must_forward_clk_update (\<lambda>_. False)) else st"
  have run: "run_timers (world_call b act) b st = run_timers_loop (world_call b act) b ?st"
    using idle cmp by (simp add: run_timers_def)
  have s: "kinv ?st" "b_clk (k_bases ?st b) = b_clk (k_bases st b)" "k_jiffies ?st = k_jiffies st \<and> k_api ?st = k_api st" "k_world ?st = k_world st"
      "k_timers ?st = k_timers st" "\<And>i. bucket_list ?st b i = bucket_list st b i"
      "must_forward_clk (k_bases ?st b) = (?J < ?clk \<and> must_forward_clk (k_bases st b))" "\<And>b'. b' \<noteq> b \<Longrightarrow> k_bases ?st b' = k_bases st b'"
    using k by (simp_all add: kinv_must)
  have b: "body ?st = body st" "fires_at c ?st = fires_at c st" for c using s(5) by (auto simp: body_def fires_at_def fun_eq_iff)
  obtain ts st' where r: "run_timers_loop (world_call b act) b ?st = Some st'"
      "fired (\<lambda>t. called act (body st) (of_nat (fires_at ?clk st t) + 1) (must_forward_clk (k_bases ?st b)) t) ?st b (\<lambda>idx. next_visit ?clk idx \<le> ?J) ts st'"
      "unat (b_clk (k_bases st' b)) = ?J + 1" "sorted (map (fires_at ?clk st) ts)"
    using run_loop_spec [of ?st b act] s(1) j api unfolding s(2) conjunct1 [OF s(3)] conjunct2 [OF s(3)] b by blast
  note f = r(2) [unfolded fired_def in_buckets_def s(4,5,6) b(1)]
  have S: "set ts = {t. \<exists>tm. k_timers st t = Some tm \<and> timer_pending tm \<and> get_timer_base (t_flags tm) = b \<and> fires_at ?clk st t \<le> ?J}"
  proof -
    have i: "(\<exists>idx. next_visit ?clk idx \<le> ?J \<and> t \<in> set (bucket_list st b idx)) \<longleftrightarrow>
        t \<in> in_buckets st b (\<lambda>i. i < 576) \<and> fires_at ?clk st t \<le> ?J" for t
    proof -
      have "t \<in> set (bucket_list st b idx) \<Longrightarrow> fires_at ?clk st t = next_visit ?clk idx \<and> idx < 576" for idx
        using fires_at_bucket [OF k, of t b idx ?clk] bucket_lt [OF k, of b idx] by force
      then show ?thesis unfolding in_buckets_def by fastforce
    qed
    have "set ts = {t. \<exists>idx. next_visit ?clk idx \<le> ?J \<and> t \<in> set (bucket_list st b idx)}" using f by blast
    then show ?thesis unfolding i in_base [OF k] by blast
  qed
  have T: "\<forall>t. k_timers st' t = (if t \<in> set ts then map_option (t_entry_update (\<lambda>_. None)) (k_timers st t) else k_timers st t)"
    using f unfolding body_def by blast
  have R: "run_timers (world_call b act) b st = Some st'" unfolding run by (rule r(1))
  have W: "k_world st' = fold (\<lambda>t. called act (k_timers st) (of_nat (fires_at ?clk st t) + 1) False t) ts (k_world st)"
  proof -
    have "?clk \<le> ?J" if "t \<in> set ts" for t
    proof -
      obtain tm where "fires_at ?clk st t \<le> ?J" "k_timers st t = Some tm" using \<open>t \<in> set ts\<close> S by blast
      then show ?thesis using next_visit_visits(2) [of ?clk "unat (timer_get_idx tm)"] by (simp add: fires_at_def)
    qed
    then have fw: "must_forward_clk (k_bases ?st b) = False" if "t \<in> set ts" for t using that s(7) not_less by blast
    have bd: "called act (body st) = called act (k_timers st)" 
    proof (intro ext)
      show "called act (body st) c w t u = called act (k_timers st) c w t u" for c w t u
        by (cases "k_timers st t") (simp_all add: called_def body_def)
    qed
    have "called act (body st) (of_nat (fires_at ?clk st t) + 1) (must_forward_clk (k_bases ?st b)) t =
        called act (k_timers st) (of_nat (fires_at ?clk st t) + 1) False t" if "t \<in> set ts" for t
      unfolding fw [OF that] bd ..
    then have "fold (\<lambda>t. called act (body st) (of_nat (fires_at ?clk st t) + 1) (must_forward_clk (k_bases ?st b)) t) ts (k_world st) =
        fold (\<lambda>t. called act (k_timers st) (of_nat (fires_at ?clk st t) + 1) False t) ts (k_world st)"
      by (intro fold_cong refl) blast
    moreover have "k_world st' = fold (\<lambda>t. called act (body st) (of_nat (fires_at ?clk st t) + 1) (must_forward_clk (k_bases ?st b)) t) ts (k_world st)"
      using conjunct1 [OF conjunct2 [OF r(2) [unfolded fired_def]]] unfolding s(4) .
    ultimately show ?thesis by (simp only:)
  qed
  have o: "must_forward_clk (k_bases st' b) = must_forward_clk (k_bases ?st b)" "\<forall>b'. b' \<noteq> b \<longrightarrow> k_bases st' b' = k_bases ?st b'"
      "k_jiffies st' = k_jiffies ?st" "k_api st' = k_api ?st" and K: "kinv st'" "distinct ts"
    using r(2) unfolding fired_def by blast+
  have M: "must_forward_clk (k_bases st' b) = (?J < ?clk \<and> must_forward_clk (k_bases st b))" unfolding o(1) by (rule s(7))
  have B: "\<forall>b'. b' \<noteq> b \<longrightarrow> k_bases st' b' = k_bases st b'" using o(2) by simp
  have J: "k_jiffies st' = k_jiffies st" "k_api st' = k_api st" using o(3,4) by simp_all
  show ?thesis
    by (rule exI [of _ ts], rule exI [of _ st'])
      (rule conjI [OF R conjI [OF K(1) conjI [OF K(2) conjI [OF S conjI [OF r(4) conjI [OF W conjI [OF r(3) conjI [OF M conjI [OF B conjI [OF J(1) conjI [OF J(2) T]]]]]]]]]]])
qed

text \<open>The callbacks that record their timer.\<close>

lemma log_call_act: "log_call = world_call b (\<lambda>f t v w. w @ [t])"
  by (simp add: fun_eq_iff log_call_def world_call_def)

lemma fold_log:
  "(\<And>t. t \<in> set ts \<Longrightarrow> \<exists>tm. timers t = Some tm \<and> t_function tm \<noteq> None) \<Longrightarrow>
     fold (\<lambda>t. called (\<lambda>f t v w. w @ [t]) timers (clk t) fwd t) ts w = w @ ts"
proof (induction ts arbitrary: w)
  case (Cons t ts)
  obtain tm f where "timers t = Some tm" "t_function tm = Some f" using Cons.prems [of t] by auto
  then show ?case using Cons.IH [of "w @ [t]"] Cons.prems by (simp add: called_def)
qed simp

lemma pending_function:
  assumes "kinv st" "k_timers st t = Some tm" "timer_pending tm"
  shows "t_function tm \<noteq> None"
proof -
  have en: "entries_ok st b 0" and bk: "buckets_ok st" for b using assms(1) by (simp_all add: kinv_def kinv_heads_def)
  obtain l where l: "t_entry tm = Some l" using assms(3) by (auto simp: timer_pending_def)
  have "\<exists>b idx. t \<in> set (bucket_list st b idx)"
  proof (cases l)
    case (Bucket b idx)
    then have "t \<in> set (bucket_list st b idx)" using en [of b] assms(2) l unfolding entries_ok_def by fastforce
    then show ?thesis by blast
  next
    case (Head b i)
    then show ?thesis using en [of b] assms(2) l unfolding entries_ok_def by fastforce
  qed
  then obtain b idx where "t \<in> set (bucket_list st b idx)" by blast
  then show ?thesis using in_bucket [OF bk] assms(2) by fastforce
qed

lemma run_timers_log:
  assumes "kapi_ok (k_api st)" "kinv st" "unat (b_clk (k_bases st b)) \<le> unat (k_jiffies st) + 1" "unat (k_jiffies st) + 1 < 2 ^ 63"
  shows "\<exists>ts st'. run_timers log_call b st = Some st' \<and> k_world st' = k_world st @ ts \<and>
    set ts = {t. \<exists>tm. k_timers st t = Some tm \<and> timer_pending tm \<and> get_timer_base (t_flags tm) = b \<and>
      fires_at (unat (b_clk (k_bases st b))) st t \<le> unat (k_jiffies st)}"
proof -
  obtain ts st' where r: "run_timers (world_call b (\<lambda>f t v w. w @ [t])) b st = Some st'"
      "set ts = {t. \<exists>tm. k_timers st t = Some tm \<and> timer_pending tm \<and> get_timer_base (t_flags tm) = b \<and>
        fires_at (unat (b_clk (k_bases st b))) st t \<le> unat (k_jiffies st)}"
      "k_world st' = fold (\<lambda>t. called (\<lambda>f t v w. w @ [t]) (k_timers st) (of_nat (fires_at (unat (b_clk (k_bases st b))) st t) + 1) False t) ts (k_world st)"
    using run_timers_spec [OF assms, of "\<lambda>f t v w. w @ [t]"] by (elim exE conjE) (rule that; assumption)
  have "\<exists>tm. k_timers st t = Some tm \<and> t_function tm \<noteq> None" if "t \<in> set ts" for t
    using that pending_function [OF assms(2)] unfolding r(2) by blast
  then have "k_world st' = k_world st @ ts" unfolding r(3) by (rule fold_log)
  then show ?thesis using r(1,2) unfolding log_call_act [of b] by (intro exI [of _ ts] exI [of _ st']) simp
qed

text \<open>C25: __run_timers, for callbacks that do not touch the timers (they may do anything to the rest of the world, and see
  the base they run on). It returns, and calls the functions of exactly the pending timers of the base whose bucket is
  visited up to the current jiffies, each once, in the order of the visits. Each call sees the clock one past
  the visit, must_forward_clk cleared, and itself as the running timer. Every other timer and base stays as it is, the timers called are no longer
  pending, the invariant is kept, must_forward_clk is cleared if the clock was due, and the clock ends one past the jiffies.\<close>

lemma kern_run_timers:
  assumes "kapi_ok (k_api st)" "kinv st" "unat (b_clk (k_bases st b)) \<le> unat (k_jiffies st) + 1" "unat (k_jiffies st) + 1 < 2 ^ 63"
  shows "\<exists>ts st'. run_timers (world_call b act) b st = Some st' \<and> kinv st' \<and> distinct ts \<and>
    set ts = {t. \<exists>tm. k_timers st t = Some tm \<and> timer_pending tm \<and> get_timer_base (t_flags tm) = b \<and>
      fires_at (unat (b_clk (k_bases st b))) st t \<le> unat (k_jiffies st)} \<and>
    sorted (map (fires_at (unat (b_clk (k_bases st b))) st) ts) \<and>
    k_world st' = fold (\<lambda>t. called act (k_timers st) (of_nat (fires_at (unat (b_clk (k_bases st b))) st t) + 1) False t) ts (k_world st) \<and>
    unat (b_clk (k_bases st' b)) = unat (k_jiffies st) + 1 \<and>
    must_forward_clk (k_bases st' b) = (unat (k_jiffies st) < unat (b_clk (k_bases st b)) \<and> must_forward_clk (k_bases st b)) \<and>
    (\<forall>b'. b' \<noteq> b \<longrightarrow> k_bases st' b' = k_bases st b') \<and>
    (\<forall>t. k_timers st' t = (if t \<in> set ts then map_option (t_entry_update (\<lambda>_. None)) (k_timers st t) else k_timers st t))"
  using run_timers_spec [OF assms] by blast

text \<open>A timer armed for 1500 is called by the run at 1600, at the visit of its bucket at 1504: it sees the clock 1505.\<close>

definition view_act :: "addr list act" where
  "view_act f t v w = (case v of (clk, fwd, running) \<Rightarrow> w @ [t, unat clk])"

lemma armed_1500: "\<exists>st1 tm. mod_timer (kst_at 1000 [1]) 1 1500 = Some (0, st1) \<and> kapi_ok (k_api st1) \<and> kinv st1 \<and> k_world st1 = [] \<and>
  b_clk (k_bases st1 (0, 0)) = 1000 \<and> (\<forall>t. k_timers st1 t = (if t = 1 then Some tm else None)) \<and> timer_pending tm \<and> t_function tm = Some 0 \<and>
  get_timer_base (t_flags tm) = (0, 0) \<and> timer_get_idx tm = calc_wheel_index 1500 1000"
proof -
  have t: "k_timers (kst_at 1000 [1]) 1 = Some (timer_at 0)" "t_function (timer_at 0) \<noteq> None" "\<not> timer_pending (timer_at 0)"
    by (simp_all add: kst_at_def timer_at_def timer_pending_def)
  have run: "map_option (\<lambda>(r, st). (map_option (\<lambda>tm. get_timer_base (t_flags tm)) (k_timers st 1), b_clk (k_bases st (0, 0))))
      (mod_timer (kst_at 1000 [1]) 1 1500) = Some (Some (0, 0), 1000)" by code_simp
  obtain st1 where st1: "mod_timer (kst_at 1000 [1]) 1 1500 = Some (0, st1)" and a: "armed (kst_at 1000 [1]) 1 (timer_at 0) 1500 st1"
    using mod_timer_spec [OF kst_at_api kst_at_kinv(1) t(1,2) kst_at_kinv(2), of 1500 0] t(3) by (auto simp: kept_def mod_timer_def)
  obtain tm where tm: "k_timers st1 1 = Some tm" "timer_pending tm" "t_function tm = Some 0"
      "timer_get_idx tm = calc_wheel_index 1500 (b_clk (k_bases st1 (get_timer_base (t_flags tm))))"
    and u: "\<And>u. u \<noteq> 1 \<Longrightarrow> k_timers st1 u = k_timers (kst_at 1000 [1]) u" and k: "kinv st1" "same_env (kst_at 1000 [1]) st1"
    using a unfolding armed_def by (auto simp: timer_at_def)
  have e: "get_timer_base (t_flags tm) = (0, 0)" "b_clk (k_bases st1 (0, 0)) = 1000" using run st1 tm(1) by simp_all
  have "k_timers st1 u = (if u = 1 then Some tm else None)" for u using tm(1) u [of u] by (simp add: kst_at_def)
  moreover have "k_api st1 = linux_api" "k_world st1 = []" using k(2) by (simp_all add: same_env_def kst_at_def)
  ultimately show ?thesis using st1 k(1) tm(2-4) e by (intro exI [of _ st1] exI [of _ tm]) simp
qed

lemma kern_run_timers_witness:
  "\<exists>st1 st2. mod_timer (kst_at 1000 [1]) 1 1500 = Some (0, st1) \<and>
     run_timers (world_call (0, 0) view_act) (0, 0) (st1\<lparr>k_jiffies := 1600\<rparr>) = Some st2 \<and>
     k_world st2 = [1, 1505] \<and> b_clk (k_bases st2 (0, 0)) = 1601"
proof -
  obtain st1 tm where st1: "mod_timer (kst_at 1000 [1]) 1 1500 = Some (0, st1)" "kapi_ok (k_api st1)" "kinv st1" "k_world st1 = []"
      "b_clk (k_bases st1 (0, 0)) = 1000" "\<And>t. k_timers st1 t = (if t = 1 then Some tm else None)" "timer_pending tm" "t_function tm = Some 0"
      "get_timer_base (t_flags tm) = (0, 0)" "timer_get_idx tm = calc_wheel_index 1500 1000"
    using armed_1500 by blast
  let ?st = "st1\<lparr>k_jiffies := 1600\<rparr>"
  have k: "kinv ?st" using st1(3) same_lists_kinv [of st1 ?st] by (simp add: same_lists_def)
  have "next_visit 1000 (unat (calc_wheel_index 1500 1000)) = 1504" by code_simp
  then have v: "fires_at 1000 ?st 1 = 1504" using st1(6) [of 1] st1(10) by (simp add: fires_at_def)
  have u: "unat (b_clk (k_bases ?st (0, 0))) = 1000" "unat (k_jiffies ?st) = 1600" using st1(5) by simp_all
  obtain ts st2 where r: "run_timers (world_call (0, 0) view_act) (0, 0) ?st = Some st2" "distinct ts"
      "set ts = {t. \<exists>tm. k_timers ?st t = Some tm \<and> timer_pending tm \<and> get_timer_base (t_flags tm) = (0, 0) \<and> fires_at 1000 ?st t \<le> 1600}"
      "k_world st2 = fold (\<lambda>t. called view_act (k_timers ?st) (of_nat (fires_at 1000 ?st t) + 1) False t) ts (k_world ?st)"
      "unat (b_clk (k_bases st2 (0, 0))) = 1601"
    using kern_run_timers [of ?st "(0, 0)" view_act, unfolded u] st1(2) k by auto
  have "set ts = {1}" unfolding r(3) using st1(6,7,9) v by (auto split: if_splits)
  then have "ts = [1]" using r(2) by (cases ts) (auto simp: subset_singleton_iff)
  then have "k_world st2 = [1, 1505]" using r(4) st1(4) st1(6) [of 1] st1(8) v by (simp add: called_def view_act_def)
  moreover have "b_clk (k_bases st2 (0, 0)) = 1601" using r(5) by (simp add: word_unat_eq_iff)
  ultimately show ?thesis using st1(1) r(1) by blast
qed

section \<open>Arming and disarming\<close>

text \<open>C26: mod_timer, mod_timer_pending and timer_reduce return whether the timer was pending. Except where they leave the
  timer as it is, they arm it for the given time, in the bucket that belongs to that time and to the clock of its base.
  No other timer changes, and the invariant is kept.\<close>

lemma kern_mod_timer:
  assumes "kapi_ok (k_api st)" "kinv st" "k_timers st t = Some tm" "t_function tm \<noteq> None" "cpus_ok st"
  shows "\<exists>st'. mod_timer_options st t expires options = Some (if timer_pending tm then 1 else 0, st') \<and>
    (if kept tm expires options then kinv st' \<and> same_env st st' \<and> k_timers st' = k_timers st else armed st t tm expires st')"
  by (rule mod_timer_spec [OF assms])

lemma kern_mod_timer_witness:
  "\<exists>st'. mod_timer (kst_at 1000 [1, 2]) 1 1500 = Some (0, st') \<and> armed (kst_at 1000 [1, 2]) 1 (timer_at 0) 1500 st'"
proof -
  have t: "k_timers (kst_at 1000 [1, 2]) 1 = Some (timer_at 0)" "t_function (timer_at 0) \<noteq> None" "\<not> timer_pending (timer_at 0)"
    by (simp_all add: kst_at_def timer_at_def timer_pending_def)
  show ?thesis using kern_mod_timer [OF kst_at_api kst_at_kinv(1) t(1,2) kst_at_kinv(2), of 1500 0] t(3) by (simp add: kept_def mod_timer_def)
qed

text \<open>
  Del_timer returns whether the timer was pending and takes exactly this timer off its list.\<close>

lemma kern_del_timer:
  assumes "kinv st" "k_timers st t = Some tm"
  shows "\<exists>st'. del_timer st t = Some (if timer_pending tm then 1 else 0, st') \<and> kinv st' \<and> same_env st st' \<and>
    (\<forall>b. b_clk (k_bases st' b) = b_clk (k_bases st b)) \<and> k_timers st' = (k_timers st)(t \<mapsto> tm\<lparr>t_entry := None\<rparr>)"
  by (rule del_timer_spec [OF assms])

lemma kern_del_timer_witness:
  "\<exists>st1 st2. mod_timer (kst_at 1000 [1]) 1 1500 = Some (0, st1) \<and> del_timer st1 1 = Some (1, st2) \<and> kinv st2"
proof -
  have t: "k_timers (kst_at 1000 [1]) 1 = Some (timer_at 0)" "t_function (timer_at 0) \<noteq> None" "\<not> timer_pending (timer_at 0)"
    by (simp_all add: kst_at_def timer_at_def timer_pending_def)
  obtain st1 where st1: "mod_timer (kst_at 1000 [1]) 1 1500 = Some (0, st1)" "armed (kst_at 1000 [1]) 1 (timer_at 0) 1500 st1"
    using mod_timer_spec [OF kst_at_api kst_at_kinv(1) t(1,2) kst_at_kinv(2), of 1500 0] t(3) by (auto simp: kept_def mod_timer_def)
  then obtain tm where "k_timers st1 1 = Some tm" "timer_pending tm" "kinv st1" unfolding armed_def by blast
  then show ?thesis using kern_del_timer [of st1 1 tm] st1(1) by auto
qed

text \<open>A base that runs at the jiffies js, one run after the other. The calls are pairs of a timer and the time of the visit.\<close>

fun run_ticks :: "(nat \<Rightarrow> addr \<Rightarrow> 'w kst \<Rightarrow> 'w kst option) \<Rightarrow> base_id \<Rightarrow> u64 list \<Rightarrow> 'w kst \<Rightarrow> 'w kst option" where
  "run_ticks call b [] st = Some st"
| "run_ticks call b (j # js) st = Option.bind (run_timers call b (st\<lparr>k_jiffies := j\<rparr>)) (run_ticks call b js)"

definition call_all :: "'w act \<Rightarrow> 'w kst \<Rightarrow> (addr \<times> nat) list \<Rightarrow> 'w \<Rightarrow> 'w" where
  "call_all act st = fold (\<lambda>(t, c). called act (k_timers st) (of_nat c + 1) False t)"

definition due_calls :: "'w kst \<Rightarrow> base_id \<Rightarrow> u64 list \<Rightarrow> addr \<Rightarrow> (addr \<times> nat) list" where
  "due_calls st b js t = (case k_timers st t of None \<Rightarrow> []
     | Some tm \<Rightarrow> if timer_pending tm \<and> get_timer_base (t_flags tm) = b \<and> (\<exists>j \<in> set js. fires_at (unat (b_clk (k_bases st b))) st t \<le> unat j)
         then [(t, fires_at (unat (b_clk (k_bases st b))) st t)] else [])"

lemma filter_calls: "distinct ts \<Longrightarrow> filter (\<lambda>(u, c). u = t) (map (\<lambda>u. (u, g u)) ts) = (if t \<in> set ts then [(t, g t)] else [])"
  by (induction ts) auto

lemma called_timers:
  "(\<And>t. map_option (t_entry_update (\<lambda>_. None)) (m' t) = map_option (t_entry_update (\<lambda>_. None)) (m t)) \<Longrightarrow> called act m' = called act m"
proof (intro ext)
  fix c w t u
  assume e: "\<And>t. map_option (t_entry_update (\<lambda>_. None)) (m' t) = map_option (t_entry_update (\<lambda>_. None)) (m t)"
  have "map_option t_function (map_option (t_entry_update (\<lambda>_. None)) (m' t)) = map_option t_function (map_option (t_entry_update (\<lambda>_. None)) (m t))"
    by (simp only: e)
  then have "Option.bind (m' t) t_function = Option.bind (m t) t_function" by (cases "m' t"; cases "m t") simp_all
  then show "called act m' c w t u = called act m c w t u" by (simp add: called_def)
qed

lemma run_ticks_spec:
  assumes "kapi_ok (k_api st)" "kinv st" "sorted (map unat js)"
    "\<And>j. j \<in> set js \<Longrightarrow> unat (b_clk (k_bases st b)) \<le> unat j + 1 \<and> unat j + 1 < 2 ^ 63"
  shows "\<exists>calls st'. run_ticks (world_call b act) b js st = Some st' \<and> k_world st' = call_all act st calls (k_world st) \<and>
    (\<forall>t. filter (\<lambda>(u, c). u = t) calls = due_calls st b js t)"
  using assms
proof (induction js arbitrary: st)
  case Nil
  then show ?case by (intro exI [of _ "[]"] exI [of _ st]) (simp add: call_all_def due_calls_def split: option.split)
next
  case (Cons j js)
  let ?st = "st\<lparr>k_jiffies := j\<rparr>" and ?clk = "unat (b_clk (k_bases st b))"
  have api: "kapi_ok (k_api ?st)" using Cons.prems(1) by simp
  have k: "kinv ?st" using Cons.prems(2) same_lists_kinv [of st ?st] by (simp add: same_lists_def)
  have fa: "fires_at c ?st = fires_at c st" for c by (simp add: fires_at_def fun_eq_iff)
  have kt: "k_timers ?st = k_timers st" "k_bases ?st = k_bases st" "k_jiffies ?st = j" "k_world ?st = k_world st" "k_api ?st = k_api st" by simp_all
  have j: "?clk \<le> unat j + 1" "unat j + 1 < 2 ^ 63" using Cons.prems(4) [of j] by simp_all
  obtain ts st1 where r: "run_timers (world_call b act) b ?st = Some st1" "kinv st1" "distinct ts"
      "set ts = {t. \<exists>tm. k_timers st t = Some tm \<and> timer_pending tm \<and> get_timer_base (t_flags tm) = b \<and> fires_at ?clk st t \<le> unat j}"
      "k_world st1 = fold (\<lambda>t. called act (k_timers st) (of_nat (fires_at ?clk st t) + 1) False t) ts (k_world st)"
      "unat (b_clk (k_bases st1 b)) = unat j + 1" "k_api st1 = k_api st"
      "\<And>t. k_timers st1 t = (if t \<in> set ts then map_option (t_entry_update (\<lambda>_. None)) (k_timers st t) else k_timers st t)"
    using run_timers_spec [OF api k, of b act, unfolded fa kt, OF j] by blast
  have "sorted (map unat js)" and "unat j \<le> unat j'" if "j' \<in> set js" for j' using Cons.prems(3) that by auto
  then have "\<exists>calls st'. run_ticks (world_call b act) b js st1 = Some st' \<and> k_world st' = call_all act st1 calls (k_world st1) \<and>
      (\<forall>t. filter (\<lambda>(u, c). u = t) calls = due_calls st1 b js t)"
    using Cons.IH [of st1] Cons.prems(1,3,4) r(2,6,7) by auto
  then obtain calls st2 where q: "run_ticks (world_call b act) b js st1 = Some st2" "k_world st2 = call_all act st1 calls (k_world st1)"
      "\<And>t. filter (\<lambda>(u, c). u = t) calls = due_calls st1 b js t" by blast
  let ?calls = "map (\<lambda>u. (u, fires_at ?clk st u)) ts @ calls"
  have "called act (k_timers st1) = called act (k_timers st)"
    by (rule called_timers) (simp add: r(8) option.map_comp comp_def)
  then have "k_world st2 = call_all act st ?calls (k_world st)"
    using q(2) r(5) by (simp add: call_all_def fold_map comp_def)
  moreover have "filter (\<lambda>(u, c). u = t) ?calls = due_calls st b (j # js) t" for t
  proof (cases "t \<in> set ts")
    case True
    then obtain tm where "k_timers st t = Some tm" "timer_pending tm" "get_timer_base (t_flags tm) = b" "fires_at ?clk st t \<le> unat j"
      using r(4) by blast
    then show ?thesis using True filter_calls [OF r(3), of t] q(3) [of t] r(8) [of t] by (simp add: due_calls_def timer_pending_def)
  next
    case False
    have "due_calls st1 b js t = due_calls st b (j # js) t"
    proof (cases "k_timers st t")
      case None
      then show ?thesis using False r(8) [of t] by (simp add: due_calls_def)
    next
      case (Some tm)
      show ?thesis
      proof (cases "timer_pending tm \<and> get_timer_base (t_flags tm) = b")
        case T: True
        then have "unat j < fires_at ?clk st t" using False Some r(4) by auto
        moreover from this have "fires_at (unat j + 1) st1 t = fires_at ?clk st t"
          using Some r(8) [of t] False j(1) next_visit_later [of ?clk "unat j + 1" "unat (timer_get_idx tm)"] by (simp add: fires_at_def)
        ultimately show ?thesis using Some T r(6) r(8) [of t] False by (auto simp: due_calls_def)
      qed (use Some r(8) [of t] False in \<open>auto simp: due_calls_def\<close>)
    qed
    then show ?thesis using False filter_calls [OF r(3), of t] q(3) [of t] by simp
  qed
  moreover have "run_ticks (world_call b act) b (j # js) st = Some st2" using r(1) q(1) by simp
  ultimately show ?case by blast
qed

text \<open>A timer that mod_timer has just armed is called once, at the first visit of its bucket.\<close>

lemma armed_called:
  assumes api: "kapi_ok (k_api st)" and st: "kinv st" "k_timers st t = Some tm" "t_function tm \<noteq> None" "cpus_ok st" "\<not> kept tm expires 0"
    and m: "mod_timer st t expires = Some (r, st1)" and base: "map_option (\<lambda>tm. get_timer_base (t_flags tm)) (k_timers st1 t) = Some b"
    and js: "sorted (map unat js)" "\<forall>j \<in> set js. unat (b_clk (k_bases st1 b)) \<le> unat j + 1 \<and> unat j + 1 < 2 ^ 63"
    and v: "v = next_visit (unat (b_clk (k_bases st1 b))) (unat (calc_wheel_index expires (b_clk (k_bases st1 b))))"
  shows "\<exists>calls st2. run_ticks (world_call b act) b js st1 = Some st2 \<and> k_world st2 = call_all act st1 calls (k_world st1) \<and>
    filter (\<lambda>(u, c). u = t) calls = (if \<exists>j \<in> set js. v \<le> unat j then [(t, v)] else [])"
proof -
  have a: "armed st t tm expires st1" using mod_timer_spec [OF api st(1,2,3,4), of expires 0] st(5) m by (simp add: mod_timer_def)
  obtain tm1 where tm1: "kinv st1" "k_timers st1 t = Some tm1" "timer_pending tm1" "timer_get_idx tm1 = calc_wheel_index expires (b_clk (k_bases st1 b))"
      "get_timer_base (t_flags tm1) = b"
    using a base unfolding armed_def by fastforce
  have "kapi_ok (k_api st1)" using a api by (simp add: armed_def same_env_def)
  moreover have "fires_at (unat (b_clk (k_bases st1 b))) st1 t = v" using tm1(2,4) v by (simp add: fires_at_def)
  then have "due_calls st1 b js t = (if \<exists>j \<in> set js. v \<le> unat j then [(t, v)] else [])" using tm1(2,3,5) by (simp add: due_calls_def)
  ultimately show ?thesis using run_ticks_spec [of st1 js b act] tm1(1) js by metis
qed

text \<open>C24: A timer that mod_timer arms less than 63 * 8^7 jiffies ahead of the clock of its base, and that nothing touches
  afterwards while the base runs at any ascending jiffies js (with callbacks that do not touch the timers): there is a
  time v after its expiry, by at most one jiffy or, if that is more, by 8/63 of the time that was left, such that the
  first run at or after v calls it, and nothing else does. So it is called once, never at a jiffy up to its expiry.\<close>

lemma kern_armed_fires:
  assumes api: "kapi_ok (k_api st)" and st: "kinv st" "k_timers st t = Some tm" "t_function tm \<noteq> None" "cpus_ok st" "\<not> kept tm expires 0"
    and m: "mod_timer st t expires = Some (r, st1)" and base: "map_option (\<lambda>tm. get_timer_base (t_flags tm)) (k_timers st1 t) = Some b"
    and js: "sorted (map unat js)" "\<forall>j \<in> set js. unat (b_clk (k_bases st1 b)) \<le> unat j + 1 \<and> unat j + 1 < 2 ^ 63"
    and near: "unat (b_clk (k_bases st1 b)) \<le> unat expires" "unat expires - unat (b_clk (k_bases st1 b)) < 63 * 8 ^ 7"
  shows "\<exists>v calls st2. unat expires < v \<and> v \<le> unat expires + max 1 (8 * (unat expires - unat (b_clk (k_bases st1 b))) div 63) \<and>
    run_ticks (world_call b act) b js st1 = Some st2 \<and> k_world st2 = call_all act st1 calls (k_world st1) \<and>
    filter (\<lambda>(u, c). u = t) calls = (if \<exists>j \<in> set js. v \<le> unat j then [(t, v)] else [])"
  using wheel_bucket [OF near] armed_called [OF api st m base js refl, of act] by blast

lemma kern_armed_fires_witness:
  "\<exists>st1 v calls st2. mod_timer (kst_at 1000 [1]) 1 1500 = Some (0, st1) \<and> 1500 < v \<and> v \<le> 1563 \<and>
     run_ticks (world_call (0, 0) view_act) (0, 0) [1490, 1500, 1570, 1600] st1 = Some st2 \<and>
     k_world st2 = call_all view_act st1 calls [] \<and> filter (\<lambda>(u, c). u = 1) calls = [(1, v)]"
proof -
  have t: "k_timers (kst_at 1000 [1]) 1 = Some (timer_at 0)" "t_function (timer_at 0) \<noteq> None" "\<not> kept (timer_at 0) 1500 0"
    by (simp_all add: kst_at_def timer_at_def timer_pending_def kept_def)
  obtain st1 tm where st1: "mod_timer (kst_at 1000 [1]) 1 1500 = Some (0, st1)" "k_world st1 = []" "b_clk (k_bases st1 (0, 0)) = 1000"
      "k_timers st1 1 = Some tm" "get_timer_base (t_flags tm) = (0, 0)"
    using armed_1500 by auto
  have b: "map_option (\<lambda>tm. get_timer_base (t_flags tm)) (k_timers st1 1) = Some (0, 0)" using st1(4,5) by simp
  have c: "unat (b_clk (k_bases st1 (0, 0))) = 1000" using st1(3) by simp
  obtain v calls st2 where r: "1500 < v" "v \<le> 1563" "run_ticks (world_call (0, 0) view_act) (0, 0) [1490, 1500, 1570, 1600] st1 = Some st2"
      "k_world st2 = call_all view_act st1 calls (k_world st1)"
      "filter (\<lambda>(u, c). u = 1) calls = (if \<exists>j \<in> set [1490, 1500, 1570, 1600 :: u64]. v \<le> unat j then [(1, v)] else [])"
    using kern_armed_fires [OF kst_at_api kst_at_kinv(1) t(1,2) kst_at_kinv(2) t(3) st1(1) b, of "[1490, 1500, 1570, 1600]" view_act, unfolded c]
    by auto
  moreover have "\<exists>j \<in> set [1490, 1500, 1570, 1600 :: u64]. v \<le> unat j" using r(2) by simp
  ultimately show ?thesis using st1(1,2) by (intro exI [of _ st1] exI [of _ v] exI [of _ calls] exI [of _ st2]) simp
qed

text \<open>The bucket 575 comes round every 2^30 jiffies.\<close>

lemma next_visit_575: "next_visit clk 575 < clk + 2 ^ 30" "clk mod 2 ^ 30 = 63 * 2 ^ 24 \<Longrightarrow> next_visit clk 575 = clk"
proof -
  define c where "c = (clk + (2 ^ 24 - 1)) div 2 ^ 24"
  have v: "next_visit clk 575 = (c + (63 + 64 - c mod 64) mod 64) * 2 ^ 24" by (simp add: next_visit_def ceil_clk_def c_def Let_def)
  have "c * 2 ^ 24 \<le> clk + (2 ^ 24 - 1)" unfolding c_def by (rule div_times_less_eq_dividend)
  moreover have "(63 + 64 - c mod 64) mod 64 \<le> 63" using mod_less_divisor [of 64 "63 + 64 - c mod 64"] by linarith
  ultimately show "next_visit clk 575 < clk + 2 ^ 30" unfolding v by (simp add: add_mult_distrib)
  show "next_visit clk 575 = clk" if m: "clk mod 2 ^ 30 = 63 * 2 ^ 24"
  proof -
    define q where "q = clk div 2 ^ 30"
    have "clk = 2 ^ 30 * q + 63 * 2 ^ 24" unfolding q_def m [symmetric] by (rule mult_div_mod_eq [symmetric])
    then have clk: "clk = (64 * q + 63) * 2 ^ 24" by simp
    then have "c = 64 * q + 63" by (simp add: c_def)
    then show ?thesis using v clk by (simp add: mod_add_left_eq [symmetric])
  qed
qed

text \<open>C29: A timer that mod_timer arms at least 63 * 8^7 jiffies ahead of the clock of its base, for an absolute expiry at or above
  the cutoff 63 * 2^24, goes into the bucket 575 whatever its expiry is, and is called by the first run at or after the next visit
  v of that bucket: less than 2^30 jiffies later, and at the very clock time it was armed at when the clock is 63 * 2^24 modulo
  2^30. The code compares and replaces the absolute time where it means the distance.\<close>

lemma kern_last_level_early:
  assumes api: "kapi_ok (k_api st)" and st: "kinv st" "k_timers st t = Some tm" "t_function tm \<noteq> None" "cpus_ok st" "\<not> kept tm expires 0"
    and m: "mod_timer st t expires = Some (r, st1)" and base: "map_option (\<lambda>tm. get_timer_base (t_flags tm)) (k_timers st1 t) = Some b"
    and js: "sorted (map unat js)" "\<forall>j \<in> set js. unat (b_clk (k_bases st1 b)) \<le> unat j + 1 \<and> unat j + 1 < 2 ^ 63"
    and far: "63 * 8 ^ 7 \<le> unat (expires - b_clk (k_bases st1 b))" "unat (expires - b_clk (k_bases st1 b)) < 2 ^ 63" "63 * 2 ^ 24 \<le> unat expires"
  shows "\<exists>v calls st2. unat (calc_wheel_index expires (b_clk (k_bases st1 b))) = 575 \<and> v < unat (b_clk (k_bases st1 b)) + 2 ^ 30 \<and>
    (unat (b_clk (k_bases st1 b)) mod 2 ^ 30 = 63 * 2 ^ 24 \<longrightarrow> v = unat (b_clk (k_bases st1 b))) \<and>
    run_ticks (world_call b act) b js st1 = Some st2 \<and> k_world st2 = call_all act st1 calls (k_world st1) \<and>
    filter (\<lambda>(u, c). u = t) calls = (if \<exists>j \<in> set js. v \<le> unat j then [(t, v)] else [])"
proof -
  have "expires \<ge> WHEEL_TIMEOUT_CUTOFF" using far(3) by (simp add: cutoffs word_le_nat_alt)
  then have "calc_wheel_index expires (b_clk (k_bases st1 b)) = calc_index (ucast WHEEL_TIMEOUT_MAX) 8" using index_far [OF far(1,2)] by simp
  then have i: "unat (calc_wheel_index expires (b_clk (k_bases st1 b))) = 575"
    using calc_index_unat [of 8 WHEEL_TIMEOUT_MAX] by (simp add: cutoffs quot_def)
  let ?v = "next_visit (unat (b_clk (k_bases st1 b))) 575"
  have "?v = next_visit (unat (b_clk (k_bases st1 b))) (unat (calc_wheel_index expires (b_clk (k_bases st1 b))))" by (simp only: i)
  from armed_called [OF api st m base js this, of act] show ?thesis using i next_visit_575 by blast
qed

text \<open>Armed 8 * 2^24 jiffies ahead, a timer is called by a run at the current jiffy.\<close>

lemma kern_last_level_early_witness:
  "\<exists>st1 calls st2. mod_timer (kst_at (63 * 2 ^ 24) [1]) 1 (71 * 2 ^ 24) = Some (0, st1) \<and>
     run_ticks (world_call (0, 0) view_act) (0, 0) [63 * 2 ^ 24] st1 = Some st2 \<and>
     k_world st2 = call_all view_act st1 calls (k_world st1) \<and> filter (\<lambda>(u, c). u = 1) calls = [(1, 63 * 2 ^ 24)]"
proof -
  let ?st = "kst_at (63 * 2 ^ 24) [1]"
  have t: "k_timers ?st 1 = Some (timer_at 0)" "t_function (timer_at 0) \<noteq> None" "\<not> kept (timer_at 0) (71 * 2 ^ 24) 0"
    by (simp_all add: kst_at_def timer_at_def timer_pending_def kept_def)
  have "map_option (\<lambda>(r, st). (r, map_option (\<lambda>tm. get_timer_base (t_flags tm)) (k_timers st 1), b_clk (k_bases st (0, 0))))
      (mod_timer ?st 1 (71 * 2 ^ 24)) = Some (0, Some (0, 0), 63 * 2 ^ 24)" by code_simp
  then obtain st1 where st1: "mod_timer ?st 1 (71 * 2 ^ 24) = Some (0, st1)"
      "map_option (\<lambda>tm. get_timer_base (t_flags tm)) (k_timers st1 1) = Some (0, 0)" "b_clk (k_bases st1 (0, 0)) = 63 * 2 ^ 24"
    by auto
  obtain v calls st2 where r: "v = 63 * 2 ^ 24" "run_ticks (world_call (0, 0) view_act) (0, 0) [63 * 2 ^ 24] st1 = Some st2"
      "k_world st2 = call_all view_act st1 calls (k_world st1)"
      "filter (\<lambda>(u, c). u = 1) calls = (if \<exists>j \<in> set [63 * 2 ^ 24 :: u64]. v \<le> unat j then [(1, v)] else [])"
    using kern_last_level_early [OF kst_at_api kst_at_kinv(1) t(1,2) kst_at_kinv(2) t(3) st1(1,2), of "[63 * 2 ^ 24]" view_act, unfolded st1(3)]
    by auto
  then show ?thesis using st1(1) by auto
qed

section \<open>A CPU that goes offline\<close>

text \<open>timers_dead_cpu moves every pending timer of the bases of the dead CPU to the base of the same kind of the CPU that
  runs, with its expiry time and function, into the bucket of that time and of the clock there. It leaves no timer
  behind, changes no other timer and keeps the invariant.\<close>

lemma kern_dead_cpu:
  assumes "kinv st" "cpus_ok st" "cpu \<noteq> k_cpu st" "running_timer (k_bases st (cpu, 0)) = None" "running_timer (k_bases st (cpu, 1)) = None"
  shows "\<exists>st'. timers_dead_cpu st cpu = Some st' \<and> rehomed st cpu {0, 1} (k_cpu st) st'"
  by (rule timers_dead_spec [OF assms])

lemma kern_dead_cpu_witness:
  "\<exists>st1 st2. mod_timer (kst_at 1000 [1]) 1 1500 = Some (0, st1) \<and> timers_dead_cpu (st1\<lparr>k_cpu := 1\<rparr>) 0 = Some st2 \<and>
     rehomed (st1\<lparr>k_cpu := 1\<rparr>) 0 {0, 1} 1 st2"
proof -
  have t: "k_timers (kst_at 1000 [1]) 1 = Some (timer_at 0)" "t_function (timer_at 0) \<noteq> None" "\<not> timer_pending (timer_at 0)"
    by (simp_all add: kst_at_def timer_at_def timer_pending_def)
  obtain st1 where st1: "mod_timer (kst_at 1000 [1]) 1 1500 = Some (0, st1)" "armed (kst_at 1000 [1]) 1 (timer_at 0) 1500 st1"
    using mod_timer_spec [OF kst_at_api kst_at_kinv(1) t(1,2) kst_at_kinv(2), of 1500 0] t(3) by (auto simp: kept_def mod_timer_def)
  let ?st = "st1\<lparr>k_cpu := 1\<rparr>"
  have "kinv ?st" using st1(2) same_lists_kinv [of st1 ?st] by (simp add: armed_def same_lists_def)
  moreover have "cpus_ok ?st" using st1(2) kst_at_kinv(2) [of 1000 "[1]"] by (simp add: armed_def same_env_def cpus_ok_def)
  moreover have "running_timer (k_bases ?st b) = None" for b using st1(2) by (simp add: armed_def same_env_def kst_at_def base_at_def)
  ultimately show ?thesis using kern_dead_cpu [of ?st 0] st1(1) by auto
qed

section \<open>Rounding\<close>

text \<open>Rounding gives back the given time, or else a time after the current jiffies that is a full second, shifted back by
  three jiffies for each CPU number: at most a second later than the given time and less than a quarter of a second earlier,
  and later than it when rounding up.\<close>

lemma unat_of_nat64: "n < 2 ^ 64 \<Longrightarrow> unat (of_nat n :: u64) = n"
  by (simp add: unsigned_of_nat take_bit_nat_eq_self)

lemma kern_round_jiffies:
  fixes api :: kapi and jiffies j :: u64 and cpu :: nat and force_up :: bool
  assumes "1000 \<le> unat j" "unat j + 3 * cpu + 1000 < 2 ^ 64"
  defines "r \<equiv> round_jiffies_common api jiffies j cpu force_up"
  shows "r = j \<or> time_before api jiffies r \<and> (unat r + 3 * cpu) mod HZ = 0 \<and> unat r \<le> unat j + HZ \<and>
    (if force_up then unat j < unat r else unat j < unat r + HZ div 4)"
proof -
  define x rm where "x = unat j + 3 * cpu" and "rm = x mod 1000"
  let ?r = "if rm < 250 \<and> \<not> force_up then j + of_nat (cpu * 3) - of_nat rm - of_nat (cpu * 3)
    else j + of_nat (cpu * 3) - of_nat rm + of_nat HZ - of_nat (cpu * 3)"
  have rm: "rm < 1000" "x = 1000 * (x div 1000) + rm" by (simp_all add: rm_def)
  have c: "unat (of_nat (cpu * 3) :: u64) = 3 * cpu" using unat_of_nat64 [of "cpu * 3"] assms(2) by simp
  have x: "unat (j + of_nat (cpu * 3)) = x" using unat_add_small [of j "of_nat (cpu * 3)"] assms(2) c by (simp add: x_def)
  have a: "?r = (if rm < 250 \<and> \<not> force_up then j - of_nat rm else j - of_nat rm + of_nat HZ)" by simp
  have n: "unat (of_nat rm :: u64) = rm" "unat (of_nat HZ :: u64) = 1000" using rm(1) by (simp_all add: unsigned_of_nat take_bit_nat_eq_self HZ_def)
  have u: "unat (j - of_nat rm) = unat j - rm" using unat_diff [of "of_nat rm" j] assms(1) rm(1) n(1) by simp
  have v: "unat (j - of_nat rm + of_nat HZ) = unat j - rm + 1000"
    using unat_add_small [of "j - of_nat rm" "of_nat HZ"] u n(2) assms(2) by simp
  have r: "r = (if time_before api jiffies ?r then ?r else j)"
    unfolding r_def round_jiffies_common_def Let_def x rm_def [symmetric] HZ_def by (simp only: rm_def) simp
  have "unat ?r = (if rm < 250 \<and> \<not> force_up then unat j - rm else unat j - rm + 1000)" unfolding a by (simp add: u v)
  moreover have "(unat j - rm + 3 * cpu) mod 1000 = 0" "(unat j - rm + 1000 + 3 * cpu) mod 1000 = 0"
  proof -
    have "unat j - rm + 3 * cpu = 1000 * (x div 1000)" using rm assms(1) x_def by linarith
    moreover have "unat j - rm + 1000 + 3 * cpu = 1000 * (x div 1000 + 1)" using calculation by auto
    ultimately show "(unat j - rm + 3 * cpu) mod 1000 = 0" "(unat j - rm + 1000 + 3 * cpu) mod 1000 = 0" by (simp_all only: mod_mult_self1_is_0)
  qed
  ultimately show ?thesis using r rm(1) assms(1) by (auto simp: HZ_def)
qed

section \<open>A clock that goes back\<close>

text \<open>Every call of mod_timer keeps the invariant, and the functions.\<close>

definition kernel_ok :: "'w kst \<Rightarrow> bool" where
  "kernel_ok st \<longleftrightarrow> kapi_ok (k_api st) \<and> kinv st \<and> cpus_ok st \<and> (\<forall>t tm. k_timers st t = Some tm \<longrightarrow> t_function tm \<noteq> None)"

lemma mod_timer_ok:
  assumes "kernel_ok st" "mod_timer st t expires = Some (r, st')"
  shows "kernel_ok st'"
proof -
  have api: "kapi_ok (k_api st)" and k: "kinv st" "cpus_ok st" "\<And>t tm. k_timers st t = Some tm \<Longrightarrow> t_function tm \<noteq> None" using assms(1) unfolding kernel_ok_def by blast+
  obtain tm where t: "k_timers st t = Some tm"
    using assms(2) by (cases "k_timers st t") (simp_all add: mod_timer_def mod_timer_options_def)
  have s: "if kept tm expires 0 then kinv st' \<and> same_env st st' \<and> k_timers st' = k_timers st else armed st t tm expires st'"
    using mod_timer_spec [OF api k(1) t k(3) [OF t] k(2), of expires 0] assms(2) by (simp add: mod_timer_def)
  have "kinv st' \<and> same_env st st'" using s unfolding armed_def by presburger
  moreover have "t_function tm' \<noteq> None" if "k_timers st' u = Some tm'" for u tm'
  proof (cases "u = t \<and> \<not> kept tm expires 0")
    case True
    then have "armed st t tm expires st'" using s by presburger
    then show ?thesis using True that k(3) [OF t] unfolding armed_def by auto
  next
    case False
    then have "k_timers st' u = k_timers st u" using s unfolding armed_def by metis
    then show ?thesis using that k(3) by simp
  qed
  moreover have "kapi_ok (k_api st')" using calculation(1) api by (simp add: same_env_def)
  ultimately show ?thesis using same_env_cpus k(2) unfolding kernel_ok_def by blast
qed

lemma kst_at_ok: "kernel_ok (kst_at j ts)"
proof -
  have "k_timers (kst_at j ts) t = (if t \<in> set ts then Some (timer_at 0) else None)" for t
    by (induction ts) (auto simp: kst_at_def)
  then show ?thesis using kst_at_kinv unfolding kernel_ok_def by (simp add: timer_at_def)
qed

lemma idle_ok:
  assumes "kernel_ok st" "get_next_timer_interrupt mx tick off hr st basej basem = (e, st')"
  shows "kernel_ok st'"
proof -
  have "same_lists st st' \<and> same_env st st'"
    using assms(2) by (auto simp: get_next_timer_interrupt_def Let_def same_lists_def same_env_def split: if_splits prod.splits)
  moreover from this have "k_api st' = k_api st" by (simp add: same_env_def)
  ultimately show ?thesis using assms(1) same_lists_kinv [of st st'] same_env_cpus [of st st'] by (simp add: kernel_ok_def same_lists_def)
qed

lemma env_ok:
  assumes "kernel_ok st"
  shows "c < 2 ^ 18 \<Longrightarrow> kernel_ok (st\<lparr>k_cpu := c, k_migration := m\<rparr>)" "kernel_ok (st\<lparr>k_jiffies := j\<rparr>)"
  using assms same_lists_kinv [of st "st\<lparr>k_cpu := c, k_migration := m\<rparr>"] same_lists_kinv [of st "st\<lparr>k_jiffies := j\<rparr>"]
  by (simp_all add: kernel_ok_def same_lists_def cpus_ok_def)

text \<open>At jiffy 1000, CPU 0 goes idle. CPU 1 arms timer 1 for the time 1050 and timer 2 for the past time 900 on CPU 0, and two
  jiffies later timer 3. The result holds the clock of CPU 0 before and after the last call.\<close>

definition rewind_run :: "(u64 \<times> u64 \<times> addr list kst) option" where
  "rewind_run = (let (_, st) = get_next_timer_interrupt (- 1) 1000000 False (- 1) (kst_at 1000 [1, 2, 3]) 1000 0 in do {
     (_, st) \<leftarrow> mod_timer (st\<lparr>k_cpu := 1, k_migration := True\<rparr>) 1 1050;
     (_, st) \<leftarrow> mod_timer st 2 900;
     (_, st') \<leftarrow> mod_timer (st\<lparr>k_jiffies := 1002\<rparr>) 3 1300;
     Some (b_clk (k_bases st (0, 0)), b_clk (k_bases st' (0, 0)), st')
   })"

lemma rewind_run_ok: "rewind_run = Some (c, c', st) \<Longrightarrow> kernel_ok st"
proof -
  assume run: "rewind_run = Some (c, c', st)"
  obtain e st0 where g: "get_next_timer_interrupt (- 1) 1000000 False (- 1) (kst_at 1000 [1, 2, 3]) 1000 0 = (e, st0)"
    by (cases "get_next_timer_interrupt (- 1) 1000000 False (- 1) (kst_at 1000 [1, 2, 3]) 1000 0 :: u64 \<times> addr list kst")
  then obtain r1 st1 r2 st2 r3 where m: "mod_timer (st0\<lparr>k_cpu := 1, k_migration := True\<rparr>) 1 1050 = Some (r1, st1)"
      "mod_timer st1 2 900 = Some (r2, st2)" "mod_timer (st2\<lparr>k_jiffies := 1002\<rparr>) 3 1300 = Some (r3, st)"
    using run by (auto simp: rewind_run_def split: bind_splits prod.splits)
  have "kernel_ok (st0\<lparr>k_cpu := 1, k_migration := True\<rparr>)" using idle_ok [OF kst_at_ok g] by (intro env_ok(1)) simp_all
  then have "kernel_ok st2" using m(1,2) mod_timer_ok by blast
  then show ?thesis using m(3) env_ok(2) mod_timer_ok by blast
qed

text \<open>C30: The clock of an idle base can go back: a timer armed for a past time leaves that time in next_expiry, and the next call
  of forward_timer_base assigns it to the clock. Then a timer fires before its time: here the clock goes from 1000 back
  to 900, and the timer for 1050 fires at jiffy 1002.\<close>

lemma kern_clock_rewinds:
  "\<exists>st st' ts. rewind_run = Some (1000, 900, st) \<and> k_jiffies st = 1002 \<and> map_option t_expires (k_timers st 1) = Some 1050 \<and>
     run_timers log_call (0, 0) st = Some st' \<and> k_world st' = ts \<and> 1 \<in> set ts"
proof -
  have "map_option (\<lambda>(c, c', st). (c, c', k_jiffies st, b_clk (k_bases st (0, 0)), k_world st)) rewind_run = Some (1000, 900, 1002, 900, [])"
    by code_simp
  then obtain st where st: "rewind_run = Some (1000, 900, st)" "k_jiffies st = 1002" "b_clk (k_bases st (0, 0)) = 900" "k_world st = []"
    by auto
  have "Option.bind rewind_run (\<lambda>(_, _, st). map_option (\<lambda>tm. (t_expires tm, timer_get_idx tm, timer_pending tm, get_timer_base (t_flags tm))) (k_timers st 1))
      = Some (1050, 27, True, (0, 0))" by code_simp
  from this [unfolded st(1)] obtain tm where tm: "k_timers st 1 = Some tm" "t_expires tm = 1050" "timer_get_idx tm = 27" "timer_pending tm" "get_timer_base (t_flags tm) = (0, 0)"
    by auto
  have k: "kapi_ok (k_api st)" "kinv st" using rewind_run_ok [OF st(1)] by (simp_all add: kernel_ok_def)
  obtain ts st' where r: "run_timers log_call (0, 0) st = Some st'" "k_world st' = k_world st @ ts"
      "set ts = {t. \<exists>tm. k_timers st t = Some tm \<and> timer_pending tm \<and> get_timer_base (t_flags tm) = (0, 0) \<and>
        fires_at (unat (b_clk (k_bases st (0, 0)))) st t \<le> unat (k_jiffies st)}"
    using run_timers_log [OF k, of "(0, 0)"] st(2,3) by auto
  have "fires_at 900 st 1 = 923" using tm(1,3) by (simp add: fires_at_def next_visit_def ceil_clk_def)
  then have "1 \<in> set ts" unfolding r(3) st(2,3) using tm by simp
  then show ?thesis using st r(1,2) tm(1,2) by auto
qed

end
