(* ===== verification/Bsd_Callout.thy ===== *)
theory Bsd_Callout
  imports Prelude
begin

text \<open>
  The callout wheel of the FreeBSD kernel that the article compares Lawn with,
  article/src/c/wheel/kernel_impls/bsd_kern_timeout.c: definitions.

  \<^item> Configuration: SMP and __LP64__ on; CALLOUT_PROFILING, DIAGNOSTIC, KTR, DDB, NO_EVENTTIMERS and
    APM_FIXUP_CALLTODO off. A KASSERT that fails, a panic, a call through a NULL pointer and a loop
    that never ends are None.
  \<^item> sbintime_t is an integer kept in the signed 64 bit range by \<open>i64\<close>, u_int one kept below \<open>2 ^ 32\<close> by
    \<open>u32\<close>. The flag words are the sets of their flags: the values are in sys/callout.h.
  \<^item> struct callout has its list links in \<open>c_links\<close>: the list it is linked into, None when it is in none.
    Removing or stepping from a callout that is in no such list, and linking one that is in a list,
    is undefined (None).
  \<^item> The lock cc_lock is not a value: the code between two lock operations runs alone, and at every point
    where the code lets go of the lock, \<open>others\<close> is what the rest of the system does meanwhile. A callout
    function is \<open>run\<close>. Both are parameters, in the record \<open>benv\<close>, and may change the whole state.
    \<open>b_world\<close> is whatever else they change.
\<close>

section \<open>Integers\<close>

definition i64 :: "int \<Rightarrow> int" where "i64 x = (x + 2 ^ 63) mod 2 ^ 64 - 2 ^ 63"
definition u32 :: "int \<Rightarrow> int" where "u32 x = x mod 2 ^ 32"
definition i32 :: "int \<Rightarrow> int" where "i32 x = (x + 2 ^ 31) mod 2 ^ 32 - 2 ^ 31"

definition SBT_1S :: int where "SBT_1S = 2 ^ 32"
definition SBT_MAX :: int where "SBT_MAX = 2 ^ 63 - 1"
definition CC_HASH_SHIFT :: nat where "CC_HASH_SHIFT = 8"

section \<open>Data\<close>

type_synonym cfunc = nat
type_synonym lockid = nat

datatype cflag = CALLOUT_ACTIVE | CALLOUT_PENDING | CALLOUT_RETURNUNLOCKED | CALLOUT_SHAREDLOCK
  | CALLOUT_DFRMIGRATION | CALLOUT_PROCESSED | CALLOUT_DIRECT

datatype rflag = C_DIRECT_EXEC | C_ABSOLUTE | C_PRECALC | C_HARDCLOCK

datatype sflag = CS_DRAIN | CS_EXECUTING

datatype centry = OnWheel nat int | OnExpireq nat

record callout =
  c_links :: "centry option"
  c_time :: int
  c_precision :: int
  c_arg :: nat
  c_func :: "cfunc option"
  c_lock :: "lockid option"
  c_flags :: "cflag set"
  c_iflags :: "cflag set"
  c_cpu :: nat

record cc_exec =
  cc_curr :: "addr option"
  cc_drain :: "cfunc option"
  cc_last_func :: "cfunc option"
  cc_last_arg :: nat
  ce_migration_func :: "cfunc option"
  ce_migration_arg :: nat
  ce_migration_time :: int
  ce_migration_prec :: int
  ce_migration_cpu :: nat
  cc_cancel :: bool
  cc_waiting :: bool

record callout_cpu =
  cc_exec_entity :: "bool \<Rightarrow> cc_exec"
  cc_next :: "addr option"
  cc_callwheel :: "int \<Rightarrow> addr list"
  cc_expireq :: "addr list"
  cc_firstevent :: int
  cc_lastscan :: int
  cc_bucket :: int
  cc_inited :: bool

text \<open>The calls that leave the file, in order: locks of the callouts, callout functions, drain functions,
  wake-ups of draining threads, the event timer, the software interrupt. The status of a lock is 0, 1 or the
  address of a tracker.\<close>

datatype lstatus = Exclusive | Shared | Tracker

datatype bcall = Lock lockid lstatus | Unlock lockid | Call cfunc nat | Drained cfunc nat | Wakeup nat bool
  | New_callout nat int int | Swi_sched nat

record 'w bsd =
  b_co :: "addr \<Rightarrow> callout"
  b_cc :: "nat \<Rightarrow> callout_cpu"
  callwheelsize :: int
  callwheelmask :: int
  cc_default_cpu :: nat
  b_curcpu :: nat
  b_calls :: "bcall list"
  b_world :: 'w

record 'w benv =
  run :: "cfunc \<Rightarrow> nat \<Rightarrow> 'w bsd \<Rightarrow> 'w bsd option"
  others :: "'w bsd \<Rightarrow> 'w bsd option"
  is_rm :: "lockid \<Rightarrow> bool"
  lock_owned :: "lockid \<Rightarrow> 'w bsd \<Rightarrow> bool"
  Giant :: lockid
  MAXCPU :: nat

definition upd_co :: "addr \<Rightarrow> (callout \<Rightarrow> callout) \<Rightarrow> 'w bsd \<Rightarrow> 'w bsd" where
  "upd_co c f s = s\<lparr>b_co := (b_co s)(c := f (b_co s c))\<rparr>"

definition upd_cc :: "nat \<Rightarrow> (callout_cpu \<Rightarrow> callout_cpu) \<Rightarrow> 'w bsd \<Rightarrow> 'w bsd" where
  "upd_cc cpu f s = s\<lparr>b_cc := (b_cc s)(cpu := f (b_cc s cpu))\<rparr>"

definition exec_of :: "'w bsd \<Rightarrow> nat \<Rightarrow> bool \<Rightarrow> cc_exec" where
  "exec_of s cpu dir = cc_exec_entity (b_cc s cpu) dir"

definition upd_exec :: "nat \<Rightarrow> bool \<Rightarrow> (cc_exec \<Rightarrow> cc_exec) \<Rightarrow> 'w bsd \<Rightarrow> 'w bsd" where
  "upd_exec cpu dir f = upd_cc cpu (\<lambda>cc. cc\<lparr>cc_exec_entity := (cc_exec_entity cc)(dir := f (cc_exec_entity cc dir))\<rparr>)"

definition set_iflag :: "addr \<Rightarrow> cflag \<Rightarrow> 'w bsd \<Rightarrow> 'w bsd" where
  "set_iflag c f = upd_co c (\<lambda>co. co\<lparr>c_iflags := insert f (c_iflags co)\<rparr>)"

definition clear_iflag :: "addr \<Rightarrow> cflag \<Rightarrow> 'w bsd \<Rightarrow> 'w bsd" where
  "clear_iflag c f = upd_co c (\<lambda>co. co\<lparr>c_iflags := c_iflags co - {f}\<rparr>)"

definition set_flag :: "addr \<Rightarrow> cflag \<Rightarrow> 'w bsd \<Rightarrow> 'w bsd" where
  "set_flag c f = upd_co c (\<lambda>co. co\<lparr>c_flags := insert f (c_flags co)\<rparr>)"

definition clear_flag :: "addr \<Rightarrow> cflag \<Rightarrow> 'w bsd \<Rightarrow> 'w bsd" where
  "clear_flag c f = upd_co c (\<lambda>co. co\<lparr>c_flags := c_flags co - {f}\<rparr>)"

definition emit :: "bcall \<Rightarrow> 'w bsd \<Rightarrow> 'w bsd" where
  "emit e s = s\<lparr>b_calls := b_calls s @ [e]\<rparr>"

definition callout_migrating :: "callout \<Rightarrow> bool" where
  "callout_migrating c = (CALLOUT_DFRMIGRATION \<in> c_iflags c)"

section \<open>The lists of callouts\<close>

definition list_insert_head :: "nat \<Rightarrow> int \<Rightarrow> addr \<Rightarrow> 'w bsd \<Rightarrow> 'w bsd option" where
  "list_insert_head cpu b c s =
     (if c_links (b_co s c) \<noteq> None then None
      else Some (upd_cc cpu (\<lambda>cc. cc\<lparr>cc_callwheel := (cc_callwheel cc)(b := c # cc_callwheel cc b)\<rparr>)
        (upd_co c (\<lambda>co. co\<lparr>c_links := Some (OnWheel cpu b)\<rparr>) s)))"

definition list_remove :: "addr \<Rightarrow> 'w bsd \<Rightarrow> 'w bsd option" where
  "list_remove c s =
     (case c_links (b_co s c) of
        Some (OnWheel cpu b) \<Rightarrow>
          Some (upd_cc cpu (\<lambda>cc. cc\<lparr>cc_callwheel := (cc_callwheel cc)(b := remove1 c (cc_callwheel cc b))\<rparr>)
            (upd_co c (\<lambda>co. co\<lparr>c_links := None\<rparr>) s))
      | _ \<Rightarrow> None)"

definition list_next :: "addr \<Rightarrow> 'w bsd \<Rightarrow> addr option option" where
  "list_next c s =
     (case c_links (b_co s c) of
        Some (OnWheel cpu b) \<Rightarrow> Some (first (tl (dropWhile (\<lambda>d. d \<noteq> c) (cc_callwheel (b_cc s cpu) b))))
      | _ \<Rightarrow> None)"

definition tailq_insert_tail :: "nat \<Rightarrow> addr \<Rightarrow> 'w bsd \<Rightarrow> 'w bsd option" where
  "tailq_insert_tail cpu c s =
     (if c_links (b_co s c) \<noteq> None then None
      else Some (upd_cc cpu (\<lambda>cc. cc\<lparr>cc_expireq := cc_expireq cc @ [c]\<rparr>)
        (upd_co c (\<lambda>co. co\<lparr>c_links := Some (OnExpireq cpu)\<rparr>) s)))"

definition expireq_remove :: "addr \<Rightarrow> 'w bsd \<Rightarrow> 'w bsd option" where
  "expireq_remove c s =
     (case c_links (b_co s c) of
        Some (OnExpireq cpu) \<Rightarrow>
          Some (upd_cc cpu (\<lambda>cc. cc\<lparr>cc_expireq := remove1 c (cc_expireq cc)\<rparr>)
            (upd_co c (\<lambda>co. co\<lparr>c_links := None\<rparr>) s))
      | _ \<Rightarrow> None)"

section \<open>Execution entities and the state of a CPU\<close>

definition cce_cleanup :: "nat \<Rightarrow> cc_exec \<Rightarrow> cc_exec" where
  "cce_cleanup cpublock e = e\<lparr>cc_curr := None, cc_cancel := False, cc_waiting := False,
     ce_migration_cpu := cpublock, ce_migration_time := 0, ce_migration_prec := 0,
     ce_migration_func := None, ce_migration_arg := 0\<rparr>"

definition cc_cce_cleanup :: "'w benv \<Rightarrow> nat \<Rightarrow> bool \<Rightarrow> 'w bsd \<Rightarrow> 'w bsd" where
  "cc_cce_cleanup E cpu dir = upd_exec cpu dir (cce_cleanup (MAXCPU E))"

definition cc_cce_migrating :: "'w benv \<Rightarrow> nat \<Rightarrow> bool \<Rightarrow> 'w bsd \<Rightarrow> bool" where
  "cc_cce_migrating E cpu dir s = (ce_migration_cpu (exec_of s cpu dir) \<noteq> MAXCPU E)"

text \<open>The wheels are allocated with M_WAITOK, which does not fail.\<close>

definition callout_cpu_init :: "'w benv \<Rightarrow> nat \<Rightarrow> 'w bsd \<Rightarrow> 'w bsd" where
  "callout_cpu_init E cpu s =
     cc_cce_cleanup E cpu True (cc_cce_cleanup E cpu False
       (upd_cc cpu (\<lambda>cc. cc\<lparr>cc_inited := True, cc_callwheel := (\<lambda>i. []), cc_expireq := [],
          cc_firstevent := SBT_MAX\<rparr>) s))"

text \<open>The width of a positive int: fls of the C library.\<close>

fun bsd_fls :: "nat \<Rightarrow> nat" where
  "bsd_fls n = (if n = 0 then 0 else Suc (bsd_fls (n div 2)))"

declare bsd_fls.simps [simp del]

definition zero_exec :: cc_exec where
  "zero_exec = \<lparr>cc_curr = None, cc_drain = None, cc_last_func = None, cc_last_arg = 0, ce_migration_func = None,
     ce_migration_arg = 0, ce_migration_time = 0, ce_migration_prec = 0, ce_migration_cpu = 0, cc_cancel = False,
     cc_waiting = False\<rparr>"

definition zero_cpu :: callout_cpu where
  "zero_cpu = \<lparr>cc_exec_entity = (\<lambda>d. zero_exec), cc_next = None, cc_callwheel = (\<lambda>b. []), cc_expireq = [],
     cc_firstevent = 0, cc_lastscan = 0, cc_bucket = 0, cc_inited = False\<rparr>"

text \<open>\<open>maxproc\<close> and \<open>maxfiles\<close> are the kernel's limits, \<open>tunable\<close> the value of kern.ncallout if it is set, \<open>cpus\<close>
  the CPUs of CPU_FOREACH. The cc_cpu array is cleared from the entry of the running CPU on; that is the
  first CPU when the kernel starts.\<close>

definition callout_callwheel_init ::
  "'w benv \<Rightarrow> nat \<Rightarrow> nat \<Rightarrow> nat option \<Rightarrow> nat list \<Rightarrow> 'w bsd \<Rightarrow> 'w bsd" where
  "callout_callwheel_init E maxproc maxfiles tunable cpus s =
     (let ncallout = (case tunable of None \<Rightarrow> min (16 + maxproc + maxfiles) 18508 | Some n \<Rightarrow> n);
          size = u32 (2 ^ bsd_fls ncallout);
          s = s\<lparr>b_cc := (\<lambda>cpu. zero_cpu), callwheelsize := size, callwheelmask := u32 (size - 1),
            cc_default_cpu := b_curcpu s\<rparr>
      in fold (callout_cpu_init E) cpus s)"

definition callout_cpu_switch :: "'w benv \<Rightarrow> addr \<Rightarrow> nat \<Rightarrow> 'w bsd \<Rightarrow> 'w bsd option" where
  "callout_cpu_switch E c new_cpu s =
     do {
       s \<leftarrow> others E (upd_co c (\<lambda>co. co\<lparr>c_cpu := MAXCPU E\<rparr>) s);
       Some (upd_co c (\<lambda>co. co\<lparr>c_cpu := new_cpu\<rparr>) s)
     }"

text \<open>The lock of the CPU that the callout belongs to; a callout that stays blocked makes it spin for ever.\<close>

definition callout_lock :: "'w benv \<Rightarrow> addr \<Rightarrow> 'w bsd \<Rightarrow> nat option" where
  "callout_lock E c s = (let cpu = c_cpu (b_co s c) in if cpu = MAXCPU E then None else Some cpu)"

section \<open>Buckets\<close>

definition callout_hash :: "int \<Rightarrow> int" where
  "callout_hash sbt = u32 (sbt div 2 ^ (32 - CC_HASH_SHIFT))"

definition callout_get_bucket :: "'w bsd \<Rightarrow> int \<Rightarrow> int" where
  "callout_get_bucket s sbt = callout_hash sbt AND callwheelmask s"

definition callout_cc_add ::
  "addr \<Rightarrow> nat \<Rightarrow> int \<Rightarrow> int \<Rightarrow> cfunc option \<Rightarrow> nat \<Rightarrow> nat \<Rightarrow> rflag set \<Rightarrow> 'w bsd \<Rightarrow> 'w bsd option" where
  "callout_cc_add c cc sbt precision func arg cpu flags s =
     do {
       let sbt = (if sbt < cc_lastscan (b_cc s cc) then cc_lastscan (b_cc s cc) else sbt);
       let s = upd_co c (\<lambda>co. co\<lparr>c_arg := arg,
             c_iflags := (insert CALLOUT_PENDING (c_iflags co) - {CALLOUT_PROCESSED})
               \<union> (if C_DIRECT_EXEC \<in> flags then {CALLOUT_DIRECT} else {}),
             c_flags := insert CALLOUT_ACTIVE (c_flags co), c_func := func, c_time := sbt,
             c_precision := precision\<rparr>) s;
       let bucket = callout_get_bucket s sbt;
       s \<leftarrow> list_insert_head cc bucket c s;
       let s = (if cc_bucket (b_cc s cc) = bucket then upd_cc cc (\<lambda>cc. cc\<lparr>cc_next := Some c\<rparr>) s else s);
       let precision = (if i64 (SBT_MAX - sbt) < precision then i64 (SBT_MAX - sbt) else precision);
       let s = upd_co c (\<lambda>co. co\<lparr>c_precision := precision\<rparr>) s;
       let max = i64 (sbt + precision);
       Some (if max < cc_firstevent (b_cc s cc)
             then emit (New_callout cpu max sbt) (upd_cc cc (\<lambda>cc. cc\<lparr>cc_firstevent := max\<rparr>) s)
             else s)
     }"

section \<open>Running a callout\<close>

text \<open>Up to the release of the callout lock: what is read from the callout, and the entity of the CPU.\<close>

definition softclock_enter :: "addr \<Rightarrow> nat \<Rightarrow> bool \<Rightarrow> 'w bsd \<Rightarrow> 'w bsd option" where
  "softclock_enter c cc direct s =
     (let co = b_co s c in
      if CALLOUT_PENDING \<notin> c_iflags co \<or> CALLOUT_ACTIVE \<notin> c_flags co then None
      else Some (upd_exec cc direct
        (\<lambda>e. e\<lparr>cc_curr := Some c, cc_last_func := c_func co, cc_last_arg := c_arg co, cc_cancel := False,
               cc_drain := None\<rparr>)
        (clear_iflag c CALLOUT_PENDING s)))"

definition lock_status :: "'w benv \<Rightarrow> callout \<Rightarrow> lstatus" where
  "lock_status E co =
     (if CALLOUT_SHAREDLOCK \<in> c_flags co
      then (if (case c_lock co of None \<Rightarrow> False | Some l \<Rightarrow> is_rm E l) then Tracker else Shared)
      else Exclusive)"

text \<open>From there to the label skip: the lock of the callout, the cancellation, the call. \<open>co\<close> is the callout
  as softclock_call_cc read it.\<close>

definition softclock_invoke :: "'w benv \<Rightarrow> callout \<Rightarrow> nat \<Rightarrow> bool \<Rightarrow> 'w bsd \<Rightarrow> 'w bsd option" where
  "softclock_invoke E co cc direct s =
     do {
       s \<leftarrow> others E s;
       let s = (case c_lock co of None \<Rightarrow> s | Some l \<Rightarrow> emit (Lock l (lock_status E co)) s);
       if c_lock co \<noteq> None \<and> cc_cancel (exec_of s cc direct)
       then Some (emit (Unlock (the (c_lock co))) s)
       else do {
         let s = (if c_lock co \<noteq> None then upd_exec cc direct (\<lambda>e. e\<lparr>cc_cancel := True\<rparr>) s else s);
         f \<leftarrow> c_func co;
         s \<leftarrow> run E f (c_arg co) (emit (Call f (c_arg co)) s);
         if CALLOUT_RETURNUNLOCKED \<in> c_iflags co then Some s
         else (case c_lock co of None \<Rightarrow> None | Some l \<Rightarrow> Some (emit (Unlock l) s))
       }
     }"

text \<open>The drain function that was left for the end of the call.\<close>

definition softclock_drain :: "'w benv \<Rightarrow> callout \<Rightarrow> nat \<Rightarrow> bool \<Rightarrow> 'w bsd \<Rightarrow> 'w bsd option" where
  "softclock_drain E co cc direct s =
     (case cc_drain (exec_of s cc direct) of
        None \<Rightarrow> Some s
      | Some d \<Rightarrow> run E d (c_arg co) (emit (Drained d (c_arg co)) (upd_exec cc direct (\<lambda>e. e\<lparr>cc_drain := None\<rparr>) s)))"

definition softclock_migrate :: "'w benv \<Rightarrow> addr \<Rightarrow> nat \<Rightarrow> bool \<Rightarrow> 'w bsd \<Rightarrow> 'w bsd option" where
  "softclock_migrate E c cc direct s =
     (let e = exec_of s cc direct;
          s = cc_cce_cleanup E cc direct s in
      if \<not> callout_migrating (b_co s c) then Some s
      else do {
        s \<leftarrow> callout_cpu_switch E c (ce_migration_cpu e) (clear_iflag c CALLOUT_DFRMIGRATION s);
        s \<leftarrow> callout_cc_add c (ce_migration_cpu e) (ce_migration_time e) (ce_migration_prec e)
               (ce_migration_func e) (ce_migration_arg e) (ce_migration_cpu e)
               (if direct then {C_DIRECT_EXEC} else {}) s;
        others E s
      })"

definition softclock_leave :: "'w benv \<Rightarrow> addr \<Rightarrow> callout \<Rightarrow> nat \<Rightarrow> bool \<Rightarrow> 'w bsd \<Rightarrow> 'w bsd option" where
  "softclock_leave E c co cc direct s =
     (if cc_curr (exec_of s cc direct) \<noteq> Some c then None
      else do {
        s \<leftarrow> softclock_drain E co cc direct (upd_exec cc direct (\<lambda>e. e\<lparr>cc_curr := None\<rparr>) s);
        if cc_waiting (exec_of s cc direct) then do {
          let s = (if cc_cce_migrating E cc direct s
                   then clear_iflag c CALLOUT_DFRMIGRATION (cc_cce_cleanup E cc direct s) else s);
          others E (emit (Wakeup cc direct) (upd_exec cc direct (\<lambda>e. e\<lparr>cc_waiting := False\<rparr>) s))
        }
        else if cc_cce_migrating E cc direct s then softclock_migrate E c cc direct s
        else Some s
      })"

definition softclock_call_cc :: "'w benv \<Rightarrow> addr \<Rightarrow> nat \<Rightarrow> bool \<Rightarrow> 'w bsd \<Rightarrow> 'w bsd option" where
  "softclock_call_cc E c cc direct s =
     do {
       let co = b_co s c;
       s \<leftarrow> softclock_enter c cc direct s;
       s \<leftarrow> softclock_invoke E co cc direct s;
       softclock_leave E c co cc direct s
     }"

partial_function (option) softclock :: "'w benv \<Rightarrow> nat \<Rightarrow> 'w bsd \<Rightarrow> 'w bsd option" where
  "softclock E cc s =
     (case first (cc_expireq (b_cc s cc)) of
        None \<Rightarrow> Some s
      | Some c \<Rightarrow> do {
          s \<leftarrow> expireq_remove c s;
          s \<leftarrow> softclock_call_cc E c cc False s;
          softclock E cc s
        })"

section \<open>Scanning the wheel\<close>

record scan =
  sc_first :: int
  sc_last :: int
  sc_lastb :: int

text \<open>The rest of the body of the inner loop, for a callout that is not due.\<close>

definition aggregate :: "int \<Rightarrow> int \<Rightarrow> callout \<Rightarrow> scan \<Rightarrow> scan" where
  "aggregate mx nowb co v =
     (if mx \<le> c_time co then v
      else if sc_last v < c_time co then v\<lparr>sc_lastb := nowb\<rparr>
      else let tmp_max = i64 (c_time co + c_precision co) in
        v\<lparr>sc_first := (if c_time co < sc_first v then c_time co else sc_first v),
          sc_last := (if tmp_max < sc_last v then tmp_max else sc_last v)\<rparr>)"

partial_function (option) process_bucket ::
  "'w benv \<Rightarrow> nat \<Rightarrow> int \<Rightarrow> int \<Rightarrow> int \<Rightarrow> int \<Rightarrow> addr option \<Rightarrow> scan \<Rightarrow> 'w bsd \<Rightarrow> (scan \<times> 'w bsd) option" where
  "process_bucket E cc now mx nowb b tmp v s =
     (case tmp of None \<Rightarrow> Some (v, s) | Some c \<Rightarrow>
        do {
          n \<leftarrow> list_next c s;
          let co = b_co s c;
          if c_time co \<le> now then
            if CALLOUT_DIRECT \<in> c_iflags co then do {
              s \<leftarrow> list_remove c (upd_cc cc (\<lambda>cc. cc\<lparr>cc_next := n, cc_bucket := b\<rparr>) s);
              s \<leftarrow> softclock_call_cc E c cc True s;
              process_bucket E cc now mx nowb b (cc_next (b_cc s cc)) v
                (upd_cc cc (\<lambda>cc. cc\<lparr>cc_next := None\<rparr>) s)
            }
            else do {
              s \<leftarrow> list_remove c s;
              s \<leftarrow> tailq_insert_tail cc c s;
              process_bucket E cc now mx nowb b n v (set_iflag c CALLOUT_PROCESSED s)
            }
          else process_bucket E cc now mx nowb b n (aggregate mx nowb co v) s
        })"

partial_function (option) process_buckets ::
  "'w benv \<Rightarrow> nat \<Rightarrow> int \<Rightarrow> int \<Rightarrow> int \<Rightarrow> int \<Rightarrow> scan \<Rightarrow> 'w bsd \<Rightarrow> (scan \<times> 'w bsd) option" where
  "process_buckets E cc now mx nowb firstb v s =
     do {
       let b = firstb AND callwheelmask s;
       (v, s) \<leftarrow> process_bucket E cc now mx nowb b (first (cc_callwheel (b_cc s cc) b)) v s;
       let firstb = u32 (firstb + 1);
       if i32 (firstb - sc_lastb v) \<le> 0 then process_buckets E cc now mx nowb firstb v s else Some (v, s)
     }"

text \<open>The buckets and times that the scan starts with: the number of the bucket of the present time, the
  last bucket to look at, and the bound of the times that are looked at.\<close>

definition process_range :: "int \<Rightarrow> int \<Rightarrow> int \<Rightarrow> int \<times> int \<times> int \<times> int" where
  "process_range wsize firstb now =
     (let nowb = callout_hash now;
          lookahead = (if nowb = firstb then SBT_1S div 16
                       else if u32 (nowb - firstb) = 1 then SBT_1S div 8 else SBT_1S div 2);
          first = i64 (now + lookahead div 2);
          last = i64 (now + lookahead);
          last = last - last mod 2 ^ (32 - CC_HASH_SHIFT);
          lastb = u32 (callout_hash last - 1)
      in if wsize \<le> u32 (lastb - firstb)
         then (let lastb = u32 (firstb + wsize - 1)
               in (if wsize \<le> u32 (nowb - firstb) then lastb else nowb, lastb, first, last))
         else (nowb, lastb, first, last))"

definition callout_process :: "'w benv \<Rightarrow> int \<Rightarrow> 'w bsd \<Rightarrow> 'w bsd option" where
  "callout_process E now s =
     do {
       let cc = b_curcpu s;
       let firstb = callout_hash (cc_lastscan (b_cc s cc));
       let s = upd_cc cc (\<lambda>cc. cc\<lparr>cc_lastscan := now\<rparr>) s;
       let (nowb, lastb, first, last) = process_range (callwheelsize s) firstb now;
       (v, s) \<leftarrow> process_buckets E cc now last nowb firstb
                  \<lparr>sc_first = first, sc_last = last, sc_lastb = lastb\<rparr> s;
       let s = upd_cc cc (\<lambda>cc. cc\<lparr>cc_firstevent := sc_last v\<rparr>) s;
       let s = emit (New_callout cc (sc_last v) (sc_first v)) s;
       Some (if cc_expireq (b_cc s cc) \<noteq> [] then emit (Swi_sched cc) s else s)
     }"

declare softclock.simps [code] process_bucket.simps [code] process_buckets.simps [code]

end
