(* ===== verification/Bsd_Reset.thy ===== *)
theory Bsd_Reset
  imports Bsd_Callout
begin

text \<open>
  The operations of bsd_kern_timeout.c that clients call: callout_init and _callout_init_lock,
  callout_when, callout_reset_sbt_on and _callout_stop_safe.

  \<open>ktime\<close> holds the clock readings and kernel variables that callout_when uses: sbinuptime(), the time
  of the last hardclock(), tick_sbt, sbt_tickthreshold, tc_precexp and cold. C_PRELGET(flags) is the
  field \<open>prelget\<close> of the flags: the encoding is in sys/callout.h.
\<close>

section \<open>Initialisation\<close>

definition zero_callout :: callout where
  "zero_callout = \<lparr>c_links = None, c_time = 0, c_precision = 0, c_arg = 0, c_func = None, c_lock = None,
     c_flags = {}, c_iflags = {}, c_cpu = 0\<rparr>"

definition callout_init :: "'w benv \<Rightarrow> addr \<Rightarrow> bool \<Rightarrow> 'w bsd \<Rightarrow> 'w bsd" where
  "callout_init E c mpsafe s =
     upd_co c (\<lambda>co. zero_callout\<lparr>c_lock := (if mpsafe then None else Some (Giant E)),
       c_iflags := (if mpsafe then {CALLOUT_RETURNUNLOCKED} else {}), c_cpu := cc_default_cpu s\<rparr>) s"

text \<open>\<open>spinlock\<close> holds of the locks whose class has LC_SPINLOCK or LC_SLEEPABLE.\<close>

definition callout_init_lock ::
  "(lockid \<Rightarrow> bool) \<Rightarrow> addr \<Rightarrow> lockid option \<Rightarrow> cflag set \<Rightarrow> 'w bsd \<Rightarrow> 'w bsd option" where
  "callout_init_lock spinlock c lock flags s =
     (if flags - {CALLOUT_RETURNUNLOCKED, CALLOUT_SHAREDLOCK} \<noteq> {} then None
      else if lock = None \<and> CALLOUT_RETURNUNLOCKED \<in> flags then None
      else if (case lock of None \<Rightarrow> False | Some l \<Rightarrow> spinlock l) then None
      else Some (upd_co c (\<lambda>co. zero_callout\<lparr>c_lock := lock,
        c_iflags := flags \<inter> {CALLOUT_RETURNUNLOCKED, CALLOUT_SHAREDLOCK}, c_cpu := cc_default_cpu s\<rparr>) s))"

section \<open>When a callout is due\<close>

record ktime =
  sbinuptime :: int
  hardclocktime :: int
  tick_sbt :: int
  sbt_tickthreshold :: int
  tc_precexp :: nat
  cold :: bool

record rflags =
  rf_flags :: "rflag set"
  prelget :: int

definition callout_when :: "ktime \<Rightarrow> int \<Rightarrow> int \<Rightarrow> rflags \<Rightarrow> int \<times> int" where
  "callout_when k sbt precision flags =
     (if C_ABSOLUTE \<in> rf_flags flags \<or> C_PRECALC \<in> rf_flags flags then (sbt, precision)
      else
        let sbt = (if C_HARDCLOCK \<in> rf_flags flags \<and> sbt < tick_sbt k then tick_sbt k else sbt);
            to_sbt =
              (if C_HARDCLOCK \<in> rf_flags flags \<or> sbt_tickthreshold k \<le> sbt
               then let to_sbt = (if cold k \<and> hardclocktime k = 0 then sbinuptime k else hardclocktime k)
                    in (if C_HARDCLOCK \<notin> rf_flags flags then i64 (to_sbt + tick_sbt k) else to_sbt)
               else sbinuptime k);
            res = (if i64 (SBT_MAX - to_sbt) < sbt then SBT_MAX else i64 (to_sbt + sbt));
            to_pr = (if prelget flags < 0 then sbt div 2 ^ tc_precexp k else sbt div 2 ^ nat (prelget flags))
        in (res, if precision < to_pr then to_pr else precision))"

section \<open>Establishing a timeout\<close>

text \<open>What a running callout is to do when it returns: the five migration fields of its entity.\<close>

definition defer_migration ::
  "nat \<Rightarrow> bool \<Rightarrow> nat \<Rightarrow> int \<Rightarrow> int \<Rightarrow> cfunc option \<Rightarrow> nat \<Rightarrow> 'w bsd \<Rightarrow> 'w bsd" where
  "defer_migration cc direct cpu to_sbt precision ftn arg =
     upd_exec cc direct (\<lambda>e. e\<lparr>ce_migration_cpu := cpu, ce_migration_time := to_sbt,
       ce_migration_prec := precision, ce_migration_func := ftn, ce_migration_arg := arg\<rparr>)"

text \<open>Taking a pending callout off its list; the iterator of callout_process steps past it.\<close>

definition callout_unlink :: "addr \<Rightarrow> nat \<Rightarrow> 'w bsd \<Rightarrow> 'w bsd option" where
  "callout_unlink c cc s =
     (if CALLOUT_PROCESSED \<notin> c_iflags (b_co s c) then do {
        n \<leftarrow> list_next c s;
        list_remove c (if cc_next (b_cc s cc) = Some c then upd_cc cc (\<lambda>cc. cc\<lparr>cc_next := n\<rparr>) s else s)
      }
      else expireq_remove c s)"

definition reset_pending :: "addr \<Rightarrow> nat \<Rightarrow> int \<Rightarrow> 'w bsd \<Rightarrow> (int \<times> 'w bsd) option" where
  "reset_pending c cc cancelled s =
     (if CALLOUT_PENDING \<in> c_iflags (b_co s c) then do {
        s \<leftarrow> callout_unlink c cc s;
        Some (1, clear_flag c CALLOUT_ACTIVE (clear_iflag c CALLOUT_PENDING s))
      }
      else Some (cancelled, s))"

definition reset_place ::
  "'w benv \<Rightarrow> addr \<Rightarrow> nat \<Rightarrow> int \<Rightarrow> int \<Rightarrow> cfunc option \<Rightarrow> nat \<Rightarrow> nat \<Rightarrow> rflag set \<Rightarrow> 'w bsd \<Rightarrow> 'w bsd option" where
  "reset_place E c cc to_sbt precision ftn arg cpu flags s =
     (let direct = (C_DIRECT_EXEC \<in> flags) in
      if c_cpu (b_co s c) \<noteq> cpu then
        if cc_curr (exec_of s cc direct) = Some c then
          Some (set_flag c CALLOUT_ACTIVE (set_iflag c CALLOUT_PENDING (set_iflag c CALLOUT_DFRMIGRATION
            (defer_migration cc direct cpu to_sbt precision ftn arg s))))
        else do {
          s \<leftarrow> callout_cpu_switch E c cpu s;
          callout_cc_add c cpu to_sbt precision ftn arg cpu flags s
        }
      else callout_cc_add c cc to_sbt precision ftn arg cpu flags s)"

text \<open>\<open>cpu\<close> is None for the value -1.\<close>

definition callout_reset_sbt_on ::
  "'w benv \<Rightarrow> ktime \<Rightarrow> addr \<Rightarrow> int \<Rightarrow> int \<Rightarrow> cfunc option \<Rightarrow> nat \<Rightarrow> nat option \<Rightarrow> rflags \<Rightarrow> 'w bsd
   \<Rightarrow> (int \<times> 'w bsd) option" where
  "callout_reset_sbt_on E k c sbt prec ftn arg cpu flags s =
     (if (case cpu of None \<Rightarrow> False | Some n \<Rightarrow> MAXCPU E \<le> n \<or> \<not> cc_inited (b_cc s n)) then None
      else
        let (to_sbt, precision) = callout_when k sbt prec flags;
            direct = (C_DIRECT_EXEC \<in> rf_flags flags) in
        if direct \<and> c_lock (b_co s c) \<noteq> None then None
        else do {
          cc \<leftarrow> callout_lock E c s;
          let cpu = (case cpu of None \<Rightarrow> c_cpu (b_co s c) | Some n \<Rightarrow> n);
          let running = (cc_curr (exec_of s cc direct) = Some c);
          let cancels = (running \<and> c_lock (b_co s c) \<noteq> None \<and> \<not> cc_cancel (exec_of s cc direct));
          let s = (if cancels then upd_exec cc direct (\<lambda>e. e\<lparr>cc_cancel := True\<rparr>) s else s);
          let cancelled = (if cancels then 1 else 0);
          if running \<and> (cc_waiting (exec_of s cc direct) \<or> cc_drain (exec_of s cc direct) \<noteq> None)
          then Some (cancelled, s)
          else if running \<and> callout_migrating (b_co s c)
          then Some (1, defer_migration cc direct cpu to_sbt precision ftn arg s)
          else do {
            (cancelled, s) \<leftarrow> reset_pending c cc cancelled s;
            s \<leftarrow> reset_place E c cc to_sbt precision ftn arg cpu (rf_flags flags) s;
            Some (cancelled, s)
          }
        })"

text \<open>callout_reset_on is a macro of sys/callout.h, here the parameter \<open>reset_on\<close>.\<close>

definition callout_schedule_on ::
  "(addr \<Rightarrow> int \<Rightarrow> cfunc option \<Rightarrow> nat \<Rightarrow> nat \<Rightarrow> 'w bsd \<Rightarrow> (int \<times> 'w bsd) option) \<Rightarrow>
   addr \<Rightarrow> int \<Rightarrow> nat \<Rightarrow> 'w bsd \<Rightarrow> (int \<times> 'w bsd) option" where
  "callout_schedule_on reset_on c to_ticks cpu s = reset_on c to_ticks (c_func (b_co s c)) (c_arg (b_co s c)) cpu s"

definition callout_schedule ::
  "(addr \<Rightarrow> int \<Rightarrow> cfunc option \<Rightarrow> nat \<Rightarrow> nat \<Rightarrow> 'w bsd \<Rightarrow> (int \<times> 'w bsd) option) \<Rightarrow>
   addr \<Rightarrow> int \<Rightarrow> 'w bsd \<Rightarrow> (int \<times> 'w bsd) option" where
  "callout_schedule reset_on c to_ticks s =
     reset_on c to_ticks (c_func (b_co s c)) (c_arg (b_co s c)) (c_cpu (b_co s c)) s"

section \<open>Disestablishing a timeout\<close>

definition clear_migration :: "'w benv \<Rightarrow> nat \<Rightarrow> bool \<Rightarrow> 'w bsd \<Rightarrow> 'w bsd" where
  "clear_migration E cc direct = defer_migration cc direct (MAXCPU E) 0 0 None 0"

definition leave_drain :: "nat \<Rightarrow> bool \<Rightarrow> cfunc option \<Rightarrow> 'w bsd \<Rightarrow> 'w bsd" where
  "leave_drain cc direct drain s =
     (if drain \<noteq> None then upd_exec cc direct (\<lambda>e. e\<lparr>cc_drain := drain\<rparr>) s else s)"

text \<open>The end of the function, after the part for a callout that runs.\<close>

definition stop_pending :: "addr \<Rightarrow> nat \<Rightarrow> bool \<Rightarrow> bool \<Rightarrow> int \<Rightarrow> 'w bsd \<Rightarrow> (int \<times> 'w bsd) option" where
  "stop_pending c cc direct not_on_a_list cancelled s =
     (if CALLOUT_PENDING \<notin> c_iflags (b_co s c)
      then Some (if cc_curr (exec_of s cc direct) \<noteq> Some c then -1 else cancelled, s)
      else do {
        let s = clear_flag c CALLOUT_ACTIVE (clear_iflag c CALLOUT_PENDING s);
        s \<leftarrow> (if not_on_a_list then Some s else callout_unlink c cc s);
        Some (cancelled, s)
      })"

text \<open>A running callout that is not to be waited for: a callout that waits for the lock that the caller
  holds is cancelled, one that already runs loses its pending migration.\<close>

definition stop_running ::
  "'w benv \<Rightarrow> addr \<Rightarrow> nat \<Rightarrow> bool \<Rightarrow> bool \<Rightarrow> bool \<Rightarrow> sflag set \<Rightarrow> cfunc option \<Rightarrow> 'w bsd \<Rightarrow> (int \<times> 'w bsd) option" where
  "stop_running E c cc direct not_on_a_list use_lock flags drain s =
     (let s = clear_flag c CALLOUT_ACTIVE s;
          executing = (if CS_EXECUTING \<in> flags then 1 else 0) in
      if use_lock \<and> \<not> cc_cancel (exec_of s cc direct) \<and> drain = None then
        let s = upd_exec cc direct (\<lambda>e. e\<lparr>cc_cancel := True\<rparr>) s in
        if cc_cce_migrating E cc direct s then None
        else Some (1, if callout_migrating (b_co s c)
                      then clear_migration E cc direct (clear_iflag c CALLOUT_DFRMIGRATION s) else s)
      else if callout_migrating (b_co s c) then
        Some (executing, leave_drain cc direct drain
          (clear_migration E cc direct (clear_iflag c CALLOUT_DFRMIGRATION s)))
      else stop_pending c cc direct not_on_a_list executing (leave_drain cc direct drain s))"

text \<open>From the label again. \<open>old_cc\<close> is the CPU whose sleep queue is locked, None when sq_locked is 0. A
  round of the loop that waits for the callout either locks the sleep queue and starts again, or
  sleeps; \<open>others\<close> is what happens in between.\<close>

partial_function (option) stop_again ::
  "'w benv \<Rightarrow> addr \<Rightarrow> bool \<Rightarrow> bool \<Rightarrow> sflag set \<Rightarrow> cfunc option \<Rightarrow> nat option \<Rightarrow> 'w bsd \<Rightarrow> (int \<times> 'w bsd) option" where
  "stop_again E c direct use_lock flags drain old_cc s =
     do {
       cc \<leftarrow> callout_lock E c s;
       let co = b_co s c;
       let not_on_a_list = (CALLOUT_DFRMIGRATION \<in> c_iflags co \<and> CALLOUT_PENDING \<in> c_iflags co
                              \<and> CALLOUT_ACTIVE \<in> c_flags co);
       let s = (if not_on_a_list then clear_flag c CALLOUT_ACTIVE (clear_iflag c CALLOUT_PENDING s) else s);
       if old_cc \<noteq> None \<and> old_cc \<noteq> Some cc then do {
         s \<leftarrow> others E s;
         stop_again E c direct use_lock flags drain None s
       }
       else if cc_curr (exec_of s cc direct) \<noteq> Some c then stop_pending c cc direct not_on_a_list 1 s
       else if CS_DRAIN \<notin> flags then stop_running E c cc direct not_on_a_list use_lock flags drain s
       else if old_cc = None then do {
         s \<leftarrow> others E s;
         stop_again E c direct use_lock flags drain (Some cc) s
       }
       else do {
         s \<leftarrow> others E (upd_exec cc direct (\<lambda>e. e\<lparr>cc_waiting := True\<rparr>) s);
         if cc_curr (exec_of s cc direct) = Some c then do {
           s \<leftarrow> others E s;
           stop_again E c direct use_lock flags drain (Some cc) s
         }
         else stop_pending c cc direct not_on_a_list (if CS_EXECUTING \<in> flags then 1 else 0)
           (leave_drain cc direct drain (clear_flag c CALLOUT_ACTIVE s))
       }
     }"

definition callout_stop_safe ::
  "'w benv \<Rightarrow> addr \<Rightarrow> sflag set \<Rightarrow> cfunc option \<Rightarrow> 'w bsd \<Rightarrow> (int \<times> 'w bsd) option" where
  "callout_stop_safe E c flags drain s =
     do {
       use_lock \<leftarrow> (if CS_DRAIN \<notin> flags then
           (case c_lock (b_co s c) of
              None \<Rightarrow> Some False
            | Some l \<Rightarrow> if l = Giant E then Some (lock_owned E l s)
                        else if lock_owned E l s then Some True else None)
         else Some False);
       stop_again E c (CALLOUT_DIRECT \<in> c_iflags (b_co s c)) use_lock flags drain None s
     }"

declare stop_again.simps [code]

end
