(* ===== verification/Bsd_Wheel.thy ===== *)
theory Bsd_Wheel
  imports Bsd_Reset
begin

text \<open>
  The invariant of the callout wheel and the operations on its lists.

  \<^item> \<open>bsd_ok\<close>: the lists and the links of the callouts agree, the flags say which list a callout is in, and
    a callout on the wheel is in the bucket of its time, which is not before the last scan.
  \<^item> \<open>timely\<close>: the event timer of every CPU fires no later than any callout on its wheel may run.
  \<^item> Adding and unlinking a callout keep both; \<open>expire_all\<close> is the effect of a scan.
\<close>

section \<open>Integers in range\<close>

lemma i64_id [simp]: "- (2 ^ 63) \<le> x \<Longrightarrow> x < 2 ^ 63 \<Longrightarrow> i64 x = x"
  by (simp add: i64_def)

lemma i32_id: "- (2 ^ 31) \<le> x \<Longrightarrow> x < 2 ^ 31 \<Longrightarrow> i32 x = x"
  by (simp add: i32_def)

lemma i32_u32_diff: "i32 (u32 x - u32 y) = i32 (x - y)"
  unfolding i32_def u32_def by (smt (verit) mod_add_left_eq mod_diff_eq)

lemma u32_idem [simp]: "u32 (u32 x) = u32 x"
  by (simp add: u32_def)

lemma u32_add [simp]: "u32 (u32 x + y) = u32 (x + y)"
  by (simp add: u32_def mod_add_left_eq)

lemma u32_diff [simp]: "u32 (u32 x - y) = u32 (x - y)" "u32 (x - u32 y) = u32 (x - y)"
  by (simp_all add: u32_def mod_diff_left_eq mod_diff_right_eq)

lemma u32_id: "0 \<le> x \<Longrightarrow> x < 2 ^ 32 \<Longrightarrow> u32 x = x"
  by (simp add: u32_def)

definition tick_of :: "int \<Rightarrow> int" where "tick_of t = t div 2 ^ 24"

lemma callout_hash_tick: "callout_hash t = u32 (tick_of t)"
  by (simp add: callout_hash_def CC_HASH_SHIFT_def tick_of_def)

lemma tick_of_mono: "t \<le> t' \<Longrightarrow> tick_of t \<le> tick_of t'"
  by (simp add: tick_of_def zdiv_mono1)

lemma tick_of_less: "tick_of t < tick_of t' \<Longrightarrow> t < t'"
  by (meson linorder_not_le tick_of_mono)

lemma and_mask: "callwheelmask s = callwheelsize s - 1 \<Longrightarrow> callwheelsize s = 2 ^ k \<Longrightarrow>
    x AND callwheelmask s = x mod 2 ^ k"
  by (simp flip: take_bit_eq_mod add: take_bit_eq_mask mask_eq_exp_minus_1)

lemma u32_mod: "k \<le> 32 \<Longrightarrow> u32 x mod 2 ^ k = x mod 2 ^ k"
  unfolding u32_def by (rule mod_mod_cancel) (rule le_imp_power_dvd)

section \<open>The invariant\<close>

abbreviation wheel :: "'w bsd \<Rightarrow> nat \<Rightarrow> int \<Rightarrow> addr list" where
  "wheel s cpu b \<equiv> cc_callwheel (b_cc s cpu) b"

abbreviation expireq :: "'w bsd \<Rightarrow> nat \<Rightarrow> addr list" where
  "expireq s cpu \<equiv> cc_expireq (b_cc s cpu)"

definition sized :: "'w bsd \<Rightarrow> bool" where
  "sized s = (callwheelmask s = callwheelsize s - 1 \<and> (\<exists>k\<in>{..30}. callwheelsize s = 2 ^ k))"

definition linked :: "'w bsd \<Rightarrow> bool" where
  "linked s =
     ((\<forall>c cpu b. c \<in> set (wheel s cpu b) \<longleftrightarrow> c_links (b_co s c) = Some (OnWheel cpu b)) \<and>
      (\<forall>c cpu. c \<in> set (expireq s cpu) \<longleftrightarrow> c_links (b_co s c) = Some (OnExpireq cpu)) \<and>
      (\<forall>cpu b. distinct (wheel s cpu b)) \<and> (\<forall>cpu. distinct (expireq s cpu)))"

text \<open>What the fields of a callout say in each of the three positions.\<close>

definition on_wheel_ok :: "int \<Rightarrow> int \<Rightarrow> callout \<Rightarrow> nat \<Rightarrow> int \<Rightarrow> bool" where
  "on_wheel_ok lastscan wmask co cpu b =
     (CALLOUT_PENDING \<in> c_iflags co \<and> CALLOUT_PROCESSED \<notin> c_iflags co \<and> CALLOUT_DFRMIGRATION \<notin> c_iflags co \<and>
      CALLOUT_ACTIVE \<in> c_flags co \<and>
      c_cpu co = cpu \<and> b = callout_hash (c_time co) AND wmask \<and> lastscan \<le> c_time co \<and>
      0 \<le> c_precision co \<and> c_time co + c_precision co \<le> SBT_MAX)"

definition on_expireq_ok :: "callout \<Rightarrow> nat \<Rightarrow> bool" where
  "on_expireq_ok co cpu =
     (CALLOUT_PENDING \<in> c_iflags co \<and> CALLOUT_PROCESSED \<in> c_iflags co \<and> CALLOUT_DFRMIGRATION \<notin> c_iflags co \<and>
      CALLOUT_ACTIVE \<in> c_flags co \<and> c_cpu co = cpu)"

definition callout_ok :: "'w bsd \<Rightarrow> addr \<Rightarrow> bool" where
  "callout_ok s c =
     (case c_links (b_co s c) of
        Some (OnWheel cpu b) \<Rightarrow> on_wheel_ok (cc_lastscan (b_cc s cpu)) (callwheelmask s) (b_co s c) cpu b
      | Some (OnExpireq cpu) \<Rightarrow> on_expireq_ok (b_co s c) cpu
      | None \<Rightarrow> CALLOUT_PENDING \<in> c_iflags (b_co s c) \<longrightarrow> CALLOUT_DFRMIGRATION \<in> c_iflags (b_co s c))"

definition bsd_ok :: "'w bsd \<Rightarrow> bool" where
  "bsd_ok s = (sized s \<and> linked s \<and> (\<forall>cpu. 0 \<le> cc_lastscan (b_cc s cpu) \<and> cc_lastscan (b_cc s cpu) \<le> SBT_MAX) \<and>
     (\<forall>c. callout_ok s c))"

text \<open>The latest time at which a callout is to run.\<close>

definition deadline :: "callout \<Rightarrow> int" where "deadline co = c_time co + c_precision co"

definition timely :: "'w bsd \<Rightarrow> bool" where
  "timely s = (\<forall>cpu b. \<forall>c\<in>set (wheel s cpu b). cc_firstevent (b_cc s cpu) \<le> deadline (b_co s c))"

lemmas upd_defs = upd_co_def upd_cc_def upd_exec_def set_iflag_def clear_iflag_def set_flag_def clear_flag_def
  emit_def exec_of_def

lemma linked_wheel: "linked s \<Longrightarrow> c \<in> set (wheel s cpu b) \<longleftrightarrow> c_links (b_co s c) = Some (OnWheel cpu b)"
  and linked_expireq: "linked s \<Longrightarrow> c \<in> set (expireq s cpu) \<longleftrightarrow> c_links (b_co s c) = Some (OnExpireq cpu)"
  and linked_distinct: "linked s \<Longrightarrow> distinct (wheel s cpu b)" "linked s \<Longrightarrow> distinct (expireq s cpu)"
  by (simp_all add: linked_def)

lemma bsd_okD:
  assumes "bsd_ok s"
  shows "sized s" "linked s" "0 \<le> cc_lastscan (b_cc s cpu)" "callout_ok s c"
    "cc_lastscan (b_cc s cpu) \<le> SBT_MAX"
  using assms by (simp_all add: bsd_ok_def)

lemma bsd_ok_wheel:
  assumes "bsd_ok s" "c \<in> set (wheel s cpu b)"
  shows "on_wheel_ok (cc_lastscan (b_cc s cpu)) (callwheelmask s) (b_co s c) cpu b"
proof -
  have "c_links (b_co s c) = Some (OnWheel cpu b)"
    using assms bsd_okD(2) linked_wheel by blast
  with bsd_okD(4)[OF assms(1), of c] show ?thesis
    by (simp add: callout_ok_def)
qed

section \<open>The operations on the lists\<close>

lemma list_insert_head_linked:
  assumes "linked s" "list_insert_head cpu b c s = Some s'"
  shows "linked s'"
  using assms unfolding list_insert_head_def linked_def
  by (auto simp: upd_defs split: if_splits)

lemma list_remove_linked:
  assumes "linked s" "list_remove c s = Some s'"
  shows "linked s'"
  using assms unfolding list_remove_def linked_def
  by (auto simp: upd_defs split: option.splits centry.splits if_splits)

lemma tailq_insert_tail_linked:
  assumes "linked s" "tailq_insert_tail cpu c s = Some s'"
  shows "linked s'"
  using assms unfolding tailq_insert_tail_def linked_def
  by (auto simp: upd_defs split: if_splits)

lemma expireq_remove_linked:
  assumes "linked s" "expireq_remove c s = Some s'"
  shows "linked s'"
  using assms unfolding expireq_remove_def linked_def
  by (auto simp: upd_defs split: option.splits centry.splits if_splits)

section \<open>Moving due callouts to the expiry queue\<close>

definition expired_callout :: "nat \<Rightarrow> callout \<Rightarrow> callout" where
  "expired_callout cc co =
     co\<lparr>c_links := Some (OnExpireq cc), c_iflags := insert CALLOUT_PROCESSED (c_iflags co)\<rparr>"

definition expire_all :: "nat \<Rightarrow> addr list \<Rightarrow> 'w bsd \<Rightarrow> 'w bsd" where
  "expire_all cc ds s =
     s\<lparr>b_co := (\<lambda>c. if c \<in> set ds then expired_callout cc (b_co s c) else b_co s c),
       b_cc := (b_cc s)(cc := (b_cc s cc)\<lparr>
         cc_callwheel := (\<lambda>b. filter (\<lambda>c. c \<notin> set ds) (wheel s cc b)), cc_expireq := expireq s cc @ ds\<rparr>)\<rparr>"

lemma expired_callout_simps [simp]:
  "c_links (expired_callout cc co) = Some (OnExpireq cc)" "c_time (expired_callout cc co) = c_time co"
  "c_precision (expired_callout cc co) = c_precision co" "c_arg (expired_callout cc co) = c_arg co"
  "c_func (expired_callout cc co) = c_func co" "c_lock (expired_callout cc co) = c_lock co"
  "c_flags (expired_callout cc co) = c_flags co" "c_cpu (expired_callout cc co) = c_cpu co"
  "c_iflags (expired_callout cc co) = insert CALLOUT_PROCESSED (c_iflags co)"
  by (simp_all add: expired_callout_def)

lemma expire_all_simps [simp]:
  "b_co (expire_all cc ds s) c = (if c \<in> set ds then expired_callout cc (b_co s c) else b_co s c)"
  "wheel (expire_all cc ds s) cpu b = (if cpu = cc then filter (\<lambda>c. c \<notin> set ds) (wheel s cc b) else wheel s cpu b)"
  "expireq (expire_all cc ds s) cpu = (if cpu = cc then expireq s cc @ ds else expireq s cpu)"
  "cc_lastscan (b_cc (expire_all cc ds s) cpu) = cc_lastscan (b_cc s cpu)"
  "cc_firstevent (b_cc (expire_all cc ds s) cpu) = cc_firstevent (b_cc s cpu)"
  "cc_next (b_cc (expire_all cc ds s) cpu) = cc_next (b_cc s cpu)"
  "cc_exec_entity (b_cc (expire_all cc ds s) cpu) = cc_exec_entity (b_cc s cpu)"
  "callwheelsize (expire_all cc ds s) = callwheelsize s" "callwheelmask (expire_all cc ds s) = callwheelmask s"
  "b_curcpu (expire_all cc ds s) = b_curcpu s" "b_calls (expire_all cc ds s) = b_calls s"
  "b_world (expire_all cc ds s) = b_world s" "cc_default_cpu (expire_all cc ds s) = cc_default_cpu s"
  by (simp_all add: expire_all_def)

lemma expire_all_Nil [simp]: "expire_all cc [] s = s"
  by (simp add: expire_all_def)

lemma expire_all_append:
  "set ds \<inter> set es = {} \<Longrightarrow> expire_all cc es (expire_all cc ds s) = expire_all cc (ds @ es) s"
  by (auto simp: expire_all_def fun_eq_iff intro!: bsd.equality filter_cong)

lemma expire_one:
  assumes "linked s" "c \<in> set (wheel s cc b)"
  shows "list_remove c s \<bind> tailq_insert_tail cc c = Some (upd_co c (\<lambda>co. co\<lparr>c_iflags := c_iflags (b_co s c)\<rparr>)
           (expire_all cc [c] s))"
    and "map_option (set_iflag c CALLOUT_PROCESSED) (list_remove c s \<bind> tailq_insert_tail cc c)
           = Some (expire_all cc [c] s)"
proof -
  have l: "c_links (b_co s c) = Some (OnWheel cc b)" using assms linked_wheel by blast
  have w: "filter (\<lambda>x. x \<noteq> c) (wheel s cc b') = (if b' = b then remove1 c (wheel s cc b) else wheel s cc b')" for b'
  proof (cases "b' = b")
    case True
    then show ?thesis using linked_distinct(1)[OF assms(1), of cc b]
      by (simp add: distinct_remove1_removeAll removeAll_filter_not_eq) (simp add: eq_commute)
  next
    case False
    then have "c \<notin> set (wheel s cc b')" using linked_wheel[OF assms(1)] l by auto
    with False show ?thesis by (auto simp: filter_id_conv)
  qed
  show "list_remove c s \<bind> tailq_insert_tail cc c = Some (upd_co c (\<lambda>co. co\<lparr>c_iflags := c_iflags (b_co s c)\<rparr>)
           (expire_all cc [c] s))"
    using l by (auto simp: list_remove_def tailq_insert_tail_def upd_defs expire_all_def expired_callout_def w fun_eq_iff
      intro!: bsd.equality callout.equality)
  then show "map_option (set_iflag c CALLOUT_PROCESSED) (list_remove c s \<bind> tailq_insert_tail cc c)
           = Some (expire_all cc [c] s)"
    by (auto simp: upd_defs fun_eq_iff expired_callout_def intro!: bsd.equality callout.equality)
qed

lemma expire_all_linked:
  assumes "linked s" "distinct ds" "\<And>c. c \<in> set ds \<Longrightarrow> \<exists>b. c \<in> set (wheel s cc b)"
  shows "linked (expire_all cc ds s)"
proof -
  have l: "\<exists>b. c_links (b_co s c) = Some (OnWheel cc b)" if "c \<in> set ds" for c
    using assms(1) assms(3)[OF that] linked_wheel by blast
  then have "set (expireq s cc) \<inter> set ds = {}"
    using linked_expireq[OF assms(1)] by fastforce
  then show ?thesis
    using assms(1,2) l unfolding linked_def
    by (auto dest: l)
qed

section \<open>The scan of one bucket\<close>

lemma filter_neq_id [simp]: "c \<notin> set xs \<Longrightarrow> filter (\<lambda>x. x \<noteq> c) xs = xs"
  by (induction xs) auto

definition direct_free :: "'w bsd \<Rightarrow> nat \<Rightarrow> bool" where
  "direct_free s cc = (\<forall>b. \<forall>c\<in>set (wheel s cc b). CALLOUT_DIRECT \<notin> c_iflags (b_co s c))"

abbreviation due :: "int \<Rightarrow> 'w bsd \<Rightarrow> addr list \<Rightarrow> addr list" where
  "due now s cs \<equiv> filter (\<lambda>c. c_time (b_co s c) \<le> now) cs"

abbreviation later :: "int \<Rightarrow> 'w bsd \<Rightarrow> addr list \<Rightarrow> addr list" where
  "later now s cs \<equiv> filter (\<lambda>c. now < c_time (b_co s c)) cs"

definition scan_list :: "int \<Rightarrow> int \<Rightarrow> int \<Rightarrow> 'w bsd \<Rightarrow> addr list \<Rightarrow> scan \<Rightarrow> scan" where
  "scan_list now mx nowb s cs v = fold (\<lambda>c. aggregate mx nowb (b_co s c)) (later now s cs) v"

lemma list_next_in:
  assumes "linked s" "wheel s cc b = ps @ c # cs"
  shows "list_next c s = Some (first cs)"
proof -
  have "distinct (ps @ c # cs)" using linked_distinct(1)[OF assms(1), of cc b] assms(2) by simp
  then have "dropWhile (\<lambda>d. d \<noteq> c) (ps @ c # cs) = c # cs"
    by (subst dropWhile_append2) auto
  moreover have "c_links (b_co s c) = Some (OnWheel cc b)"
    using linked_wheel[OF assms(1), of c cc b] assms(2) by simp
  ultimately show ?thesis by (simp add: list_next_def assms(2))
qed

lemma process_bucket_run:
  assumes "linked s" "wheel s cc b = ps @ cs" "set ps \<inter> set cs = {}" "direct_free s cc"
  shows "process_bucket E cc now mx nowb b' (first cs) v s =
           Some (scan_list now mx nowb s cs v, expire_all cc (due now s cs) s)"
  using assms
proof (induction cs arbitrary: ps v s)
  case Nil
  then show ?case by (subst process_bucket.simps) (simp add: scan_list_def)
next
  case (Cons c cs)
  have nx: "list_next c s = Some (first cs)" by (rule list_next_in[OF Cons.prems(1,2)])
  have cw: "c \<in> set (wheel s cc b)" using Cons.prems(2) by simp
  have dist: "distinct (ps @ c # cs)" using linked_distinct(1)[OF Cons.prems(1), of cc b] Cons.prems(2) by simp
  show ?case
  proof (cases "c_time (b_co s c) \<le> now")
    case False
    have "process_bucket E cc now mx nowb b' (first cs) (aggregate mx nowb (b_co s c) v) s =
            Some (scan_list now mx nowb s cs (aggregate mx nowb (b_co s c) v), expire_all cc (due now s cs) s)"
      by (rule Cons.IH[of s "ps @ [c]"]) (use Cons.prems dist in auto)
    with False show ?thesis
      by (subst process_bucket.simps) (simp add: nx scan_list_def)
  next
    case True
    define s' where "s' = expire_all cc [c] s"
    have nd: "CALLOUT_DIRECT \<notin> c_iflags (b_co s c)" using Cons.prems(4) cw by (auto simp: direct_free_def)
    obtain s1 s2 where s12: "list_remove c s = Some s1" "tailq_insert_tail cc c s1 = Some s2"
        "set_iflag c CALLOUT_PROCESSED s2 = s'"
      using expire_one(2)[OF Cons.prems(1) cw] by (auto simp: bind_eq_Some_conv s'_def)
    have w': "wheel s' cc b = ps @ cs" using Cons.prems(2) dist by (simp add: s'_def)
    have "linked s'" unfolding s'_def
      by (rule expire_all_linked[OF Cons.prems(1)]) (use cw in auto)
    moreover have "direct_free s' cc" using Cons.prems(4) by (auto simp: direct_free_def s'_def)
    ultimately have ih: "process_bucket E cc now mx nowb b' (first cs) v s' =
        Some (scan_list now mx nowb s' cs v, expire_all cc (due now s' cs) s')"
      using w' dist by (intro Cons.IH) auto
    have same: "b_co s' d = b_co s d" if "d \<in> set cs" for d using dist that by (auto simp: s'_def)
    have due: "due now s' cs = due now s cs" and later: "later now s' cs = later now s cs"
      by (auto intro!: filter_cong simp: same)
    have "scan_list now mx nowb s' cs v = scan_list now mx nowb s (c # cs) v"
      unfolding scan_list_def later using True
      by (auto intro!: fold_cong simp: same)
    moreover have "expire_all cc (due now s' cs) s' = expire_all cc (due now s (c # cs)) s"
      using True dist by (simp only: due) (simp add: s'_def expire_all_append)
    ultimately show ?thesis
      using True nd by (subst process_bucket.simps) (simp add: nx s12 ih)
  qed
qed

end
