(* ===== verification/Bsd_Scan.thy ===== *)
theory Bsd_Scan
  imports Bsd_Wheel
begin

text \<open>
  callout_process on a wheel whose callouts all run from the software interrupt: the scan visits the
  buckets from that of the last scan up to some bucket not before that of the present time, takes every
  due callout of the visited buckets and leaves \<open>sc_last\<close> below the deadline of every other one.
\<close>

section \<open>What the scan knows of the callouts it has seen\<close>

definition covers :: "int \<Rightarrow> scan \<Rightarrow> callout \<Rightarrow> bool" where
  "covers mx v co = (mx \<le> c_time co \<or> sc_last v < c_time co \<or> sc_last v \<le> i64 (c_time co + c_precision co))"

text \<open>A callout that lies before the bound and after the time up to which callouts are aggregated.\<close>

definition too_late :: "int \<Rightarrow> scan \<Rightarrow> callout \<Rightarrow> bool" where
  "too_late mx v co = (c_time co < mx \<and> sc_last v < c_time co)"

lemma covers_mono: "covers mx v co \<Longrightarrow> sc_last v' \<le> sc_last v \<Longrightarrow> covers mx v' co"
  and too_late_mono: "too_late mx v co \<Longrightarrow> sc_last v' \<le> sc_last v \<Longrightarrow> too_late mx v' co"
  by (auto simp: covers_def too_late_def)

lemma aggregate_step:
  shows "sc_last (aggregate mx nowb co v) \<le> sc_last v"
    and "covers mx (aggregate mx nowb co v) co"
    and "sc_lastb (aggregate mx nowb co v) = sc_lastb v \<or>
         sc_lastb (aggregate mx nowb co v) = nowb \<and> too_late mx (aggregate mx nowb co v) co"
    and "sc_last (aggregate mx nowb co v) = sc_last v \<or>
         sc_last (aggregate mx nowb co v) = i64 (c_time co + c_precision co)"
  by (auto simp: aggregate_def covers_def too_late_def Let_def)

lemma scan_list_Nil [simp]: "scan_list now mx nowb s [] v = v"
  by (simp add: scan_list_def)

lemma scan_list_Cons:
  "scan_list now mx nowb s (c # cs) v =
     scan_list now mx nowb s cs (if now < c_time (b_co s c) then aggregate mx nowb (b_co s c) v else v)"
  by (simp add: scan_list_def)

lemma scan_list_last: "sc_last (scan_list now mx nowb s cs v) \<le> sc_last v"
proof (induction cs arbitrary: v)
  case (Cons c cs)
  show ?case
    unfolding scan_list_Cons by (rule order.trans[OF Cons.IH]) (simp add: aggregate_step(1))
qed simp

lemma scan_list_covers:
  "c \<in> set (later now s cs) \<Longrightarrow> covers mx (scan_list now mx nowb s cs v) (b_co s c)"
proof (induction cs arbitrary: v)
  case (Cons d cs)
  then consider "c = d" "now < c_time (b_co s d)" | "c \<in> set (later now s cs)" by (auto split: if_splits)
  then show ?case
  proof cases
    case 1
    then show ?thesis
      by (auto simp: scan_list_Cons intro: covers_mono[OF aggregate_step(2) scan_list_last])
  next
    case 2
    then show ?thesis unfolding scan_list_Cons by (rule Cons.IH)
  qed
qed simp

lemma scan_list_lastb:
  "sc_lastb (scan_list now mx nowb s cs v) = sc_lastb v \<or>
   sc_lastb (scan_list now mx nowb s cs v) = nowb \<and>
     (\<exists>c\<in>set (later now s cs). too_late mx (scan_list now mx nowb s cs v) (b_co s c))"
proof (induction cs arbitrary: v)
  case (Cons d cs)
  define v' where "v' = (if now < c_time (b_co s d) then aggregate mx nowb (b_co s d) v else v)"
  have v': "sc_lastb v' = sc_lastb v \<or>
      sc_lastb v' = nowb \<and> now < c_time (b_co s d) \<and> too_late mx v' (b_co s d)"
    using aggregate_step(3)[of mx nowb "b_co s d" v] by (auto simp: v'_def)
  have "too_late mx (scan_list now mx nowb s cs v') (b_co s d)" if "too_late mx v' (b_co s d)"
    by (rule too_late_mono[OF that scan_list_last])
  with Cons.IH[of v'] v' show ?case
    unfolding scan_list_Cons v'_def[symmetric] by auto
qed simp

lemma scan_list_exact:
  "sc_last (scan_list now mx nowb s cs v) = sc_last v \<or>
   (\<exists>c\<in>set (later now s cs). sc_last (scan_list now mx nowb s cs v) = i64 (c_time (b_co s c) + c_precision (b_co s c)))"
proof (induction cs arbitrary: v)
  case (Cons d cs)
  define v' where "v' = (if now < c_time (b_co s d) then aggregate mx nowb (b_co s d) v else v)"
  have "sc_last v' = sc_last v \<or>
      now < c_time (b_co s d) \<and> sc_last v' = i64 (c_time (b_co s d) + c_precision (b_co s d))"
    using aggregate_step(4)[of mx nowb "b_co s d" v] by (auto simp: v'_def)
  with Cons.IH[of v'] show ?case
    unfolding scan_list_Cons v'_def[symmetric] by auto
qed simp

section \<open>The loop over the buckets\<close>

text \<open>The bucket at distance \<open>j\<close> from the first, and the due callouts of a run of buckets.\<close>

definition bucket_at :: "'w bsd \<Rightarrow> nat \<Rightarrow> nat \<Rightarrow> int \<Rightarrow> int \<Rightarrow> addr list" where
  "bucket_at s cc k F j = wheel s cc ((F + j) mod 2 ^ k)"

definition due_run :: "int \<Rightarrow> 'w bsd \<Rightarrow> nat \<Rightarrow> nat \<Rightarrow> int \<Rightarrow> int \<Rightarrow> int \<Rightarrow> addr list" where
  "due_run now s cc k F i m = concat (map (\<lambda>j. due now s (bucket_at s cc k F j)) [i..m])"

lemma bucket_at_disjoint:
  assumes "linked s" "c \<in> set (bucket_at s cc k F i)" "c \<in> set (bucket_at s cc k F j)"
    "\<bar>i - j\<bar> < 2 ^ k"
  shows "i = j"
proof -
  have "(F + i) mod 2 ^ k = (F + j) mod 2 ^ k"
    using assms(1-3) linked_wheel[OF assms(1)] by (simp add: bucket_at_def)
  then have "2 ^ k dvd i - j"
    by (metis add_diff_cancel_left mod_eq_dvd_iff)
  with assms(4) show ?thesis
    using zdvd_imp_le[of "2 ^ k" "\<bar>i - j\<bar>"] by fastforce
qed

lemma bucket_at_expire:
  assumes "linked s" "\<And>c. c \<in> set ds \<Longrightarrow> c \<in> set (bucket_at s cc k F i)" "i \<noteq> j" "\<bar>i - j\<bar> < 2 ^ k"
  shows "bucket_at (expire_all cc ds s) cc k F j = bucket_at s cc k F j"
    and "c \<in> set (bucket_at s cc k F j) \<Longrightarrow> b_co (expire_all cc ds s) c = b_co s c"
proof -
  have "c \<notin> set ds" if "c \<in> set (bucket_at s cc k F j)" for c
    using bucket_at_disjoint[OF assms(1) assms(2) that assms(4)] assms(3) by blast
  then show "bucket_at (expire_all cc ds s) cc k F j = bucket_at s cc k F j"
    and "c \<in> set (bucket_at s cc k F j) \<Longrightarrow> b_co (expire_all cc ds s) c = b_co s c"
    by (auto simp: bucket_at_def filter_id_conv)
qed

abbreviation waiting_at :: "int \<Rightarrow> 'w bsd \<Rightarrow> nat \<Rightarrow> nat \<Rightarrow> int \<Rightarrow> int \<Rightarrow> addr list" where
  "waiting_at now s cc k F j \<equiv> later now s (bucket_at s cc k F j)"

text \<open>What holds after the buckets at distance \<open>i\<close> to \<open>m\<close>, when the scan was to end at \<open>L\<close>.\<close>

definition scan_post ::
  "int \<Rightarrow> int \<Rightarrow> 'w bsd \<Rightarrow> nat \<Rightarrow> nat \<Rightarrow> int \<Rightarrow> int \<Rightarrow> int \<Rightarrow> int \<Rightarrow> scan \<Rightarrow> scan \<Rightarrow> bool" where
  "scan_post now mx s cc k F i L m v v' =
     (sc_last v' \<le> sc_last v \<and>
      (\<forall>j\<in>{i..m}. \<forall>c\<in>set (waiting_at now s cc k F j). covers mx v' (b_co s c)) \<and>
      (m = L \<or> (\<exists>j\<in>{i..m}. \<exists>c\<in>set (waiting_at now s cc k F j). too_late mx v' (b_co s c))) \<and>
      (sc_last v' = sc_last v \<or> (\<exists>j\<in>{i..m}. \<exists>c\<in>set (waiting_at now s cc k F j).
         sc_last v' = i64 (c_time (b_co s c) + c_precision (b_co s c)))))"

lemma scan_post_one:
  assumes "v' = scan_list now mx nowb s (bucket_at s cc k F i) v"
    "sc_lastb v' = sc_lastb v \<longrightarrow> i = L"
  shows "scan_post now mx s cc k F i L i v v'"
  using assms(2) scan_list_last[of now mx nowb s "bucket_at s cc k F i" v]
    scan_list_covers[of _ now s "bucket_at s cc k F i" mx nowb v]
    scan_list_lastb[of now mx nowb s "bucket_at s cc k F i" v]
    scan_list_exact[of now mx nowb s "bucket_at s cc k F i" v]
  unfolding scan_post_def assms(1) by auto

lemma scan_post_step:
  assumes v': "v' = scan_list now mx nowb s (bucket_at s cc k F i) v"
    and rest: "scan_post now mx s' cc k F (i + 1) L' m v' v''"
    and L': "sc_lastb v' = sc_lastb v \<longrightarrow> L' = L"
    and same: "\<And>j. j \<in> {i + 1..m} \<Longrightarrow> bucket_at s' cc k F j = bucket_at s cc k F j"
      "\<And>j c. j \<in> {i + 1..m} \<Longrightarrow> c \<in> set (bucket_at s cc k F j) \<Longrightarrow> b_co s' c = b_co s c"
    and im: "i + 1 \<le> m"
  shows "scan_post now mx s cc k F i L m v v''"
proof -
  have eq: "waiting_at now s' cc k F j = waiting_at now s cc k F j" if "j \<in> {i + 1..m}" for j
    using same that by (auto intro!: filter_cong)
  have eqc: "b_co s' c = b_co s c" if "j \<in> {i + 1..m}" "c \<in> set (waiting_at now s cc k F j)" for j c
    using same that by auto
  have P: "(\<forall>j\<in>{i + 1..m}. \<forall>c\<in>set (waiting_at now s' cc k F j). Q (b_co s' c)) =
      (\<forall>j\<in>{i + 1..m}. \<forall>c\<in>set (waiting_at now s cc k F j). Q (b_co s c))" for Q
    by (intro ball_cong refl) (simp_all only: eq eqc)
  have P': "(\<exists>j\<in>{i + 1..m}. \<exists>c\<in>set (waiting_at now s' cc k F j). Q (b_co s' c)) =
      (\<exists>j\<in>{i + 1..m}. \<exists>c\<in>set (waiting_at now s cc k F j). Q (b_co s c))" for Q
    by (intro bex_cong refl) (simp_all only: eq eqc)
  have le: "sc_last v'' \<le> sc_last v'"
    and cov: "\<And>j c. j \<in> {i + 1..m} \<Longrightarrow> c \<in> set (waiting_at now s cc k F j) \<Longrightarrow> covers mx v'' (b_co s c)"
    and fin: "m = L' \<or> (\<exists>j\<in>{i + 1..m}. \<exists>c\<in>set (waiting_at now s cc k F j). too_late mx v'' (b_co s c))"
    and ex: "sc_last v'' = sc_last v' \<or> (\<exists>j\<in>{i + 1..m}. \<exists>c\<in>set (waiting_at now s cc k F j).
         sc_last v'' = i64 (c_time (b_co s c) + c_precision (b_co s c)))"
    using rest unfolding scan_post_def P P[of "covers mx v''"] P'[of "too_late mx v''"]
      P'[of "\<lambda>co. sc_last v'' = i64 (c_time co + c_precision co)"] by blast+
  have le': "sc_last v' \<le> sc_last v" unfolding v' by (rule scan_list_last)
  have cov0: "covers mx v'' (b_co s c)" if "c \<in> set (waiting_at now s cc k F i)" for c
    using scan_list_covers[OF that] covers_mono[OF _ le] unfolding v' by blast
  have split: "j = i \<or> j \<in> {i + 1..m}" if "j \<in> {i..m}" for j using that by auto
  have sub: "{i + 1..m} \<subseteq> {i..m}" "i \<in> {i..m}" using im by auto
  have "m = L \<or> (\<exists>j\<in>{i..m}. \<exists>c\<in>set (waiting_at now s cc k F j). too_late mx v'' (b_co s c))"
  proof (cases "sc_lastb v' = sc_lastb v")
    case True
    with L' fin sub show ?thesis by blast
  next
    case False
    then obtain c where "c \<in> set (waiting_at now s cc k F i)" "too_late mx v' (b_co s c)"
      using scan_list_lastb[of now mx nowb s "bucket_at s cc k F i" v] v' by auto
    with too_late_mono[OF _ le] sub show ?thesis by blast
  qed
  moreover have "sc_last v'' = sc_last v \<or> (\<exists>j\<in>{i..m}. \<exists>c\<in>set (waiting_at now s cc k F j).
         sc_last v'' = i64 (c_time (b_co s c) + c_precision (b_co s c)))"
  proof (cases "sc_last v'' = sc_last v'")
    case True
    have "sc_last v' = sc_last v \<or> (\<exists>c\<in>set (waiting_at now s cc k F i).
         sc_last v' = i64 (c_time (b_co s c) + c_precision (b_co s c)))"
      unfolding v' by (rule scan_list_exact)
    then show ?thesis unfolding True using sub(2) by blast
  next
    case False
    with ex sub(1) show ?thesis by blast
  qed
  moreover have "\<forall>j\<in>{i..m}. \<forall>c\<in>set (waiting_at now s cc k F j). covers mx v'' (b_co s c)"
    using cov cov0 split by blast
  ultimately show ?thesis
    using le le' unfolding scan_post_def by linarith
qed

lemma due_run_Cons: "i \<le> m \<Longrightarrow> due_run now s cc k F i m = due now s (bucket_at s cc k F i) @ due_run now s cc k F (i + 1) m"
  by (simp add: due_run_def upto_rec1)

lemma due_run_single: "due_run now s cc k F i i = due now s (bucket_at s cc k F i)"
  by (simp add: due_run_def)

lemma set_due_run:
  "c \<in> set (due_run now s cc k F i m) \<longleftrightarrow>
     (\<exists>j\<in>{i..m}. c \<in> set (bucket_at s cc k F j)) \<and> c_time (b_co s c) \<le> now"
  by (auto simp: due_run_def)

lemma due_run_cong:
  assumes "\<And>j. j \<in> {i..m} \<Longrightarrow> bucket_at s' cc k F j = bucket_at s cc k F j"
    "\<And>j c. j \<in> {i..m} \<Longrightarrow> c \<in> set (bucket_at s cc k F j) \<Longrightarrow> b_co s' c = b_co s c"
  shows "due_run now s' cc k F i m = due_run now s cc k F i m"
  unfolding due_run_def
  by (intro arg_cong[where f = concat] map_cong refl, simp only: set_upto assms(1), rule filter_cong)
     (simp_all add: assms(2))

text \<open>One round of the loop, the scan of the bucket worked out.\<close>

lemma process_buckets_round:
  assumes "linked s" "direct_free s cc" "callwheelmask s = callwheelsize s - 1" "callwheelsize s = 2 ^ k" "k \<le> 30"
  shows "process_buckets E cc now mx nowb (u32 (F + i)) v s =
    (let v' = scan_list now mx nowb s (bucket_at s cc k F i) v;
         s' = expire_all cc (due now s (bucket_at s cc k F i)) s
     in if i32 (u32 (F + (i + 1)) - sc_lastb v') \<le> 0 then process_buckets E cc now mx nowb (u32 (F + (i + 1))) v' s'
        else Some (v', s'))"
proof -
  have pos: "u32 (F + i) AND callwheelmask s = (F + i) mod 2 ^ k"
    using and_mask[OF assms(3,4)] u32_mod[of k "F + i"] assms(5) by simp
  have "process_bucket E cc now mx nowb ((F + i) mod 2 ^ k) (first (bucket_at s cc k F i)) v s =
      Some (scan_list now mx nowb s (bucket_at s cc k F i) v, expire_all cc (due now s (bucket_at s cc k F i)) s)"
    by (rule process_bucket_run[where b = "(F + i) mod 2 ^ k" and ps = "[]"]) (use assms in \<open>simp_all add: bucket_at_def\<close>)
  then show ?thesis
    by (subst process_buckets.simps) (simp add: pos bucket_at_def[symmetric] Let_def add.assoc)
qed

lemma process_buckets_run:
  assumes "linked s" "direct_free s cc" "callwheelmask s = callwheelsize s - 1" "callwheelsize s = 2 ^ k" "k \<le> 30"
    and "0 \<le> i" "i \<le> L" "L < 2 ^ k" "0 \<le> M" "M \<le> L" "sc_lastb v = u32 (F + L)"
  shows "\<exists>v' m. process_buckets E cc now mx (u32 (F + M)) (u32 (F + i)) v s
            = Some (v', expire_all cc (due_run now s cc k F i m) s)
          \<and> i \<le> m \<and> M \<le> m \<and> m \<le> L \<and> scan_post now mx s cc k F i L m v v'"
  using assms
proof (induction "nat (2 ^ k - i)" arbitrary: i L v s rule: less_induct)
  case less
  note prems = less.prems
  have k31: "(2::int) ^ k \<le> 2 ^ 30" using prems(5) by (intro power_increasing) auto
  define ds where "ds = due now s (bucket_at s cc k F i)"
  define v' where "v' = scan_list now mx (u32 (F + M)) s (bucket_at s cc k F i) v"
  define s' where "s' = expire_all cc ds s"
  define L' where "L' = (if sc_lastb v' = sc_lastb v then L else M)"
  have lastb: "sc_lastb v' = u32 (F + L')"
    using scan_list_lastb[of now mx "u32 (F + M)" s "bucket_at s cc k F i" v] prems(11)
    by (auto simp: v'_def[symmetric] L'_def)
  have L': "M \<le> L'" "L' \<le> L" "0 \<le> L'" using prems(9,10) by (auto simp: L'_def)
  have "i32 (u32 (F + (i + 1)) - sc_lastb v') = i32 (i + 1 - L')"
    unfolding lastb i32_u32_diff by simp
  also have "\<dots> = i + 1 - L'"
    using prems(6-8) L' k31 by (intro i32_id) auto
  finally have test: "i32 (u32 (F + (i + 1)) - sc_lastb v') \<le> 0 \<longleftrightarrow> i + 1 \<le> L'" by simp
  have round: "process_buckets E cc now mx (u32 (F + M)) (u32 (F + i)) v s =
      (if i + 1 \<le> L' then process_buckets E cc now mx (u32 (F + M)) (u32 (F + (i + 1))) v' s' else Some (v', s'))"
    unfolding process_buckets_round[OF prems(1-5)] Let_def v'_def[symmetric] ds_def[symmetric] s'_def[symmetric] test ..
  show ?case
  proof (cases "i + 1 \<le> L'")
    case False
    have "sc_lastb v' = sc_lastb v \<longrightarrow> i = L" using False prems(7) by (auto simp: L'_def)
    from scan_post_one[OF v'_def this]
    have "scan_post now mx s cc k F i L i v v'" .
    moreover have "M \<le> i" using False L' by simp
    ultimately show ?thesis
      using False prems(7) unfolding round s'_def ds_def due_run_single[symmetric] by auto
  next
    case True
    have sub: "c \<in> set (bucket_at s cc k F i)" if "c \<in> set ds" for c using that by (auto simp: ds_def)
    have lt: "j \<le> L' \<Longrightarrow> i < j \<Longrightarrow> \<bar>i - j\<bar> < 2 ^ k" for j using prems(6,8) L' by linarith
    have same1: "bucket_at s' cc k F j = bucket_at s cc k F j" if "i < j" "j \<le> L'" for j
      unfolding s'_def by (rule bucket_at_expire(1)[OF prems(1) sub]) (use lt[of j] that in auto)
    have same2: "b_co s' c = b_co s c" if "i < j" "j \<le> L'" "c \<in> set (bucket_at s cc k F j)" for j c
      unfolding s'_def by (rule bucket_at_expire(2)[OF prems(1) sub _ _ that(3)]) (use lt[of j] that in auto)
    have lk: "linked s'" unfolding s'_def
    proof (rule expire_all_linked[OF prems(1)])
      show "distinct ds" using linked_distinct(1)[OF prems(1)] by (simp add: ds_def bucket_at_def)
      show "\<exists>b. c \<in> set (wheel s cc b)" if "c \<in> set ds" for c using sub[OF that] by (auto simp: bucket_at_def)
    qed
    have df: "direct_free s' cc" using prems(2) by (auto simp: direct_free_def s'_def)
    have "\<exists>v'' m. process_buckets E cc now mx (u32 (F + M)) (u32 (F + (i + 1))) v' s'
            = Some (v'', expire_all cc (due_run now s' cc k F (i + 1) m) s')
          \<and> i + 1 \<le> m \<and> M \<le> m \<and> m \<le> L' \<and> scan_post now mx s' cc k F (i + 1) L' m v' v''"
      by (rule less.hyps[OF _ lk df]) (use True prems L' lastb in \<open>auto simp: s'_def\<close>)
    then obtain v'' m where r: "process_buckets E cc now mx (u32 (F + M)) (u32 (F + (i + 1))) v' s'
            = Some (v'', expire_all cc (due_run now s' cc k F (i + 1) m) s')"
        and m: "i + 1 \<le> m" "M \<le> m" "m \<le> L'" and post: "scan_post now mx s' cc k F (i + 1) L' m v' v''"
      by blast
    have same': "bucket_at s' cc k F j = bucket_at s cc k F j"
        "c \<in> set (bucket_at s cc k F j) \<Longrightarrow> b_co s' c = b_co s c" if "j \<in> {i + 1..m}" for j c
      using same1[of j] same2[of j] that m by auto
    have run: "due_run now s' cc k F (i + 1) m = due_run now s cc k F (i + 1) m"
      by (rule due_run_cong) (use same' in auto)
    have "set ds \<inter> set (due_run now s cc k F (i + 1) m) = {}"
    proof -
      have "c \<notin> set ds" if "j \<in> {i + 1..m}" "c \<in> set (bucket_at s cc k F j)" for j c
        using bucket_at_disjoint[OF prems(1) sub that(2)] that(1) lt[of j] m by auto
      then show ?thesis by (auto simp: set_due_run)
    qed
    then have "expire_all cc (due_run now s cc k F (i + 1) m) s' = expire_all cc (ds @ due_run now s cc k F (i + 1) m) s"
      unfolding s'_def by (rule expire_all_append)
    also have "ds @ due_run now s cc k F (i + 1) m = due_run now s cc k F i m"
      using m by (simp only: ds_def due_run_Cons[of i m])
    finally have "expire_all cc (due_run now s' cc k F (i + 1) m) s' = expire_all cc (due_run now s cc k F i m) s"
      by (simp only: run)
    moreover have "scan_post now mx s cc k F i L m v v''"
      by (rule scan_post_step[OF v'_def post _ same' m(1)]) (auto simp: L'_def)
    ultimately show ?thesis
      using True r m L' by (intro exI[of _ v''] exI[of _ m]) (simp add: round)
  qed
qed

end
