(* ===== verification/Bsd_Process.thy ===== *)
theory Bsd_Process
  imports Bsd_Scan
begin

text \<open>
  callout_process as a whole: which buckets it covers, that it moves exactly the due callouts of its CPU to
  the expiry queue, and when the event time that it leaves is a lower bound of the remaining deadlines.
\<close>

section \<open>The range of buckets\<close>

text \<open>The time since the last scan for which the 32 bit bucket numbers are not ambiguous.\<close>

definition scan_gap_ok :: "int \<Rightarrow> int \<Rightarrow> bool" where
  "scan_gap_ok lastscan now = (0 \<le> lastscan \<and> lastscan \<le> now \<and> now \<le> lastscan + 2 ^ 54 \<and> now < SBT_MAX - 2 ^ 32)"

definition lookahead_of :: "int \<Rightarrow> int \<Rightarrow> int" where
  "lookahead_of F now = (if u32 (tick_of now) = u32 F then 2 ^ 28
     else if u32 (tick_of now - F) = 1 then 2 ^ 29 else 2 ^ 31)"

lemma tick_of_bounds: "2 ^ 24 * tick_of t \<le> t" "t < 2 ^ 24 * tick_of t + 2 ^ 24"
proof -
  have "16777216 * (t div 16777216) + t mod 16777216 = t" "0 \<le> t mod 16777216" "t mod 16777216 < 16777216"
    by simp_all
  then show "2 ^ 24 * tick_of t \<le> t" "t < 2 ^ 24 * tick_of t + 2 ^ 24"
    by (simp_all add: tick_of_def)
qed

lemma tick_of_aligned: "t - t mod 2 ^ 24 = 2 ^ 24 * tick_of t"
  unfolding tick_of_def by (simp add: minus_mod_eq_mult_div)

lemma tick_of_mult [simp]: "tick_of (2 ^ 24 * x) = x"
  by (simp add: tick_of_def)

lemma tick_of_le_iff: "2 ^ 24 * x \<le> t \<longleftrightarrow> x \<le> tick_of t"
  using tick_of_bounds[of t] by auto

lemma tick_of_lookahead: "tick_of (now + 2 ^ 28) = tick_of now + 16" "tick_of (now + 2 ^ 29) = tick_of now + 32"
  "tick_of (now + 2 ^ 31) = tick_of now + 128"
  by (simp_all add: tick_of_def)

text \<open>The scan covers the distances 0 to \<open>L\<close>, and stops at \<open>M\<close> if it meets a callout too late to join.\<close>

lemma process_range_eq:
  assumes gap: "scan_gap_ok lastscan now" and wk: "wsize = 2 ^ k" "k \<le> 30"
  obtains M L fst A where
    "process_range wsize (callout_hash lastscan) now
       = (u32 (tick_of lastscan + M), u32 (tick_of lastscan + L), fst, 2 ^ 24 * (tick_of now + A))"
    "A \<in> {16, 32, 128}" "0 \<le> M" "M \<le> L" "L < wsize"
    "if tick_of now - tick_of lastscan + A \<le> wsize
     then M = tick_of now - tick_of lastscan \<and> L = M + A - 1
     else L = wsize - 1 \<and> M = min (tick_of now - tick_of lastscan) (wsize - 1)"
proof -
  define F N where "F = tick_of lastscan" and "N = tick_of now"
  define LA where "LA = lookahead_of F now"
  define A where "A = tick_of (now + LA) - N"
  have A: "A \<in> {16, 32, 128}" and LA: "LA \<in> {2 ^ 28, 2 ^ 29, 2 ^ 31}"
    by (auto simp: A_def LA_def lookahead_of_def N_def tick_of_lookahead[simplified])
  have FN: "F \<le> N" using gap by (auto simp: F_def N_def scan_gap_ok_def intro: tick_of_mono)
  have "tick_of now \<le> tick_of (lastscan + 2 ^ 54)" using gap by (intro tick_of_mono) (simp add: scan_gap_ok_def)
  then have NF: "N \<le> F + 2 ^ 30" by (simp add: F_def N_def tick_of_def)
  have w: "1 \<le> wsize" "wsize \<le> 2 ^ 30" using wk power_increasing[of k 30 "2::int"] by auto
  have hl: "callout_hash lastscan = u32 F" "callout_hash now = u32 N"
    by (simp_all add: F_def N_def callout_hash_tick)
  have look: "(if callout_hash now = callout_hash lastscan then SBT_1S div 16
       else if u32 (callout_hash now - callout_hash lastscan) = 1 then SBT_1S div 8 else SBT_1S div 2) = LA"
    by (auto simp: LA_def lookahead_of_def hl SBT_1S_def N_def)
  have i64: "i64 (now + LA) = now + LA" using gap LA
    by (intro i64_id) (auto simp: scan_gap_ok_def SBT_MAX_def)
  have last: "i64 (now + LA) - i64 (now + LA) mod 2 ^ (32 - CC_HASH_SHIFT) = 2 ^ 24 * (N + A)"
  proof -
    have "32 - CC_HASH_SHIFT = 24" by (simp add: CC_HASH_SHIFT_def)
    then show ?thesis unfolding i64 by (simp only: tick_of_aligned) (simp add: A_def)
  qed
  have lastb: "u32 (callout_hash (2 ^ 24 * (N + A)) - 1) = u32 (F + (N - F + A - 1))"
    by (simp only: callout_hash_tick tick_of_mult u32_diff) (simp add: add_diff_eq)
  have d1: "u32 (u32 (F + (N - F + A - 1)) - callout_hash lastscan) = N - F + A - 1"
    unfolding hl by (simp only: u32_diff) (subst u32_id, use FN NF A in auto)
  have d2: "u32 (callout_hash now - callout_hash lastscan) = N - F"
    unfolding hl by (simp only: u32_diff) (subst u32_id, use FN NF in auto)
  have d3: "u32 (callout_hash lastscan + wsize - 1) = u32 (F + (wsize - 1))"
    unfolding hl by (simp only: add_diff_eq[symmetric] u32_add)
  have range: "process_range wsize (callout_hash lastscan) now =
      (if wsize \<le> N - F + A - 1
       then (if wsize \<le> N - F then u32 (F + (wsize - 1)) else callout_hash now, u32 (F + (wsize - 1)),
             i64 (now + LA div 2), 2 ^ 24 * (N + A))
       else (callout_hash now, u32 (F + (N - F + A - 1)), i64 (now + LA div 2), 2 ^ 24 * (N + A)))"
    unfolding process_range_def Let_def look
    unfolding last
    unfolding lastb
    unfolding d1 d2 d3 by (simp only:)
  define M where "M = (if N - F + A \<le> wsize then N - F else min (N - F) (wsize - 1))"
  define L where "L = (if N - F + A \<le> wsize then N - F + A - 1 else wsize - 1)"
  show thesis
  proof (rule that)
    have "callout_hash now = u32 (F + (N - F))" by (simp add: hl)
    then show "process_range wsize (callout_hash lastscan) now
       = (u32 (tick_of lastscan + M), u32 (tick_of lastscan + L), i64 (now + LA div 2), 2 ^ 24 * (tick_of now + A))"
      unfolding range F_def[symmetric] N_def[symmetric] M_def L_def by (auto simp: min_def)
    show "A \<in> {16, 32, 128}" by (rule A)
    show "0 \<le> M" "M \<le> L" "L < wsize" using FN A w by (auto simp: M_def L_def)
    show "if tick_of now - tick_of lastscan + A \<le> wsize
     then M = tick_of now - tick_of lastscan \<and> L = M + A - 1
     else L = wsize - 1 \<and> M = min (tick_of now - tick_of lastscan) (wsize - 1)"
      by (simp add: M_def L_def F_def[symmetric] N_def[symmetric])
  qed
qed

section \<open>Where the callouts of the wheel lie\<close>

lemma on_wheel_bucket:
  assumes "bsd_ok s" "callwheelsize s = 2 ^ k" "k \<le> 30" "c \<in> set (wheel s cc b)"
  shows "c \<in> set (bucket_at s cc k F ((tick_of (c_time (b_co s c)) - F) mod 2 ^ k))"
proof -
  have m: "callwheelmask s = callwheelsize s - 1" using bsd_okD(1)[OF assms(1)] by (simp add: sized_def)
  have "b = callout_hash (c_time (b_co s c)) AND callwheelmask s"
    using bsd_ok_wheel[OF assms(1,4)] by (simp add: on_wheel_ok_def)
  also have "\<dots> = tick_of (c_time (b_co s c)) mod 2 ^ k"
    using assms(3) by (simp add: and_mask[OF m assms(2)] callout_hash_tick u32_mod)
  finally have "(F + (tick_of (c_time (b_co s c)) - F) mod 2 ^ k) mod 2 ^ k = b"
    by (simp add: mod_add_right_eq)
  with assms(4) show ?thesis by (simp add: bucket_at_def)
qed

lemma in_bucket_tick:
  assumes "bsd_ok s" "callwheelsize s = 2 ^ k" "k \<le> 30" "c \<in> set (bucket_at s cc k F j)" "0 \<le> j" "j < 2 ^ k"
  shows "j = (tick_of (c_time (b_co s c)) - F) mod 2 ^ k"
proof -
  define j' where "j' = (tick_of (c_time (b_co s c)) - F) mod 2 ^ k"
  have "c \<in> set (wheel s cc ((F + j) mod 2 ^ k))" using assms(4) by (simp add: bucket_at_def)
  from on_wheel_bucket[OF assms(1-3) this, of F] have "c \<in> set (bucket_at s cc k F j')"
    by (simp add: j'_def)
  moreover have "0 \<le> j'" "j' < 2 ^ k" by (simp_all add: j'_def)
  ultimately have "j = j'"
    using bucket_at_disjoint[OF bsd_okD(2)[OF assms(1)] assms(4)] assms(5,6) by (auto simp: abs_if)
  then show ?thesis by (simp add: j'_def)
qed

lemma distinct_due_run:
  assumes "linked s" "m < i + 2 ^ k"
  shows "distinct (due_run now s cc k F i m)"
  using assms(2)
proof (induction "nat (m + 1 - i)" arbitrary: i)
  case 0
  then show ?case by (simp add: due_run_def)
next
  case (Suc n)
  then have im: "i \<le> m" by simp
  have "distinct (due now s (bucket_at s cc k F i))"
    using linked_distinct(1)[OF assms(1)] by (simp add: bucket_at_def)
  moreover have "distinct (due_run now s cc k F (i + 1) m)"
    using Suc by (intro Suc.hyps(1)) auto
  moreover have "c \<notin> set (bucket_at s cc k F i)" if "c \<in> set (due_run now s cc k F (i + 1) m)" for c
    using that bucket_at_disjoint[OF assms(1), of c cc k F i] Suc.prems by (force simp: set_due_run)
  ultimately show ?case unfolding due_run_Cons[OF im] by auto
qed

lemma on_wheel_deadline:
  assumes "bsd_ok s" "c \<in> set (wheel s cc b)"
  shows "i64 (c_time (b_co s c) + c_precision (b_co s c)) = deadline (b_co s c)"
    "c_time (b_co s c) \<le> deadline (b_co s c)" "cc_lastscan (b_cc s cc) \<le> c_time (b_co s c)"
proof -
  note w = bsd_ok_wheel[OF assms] and l = bsd_okD(3)[OF assms(1), of cc]
  show "i64 (c_time (b_co s c) + c_precision (b_co s c)) = deadline (b_co s c)"
    unfolding deadline_def by (rule i64_id) (use w l in \<open>auto simp: on_wheel_ok_def SBT_MAX_def\<close>)
  show "c_time (b_co s c) \<le> deadline (b_co s c)" "cc_lastscan (b_cc s cc) \<le> c_time (b_co s c)"
    using w by (auto simp: on_wheel_ok_def deadline_def)
qed

section \<open>The state that the scan leaves\<close>

definition scanned :: "nat \<Rightarrow> int \<Rightarrow> addr list \<Rightarrow> scan \<Rightarrow> 'w bsd \<Rightarrow> 'w bsd" where
  "scanned cc now ds v s =
     (let s' = emit (New_callout cc (sc_last v) (sc_first v))
           (upd_cc cc (\<lambda>cc. cc\<lparr>cc_firstevent := sc_last v\<rparr>)
             (expire_all cc ds (upd_cc cc (\<lambda>cc. cc\<lparr>cc_lastscan := now\<rparr>) s)))
      in if expireq s cc @ ds \<noteq> [] then emit (Swi_sched cc) s' else s')"

lemma scanned_simps [simp]:
  "b_co (scanned cc now ds v s) = b_co (expire_all cc ds s)"
  "wheel (scanned cc now ds v s) cpu b = wheel (expire_all cc ds s) cpu b"
  "expireq (scanned cc now ds v s) cpu = expireq (expire_all cc ds s) cpu"
  "cc_lastscan (b_cc (scanned cc now ds v s) cpu) = (if cpu = cc then now else cc_lastscan (b_cc s cpu))"
  "cc_firstevent (b_cc (scanned cc now ds v s) cpu) = (if cpu = cc then sc_last v else cc_firstevent (b_cc s cpu))"
  "cc_exec_entity (b_cc (scanned cc now ds v s) cpu) = cc_exec_entity (b_cc s cpu)"
  "callwheelsize (scanned cc now ds v s) = callwheelsize s" "callwheelmask (scanned cc now ds v s) = callwheelmask s"
  "b_curcpu (scanned cc now ds v s) = b_curcpu s" "b_world (scanned cc now ds v s) = b_world s"
  "b_calls (scanned cc now ds v s) = b_calls s @ New_callout cc (sc_last v) (sc_first v) #
     (if expireq s cc @ ds \<noteq> [] then [Swi_sched cc] else [])"
  by (simp_all add: scanned_def upd_defs expire_all_def Let_def cong: if_cong)

lemma bsd_linked_cong:
  assumes "b_co s' = b_co s" "\<And>cpu. cc_callwheel (b_cc s' cpu) = cc_callwheel (b_cc s cpu)"
    "\<And>cpu. cc_expireq (b_cc s' cpu) = cc_expireq (b_cc s cpu)"
  shows "linked s' = linked s"
  by (simp add: linked_def assms)

text \<open>The time that the scan gives to the event timer is a bound of the deadlines when the scan does not wrap
  round part of the wheel: either the times it looks at lie within one turn, or it looks at every bucket.\<close>

definition whole_turns :: "int \<Rightarrow> int \<Rightarrow> int \<Rightarrow> bool" where
  "whole_turns wsize lastscan now =
     (tick_of now - tick_of lastscan + 128 \<le> wsize \<or> wsize \<le> tick_of now - tick_of lastscan)"

lemma callout_process_run:
  assumes ok: "bsd_ok s" and df: "direct_free s (b_curcpu s)"
    and gap: "scan_gap_ok (cc_lastscan (b_cc s (b_curcpu s))) now"
  obtains ds v where
    "callout_process E now s = Some (scanned (b_curcpu s) now ds v s)" "distinct ds"
    "\<forall>c. c \<in> set ds \<longleftrightarrow> (\<exists>b. c \<in> set (wheel s (b_curcpu s) b)) \<and> c_time (b_co s c) \<le> now"
    "now < sc_last v" "sc_last v \<le> now + 2 ^ 31"
    "whole_turns (callwheelsize s) (cc_lastscan (b_cc s (b_curcpu s))) now \<longrightarrow>
       (\<forall>b. \<forall>c\<in>set (wheel s (b_curcpu s) b). now < c_time (b_co s c) \<longrightarrow> sc_last v \<le> deadline (b_co s c))"
proof -
  define cc where "cc = b_curcpu s"
  define F where "F = tick_of (cc_lastscan (b_cc s cc))"
  define s0 where "s0 = upd_cc cc (\<lambda>cc. cc\<lparr>cc_lastscan := now\<rparr>) s"
  obtain k where k: "callwheelsize s = 2 ^ k" "k \<le> 30" and mask: "callwheelmask s = callwheelsize s - 1"
    using bsd_okD(1)[OF ok] by (auto simp: sized_def)
  obtain M L fst A where range: "process_range (callwheelsize s) (callout_hash (cc_lastscan (b_cc s cc))) now
       = (u32 (F + M), u32 (F + L), fst, 2 ^ 24 * (tick_of now + A))"
    and A: "A \<in> {16, 32, 128}" and LM: "0 \<le> M" "M \<le> L" "L < callwheelsize s"
    and LMeq: "if tick_of now - F + A \<le> callwheelsize s then M = tick_of now - F \<and> L = M + A - 1
     else L = callwheelsize s - 1 \<and> M = min (tick_of now - F) (callwheelsize s - 1)"
    by (rule process_range_eq[OF gap[folded cc_def] k, folded F_def])
  have lk: "linked s" using ok by (rule bsd_okD)
  have s0: "linked s0" "direct_free s0 cc" "callwheelmask s0 = callwheelsize s0 - 1" "callwheelsize s0 = 2 ^ k"
    using lk df mask k(1) bsd_linked_cong[of s0 s] by (auto simp: s0_def upd_defs direct_free_def cc_def)
  have bs0: "bucket_at s0 cc k F j = bucket_at s cc k F j" "b_co s0 = b_co s" for j
    by (simp_all add: bucket_at_def s0_def upd_defs)
  have s0_size: "callwheelsize s0 = callwheelsize s" and s0_expireq: "cc_expireq (b_cc s0 cc) = expireq s cc"
    by (simp_all add: s0_def upd_cc_def)
  have expireq_emit: "cc_expireq (b_cc (emit e (upd_cc cc (\<lambda>cc. cc\<lparr>cc_firstevent := x\<rparr>) t)) cc) = cc_expireq (b_cc t cc)"
    for e x and t :: "'a bsd" by (simp add: emit_def upd_cc_def)
  define v0 where "v0 = \<lparr>sc_first = fst, sc_last = 2 ^ 24 * (tick_of now + A), sc_lastb = u32 (F + L)\<rparr>"
  obtain v m where run: "process_buckets E cc now (sc_last v0) (u32 (F + M)) (u32 (F + 0)) v0 s0
            = Some (v, expire_all cc (due_run now s0 cc k F 0 m) s0)"
      and m: "0 \<le> m" "M \<le> m" "m \<le> L" and post: "scan_post now (sc_last v0) s0 cc k F 0 L m v0 v"
    using process_buckets_run[OF s0 k(2), of 0 L M v0 F E now "sc_last v0"] LM k(1) unfolding v0_def by auto
  define ds where "ds = due_run now s0 cc k F 0 m"
  have dss: "ds = due_run now s cc k F 0 m" unfolding ds_def by (rule due_run_cong) (simp_all add: bs0)
  have W: "(2::int) ^ k = callwheelsize s" using k(1) by simp
  have tk: "F \<le> tick_of (c_time (b_co s c))" if "c \<in> set (wheel s cc b)" for c b
    unfolding F_def by (rule tick_of_mono[OF on_wheel_deadline(3)[OF ok that]])
  have pos: "c \<in> set (bucket_at s cc k F ((tick_of (c_time (b_co s c)) - F) mod 2 ^ k))"
    if "c \<in> set (wheel s cc b)" for c b
    by (rule on_wheel_bucket[OF ok k that])
  have cover_now: "(tick_of (c_time (b_co s c)) - F) mod 2 ^ k \<le> M"
    if "c \<in> set (wheel s cc b)" "c_time (b_co s c) \<le> now" for c b
  proof -
    have d: "0 \<le> tick_of (c_time (b_co s c)) - F" "tick_of (c_time (b_co s c)) - F \<le> tick_of now - F"
      using tk[OF that(1)] tick_of_mono[OF that(2)] by auto
    have "(tick_of (c_time (b_co s c)) - F) mod 2 ^ k \<le> tick_of (c_time (b_co s c)) - F"
      using d(1) by (rule zmod_le_nonneg_dividend)
    moreover have "(tick_of (c_time (b_co s c)) - F) mod 2 ^ k < callwheelsize s" unfolding W[symmetric] by simp
    ultimately show ?thesis using d(2) LMeq by (auto simp: min_def split: if_splits)
  qed
  have last0: "sc_last v0 = 2 ^ 24 * (tick_of now + A)" by (simp add: v0_def)
  have b0: "sc_last v \<le> sc_last v0"
    and b1: "\<And>j c. j \<in> {0..m} \<Longrightarrow> c \<in> set (waiting_at now s cc k F j) \<Longrightarrow> covers (sc_last v0) v (b_co s c)"
    and b2: "m = L \<or> (\<exists>j\<in>{0..m}. \<exists>c\<in>set (waiting_at now s cc k F j). too_late (sc_last v0) v (b_co s c))"
    and b3: "sc_last v = sc_last v0 \<or> (\<exists>j\<in>{0..m}. \<exists>c\<in>set (waiting_at now s cc k F j).
         sc_last v = i64 (c_time (b_co s c) + c_precision (b_co s c)))"
    using post unfolding scan_post_def bs0 by blast+
  show thesis
  proof (rule that)
    show "callout_process E now s = Some (scanned (b_curcpu s) now ds v s)"
      unfolding callout_process_def Let_def cc_def[symmetric] s0_def[symmetric]
      using run range
      by (simp add: v0_def callout_hash_tick F_def[symmetric] ds_def[symmetric] scanned_def s0_def[symmetric]
            s0_size s0_expireq expireq_emit Let_def)
  next
    show "distinct ds" unfolding dss by (rule distinct_due_run[OF lk]) (use m LM W in auto)
  next
    show "\<forall>c. c \<in> set ds \<longleftrightarrow> (\<exists>b. c \<in> set (wheel s (b_curcpu s) b)) \<and> c_time (b_co s c) \<le> now"
    proof (intro allI iffI)
      fix c
      assume "c \<in> set ds"
      then show "(\<exists>b. c \<in> set (wheel s (b_curcpu s) b)) \<and> c_time (b_co s c) \<le> now"
        unfolding dss set_due_run by (auto simp: bucket_at_def cc_def)
    next
      fix c
      assume "(\<exists>b. c \<in> set (wheel s (b_curcpu s) b)) \<and> c_time (b_co s c) \<le> now"
      then obtain b where b: "c \<in> set (wheel s cc b)" "c_time (b_co s c) \<le> now" by (auto simp: cc_def)
      have "(tick_of (c_time (b_co s c)) - F) mod 2 ^ k \<in> {0..m}" using cover_now[OF b] m(2) by simp
      with pos[OF b(1)] b(2) show "c \<in> set ds" unfolding dss set_due_run by blast
    qed
  next
    show "now < sc_last v"
      using b3 last0 tick_of_bounds(2)[of now] A on_wheel_deadline(1,2)[OF ok] by (fastforce simp: bucket_at_def)
  next
    show "sc_last v \<le> now + 2 ^ 31" using b0 last0 tick_of_bounds(1)[of now] A by auto
  next
    show "whole_turns (callwheelsize s) (cc_lastscan (b_cc s (b_curcpu s))) now \<longrightarrow>
       (\<forall>b. \<forall>c\<in>set (wheel s (b_curcpu s) b). now < c_time (b_co s c) \<longrightarrow> sc_last v \<le> deadline (b_co s c))"
    proof
    assume wt: "whole_turns (callwheelsize s) (cc_lastscan (b_cc s (b_curcpu s))) now"
    have bound: "sc_last v \<le> deadline (b_co s c)" if c: "c \<in> set (wheel s cc b)" and tc: "now < c_time (b_co s c)" for c b
    proof (cases "(tick_of (c_time (b_co s c)) - F) mod 2 ^ k \<le> m")
      case True
      have "covers (sc_last v0) v (b_co s c)"
        by (rule b1) (use True pos[OF c] tc in auto)
      with b0 on_wheel_deadline(1,2)[OF ok c] show ?thesis by (auto simp: covers_def)
    next
      case False
      define p where "p = (tick_of (c_time (b_co s c)) - F) mod 2 ^ k"
      have p: "m < p" "p \<le> tick_of (c_time (b_co s c)) - F" "p < callwheelsize s"
        using False tk[OF c] zmod_le_nonneg_dividend[of "tick_of (c_time (b_co s c)) - F" "2 ^ k"]
        by (simp_all add: p_def W[symmetric])
      have nw: "L = M + A - 1" "M = tick_of now - F"
        using LMeq wt A p m by (auto simp: whole_turns_def cc_def[symmetric] F_def[symmetric] split: if_splits)
      show ?thesis
      proof (cases "m = L")
        case True
        have "tick_of now + A \<le> tick_of (c_time (b_co s c))" using p nw True by linarith
        then have "sc_last v0 \<le> c_time (b_co s c)" unfolding last0 tick_of_le_iff .
        with b0 on_wheel_deadline(2)[OF ok c] show ?thesis by linarith
      next
        case False
        then obtain j a where j: "j \<in> {0..m}" and a: "a \<in> set (waiting_at now s cc k F j)"
            and late: "too_late (sc_last v0) v (b_co s a)" using b2 by blast
        have aw: "a \<in> set (wheel s cc ((F + j) mod 2 ^ k))" using a by (simp add: bucket_at_def)
        have "\<not> tick_of now + A \<le> tick_of (c_time (b_co s a))"
          using late unfolding too_late_def last0 tick_of_le_iff[symmetric] by simp
        then have "tick_of (c_time (b_co s a)) - F < 2 ^ k" using nw LM W by linarith
        moreover have "j = (tick_of (c_time (b_co s a)) - F) mod 2 ^ k"
          using in_bucket_tick[OF ok k, of a cc F j] a j m LM W by auto
        moreover have "0 \<le> tick_of (c_time (b_co s a)) - F" using tk[OF aw] by simp
        ultimately have "j = tick_of (c_time (b_co s a)) - F" by (simp only: mod_pos_pos_trivial)
        then have "tick_of (c_time (b_co s a)) < tick_of (c_time (b_co s c))" using j p by simp
        then have "c_time (b_co s a) < c_time (b_co s c)" by (rule tick_of_less)
        with late on_wheel_deadline(2)[OF ok c] show ?thesis by (simp add: too_late_def)
      qed
    qed
    then show "\<forall>b. \<forall>c\<in>set (wheel s (b_curcpu s) b). now < c_time (b_co s c) \<longrightarrow> sc_last v \<le> deadline (b_co s c)"
      by (simp add: cc_def)
    qed
  qed
qed

end
