(* ===== verification/Bsd_Ops.thy ===== *)
theory Bsd_Ops
  imports Bsd_Process
begin

text \<open>
  The operations keep the invariant of the wheel: a scan, adding a callout, taking it off its list.
\<close>

section \<open>A scan\<close>

lemma expired_on_expireq:
  "on_wheel_ok ls m co cpu b \<Longrightarrow> on_expireq_ok (expired_callout cpu co) cpu"
  by (auto simp: on_wheel_ok_def on_expireq_ok_def)

lemma scanned_ok:
  assumes ok: "bsd_ok s" and "distinct ds"
    and ds: "\<And>c. c \<in> set ds \<longleftrightarrow> (\<exists>b. c \<in> set (wheel s cc b)) \<and> c_time (b_co s c) \<le> now"
    and now: "0 \<le> now" "now \<le> SBT_MAX"
  shows "bsd_ok (scanned cc now ds v s)"
proof -
  note lk = bsd_okD(2)[OF ok]
  have l0: "linked (scanned cc now ds v s) = linked (expire_all cc ds s)"
    by (rule bsd_linked_cong) (auto simp: fun_eq_iff)
  have "linked (scanned cc now ds v s)"
    unfolding l0 by (rule expire_all_linked[OF lk assms(2)]) (use ds in auto)
  moreover have "sized (scanned cc now ds v s)" using bsd_okD(1)[OF ok] by (simp add: sized_def)
  moreover have "callout_ok (scanned cc now ds v s) c" for c
  proof (cases "c \<in> set ds")
    case True
    then obtain b where "c \<in> set (wheel s cc b)" using ds by auto
    from expired_on_expireq[OF bsd_ok_wheel[OF ok this]] True show ?thesis
      by (simp add: callout_ok_def)
  next
    case False
    have "now \<le> c_time (b_co s c)" if "c_links (b_co s c) = Some (OnWheel cc b)" for b
      using ds[of c] linked_wheel[OF lk, of c cc b] that False by force
    with bsd_okD(4)[OF ok, of c] False show ?thesis
      by (auto simp: callout_ok_def on_wheel_ok_def split: option.splits centry.splits)
  qed
  ultimately show ?thesis using bsd_okD(3,5)[OF ok] now by (simp add: bsd_ok_def)
qed

lemma scanned_timely:
  assumes "timely s"
    and ds: "\<And>c. c \<in> set ds \<longleftrightarrow> (\<exists>b. c \<in> set (wheel s cc b)) \<and> c_time (b_co s c) \<le> now"
    and "\<forall>b. \<forall>c\<in>set (wheel s cc b). now < c_time (b_co s c) \<longrightarrow> sc_last v \<le> deadline (b_co s c)"
    and lk: "linked s"
  shows "timely (scanned cc now ds v s)"
proof -
  have "cc_firstevent (b_cc (scanned cc now ds v s) cpu) \<le> deadline (b_co (scanned cc now ds v s) c)"
    if c: "c \<in> set (wheel (scanned cc now ds v s) cpu b)" for cpu b c
  proof (cases "cpu = cc")
    case True
    then have "c \<in> set (wheel s cc b)" "c \<notin> set ds" using c by auto
    with ds[of c] assms(3) True show ?thesis by fastforce
  next
    case False
    then have w: "c \<in> set (wheel s cpu b)" using c by simp
    have "c \<notin> set ds" using False w ds linked_wheel[OF lk] by (metis centry.inject(1) option.inject)
    with False w assms(1) show ?thesis by (simp add: timely_def)
  qed
  then show ?thesis by (simp add: timely_def)
qed

section \<open>Adding a callout\<close>

text \<open>The time and the precision that callout_cc_add gives to a callout, and the state it leaves.\<close>

definition add_time :: "'w bsd \<Rightarrow> nat \<Rightarrow> int \<Rightarrow> int" where
  "add_time s cc sbt = max sbt (cc_lastscan (b_cc s cc))"

definition add_precision :: "int \<Rightarrow> int \<Rightarrow> int" where
  "add_precision t precision = min precision (SBT_MAX - t)"

definition added_callout :: "cfunc option \<Rightarrow> nat \<Rightarrow> rflag set \<Rightarrow> int \<Rightarrow> int \<Rightarrow> nat \<Rightarrow> int \<Rightarrow> callout \<Rightarrow> callout" where
  "added_callout func arg flags t p cc b co =
     co\<lparr>c_links := Some (OnWheel cc b), c_time := t, c_precision := p, c_arg := arg, c_func := func,
       c_flags := insert CALLOUT_ACTIVE (c_flags co),
       c_iflags := (insert CALLOUT_PENDING (c_iflags co) - {CALLOUT_PROCESSED})
         \<union> (if C_DIRECT_EXEC \<in> flags then {CALLOUT_DIRECT} else {})\<rparr>"

definition added :: "addr \<Rightarrow> nat \<Rightarrow> int \<Rightarrow> int \<Rightarrow> cfunc option \<Rightarrow> nat \<Rightarrow> nat \<Rightarrow> rflag set \<Rightarrow> 'w bsd \<Rightarrow> 'w bsd" where
  "added c cc t p func arg cpu flags s =
     (let b = callout_hash t AND callwheelmask s; first = cc_firstevent (b_cc s cc) in
      s\<lparr>b_co := (b_co s)(c := added_callout func arg flags t p cc b (b_co s c)),
        b_cc := (b_cc s)(cc := (b_cc s cc)\<lparr>cc_callwheel := (cc_callwheel (b_cc s cc))(b := c # wheel s cc b),
          cc_next := (if cc_bucket (b_cc s cc) = b then Some c else cc_next (b_cc s cc)),
          cc_firstevent := min (t + p) first\<rparr>),
        b_calls := b_calls s @ (if t + p < first then [New_callout cpu (t + p) t] else [])\<rparr>)"

lemma added_callout_simps [simp]:
  "c_links (added_callout func arg flags t p cc b co) = Some (OnWheel cc b)"
  "c_time (added_callout func arg flags t p cc b co) = t"
  "c_precision (added_callout func arg flags t p cc b co) = p"
  "c_arg (added_callout func arg flags t p cc b co) = arg"
  "c_func (added_callout func arg flags t p cc b co) = func"
  "c_lock (added_callout func arg flags t p cc b co) = c_lock co"
  "c_cpu (added_callout func arg flags t p cc b co) = c_cpu co"
  "c_flags (added_callout func arg flags t p cc b co) = insert CALLOUT_ACTIVE (c_flags co)"
  "f \<in> c_iflags (added_callout func arg flags t p cc b co) \<longleftrightarrow>
     f = CALLOUT_PENDING \<or> f = CALLOUT_DIRECT \<and> C_DIRECT_EXEC \<in> flags \<or> f \<in> c_iflags co \<and> f \<noteq> CALLOUT_PROCESSED"
  by (auto simp: added_callout_def)

lemma added_simps [simp]:
  "b_co (added c cc t p func arg cpu flags s) d =
     (if d = c then added_callout func arg flags t p cc (callout_hash t AND callwheelmask s) (b_co s c) else b_co s d)"
  "wheel (added c cc t p func arg cpu flags s) n b =
     (if n = cc \<and> b = callout_hash t AND callwheelmask s then c # wheel s n b else wheel s n b)"
  "expireq (added c cc t p func arg cpu flags s) n = expireq s n"
  "cc_lastscan (b_cc (added c cc t p func arg cpu flags s) n) = cc_lastscan (b_cc s n)"
  "cc_inited (b_cc (added c cc t p func arg cpu flags s) n) = cc_inited (b_cc s n)"
  "cc_exec_entity (b_cc (added c cc t p func arg cpu flags s) n) = cc_exec_entity (b_cc s n)"
  "cc_firstevent (b_cc (added c cc t p func arg cpu flags s) n) =
     (if n = cc then min (t + p) (cc_firstevent (b_cc s n)) else cc_firstevent (b_cc s n))"
  "callwheelsize (added c cc t p func arg cpu flags s) = callwheelsize s"
  "callwheelmask (added c cc t p func arg cpu flags s) = callwheelmask s"
  "b_curcpu (added c cc t p func arg cpu flags s) = b_curcpu s" "b_world (added c cc t p func arg cpu flags s) = b_world s"
  "cc_default_cpu (added c cc t p func arg cpu flags s) = cc_default_cpu s"
  by (simp_all add: added_def Let_def)

text \<open>The invariant for every callout but one: what a running callout leaves.\<close>

definition bsd_ok_but :: "addr \<Rightarrow> 'w bsd \<Rightarrow> bool" where
  "bsd_ok_but c s = (sized s \<and> linked s \<and>
     (\<forall>cpu. 0 \<le> cc_lastscan (b_cc s cpu) \<and> cc_lastscan (b_cc s cpu) \<le> SBT_MAX) \<and> (\<forall>d. d \<noteq> c \<longrightarrow> callout_ok s d))"

lemma bsd_ok_butI [intro]: "bsd_ok s \<Longrightarrow> bsd_ok_but c s"
  by (simp add: bsd_ok_def bsd_ok_but_def)

lemma bsd_ok_butD:
  assumes "bsd_ok_but c s"
  shows "sized s" "linked s" "0 \<le> cc_lastscan (b_cc s cpu)" "cc_lastscan (b_cc s cpu) \<le> SBT_MAX"
    "d \<noteq> c \<Longrightarrow> callout_ok s d"
  using assms by (simp_all add: bsd_ok_but_def)

lemma callout_ok_cong:
  assumes "b_co s' c = b_co s c" "\<And>n. cc_lastscan (b_cc s' n) = cc_lastscan (b_cc s n)" "callwheelmask s' = callwheelmask s"
  shows "callout_ok s' c = callout_ok s c"
  by (simp add: callout_ok_def assms cong: option.case_cong centry.case_cong)

lemma bsd_ok_but_cong:
  assumes "\<And>d. d \<noteq> c \<Longrightarrow> b_co s' d = b_co s d" "c_links (b_co s' c) = c_links (b_co s c)"
    "\<And>n. cc_callwheel (b_cc s' n) = cc_callwheel (b_cc s n)" "\<And>n. cc_expireq (b_cc s' n) = cc_expireq (b_cc s n)"
    "\<And>n. cc_lastscan (b_cc s' n) = cc_lastscan (b_cc s n)"
    "callwheelsize s' = callwheelsize s" "callwheelmask s' = callwheelmask s"
  shows "bsd_ok_but c s' = bsd_ok_but c s"
proof -
  have "c_links (b_co s' d) = c_links (b_co s d)" for d using assms(1,2) by (cases "d = c") auto
  then have "linked s' = linked s" by (simp add: linked_def assms(3,4))
  moreover have "callout_ok s' d = callout_ok s d" if "d \<noteq> c" for d
    by (rule callout_ok_cong) (use assms that in auto)
  ultimately show ?thesis by (simp add: bsd_ok_but_def sized_def assms(5-7))
qed

lemma bsd_ok_upd_exec [simp]: "bsd_ok (upd_exec cc d f s) = bsd_ok s"
proof -
  have "callout_ok (upd_exec cc d f s) c = callout_ok s c" for c
    by (rule callout_ok_cong) (simp_all add: upd_defs)
  moreover have "linked (upd_exec cc d f s) = linked s"
    by (rule bsd_linked_cong) (simp_all add: upd_defs)
  moreover have "cc_lastscan (b_cc (upd_exec cc d f s) n) = cc_lastscan (b_cc s n)" for n by (simp add: upd_defs)
  moreover have "sized (upd_exec cc d f s) = sized s" by (simp add: sized_def upd_defs)
  ultimately show ?thesis by (simp add: bsd_ok_def)
qed

lemma callout_cc_add_eq:
  assumes "c_links (b_co s c) = None" and ok: "bsd_ok_but c s" and "sbt \<le> SBT_MAX" "0 \<le> precision" and t: "t = add_time s cc sbt"
  shows "callout_cc_add c cc sbt precision func arg cpu flags s =
    Some (added c cc t (add_precision t precision) func arg cpu flags s)"
proof -
  define p where "p = add_precision t precision"
  have r: "0 \<le> t" "t \<le> SBT_MAX" using assms bsd_ok_butD(3,4)[OF ok, of cc] by (auto simp: add_time_def)
  have i: "i64 (SBT_MAX - t) = SBT_MAX - t" "i64 (t + p) = t + p"
    using r assms(4) by (auto simp: SBT_MAX_def p_def add_precision_def intro!: i64_id)
  have tt: "(if sbt < cc_lastscan (b_cc s cc) then cc_lastscan (b_cc s cc) else sbt) = t"
    by (simp add: t add_time_def)
  have pp: "(if SBT_MAX - t < precision then SBT_MAX - t else precision) = p"
    by (simp add: p_def add_precision_def)
  show ?thesis
    unfolding callout_cc_add_def Let_def tt i pp p_def[symmetric]
    by (auto simp: list_insert_head_def callout_get_bucket_def upd_defs assms(1) i added_def added_callout_def Let_def
      fun_eq_iff intro!: bsd.equality callout_cpu.equality callout.equality)
qed

lemma added_ok:
  assumes ok: "bsd_ok_but c s" and c: "c_links (b_co s c) = None" "c_cpu (b_co s c) = cc"
      "CALLOUT_DFRMIGRATION \<notin> c_iflags (b_co s c)"
    and t: "cc_lastscan (b_cc s cc) \<le> t" "0 \<le> p" "t + p \<le> SBT_MAX"
  shows "bsd_ok (added c cc t p func arg cpu flags s)"
proof -
  define s' where "s' = added c cc t p func arg cpu flags s"
  note lk = bsd_ok_butD(2)[OF ok]
  have nw: "c \<notin> set (wheel s n b)" "c \<notin> set (expireq s n)" for n b
    using c(1) linked_wheel[OF lk] linked_expireq[OF lk] by auto
  have "linked s'"
    using lk nw c(1) unfolding linked_def s'_def by (auto split: if_splits)
  moreover have "callout_ok s' d" for d
    using bsd_ok_butD(5)[OF ok, of d] c t
    by (cases "d = c") (auto simp: s'_def callout_ok_def on_wheel_ok_def split: option.splits centry.splits)
  ultimately show ?thesis
    using bsd_ok_butD(1,3,4)[OF ok] unfolding s'_def[symmetric] by (simp add: bsd_ok_def sized_def s'_def)
qed

lemma added_timely:
  assumes "timely s" and nw: "\<And>n b. c \<notin> set (wheel s n b)"
  shows "timely (added c cc t p func arg cpu flags s)"
  using assms by (auto simp: timely_def deadline_def min_def split: if_splits) (metis order.trans linorder_linear)+

section \<open>Taking a callout off its list\<close>

text \<open>\<open>nx\<close> is the iterator of each CPU, which may step past the callout.\<close>

definition detached :: "addr \<Rightarrow> (nat \<Rightarrow> addr option) \<Rightarrow> 'w bsd \<Rightarrow> 'w bsd" where
  "detached c nx s =
     s\<lparr>b_co := (b_co s)(c := (b_co s c)\<lparr>c_links := None, c_flags := c_flags (b_co s c) - {CALLOUT_ACTIVE},
         c_iflags := c_iflags (b_co s c) - {CALLOUT_PENDING}\<rparr>),
       b_cc := (\<lambda>n. (b_cc s n)\<lparr>cc_callwheel := (\<lambda>b. filter (\<lambda>d. d \<noteq> c) (wheel s n b)),
         cc_expireq := filter (\<lambda>d. d \<noteq> c) (expireq s n), cc_next := nx n\<rparr>)\<rparr>"

lemma detached_simps [simp]:
  "b_co (detached c nx s) d = (if d = c then (b_co s c)\<lparr>c_links := None,
     c_flags := c_flags (b_co s c) - {CALLOUT_ACTIVE}, c_iflags := c_iflags (b_co s c) - {CALLOUT_PENDING}\<rparr> else b_co s d)"
  "wheel (detached c nx s) n b = filter (\<lambda>d. d \<noteq> c) (wheel s n b)"
  "expireq (detached c nx s) n = filter (\<lambda>d. d \<noteq> c) (expireq s n)"
  "cc_lastscan (b_cc (detached c nx s) n) = cc_lastscan (b_cc s n)"
  "cc_firstevent (b_cc (detached c nx s) n) = cc_firstevent (b_cc s n)"
  "cc_inited (b_cc (detached c nx s) n) = cc_inited (b_cc s n)"
  "cc_exec_entity (b_cc (detached c nx s) n) = cc_exec_entity (b_cc s n)"
  "callwheelsize (detached c nx s) = callwheelsize s" "callwheelmask (detached c nx s) = callwheelmask s"
  "b_curcpu (detached c nx s) = b_curcpu s" "b_world (detached c nx s) = b_world s"
  "b_calls (detached c nx s) = b_calls s" "cc_default_cpu (detached c nx s) = cc_default_cpu s"
  by (simp_all add: detached_def)

lemma detached_ok:
  assumes ok: "bsd_ok s" shows "bsd_ok (detached c nx s)"
proof -
  define s' where "s' = detached c nx s"
  have "linked s'" using bsd_okD(2)[OF ok] unfolding linked_def s'_def by auto
  moreover have "callout_ok s' d" for d
    using bsd_okD(4)[OF ok, of d]
    by (auto simp: s'_def callout_ok_def on_wheel_ok_def split: option.splits centry.splits)
  ultimately show ?thesis
    using bsd_okD(1,3,5)[OF ok] unfolding s'_def[symmetric] by (simp add: bsd_ok_def sized_def s'_def)
qed

lemma detached_timely: "timely s \<Longrightarrow> timely (detached c nx s)"
  by (auto simp: timely_def deadline_def)

lemma remove1_filter: "distinct xs \<Longrightarrow> remove1 c xs = filter (\<lambda>d. d \<noteq> c) xs"
  by (induction xs) auto

lemma list_remove_wheel: "c_links (b_co s c) = Some (OnWheel cpu b) \<Longrightarrow>
    list_remove c s = Some (upd_cc cpu (\<lambda>cc. cc\<lparr>cc_callwheel := (cc_callwheel cc)(b := remove1 c (cc_callwheel cc b))\<rparr>)
            (upd_co c (\<lambda>co. co\<lparr>c_links := None\<rparr>) s))"
  and list_next_wheel: "c_links (b_co s c) = Some (OnWheel cpu b) \<Longrightarrow>
    list_next c s = Some (first (tl (dropWhile (\<lambda>d. d \<noteq> c) (wheel s cpu b))))"
  and expireq_remove_expireq: "c_links (b_co s c) = Some (OnExpireq cpu) \<Longrightarrow>
    expireq_remove c s = Some (upd_cc cpu (\<lambda>cc. cc\<lparr>cc_expireq := remove1 c (cc_expireq cc)\<rparr>)
            (upd_co c (\<lambda>co. co\<lparr>c_links := None\<rparr>) s))"
  by (simp_all add: list_remove_def list_next_def expireq_remove_def)

text \<open>A pending callout that is not about to migrate is in the list that its flags name.\<close>

lemma pending_linked:
  assumes "bsd_ok s" "CALLOUT_PENDING \<in> c_iflags (b_co s c)" "CALLOUT_DFRMIGRATION \<notin> c_iflags (b_co s c)"
  obtains b where "c_links (b_co s c) = Some (OnWheel (c_cpu (b_co s c)) b)" "CALLOUT_PROCESSED \<notin> c_iflags (b_co s c)"
    | "c_links (b_co s c) = Some (OnExpireq (c_cpu (b_co s c)))" "CALLOUT_PROCESSED \<in> c_iflags (b_co s c)"
  using bsd_okD(4)[OF assms(1), of c] assms(2,3)
  by (auto simp: callout_ok_def on_wheel_ok_def on_expireq_ok_def split: option.splits centry.splits)

lemma callout_unlink_eq:
  assumes ok: "bsd_ok s" and pend: "CALLOUT_PENDING \<in> c_iflags (b_co s c)" "CALLOUT_DFRMIGRATION \<notin> c_iflags (b_co s c)"
  obtains nx where
    "map_option (\<lambda>s. clear_flag c CALLOUT_ACTIVE (clear_iflag c CALLOUT_PENDING s)) (callout_unlink c cc s)
       = Some (detached c nx s)"
    "callout_unlink c cc (clear_flag c CALLOUT_ACTIVE (clear_iflag c CALLOUT_PENDING s)) = Some (detached c nx s)"
proof -
  note lk = bsd_okD(2)[OF ok]
  define n where "n = cc_next (b_cc s cc)"
  show thesis
    using ok pend
  proof (cases rule: pending_linked)
    case (1 b)
    define cpu where "cpu = c_cpu (b_co s c)"
    have l: "c_links (b_co s c) = Some (OnWheel cpu b)" using 1 by (simp add: cpu_def)
    have w: "filter (\<lambda>d. d \<noteq> c) (wheel s m b') = (if m = cpu \<and> b' = b then remove1 c (wheel s m b') else wheel s m b')" for m b'
      using linked_wheel[OF lk, of c m b'] l by (auto simp: remove1_filter linked_distinct[OF lk])
    have e: "filter (\<lambda>d. d \<noteq> c) (expireq s m) = expireq s m" for m
      using linked_expireq[OF lk, of c m] l by simp
    define x where "x = first (tl (dropWhile (\<lambda>d. d \<noteq> c) (wheel s cpu b)))"
    define nx where "nx = (\<lambda>m. if m = cc \<and> cc_next (b_cc s cc) = Some c then x else cc_next (b_cc s m))"
    show thesis
    proof (rule that[of nx])
      show "map_option (\<lambda>s. clear_flag c CALLOUT_ACTIVE (clear_iflag c CALLOUT_PENDING s)) (callout_unlink c cc s)
         = Some (detached c nx s)"
        by (cases "cc_next (b_cc s cc) = Some c")
          (auto simp: callout_unlink_def 1(2) list_next_wheel[OF l] x_def[symmetric] list_remove_wheel[of _ c cpu b] l upd_defs
            detached_def w e fun_eq_iff nx_def intro!: bsd.equality callout_cpu.equality callout.equality)
      show "callout_unlink c cc (clear_flag c CALLOUT_ACTIVE (clear_iflag c CALLOUT_PENDING s)) = Some (detached c nx s)"
        by (cases "cc_next (b_cc s cc) = Some c")
          (auto simp: callout_unlink_def 1(2) list_next_wheel[of _ c cpu b] x_def[symmetric] list_remove_wheel[of _ c cpu b] l upd_defs
            detached_def w e fun_eq_iff nx_def intro!: bsd.equality callout_cpu.equality callout.equality)
    qed
  next
    case 2
    define cpu where "cpu = c_cpu (b_co s c)"
    have l: "c_links (b_co s c) = Some (OnExpireq cpu)" using 2 by (simp add: cpu_def)
    have w: "filter (\<lambda>d. d \<noteq> c) (wheel s m b') = wheel s m b'" for m b'
      using linked_wheel[OF lk, of c m b'] l by simp
    have e: "filter (\<lambda>d. d \<noteq> c) (expireq s m) = (if m = cpu then remove1 c (expireq s m) else expireq s m)" for m
      using linked_expireq[OF lk, of c m] l by (auto simp: remove1_filter linked_distinct[OF lk])
    show thesis
      by (rule that[of "\<lambda>m. cc_next (b_cc s m)"])
        (auto simp: callout_unlink_def 2(2) expireq_remove_expireq[of _ c cpu] l upd_defs detached_def w e fun_eq_iff
          intro!: bsd.equality callout_cpu.equality callout.equality)
  qed
qed

end
