(* ===== verification/Bsd_Client.thy ===== *)
theory Bsd_Client
  imports Bsd_Ops
begin

text \<open>
  callout_reset_sbt_on and _callout_stop_safe on a callout that does not run, and softclock, worked out for
  the system in which nothing else happens at the points where the locks are released (\<open>quiet\<close>), and the
  callout functions only change the rest of the world (\<open>runs\<close>).
\<close>

definition quiet :: "'w benv \<Rightarrow> bool" where
  "quiet E = (\<forall>s. others E s = Some s)"

lemma quietD: "quiet E \<Longrightarrow> others E s = Some s" by (simp add: quiet_def)

section \<open>Establishing a timeout\<close>

definition move_cpu :: "addr \<Rightarrow> nat \<Rightarrow> 'w bsd \<Rightarrow> 'w bsd" where
  "move_cpu c n = upd_co c (\<lambda>co. co\<lparr>c_cpu := n\<rparr>)"

lemma move_cpu_same: "c_cpu (b_co s c) = n \<Longrightarrow> move_cpu c n s = s"
  by (auto simp: move_cpu_def upd_co_def)

lemma move_cpu_simps [simp]:
  "b_co (move_cpu c n s) d = (if d = c then (b_co s c)\<lparr>c_cpu := n\<rparr> else b_co s d)" "b_cc (move_cpu c n s) = b_cc s"
  "callwheelsize (move_cpu c n s) = callwheelsize s" "callwheelmask (move_cpu c n s) = callwheelmask s"
  "b_curcpu (move_cpu c n s) = b_curcpu s" "b_world (move_cpu c n s) = b_world s" "b_calls (move_cpu c n s) = b_calls s"
  by (simp_all add: move_cpu_def upd_co_def)

lemma move_cpu_ok:
  assumes ok: "bsd_ok s" and "c_links (b_co s c) = None"
  shows "bsd_ok (move_cpu c n s)" and "timely (move_cpu c n s) = timely s"
proof -
  define s' where "s' = move_cpu c n s"
  have "linked s'" using bsd_okD(2)[OF ok] assms(2) by (auto simp: linked_def s'_def)
  moreover have "callout_ok s' d" for d
    using bsd_okD(4)[OF ok, of d] assms(2) by (auto simp: s'_def callout_ok_def split: option.splits centry.splits)
  ultimately show "bsd_ok (move_cpu c n s)"
    using bsd_okD(1,3,5)[OF ok] unfolding s'_def[symmetric] by (simp add: bsd_ok_def sized_def s'_def)
  have "deadline (b_co (move_cpu c n s) d) = deadline (b_co s d)" for d by (simp add: deadline_def)
  then show "timely (move_cpu c n s) = timely s" by (simp add: timely_def)
qed

lemma callout_cpu_switch_quiet: "quiet E \<Longrightarrow> callout_cpu_switch E c n s = Some (move_cpu c n s)"
  by (simp add: callout_cpu_switch_def quietD move_cpu_def upd_co_def)

text \<open>The state in which a callout is off every list.\<close>

definition idle_state :: "addr \<Rightarrow> (nat \<Rightarrow> addr option) \<Rightarrow> 'w bsd \<Rightarrow> 'w bsd" where
  "idle_state c nx s = (if CALLOUT_PENDING \<in> c_iflags (b_co s c) then detached c nx s else s)"

lemma not_pending_unlinked:
  "bsd_ok s \<Longrightarrow> CALLOUT_PENDING \<notin> c_iflags (b_co s c) \<Longrightarrow> c_links (b_co s c) = None"
  using bsd_okD(4)[of s c] by (auto simp: callout_ok_def on_wheel_ok_def on_expireq_ok_def split: option.splits centry.splits)

lemma idle_state_ok:
  assumes "bsd_ok s"
  shows "bsd_ok (idle_state c nx s)" "timely s \<Longrightarrow> timely (idle_state c nx s)" "c_links (b_co (idle_state c nx s) c) = None"
  using assms detached_ok detached_timely not_pending_unlinked[OF assms] by (auto simp: idle_state_def)

lemma idle_state_simps [simp]:
  "d \<noteq> c \<Longrightarrow> b_co (idle_state c nx s) d = b_co s d"
  "c_cpu (b_co (idle_state c nx s) c) = c_cpu (b_co s c)" "c_lock (b_co (idle_state c nx s) c) = c_lock (b_co s c)"
  "c_iflags (b_co (idle_state c nx s) c) = c_iflags (b_co s c) - {CALLOUT_PENDING}"
  "cc_lastscan (b_cc (idle_state c nx s) n) = cc_lastscan (b_cc s n)"
  "cc_inited (b_cc (idle_state c nx s) n) = cc_inited (b_cc s n)"
  "cc_exec_entity (b_cc (idle_state c nx s) n) = cc_exec_entity (b_cc s n)"
  "callwheelsize (idle_state c nx s) = callwheelsize s" "callwheelmask (idle_state c nx s) = callwheelmask s"
  "b_curcpu (idle_state c nx s) = b_curcpu s" "b_world (idle_state c nx s) = b_world s" "b_calls (idle_state c nx s) = b_calls s"
  by (auto simp: idle_state_def)

lemma reset_pending_eq:
  assumes "bsd_ok s" "CALLOUT_DFRMIGRATION \<notin> c_iflags (b_co s c)"
  obtains nx where "reset_pending c cc x s =
    Some (if CALLOUT_PENDING \<in> c_iflags (b_co s c) then 1 else x, idle_state c nx s)"
proof (cases "CALLOUT_PENDING \<in> c_iflags (b_co s c)")
  case True
  from assms(1) True assms(2) obtain nx where
    "map_option (\<lambda>s. clear_flag c CALLOUT_ACTIVE (clear_iflag c CALLOUT_PENDING s)) (callout_unlink c cc s)
       = Some (detached c nx s)" by (rule callout_unlink_eq[where cc = cc])
  with True that[of nx] show thesis by (auto simp: reset_pending_def idle_state_def bind_eq_Some_conv)
next
  case False
  with that show thesis by (simp add: reset_pending_def idle_state_def)
qed

text \<open>The state after callout_reset_sbt_on.\<close>

definition reset_state ::
  "addr \<Rightarrow> (nat \<Rightarrow> addr option) \<Rightarrow> nat \<Rightarrow> int \<times> int \<Rightarrow> cfunc option \<Rightarrow> nat \<Rightarrow> rflag set \<Rightarrow> 'w bsd \<Rightarrow> 'w bsd" where
  "reset_state c nx n w ftn arg flags s =
     added c n (add_time s n (fst w)) (add_precision (add_time s n (fst w)) (snd w)) ftn arg n flags
       (move_cpu c n (idle_state c nx s))"

definition not_running :: "'w bsd \<Rightarrow> addr \<Rightarrow> bool \<Rightarrow> bool" where
  "not_running s c direct =
     (cc_curr (exec_of s (c_cpu (b_co s c)) direct) \<noteq> Some c \<and> CALLOUT_DFRMIGRATION \<notin> c_iflags (b_co s c))"

lemma callout_reset_eq:
  assumes ok: "bsd_ok s" and q: "quiet E" and nr: "not_running s c (C_DIRECT_EXEC \<in> rf_flags flags)"
    and cpu: "c_cpu (b_co s c) \<noteq> MAXCPU E" "cpu = None \<or> the cpu < MAXCPU E \<and> cc_inited (b_cc s (the cpu))"
    and direct: "C_DIRECT_EXEC \<in> rf_flags flags \<longrightarrow> c_lock (b_co s c) = None"
    and w: "w = callout_when k sbt prec flags" "fst w \<le> SBT_MAX" "0 \<le> snd w"
    and n: "n = (case cpu of None \<Rightarrow> c_cpu (b_co s c) | Some n \<Rightarrow> n)"
  obtains nx where "callout_reset_sbt_on E k c sbt prec ftn arg cpu flags s =
    Some (if CALLOUT_PENDING \<in> c_iflags (b_co s c) then 1 else 0, reset_state c nx n w ftn arg (rf_flags flags) s)"
proof -
  define cc where "cc = c_cpu (b_co s c)"
  obtain nx where rp: "reset_pending c cc 0 s =
    Some (if CALLOUT_PENDING \<in> c_iflags (b_co s c) then 1 else 0, idle_state c nx s)"
    using nr by (auto simp: not_running_def intro: reset_pending_eq[OF ok])
  define s1 where "s1 = idle_state c nx s"
  have s1: "bsd_ok s1" "c_links (b_co s1 c) = None" "c_cpu (b_co s1 c) = cc"
    using idle_state_ok[OF ok] by (simp_all add: s1_def cc_def)
  have run: "cc_curr (exec_of s cc direct) \<noteq> Some c" "cc_curr (exec_of s1 cc direct) \<noteq> Some c"
    if "direct = (C_DIRECT_EXEC \<in> rf_flags flags)" for direct
    using nr that by (auto simp: not_running_def exec_of_def cc_def s1_def)
  have add: "callout_cc_add c n (fst w) (snd w) ftn arg n (rf_flags flags) (move_cpu c n s1) =
      Some (reset_state c nx n w ftn arg (rf_flags flags) s)"
    unfolding reset_state_def s1_def[symmetric]
    by (rule callout_cc_add_eq) (use s1 w move_cpu_ok in \<open>auto simp: add_time_def s1_def\<close>)
  have "reset_place E c cc (fst w) (snd w) ftn arg n (rf_flags flags) s1 =
      Some (reset_state c nx n w ftn arg (rf_flags flags) s)"
    using run add s1(3)
    by (cases "cc = n") (simp_all add: reset_place_def Let_def callout_cpu_switch_quiet[OF q] move_cpu_same)
  then have "callout_reset_sbt_on E k c sbt prec ftn arg cpu flags s =
    Some (if CALLOUT_PENDING \<in> c_iflags (b_co s c) then 1 else 0, reset_state c nx n w ftn arg (rf_flags flags) s)"
    using cpu direct run(1)[OF refl] rp
    by (auto simp: callout_reset_sbt_on_def callout_lock_def Let_def w(1)[symmetric] cc_def[symmetric] n[symmetric]
        s1_def[symmetric] split: prod.splits option.splits)
  then show thesis by (rule that)
qed

lemma reset_state_ok:
  assumes ok: "bsd_ok s" and "CALLOUT_DFRMIGRATION \<notin> c_iflags (b_co s c)" "fst w \<le> SBT_MAX" "0 \<le> snd w"
  shows "bsd_ok (reset_state c nx n w ftn arg flags s)" "timely s \<Longrightarrow> timely (reset_state c nx n w ftn arg flags s)"
proof -
  define s1 where "s1 = move_cpu c n (idle_state c nx s)"
  have s1: "bsd_ok s1" "c_links (b_co s1 c) = None" "timely s \<Longrightarrow> timely s1"
    using idle_state_ok[OF ok, of c nx] move_cpu_ok[of "idle_state c nx s" c n] by (simp_all add: s1_def)
  have t: "0 \<le> add_time s n (fst w)" "add_time s n (fst w) \<le> SBT_MAX" "cc_lastscan (b_cc s n) \<le> add_time s n (fst w)"
    using bsd_okD(3,5)[OF ok, of n] assms(3) by (auto simp: add_time_def)
  show "bsd_ok (reset_state c nx n w ftn arg flags s)"
    unfolding reset_state_def s1_def[symmetric]
    by (rule added_ok[OF bsd_ok_butI[OF s1(1)] s1(2)]) (use assms t in \<open>auto simp: s1_def add_precision_def\<close>)
  show "timely (reset_state c nx n w ftn arg flags s)" if "timely s"
    unfolding reset_state_def s1_def[symmetric]
    by (rule added_timely[OF s1(3)[OF that]]) (use linked_wheel[OF bsd_okD(2)[OF s1(1)]] s1(2) in auto)
qed

section \<open>Disestablishing a timeout\<close>

definition stop_allowed :: "'w benv \<Rightarrow> 'w bsd \<Rightarrow> addr \<Rightarrow> sflag set \<Rightarrow> bool" where
  "stop_allowed E s c flags =
     (CS_DRAIN \<in> flags \<or> (\<forall>l. c_lock (b_co s c) = Some l \<longrightarrow> l = Giant E \<or> lock_owned E l s))"

lemma stop_pending_eq:
  assumes "bsd_ok s" "not_running s c direct" "cc = c_cpu (b_co s c)"
  obtains nx where "stop_pending c cc direct False 1 s =
    Some (if CALLOUT_PENDING \<in> c_iflags (b_co s c) then 1 else -1, idle_state c nx s)"
proof (cases "CALLOUT_PENDING \<in> c_iflags (b_co s c)")
  case True
  have "CALLOUT_DFRMIGRATION \<notin> c_iflags (b_co s c)" using assms(2) by (simp add: not_running_def)
  with assms(1) True obtain nx where
    "callout_unlink c cc (clear_flag c CALLOUT_ACTIVE (clear_iflag c CALLOUT_PENDING s)) = Some (detached c nx s)"
    by (rule callout_unlink_eq[where cc = cc])
  with True that[of nx] show thesis by (simp add: stop_pending_def idle_state_def)
next
  case False
  with that assms show thesis by (auto simp: stop_pending_def idle_state_def not_running_def)
qed

lemma callout_stop_eq:
  assumes ok: "bsd_ok s" and nr: "not_running s c (CALLOUT_DIRECT \<in> c_iflags (b_co s c))"
    and cpu: "c_cpu (b_co s c) \<noteq> MAXCPU E" and lock: "stop_allowed E s c flags"
  obtains nx where "callout_stop_safe E c flags drain s =
    Some (if CALLOUT_PENDING \<in> c_iflags (b_co s c) then 1 else -1, idle_state c nx s)"
proof -
  define direct where "direct = (CALLOUT_DIRECT \<in> c_iflags (b_co s c))"
  obtain nx where sp: "stop_pending c (c_cpu (b_co s c)) direct False 1 s =
    Some (if CALLOUT_PENDING \<in> c_iflags (b_co s c) then 1 else -1, idle_state c nx s)"
    using nr unfolding direct_def by (auto intro: stop_pending_eq[OF ok])
  have "stop_again E c direct use_lock flags drain None s = stop_pending c (c_cpu (b_co s c)) direct False 1 s" for use_lock
    using nr cpu by (subst stop_again.simps) (auto simp: callout_lock_def not_running_def direct_def Let_def)
  then have "callout_stop_safe E c flags drain s =
    Some (if CALLOUT_PENDING \<in> c_iflags (b_co s c) then 1 else -1, idle_state c nx s)"
    using sp lock unfolding direct_def[symmetric]
    by (auto simp: callout_stop_safe_def stop_allowed_def direct_def[symmetric] split: option.splits)
  then show thesis by (rule that)
qed

section \<open>Running the expired callouts\<close>

definition runs :: "'w benv \<Rightarrow> (cfunc \<Rightarrow> nat \<Rightarrow> 'w \<Rightarrow> 'w) \<Rightarrow> bool" where
  "runs E w = (\<forall>f a s. run E f a s = Some (s\<lparr>b_world := w f a (b_world s)\<rparr>))"

definition runnable :: "callout \<Rightarrow> bool" where
  "runnable co = (c_func co \<noteq> None \<and> (c_lock co = None \<longrightarrow> CALLOUT_RETURNUNLOCKED \<in> c_iflags co))"

definition entity_idle :: "'w benv \<Rightarrow> 'w bsd \<Rightarrow> nat \<Rightarrow> bool \<Rightarrow> bool" where
  "entity_idle E s cc dir = (\<not> cc_waiting (exec_of s cc dir) \<and> \<not> cc_cce_migrating E cc dir s)"

definition call_events :: "'w benv \<Rightarrow> callout \<Rightarrow> bcall list" where
  "call_events E co =
     (case c_lock co of None \<Rightarrow> [] | Some l \<Rightarrow> [Lock l (lock_status E co)]) @ [Call (the (c_func co)) (c_arg co)] @
     (if CALLOUT_RETURNUNLOCKED \<in> c_iflags co then [] else [Unlock (the (c_lock co))])"

definition called :: "'w benv \<Rightarrow> (cfunc \<Rightarrow> nat \<Rightarrow> 'w \<Rightarrow> 'w) \<Rightarrow> addr \<Rightarrow> nat \<Rightarrow> bool \<Rightarrow> 'w bsd \<Rightarrow> 'w bsd" where
  "called E w c cc dir s =
     (let co = b_co s c in
      (upd_exec cc dir (\<lambda>e. e\<lparr>cc_curr := None, cc_last_func := c_func co, cc_last_arg := c_arg co,
          cc_cancel := (c_lock co \<noteq> None), cc_drain := None\<rparr>) (clear_iflag c CALLOUT_PENDING s))
        \<lparr>b_calls := b_calls s @ call_events E co, b_world := w (the (c_func co)) (c_arg co) (b_world s)\<rparr>)"

lemma called_simps [simp]:
  "b_co (called E w c cc dir s) d = (if d = c then (b_co s c)\<lparr>c_iflags := c_iflags (b_co s c) - {CALLOUT_PENDING}\<rparr> else b_co s d)"
  "wheel (called E w c cc dir s) n b = wheel s n b" "expireq (called E w c cc dir s) n = expireq s n"
  "cc_lastscan (b_cc (called E w c cc dir s) n) = cc_lastscan (b_cc s n)"
  "cc_firstevent (b_cc (called E w c cc dir s) n) = cc_firstevent (b_cc s n)"
  "callwheelsize (called E w c cc dir s) = callwheelsize s" "callwheelmask (called E w c cc dir s) = callwheelmask s"
  "b_curcpu (called E w c cc dir s) = b_curcpu s"
  "b_calls (called E w c cc dir s) = b_calls s @ call_events E (b_co s c)"
  "b_world (called E w c cc dir s) = w (the (c_func (b_co s c))) (c_arg (b_co s c)) (b_world s)"
  "entity_idle E (called E w c cc dir s) cc dir = entity_idle E s cc dir"
  by (simp_all add: called_def upd_defs Let_def entity_idle_def cc_cce_migrating_def)

lemma softclock_call_cc_eq:
  assumes "quiet E" "runs E w" "runnable (b_co s c)" "entity_idle E s cc dir"
    "CALLOUT_PENDING \<in> c_iflags (b_co s c)" "CALLOUT_ACTIVE \<in> c_flags (b_co s c)"
  shows "softclock_call_cc E c cc dir s = Some (called E w c cc dir s)"
proof -
  obtain f where f: "c_func (b_co s c) = Some f" using assms(3) by (auto simp: runnable_def)
  show ?thesis
  proof (cases "c_lock (b_co s c)")
    case None
    then have "CALLOUT_RETURNUNLOCKED \<in> c_iflags (b_co s c)" using assms(3) by (simp add: runnable_def)
    then show ?thesis
      using assms None f
      by (auto simp: softclock_call_cc_def softclock_enter_def softclock_invoke_def softclock_leave_def softclock_drain_def
        quietD runs_def upd_defs Let_def called_def call_events_def entity_idle_def cc_cce_migrating_def fun_eq_iff
        intro!: bsd.equality callout_cpu.equality cc_exec.equality)
  next
    case (Some l)
    then show ?thesis
      using assms f
      by (auto simp: softclock_call_cc_def softclock_enter_def softclock_invoke_def softclock_leave_def softclock_drain_def
        quietD runs_def upd_defs Let_def called_def call_events_def entity_idle_def cc_cce_migrating_def fun_eq_iff
        intro!: bsd.equality callout_cpu.equality cc_exec.equality)
  qed
qed

text \<open>No callout runs, none is waited for, none is to migrate, on any CPU.\<close>

definition exec_calm :: "'w benv \<Rightarrow> 'w bsd \<Rightarrow> bool" where
  "exec_calm E s = (\<forall>n<MAXCPU E. cc_inited (b_cc s n) \<and> (\<forall>d. cc_curr (cc_exec_entity (b_cc s n) d) = None \<and>
     \<not> cc_waiting (cc_exec_entity (b_cc s n) d) \<and> ce_migration_cpu (cc_exec_entity (b_cc s n) d) = MAXCPU E))"

lemma exec_calm_cong:
  "(\<And>n. cc_exec_entity (b_cc s' n) = cc_exec_entity (b_cc s n)) \<Longrightarrow> (\<And>n. cc_inited (b_cc s' n) = cc_inited (b_cc s n)) \<Longrightarrow>
   exec_calm E s' = exec_calm E s"
  by (simp add: exec_calm_def)

text \<open>One round of softclock: the first expired callout leaves the queue and runs.\<close>

definition served :: "'w benv \<Rightarrow> (cfunc \<Rightarrow> nat \<Rightarrow> 'w \<Rightarrow> 'w) \<Rightarrow> addr \<Rightarrow> nat \<Rightarrow> 'w bsd \<Rightarrow> 'w bsd" where
  "served E w c cc s = called E w c cc False
     (upd_cc cc (\<lambda>cc. cc\<lparr>cc_expireq := remove1 c (cc_expireq cc)\<rparr>) (upd_co c (\<lambda>co. co\<lparr>c_links := None\<rparr>) s))"

lemma call_events_links [simp]: "call_events E (co\<lparr>c_links := x\<rparr>) = call_events E co"
  by (simp add: call_events_def lock_status_def cong: option.case_cong)

lemma served_simps [simp]:
  "b_co (served E w c cc s) d = (if d = c
     then (b_co s c)\<lparr>c_links := None, c_iflags := c_iflags (b_co s c) - {CALLOUT_PENDING}\<rparr> else b_co s d)"
  "wheel (served E w c cc s) n b = wheel s n b"
  "expireq (served E w c cc s) n = (if n = cc then remove1 c (expireq s n) else expireq s n)"
  "cc_lastscan (b_cc (served E w c cc s) n) = cc_lastscan (b_cc s n)"
  "cc_firstevent (b_cc (served E w c cc s) n) = cc_firstevent (b_cc s n)"
  "callwheelsize (served E w c cc s) = callwheelsize s" "callwheelmask (served E w c cc s) = callwheelmask s"
  "b_curcpu (served E w c cc s) = b_curcpu s"
  "b_calls (served E w c cc s) = b_calls s @ call_events E (b_co s c)"
  "b_world (served E w c cc s) = w (the (c_func (b_co s c))) (c_arg (b_co s c)) (b_world s)"
  by (simp_all add: served_def upd_cc_def upd_co_def)

lemma served_idle [simp]: "entity_idle E (served E w c cc s) cc False = entity_idle E s cc False"
  unfolding served_def called_simps by (simp add: entity_idle_def upd_defs cc_cce_migrating_def)

lemma served_calm: "exec_calm E s \<Longrightarrow> exec_calm E (served E w c cc s)"
  by (simp add: exec_calm_def served_def called_def upd_defs Let_def)

lemma served_globals [simp]: "cc_default_cpu (served E w c cc s) = cc_default_cpu s"
  by (simp add: served_def called_def upd_defs Let_def)

lemma served_ok:
  assumes ok: "bsd_ok s" and c: "c_links (b_co s c) = Some (OnExpireq cc)"
  shows "bsd_ok (served E w c cc s)" "timely s \<Longrightarrow> timely (served E w c cc s)"
proof -
  define s' where "s' = served E w c cc s"
  note lk = bsd_okD(2)[OF ok]
  have "linked s'"
    using lk c unfolding linked_def s'_def by (auto simp: distinct_remove1)
  moreover have "callout_ok s' d" for d
    using bsd_okD(4)[OF ok, of d]
    by (auto simp: s'_def callout_ok_def on_wheel_ok_def split: option.splits centry.splits)
  ultimately show "bsd_ok (served E w c cc s)"
    using bsd_okD(1,3,5)[OF ok] unfolding s'_def[symmetric] by (simp add: bsd_ok_def sized_def s'_def)
  have "deadline (b_co (served E w c cc s) d) = deadline (b_co s d)" for d by (simp add: deadline_def)
  then show "timely s \<Longrightarrow> timely (served E w c cc s)" by (simp add: timely_def)
qed

lemma softclock_round:
  assumes ok: "bsd_ok s" and c: "first (expireq s cc) = Some c"
    and E: "quiet E" "runs E w" "entity_idle E s cc False" "runnable (b_co s c)"
  shows "softclock E cc s = softclock E cc (served E w c cc s)"
proof -
  have "c \<in> set (expireq s cc)" using c by (cases "expireq s cc") auto
  then have l: "c_links (b_co s c) = Some (OnExpireq cc)"
    using linked_expireq[OF bsd_okD(2)[OF ok]] by blast
  then have "on_expireq_ok (b_co s c) cc" using bsd_okD(4)[OF ok, of c] by (simp add: callout_ok_def)
  then have f: "CALLOUT_PENDING \<in> c_iflags (b_co s c)" "CALLOUT_ACTIVE \<in> c_flags (b_co s c)"
    by (auto simp: on_expireq_ok_def)
  define s1 where "s1 = upd_cc cc (\<lambda>cc. cc\<lparr>cc_expireq := remove1 c (cc_expireq cc)\<rparr>) (upd_co c (\<lambda>co. co\<lparr>c_links := None\<rparr>) s)"
  have "softclock_call_cc E c cc False s1 = Some (called E w c cc False s1)"
    by (rule softclock_call_cc_eq[OF E(1,2)])
      (use E(3,4) f in \<open>auto simp: s1_def upd_defs runnable_def entity_idle_def cc_cce_migrating_def\<close>)
  then show ?thesis
    by (subst softclock.simps) (simp add: c expireq_remove_expireq[OF l] s1_def[symmetric] served_def[of E w c cc s])
qed

lemma softclock_run:
  assumes "bsd_ok s" "quiet E" "runs E w" "entity_idle E s cc False"
    "\<forall>c\<in>set (expireq s cc). runnable (b_co s c)"
  shows "\<exists>s'. softclock E cc s = Some s' \<and> bsd_ok s' \<and> (timely s \<longrightarrow> timely s') \<and> expireq s' cc = [] \<and>
     (exec_calm E s \<longrightarrow> exec_calm E s') \<and> b_curcpu s' = b_curcpu s \<and> cc_default_cpu s' = cc_default_cpu s \<and>
     b_calls s' = b_calls s @ concat (map (\<lambda>c. call_events E (b_co s c)) (expireq s cc)) \<and>
     b_world s' = fold (\<lambda>c. w (the (c_func (b_co s c))) (c_arg (b_co s c))) (expireq s cc) (b_world s) \<and>
     (\<forall>n b. wheel s' n b = wheel s n b) \<and> (\<forall>n. n \<noteq> cc \<longrightarrow> expireq s' n = expireq s n) \<and>
     (\<forall>c. b_co s' c = (if c \<in> set (expireq s cc)
        then (b_co s c)\<lparr>c_links := None, c_iflags := c_iflags (b_co s c) - {CALLOUT_PENDING}\<rparr> else b_co s c))"
  using assms
proof (induction "expireq s cc" arbitrary: s)
  case Nil
  have "softclock E cc s = Some s" by (subst softclock.simps) (simp add: Nil.hyps[symmetric])
  with Nil show ?case by simp
next
  case (Cons c cs)
  define s1 where "s1 = served E w c cc s"
  have q: "expireq s cc = c # cs" using Cons.hyps(2) by simp
  have cn: "c \<notin> set cs" using linked_distinct(2)[OF bsd_okD(2)[OF Cons.prems(1)], of cc] q by simp
  have l: "c_links (b_co s c) = Some (OnExpireq cc)"
    using linked_expireq[OF bsd_okD(2)[OF Cons.prems(1)], of c cc] q by simp
  have step: "softclock E cc s = softclock E cc s1"
    unfolding s1_def by (rule softclock_round) (use Cons.prems q in auto)
  have same: "b_co s1 d = b_co s d" if "d \<in> set cs" for d using that cn by (auto simp: s1_def)
  have q1: "cs = expireq s1 cc" by (simp add: s1_def q)
  have tc: "exec_calm E s \<longrightarrow> exec_calm E s1" by (simp add: s1_def served_calm)
  have t: "timely s \<longrightarrow> timely s1" using served_ok(2)[OF Cons.prems(1) l] by (simp add: s1_def)
  have "\<exists>s'. softclock E cc s1 = Some s' \<and> bsd_ok s' \<and> (timely s1 \<longrightarrow> timely s') \<and> expireq s' cc = [] \<and>
     (exec_calm E s1 \<longrightarrow> exec_calm E s') \<and> b_curcpu s' = b_curcpu s1 \<and> cc_default_cpu s' = cc_default_cpu s1 \<and>
     b_calls s' = b_calls s1 @ concat (map (\<lambda>c. call_events E (b_co s1 c)) (expireq s1 cc)) \<and>
     b_world s' = fold (\<lambda>c. w (the (c_func (b_co s1 c))) (c_arg (b_co s1 c))) (expireq s1 cc) (b_world s1) \<and>
     (\<forall>n b. wheel s' n b = wheel s1 n b) \<and> (\<forall>n. n \<noteq> cc \<longrightarrow> expireq s' n = expireq s1 n) \<and>
     (\<forall>c. b_co s' c = (if c \<in> set (expireq s1 cc)
        then (b_co s1 c)\<lparr>c_links := None, c_iflags := c_iflags (b_co s1 c) - {CALLOUT_PENDING}\<rparr> else b_co s1 c))"
    using Cons.prems q cn served_ok(1)[OF Cons.prems(1) l]
    by (intro Cons.hyps(1)[OF q1]) (auto simp: s1_def)
  then obtain s' where s': "softclock E cc s1 = Some s'" "bsd_ok s'" "timely s1 \<longrightarrow> timely s'" "expireq s' cc = []"
     "exec_calm E s1 \<longrightarrow> exec_calm E s'" "b_curcpu s' = b_curcpu s1" "cc_default_cpu s' = cc_default_cpu s1"
     "b_calls s' = b_calls s1 @ concat (map (\<lambda>c. call_events E (b_co s1 c)) cs)"
     "b_world s' = fold (\<lambda>c. w (the (c_func (b_co s1 c))) (c_arg (b_co s1 c))) cs (b_world s1)"
     "\<forall>n b. wheel s' n b = wheel s1 n b" "\<forall>n. n \<noteq> cc \<longrightarrow> expireq s' n = expireq s1 n"
     "\<forall>c. b_co s' c = (if c \<in> set cs
        then (b_co s1 c)\<lparr>c_links := None, c_iflags := c_iflags (b_co s1 c) - {CALLOUT_PENDING}\<rparr> else b_co s1 c)"
    unfolding q1[symmetric] by blast
  have "map (\<lambda>c. call_events E (b_co s1 c)) cs = map (\<lambda>c. call_events E (b_co s c)) cs"
    by (simp add: same)
  then have calls: "b_calls s' = b_calls s1 @ concat (map (\<lambda>c. call_events E (b_co s c)) cs)"
    using s'(8) by (simp only:)
  have "fold (\<lambda>c. w (the (c_func (b_co s1 c))) (c_arg (b_co s1 c))) cs x =
      fold (\<lambda>c. w (the (c_func (b_co s c))) (c_arg (b_co s c))) cs x" for x
    by (intro fold_cong refl) (simp add: same)
  then have world: "b_world s' = fold (\<lambda>c. w (the (c_func (b_co s c))) (c_arg (b_co s c))) cs (b_world s1)"
    using s'(9) by (simp only:)
  have co: "\<forall>d. b_co s' d = (if d \<in> set (c # cs)
      then (b_co s d)\<lparr>c_links := None, c_iflags := c_iflags (b_co s d) - {CALLOUT_PENDING}\<rparr> else b_co s d)"
    using s'(12) cn by (auto simp: s1_def)
  show ?case
    unfolding step q using s'(1-7,10,11) t tc co by (intro exI[of _ s']) (simp add: calls world s1_def)
qed

end
