(* ===== verification/Bsd_System.thy ===== *)
theory Bsd_System
  imports Bsd_Client
begin

text \<open>
  The callout system as a state machine: the operations that its clients and the clock interrupt perform,
  one after the other, from callout_callwheel_init on, in the quiet system: between the steps of an
  operation no other CPU acts, and the callout functions change only the rest of the world (a callout that arms
  itself, and operations that interleave, are the subject of \<open>Bsd_Running\<close>). Every reachable state has the
  invariant, and no operation is undefined in it. The event timers are in time in the states of the runs
  whose clock interrupts do not make the scan wrap round part of the wheel (\<open>paced\<close>).
\<close>

section \<open>Initialisation\<close>

definition boot :: "'w benv \<Rightarrow> nat \<Rightarrow> nat \<Rightarrow> nat option \<Rightarrow> 'w \<Rightarrow> 'w bsd" where
  "boot E maxproc maxfiles tunable x =
     callout_callwheel_init E maxproc maxfiles tunable [0..<MAXCPU E]
       \<lparr>b_co = (\<lambda>c. zero_callout), b_cc = (\<lambda>n. zero_cpu), callwheelsize = 0, callwheelmask = 0, cc_default_cpu = 0,
        b_curcpu = 0, b_calls = [], b_world = x\<rparr>"

definition cpu_init_cpu :: "nat \<Rightarrow> callout_cpu \<Rightarrow> callout_cpu" where
  "cpu_init_cpu m cc = cc\<lparr>cc_inited := True, cc_callwheel := (\<lambda>i. []), cc_expireq := [], cc_firstevent := SBT_MAX,
     cc_exec_entity := (\<lambda>d. cce_cleanup m (cc_exec_entity cc d))\<rparr>"

lemma callout_cpu_init_eq: "callout_cpu_init E n s = upd_cc n (cpu_init_cpu (MAXCPU E)) s"
  by (auto simp: callout_cpu_init_def cc_cce_cleanup_def upd_defs cpu_init_cpu_def fun_eq_iff
      intro!: bsd.equality callout_cpu.equality)

lemma cpu_init_cpu_idem [simp]: "cpu_init_cpu m (cpu_init_cpu m cc) = cpu_init_cpu m cc"
  by (simp add: cpu_init_cpu_def cce_cleanup_def)

lemma fold_cpu_init:
  "b_cc (fold (callout_cpu_init E) ns s) n =
     (if n \<in> set ns then cpu_init_cpu (MAXCPU E) (b_cc s n) else b_cc s n)"
  "b_co (fold (callout_cpu_init E) ns s) = b_co s"
  "callwheelsize (fold (callout_cpu_init E) ns s) = callwheelsize s"
  "callwheelmask (fold (callout_cpu_init E) ns s) = callwheelmask s"
  "cc_default_cpu (fold (callout_cpu_init E) ns s) = cc_default_cpu s"
  "b_curcpu (fold (callout_cpu_init E) ns s) = b_curcpu s"
  by (induction ns arbitrary: s) (auto simp: callout_cpu_init_eq upd_cc_def)

definition ncallout_of :: "nat \<Rightarrow> nat \<Rightarrow> nat option \<Rightarrow> nat" where
  "ncallout_of maxproc maxfiles tunable = (case tunable of None \<Rightarrow> min (16 + maxproc + maxfiles) 18508 | Some n \<Rightarrow> n)"

lemma fls_power_bounds: "n > 0 \<Longrightarrow> 2 ^ (bsd_fls n - 1) \<le> n \<and> n < 2 ^ bsd_fls n \<and> 0 < bsd_fls n"
proof (induction n rule: bsd_fls.induct)
  case (1 n)
  show ?case
  proof (cases "n = 1")
    case True
    then show ?thesis by (simp add: bsd_fls.simps)
  next
    case False
    with 1 have ih: "2 ^ (bsd_fls (n div 2) - 1) \<le> n div 2" "n div 2 < 2 ^ bsd_fls (n div 2)" "0 < bsd_fls (n div 2)" by auto
    obtain m where m: "bsd_fls (n div 2) = Suc m" using ih(3) by (cases "bsd_fls (n div 2)") auto
    have "bsd_fls n = Suc (bsd_fls (n div 2))" using 1 by (subst bsd_fls.simps) simp
    moreover have "n = 2 * (n div 2) \<or> n = 2 * (n div 2) + 1" by presburger
    ultimately show ?thesis using ih by (auto simp: m)
  qed
qed

lemma fls_less: "n < 2 ^ k \<Longrightarrow> bsd_fls n \<le> k"
proof (cases "n = 0")
  case False
  assume n: "n < 2 ^ k"
  have "(2::nat) ^ (bsd_fls n - 1) < 2 ^ k" using fls_power_bounds[of n] False n by linarith
  then have "bsd_fls n - 1 < k" by (simp add: power_strict_increasing_iff)
  then show ?thesis by simp
qed (simp add: bsd_fls.simps)

lemma boot_simps:
  assumes "ncallout_of maxproc maxfiles tunable < 2 ^ 30"
  shows "b_co (boot E maxproc maxfiles tunable x) = (\<lambda>c. zero_callout)"
    "b_cc (boot E maxproc maxfiles tunable x) n = (if n < MAXCPU E then cpu_init_cpu (MAXCPU E) zero_cpu else zero_cpu)"
    "callwheelsize (boot E maxproc maxfiles tunable x) = 2 ^ bsd_fls (ncallout_of maxproc maxfiles tunable)"
    "callwheelmask (boot E maxproc maxfiles tunable x) = 2 ^ bsd_fls (ncallout_of maxproc maxfiles tunable) - 1"
    "b_curcpu (boot E maxproc maxfiles tunable x) = 0" "cc_default_cpu (boot E maxproc maxfiles tunable x) = 0"
proof -
  have "(2::int) ^ bsd_fls (ncallout_of maxproc maxfiles tunable) \<le> 2 ^ 30"
    using fls_less[OF assms] by (intro power_increasing) auto
  moreover have "(1::int) \<le> 2 ^ bsd_fls (ncallout_of maxproc maxfiles tunable)" by simp
  ultimately have u: "u32 (2 ^ bsd_fls (ncallout_of maxproc maxfiles tunable)) = 2 ^ bsd_fls (ncallout_of maxproc maxfiles tunable)"
    "u32 (2 ^ bsd_fls (ncallout_of maxproc maxfiles tunable) - 1) = 2 ^ bsd_fls (ncallout_of maxproc maxfiles tunable) - 1"
    by (auto intro!: u32_id)
  show "b_co (boot E maxproc maxfiles tunable x) = (\<lambda>c. zero_callout)"
    "b_cc (boot E maxproc maxfiles tunable x) n = (if n < MAXCPU E then cpu_init_cpu (MAXCPU E) zero_cpu else zero_cpu)"
    "callwheelsize (boot E maxproc maxfiles tunable x) = 2 ^ bsd_fls (ncallout_of maxproc maxfiles tunable)"
    "callwheelmask (boot E maxproc maxfiles tunable x) = 2 ^ bsd_fls (ncallout_of maxproc maxfiles tunable) - 1"
    "b_curcpu (boot E maxproc maxfiles tunable x) = 0" "cc_default_cpu (boot E maxproc maxfiles tunable x) = 0"
    using u by (simp_all add: boot_def callout_callwheel_init_def Let_def fold_cpu_init ncallout_of_def)
qed

lemma boot_ok:
  assumes "ncallout_of maxproc maxfiles tunable < 2 ^ 30"
  shows "bsd_ok (boot E maxproc maxfiles tunable x)" "timely (boot E maxproc maxfiles tunable x)"
    "exec_calm E (boot E maxproc maxfiles tunable x)"
proof -
  have s: "sized (boot E maxproc maxfiles tunable x)"
    using fls_less[OF assms] by (auto simp: sized_def boot_simps[OF assms] intro!: bexI[of _ "bsd_fls (ncallout_of maxproc maxfiles tunable)"])
  show "bsd_ok (boot E maxproc maxfiles tunable x)"
    using s by (simp add: bsd_ok_def linked_def callout_ok_def boot_simps[OF assms] zero_callout_def cpu_init_cpu_def zero_cpu_def SBT_MAX_def)
  show "timely (boot E maxproc maxfiles tunable x)"
    by (simp add: timely_def boot_simps[OF assms] cpu_init_cpu_def zero_cpu_def)
  show "exec_calm E (boot E maxproc maxfiles tunable x)"
    by (simp add: exec_calm_def boot_simps[OF assms] cpu_init_cpu_def cce_cleanup_def)
qed

section \<open>Operations\<close>

text \<open>\<open>OnCpu\<close> lets another CPU take the next clock interrupt.\<close>

datatype bcmd = Init addr bool
  | Reset ktime addr int int cfunc nat "nat option" rflags
  | Stop addr "sflag set" "cfunc option"
  | Process int
  | Softclock nat
  | OnCpu nat

fun bsd_exec :: "'w benv \<Rightarrow> bcmd \<Rightarrow> 'w bsd \<Rightarrow> 'w bsd option" where
  "bsd_exec E (Init c mpsafe) s = Some (callout_init E c mpsafe s)"
| "bsd_exec E (Reset k c sbt prec f arg cpu flags) s =
     map_option snd (callout_reset_sbt_on E k c sbt prec (Some f) arg cpu flags s)"
| "bsd_exec E (Stop c flags drain) s = map_option snd (callout_stop_safe E c flags drain s)"
| "bsd_exec E (Process now) s = callout_process E now s"
| "bsd_exec E (Softclock n) s = softclock E n s"
| "bsd_exec E (OnCpu n) s = Some (s\<lparr>b_curcpu := n\<rparr>)"

text \<open>What the clients have to see to: a callout is not initialised while it is pending, is not run from the
  hardware interrupt, has a lock or gives it back itself, and is stopped with its lock held; the clock
  interrupts of a CPU come in order, at most 2^54 (2^22 seconds) apart.\<close>

fun bsd_legal :: "'w benv \<Rightarrow> bcmd \<Rightarrow> 'w bsd \<Rightarrow> bool" where
  "bsd_legal E (Init c mpsafe) s = (CALLOUT_PENDING \<notin> c_iflags (b_co s c))"
| "bsd_legal E (Reset k c sbt prec f arg cpu flags) s =
     ((\<forall>n. cpu = Some n \<longrightarrow> n < MAXCPU E) \<and> C_DIRECT_EXEC \<notin> rf_flags flags \<and>
      fst (callout_when k sbt prec flags) \<le> SBT_MAX \<and> 0 \<le> snd (callout_when k sbt prec flags) \<and>
      (c_lock (b_co s c) = None \<longrightarrow> CALLOUT_RETURNUNLOCKED \<in> c_iflags (b_co s c)))"
| "bsd_legal E (Stop c flags drain) s = stop_allowed E s c flags"
| "bsd_legal E (Process now) s = scan_gap_ok (cc_lastscan (b_cc s (b_curcpu s))) now"
| "bsd_legal E (Softclock n) s = (n < MAXCPU E)"
| "bsd_legal E (OnCpu n) s = (n < MAXCPU E)"

inductive bsd_reachable :: "'w benv \<Rightarrow> 'w bsd \<Rightarrow> bool" for E where
  start: "ncallout_of maxproc maxfiles tunable < 2 ^ 30 \<Longrightarrow> bsd_reachable E (boot E maxproc maxfiles tunable x)"
| step: "bsd_reachable E s \<Longrightarrow> bsd_legal E cmd s \<Longrightarrow> bsd_exec E cmd s = Some s' \<Longrightarrow> bsd_reachable E s'"

text \<open>A clock interrupt whose scan does not wrap round part of the wheel, and the runs with only such interrupts.\<close>

fun paced :: "bcmd \<Rightarrow> 'w bsd \<Rightarrow> bool" where
  "paced (Process now) s = whole_turns (callwheelsize s) (cc_lastscan (b_cc s (b_curcpu s))) now"
| "paced _ s = True"

inductive bsd_paced :: "'w benv \<Rightarrow> 'w bsd \<Rightarrow> bool" for E where
  start: "ncallout_of maxproc maxfiles tunable < 2 ^ 30 \<Longrightarrow> bsd_paced E (boot E maxproc maxfiles tunable x)"
| step: "bsd_paced E s \<Longrightarrow> bsd_legal E cmd s \<Longrightarrow> paced cmd s \<Longrightarrow> bsd_exec E cmd s = Some s' \<Longrightarrow> bsd_paced E s'"

lemma paced_reachable: "bsd_paced E s \<Longrightarrow> bsd_reachable E s"
  by (induction rule: bsd_paced.induct) (auto intro: bsd_reachable.intros)

section \<open>The invariant of the system\<close>

definition callout_calm :: "'w benv \<Rightarrow> callout \<Rightarrow> bool" where
  "callout_calm E co =
     (CALLOUT_DFRMIGRATION \<notin> c_iflags co \<and> CALLOUT_DIRECT \<notin> c_iflags co \<and> c_cpu co < MAXCPU E \<and>
      (CALLOUT_PENDING \<in> c_iflags co \<longrightarrow> runnable co))"

definition sys_ok :: "'w benv \<Rightarrow> 'w bsd \<Rightarrow> bool" where
  "sys_ok E s = (bsd_ok s \<and> exec_calm E s \<and> (\<forall>c. callout_calm E (b_co s c)) \<and>
     b_curcpu s < MAXCPU E \<and> cc_default_cpu s < MAXCPU E)"

lemma sys_okD:
  assumes "sys_ok E s"
  shows "bsd_ok s" "linked s" "exec_calm E s" "callout_calm E (b_co s c)" "b_curcpu s < MAXCPU E"
    "cc_default_cpu s < MAXCPU E" "not_running s c d" "direct_free s n" "c_cpu (b_co s c) < MAXCPU E"
  using assms bsd_okD(2) by (auto simp: sys_ok_def not_running_def exec_calm_def callout_calm_def exec_of_def direct_free_def)

lemma boot_sys_ok:
  assumes "ncallout_of maxproc maxfiles tunable < 2 ^ 30" "0 < MAXCPU E"
  shows "sys_ok E (boot E maxproc maxfiles tunable x)"
  using assms(2) boot_ok[OF assms(1), of E x]
  by (simp add: sys_ok_def boot_simps[OF assms(1)] callout_calm_def zero_callout_def)

text \<open>The two initialisation functions leave a fresh callout.\<close>

definition fresh_callout :: "lockid option \<Rightarrow> cflag set \<Rightarrow> nat \<Rightarrow> callout" where
  "fresh_callout lock fl cpu = zero_callout\<lparr>c_lock := lock, c_iflags := fl, c_cpu := cpu\<rparr>"

lemma fresh_callout_simps [simp]:
  "c_links (fresh_callout lock fl cpu) = None" "c_lock (fresh_callout lock fl cpu) = lock"
  "c_flags (fresh_callout lock fl cpu) = {}" "c_iflags (fresh_callout lock fl cpu) = fl"
  "c_cpu (fresh_callout lock fl cpu) = cpu"
  by (simp_all add: fresh_callout_def zero_callout_def)

lemma fresh_sys_ok:
  assumes ok: "sys_ok E s" and np: "CALLOUT_PENDING \<notin> c_iflags (b_co s c)"
    and fl: "fl \<subseteq> {CALLOUT_RETURNUNLOCKED, CALLOUT_SHAREDLOCK}"
    and s': "s' = upd_co c (\<lambda>co. fresh_callout lock fl (cc_default_cpu s)) s"
  shows "sys_ok E s'" "timely s \<Longrightarrow> timely s'"
proof -
  have b: "b_co s' d = (if d = c then fresh_callout lock fl (cc_default_cpu s) else b_co s d)"
    "b_cc s' = b_cc s" "callwheelsize s' = callwheelsize s" "callwheelmask s' = callwheelmask s"
    "b_curcpu s' = b_curcpu s" "cc_default_cpu s' = cc_default_cpu s" for d
    by (auto simp: s' upd_co_def)
  note o = sys_okD[OF ok]
  have l: "c_links (b_co s c) = None" by (rule not_pending_unlinked[OF o(1) np])
  have w: "c \<notin> set (wheel s n k)" for n k using l linked_wheel[OF bsd_okD(2)[OF o(1)]] by simp
  have "linked s'" using bsd_okD(2)[OF o(1)] l by (auto simp: linked_def b)
  moreover have "callout_ok s' d" for d
    using bsd_okD(4)[OF o(1), of d] fl by (auto simp: callout_ok_def b split: option.splits centry.splits)
  ultimately have "bsd_ok s'" using bsd_okD(1,3,5)[OF o(1)] by (simp add: bsd_ok_def sized_def b)
  moreover show "timely s'" if "timely s" using that w by (auto simp: timely_def b)
  moreover have "callout_calm E (b_co s' d)" for d
    using o(4)[of d] o(6) fl by (auto simp: callout_calm_def b)
  ultimately show "sys_ok E s'"
    using o(3,5,6) by (simp add: sys_ok_def b exec_calm_def)
qed

lemma callout_init_eq: "callout_init E c mpsafe s =
    upd_co c (\<lambda>co. fresh_callout (if mpsafe then None else Some (Giant E))
      (if mpsafe then {CALLOUT_RETURNUNLOCKED} else {}) (cc_default_cpu s)) s"
  by (simp add: callout_init_def fresh_callout_def)

lemma callout_init_sys_ok:
  assumes "sys_ok E s" "CALLOUT_PENDING \<notin> c_iflags (b_co s c)"
  shows "sys_ok E (callout_init E c mpsafe s)" "timely s \<Longrightarrow> timely (callout_init E c mpsafe s)"
  by (rule fresh_sys_ok[OF assms _ callout_init_eq]; auto)+

lemma callout_init_lock_eq:
  assumes "callout_init_lock spinlock c lock flags s = Some s'"
  shows "s' = upd_co c (\<lambda>co. fresh_callout lock flags (cc_default_cpu s)) s"
    "flags \<subseteq> {CALLOUT_RETURNUNLOCKED, CALLOUT_SHAREDLOCK}"
proof -
  show f: "flags \<subseteq> {CALLOUT_RETURNUNLOCKED, CALLOUT_SHAREDLOCK}"
    using assms by (auto simp: callout_init_lock_def split: if_splits)
  then have "flags \<inter> {CALLOUT_RETURNUNLOCKED, CALLOUT_SHAREDLOCK} = flags" by blast
  then show "s' = upd_co c (\<lambda>co. fresh_callout lock flags (cc_default_cpu s)) s"
    using assms by (simp add: callout_init_lock_def fresh_callout_def split: if_splits)
qed

lemma reset_sys_ok:
  assumes ok: "sys_ok E s" and q: "quiet E" and legal: "bsd_legal E (Reset k c sbt prec f arg cpu flags) s"
  obtains nx n where "callout_reset_sbt_on E k c sbt prec (Some f) arg cpu flags s =
      Some (if CALLOUT_PENDING \<in> c_iflags (b_co s c) then 1 else 0,
        reset_state c nx n (callout_when k sbt prec flags) (Some f) arg (rf_flags flags) s)"
    "n = (case cpu of None \<Rightarrow> c_cpu (b_co s c) | Some n \<Rightarrow> n)"
    "sys_ok E (reset_state c nx n (callout_when k sbt prec flags) (Some f) arg (rf_flags flags) s)"
    "timely s \<longrightarrow> timely (reset_state c nx n (callout_when k sbt prec flags) (Some f) arg (rf_flags flags) s)"
proof -
  define n w where "n = (case cpu of None \<Rightarrow> c_cpu (b_co s c) | Some n \<Rightarrow> n)" and "w = callout_when k sbt prec flags"
  note o = sys_okD[OF ok]
  have n: "n < MAXCPU E" using legal o(9) by (auto simp: n_def split: option.splits)
  obtain nx where eq: "callout_reset_sbt_on E k c sbt prec (Some f) arg cpu flags s =
    Some (if CALLOUT_PENDING \<in> c_iflags (b_co s c) then 1 else 0, reset_state c nx n w (Some f) arg (rf_flags flags) s)"
    by (rule callout_reset_eq[OF o(1) q o(7) _ _ _ w_def _ _ n_def])
      (use legal o(3) o(9)[of c] in \<open>auto simp: exec_calm_def w_def\<close>)
  define s' where "s' = reset_state c nx n w (Some f) arg (rf_flags flags) s"
  have bs: "bsd_ok s'" "timely s \<Longrightarrow> timely s'"
    unfolding s'_def using reset_state_ok[OF o(1), of c w] o(4)[of c] legal by (auto simp: callout_calm_def w_def)
  have "callout_calm E (b_co s' d)" for d
    using o(4)[of d] legal n by (auto simp: s'_def reset_state_def callout_calm_def runnable_def)
  moreover have "exec_calm E s' = exec_calm E s"
    by (rule exec_calm_cong) (simp_all add: s'_def reset_state_def)
  moreover have "b_curcpu s' = b_curcpu s" "cc_default_cpu s' = cc_default_cpu s"
    by (simp_all add: s'_def reset_state_def move_cpu_def upd_co_def idle_state_def)
  ultimately have "sys_ok E s'" using bs o(3,5,6) by (simp add: sys_ok_def)
  then show thesis using that[of nx n] eq bs(2) unfolding s'_def w_def n_def by blast
qed

lemma stop_sys_ok:
  assumes ok: "sys_ok E s" and lock: "stop_allowed E s c flags"
  obtains nx where "callout_stop_safe E c flags drain s =
      Some (if CALLOUT_PENDING \<in> c_iflags (b_co s c) then 1 else -1, idle_state c nx s)"
    "sys_ok E (idle_state c nx s)" "timely s \<longrightarrow> timely (idle_state c nx s)"
proof -
  note o = sys_okD[OF ok]
  obtain nx where eq: "callout_stop_safe E c flags drain s =
      Some (if CALLOUT_PENDING \<in> c_iflags (b_co s c) then 1 else -1, idle_state c nx s)"
    by (rule callout_stop_eq[OF o(1) o(7) _ lock]) (use o(9)[of c] in auto)
  have "callout_calm E (b_co (idle_state c nx s) d)" for d
    using o(4)[of d] by (auto simp: idle_state_def callout_calm_def runnable_def)
  moreover have "exec_calm E (idle_state c nx s) = exec_calm E s"
    by (rule exec_calm_cong) simp_all
  moreover have "cc_default_cpu (idle_state c nx s) = cc_default_cpu s" by (simp add: idle_state_def)
  ultimately have "sys_ok E (idle_state c nx s)"
    using idle_state_ok(1)[OF o(1), of c nx] o(3,5,6) by (simp add: sys_ok_def)
  with eq show thesis using idle_state_ok(2)[OF o(1), of c nx] that by blast
qed

lemma scanned_globals [simp]:
  "cc_inited (b_cc (scanned cc now ds v s) n) = cc_inited (b_cc s n)"
  "cc_default_cpu (scanned cc now ds v s) = cc_default_cpu s"
  by (simp_all add: scanned_def upd_defs expire_all_def Let_def)

lemma process_sys_ok:
  assumes ok: "sys_ok E s" and legal: "bsd_legal E (Process now) s"
  obtains s' where "callout_process E now s = Some s'" "sys_ok E s'"
    "timely s \<longrightarrow> paced (Process now) s \<longrightarrow> timely s'"
proof -
  note o = sys_okD[OF ok]
  have gap: "scan_gap_ok (cc_lastscan (b_cc s (b_curcpu s))) now"
    using legal by simp
  obtain ds v where run: "callout_process E now s = Some (scanned (b_curcpu s) now ds v s)" and d: "distinct ds"
    and ds: "\<forall>c. c \<in> set ds \<longleftrightarrow> (\<exists>b. c \<in> set (wheel s (b_curcpu s) b)) \<and> c_time (b_co s c) \<le> now"
    and "now < sc_last v" "sc_last v \<le> now + 2 ^ 31" and bound: "whole_turns (callwheelsize s) (cc_lastscan (b_cc s (b_curcpu s))) now \<longrightarrow>
       (\<forall>b. \<forall>c\<in>set (wheel s (b_curcpu s) b). now < c_time (b_co s c) \<longrightarrow> sc_last v \<le> deadline (b_co s c))"
    by (rule callout_process_run[OF o(1) o(8) gap, where E = E])
  define s' where "s' = scanned (b_curcpu s) now ds v s"
  have "0 \<le> now" "now \<le> SBT_MAX" using gap by (auto simp: scan_gap_ok_def)
  from scanned_ok[OF o(1) d ds[rule_format] this, of v] have "bsd_ok s'" unfolding s'_def .
  moreover have tm: "timely s'" if "timely s" "paced (Process now) s"
    unfolding s'_def using that(2) by (intro scanned_timely[OF that(1) ds[rule_format] bound[THEN mp] o(2)]) simp
  moreover have "callout_calm E (b_co s' c)" for c
    using o(4)[of c] by (auto simp: s'_def callout_calm_def runnable_def)
  moreover have "exec_calm E s' = exec_calm E s" by (rule exec_calm_cong) (simp_all add: s'_def)
  ultimately have "sys_ok E s'" using o(3,5,6) by (simp add: sys_ok_def s'_def)
  with run tm that show thesis unfolding s'_def by blast
qed

lemma expireq_runnable:
  assumes "sys_ok E s" "c \<in> set (expireq s n)" shows "runnable (b_co s c)"
proof -
  have "c_links (b_co s c) = Some (OnExpireq n)"
    using assms linked_expireq[OF bsd_okD(2)[OF sys_okD(1)[OF assms(1)]]] by blast
  then have "CALLOUT_PENDING \<in> c_iflags (b_co s c)"
    using bsd_okD(4)[OF sys_okD(1)[OF assms(1)], of c] by (simp add: callout_ok_def on_expireq_ok_def)
  with sys_okD(4)[OF assms(1), of c] show ?thesis by (simp add: callout_calm_def)
qed

lemma softclock_sys_ok:
  assumes ok: "sys_ok E s" and E: "quiet E" "runs E w" and n: "n < MAXCPU E"
  obtains s' where "softclock E n s = Some s'" "sys_ok E s'" "timely s \<longrightarrow> timely s'" "expireq s' n = []"
    "b_calls s' = b_calls s @ concat (map (\<lambda>c. call_events E (b_co s c)) (expireq s n))"
    "\<And>m b. wheel s' m b = wheel s m b"
    "\<And>c. b_co s' c = (if c \<in> set (expireq s n)
        then (b_co s c)\<lparr>c_links := None, c_iflags := c_iflags (b_co s c) - {CALLOUT_PENDING}\<rparr> else b_co s c)"
proof -
  note o = sys_okD[OF ok]
  have idle: "entity_idle E s n False"
    using o(3) n by (simp add: exec_calm_def entity_idle_def cc_cce_migrating_def exec_of_def)
  have "\<forall>c\<in>set (expireq s n). runnable (b_co s c)" using expireq_runnable[OF ok] by blast
  from softclock_run[OF o(1) E idle this]
  obtain s' where s': "softclock E n s = Some s'" "bsd_ok s'" "timely s \<longrightarrow> timely s'" "expireq s' n = []"
     "exec_calm E s \<longrightarrow> exec_calm E s'" "b_curcpu s' = b_curcpu s" "cc_default_cpu s' = cc_default_cpu s"
     "b_calls s' = b_calls s @ concat (map (\<lambda>c. call_events E (b_co s c)) (expireq s n))"
     "\<forall>m b. wheel s' m b = wheel s m b"
     "\<forall>c. b_co s' c = (if c \<in> set (expireq s n)
        then (b_co s c)\<lparr>c_links := None, c_iflags := c_iflags (b_co s c) - {CALLOUT_PENDING}\<rparr> else b_co s c)"
    by blast
  have "callout_calm E (b_co s' c)" for c
    using o(4)[of c] s'(10) by (auto simp: callout_calm_def)
  then have "sys_ok E s'" using s' o(3,5,6) by (simp add: sys_ok_def)
  with s' show thesis by (intro that[of s']) auto
qed

lemma bsd_step_ok:
  assumes "sys_ok E s" "quiet E" "runs E w" "bsd_legal E cmd s"
  shows "\<exists>s'. bsd_exec E cmd s = Some s' \<and> sys_ok E s' \<and> (timely s \<longrightarrow> paced cmd s \<longrightarrow> timely s')"
proof (cases cmd)
  case (Init c mpsafe)
  with assms callout_init_sys_ok show ?thesis by auto
next
  case (Reset k c sbt prec f arg cpu flags)
  from reset_sys_ok[OF assms(1,2) assms(4)[unfolded Reset]] show ?thesis unfolding Reset by (metis bsd_exec.simps(2) option.map(2) snd_conv)
next
  case (Stop c flags drain)
  obtain nx where "callout_stop_safe E c flags drain s =
      Some (if CALLOUT_PENDING \<in> c_iflags (b_co s c) then 1 else -1, idle_state c nx s)" "sys_ok E (idle_state c nx s)"
      "timely s \<longrightarrow> timely (idle_state c nx s)"
    by (rule stop_sys_ok[OF assms(1), of c flags drain]) (use assms(4) Stop in auto)
  with Stop show ?thesis by auto
next
  case (Process now)
  from process_sys_ok[OF assms(1) assms(4)[unfolded Process]] show ?thesis unfolding Process by (metis bsd_exec.simps(4))
next
  case (Softclock n)
  with softclock_sys_ok[OF assms(1-3), of n] assms(4) show ?thesis by (metis bsd_exec.simps(5) bsd_legal.simps(5))
next
  case (OnCpu n)
  have "callout_ok (s\<lparr>b_curcpu := n\<rparr>) c = callout_ok s c" for c
    by (simp add: callout_ok_def cong: option.case_cong centry.case_cong)
  then have "sys_ok E (s\<lparr>b_curcpu := n\<rparr>)" "timely (s\<lparr>b_curcpu := n\<rparr>) = timely s"
    using assms(1,4) OnCpu by (simp_all add: sys_ok_def bsd_ok_def sized_def linked_def timely_def exec_calm_def)
  with OnCpu show ?thesis by simp
qed

lemma bsd_reachable_ok:
  assumes "bsd_reachable E s" "quiet E" "runs E w" "0 < MAXCPU E"
  shows "sys_ok E s"
  using assms(1)
proof induction
  case (start maxproc maxfiles tunable x)
  then show ?case by (rule boot_sys_ok[OF _ assms(4)])
next
  case (step s cmd s')
  with bsd_step_ok[OF step.IH assms(2,3) step.hyps(2)] show ?case by auto
qed

lemma bsd_paced_timely:
  assumes "bsd_paced E s" "quiet E" "runs E w" "0 < MAXCPU E"
  shows "timely s"
  using assms(1)
proof induction
  case (start maxproc maxfiles tunable x)
  then show ?case by (rule boot_ok(2))
next
  case (step s cmd s')
  have "sys_ok E s" by (rule bsd_reachable_ok[OF paced_reachable[OF step.hyps(1)] assms(2-4)])
  from bsd_step_ok[OF this assms(2,3) step.hyps(2)] step show ?case by auto
qed

end
