(* ===== verification/Bsd_Theorems.thy ===== *)
theory Bsd_Theorems
  imports Bsd_System
begin

text \<open>
  Properties of the BSD callouts: the reachable states, the scan of the wheel, running, establishing and
  disestablishing a callout, and what goes wrong. A callout that runs is the subject of \<open>Bsd_Running\<close>.
\<close>

section \<open>A concrete system for the witnesses\<close>

definition demo_env :: "nat benv" where
  "demo_env = \<lparr>run = (\<lambda>f a s. Some (s\<lparr>b_world := Suc (b_world s)\<rparr>)), others = Some, is_rm = (\<lambda>l. False),
     lock_owned = (\<lambda>l s. True), Giant = 0, MAXCPU = 2\<rparr>"

definition demo_time :: ktime where
  "demo_time = \<lparr>sbinuptime = 0, hardclocktime = 0, tick_sbt = 0, sbt_tickthreshold = 0, tc_precexp = 0, cold = False\<rparr>"

definition demo_flags :: rflags where "demo_flags = \<lparr>rf_flags = {C_ABSOLUTE}, prelget = 0\<rparr>"

definition demo_boot :: "nat bsd" where
  "demo_boot = callout_init demo_env 2 True (callout_init demo_env 1 True (callout_init demo_env 0 True
     (boot demo_env 0 0 (Some 100) 0)))"

lemma demo_env [simp]: "quiet demo_env" "runs demo_env (\<lambda>f a. Suc)" "MAXCPU demo_env = 2" "lock_owned demo_env l s"
  by (simp_all add: demo_env_def quiet_def runs_def)

lemma demo_wheel: "ncallout_of 0 0 (Some 100) < 2 ^ 30" "bsd_fls (ncallout_of 0 0 (Some 100)) = 7"
  by (simp_all add: ncallout_of_def bsd_fls.simps)

lemma demo_boot_simps [simp]:
  "b_co demo_boot c = zero_callout\<lparr>c_iflags := if c \<le> 2 then {CALLOUT_RETURNUNLOCKED} else {}\<rparr>"
  "b_cc demo_boot n = b_cc (boot demo_env 0 0 (Some 100) (0::nat)) n"
  "callwheelsize demo_boot = 128" "callwheelmask demo_boot = 127" "b_curcpu demo_boot = 0" "cc_default_cpu demo_boot = 0"
  by (auto simp: demo_boot_def callout_init_def upd_co_def boot_simps[OF demo_wheel(1)] demo_wheel(2) zero_callout_def)

lemma demo_boot_cpu [simp]:
  "n < 2 \<Longrightarrow> b_cc (boot demo_env 0 0 (Some 100) (0::nat)) n = cpu_init_cpu 2 zero_cpu"
  by (simp add: boot_simps[OF demo_wheel(1)])

lemma demo_boot_paced: "bsd_paced demo_env demo_boot"
proof -
  have init: "bsd_paced demo_env (callout_init demo_env c True s)"
    if "bsd_paced demo_env s" "CALLOUT_PENDING \<notin> c_iflags (b_co s c)" for c s
    by (rule bsd_paced.step[OF that(1), of "Init c True"]) (use that in auto)
  show ?thesis
    unfolding demo_boot_def
    by (intro init bsd_paced.start demo_wheel(1))
      (simp_all add: callout_init_def upd_co_def boot_simps[OF demo_wheel(1)] zero_callout_def)
qed

lemma demo_boot_ok: "sys_ok demo_env demo_boot"
  by (rule bsd_reachable_ok[OF paced_reachable[OF demo_boot_paced], where w = "\<lambda>f a. Suc"]) simp_all

text \<open>Arming callout \<open>c\<close> of the concrete system for an absolute time.\<close>

definition demo_reset :: "addr \<Rightarrow> int \<Rightarrow> bcmd" where
  "demo_reset c t = Reset demo_time c t 0 7 c None demo_flags"

definition demo_added :: "addr \<Rightarrow> int \<Rightarrow> nat bsd \<Rightarrow> nat bsd" where
  "demo_added c t s = added c 0 t 0 (Some 7) c 0 {C_ABSOLUTE} s"

lemma demo_reset_step:
  assumes "bsd_paced demo_env s" "0 \<le> t" "t \<le> SBT_MAX" "cc_lastscan (b_cc s 0) = 0"
    "CALLOUT_PENDING \<notin> c_iflags (b_co s c)" "CALLOUT_RETURNUNLOCKED \<in> c_iflags (b_co s c)" "c_cpu (b_co s c) = 0"
  shows "bsd_paced demo_env (demo_added c t s)"
proof -
  have ok: "sys_ok demo_env s" by (rule bsd_reachable_ok[OF paced_reachable[OF assms(1)], where w = "\<lambda>f a. Suc"]) simp_all
  have w: "callout_when demo_time t 0 demo_flags = (t, 0)" by (simp add: callout_when_def demo_flags_def)
  have rf: "rf_flags demo_flags = {C_ABSOLUTE}" by (simp add: demo_flags_def)
  have legal: "bsd_legal demo_env (demo_reset c t) s"
    using assms by (simp add: demo_reset_def w) (simp add: demo_flags_def)
  obtain nx n where r: "callout_reset_sbt_on demo_env demo_time c t 0 (Some 7) c None demo_flags s =
      Some (if CALLOUT_PENDING \<in> c_iflags (b_co s c) then 1 else 0,
        reset_state c nx n (callout_when demo_time t 0 demo_flags) (Some 7) c (rf_flags demo_flags) s)"
    and n: "n = (case None of None \<Rightarrow> c_cpu (b_co s c) | Some n \<Rightarrow> n)"
    and "sys_ok demo_env (reset_state c nx n (callout_when demo_time t 0 demo_flags) (Some 7) c (rf_flags demo_flags) s)"
    by (rule reset_sys_ok[OF ok demo_env(1) legal[unfolded demo_reset_def]])
  have "reset_state c nx n (callout_when demo_time t 0 demo_flags) (Some 7) c (rf_flags demo_flags) s = demo_added c t s"
    using assms n rf by (simp add: w reset_state_def demo_added_def idle_state_def add_time_def
      add_precision_def move_cpu_same min_def max_def)
  with r have "bsd_exec demo_env (demo_reset c t) s = Some (demo_added c t s)"
    by (simp add: demo_reset_def)
  moreover have "paced (demo_reset c t) s" by (simp add: demo_reset_def)
  ultimately show ?thesis using bsd_paced.step[OF assms(1) legal] by blast
qed

text \<open>Two armed callouts, of the times 3 and 5.\<close>

definition demo_two :: "nat bsd" where
  "demo_two = demo_added 1 5 (demo_added 0 3 demo_boot)"

lemma demo_two_ok: "bsd_reachable demo_env demo_two" "sys_ok demo_env demo_two" "bsd_paced demo_env demo_two"
proof -
  show p: "bsd_paced demo_env demo_two" unfolding demo_two_def
    by (intro demo_reset_step demo_boot_paced)
      (simp_all add: demo_added_def SBT_MAX_def cpu_init_cpu_def zero_cpu_def zero_callout_def)
  show r: "bsd_reachable demo_env demo_two" by (rule paced_reachable[OF p])
  show "sys_ok demo_env demo_two" by (rule bsd_reachable_ok[OF r, where w = "\<lambda>f a. Suc"]) simp_all
qed

lemma demo_two_simps [simp]:
  "b_curcpu demo_two = 0" "cc_lastscan (b_cc demo_two 0) = 0" "callwheelsize demo_two = 128" "expireq demo_two 0 = []"
  "wheel demo_two 0 b = (if b = 0 then [1, 0] else [])" "c_time (b_co demo_two 0) = 3" "c_time (b_co demo_two (Suc 0)) = 5"
  "c_lock (b_co demo_two c) = None" "c_func (b_co demo_two 0) = Some 7" "c_cpu (b_co demo_two c) = 0"
  "CALLOUT_RETURNUNLOCKED \<in> c_iflags (b_co demo_two 0)" "CALLOUT_PENDING \<in> c_iflags (b_co demo_two 0)"
  "c_arg (b_co demo_two 0) = 0"
proof -
  have "callout_hash 5 AND 127 = 0" "callout_hash 3 AND 127 = 0"
    by (simp_all add: callout_hash_def CC_HASH_SHIFT_def u32_def)
  then show "b_curcpu demo_two = 0" "cc_lastscan (b_cc demo_two 0) = 0" "callwheelsize demo_two = 128" "expireq demo_two 0 = []"
    "wheel demo_two 0 b = (if b = 0 then [1, 0] else [])" "c_time (b_co demo_two 0) = 3" "c_time (b_co demo_two (Suc 0)) = 5"
    "c_lock (b_co demo_two c) = None" "c_func (b_co demo_two 0) = Some 7" "c_cpu (b_co demo_two c) = 0"
    "CALLOUT_RETURNUNLOCKED \<in> c_iflags (b_co demo_two 0)" "CALLOUT_PENDING \<in> c_iflags (b_co demo_two 0)"
    "c_arg (b_co demo_two 0) = 0"
    by (simp_all add: demo_two_def demo_added_def cpu_init_cpu_def zero_cpu_def zero_callout_def)
qed

lemma singleton_list: "distinct xs \<Longrightarrow> set xs = {x} \<Longrightarrow> xs = [x]"
  by (cases xs; cases "tl xs") auto

section \<open>Reachable states\<close>

text \<open>C31: In every state that the legal operations can reach in the quiet system (no other CPU acts between the steps of
  an operation, and callout functions do not touch the callouts), the lists of callouts and the flags of the callouts
  agree (bsd_ok), and every legal operation is defined: no assertion fails, no list operation is
  applied to a callout that is not in the list, no loop runs for ever. If, moreover, no clock interrupt of the run made the
  scan wrap round part of the wheel (bsd_paced), the event timer of every CPU is set no later than the latest start
  of any callout on its wheel (timely).\<close>

theorem bsd_reachable_safe:
  assumes "bsd_reachable E s" "quiet E" "runs E w" "0 < MAXCPU E"
  shows "bsd_ok s \<and> (\<forall>cmd. bsd_legal E cmd s \<longrightarrow> bsd_exec E cmd s \<noteq> None) \<and> (bsd_paced E s \<longrightarrow> timely s)"
proof -
  have ok: "sys_ok E s" by (rule bsd_reachable_ok[OF assms])
  with bsd_step_ok[OF ok assms(2,3)] bsd_paced_timely[OF _ assms(2-4)] show ?thesis by (auto dest: sys_okD(1))
qed

theorem bsd_reachable_safe_witness:
  "bsd_ok demo_two \<and> timely demo_two \<and> bsd_exec demo_env (Process 4) demo_two \<noteq> None \<and>
   bsd_exec demo_env (Process (2 ^ 30)) demo_two \<noteq> None \<and> bsd_exec demo_env (Stop 1 {} None) demo_two \<noteq> None"
proof -
  have "bsd_legal demo_env (Process 4) demo_two" "bsd_legal demo_env (Process (2 ^ 30)) demo_two" "bsd_legal demo_env (Stop 1 {} None) demo_two"
    by (simp_all add: scan_gap_ok_def SBT_MAX_def stop_allowed_def)
  moreover have "0 < MAXCPU demo_env" by simp
  ultimately show ?thesis
    using bsd_reachable_safe[OF demo_two_ok(1) demo_env(1,2)] demo_two_ok(3) by blast
qed

section \<open>The clock interrupt\<close>

text \<open>C32: In a state with the invariant in which no callout of the CPU runs directly from the interrupt, at a time not before
  the last scan and at most 2^54 after it, callout_process takes exactly the callouts of its CPU whose time has come off the wheel and appends them
  to the expiry queue, each once, and leaves the others as they are. The event timer is set to a time after
  now and at most half a second away; if the scan does not wrap round part of the wheel (whole_turns), that time is no later
  than the latest start of any callout left on the wheel.\<close>

theorem bsd_process_due:
  assumes "bsd_ok s" "direct_free s (b_curcpu s)" "scan_gap_ok (cc_lastscan (b_cc s (b_curcpu s))) now"
  shows "\<exists>s' ds. callout_process E now s = Some s' \<and> bsd_ok s' \<and> distinct ds \<and>
    set ds = {c. (\<exists>b. c \<in> set (wheel s (b_curcpu s) b)) \<and> c_time (b_co s c) \<le> now} \<and>
    expireq s' (b_curcpu s) = expireq s (b_curcpu s) @ ds \<and>
    (\<forall>b. wheel s' (b_curcpu s) b = filter (\<lambda>c. now < c_time (b_co s c)) (wheel s (b_curcpu s) b)) \<and>
    (\<forall>c. c \<notin> set ds \<longrightarrow> b_co s' c = b_co s c) \<and>
    now < cc_firstevent (b_cc s' (b_curcpu s)) \<and> cc_firstevent (b_cc s' (b_curcpu s)) \<le> now + SBT_1S div 2 \<and>
    (whole_turns (callwheelsize s) (cc_lastscan (b_cc s (b_curcpu s))) now \<longrightarrow>
      (\<forall>b. \<forall>c\<in>set (wheel s' (b_curcpu s) b). cc_firstevent (b_cc s' (b_curcpu s)) \<le> deadline (b_co s' c)))"
proof -
  obtain ds v where run: "callout_process E now s = Some (scanned (b_curcpu s) now ds v s)" and d: "distinct ds"
    and ds: "\<forall>c. c \<in> set ds \<longleftrightarrow> (\<exists>b. c \<in> set (wheel s (b_curcpu s) b)) \<and> c_time (b_co s c) \<le> now"
    and v: "now < sc_last v" "sc_last v \<le> now + 2 ^ 31"
    and bound: "whole_turns (callwheelsize s) (cc_lastscan (b_cc s (b_curcpu s))) now \<longrightarrow>
       (\<forall>b. \<forall>c\<in>set (wheel s (b_curcpu s) b). now < c_time (b_co s c) \<longrightarrow> sc_last v \<le> deadline (b_co s c))"
    by (rule callout_process_run[OF assms, where E = E])
  have "0 \<le> now" "now \<le> SBT_MAX" using assms(3) by (auto simp: scan_gap_ok_def)
  from scanned_ok[OF assms(1) d ds[rule_format] this, of v]
  have "bsd_ok (scanned (b_curcpu s) now ds v s)" .
  moreover have "filter (\<lambda>c. c \<notin> set ds) (wheel s (b_curcpu s) b) =
      filter (\<lambda>c. now < c_time (b_co s c)) (wheel s (b_curcpu s) b)" for b
    using ds by (intro filter_cong) (auto simp: not_le)
  moreover have "sc_last v \<le> deadline (b_co s c)"
    if "whole_turns (callwheelsize s) (cc_lastscan (b_cc s (b_curcpu s))) now" "c \<in> set (wheel s (b_curcpu s) b)" "c \<notin> set ds" for b c
    using bound ds that by force
  ultimately show ?thesis
    using run d ds v by (intro exI[of _ "scanned (b_curcpu s) now ds v s"] exI[of _ ds]) (auto simp: SBT_1S_def)
qed

theorem bsd_process_due_witness:
  "\<exists>s'. callout_process demo_env 4 demo_two = Some s' \<and> expireq s' 0 = [0]"
proof -
  obtain s' ds where s': "callout_process demo_env 4 demo_two = Some s'" "distinct ds"
      "set ds = {c. (\<exists>b. c \<in> set (wheel demo_two 0 b)) \<and> c_time (b_co demo_two c) \<le> 4}"
      "expireq s' 0 = expireq demo_two 0 @ ds"
    using bsd_process_due[OF sys_okD(1)[OF demo_two_ok(2)] sys_okD(8)[OF demo_two_ok(2)], of 4 demo_env]
    by (auto simp: scan_gap_ok_def SBT_MAX_def)
  have "set ds = {0}" unfolding s'(3) by auto
  from singleton_list[OF s'(2) this] s' show ?thesis by simp
qed

lemma call_events_expired [simp]: "call_events E (expired_callout n co) = call_events E co"
  by (simp add: call_events_def lock_status_def cong: option.case_cong)

text \<open>C33: A clock interrupt followed by softclock calls the function of every callout of the CPU whose time has come,
  with its argument and under its lock, exactly once, after the callouts that had expired before, and calls
  nothing else; afterwards none of them is pending, and the rest of the wheel is as it was. The event timers stay in
  time unless the scan wraps round part of the wheel.\<close>

theorem bsd_due_callouts_run:
  assumes "sys_ok E s" "quiet E" "runs E w" "bsd_legal E (Process now) s"
  shows "\<exists>s1 s2 ds. callout_process E now s = Some s1 \<and> softclock E (b_curcpu s) s1 = Some s2 \<and> sys_ok E s2 \<and>
    distinct ds \<and> set ds = {c. (\<exists>b. c \<in> set (wheel s (b_curcpu s) b)) \<and> c_time (b_co s c) \<le> now} \<and>
    b_calls s2 = b_calls s1 @ concat (map (\<lambda>c. call_events E (b_co s c)) (expireq s (b_curcpu s) @ ds)) \<and>
    (\<forall>c\<in>set (expireq s (b_curcpu s) @ ds). CALLOUT_PENDING \<notin> c_iflags (b_co s2 c) \<and> c_links (b_co s2 c) = None) \<and>
    (\<forall>b. wheel s2 (b_curcpu s) b = filter (\<lambda>c. now < c_time (b_co s c)) (wheel s (b_curcpu s) b)) \<and>
    (timely s \<and> paced (Process now) s \<longrightarrow> timely s2)"
proof -
  define cc where "cc = b_curcpu s"
  note o = sys_okD[OF assms(1)]
  have gap: "scan_gap_ok (cc_lastscan (b_cc s (b_curcpu s))) now" using assms(4) by simp
  obtain ds v where run: "callout_process E now s = Some (scanned (b_curcpu s) now ds v s)" and d: "distinct ds"
    and ds: "\<forall>c. c \<in> set ds \<longleftrightarrow> (\<exists>b. c \<in> set (wheel s (b_curcpu s) b)) \<and> c_time (b_co s c) \<le> now"
    and "now < sc_last v" "sc_last v \<le> now + 2 ^ 31"
    and "whole_turns (callwheelsize s) (cc_lastscan (b_cc s (b_curcpu s))) now \<longrightarrow>
       (\<forall>b. \<forall>c\<in>set (wheel s (b_curcpu s) b). now < c_time (b_co s c) \<longrightarrow> sc_last v \<le> deadline (b_co s c))"
    by (rule callout_process_run[OF o(1) o(8) gap, where E = E])
  define s1 where "s1 = scanned cc now ds v s"
  have p: "callout_process E now s = Some s1" using run by (simp add: s1_def cc_def)
  then have ok1: "sys_ok E s1" "timely s \<longrightarrow> paced (Process now) s \<longrightarrow> timely s1" using process_sys_ok[OF assms(1,4)] by auto
  obtain s2 where tm: "timely s1 \<longrightarrow> timely s2" and s2: "softclock E cc s1 = Some s2" "sys_ok E s2" "expireq s2 cc = []"
    "b_calls s2 = b_calls s1 @ concat (map (\<lambda>c. call_events E (b_co s1 c)) (expireq s1 cc))"
    "\<And>m b. wheel s2 m b = wheel s1 m b"
    "\<And>c. b_co s2 c = (if c \<in> set (expireq s1 cc)
        then (b_co s1 c)\<lparr>c_links := None, c_iflags := c_iflags (b_co s1 c) - {CALLOUT_PENDING}\<rparr> else b_co s1 c)"
    using softclock_sys_ok[OF ok1(1) assms(2,3), of cc] o(5) unfolding cc_def by metis
  have q: "expireq s1 cc = expireq s cc @ ds" by (simp add: s1_def)
  have ev: "call_events E (b_co s1 c) = call_events E (b_co s c)" for c by (simp add: s1_def)
  have calls: "b_calls s2 = b_calls s1 @ concat (map (\<lambda>c. call_events E (b_co s c)) (expireq s cc @ ds))"
    using s2(4) by (simp only: q ev)
  have idle: "\<forall>c\<in>set (expireq s cc @ ds). CALLOUT_PENDING \<notin> c_iflags (b_co s2 c) \<and> c_links (b_co s2 c) = None"
    unfolding q[symmetric] by (simp add: s2(6))
  have wheel: "wheel s2 cc b = filter (\<lambda>c. now < c_time (b_co s c)) (wheel s cc b)" for b
    unfolding s2(5) s1_def scanned_simps expire_all_simps using ds by (auto simp: not_le cc_def intro!: filter_cong)
  have "set ds = {c. (\<exists>b. c \<in> set (wheel s cc b)) \<and> c_time (b_co s c) \<le> now}" using ds by (auto simp: cc_def)
  moreover have "timely s \<and> paced (Process now) s \<longrightarrow> timely s2" using ok1(2) tm by blast
  ultimately show ?thesis using p d s2(1,2) calls idle wheel unfolding cc_def[symmetric] by blast
qed

theorem bsd_due_callouts_run_witness:
  "\<exists>s1 s2. callout_process demo_env 4 demo_two = Some s1 \<and> softclock demo_env 0 s1 = Some s2 \<and>
     b_calls s2 = b_calls s1 @ [Call 7 0]"
proof -
  have legal: "bsd_legal demo_env (Process 4) demo_two"
    by (simp add: scan_gap_ok_def SBT_MAX_def)
  obtain s1 s2 ds where s: "callout_process demo_env 4 demo_two = Some s1" "softclock demo_env 0 s1 = Some s2" "distinct ds"
      "set ds = {c. (\<exists>b. c \<in> set (wheel demo_two 0 b)) \<and> c_time (b_co demo_two c) \<le> 4}"
      "b_calls s2 = b_calls s1 @ concat (map (\<lambda>c. call_events demo_env (b_co demo_two c)) (expireq demo_two 0 @ ds))"
    using bsd_due_callouts_run[OF demo_two_ok(2) demo_env(1,2) legal] by auto
  have "set ds = {0}" unfolding s(4) by auto
  from singleton_list[OF s(3) this] s show ?thesis by (simp add: call_events_def)
qed

section \<open>Establishing and disestablishing a timeout\<close>

text \<open>C36: callout_reset_sbt_on on a callout that does not run puts it, and only it, on the wheel of the CPU asked
  for, at the time of callout_when or the time of the last scan if that is later, with its function,
  argument and precision, the latter cut off at the end of time; it returns 1 if it took a pending timeout
  back and 0 otherwise, the event timer is in time for it, and for the others if it was before.\<close>

theorem bsd_reset_arms:
  assumes "sys_ok E s" "quiet E" "bsd_legal E (Reset k c sbt prec f arg cpu flags) s"
    and n: "n = (case cpu of None \<Rightarrow> c_cpu (b_co s c) | Some n \<Rightarrow> n)"
    and t: "t = max (fst (callout_when k sbt prec flags)) (cc_lastscan (b_cc s n))"
  shows "\<exists>s'. callout_reset_sbt_on E k c sbt prec (Some f) arg cpu flags s =
      Some (if CALLOUT_PENDING \<in> c_iflags (b_co s c) then 1 else 0, s') \<and> sys_ok E s' \<and>
    c \<in> set (wheel s' n (callout_get_bucket s t)) \<and> c_time (b_co s' c) = t \<and>
    deadline (b_co s' c) = min (t + snd (callout_when k sbt prec flags)) SBT_MAX \<and>
    c_func (b_co s' c) = Some f \<and> c_arg (b_co s' c) = arg \<and> c_cpu (b_co s' c) = n \<and>
    cc_firstevent (b_cc s' n) \<le> deadline (b_co s' c) \<and> (timely s \<longrightarrow> timely s') \<and> (\<forall>d. d \<noteq> c \<longrightarrow> b_co s' d = b_co s d)"
proof -
  define w where "w = callout_when k sbt prec flags"
  obtain nx n' where r: "callout_reset_sbt_on E k c sbt prec (Some f) arg cpu flags s =
      Some (if CALLOUT_PENDING \<in> c_iflags (b_co s c) then 1 else 0,
        reset_state c nx n' (callout_when k sbt prec flags) (Some f) arg (rf_flags flags) s)"
    and n': "n' = (case cpu of None \<Rightarrow> c_cpu (b_co s c) | Some n \<Rightarrow> n)"
    and ok: "sys_ok E (reset_state c nx n' (callout_when k sbt prec flags) (Some f) arg (rf_flags flags) s)"
    and tm: "timely s \<longrightarrow> timely (reset_state c nx n' (callout_when k sbt prec flags) (Some f) arg (rf_flags flags) s)"
    by (rule reset_sys_ok[OF assms(1-3)])
  have nn: "n' = n" by (simp add: n n')
  define s' where "s' = reset_state c nx n w (Some f) arg (rf_flags flags) s"
  have ok': "sys_ok E s'" using ok by (simp add: s'_def w_def nn)
  have t': "t = add_time s n (fst w)" by (simp add: t w_def add_time_def)
  have wh: "c \<in> set (wheel s' n (callout_get_bucket s t))"
    by (simp add: s'_def reset_state_def callout_get_bucket_def t' add_time_def)
  have co: "c_time (b_co s' c) = t" "deadline (b_co s' c) = min (t + snd w) SBT_MAX" "c_func (b_co s' c) = Some f"
      "c_arg (b_co s' c) = arg" "c_cpu (b_co s' c) = n" "\<forall>d. d \<noteq> c \<longrightarrow> b_co s' d = b_co s d"
    by (auto simp: s'_def reset_state_def deadline_def t' add_precision_def)
  have "cc_firstevent (b_cc s' n) \<le> deadline (b_co s' c)"
    by (simp add: s'_def reset_state_def deadline_def)
  with r ok' wh co tm show ?thesis unfolding s'_def[symmetric] w_def[symmetric] nn by simp
qed

theorem bsd_reset_arms_witness:
  "\<exists>s'. callout_reset_sbt_on demo_env demo_time 0 9 0 (Some 7) 1 (Some 1) demo_flags demo_two = Some (1, s') \<and>
     0 \<in> set (wheel s' 1 0) \<and> c_time (b_co s' 0) = 9"
proof -
  have f: "rf_flags demo_flags = {C_ABSOLUTE}" by (simp add: demo_flags_def)
  have w: "callout_when demo_time 9 0 demo_flags = (9, 0)" by (simp add: callout_when_def f)
  have l: "cc_lastscan (b_cc demo_two (Suc 0)) = 0"
    by (simp add: demo_two_def demo_added_def cpu_init_cpu_def zero_cpu_def)
  have legal: "bsd_legal demo_env (Reset demo_time 0 9 0 7 1 (Some 1) demo_flags) demo_two"
    by (simp add: w f SBT_MAX_def)
  have m: "callwheelmask demo_two = 127" by (simp add: demo_two_def demo_added_def)
  have "callout_get_bucket demo_two 9 = 0"
    by (simp add: callout_get_bucket_def m callout_hash_def CC_HASH_SHIFT_def u32_def)
  moreover have "9 = max (fst (callout_when demo_time 9 0 demo_flags)) (cc_lastscan (b_cc demo_two 1))"
    by (simp add: w l)
  moreover have "1 = (case Some 1 of None \<Rightarrow> c_cpu (b_co demo_two 0) | Some n \<Rightarrow> n)" by simp
  note bsd_reset_arms[OF demo_two_ok(2) demo_env(1) legal this calculation(2)]
  ultimately show ?thesis by fastforce
qed

text \<open>C37: _callout_stop_safe on a callout that does not run takes it, and only it, off its wheel or off the expiry
  queue, so that it will not run; it returns 1 if the callout was pending and -1 if there was nothing to stop,
  and stopping it again then returns -1 and changes nothing.\<close>

theorem bsd_stop_disarms:
  assumes "sys_ok E s" "stop_allowed E s c flags"
  shows "\<exists>s'. callout_stop_safe E c flags drain s =
      Some (if CALLOUT_PENDING \<in> c_iflags (b_co s c) then 1 else -1, s') \<and> sys_ok E s' \<and>
    CALLOUT_PENDING \<notin> c_iflags (b_co s' c) \<and> (\<forall>n b. c \<notin> set (wheel s' n b) \<and> c \<notin> set (expireq s' n)) \<and>
    (\<forall>d. d \<noteq> c \<longrightarrow> b_co s' d = b_co s d) \<and> b_calls s' = b_calls s \<and> (timely s \<longrightarrow> timely s') \<and>
    (stop_allowed E s' c flags \<longrightarrow> callout_stop_safe E c flags drain s' = Some (-1, s'))"
proof -
  obtain nx where r: "callout_stop_safe E c flags drain s =
      Some (if CALLOUT_PENDING \<in> c_iflags (b_co s c) then 1 else -1, idle_state c nx s)"
    and ok: "sys_ok E (idle_state c nx s)" and tm: "timely s \<longrightarrow> timely (idle_state c nx s)"
    by (rule stop_sys_ok[OF assms])
  define s' where "s' = idle_state c nx s"
  have np: "CALLOUT_PENDING \<notin> c_iflags (b_co s' c)" by (simp add: s'_def)
  have "c_links (b_co s' c) = None"
    using idle_state_ok(3)[OF sys_okD(1)[OF assms(1)]] by (simp add: s'_def)
  then have nl: "\<forall>n b. c \<notin> set (wheel s' n b) \<and> c \<notin> set (expireq s' n)"
    using ok linked_wheel linked_expireq bsd_okD(2) sys_okD(1) unfolding s'_def[symmetric] by (metis option.distinct(1))
  have again: "callout_stop_safe E c flags drain s' = Some (-1, s')" if "stop_allowed E s' c flags"
    by (rule stop_sys_ok[OF ok[folded s'_def] that, of drain]) (simp add: np idle_state_def)
  have "\<forall>d. d \<noteq> c \<longrightarrow> b_co s' d = b_co s d" "b_calls s' = b_calls s" by (simp_all add: s'_def)
  with r ok np nl again tm show ?thesis unfolding s'_def[symmetric] by blast
qed

theorem bsd_stop_disarms_witness:
  "\<exists>s'. callout_stop_safe demo_env 0 {} None demo_two = Some (1, s') \<and> 0 \<notin> set (wheel s' 0 0)"
  using bsd_stop_disarms[OF demo_two_ok(2), of 0 "{}" None] by (auto simp: stop_allowed_def)

section \<open>What goes wrong\<close>

text \<open>Three callouts on a wheel of 128 buckets, of which the clock interrupt in the fifth bucket sees the first
  two: they lie a turn ahead, in the buckets that it scans for the past.\<close>

definition demo_late :: "nat bsd" where
  "demo_late = demo_added 2 (10 * 2 ^ 24) (demo_added 1 (129 * 2 ^ 24) (demo_added 0 (128 * 2 ^ 24) demo_boot))"

lemma demo_late_reachable: "bsd_reachable demo_env demo_late" "sys_ok demo_env demo_late" "bsd_paced demo_env demo_late"
proof -
  show p: "bsd_paced demo_env demo_late" unfolding demo_late_def
    by (intro demo_reset_step demo_boot_paced)
      (simp_all add: demo_added_def SBT_MAX_def cpu_init_cpu_def zero_cpu_def zero_callout_def)
  show r: "bsd_reachable demo_env demo_late" by (rule paced_reachable[OF p])
  show "sys_ok demo_env demo_late" by (rule bsd_reachable_ok[OF r, where w = "\<lambda>f a. Suc"]) simp_all
qed

lemma demo_late_simps:
  "b_curcpu demo_late = 0" "cc_lastscan (b_cc demo_late 0) = 0" "callwheelsize demo_late = 128" "callwheelmask demo_late = 127"
  "expireq demo_late 0 = []" "wheel demo_late 0 b = (if b = 0 then [0] else if b = 1 then [1] else if b = 10 then [2] else [])"
  "c_time (b_co demo_late 0) = 2147483648" "c_time (b_co demo_late (Suc 0)) = 2164260864" "c_time (b_co demo_late 2) = 167772160"
  "c_precision (b_co demo_late 0) = 0" "c_precision (b_co demo_late (Suc 0)) = 0" "c_precision (b_co demo_late 2) = 0"
proof -
  have "callout_hash 2147483648 AND 127 = 0" "callout_hash 2164260864 AND 127 = 1" "callout_hash 167772160 AND 127 = 10"
    by (simp_all add: callout_hash_def CC_HASH_SHIFT_def u32_def)
  then show "b_curcpu demo_late = 0" "cc_lastscan (b_cc demo_late 0) = 0" "callwheelsize demo_late = 128" "callwheelmask demo_late = 127"
    "expireq demo_late 0 = []" "wheel demo_late 0 b = (if b = 0 then [0] else if b = 1 then [1] else if b = 10 then [2] else [])"
    "c_time (b_co demo_late 0) = 2147483648" "c_time (b_co demo_late (Suc 0)) = 2164260864" "c_time (b_co demo_late 2) = 167772160"
    "c_precision (b_co demo_late 0) = 0" "c_precision (b_co demo_late (Suc 0)) = 0" "c_precision (b_co demo_late 2) = 0"
    by (simp_all add: demo_late_def demo_added_def cpu_init_cpu_def zero_cpu_def zero_callout_def)
qed

lemma demo_late_scan:
  obtains s' where "callout_process demo_env (4 * 2 ^ 24) demo_late = Some s'" "wheel s' 0 10 = [2]"
    "b_co s' 2 = b_co demo_late 2" "cc_firstevent (b_cc s' 0) = 2147483648"
proof -
  define now mx :: int where "now = 67108864" and "mx = 2214592512"
  define s0 where "s0 = upd_cc 0 (\<lambda>cc. cc\<lparr>cc_lastscan := now\<rparr>) demo_late"
  have lk: "linked s0" "direct_free s0 0" "callwheelmask s0 = callwheelsize s0 - 1" "callwheelsize s0 = 2 ^ 7"
    using bsd_linked_cong[of s0 demo_late] bsd_okD(2)[OF sys_okD(1)[OF demo_late_reachable(2)]]
      sys_okD(8)[OF demo_late_reachable(2), of 0]
    by (auto simp: s0_def upd_defs direct_free_def demo_late_simps)
  have b: "bucket_at s0 0 7 0 j = (if j mod 128 = 0 then [0] else if j mod 128 = 1 then [1] else if j mod 128 = 10 then [2] else [])" for j
    by (simp add: bucket_at_def s0_def upd_defs demo_late_simps)
  have co: "b_co s0 = b_co demo_late" by (simp add: s0_def upd_defs)
  have due: "due now s0 (bucket_at s0 0 7 0 j) = []" for j
    by (simp add: b co now_def demo_late_simps)
  define v0 where "v0 = \<lparr>sc_first = 1140850688, sc_last = mx, sc_lastb = 127\<rparr>"
  define v1 where "v1 = v0\<lparr>sc_last := 2147483648\<rparr>"
  define v2 where "v2 = v1\<lparr>sc_lastb := 4\<rparr>"
  have sc: "scan_list now mx 4 s0 (bucket_at s0 0 7 0 0) v0 = v1" "scan_list now mx 4 s0 (bucket_at s0 0 7 0 1) v1 = v2"
    "scan_list now mx 4 s0 (bucket_at s0 0 7 0 2) v2 = v2" "scan_list now mx 4 s0 (bucket_at s0 0 7 0 3) v2 = v2"
    "scan_list now mx 4 s0 (bucket_at s0 0 7 0 4) v2 = v2"
    by (simp_all add: b scan_list_Cons co demo_late_simps aggregate_def now_def mx_def v0_def v1_def v2_def i64_def)
  have mask4: "(7::nat) \<le> 30" by simp
  have round: "process_buckets demo_env 0 now mx 4 (u32 j) v s0 =
      (if i32 (u32 (j + 1) - sc_lastb v') \<le> 0 then process_buckets demo_env 0 now mx 4 (u32 (j + 1)) v' s0 else Some (v', s0))"
    if "scan_list now mx 4 s0 (bucket_at s0 0 7 0 j) v = v'" for j v v'
    using process_buckets_round[OF lk mask4, of demo_env now mx 4 0 j v] unfolding due that Let_def by simp
  have lastb: "sc_lastb v1 = 127" "sc_lastb v2 = 4" by (simp_all add: v0_def v1_def v2_def)
  have "process_buckets demo_env 0 now mx 4 (u32 0) v0 s0 = process_buckets demo_env 0 now mx 4 (u32 1) v1 s0"
    by (subst round[OF sc(1)]) (simp add: lastb u32_def i32_def)
  also have "\<dots> = process_buckets demo_env 0 now mx 4 (u32 2) v2 s0"
    by (subst round[OF sc(2)]) (simp add: lastb u32_def i32_def)
  also have "\<dots> = process_buckets demo_env 0 now mx 4 (u32 3) v2 s0"
    by (subst round[OF sc(3)]) (simp add: lastb u32_def i32_def)
  also have "\<dots> = process_buckets demo_env 0 now mx 4 (u32 4) v2 s0"
    by (subst round[OF sc(4)]) (simp add: lastb u32_def i32_def)
  also have "\<dots> = Some (v2, s0)"
    by (subst round[OF sc(5)]) (simp add: lastb u32_def i32_def)
  finally have run: "process_buckets demo_env 0 now mx 4 0 v0 s0 = Some (v2, s0)" by (simp add: u32_def)
  have range: "process_range 128 0 now = (4, 127, 1140850688, mx)"
    unfolding now_def mx_def by code_simp
  have h: "callout_hash 0 = 0" by (simp add: callout_hash_def u32_def)
  define s1 where "s1 = emit (New_callout 0 2147483648 (sc_first v2)) (upd_cc 0 (\<lambda>cc. cc\<lparr>cc_firstevent := 2147483648\<rparr>) s0)"
  have "callout_process demo_env now demo_late = Some s1"
    unfolding s1_def callout_process_def Let_def demo_late_simps h s0_def[symmetric]
    using run by (simp add: range v0_def v1_def v2_def s0_def upd_defs demo_late_simps)
  then show thesis
    by (intro that[of s1]) (simp_all add: now_def s1_def s0_def upd_defs demo_late_simps)
qed

text \<open>C38: When the scan wraps round part of the wheel, callout_process can set the event timer later than a callout
  on the wheel may start: it meets callouts of the next turn in the buckets it scans for the past, takes the
  first into account, stops at the present bucket because the second is too late to join, and never looks at
  the buckets in between. The state before is reachable, by a run that is paced, its timer is in time, and the
  interrupt is legal.\<close>

theorem bsd_scan_misses_deadline:
  "\<exists>s s' now c b. bsd_reachable demo_env s \<and> bsd_paced demo_env s \<and> bsd_ok s \<and> timely s \<and> bsd_legal demo_env (Process now) s \<and>
     scan_gap_ok (cc_lastscan (b_cc s (b_curcpu s))) now \<and> callout_process demo_env now s = Some s' \<and>
     c \<in> set (wheel s' (b_curcpu s) b) \<and> deadline (b_co s' c) < cc_firstevent (b_cc s' (b_curcpu s))"
proof -
  obtain s' where s': "callout_process demo_env (4 * 2 ^ 24) demo_late = Some s'" "wheel s' 0 10 = [2]"
    "b_co s' 2 = b_co demo_late 2" "cc_firstevent (b_cc s' 0) = 2147483648" by (rule demo_late_scan)
  have "deadline (b_co s' 2) < cc_firstevent (b_cc s' 0)" by (simp add: s' deadline_def demo_late_simps)
  moreover have "scan_gap_ok (cc_lastscan (b_cc demo_late 0)) (4 * 2 ^ 24)"
    by (simp add: demo_late_simps scan_gap_ok_def SBT_MAX_def)
  ultimately show ?thesis
    using s' demo_late_reachable sys_okD(1)[OF demo_late_reachable(2)] bsd_paced_timely[OF demo_late_reachable(3) demo_env(1,2)]
    by (intro exI[of _ demo_late] exI[of _ s'] exI[of _ "4 * 2 ^ 24"] exI[of _ 2] exI[of _ 10]) (simp add: demo_late_simps(1))
qed

text \<open>C39: A callout that is initialised with CALLOUT_SHAREDLOCK takes its lock exclusively all the same: the flag is
  kept in c_iflags, and softclock_call_cc looks for it in c_flags.\<close>

theorem bsd_shared_lock_exclusive:
  assumes "sys_ok E s" "quiet E" "CALLOUT_PENDING \<notin> c_iflags (b_co s c)"
    "callout_init_lock spinlock c (Some l) {CALLOUT_SHAREDLOCK} s = Some s1"
    "bsd_legal E (Reset k c sbt prec f arg cpu flags) s1"
  shows "\<exists>r s2. callout_reset_sbt_on E k c sbt prec (Some f) arg cpu flags s1 = Some (r, s2) \<and> sys_ok E s2 \<and> (timely s \<longrightarrow> timely s2) \<and>
    CALLOUT_SHAREDLOCK \<in> c_iflags (b_co s2 c) \<and> call_events E (b_co s2 c) = [Lock l Exclusive, Call f arg, Unlock l]"
proof -
  note e = callout_init_lock_eq[OF assms(4)]
  have ok: "sys_ok E s1" by (rule fresh_sys_ok(1)[OF assms(1,3) e(2,1)])
  have tm: "timely s \<Longrightarrow> timely s1" by (rule fresh_sys_ok(2)[OF assms(1,3) e(2,1)])
  have c: "b_co s1 c = fresh_callout (Some l) {CALLOUT_SHAREDLOCK} (cc_default_cpu s)"
    by (simp add: e(1) upd_co_def)
  obtain nx n where r: "callout_reset_sbt_on E k c sbt prec (Some f) arg cpu flags s1 =
      Some (if CALLOUT_PENDING \<in> c_iflags (b_co s1 c) then 1 else 0,
        reset_state c nx n (callout_when k sbt prec flags) (Some f) arg (rf_flags flags) s1)"
    and "n = (case cpu of None \<Rightarrow> c_cpu (b_co s1 c) | Some n \<Rightarrow> n)"
    and ok2: "sys_ok E (reset_state c nx n (callout_when k sbt prec flags) (Some f) arg (rf_flags flags) s1)"
    and tm2: "timely s1 \<longrightarrow> timely (reset_state c nx n (callout_when k sbt prec flags) (Some f) arg (rf_flags flags) s1)"
    by (rule reset_sys_ok[OF ok assms(2,5)])
  define s2 where "s2 = reset_state c nx n (callout_when k sbt prec flags) (Some f) arg (rf_flags flags) s1"
  have "c_flags (b_co s2 c) = {CALLOUT_ACTIVE}" "CALLOUT_SHAREDLOCK \<in> c_iflags (b_co s2 c)"
    "CALLOUT_RETURNUNLOCKED \<notin> c_iflags (b_co s2 c)" "c_lock (b_co s2 c) = Some l" "c_func (b_co s2 c) = Some f"
    "c_arg (b_co s2 c) = arg"
    by (auto simp: s2_def reset_state_def idle_state_def c)
  then have "CALLOUT_SHAREDLOCK \<in> c_iflags (b_co s2 c) \<and> call_events E (b_co s2 c) = [Lock l Exclusive, Call f arg, Unlock l]"
    by (simp add: call_events_def lock_status_def)
  with r ok2 tm tm2 show ?thesis unfolding s2_def by blast
qed

theorem bsd_shared_lock_exclusive_witness:
  "\<exists>s1 r s2. callout_init_lock (\<lambda>l. False) 3 (Some 9) {CALLOUT_SHAREDLOCK} demo_two = Some s1 \<and>
     callout_reset_sbt_on demo_env demo_time 3 8 0 (Some 7) 1 None demo_flags s1 = Some (r, s2) \<and>
     call_events demo_env (b_co s2 3) = [Lock 9 Exclusive, Call 7 1, Unlock 9]"
proof -
  obtain s1 where s1: "callout_init_lock (\<lambda>l. False) 3 (Some 9) {CALLOUT_SHAREDLOCK} demo_two = Some s1"
    by (simp add: callout_init_lock_def)
  have "c_lock (b_co s1 3) = Some 9" by (simp add: callout_init_lock_eq(1)[OF s1] upd_co_def)
  then have legal: "bsd_legal demo_env (Reset demo_time 3 8 0 7 1 None demo_flags) s1"
    by (simp add: callout_when_def demo_flags_def SBT_MAX_def)
  have "CALLOUT_PENDING \<notin> c_iflags (b_co demo_two 3)" by (simp add: demo_two_def demo_added_def zero_callout_def)
  from bsd_shared_lock_exclusive[OF demo_two_ok(2) demo_env(1) this s1 legal] s1 show ?thesis by blast
qed

text \<open>C40: _callout_init_lock accepts a callout without a lock, but such a callout cannot run: at the end of its
  function softclock_call_cc gives back the lock that is not there.\<close>

theorem bsd_null_lock_crashes:
  assumes "callout_init_lock spinlock c None flags s = Some s1"
    "callout_cc_add c cc sbt precision func arg cpu rf s1 = Some s2"
  shows "softclock_call_cc E c cc' direct s2 = None"
proof -
  have "CALLOUT_RETURNUNLOCKED \<notin> flags" using assms(1) by (auto simp: callout_init_lock_def split: if_splits)
  then have c: "c_lock (b_co s1 c) = None" "CALLOUT_RETURNUNLOCKED \<notin> c_iflags (b_co s1 c)"
    by (simp_all add: callout_init_lock_eq(1)[OF assms(1)] upd_co_def)
  have "c_lock (b_co s2 c) = None \<and> CALLOUT_RETURNUNLOCKED \<notin> c_iflags (b_co s2 c)"
    using assms(2) c by (auto simp: callout_cc_add_def list_insert_head_def upd_defs Let_def bind_eq_Some_conv split: if_splits)
  then have "softclock_invoke E (b_co s2 c) cc' direct s3 = None" for s3
    by (auto simp: softclock_invoke_def Let_def split: Option.bind_splits)
  then show ?thesis by (auto simp: softclock_call_cc_def Let_def split: Option.bind_splits)
qed

theorem bsd_null_lock_crashes_witness:
  "\<exists>s1 s2. callout_init_lock (\<lambda>l. False) 3 None {} demo_two = Some s1 \<and>
     callout_cc_add 3 0 8 0 (Some 7) 0 0 {} s1 = Some s2 \<and> softclock_call_cc demo_env 3 0 False s2 = None"
proof -
  obtain s1 where s1: "callout_init_lock (\<lambda>l. False) 3 None {} demo_two = Some s1"
    by (simp add: callout_init_lock_def)
  have "CALLOUT_PENDING \<notin> c_iflags (b_co demo_two 3)" by (simp add: demo_two_def demo_added_def zero_callout_def)
  from fresh_sys_ok(1)[OF demo_two_ok(2) this callout_init_lock_eq(2,1)[OF s1]] have "bsd_ok s1" by (rule sys_okD)
  moreover have "c_links (b_co s1 3) = None" by (simp add: callout_init_lock_eq(1)[OF s1] upd_co_def)
  moreover note bsd_ok_butI[of s1 3]
  ultimately obtain s2 where s2: "callout_cc_add 3 0 8 0 (Some 7) 0 0 {} s1 = Some s2"
    using callout_cc_add_eq[of s1 3 8 0 _ 0 "Some 7" 0 0 "{}"] by (auto simp: SBT_MAX_def)
  with s1 bsd_null_lock_crashes[OF s1 s2] show ?thesis by blast
qed

section \<open>When a callout is due\<close>

lemma saturating_add:
  assumes "0 \<le> x" "x \<le> SBT_MAX" "0 \<le> d" "d \<le> SBT_MAX"
  shows "(if i64 (SBT_MAX - x) < d then SBT_MAX else i64 (x + d)) = min (x + d) SBT_MAX"
proof -
  have i: "i64 (SBT_MAX - x) = SBT_MAX - x" using assms by (intro i64_id) (auto simp: SBT_MAX_def)
  show ?thesis
  proof (cases "SBT_MAX - x < d")
    case False
    then have "i64 (x + d) = x + d" using assms by (intro i64_id) (auto simp: SBT_MAX_def)
    with False i show ?thesis by simp
  qed (simp add: i)
qed

text \<open>The time that the delay is counted from, and the delay.\<close>

definition when_base :: "ktime \<Rightarrow> int \<Rightarrow> rflags \<Rightarrow> int" where
  "when_base k sbt flags = (if C_HARDCLOCK \<in> rf_flags flags then hardclocktime k
     else if sbt_tickthreshold k \<le> sbt then hardclocktime k + tick_sbt k else sbinuptime k)"

definition when_delay :: "ktime \<Rightarrow> int \<Rightarrow> rflags \<Rightarrow> int" where
  "when_delay k sbt flags = (if C_HARDCLOCK \<in> rf_flags flags then max sbt (tick_sbt k) else sbt)"

lemma callout_when_eq:
  assumes "C_ABSOLUTE \<notin> rf_flags flags" "C_PRECALC \<notin> rf_flags flags" "0 \<le> sbt" "sbt \<le> SBT_MAX"
    and clock: "0 \<le> hardclocktime k" "hardclocktime k \<le> sbinuptime k" "sbinuptime k < 2 ^ 62" "0 < tick_sbt k"
      "tick_sbt k < 2 ^ 40" "cold k \<longrightarrow> hardclocktime k \<noteq> 0"
  shows "fst (callout_when k sbt prec flags) = min (when_base k sbt flags + when_delay k sbt flags) SBT_MAX"
    "prec \<le> snd (callout_when k sbt prec flags)"
proof -
  have d: "(if C_HARDCLOCK \<in> rf_flags flags \<and> sbt < tick_sbt k then tick_sbt k else sbt) = when_delay k sbt flags"
    by (simp add: when_delay_def)
  have i: "i64 (hardclocktime k + tick_sbt k) = hardclocktime k + tick_sbt k"
    using clock by (intro i64_id) auto
  have b: "(if C_HARDCLOCK \<in> rf_flags flags \<or> sbt_tickthreshold k \<le> when_delay k sbt flags
       then if C_HARDCLOCK \<notin> rf_flags flags
            then i64 ((if cold k \<and> hardclocktime k = 0 then sbinuptime k else hardclocktime k) + tick_sbt k)
            else (if cold k \<and> hardclocktime k = 0 then sbinuptime k else hardclocktime k)
       else sbinuptime k) = when_base k sbt flags"
  proof -
    have "\<not> (cold k \<and> hardclocktime k = 0)" using clock(6) by simp
    then show ?thesis by (simp only: when_base_def when_delay_def if_False i) auto
  qed
  have r: "0 \<le> when_base k sbt flags" "when_base k sbt flags \<le> SBT_MAX" "0 \<le> when_delay k sbt flags"
      "when_delay k sbt flags \<le> SBT_MAX"
    using assms by (auto simp: when_base_def when_delay_def SBT_MAX_def)
  show "fst (callout_when k sbt prec flags) = min (when_base k sbt flags + when_delay k sbt flags) SBT_MAX"
    using assms(1,2) unfolding callout_when_def Let_def d b saturating_add[OF r] by simp
  show "prec \<le> snd (callout_when k sbt prec flags)"
    using assms(1,2) by (simp add: callout_when_def Let_def)
qed

text \<open>For a relative time callout_when gives a time that is at most SBT_MAX, whatever the delay, and at most two
  ticks later than asked for; without C_HARDCLOCK it is never earlier than the delay from now on, with it never
  earlier than the delay from the last hardclock on. The precision is at least the one asked for.\<close>

theorem callout_when_bounds:
  assumes "C_ABSOLUTE \<notin> rf_flags flags" "C_PRECALC \<notin> rf_flags flags" "0 \<le> sbt" "sbt \<le> SBT_MAX"
    and clock: "0 \<le> hardclocktime k" "hardclocktime k \<le> sbinuptime k" "sbinuptime k \<le> hardclocktime k + tick_sbt k"
      "sbinuptime k < 2 ^ 62" "0 < tick_sbt k" "tick_sbt k < 2 ^ 40" "cold k \<longrightarrow> hardclocktime k \<noteq> 0"
  shows "fst (callout_when k sbt prec flags) \<le> SBT_MAX \<and> prec \<le> snd (callout_when k sbt prec flags) \<and>
    fst (callout_when k sbt prec flags) \<le> sbinuptime k + sbt + 2 * tick_sbt k \<and>
    min (hardclocktime k + sbt) SBT_MAX \<le> fst (callout_when k sbt prec flags) \<and>
    (C_HARDCLOCK \<notin> rf_flags flags \<longrightarrow> min (sbinuptime k + sbt) SBT_MAX \<le> fst (callout_when k sbt prec flags))"
proof -
  note eq = callout_when_eq[OF assms(1-4) clock(1,2,4,5,6,7), of prec]
  have "hardclocktime k \<le> when_base k sbt flags" "when_base k sbt flags \<le> sbinuptime k + tick_sbt k"
      "sbt \<le> when_delay k sbt flags" "when_delay k sbt flags \<le> sbt + tick_sbt k"
      "C_HARDCLOCK \<notin> rf_flags flags \<Longrightarrow> sbinuptime k \<le> when_base k sbt flags"
    using assms by (auto simp: when_base_def when_delay_def)
  with eq show ?thesis by (simp add: min_le_iff_disj) linarith
qed

theorem callout_when_bounds_witness:
  "let k = \<lparr>sbinuptime = 1050, hardclocktime = 1000, tick_sbt = 100, sbt_tickthreshold = 500, tc_precexp = 4, cold = False\<rparr>;
       flags = \<lparr>rf_flags = {}, prelget = -1\<rparr> in
   min (sbinuptime k + 800) SBT_MAX \<le> fst (callout_when k 800 5 flags) \<and> callout_when k 800 5 flags = (1900, 50)"
proof -
  define k where "k = \<lparr>sbinuptime = 1050, hardclocktime = 1000, tick_sbt = 100, sbt_tickthreshold = 500, tc_precexp = 4, cold = False\<rparr>"
  define flags where "flags = \<lparr>rf_flags = {}, prelget = -1\<rparr>"
  have "min (sbinuptime k + 800) SBT_MAX \<le> fst (callout_when k 800 5 flags)"
    using callout_when_bounds[of flags 800 k 5] by (simp add: k_def flags_def SBT_MAX_def)
  moreover have "callout_when k 800 5 flags = (1900, 50)"
    by (simp add: callout_when_def k_def flags_def i64_def SBT_MAX_def)
  ultimately show ?thesis unfolding Let_def k_def flags_def by blast
qed

end
