(* ===== verification/Bsd_Running.thy ===== *)
theory Bsd_Running
  imports Bsd_Theorems
begin

text \<open>
  Operations on a callout while it runs: a stop that comes between the release of the CPU's lock and the
  lock of the callout, a callout function that establishes its own timeout again, on its CPU or another,
  and one that stops itself afterwards.
\<close>

section \<open>A stop before the callout has its lock\<close>

text \<open>The callout as softclock takes it from the expiry queue: on no list, pending, and not to migrate.\<close>

definition taken :: "'w benv \<Rightarrow> 'w bsd \<Rightarrow> addr \<Rightarrow> nat \<Rightarrow> bool" where
  "taken E s c cc =
     (c_links (b_co s c) = None \<and> c_cpu (b_co s c) = cc \<and> cc < MAXCPU E \<and> CALLOUT_ACTIVE \<in> c_flags (b_co s c) \<and>
      CALLOUT_PENDING \<in> c_iflags (b_co s c) \<and> CALLOUT_DFRMIGRATION \<notin> c_iflags (b_co s c) \<and>
      CALLOUT_DIRECT \<notin> c_iflags (b_co s c) \<and> entity_idle E s cc False)"

text \<open>C35: While softclock waits for the lock of a callout, _callout_stop_safe by the holder of that lock returns 1,
  and then the function of the callout is not called: softclock takes the lock, finds the callout cancelled,
  gives the lock back, and the callout is neither pending nor active.\<close>

theorem bsd_stop_before_lock:
  assumes "taken E s c cc" and lock: "c_lock (b_co s c) = Some l" "l \<noteq> Giant E" "\<And>s. lock_owned E l s"
    and E': "E' = E\<lparr>others := (\<lambda>s. map_option snd (callout_stop_safe E c {} None s))\<rparr>"
  shows "\<exists>s'. softclock_call_cc E' c cc False s = Some s' \<and>
    b_calls s' = b_calls s @ [Lock l (lock_status E (b_co s c)), Unlock l] \<and> b_world s' = b_world s \<and>
    CALLOUT_PENDING \<notin> c_iflags (b_co s' c) \<and> CALLOUT_ACTIVE \<notin> c_flags (b_co s' c) \<and>
    (\<exists>s1 s2. softclock_enter c cc False s = Some s1 \<and> callout_stop_safe E c {} None s1 = Some (1, s2))"
proof -
  define s1 where "s1 = upd_exec cc False
        (\<lambda>e. e\<lparr>cc_curr := Some c, cc_last_func := c_func (b_co s c), cc_last_arg := c_arg (b_co s c), cc_cancel := False,
               cc_drain := None\<rparr>) (clear_iflag c CALLOUT_PENDING s)"
  define s2 where "s2 = upd_exec cc False (\<lambda>e. e\<lparr>cc_cancel := True\<rparr>) (clear_flag c CALLOUT_ACTIVE s1)"
  note t = assms(1)[unfolded taken_def entity_idle_def]
  have enter: "softclock_enter c cc False s = Some s1" using t by (simp add: softclock_enter_def s1_def Let_def)
  have m: "cc_cce_migrating E cc False s2 = cc_cce_migrating E cc False s"
    by (simp add: s2_def s1_def cc_cce_migrating_def upd_defs)
  have "stop_again E c False True {} None None s1 = Some (1, s2)"
    using t lock m
    by (subst stop_again.simps)
      (simp add: callout_lock_def s1_def upd_defs stop_running_def Let_def s2_def callout_migrating_def cc_cce_migrating_def)
  moreover have "CALLOUT_DIRECT \<notin> c_iflags (b_co s1 c)" "c_lock (b_co s1 c) = Some l" using t lock by (simp_all add: s1_def upd_defs)
  ultimately have stop: "callout_stop_safe E c {} None s1 = Some (1, s2)"
    using lock by (simp add: callout_stop_safe_def)
  define s3 where "s3 = emit (Unlock l) (emit (Lock l (lock_status E (b_co s c))) s2)"
  have ls: "lock_status E' (b_co s c) = lock_status E (b_co s c)" by (simp add: E' lock_status_def cong: option.case_cong)
  have "softclock_invoke E' (b_co s c) cc False s1 = Some s3"
    using lock stop by (simp add: softclock_invoke_def Let_def E' ls[unfolded E'] s3_def) (simp add: s2_def upd_defs)
  moreover have "softclock_leave E' c (b_co s c) cc False s3 = Some (upd_exec cc False (\<lambda>e. e\<lparr>cc_curr := None\<rparr>) s3)"
    using t by (simp add: softclock_leave_def softclock_drain_def s3_def s2_def s1_def upd_defs cc_cce_migrating_def E')
  ultimately have "softclock_call_cc E' c cc False s = Some (upd_exec cc False (\<lambda>e. e\<lparr>cc_curr := None\<rparr>) s3)"
    by (simp add: softclock_call_cc_def enter Let_def)
  with enter stop show ?thesis
    by (intro exI[of _ "upd_exec cc False (\<lambda>e. e\<lparr>cc_curr := None\<rparr>) s3"])
      (simp add: s3_def s2_def s1_def upd_defs)
qed

text \<open>A callout with a lock, as softclock takes it.\<close>

definition demo_taken :: "lockid option \<Rightarrow> nat bsd" where
  "demo_taken lock = upd_co 5 (\<lambda>co. zero_callout\<lparr>c_func := Some 7, c_arg := 4, c_lock := lock, c_flags := {CALLOUT_ACTIVE},
     c_iflags := insert CALLOUT_PENDING (if lock = None then {CALLOUT_RETURNUNLOCKED} else {})\<rparr>) demo_boot"

lemma demo_taken: "taken demo_env (demo_taken lock) 5 0"
  by (simp add: taken_def demo_taken_def upd_co_def zero_callout_def entity_idle_def cc_cce_migrating_def exec_of_def
      cpu_init_cpu_def cce_cleanup_def)

theorem bsd_stop_before_lock_witness:
  "\<exists>s'. softclock_call_cc (demo_env\<lparr>others := (\<lambda>s. map_option snd (callout_stop_safe demo_env 5 {} None s))\<rparr>) 5 0 False
      (demo_taken (Some 9)) = Some s' \<and> CALLOUT_PENDING \<notin> c_iflags (b_co s' 5)"
proof -
  have "c_lock (b_co (demo_taken (Some 9)) 5) = Some 9" "9 \<noteq> Giant demo_env"
    by (simp_all add: demo_taken_def upd_co_def zero_callout_def demo_env_def)
  from bsd_stop_before_lock[OF demo_taken this _ refl] show ?thesis by auto
qed

section \<open>A callout function that establishes its timeout again\<close>

text \<open>The state while the function runs, with the calls \<open>calls\<close> made so far.\<close>

definition in_call :: "'w bsd \<Rightarrow> addr \<Rightarrow> nat \<Rightarrow> 'w bsd" where
  "in_call s c cc = emit (Call (the (c_func (b_co s c))) (c_arg (b_co s c))) (upd_exec cc False
        (\<lambda>e. e\<lparr>cc_curr := Some c, cc_last_func := c_func (b_co s c), cc_last_arg := c_arg (b_co s c), cc_cancel := False,
               cc_drain := None\<rparr>) (clear_iflag c CALLOUT_PENDING s))"

lemma in_call_simps [simp]:
  "b_co (in_call s c cc) d = (if d = c then (b_co s c)\<lparr>c_iflags := c_iflags (b_co s c) - {CALLOUT_PENDING}\<rparr> else b_co s d)"
  "cc_callwheel (b_cc (in_call s c cc) n) = cc_callwheel (b_cc s n)"
  "cc_expireq (b_cc (in_call s c cc) n) = cc_expireq (b_cc s n)"
  "cc_lastscan (b_cc (in_call s c cc) n) = cc_lastscan (b_cc s n)"
  "cc_inited (b_cc (in_call s c cc) n) = cc_inited (b_cc s n)"
  "callwheelsize (in_call s c cc) = callwheelsize s" "callwheelmask (in_call s c cc) = callwheelmask s"
  "cc_curr (exec_of (in_call s c cc) cc False) = Some c" "cc_drain (exec_of (in_call s c cc) cc False) = None"
  "cc_waiting (exec_of (in_call s c cc) cc False) = cc_waiting (exec_of s cc False)"
  "ce_migration_cpu (exec_of (in_call s c cc) cc False) = ce_migration_cpu (exec_of s cc False)"
  by (simp_all add: in_call_def upd_defs)

text \<open>softclock_call_cc on a callout without a lock is its function, run in that state, and what follows.\<close>

lemma softclock_call_unlocked:
  assumes "taken E s c cc" "quiet E" "c_lock (b_co s c) = None" "CALLOUT_RETURNUNLOCKED \<in> c_iflags (b_co s c)"
    "c_func (b_co s c) = Some f"
  shows "softclock_call_cc E c cc False s =
    run E f (c_arg (b_co s c)) (in_call s c cc) \<bind> softclock_leave E c (b_co s c) cc False"
  using assms
  by (simp add: softclock_call_cc_def softclock_enter_def softclock_invoke_def taken_def quietD Let_def in_call_def)

text \<open>The place of a callout that its own function has established again, and a state that has it there.\<close>

definition rearmed :: "'w bsd \<Rightarrow> 'w bsd \<Rightarrow> addr \<Rightarrow> nat \<Rightarrow> int \<Rightarrow> int \<Rightarrow> cfunc \<Rightarrow> nat \<Rightarrow> bool" where
  "rearmed s s' c n t p g a =
     (bsd_ok s' \<and> c \<in> set (wheel s' n (callout_get_bucket s t)) \<and> c_time (b_co s' c) = t \<and>
      deadline (b_co s' c) = min (t + p) SBT_MAX \<and> c_func (b_co s' c) = Some g \<and> c_arg (b_co s' c) = a \<and>
      c_cpu (b_co s' c) = n \<and> (\<forall>d. d \<noteq> c \<longrightarrow> b_co s' d = b_co s d))"

lemma added_rearmed:
  assumes but: "bsd_ok_but c s0" and c: "c_links (b_co s0 c) = None" "c_cpu (b_co s0 c) = n"
      "CALLOUT_DFRMIGRATION \<notin> c_iflags (b_co s0 c)"
    and same: "\<And>d. d \<noteq> c \<Longrightarrow> b_co s0 d = b_co s d" "callwheelmask s0 = callwheelmask s"
      "\<And>m. cc_lastscan (b_cc s0 m) = cc_lastscan (b_cc s m)"
    and w: "sbt \<le> SBT_MAX" "0 \<le> p"
    and t: "t = max sbt (cc_lastscan (b_cc s n))"
  obtains s1 where "callout_cc_add c n sbt p (Some g) a n flags s0 = Some s1" "rearmed s s1 c n t p g a"
    "\<forall>m. cc_exec_entity (b_cc s1 m) = cc_exec_entity (b_cc s0 m)"
proof -
  define s1 where "s1 = added c n t (add_precision t p) (Some g) a n flags s0"
  have tt: "t = add_time s0 n sbt" by (simp add: t add_time_def same)
  have r: "cc_lastscan (b_cc s0 n) \<le> t" "t \<le> SBT_MAX"
    using w bsd_ok_butD(4)[OF but, of n] by (auto simp: t same(3)[symmetric])
  have "bsd_ok s1" unfolding s1_def
    by (rule added_ok[OF but c r(1)]) (use r w in \<open>auto simp: add_precision_def\<close>)
  then have "rearmed s s1 c n t p g a"
    by (simp add: rearmed_def s1_def c same callout_get_bucket_def deadline_def add_precision_def)
  moreover have "callout_cc_add c n sbt p (Some g) a n flags s0 = Some s1"
    unfolding s1_def by (rule callout_cc_add_eq[OF c(1) but w tt])
  ultimately show thesis by (intro that[of s1]) (simp_all add: s1_def)
qed

lemma rearmed_upd_exec [simp]: "rearmed s (upd_exec cc d f s') c n t p g a = rearmed s s' c n t p g a"
  unfolding rearmed_def bsd_ok_upd_exec by (simp add: upd_defs)

text \<open>What the function's call of callout_reset_sbt_on does: it arms the callout at once on its own CPU, and
  leaves the move to another CPU for later.\<close>

definition self_reset ::
  "'w benv \<Rightarrow> ktime \<Rightarrow> addr \<Rightarrow> int \<Rightarrow> int \<Rightarrow> cfunc \<Rightarrow> nat \<Rightarrow> nat \<Rightarrow> rflags \<Rightarrow> cfunc \<Rightarrow> nat \<Rightarrow> 'w bsd \<Rightarrow> 'w bsd option" where
  "self_reset E k c sbt prec g a n flags f b s = map_option snd (callout_reset_sbt_on E k c sbt prec (Some g) a (Some n) flags s)"

definition deferred :: "addr \<Rightarrow> nat \<Rightarrow> nat \<Rightarrow> int \<times> int \<Rightarrow> cfunc \<Rightarrow> nat \<Rightarrow> 'w bsd \<Rightarrow> 'w bsd" where
  "deferred c cc n w g a s = set_flag c CALLOUT_ACTIVE (set_iflag c CALLOUT_PENDING (set_iflag c CALLOUT_DFRMIGRATION
            (defer_migration cc False n (fst w) (snd w) (Some g) a s)))"

lemma self_reset_eq:
  assumes t: "taken E s c cc" and lock: "c_lock (b_co s c) = None"
    and n: "n < MAXCPU E" "cc_inited (b_cc s n)" "C_DIRECT_EXEC \<notin> rf_flags flags"
    and w: "w = callout_when k sbt prec flags"
  shows "self_reset E k c sbt prec g a n flags f b (in_call s c cc) =
    (if n = cc then callout_cc_add c cc (fst w) (snd w) (Some g) a cc (rf_flags flags) (in_call s c cc)
     else Some (deferred c cc n w g a (in_call s c cc)))"
  using assms
  by (simp add: self_reset_def callout_reset_sbt_on_def w[symmetric] case_prod_beta callout_lock_def Let_def taken_def
      entity_idle_def callout_migrating_def reset_pending_def reset_place_def deferred_def option.map_comp)
    (cases "callout_cc_add c cc (fst w) (snd w) (Some g) a cc (rf_flags flags) (in_call s c cc)"; auto)

text \<open>What follows the function: nothing if the callout is to stay, and the move if it is to go.\<close>

lemma softclock_leave_stay:
  assumes "cc_curr (exec_of s c' d) = Some c" "cc_drain (exec_of s c' d) = None" "entity_idle E s c' d"
  shows "softclock_leave E c co c' d s = Some (upd_exec c' d (\<lambda>e. e\<lparr>cc_curr := None\<rparr>) s)"
  using assms
  by (simp add: softclock_leave_def softclock_drain_def entity_idle_def cc_cce_migrating_def upd_defs)

definition moving :: "'w benv \<Rightarrow> addr \<Rightarrow> nat \<Rightarrow> nat \<Rightarrow> 'w bsd \<Rightarrow> 'w bsd" where
  "moving E c cc n s = move_cpu c n (clear_iflag c CALLOUT_DFRMIGRATION
     (cc_cce_cleanup E cc False (upd_exec cc False (\<lambda>e. e\<lparr>cc_curr := None\<rparr>) s)))"

lemma moving_simps [simp]:
  "b_co (moving E c cc n s) d = (if d = c
     then (b_co s c)\<lparr>c_iflags := c_iflags (b_co s c) - {CALLOUT_DFRMIGRATION}, c_cpu := n\<rparr> else b_co s d)"
  "cc_callwheel (b_cc (moving E c cc n s) m) = cc_callwheel (b_cc s m)"
  "cc_expireq (b_cc (moving E c cc n s) m) = cc_expireq (b_cc s m)"
  "cc_lastscan (b_cc (moving E c cc n s) m) = cc_lastscan (b_cc s m)"
  "callwheelsize (moving E c cc n s) = callwheelsize s" "callwheelmask (moving E c cc n s) = callwheelmask s"
  by (simp_all add: moving_def cc_cce_cleanup_def upd_defs move_cpu_def)

lemma deferred_simps [simp]:
  "b_co (deferred c cc n w g a s) d = (if d = c then (b_co s c)\<lparr>
     c_iflags := insert CALLOUT_PENDING (insert CALLOUT_DFRMIGRATION (c_iflags (b_co s c))),
     c_flags := insert CALLOUT_ACTIVE (c_flags (b_co s c))\<rparr> else b_co s d)"
  "cc_callwheel (b_cc (deferred c cc n w g a s) m) = cc_callwheel (b_cc s m)"
  "cc_expireq (b_cc (deferred c cc n w g a s) m) = cc_expireq (b_cc s m)"
  "cc_lastscan (b_cc (deferred c cc n w g a s) m) = cc_lastscan (b_cc s m)"
  "callwheelsize (deferred c cc n w g a s) = callwheelsize s" "callwheelmask (deferred c cc n w g a s) = callwheelmask s"
  "exec_of (deferred c cc n w g a s) cc False = (exec_of s cc False)\<lparr>ce_migration_cpu := n, ce_migration_time := fst w,
     ce_migration_prec := snd w, ce_migration_func := Some g, ce_migration_arg := a\<rparr>"
  by (simp_all add: deferred_def defer_migration_def upd_defs)

lemma softclock_leave_move:
  assumes "cc_curr (exec_of s cc False) = Some c" "cc_drain (exec_of s cc False) = None"
    "\<not> cc_waiting (exec_of s cc False)" "n \<noteq> MAXCPU E" "quiet E"
  shows "softclock_leave E c co cc False (deferred c cc n w g a s) =
    callout_cc_add c n (fst w) (snd w) (Some g) a n {} (moving E c cc n (deferred c cc n w g a s))"
proof -
  define s1 where "s1 = deferred c cc n w g a s"
  define s2 where "s2 = upd_exec cc False (\<lambda>e. e\<lparr>cc_curr := None\<rparr>) s1"
  have e1: "exec_of s1 cc False = (exec_of s cc False)\<lparr>ce_migration_cpu := n, ce_migration_time := fst w,
     ce_migration_prec := snd w, ce_migration_func := Some g, ce_migration_arg := a\<rparr>" by (simp add: s1_def)
  then have e2: "exec_of s2 cc False = (exec_of s cc False)\<lparr>ce_migration_cpu := n, ce_migration_time := fst w,
     ce_migration_prec := snd w, ce_migration_func := Some g, ce_migration_arg := a, cc_curr := None\<rparr>"
    by (simp add: s2_def upd_exec_def upd_cc_def exec_of_def)
  have m: "callout_migrating (b_co (cc_cce_cleanup E cc False s2) c)"
    by (simp add: s2_def s1_def cc_cce_cleanup_def upd_exec_def upd_cc_def callout_migrating_def)
  have oth: "others E = Some" using assms(5) by (auto simp: quiet_def)
  have "softclock_migrate E c cc False s2 =
      callout_cc_add c n (fst w) (snd w) (Some g) a n {} (moving E c cc n s1)"
    using m assms(5)
    by (simp add: softclock_migrate_def Let_def e2 callout_cpu_switch_quiet oth moving_def s2_def[symmetric])
  moreover have "softclock_drain E co cc False s2 = Some s2"
    using assms(2) by (simp add: softclock_drain_def e2)
  ultimately show ?thesis
    using assms(1,3,4) unfolding s1_def[symmetric]
    by (simp add: softclock_leave_def e1 s2_def[symmetric] cc_cce_migrating_def e2)
qed

text \<open>C34: The function of a callout without a lock that establishes the timeout of its own callout again, on its own CPU or on another,
  finds it done when it returns: the callout is on the wheel of the CPU asked for, at its time, with its new
  function and argument, and no other callout is touched. On its own CPU this happens at once; the move to
  another CPU is kept in the execution entity until the function is over.\<close>

theorem bsd_self_rearm:
  assumes t: "taken E s c cc" and q: "quiet E" and ok: "bsd_ok_but c s"
    and lock: "c_lock (b_co s c) = None" "CALLOUT_RETURNUNLOCKED \<in> c_iflags (b_co s c)" "c_func (b_co s c) = Some f"
    and n: "n < MAXCPU E" "cc_inited (b_cc s n)" "C_DIRECT_EXEC \<notin> rf_flags flags"
    and w: "w = callout_when k sbt prec flags" "fst w \<le> SBT_MAX" "0 \<le> snd w"
    and time: "time = max (fst w) (cc_lastscan (b_cc s n))"
  shows "\<exists>s'. softclock_call_cc (E\<lparr>run := self_reset E k c sbt prec g a n flags\<rparr>) c cc False s = Some s' \<and>
    rearmed s s' c n time (snd w) g a"
proof -
  define E' where "E' = E\<lparr>run := self_reset E k c sbt prec g a n flags\<rparr>"
  have q': "quiet E'" using q by (simp add: E'_def quiet_def)
  have M: "MAXCPU E' = MAXCPU E" by (simp add: E'_def)
  have t': "taken E' s c cc" using t by (simp add: taken_def entity_idle_def cc_cce_migrating_def M)
  note tk = t[unfolded taken_def entity_idle_def cc_cce_migrating_def]
  have call: "softclock_call_cc E' c cc False s =
      self_reset E k c sbt prec g a n flags f (c_arg (b_co s c)) (in_call s c cc) \<bind> softclock_leave E' c (b_co s c) cc False"
    using softclock_call_unlocked[OF t' q' lock] by (simp add: E'_def)
  note reset = self_reset_eq[OF t lock(1) n w(1)]
  have but: "bsd_ok_but c (in_call s c cc)"
    using ok by (subst bsd_ok_but_cong[where s = s]) auto
  show ?thesis
  proof (cases "n = cc")
    case True
    obtain s1 where s1: "callout_cc_add c cc (fst w) (snd w) (Some g) a cc (rf_flags flags) (in_call s c cc) = Some s1"
        "rearmed s s1 c cc time (snd w) g a" "\<forall>m. cc_exec_entity (b_cc s1 m) = cc_exec_entity (b_cc (in_call s c cc) m)"
      by (rule added_rearmed[OF but]) (use tk w time True in auto)
    then have e: "exec_of s1 cc False = exec_of (in_call s c cc) cc False" by (simp add: exec_of_def)
    have "softclock_leave E' c (b_co s c) cc False s1 = Some (upd_exec cc False (\<lambda>e. e\<lparr>cc_curr := None\<rparr>) s1)"
      by (rule softclock_leave_stay) (use tk in \<open>auto simp: e entity_idle_def cc_cce_migrating_def M\<close>)
    with s1 True show ?thesis unfolding E'_def[symmetric] call reset by simp
  next
    case False
    define s0 where "s0 = moving E' c cc n (deferred c cc n w g a (in_call s c cc))"
    have "bsd_ok_but c s0" using but by (subst bsd_ok_but_cong[where s = "in_call s c cc"]) (auto simp: s0_def)
    then obtain s1 where s1: "callout_cc_add c n (fst w) (snd w) (Some g) a n {} s0 = Some s1"
        "rearmed s s1 c n time (snd w) g a" "\<forall>m. cc_exec_entity (b_cc s1 m) = cc_exec_entity (b_cc s0 m)"
      by (rule added_rearmed) (use tk w time in \<open>auto simp: s0_def\<close>)
    have "softclock_leave E' c (b_co s c) cc False (deferred c cc n w g a (in_call s c cc)) = Some s1"
      unfolding s1(1)[symmetric] s0_def
      by (rule softclock_leave_move[OF _ _ _ _ q']) (use tk n in \<open>auto simp: M\<close>)
    with s1 False show ?thesis unfolding E'_def[symmetric] call reset by simp
  qed
qed

theorem bsd_self_rearm_witness:
  "\<exists>s'. softclock_call_cc (demo_env\<lparr>run := self_reset demo_env demo_time 5 9 0 8 6 1 demo_flags\<rparr>) 5 0 False (demo_taken None)
      = Some s' \<and> rearmed (demo_taken None) s' 5 1 9 0 8 6"
proof -
  have w: "callout_when demo_time 9 0 demo_flags = (9, 0)" by (simp add: callout_when_def demo_flags_def)
  have but: "bsd_ok_but 5 (demo_taken None)"
    using bsd_ok_butI[OF sys_okD(1)[OF demo_boot_ok], of 5]
    by (subst bsd_ok_but_cong[where s = demo_boot]) (auto simp: demo_taken_def upd_co_def zero_callout_def)
  have s: "b_cc (demo_taken None) = b_cc demo_boot" by (simp add: demo_taken_def upd_co_def)
  have c: "c_lock (b_co (demo_taken None) 5) = None" "CALLOUT_RETURNUNLOCKED \<in> c_iflags (b_co (demo_taken None) 5)"
    "c_func (b_co (demo_taken None) 5) = Some 7"
    by (simp_all add: demo_taken_def upd_co_def zero_callout_def)
  have i: "1 < MAXCPU demo_env" "cc_inited (b_cc (demo_taken None) 1)" "C_DIRECT_EXEC \<notin> rf_flags demo_flags"
    by (simp_all add: s cpu_init_cpu_def demo_flags_def)
  have v: "fst (callout_when demo_time 9 0 demo_flags) \<le> SBT_MAX" "0 \<le> snd (callout_when demo_time 9 0 demo_flags)"
    by (simp_all add: w SBT_MAX_def)
  have l: "max (fst (callout_when demo_time 9 0 demo_flags)) (cc_lastscan (b_cc (demo_taken None) 1)) = 9"
    by (simp add: s w cpu_init_cpu_def zero_cpu_def)
  from bsd_self_rearm[OF demo_taken demo_env(1) but c i refl v refl, of 8 6] show ?thesis
    unfolding l by (simp add: w)
qed

end
