(* ===== verification/Spec2Isabelle.thy ===== *)
theory Spec2Isabelle
  imports Lawn2_Theorems Stores_Agree Lawn_Theorems Hashmap_Correct Timeout_Theorems Store_Spec Kern_Theorems Bsd_Running
begin

text \<open>
  Verification development for the Lawn timer stores and the timer stores that they are measured against.
  Paths are relative to the root of the repository.

  \<^bold>\<open>The program.\<close> A timer store keeps timers with a time to live, starts and stops them, and on every tick
  of its clock reports those that are due. Lawn keeps one queue per distinct TTL: a queue is sorted by
  construction, so that only the heads of the queues have to be looked at. The repository holds two
  Lawn stores, the stores of the article (a hashed ring, a binary heap, two timing wheels, and the timer
  wheels of the Linux and FreeBSD kernels), and a harness that drives the stores through one vtable.

  \<^bold>\<open>Theories and code.\<close>
  \<^item> Prelude: undefined behaviour as the option monad, arrays, doubly linked segments of an intrusive list.
  \<^item> src/lawn2.c, src/lawn2.h (Lawn2): Lawn2 has the definitions (the table of blades with linear probing, the
    heap of embedded timers, the list of live blades, the cached next expiration); Lawn2_Table (probing and
    growing), Lawn2_Queues (queues under append and unlink), Lawn2_Correct (invariant, add, del, tick),
    Lawn2_Expiry (next expiration and advance) the lemmas; Lawn2_Theorems the properties.
  \<^item> src/benchmarks/c/cts.h (the vtable): Store_Spec has the record of operations, the abstract store, the locale
    timer_store with the contract of the operations, and in it the refinement of whole workloads.
  \<^item> src/benchmarks/c/impl: Lawn2_Store (lawn2.c and lawn2_clamped.c), Naive_Store (naive.c, over Slots, the
    arrays of ids that it shares with the wheel), Heap_Store and Heap_Correct (heap.c), Wheel_Store and
    Wheel_Correct (wheel_exact.c), Wahern_Store (the adapter wahern.c over the model of timeout.c). Each
    interprets timer_store; Stores_Agree compares them.
  \<^item> src/utils/hashmap.c, src/utils/hashmap.h: Hashmap, Hashmap_Correct (locale hashmap_keys: the laws of a hash
    and an equality function, interpreted for the TTL and the element keys of Lawn in Lawn_Queues).
  \<^item> src/lawn.c, src/lawn.h (the first Lawn): Lawn has the definitions, Lawn_Queues, Lawn_Correct, Lawn_Expiry,
    Lawn_Next the lemmas, Lawn_Theorems the properties.
  \<^item> article/src/c/wheel/timeout-bitops.c: Bitops. article/src/c/wheel/timeout.c, timeout.h: Timeout has the
    definitions, Timeout_Wheel the arithmetic of the slots, Timeout_Correct the invariant and the update,
    Timeout_Queries and Timeout_Events the other operations, Timeout_Theorems the properties.
  \<^item> article/src/c/wheel/kernel_impls/linux_kern_timer.c and .h: Kern_Wheel has the definitions, Kern_Index the
    arithmetic of the buckets, Kern_Next the searches of the bitmap, Kern_Mod arming and disarming, Kern_Run
    and Kern_Fire expiry, Kern_Hotplug the move of the timers of a dead CPU, Kern_Theorems the properties.
  \<^item> article/src/c/wheel/kernel_impls/bsd_kern_timeout.c: Bsd_Callout (data, buckets, callout_cc_add,
    softclock_call_cc, softclock, callout_process) and Bsd_Reset (callout_init, callout_when,
    callout_reset_sbt_on, _callout_stop_safe) have the definitions; Bsd_Wheel the invariant, Bsd_Scan and
    Bsd_Process the scan of the wheel, Bsd_Ops and Bsd_Client adding, removing and running a callout,
    Bsd_System the state machine, Bsd_Theorems and Bsd_Running the properties.

  \<^bold>\<open>How state corresponds.\<close> A struct is a record with the fields of the C struct, a pointer an option of an
  address, and objects that are shared live in a map from addresses. Unsigned integers are words of their width
  (for the FreeBSD file integers with the reduction written out, since its times are signed). An operation
  takes the state and returns it changed; None is undefined behaviour, a failed assertion or a loop that does
  not end, so that a theorem that an operation returns Some is also one of memory safety and termination.
  A list of sys/queue.h or list.h is a HOL list together with, in each element, the list it is linked into.

  \<^bold>\<open>Loops.\<close> Loops over data are recursive functions; a loop whose end depends on the state of the store is
  partial_function (option), without fuel. Its termination is part of the theorems about the operation, and where
  it does not end that is a theorem too: the exact wheel, when a timer more than 2 ^ 48 ticks away is started just
  before the cascade of its slot (wheel_exact_hangs has the exact times and TTLs).

  \<^bold>\<open>What the lemmas show.\<close> For each store an invariant that every operation keeps, the effect of every operation on
  every branch, and for the stores of the harness that they refine the abstract store, hence answer alike.
  The contract holds for ids and TTLs that the arrays of a store can hold: Lawn2 all of both; the ring ids
  below 2 ^ 60 and TTLs below 2 ^ 58; the heap ids below 2 ^ 59; the exact wheel ids below 2 ^ 60 and TTLs below
  2 ^ 48, eight levels of 64 slots; the adapter of the tickless wheel ids below 2 ^ 60. The kernel wheels
  fire within the granularity of their levels, not at the exact time. For the Linux wheel: a run of a base calls exactly
  the timers whose bucket is visited, once each; a timer armed less than 63 * 8 ^ 7 jiffies ahead and then left alone is
  called after its expiry, by at most one jiffy or 8/63 of the time that was left, when nothing else moves the clock of
  its base. That it can be early otherwise, when the clock of an idle base goes back or in the last level, are theorems
  too (kern_clock_rewinds, kern_last_level_early). The theorems on running the wheel are for callbacks that do not
  touch the timers: they see the base they run on and may do anything to the rest of the world (world_call).
  For the callouts the scan
  is exact when the clock interrupts of a CPU are at most 2 ^ 54 units (2 ^ 22 seconds) apart, so that
  32 bit bucket numbers are unambiguous, and its event time is a bound when it does not wrap round part of the
  wheel; the counterexample for the other case is a theorem.

  \<^bold>\<open>Parameters.\<close> malloc and the allocations of a hash map (which may fail), the clock, the address of a local
  variable, the time comparisons and bitmap search of the Linux kernel (record kapi, with their documented
  behaviour as hypotheses), the callbacks of the Linux timers, and for the callouts the functions of the
  callouts and what other threads and CPUs do while a lock is released (record benv). The theorems on the
  reachable states of the callouts are for a system where nothing else happens meanwhile (quiet) and the callout
  functions do not touch the callouts (runs); that the event timers are in time is shown for the runs in which no
  clock interrupt makes the scan wrap round part of the wheel (bsd_paced), safety for all. Bsd_Running has
  the interleavings of a running callout with a stop, and a callout that arms itself.

  \<^bold>\<open>Not modelled.\<close>
  \<^item> src/benchmarks/c (benchmark.c, test.c, util.c, concurrent), src/tests and the scripts: measurement and
    printing. src/utils/millisecond_time.c reads the system clock.
  \<^item> src/benchmarks/c/impl/lawn.c, the adapter of the first Lawn, which makes decimal strings of ids and drives a
    store of wall clock time by writing to its fields.
  \<^item> The parts of linux_kern_timer.c that put the calling task to sleep or belong to debugging and accounting
    (schedule_timeout, msleep, usleep_range, debugobjects, PREEMPT_RT, update_process_times, sysctl), the
    floating point macros of timeout.h.
  \<^item> In bsd_kern_timeout.c the registration of the software interrupts (start_softclock), the statistics and the
    debugger commands, and adjust_timeout_calltodo, which names variables that no longer exist. The scan theorems
    are for wheels without callouts that run from the hardware interrupt (CALLOUT_DIRECT): their functions
    may arm themselves for the past and be run again by the same scan without end.
  \<^item> Freeing of memory that nothing reads afterwards: hashmap__free, and the destroy functions of the adapters. freeLawn
    and del_element_exp are modelled for the non-NULL pointers that the program passes. The length of a queue of the
    first Lawn is a natural number, which is exact for the queues that satisfy the invariant of a queue (qrep).
\<close>

end
